(* ===== verification/Nosv_Prelude.thy ===== *)
theory Nosv_Prelude
  imports Main "HOL-Library.Word" "HOL-Library.Multiset"
begin

section \<open>Shared vocabulary of the nOS-V development\<close>

text \<open>
  This theory fixes the names and the automation that the component theories share:
  \<^item> the machine types of the C sources (\<open>size_t\<close>, \<open>uint64_t\<close>, \<open>int\<close>, pointers);
  \<^item> the result codes of the public API (\<^verbatim>\<open>src/api/nosv/error.h\<close>);
  \<^item> the named collections \<open>nosv_defs\<close> (definitions to unfold) and \<open>nosv_inv\<close>
    (invariant preservation facts);
  \<^item> generic lemmas on list updates, circular indices and option values.
  A C \<open>assert\<close> that can fail, and a call of \<open>nosv_abort\<close>, is the value \<^term>\<open>None\<close>
  of an option result throughout the development.
\<close>

named_theorems nosv_defs "definitions of small helper operations, unfolded by the proofs"
named_theorems nosv_inv "every operation keeps its component's invariant"

type_synonym u64 = "64 word"
type_synonym u32 = "32 word"
type_synonym addr = nat
type_synonym task_id = nat
type_synonym pid = nat
type_synonym cpu_id = nat

text \<open>The null pointer; every object of the model lives at a positive address.\<close>

abbreviation (input) NULL :: nat where
  "NULL \<equiv> 0"

text \<open>The C idiom \<open>assert(c); rest\<close>: the program stops where the condition is false.\<close>

definition assert_then :: "bool \<Rightarrow> 'a option \<Rightarrow> 'a option" where
  "assert_then c r = (if c then r else None)"

lemma assert_then_simps [simp]:
  "assert_then True r = r"
  "assert_then False r = None"
  by (simp_all add: assert_then_def)

lemma assert_then_eq_Some [simp]: "assert_then c r = Some x \<longleftrightarrow> c \<and> r = Some x"
  by (cases c) simp_all

subsection \<open>Result codes of the public interface (src/api/nosv/error.h)\<close>

definition NOSV_SUCCESS :: int where [nosv_defs]: "NOSV_SUCCESS = 0"
definition NOSV_ERR_INVALID_CALLBACK :: int where [nosv_defs]: "NOSV_ERR_INVALID_CALLBACK = - 1"
definition NOSV_ERR_INVALID_METADATA_SIZE :: int where [nosv_defs]: "NOSV_ERR_INVALID_METADATA_SIZE = - 2"
definition NOSV_ERR_INVALID_OPERATION :: int where [nosv_defs]: "NOSV_ERR_INVALID_OPERATION = - 3"
definition NOSV_ERR_INVALID_PARAMETER :: int where [nosv_defs]: "NOSV_ERR_INVALID_PARAMETER = - 4"
definition NOSV_ERR_NOT_INITIALIZED :: int where [nosv_defs]: "NOSV_ERR_NOT_INITIALIZED = - 5"
definition NOSV_ERR_OUT_OF_MEMORY :: int where [nosv_defs]: "NOSV_ERR_OUT_OF_MEMORY = - 6"
definition NOSV_ERR_OUTSIDE_TASK :: int where [nosv_defs]: "NOSV_ERR_OUTSIDE_TASK = - 7"
definition NOSV_ERR_UNKNOWN :: int where [nosv_defs]: "NOSV_ERR_UNKNOWN = - 8"
definition NOSV_ERR_BUSY :: int where [nosv_defs]: "NOSV_ERR_BUSY = - 9"

subsection \<open>Circular indices\<close>

lemma mod_add_right_cancel_nat:
  fixes a b c n :: nat
  assumes "b < n" "c < n" "(a + b) mod n = (a + c) mod n"
  shows "b = c"
proof -
  have "(int a + int b) mod int n = (int a + int c) mod int n"
    using assms(3) by (metis of_nat_add of_nat_mod)
  then have "(int b - int c) mod int n = 0"
    by (metis add_diff_cancel_left mod_diff_cong mod_eq_dvd_iff dvd_imp_mod_0)
  moreover have "\<bar>int b - int c\<bar> < int n" using assms(1,2) by linarith
  ultimately show ?thesis
    by (metis dvd_imp_le_int mod_0_imp_dvd linorder_not_less diff_self of_nat_eq_iff
        eq_iff_diff_eq_0 abs_of_nat)
qed

lemma mod_wrap:
  fixes a k n :: nat
  assumes "a < n" "k < n"
  shows "(a + k) mod n = (if a + k < n then a + k else a + k - n)"
  using assms by (simp add: mod_if)

lemma circular_index_inj:
  fixes n :: nat
  assumes "k \<le> n"
  shows "inj_on (\<lambda>i. (a + i) mod n) {..<k}"
  using assms by (auto intro!: inj_onI elim: mod_add_right_cancel_nat [rotated 2])

lemma circular_index_upd:
  fixes n :: nat
  assumes "i < n" "j < n" "i \<noteq> j" "length xs = n"
  shows "xs[(a + i) mod n := x] ! ((a + j) mod n) = xs ! ((a + j) mod n)"
  using assms mod_add_right_cancel_nat by (metis nth_list_update_neq)

subsection \<open>Lists\<close>

lemma map_upt_Suc_conv: "map f [0..<Suc n] = f 0 # map (\<lambda>i. f (Suc i)) [0..<n]"
  by (rule nth_equalityI) (auto simp: nth_Cons simp del: upt_Suc split: nat.splits)

lemma distinct_remove_middle:
  "distinct (xs @ x # ys) \<Longrightarrow> remove1 x (xs @ x # ys) = xs @ ys"
  by (simp add: remove1_append)

lemma sum_list_update_nat:
  fixes xs :: "nat list"
  assumes "i < length xs"
  shows "sum_list (xs[i := x]) + xs ! i = sum_list xs + x"
  using assms elem_le_sum_list [of i xs] by (simp add: sum_list_update)

end
