(* ===== verification/Linked_List.thy ===== *)
theory Linked_List
  imports Nosv_Prelude
begin

section \<open>The intrusive doubly-linked list (src/src/include/generic/list.h)\<close>

text \<open>
  The memory holds a \<open>list_head_t\<close> at every address: a record of its two pointer fields.
  Each operation of the header is one definition that performs the header's stores in the
  header's order and returns \<^term>\<open>None\<close> where one of its assertions fails.
  \<open>dlist h head xs\<close> says that the circular list at \<open>head\<close> holds the nodes \<open>xs\<close>;
  the lemmas show that every operation implements its list counterpart, that no
  assertion fails on well-formed lists, and that lists elsewhere in memory are untouched.
\<close>

record list_heap =
  nxt :: "addr \<Rightarrow> addr"
  prv :: "addr \<Rightarrow> addr"

definition set_nxt :: "addr \<Rightarrow> addr \<Rightarrow> list_heap \<Rightarrow> list_heap" where
  "set_nxt p v h = h\<lparr>nxt := (nxt h)(p := v)\<rparr>"

definition set_prv :: "addr \<Rightarrow> addr \<Rightarrow> list_heap \<Rightarrow> list_heap" where
  "set_prv p v h = h\<lparr>prv := (prv h)(p := v)\<rparr>"

lemma field_simps_heap [simp]:
  "nxt (set_nxt p v h) = (nxt h)(p := v)" "prv (set_nxt p v h) = prv h"
  "nxt (set_prv p v h) = nxt h" "prv (set_prv p v h) = (prv h)(p := v)"
  by (simp_all add: set_nxt_def set_prv_def)

subsection \<open>Operations\<close>

definition list_is_head :: "addr \<Rightarrow> addr \<Rightarrow> bool" where
  "list_is_head n head = (n = head)"

definition list_next_circular :: "list_heap \<Rightarrow> addr \<Rightarrow> addr \<Rightarrow> addr" where
  "list_next_circular h p hdr = (if list_is_head (nxt h p) hdr then nxt h hdr else nxt h p)"

definition list_empty :: "list_heap \<Rightarrow> addr \<Rightarrow> bool" where
  "list_empty h head = list_is_head (nxt h head) head"

definition list_node_is_inserted_in_any_list :: "list_heap \<Rightarrow> addr \<Rightarrow> bool option" where
  "list_node_is_inserted_in_any_list h n =
     (if nxt h n = NULL then assert_then (prv h n = NULL) (Some False)
      else if list_is_head (nxt h n) n then assert_then (n = prv h n) (Some False)
      else assert_then (prv h n \<noteq> NULL)
             (assert_then (\<not> list_is_head (prv h n) n) (Some True)))"

definition list_init :: "list_heap \<Rightarrow> addr \<Rightarrow> list_heap option" where
  "list_init h head =
     assert_then (head \<noteq> NULL) (Some (set_prv head head (set_nxt head head h)))"

definition list_add_between :: "list_heap \<Rightarrow> addr \<Rightarrow> addr \<Rightarrow> addr \<Rightarrow> list_heap option" where
  "list_add_between h prev n next =
     assert_then (prv h prev \<noteq> NULL) (assert_then (nxt h next \<noteq> NULL)
       (let h1 = set_prv next n h;
            h2 = set_nxt prev n h1;
            h3 = set_nxt n next h2;
            h4 = set_prv n prev h3
        in Some h4))"

definition list_add :: "list_heap \<Rightarrow> addr \<Rightarrow> addr \<Rightarrow> list_heap option" where
  "list_add h head n =
     assert_then (list_node_is_inserted_in_any_list h n = Some False)
       (assert_then (nxt h head \<noteq> NULL \<and> prv h head \<noteq> NULL)
         (assert_then (nxt h n \<noteq> NULL \<and> prv h n \<noteq> NULL)
           (list_add_between h head n (nxt h head))))"

definition list_add_tail :: "list_heap \<Rightarrow> addr \<Rightarrow> addr \<Rightarrow> list_heap option" where
  "list_add_tail h head n =
     assert_then (list_node_is_inserted_in_any_list h n = Some False)
       (assert_then (nxt h head \<noteq> NULL \<and> prv h head \<noteq> NULL)
         (list_add_between h (prv h head) n head))"

definition list_remove_between :: "list_heap \<Rightarrow> addr \<Rightarrow> addr \<Rightarrow> list_heap" where
  "list_remove_between h prev next = set_nxt prev next (set_prv next prev h)"

definition list_pop_front :: "list_heap \<Rightarrow> addr \<Rightarrow> (list_heap \<times> addr) option" where
  "list_pop_front h head =
     assert_then (nxt h head \<noteq> NULL \<and> prv h head \<noteq> NULL)
       (if list_empty h head then Some (h, NULL)
        else (let old_next = nxt h head in
          assert_then (list_node_is_inserted_in_any_list h old_next = Some True)
            (case list_init (list_remove_between h head (nxt h old_next)) old_next of
               None \<Rightarrow> None
             | Some h' \<Rightarrow> Some (h', old_next))))"

definition list_replace :: "list_heap \<Rightarrow> addr \<Rightarrow> addr \<Rightarrow> list_heap option" where
  "list_replace h old new =
     assert_then (nxt h old \<noteq> NULL \<and> prv h old \<noteq> NULL)
       (if list_is_head old (nxt h old) then list_init h new
        else assert_then (list_node_is_inserted_in_any_list h old = Some True)
          (let h1 = set_nxt new (nxt h old) h;
               h2 = set_prv new (prv h1 old) h1;
               h3 = set_prv (nxt h2 new) new h2;
               h4 = set_nxt (prv h3 new) new h3
           in list_init h4 old))"

definition list_move_head :: "list_heap \<Rightarrow> addr \<Rightarrow> addr \<Rightarrow> list_heap option" where
  "list_move_head h old new =
     (let h1 = set_nxt (prv h old) new h;
          h2 = set_prv (nxt h1 old) new h1;
          h3 = set_prv new (prv h2 old) h2;
          h4 = set_nxt new (nxt h3 old) h3
      in list_init h4 old)"

definition list_front :: "list_heap \<Rightarrow> addr \<Rightarrow> addr option" where
  "list_front h head =
     assert_then (nxt h head \<noteq> NULL \<and> prv h head \<noteq> NULL)
       (if list_empty h head then Some NULL else Some (nxt h head))"

definition list_remove :: "list_heap \<Rightarrow> addr \<Rightarrow> list_heap option" where
  "list_remove h n =
     assert_then (nxt h n \<noteq> NULL) (assert_then (prv h n \<noteq> NULL)
       (assert_then (\<not> list_is_head (nxt h n) n) (assert_then (\<not> list_is_head (prv h n) n)
         (list_init (list_remove_between h (prv h n) (nxt h n)) n))))"

text \<open>The list with a count: the head's address and the \<open>cnt\<close> field.\<close>

record clist_head =
  c_head :: addr
  cnt :: nat

definition clist_init :: "list_heap \<Rightarrow> clist_head \<Rightarrow> (list_heap \<times> clist_head) option" where
  "clist_init h c = map_option (\<lambda>h'. (h', c\<lparr>cnt := 0\<rparr>)) (list_init h (c_head c))"

definition clist_count :: "clist_head \<Rightarrow> nat" where
  "clist_count c = cnt c"

definition clist_empty :: "clist_head \<Rightarrow> bool" where
  "clist_empty c = (cnt c = 0)"

definition clist_add :: "list_heap \<Rightarrow> clist_head \<Rightarrow> addr \<Rightarrow> (list_heap \<times> clist_head) option" where
  "clist_add h c n = map_option (\<lambda>h'. (h', c\<lparr>cnt := cnt c + 1\<rparr>)) (list_add h (c_head c) n)"

definition clist_remove :: "list_heap \<Rightarrow> clist_head \<Rightarrow> addr \<Rightarrow> (list_heap \<times> clist_head) option" where
  "clist_remove h c n = map_option (\<lambda>h'. (h', c\<lparr>cnt := cnt c - 1\<rparr>)) (list_remove h n)"

definition clist_pop_front :: "list_heap \<Rightarrow> clist_head \<Rightarrow> (list_heap \<times> clist_head \<times> addr) option" where
  "clist_pop_front h c =
     map_option (\<lambda>(h', first). (h', (if first \<noteq> NULL then c\<lparr>cnt := cnt c - 1\<rparr> else c), first))
       (list_pop_front h (c_head c))"

text \<open>
  \<open>list_for_each_pop\<close> with a body that only records the node it was given; the fuel bounds the
  iterations and \<^term>\<open>None\<close> stands for running out of it.
\<close>

fun list_for_each_pop :: "nat \<Rightarrow> list_heap \<Rightarrow> addr \<Rightarrow> (list_heap \<times> addr list) option" where
  "list_for_each_pop 0 h head = None"
| "list_for_each_pop (Suc fuel) h head =
     (case list_pop_front h head of
        None \<Rightarrow> None
      | Some (h', pos) \<Rightarrow>
          if pos = NULL then Some (h', [])
          else map_option (\<lambda>(h'', ps). (h'', pos # ps)) (list_for_each_pop fuel h' head))"

lemmas list_op_defs [nosv_defs] =
  list_is_head_def list_empty_def list_node_is_inserted_in_any_list_def list_init_def
  list_add_between_def list_remove_between_def Let_def

subsection \<open>The abstraction\<close>

text \<open>\<open>seg h a xs b\<close>: following \<open>nxt\<close> from \<open>a\<close> visits \<open>xs\<close> and ends at \<open>b\<close>, and
  the \<open>prv\<close> pointers go back the same way.\<close>

fun seg :: "list_heap \<Rightarrow> addr \<Rightarrow> addr list \<Rightarrow> addr \<Rightarrow> bool" where
  "seg h a [] b = (nxt h a = b \<and> prv h b = a)"
| "seg h a (x # xs) b = (nxt h a = x \<and> prv h x = a \<and> seg h x xs b)"

definition dlist :: "list_heap \<Rightarrow> addr \<Rightarrow> addr list \<Rightarrow> bool" where
  "dlist h head xs = (distinct (head # xs) \<and> NULL \<notin> set (head # xs) \<and> seg h head xs head)"

lemma seg_append [simp]: "seg h a (xs @ y # ys) b \<longleftrightarrow> seg h a xs y \<and> seg h y ys b"
  by (induction xs arbitrary: a) auto

lemma seg_frame:
  assumes "\<forall>p \<in> insert a (set xs). nxt h' p = nxt h p"
    and "\<forall>p \<in> insert b (set xs). prv h' p = prv h p"
  shows "seg h' a xs b = seg h a xs b"
  using assms by (induction xs arbitrary: a) auto

lemma seg_last: "seg h a xs b \<Longrightarrow> prv h b = last (a # xs)"
  by (induction xs arbitrary: a) auto

lemma seg_first: "seg h a xs b \<Longrightarrow> nxt h a = hd (xs @ [b])"
  by (cases xs) auto

lemma dlist_frame:
  assumes "dlist h head xs"
    and "\<forall>p \<in> set (head # xs). nxt h' p = nxt h p \<and> prv h' p = prv h p"
  shows "dlist h' head xs"
  using assms seg_frame [of head xs h' h head] by (auto simp: dlist_def)

lemma dlist_unique: "dlist h head xs \<Longrightarrow> dlist h head ys \<Longrightarrow> xs = ys"
proof -
  have "seg h a xs b \<Longrightarrow> seg h a ys b \<Longrightarrow> b \<notin> set xs \<Longrightarrow> b \<notin> set ys \<Longrightarrow> xs = ys" for a b
  proof (induction xs arbitrary: a ys)
    case Nil then show ?case by (cases ys) auto
  next
    case (Cons x xs) then show ?case by (cases ys) auto
  qed
  then show "dlist h head xs \<Longrightarrow> dlist h head ys \<Longrightarrow> xs = ys" by (auto simp: dlist_def)
qed

lemma dlist_nonnull:
  "dlist h head xs \<Longrightarrow> n \<in> set (head # xs) \<Longrightarrow> nxt h n \<noteq> NULL \<and> prv h n \<noteq> NULL"
proof -
  have "seg h a xs b \<Longrightarrow> NULL \<notin> set (a # xs @ [b]) \<Longrightarrow> n \<in> insert a (set xs) \<Longrightarrow> nxt h n \<noteq> NULL"
    for a b by (induction xs arbitrary: a) auto
  moreover have "seg h a xs b \<Longrightarrow> NULL \<notin> set (a # xs @ [b]) \<Longrightarrow> n \<in> insert b (set xs) \<Longrightarrow> prv h n \<noteq> NULL"
    for a b by (induction xs arbitrary: a) auto
  ultimately show "dlist h head xs \<Longrightarrow> n \<in> set (head # xs) \<Longrightarrow> nxt h n \<noteq> NULL \<and> prv h n \<noteq> NULL"
    by (auto simp: dlist_def)
qed

lemma dlist_not_self:
  assumes "dlist h head xs" "n \<in> set xs"
  shows "nxt h n \<noteq> n" "prv h n \<noteq> n"
proof -
  obtain as bs where xs: "xs = as @ n # bs" using assms(2) by (meson split_list)
  have "seg h head as n" "seg h n bs head" using assms(1) by (auto simp: dlist_def xs)
  then have "nxt h n = hd (bs @ [head])" "prv h n = last (head # as)"
    by (auto dest: seg_first seg_last)
  then show "nxt h n \<noteq> n" "prv h n \<noteq> n" using assms(1)
    by (cases bs; auto simp: dlist_def xs) (cases as rule: rev_cases; use assms(1) in \<open>auto simp: dlist_def xs\<close>)
qed

subsection \<open>Correctness of the operations\<close>

text \<open>\<open>same_outside h h' A\<close>: the two memories agree on every node outside \<open>A\<close>, so lists that
  share no node with \<open>A\<close> are unchanged.\<close>

definition same_outside :: "list_heap \<Rightarrow> list_heap \<Rightarrow> addr set \<Rightarrow> bool" where
  "same_outside h h' A = (\<forall>p. p \<notin> A \<longrightarrow> nxt h' p = nxt h p \<and> prv h' p = prv h p)"

lemma dlist_same_outside:
  "same_outside h h' A \<Longrightarrow> dlist h hd' ys \<Longrightarrow> set (hd' # ys) \<inter> A = {} \<Longrightarrow> dlist h' hd' ys"
  by (rule dlist_frame) (auto simp: same_outside_def)

lemma list_init_dlist:
  "head \<noteq> NULL \<Longrightarrow> \<exists>h'. list_init h head = Some h' \<and> dlist h' head [] \<and> same_outside h h' {head}"
  by (auto simp: list_init_def dlist_def same_outside_def)

lemma dlist_empty_conv: "dlist h n [] \<longleftrightarrow> n \<noteq> NULL \<and> nxt h n = n \<and> prv h n = n"
  by (auto simp: dlist_def)

lemma not_inserted_if_alone: "dlist h n [] \<Longrightarrow> list_node_is_inserted_in_any_list h n = Some False"
  by (simp add: dlist_empty_conv list_node_is_inserted_in_any_list_def list_is_head_def)

lemma inserted_if_member:
  assumes "dlist h head xs" "n \<in> set xs"
  shows "list_node_is_inserted_in_any_list h n = Some True"
  using dlist_nonnull [OF assms(1), of n] dlist_not_self [OF assms] assms(2)
  by (auto simp: list_node_is_inserted_in_any_list_def list_is_head_def)

lemma list_add_between_dlist:
  assumes d: "dlist h head (as @ bs)" and n: "n \<notin> set (head # as @ bs)" "n \<noteq> NULL"
    and prev: "prev = last (head # as)" and nx: "next = hd (bs @ [head])"
  shows "\<exists>h'. list_add_between h prev n next = Some h' \<and> dlist h' head (as @ n # bs)
    \<and> same_outside h h' (set (n # head # as @ bs))"
proof -
  let ?h = "set_prv n prev (set_nxt n next (set_nxt prev n (set_prv next n h)))"
  have mem: "prev \<in> set (head # as)" "next \<in> set (bs @ [head])"
    by (auto simp: prev nx last_in_set) (cases bs; simp)
  have res: "list_add_between h prev n next = Some ?h"
    using mem dlist_nonnull [OF d, of prev] dlist_nonnull [OF d, of "next"]
    by (auto simp: list_add_between_def)
  have left: "seg ?h head as n"
  proof (cases as rule: rev_cases)
    case Nil then show ?thesis using n prev nx by (auto split: if_splits)
  next
    case (snoc as' p)
    then have p: "prev = p" using prev by simp
    have "seg ?h head as' p = seg h head as' p"
      using d n mem unfolding p snoc by (intro seg_frame) (auto simp: dlist_def)
    then show ?thesis using d n p mem by (auto simp: dlist_def snoc)
  qed
  have right: "seg ?h n bs head"
  proof (cases bs)
    case Nil then show ?thesis using n prev nx by (auto split: if_splits)
  next
    case (Cons q bs')
    then have q: "next = q" using nx by simp
    have "seg ?h q bs' head = seg h q bs' head"
      using d n mem unfolding q Cons by (intro seg_frame) (auto simp: dlist_def)
    then show ?thesis using d n q mem by (auto simp: dlist_def Cons)
  qed
  have "same_outside h ?h (set (n # head # as @ bs))"
    using mem by (auto simp: same_outside_def)
  with res left right d n show ?thesis by (auto simp: dlist_def)
qed

lemma list_add_dlist:
  assumes "dlist h head xs" "dlist h n []" "n \<notin> set (head # xs)"
  shows "\<exists>h'. list_add h head n = Some h' \<and> dlist h' head (n # xs)
    \<and> same_outside h h' (set (n # head # xs))"
proof -
  have "nxt h head = hd (xs @ [head])" using assms(1) by (auto simp: dlist_def dest: seg_first)
  then show ?thesis
    using list_add_between_dlist [of h head "[]" xs n head "nxt h head"] assms
      dlist_nonnull [OF assms(1), of head] dlist_nonnull [OF assms(2), of n]
    by (auto simp: list_add_def not_inserted_if_alone dlist_empty_conv)
qed

lemma list_add_tail_dlist:
  assumes "dlist h head xs" "dlist h n []" "n \<notin> set (head # xs)"
  shows "\<exists>h'. list_add_tail h head n = Some h' \<and> dlist h' head (xs @ [n])
    \<and> same_outside h h' (set (n # head # xs))"
proof -
  have "prv h head = last (head # xs)" using assms(1) by (auto simp: dlist_def dest: seg_last)
  then show ?thesis
    using list_add_between_dlist [of h head xs "[]" n "prv h head" head] assms
      dlist_nonnull [OF assms(1), of head]
    by (auto simp: list_add_tail_def not_inserted_if_alone dlist_empty_conv)
qed

text \<open>Unlinking the node between two stretches of a list and re-initialising it.\<close>

lemma list_unlink_dlist:
  assumes d: "dlist h head (as @ n # bs)"
    and p: "prev = last (head # as)" and q: "next = hd (bs @ [head])"
  shows "\<exists>h'. list_init (list_remove_between h prev next) n = Some h' \<and> dlist h' head (as @ bs)
    \<and> dlist h' n [] \<and> same_outside h h' (set (head # as @ n # bs))"
proof -
  let ?h = "set_prv n n (set_nxt n n (list_remove_between h prev next))"
  have mem: "prev \<in> set (head # as)" "next \<in> set (bs @ [head])"
    by (auto simp: p q last_in_set) (cases bs; simp)
  have "seg ?h head (as @ bs) head"
  proof (cases as rule: rev_cases)
    case Nil
    show ?thesis
    proof (cases bs)
      case Nil with \<open>as = []\<close> p q d show ?thesis by (auto simp: list_remove_between_def dlist_def)
    next
      case (Cons y ys)
      then have "seg ?h y ys head = seg h y ys head"
        using d p q \<open>as = []\<close> by (intro seg_frame) (auto simp: dlist_def list_remove_between_def)
      then show ?thesis using Cons Nil d p q by (auto simp: list_remove_between_def dlist_def)
    qed
  next
    case (snoc as' x)
    have l: "seg ?h head as' x = seg h head as' x"
      using d p q mem snoc by (intro seg_frame) (auto simp: dlist_def list_remove_between_def)
    show ?thesis
    proof (cases bs)
      case Nil then show ?thesis using l d p q snoc by (auto simp: list_remove_between_def dlist_def)
    next
      case (Cons y ys)
      then have "seg ?h y ys head = seg h y ys head"
        using d p q snoc by (intro seg_frame) (auto simp: dlist_def list_remove_between_def)
      then show ?thesis using l Cons d p q snoc by (auto simp: list_remove_between_def dlist_def)
    qed
  qed
  moreover have "same_outside h ?h (set (head # as @ n # bs))"
    using mem by (auto simp: same_outside_def list_remove_between_def)
  ultimately show ?thesis using d by (auto simp: list_init_def dlist_def)
qed

lemma list_empty_iff: "dlist h head xs \<Longrightarrow> list_empty h head \<longleftrightarrow> xs = []"
  by (cases xs) (auto simp: dlist_def list_empty_def list_is_head_def)

lemma list_pop_front_dlist_Nil: "dlist h head [] \<Longrightarrow> list_pop_front h head = Some (h, NULL)"
  by (auto simp: list_pop_front_def dlist_empty_conv list_empty_def list_is_head_def)

lemma list_pop_front_dlist_Cons:
  assumes "dlist h head (x # xs)"
  shows "\<exists>h'. list_pop_front h head = Some (h', x) \<and> dlist h' head xs \<and> dlist h' x []
    \<and> same_outside h h' (set (head # x # xs))"
proof -
  have nx: "nxt h head = x" "nxt h x = hd (xs @ [head])"
    using assms by (auto simp: dlist_def dest: seg_first)
  have ins: "list_node_is_inserted_in_any_list h x = Some True"
    using assms by (rule inserted_if_member) simp
  show ?thesis
    using list_unlink_dlist [of h head "[]" x xs head "nxt h x"] assms nx ins
      dlist_nonnull [OF assms, of head] list_empty_iff [OF assms]
    by (auto simp: list_pop_front_def)
qed

lemma list_front_dlist:
  assumes "dlist h head xs"
  shows "list_front h head = Some (case xs of [] \<Rightarrow> NULL | x # _ \<Rightarrow> x)"
  using assms dlist_nonnull [OF assms, of head] list_empty_iff [OF assms]
  by (cases xs) (auto simp: list_front_def dlist_def)

lemma list_remove_dlist:
  assumes "dlist h head (as @ n # bs)"
  shows "\<exists>h'. list_remove h n = Some h' \<and> dlist h' head (as @ bs) \<and> dlist h' n []
    \<and> same_outside h h' (set (head # as @ n # bs))"
proof -
  have "prv h n = last (head # as)" "nxt h n = hd (bs @ [head])"
    using assms by (auto simp: dlist_def dest: seg_first seg_last)
  then show ?thesis
    using list_unlink_dlist [OF assms] dlist_nonnull [OF assms, of n] dlist_not_self [OF assms, of n]
    by (auto simp: list_remove_def list_is_head_def)
qed

text \<open>The head itself can be taken out of a non-empty ring: the rest keeps its order, and its first
  node now plays the head. \<open>scheduler_add_queue\<close> and \<open>scheduler_pop_queue\<close> rely on it.\<close>

lemma list_remove_head_dlist:
  assumes "dlist h head (x # xs)"
  shows "\<exists>h'. list_remove h head = Some h' \<and> dlist h' x xs \<and> dlist h' head []
    \<and> same_outside h h' (set (head # x # xs))"
proof -
  have rot: "dlist h x (xs @ [head])" using assms by (auto simp: dlist_def)
  show ?thesis using list_remove_dlist [OF rot] by (simp add: insert_commute)
qed

lemma list_move_head_dlist:
  assumes d: "dlist h old xs" and n: "new \<notin> set (old # xs)" "new \<noteq> NULL"
  shows "xs \<noteq> [] \<Longrightarrow> \<exists>h'. list_move_head h old new = Some h' \<and> dlist h' new xs \<and> dlist h' old []
    \<and> same_outside h h' (set (new # old # xs))"
proof -
  assume "xs \<noteq> []"
  then obtain ys y where last: "xs = ys @ [y]" by (cases xs rule: rev_cases) auto
  obtain z zs where first: "xs = z # zs" using \<open>xs \<noteq> []\<close> by (cases xs) auto
  let ?h = "set_prv old old (set_nxt old old (set_nxt new z (set_prv new y (set_prv z new (set_nxt y new h)))))"
  have py: "prv h old = y" "nxt h old = z"
  proof -
    have "seg h old xs old" using d by (simp add: dlist_def)
    from seg_last [OF this] show "prv h old = y" by (simp add: last)
    from seg_first [OF \<open>seg h old xs old\<close>] show "nxt h old = z" by (simp add: first)
  qed
  have mem: "y \<in> set xs" "z \<in> set xs" "y \<noteq> old" "z \<noteq> old" "y \<noteq> new" "z \<noteq> new" "old \<noteq> new"
  proof -
    show "y \<in> set xs" by (simp add: last)
    show "z \<in> set xs" by (simp add: first)
    with \<open>y \<in> set xs\<close> d n show "y \<noteq> old" "z \<noteq> old" "y \<noteq> new" "z \<noteq> new" "old \<noteq> new"
      by (auto simp: dlist_def)
  qed
  have res: "list_move_head h old new = Some ?h"
    using d mem py by (auto simp: list_move_head_def list_init_def dlist_def)
  have seg1: "seg h z (zs @ []) old" using d first by (simp add: dlist_def)
  have "seg ?h new xs new"
  proof (cases ys)
    case Nil
    then show ?thesis using last first mem d by (auto simp: dlist_def)
  next
    case (Cons z' ys')
    then have "z' = z" "zs = ys' @ [y]" using last first by auto
    then have "seg ?h z ys' y = seg h z ys' y"
      using d n mem first by (intro seg_frame) (auto simp: dlist_def)
    then show ?thesis using Cons last mem d \<open>z' = z\<close> by (auto simp: dlist_def)
  qed
  moreover have "same_outside h ?h (set (new # old # xs))" using mem by (auto simp: same_outside_def)
  ultimately show ?thesis using res d n by (auto simp: dlist_def)
qed

text \<open>On an empty list the second store reads the \<open>next\<close> field that the first one has just
  overwritten: the new head ends with \<open>next\<close> on itself and \<open>prev\<close> on the old head. The
  emptiness test, which reads \<open>next\<close> only, still answers true, but the node is not a
  well-formed empty list.\<close>

lemma list_move_head_empty:
  assumes "dlist h old []" "new \<noteq> old"
  shows "\<exists>h'. list_move_head h old new = Some h' \<and> list_empty h' new \<and> prv h' new = old
    \<and> \<not> dlist h' new []"
  using assms by (auto simp: list_move_head_def list_init_def dlist_empty_conv list_op_defs)

subsection \<open>Counted lists\<close>

definition clist :: "list_heap \<Rightarrow> clist_head \<Rightarrow> addr list \<Rightarrow> bool" where
  "clist h c xs = (dlist h (c_head c) xs \<and> cnt c = length xs)"

lemma clist_empty_iff: "clist h c xs \<Longrightarrow> clist_empty c \<longleftrightarrow> xs = []"
  by (auto simp: clist_def clist_empty_def)

lemma clist_add_clist:
  assumes "clist h c xs" "dlist h n []" "n \<notin> set (c_head c # xs)"
  shows "\<exists>h' c'. clist_add h c n = Some (h', c') \<and> clist h' c' (n # xs) \<and> c_head c' = c_head c
    \<and> same_outside h h' (set (n # c_head c # xs))"
  using list_add_dlist [of h "c_head c" xs n] assms
  by (fastforce simp: clist_def clist_add_def)

lemma clist_remove_clist:
  assumes "clist h c (as @ n # bs)"
  shows "\<exists>h' c'. clist_remove h c n = Some (h', c') \<and> clist h' c' (as @ bs) \<and> dlist h' n []
    \<and> c_head c' = c_head c \<and> same_outside h h' (set (c_head c # as @ n # bs))"
  using list_remove_dlist [of h "c_head c" as n bs] assms
  by (fastforce simp: clist_def clist_remove_def)

lemma clist_pop_front_clist_Cons:
  assumes "clist h c (x # xs)"
  shows "\<exists>h' c'. clist_pop_front h c = Some (h', c', x) \<and> clist h' c' xs \<and> dlist h' x []
    \<and> c_head c' = c_head c \<and> same_outside h h' (set (c_head c # x # xs))"
  using list_pop_front_dlist_Cons [of h "c_head c" x xs] assms
  by (fastforce simp: clist_def clist_pop_front_def dlist_def)

lemma clist_pop_front_clist_Nil:
  "clist h c [] \<Longrightarrow> clist_pop_front h c = Some (h, c, NULL)"
  by (simp add: clist_def clist_pop_front_def list_pop_front_dlist_Nil)

subsection \<open>The interface the clients rely on\<close>

text \<open>
  A store of queues of nodes: what the scheduler, the mutexes and the condition variables use of
  the list. \<open>holds s q xs\<close> is the provider's abstraction; \<open>alone s n\<close> says that the node is in
  no list. The client fact is that popping until the queue is empty (the macro
  \<open>list_for_each_pop\<close>) visits the nodes in order, terminates and leaves each of them alone.
\<close>

locale intrusive_queue =
  fixes holds :: "'s \<Rightarrow> addr \<Rightarrow> addr list \<Rightarrow> bool"
    and push_tail :: "'s \<Rightarrow> addr \<Rightarrow> addr \<Rightarrow> 's option"
    and pop_front :: "'s \<Rightarrow> addr \<Rightarrow> ('s \<times> addr) option"
    and unchanged :: "'s \<Rightarrow> 's \<Rightarrow> addr set \<Rightarrow> bool"
  assumes push_law: "holds s q xs \<Longrightarrow> holds s n [] \<Longrightarrow> n \<notin> set (q # xs) \<Longrightarrow>
      \<exists>s'. push_tail s q n = Some s' \<and> holds s' q (xs @ [n]) \<and> unchanged s s' (set (n # q # xs))"
    and pop_Nil_law: "holds s q [] \<Longrightarrow> pop_front s q = Some (s, NULL)"
    and pop_Cons_law: "holds s q (x # xs) \<Longrightarrow>
      \<exists>s'. pop_front s q = Some (s', x) \<and> holds s' q xs \<and> holds s' x [] \<and> unchanged s s' (set (q # x # xs))"
    and holds_nonnull: "holds s q xs \<Longrightarrow> n \<in> set xs \<Longrightarrow> n \<noteq> NULL"
    and holds_distinct: "holds s q xs \<Longrightarrow> distinct (q # xs)"
    and frame_law: "unchanged s s' A \<Longrightarrow> holds s p ys \<Longrightarrow> set (p # ys) \<inter> A = {} \<Longrightarrow> holds s' p ys"
begin

fun drain :: "nat \<Rightarrow> 's \<Rightarrow> addr \<Rightarrow> ('s \<times> addr list) option" where
  "drain 0 s q = None"
| "drain (Suc fuel) s q =
     (case pop_front s q of
        None \<Rightarrow> None
      | Some (s', pos) \<Rightarrow>
          if pos = NULL then Some (s', [])
          else map_option (\<lambda>(s'', ps). (s'', pos # ps)) (drain fuel s' q))"

lemma drain_in_order:
  assumes "holds s q xs" "length xs < fuel"
  shows "\<exists>s'. drain fuel s q = Some (s', xs) \<and> holds s' q []"
  using assms
proof (induction fuel arbitrary: s xs)
  case 0 then show ?case by simp
next
  case (Suc fuel)
  show ?case
  proof (cases xs)
    case Nil then show ?thesis using Suc.prems pop_Nil_law by fastforce
  next
    case (Cons x ys)
    obtain s1 where s1: "pop_front s q = Some (s1, x)" "holds s1 q ys"
      using pop_Cons_law Suc.prems(1) Cons by blast
    then obtain s2 where "drain fuel s1 q = Some (s2, ys)" "holds s2 q []"
      using Suc.IH [of s1 ys] Suc.prems(2) Cons by auto
    then show ?thesis using s1 Cons holds_nonnull [OF Suc.prems(1), of x] by auto
  qed
qed

lemma push_then_drain:
  assumes "holds s q xs" "holds s n []" "n \<notin> set (q # xs)" "Suc (length xs) < fuel"
  shows "\<exists>s1 s2. push_tail s q n = Some s1 \<and> drain fuel s1 q = Some (s2, xs @ [n])"
proof -
  obtain s1 where s1: "push_tail s q n = Some s1" "holds s1 q (xs @ [n])"
    using push_law [OF assms(1,2,3)] by blast
  then show ?thesis using drain_in_order [OF s1(2), of fuel] assms(4) by auto
qed

end

interpretation il: intrusive_queue dlist list_add_tail list_pop_front same_outside
proof unfold_locales
  fix s q xs n assume "dlist s q xs" "dlist s n []" "n \<notin> set (q # xs)"
  then show "\<exists>s'. list_add_tail s q n = Some s' \<and> dlist s' q (xs @ [n]) \<and> same_outside s s' (set (n # q # xs))"
    by (rule list_add_tail_dlist)
next
  fix s q assume "dlist s q []"
  then show "list_pop_front s q = Some (s, NULL)" by (rule list_pop_front_dlist_Nil)
next
  fix s q x xs assume "dlist s q (x # xs)"
  then show "\<exists>s'. list_pop_front s q = Some (s', x) \<and> dlist s' q xs \<and> dlist s' x [] \<and>
      same_outside s s' (set (q # x # xs))" by (rule list_pop_front_dlist_Cons)
next
  fix s q xs n assume "dlist s q xs" "n \<in> set xs" then show "n \<noteq> NULL"
    by (metis dlist_def list.set_intros(2))
next
  fix s q xs assume "dlist s q xs" then show "distinct (q # xs)" by (simp add: dlist_def)
next
  fix s s' A p ys assume "same_outside s s' A" "dlist s p ys" "set (p # ys) \<inter> A = {}"
  then show "dlist s' p ys" by (rule dlist_same_outside)
qed

lemma list_for_each_pop_drain: "list_for_each_pop fuel h head = il.drain fuel h head"
  by (induction fuel arbitrary: h) (auto split: option.splits prod.splits if_splits)

subsection \<open>Properties\<close>

text \<open>FIFO hand-over through the intrusive list: appending a free node with
  \<open>list_add_tail\<close> and then running \<open>list_for_each_pop\<close> fails no assertion, terminates, and
  visits the old nodes in order followed by the new one; the list ends empty.\<close>

theorem list_add_tail_for_each_pop:
  assumes "dlist h head xs" "dlist h n []" "n \<notin> set (head # xs)" "Suc (length xs) < fuel"
  shows "\<exists>h1 h2. list_add_tail h head n = Some h1 \<and> list_for_each_pop fuel h1 head = Some (h2, xs @ [n])"
  using il.push_then_drain [OF assms] by (simp add: list_for_each_pop_drain)

theorem list_add_tail_for_each_pop_witness:
  "\<exists>h1 h2. list_add_tail \<lparr>nxt = id, prv = id\<rparr> 1 2 = Some h1
     \<and> list_for_each_pop 5 h1 1 = Some (h2, [2])"
  using list_add_tail_for_each_pop [of "\<lparr>nxt = id, prv = id\<rparr>" 1 "[]" 2 5]
  by (simp add: dlist_def)

text \<open>Removing any node of a list: \<open>list_remove\<close> passes its four assertions, links its
  neighbours to each other so that the remaining nodes keep their order, leaves the removed
  node an empty list of its own, and changes no list that shares no node with this one.\<close>

theorem list_remove_refines_remove1:
  assumes "dlist h head xs" "n \<in> set xs"
  shows "\<exists>h'. list_remove h n = Some h' \<and> dlist h' head (remove1 n xs) \<and> dlist h' n []
    \<and> (\<forall>other ys. dlist h other ys \<and> set (other # ys) \<inter> set (head # xs) = {} \<longrightarrow> dlist h' other ys)"
proof -
  obtain as bs where xs: "xs = as @ n # bs" using assms(2) by (meson split_list)
  obtain h' where h': "list_remove h n = Some h'" "dlist h' head (as @ bs)" "dlist h' n []"
    "same_outside h h' (set (head # as @ n # bs))"
    using list_remove_dlist assms(1) unfolding xs by blast
  have "remove1 n xs = as @ bs"
    using assms(1) by (simp add: xs dlist_def remove1_append)
  with h' show ?thesis using dlist_same_outside unfolding xs by (metis set_append)
qed

theorem list_remove_refines_remove1_witness:
  "\<exists>h'. list_remove \<lparr>nxt = id(1 := 2, 2 := 1), prv = id(1 := 2, 2 := 1)\<rparr> 2 = Some h'
     \<and> dlist h' 1 [] \<and> dlist h' 2 []"
  using list_remove_refines_remove1 [of "\<lparr>nxt = id(1 := 2, 2 := 1), prv = id(1 := 2, 2 := 1)\<rparr>" 1 "[2]" 2]
  by (auto simp: dlist_def)

end
