(* ===== verification/Bounded_Queue.thy ===== *)
theory Bounded_Queue
  imports Nosv_Prelude
begin

section \<open>Bounded FIFO queues (ringbuffer.h, spsc.h)\<close>

text \<open>
  The two circular buffers of the runtime: the byte-level \<open>ring_buffer_t\<close>
  (\<^verbatim>\<open>src/src/include/generic/ringbuffer.h\<close>, a head and a length) and the single-producer
  single-consumer queue (\<^verbatim>\<open>src/src/include/scheduler/spsc.h\<close>, a head and a tail).
  The locale \<open>bounded_fifo\<close> states what their clients rely on; both are interpretations of it.
  Indices are natural numbers: every index the code computes is reduced modulo the number of
  slots before it is stored, and the sums before the reduction stay below twice that number.
\<close>

subsection \<open>The interface\<close>

locale bounded_fifo =
  fixes inv :: "'q \<Rightarrow> bool"
    and valid :: "'q \<Rightarrow> 'a \<Rightarrow> bool"
    and capacity :: "'q \<Rightarrow> nat"
    and contents :: "'q \<Rightarrow> 'a list"
    and push :: "'q \<Rightarrow> 'a \<Rightarrow> 'q \<times> bool"
    and pop :: "'q \<Rightarrow> ('q \<times> 'a) option"
  assumes push_full: "inv q \<Longrightarrow> capacity q \<le> length (contents q) \<Longrightarrow> push q x = (q, False)"
    and push_ok: "inv q \<Longrightarrow> valid q x \<Longrightarrow> length (contents q) < capacity q \<Longrightarrow>
      \<exists>q'. push q x = (q', True) \<and> inv q' \<and> contents q' = contents q @ [x]
        \<and> capacity q' = capacity q \<and> valid q' = valid q"
    and pop_empty: "inv q \<Longrightarrow> contents q = [] \<Longrightarrow> pop q = None"
    and pop_ok: "inv q \<Longrightarrow> contents q = x # xs \<Longrightarrow>
      \<exists>q'. pop q = Some (q', x) \<and> inv q' \<and> contents q' = xs
        \<and> capacity q' = capacity q \<and> valid q' = valid q"
begin

fun push_all :: "'q \<Rightarrow> 'a list \<Rightarrow> 'q \<times> bool" where
  "push_all q [] = (q, True)"
| "push_all q (x # xs) = (case push q x of (q', ok) \<Rightarrow> if ok then push_all q' xs else (q', False))"

fun pop_many :: "nat \<Rightarrow> 'q \<Rightarrow> 'q \<times> 'a list" where
  "pop_many 0 q = (q, [])"
| "pop_many (Suc n) q =
     (case pop q of None \<Rightarrow> (q, [])
      | Some (q', x) \<Rightarrow> (case pop_many n q' of (q'', xs) \<Rightarrow> (q'', x # xs)))"

lemma push_all_ok:
  assumes "inv q" "\<forall>x \<in> set xs. valid q x" "length (contents q) + length xs \<le> capacity q"
  shows "\<exists>q'. push_all q xs = (q', True) \<and> inv q' \<and> contents q' = contents q @ xs
    \<and> capacity q' = capacity q"
  using assms
proof (induction xs arbitrary: q)
  case Nil then show ?case by simp
next
  case (Cons x xs)
  obtain q1 where q1: "push q x = (q1, True)" "inv q1" "contents q1 = contents q @ [x]"
    "capacity q1 = capacity q" "valid q1 = valid q"
    using push_ok [of q x] Cons.prems by auto
  then show ?case using Cons.IH [of q1] Cons.prems by auto
qed

lemma pop_many_ok:
  assumes "inv q"
  shows "\<exists>q'. pop_many n q = (q', take n (contents q)) \<and> inv q' \<and> contents q' = drop n (contents q)"
  using assms
proof (induction n arbitrary: q)
  case 0 then show ?case by simp
next
  case (Suc n)
  show ?case
  proof (cases "contents q")
    case Nil then show ?thesis using Suc.prems pop_empty by simp
  next
    case (Cons x xs)
    then obtain q1 where q1: "pop q = Some (q1, x)" "inv q1" "contents q1 = xs"
      using pop_ok [OF Suc.prems] by blast
    then show ?thesis using Suc.IH [of q1] Cons by auto
  qed
qed

text \<open>Whatever fits comes out in the order it went in.\<close>

lemma fifo_roundtrip:
  assumes "inv q" "contents q = []" "\<forall>x \<in> set xs. valid q x" "length xs \<le> capacity q"
  shows "\<exists>q1 q2. push_all q xs = (q1, True) \<and> pop_many (length xs) q1 = (q2, xs) \<and> contents q2 = []"
proof -
  obtain q1 where q1: "push_all q xs = (q1, True)" "inv q1" "contents q1 = xs"
    using push_all_ok [of q xs] assms by auto
  then show ?thesis using pop_many_ok [of q1 "length xs"] by auto
qed

end

subsection \<open>The ring buffer of bytes\<close>

type_synonym byte = "8 word"

record ring_buffer =
  rb_head :: nat
  rb_length :: nat
  rb_element_size :: nat
  rb_total_elements :: nat
  rb_buffer :: "byte list"

text \<open>\<open>memcpy\<close> into and out of the buffer.\<close>

definition blit :: "'a list \<Rightarrow> nat \<Rightarrow> 'a list \<Rightarrow> 'a list" where
  "blit buf off xs = take off buf @ xs @ drop (off + length xs) buf"

definition slice :: "'a list \<Rightarrow> nat \<Rightarrow> nat \<Rightarrow> 'a list" where
  "slice buf off n = take n (drop off buf)"

definition ring_buffer_init :: "nat \<Rightarrow> nat \<Rightarrow> byte list \<Rightarrow> ring_buffer option" where
  "ring_buffer_init element_size n buffer =
     assert_then (element_size \<noteq> 0) (assert_then (n \<noteq> 0)
       (Some \<lparr>rb_head = 0, rb_length = 0, rb_element_size = element_size,
              rb_total_elements = n, rb_buffer = buffer\<rparr>))"

definition ring_buffer_full :: "ring_buffer \<Rightarrow> bool" where
  "ring_buffer_full rb = (rb_length rb = rb_total_elements rb)"

definition ring_buffer_push :: "ring_buffer \<Rightarrow> byte list \<Rightarrow> ring_buffer \<times> bool" where
  "ring_buffer_push rb elem =
     (if ring_buffer_full rb then (rb, False)
      else (let next = (rb_head rb + rb_length rb) mod rb_total_elements rb in
        (rb\<lparr>rb_buffer := blit (rb_buffer rb) (next * rb_element_size rb)
                            (take (rb_element_size rb) elem),
             rb_length := rb_length rb + 1\<rparr>, True)))"

definition ring_buffer_empty :: "ring_buffer \<Rightarrow> bool" where
  "ring_buffer_empty rb = (rb_length rb = 0)"

text \<open>The address returned by \<open>ring_buffer_front\<close>, as an offset into the buffer.\<close>

definition ring_buffer_front :: "ring_buffer \<Rightarrow> nat option" where
  "ring_buffer_front rb =
     (if ring_buffer_empty rb then None else Some (rb_head rb * rb_element_size rb))"

definition ring_buffer_pop :: "ring_buffer \<Rightarrow> ring_buffer \<times> bool" where
  "ring_buffer_pop rb =
     (if ring_buffer_empty rb then (rb, False)
      else (rb\<lparr>rb_head := (rb_head rb + 1) mod rb_total_elements rb,
               rb_length := rb_length rb - 1\<rparr>, True))"

definition ring_buffer_pull :: "ring_buffer \<Rightarrow> (ring_buffer \<times> byte list) option" where
  "ring_buffer_pull rb =
     (case ring_buffer_front rb of
        None \<Rightarrow> None
      | Some front \<Rightarrow> Some (fst (ring_buffer_pop rb),
                              slice (rb_buffer rb) front (rb_element_size rb)))"

definition rb_inv :: "ring_buffer \<Rightarrow> bool" where
  "rb_inv rb = (0 < rb_element_size rb \<and> 0 < rb_total_elements rb
     \<and> rb_head rb < rb_total_elements rb \<and> rb_length rb \<le> rb_total_elements rb
     \<and> rb_total_elements rb * rb_element_size rb \<le> length (rb_buffer rb))"

definition rb_contents :: "ring_buffer \<Rightarrow> byte list list" where
  "rb_contents rb =
     map (\<lambda>i. slice (rb_buffer rb)
            (((rb_head rb + i) mod rb_total_elements rb) * rb_element_size rb) (rb_element_size rb))
       [0..<rb_length rb]"

lemma slice_blit_same: "off \<le> length buf \<Longrightarrow> slice (blit buf off xs) off (length xs) = xs"
  by (simp add: slice_def blit_def)

lemma length_blit: "off + length xs \<le> length buf \<Longrightarrow> length (blit buf off xs) = length buf"
  by (simp add: blit_def)

lemma nth_blit:
  assumes "off + length xs \<le> length buf" "p < length buf"
  shows "blit buf off xs ! p = (if off \<le> p \<and> p < off + length xs then xs ! (p - off) else buf ! p)"
  using assms by (auto simp: blit_def nth_append)

lemma nth_slice: "k < n \<Longrightarrow> off + k < length buf \<Longrightarrow> slice buf off n ! k = buf ! (off + k)"
  by (simp add: slice_def)

lemma slice_blit_other:
  assumes "i \<noteq> j" "length xs = n" "(i + 1) * n \<le> length buf" "(j + 1) * n \<le> length buf"
  shows "slice (blit buf (i * n) xs) (j * n) n = slice buf (j * n) n"
proof (rule nth_equalityI)
  have len: "length (blit buf (i * n) xs) = length buf" using assms by (simp add: blit_def)
  show "length (slice (blit buf (i * n) xs) (j * n) n) = length (slice buf (j * n) n)"
    by (simp add: slice_def len)
  fix k assume "k < length (slice (blit buf (i * n) xs) (j * n) n)"
  then have k: "k < n" "j * n + k < length buf" by (auto simp: slice_def len)
  have "j * n + k < i * n \<or> i * n + n \<le> j * n + k"
  proof (cases "j < i")
    case True
    then have "j * n + n \<le> i * n" by (metis Suc_leI add.commute mult_Suc mult_le_mono1)
    with k show ?thesis by linarith
  next
    case False
    then have "i * n + n \<le> j * n" using assms(1)
      by (metis Suc_leI add.commute linorder_neqE_nat mult_Suc mult_le_mono1)
    then show ?thesis by linarith
  qed
  then show "slice (blit buf (i * n) xs) (j * n) n ! k = slice buf (j * n) n ! k"
    using k assms len by (auto simp: nth_slice nth_blit)
qed

lemma rb_slot_in_buffer:
  assumes "rb_inv rb" "i < rb_total_elements rb"
  shows "(i + 1) * rb_element_size rb \<le> length (rb_buffer rb)"
proof -
  have "(i + 1) * rb_element_size rb \<le> rb_total_elements rb * rb_element_size rb"
    using assms by (intro mult_le_mono1) simp
  then show ?thesis using assms by (simp add: rb_inv_def)
qed

lemma rb_push_ok:
  assumes "rb_inv rb" "length x = rb_element_size rb" "rb_length rb < rb_total_elements rb"
  shows "\<exists>q'. ring_buffer_push rb x = (q', True) \<and> rb_inv q' \<and> rb_contents q' = rb_contents rb @ [x]
    \<and> rb_total_elements q' = rb_total_elements rb \<and> rb_element_size q' = rb_element_size rb"
proof -
  let ?n = "rb_total_elements rb" let ?es = "rb_element_size rb"
  let ?slot = "\<lambda>i. (rb_head rb + i) mod ?n"
  let ?buf = "blit (rb_buffer rb) (?slot (rb_length rb) * ?es) x"
  have n: "0 < ?n" using assms(1) by (simp add: rb_inv_def)
  have in_buf: "(?slot i + 1) * ?es \<le> length (rb_buffer rb)" for i
    using rb_slot_in_buffer [OF assms(1)] n by simp
  have len: "length ?buf = length (rb_buffer rb)"
    using in_buf [of "rb_length rb"] assms(2) by (simp add: blit_def)
  have old: "slice ?buf (?slot i * ?es) ?es = slice (rb_buffer rb) (?slot i * ?es) ?es"
    if "i < rb_length rb" for i
  proof (rule slice_blit_other)
    show "?slot (rb_length rb) \<noteq> ?slot i"
      using mod_add_right_cancel_nat [of i ?n "rb_length rb" "rb_head rb"] that assms(3) by auto
  qed (use in_buf assms(2) in auto)
  have new: "slice ?buf (?slot (rb_length rb) * ?es) ?es = x"
    using slice_blit_same [of _ "rb_buffer rb" x] in_buf [of "rb_length rb"] assms(2) by auto
  show ?thesis
    using assms len old new
    by (auto simp: ring_buffer_push_def ring_buffer_full_def Let_def rb_inv_def rb_contents_def)
qed

lemma rb_pull_ok:
  assumes "rb_inv rb" "rb_contents rb = x # xs"
  shows "\<exists>q'. ring_buffer_pull rb = Some (q', x) \<and> rb_inv q' \<and> rb_contents q' = xs
    \<and> rb_total_elements q' = rb_total_elements rb \<and> rb_element_size q' = rb_element_size rb"
proof -
  obtain k where k: "rb_length rb = Suc k"
    using assms(2) by (cases "rb_length rb") (auto simp: rb_contents_def)
  have "rb_contents rb = slice (rb_buffer rb) (rb_head rb * rb_element_size rb) (rb_element_size rb)
     # rb_contents (fst (ring_buffer_pop rb))"
    using assms(1) unfolding rb_contents_def k
    by (simp only: map_upt_Suc_conv)
      (simp add: rb_inv_def ring_buffer_pop_def ring_buffer_empty_def k mod_simps)
  moreover have "rb_inv (fst (ring_buffer_pop rb))"
    using assms(1) k by (simp add: rb_inv_def ring_buffer_pop_def ring_buffer_empty_def)
  ultimately show ?thesis
    using assms(2) k
    by (auto simp: ring_buffer_pull_def ring_buffer_front_def ring_buffer_empty_def ring_buffer_pop_def)
qed

interpretation rb: bounded_fifo rb_inv "\<lambda>rb x. length x = rb_element_size rb" rb_total_elements
  rb_contents ring_buffer_push ring_buffer_pull
proof unfold_locales
  fix q and x :: "byte list" assume "rb_inv q" "rb_total_elements q \<le> length (rb_contents q)"
  then show "ring_buffer_push q x = (q, False)"
    by (auto simp: ring_buffer_push_def ring_buffer_full_def rb_contents_def rb_inv_def)
next
  fix q and x :: "byte list" assume "rb_inv q" "length x = rb_element_size q" "length (rb_contents q) < rb_total_elements q"
  then show "\<exists>q'. ring_buffer_push q x = (q', True) \<and> rb_inv q' \<and> rb_contents q' = rb_contents q @ [x]
     \<and> rb_total_elements q' = rb_total_elements q
     \<and> (\<lambda>x. length x = rb_element_size q') = (\<lambda>x. length x = rb_element_size q)"
    using rb_push_ok [of q x] by (auto simp: rb_contents_def)
next
  fix q assume "rb_inv q" "rb_contents q = []"
  then show "ring_buffer_pull q = None"
    by (simp add: ring_buffer_pull_def ring_buffer_front_def ring_buffer_empty_def rb_contents_def)
next
  fix q x xs assume "rb_inv q" "rb_contents q = x # xs"
  then show "\<exists>q'. ring_buffer_pull q = Some (q', x) \<and> rb_inv q' \<and> rb_contents q' = xs
     \<and> rb_total_elements q' = rb_total_elements q
     \<and> (\<lambda>x. length x = rb_element_size q') = (\<lambda>x. length x = rb_element_size q)"
    using rb_pull_ok [of q x xs] by auto
qed

subsection \<open>The single-producer single-consumer queue\<close>

record 'a spsc_queue =
  q_size :: nat
  q_head :: nat
  q_tail :: nat
  q_entries :: "'a list"

text \<open>\<open>salloc\<close> returns memory with arbitrary contents, here the list \<open>mem\<close>.\<close>

definition spsc_alloc :: "nat \<Rightarrow> 'a list \<Rightarrow> 'a spsc_queue" where
  "spsc_alloc sz mem = \<lparr>q_size = sz, q_head = 0, q_tail = 0, q_entries = mem\<rparr>"

definition spsc_push :: "'a spsc_queue \<Rightarrow> 'a \<Rightarrow> 'a spsc_queue \<times> bool" where
  "spsc_push queue value =
     (let sz = q_size queue; head = q_head queue; next = (head + 1) mod sz;
          tail = q_tail queue
      in if next = tail then (queue, False)
         else (queue\<lparr>q_entries := (q_entries queue)[head := value], q_head := next\<rparr>, True))"

definition spsc_pop :: "'a spsc_queue \<Rightarrow> ('a spsc_queue \<times> 'a) option" where
  "spsc_pop queue =
     (let sz = q_size queue; head = q_head queue; tail = q_tail queue
      in if head = tail then None
         else (let value = q_entries queue ! tail; next = (tail + 1) mod sz
               in Some (queue\<lparr>q_tail := next\<rparr>, value)))"

fun spsc_pop_loop :: "'a list \<Rightarrow> nat \<Rightarrow> nat \<Rightarrow> nat \<Rightarrow> 'a list \<times> nat" where
  "spsc_pop_loop entries sz 0 tail = ([], tail)"
| "spsc_pop_loop entries sz (Suc cnt) tail =
     (case spsc_pop_loop entries sz cnt ((tail + 1) mod sz) of
        (vs, t) \<Rightarrow> (entries ! tail # vs, t))"

definition spsc_pop_batch :: "'a spsc_queue \<Rightarrow> nat \<Rightarrow> ('a spsc_queue \<times> 'a list) option" where
  "spsc_pop_batch queue cnt =
     (let sz = q_size queue; head = q_head queue; tail = q_tail queue
      in if head = tail then Some (queue, [])
         else (let remaining = (if head > tail then head - tail else sz - tail + head) in
           assert_then ((tail + remaining) mod sz = head)
             (let cnt' = (if cnt > remaining then remaining else cnt);
                  (vs, tail') = spsc_pop_loop (q_entries queue) sz cnt' tail
              in Some (queue\<lparr>q_tail := tail'\<rparr>, vs))))"

definition spsc_inv :: "'a spsc_queue \<Rightarrow> bool" where
  "spsc_inv q = (0 < q_size q \<and> q_head q < q_size q \<and> q_tail q < q_size q
     \<and> length (q_entries q) = q_size q)"

definition spsc_used :: "'a spsc_queue \<Rightarrow> nat" where
  "spsc_used q = (if q_tail q \<le> q_head q then q_head q - q_tail q
                  else q_size q - q_tail q + q_head q)"

definition spsc_contents :: "'a spsc_queue \<Rightarrow> 'a list" where
  "spsc_contents q = map (\<lambda>i. q_entries q ! ((q_tail q + i) mod q_size q)) [0..<spsc_used q]"

lemma spsc_used_less: "spsc_inv q \<Longrightarrow> spsc_used q < q_size q"
  by (auto simp: spsc_inv_def spsc_used_def)

lemma spsc_head_index: "spsc_inv q \<Longrightarrow> (q_tail q + spsc_used q) mod q_size q = q_head q"
  by (auto simp: spsc_inv_def spsc_used_def)

lemma spsc_used_upd_head:
  assumes "spsc_inv q" "Suc (spsc_used q) < q_size q"
  shows "spsc_used (q\<lparr>q_entries := e, q_head := (q_head q + 1) mod q_size q\<rparr>) = Suc (spsc_used q)"
  using assms by (auto simp: spsc_inv_def spsc_used_def mod_Suc split: if_splits)

lemma spsc_used_upd_tail:
  assumes "spsc_inv q" "q_head q \<noteq> q_tail q"
  shows "Suc (spsc_used (q\<lparr>q_tail := (q_tail q + 1) mod q_size q\<rparr>)) = spsc_used q"
  using assms by (auto simp: spsc_inv_def spsc_used_def mod_Suc split: if_splits)

lemma spsc_used_advance:
  assumes "spsc_inv q" "k \<le> spsc_used q"
  shows "spsc_used (q\<lparr>q_tail := (q_tail q + k) mod q_size q\<rparr>) = spsc_used q - k"
proof -
  have "q_tail q < q_size q" "k < q_size q"
    using assms spsc_used_less [OF assms(1)] by (auto simp: spsc_inv_def)
  from mod_wrap [OF this] show ?thesis
    using assms by (auto simp: spsc_used_def spsc_inv_def split: if_splits)
qed

lemma spsc_full_iff:
  assumes "spsc_inv q"
  shows "(q_head q + 1) mod q_size q = q_tail q \<longleftrightarrow> q_size q - 1 \<le> spsc_used q"
  using assms by (auto simp: spsc_inv_def spsc_used_def mod_Suc split: if_splits)

lemma spsc_contents_push:
  assumes "spsc_inv q" "Suc (spsc_used q) < q_size q"
  shows "spsc_contents (q\<lparr>q_entries := (q_entries q)[q_head q := x], q_head := (q_head q + 1) mod q_size q\<rparr>)
    = spsc_contents q @ [x]"
proof -
  have old: "(q_entries q)[q_head q := x] ! ((q_tail q + i) mod q_size q)
      = q_entries q ! ((q_tail q + i) mod q_size q)" if "i < spsc_used q" for i
    using circular_index_upd [of "spsc_used q" "q_size q" i "q_entries q" "q_tail q" x] that assms
      spsc_head_index [OF assms(1)] spsc_used_less [OF assms(1)] by (auto simp: spsc_inv_def)
  have new: "(q_entries q)[q_head q := x] ! ((q_tail q + spsc_used q) mod q_size q) = x"
    using assms(1) spsc_head_index [OF assms(1)] by (simp add: spsc_inv_def)
  show ?thesis using old new
    unfolding spsc_contents_def spsc_used_upd_head [OF assms] by simp
qed

lemma spsc_contents_pop:
  assumes "spsc_inv q" "q_head q \<noteq> q_tail q"
  shows "spsc_contents q = q_entries q ! q_tail q # spsc_contents (q\<lparr>q_tail := (q_tail q + 1) mod q_size q\<rparr>)"
proof -
  have "spsc_contents q = map (\<lambda>i. q_entries q ! ((q_tail q + i) mod q_size q))
      [0..<Suc (spsc_used (q\<lparr>q_tail := (q_tail q + 1) mod q_size q\<rparr>))]"
    by (simp only: spsc_contents_def spsc_used_upd_tail [OF assms])
  then show ?thesis using assms(1)
    by (simp add: map_upt_Suc_conv spsc_contents_def spsc_inv_def mod_simps del: upt_Suc)
qed

lemma spsc_contents_Nil_iff: "spsc_inv q \<Longrightarrow> spsc_contents q = [] \<longleftrightarrow> q_head q = q_tail q"
  by (auto simp: spsc_contents_def spsc_used_def spsc_inv_def)

lemma length_spsc_contents [simp]: "length (spsc_contents q) = spsc_used q"
  by (simp add: spsc_contents_def)

interpretation spsc: bounded_fifo spsc_inv "\<lambda>_ _. True" "\<lambda>q. q_size q - 1"
  spsc_contents spsc_push spsc_pop
proof unfold_locales
  fix q :: "'a spsc_queue" and x assume "spsc_inv q" "q_size q - 1 \<le> length (spsc_contents q)"
  then show "spsc_push q x = (q, False)"
    using spsc_full_iff [of q] by (simp add: spsc_push_def Let_def)
next
  fix q :: "'a spsc_queue" and x assume q: "spsc_inv q" "length (spsc_contents q) < q_size q - 1"
  then show "\<exists>q'. spsc_push q x = (q', True) \<and> spsc_inv q' \<and> spsc_contents q' = spsc_contents q @ [x]
     \<and> q_size q' - 1 = q_size q - 1 \<and> (\<lambda>_::'a. True) = (\<lambda>_. True)"
    using spsc_full_iff [of q] spsc_contents_push [of q x]
    by (auto simp: spsc_push_def Let_def spsc_inv_def)
next
  fix q :: "'a spsc_queue" assume "spsc_inv q" "spsc_contents q = []"
  then show "spsc_pop q = None" by (simp add: spsc_contents_Nil_iff spsc_pop_def)
next
  fix q :: "'a spsc_queue" and x xs assume q: "spsc_inv q" "spsc_contents q = x # xs"
  then have "q_head q \<noteq> q_tail q" by (metis list.distinct(1) spsc_contents_Nil_iff)
  then show "\<exists>q'. spsc_pop q = Some (q', x) \<and> spsc_inv q' \<and> spsc_contents q' = xs
     \<and> q_size q' - 1 = q_size q - 1 \<and> (\<lambda>_::'a. True) = (\<lambda>_. True)"
    using spsc_contents_pop [of q] q by (auto simp: spsc_pop_def Let_def spsc_inv_def)
qed

subsection \<open>Batched removal\<close>

lemma spsc_pop_loop_eq:
  "spsc_pop_loop es n k t = (map (\<lambda>i. es ! ((t + i) mod n)) [0..<k], (t + k) mod n)" if "t < n"
  using that
proof (induction k arbitrary: t)
  case 0 then show ?case by simp
next
  case (Suc k)
  have "Suc t mod n < n" using Suc.prems by simp
  from Suc.IH [OF this] show ?case
    using Suc.prems by (simp add: map_upt_Suc_conv mod_simps del: upt_Suc)
qed

lemma spsc_pop_batch_result:
  assumes "spsc_inv q"
  shows "\<exists>q'. spsc_pop_batch q cnt = Some (q', take cnt (spsc_contents q)) \<and> spsc_inv q'
    \<and> spsc_contents q' = drop cnt (spsc_contents q) \<and> q_size q' = q_size q"
proof (cases "q_head q = q_tail q")
  case True
  then show ?thesis using assms by (auto simp: spsc_pop_batch_def spsc_contents_Nil_iff [THEN iffD2])
next
  case False
  let ?used = "spsc_used q"
  let ?k = "min cnt ?used"
  let ?q = "q\<lparr>q_tail := (q_tail q + ?k) mod q_size q\<rparr>"
  have rem: "(if q_head q > q_tail q then q_head q - q_tail q else q_size q - q_tail q + q_head q) = ?used"
    using False by (auto simp: spsc_used_def)
  have kk: "(if cnt > ?used then ?used else cnt) = ?k" by auto
  have t: "q_tail q < q_size q" using assms by (simp add: spsc_inv_def)
  have "spsc_pop_batch q cnt = Some (?q, map (\<lambda>i. q_entries q ! ((q_tail q + i) mod q_size q)) [0..<?k])"
    using False spsc_head_index [OF assms]
    unfolding spsc_pop_batch_def Let_def rem kk spsc_pop_loop_eq [OF t] by simp
  also have "map (\<lambda>i. q_entries q ! ((q_tail q + i) mod q_size q)) [0..<?k] = take cnt (spsc_contents q)"
    by (simp add: spsc_contents_def take_map min_def)
  finally have res: "spsc_pop_batch q cnt = Some (?q, take cnt (spsc_contents q))" .
  have used: "spsc_used ?q = ?used - ?k" using assms by (intro spsc_used_advance) auto
  have "spsc_contents ?q = drop cnt (spsc_contents q)"
  proof (rule nth_equalityI)
    show "length (spsc_contents ?q) = length (drop cnt (spsc_contents q))" using used by simp
    fix i assume "i < length (spsc_contents ?q)"
    then show "spsc_contents ?q ! i = drop cnt (spsc_contents q) ! i"
      using used t by (auto simp: spsc_contents_def mod_simps add.assoc min_def split: if_splits)
  qed
  then show ?thesis using res assms by (auto simp: spsc_inv_def)
qed

end
