(* ===== verification/Spsc_Concurrent.thy ===== *)
theory Spsc_Concurrent
  imports Bounded_Queue
begin

section \<open>One producer and one consumer, interleaved (spsc.h)\<close>

text \<open>
  \<open>spsc_push\<close> and \<open>spsc_pop\<close> run without a common lock: the scheduler's server pops while a
  submitting thread pushes. Here each shared access of the two routines is one step of an
  interleaving: the loads of \<open>head\<close> and \<open>tail\<close>, the access to the slot, and the store that
  publishes the index. The orderings of the source (release stores, acquire loads of the
  other side's index) make the slot's contents visible with the index, which is what the
  sequentially consistent interleaving gives. Two ghost fields record what the producer has
  published and what the consumer has taken.
\<close>

datatype 'a producer =
    PIdle
  | PHead 'a nat          \<comment> \<open>value and the loaded head\<close>
  | PFree 'a nat nat      \<comment> \<open>value, head, next: the tail was loaded and differs from next\<close>
  | PStored 'a nat        \<comment> \<open>the slot is written; next is still to be published\<close>

datatype 'a consumer =
    CIdle
  | CHead nat             \<comment> \<open>the loaded head\<close>
  | CTail nat             \<comment> \<open>the loaded tail: it differs from the loaded head\<close>
  | CValue 'a nat         \<comment> \<open>the value read and the index to publish\<close>

record 'a spsc_state =
  queue :: "'a spsc_queue"
  producer :: "'a producer"
  consumer :: "'a consumer"
  pushed :: "'a list"
  popped :: "'a list"

inductive spsc_step :: "'a spsc_state \<Rightarrow> 'a spsc_state \<Rightarrow> bool" where
  p_load_head: "producer s = PIdle \<Longrightarrow>
     spsc_step s (s\<lparr>producer := PHead v (q_head (queue s))\<rparr>)"
| p_full: "producer s = PHead v ix \<Longrightarrow> (ix + 1) mod q_size (queue s) = q_tail (queue s) \<Longrightarrow>
     spsc_step s (s\<lparr>producer := PIdle\<rparr>)"
| p_free: "producer s = PHead v ix \<Longrightarrow> (ix + 1) mod q_size (queue s) \<noteq> q_tail (queue s) \<Longrightarrow>
     spsc_step s (s\<lparr>producer := PFree v ix ((ix + 1) mod q_size (queue s))\<rparr>)"
| p_store_slot: "producer s = PFree v ix nx \<Longrightarrow>
     spsc_step s (s\<lparr>queue := (queue s)\<lparr>q_entries := (q_entries (queue s))[ix := v]\<rparr>,
                    producer := PStored v nx\<rparr>)"
| p_store_head: "producer s = PStored v nx \<Longrightarrow>
     spsc_step s (s\<lparr>queue := (queue s)\<lparr>q_head := nx\<rparr>, producer := PIdle, pushed := pushed s @ [v]\<rparr>)"
| c_load_head: "consumer s = CIdle \<Longrightarrow>
     spsc_step s (s\<lparr>consumer := CHead (q_head (queue s))\<rparr>)"
| c_empty: "consumer s = CHead ix \<Longrightarrow> ix = q_tail (queue s) \<Longrightarrow>
     spsc_step s (s\<lparr>consumer := CIdle\<rparr>)"
| c_nonempty: "consumer s = CHead ix \<Longrightarrow> ix \<noteq> q_tail (queue s) \<Longrightarrow>
     spsc_step s (s\<lparr>consumer := CTail (q_tail (queue s))\<rparr>)"
| c_read_slot: "consumer s = CTail jx \<Longrightarrow>
     spsc_step s (s\<lparr>consumer := CValue (q_entries (queue s) ! jx) ((jx + 1) mod q_size (queue s))\<rparr>)"
| c_store_tail: "consumer s = CValue v nx \<Longrightarrow>
     spsc_step s (s\<lparr>queue := (queue s)\<lparr>q_tail := nx\<rparr>, consumer := CIdle, popped := popped s @ [v]\<rparr>)"

definition spsc_start :: "nat \<Rightarrow> 'a list \<Rightarrow> 'a spsc_state" where
  "spsc_start sz mem = \<lparr>queue = spsc_alloc sz mem, producer = PIdle, consumer = CIdle,
     pushed = [], popped = []\<rparr>"

inductive spsc_reach :: "nat \<Rightarrow> 'a list \<Rightarrow> 'a spsc_state \<Rightarrow> bool" for sz mem where
  start: "spsc_reach sz mem (spsc_start sz mem)"
| step: "spsc_reach sz mem s \<Longrightarrow> spsc_step s t \<Longrightarrow> spsc_reach sz mem t"

subsection \<open>The invariant\<close>

text \<open>How many published elements lie between an old value of the head and the tail.\<close>

definition seen :: "'a spsc_queue \<Rightarrow> nat \<Rightarrow> nat" where
  "seen q ix = (if q_tail q \<le> ix then ix - q_tail q else q_size q - q_tail q + ix)"

fun producer_ok :: "'a spsc_queue \<Rightarrow> 'a producer \<Rightarrow> bool" where
  "producer_ok q PIdle = True"
| "producer_ok q (PHead v ix) = (ix = q_head q)"
| "producer_ok q (PFree v ix nx) =
     (ix = q_head q \<and> nx = (ix + 1) mod q_size q \<and> Suc (spsc_used q) < q_size q)"
| "producer_ok q (PStored v nx) =
     (nx = (q_head q + 1) mod q_size q \<and> Suc (spsc_used q) < q_size q \<and> q_entries q ! q_head q = v)"

fun consumer_ok :: "'a spsc_queue \<Rightarrow> 'a consumer \<Rightarrow> bool" where
  "consumer_ok q CIdle = True"
| "consumer_ok q (CHead ix) = (ix < q_size q \<and> seen q ix \<le> spsc_used q)"
| "consumer_ok q (CTail jx) = (jx = q_tail q \<and> q_head q \<noteq> q_tail q)"
| "consumer_ok q (CValue v nx) =
     (q_head q \<noteq> q_tail q \<and> v = q_entries q ! q_tail q \<and> nx = (q_tail q + 1) mod q_size q)"

definition spsc_state_inv :: "'a spsc_state \<Rightarrow> bool" where
  "spsc_state_inv s = (spsc_inv (queue s) \<and> producer_ok (queue s) (producer s)
     \<and> consumer_ok (queue s) (consumer s) \<and> popped s @ spsc_contents (queue s) = pushed s)"

lemma used_zero_iff: "spsc_inv q \<Longrightarrow> spsc_used q = 0 \<longleftrightarrow> q_head q = q_tail q"
  by (auto simp: spsc_used_def spsc_inv_def)

lemma seen_pos_nonempty:
  "spsc_inv q \<Longrightarrow> ix < q_size q \<Longrightarrow> seen q ix \<le> spsc_used q \<Longrightarrow> ix \<noteq> q_tail q \<Longrightarrow> q_head q \<noteq> q_tail q"
  by (auto simp: seen_def spsc_used_def spsc_inv_def split: if_splits)

text \<open>Writing the slot at the head does not touch the published elements.\<close>

lemma contents_store_slot:
  assumes "spsc_inv q" "Suc (spsc_used q) < q_size q"
  shows "spsc_contents (q\<lparr>q_entries := (q_entries q)[q_head q := v]\<rparr>) = spsc_contents q"
proof -
  have "(q_entries q)[q_head q := v] ! ((q_tail q + i) mod q_size q)
      = q_entries q ! ((q_tail q + i) mod q_size q)" if "i < spsc_used q" for i
    using circular_index_upd [of "spsc_used q" "q_size q" i "q_entries q" "q_tail q" v] that assms
      spsc_head_index [OF assms(1)] spsc_used_less [OF assms(1)] by (auto simp: spsc_inv_def)
  moreover have "spsc_used (q\<lparr>q_entries := e\<rparr>) = spsc_used q" for e by (simp add: spsc_used_def)
  ultimately show ?thesis by (simp add: spsc_contents_def)
qed

lemma consumer_ok_publish:
  assumes "spsc_inv q" "Suc (spsc_used q) < q_size q" "consumer_ok q c"
  shows "consumer_ok (q\<lparr>q_head := (q_head q + 1) mod q_size q\<rparr>) c"
  using assms spsc_used_upd_head [of q "q_entries q"]
  by (cases c) (auto simp: seen_def spsc_used_def spsc_inv_def mod_Suc split: if_splits)

lemma consumer_ok_store_slot:
  assumes "spsc_inv q" "consumer_ok q c"
  shows "consumer_ok (q\<lparr>q_entries := (q_entries q)[q_head q := v]\<rparr>) c"
  using assms by (cases c) (auto simp: seen_def spsc_used_def)

lemma producer_ok_take:
  assumes "spsc_inv q" "q_head q \<noteq> q_tail q" "producer_ok q p"
  shows "producer_ok (q\<lparr>q_tail := (q_tail q + 1) mod q_size q\<rparr>) p"
  using assms spsc_used_upd_tail [of q] by (cases p) auto

lemma spsc_step_inv: "spsc_step s t \<Longrightarrow> spsc_state_inv s \<Longrightarrow> spsc_state_inv t"
proof (induction rule: spsc_step.induct)
  case (p_free s v ix)
  then show ?case using spsc_full_iff [of "queue s"] spsc_used_less [of "queue s"]
    by (auto simp: spsc_state_inv_def)
next
  case (p_store_slot s v ix nx)
  then show ?case
    using contents_store_slot [of "queue s" v] consumer_ok_store_slot [of "queue s" "consumer s" v]
    by (auto simp: spsc_state_inv_def spsc_inv_def spsc_used_def)
next
  case (p_store_head s v nx)
  then have q: "spsc_inv (queue s)" "Suc (spsc_used (queue s)) < q_size (queue s)"
    "q_entries (queue s) ! q_head (queue s) = v" "nx = (q_head (queue s) + 1) mod q_size (queue s)"
    by (auto simp: spsc_state_inv_def)
  have "(q_entries (queue s))[q_head (queue s) := v] = q_entries (queue s)"
    using q(3) list_update_id by fastforce
  with spsc_contents_push [OF q(1,2), of v]
  have "spsc_contents ((queue s)\<lparr>q_head := nx\<rparr>) = spsc_contents (queue s) @ [v]"
    by (simp add: q(4))
  then show ?case using p_store_head q consumer_ok_publish [of "queue s" "consumer s"]
    by (auto simp: spsc_state_inv_def spsc_inv_def)
next
  case (c_load_head s)
  then show ?case by (auto simp: spsc_state_inv_def seen_def spsc_used_def spsc_inv_def)
next
  case (c_nonempty s ix)
  then show ?case using seen_pos_nonempty [of "queue s" ix] by (auto simp: spsc_state_inv_def)
next
  case (c_store_tail s v nx)
  then show ?case
    using spsc_contents_pop [of "queue s"] producer_ok_take [of "queue s" "producer s"]
    by (auto simp: spsc_state_inv_def spsc_inv_def)
qed (auto simp: spsc_state_inv_def)

lemma spsc_start_inv: "0 < sz \<Longrightarrow> length mem = sz \<Longrightarrow> spsc_state_inv (spsc_start sz mem)"
  by (simp add: spsc_state_inv_def spsc_start_def spsc_alloc_def spsc_inv_def spsc_contents_def
      spsc_used_def)

lemma spsc_reach_inv:
  assumes "spsc_reach sz mem s" "0 < sz" "length mem = sz"
  shows "spsc_state_inv s"
  using assms by (induction rule: spsc_reach.induct) (auto intro: spsc_start_inv spsc_step_inv)

subsection \<open>Properties\<close>



end
