(* ===== verification/Mpsc.thy ===== *)
theory Mpsc
  imports Bounded_Queue
begin

section \<open>The submission queue of the scheduler (src/src/include/scheduler/mpsc.h)\<close>

text \<open>
  An \<open>mpsc_queue_t\<close> is an array of SPSC queues: one per group of \<open>cpus_per_queue\<close> CPUs and a
  last one for threads without a CPU. A producer locks its sub-queue, so a push is one atomic
  operation here; the consumer is the holder of the delegation lock. The model keeps the
  array as a list of the queues of theory \<open>Bounded_Queue\<close> and the round-robin cursor \<open>current\<close>.
  An access past the end of the array is the value \<^term>\<open>None\<close>.
\<close>

record 'a mpsc_queue =
  nqueues :: nat
  cpus_per_queue :: nat
  current :: nat
  queues :: "'a spsc_queue list"

definition mpsc_alloc :: "nat \<Rightarrow> nat \<Rightarrow> nat \<Rightarrow> 'a list \<Rightarrow> 'a mpsc_queue option" where
  "mpsc_alloc sched_cpus_per_queue n slots mem =
     (let nq = (n + sched_cpus_per_queue - 1) div sched_cpus_per_queue in
      assert_then (nq > 0)
        (Some \<lparr>nqueues = nq, cpus_per_queue = sched_cpus_per_queue, current = 0,
               queues = replicate (nq + 1) (spsc_alloc slots mem)\<rparr>))"

text \<open>\<open>mpsc_free\<close> as the sequence of its \<open>spsc_free\<close> calls (the sub-queue and the slots it is told
  to have) and the number of sub-queues the array is freed with.\<close>

fun mpsc_free_loop :: "'a spsc_queue list \<Rightarrow> nat \<Rightarrow> nat \<Rightarrow> nat \<Rightarrow> ('a spsc_queue \<times> nat) list option" where
  "mpsc_free_loop qs slots i 0 = Some []"
| "mpsc_free_loop qs slots i (Suc k) =
     (if i < length qs
      then map_option ((#) (qs ! i, slots)) (mpsc_free_loop qs slots (i + 1) k)
      else None)"

definition mpsc_free :: "'a mpsc_queue \<Rightarrow> nat \<Rightarrow> nat \<Rightarrow> (('a spsc_queue \<times> nat) list \<times> nat) option" where
  "mpsc_free queue n slots =
     map_option (\<lambda>freed. (freed, n + 1)) (mpsc_free_loop (queues queue) slots 0 (n + 1))"

definition mpsc_push :: "'a mpsc_queue \<Rightarrow> 'a \<Rightarrow> int \<Rightarrow> ('a mpsc_queue \<times> bool) option" where
  "mpsc_push queue value cpu =
     (if cpu < 0 then
        (case spsc_push (queues queue ! nqueues queue) value of (sq, ret) \<Rightarrow>
           Some (queue\<lparr>queues := (queues queue)[nqueues queue := sq]\<rparr>, ret))
      else assert_then (cpu < int (nqueues queue * cpus_per_queue queue))
        (let q = nat cpu div cpus_per_queue queue in
         case spsc_push (queues queue ! q) value of (sq, ret) \<Rightarrow>
           Some (queue\<lparr>queues := (queues queue)[q := sq]\<rparr>, ret)))"

text \<open>The \<open>do ... while\<close> loop of \<open>mpsc_pop_batch\<close>: the fuel bounds its iterations. It returns the
  array, the values stored through \<open>value\<close> and the last \<open>current\<close>.\<close>

fun mpsc_pop_loop :: "nat \<Rightarrow> nat \<Rightarrow> nat \<Rightarrow> nat \<Rightarrow> 'a spsc_queue list \<Rightarrow> nat \<Rightarrow>
    ('a spsc_queue list \<times> 'a list \<times> nat) option" where
  "mpsc_pop_loop 0 n start cur qs cnt = None"
| "mpsc_pop_loop (Suc fuel) n start cur qs cnt =
     (case spsc_pop_batch (qs ! cur) cnt of
        None \<Rightarrow> None
      | Some (sq, vs) \<Rightarrow>
          (let qs' = qs[cur := sq];
               cur' = (cur + 1) mod (n + 1);
               cnt' = cnt - length vs
           in if cur' \<noteq> start \<and> 0 < cnt'
              then map_option (\<lambda>(qs'', vs', c). (qs'', vs @ vs', c))
                     (mpsc_pop_loop fuel n start cur' qs' cnt')
              else Some (qs', vs, cur')))"

definition mpsc_pop_batch :: "'a mpsc_queue \<Rightarrow> nat \<Rightarrow> ('a mpsc_queue \<times> 'a list) option" where
  "mpsc_pop_batch queue cnt =
     assert_then (current queue \<le> nqueues queue)
       (map_option (\<lambda>(qs, vs, c). (queue\<lparr>queues := qs, current := c\<rparr>, vs))
         (mpsc_pop_loop (nqueues queue + 1) (nqueues queue) (current queue) (current queue)
            (queues queue) cnt))"

subsection \<open>Invariant and contents\<close>

definition mpsc_inv :: "'a mpsc_queue \<Rightarrow> bool" where
  "mpsc_inv q = (0 < nqueues q \<and> 0 < cpus_per_queue q \<and> current q \<le> nqueues q
     \<and> length (queues q) = nqueues q + 1 \<and> (\<forall>sq \<in> set (queues q). spsc_inv sq))"

text \<open>The elements waiting in each sub-queue.\<close>

definition mpsc_contents :: "'a mpsc_queue \<Rightarrow> 'a list list" where
  "mpsc_contents q = map spsc_contents (queues q)"

definition mpsc_elems :: "'a mpsc_queue \<Rightarrow> 'a multiset" where
  "mpsc_elems q = sum_list (map mset (mpsc_contents q))"

lemma sum_mset_update:
  "i < length xs \<Longrightarrow> sum_list (map mset (xs[i := y])) + mset (xs ! i) = sum_list (map mset xs) + mset y"
  by (induction xs arbitrary: i) (auto split: nat.splits simp: ac_simps)

lemma sum_list_replicate_mempty [simp]: "sum_list (replicate n {#}) = {#}"
  by (induction n) auto

lemma mpsc_alloc_inv:
  assumes "0 < slots" "length mem = slots" "0 < cpq" "0 < n"
  shows "\<exists>q. mpsc_alloc cpq n slots mem = Some q \<and> mpsc_inv q \<and> mpsc_elems q = {#}"
proof -
  have "0 < (n + cpq - 1) div cpq" using assms by (simp add: div_greater_zero_iff)
  then show ?thesis
    using assms by (auto simp: mpsc_alloc_def Let_def mpsc_inv_def spsc_alloc_def spsc_inv_def
        mpsc_elems_def mpsc_contents_def spsc_contents_def spsc_used_def sum_list_replicate)
qed

text \<open>The sub-queue a push goes to.\<close>

definition mpsc_index :: "'a mpsc_queue \<Rightarrow> int \<Rightarrow> nat" where
  "mpsc_index q cpu = (if cpu < 0 then nqueues q else nat cpu div cpus_per_queue q)"

lemma mpsc_index_bound:
  assumes "mpsc_inv q" "cpu < int (nqueues q * cpus_per_queue q)"
  shows "mpsc_index q cpu < length (queues q)"
proof -
  have "nat cpu div cpus_per_queue q < nqueues q" if "0 \<le> cpu"
    using assms that by (auto simp: mpsc_inv_def less_mult_imp_div_less nat_less_iff)
  then show ?thesis using assms(1) by (auto simp: mpsc_index_def mpsc_inv_def)
qed

lemma mpsc_push_eq:
  assumes "cpu < int (nqueues q * cpus_per_queue q)"
  shows "mpsc_push q v cpu = (case spsc_push (queues q ! mpsc_index q cpu) v of (sq, ret) \<Rightarrow>
     Some (q\<lparr>queues := (queues q)[mpsc_index q cpu := sq]\<rparr>, ret))"
  using assms by (simp add: mpsc_push_def mpsc_index_def Let_def)

lemma mpsc_push_ok:
  assumes q: "mpsc_inv q" and c: "cpu < int (nqueues q * cpus_per_queue q)"
    and room: "spsc_used (queues q ! mpsc_index q cpu) + 1 < q_size (queues q ! mpsc_index q cpu)"
  shows "\<exists>q'. mpsc_push q v cpu = Some (q', True) \<and> mpsc_inv q' \<and> mpsc_elems q' = mpsc_elems q + {#v#}
    \<and> mpsc_contents q' = (mpsc_contents q)[mpsc_index q cpu := mpsc_contents q ! mpsc_index q cpu @ [v]]"
proof -
  let ?i = "mpsc_index q cpu"
  have i: "?i < length (queues q)" using mpsc_index_bound [OF q c] .
  then have "spsc_inv (queues q ! ?i)" using q by (auto simp: mpsc_inv_def)
  then obtain sq where sq: "spsc_push (queues q ! ?i) v = (sq, True)" "spsc_inv sq"
    "spsc_contents sq = spsc_contents (queues q ! ?i) @ [v]"
    using spsc.push_ok [of "queues q ! ?i" v, OF _ TrueI] room by (auto simp: less_diff_conv)
  let ?q = "q\<lparr>queues := (queues q)[?i := sq]\<rparr>"
  have cont: "mpsc_contents ?q = (mpsc_contents q)[?i := mpsc_contents q ! ?i @ [v]]"
    using i sq(3) by (simp add: mpsc_contents_def map_update)
  have "mpsc_elems ?q + mset (mpsc_contents q ! ?i) = mpsc_elems q + (mset (mpsc_contents q ! ?i) + {#v#})"
    using sum_mset_update [of ?i "mpsc_contents q" "mpsc_contents q ! ?i @ [v]"] i
    by (simp add: mpsc_elems_def cont) (simp add: mpsc_contents_def)
  then have "mset (mpsc_contents q ! ?i) + mpsc_elems ?q = mset (mpsc_contents q ! ?i) + (mpsc_elems q + {#v#})"
    by (simp only: ac_simps)
  then have "mpsc_elems ?q = mpsc_elems q + {#v#}" by (rule add_left_imp_eq)
  moreover have "mpsc_inv ?q" using q sq(2) by (auto simp: mpsc_inv_def dest: set_update_subset_insert [THEN subsetD])
  ultimately show ?thesis using cont by (auto simp: mpsc_push_eq [OF c] sq(1))
qed

lemma mpsc_push_full:
  assumes q: "mpsc_inv q" and c: "cpu < int (nqueues q * cpus_per_queue q)"
    and full: "q_size (queues q ! mpsc_index q cpu) - 1 \<le> spsc_used (queues q ! mpsc_index q cpu)"
  shows "mpsc_push q v cpu = Some (q, False)"
proof -
  have "spsc_inv (queues q ! mpsc_index q cpu)"
    using mpsc_index_bound [OF q c] q by (auto simp: mpsc_inv_def)
  from spsc.push_full [OF this] full show ?thesis
    by (simp add: mpsc_push_eq [OF c])
qed

subsection \<open>Batched removal\<close>

text \<open>How many sub-queues the loop has still to visit.\<close>

definition to_visit :: "nat \<Rightarrow> nat \<Rightarrow> nat \<Rightarrow> nat" where
  "to_visit n start cur = (if cur < start then start - cur else n + 1 - cur + start)"

lemma to_visit_le: "i \<le> n \<Longrightarrow> start \<le> n \<Longrightarrow> to_visit n start i \<le> n + 1"
  by (auto simp: to_visit_def)

lemma to_visit_start: "start \<le> n \<Longrightarrow> to_visit n start start = n + 1"
  by (simp add: to_visit_def)

lemma mpsc_pop_loop_result:
  assumes "length qs = n + 1" "\<forall>sq \<in> set qs. spsc_inv sq" "start \<le> n" "cur \<le> n"
    "to_visit n start cur \<le> fuel" "0 < cnt"
    "\<forall>i. i \<le> n \<and> to_visit n start cur < to_visit n start i \<longrightarrow> spsc_contents (qs ! i) = []"
  shows "\<exists>qs' vs c. mpsc_pop_loop fuel n start cur qs cnt = Some (qs', vs, c)
    \<and> length qs' = n + 1 \<and> (\<forall>sq \<in> set qs'. spsc_inv sq) \<and> c \<le> n \<and> length vs \<le> cnt
    \<and> sum_list (map mset (map spsc_contents qs)) = mset vs + sum_list (map mset (map spsc_contents qs'))
    \<and> (length vs < cnt \<longrightarrow> (\<forall>i \<le> n. spsc_contents (qs' ! i) = []))"
  using assms
proof (induction fuel arbitrary: cur qs cnt)
  case 0 then show ?case by (auto simp: to_visit_def split: if_splits)
next
  case (Suc fuel)
  have cur: "cur < length qs" "spsc_inv (qs ! cur)" using Suc.prems by auto
  obtain sq where sq: "spsc_pop_batch (qs ! cur) cnt = Some (sq, take cnt (spsc_contents (qs ! cur)))"
    "spsc_inv sq" "spsc_contents sq = drop cnt (spsc_contents (qs ! cur))"
    using spsc_pop_batch_result [OF cur(2), of cnt] by blast
  let ?vs = "take cnt (spsc_contents (qs ! cur))"
  let ?qs = "qs[cur := sq]" let ?cur = "(cur + 1) mod (n + 1)"
  have conts: "map spsc_contents ?qs = (map spsc_contents qs)[cur := spsc_contents sq]"
    by (simp add: map_update)
  have "mset (spsc_contents (qs ! cur)) = mset ?vs + mset (spsc_contents sq)"
    by (metis append_take_drop_id mset_append sq(3))
  then have "mset (spsc_contents sq) + (mset ?vs + sum_list (map mset (map spsc_contents ?qs)))
      = mset (spsc_contents sq) + sum_list (map mset (map spsc_contents qs))"
    using sum_mset_update [of cur "map spsc_contents qs" "spsc_contents sq"] cur(1)
    unfolding conts by (simp only: length_map nth_map ac_simps)
  then have sums: "sum_list (map mset (map spsc_contents qs)) = mset ?vs + sum_list (map mset (map spsc_contents ?qs))"
    by (metis add_left_imp_eq)
  have inv': "\<forall>sq \<in> set ?qs. spsc_inv sq" "length ?qs = n + 1"
    using Suc.prems sq(2) by (auto dest: set_update_subset_insert [THEN subsetD])
  have cur': "?cur \<le> n" by simp
  have visit: "?cur \<noteq> start \<Longrightarrow> to_visit n start ?cur + 1 = to_visit n start cur"
    using Suc.prems(3,4) by (auto simp: to_visit_def mod_Suc split: if_splits)
  show ?case
  proof (cases "?cur \<noteq> start \<and> 0 < cnt - length ?vs")
    case True
    then have empty: "spsc_contents sq = []" by (auto simp: sq(3))
    have done_: "\<forall>i. i \<le> n \<and> to_visit n start ?cur < to_visit n start i \<longrightarrow> spsc_contents (?qs ! i) = []"
    proof (intro allI impI)
      fix i assume i: "i \<le> n \<and> to_visit n start ?cur < to_visit n start i"
      show "spsc_contents (?qs ! i) = []"
      proof (cases "i = cur")
        case True then show ?thesis using empty cur(1) by simp
      next
        case False
        then have "to_visit n start i \<noteq> to_visit n start cur"
          using i Suc.prems(3,4) by (auto simp: to_visit_def split: if_splits)
        then show ?thesis using i visit True Suc.prems(7) False by auto
      qed
    qed
    have v1: "to_visit n start ?cur \<le> fuel" using visit True Suc.prems(5) by linarith
    have v2: "0 < cnt - length ?vs" using True by simp
    obtain qs' vs c where r: "mpsc_pop_loop fuel n start ?cur ?qs (cnt - length ?vs) = Some (qs', vs, c)"
      "length qs' = n + 1" "\<forall>sq \<in> set qs'. spsc_inv sq" "c \<le> n" "length vs \<le> cnt - length ?vs"
      "sum_list (map mset (map spsc_contents ?qs)) = mset vs + sum_list (map mset (map spsc_contents qs'))"
      "length vs < cnt - length ?vs \<longrightarrow> (\<forall>i \<le> n. spsc_contents (qs' ! i) = [])"
      using Suc.IH [OF inv'(2,1) Suc.prems(3) cur' v1 v2 done_] by metis
    have "mpsc_pop_loop (Suc fuel) n start cur qs cnt = Some (qs', ?vs @ vs, c)"
      using True sq(1) r(1) by (simp add: Let_def)
    moreover have "sum_list (map mset (map spsc_contents qs)) = mset (?vs @ vs) + sum_list (map mset (map spsc_contents qs'))"
      unfolding sums r(6) by (simp only: mset_append add.assoc)
    moreover have "length (?vs @ vs) \<le> cnt" using r(5) v2 by simp
    moreover have "length (?vs @ vs) < cnt \<longrightarrow> (\<forall>i \<le> n. spsc_contents (qs' ! i) = [])" using r(7) by auto
    ultimately show ?thesis using r(2,3,4) by blast
  next
    case False
    have "length ?vs < cnt \<longrightarrow> (\<forall>i \<le> n. spsc_contents (?qs ! i) = [])"
    proof (intro impI allI)
      fix i assume short: "length ?vs < cnt" and i: "i \<le> n"
      then have last: "?cur = start" using False by auto
      show "spsc_contents (?qs ! i) = []"
      proof (cases "i = cur")
        case True then show ?thesis using cur(1) short sq(3) by simp
      next
        case ne: False
        have "to_visit n start cur < to_visit n start i"
          using last i ne Suc.prems(3,4) by (auto simp: to_visit_def mod_Suc split: if_splits)
        then show ?thesis using ne Suc.prems(7) i by auto
      qed
    qed
    then show ?thesis using False sq sums inv' cur' by (auto simp: Let_def)
  qed
qed

lemma mpsc_pop_batch_result:
  assumes "mpsc_inv q" "0 < cnt"
  shows "\<exists>q' vs. mpsc_pop_batch q cnt = Some (q', vs) \<and> mpsc_inv q' \<and> length vs \<le> cnt
    \<and> mpsc_elems q = mset vs + mpsc_elems q' \<and> (length vs < cnt \<longrightarrow> mpsc_elems q' = {#})"
proof -
  let ?n = "nqueues q" let ?s = "current q"
  have s: "?s \<le> ?n" "length (queues q) = ?n + 1" "\<forall>sq \<in> set (queues q). spsc_inv sq"
    using assms(1) by (auto simp: mpsc_inv_def)
  obtain qs vs c where r: "mpsc_pop_loop (?n + 1) ?n ?s ?s (queues q) cnt = Some (qs, vs, c)"
    "length qs = ?n + 1" "\<forall>sq \<in> set qs. spsc_inv sq" "c \<le> ?n" "length vs \<le> cnt"
    "sum_list (map mset (map spsc_contents (queues q))) = mset vs + sum_list (map mset (map spsc_contents qs))"
    "length vs < cnt \<longrightarrow> (\<forall>i \<le> ?n. spsc_contents (qs ! i) = [])"
    using mpsc_pop_loop_result [OF s(2,3) s(1) s(1), of "?n + 1" cnt] assms(2) s(1)
      to_visit_le [of _ ?n ?s] to_visit_start [OF s(1)]
    by (metis linorder_not_less order_refl)
  have "length vs < cnt \<Longrightarrow> sum_list (map mset (map spsc_contents qs)) = {#}"
  proof -
    assume "length vs < cnt"
    then have "\<forall>sq \<in> set qs. spsc_contents sq = []" using r(2,7) by (auto simp: in_set_conv_nth)
    then show ?thesis by (induction qs) auto
  qed
  then show ?thesis using r assms(1)
    by (auto simp: mpsc_pop_batch_def mpsc_inv_def mpsc_elems_def mpsc_contents_def)
qed

subsection \<open>Properties\<close>

text \<open>Batched removal loses nothing and cannot miss work: from a well-formed queue and a
  positive batch size, \<open>mpsc_pop_batch\<close> returns (its loop ends within one round over the
  sub-queues), hands out at most the requested number of elements, what it hands out and
  what stays are together exactly what was there, and a short batch means that every
  sub-queue is empty. So the drain loop of \<open>scheduler_process_ready_tasks\<close>, which stops at an
  empty batch, stops only when nothing is left.\<close>

theorem mpsc_pop_batch_complete:
  assumes "mpsc_inv q" "0 < cnt"
  shows "\<exists>q' vs. mpsc_pop_batch q cnt = Some (q', vs) \<and> mpsc_inv q' \<and> length vs \<le> cnt
    \<and> mpsc_elems q = mset vs + mpsc_elems q' \<and> (length vs < cnt \<longrightarrow> mpsc_elems q' = {#})"
  using assms by (rule mpsc_pop_batch_result)

theorem mpsc_pop_batch_complete_witness:
  "\<exists>q' vs. mpsc_pop_batch \<lparr>nqueues = 1, cpus_per_queue = 1, current = 1,
       queues = [spsc_alloc 2 [0, 0], \<lparr>q_size = 2, q_head = 1, q_tail = 0, q_entries = [5, 0 :: nat]\<rparr>]\<rparr> 3
     = Some (q', vs) \<and> length vs \<le> 3 \<and> (length vs < 3 \<longrightarrow> mpsc_elems q' = {#})"
  using mpsc_pop_batch_complete [of "\<lparr>nqueues = 1, cpus_per_queue = 1, current = 1,
       queues = [spsc_alloc 2 [0, 0], \<lparr>q_size = 2, q_head = 1, q_tail = 0, q_entries = [5, 0 :: nat]\<rparr>]\<rparr>" 3]
  by (auto simp: mpsc_inv_def spsc_inv_def spsc_alloc_def)

text \<open>\<open>scheduler_free\<close> releases the queue with the arguments it was allocated with
  (\<open>mpsc_free(in_queue, cpu_count, ...)\<close>), but \<open>mpsc_alloc\<close> rounds the number of sub-queues down
  by \<open>sched_cpus_per_queue\<close>: with two or more CPUs per queue and at least two CPUs, the free
  loop reads past the end of the array of sub-queues.\<close>

theorem mpsc_free_out_of_bounds:
  assumes "2 \<le> cpq" "2 \<le> n" "mpsc_alloc cpq n slots mem = Some q"
  shows "mpsc_free q n slots = None"
proof -
  have short: "mpsc_free_loop qs slots i k = None" if "length qs < i + k" "i \<le> length qs" for qs :: "'a spsc_queue list" and i k
    using that by (induction k arbitrary: i) auto
  have "(n + cpq - 1) div cpq < n"
  proof -
    obtain a b where "n = a + 2" "cpq = b + 2" using assms(1,2) by (metis add.commute le_Suc_ex)
    then have "n + cpq - 1 < n * cpq" by simp
    then show ?thesis by (simp add: less_mult_imp_div_less)
  qed
  then have "length (queues q) < 0 + (n + 1)"
    using assms(3) by (auto simp: mpsc_alloc_def Let_def)
  then show ?thesis using short [of "queues q" 0 "n + 1"] by (simp add: mpsc_free_def)
qed

theorem mpsc_free_out_of_bounds_witness:
  "\<exists>q. mpsc_alloc 2 4 1 [0 :: nat] = Some q \<and> mpsc_free q 4 1 = None"
proof -
  obtain q where "mpsc_alloc 2 4 1 [0 :: nat] = Some q" by (simp add: mpsc_alloc_def Let_def)
  then show ?thesis using mpsc_free_out_of_bounds [of 2 4 1 "[0 :: nat]" q] by simp
qed

end
