(* ===== verification/Rb_Tree.thy ===== *)
theory Rb_Tree
  imports Nosv_Prelude
begin

section \<open>The red-black tree macros (src/src/include/generic/tree.h)\<close>

text \<open>
  The scheduler keeps its priority queue and its deadline queue in the BSD red-black trees of
  \<^verbatim>\<open>tree.h\<close>. A node with its two subtrees is a \<open>rbtree\<close>; the way back to the root that the source
  follows through the parent pointers is a list of frames, the innermost first (a frame is a
  parent together with the subtree on its other side). Each macro is one definition that
  makes the macro's recolourings and rotations in the macro's order.

  Two kinds of lemmas: the in-order sequence (what the tree stores) and the red-black
  invariants (no red node has a red child, every path has the same number of black nodes, the
  root is black). The locale \<open>ordered_store\<close> is the interface the scheduler relies on.
\<close>

datatype color = Red | Black

datatype 'a rbtree = Leaf | Node color "'a rbtree" 'a "'a rbtree"

datatype 'a frame = LeftOf color 'a "'a rbtree" | RightOf color "'a rbtree" 'a

type_synonym 'a path = "'a frame list"

fun plug_frame :: "'a rbtree \<Rightarrow> 'a frame \<Rightarrow> 'a rbtree" where
  "plug_frame t (LeftOf c a r) = Node c t a r"
| "plug_frame t (RightOf c l a) = Node c l a t"

fun plug :: "'a rbtree \<Rightarrow> 'a path \<Rightarrow> 'a rbtree" where
  "plug t [] = t"
| "plug t (f # p) = plug (plug_frame t f) p"

fun frame_color :: "'a frame \<Rightarrow> color" where
  "frame_color (LeftOf c a r) = c"
| "frame_color (RightOf c l a) = c"

text \<open>\<open>RB_COLOR\<close>, with a null pointer read as black (every use in the source tests for null first).\<close>

fun rb_color :: "'a rbtree \<Rightarrow> color" where
  "rb_color Leaf = Black"
| "rb_color (Node c l a r) = c"

fun paint :: "color \<Rightarrow> 'a rbtree \<Rightarrow> 'a rbtree" where
  "paint c Leaf = Leaf"
| "paint c (Node c' l a r) = Node c l a r"

fun rb_rotate_left :: "'a rbtree \<Rightarrow> 'a rbtree" where
  "rb_rotate_left (Node c l a (Node c' rl b rr)) = Node c' (Node c l a rl) b rr"
| "rb_rotate_left t = t"

fun rb_rotate_right :: "'a rbtree \<Rightarrow> 'a rbtree" where
  "rb_rotate_right (Node c (Node c' ll b lr) a r) = Node c' ll b (Node c lr a r)"
| "rb_rotate_right t = t"

subsection \<open>Search\<close>

fun rb_find :: "('a \<Rightarrow> 'a \<Rightarrow> int) \<Rightarrow> 'a rbtree \<Rightarrow> 'a \<Rightarrow> 'a option" where
  "rb_find cmp Leaf elm = None"
| "rb_find cmp (Node c l a r) elm =
     (let comp = cmp elm a in
      if comp < 0 then rb_find cmp l elm
      else if comp > 0 then rb_find cmp r elm
      else Some a)"

fun rb_nfind_loop :: "('a \<Rightarrow> 'a \<Rightarrow> int) \<Rightarrow> 'a rbtree \<Rightarrow> 'a \<Rightarrow> 'a option \<Rightarrow> 'a option" where
  "rb_nfind_loop cmp Leaf elm res = res"
| "rb_nfind_loop cmp (Node c l a r) elm res =
     (let comp = cmp elm a in
      if comp < 0 then rb_nfind_loop cmp l elm (Some a)
      else if comp > 0 then rb_nfind_loop cmp r elm res
      else Some a)"

definition rb_nfind :: "('a \<Rightarrow> 'a \<Rightarrow> int) \<Rightarrow> 'a rbtree \<Rightarrow> 'a \<Rightarrow> 'a option" where
  "rb_nfind cmp t elm = rb_nfind_loop cmp t elm None"

fun rb_minmax_loop :: "'a rbtree \<Rightarrow> int \<Rightarrow> 'a option \<Rightarrow> 'a option" where
  "rb_minmax_loop Leaf val parent = parent"
| "rb_minmax_loop (Node c l a r) val parent =
     (if val < 0 then rb_minmax_loop l val (Some a) else rb_minmax_loop r val (Some a))"

definition rb_min :: "'a rbtree \<Rightarrow> 'a option" where
  "rb_min t = rb_minmax_loop t (-1) None"

definition rb_max :: "'a rbtree \<Rightarrow> 'a option" where
  "rb_max t = rb_minmax_loop t 1 None"

text \<open>\<open>RB_NEXT\<close> from a node given by its right subtree and the way to the root.\<close>

fun leftmost :: "'a rbtree \<Rightarrow> 'a option" where
  "leftmost Leaf = None"
| "leftmost (Node c Leaf a r) = Some a"
| "leftmost (Node c l a r) = leftmost l"

fun climb_right :: "'a path \<Rightarrow> 'a option" where
  "climb_right [] = None"
| "climb_right (LeftOf c a r # p) = Some a"
| "climb_right (RightOf c l a # p) = climb_right p"

fun rb_next :: "'a rbtree \<Rightarrow> 'a path \<Rightarrow> 'a option" where
  "rb_next Leaf p = None"
| "rb_next (Node c l a r) p = (if r \<noteq> Leaf then leftmost r else climb_right p)"

subsection \<open>Insertion\<close>

text \<open>\<open>RB_INSERT_COLOR\<close>. The subtree is the red node \<open>elm\<close>. A red parent always has a parent, as the
  root is black; without one the source would follow a null pointer, and the model stops.\<close>

fun rb_insert_color :: "'a rbtree \<Rightarrow> 'a path \<Rightarrow> 'a rbtree" where
  "rb_insert_color t [] = paint Black t"
| "rb_insert_color t [f] = paint Black (plug_frame t f)"
| "rb_insert_color t (f # g # p) =
     (if frame_color f = Black then paint Black (plug t (f # g # p))
      else (let parent = plug_frame t f in
        case g of
          LeftOf gc ga tmp \<Rightarrow>
            if rb_color tmp = Red
            then rb_insert_color (Node Red (paint Black parent) ga (paint Black tmp)) p
            else (let parent' = (case f of RightOf _ _ _ \<Rightarrow> rb_rotate_left parent | LeftOf _ _ _ \<Rightarrow> parent);
                      gparent = Node Red (paint Black parent') ga tmp
                  in paint Black (plug (rb_rotate_right gparent) p))
        | RightOf gc tmp ga \<Rightarrow>
            if rb_color tmp = Red
            then rb_insert_color (Node Red (paint Black tmp) ga (paint Black parent)) p
            else (let parent' = (case f of LeftOf _ _ _ \<Rightarrow> rb_rotate_right parent | RightOf _ _ _ \<Rightarrow> parent);
                      gparent = Node Red tmp ga (paint Black parent')
                  in paint Black (plug (rb_rotate_left gparent) p))))"

text \<open>The descent of \<open>RB_INSERT\<close>: an equal element, or the place for the new one.\<close>

fun rb_descend :: "('a \<Rightarrow> 'a \<Rightarrow> int) \<Rightarrow> 'a \<Rightarrow> 'a rbtree \<Rightarrow> 'a path \<Rightarrow> 'a + 'a path" where
  "rb_descend cmp elm Leaf p = Inr p"
| "rb_descend cmp elm (Node c l a r) p =
     (let comp = cmp elm a in
      if comp < 0 then rb_descend cmp elm l (LeftOf c a r # p)
      else if comp > 0 then rb_descend cmp elm r (RightOf c l a # p)
      else Inl a)"

definition rb_insert :: "('a \<Rightarrow> 'a \<Rightarrow> int) \<Rightarrow> 'a rbtree \<Rightarrow> 'a \<Rightarrow> 'a rbtree \<times> 'a option" where
  "rb_insert cmp t elm =
     (case rb_descend cmp elm t [] of
        Inl found \<Rightarrow> (t, Some found)
      | Inr p \<Rightarrow> (rb_insert_color (Node Red Leaf elm Leaf) p, None))"

subsection \<open>Removal\<close>

text \<open>\<open>RB_REMOVE_COLOR\<close>: the subtree \<open>elm\<close> has one black node too few on its paths. The sibling
  \<open>tmp\<close> is never null there; the model stops if it is.\<close>

definition both_black :: "'a rbtree \<Rightarrow> 'a rbtree \<Rightarrow> bool" where
  "both_black l r = (rb_color l = Black \<and> rb_color r = Black)"

text \<open>The last branch of the loop for a left child: at most two rotations around the parent.\<close>

fun remove_rotate_left :: "color \<Rightarrow> 'a rbtree \<Rightarrow> 'a \<Rightarrow> 'a rbtree \<Rightarrow> 'a rbtree" where
  "remove_rotate_left pc elm pa (Node tc tll ta trr) =
     (let tmp = (if rb_color trr = Black
                 then rb_rotate_right (Node Red (paint Black tll) ta trr)
                 else Node tc tll ta trr)
      in case tmp of
           Node _ l b r \<Rightarrow> rb_rotate_left (Node Black elm pa (Node pc l b (paint Black r)))
         | Leaf \<Rightarrow> Node pc elm pa Leaf)"
| "remove_rotate_left pc elm pa Leaf = Node pc elm pa Leaf"

fun remove_rotate_right :: "color \<Rightarrow> 'a rbtree \<Rightarrow> 'a \<Rightarrow> 'a rbtree \<Rightarrow> 'a rbtree" where
  "remove_rotate_right pc (Node tc tll ta trr) pa elm =
     (let tmp = (if rb_color tll = Black
                 then rb_rotate_left (Node Red tll ta (paint Black trr))
                 else Node tc tll ta trr)
      in case tmp of
           Node _ l b r \<Rightarrow> rb_rotate_right (Node Black (Node pc (paint Black l) b r) pa elm)
         | Leaf \<Rightarrow> Node pc Leaf pa elm)"
| "remove_rotate_right pc Leaf pa elm = Node pc Leaf pa elm"

function rb_remove_color :: "'a rbtree \<Rightarrow> 'a path \<Rightarrow> 'a rbtree" where
  "rb_remove_color elm [] = paint Black elm"
| "rb_remove_color elm (LeftOf pc pa tmp # p) =
     (if rb_color elm = Red then plug (paint Black elm) (LeftOf pc pa tmp # p)
      else (let (pc', tmp', p') =
              (case tmp of
                 Node Red tll ta trr \<Rightarrow> (Red, tll, LeftOf Black ta trr # p)
               | _ \<Rightarrow> (pc, tmp, p))
            in case tmp' of
                 Leaf \<Rightarrow> paint Black (plug (Node pc' elm pa Leaf) p')
               | Node tc tll ta trr \<Rightarrow>
                   if both_black tll trr
                   then rb_remove_color (Node pc' elm pa (Node Red tll ta trr)) p'
                   else paint Black (plug (remove_rotate_left pc' elm pa tmp') p')))"
| "rb_remove_color elm (RightOf pc tmp pa # p) =
     (if rb_color elm = Red then plug (paint Black elm) (RightOf pc tmp pa # p)
      else (let (pc', tmp', p') =
              (case tmp of
                 Node Red tll ta trr \<Rightarrow> (Red, trr, RightOf Black tll ta # p)
               | _ \<Rightarrow> (pc, tmp, p))
            in case tmp' of
                 Leaf \<Rightarrow> paint Black (plug (Node pc' Leaf pa elm) p')
               | Node tc tll ta trr \<Rightarrow>
                   if both_black tll trr
                   then rb_remove_color (Node pc' (Node Red tll ta trr) pa elm) p'
                   else paint Black (plug (remove_rotate_right pc' tmp' pa elm) p')))"
  by pat_completeness auto
termination
  by (relation "measure (\<lambda>(t, p). 2 * length p + (if rb_color t = Red then 0 else 1))")
    (auto split: rbtree.splits color.splits if_splits)

text \<open>Where \<open>RB_REMOVE\<close> finds its successor: its colour, element and right subtree, and the frames
  from it up to the right child of the removed node.\<close>

fun successor :: "'a rbtree \<Rightarrow> 'a path \<Rightarrow> (color \<times> 'a \<times> 'a rbtree \<times> 'a path) option" where
  "successor Leaf p = None"
| "successor (Node c l a r) p =
     (if l = Leaf then Some (c, a, r, p) else successor l (LeftOf c a r # p))"

definition rb_remove_at :: "'a rbtree \<Rightarrow> 'a path \<Rightarrow> 'a rbtree" where
  "rb_remove_at t p =
     (case t of
        Leaf \<Rightarrow> plug Leaf p
      | Node c l a r \<Rightarrow>
          (let (col, child, parent) =
             (if l = Leaf then (c, r, p)
              else if r = Leaf then (c, l, p)
              else (case successor r [] of
                      Some (ce, e, er, q) \<Rightarrow> (ce, er, q @ RightOf c l e # p)
                    | None \<Rightarrow> (c, l, p)))
           in if col = Black then rb_remove_color child parent else plug child parent))"

text \<open>The macros take a pointer to the node: the model looks for the node that holds the element.\<close>

fun rb_locate :: "('a \<Rightarrow> bool) \<Rightarrow> 'a rbtree \<Rightarrow> 'a path \<Rightarrow> ('a rbtree \<times> 'a path) option" where
  "rb_locate P Leaf p = None"
| "rb_locate P (Node c l a r) p =
     (if P a then Some (Node c l a r, p)
      else case rb_locate P l (LeftOf c a r # p) of
             Some res \<Rightarrow> Some res
           | None \<Rightarrow> rb_locate P r (RightOf c l a # p))"

definition rb_remove :: "'a rbtree \<Rightarrow> 'a \<Rightarrow> 'a rbtree" where
  "rb_remove t elm =
     (case rb_locate (\<lambda>x. x = elm) t [] of None \<Rightarrow> t | Some (s, p) \<Rightarrow> rb_remove_at s p)"

definition rb_transplant :: "'a rbtree \<Rightarrow> 'a \<Rightarrow> 'a \<Rightarrow> 'a rbtree" where
  "rb_transplant t a b =
     (case rb_locate (\<lambda>x. x = a) t [] of
        Some (Node c l _ r, p) \<Rightarrow> plug (Node c l b r) p
      | _ \<Rightarrow> t)"

subsection \<open>What the tree stores\<close>

fun inorder :: "'a rbtree \<Rightarrow> 'a list" where
  "inorder Leaf = []"
| "inorder (Node c l a r) = inorder l @ a # inorder r"

text \<open>The elements before and after the hole of a path.\<close>

fun before :: "'a path \<Rightarrow> 'a list" where
  "before [] = []"
| "before (LeftOf c a r # p) = before p"
| "before (RightOf c l a # p) = before p @ inorder l @ [a]"

fun after :: "'a path \<Rightarrow> 'a list" where
  "after [] = []"
| "after (LeftOf c a r # p) = a # inorder r @ after p"
| "after (RightOf c l a # p) = after p"

lemma inorder_plug [simp]: "inorder (plug t p) = before p @ inorder t @ after p"
proof (induction p arbitrary: t)
  case (Cons f p) then show ?case by (cases f) auto
qed simp

lemma inorder_paint [simp]: "inorder (paint c t) = inorder t"
  by (cases t) auto

lemma inorder_rotate_left [simp]: "inorder (rb_rotate_left t) = inorder t"
  by (induction t rule: rb_rotate_left.induct) auto

lemma inorder_rotate_right [simp]: "inorder (rb_rotate_right t) = inorder t"
  by (induction t rule: rb_rotate_right.induct) auto

lemma inorder_insert_color [simp]: "inorder (rb_insert_color t p) = before p @ inorder t @ after p"
proof (induction t p rule: rb_insert_color.induct)
  case (2 t f) then show ?case by (cases f) auto
next
  case (3 t f g p) then show ?case by (cases f; cases g) (auto simp: Let_def)
qed simp

lemma inorder_remove_rotate_left [simp]:
  "inorder (remove_rotate_left pc elm pa tmp) = inorder elm @ pa # inorder tmp"
  by (induction pc elm pa tmp rule: remove_rotate_left.induct)
    (auto simp: Let_def split: rbtree.splits dest: arg_cong [where f = inorder])

lemma inorder_remove_rotate_right [simp]:
  "inorder (remove_rotate_right pc tmp pa elm) = inorder tmp @ pa # inorder elm"
  by (induction pc tmp pa elm rule: remove_rotate_right.induct)
    (auto simp: Let_def split: rbtree.splits dest: arg_cong [where f = inorder])

declare remove_rotate_left.simps [simp del] remove_rotate_right.simps [simp del]

lemma inorder_remove_color [simp]: "inorder (rb_remove_color t p) = before p @ inorder t @ after p"
proof (induction t p rule: rb_remove_color.induct)
  case (2 elm pc pa tmp p)
  then show ?case
    by (auto simp: Let_def split: rbtree.splits color.splits prod.splits if_splits)
next
  case (3 elm pc tmp pa p)
  then show ?case
    by (auto simp: Let_def split: rbtree.splits color.splits prod.splits if_splits)
qed simp

lemma successor_inorder:
  "successor t p = Some (c, a, r, q) \<Longrightarrow> before q = before p \<and> a # inorder r @ after q = inorder t @ after p"
  by (induction t p rule: successor.induct) (auto split: if_splits)

lemma successor_Some: "t \<noteq> Leaf \<Longrightarrow> \<exists>c a r q. successor t p = Some (c, a, r, q)"
proof (induction t arbitrary: p)
  case (Node c l a r) then show ?case by (cases "l = Leaf") auto
qed simp

lemma before_append: "before (q @ p) = before p @ before q"
proof (induction q)
  case (Cons f q) then show ?case by (cases f) auto
qed simp

lemma after_append: "after (q @ p) = after q @ after p"
proof (induction q)
  case (Cons f q) then show ?case by (cases f) auto
qed simp

lemma inorder_remove_at:
  "inorder (rb_remove_at (Node c l a r) p) = before p @ inorder l @ inorder r @ after p"
proof (cases "l = Leaf \<or> r = Leaf")
  case True then show ?thesis by (auto simp: rb_remove_at_def)
next
  case False
  then obtain ce e er q where s: "successor r [] = Some (ce, e, er, q)"
    using successor_Some [of r "[]"] by blast
  from successor_inorder [OF s] show ?thesis
    using False by (auto simp: rb_remove_at_def s before_append after_append)
qed

lemma rb_locate_Some:
  "rb_locate P t p = Some (s, q) \<Longrightarrow> plug s q = plug t p \<and> (\<exists>c l a r. s = Node c l a r \<and> P a)"
  by (induction P t p rule: rb_locate.induct) (auto split: if_splits option.splits)

lemma rb_locate_None: "rb_locate P t p = None \<Longrightarrow> x \<in> set (inorder t) \<Longrightarrow> \<not> P x"
  by (induction P t p rule: rb_locate.induct) (auto split: if_splits option.splits)

lemma inorder_remove: "distinct (inorder t) \<Longrightarrow> inorder (rb_remove t elm) = remove1 elm (inorder t)"
proof (cases "rb_locate (\<lambda>x. x = elm) t []")
  case None
  then have "elm \<notin> set (inorder t)" using rb_locate_None by fastforce
  then show ?thesis using None by (simp add: rb_remove_def remove1_idem)
next
  case (Some sq)
  moreover assume dist: "distinct (inorder t)"
  ultimately obtain c l r q where s: "rb_locate (\<lambda>x. x = elm) t [] = Some (Node c l elm r, q)"
    and plug: "plug (Node c l elm r) q = t"
    by (cases sq) (auto dest!: rb_locate_Some)
  have io: "inorder t = (before q @ inorder l) @ elm # (inorder r @ after q)"
    using plug by (metis append.assoc append_Cons inorder.simps(2) inorder_plug)
  show ?thesis using dist inorder_remove_at [of c l elm r q]
    by (simp add: rb_remove_def s io remove1_append)
qed

lemma inorder_transplant:
  "distinct (inorder t) \<Longrightarrow> inorder (rb_transplant t a b) = map (\<lambda>x. if x = a then b else x) (inorder t)"
proof (cases "rb_locate (\<lambda>x. x = a) t []")
  case None
  then have "\<forall>x \<in> set (inorder t). x \<noteq> a" using rb_locate_None by fastforce
  then show ?thesis using None by (simp add: rb_transplant_def map_idI)
next
  case (Some sq)
  moreover assume dist: "distinct (inorder t)"
  ultimately obtain c l r q where s: "rb_locate (\<lambda>x. x = a) t [] = Some (Node c l a r, q)"
    and plug: "plug (Node c l a r) q = t"
    by (cases sq) (auto dest!: rb_locate_Some)
  have io: "inorder t = (before q @ inorder l) @ a # (inorder r @ after q)"
    using plug by (metis append.assoc append_Cons inorder.simps(2) inorder_plug)
  have "\<forall>x \<in> set (before q @ inorder l) \<union> set (inorder r @ after q). x \<noteq> a"
    using dist unfolding io by auto
  then have "map (\<lambda>x. if x = a then b else x) (inorder t) = (before q @ inorder l) @ b # (inorder r @ after q)"
    unfolding io by (simp add: map_idI)
  then show ?thesis by (simp add: rb_transplant_def s)
qed

lemma minmax_min: "rb_minmax_loop t (-1) parent = (case inorder t of [] \<Rightarrow> parent | x # _ \<Rightarrow> Some x)"
  by (induction t arbitrary: parent) (auto split: list.splits)

lemma minmax_max:
  "rb_minmax_loop t 1 parent = (if inorder t = [] then parent else Some (last (inorder t)))"
  by (induction t arbitrary: parent) auto

lemma rb_min_inorder: "rb_min t = (case inorder t of [] \<Rightarrow> None | x # _ \<Rightarrow> Some x)"
  by (simp add: rb_min_def minmax_min)

lemma rb_max_inorder: "rb_max t = (if inorder t = [] then None else Some (last (inorder t)))"
  by (simp add: rb_max_def minmax_max)

lemma leftmost_inorder: "leftmost t = (case inorder t of [] \<Rightarrow> None | x # _ \<Rightarrow> Some x)"
proof (induction t rule: leftmost.induct)
  case (3 c lc ll la lr a r)
  then show ?case by (cases "inorder ll") auto
qed auto

lemma climb_right_after: "climb_right p = (case after p of [] \<Rightarrow> None | x # _ \<Rightarrow> Some x)"
  by (induction p rule: climb_right.induct) auto

lemma rb_next_inorder:
  "rb_next (Node c l a r) p = (case inorder r @ after p of [] \<Rightarrow> None | x # _ \<Rightarrow> Some x)"
proof (cases r)
  case Leaf then show ?thesis by (simp add: climb_right_after)
next
  case (Node rc rl ra rr)
  then show ?thesis using leftmost_inorder [of r] by (cases "inorder rl") auto
qed

subsection \<open>Balance\<close>

fun bheight :: "'a rbtree \<Rightarrow> nat" where
  "bheight Leaf = 0"
| "bheight (Node c l a r) = bheight l + (if c = Black then 1 else 0)"

fun invc :: "'a rbtree \<Rightarrow> bool" where
  "invc Leaf = True"
| "invc (Node c l a r) =
     (invc l \<and> invc r \<and> (c = Red \<longrightarrow> rb_color l = Black \<and> rb_color r = Black))"

fun invh :: "'a rbtree \<Rightarrow> bool" where
  "invh Leaf = True"
| "invh (Node c l a r) = (invh l \<and> invh r \<and> bheight l = bheight r)"

definition rb_ok :: "'a rbtree \<Rightarrow> bool" where
  "rb_ok t = (invc t \<and> invh t \<and> rb_color t = Black)"

text \<open>A red node may sit below a frame only if the frame exists and is black.\<close>

definition black_above :: "'a path \<Rightarrow> bool" where
  "black_above p = (case p of [] \<Rightarrow> False | f # _ \<Rightarrow> frame_color f = Black)"

text \<open>\<open>path_ok p n\<close>: the path is part of a red-black tree with a hole for a subtree of black
  height \<open>n\<close>.\<close>

fun path_ok :: "'a path \<Rightarrow> nat \<Rightarrow> bool" where
  "path_ok [] n = True"
| "path_ok (LeftOf c a r # p) n =
     (invc r \<and> invh r \<and> bheight r = n \<and> (c = Red \<longrightarrow> rb_color r = Black \<and> black_above p)
      \<and> path_ok p (n + (if c = Black then 1 else 0)))"
| "path_ok (RightOf c l a # p) n =
     (invc l \<and> invh l \<and> bheight l = n \<and> (c = Red \<longrightarrow> rb_color l = Black \<and> black_above p)
      \<and> path_ok p (n + (if c = Black then 1 else 0)))"

lemma black_above_simps [simp]:
  "black_above (f # p) = (frame_color f = Black)" "\<not> black_above []"
  by (simp_all add: black_above_def)

lemma not_Black [simp]: "(c \<noteq> Black) = (c = Red)" "(c \<noteq> Red) = (c = Black)"
  by (cases c; simp)+

text \<open>A tree is a red-black tree exactly when the hole and its filling fit together.\<close>

lemma rb_ok_plug:
  "rb_ok (plug t p) \<longleftrightarrow>
     invc t \<and> invh t \<and> path_ok p (bheight t) \<and> (rb_color t = Red \<longrightarrow> black_above p)"
proof (induction p arbitrary: t)
  case Nil then show ?case by (auto simp: rb_ok_def)
next
  case (Cons f p)
  show ?case
  proof (cases f)
    case (LeftOf c a r)
    show ?thesis unfolding LeftOf using Cons.IH [of "Node c t a r"] by (cases c) auto
  next
    case (RightOf c l a)
    show ?thesis unfolding RightOf using Cons.IH [of "Node c l a t"] by (cases c) auto
  qed
qed

lemma paint_Black_id [simp]: "rb_color t = Black \<Longrightarrow> paint Black t = t"
  by (cases t) auto

lemma rb_ok_paint_plug [simp]: "rb_ok (plug t p) \<Longrightarrow> rb_ok (paint Black (plug t p))"
  by (simp add: rb_ok_def)

lemma paint_color [simp]: "rb_color (paint Black t) = Black"
  by (cases t) auto

lemma paint_inv [simp]: "invh (paint c t) = invh t" "invc t \<Longrightarrow> invc (paint Black t)"
  by (cases t; auto)+

lemma bheight_paint_Black: "rb_color t = Red \<Longrightarrow> bheight (paint Black t) = Suc (bheight t)"
  by (cases t) auto

lemma rb_insert_color_ok:
  assumes "invc t" "invh t" "rb_color t = Red" "path_ok p (bheight t)"
  shows "rb_ok (rb_insert_color t p)"
  using assms
proof (induction t p rule: rb_insert_color.induct)
  case (1 t) then show ?case by (simp add: rb_ok_def)
next
  case (2 t f)
  then have "rb_ok (plug t [f])" unfolding rb_ok_plug by (cases f) auto
  then show ?case by (simp add: rb_ok_def)
next
  case (3 t f g p)
  show ?case
  proof (cases "frame_color f = Black")
    case True
    then have "rb_ok (plug t (f # g # p))" using 3 unfolding rb_ok_plug by simp
    then show ?thesis using True by (simp add: rb_ok_def)
  next
    case False
    obtain c l a r where t: "t = Node c l a r" using 3(5) by (cases t) auto
    show ?thesis
    proof (cases g)
      case (LeftOf gc ga tmp)
      show ?thesis
      proof (cases "rb_color tmp = Red")
        case True
        then show ?thesis
          using 3 False LeftOf t
          by (cases f; cases tmp) (auto simp: Let_def)
      next
        case nr: False
        then have "rb_ok (plug (rb_rotate_right (Node Red (paint Black (case f of RightOf _ _ _ \<Rightarrow>
            rb_rotate_left (plug_frame t f) | LeftOf _ _ _ \<Rightarrow> plug_frame t f)) ga tmp)) p)"
          using 3(3-6) False LeftOf t unfolding rb_ok_plug by (cases f) auto
        then show ?thesis using False nr LeftOf by (auto simp: Let_def split: frame.splits)
      qed
    next
      case (RightOf gc tmp ga)
      show ?thesis
      proof (cases "rb_color tmp = Red")
        case True
        then show ?thesis
          using 3 False RightOf t
          by (cases f; cases tmp) (auto simp: Let_def)
      next
        case nr: False
        then have "rb_ok (plug (rb_rotate_left (Node Red tmp ga (paint Black (case f of LeftOf _ _ _ \<Rightarrow>
            rb_rotate_right (plug_frame t f) | RightOf _ _ _ \<Rightarrow> plug_frame t f)))) p)"
          using 3(3-6) False RightOf t unfolding rb_ok_plug by (cases f) auto
        then show ?thesis using False nr RightOf by (auto simp: Let_def split: frame.splits)
      qed
    qed
  qed
qed

text \<open>The rotations at the end of \<open>RB_REMOVE_COLOR\<close> restore the missing black node: the new subtree
  has the colour of the old parent.\<close>

lemma remove_rotate_left_ok:
  assumes "invc elm" "invh elm" "rb_color elm = Black" "tmp \<noteq> Leaf" "rb_color tmp = Black"
    "invc tmp" "invh tmp" "bheight tmp = Suc (bheight elm)"
    "case tmp of Node _ l _ r \<Rightarrow> \<not> both_black l r | Leaf \<Rightarrow> True"
  shows "let t = remove_rotate_left pc elm pa tmp in
    invc t \<and> invh t \<and> rb_color t = pc \<and> bheight t = bheight elm + 1 + (if pc = Black then 1 else 0)"
proof -
  obtain tll ta trr where tmp: "tmp = Node Black tll ta trr" using assms(4,5) by (cases tmp) auto
  show ?thesis
  proof (cases "rb_color trr = Black")
    case True
    then obtain ll la lr where "tll = Node Red ll la lr"
      using assms(9) tmp by (cases tll) (auto simp: both_black_def)
    then show ?thesis using True assms by (auto simp: tmp remove_rotate_left.simps)
  next
    case False
    then obtain rl ra rr where "trr = Node Red rl ra rr" by (cases trr) auto
    then show ?thesis using False assms by (auto simp: tmp remove_rotate_left.simps)
  qed
qed

lemma remove_rotate_right_ok:
  assumes "invc elm" "invh elm" "rb_color elm = Black" "tmp \<noteq> Leaf" "rb_color tmp = Black"
    "invc tmp" "invh tmp" "bheight tmp = Suc (bheight elm)"
    "case tmp of Node _ l _ r \<Rightarrow> \<not> both_black l r | Leaf \<Rightarrow> True"
  shows "let t = remove_rotate_right pc tmp pa elm in
    invc t \<and> invh t \<and> rb_color t = pc \<and> bheight t = bheight elm + 1 + (if pc = Black then 1 else 0)"
proof -
  obtain tll ta trr where tmp: "tmp = Node Black tll ta trr" using assms(4,5) by (cases tmp) auto
  show ?thesis
  proof (cases "rb_color tll = Black")
    case True
    then obtain rl ra rr where "trr = Node Red rl ra rr"
      using assms(9) tmp by (cases trr) (auto simp: both_black_def)
    then show ?thesis using True assms by (auto simp: tmp remove_rotate_right.simps)
  next
    case False
    then obtain ll la lr where "tll = Node Red ll la lr" by (cases tll) auto
    then show ?thesis using False assms by (auto simp: tmp remove_rotate_right.simps)
  qed
qed

text \<open>The last step of the loop in context: the rotated subtree takes the parent's place.\<close>

lemma remove_rotate_left_plug:
  assumes "invc elm" "invh elm" "rb_color elm = Black" "tmp \<noteq> Leaf" "rb_color tmp = Black"
    "case tmp of Node _ l _ r \<Rightarrow> \<not> both_black l r | Leaf \<Rightarrow> True"
    "path_ok (LeftOf pc pa tmp # p) (Suc (bheight elm))"
  shows "rb_ok (paint Black (plug (remove_rotate_left pc elm pa tmp) p))"
proof (rule rb_ok_paint_plug)
  show "rb_ok (plug (remove_rotate_left pc elm pa tmp) p)"
    using remove_rotate_left_ok [OF assms(1-5) _ _ _ assms(6), of pc pa] assms(7)
    unfolding rb_ok_plug by (auto simp: Let_def)
qed

lemma remove_rotate_right_plug:
  assumes "invc elm" "invh elm" "rb_color elm = Black" "tmp \<noteq> Leaf" "rb_color tmp = Black"
    "case tmp of Node _ l _ r \<Rightarrow> \<not> both_black l r | Leaf \<Rightarrow> True"
    "path_ok (RightOf pc tmp pa # p) (Suc (bheight elm))"
  shows "rb_ok (paint Black (plug (remove_rotate_right pc tmp pa elm) p))"
proof (rule rb_ok_paint_plug)
  show "rb_ok (plug (remove_rotate_right pc tmp pa elm) p)"
    using remove_rotate_right_ok [OF assms(1-5) _ _ _ assms(6), of pc pa] assms(7)
    unfolding rb_ok_plug by (auto simp: Let_def)
qed

lemma rb_remove_color_red:
  assumes "invc (paint Black t)" "invh t" "rb_color t = Red" "path_ok p (Suc (bheight t))"
  shows "rb_ok (plug (paint Black t) p)"
  unfolding rb_ok_plug using assms by (simp add: bheight_paint_Black)

lemma rb_remove_color_ok:
  assumes "invc (paint Black t)" "invh t" "path_ok p (Suc (bheight t))"
  shows "rb_ok (rb_remove_color t p)"
  using assms
proof (induction t p rule: rb_remove_color.induct)
  case (1 elm) then show ?case by (simp add: rb_ok_def)
next
  case (2 elm pc pa tmp p)
  show ?case
  proof (cases "rb_color elm = Red")
    case True
    then show ?thesis using rb_remove_color_red [OF "2.prems"(1,2) True "2.prems"(3)] by simp
  next
    case False
    then have elm: "invc elm" "invh elm" "rb_color elm = Black" using "2.prems" by auto
    obtain c l a r where tmp: "tmp = Node c l a r" using "2.prems"(3) by (cases tmp) auto
    show ?thesis
    proof (cases c)
      case Red
      obtain lc ll la lr where l: "l = Node lc ll la lr" "lc = Black"
        using "2.prems"(3) by (cases l) (auto simp: tmp Red)
      have path: "path_ok (LeftOf Red pa l # LeftOf Black a r # p) (Suc (bheight elm))"
        using "2.prems"(3) by (auto simp: tmp Red l)
      show ?thesis
      proof (cases "both_black ll lr")
        case True
        have "rb_ok (rb_remove_color (Node Red elm pa (Node Red ll la lr)) (LeftOf Black a r # p))"
          using "2.IH" [of "(Red, l, LeftOf Black a r # p)" Red "(l, LeftOf Black a r # p)" l "LeftOf Black a r # p"
              lc ll la lr] elm path True l False by (auto simp: tmp Red both_black_def)
        then show ?thesis using False True by (simp add: tmp Red l)
      next
        case nb: False
        then show ?thesis
          using False remove_rotate_left_plug [OF elm _ _ _ path] by (simp add: tmp Red l)
      qed
    next
      case Black
      show ?thesis
      proof (cases "both_black l r")
        case True
        have "rb_ok (rb_remove_color (Node pc elm pa (Node Red l a r)) p)"
          using "2.IH" [of "(pc, tmp, p)" pc "(tmp, p)" tmp p c l a r] elm "2.prems"(3) True False
          by (auto simp: tmp Black both_black_def)
        then show ?thesis using False True by (simp add: tmp Black)
      next
        case nb: False
        then show ?thesis
          using False remove_rotate_left_plug [OF elm _ _ _ "2.prems"(3)] by (simp add: tmp Black)
      qed
    qed
  qed
next
  case (3 elm pc tmp pa p)
  show ?case
  proof (cases "rb_color elm = Red")
    case True
    then show ?thesis using rb_remove_color_red [OF "3.prems"(1,2) True "3.prems"(3)] by simp
  next
    case False
    then have elm: "invc elm" "invh elm" "rb_color elm = Black" using "3.prems" by auto
    obtain c l a r where tmp: "tmp = Node c l a r" using "3.prems"(3) by (cases tmp) auto
    show ?thesis
    proof (cases c)
      case Red
      obtain lc ll la lr where r: "r = Node lc ll la lr" "lc = Black"
        using "3.prems"(3) by (cases r) (auto simp: tmp Red)
      have path: "path_ok (RightOf Red r pa # RightOf Black l a # p) (Suc (bheight elm))"
        using "3.prems"(3) by (auto simp: tmp Red r)
      show ?thesis
      proof (cases "both_black ll lr")
        case True
        have "rb_ok (rb_remove_color (Node Red (Node Red ll la lr) pa elm) (RightOf Black l a # p))"
          using "3.IH" [of "(Red, r, RightOf Black l a # p)" Red "(r, RightOf Black l a # p)" r "RightOf Black l a # p"
              lc ll la lr] elm path True r False by (auto simp: tmp Red both_black_def)
        then show ?thesis using False True by (simp add: tmp Red r)
      next
        case nb: False
        then show ?thesis
          using False remove_rotate_right_plug [OF elm _ _ _ path] by (simp add: tmp Red r)
      qed
    next
      case Black
      show ?thesis
      proof (cases "both_black l r")
        case True
        have "rb_ok (rb_remove_color (Node pc (Node Red l a r) pa elm) p)"
          using "3.IH" [of "(pc, tmp, p)" pc "(tmp, p)" tmp p c l a r] elm "3.prems"(3) True False
          by (auto simp: tmp Black both_black_def)
        then show ?thesis using False True by (simp add: tmp Black)
      next
        case nb: False
        then show ?thesis
          using False remove_rotate_right_plug [OF elm _ _ _ "3.prems"(3)] by (simp add: tmp Black)
      qed
    qed
  qed
qed

lemma rb_descend_plug: "rb_descend cmp x t p = Inr q \<Longrightarrow> plug Leaf q = plug t p"
  by (induction cmp x t p rule: rb_descend.induct) (auto simp: Let_def split: if_splits)

lemma rb_insert_ok: "rb_ok t \<Longrightarrow> rb_ok (fst (rb_insert cmp t x))"
proof (cases "rb_descend cmp x t []")
  case (Inr q)
  moreover assume "rb_ok t"
  ultimately have "rb_ok (plug Leaf q)" using rb_descend_plug by fastforce
  then show ?thesis
    using rb_insert_color_ok [of "Node Red Leaf x Leaf" q] Inr by (simp add: rb_ok_plug rb_insert_def)
qed (simp add: rb_insert_def)

lemma successor_plug:
  "successor t p = Some (c, a, r, q) \<Longrightarrow> plug (Node c Leaf a r) q = plug t p"
  by (induction t p rule: successor.induct) (auto split: if_splits)

lemma plug_append [simp]: "plug t (q @ p) = plug (plug t q) p"
  by (induction q arbitrary: t) auto

lemma path_ok_change_element:
  "path_ok (q @ RightOf c l a # p) n = path_ok (q @ RightOf c l b # p) n"
proof (induction q arbitrary: n)
  case (Cons f q)
  have "black_above (q @ RightOf c l a # p) = black_above (q @ RightOf c l b # p)"
    by (cases q) auto
  then show ?case using Cons by (cases f) auto
qed simp

lemma rb_remove_at_ok:
  assumes "rb_ok (plug (Node c l a r) p)"
  shows "rb_ok (rb_remove_at (Node c l a r) p)"
proof (cases "l = Leaf \<or> r = Leaf")
  case True
  show ?thesis
  proof (cases c)
    case Red
    with True assms show ?thesis by (auto simp: rb_remove_at_def rb_ok_plug)
  next
    case Black
    then show ?thesis using True assms unfolding rb_ok_plug
      by (auto simp: rb_remove_at_def intro!: rb_remove_color_ok)
  qed
next
  case False
  then obtain ce e er q where s: "successor r [] = Some (ce, e, er, q)"
    using successor_Some [of r "[]"] by blast
  from successor_plug [OF s] have "plug (Node ce Leaf e er) (q @ RightOf c l a # p) = plug (Node c l a r) p"
    by simp
  with assms have ok: "rb_ok (plug (Node ce Leaf e er) (q @ RightOf c l a # p))" by simp
  then have ok': "invc er" "invh er" "bheight er = 0" "ce = Red \<longrightarrow> rb_color er = Black"
    "path_ok (q @ RightOf c l e # p) (if ce = Black then 1 else 0)"
    unfolding rb_ok_plug path_ok_change_element [of q c l a p _ e] by auto
  show ?thesis
  proof (cases ce)
    case Red
    then have "rb_ok (plug er (q @ RightOf c l e # p))" unfolding rb_ok_plug using ok' by auto
    then show ?thesis using False Red by (simp add: rb_remove_at_def s)
  next
    case Black
    then show ?thesis using False ok' rb_remove_color_ok [of er "q @ RightOf c l e # p"]
      by (simp add: rb_remove_at_def s)
  qed
qed

lemma rb_remove_ok: "rb_ok t \<Longrightarrow> rb_ok (rb_remove t x)"
proof (cases "rb_locate (\<lambda>y. y = x) t []")
  case (Some sq)
  moreover assume "rb_ok t"
  ultimately obtain c l r q where s: "rb_locate (\<lambda>y. y = x) t [] = Some (Node c l x r, q)"
    and plug: "plug (Node c l x r) q = t"
    by (cases sq) (auto dest!: rb_locate_Some)
  show ?thesis using rb_remove_at_ok [of c l x r q] \<open>rb_ok t\<close> plug by (simp add: rb_remove_def s)
qed (simp add: rb_remove_def)

lemma rb_transplant_ok: "rb_ok t \<Longrightarrow> rb_ok (rb_transplant t a b)"
proof (cases "rb_locate (\<lambda>y. y = a) t []")
  case (Some sq)
  moreover assume "rb_ok t"
  ultimately show ?thesis
    by (cases sq) (auto simp: rb_transplant_def rb_ok_plug dest!: rb_locate_Some split: rbtree.splits)
qed (simp add: rb_transplant_def)

subsection \<open>Search trees ordered by a key\<close>

text \<open>A comparator agrees with a key when its sign is the order of the keys (the comparators of the
  scheduler return -1, 0 or 1). The tree is then a strictly sorted sequence.\<close>

definition agrees :: "('a \<Rightarrow> 'a \<Rightarrow> int) \<Rightarrow> ('a \<Rightarrow> 'k :: linorder) \<Rightarrow> bool" where
  "agrees cmp key = (\<forall>a b. (cmp a b < 0 \<longleftrightarrow> key a < key b) \<and> (cmp a b > 0 \<longleftrightarrow> key b < key a))"

definition key_sorted :: "('a \<Rightarrow> 'k :: linorder) \<Rightarrow> 'a list \<Rightarrow> bool" where
  "key_sorted key xs = sorted_wrt (\<lambda>a b. key a < key b) xs"

definition key_insert :: "('a \<Rightarrow> 'k :: linorder) \<Rightarrow> 'a \<Rightarrow> 'a list \<Rightarrow> 'a list" where
  "key_insert key x xs = filter (\<lambda>y. key y < key x) xs @ x # filter (\<lambda>y. key x < key y) xs"

lemma agreesD:
  assumes "agrees cmp key"
  shows "(cmp a b < 0) = (key a < key b)" "(0 < cmp a b) = (key b < key a)"
  using assms by (auto simp: agrees_def)

lemma key_sorted_distinct: "key_sorted key xs \<Longrightarrow> distinct xs"
  by (induction xs) (auto simp: key_sorted_def)

lemma key_sorted_append:
  "key_sorted key (xs @ ys) =
     (key_sorted key xs \<and> key_sorted key ys \<and> (\<forall>a \<in> set xs. \<forall>b \<in> set ys. key a < key b))"
  by (simp add: key_sorted_def sorted_wrt_append)

lemma key_sorted_Cons:
  "key_sorted key (x # ys) = (key_sorted key ys \<and> (\<forall>b \<in> set ys. key x < key b))"
  by (auto simp: key_sorted_def)

lemma key_sorted_distinct_keys: "key_sorted key xs \<Longrightarrow> distinct (map key xs)"
  by (induction xs) (force simp: key_sorted_Cons key_sorted_def)+

lemma key_sorted_inj:
  "key_sorted key xs \<Longrightarrow> a \<in> set xs \<Longrightarrow> b \<in> set xs \<Longrightarrow> key a = key b \<Longrightarrow> a = b"
  using key_sorted_distinct_keys [of key xs] by (auto simp: distinct_map inj_on_def)

lemma key_sorted_insert: "key_sorted key xs \<Longrightarrow> key_sorted key (key_insert key x xs)"
  by (auto simp: key_insert_def key_sorted_append key_sorted_Cons)
    (auto simp: key_sorted_def sorted_wrt_filter)

lemma key_sorted_remove1: "key_sorted key xs \<Longrightarrow> key_sorted key (remove1 x xs)"
proof (induction xs)
  case (Cons y ys)
  then show ?case using set_remove1_subset [of x ys] by (auto simp: key_sorted_Cons)
qed simp

lemma filter_split_sorted:
  fixes key :: "'a \<Rightarrow> 'k :: linorder"
  assumes "\<forall>a \<in> set xs. key a < k" "\<forall>a \<in> set ys. k < key a"
  shows "filter (\<lambda>y. key y < k) (xs @ ys) = xs" "filter (\<lambda>y. k < key y) (xs @ ys) = ys"
proof -
  have "filter (\<lambda>y. key y < k) ys = []" "filter (\<lambda>y. k < key y) xs = []"
    using assms by (auto simp: filter_empty_conv not_less less_imp_le)
  then show "filter (\<lambda>y. key y < k) (xs @ ys) = xs" "filter (\<lambda>y. k < key y) (xs @ ys) = ys"
    using assms by simp_all
qed

lemma rb_descend_Inr:
  assumes "agrees cmp key" "key_sorted key (inorder t)" "rb_descend cmp x t p = Inr q"
    "\<forall>a \<in> set (before p). key a < key x" "\<forall>a \<in> set (after p). key x < key a"
  shows "(\<forall>a \<in> set (before q). key a < key x) \<and> (\<forall>a \<in> set (after q). key x < key a)
    \<and> before q @ after q = before p @ inorder t @ after p"
  using assms(2-)
proof (induction t arbitrary: p)
  case (Node c l a r)
  from Node.prems(1) have s: "key_sorted key (inorder l)" "key_sorted key (inorder r)"
    "\<forall>b \<in> set (inorder l). key b < key a" "\<forall>b \<in> set (inorder r). key a < key b"
    by (auto simp: key_sorted_append key_sorted_Cons)
  consider "key x < key a" | "key a < key x" | "key x = key a" by (rule linorder_cases)
  then show ?case
  proof cases
    case 1
    then show ?thesis
      using Node.IH(1) [OF s(1), of "LeftOf c a r # p"] Node.prems(2-) s(4)
        agreesD [OF assms(1), of x a]
      by (auto simp: Let_def dest: less_trans [OF 1])
  next
    case 2
    then show ?thesis
      using Node.IH(2) [OF s(2), of "RightOf c l a # p"] Node.prems(2-) s(3)
        agreesD [OF assms(1), of x a]
      by (auto simp: Let_def dest: less_trans [OF _ 2])
  next
    case 3
    then show ?thesis using Node.prems agreesD [OF assms(1), of x a] by (simp add: Let_def)
  qed
qed simp

lemma rb_descend_Inl:
  "agrees cmp key \<Longrightarrow> rb_descend cmp x t p = Inl y \<Longrightarrow> y \<in> set (inorder t) \<and> key y = key x"
proof (induction t arbitrary: p)
  case (Node c l a r)
  then show ?case using agreesD [OF Node.prems(1), of x a]
    by (auto simp: Let_def split: if_splits intro: antisym)
qed simp

lemma rb_insert_new:
  assumes "agrees cmp key" "key_sorted key (inorder t)" "key x \<notin> key ` set (inorder t)"
  shows "inorder (fst (rb_insert cmp t x)) = key_insert key x (inorder t)"
    and "snd (rb_insert cmp t x) = None"
proof -
  obtain q where q: "rb_descend cmp x t [] = Inr q"
    using rb_descend_Inl [OF assms(1), of x t "[]"] assms(3)
    by (cases "rb_descend cmp x t []") (auto simp: rev_image_eqI)
  from rb_descend_Inr [OF assms(1,2) q] have
    b: "\<forall>a \<in> set (before q). key a < key x" and a: "\<forall>a \<in> set (after q). key x < key a"
    and io: "inorder t = before q @ after q" by auto
  show "inorder (fst (rb_insert cmp t x)) = key_insert key x (inorder t)"
    unfolding io key_insert_def filter_split_sorted [OF b a] by (simp add: rb_insert_def q)
  show "snd (rb_insert cmp t x) = None" by (simp add: rb_insert_def q)
qed

lemma rb_insert_old:
  assumes "agrees cmp key" "key_sorted key (inorder t)" "y \<in> set (inorder t)" "key y = key x"
  shows "rb_insert cmp t x = (t, Some y)"
proof (cases "rb_descend cmp x t []")
  case (Inl z)
  then show ?thesis using rb_descend_Inl [OF assms(1) Inl] key_sorted_inj [OF assms(2), of y z] assms(3,4)
    by (simp add: rb_insert_def)
next
  case (Inr q)
  from rb_descend_Inr [OF assms(1,2) Inr] have
    "\<forall>a \<in> set (before q). key a < key x" "\<forall>a \<in> set (after q). key x < key a"
    "before q @ after q = inorder t" by auto
  then have "y \<notin> set (inorder t)"
    using assms(4) by (metis Un_iff less_irrefl set_append)
  with assms(3) show ?thesis by simp
qed

lemma rb_find_descend:
  "rb_find cmp t x = (case rb_descend cmp x t p of Inl y \<Rightarrow> Some y | Inr _ \<Rightarrow> None)"
  by (induction t arbitrary: p) (auto simp: Let_def)

lemma rb_find_insert: "rb_find cmp t x = snd (rb_insert cmp t x)"
  by (simp add: rb_find_descend [of cmp t x "[]"] rb_insert_def split: sum.splits)

subsection \<open>The interface of an ordered store\<close>

text \<open>What a client of the tree relies on: an insertion either finds the element with the same key
  and changes nothing, or puts the new element at its place; a removal takes the element out; the
  least element is the first one.\<close>

fun drain :: "('s \<Rightarrow> 'a option) \<Rightarrow> ('s \<Rightarrow> 'a \<Rightarrow> 's) \<Rightarrow> nat \<Rightarrow> 's \<Rightarrow> 'a list" where
  "drain least del 0 s = []"
| "drain least del (Suc n) s =
     (case least s of None \<Rightarrow> [] | Some x \<Rightarrow> x # drain least del n (del s x))"

locale ordered_store =
  fixes ins :: "'s \<Rightarrow> 'a \<Rightarrow> 's \<times> 'a option"
    and del :: "'s \<Rightarrow> 'a \<Rightarrow> 's"
    and least :: "'s \<Rightarrow> 'a option"
    and greatest :: "'s \<Rightarrow> 'a option"
    and contents :: "'s \<Rightarrow> 'a list"
    and ok :: "'s \<Rightarrow> bool"
    and key :: "'a \<Rightarrow> 'k :: linorder"
  assumes ok_sorted: "ok s \<Longrightarrow> key_sorted key (contents s)"
    and ins_new: "ok s \<Longrightarrow> key x \<notin> key ` set (contents s) \<Longrightarrow>
      ok (fst (ins s x)) \<and> contents (fst (ins s x)) = key_insert key x (contents s) \<and> snd (ins s x) = None"
    and ins_old: "ok s \<Longrightarrow> y \<in> set (contents s) \<Longrightarrow> key y = key x \<Longrightarrow> ins s x = (s, Some y)"
    and del_law: "ok s \<Longrightarrow> ok (del s x) \<and> contents (del s x) = remove1 x (contents s)"
    and least_law: "least s = (case contents s of [] \<Rightarrow> None | x # _ \<Rightarrow> Some x)"
    and greatest_law: "greatest s = (if contents s = [] then None else Some (last (contents s)))"
begin

lemma least_minimal:
  assumes "ok s" "least s = Some x"
  shows "x \<in> set (contents s) \<and> (\<forall>y \<in> set (contents s). y \<noteq> x \<longrightarrow> key x < key y)"
  using assms ok_sorted [OF assms(1)] by (auto simp: least_law key_sorted_Cons split: list.splits)

lemma greatest_maximal:
  assumes "ok s" "greatest s = Some x"
  shows "x \<in> set (contents s) \<and> (\<forall>y \<in> set (contents s). y \<noteq> x \<longrightarrow> key y < key x)"
proof -
  from assms(2) obtain ys where "contents s = ys @ [x]"
    by (auto simp: greatest_law split: if_splits) (metis append_butlast_last_id)
  then show ?thesis using ok_sorted [OF assms(1)] by (auto simp: key_sorted_append)
qed

lemma ins_keeps_ok: "ok s \<Longrightarrow> ok (fst (ins s x))"
  using ins_new ins_old by (cases "key x \<in> key ` set (contents s)") auto

lemma ins_snd: "ok s \<Longrightarrow> (snd (ins s x) = None) = (key x \<notin> key ` set (contents s))"
  using ins_new ins_old by (cases "key x \<in> key ` set (contents s)") auto

lemma ins_set:
  "ok s \<Longrightarrow> snd (ins s x) = None \<Longrightarrow> set (contents (fst (ins s x))) = insert x (set (contents s))"
  using ins_new [of s x] ins_snd [of s x]
  by (auto simp: key_insert_def image_iff not_less_iff_gr_or_eq)

lemma ins_mset:
  assumes "ok s" "snd (ins s x) = None"
  shows "mset (contents (fst (ins s x))) = add_mset x (mset (contents s))"
proof -
  have ok: "ok (fst (ins s x))" and x: "x \<notin> set (contents s)"
    using ins_new [of s x] ins_snd [of s x] assms by auto
  have "distinct (contents (fst (ins s x)))" "distinct (contents s)"
    using ok_sorted [OF ok] ok_sorted [OF assms(1)] key_sorted_distinct by auto
  then show ?thesis
    using ins_set [OF assms] x by (auto simp flip: mset_set_set)
qed

lemma del_least: "ok s \<Longrightarrow> least s = Some x \<Longrightarrow> contents s = x # contents (del s x)"
  using del_law [of s x] by (auto simp: least_law split: list.splits)

text \<open>Taking the least element out until the store is empty yields the contents in order.\<close>

lemma drain_contents: "ok s \<Longrightarrow> n = length (contents s) \<Longrightarrow> drain least del n s = contents s"
proof (induction n arbitrary: s)
  case (Suc n)
  then obtain x xs where c: "contents s = x # xs" by (cases "contents s") auto
  then have l: "least s = Some x" by (simp add: least_law)
  have d: "ok (del s x)" "contents (del s x) = xs"
    using del_law [OF Suc.prems(1), of x] c by auto
  show ?case using Suc.IH [OF d(1)] Suc.prems(2) c d(2) by (simp add: l)
qed simp

end

text \<open>Every tree whose comparator agrees with a key is an ordered store.\<close>

definition tree_ok :: "('a \<Rightarrow> 'k :: linorder) \<Rightarrow> 'a rbtree \<Rightarrow> bool" where
  "tree_ok key t = (rb_ok t \<and> key_sorted key (inorder t))"

locale keyed_comparator =
  fixes cmp :: "'a \<Rightarrow> 'a \<Rightarrow> int" and key :: "'a \<Rightarrow> 'k :: linorder"
  assumes cmp_agrees: "agrees cmp key"

sublocale keyed_comparator \<subseteq> ordered_store "rb_insert cmp" rb_remove rb_min rb_max inorder "tree_ok key" key
proof unfold_locales
  fix t :: "'a rbtree" and x y :: 'a
  show "tree_ok key t \<Longrightarrow> key_sorted key (inorder t)" by (simp add: tree_ok_def)
  show "tree_ok key t \<Longrightarrow> key x \<notin> key ` set (inorder t) \<Longrightarrow>
    tree_ok key (fst (rb_insert cmp t x)) \<and>
    inorder (fst (rb_insert cmp t x)) = key_insert key x (inorder t) \<and> snd (rb_insert cmp t x) = None"
    using rb_insert_new [OF cmp_agrees] key_sorted_insert [of key "inorder t"] rb_insert_ok [of t cmp x]
    by (auto simp: tree_ok_def)
  show "tree_ok key t \<Longrightarrow> y \<in> set (inorder t) \<Longrightarrow> key y = key x \<Longrightarrow> rb_insert cmp t x = (t, Some y)"
    using rb_insert_old [OF cmp_agrees] by (auto simp: tree_ok_def)
  show "tree_ok key t \<Longrightarrow> tree_ok key (rb_remove t x) \<and> inorder (rb_remove t x) = remove1 x (inorder t)"
    using inorder_remove [of t x] key_sorted_distinct [of key "inorder t"]
      key_sorted_remove1 [of key "inorder t" x] rb_remove_ok [of t x]
    by (auto simp: tree_ok_def)
qed (simp_all add: rb_min_inorder rb_max_inorder)

context keyed_comparator
begin

lemma store: "ordered_store (rb_insert cmp) rb_remove rb_min rb_max inorder (tree_ok key) key"
  by unfold_locales

end

lemmas tree_store = keyed_comparator.store [OF keyed_comparator.intro]

subsection \<open>The height of a tree\<close>

fun rb_height :: "'a rbtree \<Rightarrow> nat" where
  "rb_height Leaf = 0"
| "rb_height (Node c l a r) = Suc (max (rb_height l) (rb_height r))"

lemma height_bheight: "invc t \<Longrightarrow> invh t \<Longrightarrow> rb_height t \<le> 2 * bheight t + (if rb_color t = Red then 1 else 0)"
  by (induction t) (auto split: if_splits)

lemma bheight_size: "invh t \<Longrightarrow> 2 ^ bheight t \<le> Suc (length (inorder t))"
  by (induction t) auto

lemma key_sorted_sort_key:
  assumes "key_sorted key xs" "mset xs = mset ys"
  shows "xs = sort_key key ys"
proof -
  have "sorted (map key xs)"
    using assms(1) by (induction xs) (auto simp: key_sorted_Cons less_imp_le)
  moreover have "inj_on key (set ys)"
    using key_sorted_distinct_keys [OF assms(1)] mset_eq_setD [OF assms(2)] by (simp add: distinct_map)
  ultimately show ?thesis using sort_key_inj_key_eq [OF assms(2) [symmetric]] by metis
qed

lemma tree_ok_Leaf [simp]: "tree_ok key Leaf"
  by (simp add: tree_ok_def rb_ok_def key_sorted_def)

lemma insert_all:
  assumes "agrees cmp key" "tree_ok key t" "distinct (map key xs)"
    "key ` set (inorder t) \<inter> key ` set xs = {}"
  shows "tree_ok key (foldl (\<lambda>t x. fst (rb_insert cmp t x)) t xs) \<and>
    mset (inorder (foldl (\<lambda>t x. fst (rb_insert cmp t x)) t xs)) = mset (inorder t) + mset xs"
  using assms(2-)
proof (induction xs arbitrary: t)
  case (Cons x xs)
  have new: "snd (rb_insert cmp t x) = None"
    using rb_insert_new [OF assms(1), of t x] Cons.prems by (auto simp: tree_ok_def)
  have m: "mset (inorder (fst (rb_insert cmp t x))) = add_mset x (mset (inorder t))"
    and ok: "tree_ok key (fst (rb_insert cmp t x))"
    using ordered_store.ins_mset [OF tree_store, OF assms(1) Cons.prems(1) new]
      ordered_store.ins_keeps_ok [OF tree_store, OF assms(1) Cons.prems(1)] by auto
  have "key ` set (inorder (fst (rb_insert cmp t x))) \<inter> key ` set xs = {}"
    using Cons.prems(2,3) mset_eq_setD [of "inorder (fst (rb_insert cmp t x))" "x # inorder t"] m by auto
  then show ?case using Cons.IH [OF ok] Cons.prems(2) m by simp
qed simp

subsection \<open>The properties of the tree\<close>

text \<open>C33. RB_INSERT keeps the tree balanced and strictly sorted. It returns null exactly when no
  element had the same key, and then the new element is at its place; otherwise it returns the
  element with that key and leaves the tree as it was.\<close>

theorem rb_insert_correct:
  assumes "agrees cmp key" "tree_ok key t"
  shows "tree_ok key (fst (rb_insert cmp t x)) \<and>
    (case snd (rb_insert cmp t x) of
       None \<Rightarrow> key x \<notin> key ` set (inorder t) \<and>
         inorder (fst (rb_insert cmp t x)) = key_insert key x (inorder t)
     | Some y \<Rightarrow> y \<in> set (inorder t) \<and> key y = key x \<and> fst (rb_insert cmp t x) = t)"
proof (cases "key x \<in> key ` set (inorder t)")
  case True
  then show ?thesis using rb_insert_old [OF assms(1)] assms(2) by (auto simp: tree_ok_def)
next
  case False
  then show ?thesis
    using rb_insert_new [OF assms(1), of t x] ordered_store.ins_keeps_ok [OF tree_store, OF assms(1,2), of x] assms(2)
    by (auto simp: tree_ok_def)
qed

definition int_compare :: "int \<Rightarrow> int \<Rightarrow> int" where
  "int_compare a b = (if a > b then 1 else 0) - (if b > a then 1 else 0)"

lemma int_compare_agrees: "agrees int_compare id"
  by (simp add: agrees_def int_compare_def)

theorem rb_insert_correct_witness:
  "tree_ok id (fst (rb_insert int_compare (Node Black Leaf 3 Leaf) 5)) \<and>
   inorder (fst (rb_insert int_compare (Node Black Leaf 3 Leaf) 5)) = [3, 5]"
proof -
  have "tree_ok id (Node Black Leaf (3::int) Leaf)"
    by (simp add: tree_ok_def rb_ok_def key_sorted_def)
  then show ?thesis using rb_insert_correct [OF int_compare_agrees, of "Node Black Leaf 3 Leaf" 5]
    by (simp add: rb_insert_def int_compare_def key_insert_def)
qed

text \<open>C34. RB_REMOVE takes exactly the given element out and keeps the tree balanced and sorted.\<close>

theorem rb_remove_correct:
  assumes "tree_ok key t"
  shows "tree_ok key (rb_remove t x) \<and> inorder (rb_remove t x) = remove1 x (inorder t)"
  using assms inorder_remove [of t x] key_sorted_distinct [of key "inorder t"]
    key_sorted_remove1 [of key "inorder t" x] rb_remove_ok [of t x]
  by (auto simp: tree_ok_def)

theorem rb_remove_correct_witness:
  "tree_ok id (rb_remove (Node Black (Node Black Leaf 1 Leaf) 2 (Node Black Leaf (3::int) Leaf)) 2) \<and>
   inorder (rb_remove (Node Black (Node Black Leaf 1 Leaf) 2 (Node Black Leaf (3::int) Leaf)) 2) = [1, 3]"
proof -
  have "tree_ok id (Node Black (Node Black Leaf 1 Leaf) 2 (Node Black Leaf (3::int) Leaf))"
    by (simp add: tree_ok_def rb_ok_def key_sorted_def)
  then show ?thesis
    using rb_remove_correct [of id "Node Black (Node Black Leaf 1 Leaf) 2 (Node Black Leaf (3::int) Leaf)" 2]
    by simp
qed

text \<open>Inserting elements with distinct keys one after the other and then taking the minimum out
  until nothing is left yields them sorted by their keys.\<close>

theorem rb_insert_drain_sorts:
  assumes "agrees cmp key" "distinct (map key xs)"
  shows "drain rb_min rb_remove (length xs) (foldl (\<lambda>t x. fst (rb_insert cmp t x)) Leaf xs) = sort_key key xs"
proof -
  let ?t = "foldl (\<lambda>t x. fst (rb_insert cmp t x)) Leaf xs"
  have ok: "tree_ok key ?t" and m: "mset (inorder ?t) = mset xs"
    using insert_all [OF assms(1) tree_ok_Leaf assms(2)] by auto
  have "drain rb_min rb_remove (length xs) ?t = inorder ?t"
    using ordered_store.drain_contents [OF tree_store, OF assms(1) ok]
      mset_eq_length [OF m] by simp
  also have "inorder ?t = sort_key key xs"
    using ok by (intro key_sorted_sort_key [OF _ m]) (simp add: tree_ok_def)
  finally show ?thesis .
qed

theorem rb_insert_drain_sorts_witness:
  "drain rb_min rb_remove 3 (foldl (\<lambda>t x. fst (rb_insert int_compare t x)) Leaf [7, 2, 5]) = [2, 5, 7]"
  using rb_insert_drain_sorts [OF int_compare_agrees, of "[7, 2, 5]"] by (simp add: numeral_3_eq_3 del: drain.simps)

text \<open>A tree of \<open>n\<close> elements is at most \<open>2 * log\<^sub>2 (n + 1)\<close> high: the loops of the macros that
  descend from the root are logarithmic in the number of queued tasks.\<close>

theorem rb_height_bound:
  assumes "rb_ok t"
  shows "2 ^ ((rb_height t + 1) div 2) \<le> length (inorder t) + 1"
proof -
  have "(rb_height t + 1) div 2 \<le> bheight t"
    using height_bheight [of t] assms by (simp add: rb_ok_def)
  then have "(2::nat) ^ ((rb_height t + 1) div 2) \<le> 2 ^ bheight t" by (simp add: power_increasing)
  also have "\<dots> \<le> Suc (length (inorder t))" using bheight_size [of t] assms by (simp add: rb_ok_def)
  finally show ?thesis by simp
qed

theorem rb_height_bound_witness:
  "(2::nat) ^ ((rb_height (Node Black Leaf (3::int) (Node Red Leaf 4 Leaf)) + 1) div 2) \<le> 3"
  using rb_height_bound [of "Node Black Leaf (3::int) (Node Red Leaf 4 Leaf)"] by (simp add: rb_ok_def)

end
