(* ===== verification/Cpu_Bitset.thy ===== *)
theory Cpu_Bitset
  imports Nosv_Prelude
begin

unbundle bit_operations_syntax

section \<open>Bit sets and CPU sets (generic/bitset.h, scheduler/cpubitset.h)\<close>

text \<open>
  A bit set is an array of \<open>long\<close> words: a list of 64-bit words. The macros of \<^verbatim>\<open>bitset.h\<close> are
  definitions over that list, with their loops and their masks; \<open>cpu_bitset\<close> adds the number of
  CPUs. The lemmas read a bit set as the list of its members in increasing order (\<open>cpu_members\<close>): the
  word arithmetic of BIT_FFS_AT finds the next member, and the loop CPU_BITSET_FOREACH visits every
  member once, in order, even when its body clears the member it visits. The locale \<open>cpu_set\<close> is the
  interface the power governor is verified against.
\<close>

definition NR_CPUS :: nat where "NR_CPUS = 256"

definition BITSET_BITS :: nat where "BITSET_BITS = 64"

definition bitset_words :: "nat \<Rightarrow> nat" where
  "bitset_words s = (s + (BITSET_BITS - 1)) div BITSET_BITS"

definition bitset_mask :: "nat \<Rightarrow> u64" where
  "bitset_mask n = push_bit (n mod BITSET_BITS) 1"

definition bitset_word :: "nat \<Rightarrow> nat" where
  "bitset_word n = n div BITSET_BITS"

subsection \<open>The macros on one bit\<close>

definition BIT_CLR :: "nat \<Rightarrow> u64 list \<Rightarrow> u64 list" where
  "BIT_CLR n p = p[bitset_word n := p ! bitset_word n AND NOT (bitset_mask n)]"

definition BIT_ISSET :: "nat \<Rightarrow> u64 list \<Rightarrow> bool" where
  "BIT_ISSET n p = (p ! bitset_word n AND bitset_mask n \<noteq> 0)"

definition BIT_SET :: "nat \<Rightarrow> u64 list \<Rightarrow> u64 list" where
  "BIT_SET n p = p[bitset_word n := p ! bitset_word n OR bitset_mask n]"

subsection \<open>The macros on whole sets\<close>

text \<open>A loop \<open>for (__i = 0; __i < words; __i++) p[__i] = f(__i)\<close>.\<close>

definition word_loop :: "nat \<Rightarrow> (nat \<Rightarrow> u64) \<Rightarrow> u64 list \<Rightarrow> u64 list" where
  "word_loop s f p = map f [0..<bitset_words s] @ drop (bitset_words s) p"

text \<open>A loop over the words that breaks at the first word with a property; it returns \<open>__i\<close>.\<close>

fun scan_loop :: "(nat \<Rightarrow> bool) \<Rightarrow> nat \<Rightarrow> nat \<Rightarrow> nat" where
  "scan_loop P i 0 = i"
| "scan_loop P i (Suc n) = (if P i then i else scan_loop P (Suc i) n)"

definition BIT_ZERO :: "nat \<Rightarrow> u64 list \<Rightarrow> u64 list" where
  "BIT_ZERO s p = word_loop s (\<lambda>_. 0) p"

definition BIT_FILL :: "nat \<Rightarrow> u64 list \<Rightarrow> u64 list" where
  "BIT_FILL s p = word_loop s (\<lambda>_. - 1) p"

definition BIT_SETOF :: "nat \<Rightarrow> nat \<Rightarrow> u64 list \<Rightarrow> u64 list" where
  "BIT_SETOF s n p = (BIT_ZERO s p)[bitset_word n := bitset_mask n]"

definition BIT_EMPTY :: "nat \<Rightarrow> u64 list \<Rightarrow> bool" where
  "BIT_EMPTY s p = (scan_loop (\<lambda>i. p ! i \<noteq> 0) 0 (bitset_words s) = bitset_words s)"

definition BIT_ISFULLSET :: "nat \<Rightarrow> u64 list \<Rightarrow> bool" where
  "BIT_ISFULLSET s p = (scan_loop (\<lambda>i. p ! i \<noteq> - 1) 0 (bitset_words s) = bitset_words s)"

definition BIT_SUBSET :: "nat \<Rightarrow> u64 list \<Rightarrow> u64 list \<Rightarrow> bool" where
  "BIT_SUBSET s p c = (scan_loop (\<lambda>i. c ! i AND p ! i \<noteq> c ! i) 0 (bitset_words s) = bitset_words s)"

definition BIT_OVERLAP :: "nat \<Rightarrow> u64 list \<Rightarrow> u64 list \<Rightarrow> bool" where
  "BIT_OVERLAP s p c = (scan_loop (\<lambda>i. c ! i AND p ! i \<noteq> 0) 0 (bitset_words s) \<noteq> bitset_words s)"

definition BIT_CMP :: "nat \<Rightarrow> u64 list \<Rightarrow> u64 list \<Rightarrow> bool" where
  "BIT_CMP s p c = (scan_loop (\<lambda>i. c ! i \<noteq> p ! i) 0 (bitset_words s) \<noteq> bitset_words s)"

definition BIT_OR2 :: "nat \<Rightarrow> u64 list \<Rightarrow> u64 list \<Rightarrow> u64 list \<Rightarrow> u64 list" where
  "BIT_OR2 s d s1 s2 = word_loop s (\<lambda>i. s1 ! i OR s2 ! i) d"

definition BIT_OR :: "nat \<Rightarrow> u64 list \<Rightarrow> u64 list \<Rightarrow> u64 list" where
  "BIT_OR s d src = word_loop s (\<lambda>i. d ! i OR src ! i) d"

definition BIT_AND :: "nat \<Rightarrow> u64 list \<Rightarrow> u64 list \<Rightarrow> u64 list" where
  "BIT_AND s d src = word_loop s (\<lambda>i. d ! i AND src ! i) d"

definition BIT_AND2 :: "nat \<Rightarrow> u64 list \<Rightarrow> u64 list \<Rightarrow> u64 list \<Rightarrow> u64 list" where
  "BIT_AND2 s d s1 s2 = word_loop s (\<lambda>i. s1 ! i AND s2 ! i) d"

definition BIT_ANDNOT :: "nat \<Rightarrow> u64 list \<Rightarrow> u64 list \<Rightarrow> u64 list" where
  "BIT_ANDNOT s d src = word_loop s (\<lambda>i. d ! i AND NOT (src ! i)) d"

definition BIT_ANDNOT2 :: "nat \<Rightarrow> u64 list \<Rightarrow> u64 list \<Rightarrow> u64 list \<Rightarrow> u64 list" where
  "BIT_ANDNOT2 s d s1 s2 = word_loop s (\<lambda>i. s1 ! i AND NOT (s2 ! i)) d"

definition BIT_XOR :: "nat \<Rightarrow> u64 list \<Rightarrow> u64 list \<Rightarrow> u64 list" where
  "BIT_XOR s d src = word_loop s (\<lambda>i. d ! i XOR src ! i) d"

definition BIT_XOR2 :: "nat \<Rightarrow> u64 list \<Rightarrow> u64 list \<Rightarrow> u64 list \<Rightarrow> u64 list" where
  "BIT_XOR2 s d s1 s2 = word_loop s (\<lambda>i. s1 ! i XOR s2 ! i) d"

text \<open>\<open>ffsl\<close> of the C library and \<open>flsl\<close> of the header (1-based, 0 for the word 0), and the
  population count.\<close>

definition ffsl :: "u64 \<Rightarrow> nat" where
  "ffsl w = (case find (bit w) [0..<BITSET_BITS] of None \<Rightarrow> 0 | Some i \<Rightarrow> Suc i)"

definition flsl :: "u64 \<Rightarrow> nat" where
  "flsl w = (case find (bit w) (rev [0..<BITSET_BITS]) of None \<Rightarrow> 0 | Some i \<Rightarrow> Suc i)"

definition bitcountl :: "u64 \<Rightarrow> nat" where
  "bitcountl w = length (filter (bit w) [0..<BITSET_BITS])"

function BIT_FFS_loop :: "u64 list \<Rightarrow> nat \<Rightarrow> nat \<Rightarrow> u64 \<Rightarrow> nat" where
  "BIT_FFS_loop p words i msk =
     (if i < words
      then (if p ! i AND msk \<noteq> 0 then ffsl (p ! i AND msk) + i * BITSET_BITS
            else BIT_FFS_loop p words (Suc i) (- 1))
      else 0)"
  by pat_completeness auto
termination
  by (relation "measure (\<lambda>(p, words, i, msk). words - i)") auto

definition BIT_FFS_AT :: "nat \<Rightarrow> u64 list \<Rightarrow> nat \<Rightarrow> nat" where
  "BIT_FFS_AT s p start =
     BIT_FFS_loop p (bitset_words s) (bitset_word start) (push_bit (start mod BITSET_BITS) (- 1))"

definition BIT_FFS :: "nat \<Rightarrow> u64 list \<Rightarrow> nat" where
  "BIT_FFS s p = BIT_FFS_AT s p 0"

fun BIT_FLS_loop :: "u64 list \<Rightarrow> nat \<Rightarrow> nat" where
  "BIT_FLS_loop p 0 = 0"
| "BIT_FLS_loop p (Suc i) = (if p ! i \<noteq> 0 then flsl (p ! i) + i * BITSET_BITS else BIT_FLS_loop p i)"

definition BIT_FLS :: "nat \<Rightarrow> u64 list \<Rightarrow> nat" where
  "BIT_FLS s p = BIT_FLS_loop p (bitset_words s)"

fun BIT_COUNT_loop :: "u64 list \<Rightarrow> nat \<Rightarrow> nat" where
  "BIT_COUNT_loop p 0 = 0"
| "BIT_COUNT_loop p (Suc i) = BIT_COUNT_loop p i + bitcountl (p ! i)"

definition BIT_COUNT :: "nat \<Rightarrow> u64 list \<Rightarrow> nat" where
  "BIT_COUNT s p = BIT_COUNT_loop p (bitset_words s)"

subsection \<open>CPU sets\<close>

record cpu_bitset =
  bits :: "u64 list"
  bs_size :: nat

definition cpu_bitset_init :: "cpu_bitset \<Rightarrow> nat \<Rightarrow> cpu_bitset option" where
  "cpu_bitset_init bs cpus =
     assert_then (cpus \<le> NR_CPUS) (Some (bs \<lparr> bits := BIT_ZERO cpus (bits bs), bs_size := cpus \<rparr>))"

definition cpu_bitset_isset :: "cpu_bitset \<Rightarrow> nat \<Rightarrow> bool" where
  "cpu_bitset_isset bs cpu = BIT_ISSET cpu (bits bs)"

definition cpu_bitset_set :: "cpu_bitset \<Rightarrow> nat \<Rightarrow> cpu_bitset" where
  "cpu_bitset_set bs cpu = bs \<lparr> bits := BIT_SET cpu (bits bs) \<rparr>"

definition cpu_bitset_clear :: "cpu_bitset \<Rightarrow> nat \<Rightarrow> cpu_bitset" where
  "cpu_bitset_clear bs cpu = bs \<lparr> bits := BIT_CLR cpu (bits bs) \<rparr>"

definition cpu_bitset_count :: "cpu_bitset \<Rightarrow> nat" where
  "cpu_bitset_count bs = BIT_COUNT (bs_size bs) (bits bs)"

definition cpu_bitset_ffs :: "cpu_bitset \<Rightarrow> int" where
  "cpu_bitset_ffs bs = int (BIT_FFS (bs_size bs) (bits bs)) - 1"

text \<open>The assertion \<open>start_cpu < size\<close> is a side condition of the lemmas.\<close>

definition cpu_bitset_ffs_at :: "cpu_bitset \<Rightarrow> nat \<Rightarrow> int" where
  "cpu_bitset_ffs_at bs start_cpu = int (BIT_FFS_AT (bs_size bs) (bits bs) (start_cpu + 1)) - 1"

definition cpu_bitset_fls :: "cpu_bitset \<Rightarrow> int" where
  "cpu_bitset_fls bs = int (BIT_FLS (bs_size bs) (bits bs)) - 1"

definition cpu_bitset_and :: "cpu_bitset \<Rightarrow> cpu_bitset \<Rightarrow> cpu_bitset option" where
  "cpu_bitset_and dest b =
     assert_then (bs_size dest = bs_size b)
       (Some (dest \<lparr> bits := BIT_AND (bs_size dest) (bits dest) (bits b) \<rparr>))"

definition cpu_bitset_cmp :: "cpu_bitset \<Rightarrow> cpu_bitset \<Rightarrow> bool option" where
  "cpu_bitset_cmp a b =
     assert_then (bs_size a = bs_size b) (Some (BIT_CMP (bs_size a) (bits a) (bits b)))"

definition cpu_bitset_overlap :: "cpu_bitset \<Rightarrow> cpu_bitset \<Rightarrow> bool option" where
  "cpu_bitset_overlap a b =
     assert_then (bs_size a = bs_size b) (Some (BIT_OVERLAP (bs_size a) (bits a) (bits b)))"

text \<open>The macro CPU_BITSET_FOREACH: \<open>get\<close> reads the set from the state the body changes, \<open>after\<close> is
  \<open>cpu_bitset_ffs_at\<close>. The second argument is the fuel; \<open>NR_CPUS\<close> iterations are always enough.\<close>

fun foreach_loop :: "('b \<Rightarrow> nat \<Rightarrow> int) \<Rightarrow> nat \<Rightarrow> ('s \<Rightarrow> 'b) \<Rightarrow> (nat \<Rightarrow> 's \<Rightarrow> 's) \<Rightarrow> int \<Rightarrow> 's \<Rightarrow> 's option" where
  "foreach_loop after 0 get body cpu st = (if cpu \<ge> 0 then None else Some st)"
| "foreach_loop after (Suc n) get body cpu st =
     (if cpu \<ge> 0
      then (let st' = body (nat cpu) st
            in foreach_loop after n get body (after (get st') (nat cpu)) st')
      else Some st)"

definition cpu_bitset_foreach :: "('s \<Rightarrow> cpu_bitset) \<Rightarrow> (nat \<Rightarrow> 's \<Rightarrow> 's) \<Rightarrow> 's \<Rightarrow> 's option" where
  "cpu_bitset_foreach get body st =
     foreach_loop cpu_bitset_ffs_at NR_CPUS get body (cpu_bitset_ffs (get st)) st"

text \<open>\<open>cpu_bitset_to_cpuset\<close>: the CPU set of the C library is a set of CPU numbers, CPU_SET adds one.\<close>

definition cpu_bitset_to_cpuset :: "nat set \<Rightarrow> cpu_bitset \<Rightarrow> nat set option" where
  "cpu_bitset_to_cpuset dst src =
     assert_then (card dst \<ge> cpu_bitset_count src)
       (map_option fst (cpu_bitset_foreach snd (\<lambda>cpu (d, b). (insert cpu d, b)) (dst, src)))"

subsection \<open>Parsing a CPU list\<close>

text \<open>\<open>strtok(string, ",")\<close> from the start to the end: the non-empty runs of other characters.\<close>

fun strtok_comma :: "string \<Rightarrow> string \<Rightarrow> string list" where
  "strtok_comma cur [] = (if cur = [] then [] else [cur])"
| "strtok_comma cur (c # cs) =
     (if c = CHR '','' then (if cur = [] then [] else [cur]) @ strtok_comma [] cs
      else strtok_comma (cur @ [c]) cs)"

definition is_space :: "char \<Rightarrow> bool" where
  "is_space c = (c = CHR '' '' \<or> (9 \<le> (of_char c :: nat) \<and> (of_char c :: nat) \<le> 13))"

definition is_digit :: "char \<Rightarrow> bool" where
  "is_digit c = (48 \<le> (of_char c :: nat) \<and> (of_char c :: nat) \<le> 57)"

definition digits_value :: "string \<Rightarrow> int" where
  "digits_value ds = foldl (\<lambda>v c. 10 * v + (int (of_char c) - 48)) 0 ds"

text \<open>The conversion \<open>%d\<close>: white space, an optional sign, at least one digit.\<close>

definition scan_int :: "string \<Rightarrow> (int \<times> string) option" where
  "scan_int str =
     (let t = dropWhile is_space str;
          neg = (t \<noteq> [] \<and> hd t = CHR ''-'');
          u = (if t \<noteq> [] \<and> (hd t = CHR ''-'' \<or> hd t = CHR ''+'') then tl t else t);
          ds = takeWhile is_digit u
      in if ds = [] then None
         else Some (if neg then - digits_value ds else digits_value ds, dropWhile is_digit u))"

text \<open>\<open>sscanf(tok, "%d-%d:%d", ...)\<close>: the list of converted values; its length is the result.\<close>

definition scan_after :: "char \<Rightarrow> string \<Rightarrow> (int \<times> string) option" where
  "scan_after sep str = (case str of [] \<Rightarrow> None | c # cs \<Rightarrow> if c = sep then scan_int cs else None)"

definition sscanf_range :: "string \<Rightarrow> int list" where
  "sscanf_range tok =
     (case scan_int tok of
        None \<Rightarrow> []
      | Some (a, r1) \<Rightarrow>
          (case scan_after CHR ''-'' r1 of
             None \<Rightarrow> [a]
           | Some (b, r2) \<Rightarrow>
               (case scan_after CHR '':'' r2 of None \<Rightarrow> [a, b] | Some (c, _) \<Rightarrow> [a, b, c])))"

text \<open>The loop \<open>for (i = first; i <= last; i += stride)\<close>. A stride below 1 or an index outside the
  array is undefined behaviour of the C program: the value \<^term>\<open>None\<close>. So is a token of white space
  only, where \<open>sscanf\<close> returns EOF and the variables are read without a value.\<close>

function set_range :: "int \<Rightarrow> int \<Rightarrow> int \<Rightarrow> cpu_bitset \<Rightarrow> cpu_bitset option" where
  "set_range i last_id stride bs =
     (if i \<le> last_id
      then (if stride \<le> 0 \<or> i < 0 \<or> int NR_CPUS \<le> i then None
            else set_range (i + stride) last_id stride (cpu_bitset_set bs (nat i)))
      else Some bs)"
  by pat_completeness auto
termination
  by (relation "measure (\<lambda>(i, last_id, stride, bs). nat (last_id + 1 - i))") auto

text \<open>The inner \<open>int ret\<close> of the loop shadows the outer one, so both jumps to \<open>failed\<close> end with the
  outer value 0; the flag of the result below says whether the loop went on to the next token.\<close>

definition parse_token :: "string \<Rightarrow> cpu_bitset \<Rightarrow> (bool \<times> cpu_bitset) option" where
  "parse_token tok bs =
     (if list_all is_space tok then None
      else case sscanf_range tok of
             [] \<Rightarrow> Some (False, bs)
           | first_id # rest \<Rightarrow>
               (let last_id = (case rest of [] \<Rightarrow> first_id | b # _ \<Rightarrow> b);
                    stride = (case rest of [_, c] \<Rightarrow> c | _ \<Rightarrow> 1)
                in if first_id > last_id then Some (False, bs)
                   else map_option (\<lambda>bs'. (True, bs')) (set_range first_id last_id stride bs)))"

fun parse_tokens :: "string list \<Rightarrow> cpu_bitset \<Rightarrow> cpu_bitset option" where
  "parse_tokens [] bs = Some bs"
| "parse_tokens (tok # toks) bs =
     (case parse_token tok bs of
        None \<Rightarrow> None
      | Some (True, bs') \<Rightarrow> parse_tokens toks bs'
      | Some (False, bs') \<Rightarrow> Some bs')"

definition cpu_bitset_parse_str :: "cpu_bitset \<Rightarrow> string \<Rightarrow> (int \<times> cpu_bitset) option" where
  "cpu_bitset_parse_str set_in string_to_parse =
     (case cpu_bitset_init set_in NR_CPUS of
        None \<Rightarrow> None
      | Some bs \<Rightarrow> map_option (\<lambda>bs'. (0, bs')) (parse_tokens (strtok_comma [] string_to_parse) bs))"

subsection \<open>Bits and members\<close>

text \<open>Bit \<open>n\<close> of a word array.\<close>

definition bit_at :: "u64 list \<Rightarrow> nat \<Rightarrow> bool" where
  "bit_at p n = bit (p ! (n div 64)) (n mod 64)"

definition cpu_members :: "cpu_bitset \<Rightarrow> nat list" where
  "cpu_members bs = filter (bit_at (bits bs)) [0..<bs_size bs]"

definition cpu_bitset_inv :: "cpu_bitset \<Rightarrow> bool" where
  "cpu_bitset_inv bs =
     (length (bits bs) = bitset_words NR_CPUS \<and> bs_size bs \<le> NR_CPUS \<and>
      (\<forall>n < 64 * bitset_words (bs_size bs). bit_at (bits bs) n \<longrightarrow> n < bs_size bs))"

lemmas bitset_simps = BITSET_BITS_def bitset_word_def bitset_mask_def

lemma bitset_words_bounds: "n < s \<Longrightarrow> n div 64 < bitset_words s" "s \<le> 64 * bitset_words s"
  unfolding bitset_words_def BITSET_BITS_def by linarith+

lemma bitset_words_mono: "s \<le> t \<Longrightarrow> bitset_words s \<le> bitset_words t"
  unfolding bitset_words_def by (intro div_le_mono) simp

lemma BIT_ISSET_bit: "BIT_ISSET n p = bit_at p n"
  unfolding BIT_ISSET_def bit_at_def bitset_simps
  by (simp add: bit_iff_and_push_bit_not_eq_0)

lemma bit_one_shifted: "k < 64 \<Longrightarrow> bit (2 ^ k :: u64) j = (j = k)"
  by (auto simp: bit_exp_iff)

lemma bit_at_update:
  assumes "m div 64 < length p"
  shows "bit_at (p[m div 64 := w]) n = (if n div 64 = m div 64 then bit w (n mod 64) else bit_at p n)"
  using assms by (auto simp: bit_at_def)

lemma same_position: "n div 64 = m div 64 \<Longrightarrow> (n mod 64 = m mod 64) = (n = (m :: nat))"
  by (metis mult_div_mod_eq)

lemma BIT_SET_bit: "m div 64 < length p \<Longrightarrow> bit_at (BIT_SET m p) n = (n = m \<or> bit_at p n)"
  unfolding BIT_SET_def bitset_simps
  by (cases "n div 64 = m div 64")
    (auto simp: bit_at_update bit_or_iff bit_one_shifted same_position, auto simp: bit_at_def)

lemma BIT_CLR_bit: "m div 64 < length p \<Longrightarrow> bit_at (BIT_CLR m p) n = (n \<noteq> m \<and> bit_at p n)"
  unfolding BIT_CLR_def bitset_simps
  by (cases "n div 64 = m div 64")
    (auto simp: bit_at_update bit_and_iff bit_not_iff bit_one_shifted same_position, auto simp: bit_at_def)

lemma word_loop_nth:
  "bitset_words s \<le> length p \<Longrightarrow> i < length p \<Longrightarrow>
   word_loop s f p ! i = (if i < bitset_words s then f i else p ! i)"
  by (auto simp: word_loop_def nth_append)

lemma word_loop_length [simp]: "bitset_words s \<le> length p \<Longrightarrow> length (word_loop s f p) = length p"
  by (simp add: word_loop_def)

lemma word_loop_bit:
  assumes "bitset_words s \<le> length p" "n < 64 * bitset_words s"
  shows "bit_at (word_loop s f p) n = bit (f (n div 64)) (n mod 64)"
proof -
  have "n div 64 < bitset_words s" using assms(2) by (simp add: less_mult_imp_div_less)
  with assms(1) show ?thesis by (simp add: bit_at_def word_loop_nth)
qed

text \<open>The four word-wise operations are the set operations, bit for bit.\<close>

lemma BIT_ops_bit:
  assumes "bitset_words s \<le> length d" "n < 64 * bitset_words s"
  shows "bit_at (BIT_AND s d p) n = (bit_at d n \<and> bit_at p n)"
    and "bit_at (BIT_OR s d p) n = (bit_at d n \<or> bit_at p n)"
    and "bit_at (BIT_XOR s d p) n = (bit_at d n \<noteq> bit_at p n)"
    and "bit_at (BIT_ANDNOT s d p) n = (bit_at d n \<and> \<not> bit_at p n)"
    and "bit_at (BIT_ZERO s d) n = False"
    and "bit_at (BIT_FILL s d) n = True"
  using assms
  by (auto simp: BIT_AND_def BIT_OR_def BIT_XOR_def BIT_ANDNOT_def BIT_ZERO_def BIT_FILL_def
      word_loop_bit bit_simps) (auto simp: bit_at_def)

lemma scan_loop_end: "(scan_loop P i n = i + n) = (\<forall>j. i \<le> j \<and> j < i + n \<longrightarrow> \<not> P j)"
proof (induction n arbitrary: i)
  case (Suc n)
  show ?case
  proof (cases "P i")
    case False
    then have "(\<forall>j. i \<le> j \<and> j < i + Suc n \<longrightarrow> \<not> P j) = (\<forall>j. Suc i \<le> j \<and> j < Suc i + n \<longrightarrow> \<not> P j)"
      by (metis Suc_leI add_Suc_shift le_antisym not_less_eq_eq Suc_le_lessD Suc_leD)
    with False Suc.IH [of "Suc i"] show ?thesis by simp
  qed auto
qed auto

lemma word_eq_bits: "(\<forall>j < 64. bit (v :: u64) j = bit w j) = (v = w)"
  by (auto intro!: bit_word_eqI)

subsection \<open>Finding the next member\<close>

lemma find_map_conv: "find P (map f xs) = map_option f (find (P \<circ> f) xs)"
  by (induction xs) auto

lemma find_append_conv: "find P (xs @ ys) = (case find P xs of None \<Rightarrow> find P ys | Some x \<Rightarrow> Some x)"
  by (induction xs) auto

lemma find_filter: "find P xs = (case filter P xs of [] \<Rightarrow> None | x # _ \<Rightarrow> Some x)"
  by (induction xs) auto

declare push_bit_minus_one_eq_not_mask [simp del]

lemma bit_masked:
  assumes "j < 64"
  shows "bit ((w :: u64) AND push_bit k (- 1)) j = (bit w j \<and> k \<le> j)"
  using assms by (auto simp: bit_and_iff bit_push_bit_iff)

lemma find_masked:
  assumes "k < 64"
  shows "find (bit ((w :: u64) AND push_bit k (- 1))) [0..<64] = find (bit w) [k..<64]"
proof -
  have split: "[0..<64] = [0..<k] @ [k..<64]" using assms upt_add_eq_append [of 0 k "64 - k"] by simp
  have "find (bit (w AND push_bit k (- 1))) [0..<k] = None"
    using assms by (auto simp: find_None_iff bit_masked)
  moreover have "find (bit (w AND push_bit k (- 1))) [k..<64] = find (bit w) [k..<64]"
    by (rule find_cong) (auto simp: bit_masked)
  ultimately show ?thesis unfolding split find_append_conv by simp
qed

lemma masked_zero:
  assumes "k < 64"
  shows "((w :: u64) AND push_bit k (- 1) = 0) = (find (bit w) [k..<64] = None)"
  unfolding find_masked [OF assms, symmetric]
  by (simp add: find_None_iff flip: word_eq_bits)

lemma find_block:
  "find (bit_at p) [64 * i + k..<64 * i + 64] = map_option (\<lambda>j. 64 * i + j) (find (bit (p ! i)) [k..<64])"
proof -
  have "[64 * i + k..<64 * i + 64] = map (\<lambda>j. 64 * i + j) [k..<64]"
    by (rule nth_equalityI) auto
  moreover have "find (bit_at p \<circ> (\<lambda>j. 64 * i + j)) [k..<64] = find (bit (p ! i)) [k..<64]"
    by (rule find_cong) (auto simp: bit_at_def)
  ultimately show ?thesis by (simp add: find_map_conv)
qed

lemma BIT_FFS_loop_find:
  assumes "k < 64" "i < words \<or> k = 0"
  shows "BIT_FFS_loop p words i (push_bit k (- 1)) =
    (case find (bit_at p) [64 * i + k..<64 * words] of None \<Rightarrow> 0 | Some n \<Rightarrow> Suc n)"
  using assms
proof (induction "words - i" arbitrary: i k)
  case 0
  then show ?case by simp
next
  case (Suc d)
  then have i: "i < words" by simp
  then have "[64 * i + k..<64 * words] = [64 * i + k..<64 * i + 64] @ [64 * Suc i + 0..<64 * words]"
    using upt_add_eq_append [of "64 * i + k" "64 * i + 64" "64 * words - (64 * i + 64)"] Suc.prems(1)
    by (simp add: Suc_leI add.commute)
  then show ?case
    using Suc.hyps(1) [of "Suc i" 0] Suc.hyps(2) i
    by (auto simp: find_append_conv find_block masked_zero [OF Suc.prems(1)] ffsl_def BITSET_BITS_def
        find_masked [OF Suc.prems(1)] split: option.splits simp del: BIT_FFS_loop.simps
        simp: BIT_FFS_loop.simps [of p words i])
qed

lemma BIT_FFS_AT_find:
  assumes "start \<le> 64 * bitset_words s"
  shows "BIT_FFS_AT s p start =
    (case find (bit_at p) [start..<64 * bitset_words s] of None \<Rightarrow> 0 | Some n \<Rightarrow> Suc n)"
proof -
  have "start div 64 < bitset_words s \<or> start mod 64 = 0"
    using assms by (cases "start = 64 * bitset_words s") (auto simp: less_mult_imp_div_less)
  then show ?thesis
    using BIT_FFS_loop_find [of "start mod 64" "start div 64" "bitset_words s" p]
    by (simp add: BIT_FFS_AT_def bitset_simps)
qed

subsection \<open>The interface of a CPU set\<close>

locale cpu_set =
  fixes isset :: "'b \<Rightarrow> nat \<Rightarrow> bool"
    and add :: "'b \<Rightarrow> nat \<Rightarrow> 'b"
    and remove :: "'b \<Rightarrow> nat \<Rightarrow> 'b"
    and first :: "'b \<Rightarrow> int"
    and after :: "'b \<Rightarrow> nat \<Rightarrow> int"
    and count :: "'b \<Rightarrow> nat"
    and members :: "'b \<Rightarrow> nat list"
    and cap :: "'b \<Rightarrow> nat"
    and ok :: "'b \<Rightarrow> bool"
  assumes members_sorted: "sorted_wrt (<) (members b)"
    and members_cap: "c \<in> set (members b) \<Longrightarrow> c < cap b"
    and isset_law: "c < cap b \<Longrightarrow> isset b c = (c \<in> set (members b))"
    and add_law: "ok b \<Longrightarrow> c < cap b \<Longrightarrow>
      ok (add b c) \<and> cap (add b c) = cap b \<and> set (members (add b c)) = insert c (set (members b))"
    and remove_law: "ok b \<Longrightarrow> c < cap b \<Longrightarrow>
      ok (remove b c) \<and> cap (remove b c) = cap b \<and> set (members (remove b c)) = set (members b) - {c}"
    and first_law: "ok b \<Longrightarrow> first b = (case members b of [] \<Rightarrow> - 1 | c # _ \<Rightarrow> int c)"
    and after_law: "ok b \<Longrightarrow> c < cap b \<Longrightarrow>
      after b c = (case filter (\<lambda>x. c < x) (members b) of [] \<Rightarrow> - 1 | x # _ \<Rightarrow> int x)"
    and count_law: "ok b \<Longrightarrow> count b = length (members b)"
begin

lemma first_None: "ok b \<Longrightarrow> (first b < 0) = (members b = [])"
  by (auto simp: first_law split: list.splits)

lemma first_least:
  assumes "ok b" "first b \<ge> 0"
  shows "nat (first b) \<in> set (members b) \<and> (\<forall>c \<in> set (members b). nat (first b) \<le> c)"
  using assms members_sorted [of b] by (auto simp: first_law split: list.splits)

lemma distinct_members: "distinct (members b)"
  using members_sorted [of b] by (simp add: strict_sorted_iff)

lemma members_unique: "set (members b) = set (members b') \<Longrightarrow> members b = members b'"
  using members_sorted [of b] members_sorted [of b'] by (simp add: strict_sorted_equal)

lemma count_card: "ok b \<Longrightarrow> count b = card (set (members b))"
  by (simp add: count_law distinct_card distinct_members)

lemma length_members: "length (members b) \<le> cap b"
proof -
  have "set (members b) \<subseteq> {..<cap b}" using members_cap by auto
  then have "card (set (members b)) \<le> cap b" using card_mono [of "{..<cap b}"] by simp
  then show ?thesis by (simp add: distinct_card distinct_members)
qed

lemma members_above_eq:
  assumes "\<And>x. c < x \<Longrightarrow> (x \<in> set (members b)) = (x \<in> set (members b'))"
  shows "filter (\<lambda>x. c < x) (members b) = filter (\<lambda>x. c < x) (members b')"
  by (rule strict_sorted_equal) (use assms in \<open>auto intro: sorted_wrt_filter members_sorted\<close>)

lemma remove_above:
  "ok b \<Longrightarrow> c < cap b \<Longrightarrow> filter (\<lambda>x. c < x) (members (remove b c)) = filter (\<lambda>x. c < x) (members b)"
  by (rule members_above_eq) (simp add: remove_law)

lemma filter_above_suffix:
  "filter (\<lambda>x. k \<le> x) (members b) = c # ys \<Longrightarrow> ys = filter (\<lambda>x. c < x) (members b) \<and> c \<in> set (members b)"
proof -
  assume eq: "filter (\<lambda>x. k \<le> x) (members b) = c # ys"
  then have "c \<in> set (filter (\<lambda>x. k \<le> x) (members b))" by simp
  then have c: "k \<le> c" "c \<in> set (members b)" by auto
  have "sorted_wrt (<) (c # ys)" using members_sorted [of b] eq by (metis sorted_wrt_filter)
  then have "ys = filter (\<lambda>x. c < x) (c # ys)" by simp
  also have "\<dots> = filter (\<lambda>x. c < x) (filter (\<lambda>x. k \<le> x) (members b))" by (simp only: eq)
  also have "\<dots> = filter (\<lambda>x. c < x) (members b)" using c(1) by (auto intro: filter_cong simp: filter_filter)
  finally show ?thesis using c(2) by simp
qed

text \<open>A loop whose body leaves the members above the one it visits alone is a fold over the
  members the set had at the start.\<close>

lemma foreach_suffix:
  assumes body: "\<And>c s. I s \<Longrightarrow> c \<in> set (members (get s)) \<Longrightarrow> I (body c s) \<and>
      cap (get (body c s)) = cap (get s) \<and>
      filter (\<lambda>x. c < x) (members (get (body c s))) = filter (\<lambda>x. c < x) (members (get s))"
    and ok: "\<And>s. I s \<Longrightarrow> ok (get s)"
  shows "I s \<Longrightarrow> xs = filter (\<lambda>x. k \<le> x) (members (get s)) \<Longrightarrow> length xs \<le> n \<Longrightarrow>
    foreach_loop after n get body (case xs of [] \<Rightarrow> - 1 | c # _ \<Rightarrow> int c) s = Some (fold body xs s)"
proof (induction xs arbitrary: s k n)
  case Nil
  then show ?case by (cases n) simp_all
next
  case (Cons c ys)
  from Cons.prems(3) obtain m where n: "n = Suc m" "length ys \<le> m" by (cases n) auto
  have c: "ys = filter (\<lambda>x. c < x) (members (get s))" "c \<in> set (members (get s))"
    using filter_above_suffix [OF Cons.prems(2) [symmetric]] by auto
  note b = body [OF Cons.prems(1) c(2)]
  have ys: "ys = filter (\<lambda>x. Suc c \<le> x) (members (get (body c s)))"
    using b c(1) by (simp add: Suc_le_eq)
  have "after (get (body c s)) c = (case ys of [] \<Rightarrow> - 1 | x # _ \<Rightarrow> int x)"
    using after_law [of "get (body c s)" c] ok b c members_cap [of c "get s"] by simp
  then show ?case using Cons.IH [of "body c s" "Suc c" m] b n ys by (simp add: Let_def)
qed

lemma foreach_fold:
  assumes "\<And>c s. I s \<Longrightarrow> c \<in> set (members (get s)) \<Longrightarrow> I (body c s) \<and>
      cap (get (body c s)) = cap (get s) \<and>
      filter (\<lambda>x. c < x) (members (get (body c s))) = filter (\<lambda>x. c < x) (members (get s))"
    and "\<And>s. I s \<Longrightarrow> ok (get s)" "I s" "cap (get s) \<le> n"
  shows "foreach_loop after n get body (first (get s)) s = Some (fold body (members (get s)) s)"
  using foreach_suffix [of I get body s "members (get s)" 0 n] assms first_law [of "get s"]
    length_members [of "get s"] by simp

end

subsection \<open>The CPU sets implement the interface\<close>

lemma members_above:
  assumes "cpu_bitset_inv bs" "k \<le> bs_size bs"
  shows "filter (bit_at (bits bs)) [k..<64 * bitset_words (bs_size bs)] =
    filter (\<lambda>x. k \<le> x) (cpu_members bs)"
proof -
  let ?P = "bit_at (bits bs)" and ?n = "bs_size bs"
  have "[k..<64 * bitset_words ?n] = [k..<?n] @ [?n..<64 * bitset_words ?n]"
    using assms(2) bitset_words_bounds(2) [of ?n] upt_add_eq_append [of k ?n "64 * bitset_words ?n - ?n"] by simp
  moreover have "filter ?P [?n..<64 * bitset_words ?n] = []"
    using assms(1) by (auto simp: cpu_bitset_inv_def filter_empty_conv)
  moreover have "[0..<?n] = [0..<k] @ [k..<?n]"
    using assms(2) upt_add_eq_append [of 0 k "?n - k"] by simp
  moreover have "filter (\<lambda>x. k \<le> x) (filter ?P [0..<k]) = []" by (auto simp: filter_empty_conv)
  moreover have "filter (\<lambda>x. k \<le> x) (filter ?P [k..<?n]) = filter ?P [k..<?n]"
    by (simp, rule filter_cong) auto
  ultimately show ?thesis by (simp add: cpu_members_def)
qed

lemma BIT_COUNT_length: "BIT_COUNT_loop p w = length (filter (bit_at p) [0..<64 * w])"
proof (induction w)
  case (Suc w)
  have "[0..<64 * Suc w] = [0..<64 * w] @ map (\<lambda>j. 64 * w + j) [0..<64]"
    by (rule nth_equalityI) (auto simp: nth_append)
  moreover have "filter (bit_at p \<circ> (\<lambda>j. 64 * w + j)) [0..<64] = filter (bit (p ! w)) [0..<64]"
    by (rule filter_cong) (auto simp: bit_at_def)
  ultimately show ?case using Suc by (simp add: bitcountl_def BITSET_BITS_def filter_map)
qed simp

interpretation cb: cpu_set cpu_bitset_isset cpu_bitset_set cpu_bitset_clear cpu_bitset_ffs
  cpu_bitset_ffs_at cpu_bitset_count cpu_members bs_size cpu_bitset_inv
proof unfold_locales
  fix b :: cpu_bitset and c :: nat
  show "sorted_wrt (<) (cpu_members b)" by (simp add: cpu_members_def sorted_wrt_filter)
  show "c \<in> set (cpu_members b) \<Longrightarrow> c < bs_size b" by (simp add: cpu_members_def)
  show "c < bs_size b \<Longrightarrow> cpu_bitset_isset b c = (c \<in> set (cpu_members b))"
    by (simp add: cpu_bitset_isset_def BIT_ISSET_bit cpu_members_def)
  have len: "cpu_bitset_inv b \<Longrightarrow> c < bs_size b \<Longrightarrow> c div 64 < length (bits b)"
    using bitset_words_bounds(1) [of c "bs_size b"] bitset_words_mono [of "bs_size b" NR_CPUS]
    by (simp add: cpu_bitset_inv_def)
  show "cpu_bitset_inv b \<Longrightarrow> c < bs_size b \<Longrightarrow> cpu_bitset_inv (cpu_bitset_set b c) \<and>
      bs_size (cpu_bitset_set b c) = bs_size b \<and>
      set (cpu_members (cpu_bitset_set b c)) = insert c (set (cpu_members b))"
    using len by (auto simp: cpu_bitset_inv_def cpu_bitset_set_def cpu_members_def BIT_SET_bit)
      (simp add: BIT_SET_def)
  show "cpu_bitset_inv b \<Longrightarrow> c < bs_size b \<Longrightarrow> cpu_bitset_inv (cpu_bitset_clear b c) \<and>
      bs_size (cpu_bitset_clear b c) = bs_size b \<and>
      set (cpu_members (cpu_bitset_clear b c)) = set (cpu_members b) - {c}"
    using len by (auto simp: cpu_bitset_inv_def cpu_bitset_clear_def cpu_members_def BIT_CLR_bit)
      (simp add: BIT_CLR_def)
  show "cpu_bitset_inv b \<Longrightarrow> cpu_bitset_ffs b = (case cpu_members b of [] \<Rightarrow> - 1 | c # _ \<Rightarrow> int c)"
    using members_above [of b 0] BIT_FFS_AT_find [of 0 "bs_size b" "bits b"]
    by (simp add: cpu_bitset_ffs_def BIT_FFS_def find_filter split: list.splits)
  show "cpu_bitset_inv b \<Longrightarrow> c < bs_size b \<Longrightarrow> cpu_bitset_ffs_at b c =
      (case filter (\<lambda>x. c < x) (cpu_members b) of [] \<Rightarrow> - 1 | x # _ \<Rightarrow> int x)"
    using members_above [of b "Suc c"] BIT_FFS_AT_find [of "Suc c" "bs_size b" "bits b"]
      bitset_words_bounds(2) [of "bs_size b"]
    by (simp add: cpu_bitset_ffs_at_def find_filter Suc_le_eq split: list.splits)
  show "cpu_bitset_inv b \<Longrightarrow> cpu_bitset_count b = length (cpu_members b)"
    using members_above [of b 0] by (simp add: cpu_bitset_count_def BIT_COUNT_def BIT_COUNT_length)
qed

lemma cpu_bitset_init_ok:
  assumes "length (bits bs) = bitset_words NR_CPUS" "cpus \<le> NR_CPUS" "cpu_bitset_init bs cpus = Some bs'"
  shows "cpu_bitset_inv bs' \<and> cpu_members bs' = [] \<and> bs_size bs' = cpus"
proof -
  have w: "bitset_words cpus \<le> length (bits bs)" using assms(1,2) bitset_words_mono by simp
  from assms(3) have bs': "bs' = bs \<lparr> bits := BIT_ZERO cpus (bits bs), bs_size := cpus \<rparr>"
    by (simp add: cpu_bitset_init_def)
  have "\<not> bit_at (BIT_ZERO cpus (bits bs)) n" if "n < cpus" for n
    using BIT_ops_bit(5) [OF w, of n] that bitset_words_bounds(2) [of cpus] by simp
  then show ?thesis
    using w assms BIT_ops_bit(5) [OF w]
    by (auto simp: cpu_bitset_inv_def cpu_members_def bs' filter_empty_conv) (simp add: BIT_ZERO_def)
qed

declare set_range.simps [simp del]

text \<open>The CPUs of a range with a stride.\<close>

definition stride_set :: "int \<Rightarrow> int \<Rightarrow> int \<Rightarrow> nat set" where
  "stride_set a b stride = {nat j | j. a \<le> j \<and> j \<le> b \<and> stride dvd (j - a)}"

lemma stride_set_empty: "b < a \<Longrightarrow> stride_set a b s = {}"
  by (auto simp: stride_set_def)

lemma stride_set_step:
  assumes "a \<le> b" "0 < s"
  shows "stride_set a b s = insert (nat a) (stride_set (a + s) b s)"
proof -
  have "(a \<le> j \<and> j \<le> b \<and> s dvd (j - a)) = (j = a \<or> a + s \<le> j \<and> j \<le> b \<and> s dvd (j - (a + s)))" for j
  proof -
    have "s dvd (j - (a + s)) \<longleftrightarrow> s dvd (j - a)"
      by (metis diff_diff_eq dvd_minus_iff dvd_refl dvd_diff_left_iff minus_diff_eq)
    moreover have "a < j \<Longrightarrow> s dvd (j - a) \<Longrightarrow> a + s \<le> j" using zdvd_imp_le [of s "j - a"] by simp
    ultimately show ?thesis using assms by (cases j a rule: linorder_cases) auto
  qed
  then have "{j. a \<le> j \<and> j \<le> b \<and> s dvd (j - a)} =
      insert a {j. a + s \<le> j \<and> j \<le> b \<and> s dvd (j - (a + s))}" by (simp add: insert_compr)
  then show ?thesis unfolding stride_set_def image_Collect [symmetric] by simp
qed

lemma set_range_members:
  assumes "0 \<le> a" "b < int NR_CPUS" "0 < s" "cpu_bitset_inv bs" "bs_size bs = NR_CPUS"
  shows "\<exists>bs'. set_range a b s bs = Some bs' \<and> cpu_bitset_inv bs' \<and> bs_size bs' = NR_CPUS \<and>
    set (cpu_members bs') = set (cpu_members bs) \<union> stride_set a b s"
  using assms
proof (induction a b s bs rule: set_range.induct)
  case (1 a b s bs)
  show ?case
  proof (cases "a \<le> b")
    case True
    have "nat a < NR_CPUS" using True "1.prems" by simp
    with cb.add_law [OF "1.prems"(4), of "nat a"] "1.prems"(5)
    have add: "cpu_bitset_inv (cpu_bitset_set bs (nat a))" "bs_size (cpu_bitset_set bs (nat a)) = NR_CPUS"
      "set (cpu_members (cpu_bitset_set bs (nat a))) = insert (nat a) (set (cpu_members bs))" by auto
    with "1.IH" True "1.prems" have "\<exists>bs'. set_range (a + s) b s (cpu_bitset_set bs (nat a)) = Some bs' \<and>
      cpu_bitset_inv bs' \<and> bs_size bs' = NR_CPUS \<and>
      set (cpu_members bs') = insert (nat a) (set (cpu_members bs)) \<union> stride_set (a + s) b s" by simp
    then show ?thesis using True "1.prems" stride_set_step [OF True "1.prems"(3)]
      by (simp add: set_range.simps [of a b s bs])
  next
    case False
    then show ?thesis using "1.prems" by (simp add: set_range.simps [of a b s bs] stride_set_empty)
  qed
qed

text \<open>What a token asks for: its first and last CPU and its stride.\<close>

definition token_range :: "string \<Rightarrow> (int \<times> int \<times> int) option" where
  "token_range tok =
     (case sscanf_range tok of
        [a] \<Rightarrow> Some (a, a, 1) | [a, b] \<Rightarrow> Some (a, b, 1) | [a, b, s] \<Rightarrow> Some (a, b, s) | _ \<Rightarrow> None)"

definition valid_token :: "string \<Rightarrow> bool" where
  "valid_token tok =
     (case token_range tok of None \<Rightarrow> False
      | Some (a, b, s) \<Rightarrow> 0 \<le> a \<and> a \<le> b \<and> b < int NR_CPUS \<and> 0 < s)"

definition token_set :: "string \<Rightarrow> nat set" where
  "token_set tok = (case token_range tok of None \<Rightarrow> {} | Some (a, b, s) \<Rightarrow> stride_set a b s)"

lemma sscanf_blank: "list_all is_space tok \<Longrightarrow> sscanf_range tok = []"
proof -
  assume "list_all is_space tok"
  then have blank: "dropWhile is_space tok = []" by (simp add: list_all_iff)
  have "scan_int tok = None" unfolding scan_int_def blank by simp
  then show ?thesis by (simp add: sscanf_range_def)
qed

lemma parse_token_valid:
  assumes "valid_token tok" "cpu_bitset_inv bs" "bs_size bs = NR_CPUS"
  shows "\<exists>bs'. parse_token tok bs = Some (True, bs') \<and> cpu_bitset_inv bs' \<and> bs_size bs' = NR_CPUS \<and>
    set (cpu_members bs') = set (cpu_members bs) \<union> token_set tok"
proof -
  obtain a b s where r: "token_range tok = Some (a, b, s)" "0 \<le> a" "a \<le> b" "b < int NR_CPUS" "0 < s"
    using assms(1) by (auto simp: valid_token_def split: option.splits)
  then have blank: "\<not> list_all is_space tok" using sscanf_blank [of tok] by (auto simp: token_range_def)
  obtain bs' where bs': "set_range a b s bs = Some bs'" "cpu_bitset_inv bs'" "bs_size bs' = NR_CPUS"
    "set (cpu_members bs') = set (cpu_members bs) \<union> stride_set a b s"
    using set_range_members [OF r(2,4,5) assms(2,3)] by blast
  have "parse_token tok bs = Some (True, bs')"
    using r(1) r(3) bs'(1) blank
    by (auto simp: parse_token_def token_range_def split: list.splits)
  then show ?thesis using bs' r(1) by (auto simp: token_set_def)
qed

lemma parse_tokens_valid:
  assumes "\<forall>tok \<in> set toks. valid_token tok" "cpu_bitset_inv bs" "bs_size bs = NR_CPUS"
  shows "\<exists>bs'. parse_tokens toks bs = Some bs' \<and> cpu_bitset_inv bs' \<and>
    set (cpu_members bs') = set (cpu_members bs) \<union> (\<Union>tok \<in> set toks. token_set tok)"
  using assms
proof (induction toks arbitrary: bs)
  case (Cons tok toks)
  obtain b1 where b1: "parse_token tok bs = Some (True, b1)" "cpu_bitset_inv b1" "bs_size b1 = NR_CPUS"
    "set (cpu_members b1) = set (cpu_members bs) \<union> token_set tok"
    using parse_token_valid [of tok bs] Cons.prems by auto
  then show ?case using Cons.IH [of b1] Cons.prems(1) by auto
qed simp

subsection \<open>The properties of CPU sets\<close>

text \<open>BIT_FFS_AT, with its masks and its loop over words, returns one more than the least bit
  set at or above its start, and 0 when there is none.\<close>

theorem BIT_FFS_AT_least:
  assumes "start \<le> 64 * bitset_words s"
  shows "(case BIT_FFS_AT s p start of
      0 \<Rightarrow> \<forall>n. start \<le> n \<and> n < 64 * bitset_words s \<longrightarrow> \<not> BIT_ISSET n p
    | Suc n \<Rightarrow> start \<le> n \<and> n < 64 * bitset_words s \<and> BIT_ISSET n p \<and>
        (\<forall>m. start \<le> m \<and> m < n \<longrightarrow> \<not> BIT_ISSET m p))"
proof (cases "find (bit_at p) [start..<64 * bitset_words s]")
  case None
  then have "\<forall>n. start \<le> n \<and> n < 64 * bitset_words s \<longrightarrow> \<not> bit_at p n" by (auto simp: find_None_iff)
  then show ?thesis using assms None by (simp add: BIT_FFS_AT_find BIT_ISSET_bit)
next
  case (Some n)
  then obtain i where "i < 64 * bitset_words s - start" "n = start + i" "bit_at p n"
    "\<forall>j < i. \<not> bit_at p (start + j)"
    by (auto simp: find_Some_iff)
  then show ?thesis
    using assms Some by (auto simp: BIT_FFS_AT_find BIT_ISSET_bit dest: le_Suc_ex)
qed

theorem BIT_FFS_AT_least_witness:
  "BIT_FFS_AT 128 [1, 4] 1 = 67 \<and> BIT_ISSET 66 [1, 4] \<and> \<not> BIT_ISSET 65 [1, 4]"
proof -
  have e: "BIT_FFS_AT 128 [1, 4] 1 = 67" by code_simp
  have "1 \<le> 64 * bitset_words 128" by code_simp
  from BIT_FFS_AT_least [OF this, of "[1, 4]"] e show ?thesis by simp
qed

text \<open>CPU_BITSET_FOREACH visits every CPU of the set exactly once and in increasing order, also
  when the body removes the CPU it visits from the set; the loop ends within \<open>NR_CPUS\<close> rounds.\<close>

theorem cpu_bitset_foreach_visits:
  assumes "cpu_bitset_inv bs"
  shows "\<exists>bs'. cpu_bitset_foreach snd (\<lambda>cpu (seen, b). (seen @ [cpu], cpu_bitset_clear b cpu)) ([], bs)
      = Some (cpu_members bs, bs') \<and> cpu_bitset_inv bs' \<and> cpu_members bs' = []"
proof -
  let ?body = "\<lambda>cpu (seen, b). (seen @ [cpu], cpu_bitset_clear b cpu)"
  let ?I = "\<lambda>s :: nat list \<times> cpu_bitset. cpu_bitset_inv (snd s)"
  have body: "?I (?body c s) \<and> bs_size (snd (?body c s)) = bs_size (snd s) \<and>
      filter (\<lambda>x. c < x) (cpu_members (snd (?body c s))) = filter (\<lambda>x. c < x) (cpu_members (snd s))"
    if "?I s" "c \<in> set (cpu_members (snd s))" for c s
    using that cb.remove_law [of "snd s" c] cb.members_cap [of c "snd s"] cb.remove_above [of "snd s" c]
    by (cases s) simp
  have cap: "bs_size bs \<le> NR_CPUS" using assms by (simp add: cpu_bitset_inv_def)
  have "foreach_loop cpu_bitset_ffs_at NR_CPUS snd ?body (cpu_bitset_ffs (snd ([] :: nat list, bs))) ([], bs) =
      Some (fold ?body (cpu_members (snd ([] :: nat list, bs))) ([], bs))"
  proof (rule cb.foreach_fold [where I = ?I])
    fix c s assume "?I s" "c \<in> set (cpu_members (snd s))"
    then show "?I (?body c s) \<and> bs_size (snd (?body c s)) = bs_size (snd s) \<and>
        filter (\<lambda>x. c < x) (cpu_members (snd (?body c s))) = filter (\<lambda>x. c < x) (cpu_members (snd s))"
      by (rule body)
  qed (simp_all add: assms cap)
  then have loop: "cpu_bitset_foreach snd ?body ([], bs) = Some (fold ?body (cpu_members bs) ([], bs))"
    by (simp only: cpu_bitset_foreach_def snd_conv)
  have fold: "cpu_bitset_inv b \<Longrightarrow> set xs \<subseteq> {..<bs_size b} \<Longrightarrow>
      fst (fold ?body xs (seen, b)) = seen @ xs \<and> cpu_bitset_inv (snd (fold ?body xs (seen, b))) \<and>
      set (cpu_members (snd (fold ?body xs (seen, b)))) = set (cpu_members b) - set xs" for xs seen b
  proof (induction xs arbitrary: seen b)
    case (Cons x xs)
    then show ?case using cb.remove_law [of b x] by auto
  qed simp
  have "set (cpu_members bs) \<subseteq> {..<bs_size bs}" using cb.members_cap [of _ bs] by auto
  from fold [OF assms this, of "[]"] loop show ?thesis
    by (cases "fold ?body (cpu_members bs) ([], bs)") simp
qed

theorem cpu_bitset_foreach_visits_witness:
  "\<exists>bs'. cpu_bitset_foreach snd (\<lambda>cpu (seen, b). (seen @ [cpu], cpu_bitset_clear b cpu))
      ([], \<lparr> bits = [5, 1, 0, 0], bs_size = 100 \<rparr>) = Some ([0, 2, 64], bs')"
proof -
  have m: "cpu_members \<lparr> bits = [5, 1, 0, 0], bs_size = 100 \<rparr> = [0, 2, 64]" by code_simp
  have "cpu_bitset_inv \<lparr> bits = [5, 1, 0, 0], bs_size = 100 \<rparr>" by code_simp
  from cpu_bitset_foreach_visits [OF this] m show ?thesis by auto
qed

text \<open>Parsing a CPU list whose every token is a number, a range or a range with a positive stride
  inside the CPU limit ends with 0 and with exactly the CPUs the tokens name.\<close>

theorem cpu_bitset_parse_str_members:
  assumes "length (bits bs) = bitset_words NR_CPUS"
    and "\<forall>tok \<in> set (strtok_comma [] str). valid_token tok"
  shows "\<exists>bs'. cpu_bitset_parse_str bs str = Some (0, bs') \<and> cpu_bitset_inv bs' \<and>
    set (cpu_members bs') = (\<Union>tok \<in> set (strtok_comma [] str). token_set tok)"
proof -
  obtain b0 where b0: "cpu_bitset_init bs NR_CPUS = Some b0" by (simp add: cpu_bitset_init_def)
  from cpu_bitset_init_ok [OF assms(1) le_refl b0]
  have "cpu_bitset_inv b0" "bs_size b0 = NR_CPUS" "cpu_members b0 = []" by auto
  with parse_tokens_valid [OF assms(2), of b0] b0 show ?thesis
    by (auto simp: cpu_bitset_parse_str_def)
qed

theorem cpu_bitset_parse_str_members_witness:
  "\<exists>bs'. cpu_bitset_parse_str \<lparr> bits = [9, 9, 9, 9], bs_size = 4 \<rparr> ''0-6:2,70'' = Some (0, bs') \<and>
    set (cpu_members bs') = token_set ''0-6:2'' \<union> token_set ''70''"
proof -
  have t: "strtok_comma [] ''0-6:2,70'' = [''0-6:2'', ''70'']" by code_simp
  have "length (bits \<lparr> bits = [9, 9, 9, 9], bs_size = 4 \<rparr>) = bitset_words NR_CPUS" by code_simp
  moreover have "\<forall>tok \<in> set (strtok_comma [] ''0-6:2,70''). valid_token tok" by code_simp
  ultimately show ?thesis
    using cpu_bitset_parse_str_members [of "\<lparr> bits = [9, 9, 9, 9], bs_size = 4 \<rparr>" "''0-6:2,70''"] t
    by auto
qed

text \<open>A malformed list is not reported: a token that is no number, or a range whose end is before
  its start, makes the function stop and still return 0, the value its comment keeps for success,
  with the CPUs of the tokens before it.\<close>

theorem cpu_bitset_parse_str_error_is_silent:
  assumes "length (bits bs) = bitset_words NR_CPUS"
    and "strtok_comma [] str = good @ bad # rest" "\<forall>tok \<in> set good. valid_token tok"
    and "\<not> list_all is_space bad" "sscanf_range bad = [] \<or> (\<exists>a b more. sscanf_range bad = a # b # more \<and> b < a)"
  shows "\<exists>bs'. cpu_bitset_parse_str bs str = Some (0, bs') \<and>
    set (cpu_members bs') = (\<Union>tok \<in> set good. token_set tok)"
proof -
  obtain b0 where b0: "cpu_bitset_init bs NR_CPUS = Some b0" by (simp add: cpu_bitset_init_def)
  from cpu_bitset_init_ok [OF assms(1) le_refl b0]
  have ok: "cpu_bitset_inv b0" "bs_size b0 = NR_CPUS" "cpu_members b0 = []" by auto
  have bad: "parse_token bad b = Some (False, b)" for b
    using assms(4,5) by (auto simp: parse_token_def)
  have stop: "parse_tokens (toks @ bad # rest) b = parse_tokens toks b"
    if "parse_tokens toks b \<noteq> None" for toks b
    using that by (induction toks arbitrary: b) (auto simp: bad split: option.splits bool.splits)
  obtain b1 where "parse_tokens good b0 = Some b1"
    "set (cpu_members b1) = (\<Union>tok \<in> set good. token_set tok)"
    using parse_tokens_valid [OF assms(3) ok(1,2)] ok(3) by auto
  then show ?thesis using stop [of good b0] b0 assms(2) by (simp add: cpu_bitset_parse_str_def)
qed

theorem cpu_bitset_parse_str_error_is_silent_witness:
  "\<exists>bs'. cpu_bitset_parse_str \<lparr> bits = [9, 9, 9, 9], bs_size = 4 \<rparr> ''1,7-3'' = Some (0, bs') \<and>
    set (cpu_members bs') = token_set ''1''"
proof -
  have t: "strtok_comma [] ''1,7-3'' = [''1''] @ ''7-3'' # []" by code_simp
  have l: "length (bits \<lparr> bits = [9, 9, 9, 9], bs_size = 4 \<rparr>) = bitset_words NR_CPUS" by code_simp
  have g: "\<forall>tok \<in> set [''1'']. valid_token tok" by code_simp
  have n: "\<not> list_all is_space ''7-3''" by code_simp
  have "sscanf_range ''7-3'' = [7, 3]" by code_simp
  then have b: "sscanf_range ''7-3'' = [] \<or> (\<exists>a b more. sscanf_range ''7-3'' = a # b # more \<and> b < a)" by simp
  show ?thesis using cpu_bitset_parse_str_error_is_silent [OF l t g n b] by simp
qed

end
