(* ===== verification/Dtlock.thy ===== *)
theory Dtlock
  imports Cpu_Bitset
begin

section \<open>The delegation ticket lock (scheduler/dtlock.h, generic/futex.h)\<close>

text \<open>
  The lock that serialises the scheduler. A thread takes a ticket with \<open>fetch_add\<close> on \<open>head\<close>, writes
  its CPU into the slot \<open>ticket mod size\<close> of the wait queue and spins there. The holder either grants
  the lock to the next ticket (\<open>dtlock_unlock\<close>) or moves the next waiter to the second wait place,
  \<open>items[cpu]\<close>, where it is later served a task (\<open>dtlock_serve\<close>).

  The fields of \<open>delegation_lock_t\<close> are the record \<open>dtlock\<close>. Tickets, \<open>head\<close> and \<open>next\<close> are 64-bit
  counters that grow by one per acquisition; the model has them unbounded. The 31-bit signal
  counter and the 32-bit \<open>next\<close> of an item do wrap, and so does the model. The bit fields
  \<open>dtlock_node_cpu\<close> and \<open>dtlock_signal\<close> are modelled by their members. Operations marked
  "with lock acquired" are functions on the record; the operations that spin are threads of the
  step relation in the theory \<open>Dtlock_Concurrent\<close>.
\<close>

definition DTLOCK_FLAGS_NONE :: "8 word" where "DTLOCK_FLAGS_NONE = 0"
definition DTLOCK_FLAGS_NONBLOCK :: "8 word" where "DTLOCK_FLAGS_NONBLOCK = 1"
definition DTLOCK_FLAGS_EXTERNAL :: "8 word" where "DTLOCK_FLAGS_EXTERNAL = 2"

datatype dtlock_signal = DTLOCK_SIGNAL_DEFAULT | DTLOCK_SIGNAL_SLEEP | DTLOCK_SIGNAL_WAKE

text \<open>What a served CPU finds in \<open>items[cpu].item\<close>: a null pointer, DTLOCK_ITEM_RETRY or a task.\<close>

datatype dt_item = ItemNull | ItemRetry | ItemTask task_id

record dtlock_node =
  node_ticket :: nat
  node_cpu :: nat
  node_flags :: "8 word"

record dtlock_item =
  item_ticket :: nat
  item_ptr :: dt_item
  item_count :: nat
  item_next :: u32
  signal_sleep :: bool
  signal_cnt :: nat
  item_flags :: "8 word"

record dtlock =
  waitqueue :: "dtlock_node list"
  items :: "dtlock_item list"
  dt_size :: nat
  cpu_sleep_vars :: "int list"
  dt_head :: nat
  dt_next :: nat

subsection \<open>The futex of a sleeping CPU\<close>

text \<open>\<open>nosv_futex_wait\<close> up to the system call: the new value and whether the thread goes to sleep.
  \<open>nosv_futex_signal\<close>: the new value and whether a thread is woken.\<close>

definition nosv_futex_init :: int where "nosv_futex_init = 0"

definition nosv_futex_wait :: "int \<Rightarrow> (int \<times> bool) option" where
  "nosv_futex_wait m = assert_then (m = 0 \<or> m = - 1) (Some (m + 1, m = 0))"

definition nosv_futex_signal :: "int \<Rightarrow> (int \<times> bool) option" where
  "nosv_futex_signal m = assert_then (m = 1 \<or> m = 0) (Some (m - 1, m > 0))"

subsection \<open>Operations\<close>

text \<open>The initialisation leaves \<open>scheduled_count\<close> and \<open>next\<close> of the items as the allocator returned
  them: \<open>mem\<close>.\<close>

definition zero_item :: dtlock_item where
  "zero_item = \<lparr> item_ticket = 0, item_ptr = ItemNull, item_count = 0, item_next = 0,
     signal_sleep = False, signal_cnt = 0, item_flags = 0 \<rparr>"

definition dtlock_init :: "dtlock_item list \<Rightarrow> nat \<Rightarrow> dtlock" where
  "dtlock_init mem n =
     (let nodes = replicate n \<lparr> node_ticket = 0, node_cpu = 0, node_flags = 0 \<rparr>
      in \<lparr> waitqueue = nodes[0 := (nodes ! 0) \<lparr> node_ticket := n \<rparr>],
           items = map (\<lambda>i. i \<lparr> item_ticket := 0, item_ptr := ItemNull, signal_sleep := False,
             signal_cnt := 0, item_flags := DTLOCK_FLAGS_NONE \<rparr>) (take n mem),
           dt_size = n, cpu_sleep_vars = replicate n nosv_futex_init,
           dt_head = n, dt_next = n + 1 \<rparr>)"

definition slot :: "dtlock \<Rightarrow> nat \<Rightarrow> nat" where
  "slot d t = t mod dt_size d"

definition wq_ticket :: "dtlock \<Rightarrow> nat \<Rightarrow> nat" where
  "wq_ticket d i = node_ticket (waitqueue d ! i)"

definition wq_cpu :: "dtlock \<Rightarrow> nat \<Rightarrow> nat" where
  "wq_cpu d i = node_cpu (waitqueue d ! i)"

text \<open>The store of a waiting thread into its slot, with the flags of the call.\<close>

definition wait_flags :: "bool \<Rightarrow> bool \<Rightarrow> 8 word" where
  "wait_flags blocking external =
     (if blocking then DTLOCK_FLAGS_NONE else DTLOCK_FLAGS_NONBLOCK) OR
     (if external then DTLOCK_FLAGS_NONE else DTLOCK_FLAGS_EXTERNAL)"

definition dtlock_register :: "dtlock \<Rightarrow> nat \<Rightarrow> nat \<Rightarrow> 8 word \<Rightarrow> dtlock" where
  "dtlock_register d head cpu_index flags =
     d \<lparr> waitqueue := (waitqueue d)[slot d head :=
           (waitqueue d ! slot d head) \<lparr> node_cpu := head + cpu_index, node_flags := flags \<rparr>] \<rparr>"

definition dtlock_popfront :: "dtlock \<Rightarrow> dtlock" where
  "dtlock_popfront d =
     (let i = slot d (dt_next d)
      in d \<lparr> waitqueue := (waitqueue d)[i := (waitqueue d ! i) \<lparr> node_ticket := dt_next d \<rparr>],
             dt_next := dt_next d + 1 \<rparr>)"

definition dtlock_popfront_wait :: "dtlock \<Rightarrow> nat \<Rightarrow> dtlock option" where
  "dtlock_popfront_wait d cpu =
     assert_then (cpu < dt_size d)
       (let i = slot d (dt_next d);
            d' = d \<lparr> items := (items d)[cpu := (items d ! cpu) \<lparr> item_flags := node_flags (waitqueue d ! i),
                                                             item_ticket := dt_next d \<rparr>] \<rparr>
        in Some (dtlock_popfront d'))"

definition dtlock_empty :: "dtlock \<Rightarrow> bool" where
  "dtlock_empty d = (wq_cpu d (slot d (dt_next d)) < dt_next d)"

definition dtlock_front :: "dtlock \<Rightarrow> nat" where
  "dtlock_front d = wq_cpu d (slot d (dt_next d)) - dt_next d"

definition dtlock_serve :: "dtlock \<Rightarrow> nat \<Rightarrow> dt_item \<Rightarrow> nat \<Rightarrow> dtlock_signal \<Rightarrow> dtlock option" where
  "dtlock_serve d cpu it scheduled_count sig =
     assert_then (cpu < dt_size d)
       (let i1 = (items d ! cpu) \<lparr> item_ptr := it, item_count := scheduled_count \<rparr>
        in case sig of
             DTLOCK_SIGNAL_WAKE \<Rightarrow>
               map_option (\<lambda>(m, _). d \<lparr> items := (items d)[cpu := i1],
                                       cpu_sleep_vars := (cpu_sleep_vars d)[cpu := m] \<rparr>)
                 (nosv_futex_signal (cpu_sleep_vars d ! cpu))
           | _ \<Rightarrow>
               (let n = item_next i1 + 1
                in Some (d \<lparr> items := (items d)[cpu := i1 \<lparr> item_next := n,
                     signal_cnt := unat n mod 2 ^ 31, signal_sleep := (sig = DTLOCK_SIGNAL_SLEEP) \<rparr>] \<rparr>)))"

definition dtlock_unlock :: "dtlock \<Rightarrow> dtlock" where
  "dtlock_unlock d = dtlock_popfront d"

definition dtlock_is_cpu_blockable :: "dtlock \<Rightarrow> nat \<Rightarrow> bool" where
  "dtlock_is_cpu_blockable d cpu = (item_flags (items d ! cpu) AND DTLOCK_FLAGS_NONBLOCK = 0)"

definition dtlock_requires_external :: "dtlock \<Rightarrow> nat \<Rightarrow> bool" where
  "dtlock_requires_external d cpu = (item_flags (items d ! cpu) AND DTLOCK_FLAGS_EXTERNAL = 0)"

text \<open>The server collects the registered waiters. Every round moves \<open>next\<close> on by one, and only
  the slots of the wait queue can be registered: \<open>size\<close> rounds are enough.\<close>

fun dtlock_update_waiters_loop :: "nat \<Rightarrow> dtlock \<Rightarrow> cpu_bitset \<Rightarrow> nat \<Rightarrow> (dtlock \<times> cpu_bitset \<times> nat) option" where
  "dtlock_update_waiters_loop 0 d bs waiters = (if dtlock_empty d then Some (d, bs, waiters) else None)"
| "dtlock_update_waiters_loop (Suc n) d bs waiters =
     (if dtlock_empty d then Some (d, bs, waiters)
      else let cpu = dtlock_front d
           in if cpu_bitset_isset bs cpu then None
              else case dtlock_popfront_wait d cpu of
                     None \<Rightarrow> None
                   | Some d' \<Rightarrow> dtlock_update_waiters_loop n d' (cpu_bitset_set bs cpu) (waiters + 1))"

definition dtlock_update_waiters :: "dtlock \<Rightarrow> cpu_bitset \<Rightarrow> (dtlock \<times> cpu_bitset \<times> nat) option" where
  "dtlock_update_waiters d bs = dtlock_update_waiters_loop (dt_size d) d bs (cpu_bitset_count bs)"

subsection \<open>The waiters of the first queue\<close>

text \<open>The CPUs in \<open>regs\<close> are registered, in the order of their tickets, from the ticket \<open>next\<close> on; every
  other slot holds the value of an older ticket.\<close>

definition registered :: "dtlock \<Rightarrow> nat list \<Rightarrow> bool" where
  "registered d regs =
     (length (waitqueue d) = dt_size d \<and> length (items d) = dt_size d \<and> length regs \<le> dt_size d \<and>
      (\<forall>c \<in> set regs. c < dt_size d) \<and>
      (\<forall>k < dt_size d. if k < length regs then wq_cpu d (slot d (dt_next d + k)) = dt_next d + k + regs ! k
                      else wq_cpu d (slot d (dt_next d + k)) < dt_next d + k))"

lemma popfront_fields [simp]:
  "dt_size (dtlock_popfront d) = dt_size d" "dt_head (dtlock_popfront d) = dt_head d"
  "dt_next (dtlock_popfront d) = Suc (dt_next d)" "items (dtlock_popfront d) = items d"
  "length (waitqueue (dtlock_popfront d)) = length (waitqueue d)"
  "slot (dtlock_popfront d) t = slot d t"
  by (simp_all add: dtlock_popfront_def Let_def slot_def)

lemma popfront_wq_cpu [simp]: "wq_cpu (dtlock_popfront d) i = wq_cpu d i"
  by (cases "i = slot d (dt_next d)"; cases "i < length (waitqueue d)")
    (simp_all add: dtlock_popfront_def wq_cpu_def Let_def list_update_beyond)

lemma popfront_wait_Some:
  assumes "cpu < dt_size d"
  obtains d' where "dtlock_popfront_wait d cpu = Some d'"
    "dt_size d' = dt_size d" "dt_head d' = dt_head d" "dt_next d' = Suc (dt_next d)"
    "waitqueue d' = waitqueue (dtlock_popfront d)" "cpu_sleep_vars d' = cpu_sleep_vars d"
    "items d' = (items d)[cpu := (items d ! cpu) \<lparr> item_flags := node_flags (waitqueue d ! slot d (dt_next d)),
        item_ticket := dt_next d \<rparr>]"
  by (rule that [of "the (dtlock_popfront_wait d cpu)"])
    (use assms in \<open>simp_all add: dtlock_popfront_wait_def dtlock_popfront_def Let_def slot_def\<close>)

lemma registered_front:
  assumes "registered d (c # regs)"
  shows "\<not> dtlock_empty d" "dtlock_front d = c" "c < dt_size d"
proof -
  from assms have "wq_cpu d (slot d (dt_next d)) = dt_next d + c" "c < dt_size d"
    unfolding registered_def by (auto dest: spec [of _ 0])
  then show "\<not> dtlock_empty d" "dtlock_front d = c" "c < dt_size d"
    by (simp_all add: dtlock_empty_def dtlock_front_def)
qed

lemma registered_Nil: "registered d [] \<Longrightarrow> 0 < dt_size d \<Longrightarrow> dtlock_empty d"
  by (auto simp: registered_def dtlock_empty_def dest: spec [of _ 0])

lemma registered_popfront:
  assumes "registered d (c # regs)" "dtlock_popfront_wait d c = Some d'"
  shows "registered d' regs"
proof -
  let ?n = "dt_size d"
  have c: "c < ?n" using registered_front [OF assms(1)] by simp
  obtain d'' where d: "dtlock_popfront_wait d c = Some d''" "dt_size d'' = ?n" "dt_next d'' = Suc (dt_next d)"
    "waitqueue d'' = waitqueue (dtlock_popfront d)" "length (items d'') = length (items d)"
    using popfront_wait_Some [OF c] by (metis length_list_update)
  have d': "d' = d''" using assms(2) d(1) by simp
  have wq: "wq_cpu d'' i = wq_cpu d i" for i using popfront_wq_cpu [of d i] by (simp add: wq_cpu_def d' d)
  have old: "if k < length (c # regs) then wq_cpu d (slot d (dt_next d + k)) = dt_next d + k + (c # regs) ! k
      else wq_cpu d (slot d (dt_next d + k)) < dt_next d + k" if "k < ?n" for k
    using assms(1) that by (simp add: registered_def)
  have new: "if k < length regs then wq_cpu d' (slot d' (dt_next d' + k)) = dt_next d' + k + regs ! k
      else wq_cpu d' (slot d' (dt_next d' + k)) < dt_next d' + k" if "k < ?n" for k
  proof (cases "Suc k < ?n")
    case True
    with old [OF True] show ?thesis by (auto simp: wq slot_def d' d)
  next
    case False
    then have k: "Suc k = ?n" using that by simp
    have "length regs \<le> k" using assms(1) k by (simp add: registered_def)
    moreover have "Suc (dt_next d + k) mod ?n = dt_next d mod ?n"
      by (metis k add_Suc_right mod_add_self2)
    ultimately show ?thesis using old [of 0] c k by (simp add: wq slot_def d' d)
  qed
  have "length (waitqueue d') = ?n" "length (items d') = ?n" "dt_size d' = ?n"
    using assms(1) by (simp_all add: registered_def d' d)
  then show ?thesis using assms(1) new by (simp add: registered_def)
qed

lemma update_waiters_loop:
  assumes "registered d regs" "0 < dt_size d" "length regs \<le> n" "cpu_bitset_inv bs" "distinct regs"
    "\<forall>c \<in> set regs. c < bs_size bs \<and> c \<notin> set (cpu_members bs)"
  shows "\<exists>d' bs'. dtlock_update_waiters_loop n d bs w = Some (d', bs', w + length regs) \<and>
    cpu_bitset_inv bs' \<and> bs_size bs' = bs_size bs \<and> set (cpu_members bs') = set (cpu_members bs) \<union> set regs \<and>
    registered d' [] \<and> dt_next d' = dt_next d + length regs \<and> dt_size d' = dt_size d"
  using assms
proof (induction regs arbitrary: d bs w n)
  case Nil
  then show ?case using registered_Nil [of d] by (cases n) auto
next
  case (Cons c regs)
  note f = registered_front [OF Cons.prems(1)]
  obtain m where n: "n = Suc m" "length regs \<le> m" using Cons.prems(3) by (cases n) auto
  obtain d1 where d1: "dtlock_popfront_wait d c = Some d1" "dt_size d1 = dt_size d" "dt_next d1 = Suc (dt_next d)"
    using popfront_wait_Some [OF f(3)] by metis
  have c: "c < bs_size bs" "c \<notin> set (cpu_members bs)" using Cons.prems(6) by auto
  note add = cb.add_law [OF Cons.prems(4) c(1)]
  have "\<exists>d' bs'. dtlock_update_waiters_loop m d1 (cpu_bitset_set bs c) (Suc w) = Some (d', bs', Suc w + length regs) \<and>
    cpu_bitset_inv bs' \<and> bs_size bs' = bs_size (cpu_bitset_set bs c) \<and>
    set (cpu_members bs') = set (cpu_members (cpu_bitset_set bs c)) \<union> set regs \<and>
    registered d' [] \<and> dt_next d' = dt_next d1 + length regs \<and> dt_size d' = dt_size d1"
    by (rule Cons.IH) (use Cons.prems n add registered_popfront [OF Cons.prems(1) d1(1)] d1(2) in auto)
  then show ?case using f n c d1 add cb.isset_law [OF c(1)] by auto
qed

subsection \<open>Properties of the lock's server side\<close>

lemmas dt_flags = DTLOCK_FLAGS_NONE_def DTLOCK_FLAGS_NONBLOCK_def DTLOCK_FLAGS_EXTERNAL_def

text \<open>\<open>dtlock_update_waiters\<close> returns, and it moves exactly the registered CPUs, each once, from the
  wait queue into the waiters mask; the count it returns is the number of CPUs in the mask, and
  afterwards the wait queue is empty.\<close>

theorem dtlock_update_waiters_collects:
  assumes "registered d regs" "0 < dt_size d" "cpu_bitset_inv bs" "distinct regs"
    "\<forall>c \<in> set regs. c < bs_size bs \<and> c \<notin> set (cpu_members bs)"
  shows "\<exists>d' bs'. dtlock_update_waiters d bs = Some (d', bs', cpu_bitset_count bs') \<and>
    cpu_bitset_inv bs' \<and> set (cpu_members bs') = set (cpu_members bs) \<union> set regs \<and>
    dtlock_empty d' \<and> dt_next d' = dt_next d + length regs"
proof -
  have "length regs \<le> dt_size d" using assms(1) by (simp add: registered_def)
  from update_waiters_loop [OF assms(1,2) this assms(3-5)] obtain d' bs' where
    r: "dtlock_update_waiters d bs = Some (d', bs', cpu_bitset_count bs + length regs)"
    and i: "cpu_bitset_inv bs'" and m: "set (cpu_members bs') = set (cpu_members bs) \<union> set regs"
    and e: "registered d' []" "dt_next d' = dt_next d + length regs" "dt_size d' = dt_size d"
    unfolding dtlock_update_waiters_def by blast
  have "card (set (cpu_members bs) \<union> set regs) = card (set (cpu_members bs)) + card (set regs)"
    using assms(5) by (intro card_Un_disjoint) auto
  then have "cpu_bitset_count bs' = cpu_bitset_count bs + length regs"
    using cb.count_card [OF i] cb.count_card [OF assms(3)] assms(4) m by (simp add: distinct_card)
  then show ?thesis using r i m e registered_Nil [OF e(1)] assms(2) by auto
qed

theorem dtlock_update_waiters_collects_witness:
  "\<exists>d' bs'. dtlock_update_waiters
      (dtlock_register (dtlock_init (replicate 4 zero_item) 4) 5 2 0) \<lparr> bits = [1, 0, 0, 0], bs_size = 4 \<rparr> =
    Some (d', bs', cpu_bitset_count bs') \<and> set (cpu_members bs') = {0, 2}"
proof -
  let ?d = "dtlock_register (dtlock_init (replicate 4 zero_item) 4) 5 2 0"
  have "(\<forall>k < 4. P k) = (P 0 \<and> P 1 \<and> P 2 \<and> P (3 :: nat))" for P
    by (simp add: numeral_eq_Suc All_less_Suc) blast
  then have r: "registered ?d [2]"
    by (simp add: registered_def dtlock_register_def dtlock_init_def slot_def wq_cpu_def Let_def)
  have s: "0 < dt_size ?d" by (simp add: dtlock_register_def dtlock_init_def Let_def)
  have i: "cpu_bitset_inv \<lparr> bits = [1, 0, 0, 0], bs_size = 4 \<rparr>" by code_simp
  have m: "cpu_members \<lparr> bits = [1, 0, 0, 0], bs_size = 4 \<rparr> = [0]" by code_simp
  from dtlock_update_waiters_collects [OF r s i] m show ?thesis by auto
qed

text \<open>The blocking and external modes a thread asks for travel through the wait queue to the
  item of its CPU: after the server has moved the thread, \<open>dtlock_is_cpu_blockable\<close> and
  \<open>dtlock_requires_external\<close> return exactly those modes.\<close>

theorem dtlock_flags_transfer:
  assumes "length (waitqueue d) = dt_size d" "length (items d) = dt_size d" "cpu < dt_size d"
    and "dtlock_popfront_wait (dtlock_register d (dt_next d) cpu (wait_flags blocking external)) cpu = Some d'"
  shows "dtlock_is_cpu_blockable d' cpu = blocking \<and> dtlock_requires_external d' cpu = external"
proof -
  have "slot d (dt_next d) < length (waitqueue d)" using assms(1,3) by (simp add: slot_def)
  moreover have "slot (dtlock_register d t c f) u = slot d u" "dt_next (dtlock_register d t c f) = dt_next d" for t c f u
    by (simp_all add: dtlock_register_def slot_def)
  ultimately have "item_flags (items d' ! cpu) = wait_flags blocking external"
    using assms by (auto simp: dtlock_popfront_wait_def Let_def) (simp add: dtlock_register_def)
  then show ?thesis
    by (simp add: dtlock_is_cpu_blockable_def dtlock_requires_external_def wait_flags_def dt_flags)
qed

theorem dtlock_flags_transfer_witness:
  "dtlock_is_cpu_blockable (the (dtlock_popfront_wait (dtlock_register (dtlock_init (replicate 4 zero_item) 4) 5 2
     (wait_flags False True)) 2)) 2 = False"
proof -
  let ?d = "dtlock_init (replicate 4 zero_item) 4"
  have "dt_next ?d = 5" "dt_size ?d = 4" "length (waitqueue ?d) = 4" "length (items ?d) = 4"
    by (simp_all add: dtlock_init_def Let_def)
  moreover have "dtlock_popfront_wait (dtlock_register ?d 5 2 (wait_flags False True)) 2 =
     Some (the (dtlock_popfront_wait (dtlock_register ?d 5 2 (wait_flags False True)) 2))"
    by (simp add: dtlock_popfront_wait_def dtlock_register_def dtlock_init_def Let_def)
  ultimately show ?thesis using dtlock_flags_transfer [of ?d 2 False True] by simp
qed

text \<open>The sleep of a CPU and the wake-up of the server commute: in either order both calls
  succeed, the futex is back at its initial value, and the CPU is put to sleep exactly when it
  is woken afterwards. No wake-up is lost.\<close>

theorem nosv_futex_no_lost_wakeup:
  "(\<exists>m. nosv_futex_wait nosv_futex_init = Some (m, True) \<and> nosv_futex_signal m = Some (nosv_futex_init, True)) \<and>
   (\<exists>m. nosv_futex_signal nosv_futex_init = Some (m, False) \<and> nosv_futex_wait m = Some (nosv_futex_init, False))"
  by (simp add: nosv_futex_wait_def nosv_futex_signal_def nosv_futex_init_def)

text \<open>An item is in step when its visible 31-bit signal counter is its own counter.\<close>

definition in_step :: "dtlock_item \<Rightarrow> bool" where
  "in_step i = (signal_cnt i = unat (item_next i) mod 2 ^ 31)"

lemma word_succ_mod: "unat ((n :: u32) + 1) mod 2 ^ 31 \<noteq> unat n mod 2 ^ 31"
proof -
  have "unat (n + 1) = Suc (unat n) mod 2 ^ 32" by (simp add: unat_word_ariths)
  then have "unat (n + 1) mod 2 ^ 31 = Suc (unat n) mod 2 ^ 31"
    by (simp only: mod_mod_cancel le_imp_power_dvd)
  then show ?thesis by (simp add: mod_Suc)
qed

text \<open>Serving a CPU without waking it (an item, or the order to sleep) always changes the signal
  counter the CPU spins on, also when the counters wrap around; it stores the item and its
  execution number, and it changes no other CPU's item.\<close>

theorem dtlock_serve_signals:
  assumes "cpu < dt_size d" "length (items d) = dt_size d" "in_step (items d ! cpu)" "sig \<noteq> DTLOCK_SIGNAL_WAKE"
  shows "\<exists>d'. dtlock_serve d cpu it n sig = Some d' \<and>
    signal_cnt (items d' ! cpu) \<noteq> signal_cnt (items d ! cpu) \<and>
    item_ptr (items d' ! cpu) = it \<and> item_count (items d' ! cpu) = n \<and>
    signal_sleep (items d' ! cpu) = (sig = DTLOCK_SIGNAL_SLEEP) \<and> in_step (items d' ! cpu) \<and>
    (\<forall>c. c \<noteq> cpu \<longrightarrow> items d' ! c = items d ! c)"
  using assms word_succ_mod [of "item_next (items d ! cpu)"]
  by (cases sig) (auto simp: dtlock_serve_def Let_def in_step_def)

theorem dtlock_serve_signals_witness:
  "\<exists>d'. dtlock_serve (dtlock_init (replicate 4 zero_item) 4) 3 (ItemTask 7) 1 DTLOCK_SIGNAL_DEFAULT =
    Some d' \<and> signal_cnt (items d' ! 3) \<noteq> 0 \<and> item_ptr (items d' ! 3) = ItemTask 7"
proof -
  let ?d = "dtlock_init (replicate 4 zero_item) 4"
  have s: "dt_size ?d = 4" "length (items ?d) = 4" "signal_cnt (items ?d ! 3) = 0" "in_step (items ?d ! 3)"
    by (simp_all add: dtlock_init_def zero_item_def Let_def in_step_def)
  then show ?thesis
    using dtlock_serve_signals [of 3 ?d DTLOCK_SIGNAL_DEFAULT "ItemTask 7" 1] by auto
qed

text \<open>\<open>dtlock_init\<close> does not initialise \<open>next\<close>: with a left-over value of \<open>2^31 - 1\<close> in the allocated
  memory, the first serve leaves the signal counter as it was, and the CPU would spin forever.\<close>

theorem dtlock_init_next_uninitialised:
  "\<exists>mem d'. length mem = 4 \<and> dtlock_serve (dtlock_init mem 4) 0 (ItemTask t) 1 DTLOCK_SIGNAL_DEFAULT = Some d' \<and>
     signal_cnt (items d' ! 0) = signal_cnt (items (dtlock_init mem 4) ! 0)"
proof -
  let ?i = "\<lparr> item_ticket = 0, item_ptr = ItemNull, item_count = 0, item_next = 2147483647,
      signal_sleep = False, signal_cnt = 0, item_flags = 0 \<rparr>"
  show ?thesis
    by (rule exI [of _ "replicate 4 ?i"]) (simp add: dtlock_serve_def dtlock_init_def Let_def)
qed

end
