(* ===== verification/Governor.thy ===== *)
theory Governor
  imports Dtlock
begin

section \<open>The power governor (scheduler/governor.c, governor.h)\<close>

text \<open>
  The governor keeps two CPU sets: the CPUs that spin in the delegation lock (\<open>waiters\<close>) and the CPUs
  that sleep on their futex (\<open>sleepers\<close>). Every function of \<^verbatim>\<open>governor.c\<close> is one definition on the pair
  of the governor and the lock; the loops over a CPU set are \<open>cpu_bitset_foreach\<close>, whose meaning comes
  from the interface \<open>cpu_set\<close>. The number of CPUs, the configured policy and the process a CPU runs
  (\<open>cpu_get_pid\<close>) are arguments. \<open>governor_inv\<close> says that the two sets are disjoint and that every CPU of
  them can be served; every operation keeps it.
\<close>

record governor =
  waiters :: cpu_bitset
  sleepers :: cpu_bitset
  spins :: u64
  cpu_spin_counter :: "u64 list"

definition UINT64_MAX :: u64 where "UINT64_MAX = - 1"

definition governor_init :: "nat \<Rightarrow> string \<Rightarrow> u64 \<Rightarrow> governor \<Rightarrow> governor option" where
  "governor_init actual_cpus policy governor_spins g =
     (case cpu_bitset_init (sleepers g) actual_cpus of None \<Rightarrow> None | Some s \<Rightarrow>
      case cpu_bitset_init (waiters g) actual_cpus of None \<Rightarrow> None | Some w \<Rightarrow>
        (let g1 = g \<lparr> sleepers := s, waiters := w,
                      cpu_spin_counter := replicate actual_cpus 0 @ drop actual_cpus (cpu_spin_counter g) \<rparr>
         in if policy = ''hybrid'' then Some (g1 \<lparr> spins := governor_spins \<rparr>)
            else if policy = ''idle'' then Some (g1 \<lparr> spins := 0 \<rparr>)
            else assert_then (policy = ''busy'') (Some (g1 \<lparr> spins := UINT64_MAX \<rparr>))))"

definition governor_served :: "governor \<Rightarrow> nat \<Rightarrow> governor \<times> bool" where
  "governor_served g cpu =
     (if cpu_bitset_isset (waiters g) cpu
      then (g \<lparr> waiters := cpu_bitset_clear (waiters g) cpu,
                cpu_spin_counter := (cpu_spin_counter g)[cpu := 0] \<rparr>, False)
      else (g \<lparr> sleepers := cpu_bitset_clear (sleepers g) cpu \<rparr>, True))"

definition governor_sleep_cpu :: "governor \<Rightarrow> nat \<Rightarrow> dtlock \<Rightarrow> (governor \<times> dtlock) option" where
  "governor_sleep_cpu g waiter d =
     (case dtlock_serve d waiter ItemNull 0 DTLOCK_SIGNAL_SLEEP of
        None \<Rightarrow> None
      | Some d' \<Rightarrow>
          (let g' = fst (governor_served g waiter)
           in Some (g' \<lparr> sleepers := cpu_bitset_set (sleepers g') waiter \<rparr>, d')))"

text \<open>A serve followed by \<open>governor_served\<close>, the pair of calls most functions make.\<close>

definition serve_and_forget :: "governor \<Rightarrow> dtlock \<Rightarrow> nat \<Rightarrow> dt_item \<Rightarrow> dtlock_signal \<Rightarrow> (governor \<times> dtlock) option" where
  "serve_and_forget g d cpu it sig =
     (case dtlock_serve d cpu it 0 sig of
        None \<Rightarrow> None
      | Some d' \<Rightarrow> Some (fst (governor_served g cpu), d'))"

definition apply_policy_body :: "nat \<Rightarrow> (governor \<times> dtlock) option \<Rightarrow> (governor \<times> dtlock) option" where
  "apply_policy_body cpu st =
     (case st of None \<Rightarrow> None | Some (g, d) \<Rightarrow>
        if \<not> dtlock_is_cpu_blockable d cpu
        then serve_and_forget g d cpu ItemNull DTLOCK_SIGNAL_DEFAULT
        else (let n = cpu_spin_counter g ! cpu + 1;
                  g' = g \<lparr> cpu_spin_counter := (cpu_spin_counter g)[cpu := n] \<rparr>
              in if n > spins g then governor_sleep_cpu g' cpu d else Some (g', d)))"

definition no_cpus :: cpu_bitset where "no_cpus = \<lparr> bits = [], bs_size = 0 \<rparr>"

definition waiters_of :: "(governor \<times> dtlock) option \<Rightarrow> cpu_bitset" where
  "waiters_of st = (case st of None \<Rightarrow> no_cpus | Some (g, d) \<Rightarrow> waiters g)"

definition sleepers_of :: "(governor \<times> dtlock) option \<Rightarrow> cpu_bitset" where
  "sleepers_of st = (case st of None \<Rightarrow> no_cpus | Some (g, d) \<Rightarrow> sleepers g)"

definition governor_apply_policy :: "governor \<Rightarrow> dtlock \<Rightarrow> (governor \<times> dtlock) option" where
  "governor_apply_policy g d =
     (case cpu_bitset_foreach waiters_of apply_policy_body (Some (g, d)) of None \<Rightarrow> None | Some st \<Rightarrow> st)"

definition governor_wake_one :: "governor \<Rightarrow> dtlock \<Rightarrow> (governor \<times> dtlock) option" where
  "governor_wake_one g d =
     (let candidate = cpu_bitset_ffs (waiters g)
      in if candidate \<ge> 0 then serve_and_forget g d (nat candidate) ItemRetry DTLOCK_SIGNAL_DEFAULT
         else let candidate = cpu_bitset_ffs (sleepers g)
              in if candidate \<ge> 0 then serve_and_forget g d (nat candidate) ItemRetry DTLOCK_SIGNAL_WAKE
                 else Some (g, d))"

definition shutdown_body :: "(nat \<Rightarrow> int) \<Rightarrow> int \<Rightarrow> dtlock_signal \<Rightarrow> nat \<Rightarrow> (governor \<times> dtlock) option \<Rightarrow>
    (governor \<times> dtlock) option" where
  "shutdown_body cpu_get_pid p sig cpu st =
     (case st of None \<Rightarrow> None | Some (g, d) \<Rightarrow>
        if cpu_get_pid cpu = p then serve_and_forget g d cpu ItemNull sig else Some (g, d))"

definition governor_shutdown_process :: "(nat \<Rightarrow> int) \<Rightarrow> governor \<Rightarrow> int \<Rightarrow> dtlock \<Rightarrow> (governor \<times> dtlock) option" where
  "governor_shutdown_process cpu_get_pid g p d =
     (case cpu_bitset_foreach waiters_of (shutdown_body cpu_get_pid p DTLOCK_SIGNAL_DEFAULT) (Some (g, d)) of
        None \<Rightarrow> None
      | Some st \<Rightarrow>
          (case cpu_bitset_foreach sleepers_of (shutdown_body cpu_get_pid p DTLOCK_SIGNAL_WAKE) st of
             None \<Rightarrow> None | Some st' \<Rightarrow> st'))"

definition governor_update_cpumasks :: "governor \<Rightarrow> dtlock \<Rightarrow> (governor \<times> dtlock \<times> nat) option" where
  "governor_update_cpumasks g d =
     (case dtlock_update_waiters d (waiters g) of
        None \<Rightarrow> None
      | Some (d', w, nwaiters) \<Rightarrow>
          Some (g \<lparr> waiters := w \<rparr>, d', nwaiters + cpu_bitset_count (sleepers g)))"

subsection \<open>The invariant\<close>

definition governor_inv :: "governor \<Rightarrow> dtlock \<Rightarrow> bool" where
  "governor_inv g d =
     (cpu_bitset_inv (waiters g) \<and> cpu_bitset_inv (sleepers g) \<and>
      bs_size (waiters g) = bs_size (sleepers g) \<and> bs_size (waiters g) \<le> dt_size d \<and>
      bs_size (waiters g) \<le> length (cpu_spin_counter g) \<and>
      length (items d) = dt_size d \<and> length (cpu_sleep_vars d) = dt_size d \<and>
      set (cpu_members (waiters g)) \<inter> set (cpu_members (sleepers g)) = {} \<and>
      (\<forall>c \<in> set (cpu_members (waiters g)) \<union> set (cpu_members (sleepers g)).
         cpu_sleep_vars d ! c \<in> {0, 1}))"

text \<open>What a serve changes, for the invariant: nothing but the items and, for a wake-up, the futex.\<close>

lemma dtlock_serve_frame:
  assumes "dtlock_serve d cpu it n sig = Some d'"
  shows "dt_size d' = dt_size d" "length (items d') = length (items d)"
    "length (cpu_sleep_vars d') = length (cpu_sleep_vars d)" "waitqueue d' = waitqueue d"
    "dt_next d' = dt_next d"
    "item_flags (items d' ! c) = item_flags (items d ! c)"
    "c \<noteq> cpu \<Longrightarrow> cpu_sleep_vars d' ! c = cpu_sleep_vars d ! c"
    "c \<noteq> cpu \<Longrightarrow> items d' ! c = items d ! c"
    "sig \<noteq> DTLOCK_SIGNAL_WAKE \<Longrightarrow> cpu_sleep_vars d' = cpu_sleep_vars d"
  using assms
  by (cases "c = cpu"; cases "cpu < length (items d)"; cases sig;
      auto simp: dtlock_serve_def Let_def list_update_beyond)+

lemma dtlock_serve_Some:
  assumes "cpu < dt_size d" "cpu_sleep_vars d ! cpu \<in> {0, 1}"
  shows "\<exists>d'. dtlock_serve d cpu it n sig = Some d' \<and>
    (length (items d) = dt_size d \<longrightarrow> item_ptr (items d' ! cpu) = it \<and> item_count (items d' ! cpu) = n)"
  using assms by (cases sig) (auto simp: dtlock_serve_def nosv_futex_signal_def Let_def)

lemma governor_served_inv:
  assumes "governor_inv g d" "cpu < bs_size (waiters g)"
  shows "set (cpu_members (waiters (fst (governor_served g cpu)))) = set (cpu_members (waiters g)) - {cpu}"
    and "cpu \<in> set (cpu_members (waiters g)) \<Longrightarrow>
      set (cpu_members (sleepers (fst (governor_served g cpu)))) = set (cpu_members (sleepers g))"
    and "cpu \<notin> set (cpu_members (waiters g)) \<Longrightarrow>
      set (cpu_members (sleepers (fst (governor_served g cpu)))) = set (cpu_members (sleepers g)) - {cpu}"
    and "governor_inv (fst (governor_served g cpu)) d"
    and "spins (fst (governor_served g cpu)) = spins g"
    and "c \<noteq> cpu \<Longrightarrow> cpu_spin_counter (fst (governor_served g cpu)) ! c = cpu_spin_counter g ! c"
    and "bs_size (waiters (fst (governor_served g cpu))) = bs_size (waiters g)"
    and "snd (governor_served g cpu) = (cpu \<notin> set (cpu_members (waiters g)))"
proof -
  have i: "cpu_bitset_inv (waiters g)" "cpu_bitset_inv (sleepers g)" "cpu < bs_size (sleepers g)"
    using assms by (auto simp: governor_inv_def)
  note r = cb.remove_law [OF i(1) assms(2)] cb.remove_law [OF i(2,3)] cb.isset_law [OF assms(2)]
  show "set (cpu_members (waiters (fst (governor_served g cpu)))) = set (cpu_members (waiters g)) - {cpu}"
    "cpu \<in> set (cpu_members (waiters g)) \<Longrightarrow>
      set (cpu_members (sleepers (fst (governor_served g cpu)))) = set (cpu_members (sleepers g))"
    "cpu \<notin> set (cpu_members (waiters g)) \<Longrightarrow>
      set (cpu_members (sleepers (fst (governor_served g cpu)))) = set (cpu_members (sleepers g)) - {cpu}"
    "spins (fst (governor_served g cpu)) = spins g"
    "c \<noteq> cpu \<Longrightarrow> cpu_spin_counter (fst (governor_served g cpu)) ! c = cpu_spin_counter g ! c"
    "bs_size (waiters (fst (governor_served g cpu))) = bs_size (waiters g)"
    "snd (governor_served g cpu) = (cpu \<notin> set (cpu_members (waiters g)))"
    using r by (auto simp: governor_served_def)
  show "governor_inv (fst (governor_served g cpu)) d"
    using assms(1) r by (auto simp: governor_served_def governor_inv_def)
qed

lemma governor_inv_lock:
  assumes "governor_inv g d" "dt_size d' = dt_size d" "length (items d') = length (items d)"
    "length (cpu_sleep_vars d') = length (cpu_sleep_vars d)"
    "\<And>c. c \<in> set (cpu_members (waiters g)) \<union> set (cpu_members (sleepers g)) \<Longrightarrow>
      cpu_sleep_vars d' ! c = cpu_sleep_vars d ! c"
  shows "governor_inv g d'"
  using assms by (auto simp: governor_inv_def)

text \<open>Serving a CPU that waits or sleeps: it leaves both sets, and the invariant holds again.\<close>

lemma serve_and_forget_inv:
  assumes "governor_inv g d" "cpu \<in> set (cpu_members (waiters g)) \<union> set (cpu_members (sleepers g))"
    and "sig = DTLOCK_SIGNAL_WAKE \<Longrightarrow> cpu \<in> set (cpu_members (sleepers g))"
  obtains g' d' where "serve_and_forget g d cpu it sig = Some (g', d')" "governor_inv g' d'"
    "set (cpu_members (waiters g')) = set (cpu_members (waiters g)) - {cpu}"
    "set (cpu_members (sleepers g')) = set (cpu_members (sleepers g)) - {cpu}"
    "bs_size (waiters g') = bs_size (waiters g)" "spins g' = spins g"
    "\<And>c. c \<noteq> cpu \<Longrightarrow> cpu_spin_counter g' ! c = cpu_spin_counter g ! c"
    "\<And>c. item_flags (items d' ! c) = item_flags (items d ! c)"
    "item_ptr (items d' ! cpu) = it" "\<And>c. c \<noteq> cpu \<Longrightarrow> items d' ! c = items d ! c"
proof -
  have cpu: "cpu < bs_size (waiters g)" "cpu < dt_size d" "cpu_sleep_vars d ! cpu \<in> {0, 1}"
    using assms(1,2) cb.members_cap [of cpu "waiters g"] cb.members_cap [of cpu "sleepers g"]
    by (auto simp: governor_inv_def)
  obtain d' where d': "dtlock_serve d cpu it 0 sig = Some d'" "item_ptr (items d' ! cpu) = it"
    using dtlock_serve_Some [OF cpu(2,3)] assms(1) by (fastforce simp: governor_inv_def)
  note f = dtlock_serve_frame [OF d'(1)]
  let ?g = "fst (governor_served g cpu)"
  note s = governor_served_inv [OF assms(1) cpu(1)]
  have disj: "set (cpu_members (waiters g)) \<inter> set (cpu_members (sleepers g)) = {}"
    using assms(1) by (simp add: governor_inv_def)
  have sl: "set (cpu_members (sleepers ?g)) = set (cpu_members (sleepers g)) - {cpu}"
    using s(2,3) disj by (cases "cpu \<in> set (cpu_members (waiters g))") auto
  have "governor_inv ?g d'"
    by (rule governor_inv_lock [OF s(4) f(1-3)]) (use s(1) sl f(7) in auto)
  then show thesis
    using that [of ?g d'] d' f s sl by (simp add: serve_and_forget_def)
qed

lemma sleep_cpu_inv:
  assumes "governor_inv g d" "cpu \<in> set (cpu_members (waiters g))"
  obtains g' d' where "governor_sleep_cpu g cpu d = Some (g', d')" "governor_inv g' d'"
    "set (cpu_members (waiters g')) = set (cpu_members (waiters g)) - {cpu}"
    "set (cpu_members (sleepers g')) = insert cpu (set (cpu_members (sleepers g)))"
    "bs_size (waiters g') = bs_size (waiters g)" "spins g' = spins g"
    "\<And>c. c \<noteq> cpu \<Longrightarrow> cpu_spin_counter g' ! c = cpu_spin_counter g ! c"
    "\<And>c. item_flags (items d' ! c) = item_flags (items d ! c)"
    "\<And>c. c \<noteq> cpu \<Longrightarrow> items d' ! c = items d ! c"
proof -
  have cpu: "cpu < bs_size (waiters g)" "cpu < dt_size d" "cpu_sleep_vars d ! cpu \<in> {0, 1}"
    using assms cb.members_cap [of cpu "waiters g"] by (auto simp: governor_inv_def)
  obtain d' where d': "dtlock_serve d cpu ItemNull 0 DTLOCK_SIGNAL_SLEEP = Some d'"
    using dtlock_serve_Some [OF cpu(2,3)] by blast
  note f = dtlock_serve_frame [OF d']
  let ?g = "fst (governor_served g cpu)"
  note s = governor_served_inv [OF assms(1) cpu(1)]
  have i: "cpu_bitset_inv (sleepers ?g)" "cpu < bs_size (sleepers ?g)"
    using s(4) cpu(1) s(7) by (auto simp: governor_inv_def)
  note add = cb.add_law [OF i]
  let ?g' = "?g \<lparr> sleepers := cpu_bitset_set (sleepers ?g) cpu \<rparr>"
  have "governor_inv ?g' d'"
    using s(1,2,4) add f(1-3) f(9) cpu(3) assms by (auto simp: governor_inv_def)
  then show thesis
    using that [of ?g' d'] d' f s add assms(2) by (simp add: governor_sleep_cpu_def Let_def)
qed

subsection \<open>Applying the policy\<close>

text \<open>The decision for a waiting CPU, taken from the state before the loop.\<close>

definition goes_to_sleep :: "governor \<Rightarrow> dtlock \<Rightarrow> nat \<Rightarrow> bool" where
  "goes_to_sleep g d c = (dtlock_is_cpu_blockable d c \<and> cpu_spin_counter g ! c + 1 > spins g)"

definition stops_waiting :: "governor \<Rightarrow> dtlock \<Rightarrow> nat \<Rightarrow> bool" where
  "stops_waiting g d c = (\<not> dtlock_is_cpu_blockable d c \<or> goes_to_sleep g d c)"

text \<open>What one round for the CPU \<open>c\<close>, or several for the CPUs \<open>cs\<close>, does to the state.\<close>

definition policy_step :: "governor \<Rightarrow> dtlock \<Rightarrow> nat set \<Rightarrow> governor \<Rightarrow> dtlock \<Rightarrow> bool" where
  "policy_step g d cs g' d' =
     (governor_inv g' d' \<and> bs_size (waiters g') = bs_size (waiters g) \<and> spins g' = spins g \<and>
      set (cpu_members (waiters g')) = set (cpu_members (waiters g)) - {c \<in> cs. stops_waiting g d c} \<and>
      set (cpu_members (sleepers g')) = set (cpu_members (sleepers g)) \<union> {c \<in> cs. goes_to_sleep g d c} \<and>
      (\<forall>c. item_flags (items d' ! c) = item_flags (items d ! c)) \<and>
      (\<forall>c. c \<notin> cs \<longrightarrow> cpu_spin_counter g' ! c = cpu_spin_counter g ! c \<and> items d' ! c = items d ! c) \<and>
      (\<forall>c \<in> cs. \<not> dtlock_is_cpu_blockable d c \<longrightarrow> item_ptr (items d' ! c) = ItemNull))"

lemma apply_policy_body_step:
  assumes "governor_inv g d" "c \<in> set (cpu_members (waiters g))"
  shows "\<exists>g' d'. apply_policy_body c (Some (g, d)) = Some (g', d') \<and> policy_step g d {c} g' d'"
proof (cases "dtlock_is_cpu_blockable d c")
  case False
  obtain g' d' where "serve_and_forget g d c ItemNull DTLOCK_SIGNAL_DEFAULT = Some (g', d')" "governor_inv g' d'"
    "set (cpu_members (waiters g')) = set (cpu_members (waiters g)) - {c}"
    "set (cpu_members (sleepers g')) = set (cpu_members (sleepers g)) - {c}"
    "bs_size (waiters g') = bs_size (waiters g)" "spins g' = spins g"
    "\<And>x. x \<noteq> c \<Longrightarrow> cpu_spin_counter g' ! x = cpu_spin_counter g ! x"
    "\<And>x. item_flags (items d' ! x) = item_flags (items d ! x)"
    "item_ptr (items d' ! c) = ItemNull" "\<And>x. x \<noteq> c \<Longrightarrow> items d' ! x = items d ! x"
    by (rule serve_and_forget_inv [OF assms(1), of c DTLOCK_SIGNAL_DEFAULT ItemNull]) (use assms(2) in auto)
  moreover have "c \<notin> set (cpu_members (sleepers g))" using assms by (auto simp: governor_inv_def)
  ultimately show ?thesis
    using False by (auto simp: policy_step_def stops_waiting_def goes_to_sleep_def apply_policy_body_def)
next
  case True
  let ?n = "cpu_spin_counter g ! c + 1"
  let ?g = "g \<lparr> cpu_spin_counter := (cpu_spin_counter g)[c := ?n] \<rparr>"
  have i: "governor_inv ?g d" using assms(1) by (simp add: governor_inv_def)
  show ?thesis
  proof (cases "?n > spins g")
    case sl: True
    obtain g' d' where "governor_sleep_cpu ?g c d = Some (g', d')" "governor_inv g' d'"
      "set (cpu_members (waiters g')) = set (cpu_members (waiters g)) - {c}"
      "set (cpu_members (sleepers g')) = insert c (set (cpu_members (sleepers g)))"
      "bs_size (waiters g') = bs_size (waiters g)" "spins g' = spins g"
      "\<And>x. x \<noteq> c \<Longrightarrow> cpu_spin_counter g' ! x = cpu_spin_counter ?g ! x"
      "\<And>x. item_flags (items d' ! x) = item_flags (items d ! x)"
      "\<And>x. x \<noteq> c \<Longrightarrow> items d' ! x = items d ! x"
      by (rule sleep_cpu_inv [OF i, of c]) (use assms(2) in auto)
    then show ?thesis
      using True sl by (auto simp: policy_step_def stops_waiting_def goes_to_sleep_def apply_policy_body_def Let_def)
  next
    case False
    then show ?thesis
      using True i by (auto simp: policy_step_def stops_waiting_def goes_to_sleep_def apply_policy_body_def Let_def)
  qed
qed

lemma policy_step_decisions:
  assumes "policy_step g d cs g' d'" "c \<notin> cs"
  shows "stops_waiting g' d' c = stops_waiting g d c" "goes_to_sleep g' d' c = goes_to_sleep g d c"
    "dtlock_is_cpu_blockable d' x = dtlock_is_cpu_blockable d x"
  using assms
  by (simp_all add: policy_step_def stops_waiting_def goes_to_sleep_def dtlock_is_cpu_blockable_def)

lemma policy_step_trans:
  assumes "policy_step g d {c} g1 d1" "policy_step g1 d1 cs g2 d2" "c \<notin> cs"
  shows "policy_step g d (insert c cs) g2 d2"
proof -
  have "stops_waiting g1 d1 x = stops_waiting g d x" "goes_to_sleep g1 d1 x = goes_to_sleep g d x" if "x \<in> cs" for x
    using policy_step_decisions [OF assms(1), of x] that assms(3) by auto
  then have "{x \<in> cs. stops_waiting g1 d1 x} = {x \<in> cs. stops_waiting g d x}"
    "{x \<in> cs. goes_to_sleep g1 d1 x} = {x \<in> cs. goes_to_sleep g d x}" by auto
  moreover have "{x \<in> insert c cs. P x} = {x \<in> {c}. P x} \<union> {x \<in> cs. P x}" for P by auto
  moreover have "dtlock_is_cpu_blockable d1 x = dtlock_is_cpu_blockable d x" for x
    using assms(1) by (simp add: policy_step_def dtlock_is_cpu_blockable_def)
  ultimately show ?thesis
    using assms unfolding policy_step_def by (simp add: Diff_eq Int_assoc Un_assoc)
qed

lemma policy_step_refl: "governor_inv g d \<Longrightarrow> policy_step g d {} g d"
  by (simp add: policy_step_def)

lemma apply_policy_fold:
  assumes "governor_inv g d" "set cs \<subseteq> set (cpu_members (waiters g))" "distinct cs"
  shows "\<exists>g' d'. fold apply_policy_body cs (Some (g, d)) = Some (g', d') \<and> policy_step g d (set cs) g' d'"
  using assms
proof (induction cs arbitrary: g d)
  case Nil
  then show ?case by (simp add: policy_step_refl)
next
  case (Cons c cs)
  obtain g1 d1 where s: "apply_policy_body c (Some (g, d)) = Some (g1, d1)" "policy_step g d {c} g1 d1"
    using apply_policy_body_step [of g d c] Cons.prems by auto
  have "set cs \<subseteq> set (cpu_members (waiters g1))" "governor_inv g1 d1"
    using s(2) Cons.prems(2,3) by (auto simp: policy_step_def)
  then obtain g2 d2 where "fold apply_policy_body cs (Some (g1, d1)) = Some (g2, d2)" "policy_step g1 d1 (set cs) g2 d2"
    using Cons.IH [of g1 d1] Cons.prems(3) by auto
  then show ?case using s policy_step_trans [OF s(2)] Cons.prems(3) by auto
qed

text \<open>The loop of the source, which reads the mask it changes, is that fold.\<close>

lemma apply_policy_loop:
  assumes "governor_inv g d"
  shows "governor_apply_policy g d = fold apply_policy_body (cpu_members (waiters g)) (Some (g, d))"
proof -
  let ?I = "\<lambda>st. \<exists>g d. st = Some (g, d) \<and> governor_inv g d"
  have "foreach_loop cpu_bitset_ffs_at NR_CPUS waiters_of apply_policy_body
      (cpu_bitset_ffs (waiters_of (Some (g, d)))) (Some (g, d)) =
    Some (fold apply_policy_body (cpu_members (waiters_of (Some (g, d)))) (Some (g, d)))"
  proof (rule cb.foreach_fold [where I = ?I])
    fix c st assume "?I st" "c \<in> set (cpu_members (waiters_of st))"
    then obtain g d where st: "st = Some (g, d)" "governor_inv g d" "c \<in> set (cpu_members (waiters g))"
      by (auto simp: waiters_of_def)
    obtain g' d' where s: "apply_policy_body c st = Some (g', d')" "policy_step g d {c} g' d'"
      using apply_policy_body_step [OF st(2,3)] st(1) by auto
    then have "filter (\<lambda>x. c < x) (cpu_members (waiters g')) = filter (\<lambda>x. c < x) (cpu_members (waiters g))"
      by (intro cb.members_above_eq) (auto simp: policy_step_def)
    then show "?I (apply_policy_body c st) \<and>
        bs_size (waiters_of (apply_policy_body c st)) = bs_size (waiters_of st) \<and>
        filter (\<lambda>x. c < x) (cpu_members (waiters_of (apply_policy_body c st))) =
        filter (\<lambda>x. c < x) (cpu_members (waiters_of st))"
      using s st(1) by (auto simp: waiters_of_def policy_step_def)
  next
    show "bs_size (waiters_of (Some (g, d))) \<le> NR_CPUS"
      using assms by (simp add: waiters_of_def governor_inv_def cpu_bitset_inv_def)
  qed (use assms in \<open>auto simp: waiters_of_def governor_inv_def\<close>)
  then show ?thesis by (simp add: governor_apply_policy_def cpu_bitset_foreach_def waiters_of_def)
qed

subsection \<open>Shutting a process down\<close>

definition gone_step :: "(nat \<Rightarrow> int) \<Rightarrow> int \<Rightarrow> governor \<Rightarrow> dtlock \<Rightarrow> nat set \<Rightarrow> governor \<Rightarrow> dtlock \<Rightarrow> bool" where
  "gone_step cpu_get_pid p g d cs g' d' =
     (governor_inv g' d' \<and> bs_size (waiters g') = bs_size (waiters g) \<and>
      set (cpu_members (waiters g')) = set (cpu_members (waiters g)) - {c \<in> cs. cpu_get_pid c = p} \<and>
      set (cpu_members (sleepers g')) = set (cpu_members (sleepers g)) - {c \<in> cs. cpu_get_pid c = p} \<and>
      (\<forall>c. item_flags (items d' ! c) = item_flags (items d ! c)) \<and>
      (\<forall>c. c \<notin> cs \<or> cpu_get_pid c \<noteq> p \<longrightarrow> items d' ! c = items d ! c) \<and>
      (\<forall>c \<in> cs. cpu_get_pid c = p \<longrightarrow> item_ptr (items d' ! c) = ItemNull))"

lemma shutdown_body_step:
  assumes "governor_inv g d" "c \<in> set (cpu_members (waiters g)) \<union> set (cpu_members (sleepers g))"
    "sig = DTLOCK_SIGNAL_WAKE \<Longrightarrow> c \<in> set (cpu_members (sleepers g))"
  shows "\<exists>g' d'. shutdown_body f p sig c (Some (g, d)) = Some (g', d') \<and> gone_step f p g d {c} g' d'"
proof (cases "f c = p")
  case True
  obtain g' d' where "serve_and_forget g d c ItemNull sig = Some (g', d')" "governor_inv g' d'"
    "set (cpu_members (waiters g')) = set (cpu_members (waiters g)) - {c}"
    "set (cpu_members (sleepers g')) = set (cpu_members (sleepers g)) - {c}"
    "bs_size (waiters g') = bs_size (waiters g)" "spins g' = spins g"
    "\<And>x. x \<noteq> c \<Longrightarrow> cpu_spin_counter g' ! x = cpu_spin_counter g ! x"
    "\<And>x. item_flags (items d' ! x) = item_flags (items d ! x)"
    "item_ptr (items d' ! c) = ItemNull" "\<And>x. x \<noteq> c \<Longrightarrow> items d' ! x = items d ! x"
    by (rule serve_and_forget_inv [OF assms, where it = ItemNull]) auto
  then show ?thesis using True by (auto simp: gone_step_def shutdown_body_def)
next
  case False
  then show ?thesis using assms(1) by (auto simp: gone_step_def shutdown_body_def)
qed

lemma gone_step_trans:
  assumes "gone_step f p g d {c} g1 d1" "gone_step f p g1 d1 cs g2 d2" "c \<notin> cs"
  shows "gone_step f p g d (insert c cs) g2 d2"
proof -
  have "set (cpu_members (waiters g2)) = set (cpu_members (waiters g)) - {x \<in> insert c cs. f x = p}"
    "set (cpu_members (sleepers g2)) = set (cpu_members (sleepers g)) - {x \<in> insert c cs. f x = p}"
    using assms(1,2) by (auto simp: gone_step_def)
  moreover have "items d2 ! x = items d ! x" if "x \<notin> insert c cs \<or> f x \<noteq> p" for x
  proof -
    have "items d1 ! x = items d ! x" "items d2 ! x = items d1 ! x"
      using assms(1,2) that unfolding gone_step_def by blast+
    then show ?thesis by simp
  qed
  moreover have "item_ptr (items d2 ! c) = ItemNull" if "f c = p"
    using assms that by (simp add: gone_step_def)
  ultimately show ?thesis using assms(1,2) by (simp add: gone_step_def)
qed

text \<open>The two loops differ in the mask they walk through and in the signal they send.\<close>

definition mask_of :: "dtlock_signal \<Rightarrow> governor \<Rightarrow> cpu_bitset" where
  "mask_of sig g = (if sig = DTLOCK_SIGNAL_WAKE then sleepers g else waiters g)"

lemma mask_of_step:
  assumes "gone_step f p g d cs g' d'"
  shows "set (cpu_members (mask_of sig g')) = set (cpu_members (mask_of sig g)) - {c \<in> cs. f c = p}"
    "bs_size (mask_of sig g') = bs_size (mask_of sig g) \<or> \<not> governor_inv g d" "cpu_bitset_inv (mask_of sig g')"
  using assms by (auto simp: gone_step_def mask_of_def governor_inv_def)

lemma shutdown_fold:
  assumes "governor_inv g d" "set cs \<subseteq> set (cpu_members (mask_of sig g))" "distinct cs"
  shows "\<exists>g' d'. fold (shutdown_body f p sig) cs (Some (g, d)) = Some (g', d') \<and> gone_step f p g d (set cs) g' d'"
  using assms
proof (induction cs arbitrary: g d)
  case Nil
  then show ?case by (simp add: gone_step_def)
next
  case (Cons c cs)
  have c: "c \<in> set (cpu_members (waiters g)) \<union> set (cpu_members (sleepers g))"
    "sig = DTLOCK_SIGNAL_WAKE \<Longrightarrow> c \<in> set (cpu_members (sleepers g))"
    using Cons.prems(2) by (auto simp: mask_of_def split: if_splits)
  obtain g1 d1 where s: "shutdown_body f p sig c (Some (g, d)) = Some (g1, d1)" "gone_step f p g d {c} g1 d1"
    using shutdown_body_step [OF Cons.prems(1) c] by blast
  have "set cs \<subseteq> set (cpu_members (mask_of sig g1))" "governor_inv g1 d1"
    using mask_of_step(1) [OF s(2), of sig] s(2) Cons.prems(2,3) by (auto simp: gone_step_def)
  then obtain g2 d2 where "fold (shutdown_body f p sig) cs (Some (g1, d1)) = Some (g2, d2)"
      "gone_step f p g1 d1 (set cs) g2 d2"
    using Cons.IH [of g1 d1] Cons.prems(3) by auto
  then show ?case using s gone_step_trans [OF s(2)] Cons.prems(3) by auto
qed

lemma shutdown_loop:
  assumes "governor_inv g d" and get: "\<And>g d. get (Some (g, d)) = mask_of sig g"
  shows "cpu_bitset_foreach get (shutdown_body f p sig) (Some (g, d)) =
    Some (fold (shutdown_body f p sig) (cpu_members (mask_of sig g)) (Some (g, d)))"
proof -
  let ?I = "\<lambda>st. \<exists>g d. st = Some (g, d) \<and> governor_inv g d"
  let ?b = "shutdown_body f p sig"
  have "foreach_loop cpu_bitset_ffs_at NR_CPUS get ?b (cpu_bitset_ffs (get (Some (g, d)))) (Some (g, d)) =
    Some (fold ?b (cpu_members (get (Some (g, d)))) (Some (g, d)))"
  proof (rule cb.foreach_fold [where I = ?I])
    fix c st assume "?I st" "c \<in> set (cpu_members (get st))"
    then obtain g d where st: "st = Some (g, d)" "governor_inv g d" "c \<in> set (cpu_members (mask_of sig g))"
      by (auto simp: get)
    obtain g' d' where s: "?b c st = Some (g', d')" "gone_step f p g d {c} g' d'"
      using shutdown_body_step [OF st(2), of c sig f p] st(1,3) by (auto simp: mask_of_def split: if_splits)
    then have "filter (\<lambda>x. c < x) (cpu_members (mask_of sig g')) = filter (\<lambda>x. c < x) (cpu_members (mask_of sig g))"
      using mask_of_step(1) [OF s(2), of sig] by (intro cb.members_above_eq) auto
    then show "?I (?b c st) \<and> bs_size (get (?b c st)) = bs_size (get st) \<and>
        filter (\<lambda>x. c < x) (cpu_members (get (?b c st))) = filter (\<lambda>x. c < x) (cpu_members (get st))"
      using s st(1,2) mask_of_step(2) [OF s(2), of sig] by (auto simp: get gone_step_def)
  next
    show "bs_size (get (Some (g, d))) \<le> NR_CPUS"
      using assms(1) by (simp add: get mask_of_def governor_inv_def cpu_bitset_inv_def)
  qed (use assms(1) in \<open>auto simp: get mask_of_def governor_inv_def\<close>)
  then show ?thesis by (simp add: cpu_bitset_foreach_def get)
qed

subsection \<open>The properties of the governor\<close>

text \<open>C32. One pass of the policy decides every waiting CPU by the state before the pass: a
  non-blocking CPU is released with a null item, a blocking CPU whose spin counter passes the
  limit goes to sleep, every other CPU keeps waiting. The sleepers that were there stay.\<close>

theorem governor_apply_policy_decides:
  assumes "governor_inv g d"
  shows "\<exists>g' d'. governor_apply_policy g d = Some (g', d') \<and> governor_inv g' d' \<and>
    set (cpu_members (waiters g')) = {c \<in> set (cpu_members (waiters g)). \<not> stops_waiting g d c} \<and>
    set (cpu_members (sleepers g')) =
      set (cpu_members (sleepers g)) \<union> {c \<in> set (cpu_members (waiters g)). goes_to_sleep g d c} \<and>
    (\<forall>c \<in> set (cpu_members (waiters g)). \<not> dtlock_is_cpu_blockable d c \<longrightarrow> item_ptr (items d' ! c) = ItemNull)"
  using apply_policy_fold [OF assms subset_refl cb.distinct_members] apply_policy_loop [OF assms]
  by (auto simp: policy_step_def)

definition example_governor :: "u64 \<Rightarrow> governor" where
  "example_governor limit =
     \<lparr> waiters = \<lparr> bits = [6, 0, 0, 0], bs_size = 4 \<rparr>, sleepers = \<lparr> bits = [1, 0, 0, 0], bs_size = 4 \<rparr>,
       spins = limit, cpu_spin_counter = [0, 0, 0, 0] \<rparr>"

definition example_lock :: dtlock where
  "example_lock = dtlock_init (replicate 4 zero_item) 4"

lemma example_inv: "governor_inv (example_governor limit) example_lock"
proof -
  have "cpu_members \<lparr> bits = [6, 0, 0, 0], bs_size = 4 \<rparr> = [1, 2]"
    "cpu_members \<lparr> bits = [1, 0, 0, 0], bs_size = 4 \<rparr> = [0]"
    "cpu_bitset_inv \<lparr> bits = [6, 0, 0, 0], bs_size = 4 \<rparr>"
    "cpu_bitset_inv \<lparr> bits = [1, 0, 0, 0], bs_size = 4 \<rparr>" by code_simp+
  then show ?thesis
    by (simp add: governor_inv_def example_governor_def example_lock_def dtlock_init_def Let_def nosv_futex_init_def)
qed

theorem governor_apply_policy_decides_witness:
  "\<exists>g' d'. governor_apply_policy (example_governor 0) example_lock = Some (g', d') \<and>
     set (cpu_members (sleepers g')) = {0, 1, 2}"
proof -
  have "cpu_members (waiters (example_governor 0)) = [1, 2]" "cpu_members (sleepers (example_governor 0)) = [0]"
    by (code_simp, code_simp)
  moreover have "goes_to_sleep (example_governor 0) example_lock 1" "goes_to_sleep (example_governor 0) example_lock 2"
    by (simp_all add: goes_to_sleep_def dtlock_is_cpu_blockable_def example_governor_def example_lock_def
        dtlock_init_def Let_def dt_flags)
  ultimately show ?thesis using governor_apply_policy_decides [OF example_inv, of 0] by auto
qed

text \<open>Under the busy policy the governor never puts a CPU to sleep: the limit is the largest
  64-bit number, and no counter exceeds it even after it wraps around.\<close>

theorem governor_busy_never_sleeps:
  assumes "governor_inv g d" "spins g = UINT64_MAX" "governor_apply_policy g d = Some (g', d')"
  shows "set (cpu_members (sleepers g')) = set (cpu_members (sleepers g))"
proof -
  have "\<not> goes_to_sleep g d c" for c
    using assms(2) word_order.extremum_strict by (simp add: goes_to_sleep_def UINT64_MAX_def)
  then show ?thesis
    using apply_policy_fold [OF assms(1) subset_refl cb.distinct_members] apply_policy_loop [OF assms(1)] assms(3)
    by (auto simp: policy_step_def)
qed

theorem governor_busy_never_sleeps_witness:
  "\<exists>g' d'. governor_apply_policy (example_governor UINT64_MAX) example_lock = Some (g', d') \<and>
     set (cpu_members (sleepers g')) = {0}"
proof -
  have s: "spins (example_governor UINT64_MAX) = UINT64_MAX" "cpu_members (sleepers (example_governor UINT64_MAX)) = [0]"
    by (simp add: example_governor_def, code_simp)
  obtain g' d' where r: "governor_apply_policy (example_governor UINT64_MAX) example_lock = Some (g', d')"
    using apply_policy_fold [OF example_inv subset_refl cb.distinct_members, of UINT64_MAX]
      apply_policy_loop [OF example_inv] by auto
  from governor_busy_never_sleeps [OF example_inv s(1) r] s(2) r show ?thesis by auto
qed

text \<open>Waking one CPU up: with any CPU waiting or sleeping, exactly one is told to retry and leaves
  the sets, the lowest waiter if there is one and the lowest sleeper otherwise; with none, the
  state is left alone.\<close>

theorem governor_wake_one_wakes:
  assumes "governor_inv g d"
  shows "case cpu_members (waiters g) @ cpu_members (sleepers g) of
      [] \<Rightarrow> governor_wake_one g d = Some (g, d)
    | c # _ \<Rightarrow> \<exists>g' d'. governor_wake_one g d = Some (g', d') \<and> governor_inv g' d' \<and>
        item_ptr (items d' ! c) = ItemRetry \<and> (\<forall>x. x \<noteq> c \<longrightarrow> items d' ! x = items d ! x) \<and>
        set (cpu_members (waiters g')) = set (cpu_members (waiters g)) - {c} \<and>
        set (cpu_members (sleepers g')) = set (cpu_members (sleepers g)) - {c}"
proof -
  have ffs: "cpu_bitset_ffs (waiters g) = (case cpu_members (waiters g) of [] \<Rightarrow> - 1 | c # _ \<Rightarrow> int c)"
    "cpu_bitset_ffs (sleepers g) = (case cpu_members (sleepers g) of [] \<Rightarrow> - 1 | c # _ \<Rightarrow> int c)"
    using cb.first_law assms by (auto simp: governor_inv_def)
  have serve: "\<exists>g' d'. serve_and_forget g d c ItemRetry sig = Some (g', d') \<and> governor_inv g' d' \<and>
        item_ptr (items d' ! c) = ItemRetry \<and> (\<forall>x. x \<noteq> c \<longrightarrow> items d' ! x = items d ! x) \<and>
        set (cpu_members (waiters g')) = set (cpu_members (waiters g)) - {c} \<and>
        set (cpu_members (sleepers g')) = set (cpu_members (sleepers g)) - {c}"
    if "c \<in> set (cpu_members (mask_of sig g))" for c sig
    using that serve_and_forget_inv [OF assms, of c sig ItemRetry] by (auto simp: mask_of_def split: if_splits) metis+
  show ?thesis
  proof (cases "cpu_members (waiters g) @ cpu_members (sleepers g)")
    case Nil
    then show ?thesis using ffs by (simp add: governor_wake_one_def)
  next
    case (Cons c cs)
    then obtain sig where "governor_wake_one g d = serve_and_forget g d c ItemRetry sig"
      "c \<in> set (cpu_members (mask_of sig g))"
      using ffs that by (cases "cpu_members (waiters g)") (force simp: governor_wake_one_def mask_of_def)+
    with serve [of c sig] show ?thesis unfolding Cons list.case by (simp only:)
  qed
qed

theorem governor_wake_one_wakes_witness:
  "\<exists>g' d'. governor_wake_one (example_governor 0) example_lock = Some (g', d') \<and> item_ptr (items d' ! 1) = ItemRetry"
proof -
  have "cpu_members (waiters (example_governor 0)) @ cpu_members (sleepers (example_governor 0)) = [1, 2, 0]"
    by code_simp
  with governor_wake_one_wakes [OF example_inv, of 0] show ?thesis by auto
qed

lemma governor_shutdown_ok:
  assumes "governor_inv g d"
  shows "\<exists>g' d'. governor_shutdown_process cpu_get_pid g p d = Some (g', d') \<and> governor_inv g' d' \<and>
    set (cpu_members (waiters g')) = {c \<in> set (cpu_members (waiters g)). cpu_get_pid c \<noteq> p} \<and>
    set (cpu_members (sleepers g')) = {c \<in> set (cpu_members (sleepers g)). cpu_get_pid c \<noteq> p} \<and>
    (\<forall>c \<in> set (cpu_members (waiters g)) \<union> set (cpu_members (sleepers g)).
       if cpu_get_pid c = p then item_ptr (items d' ! c) = ItemNull else items d' ! c = items d ! c)"
proof -
  let ?b = "shutdown_body cpu_get_pid p"
  let ?W = "set (cpu_members (waiters g))" and ?S = "set (cpu_members (sleepers g))"
  have disj: "?W \<inter> ?S = {}" using assms by (simp add: governor_inv_def)
  obtain g1 d1 where s1: "fold (?b DTLOCK_SIGNAL_DEFAULT) (cpu_members (waiters g)) (Some (g, d)) = Some (g1, d1)"
    "gone_step cpu_get_pid p g d ?W g1 d1"
    using shutdown_fold [OF assms, of "cpu_members (waiters g)" DTLOCK_SIGNAL_DEFAULT cpu_get_pid p] cb.distinct_members
    by (auto simp: mask_of_def)
  then have i1: "governor_inv g1 d1" and S1: "set (cpu_members (sleepers g1)) = ?S"
    using disj by (auto simp: gone_step_def)
  obtain g2 d2 where s2: "fold (?b DTLOCK_SIGNAL_WAKE) (cpu_members (sleepers g1)) (Some (g1, d1)) = Some (g2, d2)"
    "gone_step cpu_get_pid p g1 d1 ?S g2 d2"
    using shutdown_fold [OF i1, of "cpu_members (sleepers g1)" DTLOCK_SIGNAL_WAKE cpu_get_pid p] cb.distinct_members S1
    by (auto simp: mask_of_def)
  have "governor_shutdown_process cpu_get_pid g p d = Some (g2, d2)"
    using shutdown_loop [OF assms, of waiters_of DTLOCK_SIGNAL_DEFAULT] shutdown_loop [OF i1, of sleepers_of DTLOCK_SIGNAL_WAKE]
      s1(1) s2(1) by (simp add: governor_shutdown_process_def waiters_of_def sleepers_of_def mask_of_def)
  then show ?thesis using s1(2) s2(2) S1 disj by (auto simp: gone_step_def)
qed

text \<open>Shutting a process down releases every waiting or sleeping CPU that runs it, each with a null
  item, and no other CPU.\<close>

theorem governor_shutdown_process_releases:
  assumes "governor_inv g d"
  shows "\<exists>g' d'. governor_shutdown_process cpu_get_pid g p d = Some (g', d') \<and> governor_inv g' d' \<and>
    set (cpu_members (waiters g')) = {c \<in> set (cpu_members (waiters g)). cpu_get_pid c \<noteq> p} \<and>
    set (cpu_members (sleepers g')) = {c \<in> set (cpu_members (sleepers g)). cpu_get_pid c \<noteq> p} \<and>
    (\<forall>c \<in> set (cpu_members (waiters g)) \<union> set (cpu_members (sleepers g)).
       if cpu_get_pid c = p then item_ptr (items d' ! c) = ItemNull else items d' ! c = items d ! c)"
  by (rule governor_shutdown_ok [OF assms])

theorem governor_shutdown_process_releases_witness:
  "\<exists>g' d'. governor_shutdown_process (\<lambda>c. if c = 2 then 1 else 0) (example_governor 0) 0 example_lock = Some (g', d') \<and>
     set (cpu_members (waiters g')) = {2} \<and> item_ptr (items d' ! 0) = ItemNull"
proof -
  have "cpu_members (waiters (example_governor 0)) = [1, 2]" "cpu_members (sleepers (example_governor 0)) = [0]"
    by (code_simp, code_simp)
  with governor_shutdown_process_releases [OF example_inv, of "\<lambda>c. if c = 2 then 1 else 0" 0 0] show ?thesis by auto
qed

end
