(* ===== verification/Task.thy ===== *)
theory Task
  imports Rb_Tree
begin

section \<open>Tasks and task groups (nosv-internal.h, system/tasks.h, system/taskgroup.h)\<close>

text \<open>
  A task is a record with the fields of \<open>struct nosv_task\<close>. The tasks live in a store, a function from
  task pointers (positive numbers, 0 is the null pointer) to records, so that updates through
  aliases are visible everywhere. Two representations deserve a word:
  \<^item> the \<open>list_hook\<close> of a task is not a field: which list or ring a task is in is the position of its
    pointer in the lists of the scheduler and of the submit windows (the pointer level of these
    lists is the theory \<open>Linked_List\<close>);
  \<^item> the union of \<open>yield\<close>, \<open>tree_hook\<close> and \<open>suspend_args\<close> is the single field \<open>hook_word\<close>, its first 64 bits.
    The first member of \<open>tree_hook\<close> is the pointer to the left child, so while a task is in a
    red-black tree the word holds its left child (\<open>sync_hooks\<close>), and what the tree leaves there is
    what \<open>task->yield\<close> reads afterwards.
\<close>

datatype deadline_state =
  NOSV_DEADLINE_NONE | NOSV_DEADLINE_PENDING | NOSV_DEADLINE_WAITING | NOSV_DEADLINE_READY

datatype affinity_type = NOSV_AFFINITY_TYPE_PREFERRED | NOSV_AFFINITY_TYPE_STRICT

datatype affinity_level =
  NOSV_AFFINITY_LEVEL_NONE | NOSV_AFFINITY_LEVEL_CPU | NOSV_AFFINITY_LEVEL_NUMA | NOSV_AFFINITY_LEVEL_USER_COMPLEX

record nosv_affinity =
  aff_level :: affinity_level
  aff_type :: affinity_type
  aff_index :: nat

text \<open>The suspend mode kept in the task's flags (TASK_FLAG_SUSPEND_MODE_MASK).\<close>

datatype suspend_mode = SUSPEND_NONE | SUSPEND_SUBMIT | SUSPEND_TIMEOUT | SUSPEND_EVENT

record nosv_task_type =
  type_has_run :: bool
  type_has_end :: bool
  type_has_completed :: bool
  type_pid :: pid
  type_id :: u32

record nosv_task =
  event_count :: u32
  blocking_count :: int
  metadata :: nat
  task_type :: nosv_task_type
  worker :: nat
  affinity :: nosv_affinity
  had_events :: bool
  priority :: int
  deadline :: nat
  deadline_state :: deadline_state
  hook_word :: nat
  submit_window :: "task_id list"
  submit_window_maxsize :: nat
  wakeup :: task_id
  taskid :: nat
  degree :: int
  scheduled_count :: nat
  flag_parallel :: bool
  flag_suspend :: bool
  flag_suspend_mode :: suspend_mode

type_synonym store = "task_id \<Rightarrow> nosv_task"

text \<open>The three names of the union.\<close>

abbreviation task_yield :: "nosv_task \<Rightarrow> nat" where
  "task_yield t \<equiv> hook_word t"

abbreviation suspend_args :: "nosv_task \<Rightarrow> nat" where
  "suspend_args t \<equiv> hook_word t"

definition task_upd :: "store \<Rightarrow> task_id \<Rightarrow> (nosv_task \<Rightarrow> nosv_task) \<Rightarrow> store" where
  "task_upd st t f = st(t := f (st t))"

lemma task_upd_simps [simp]:
  "task_upd st t f t = f (st t)"
  "t' \<noteq> t \<Longrightarrow> task_upd st t f t' = st t'"
  by (simp_all add: task_upd_def)

definition task_get_degree :: "nosv_task \<Rightarrow> int" where
  "task_get_degree t = degree t"

definition task_is_parallel :: "nosv_task \<Rightarrow> bool" where
  "task_is_parallel t = (degree t \<noteq> 1 \<and> degree t \<noteq> - 1)"

definition task_should_suspend :: "nosv_task \<Rightarrow> bool" where
  "task_should_suspend t = flag_suspend t"

subsection \<open>The comparators of the scheduler's trees\<close>

definition task_priority_compare :: "store \<Rightarrow> task_id \<Rightarrow> task_id \<Rightarrow> int" where
  "task_priority_compare st a b =
     (if priority (st a) > priority (st b) then 1 else 0) - (if priority (st b) > priority (st a) then 1 else 0)"

definition task_deadline_compare :: "store \<Rightarrow> task_id \<Rightarrow> task_id \<Rightarrow> int" where
  "task_deadline_compare st a b =
     (if deadline (st a) > deadline (st b) then 1 else 0) - (if deadline (st b) > deadline (st a) then 1 else 0)"

text \<open>A node of the priority tree is a task together with the ring on its \<open>list_hook\<close>: the tasks of
  the same priority behind it. The tree compares the first tasks.\<close>

definition ring_compare :: "store \<Rightarrow> task_id list \<Rightarrow> task_id list \<Rightarrow> int" where
  "ring_compare st a b = task_priority_compare st (hd a) (hd b)"

interpretation dl: keyed_comparator "task_deadline_compare st" "\<lambda>t. deadline (st t)" for st
  by unfold_locales (simp add: agrees_def task_deadline_compare_def)

interpretation pr: keyed_comparator "ring_compare st" "\<lambda>ts. priority (st (hd ts))" for st
  by unfold_locales (simp add: agrees_def ring_compare_def task_priority_compare_def)

subsection \<open>The tree hooks in the union\<close>

fun root_of :: "'a rbtree \<Rightarrow> 'a option" where
  "root_of Leaf = None"
| "root_of (Node c l a r) = Some a"

text \<open>Every task in the tree holds the pointer to its left child, or null, in the word.\<close>

fun sync_hooks :: "('a \<Rightarrow> task_id) \<Rightarrow> 'a rbtree \<Rightarrow> store \<Rightarrow> store" where
  "sync_hooks node Leaf st = st"
| "sync_hooks node (Node c l a r) st =
     sync_hooks node l (sync_hooks node r
       (task_upd st (node a) (\<lambda>t. t \<lparr> hook_word := (case root_of l of None \<Rightarrow> NULL | Some b \<Rightarrow> node b) \<rparr>)))"

text \<open>Two stores that differ in the union word only, and there only for the tasks of \<open>A\<close>.\<close>

definition hooks_only :: "task_id set \<Rightarrow> store \<Rightarrow> store \<Rightarrow> bool" where
  "hooks_only A st st' = (\<forall>t. (t \<notin> A \<longrightarrow> st' t = st t) \<and> (\<exists>w. st' t = (st t) \<lparr> hook_word := w \<rparr>))"

lemma hook_word_id: "\<exists>w. t = (t :: nosv_task) \<lparr> hook_word := w \<rparr>"
  by (rule exI [of _ "hook_word t"]) simp

lemma hooks_only_refl [simp]: "hooks_only A st st"
  unfolding hooks_only_def by (metis nosv_task.surjective nosv_task.update_convs(11))

lemma hooks_only_trans: "hooks_only A st st' \<Longrightarrow> hooks_only A st' st'' \<Longrightarrow> hooks_only A st st''"
  unfolding hooks_only_def by (metis (no_types, lifting) nosv_task.surjective nosv_task.update_convs(11))

lemma hooks_only_mono: "hooks_only A st st' \<Longrightarrow> A \<subseteq> B \<Longrightarrow> hooks_only B st st'"
  unfolding hooks_only_def by blast

lemma sync_hooks_only: "hooks_only (node ` set (inorder t)) st (sync_hooks node t st)"
proof (induction t arbitrary: st)
  case (Node c l a r)
  let ?A = "node ` set (inorder (Node c l a r))"
  let ?st = "task_upd st (node a) (\<lambda>t. t \<lparr> hook_word := (case root_of l of None \<Rightarrow> NULL | Some b \<Rightarrow> node b) \<rparr>)"
  have "hooks_only ?A st ?st" unfolding hooks_only_def task_upd_def
    by (auto simp: hook_word_id)
  moreover have "hooks_only ?A ?st (sync_hooks node r ?st)"
    by (rule hooks_only_mono [OF Node.IH(2)]) auto
  moreover have "hooks_only ?A (sync_hooks node r ?st) (sync_hooks node l (sync_hooks node r ?st))"
    by (rule hooks_only_mono [OF Node.IH(1)]) auto
  ultimately show ?case unfolding sync_hooks.simps by (blast intro: hooks_only_trans)
qed simp

lemma hooks_only_fields:
  assumes "hooks_only A st st'"
  shows "priority (st' t) = priority (st t)" "deadline (st' t) = deadline (st t)"
    "degree (st' t) = degree (st t)" "scheduled_count (st' t) = scheduled_count (st t)"
    "affinity (st' t) = affinity (st t)" "task_type (st' t) = task_type (st t)"
    "deadline_state (st' t) = deadline_state (st t)" "event_count (st' t) = event_count (st t)"
    "blocking_count (st' t) = blocking_count (st t)" "submit_window (st' t) = submit_window (st t)"
  using assms unfolding hooks_only_def by (metis nosv_task.select_convs nosv_task.surjective nosv_task.update_convs(11))+

subsection \<open>Task groups: the submit window of a task\<close>

text \<open>A group is the ring of its tasks, the head first; \<open>count\<close> is its length.\<close>

definition task_group_init :: "task_id list" where "task_group_init = []"

definition task_group_empty :: "task_id list \<Rightarrow> bool" where
  "task_group_empty g = (length g = 0)"

definition task_group_count :: "task_id list \<Rightarrow> nat" where
  "task_group_count g = length g"

definition task_group_head :: "task_id list \<Rightarrow> task_id" where
  "task_group_head g = (case g of [] \<Rightarrow> NULL | t # _ \<Rightarrow> t)"

definition task_group_clear :: "task_id list \<Rightarrow> task_id list" where
  "task_group_clear g = task_group_init"

definition task_group_add :: "task_id list \<Rightarrow> task_id \<Rightarrow> task_id list" where
  "task_group_add g t = g @ [t]"

end
