(* ===== verification/Sched_Queue.thy ===== *)
theory Sched_Queue
  imports Task
begin

section \<open>The ready queues of the scheduler (scheduler/scheduler.c, scheduler/scheduler.h)\<close>

text \<open>
  A \<open>scheduler_queue_t\<close> is a plain FIFO list until the first task with a priority arrives; then it
  becomes a red-black tree of priorities in which every node heads the ring of the tasks of its
  priority. The definitions are those of \<^verbatim>\<open>scheduler.c\<close> and pass the task store along, because the tree
  writes into the tasks.

  The abstract queue is the list \<open>queue_tasks\<close> of the tasks in the order they will be served. The
  lemmas show that both representations, and the switch between them, implement one stable priority
  queue; the locale \<open>stable_queue\<close> is its interface, with the clients' lemmas about the order of service.
\<close>

record sched_queue =
  priority_enabled :: bool
  tasks_priority :: "task_id list rbtree"
  fifo_tasks :: "task_id list"

definition scheduler_init_queue :: "sched_queue \<Rightarrow> sched_queue" where
  "scheduler_init_queue q = q \<lparr> fifo_tasks := [], priority_enabled := False \<rparr>"

definition scheduler_find_in_queue :: "sched_queue \<Rightarrow> task_id option" where
  "scheduler_find_in_queue q =
     (if priority_enabled q then map_option hd (rb_max (tasks_priority q))
      else (case fifo_tasks q of [] \<Rightarrow> None | t # _ \<Rightarrow> Some t))"

text \<open>The tree of a queue and the store after the hooks of its nodes have been written.\<close>

definition with_tree :: "store \<Rightarrow> sched_queue \<Rightarrow> task_id list rbtree \<Rightarrow> store \<times> sched_queue" where
  "with_tree st q t = (sync_hooks hd t st, q \<lparr> tasks_priority := t \<rparr>)"

definition scheduler_pop_queue :: "store \<Rightarrow> sched_queue \<Rightarrow> task_id \<Rightarrow> (store \<times> sched_queue) option" where
  "scheduler_pop_queue st q task =
     (if priority_enabled q
      then (case find (\<lambda>ts. hd ts = task) (inorder (tasks_priority q)) of
              None \<Rightarrow> None
            | Some ts \<Rightarrow>
                (let tree = (if tl ts \<noteq> [] then rb_transplant (tasks_priority q) ts (tl ts)
                             else rb_remove (tasks_priority q) ts);
                     (st', q') = with_tree st q tree
                 in Some (task_upd st' task (\<lambda>t. t \<lparr> hook_word := 0 \<rparr>), q')))
      else (case fifo_tasks q of
              [] \<Rightarrow> None
            | h # rest \<Rightarrow> assert_then (h = task) (Some (st, q \<lparr> fifo_tasks := rest \<rparr>))))"

text \<open>The result: the store, the queue, the number of executions taken out (\<open>removed\<close>) and the task.
  A parallel task stays in the queue until its last execution.\<close>

definition scheduler_get_from_queue ::
  "store \<Rightarrow> sched_queue \<Rightarrow> int \<Rightarrow> (store \<times> sched_queue \<times> int \<times> task_id option) option" where
  "scheduler_get_from_queue st q removed =
     assert_then (removed = 1)
       (case scheduler_find_in_queue q of
          None \<Rightarrow> Some (st, q, removed, None)
        | Some t \<Rightarrow>
            (let d = degree (st t);
                 st1 = task_upd st t (\<lambda>k. k \<lparr> scheduled_count := scheduled_count k + 1 \<rparr>);
                 n = int (scheduled_count (st1 t))
             in if d < 0 \<or> n \<ge> d
                then (case scheduler_pop_queue st1 q t of
                        None \<Rightarrow> None
                      | Some (st2, q') \<Rightarrow>
                          if d < 0
                          then assert_then (- d \<ge> n) (Some (st2, q', removed + (- d - n), Some t))
                          else Some (st2, q', removed, Some t))
                else Some (task_upd st1 t (\<lambda>k. k \<lparr> event_count := event_count k + 1 \<rparr>), q, removed, Some t)))"

definition scheduler_add_queue :: "store \<Rightarrow> sched_queue \<Rightarrow> task_id \<Rightarrow> store \<times> sched_queue" where
  "scheduler_add_queue st q task =
     (if priority_enabled q
      then (case rb_find (ring_compare st) (tasks_priority q) [task] of
              Some found \<Rightarrow> (st, q \<lparr> tasks_priority := rb_transplant (tasks_priority q) found (found @ [task]) \<rparr>)
            | None \<Rightarrow> with_tree st q (fst (rb_insert (ring_compare st) (tasks_priority q) [task])))
      else if priority (st task) \<noteq> 0
      then (let previous = fifo_tasks q;
                t0 = Leaf;
                t1 = (if previous \<noteq> [] then fst (rb_insert (ring_compare st) t0 previous) else t0);
                t2 = fst (rb_insert (ring_compare st) t1 [task])
            in with_tree st (q \<lparr> priority_enabled := True, fifo_tasks := [] \<rparr>) t2)
      else (st, q \<lparr> fifo_tasks := fifo_tasks q @ [task] \<rparr>))"

subsection \<open>The abstract queue\<close>

definition queue_tasks :: "sched_queue \<Rightarrow> task_id list" where
  "queue_tasks q =
     (if priority_enabled q then concat (rev (inorder (tasks_priority q))) else fifo_tasks q)"

text \<open>A task goes behind all tasks of at least its priority and before the others.\<close>

definition stable_insert :: "(task_id \<Rightarrow> int) \<Rightarrow> task_id \<Rightarrow> task_id list \<Rightarrow> task_id list" where
  "stable_insert prio t xs = filter (\<lambda>x. prio t \<le> prio x) xs @ t # filter (\<lambda>x. prio x < prio t) xs"

definition ring_ok :: "(task_id \<Rightarrow> int) \<Rightarrow> task_id list \<Rightarrow> bool" where
  "ring_ok prio ts = (ts \<noteq> [] \<and> (\<forall>t \<in> set ts. prio t = prio (hd ts)))"

definition queue_ok :: "store \<Rightarrow> sched_queue \<Rightarrow> bool" where
  "queue_ok st q =
     (distinct (queue_tasks q) \<and>
      (if priority_enabled q
       then tree_ok (\<lambda>ts. priority (st (hd ts))) (tasks_priority q) \<and>
            (\<forall>ts \<in> set (inorder (tasks_priority q)). ring_ok (\<lambda>t. priority (st t)) ts)
       else \<forall>t \<in> set (fifo_tasks q). priority (st t) = 0))"

abbreviation prio_of :: "store \<Rightarrow> task_id \<Rightarrow> int" where
  "prio_of st t \<equiv> priority (st t)"

lemma ring_ok_nonempty: "ring_ok prio ts \<Longrightarrow> ts \<noteq> []"
  by (simp add: ring_ok_def)

lemma ring_ok_single [simp]: "ring_ok prio [t]"
  by (simp add: ring_ok_def)

lemma ring_ok_append: "ring_ok prio r \<Longrightarrow> prio (hd r) = prio t \<Longrightarrow> ring_ok prio (r @ [t])"
  unfolding ring_ok_def by simp

lemma ring_ok_tl: "ring_ok prio r \<Longrightarrow> tl r \<noteq> [] \<Longrightarrow> ring_ok prio (tl r) \<and> prio (hd (tl r)) = prio (hd r)"
  unfolding ring_ok_def by (metis hd_in_set list.set_sel(2))

lemma queue_ok_cong:
  assumes "\<And>t. priority (st' t) = priority (st t)"
  shows "queue_ok st' q = queue_ok st q"
  using assms by (simp add: queue_ok_def ring_ok_def)

lemma hooks_queue_ok: "hooks_only A st st' \<Longrightarrow> queue_ok st' q = queue_ok st q"
  by (rule queue_ok_cong) (simp add: hooks_only_fields)

lemma filter_ring:
  assumes "\<forall>ts \<in> set yss. ring_ok prio ts"
  shows "filter (\<lambda>x. P (prio x)) (concat yss) = concat (filter (\<lambda>ts. P (prio (hd ts))) yss)"
  using assms
proof (induction yss)
  case (Cons ts yss)
  have "\<forall>x \<in> set ts. P (prio x) = P (prio (hd ts))"
    using Cons.prems unfolding ring_ok_def by (metis list.set_intros(1))
  then have "filter (\<lambda>x. P (prio x)) ts = (if P (prio (hd ts)) then ts else [])"
    by (auto simp: filter_empty_conv intro: filter_True)
  then show ?case using Cons by simp
qed simp

lemma queue_tasks_find: "queue_ok st q \<Longrightarrow>
  scheduler_find_in_queue q = (case queue_tasks q of [] \<Rightarrow> None | t # _ \<Rightarrow> Some t)"
proof -
  assume ok: "queue_ok st q"
  show ?thesis
  proof (cases "priority_enabled q \<and> inorder (tasks_priority q) \<noteq> []")
    case True
    then obtain A ts where L: "inorder (tasks_priority q) = A @ [ts]" by (metis rev_exhaust)
    with ok True have "ts \<noteq> []" by (simp add: queue_ok_def ring_ok_def)
    then show ?thesis using True L
      by (cases ts) (simp_all add: scheduler_find_in_queue_def queue_tasks_def rb_max_inorder)
  qed (auto simp: scheduler_find_in_queue_def queue_tasks_def rb_max_inorder split: list.splits)
qed

subsection \<open>Adding a task\<close>

lemma replace_middle:
  "a \<notin> set A \<Longrightarrow> a \<notin> set B \<Longrightarrow> map (\<lambda>x. if x = a then b else x) (A @ a # B) = A @ b # B"
  by (auto intro!: map_idI)

lemma key_split:
  assumes "key_sorted key L" "x \<in> set L"
  obtains A B where "L = A @ x # B" "\<forall>a \<in> set A. key a < key x" "\<forall>b \<in> set B. key x < key b"
proof -
  from assms(2) obtain A B where L: "L = A @ x # B" by (meson split_list)
  with assms(1) show thesis by (intro that [OF L]) (auto simp: key_sorted_append key_sorted_Cons)
qed

lemma key_sorted_replace:
  assumes "key_sorted key (A @ a # B)" "key b = key a"
  shows "key_sorted key (A @ b # B)"
  using assms by (auto simp: key_sorted_append key_sorted_Cons)

lemma add_new_ring:
  assumes rings: "\<forall>ts \<in> set L. ring_ok prio ts" and new: "prio t \<notin> (\<lambda>ts. prio (hd ts)) ` set L"
  shows "concat (rev (key_insert (\<lambda>ts. prio (hd ts)) [t] L)) = stable_insert prio t (concat (rev L))"
proof -
  have r: "\<forall>ts \<in> set (rev L). ring_ok prio ts" using rings by simp
  have "filter (\<lambda>ts. prio t \<le> prio (hd ts)) (rev L) = filter (\<lambda>ts. prio t < prio (hd ts)) (rev L)"
    using new by (intro filter_cong) (auto simp: order_le_less)
  then show ?thesis
    using filter_ring [OF r, of "\<lambda>p. prio t \<le> p"] filter_ring [OF r, of "\<lambda>p. p < prio t"]
    by (simp add: key_insert_def stable_insert_def rev_filter)
qed

lemma add_to_ring:
  assumes rings: "\<forall>ts \<in> set (A @ r # B). ring_ok prio ts" and p: "prio (hd r) = prio t"
    and less: "\<forall>a \<in> set A. prio (hd a) < prio t" and more: "\<forall>b \<in> set B. prio t < prio (hd b)"
  shows "concat (rev (A @ (r @ [t]) # B)) = stable_insert prio t (concat (rev (A @ r # B)))"
proof -
  let ?L = "rev (A @ r # B)"
  have o: "\<forall>ts \<in> set ?L. ring_ok prio ts" using rings by auto
  have "filter (\<lambda>ts. prio t \<le> prio (hd ts)) ?L = rev B @ [r]" "filter (\<lambda>ts. prio (hd ts) < prio t) ?L = rev A"
    using less more p by (auto simp: filter_empty_conv not_le intro!: filter_True) (auto simp: less_imp_le not_less)
  then show ?thesis
    using filter_ring [OF o, of "\<lambda>q. prio t \<le> q"] filter_ring [OF o, of "\<lambda>q. q < prio t"]
    by (simp add: stable_insert_def)
qed

lemma stable_insert_set [simp]: "set (stable_insert prio t xs) = insert t (set xs)"
  by (auto simp: stable_insert_def)

lemma stable_insert_mset [simp]: "mset (stable_insert prio t xs) = add_mset t (mset xs)"
proof -
  have "mset xs = filter_mset (\<lambda>x. prio t \<le> prio x) (mset xs) + filter_mset (\<lambda>x. \<not> prio t \<le> prio x) (mset xs)"
    by (rule multiset_partition)
  then show ?thesis by (simp add: stable_insert_def not_le)
qed

lemma stable_insert_distinct: "distinct xs \<Longrightarrow> t \<notin> set xs \<Longrightarrow> distinct (stable_insert prio t xs)"
  by (auto simp: stable_insert_def)

lemma with_tree_props:
  "hooks_only (hd ` set (inorder t)) st (fst (with_tree st q t))"
  "snd (with_tree st q t) = q \<lparr> tasks_priority := t \<rparr>"
  by (simp_all add: with_tree_def sync_hooks_only)

lemma ring_hd_in: "\<forall>ts \<in> set L. ring_ok prio ts \<Longrightarrow> hd ` set L \<subseteq> set (concat (rev L))"
  by (auto simp: ring_ok_def)

text \<open>What an addition does: the abstract insertion; only hook words of queued tasks change.\<close>

definition adds :: "store \<Rightarrow> sched_queue \<Rightarrow> task_id \<Rightarrow> store \<times> sched_queue \<Rightarrow> bool" where
  "adds st q t r =
     (queue_tasks (snd r) = stable_insert (prio_of st) t (queue_tasks q) \<and> queue_ok (fst r) (snd r) \<and>
      hooks_only (insert t (set (queue_tasks q))) st (fst r))"

lemma adds_tree:
  assumes tree: "tree_ok (\<lambda>ts. prio_of st (hd ts)) tr" and rings: "\<forall>ts \<in> set (inorder tr). ring_ok (prio_of st) ts"
    and contents: "concat (rev (inorder tr)) = stable_insert (prio_of st) t (queue_tasks q)"
    and dist: "distinct (queue_tasks q)" "t \<notin> set (queue_tasks q)" and en: "priority_enabled q'"
  shows "adds st q t (with_tree st q' tr)"
proof -
  note w = with_tree_props [where t = tr and st = st and q = q']
  have qt: "queue_tasks (snd (with_tree st q' tr)) = stable_insert (prio_of st) t (queue_tasks q)"
    using contents en by (simp add: queue_tasks_def w(2))
  have "queue_ok st (snd (with_tree st q' tr))"
    using tree rings en qt stable_insert_distinct [OF dist] by (simp add: queue_ok_def w(2))
  then have "queue_ok (fst (with_tree st q' tr)) (snd (with_tree st q' tr))"
    using hooks_queue_ok [OF w(1)] by simp
  moreover have "hooks_only (insert t (set (queue_tasks q))) st (fst (with_tree st q' tr))"
    using ring_hd_in [OF rings] by (intro hooks_only_mono [OF w(1)]) (simp add: contents)
  ultimately show ?thesis using qt by (simp add: adds_def)
qed

lemma scheduler_add_queue_adds:
  assumes ok: "queue_ok st q" and t: "t \<notin> set (queue_tasks q)"
  shows "adds st q t (scheduler_add_queue st q t)"
proof -
  let ?key = "\<lambda>ts. prio_of st (hd ts)"
  have dist: "distinct (queue_tasks q)" using ok by (simp add: queue_ok_def)
  show ?thesis
  proof (cases "priority_enabled q")
    case True
    let ?T = "tasks_priority q"
    have tree: "tree_ok ?key ?T" and rings: "\<forall>ts \<in> set (inorder ?T). ring_ok (prio_of st) ts"
      and qt: "queue_tasks q = concat (rev (inorder ?T))"
      using ok True by (auto simp: queue_ok_def queue_tasks_def)
    have sorted: "key_sorted ?key (inorder ?T)" using tree by (simp add: tree_ok_def)
    show ?thesis
    proof (cases "prio_of st t \<in> ?key ` set (inorder ?T)")
      case new: False
      then have k: "?key [t] \<notin> ?key ` set (inorder ?T)" by simp
      note ins = pr.ins_new [OF tree k]
      have "\<forall>ts \<in> set (inorder (fst (rb_insert (ring_compare st) ?T [t]))). ring_ok (prio_of st) ts"
        using ins rings by (auto simp: key_insert_def)
      then have "adds st q t (with_tree st q (fst (rb_insert (ring_compare st) ?T [t])))"
        using ins add_new_ring [OF rings new] qt by (intro adds_tree) (use dist t True in auto)
      then show ?thesis using True ins by (simp add: scheduler_add_queue_def rb_find_insert)
    next
      case old: True
      then obtain r where r: "r \<in> set (inorder ?T)" "?key r = prio_of st t" by auto
      then have f: "rb_find (ring_compare st) ?T [t] = Some r"
        using pr.ins_old [OF tree r(1), of "[t]"] by (simp add: rb_find_insert)
      obtain A B where L: "inorder ?T = A @ r # B" and ord: "\<forall>a \<in> set A. ?key a < ?key r" "\<forall>b \<in> set B. ?key r < ?key b"
        using key_split [OF sorted r(1)] by blast
      let ?T' = "rb_transplant ?T r (r @ [t])"
      have "distinct (inorder ?T)" using key_sorted_distinct [OF sorted] .
      then have L': "inorder ?T' = A @ (r @ [t]) # B"
        using replace_middle [of r A B] by (simp add: inorder_transplant L)
      have rne: "r \<noteq> []" using rings r(1) ring_ok_nonempty by blast
      have "queue_tasks (q \<lparr> tasks_priority := ?T' \<rparr>) = stable_insert (prio_of st) t (queue_tasks q)"
        using add_to_ring [of A r B "prio_of st" t] rings r(2) ord True by (simp add: queue_tasks_def L L')
      moreover have "tree_ok ?key ?T'"
        using tree key_sorted_replace [of ?key A r B "r @ [t]"] rb_transplant_ok [of ?T] rne
        by (simp add: tree_ok_def L L')
      moreover have "\<forall>ts \<in> set (inorder ?T'). ring_ok (prio_of st) ts"
        using rings r(2) by (auto simp: L L' intro: ring_ok_append)
      ultimately show ?thesis
        using True f stable_insert_distinct [OF dist t]
        by (simp add: adds_def queue_ok_def scheduler_add_queue_def)
    qed
  next
    case False
    then have z: "\<forall>x \<in> set (fifo_tasks q). prio_of st x = 0" and qt: "queue_tasks q = fifo_tasks q"
      using ok by (auto simp: queue_ok_def queue_tasks_def)
    show ?thesis
    proof (cases "prio_of st t = 0")
      case True
      then have "filter (\<lambda>x. prio_of st t \<le> prio_of st x) (fifo_tasks q) = fifo_tasks q"
        "filter (\<lambda>x. prio_of st x < prio_of st t) (fifo_tasks q) = []"
        using z by (simp_all add: filter_empty_conv)
      then show ?thesis using True False ok t qt
        by (auto simp: scheduler_add_queue_def adds_def queue_ok_def queue_tasks_def stable_insert_def)
    next
      case p: False
      let ?P = "fifo_tasks q"
      let ?t1 = "if ?P \<noteq> [] then fst (rb_insert (ring_compare st) Leaf ?P) else Leaf"
      have t1: "tree_ok ?key ?t1" "inorder ?t1 = (if ?P = [] then [] else [?P])"
        using pr.ins_new [of st Leaf ?P] by (auto simp: key_insert_def)
      have k: "?key [t] \<notin> ?key ` set (inorder ?t1)" using p z t1(2) by auto
      note ins = pr.ins_new [OF t1(1) k]
      have rings: "\<forall>ts \<in> set (inorder ?t1). ring_ok (prio_of st) ts" using z t1(2) by (auto simp: ring_ok_def)
      have "adds st q t (with_tree st (q \<lparr> priority_enabled := True, fifo_tasks := [] \<rparr>)
          (fst (rb_insert (ring_compare st) ?t1 [t])))"
      proof (rule adds_tree)
        show "\<forall>ts \<in> set (inorder (fst (rb_insert (ring_compare st) ?t1 [t]))). ring_ok (prio_of st) ts"
          using ins rings by (auto simp: key_insert_def)
        have "concat (rev (inorder ?t1)) = queue_tasks q" using t1(2) qt by simp
        then show "concat (rev (inorder (fst (rb_insert (ring_compare st) ?t1 [t])))) =
            stable_insert (prio_of st) t (queue_tasks q)"
          using ins add_new_ring [OF rings, of t] k by simp
      qed (use ins dist t in auto)
      then show ?thesis using False p by (simp add: scheduler_add_queue_def Let_def)
    qed
  qed
qed

subsection \<open>Taking the first task out\<close>

lemma find_last_ring:
  assumes "distinct (concat (rev (A @ [ts])))" "\<forall>r \<in> set (A @ [ts]). ring_ok prio r"
  shows "find (\<lambda>r. hd r = hd ts) (A @ [ts]) = Some ts"
proof -
  have "hd r \<noteq> hd ts" if "r \<in> set A" for r
  proof -
    have "hd r \<in> set r" "hd ts \<in> set ts" using assms(2) that ring_ok_nonempty by fastforce+
    moreover have "set ts \<inter> set r = {}" using assms(1) that by auto
    ultimately show ?thesis by auto
  qed
  then have "find (\<lambda>r. hd r = hd ts) A = None" by (auto simp: find_None_iff)
  then show ?thesis by (induction A) (auto split: if_splits)
qed

text \<open>What a removal does: the first task leaves; only hook words of the queued tasks change.\<close>

definition pops :: "store \<Rightarrow> sched_queue \<Rightarrow> task_id list \<Rightarrow> store \<times> sched_queue \<Rightarrow> bool" where
  "pops st q rest r =
     (queue_tasks (snd r) = rest \<and> queue_ok (fst r) (snd r) \<and> hooks_only (set (queue_tasks q)) st (fst r))"

lemma hooks_only_clear:
  assumes "hooks_only A st st'" "t \<in> A"
  shows "hooks_only A st (task_upd st' t (\<lambda>k. k \<lparr> hook_word := w \<rparr>))"
proof -
  from assms(1) obtain w' where "st' t = (st t) \<lparr> hook_word := w' \<rparr>" unfolding hooks_only_def by blast
  then have "\<exists>v. task_upd st' t (\<lambda>k. k \<lparr> hook_word := w \<rparr>) x = (st x) \<lparr> hook_word := v \<rparr>" for x
    using assms(1) unfolding hooks_only_def task_upd_def by (cases "x = t") auto
  then show ?thesis using assms unfolding hooks_only_def task_upd_def by auto
qed

lemma scheduler_pop_queue_pops:
  assumes ok: "queue_ok st q" and qt: "queue_tasks q = t # rest"
  shows "\<exists>r. scheduler_pop_queue st q t = Some r \<and> pops st q rest r"
proof (cases "priority_enabled q")
  case True
  let ?T = "tasks_priority q" and ?key = "\<lambda>ts. prio_of st (hd ts)"
  have tree: "tree_ok ?key ?T" and rings: "\<forall>r \<in> set (inorder ?T). ring_ok (prio_of st) r"
    and c: "concat (rev (inorder ?T)) = t # rest"
    using ok True qt by (auto simp: queue_ok_def queue_tasks_def)
  have dist: "distinct (t # rest)" using ok qt by (simp add: queue_ok_def)
  from c obtain A ts where L: "inorder ?T = A @ [ts]" by (cases "inorder ?T" rule: rev_cases) auto
  have "ts \<noteq> []" using rings L ring_ok_nonempty by auto
  then obtain more where ts: "ts = t # more" and rest: "rest = more @ concat (rev A)"
    using c L by (cases ts) auto
  have f: "find (\<lambda>r. hd r = t) (inorder ?T) = Some ts"
    using find_last_ring [of A ts "prio_of st"] dist c rings by (metis L list.sel(1) ts)
  let ?T' = "if tl ts \<noteq> [] then rb_transplant ?T ts (tl ts) else rb_remove ?T ts"
  have dT: "distinct (inorder ?T)" using tree key_sorted_distinct by (auto simp: tree_ok_def)
  have T': "tree_ok ?key ?T' \<and> inorder ?T' = (if more \<noteq> [] then A @ [more] else A)"
  proof (cases "more = []")
    case True
    then show ?thesis using pr.del_law [OF tree, of ts] dT by (simp add: ts L remove1_append)
  next
    case False
    then have "inorder ?T' = A @ [more]" using dT replace_middle [of ts A "[]" more] by (simp add: inorder_transplant L ts)
    moreover have "?key more = ?key ts" using ring_ok_tl [of "prio_of st" ts] rings L False ts by simp
    moreover have "rb_ok ?T'" using False tree rb_transplant_ok [of ?T ts more] by (simp add: ts tree_ok_def)
    ultimately show ?thesis
      using tree False key_sorted_replace [of ?key A ts "[]" more] by (simp add: tree_ok_def L)
  qed
  have rings': "\<forall>r \<in> set (inorder ?T'). ring_ok (prio_of st) r"
    using T' rings L ts ring_ok_tl [of "prio_of st" ts] by auto
  note w = with_tree_props [where t = ?T' and st = st and q = q]
  let ?r = "(task_upd (fst (with_tree st q ?T')) t (\<lambda>k. k \<lparr> hook_word := 0 \<rparr>), q \<lparr> tasks_priority := ?T' \<rparr>)"
  have qt': "queue_tasks (snd ?r) = rest" using T' rest True by (auto simp: queue_tasks_def)
  have "hd ` set (inorder ?T') \<subseteq> set (queue_tasks q)"
    using ring_hd_in [OF rings'] T' rest qt by (auto split: if_splits)
  then have h: "hooks_only (set (queue_tasks q)) st (fst ?r)"
    using hooks_only_clear [OF hooks_only_mono [OF w(1)], of "set (queue_tasks q)" t] qt by simp
  have "queue_ok st (snd ?r)" using T' rings' True dist qt' by (simp add: queue_ok_def)
  then have "queue_ok (fst ?r) (snd ?r)" using hooks_queue_ok [OF h] by simp
  then have "pops st q rest ?r" using qt' h by (simp add: pops_def)
  moreover have "scheduler_pop_queue st q t = Some ?r"
    using True f by (simp add: scheduler_pop_queue_def Let_def with_tree_def split: prod.splits)
  ultimately show ?thesis by blast
next
  case False
  then show ?thesis using ok qt
    by (auto simp: scheduler_pop_queue_def pops_def queue_ok_def queue_tasks_def)
qed

subsection \<open>The interface of a stable priority queue\<close>

fun drain_queue :: "('s \<Rightarrow> task_id option) \<Rightarrow> ('s \<Rightarrow> task_id \<Rightarrow> 's option) \<Rightarrow> nat \<Rightarrow> 's \<Rightarrow> task_id list" where
  "drain_queue first pop 0 s = []"
| "drain_queue first pop (Suc n) s =
     (case first s of
        None \<Rightarrow> []
      | Some t \<Rightarrow> t # (case pop s t of None \<Rightarrow> [] | Some s' \<Rightarrow> drain_queue first pop n s'))"

locale stable_queue =
  fixes ok :: "'s \<Rightarrow> bool"
    and tasks :: "'s \<Rightarrow> task_id list"
    and prio :: "'s \<Rightarrow> task_id \<Rightarrow> int"
    and add :: "'s \<Rightarrow> task_id \<Rightarrow> 's"
    and first :: "'s \<Rightarrow> task_id option"
    and pop :: "'s \<Rightarrow> task_id \<Rightarrow> 's option"
  assumes ok_distinct: "ok s \<Longrightarrow> distinct (tasks s)"
    and first_law: "ok s \<Longrightarrow> first s = (case tasks s of [] \<Rightarrow> None | t # _ \<Rightarrow> Some t)"
    and add_law: "ok s \<Longrightarrow> t \<notin> set (tasks s) \<Longrightarrow>
      ok (add s t) \<and> tasks (add s t) = stable_insert (prio s) t (tasks s) \<and> prio (add s t) = prio s"
    and pop_law: "ok s \<Longrightarrow> tasks s = t # rest \<Longrightarrow>
      \<exists>s'. pop s t = Some s' \<and> ok s' \<and> tasks s' = rest \<and> prio s' = prio s"
begin

lemma drain_tasks: "ok s \<Longrightarrow> n = length (tasks s) \<Longrightarrow> drain_queue first pop n s = tasks s"
proof (induction n arbitrary: s)
  case (Suc n)
  then obtain t rest where ts: "tasks s = t # rest" by (cases "tasks s") auto
  then obtain s' where "pop s t = Some s'" "ok s'" "tasks s' = rest" using pop_law [OF Suc.prems(1)] by blast
  with Suc.IH [of s'] Suc.prems ts first_law [OF Suc.prems(1)] show ?case by simp
qed simp

lemma stable_insert_sort:
  "stable_insert p t (sort_key (\<lambda>x. - p x) xs) = sort_key (\<lambda>x. - p x) (xs @ [t])"
proof (rule sym, rule properties_for_sort_key)
  let ?S = "sort_key (\<lambda>x. - p x) xs"
  show "mset (stable_insert p t ?S) = mset (xs @ [t])" by simp
  have s: "sorted (map (\<lambda>x. - p x) ?S)" by simp
  then have "sorted (map (\<lambda>x. - p x) (filter P ?S))" for P by (rule sorted_filter)
  then show "sorted (map (\<lambda>x. - p x) (stable_insert p t ?S))"
    by (auto simp: stable_insert_def sorted_append)
  fix k
  have st: "filter (\<lambda>x. - p k = - p x) ?S = filter (\<lambda>x. - p k = - p x) xs"
    using sort_key_stable [of "\<lambda>x. - p x" "- p k" xs] by (simp add: eq_commute)
  have "filter (\<lambda>x. p k = p x) (filter (\<lambda>x. p t \<le> p x) ?S) = (if p t \<le> p k then filter (\<lambda>x. p k = p x) ?S else [])"
    "filter (\<lambda>x. p k = p x) (filter (\<lambda>x. p x < p t) ?S) = (if p t \<le> p k then [] else filter (\<lambda>x. p k = p x) ?S)"
    by (auto simp: filter_empty_conv intro: filter_cong)
  then show "filter (\<lambda>x. - p k = - p x) (stable_insert p t ?S) = filter (\<lambda>x. - p k = - p x) (xs @ [t])"
    using st by (cases "p k = p t") (simp_all add: stable_insert_def)
qed

lemma add_all:
  assumes "ok s" "tasks s = sort_key (\<lambda>x. - prio s x) ys" "distinct (ys @ xs)"
  shows "ok (foldl add s xs) \<and> tasks (foldl add s xs) = sort_key (\<lambda>x. - prio s x) (ys @ xs)"
  using assms
proof (induction xs arbitrary: s ys)
  case (Cons t xs)
  have "ok (add s t)" "tasks (add s t) = sort_key (\<lambda>x. - prio s x) (ys @ [t])" "prio (add s t) = prio s"
    using add_law [of s t] Cons.prems stable_insert_sort [of "prio s" t ys] by auto
  with Cons.IH [of "add s t" "ys @ [t]"] Cons.prems(3) show ?case by simp
qed simp

text \<open>Tasks added to an empty queue are served by decreasing priority, and in the order they were
  added among equal priorities.\<close>

lemma add_all_drain:
  assumes "ok s" "tasks s = []" "distinct xs"
  shows "drain_queue first pop (length xs) (foldl add s xs) = sort_key (\<lambda>x. - prio s x) xs"
proof -
  have "ok (foldl add s xs)" "tasks (foldl add s xs) = sort_key (\<lambda>x. - prio s x) xs"
    using add_all [of s "[]" xs] assms by auto
  with drain_tasks [of "foldl add s xs" "length xs"] show ?thesis by simp
qed

end

interpretation sq: stable_queue "\<lambda>(st, q). queue_ok st q" "\<lambda>(st, q). queue_tasks q" "\<lambda>(st, q). prio_of st"
  "\<lambda>(st, q) t. scheduler_add_queue st q t" "\<lambda>(st, q). scheduler_find_in_queue q"
  "\<lambda>(st, q) t. scheduler_pop_queue st q t"
proof unfold_locales
  fix s :: "store \<times> sched_queue" and t rest
  obtain st q where s [simp]: "s = (st, q)" by (cases s)
  show "(case s of (st, q) \<Rightarrow> queue_ok st q) \<Longrightarrow> distinct (case s of (st, q) \<Rightarrow> queue_tasks q)"
    by (simp add: queue_ok_def)
  show "(case s of (st, q) \<Rightarrow> queue_ok st q) \<Longrightarrow> (case s of (st, q) \<Rightarrow> scheduler_find_in_queue q) =
    (case (case s of (st, q) \<Rightarrow> queue_tasks q) of [] \<Rightarrow> None | t # _ \<Rightarrow> Some t)"
    by (simp add: queue_tasks_find)
  show "(case s of (st, q) \<Rightarrow> queue_ok st q) \<Longrightarrow> t \<notin> set (case s of (st, q) \<Rightarrow> queue_tasks q) \<Longrightarrow>
    (case (case s of (st, q) \<Rightarrow> \<lambda>t. scheduler_add_queue st q t) t of (st, q) \<Rightarrow> queue_ok st q) \<and>
    (case (case s of (st, q) \<Rightarrow> \<lambda>t. scheduler_add_queue st q t) t of (st, q) \<Rightarrow> queue_tasks q) =
      stable_insert (case s of (st, q) \<Rightarrow> prio_of st) t (case s of (st, q) \<Rightarrow> queue_tasks q) \<and>
    (case (case s of (st, q) \<Rightarrow> \<lambda>t. scheduler_add_queue st q t) t of (st, q) \<Rightarrow> prio_of st) =
      (case s of (st, q) \<Rightarrow> prio_of st)"
    using scheduler_add_queue_adds [of st q t]
    by (auto simp: adds_def split_beta intro: hooks_only_fields)
  show "(case s of (st, q) \<Rightarrow> queue_ok st q) \<Longrightarrow> (case s of (st, q) \<Rightarrow> queue_tasks q) = t # rest \<Longrightarrow>
    \<exists>s'. (case s of (st, q) \<Rightarrow> \<lambda>t. scheduler_pop_queue st q t) t = Some s' \<and>
      (case s' of (st, q) \<Rightarrow> queue_ok st q) \<and> (case s' of (st, q) \<Rightarrow> queue_tasks q) = rest \<and>
      (case s' of (st, q) \<Rightarrow> prio_of st) = (case s of (st, q) \<Rightarrow> prio_of st)"
    using scheduler_pop_queue_pops [of st q t rest]
    by (auto simp: pops_def split_beta intro: hooks_only_fields)
qed

subsection \<open>Properties of the ready queues\<close>

definition example_store :: "int list \<Rightarrow> store" where
  "example_store prios t =
     \<lparr> event_count = 1, blocking_count = 0, metadata = 0,
       task_type = \<lparr> type_has_run = True, type_has_end = False, type_has_completed = True, type_pid = 0, type_id = 1 \<rparr>,
       worker = 0,
       affinity = \<lparr> aff_level = NOSV_AFFINITY_LEVEL_NONE, aff_type = NOSV_AFFINITY_TYPE_PREFERRED, aff_index = 0 \<rparr>,
       had_events = False, priority = (if t < length prios then prios ! t else 0), deadline = 0,
       deadline_state = NOSV_DEADLINE_NONE, hook_word = 0, submit_window = [], submit_window_maxsize = 1,
       wakeup = 0, taskid = t, degree = 1, scheduled_count = 0,
       flag_parallel = False, flag_suspend = False, flag_suspend_mode = SUSPEND_NONE \<rparr>"

definition empty_queue :: sched_queue where
  "empty_queue = \<lparr> priority_enabled = False, tasks_priority = Leaf, fifo_tasks = [] \<rparr>"

lemma empty_queue_ok: "queue_ok st empty_queue" "queue_tasks empty_queue = []"
  by (simp_all add: queue_ok_def queue_tasks_def empty_queue_def)

text \<open>C30. Adding a task to a ready queue, in each of its representations and at the moment it switches
  from one to the other, is the insertion into a stable priority queue: behind every task of at
  least its priority and before the others. The invariant of the queue is kept, and the store
  changes in the union word of the queued tasks at most.\<close>

theorem scheduler_add_queue_refines:
  assumes "queue_ok st q" "t \<notin> set (queue_tasks q)" "scheduler_add_queue st q t = (st', q')"
  shows "queue_ok st' q' \<and> queue_tasks q' = stable_insert (prio_of st) t (queue_tasks q) \<and>
    hooks_only (insert t (set (queue_tasks q))) st st'"
  using scheduler_add_queue_adds [OF assms(1,2)] assms(3) by (simp add: adds_def)

theorem scheduler_add_queue_refines_witness:
  "queue_tasks (snd (scheduler_add_queue (example_store [0, 3]) (empty_queue \<lparr> fifo_tasks := [5, 6] \<rparr>) 1)) = [1, 5, 6]"
proof -
  let ?st = "example_store [0, 3]" and ?q = "empty_queue \<lparr> fifo_tasks := [5, 6] \<rparr>"
  have ok: "queue_ok ?st ?q" "1 \<notin> set (queue_tasks ?q)"
    by (simp_all add: queue_ok_def queue_tasks_def empty_queue_def example_store_def)
  show ?thesis
    using scheduler_add_queue_refines [OF ok prod.collapse [symmetric]]
    by (simp add: stable_insert_def queue_tasks_def empty_queue_def example_store_def)
qed

text \<open>C29. Tasks added one after the other to an empty ready queue and then taken out come out sorted by
  decreasing priority; tasks of the same priority come out in the order they were added.\<close>

theorem scheduler_queue_serves_stably:
  assumes "distinct ts"
  shows "drain_queue (\<lambda>(st, q). scheduler_find_in_queue q) (\<lambda>(st, q) t. scheduler_pop_queue st q t) (length ts)
      (foldl (\<lambda>(st, q) t. scheduler_add_queue st q t) (st, scheduler_init_queue q) ts) =
    sort_key (\<lambda>t. - priority (st t)) ts"
  using sq.add_all_drain [of "(st, scheduler_init_queue q)" ts] assms
  by (simp add: queue_ok_def queue_tasks_def scheduler_init_queue_def)

theorem scheduler_queue_serves_stably_witness:
  "drain_queue (\<lambda>(st, q). scheduler_find_in_queue q) (\<lambda>(st, q) t. scheduler_pop_queue st q t) 3
      (foldl (\<lambda>(st, q) t. scheduler_add_queue st q t) (example_store [0, 0, 4, 0], scheduler_init_queue empty_queue) [1, 2, 3]) =
    [2, 1, 3]"
  using scheduler_queue_serves_stably [of "[1, 2, 3]" "example_store [0, 0, 4, 0]" empty_queue]
  by (simp add: example_store_def numeral_3_eq_3 del: drain_queue.simps)

text \<open>Taking one execution from a queue whose first task is \<open>t\<close>: the task's execution counter goes up
  by one. The task leaves the queue when that was its last execution or when it has been cancelled,
  and then all its remaining executions are counted as removed; otherwise it stays first in the
  queue with one more pending event.\<close>

theorem scheduler_get_from_queue_cases:
  assumes "queue_ok st q" "queue_tasks q = t # rest"
    and "0 < degree (st t) \<Longrightarrow> int (scheduled_count (st t)) < degree (st t)"
    and "degree (st t) < 0 \<Longrightarrow> int (scheduled_count (st t)) < - degree (st t)"
    and "degree (st t) \<noteq> 0"
  shows "\<exists>st' q' removed. scheduler_get_from_queue st q 1 = Some (st', q', removed, Some t) \<and>
    queue_ok st' q' \<and> scheduled_count (st' t) = scheduled_count (st t) + 1 \<and>
    (if degree (st t) < 0
     then queue_tasks q' = rest \<and> removed = - degree (st t) - int (scheduled_count (st t))
     else if int (scheduled_count (st t)) + 1 = degree (st t)
     then queue_tasks q' = rest \<and> removed = 1 \<and> event_count (st' t) = event_count (st t)
     else queue_tasks q' = t # rest \<and> removed = 1 \<and> event_count (st' t) = event_count (st t) + 1)"
proof -
  let ?st = "task_upd st t (\<lambda>k. k \<lparr> scheduled_count := scheduled_count k + 1 \<rparr>)"
  have ok1: "queue_ok ?st q" by (rule iffD2 [OF queue_ok_cong assms(1)]) (simp add: task_upd_def)
  have f: "scheduler_find_in_queue q = Some t" using queue_tasks_find [OF assms(1)] assms(2) by simp
  obtain st2 q2 where p: "scheduler_pop_queue ?st q t = Some (st2, q2)" "queue_tasks q2 = rest" "queue_ok st2 q2"
    "hooks_only (set (queue_tasks q)) ?st st2"
    using scheduler_pop_queue_pops [OF ok1 assms(2)] by (auto simp: pops_def)
  have st2: "scheduled_count (st2 t) = scheduled_count (st t) + 1" "event_count (st2 t) = event_count (st t)"
    using hooks_only_fields [OF p(4), of t] by simp_all
  have ok3: "queue_ok (task_upd ?st t (\<lambda>k. k \<lparr> event_count := event_count k + 1 \<rparr>)) q"
    by (rule iffD2 [OF queue_ok_cong assms(1)]) (simp add: task_upd_def)
  let ?n = "int (scheduled_count (st t))"
  consider "degree (st t) < 0" | "0 < degree (st t)" "?n + 1 = degree (st t)" | "0 < degree (st t)" "?n + 1 < degree (st t)"
    using assms(3,5) by linarith
  then show ?thesis
  proof cases
    case 1
    then show ?thesis using assms(4) f p(1-3) st2 by (simp add: scheduler_get_from_queue_def)
  next
    case 2
    then show ?thesis using f p(1-3) st2 by (simp add: scheduler_get_from_queue_def)
  next
    case 3
    then show ?thesis using f ok3 assms(2) by (simp add: scheduler_get_from_queue_def)
  qed
qed

theorem scheduler_get_from_queue_cases_witness:
  "\<exists>st' q' removed. scheduler_get_from_queue (example_store []) (empty_queue \<lparr> fifo_tasks := [5, 6] \<rparr>) 1 =
     Some (st', q', removed, Some 5) \<and> queue_tasks q' = [6] \<and> removed = 1"
proof -
  let ?st = "example_store []" and ?q = "empty_queue \<lparr> fifo_tasks := [5, 6] \<rparr>"
  have ok: "queue_ok ?st ?q" "queue_tasks ?q = [5, 6]"
    by (simp_all add: queue_ok_def queue_tasks_def empty_queue_def example_store_def)
  show ?thesis
    using scheduler_get_from_queue_cases [OF ok] by (auto simp: example_store_def)
qed

end
