(* ===== verification/Topology.thy ===== *)
theory Topology
  imports Cpu_Bitset
begin

section \<open>The hardware topology (hardware/topology.h, the accessors of hardware/topology.c)\<close>

text \<open>
  The topology is a tree of domains (node, NUMA node, complex set, core, CPU). A domain has a
  logical identifier, its index in the array of its level, and the identifier the system gives
  it; \<open>s_to_l\<close> maps the second to the first. The record \<open>topology\<close> has the fields of \<open>topology_t\<close>, with a
  function from the level where the source has an array indexed by the level. A pointer to a
  \<open>cpu_t\<close> is the CPU's logical identifier. An assertion that fails, or an index outside its array, is
  \<^term>\<open>None\<close>. \<open>topo_ok\<close> is what \<open>topo_init\<close> establishes; under it the two identifiers are inverse to each
  other, which the affinity code of the scheduler relies on.
\<close>

datatype topo_level = TOPO_NODE | TOPO_NUMA | TOPO_COMPLEX_SET | TOPO_CORE | TOPO_CPU

fun level_index :: "topo_level \<Rightarrow> nat" where
  "level_index TOPO_NODE = 0"
| "level_index TOPO_NUMA = 1"
| "level_index TOPO_COMPLEX_SET = 2"
| "level_index TOPO_CORE = 3"
| "level_index TOPO_CPU = 4"

instantiation topo_level :: linorder
begin

definition less_eq_topo_level :: "topo_level \<Rightarrow> topo_level \<Rightarrow> bool" where
  "less_eq_topo_level a b = (level_index a \<le> level_index b)"

definition less_topo_level :: "topo_level \<Rightarrow> topo_level \<Rightarrow> bool" where
  "less_topo_level a b = (level_index a < level_index b)"

instance
proof
  fix a b c :: topo_level
  show "(a < b) = (a \<le> b \<and> \<not> b \<le> a)" by (auto simp: less_eq_topo_level_def less_topo_level_def)
  show "a \<le> a" by (simp add: less_eq_topo_level_def)
  show "a \<le> b \<Longrightarrow> b \<le> c \<Longrightarrow> a \<le> c" by (simp add: less_eq_topo_level_def)
  show "a \<le> b \<Longrightarrow> b \<le> a \<Longrightarrow> a = b" by (cases a; cases b) (simp_all add: less_eq_topo_level_def)
  show "a \<le> b \<or> b \<le> a" by (auto simp: less_eq_topo_level_def)
qed

end

definition TOPO_ID_DISABLED :: int where "TOPO_ID_DISABLED = - 1"
definition TOPO_ID_UNSET :: int where "TOPO_ID_UNSET = - 2"

definition MAX_PIDS :: nat where "MAX_PIDS = 512"

record topo_domain =
  dom_level :: topo_level
  parents :: "topo_level \<Rightarrow> int"
  dom_system_id :: int
  cpu_sid_mask :: cpu_bitset
  cpu_lid_mask :: cpu_bitset

record topology =
  per_level_valid_domains :: "topo_level \<Rightarrow> cpu_bitset"
  per_level_count :: "topo_level \<Rightarrow> nat"
  per_level_domains :: "topo_level \<Rightarrow> topo_domain list"
  s_to_l :: "topo_level \<Rightarrow> int list"
  s_max :: "topo_level \<Rightarrow> int"

record cpumanager =
  pids_cpus :: "int list"
  cpu_domain :: "nat list"

subsection \<open>Accessors of domains\<close>

definition topo_dom_lid :: "topology \<Rightarrow> topo_level \<Rightarrow> int \<Rightarrow> int option" where
  "topo_dom_lid tp level system_id =
     (if s_max tp level < 0 then Some TOPO_ID_UNSET
      else assert_then (0 \<le> system_id \<and> system_id \<le> s_max tp level \<and> nat system_id < length (s_to_l tp level) \<and>
                        s_to_l tp level ! nat system_id \<ge> - 1)
             (Some (s_to_l tp level ! nat system_id)))"

definition topo_lvl_doms :: "topology \<Rightarrow> topo_level \<Rightarrow> topo_domain list" where
  "topo_lvl_doms tp level = per_level_domains tp level"

definition topo_dom_sid :: "topology \<Rightarrow> topo_level \<Rightarrow> int \<Rightarrow> int option" where
  "topo_dom_sid tp level logical_id =
     assert_then (logical_id \<ge> 0 \<and> per_level_count tp level \<noteq> 0)
       (if s_max tp level < 0 then Some TOPO_ID_UNSET
        else assert_then (nat logical_id < length (topo_lvl_doms tp level))
               (let system_id = dom_system_id (topo_lvl_doms tp level ! nat logical_id)
                in assert_then (0 \<le> system_id \<and> system_id \<le> s_max tp level) (Some system_id)))"

definition topo_lvl_cnt :: "topology \<Rightarrow> topo_level \<Rightarrow> nat option" where
  "topo_lvl_cnt tp level = assert_then (per_level_count tp level \<ge> 1) (Some (per_level_count tp level))"

fun topo_lvl_name :: "topo_level \<Rightarrow> string" where
  "topo_lvl_name TOPO_NODE = ''node''"
| "topo_lvl_name TOPO_NUMA = ''numa''"
| "topo_lvl_name TOPO_COMPLEX_SET = ''complex_set''"
| "topo_lvl_name TOPO_CORE = ''core''"
| "topo_lvl_name TOPO_CPU = ''cpu''"

definition topo_lvl_max :: "topology \<Rightarrow> topo_level \<Rightarrow> int" where
  "topo_lvl_max tp level = s_max tp level"

definition topo_dom_ptr :: "topology \<Rightarrow> topo_level \<Rightarrow> int \<Rightarrow> topo_domain option" where
  "topo_dom_ptr tp level logical_id =
     assert_then (logical_id \<ge> 0 \<and> nat logical_id < length (topo_lvl_doms tp level))
       (Some (topo_lvl_doms tp level ! nat logical_id))"

definition topo_dom_parent_lid :: "topology \<Rightarrow> topo_level \<Rightarrow> int \<Rightarrow> topo_level \<Rightarrow> int option" where
  "topo_dom_parent_lid tp child_level child_logical_id parent =
     assert_then (child_level \<ge> TOPO_NUMA \<and> child_logical_id \<ge> 0 \<and>
                  nat child_logical_id < per_level_count tp child_level \<and> child_level \<ge> parent \<and>
                  nat child_logical_id < length (per_level_domains tp child_level))
       (Some (parents (per_level_domains tp child_level ! nat child_logical_id) parent))"

definition topo_dom_parend_sid :: "topology \<Rightarrow> topo_level \<Rightarrow> int \<Rightarrow> topo_level \<Rightarrow> int option" where
  "topo_dom_parend_sid tp child_level child_logical_id parent =
     assert_then (child_level \<ge> TOPO_NUMA \<and> parent \<le> TOPO_CORE \<and> child_logical_id \<ge> 0 \<and>
                  child_logical_id < topo_lvl_max tp child_level \<and> child_level > parent \<and>
                  nat child_logical_id < length (per_level_domains tp child_level))
       (let logical_id = parents (per_level_domains tp child_level ! nat child_logical_id) parent
        in topo_dom_sid tp child_level logical_id)"

definition topo_dom_cpu_sid_bitset :: "topology \<Rightarrow> topo_level \<Rightarrow> int \<Rightarrow> cpu_bitset option" where
  "topo_dom_cpu_sid_bitset tp level lid = map_option cpu_sid_mask (topo_dom_ptr tp level lid)"

definition topo_dom_cpu_lid_bitset :: "topology \<Rightarrow> topo_level \<Rightarrow> int \<Rightarrow> cpu_bitset option" where
  "topo_dom_cpu_lid_bitset tp level lid = map_option cpu_lid_mask (topo_dom_ptr tp level lid)"

definition topo_lvl_sid_bitset :: "topology \<Rightarrow> topo_level \<Rightarrow> cpu_bitset" where
  "topo_lvl_sid_bitset tp level = per_level_valid_domains tp level"

text \<open>A list of optional values, all of them present.\<close>

fun all_some :: "'a option list \<Rightarrow> 'a list option" where
  "all_some [] = Some []"
| "all_some (None # xs) = None"
| "all_some (Some x # xs) = map_option ((#) x) (all_some xs)"

definition topo_lvl_sid_arr :: "topology \<Rightarrow> topo_level \<Rightarrow> int list option" where
  "topo_lvl_sid_arr tp lvl =
     (case topo_lvl_cnt tp lvl of
        None \<Rightarrow> None
      | Some n \<Rightarrow> all_some (map (\<lambda>i. topo_dom_sid tp lvl (int i)) [0..<n]))"

subsection \<open>CPUs\<close>

definition cpu_lid :: "topology \<Rightarrow> cpumanager \<Rightarrow> nat \<Rightarrow> int" where
  "cpu_lid tp m cpu = parents (per_level_domains tp TOPO_CPU ! (cpu_domain m ! cpu)) TOPO_CPU"

definition cpu_sid :: "topology \<Rightarrow> cpumanager \<Rightarrow> nat \<Rightarrow> int" where
  "cpu_sid tp m cpu = dom_system_id (per_level_domains tp TOPO_CPU ! (cpu_domain m ! cpu))"

definition cpu_get_pid :: "cpumanager \<Rightarrow> nat \<Rightarrow> int option" where
  "cpu_get_pid m cpu =
     assert_then (cpu < length (pids_cpus m) \<and> pids_cpus m ! cpu < int MAX_PIDS) (Some (pids_cpus m ! cpu))"

definition cpu_set_pid :: "topology \<Rightarrow> cpumanager \<Rightarrow> nat \<Rightarrow> int \<Rightarrow> cpumanager option" where
  "cpu_set_pid tp m cpu p =
     (let i = nat (cpu_lid tp m cpu)
      in assert_then (i < length (pids_cpus m) \<and> pids_cpus m ! i < int MAX_PIDS)
           (Some (m \<lparr> pids_cpus := (pids_cpus m)[i := p] \<rparr>)))"

definition cpu_parent_lid :: "topology \<Rightarrow> cpumanager \<Rightarrow> nat \<Rightarrow> topo_level \<Rightarrow> int option" where
  "cpu_parent_lid tp m cpu parent = topo_dom_parent_lid tp TOPO_CPU (cpu_lid tp m cpu) parent"

definition cpu_mark_free :: "topology \<Rightarrow> cpumanager \<Rightarrow> nat \<Rightarrow> cpumanager" where
  "cpu_mark_free tp m cpu = m \<lparr> pids_cpus := (pids_cpus m)[nat (cpu_lid tp m cpu) := - 1] \<rparr>"

fun cpu_pop_free_loop :: "int \<Rightarrow> nat \<Rightarrow> nat \<Rightarrow> cpumanager \<Rightarrow> cpumanager \<times> nat option" where
  "cpu_pop_free_loop p i 0 m = (m, None)"
| "cpu_pop_free_loop p i (Suc n) m =
     (if pids_cpus m ! i = - 1 then (m \<lparr> pids_cpus := (pids_cpus m)[i := p] \<rparr>, Some i)
      else cpu_pop_free_loop p (Suc i) n m)"

definition cpu_pop_free :: "topology \<Rightarrow> cpumanager \<Rightarrow> int \<Rightarrow> (cpumanager \<times> nat option) option" where
  "cpu_pop_free tp m p = map_option (\<lambda>n. cpu_pop_free_loop p 0 n m) (topo_lvl_cnt tp TOPO_CPU)"

subsection \<open>The public topology interface\<close>

definition nosv_get_num_domains :: "topology \<Rightarrow> topo_level \<Rightarrow> int option" where
  "nosv_get_num_domains tp level = map_option int (topo_lvl_cnt tp level)"

definition nosv_get_available_domains :: "topology \<Rightarrow> topo_level \<Rightarrow> int list option" where
  "nosv_get_available_domains tp level = topo_lvl_sid_arr tp level"

definition nosv_get_current_logical_domain :: "topology \<Rightarrow> cpumanager \<Rightarrow> bool \<Rightarrow> nat \<Rightarrow> topo_level \<Rightarrow> int option" where
  "nosv_get_current_logical_domain tp m in_task cur level =
     (if \<not> in_task then Some NOSV_ERR_OUTSIDE_TASK
      else case cpu_parent_lid tp m cur level of
             None \<Rightarrow> None
           | Some dom_lid \<Rightarrow> Some (if dom_lid < 0 then NOSV_ERR_UNKNOWN else dom_lid))"

definition nosv_get_current_system_domain :: "topology \<Rightarrow> cpumanager \<Rightarrow> bool \<Rightarrow> nat \<Rightarrow> topo_level \<Rightarrow> int option" where
  "nosv_get_current_system_domain tp m in_task cur level =
     (if \<not> in_task then Some NOSV_ERR_OUTSIDE_TASK
      else case cpu_parent_lid tp m cur level of
             None \<Rightarrow> None
           | Some dom_lid \<Rightarrow>
               if dom_lid < 0 then Some NOSV_ERR_UNKNOWN
               else case topo_dom_sid tp level dom_lid of
                      None \<Rightarrow> None
                    | Some sid \<Rightarrow> Some (if sid < 0 then NOSV_ERR_UNKNOWN else sid))"

definition nosv_get_num_cpus_in_domain :: "topology \<Rightarrow> topo_level \<Rightarrow> int \<Rightarrow> int option" where
  "nosv_get_num_cpus_in_domain tp level sid =
     (case topo_dom_lid tp level sid of
        None \<Rightarrow> None
      | Some lid \<Rightarrow>
          if lid < 0 then Some NOSV_ERR_INVALID_PARAMETER
          else map_option (\<lambda>b. int (cpu_bitset_count b)) (topo_dom_cpu_sid_bitset tp level lid))"

subsection \<open>A well-formed topology\<close>

definition level_ok :: "topology \<Rightarrow> topo_level \<Rightarrow> bool" where
  "level_ok tp l =
     (1 \<le> per_level_count tp l \<and> length (per_level_domains tp l) = per_level_count tp l \<and>
      0 \<le> s_max tp l \<and> length (s_to_l tp l) = Suc (nat (s_max tp l)) \<and>
      (\<forall>i < per_level_count tp l.
         let sid = dom_system_id (per_level_domains tp l ! i)
         in 0 \<le> sid \<and> sid \<le> s_max tp l \<and> s_to_l tp l ! nat sid = int i) \<and>
      (\<forall>s < length (s_to_l tp l). s_to_l tp l ! s = - 1 \<or>
         (0 \<le> s_to_l tp l ! s \<and> nat (s_to_l tp l ! s) < per_level_count tp l \<and>
          dom_system_id (per_level_domains tp l ! nat (s_to_l tp l ! s)) = int s)))"

definition cpus_ok :: "topology \<Rightarrow> cpumanager \<Rightarrow> bool" where
  "cpus_ok tp m =
     (length (pids_cpus m) = per_level_count tp TOPO_CPU \<and> cpu_domain m = [0..<per_level_count tp TOPO_CPU] \<and>
      (\<forall>i < per_level_count tp TOPO_CPU.
         parents (per_level_domains tp TOPO_CPU ! i) TOPO_CPU = int i \<and>
         0 \<le> parents (per_level_domains tp TOPO_CPU ! i) TOPO_NUMA \<and>
         nat (parents (per_level_domains tp TOPO_CPU ! i) TOPO_NUMA) < per_level_count tp TOPO_NUMA \<and>
         pids_cpus m ! i < int MAX_PIDS))"

definition topo_ok :: "topology \<Rightarrow> cpumanager \<Rightarrow> bool" where
  "topo_ok tp m = (level_ok tp TOPO_CPU \<and> level_ok tp TOPO_NUMA \<and> cpus_ok tp m)"

lemma topo_dom_sid_ok:
  assumes "level_ok tp l" "i < per_level_count tp l"
  shows "topo_dom_sid tp l (int i) = Some (dom_system_id (per_level_domains tp l ! i))"
  using assms by (auto simp: level_ok_def topo_dom_sid_def topo_lvl_doms_def Let_def)

lemma topo_dom_lid_ok:
  assumes "level_ok tp l" "i < per_level_count tp l"
  shows "topo_dom_lid tp l (dom_system_id (per_level_domains tp l ! i)) = Some (int i)"
proof -
  let ?s = "dom_system_id (per_level_domains tp l ! i)"
  have "0 \<le> ?s" "?s \<le> s_max tp l" "s_to_l tp l ! nat ?s = int i" "0 \<le> s_max tp l"
    "length (s_to_l tp l) = Suc (nat (s_max tp l))"
    using assms by (auto simp: level_ok_def Let_def)
  then show ?thesis by (simp add: topo_dom_lid_def nat_mono)
qed

lemma topo_lvl_cnt_ok: "level_ok tp l \<Longrightarrow> topo_lvl_cnt tp l = Some (per_level_count tp l)"
  by (simp add: level_ok_def topo_lvl_cnt_def)

lemma cpu_lid_ok: "topo_ok tp m \<Longrightarrow> c < per_level_count tp TOPO_CPU \<Longrightarrow> cpu_lid tp m c = int c"
  by (simp add: topo_ok_def cpus_ok_def cpu_lid_def)

lemma cpu_parent_numa_ok:
  assumes "topo_ok tp m" "c < per_level_count tp TOPO_CPU"
  shows "\<exists>n. cpu_parent_lid tp m c TOPO_NUMA = Some (int n) \<and> n < per_level_count tp TOPO_NUMA"
proof -
  have "length (per_level_domains tp TOPO_CPU) = per_level_count tp TOPO_CPU"
    "0 \<le> parents (per_level_domains tp TOPO_CPU ! c) TOPO_NUMA"
    "nat (parents (per_level_domains tp TOPO_CPU ! c) TOPO_NUMA) < per_level_count tp TOPO_NUMA"
    using assms by (auto simp: topo_ok_def level_ok_def cpus_ok_def)
  moreover have "TOPO_NUMA \<le> TOPO_CPU" by (simp add: less_eq_topo_level_def)
  ultimately show ?thesis using assms
    by (intro exI [of _ "nat (parents (per_level_domains tp TOPO_CPU ! c) TOPO_NUMA)"])
      (simp add: cpu_parent_lid_def topo_dom_parent_lid_def cpu_lid_ok)
qed

lemma pop_free_loop:
  "cpu_pop_free_loop p i n m =
     (case find (\<lambda>j. pids_cpus m ! j = - 1) [i..<i + n] of
        None \<Rightarrow> (m, None)
      | Some j \<Rightarrow> (m \<lparr> pids_cpus := (pids_cpus m)[j := p] \<rparr>, Some j))"
proof (induction n arbitrary: i)
  case (Suc n)
  have "[i..<i + Suc n] = i # [Suc i..<Suc i + n]" by (simp add: upt_conv_Cons)
  then show ?case using Suc.IH [of "Suc i"] by (simp split: option.splits)
qed simp

subsection \<open>Properties\<close>

text \<open>In a well-formed topology the system identifier and the logical identifier of a domain
  determine each other through the two accessors.\<close>

theorem topo_ids_roundtrip:
  assumes "level_ok tp l" "i < per_level_count tp l"
  shows "\<exists>sid. topo_dom_sid tp l (int i) = Some sid \<and> topo_dom_lid tp l sid = Some (int i)"
  using topo_dom_sid_ok [OF assms] topo_dom_lid_ok [OF assms] by blast

text \<open>Two NUMA nodes with system identifiers 1 and 2, one CPU in each.\<close>

definition empty_mask :: cpu_bitset where "empty_mask = \<lparr> bits = [0, 0, 0, 0], bs_size = 2 \<rparr>"

definition example_domain :: "topo_level \<Rightarrow> int \<Rightarrow> int \<Rightarrow> topo_domain" where
  "example_domain l i sid =
     \<lparr> dom_level = l, parents = (\<lambda>p. if p = TOPO_NODE then 0 else i), dom_system_id = sid,
       cpu_sid_mask = empty_mask, cpu_lid_mask = empty_mask \<rparr>"

definition example_topology :: topology where
  "example_topology =
     \<lparr> per_level_valid_domains = (\<lambda>_. empty_mask),
       per_level_count = (\<lambda>l. if l = TOPO_NODE then 1 else 2),
       per_level_domains = (\<lambda>l. if l = TOPO_NODE then [example_domain l 0 0]
          else if l = TOPO_NUMA then [example_domain l 0 1, example_domain l 1 2]
          else [example_domain l 0 4, example_domain l 1 5]),
       s_to_l = (\<lambda>l. if l = TOPO_NODE then [0] else if l = TOPO_NUMA then [- 1, 0, 1] else [- 1, - 1, - 1, - 1, 0, 1]),
       s_max = (\<lambda>l. if l = TOPO_NODE then 0 else if l = TOPO_NUMA then 2 else 5) \<rparr>"

definition example_cpus :: cpumanager where
  "example_cpus = \<lparr> pids_cpus = [0, - 1], cpu_domain = [0, 1] \<rparr>"

lemma example_topology_ok: "topo_ok example_topology example_cpus"
  by code_simp

theorem topo_ids_roundtrip_witness:
  "\<exists>sid. topo_dom_sid example_topology TOPO_NUMA 1 = Some sid \<and> topo_dom_lid example_topology TOPO_NUMA sid = Some 1"
proof -
  have l: "level_ok example_topology TOPO_NUMA" using example_topology_ok by (simp add: topo_ok_def)
  have "1 < per_level_count example_topology TOPO_NUMA" by (simp add: example_topology_def)
  from topo_ids_roundtrip [OF l this] show ?thesis by simp
qed

text \<open>\<open>topo_dom_parend_sid\<close> looks the parent's logical identifier up among the domains of the child's
  level: there is a well-formed topology in which it returns for the CPU 1 of NUMA node 2 the
  number of a CPU and not the number of its NUMA node.\<close>

theorem topo_dom_parend_sid_wrong_level:
  "\<exists>tp m numa. topo_ok tp m \<and> cpu_parent_lid tp m 1 TOPO_NUMA = Some numa \<and>
     topo_dom_parend_sid tp TOPO_CPU 1 TOPO_NUMA \<noteq> topo_dom_sid tp TOPO_NUMA numa"
proof -
  have "cpu_parent_lid example_topology example_cpus 1 TOPO_NUMA = Some 1"
    "topo_dom_parend_sid example_topology TOPO_CPU 1 TOPO_NUMA = Some 5"
    "topo_dom_sid example_topology TOPO_NUMA 1 = Some 2" by code_simp+
  then show ?thesis using example_topology_ok by (metis option.inject numeral_eq_iff semiring_norm(88,89))
qed

text \<open>\<open>cpu_pop_free\<close> gives the process the free CPU with the least number, marks exactly that CPU,
  and returns null with the map unchanged when no CPU is free.\<close>

theorem cpu_pop_free_least:
  assumes "topo_ok tp m"
  shows "\<exists>m' r. cpu_pop_free tp m p = Some (m', r) \<and>
    (case r of
       None \<Rightarrow> m' = m \<and> (\<forall>i < per_level_count tp TOPO_CPU. pids_cpus m ! i \<noteq> - 1)
     | Some i \<Rightarrow> i < per_level_count tp TOPO_CPU \<and> pids_cpus m ! i = - 1 \<and> pids_cpus m' = (pids_cpus m)[i := p] \<and>
         (\<forall>j < i. pids_cpus m ! j \<noteq> - 1))"
proof -
  let ?n = "per_level_count tp TOPO_CPU"
  have "cpu_pop_free tp m p = Some (cpu_pop_free_loop p 0 ?n m)"
    using assms topo_lvl_cnt_ok by (simp add: cpu_pop_free_def topo_ok_def)
  then show ?thesis
    by (cases "find (\<lambda>j. pids_cpus m ! j = - 1) [0..<?n]")
      (auto simp: pop_free_loop find_None_iff find_Some_iff)
qed

theorem cpu_pop_free_least_witness:
  "\<exists>m'. cpu_pop_free example_topology example_cpus 7 = Some (m', Some 1) \<and> pids_cpus m' = [0, 7]"
proof -
  have "snd (the (cpu_pop_free example_topology example_cpus 7)) = Some 1" by code_simp
  with cpu_pop_free_least [OF example_topology_ok, of 7] show ?thesis by (auto simp: example_cpus_def)
qed

end
