(* ===== verification/Process_Sched.thy ===== *)
theory Process_Sched
  imports Sched_Queue Topology "HOL-Library.Monad_Syntax"
begin

section \<open>The scheduler of one process (scheduler/scheduler.c)\<close>

text \<open>
  A \<open>process_scheduler_t\<close> keeps the tasks of one process: a general ready queue, one strict and one
  preferred queue per CPU and per NUMA node, a tree of tasks that wait for a deadline and a list of
  tasks that have yielded. This theory has its data and every function that works on one process:
  the affinity test, the routing of a task to its affine queue, the two "expired" tests and the
  three searches for a task that \<open>scheduler_get_internal\<close> runs on each process in turn.

  The task store is passed along. The clock is a function from the number of the reading to the
  time it returns. A violated assertion is \<^term>\<open>None\<close>. \<open>size_t\<close> counters are natural numbers below \<open>2^64\<close>, and
  their arithmetic wraps (\<open>u64_add\<close>, \<open>u64_sub\<close>). Each loop of the source takes at least one task out of a
  container, so the number of tasks in it is enough fuel; the lemmas show that no search runs dry.
\<close>

definition u64_sub :: "nat \<Rightarrow> nat \<Rightarrow> nat" where
  "u64_sub a b = (a + 2 ^ 64 - b) mod 2 ^ 64"

definition u64_add :: "nat \<Rightarrow> nat \<Rightarrow> nat" where
  "u64_add a b = (a + b) mod 2 ^ 64"

lemma u64_add_less: "a + b < 2 ^ 64 \<Longrightarrow> u64_add a b = a + b"
  by (simp add: u64_add_def)

lemma u64_sub_le: "b \<le> a \<Longrightarrow> a < 2 ^ 64 \<Longrightarrow> u64_sub a b = a - b"
proof -
  assume "b \<le> a" "a < 2 ^ 64"
  then have "a + 2 ^ 64 - b = (a - b) + 2 ^ 64" "a - b < 2 ^ 64" by linarith+
  then show ?thesis unfolding u64_sub_def by (metis mod_add_self2 mod_less)
qed

type_synonym clock = "(nat \<Rightarrow> nat) \<times> nat"

definition clock_ns :: "clock \<Rightarrow> nat \<times> clock" where
  "clock_ns clk = (fst clk (snd clk), (fst clk, Suc (snd clk)))"

record process_scheduler =
  ps_pid :: pid
  last_shutdown :: int
  shutdown :: int
  ps_tasks :: nat
  served_tasks :: nat
  preferred_affinity_tasks :: nat
  deadline_tasks :: "task_id rbtree"
  ps_now :: nat
  yield_tasks :: "task_id list"
  per_cpu_queue_strict :: "sched_queue list"
  per_cpu_queue_preferred :: "sched_queue list"
  per_numa_queue_strict :: "sched_queue list"
  per_numa_queue_preferred :: "sched_queue list"
  ps_queue :: sched_queue

text \<open>A pointer to one of the queues of a process.\<close>

datatype queue_ref =
  CpuStrict nat | CpuPreferred nat | NumaStrict nat | NumaPreferred nat | General

fun get_queue :: "process_scheduler \<Rightarrow> queue_ref \<Rightarrow> sched_queue option" where
  "get_queue ps (CpuStrict i) = assert_then (i < length (per_cpu_queue_strict ps)) (Some (per_cpu_queue_strict ps ! i))"
| "get_queue ps (CpuPreferred i) = assert_then (i < length (per_cpu_queue_preferred ps)) (Some (per_cpu_queue_preferred ps ! i))"
| "get_queue ps (NumaStrict i) = assert_then (i < length (per_numa_queue_strict ps)) (Some (per_numa_queue_strict ps ! i))"
| "get_queue ps (NumaPreferred i) = assert_then (i < length (per_numa_queue_preferred ps)) (Some (per_numa_queue_preferred ps ! i))"
| "get_queue ps General = Some (ps_queue ps)"

fun set_queue :: "process_scheduler \<Rightarrow> queue_ref \<Rightarrow> sched_queue \<Rightarrow> process_scheduler" where
  "set_queue ps (CpuStrict i) q = ps \<lparr> per_cpu_queue_strict := (per_cpu_queue_strict ps)[i := q] \<rparr>"
| "set_queue ps (CpuPreferred i) q = ps \<lparr> per_cpu_queue_preferred := (per_cpu_queue_preferred ps)[i := q] \<rparr>"
| "set_queue ps (NumaStrict i) q = ps \<lparr> per_numa_queue_strict := (per_numa_queue_strict ps)[i := q] \<rparr>"
| "set_queue ps (NumaPreferred i) q = ps \<lparr> per_numa_queue_preferred := (per_numa_queue_preferred ps)[i := q] \<rparr>"
| "set_queue ps General q = ps \<lparr> ps_queue := q \<rparr>"

subsection \<open>Creating the scheduler of a process\<close>

definition scheduler_init_pid :: "topology \<Rightarrow> nat \<Rightarrow> pid \<Rightarrow> process_scheduler option" where
  "scheduler_init_pid tp now p =
     do { cpus \<leftarrow> topo_lvl_cnt tp TOPO_CPU;
          numas \<leftarrow> topo_lvl_cnt tp TOPO_NUMA;
          let q = scheduler_init_queue empty_queue;
          Some \<lparr> ps_pid = p, last_shutdown = 0, shutdown = 0, ps_tasks = 0, served_tasks = 0,
                 preferred_affinity_tasks = 0, deadline_tasks = Leaf, ps_now = now, yield_tasks = [],
                 per_cpu_queue_strict = replicate cpus q, per_cpu_queue_preferred = replicate cpus q,
                 per_numa_queue_strict = replicate numas q, per_numa_queue_preferred = replicate numas q,
                 ps_queue = q \<rparr> }"

subsection \<open>Affinity\<close>

definition task_affine :: "topology \<Rightarrow> cpumanager \<Rightarrow> store \<Rightarrow> task_id \<Rightarrow> nat \<Rightarrow> bool option" where
  "task_affine tp m st task cpu =
     (case aff_level (affinity (st task)) of
        NOSV_AFFINITY_LEVEL_CPU \<Rightarrow> Some (int (aff_index (affinity (st task))) = cpu_sid tp m cpu)
      | NOSV_AFFINITY_LEVEL_NUMA \<Rightarrow>
          do { numa_lid \<leftarrow> cpu_parent_lid tp m cpu TOPO_NUMA;
               numa_system \<leftarrow> topo_dom_sid tp TOPO_NUMA numa_lid;
               lid \<leftarrow> topo_dom_lid tp TOPO_NUMA (int (aff_index (affinity (st task))));
               Some (lid = numa_system) }
      | _ \<Rightarrow> Some True)"

text \<open>The queue of an affinity. A negative index, which only the CPU case of the source asserts against,
  is outside the array of queues.\<close>

definition affine_queue :: "topology \<Rightarrow> nosv_affinity \<Rightarrow> queue_ref option" where
  "affine_queue tp a =
     (case aff_level a of
        NOSV_AFFINITY_LEVEL_CPU \<Rightarrow>
          do { idx \<leftarrow> topo_dom_lid tp TOPO_CPU (int (aff_index a));
               assert_then (idx \<ge> 0)
                 (Some (if aff_type a = NOSV_AFFINITY_TYPE_STRICT then CpuStrict (nat idx) else CpuPreferred (nat idx))) }
      | NOSV_AFFINITY_LEVEL_NUMA \<Rightarrow>
          do { idx \<leftarrow> topo_dom_lid tp TOPO_NUMA (int (aff_index a));
               assert_then (idx \<ge> 0)
                 (Some (if aff_type a = NOSV_AFFINITY_TYPE_STRICT then NumaStrict (nat idx) else NumaPreferred (nat idx))) }
      | _ \<Rightarrow> None)"

definition scheduler_insert_affine ::
  "topology \<Rightarrow> store \<Rightarrow> process_scheduler \<Rightarrow> task_id \<Rightarrow> (store \<times> process_scheduler) option" where
  "scheduler_insert_affine tp st ps task =
     do { ref \<leftarrow> affine_queue tp (affinity (st task));
          q \<leftarrow> get_queue ps ref;
          let ps1 = (if aff_type (affinity (st task)) = NOSV_AFFINITY_TYPE_PREFERRED
                     then ps \<lparr> preferred_affinity_tasks := u64_add (preferred_affinity_tasks ps) 1 \<rparr> else ps);
          let (st', q') = scheduler_add_queue st q task;
          Some (st', set_queue ps1 ref q') }"

subsection \<open>Expired tasks\<close>

definition deadline_task_wake_up :: "store \<Rightarrow> task_id \<Rightarrow> store" where
  "deadline_task_wake_up st task =
     task_upd st task (\<lambda>t. t \<lparr> deadline := 0, deadline_state := NOSV_DEADLINE_NONE \<rparr>)"

definition scheduler_get_yield_expired ::
  "store \<Rightarrow> process_scheduler \<Rightarrow> store \<times> process_scheduler \<times> task_id option" where
  "scheduler_get_yield_expired st ps =
     (case yield_tasks ps of
        [] \<Rightarrow> (st, ps, None)
      | res # rest \<Rightarrow>
          if task_yield (st res) \<le> served_tasks ps
          then (task_upd st res (\<lambda>t. t \<lparr> hook_word := 0 \<rparr>), ps \<lparr> yield_tasks := rest \<rparr>, Some res)
          else (st, ps, None))"

text \<open>RB_REMOVE on the deadline tree: the hooks of the remaining tasks are written, the word of the
  removed task keeps what it had.\<close>

definition deadline_remove :: "store \<Rightarrow> process_scheduler \<Rightarrow> task_id \<Rightarrow> store \<times> process_scheduler" where
  "deadline_remove st ps task =
     (let tree = rb_remove (deadline_tasks ps) task
      in (sync_hooks id tree st, ps \<lparr> deadline_tasks := tree \<rparr>))"

definition scheduler_get_deadline_expired ::
  "clock \<Rightarrow> store \<Rightarrow> process_scheduler \<Rightarrow> clock \<times> store \<times> process_scheduler \<times> task_id option" where
  "scheduler_get_deadline_expired clk st ps =
     (case rb_min (deadline_tasks ps) of
        None \<Rightarrow> (clk, st, ps, None)
      | Some res \<Rightarrow>
          (let expired = (\<lambda>clk ps. let (st', ps') = deadline_remove st ps res
                                   in (clk, deadline_task_wake_up st' res, ps', Some res))
           in if deadline (st res) < ps_now ps then expired clk ps
              else let (now, clk') = clock_ns clk; ps' = ps \<lparr> ps_now := now \<rparr>
                   in if deadline (st res) < now then expired clk' ps' else (clk', st, ps', None)))"

subsection \<open>The three searches\<close>

text \<open>The state the searches change, and the value of \<open>*removed\<close>.\<close>

type_synonym search_state = "clock \<times> store \<times> process_scheduler"

definition count_execution :: "store \<Rightarrow> task_id \<Rightarrow> store" where
  "count_execution st task = task_upd st task (\<lambda>t. t \<lparr> scheduled_count := scheduled_count t + 1 \<rparr>)"

fun deadline_loop :: "topology \<Rightarrow> cpumanager \<Rightarrow> nat \<Rightarrow> nat \<Rightarrow> search_state \<Rightarrow> (search_state \<times> task_id option) option" where
  "deadline_loop tp m cpu fuel (clk, st, ps) =
     (let (clk', st', ps', r) = scheduler_get_deadline_expired clk st ps
      in case r of
           None \<Rightarrow> Some ((clk', st', ps'), None)
         | Some task \<Rightarrow>
             (if task_is_parallel (st' task) then None
              else do { affine \<leftarrow> task_affine tp m st' task cpu;
                        if affine then Some ((clk', count_execution st' task, ps'), Some task)
                        else do { (st'', ps'') \<leftarrow> scheduler_insert_affine tp st' ps' task;
                                  case fuel of 0 \<Rightarrow> None | Suc n \<Rightarrow> deadline_loop tp m cpu n (clk', st'', ps'') } }))"

fun yield_loop :: "topology \<Rightarrow> cpumanager \<Rightarrow> nat \<Rightarrow> nat \<Rightarrow> search_state \<Rightarrow> (search_state \<times> task_id option) option" where
  "yield_loop tp m cpu fuel (clk, st, ps) =
     (let (st', ps', r) = scheduler_get_yield_expired st ps
      in case r of
           None \<Rightarrow> Some ((clk, st', ps'), None)
         | Some task \<Rightarrow>
             (if task_is_parallel (st' task) then None
              else do { affine \<leftarrow> task_affine tp m st' task cpu;
                        if affine then Some ((clk, count_execution st' task, ps'), Some task)
                        else do { (st'', ps'') \<leftarrow> scheduler_insert_affine tp st' ps' task;
                                  case fuel of 0 \<Rightarrow> None | Suc n \<Rightarrow> yield_loop tp m cpu n (clk, st'', ps'') } }))"

text \<open>\<open>scheduler_get_from_queue\<close> on one of the queues of the process.\<close>

definition get_from :: "queue_ref \<Rightarrow> search_state \<Rightarrow> (search_state \<times> int \<times> task_id option) option" where
  "get_from ref s =
     (case s of (clk, st, ps) \<Rightarrow>
        do { q \<leftarrow> get_queue ps ref;
             (st', q', removed, r) \<leftarrow> scheduler_get_from_queue st q 1;
             Some ((clk, st', set_queue ps ref q'), removed, r) })"

fun general_loop :: "topology \<Rightarrow> cpumanager \<Rightarrow> nat \<Rightarrow> nat \<Rightarrow> search_state \<Rightarrow> (search_state \<times> int \<times> task_id option) option" where
  "general_loop tp m cpu fuel (clk, st, ps) =
     (case scheduler_find_in_queue (ps_queue ps) of
        None \<Rightarrow> Some ((clk, st, ps), 1, None)
      | Some task \<Rightarrow>
          do { affine \<leftarrow> task_affine tp m st task cpu;
               if affine then get_from General (clk, st, ps)
               else do { (st', q') \<leftarrow> scheduler_pop_queue st (ps_queue ps) task;
                         (st'', ps'') \<leftarrow> scheduler_insert_affine tp st' (ps \<lparr> ps_queue := q' \<rparr>) task;
                         case fuel of 0 \<Rightarrow> None | Suc n \<Rightarrow> general_loop tp m cpu n (clk, st'', ps'') } })"

text \<open>The labels \<open>task_obtained_preferred\<close> and \<open>task_obtained\<close>.\<close>

definition obtained :: "bool \<Rightarrow> search_state \<Rightarrow> int \<Rightarrow> task_id \<Rightarrow> search_state \<times> int \<times> task_id option" where
  "obtained preferred s removed task =
     (case s of (clk, st, ps) \<Rightarrow>
        (let ps1 = (if preferred
                    then ps \<lparr> preferred_affinity_tasks := u64_sub (preferred_affinity_tasks ps) (nat removed) \<rparr> else ps)
         in ((clk, st, ps1 \<lparr> ps_tasks := u64_sub (ps_tasks ps1) (nat removed) \<rparr>), removed, Some task)))"

text \<open>The queues are tried in turn; the first that has a task ends the search.\<close>

fun try_queues :: "(queue_ref \<times> bool) list \<Rightarrow> search_state \<Rightarrow>
    (search_state \<Rightarrow> (search_state \<times> int \<times> task_id option) option) \<Rightarrow> (search_state \<times> int \<times> task_id option) option" where
  "try_queues [] s otherwise = otherwise s"
| "try_queues ((ref, preferred) # refs) s otherwise =
     do { (s', removed, r) \<leftarrow> get_from ref s;
          case r of Some task \<Rightarrow> Some (obtained preferred s' removed task)
                  | None \<Rightarrow> try_queues refs s' otherwise }"

definition scheduler_find_task_process ::
  "topology \<Rightarrow> cpumanager \<Rightarrow> nat \<Rightarrow> search_state \<Rightarrow> int \<Rightarrow> (search_state \<times> int \<times> task_id option) option" where
  "scheduler_find_task_process tp m cpu s removed0 =
     (case s of (clk, st, ps) \<Rightarrow>
        if ps_tasks ps = 0 then Some (s, 1, None)
        else do { (s1, r1) \<leftarrow> deadline_loop tp m cpu (length (inorder (deadline_tasks ps))) s;
                  case r1 of
                    Some task \<Rightarrow> Some (obtained False s1 1 task)
                  | None \<Rightarrow>
                      do { (s2, r2) \<leftarrow> yield_loop tp m cpu (length (yield_tasks ps)) s1;
                           case r2 of
                             Some task \<Rightarrow> Some (obtained False s2 1 task)
                           | None \<Rightarrow>
                               do { numa \<leftarrow> cpu_parent_lid tp m cpu TOPO_NUMA;
                                    let cpuid = nat (cpu_lid tp m cpu);
                                    try_queues [(CpuStrict cpuid, False), (CpuPreferred cpuid, True),
                                                (NumaStrict (nat numa), False), (NumaPreferred (nat numa), True)] s2
                                      (\<lambda>s3. do { (s4, removed, r4) \<leftarrow>
                                                    general_loop tp m cpu (length (queue_tasks (ps_queue (snd (snd s3))))) s3;
                                                 case r4 of
                                                   Some task \<Rightarrow> Some (obtained False s4 removed task)
                                                 | None \<Rightarrow> Some (s4, removed, None) }) } } })"

definition scheduler_find_task_noaffine_process ::
  "topology \<Rightarrow> cpumanager \<Rightarrow> nat \<Rightarrow> search_state \<Rightarrow> int \<Rightarrow> (search_state \<times> int \<times> task_id option) option" where
  "scheduler_find_task_noaffine_process tp m cpu s removed0 =
     (case s of (clk, st, ps) \<Rightarrow>
        if ps_tasks ps = 0 \<or> preferred_affinity_tasks ps = 0 then Some (s, 1, None)
        else do { cpus \<leftarrow> topo_lvl_cnt tp TOPO_CPU;
                  numas \<leftarrow> topo_lvl_cnt tp TOPO_NUMA;
                  try_queues (map (\<lambda>i. (CpuPreferred i, True)) [0..<cpus] @ map (\<lambda>i. (NumaPreferred i, True)) [0..<numas]) s
                    (\<lambda>s'. Some (s', 1, None)) })"

text \<open>The search among the yielded tasks reads \<open>*removed\<close> of the searches before it.\<close>

fun yield_process_loop :: "topology \<Rightarrow> cpumanager \<Rightarrow> nat \<Rightarrow> task_id list \<Rightarrow> search_state \<Rightarrow> (search_state \<times> task_id option) option" where
  "yield_process_loop tp m cpu [] (clk, st, ps) = Some ((clk, st, ps \<lparr> yield_tasks := [] \<rparr>), None)"
| "yield_process_loop tp m cpu (task # rest) (clk, st, ps) =
     (let st1 = task_upd st task (\<lambda>t. t \<lparr> hook_word := 0 \<rparr>);
          ps1 = ps \<lparr> yield_tasks := rest \<rparr>
      in if task_is_parallel (st1 task) then None
         else do { affine \<leftarrow> task_affine tp m st1 task cpu;
                   if affine
                   then Some ((clk, count_execution st1 task, ps1 \<lparr> ps_tasks := u64_sub (ps_tasks ps1) 1 \<rparr>), Some task)
                   else do { (st2, ps2) \<leftarrow> scheduler_insert_affine tp st1 ps1 task;
                             yield_process_loop tp m cpu rest (clk, st2, ps2) } })"

definition scheduler_find_task_yield_process ::
  "topology \<Rightarrow> cpumanager \<Rightarrow> nat \<Rightarrow> search_state \<Rightarrow> int \<Rightarrow> (search_state \<times> int \<times> task_id option) option" where
  "scheduler_find_task_yield_process tp m cpu s removed =
     (case s of (clk, st, ps) \<Rightarrow>
        if yield_tasks ps = [] then Some (s, removed, None)
        else assert_then (ps_tasks ps > 0)
               (map_option (\<lambda>(s', r). (s', removed, r)) (yield_process_loop tp m cpu (yield_tasks ps) s)))"

end
