(* ===== verification/Process_Sched_Inv.thy ===== *)
theory Process_Sched_Inv
  imports Process_Sched
begin

section \<open>The invariant of a process scheduler\<close>

text \<open>
  \<open>ps_inv\<close> says that every queue is a stable priority queue, that no task is in two places, that the
  counter \<open>tasks\<close> is the number of executions the process still has to serve, and that a task in an
  affine queue belongs there. The lemmas show that the searches for a task keep it: they lose no
  task, duplicate none, never violate an assertion and count exactly what they take out.
\<close>

subsection \<open>Where the tasks are\<close>

definition ps_elems :: "process_scheduler \<Rightarrow> task_id multiset" where
  "ps_elems ps =
     mset (yield_tasks ps) + mset (inorder (deadline_tasks ps)) + mset (queue_tasks (ps_queue ps)) +
     (\<Sum>q \<leftarrow> per_cpu_queue_strict ps. mset (queue_tasks q)) + (\<Sum>q \<leftarrow> per_cpu_queue_preferred ps. mset (queue_tasks q)) +
     (\<Sum>q \<leftarrow> per_numa_queue_strict ps. mset (queue_tasks q)) + (\<Sum>q \<leftarrow> per_numa_queue_preferred ps. mset (queue_tasks q))"

lemma sum_list_update_mset:
  fixes f :: "'a \<Rightarrow> 'b multiset"
  assumes "i < length xs"
  shows "(\<Sum>x \<leftarrow> xs[i := y]. f x) + f (xs ! i) = (\<Sum>x \<leftarrow> xs. f x) + f y"
  using assms by (induction xs arbitrary: i) (auto split: nat.splits simp: ac_simps)

lemma elems_set_queue:
  assumes "get_queue ps ref = Some q"
  shows "ps_elems (set_queue ps ref q') + mset (queue_tasks q) = ps_elems ps + mset (queue_tasks q')"
  using assms
  by (cases ref) (auto simp: ps_elems_def ac_simps dest: sum_list_update_mset [where y = q' and f = "\<lambda>q. mset (queue_tasks q)"])

lemma queue_subset_elems: "get_queue ps ref = Some q \<Longrightarrow> mset (queue_tasks q) \<subseteq># ps_elems ps"
  using elems_set_queue [of ps ref q empty_queue] empty_queue_ok(2) by (metis add.right_neutral mset.simps(1) mset_subset_eq_add_right)

lemma get_set_queue:
  assumes "get_queue ps ref = Some q"
  shows "get_queue (set_queue ps ref q') ref' = (if ref' = ref then Some q' else get_queue ps ref')"
  using assms by (cases ref; cases ref') (auto simp: assert_then_def)

lemma set_queue_fields [simp]:
  "yield_tasks (set_queue ps ref q) = yield_tasks ps" "deadline_tasks (set_queue ps ref q) = deadline_tasks ps"
  "ps_tasks (set_queue ps ref q) = ps_tasks ps" "served_tasks (set_queue ps ref q) = served_tasks ps"
  "preferred_affinity_tasks (set_queue ps ref q) = preferred_affinity_tasks ps" "ps_now (set_queue ps ref q) = ps_now ps"
  "length (per_cpu_queue_strict (set_queue ps ref q)) = length (per_cpu_queue_strict ps)"
  "length (per_cpu_queue_preferred (set_queue ps ref q)) = length (per_cpu_queue_preferred ps)"
  "length (per_numa_queue_strict (set_queue ps ref q)) = length (per_numa_queue_strict ps)"
  "length (per_numa_queue_preferred (set_queue ps ref q)) = length (per_numa_queue_preferred ps)"
  "ps_pid (set_queue ps ref q) = ps_pid ps" "shutdown (set_queue ps ref q) = shutdown ps"
  "last_shutdown (set_queue ps ref q) = last_shutdown ps"
  by (cases ref; simp)+

subsection \<open>The invariant\<close>

text \<open>The executions a queued task stands for. A task of degree one stands for one execution, also when it has
  run before and was submitted again after a pause, with a positive \<open>scheduled_count\<close>.\<close>

definition executions_left :: "nosv_task \<Rightarrow> nat" where
  "executions_left t = (if degree t = 1 then 1 else nat (\<bar>degree t\<bar> - int (scheduled_count t)))"

definition ps_shape :: "topology \<Rightarrow> process_scheduler \<Rightarrow> bool" where
  "ps_shape tp ps =
     (length (per_cpu_queue_strict ps) = per_level_count tp TOPO_CPU \<and>
      length (per_cpu_queue_preferred ps) = per_level_count tp TOPO_CPU \<and>
      length (per_numa_queue_strict ps) = per_level_count tp TOPO_NUMA \<and>
      length (per_numa_queue_preferred ps) = per_level_count tp TOPO_NUMA)"

text \<open>An affinity names a domain the topology has.\<close>

definition affinity_ok :: "topology \<Rightarrow> nosv_affinity \<Rightarrow> bool" where
  "affinity_ok tp a =
     (case aff_level a of
        NOSV_AFFINITY_LEVEL_CPU \<Rightarrow> \<exists>i < per_level_count tp TOPO_CPU. topo_dom_lid tp TOPO_CPU (int (aff_index a)) = Some (int i)
      | NOSV_AFFINITY_LEVEL_NUMA \<Rightarrow> \<exists>i < per_level_count tp TOPO_NUMA. topo_dom_lid tp TOPO_NUMA (int (aff_index a)) = Some (int i)
      | _ \<Rightarrow> True)"

definition task_ok :: "topology \<Rightarrow> nosv_task \<Rightarrow> bool" where
  "task_ok tp t = (degree t \<noteq> 0 \<and> (degree t = 1 \<or> int (scheduled_count t) < \<bar>degree t\<bar>) \<and> affinity_ok tp (affinity t))"

definition ps_inv :: "topology \<Rightarrow> store \<Rightarrow> process_scheduler \<Rightarrow> bool" where
  "ps_inv tp st ps =
     ((\<forall>ref q. get_queue ps ref = Some q \<longrightarrow> queue_ok st q) \<and>
      (\<forall>ref q t. get_queue ps ref = Some q \<longrightarrow> ref \<noteq> General \<longrightarrow> t \<in> set (queue_tasks q) \<longrightarrow>
         affine_queue tp (affinity (st t)) = Some ref) \<and>
      tree_ok (\<lambda>t. deadline (st t)) (deadline_tasks ps) \<and>
      (\<forall>t. count (ps_elems ps) t \<le> 1) \<and> ps_shape tp ps \<and>
      (\<forall>t \<in># ps_elems ps. task_ok tp (st t)) \<and>
      (\<forall>t \<in> set (yield_tasks ps) \<union> set (inorder (deadline_tasks ps)). \<not> task_is_parallel (st t)) \<and>
      ps_tasks ps = (\<Sum>t \<in># ps_elems ps. executions_left (st t)) \<and> ps_tasks ps < 2 ^ 64)"

text \<open>What the proofs need to know about a change of the store.\<close>

definition core_eq :: "store \<Rightarrow> store \<Rightarrow> bool" where
  "core_eq st st' =
     (\<forall>t. priority (st' t) = priority (st t) \<and> degree (st' t) = degree (st t) \<and>
          scheduled_count (st' t) = scheduled_count (st t) \<and> affinity (st' t) = affinity (st t) \<and>
          task_type (st' t) = task_type (st t))"

lemma hooks_core_eq: "hooks_only A st st' \<Longrightarrow> core_eq st st'"
  by (simp add: core_eq_def hooks_only_fields)

lemma core_eq_trans: "core_eq st st' \<Longrightarrow> core_eq st' st'' \<Longrightarrow> core_eq st st''"
  by (simp add: core_eq_def)

lemma core_eq_refl [simp]: "core_eq st st"
  by (simp add: core_eq_def)

lemma core_eq_wake_up: "core_eq st (deadline_task_wake_up st t)"
  by (simp add: core_eq_def deadline_task_wake_up_def task_upd_def)

lemma core_eq_hook: "core_eq st (task_upd st t (\<lambda>k. k \<lparr> hook_word := w \<rparr>))"
  by (simp add: core_eq_def task_upd_def)

lemma core_eqD:
  assumes "core_eq st st'"
  shows "queue_ok st' q = queue_ok st q" "task_ok tp (st' t) = task_ok tp (st t)"
    "executions_left (st' t) = executions_left (st t)" "task_is_parallel (st' t) = task_is_parallel (st t)"
    "affinity (st' t) = affinity (st t)" "task_affine tp m st' t cpu = task_affine tp m st t cpu"
proof -
  show a: "affinity (st' t) = affinity (st t)" using assms by (simp add: core_eq_def)
  show "task_affine tp m st' t cpu = task_affine tp m st t cpu" by (simp only: task_affine_def a)
  show "queue_ok st' q = queue_ok st q" using assms by (intro queue_ok_cong) (simp add: core_eq_def)
qed (use assms in \<open>simp_all add: core_eq_def task_ok_def executions_left_def task_is_parallel_def\<close>)

lemma key_sorted_cong: "(\<And>t. t \<in> set xs \<Longrightarrow> key t = key' t) \<Longrightarrow> key_sorted key xs = key_sorted key' xs"
  by (induction xs) (auto simp: key_sorted_Cons key_sorted_def)

lemma tree_ok_cong: "(\<And>t. t \<in> set (inorder tr) \<Longrightarrow> key t = key' t) \<Longrightarrow> tree_ok key tr = tree_ok key' tr"
  unfolding tree_ok_def using key_sorted_cong [of "inorder tr" key key'] by simp

subsection \<open>Removing and inserting tasks\<close>

text \<open>The invariant without the counter: while a task is in transit the counter is one task ahead.\<close>

definition ps_places :: "topology \<Rightarrow> store \<Rightarrow> process_scheduler \<Rightarrow> bool" where
  "ps_places tp st ps =
     ((\<forall>ref q. get_queue ps ref = Some q \<longrightarrow> queue_ok st q) \<and>
      (\<forall>ref q t. get_queue ps ref = Some q \<longrightarrow> ref \<noteq> General \<longrightarrow> t \<in> set (queue_tasks q) \<longrightarrow>
         affine_queue tp (affinity (st t)) = Some ref) \<and>
      tree_ok (\<lambda>t. deadline (st t)) (deadline_tasks ps) \<and>
      (\<forall>t. count (ps_elems ps) t \<le> 1) \<and> ps_shape tp ps \<and>
      (\<forall>t \<in># ps_elems ps. task_ok tp (st t)) \<and>
      (\<forall>t \<in> set (yield_tasks ps) \<union> set (inorder (deadline_tasks ps)). \<not> task_is_parallel (st t)))"

lemma ps_inv_places:
  "ps_inv tp st ps = (ps_places tp st ps \<and> ps_tasks ps = (\<Sum>t \<in># ps_elems ps. executions_left (st t)) \<and> ps_tasks ps < 2 ^ 64)"
  by (auto simp: ps_inv_def ps_places_def)

lemma places_store:
  assumes "ps_places tp st ps" "core_eq st st'" "\<And>t. t \<in> set (inorder (deadline_tasks ps)) \<Longrightarrow> deadline (st' t) = deadline (st t)"
  shows "ps_places tp st' ps"
proof -
  have "tree_ok (\<lambda>t. deadline (st' t)) (deadline_tasks ps) = tree_ok (\<lambda>t. deadline (st t)) (deadline_tasks ps)"
    by (rule tree_ok_cong) (rule assms(3))
  then show ?thesis using assms(1) unfolding ps_places_def core_eqD [OF assms(2)] by simp
qed

lemma affine_queue_ok:
  assumes "ps_shape tp ps" "affinity_ok tp a" "aff_level a = NOSV_AFFINITY_LEVEL_CPU \<or> aff_level a = NOSV_AFFINITY_LEVEL_NUMA"
  shows "\<exists>ref q. affine_queue tp a = Some ref \<and> ref \<noteq> General \<and> get_queue ps ref = Some q"
  using assms by (auto simp: affine_queue_def affinity_ok_def ps_shape_def)

lemma not_affine_level:
  "task_affine tp m st t cpu = Some False \<Longrightarrow>
   aff_level (affinity (st t)) = NOSV_AFFINITY_LEVEL_CPU \<or> aff_level (affinity (st t)) = NOSV_AFFINITY_LEVEL_NUMA"
  by (auto simp: task_affine_def split: affinity_level.splits)

lemma task_affine_Some:
  assumes "topo_ok tp m" "cpu < per_level_count tp TOPO_CPU" "affinity_ok tp (affinity (st t))"
  shows "\<exists>b. task_affine tp m st t cpu = Some b"
proof -
  obtain n where "cpu_parent_lid tp m cpu TOPO_NUMA = Some (int n)" "n < per_level_count tp TOPO_NUMA"
    using cpu_parent_numa_ok [OF assms(1,2)] by blast
  moreover have "level_ok tp TOPO_NUMA" using assms(1) by (simp add: topo_ok_def)
  ultimately show ?thesis using assms(3) topo_dom_sid_ok [of tp TOPO_NUMA n]
    by (auto simp: task_affine_def affinity_ok_def split: affinity_level.splits)
qed

text \<open>What a search leaves alone in the process scheduler.\<close>

definition same_ids :: "process_scheduler \<Rightarrow> process_scheduler \<Rightarrow> bool" where
  "same_ids ps ps' =
     (served_tasks ps' = served_tasks ps \<and> ps_pid ps' = ps_pid ps \<and> shutdown ps' = shutdown ps \<and>
      last_shutdown ps' = last_shutdown ps)"

lemma same_ids_refl [simp]: "same_ids ps ps"
  by (simp add: same_ids_def)

definition same_counts :: "process_scheduler \<Rightarrow> process_scheduler \<Rightarrow> bool" where
  "same_counts ps ps' = (ps_tasks ps' = ps_tasks ps \<and> same_ids ps ps')"

text \<open>Only tasks of the process change, and none changes its type.\<close>

definition within :: "process_scheduler \<Rightarrow> store \<Rightarrow> store \<Rightarrow> bool" where
  "within ps st st' = (\<forall>x. (x \<notin># ps_elems ps \<longrightarrow> st' x = st x) \<and> task_type (st' x) = task_type (st x))"

lemma within_refl [simp]: "within ps st st"
  by (simp add: within_def)

lemma within_trans: "within ps st st' \<Longrightarrow> within ps' st' st'' \<Longrightarrow> ps_elems ps' \<subseteq># ps_elems ps \<Longrightarrow> within ps st st''"
  unfolding within_def by (metis mset_subset_eqD)

lemma hooks_within: "hooks_only A st st' \<Longrightarrow> A \<subseteq> set_mset (ps_elems ps) \<Longrightarrow> within ps st st'"
  using hooks_only_fields(6) [of A st st'] by (auto simp: within_def hooks_only_def)

lemma upd_within: "t \<in># ps_elems ps \<Longrightarrow> task_type (f (st t)) = task_type (st t) \<Longrightarrow> within ps st (task_upd st t f)"
  by (auto simp: within_def task_upd_def)

text \<open>Inserting a task that is nowhere else into its affine queue.\<close>

lemma insert_affine_places:
  assumes inv: "ps_places tp st ps" and t: "t \<notin># ps_elems ps" "task_ok tp (st t)"
    and lvl: "aff_level (affinity (st t)) = NOSV_AFFINITY_LEVEL_CPU \<or> aff_level (affinity (st t)) = NOSV_AFFINITY_LEVEL_NUMA"
  shows "\<exists>st' ps'. scheduler_insert_affine tp st ps t = Some (st', ps') \<and> ps_places tp st' ps' \<and>
    ps_elems ps' = add_mset t (ps_elems ps) \<and> core_eq st st' \<and>
    yield_tasks ps' = yield_tasks ps \<and> deadline_tasks ps' = deadline_tasks ps \<and> ps_queue ps' = ps_queue ps \<and>
    same_counts ps ps' \<and>
    (\<forall>x. deadline (st' x) = deadline (st x)) \<and> hooks_only (insert t (set_mset (ps_elems ps))) st st'"
proof -
  obtain ref q where ref: "affine_queue tp (affinity (st t)) = Some ref" "ref \<noteq> General" "get_queue ps ref = Some q"
    using affine_queue_ok [of tp ps "affinity (st t)"] inv t(2) lvl by (auto simp: ps_places_def task_ok_def)
  have q: "queue_ok st q" using inv ref(3) by (simp add: ps_places_def)
  have sub: "mset (queue_tasks q) \<subseteq># ps_elems ps" by (rule queue_subset_elems [OF ref(3)])
  then have nq: "t \<notin> set (queue_tasks q)" using t(1) by (metis mset_subset_eqD set_mset_mset)
  obtain st' q' where a: "scheduler_add_queue st q t = (st', q')" by (cases "scheduler_add_queue st q t")
  have r: "queue_tasks q' = stable_insert (prio_of st) t (queue_tasks q)" "queue_ok st' q'"
    "hooks_only (insert t (set (queue_tasks q))) st st'"
    using scheduler_add_queue_adds [OF q nq] by (auto simp: adds_def a)
  have core: "core_eq st st'" by (rule hooks_core_eq [OF r(3)])
  have dl: "deadline (st' x) = deadline (st x)" for x using hooks_only_fields(2) [OF r(3)] .
  let ?p = "if aff_type (affinity (st t)) = NOSV_AFFINITY_TYPE_PREFERRED
      then ps \<lparr> preferred_affinity_tasks := u64_add (preferred_affinity_tasks ps) 1 \<rparr> else ps"
  let ?ps = "set_queue ?p ref q'"
  have gp: "get_queue ?p r' = get_queue ps r'" for r' by (cases r') auto
  have ep: "ps_elems ?p = ps_elems ps" by (simp add: ps_elems_def)
  have e: "ps_elems ?ps = add_mset t (ps_elems ps)"
    using elems_set_queue [of ?p ref q q'] gp ref(3) ep r(1) by simp
  have "ps_places tp st' ?ps"
  proof -
    have ps': "ps_places tp st' ps" by (rule places_store [OF inv core]) (simp add: dl)
    have cnt: "\<forall>x. count (ps_elems ?ps) x \<le> 1" using ps' t(1) by (auto simp: e ps_places_def not_in_iff)
    have qs: "\<forall>r' x. get_queue ?ps r' = Some x \<longrightarrow> queue_ok st' x"
      using ps' r(2) by (auto simp: get_set_queue [of ?p ref q q', unfolded gp, OF ref(3)] ps_places_def)
    have pl: "\<forall>r' x y. get_queue ?ps r' = Some x \<longrightarrow> r' \<noteq> General \<longrightarrow> y \<in> set (queue_tasks x) \<longrightarrow>
        affine_queue tp (affinity (st' y)) = Some r'"
      using ps' r(1) ref core_eqD(5) [OF core]
      by (auto simp: get_set_queue [of ?p ref q q', unfolded gp, OF ref(3)] ps_places_def split: if_splits)
    show ?thesis using ps' cnt qs pl t(2) core_eqD(2) [OF core]
      by (auto simp: ps_places_def e ps_shape_def)
  qed
  moreover have "scheduler_insert_affine tp st ps t = Some (st', ?ps)"
    using ref a by (simp add: scheduler_insert_affine_def)
  moreover have "ps_queue ?ps = ps_queue ps" using ref(2) by (cases ref) auto
  moreover have "hooks_only (insert t (set_mset (ps_elems ps))) st st'"
    using sub by (intro hooks_only_mono [OF r(3)]) (auto dest: mset_subset_eqD)
  moreover have "same_counts ps ?ps" by (cases ref) (auto simp: same_counts_def same_ids_def)
  ultimately show ?thesis using e core dl by (intro exI [of _ st'] exI [of _ ?ps]) simp
qed

subsection \<open>Moving and taking tasks\<close>

text \<open>\<open>moved\<close>: tasks went from one place to another. \<open>taken\<close>: one task has left, not yet executed.
  \<open>executed\<close>: one task has been given an execution and \<open>removed\<close> executions have left the process.\<close>

definition moved :: "topology \<Rightarrow> store \<times> process_scheduler \<Rightarrow> store \<times> process_scheduler \<Rightarrow> bool" where
  "moved tp s s' =
     (ps_places tp (fst s') (snd s') \<and> ps_elems (snd s') = ps_elems (snd s) \<and> core_eq (fst s) (fst s') \<and>
      same_counts (snd s) (snd s') \<and> within (snd s) (fst s) (fst s'))"

definition taken :: "topology \<Rightarrow> task_id \<Rightarrow> store \<times> process_scheduler \<Rightarrow> store \<times> process_scheduler \<Rightarrow> bool" where
  "taken tp t s s' =
     (ps_places tp (fst s') (snd s') \<and> ps_elems (snd s) = add_mset t (ps_elems (snd s')) \<and> core_eq (fst s) (fst s') \<and>
      same_counts (snd s) (snd s') \<and> within (snd s) (fst s) (fst s'))"

definition total_left :: "store \<times> process_scheduler \<Rightarrow> nat" where
  "total_left s = (\<Sum>t \<in># ps_elems (snd s). executions_left (fst s t))"

definition executed :: "topology \<Rightarrow> task_id \<Rightarrow> nat \<Rightarrow> store \<times> process_scheduler \<Rightarrow> store \<times> process_scheduler \<Rightarrow> bool" where
  "executed tp t removed s s' =
     (ps_places tp (fst s') (snd s') \<and> t \<in># ps_elems (snd s) \<and>
      (ps_elems (snd s') = ps_elems (snd s) \<or> ps_elems (snd s) = add_mset t (ps_elems (snd s'))) \<and>
      scheduled_count (fst s' t) = scheduled_count (fst s t) + 1 \<and> affinity (fst s' t) = affinity (fst s t) \<and>
      total_left s = total_left s' + removed \<and> 1 \<le> removed \<and> same_counts (snd s) (snd s') \<and>
      within (snd s) (fst s) (fst s'))"

lemma moved_refl: "ps_places tp st ps \<Longrightarrow> moved tp (st, ps) (st, ps)"
  by (simp add: moved_def same_counts_def same_ids_def)

lemma moved_trans: "moved tp s s' \<Longrightarrow> moved tp s' s'' \<Longrightarrow> moved tp s s''"
  by (auto simp: moved_def same_counts_def same_ids_def intro: core_eq_trans within_trans)

lemma total_left_core: "core_eq (fst s) (fst s') \<Longrightarrow> ps_elems (snd s') = ps_elems (snd s) \<Longrightarrow> total_left s' = total_left s"
  by (simp add: total_left_def core_eqD)

lemma moved_total: "moved tp s s' \<Longrightarrow> total_left s' = total_left s"
  by (rule total_left_core) (auto simp: moved_def)

lemma moved_executed: "moved tp s s' \<Longrightarrow> executed tp t n s' s'' \<Longrightarrow> executed tp t n s s''"
  using moved_total [of tp s s'] by (auto simp: moved_def executed_def same_counts_def same_ids_def core_eq_def intro: within_trans)

lemma moved_taken: "moved tp s s' \<Longrightarrow> taken tp t s' s'' \<Longrightarrow> taken tp t s s''"
  by (auto simp: moved_def taken_def same_counts_def same_ids_def intro: core_eq_trans within_trans)

lemma places_fresh:
  assumes "ps_places tp st ps" "ps_elems ps = add_mset t M"
  shows "t \<notin># M" "task_ok tp (st t)"
proof -
  have "count (ps_elems ps) t \<le> 1" using assms(1) unfolding ps_places_def by blast
  then show "t \<notin># M" using assms(2) by (simp add: not_in_iff)
  show "task_ok tp (st t)" using assms unfolding ps_places_def by (metis union_single_eq_member)
qed

text \<open>A taken task that is not affine goes to its affine queue.\<close>

lemma taken_insert_affine:
  assumes "taken tp t (st, ps) (st1, ps1)" "ps_places tp st ps" "task_affine tp m st1 t cpu = Some False"
  shows "\<exists>st2 ps2. scheduler_insert_affine tp st1 ps1 t = Some (st2, ps2) \<and> moved tp (st, ps) (st2, ps2) \<and>
    yield_tasks ps2 = yield_tasks ps1 \<and> deadline_tasks ps2 = deadline_tasks ps1 \<and> ps_queue ps2 = ps_queue ps1"
proof -
  have e: "ps_elems ps = add_mset t (ps_elems ps1)" and p1: "ps_places tp st1 ps1" and c: "core_eq st st1"
    using assms(1) by (auto simp: taken_def)
  have t: "t \<notin># ps_elems ps1" "task_ok tp (st1 t)"
    using places_fresh [OF assms(2) e] core_eqD(2) [OF c] by auto
  obtain st2 ps2 where "scheduler_insert_affine tp st1 ps1 t = Some (st2, ps2)" "ps_places tp st2 ps2"
    "ps_elems ps2 = add_mset t (ps_elems ps1)" "core_eq st1 st2" "yield_tasks ps2 = yield_tasks ps1"
    "deadline_tasks ps2 = deadline_tasks ps1" "ps_queue ps2 = ps_queue ps1" "same_counts ps1 ps2"
    and h: "hooks_only (insert t (set_mset (ps_elems ps1))) st1 st2"
    using insert_affine_places [OF p1 t not_affine_level [OF assms(3)]] by blast
  moreover have "within ps st1 st2" by (rule hooks_within [OF h]) (simp add: e)
  then have "within ps st st2" using assms(1) by (auto simp: taken_def intro: within_trans)
  ultimately show ?thesis using assms(1) e core_eq_trans [OF c]
    by (auto simp: moved_def taken_def same_counts_def same_ids_def)
qed

lemma places_count:
  assumes "ps_places tp st ps" "t \<notin># ps_elems ps"
  shows "ps_places tp (count_execution st t) ps"
proof -
  let ?st = "count_execution st t"
  have f: "priority (?st x) = priority (st x)" "deadline (?st x) = deadline (st x)" "affinity (?st x) = affinity (st x)"
    "degree (?st x) = degree (st x)" for x by (simp_all add: count_execution_def task_upd_def)
  have "queue_ok ?st q = queue_ok st q" for q by (rule queue_ok_cong) (rule f)
  moreover have "task_ok tp (?st x) = task_ok tp (st x)" if "x \<in># ps_elems ps" for x
    using that assms(2) by (cases "x = t") (auto simp: count_execution_def)
  ultimately show ?thesis using assms(1) by (simp add: ps_places_def f task_is_parallel_def)
qed

lemma task_affine_count: "task_affine tp m (count_execution st t) t cpu = task_affine tp m st t cpu"
proof -
  have a: "affinity (count_execution st t t) = affinity (st t)" by (simp add: count_execution_def)
  show ?thesis by (simp only: task_affine_def a)
qed

text \<open>A taken task that is not parallel and is executed had exactly one execution left.\<close>

lemma taken_executed:
  assumes "taken tp t (st, ps) (st1, ps1)" "ps_places tp st ps" "\<not> task_is_parallel (st t)"
  shows "executed tp t 1 (st, ps) (count_execution st1 t, ps1)"
proof -
  have e: "ps_elems ps = add_mset t (ps_elems ps1)" and p1: "ps_places tp st1 ps1" and c: "core_eq st st1"
    using assms(1) by (auto simp: taken_def)
  note t = places_fresh(1) [OF assms(2) e] and tk = places_fresh(2) [OF assms(2) e]
  have "executions_left (st t) = 1" using tk assms(3)
    by (auto simp: task_ok_def task_is_parallel_def executions_left_def)
  moreover have "(\<Sum>x \<in># ps_elems ps1. executions_left (count_execution st1 t x)) = (\<Sum>x \<in># ps_elems ps1. executions_left (st x))"
    by (rule arg_cong [where f = sum_mset], rule image_mset_cong)
      (use t core_eqD(3) [OF c] in \<open>auto simp: count_execution_def task_upd_def\<close>)
  ultimately show ?thesis
    using places_count [OF p1 t] assms(1) e c
    by (auto simp: executed_def taken_def total_left_def count_execution_def core_eq_def intro!: within_trans [OF _ upd_within])
qed

subsection \<open>Taking tasks from the deadline tree, the yield list and the queues\<close>

lemma places_fewer:
  assumes "ps_places tp st ps" "core_eq st st'" "ps_elems ps = add_mset t (ps_elems ps')"
    "\<And>ref. get_queue ps' ref = get_queue ps ref" "ps_shape tp ps'"
    "set (yield_tasks ps') \<union> set (inorder (deadline_tasks ps')) \<subseteq> set (yield_tasks ps) \<union> set (inorder (deadline_tasks ps))"
    "tree_ok (\<lambda>t. deadline (st' t)) (deadline_tasks ps')"
  shows "ps_places tp st' ps'"
proof -
  have "count (ps_elems ps') x \<le> 1" for x
    using assms(1,3) unfolding ps_places_def by (metis count_add_mset le_SucE le_less_linear not_less_eq order.trans nle_le Suc_leD)
  moreover have "\<forall>x \<in># ps_elems ps'. task_ok tp (st' x)"
    using assms(1,3) core_eqD(2) [OF assms(2)] unfolding ps_places_def by auto
  ultimately show ?thesis using assms(1,4-7) core_eqD [OF assms(2)]
    unfolding ps_places_def by (auto simp: subset_iff)
qed

lemma deadline_expired_taken:
  assumes inv: "ps_places tp st ps" and r: "scheduler_get_deadline_expired clk st ps = (clk', st', ps', res)"
  shows "yield_tasks ps' = yield_tasks ps \<and> ps_queue ps' = ps_queue ps \<and>
    (case res of
       None \<Rightarrow> moved tp (st, ps) (st', ps')
     | Some t \<Rightarrow> taken tp t (st, ps) (st', ps') \<and> \<not> task_is_parallel (st t) \<and>
         length (inorder (deadline_tasks ps)) = Suc (length (inorder (deadline_tasks ps'))))"
proof (cases "rb_min (deadline_tasks ps)")
  case None
  then show ?thesis using r moved_refl [OF inv] by (simp add: scheduler_get_deadline_expired_def)
next
  case (Some t)
  let ?T = "deadline_tasks ps" and ?key = "\<lambda>t. deadline (st t)"
  have tree: "tree_ok ?key ?T" using inv by (simp add: ps_places_def)
  let ?T' = "rb_remove ?T t"
  have io: "inorder ?T = t # inorder ?T'" by (rule dl.del_least [OF tree Some])
  have T': "tree_ok ?key ?T'" using dl.del_law [OF tree] by blast
  have nt: "t \<notin> set (inorder ?T')" using dl.ok_sorted [OF tree] key_sorted_distinct io by fastforce
  have np: "\<not> task_is_parallel (st t)" using inv io by (simp add: ps_places_def)
  let ?st = "deadline_task_wake_up (sync_hooks id ?T' st) t"
  have h: "hooks_only (set (inorder ?T')) st (sync_hooks id ?T' st)" using sync_hooks_only [of id ?T' st] by simp
  have core: "core_eq st ?st" by (rule core_eq_trans [OF hooks_core_eq [OF h] core_eq_wake_up])
  have dl': "deadline (?st x) = deadline (st x)" if "x \<in> set (inorder ?T')" for x
    using that nt hooks_only_fields(2) [OF h] by (cases "x = t") (auto simp: deadline_task_wake_up_def)
  have take: "taken tp t (st, ps) (?st, ps1)"
    if ps1: "ps1 = ps \<lparr> ps_now := n, deadline_tasks := ?T' \<rparr>" for ps1 n
  proof -
    have e: "ps_elems ps = add_mset t (ps_elems ps1)" using io by (simp add: ps_elems_def ps1)
    have g: "get_queue ps1 ref = get_queue ps ref" for ref by (cases ref) (auto simp: ps1)
    have "tree_ok (\<lambda>x. deadline (?st x)) ?T'" using T' tree_ok_cong [of ?T' "\<lambda>x. deadline (?st x)" ?key] dl' by simp
    then have "ps_places tp ?st ps1"
      using inv by (intro places_fewer [OF inv core e g]) (auto simp: ps1 io ps_places_def ps_shape_def)
    moreover have "within ps st (sync_hooks id ?T' st)" by (rule hooks_within [OF h]) (auto simp: io ps_elems_def)
    then have "within ps st ?st" unfolding deadline_task_wake_up_def
      by (rule within_trans [OF _ upd_within [where ps = ps]]) (auto simp: e)
    ultimately show ?thesis using e core by (simp add: taken_def same_counts_def same_ids_def ps1)
  qed
  have stay: "moved tp (st, ps) (st, ps \<lparr> ps_now := n \<rparr>)" for n
  proof -
    have "get_queue (ps \<lparr> ps_now := n \<rparr>) ref = get_queue ps ref" for ref by (cases ref) auto
    then show ?thesis using inv by (simp add: moved_def same_counts_def same_ids_def ps_places_def ps_shape_def ps_elems_def)
  qed
  show ?thesis
  proof (cases "?key t < ps_now ps")
    case True
    then have "res = Some t" "st' = ?st" "ps' = ps \<lparr> deadline_tasks := ?T' \<rparr>"
      using r Some by (auto simp: scheduler_get_deadline_expired_def deadline_remove_def Let_def)
    then show ?thesis using take [of ps' "ps_now ps"] np io by simp
  next
    case False
    define now where "now = fst (clock_ns clk)"
    show ?thesis
    proof (cases "?key t < now")
      case True
      then have "res = Some t" "st' = ?st" "ps' = ps \<lparr> ps_now := now, deadline_tasks := ?T' \<rparr>"
        using r Some False by (auto simp: scheduler_get_deadline_expired_def deadline_remove_def Let_def now_def split: prod.splits)
      then show ?thesis using take [of ps' now] np io by simp
    next
      case F: False
      then have "res = None" "st' = st" "ps' = ps \<lparr> ps_now := now \<rparr>"
        using r Some False by (auto simp: scheduler_get_deadline_expired_def Let_def now_def split: prod.splits)
      then show ?thesis using stay [of now] by simp
    qed
  qed
qed

lemma yield_taken:
  assumes inv: "ps_places tp st ps" and y: "yield_tasks ps = t # rest"
  shows "taken tp t (st, ps) (task_upd st t (\<lambda>k. k \<lparr> hook_word := 0 \<rparr>), ps \<lparr> yield_tasks := rest \<rparr>)"
    "\<not> task_is_parallel (st t)"
proof -
  let ?st = "task_upd st t (\<lambda>k. k \<lparr> hook_word := 0 \<rparr>)" and ?ps = "ps \<lparr> yield_tasks := rest \<rparr>"
  have e: "ps_elems ps = add_mset t (ps_elems ?ps)" by (simp add: ps_elems_def y)
  have g: "get_queue ?ps ref = get_queue ps ref" for ref by (cases ref) auto
  have "tree_ok (\<lambda>x. deadline (?st x)) (deadline_tasks ps)"
    using inv tree_ok_cong [of "deadline_tasks ps" "\<lambda>x. deadline (?st x)" "\<lambda>x. deadline (st x)"]
    by (simp add: ps_places_def task_upd_def)
  then have "ps_places tp ?st ?ps"
    using inv by (intro places_fewer [OF inv core_eq_hook e g]) (auto simp: y ps_places_def ps_shape_def)
  moreover have "within ps st ?st" by (rule upd_within) (simp_all add: e)
  ultimately show "taken tp t (st, ps) (?st, ?ps)" using e core_eq_hook by (simp add: taken_def same_counts_def same_ids_def)
  show "\<not> task_is_parallel (st t)" using inv y by (simp add: ps_places_def)
qed

definition static_eq :: "store \<Rightarrow> store \<Rightarrow> bool" where
  "static_eq st st' =
     (\<forall>t. priority (st' t) = priority (st t) \<and> degree (st' t) = degree (st t) \<and>
          affinity (st' t) = affinity (st t) \<and> deadline (st' t) = deadline (st t))"

lemma hooks_static_eq: "hooks_only A st st' \<Longrightarrow> static_eq st st'"
  by (simp add: static_eq_def hooks_only_fields)

lemma places_set_queue:
  assumes inv: "ps_places tp st ps" and ref: "get_queue ps ref = Some q" and st: "static_eq st st'"
    and q': "queue_ok st' q'" "mset (queue_tasks q') \<subseteq># mset (queue_tasks q)"
    and tk: "\<And>x. x \<in># ps_elems (set_queue ps ref q') \<Longrightarrow> degree (st x) = 1 \<or> int (scheduled_count (st' x)) < \<bar>degree (st x)\<bar>"
  shows "ps_places tp st' (set_queue ps ref q')"
proof -
  let ?ps = "set_queue ps ref q'"
  note f = st [unfolded static_eq_def, rule_format]
  have sub: "ps_elems ?ps \<subseteq># ps_elems ps"
    using elems_set_queue [OF ref, of q'] q'(2)
    by (metis add_le_cancel_right add_left_mono subset_mset.add_le_cancel_right subset_mset.add_left_mono)
  have cnt: "count (ps_elems ?ps) x \<le> 1" for x
    using inv mset_subset_eq_count [OF sub, of x] unfolding ps_places_def by (metis le_trans)
  have ok: "queue_ok st' x = queue_ok st x" for x by (rule queue_ok_cong) (simp add: f)
  have tree: "tree_ok (\<lambda>t. deadline (st' t)) (deadline_tasks ps)"
    using inv tree_ok_cong [of "deadline_tasks ps" "\<lambda>t. deadline (st' t)" "\<lambda>t. deadline (st t)"] by (simp add: ps_places_def f)
  have qs: "\<forall>r x. get_queue ?ps r = Some x \<longrightarrow> queue_ok st' x"
    using inv q'(1) by (auto simp: get_set_queue [OF ref] ps_places_def ok)
  have "set (queue_tasks q') \<subseteq> set (queue_tasks q)" using q'(2) by (metis set_mset_mono set_mset_mset)
  then have pl: "\<forall>r x t. get_queue ?ps r = Some x \<longrightarrow> r \<noteq> General \<longrightarrow> t \<in> set (queue_tasks x) \<longrightarrow>
      affine_queue tp (affinity (st' t)) = Some r"
    using inv ref by (auto simp: get_set_queue [OF ref] ps_places_def f split: if_splits)
  have "\<forall>x \<in># ps_elems ?ps. task_ok tp (st' x)"
    using inv tk mset_subset_eqD [OF sub] by (auto simp: ps_places_def task_ok_def f)
  then show ?thesis using inv cnt tree qs pl
    by (auto simp: ps_places_def f ps_shape_def task_is_parallel_def)
qed

lemma total_left_set_queue:
  assumes inv: "ps_places tp st ps" and ref: "get_queue ps ref = Some q" and q: "queue_tasks q = t # rest"
    and q': "queue_tasks q' = rest" and st: "\<And>x. x \<noteq> t \<Longrightarrow> executions_left (st' x) = executions_left (st x)"
  shows "ps_elems ps = add_mset t (ps_elems (set_queue ps ref q'))"
    "total_left (st, ps) = total_left (st', set_queue ps ref q') + executions_left (st t)"
proof -
  let ?ps = "set_queue ps ref q'"
  show e: "ps_elems ps = add_mset t (ps_elems ?ps)" using elems_set_queue [OF ref, of q'] by (simp add: q q')
  have "(\<Sum>x \<in># ps_elems ?ps. executions_left (st' x)) = (\<Sum>x \<in># ps_elems ?ps. executions_left (st x))"
    by (rule arg_cong [where f = sum_mset], rule image_mset_cong) (metis st places_fresh(1) [OF inv e])
  then show "total_left (st, ps) = total_left (st', ?ps) + executions_left (st t)" by (simp add: total_left_def e)
qed

lemma executions_left_other:
  "hooks_only A (count_execution st t) st' \<Longrightarrow> x \<noteq> t \<Longrightarrow> executions_left (st' x) = executions_left (st x)"
  by (simp add: executions_left_def hooks_only_fields count_execution_def)

lemma queue_task_ok:
  assumes "ps_places tp st ps" "get_queue ps ref = Some q" "t \<in> set (queue_tasks q)"
  shows "t \<in># ps_elems ps" "task_ok tp (st t)"
proof -
  show "t \<in># ps_elems ps" using mset_subset_eqD [OF queue_subset_elems [OF assms(2)]] assms(3) by simp
  then show "task_ok tp (st t)" using assms(1) by (simp add: ps_places_def)
qed

lemma get_from_executed:
  assumes inv: "ps_places tp st ps" and ref: "get_queue ps ref = Some q"
  shows "\<exists>st' ps' removed r. get_from ref (clk, st, ps) = Some ((clk, st', ps'), removed, r) \<and>
    (case r of
       None \<Rightarrow> queue_tasks q = [] \<and> moved tp (st, ps) (st', ps') \<and> removed = 1 \<and>
         (\<forall>ref'. get_queue ps' ref' = get_queue ps ref') \<and> ps_queue ps' = ps_queue ps
     | Some t \<Rightarrow> (\<exists>rest. queue_tasks q = t # rest) \<and> 1 \<le> removed \<and> executed tp t (nat removed) (st, ps) (st', ps'))"
proof (cases "queue_tasks q")
  case Nil
  have ok: "queue_ok st q" using inv ref by (simp add: ps_places_def)
  have f: "scheduler_find_in_queue q = None" using queue_tasks_find [OF ok] Nil by simp
  have g: "get_queue (set_queue ps ref q) r = get_queue ps r" for r using get_set_queue [OF ref, of q r] ref by auto
  have "moved tp (st, ps) (st, set_queue ps ref q)"
    using places_set_queue [OF inv ref, of st q] inv elems_set_queue [OF ref, of q] ok
    by (auto simp: moved_def same_counts_def same_ids_def static_eq_def ps_places_def task_ok_def)
  then show ?thesis using f ref g Nil g [of General] by (simp add: get_from_def scheduler_get_from_queue_def)
next
  case (Cons t rest)
  have ok: "queue_ok st q" using inv ref by (simp add: ps_places_def)
  note tk = queue_task_ok [OF inv ref, of t]
  have tE: "t \<in># ps_elems ps" and tok: "degree (st t) \<noteq> 0" "degree (st t) = 1 \<or> int (scheduled_count (st t)) < \<bar>degree (st t)\<bar>"
    using tk Cons by (auto simp: task_ok_def)
  have f: "scheduler_find_in_queue q = Some t" using queue_tasks_find [OF ok] Cons by simp
  let ?st = "count_execution st t"
  have ok1: "queue_ok ?st q" by (rule iffD2 [OF queue_ok_cong ok]) (simp add: count_execution_def task_upd_def)
  obtain st2 q2 where p: "scheduler_pop_queue ?st q t = Some (st2, q2)" "queue_tasks q2 = rest" "queue_ok st2 q2"
    "hooks_only (set (queue_tasks q)) ?st st2"
    using scheduler_pop_queue_pops [OF ok1 Cons] by (auto simp: pops_def)
  have sE: "static_eq st ?st" by (simp add: static_eq_def count_execution_def task_upd_def)
  have s2: "static_eq st st2" using sE hooks_static_eq [OF p(4)] by (simp add: static_eq_def)
  let ?ps2 = "set_queue ps ref q2"
  note tl = total_left_set_queue [OF inv ref Cons p(2), of st2, OF executions_left_other [OF p(4)]]
  have sc2: "scheduled_count (st2 x) = scheduled_count (?st x)" for x by (rule hooks_only_fields(4) [OF p(4)])
  have "degree (st x) = 1 \<or> int (scheduled_count (st2 x)) < \<bar>degree (st x)\<bar>" if "x \<in># ps_elems ?ps2" for x
    using that places_fresh(1) [OF inv tl(1)] inv tl(1)
    by (cases "x = t") (auto simp: sc2 count_execution_def ps_places_def task_ok_def)
  then have pl2: "ps_places tp st2 ?ps2"
    by (intro places_set_queue [OF inv ref s2 p(3)]) (simp_all add: p(2) Cons)
  have we: "within ps st ?st" unfolding count_execution_def by (rule upd_within [OF tE]) simp
  have "set (queue_tasks q) \<subseteq> set_mset (ps_elems ps)" using queue_subset_elems [OF ref] by (metis set_mset_mono set_mset_mset)
  then have w2: "within ps st st2" by (rule within_trans [OF we hooks_within [OF p(4)]]) simp
  have ex2: "executed tp t (executions_left (st t)) (st, ps) (st2, ?ps2)"
    using pl2 tl tE tok sc2 [of t] s2 w2
    by (auto simp: executed_def same_counts_def same_ids_def static_eq_def executions_left_def count_execution_def)
  consider (cancelled) "degree (st t) < 0" | (last) "0 < degree (st t)" "degree (st t) \<le> int (scheduled_count (st t)) + 1" "executions_left (st t) = 1"
    | (more) "1 < degree (st t)" "int (scheduled_count (st t)) + 1 < degree (st t)"
    using tok by (cases "degree (st t) = 1") (auto simp: executions_left_def, linarith+)
  then show ?thesis
  proof cases
    case cancelled
    let ?r = "- degree (st t) - int (scheduled_count (st t))"
    have "nat ?r = executions_left (st t)" "1 \<le> ?r" using cancelled tok by (auto simp: executions_left_def)
    moreover have "get_from ref (clk, st, ps) = Some ((clk, st2, ?ps2), ?r, Some t)"
      using cancelled tok ref f p(1) by (simp add: get_from_def scheduler_get_from_queue_def count_execution_def)
    ultimately show ?thesis using ex2 Cons by simp
  next
    case last
    then have "executions_left (st t) = 1" by simp
    moreover have "get_from ref (clk, st, ps) = Some ((clk, st2, ?ps2), 1, Some t)"
      using last ref f p(1) by (simp add: get_from_def scheduler_get_from_queue_def count_execution_def)
    ultimately show ?thesis using ex2 Cons by simp
  next
    case more
    let ?st3 = "task_upd ?st t (\<lambda>k. k \<lparr> event_count := event_count k + 1 \<rparr>)"
    have s3: "static_eq st ?st3" by (simp add: static_eq_def count_execution_def task_upd_def)
    have ok3: "queue_ok ?st3 q" by (rule iffD2 [OF queue_ok_cong ok]) (simp add: count_execution_def task_upd_def)
    have e3: "ps_elems (set_queue ps ref q) = ps_elems ps" using elems_set_queue [OF ref, of q] by simp
    have "degree (st x) = 1 \<or> int (scheduled_count (?st3 x)) < \<bar>degree (st x)\<bar>" if "x \<in># ps_elems ps" for x
      using that more inv by (cases "x = t") (auto simp: count_execution_def ps_places_def task_ok_def)
    then have pl3: "ps_places tp ?st3 (set_queue ps ref q)"
      by (intro places_set_queue [OF inv ref s3 ok3]) (simp_all add: e3)
    obtain M where M: "ps_elems ps = add_mset t M" using tE by (metis mset_add)
    have "(\<Sum>x \<in># M. executions_left (?st3 x)) = (\<Sum>x \<in># M. executions_left (st x))"
      by (rule arg_cong [where f = sum_mset], rule image_mset_cong)
        (use places_fresh(1) [OF inv M] in \<open>auto simp: executions_left_def count_execution_def task_upd_def\<close>)
    moreover have "executions_left (st t) = Suc (executions_left (?st3 t))"
      using more by (simp add: executions_left_def count_execution_def)
    ultimately have "total_left (st, ps) = total_left (?st3, set_queue ps ref q) + 1"
      by (simp add: total_left_def e3 M)
    moreover have "within ps st ?st3" by (rule within_trans [OF we upd_within [OF tE]]) simp_all
    ultimately have "executed tp t 1 (st, ps) (?st3, set_queue ps ref q)"
      using pl3 tE e3 by (simp add: executed_def same_counts_def same_ids_def count_execution_def)
    moreover have "get_from ref (clk, st, ps) = Some ((clk, ?st3, set_queue ps ref q), 1, Some t)"
      using more ref f by (simp add: get_from_def scheduler_get_from_queue_def count_execution_def)
    ultimately show ?thesis using Cons by simp
  qed
qed

subsection \<open>The loops\<close>

text \<open>The result of a search: tasks were moved, and possibly one was executed on this CPU.\<close>

lemma deadline_loop_result:
  assumes "topo_ok tp m" "cpu < per_level_count tp TOPO_CPU" "ps_places tp st ps"
    "length (inorder (deadline_tasks ps)) \<le> fuel"
  shows "\<exists>clk' st' ps' r. deadline_loop tp m cpu fuel (clk, st, ps) = Some ((clk', st', ps'), r) \<and>
    yield_tasks ps' = yield_tasks ps \<and> ps_queue ps' = ps_queue ps \<and>
    (case r of None \<Rightarrow> moved tp (st, ps) (st', ps')
     | Some t \<Rightarrow> executed tp t 1 (st, ps) (st', ps') \<and> task_affine tp m st' t cpu = Some True)"
  using assms(3,4)
proof (induction fuel arbitrary: clk st ps)
  case (0 clk st ps)
  obtain clk1 st1 ps1 r1 where g: "scheduler_get_deadline_expired clk st ps = (clk1, st1, ps1, r1)"
    by (metis prod_cases4)
  have "r1 = None" using deadline_expired_taken [OF 0(1) g] 0(2) by (cases r1) auto
  then show ?case using deadline_expired_taken [OF 0(1) g] g by simp
next
  case (Suc n)
  obtain clk1 st1 ps1 r1 where g: "scheduler_get_deadline_expired clk st ps = (clk1, st1, ps1, r1)"
    by (metis prod_cases4)
  note d = deadline_expired_taken [OF Suc.prems(1) g]
  show ?case
  proof (cases r1)
    case None
    then show ?thesis using d g by simp
  next
    case (Some t)
    then have tk: "taken tp t (st, ps) (st1, ps1)" "\<not> task_is_parallel (st t)"
      and len: "length (inorder (deadline_tasks ps1)) \<le> n" using d Suc.prems(2) by auto
    have core: "core_eq st st1" and e: "ps_elems ps = add_mset t (ps_elems ps1)" using tk(1) by (auto simp: taken_def)
    have np: "\<not> task_is_parallel (st1 t)" using tk(2) core_eqD(4) [OF core] by simp
    have "affinity_ok tp (affinity (st1 t))"
      using places_fresh(2) [OF Suc.prems(1) e] core_eqD(5) [OF core] by (simp add: task_ok_def)
    then obtain b where b: "task_affine tp m st1 t cpu = Some b" using task_affine_Some [OF assms(1,2)] by blast
    show ?thesis
    proof (cases b)
      case True
      then have "task_affine tp m (count_execution st1 t) t cpu = Some True"
        using b by (simp add: task_affine_count)
      then show ?thesis using taken_executed [OF tk(1) Suc.prems(1) tk(2)] Some b True np g d by simp
    next
      case False
      obtain st2 ps2 where i: "scheduler_insert_affine tp st1 ps1 t = Some (st2, ps2)" "moved tp (st, ps) (st2, ps2)"
        "yield_tasks ps2 = yield_tasks ps1" "deadline_tasks ps2 = deadline_tasks ps1" "ps_queue ps2 = ps_queue ps1"
        using taken_insert_affine [OF tk(1) Suc.prems(1), of m cpu] b False by auto
      have "ps_places tp st2 ps2" using i(2) by (simp add: moved_def)
      then obtain clk' st' ps' r where IH: "deadline_loop tp m cpu n (clk1, st2, ps2) = Some ((clk', st', ps'), r)"
        "yield_tasks ps' = yield_tasks ps2" "ps_queue ps' = ps_queue ps2"
        "case r of None \<Rightarrow> moved tp (st2, ps2) (st', ps')
         | Some t \<Rightarrow> executed tp t 1 (st2, ps2) (st', ps') \<and> task_affine tp m st' t cpu = Some True"
        using Suc.IH [of st2 ps2 clk1] len i(4) by auto
      then have "case r of None \<Rightarrow> moved tp (st, ps) (st', ps')
         | Some t \<Rightarrow> executed tp t 1 (st, ps) (st', ps') \<and> task_affine tp m st' t cpu = Some True"
        using moved_trans [OF i(2)] moved_executed [OF i(2)] by (cases r) auto
      then show ?thesis using Some b False np g d i IH by simp
    qed
  qed
qed

lemma yield_loop_result:
  assumes "topo_ok tp m" "cpu < per_level_count tp TOPO_CPU" "ps_places tp st ps" "length (yield_tasks ps) \<le> fuel"
  shows "\<exists>clk' st' ps' r. yield_loop tp m cpu fuel (clk, st, ps) = Some ((clk', st', ps'), r) \<and> ps_queue ps' = ps_queue ps \<and>
    (case r of None \<Rightarrow> moved tp (st, ps) (st', ps')
     | Some t \<Rightarrow> executed tp t 1 (st, ps) (st', ps') \<and> task_affine tp m st' t cpu = Some True)"
  using assms(3,4)
proof (induction fuel arbitrary: clk st ps)
  case (0 clk st ps)
  then show ?case using moved_refl [OF 0(1)] by (simp add: scheduler_get_yield_expired_def)
next
  case (Suc n)
  show ?case
  proof (cases "\<exists>t rest. yield_tasks ps = t # rest \<and> task_yield (st t) \<le> served_tasks ps")
    case False
    then have "scheduler_get_yield_expired st ps = (st, ps, None)"
      by (auto simp: scheduler_get_yield_expired_def split: list.splits)
    then show ?thesis using moved_refl [OF Suc.prems(1)] by simp
  next
    case True
    then obtain t rest where y: "yield_tasks ps = t # rest" "task_yield (st t) \<le> served_tasks ps" by blast
    let ?st1 = "task_upd st t (\<lambda>k. k \<lparr> hook_word := 0 \<rparr>)" and ?ps1 = "ps \<lparr> yield_tasks := rest \<rparr>"
    have g: "scheduler_get_yield_expired st ps = (?st1, ?ps1, Some t)" using y by (simp add: scheduler_get_yield_expired_def)
    note tk = yield_taken [OF Suc.prems(1) y(1)]
    have e: "ps_elems ps = add_mset t (ps_elems ?ps1)" using tk(1) by (simp add: taken_def)
    have np: "\<not> task_is_parallel (?st1 t)" using tk(2) by (simp add: task_is_parallel_def)
    have "affinity_ok tp (affinity (?st1 t))"
      using places_fresh(2) [OF Suc.prems(1) e] core_eqD(5) [OF core_eq_hook] by (simp add: task_ok_def)
    then obtain b where b: "task_affine tp m ?st1 t cpu = Some b" using task_affine_Some [OF assms(1,2)] by blast
    show ?thesis
    proof (cases b)
      case True
      then have "task_affine tp m (count_execution ?st1 t) t cpu = Some True"
        using b by (simp add: task_affine_count)
      then show ?thesis using taken_executed [OF tk(1) Suc.prems(1) tk(2)] b True np g by simp
    next
      case False
      obtain st2 ps2 where i: "scheduler_insert_affine tp ?st1 ?ps1 t = Some (st2, ps2)" "moved tp (st, ps) (st2, ps2)"
        "yield_tasks ps2 = rest" "ps_queue ps2 = ps_queue ps"
        using taken_insert_affine [OF tk(1) Suc.prems(1), of m cpu] b False by auto
      have "ps_places tp st2 ps2" "length (yield_tasks ps2) \<le> n" using i Suc.prems(2) y(1) by (auto simp: moved_def)
      then obtain clk' st' ps' r where IH: "yield_loop tp m cpu n (clk, st2, ps2) = Some ((clk', st', ps'), r)"
        "ps_queue ps' = ps_queue ps2"
        "case r of None \<Rightarrow> moved tp (st2, ps2) (st', ps')
         | Some t \<Rightarrow> executed tp t 1 (st2, ps2) (st', ps') \<and> task_affine tp m st' t cpu = Some True"
        using Suc.IH [of st2 ps2 clk] by auto
      then have "case r of None \<Rightarrow> moved tp (st, ps) (st', ps')
         | Some t \<Rightarrow> executed tp t 1 (st, ps) (st', ps') \<and> task_affine tp m st' t cpu = Some True"
        using moved_trans [OF i(2)] moved_executed [OF i(2)] by (cases r) auto
      then show ?thesis using b False np g i IH by simp
    qed
  qed
qed

lemma pop_taken:
  assumes inv: "ps_places tp st ps" and ref: "get_queue ps ref = Some q" and q: "queue_tasks q = t # rest"
  shows "\<exists>st' q'. scheduler_pop_queue st q t = Some (st', q') \<and> taken tp t (st, ps) (st', set_queue ps ref q') \<and>
    queue_tasks q' = rest"
proof -
  have ok: "queue_ok st q" using inv ref by (simp add: ps_places_def)
  obtain st2 q2 where p: "scheduler_pop_queue st q t = Some (st2, q2)" "queue_tasks q2 = rest" "queue_ok st2 q2"
    "hooks_only (set (queue_tasks q)) st st2"
    using scheduler_pop_queue_pops [OF ok q] by (auto simp: pops_def)
  have e: "ps_elems ps = add_mset t (ps_elems (set_queue ps ref q2))"
    using elems_set_queue [OF ref, of q2] by (simp add: q p(2))
  have "degree (st x) = 1 \<or> int (scheduled_count (st2 x)) < \<bar>degree (st x)\<bar>" if "x \<in># ps_elems (set_queue ps ref q2)" for x
    using that inv e by (auto simp: hooks_only_fields(4) [OF p(4)] ps_places_def task_ok_def)
  then have "ps_places tp st2 (set_queue ps ref q2)"
    by (intro places_set_queue [OF inv ref hooks_static_eq [OF p(4)] p(3)]) (simp_all add: p(2) q)
  moreover have "set (queue_tasks q) \<subseteq> set_mset (ps_elems ps)" using queue_subset_elems [OF ref] by (metis set_mset_mono set_mset_mset)
  then have "within ps st st2" by (rule hooks_within [OF p(4)])
  ultimately show ?thesis using p e hooks_core_eq [OF p(4)] by (simp add: taken_def same_counts_def same_ids_def)
qed

lemma general_loop_result:
  assumes "topo_ok tp m" "cpu < per_level_count tp TOPO_CPU" "ps_places tp st ps"
    "length (queue_tasks (ps_queue ps)) \<le> fuel"
  shows "\<exists>clk' st' ps' removed r. general_loop tp m cpu fuel (clk, st, ps) = Some ((clk', st', ps'), removed, r) \<and>
    (case r of None \<Rightarrow> moved tp (st, ps) (st', ps') \<and> queue_tasks (ps_queue ps') = [] \<and> removed = 1
     | Some t \<Rightarrow> executed tp t (nat removed) (st, ps) (st', ps') \<and> 1 \<le> removed \<and> task_affine tp m st' t cpu = Some True)"
  using assms(3,4)
proof (induction fuel arbitrary: clk st ps)
  case (0 clk st ps)
  have "queue_ok st (ps_queue ps)" using 0(1) by (auto simp: ps_places_def dest: spec [of _ General])
  then have "scheduler_find_in_queue (ps_queue ps) = None" using queue_tasks_find 0(2) by fastforce
  then show ?case using moved_refl [OF 0(1)] 0(2) by simp
next
  case (Suc n)
  have ok: "queue_ok st (ps_queue ps)" using Suc.prems(1) by (auto simp: ps_places_def dest: spec [of _ General])
  show ?case
  proof (cases "queue_tasks (ps_queue ps)")
    case Nil
    then have "scheduler_find_in_queue (ps_queue ps) = None" using queue_tasks_find [OF ok] by simp
    then show ?thesis using moved_refl [OF Suc.prems(1)] Nil by simp
  next
    case (Cons t rest)
    then have f: "scheduler_find_in_queue (ps_queue ps) = Some t" using queue_tasks_find [OF ok] by simp
    have G: "get_queue ps General = Some (ps_queue ps)" by simp
    have "affinity_ok tp (affinity (st t))"
      using queue_task_ok(2) [OF Suc.prems(1) G] Cons by (simp add: task_ok_def)
    then obtain b where b: "task_affine tp m st t cpu = Some b" using task_affine_Some [OF assms(1,2)] by blast
    show ?thesis
    proof (cases b)
      case True
      obtain st' ps' removed r where g: "get_from General (clk, st, ps) = Some ((clk, st', ps'), removed, r)"
        "case r of None \<Rightarrow> queue_tasks (ps_queue ps) = [] \<and> moved tp (st, ps) (st', ps') \<and> removed = 1 \<and>
            (\<forall>ref'. get_queue ps' ref' = get_queue ps ref') \<and> ps_queue ps' = ps_queue ps
         | Some t \<Rightarrow> (\<exists>rest. queue_tasks (ps_queue ps) = t # rest) \<and> 1 \<le> removed \<and>
            executed tp t (nat removed) (st, ps) (st', ps')"
        using get_from_executed [OF Suc.prems(1) G, of clk] by blast
      then have ex: "r = Some t" "executed tp t (nat removed) (st, ps) (st', ps')" "1 \<le> removed"
        using Cons by (auto split: option.splits)
      then have a: "affinity (st' t) = affinity (st t)" by (simp add: executed_def)
      have "task_affine tp m st' t cpu = Some True" using b True by (simp only: task_affine_def a)
      then show ?thesis using f b True g(1) ex by simp
    next
      case False
      obtain st1 q1 where p: "scheduler_pop_queue st (ps_queue ps) t = Some (st1, q1)"
        "taken tp t (st, ps) (st1, set_queue ps General q1)" "queue_tasks q1 = rest"
        using pop_taken [OF Suc.prems(1) G Cons] by blast
      have "core_eq st st1" using p(2) by (simp add: taken_def)
      then have b1: "task_affine tp m st1 t cpu = Some False" using core_eqD(6) b False by simp
      obtain st2 ps2 where i: "scheduler_insert_affine tp st1 (ps \<lparr> ps_queue := q1 \<rparr>) t = Some (st2, ps2)"
        "moved tp (st, ps) (st2, ps2)" "ps_queue ps2 = q1"
        using taken_insert_affine [OF p(2) Suc.prems(1) b1] by auto
      have "ps_places tp st2 ps2" "length (queue_tasks (ps_queue ps2)) \<le> n"
        using i p(3) Suc.prems(2) Cons by (auto simp: moved_def)
      then obtain clk' st' ps' removed r where IH: "general_loop tp m cpu n (clk, st2, ps2) = Some ((clk', st', ps'), removed, r)"
        "case r of None \<Rightarrow> moved tp (st2, ps2) (st', ps') \<and> queue_tasks (ps_queue ps') = [] \<and> removed = 1
         | Some t \<Rightarrow> executed tp t (nat removed) (st2, ps2) (st', ps') \<and> 1 \<le> removed \<and> task_affine tp m st' t cpu = Some True"
        using Suc.IH [of st2 ps2 clk] by blast
      then have "case r of None \<Rightarrow> moved tp (st, ps) (st', ps') \<and> queue_tasks (ps_queue ps') = [] \<and> removed = 1
         | Some t \<Rightarrow> executed tp t (nat removed) (st, ps) (st', ps') \<and> 1 \<le> removed \<and> task_affine tp m st' t cpu = Some True"
        using moved_trans [OF i(2)] moved_executed [OF i(2)] by (cases r) auto
      then show ?thesis using f b False p(1) i(1) IH(1) by simp
    qed
  qed
qed

subsection \<open>The searches\<close>

text \<open>Which task a search over queues hands out: one that belongs to a queue of the list.\<close>

lemma try_queues_result:
  assumes "ps_places tp st ps" "\<forall>(ref, pref) \<in> set refs. ref \<noteq> General \<and> get_queue ps ref \<noteq> None"
  shows "(\<exists>st' ps'. try_queues refs (clk, st, ps) otherwise = otherwise (clk, st', ps') \<and> moved tp (st, ps) (st', ps') \<and>
       ps_queue ps' = ps_queue ps) \<or>
    (\<exists>st' ps' removed t ref pref. try_queues refs (clk, st, ps) otherwise = Some (obtained pref (clk, st', ps') removed t) \<and>
       executed tp t (nat removed) (st, ps) (st', ps') \<and> 1 \<le> removed \<and> (ref, pref) \<in> set refs \<and>
       affine_queue tp (affinity (st t)) = Some ref)"
  using assms
proof (induction refs arbitrary: st ps)
  case Nil
  then show ?case using moved_refl [OF Nil.prems(1)] by auto
next
  case (Cons rp refs)
  obtain ref pref where rp: "rp = (ref, pref)" by (cases rp)
  obtain q where q: "get_queue ps ref = Some q" "ref \<noteq> General" using Cons.prems(2) rp by auto
  obtain st1 ps1 removed r where g: "get_from ref (clk, st, ps) = Some ((clk, st1, ps1), removed, r)"
    "case r of None \<Rightarrow> queue_tasks q = [] \<and> moved tp (st, ps) (st1, ps1) \<and> removed = 1 \<and>
        (\<forall>ref'. get_queue ps1 ref' = get_queue ps ref') \<and> ps_queue ps1 = ps_queue ps
     | Some t \<Rightarrow> (\<exists>rest. queue_tasks q = t # rest) \<and> 1 \<le> removed \<and> executed tp t (nat removed) (st, ps) (st1, ps1)"
    using get_from_executed [OF Cons.prems(1) q(1), of clk] by blast
  show ?case
  proof (cases r)
    case None
    then have m: "moved tp (st, ps) (st1, ps1)" "\<forall>ref'. get_queue ps1 ref' = get_queue ps ref'" "ps_queue ps1 = ps_queue ps"
      using g(2) by auto
    have pl: "ps_places tp st1 ps1" using m(1) by (simp add: moved_def)
    have refs: "\<forall>(ref, pref) \<in> set refs. ref \<noteq> General \<and> get_queue ps1 ref \<noteq> None" using Cons.prems(2) m(2) by auto
    have aff: "affinity (st1 t) = affinity (st t)" for t using core_eqD(5) m(1) by (simp add: moved_def)
    have step: "try_queues (rp # refs) (clk, st, ps) otherwise = try_queues refs (clk, st1, ps1) otherwise"
      using g(1) None rp by simp
    from Cons.IH [OF pl refs] show ?thesis
    proof (elim disjE exE conjE)
      fix st' ps'
      assume "try_queues refs (clk, st1, ps1) otherwise = otherwise (clk, st', ps')" "moved tp (st1, ps1) (st', ps')"
        "ps_queue ps' = ps_queue ps1"
      then show ?thesis using moved_trans [OF m(1)] m(3) step by auto
    next
      fix st' ps' removed t ref pref
      assume a: "try_queues refs (clk, st1, ps1) otherwise = Some (obtained pref (clk, st', ps') removed t)"
        "executed tp t (nat removed) (st1, ps1) (st', ps')" "1 \<le> removed" "(ref, pref) \<in> set refs"
        "affine_queue tp (affinity (st1 t)) = Some ref"
      have "executed tp t (nat removed) (st, ps) (st', ps')" by (rule moved_executed [OF m(1) a(2)])
      then show ?thesis using a step aff [of t] by (intro disjI2) (auto intro!: exI)
    qed
  next
    case (Some t)
    have "affine_queue tp (affinity (st t)) = Some ref"
      using Cons.prems(1) q g(2) Some by (auto simp: ps_places_def)
    moreover have "try_queues (rp # refs) (clk, st, ps) otherwise = Some (obtained pref (clk, st1, ps1) removed t)"
      using g(1) Some rp by simp
    moreover have "executed tp t (nat removed) (st, ps) (st1, ps1)" "1 \<le> removed" using g(2) Some by auto
    moreover have "(ref, pref) \<in> set (rp # refs)" using rp by simp
    ultimately show ?thesis by blast
  qed
qed

text \<open>The counter after a search that found a task.\<close>

lemma obtained_inv:
  assumes "ps_inv tp st ps" "executed tp t (nat removed) (st, ps) (st', ps')" "1 \<le> removed"
    "obtained pref (clk, st', ps') removed t = ((clk2, st2, ps2), removed2, r)"
  shows "ps_inv tp st2 ps2" "st2 = st'" "ps_elems ps2 = ps_elems ps'" "ps_tasks ps2 + nat removed = ps_tasks ps"
    "removed2 = removed" "r = Some t" "clk2 = clk" "same_ids ps ps2"
proof -
  have e: "total_left (st, ps) = total_left (st', ps') + nat removed" "ps_places tp st' ps'" "ps_tasks ps' = ps_tasks ps"
    using assms(2) by (auto simp: executed_def same_counts_def same_ids_def)
  have t: "ps_tasks ps = total_left (st, ps)" "ps_tasks ps < 2 ^ 64"
    using assms(1) by (auto simp: ps_inv_def total_left_def)
  have p2: "\<exists>n. ps2 = ps' \<lparr> preferred_affinity_tasks := n, ps_tasks := u64_sub (ps_tasks ps') (nat removed) \<rparr>"
    and o: "st2 = st'" "removed2 = removed" "r = Some t" "clk2 = clk"
    using assms(4) by (auto simp: obtained_def Let_def split: if_splits intro: exI [of _ "preferred_affinity_tasks ps'"])
  then obtain n where ps2: "ps2 = ps' \<lparr> preferred_affinity_tasks := n, ps_tasks := u64_sub (ps_tasks ps') (nat removed) \<rparr>" by blast
  have g: "get_queue ps2 ref = get_queue ps' ref" for ref by (cases ref) (auto simp: ps2)
  have el: "ps_elems ps2 = ps_elems ps'" by (simp add: ps2 ps_elems_def)
  have tt: "ps_tasks ps2 = total_left (st', ps')" using e t by (simp add: ps2 u64_sub_le)
  have "ps_places tp st' ps2"
    using e(2) by (simp add: ps_places_def g el ps_shape_def) (simp add: ps2)
  then show "ps_inv tp st2 ps2" using tt t e by (simp add: ps_inv_places o el total_left_def)
  show "ps_elems ps2 = ps_elems ps'" by (rule el)
  show "ps_tasks ps2 + nat removed = ps_tasks ps" using tt e(1) t(1) by simp
  show "same_ids ps ps2" using assms(2) by (simp add: ps2 executed_def same_counts_def same_ids_def)
qed (use assms(4) in \<open>auto simp: obtained_def Let_def split: if_splits\<close>)

lemma moved_inv: "ps_inv tp st ps \<Longrightarrow> moved tp (st, ps) (st', ps') \<Longrightarrow> ps_inv tp st' ps' \<and> ps_tasks ps' = ps_tasks ps"
  using moved_total [of tp "(st, ps)" "(st', ps')"]
  by (auto simp: ps_inv_places moved_def same_counts_def same_ids_def total_left_def)

text \<open>The contract of a search: the invariant is kept, no task of another process changes and the other
  counters of the process are left alone; without a task nothing has left the process; with
  a task, it was one of the process, it got its next execution number, and \<open>removed\<close> executions have
  been taken off the counter.\<close>

definition search_ok :: "topology \<Rightarrow> search_state \<Rightarrow> (nosv_affinity \<Rightarrow> bool) \<Rightarrow> search_state \<times> int \<times> task_id option \<Rightarrow> bool" where
  "search_ok tp s allowed res =
     (case s of (clk, st, ps) \<Rightarrow> case res of ((clk', st', ps'), removed, r) \<Rightarrow>
        ps_inv tp st' ps' \<and> within ps st st' \<and> same_ids ps ps' \<and>
        (case r of
           None \<Rightarrow> ps_elems ps' = ps_elems ps \<and> ps_tasks ps' = ps_tasks ps \<and> core_eq st st'
         | Some t \<Rightarrow> t \<in># ps_elems ps \<and> allowed (affinity (st t)) \<and>
             (ps_elems ps' = ps_elems ps \<or> ps_elems ps = add_mset t (ps_elems ps')) \<and>
             scheduled_count (st' t) = scheduled_count (st t) + 1 \<and>
             1 \<le> removed \<and> ps_tasks ps' + nat removed = ps_tasks ps))"

lemma search_ok_obtained:
  assumes "ps_inv tp st ps" "executed tp t (nat removed) (st, ps) (st', ps')" "1 \<le> removed" "allowed (affinity (st t))"
  shows "search_ok tp (clk, st, ps) allowed (obtained pref (clk', st', ps') removed t)"
proof -
  obtain clk2 st2 ps2 rem2 r where o: "obtained pref (clk', st', ps') removed t = ((clk2, st2, ps2), rem2, r)"
    by (metis prod_cases3 prod.exhaust)
  note i = obtained_inv [OF assms(1-3) o]
  show ?thesis unfolding search_ok_def o using i assms by (auto simp: executed_def)
qed

lemma search_ok_moved:
  assumes "ps_inv tp st ps" "moved tp (st, ps) (st', ps')"
  shows "search_ok tp (clk, st, ps) allowed ((clk', st', ps'), removed, None)"
  using moved_inv [OF assms] assms(2) by (simp add: search_ok_def moved_def same_counts_def)

definition cpu_affinity_respected :: "topology \<Rightarrow> nat \<Rightarrow> nosv_affinity \<Rightarrow> bool" where
  "cpu_affinity_respected tp cpu a =
     (aff_level a = NOSV_AFFINITY_LEVEL_CPU \<longrightarrow> topo_dom_lid tp TOPO_CPU (int (aff_index a)) = Some (int cpu))"

lemma affine_respected:
  assumes "topo_ok tp m" "cpu < per_level_count tp TOPO_CPU" "task_affine tp m st t cpu = Some True"
  shows "cpu_affinity_respected tp cpu (affinity (st t))"
proof -
  have "cpu_sid tp m cpu = dom_system_id (per_level_domains tp TOPO_CPU ! cpu)"
    using assms(1,2) by (simp add: cpu_sid_def topo_ok_def cpus_ok_def)
  then show ?thesis using assms topo_dom_lid_ok [of tp TOPO_CPU cpu]
    by (auto simp: cpu_affinity_respected_def task_affine_def topo_ok_def)
qed

lemma queue_respected:
  assumes "affine_queue tp a = Some ref" "ref \<in> {CpuStrict cpu, CpuPreferred cpu, NumaStrict n, NumaPreferred n}"
  shows "cpu_affinity_respected tp cpu a"
proof (cases "aff_level a = NOSV_AFFINITY_LEVEL_CPU")
  case True
  then obtain idx where "topo_dom_lid tp TOPO_CPU (int (aff_index a)) = Some idx" "idx \<ge> 0" "nat idx = cpu"
    using assms by (auto simp: affine_queue_def split: if_splits bind_splits)
  then show ?thesis by (auto simp: cpu_affinity_respected_def)
qed (simp add: cpu_affinity_respected_def)

lemma own_queues:
  assumes "topo_ok tp m" "cpu < per_level_count tp TOPO_CPU" "ps_shape tp ps"
    "cpu_parent_lid tp m cpu TOPO_NUMA = Some (int n)" "n < per_level_count tp TOPO_NUMA"
  shows "\<forall>(ref, pref) \<in> set [(CpuStrict cpu, False), (CpuPreferred cpu, True), (NumaStrict n, False), (NumaPreferred n, True)].
    ref \<noteq> General \<and> get_queue ps ref \<noteq> None"
  using assms by (simp add: ps_shape_def)

text \<open>The general queue is searched last; the search never runs dry.\<close>

lemma general_search:
  assumes "topo_ok tp m" "cpu < per_level_count tp TOPO_CPU" "ps_inv tp st ps" "moved tp (st, ps) (st1, ps1)"
  shows "\<exists>clk' st' ps' removed r.
    (do { (s4, removed, r4) \<leftarrow> general_loop tp m cpu (length (queue_tasks (ps_queue ps1))) (clk1, st1, ps1);
          case r4 of Some task \<Rightarrow> Some (obtained False s4 removed task) | None \<Rightarrow> Some (s4, removed, None) }) =
      Some ((clk', st', ps'), removed, r) \<and>
    search_ok tp (clk, st, ps) (cpu_affinity_respected tp cpu) ((clk', st', ps'), removed, r) \<and>
    (r = None \<longrightarrow> removed = 1 \<and> queue_tasks (ps_queue ps') = [])"
proof -
  have pl: "ps_places tp st1 ps1" using assms(4) by (simp add: moved_def)
  obtain clk' st' ps' removed r where g:
    "general_loop tp m cpu (length (queue_tasks (ps_queue ps1))) (clk1, st1, ps1) = Some ((clk', st', ps'), removed, r)"
    "case r of None \<Rightarrow> moved tp (st1, ps1) (st', ps') \<and> queue_tasks (ps_queue ps') = [] \<and> removed = 1
     | Some t \<Rightarrow> executed tp t (nat removed) (st1, ps1) (st', ps') \<and> 1 \<le> removed \<and> task_affine tp m st' t cpu = Some True"
    using general_loop_result [OF assms(1,2) pl order_refl, of clk1] by blast
  show ?thesis
  proof (cases r)
    case None
    then show ?thesis using g search_ok_moved [OF assms(3) moved_trans [OF assms(4)]] by simp
  next
    case (Some t)
    have e: "executed tp t (nat removed) (st, ps) (st', ps')" "1 \<le> removed" "task_affine tp m st' t cpu = Some True"
      using g(2) Some moved_executed [OF assms(4)] by auto
    then have "cpu_affinity_respected tp cpu (affinity (st t))"
      using affine_respected [OF assms(1,2) e(3)] by (simp add: executed_def)
    note o = search_ok_obtained [OF assms(3) e(1,2), where allowed = "cpu_affinity_respected tp cpu" and pref = False and clk' = clk' and clk = clk, OF this]
    obtain c s p x y where "obtained False (clk', st', ps') removed t = ((c, s, p), x, y)" by (metis prod.exhaust)
    moreover from this have "y = Some t" by (auto simp: obtained_def Let_def)
    ultimately show ?thesis using g(1) Some o by simp
  qed
qed

text \<open>The queues of the CPU, those of its NUMA node, then the general queue.\<close>

definition own_search :: "topology \<Rightarrow> cpumanager \<Rightarrow> nat \<Rightarrow> nat \<Rightarrow> search_state \<Rightarrow> (search_state \<times> int \<times> task_id option) option" where
  "own_search tp m cpu n s =
     try_queues [(CpuStrict cpu, False), (CpuPreferred cpu, True), (NumaStrict n, False), (NumaPreferred n, True)] s
       (\<lambda>s3. do { (s4, removed, r4) \<leftarrow> general_loop tp m cpu (length (queue_tasks (ps_queue (snd (snd s3))))) s3;
                  case r4 of Some task \<Rightarrow> Some (obtained False s4 removed task) | None \<Rightarrow> Some (s4, removed, None) })"

lemma own_search_result:
  assumes "topo_ok tp m" "cpu < per_level_count tp TOPO_CPU" "ps_inv tp st ps" and m2: "moved tp (st, ps) (st2, ps2)"
    and n: "cpu_parent_lid tp m cpu TOPO_NUMA = Some (int n)" "n < per_level_count tp TOPO_NUMA"
  shows "\<exists>clk' st' ps' removed r. own_search tp m cpu n (clk2, st2, ps2) = Some ((clk', st', ps'), removed, r) \<and>
    search_ok tp (clk, st, ps) (cpu_affinity_respected tp cpu) ((clk', st', ps'), removed, r) \<and>
    (r = None \<longrightarrow> removed = 1 \<and> queue_tasks (ps_queue ps') = [])"
proof -
  let ?refs = "[(CpuStrict cpu, False), (CpuPreferred cpu, True), (NumaStrict n, False), (NumaPreferred n, True)]"
  define rest where "rest = (\<lambda>s3. do { (s4, removed, r4) \<leftarrow> general_loop tp m cpu (length (queue_tasks (ps_queue (snd (snd s3))))) s3;
      case r4 of Some task \<Rightarrow> Some (obtained False s4 removed task) | None \<Rightarrow> Some (s4, removed, None) })"
  have run: "own_search tp m cpu n (clk2, st2, ps2) = try_queues ?refs (clk2, st2, ps2) rest"
    by (simp only: own_search_def rest_def)
  have pl2: "ps_places tp st2 ps2" using m2 by (simp add: moved_def)
  have refs: "\<forall>(ref, pref) \<in> set ?refs. ref \<noteq> General \<and> get_queue ps2 ref \<noteq> None"
    using own_queues [OF assms(1,2) _ n] pl2 by (simp add: ps_places_def)
  from try_queues_result [OF pl2 refs, of clk2 rest] show ?thesis
  proof (elim disjE exE conjE)
    fix st3 ps3
    assume t: "try_queues ?refs
        (clk2, st2, ps2) rest = rest (clk2, st3, ps3)" "moved tp (st2, ps2) (st3, ps3)"
    from general_search [OF assms(1-3) moved_trans [OF m2 t(2)], of clk2 clk]
    show ?thesis using run t(1) by (auto simp: rest_def)
  next
    fix st3 ps3 removed t ref pref
    assume t: "try_queues ?refs
        (clk2, st2, ps2) rest = Some (obtained pref (clk2, st3, ps3) removed t)"
      "executed tp t (nat removed) (st2, ps2) (st3, ps3)" "1 \<le> removed"
      "(ref, pref) \<in> set ?refs"
      "affine_queue tp (affinity (st2 t)) = Some ref"
    have "affinity (st2 t) = affinity (st t)" using core_eqD(5) m2 by (simp add: moved_def)
    then have "cpu_affinity_respected tp cpu (affinity (st t))"
      using t(4,5) queue_respected [of tp "affinity (st t)" ref cpu n] by auto
    from search_ok_obtained [OF assms(3) moved_executed [OF m2 t(2)] t(3), where allowed = "cpu_affinity_respected tp cpu" and pref = pref and clk = clk and clk' = clk2, OF this]
    show ?thesis unfolding run t(1) by (simp add: obtained_def Let_def)
  qed
qed

end
