(* ===== verification/Process_Search.thy ===== *)
theory Process_Search
  imports Process_Sched_Inv
begin

section \<open>The searches of a process scheduler\<close>

text \<open>
  Correctness of the three searches: the ordinary one, the one that steals tasks with a preferred
  affinity from other CPUs and NUMA nodes, and the one that runs a yielded task before its time.
  All keep the invariant of the process scheduler, as the creation of a scheduler and the
  insertion of a task into the general queue do.
\<close>

subsection \<open>Creation and insertion\<close>

lemma init_queue_ok: "queue_ok st (scheduler_init_queue empty_queue)" "queue_tasks (scheduler_init_queue empty_queue) = []"
  by (simp_all add: queue_ok_def queue_tasks_def scheduler_init_queue_def empty_queue_def)

lemma init_get_queue:
  assumes "scheduler_init_pid tp now p = Some ps" "get_queue ps ref = Some q"
  shows "q = scheduler_init_queue empty_queue"
  using assms by (cases ref) (auto simp: scheduler_init_pid_def Let_def assert_then_def split: bind_splits if_splits)

lemma sum_list_replicate_empty: "sum_list (replicate n {#}) = {#}"
  by (induction n) simp_all

lemma scheduler_init_pid_inv:
  assumes "topo_ok tp m"
  shows "\<exists>ps. scheduler_init_pid tp now p = Some ps \<and> ps_inv tp st ps \<and> ps_elems ps = {#} \<and> ps_tasks ps = 0 \<and> ps_pid ps = p"
proof -
  obtain ps where i: "scheduler_init_pid tp now p = Some ps"
    using assms topo_lvl_cnt_ok by (simp add: scheduler_init_pid_def topo_ok_def Let_def)
  then have e: "ps_elems ps = {#}" "ps_tasks ps = 0" "ps_pid ps = p" "yield_tasks ps = []" "deadline_tasks ps = Leaf"
    "ps_shape tp ps"
    using assms topo_lvl_cnt_ok
    by (auto simp: scheduler_init_pid_def Let_def ps_elems_def sum_list_replicate_empty init_queue_ok ps_shape_def topo_ok_def)
  have "tree_ok (\<lambda>t. deadline (st t)) Leaf" by (simp add: tree_ok_def key_sorted_def rb_ok_def)
  then have "ps_inv tp st ps"
    unfolding ps_inv_def using e init_get_queue [OF i] init_queue_ok by auto
  then show ?thesis using i e by blast
qed

text \<open>A task that is in no queue is appended to the general queue.\<close>

lemma general_insert_places:
  assumes inv: "ps_places tp st ps" and t: "t \<notin># ps_elems ps" "task_ok tp (st t)"
    and a: "scheduler_add_queue st (ps_queue ps) t = (st', q')"
  shows "ps_places tp st' (ps \<lparr> ps_queue := q' \<rparr>)" "ps_elems (ps \<lparr> ps_queue := q' \<rparr>) = add_mset t (ps_elems ps)"
    "core_eq st st'" "\<And>x. deadline (st' x) = deadline (st x)" "\<And>x. deadline_state (st' x) = deadline_state (st x)"
    "queue_tasks q' = stable_insert (prio_of st) t (queue_tasks (ps_queue ps))"
proof -
  have g: "get_queue ps General = Some (ps_queue ps)" by simp
  have q: "queue_ok st (ps_queue ps)" using inv g unfolding ps_places_def by blast
  have nq: "t \<notin> set (queue_tasks (ps_queue ps))"
    using t(1) queue_subset_elems [OF g] by (metis mset_subset_eqD set_mset_mset)
  have r: "queue_tasks q' = stable_insert (prio_of st) t (queue_tasks (ps_queue ps))" "queue_ok st' q'"
    "hooks_only (insert t (set (queue_tasks (ps_queue ps)))) st st'"
    using scheduler_add_queue_adds [OF q nq] by (auto simp: adds_def a)
  show core: "core_eq st st'" by (rule hooks_core_eq [OF r(3)])
  show dl: "deadline (st' x) = deadline (st x)" for x using hooks_only_fields(2) [OF r(3)] .
  show "queue_tasks q' = stable_insert (prio_of st) t (queue_tasks (ps_queue ps))" by (rule r(1))
  have ms: "mset (queue_tasks q') = add_mset t (mset (queue_tasks (ps_queue ps)))" by (simp add: r(1))
  show e: "ps_elems (ps \<lparr> ps_queue := q' \<rparr>) = add_mset t (ps_elems ps)"
    using elems_set_queue [OF g, of q'] by (simp add: ms)
  have gq: "get_queue (ps \<lparr> ps_queue := q' \<rparr>) ref = (if ref = General then Some q' else get_queue ps ref)" for ref
    using get_set_queue [OF g, of q' ref] by simp
  have p': "ps_places tp st' ps" using places_store [OF inv core] dl by simp
  have tok: "task_ok tp (st' t)" using t(2) core_eqD(2) [OF core] by simp
  have cnt: "count (add_mset t (ps_elems ps)) x \<le> 1" for x
    using p' t(1) by (auto simp: ps_places_def not_in_iff)
  show "ps_places tp st' (ps \<lparr> ps_queue := q' \<rparr>)"
    unfolding ps_places_def e gq using p' tok cnt r(2) by (auto simp: ps_places_def ps_shape_def split: if_splits)
  show "deadline_state (st' x) = deadline_state (st x)" for x
    using hooks_only_fields(7) [OF r(3)] .
qed

lemma insert_total:
  assumes inv: "ps_inv tp st ps" and pl: "ps_places tp st' ps'" and el: "ps_elems ps' = add_mset t (ps_elems ps)"
    and left: "\<And>x. x \<in># ps_elems ps \<Longrightarrow> executions_left (st' x) = executions_left (st x)"
    and cnt: "ps_tasks ps' = ps_tasks ps + executions_left (st' t)" "ps_tasks ps' < 2 ^ 64"
  shows "ps_inv tp st' ps'"
proof -
  have "(\<Sum>x \<in># ps_elems ps. executions_left (st' x)) = (\<Sum>x \<in># ps_elems ps. executions_left (st x))"
    by (rule arg_cong [where f = sum_mset], rule image_mset_cong) (rule left)
  then show ?thesis using inv pl cnt by (simp add: ps_inv_places el)
qed

lemma places_tasks [simp]: "ps_places tp st (ps \<lparr> ps_tasks := n \<rparr>) = ps_places tp st ps" "ps_elems (ps \<lparr> ps_tasks := n \<rparr>) = ps_elems ps"
proof -
  have "get_queue (ps \<lparr> ps_tasks := n \<rparr>) ref = get_queue ps ref" for ref by (cases ref) auto
  moreover show "ps_elems (ps \<lparr> ps_tasks := n \<rparr>) = ps_elems ps" by (simp add: ps_elems_def)
  ultimately show "ps_places tp st (ps \<lparr> ps_tasks := n \<rparr>) = ps_places tp st ps" by (simp add: ps_places_def ps_shape_def)
qed

lemma general_insert_inv:
  assumes "ps_inv tp st ps" "t \<notin># ps_elems ps" "task_ok tp (st t)" "scheduler_add_queue st (ps_queue ps) t = (st', q')"
    "ps_tasks ps + executions_left (st t) < 2 ^ 64"
  shows "ps_inv tp st' (ps \<lparr> ps_queue := q', ps_tasks := ps_tasks ps + executions_left (st t) \<rparr>)"
proof -
  have pl: "ps_places tp st ps" using assms(1) by (simp add: ps_inv_places)
  note g = general_insert_places [OF pl assms(2-4)]
  show ?thesis
    by (rule insert_total [OF assms(1), where t = t]) (use g core_eqD(3) [OF g(3)] assms(5) in simp_all)
qed

subsection \<open>The ordinary search\<close>

lemma find_task_search:
  assumes "topo_ok tp m" "cpu < per_level_count tp TOPO_CPU" "ps_inv tp st ps"
  shows "\<exists>clk' st' ps' removed r.
    scheduler_find_task_process tp m cpu (clk, st, ps) removed0 = Some ((clk', st', ps'), removed, r) \<and>
    search_ok tp (clk, st, ps) (cpu_affinity_respected tp cpu) ((clk', st', ps'), removed, r) \<and>
    (r = None \<longrightarrow> removed = 1 \<and> (ps_tasks ps = 0 \<or> queue_tasks (ps_queue ps') = []))"
  (is "?goal (scheduler_find_task_process tp m cpu (clk, st, ps) removed0)")
proof (cases "ps_tasks ps = 0")
  case True
  then show ?thesis using assms(3) by (simp add: scheduler_find_task_process_def search_ok_def)
next
  case False
  have pl: "ps_places tp st ps" using assms(3) by (simp add: ps_inv_places)
  have expired: "?goal (Some (obtained False (clk', st', ps') 1 t))"
    if "executed tp t 1 (st, ps) (st', ps')" "task_affine tp m st' t cpu = Some True" for clk' st' ps' t
  proof -
    have "cpu_affinity_respected tp cpu (affinity (st t))"
      using affine_respected [OF assms(1,2) that(2)] that(1) by (simp add: executed_def)
    from search_ok_obtained [OF assms(3), where removed = 1 and allowed = "cpu_affinity_respected tp cpu" and t = t and st' = st' and ps' = ps' and pref = False and clk = clk and clk' = clk', OF _ _ this] that(1)
    have "search_ok tp (clk, st, ps) (cpu_affinity_respected tp cpu) (obtained False (clk', st', ps') 1 t)" by simp
    then show ?thesis by (simp add: obtained_def Let_def)
  qed
  obtain clk1 st1 ps1 r1 where d: "deadline_loop tp m cpu (length (inorder (deadline_tasks ps))) (clk, st, ps) = Some ((clk1, st1, ps1), r1)"
    "yield_tasks ps1 = yield_tasks ps"
    "case r1 of None \<Rightarrow> moved tp (st, ps) (st1, ps1)
     | Some t \<Rightarrow> executed tp t 1 (st, ps) (st1, ps1) \<and> task_affine tp m st1 t cpu = Some True"
    using deadline_loop_result [OF assms(1,2) pl order_refl, of clk] by blast
  show ?thesis
  proof (cases r1)
    case (Some t)
    then have "scheduler_find_task_process tp m cpu (clk, st, ps) removed0 = Some (obtained False (clk1, st1, ps1) 1 t)"
      using d(1) False by (simp add: scheduler_find_task_process_def)
    then show ?thesis using expired [of t st1 ps1 clk1] d(3) Some by simp
  next
    case None
    then have m1: "moved tp (st, ps) (st1, ps1)" using d(3) by simp
    then have pl1: "ps_places tp st1 ps1" by (simp add: moved_def)
    obtain clk2 st2 ps2 r2 where y: "yield_loop tp m cpu (length (yield_tasks ps)) (clk1, st1, ps1) = Some ((clk2, st2, ps2), r2)"
      "case r2 of None \<Rightarrow> moved tp (st1, ps1) (st2, ps2)
       | Some t \<Rightarrow> executed tp t 1 (st1, ps1) (st2, ps2) \<and> task_affine tp m st2 t cpu = Some True"
      using yield_loop_result [OF assms(1,2) pl1, of "length (yield_tasks ps)" clk1] d(2) by auto
    show ?thesis
    proof (cases r2)
      case (Some t)
      then have "scheduler_find_task_process tp m cpu (clk, st, ps) removed0 = Some (obtained False (clk2, st2, ps2) 1 t)"
        using d(1) y(1) False None by (simp add: scheduler_find_task_process_def)
      then show ?thesis using expired [of t st2 ps2 clk2] y(2) Some moved_executed [OF m1] by simp
    next
      case None2: None
      then have m2: "moved tp (st, ps) (st2, ps2)" using y(2) moved_trans [OF m1] by simp
      obtain n where n: "cpu_parent_lid tp m cpu TOPO_NUMA = Some (int n)" "n < per_level_count tp TOPO_NUMA"
        using cpu_parent_numa_ok [OF assms(1,2)] by blast
      have "scheduler_find_task_process tp m cpu (clk, st, ps) removed0 = own_search tp m cpu n (clk2, st2, ps2)"
        using d(1) y(1) False None None2 n(1) cpu_lid_ok [OF assms(1,2)]
        by (simp add: scheduler_find_task_process_def own_search_def del: try_queues.simps)
      then show ?thesis using own_search_result [OF assms m2 n, of clk2 clk] by auto
    qed
  qed
qed

text \<open>C28. \<open>scheduler_find_task_process\<close>, run for a CPU of the topology on a process whose scheduler is
  well formed, always returns: no assertion fails and none of its three loops runs forever. The invariant holds
  afterwards. When it returns no task, every task is still there and the counter is unchanged, and
  unless the process was skipped for having no task at all, its general queue is empty. When it
  returns a task, the task was one of the process, it respects an affinity bound to a CPU, its execution number
  advanced by one and \<open>tasks\<close> dropped by exactly the reported number of removed executions.\<close>

theorem scheduler_find_task_process_correct:
  assumes "topo_ok tp m" "cpu < per_level_count tp TOPO_CPU" "ps_inv tp st ps"
  shows "\<exists>clk' st' ps' removed r.
    scheduler_find_task_process tp m cpu (clk, st, ps) removed0 = Some ((clk', st', ps'), removed, r) \<and>
    search_ok tp (clk, st, ps) (cpu_affinity_respected tp cpu) ((clk', st', ps'), removed, r) \<and>
    (r = None \<longrightarrow> removed = 1 \<and> (ps_tasks ps = 0 \<or> queue_tasks (ps_queue ps') = []))"
  by (rule find_task_search [OF assms])

subsection \<open>Stealing\<close>

lemma steal_queues:
  assumes "ps_shape tp ps"
  shows "\<forall>(ref, pref) \<in> set (map (\<lambda>i. (CpuPreferred i, True)) [0..<per_level_count tp TOPO_CPU] @
      map (\<lambda>i. (NumaPreferred i, True)) [0..<per_level_count tp TOPO_NUMA]). ref \<noteq> General \<and> get_queue ps ref \<noteq> None"
  using assms by (auto simp: ps_shape_def)

lemma preferred_queue_type:
  "affine_queue tp a = Some ref \<Longrightarrow> ref \<in> range CpuPreferred \<union> range NumaPreferred \<Longrightarrow> aff_type a \<noteq> NOSV_AFFINITY_TYPE_STRICT"
  by (auto simp: affine_queue_def split: affinity_level.splits bind_splits if_splits)

lemma noaffine_search:
  assumes "topo_ok tp m" "ps_inv tp st ps"
  shows "\<exists>clk' st' ps' removed r.
    scheduler_find_task_noaffine_process tp m cpu (clk, st, ps) removed0 = Some ((clk', st', ps'), removed, r) \<and>
    search_ok tp (clk, st, ps) (\<lambda>a. aff_type a \<noteq> NOSV_AFFINITY_TYPE_STRICT) ((clk', st', ps'), removed, r) \<and>
    (r = None \<longrightarrow> removed = 1 \<and> ps_queue ps' = ps_queue ps)"
proof (cases "ps_tasks ps = 0 \<or> preferred_affinity_tasks ps = 0")
  case True
  then show ?thesis using assms(2) by (simp add: scheduler_find_task_noaffine_process_def search_ok_def)
next
  case False
  let ?refs = "map (\<lambda>i. (CpuPreferred i, True)) [0..<per_level_count tp TOPO_CPU] @
      map (\<lambda>i. (NumaPreferred i, True)) [0..<per_level_count tp TOPO_NUMA]"
  have pl: "ps_places tp st ps" using assms(2) by (simp add: ps_inv_places)
  then have sh: "ps_shape tp ps" by (simp add: ps_places_def)
  have run: "scheduler_find_task_noaffine_process tp m cpu (clk, st, ps) removed0 =
      try_queues ?refs (clk, st, ps) (\<lambda>s'. Some (s', 1, None))"
    using False assms(1) topo_lvl_cnt_ok by (auto simp: scheduler_find_task_noaffine_process_def topo_ok_def)
  from try_queues_result [OF pl steal_queues [OF sh], of clk "\<lambda>s'. Some (s', 1, None)"] show ?thesis
  proof (elim disjE exE conjE)
    fix st' ps'
    assume "try_queues ?refs (clk, st, ps) (\<lambda>s'. Some (s', 1, None)) = Some ((clk, st', ps'), 1, None)"
      "moved tp (st, ps) (st', ps')" "ps_queue ps' = ps_queue ps"
    then show ?thesis using run search_ok_moved [OF assms(2)] by simp
  next
    fix st' ps' removed t ref pref
    assume t: "try_queues ?refs (clk, st, ps) (\<lambda>s'. Some (s', 1, None)) = Some (obtained pref (clk, st', ps') removed t)"
      "executed tp t (nat removed) (st, ps) (st', ps')" "1 \<le> removed" "(ref, pref) \<in> set ?refs"
      "affine_queue tp (affinity (st t)) = Some ref"
    have "aff_type (affinity (st t)) \<noteq> NOSV_AFFINITY_TYPE_STRICT"
      using preferred_queue_type [OF t(5)] t(4) by auto
    from search_ok_obtained [OF assms(2) t(2,3), where allowed = "\<lambda>a. aff_type a \<noteq> NOSV_AFFINITY_TYPE_STRICT" and
        pref = pref and clk = clk and clk' = clk, OF this]
    show ?thesis unfolding run t(1) by (simp add: obtained_def Let_def)
  qed
qed

text \<open>Stealing from other CPUs and NUMA nodes always returns, keeps the invariant of the process
  scheduler and never takes a task with a strict affinity; a task it does take was waiting in a
  queue of the process.\<close>

theorem scheduler_find_task_noaffine_process_correct:
  assumes "topo_ok tp m" "ps_inv tp st ps"
  shows "\<exists>clk' st' ps' removed r.
    scheduler_find_task_noaffine_process tp m cpu (clk, st, ps) removed0 = Some ((clk', st', ps'), removed, r) \<and>
    search_ok tp (clk, st, ps) (\<lambda>a. aff_type a \<noteq> NOSV_AFFINITY_TYPE_STRICT) ((clk', st', ps'), removed, r) \<and>
    (r = None \<longrightarrow> removed = 1 \<and> ps_queue ps' = ps_queue ps)"
  by (rule noaffine_search [OF assms])

subsection \<open>Yielded tasks\<close>

lemma yield_process_loop_result:
  assumes "topo_ok tp m" "cpu < per_level_count tp TOPO_CPU" "ps_places tp st ps" "yield_tasks ps = ys"
  shows "\<exists>clk' st' ps' r. yield_process_loop tp m cpu ys (clk, st, ps) = Some ((clk', st', ps'), r) \<and>
    (case r of None \<Rightarrow> moved tp (st, ps) (st', ps')
     | Some t \<Rightarrow> (\<exists>ps1. executed tp t 1 (st, ps) (st', ps1) \<and> ps' = ps1 \<lparr> ps_tasks := u64_sub (ps_tasks ps1) 1 \<rparr>) \<and>
         task_affine tp m st' t cpu = Some True) \<and> ps_queue ps' = ps_queue ps"
  using assms(3,4)
proof (induction ys arbitrary: st ps)
  case Nil
  have "ps \<lparr> yield_tasks := [] \<rparr> = ps" using Nil(2) by simp
  then show ?case using moved_refl [OF Nil(1)] by simp
next
  case (Cons t rest)
  let ?st1 = "task_upd st t (\<lambda>k. k \<lparr> hook_word := 0 \<rparr>)" and ?ps1 = "ps \<lparr> yield_tasks := rest \<rparr>"
  note tk = yield_taken [OF Cons.prems(1,2)]
  have e: "ps_elems ps = add_mset t (ps_elems ?ps1)" using tk(1) by (simp add: taken_def)
  have np: "\<not> task_is_parallel (?st1 t)" using tk(2) by (simp add: task_is_parallel_def)
  have "affinity_ok tp (affinity (?st1 t))"
    using places_fresh(2) [OF Cons.prems(1) e] core_eqD(5) [OF core_eq_hook] by (simp add: task_ok_def)
  then obtain b where b: "task_affine tp m ?st1 t cpu = Some b" using task_affine_Some [OF assms(1,2)] by blast
  show ?case
  proof (cases b)
    case True
    then have "task_affine tp m (count_execution ?st1 t) t cpu = Some True" using b by (simp add: task_affine_count)
    then show ?thesis using taken_executed [OF tk(1) Cons.prems(1) tk(2)] b True np by auto
  next
    case False
    obtain st2 ps2 where i: "scheduler_insert_affine tp ?st1 ?ps1 t = Some (st2, ps2)" "moved tp (st, ps) (st2, ps2)"
      "yield_tasks ps2 = rest" "ps_queue ps2 = ps_queue ps"
      using taken_insert_affine [OF tk(1) Cons.prems(1), of m cpu] b False by auto
    have "ps_places tp st2 ps2" using i by (simp add: moved_def)
    from Cons.IH [OF this i(3)] obtain clk' st' ps' r where
      IH: "yield_process_loop tp m cpu rest (clk, st2, ps2) = Some ((clk', st', ps'), r)"
      "case r of None \<Rightarrow> moved tp (st2, ps2) (st', ps')
       | Some t \<Rightarrow> (\<exists>ps1. executed tp t 1 (st2, ps2) (st', ps1) \<and> ps' = ps1 \<lparr> ps_tasks := u64_sub (ps_tasks ps1) 1 \<rparr>) \<and>
         task_affine tp m st' t cpu = Some True" "ps_queue ps' = ps_queue ps2" by blast
    moreover have "case r of None \<Rightarrow> moved tp (st, ps) (st', ps')
       | Some t \<Rightarrow> (\<exists>ps1. executed tp t 1 (st, ps) (st', ps1) \<and> ps' = ps1 \<lparr> ps_tasks := u64_sub (ps_tasks ps1) 1 \<rparr>) \<and>
         task_affine tp m st' t cpu = Some True"
      using IH(2) moved_trans [OF i(2)] moved_executed [OF i(2)] by (cases r) (simp, fastforce)
    ultimately show ?thesis using b False np i(1,4) by simp
  qed
qed

lemma yield_search:
  assumes "topo_ok tp m" "cpu < per_level_count tp TOPO_CPU" "ps_inv tp st ps"
  shows "\<exists>clk' st' ps' removed r.
    scheduler_find_task_yield_process tp m cpu (clk, st, ps) 1 = Some ((clk', st', ps'), removed, r) \<and>
    search_ok tp (clk, st, ps) (cpu_affinity_respected tp cpu) ((clk', st', ps'), removed, r) \<and>
    (r = None \<longrightarrow> removed = 1 \<and> ps_queue ps' = ps_queue ps)"
proof (cases "yield_tasks ps = []")
  case True
  then show ?thesis using assms(3) by (simp add: scheduler_find_task_yield_process_def search_ok_def)
next
  case False
  have pl: "ps_places tp st ps" using assms(3) by (simp add: ps_inv_places)
  obtain t0 ys where y: "yield_tasks ps = t0 # ys" using False by (cases "yield_tasks ps") auto
  have "ps_elems ps = add_mset t0 (ps_elems (ps \<lparr> yield_tasks := ys \<rparr>))" by (simp add: ps_elems_def y)
  then have "executions_left (st t0) \<le> ps_tasks ps" "0 < executions_left (st t0)"
    using assms(3) by (auto simp: ps_inv_def task_ok_def executions_left_def)
  then have pos: "0 < ps_tasks ps" by simp
  obtain clk' st' ps' r where l: "yield_process_loop tp m cpu (yield_tasks ps) (clk, st, ps) = Some ((clk', st', ps'), r)"
    "case r of None \<Rightarrow> moved tp (st, ps) (st', ps')
     | Some t \<Rightarrow> (\<exists>ps1. executed tp t 1 (st, ps) (st', ps1) \<and> ps' = ps1 \<lparr> ps_tasks := u64_sub (ps_tasks ps1) 1 \<rparr>) \<and>
         task_affine tp m st' t cpu = Some True" "ps_queue ps' = ps_queue ps"
    using yield_process_loop_result [OF assms(1,2) pl refl, of clk] by blast
  have run: "scheduler_find_task_yield_process tp m cpu (clk, st, ps) 1 = Some ((clk', st', ps'), 1, r)"
    using False pos l(1) by (simp add: scheduler_find_task_yield_process_def assert_then_def)
  show ?thesis
  proof (cases r)
    case None
    then show ?thesis using run l(2,3) search_ok_moved [OF assms(3)] by simp
  next
    case (Some t)
    obtain ps1 where x: "executed tp t (nat 1) (st, ps) (st', ps1)" "ps' = ps1 \<lparr> ps_tasks := u64_sub (ps_tasks ps1) 1 \<rparr>"
      "task_affine tp m st' t cpu = Some True" using l(2) Some by auto
    have "cpu_affinity_respected tp cpu (affinity (st t))"
      using affine_respected [OF assms(1,2) x(3)] x(1) by (simp add: executed_def)
    from search_ok_obtained [OF assms(3) x(1) _, where allowed = "cpu_affinity_respected tp cpu" and pref = False and
        clk = clk and clk' = clk', OF _ this]
    show ?thesis unfolding run Some by (simp add: obtained_def Let_def x(2))
  qed
qed

text \<open>The search among yielded tasks that have not expired, called after the other searches have set
  \<open>removed\<close> to one, always returns, keeps the invariant, and a task it returns was one of the process and may run on
  this CPU; tasks that may not are moved to their affine queues and none is lost.\<close>

theorem scheduler_find_task_yield_process_correct:
  assumes "topo_ok tp m" "cpu < per_level_count tp TOPO_CPU" "ps_inv tp st ps"
  shows "\<exists>clk' st' ps' removed r.
    scheduler_find_task_yield_process tp m cpu (clk, st, ps) 1 = Some ((clk', st', ps'), removed, r) \<and>
    search_ok tp (clk, st, ps) (cpu_affinity_respected tp cpu) ((clk', st', ps'), removed, r) \<and>
    (r = None \<longrightarrow> removed = 1 \<and> ps_queue ps' = ps_queue ps)"
  by (rule yield_search [OF assms])

subsection \<open>Witnesses\<close>

text \<open>A scheduler of process 0 with one ready task, number 3.\<close>

definition example_ps :: "process_scheduler" where
  "example_ps = the (scheduler_init_pid example_topology 0 0) \<lparr> ps_queue := empty_queue \<lparr> fifo_tasks := [3] \<rparr>, ps_tasks := 1 \<rparr>"

lemma example_ps_inv: "ps_inv example_topology (example_store []) example_ps"
proof -
  obtain ps where i: "scheduler_init_pid example_topology 0 0 = Some ps" "ps_inv example_topology (example_store []) ps"
    "ps_elems ps = {#}" "ps_tasks ps = 0"
    using scheduler_init_pid_inv [OF example_topology_ok, of 0 0 "example_store []"] by blast
  have q: "ps_queue ps = empty_queue" using i(1)
    by (auto simp: scheduler_init_pid_def Let_def scheduler_init_queue_def empty_queue_def split: bind_splits)
  have "scheduler_add_queue (example_store []) (ps_queue ps) 3 = (example_store [], empty_queue \<lparr> fifo_tasks := [3] \<rparr>)"
    by (simp add: q scheduler_add_queue_def empty_queue_def example_store_def)
  moreover have "task_ok example_topology (example_store [] 3)"
    by (simp add: task_ok_def example_store_def affinity_ok_def)
  ultimately show ?thesis using general_insert_inv [OF i(2), of 3] i
    by (simp add: example_ps_def executions_left_def example_store_def)
qed

theorem scheduler_find_task_process_correct_witness:
  "\<exists>clk' st' ps' removed r.
    scheduler_find_task_process example_topology example_cpus 1 ((id, 0), example_store [], example_ps) 0 = Some ((clk', st', ps'), removed, r) \<and>
    search_ok example_topology ((id, 0), example_store [], example_ps) (cpu_affinity_respected example_topology 1) ((clk', st', ps'), removed, r)"
proof -
  have "1 < per_level_count example_topology TOPO_CPU" by (simp add: example_topology_def)
  from scheduler_find_task_process_correct [OF example_topology_ok this example_ps_inv, of "(id, 0)" 0] show ?thesis by blast
qed

theorem scheduler_find_task_noaffine_process_correct_witness:
  "\<exists>clk' st' ps' removed r.
    scheduler_find_task_noaffine_process example_topology example_cpus 0 ((id, 0), example_store [], example_ps) 0 = Some ((clk', st', ps'), removed, r) \<and>
    search_ok example_topology ((id, 0), example_store [], example_ps) (\<lambda>a. aff_type a \<noteq> NOSV_AFFINITY_TYPE_STRICT)
      ((clk', st', ps'), removed, r)"
  using scheduler_find_task_noaffine_process_correct [OF example_topology_ok example_ps_inv, of 0 "(id, 0)" 0] by blast

theorem scheduler_find_task_yield_process_correct_witness:
  "\<exists>clk' st' ps' removed r.
    scheduler_find_task_yield_process example_topology example_cpus 1 ((id, 0), example_store [], example_ps) 1 = Some ((clk', st', ps'), removed, r) \<and>
    search_ok example_topology ((id, 0), example_store [], example_ps) (cpu_affinity_respected example_topology 1) ((clk', st', ps'), removed, r)"
proof -
  have "1 < per_level_count example_topology TOPO_CPU" by (simp add: example_topology_def)
  from scheduler_find_task_yield_process_correct [OF example_topology_ok this example_ps_inv, of "(id, 0)"] show ?thesis by blast
qed

subsection \<open>NUMA affinity\<close>

text \<open>A task with a strict affinity to the NUMA node the system numbers 2.\<close>

definition numa_store :: store where
  "numa_store t = (example_store [] t) \<lparr> affinity := \<lparr> aff_level = NOSV_AFFINITY_LEVEL_NUMA, aff_type = NOSV_AFFINITY_TYPE_STRICT, aff_index = 2 \<rparr> \<rparr>"

text \<open>\<open>task_affine\<close> compares the logical number of the task's NUMA node with the system number of the
  CPU's node. On a well-formed machine whose NUMA nodes are numbered 1 and 2 the search for CPU 0,
  which is in node 1, hands out a task strictly bound to node 2, and the task is not affine to CPU 1, which
  is in node 2.\<close>

theorem numa_strict_affinity_violated:
  "\<exists>tp m st ps numa s'. topo_ok tp m \<and>
     affinity (st 3) = \<lparr> aff_level = NOSV_AFFINITY_LEVEL_NUMA, aff_type = NOSV_AFFINITY_TYPE_STRICT, aff_index = 2 \<rparr> \<and>
     cpu_parent_lid tp m 0 TOPO_NUMA = Some numa \<and> topo_dom_sid tp TOPO_NUMA numa = Some 1 \<and>
     scheduler_find_task_process tp m 0 ((id, 0), st, ps) 0 = Some (s', 1, Some 3) \<and>
     task_affine tp m st 3 1 = Some False"
proof -
  have a: "cpu_parent_lid example_topology example_cpus 0 TOPO_NUMA = Some 0"
    "topo_dom_sid example_topology TOPO_NUMA 0 = Some 1"
    "task_affine example_topology example_cpus numa_store 3 1 = Some False" by code_simp+
  have m: "task_affine example_topology example_cpus numa_store 3 0 = Some True" "cpu_lid example_topology example_cpus 0 = 0"
    by code_simp+
  have ps: "example_ps = the (scheduler_init_pid example_topology 0 0) \<lparr> ps_queue := empty_queue \<lparr> fifo_tasks := [3] \<rparr>, ps_tasks := 1 \<rparr>"
    and pid: "scheduler_init_pid example_topology 0 0 = Some \<lparr> ps_pid = 0, last_shutdown = 0, shutdown = 0, ps_tasks = 0, served_tasks = 0,
      preferred_affinity_tasks = 0, deadline_tasks = Leaf, ps_now = 0, yield_tasks = [],
      per_cpu_queue_strict = [empty_queue, empty_queue], per_cpu_queue_preferred = [empty_queue, empty_queue],
      per_numa_queue_strict = [empty_queue, empty_queue], per_numa_queue_preferred = [empty_queue, empty_queue], ps_queue = empty_queue \<rparr>"
    by (rule example_ps_def) code_simp
  have f: "\<exists>s'. scheduler_find_task_process example_topology example_cpus 0 ((id, 0), numa_store, example_ps) 0 = Some (s', 1, Some 3)"
    by (simp add: scheduler_find_task_process_def ps pid scheduler_get_deadline_expired_def scheduler_get_yield_expired_def a m
        get_from_def scheduler_get_from_queue_def scheduler_find_in_queue_def empty_queue_def queue_tasks_def assert_then_def
        numa_store_def example_store_def scheduler_pop_queue_def task_upd_def obtained_def Let_def rb_min_def)
  have "affinity (numa_store 3) = \<lparr> aff_level = NOSV_AFFINITY_LEVEL_NUMA, aff_type = NOSV_AFFINITY_TYPE_STRICT, aff_index = 2 \<rparr>"
    by (simp add: numa_store_def)
  with a f example_topology_ok show ?thesis by blast
qed

end
