(* ===== verification/Scheduler.thy ===== *)
theory Scheduler
  imports Process_Search Governor Mpsc
begin

section \<open>The scheduler shared by all processes (scheduler/scheduler.c)\<close>

text \<open>
  The \<open>scheduler_t\<close> keeps one process scheduler per process, in the order of the list \<open>queues\<close>, the
  queue of submitted tasks, the accounting of every CPU's time, the delegation lock and the
  governor. This theory has its operations: submission, the insertion of ready tasks, the purge of
  lapsed deadlines, the choice of a task for a CPU and the loop of the thread that serves the
  others.

  A state of the model is the clock, the store of tasks and the scheduler. A submitted group is the
  ring of its tasks, so the queue of submissions has lists of tasks. An index outside an array and a
  violated assertion are \<^term>\<open>None\<close>. Instrumentation calls are left out. Everything here but the
  submission runs with the delegation lock held; what other threads do in the meantime (submitted tasks,
  newly registered CPUs) is a change of the state between two rounds of the server.
\<close>

subsection \<open>State\<close>

record timestamp =
  ts_ns :: nat
  ts_pid :: int

record scheduler =
  sch_tasks :: nat
  sch_in_queue :: "task_id list mpsc_queue"
  sch_timestamps :: "timestamp list"
  sch_quantum_ns :: nat
  sch_queues :: "pid list"
  queues_direct :: "pid \<Rightarrow> process_scheduler option"
  sch_dtlock :: dtlock
  sch_governor :: governor
  deadline_purge :: int

type_synonym world = "clock \<times> store \<times> scheduler"

text \<open>The options of the configuration file that the scheduler reads.\<close>

record sched_config =
  sched_batch_size :: nat
  sched_quantum_ns :: nat
  sched_in_queue_size :: nat
  sched_cpus_per_queue :: nat
  cfg_governor_policy :: string
  cfg_governor_spins :: u64

text \<open>\<open>scheduler_init\<close> for the first process. The memory the allocator returns is \<open>mem\<close> for the submission
  queue, \<open>imem\<close> for the lock and \<open>g\<close> for the governor.\<close>

definition scheduler_init ::
  "topology \<Rightarrow> sched_config \<Rightarrow> task_id list list \<Rightarrow> dtlock_item list \<Rightarrow> governor \<Rightarrow> scheduler option" where
  "scheduler_init tp cfg mem imem g =
     do { cpu_count \<leftarrow> topo_lvl_cnt tp TOPO_CPU;
          gov \<leftarrow> governor_init cpu_count (cfg_governor_policy cfg) (cfg_governor_spins cfg) g;
          q \<leftarrow> mpsc_alloc (sched_cpus_per_queue cfg) cpu_count (sched_in_queue_size cfg) mem;
          Some \<lparr> sch_tasks = 0, sch_in_queue = q,
                 sch_timestamps = replicate cpu_count \<lparr> ts_ns = 0, ts_pid = - 1 \<rparr>,
                 sch_quantum_ns = sched_quantum_ns cfg, sch_queues = [], queues_direct = (\<lambda>_. None),
                 sch_dtlock = dtlock_init imem (cpu_count * 2), sch_governor = gov, deadline_purge = 0 \<rparr> }"

text \<open>\<open>queues_direct[pid]\<close>, a pointer in an array of MAX_PIDS entries.\<close>

definition direct :: "scheduler \<Rightarrow> pid \<Rightarrow> process_scheduler option option" where
  "direct s p = assert_then (p < MAX_PIDS) (Some (queues_direct s p))"

definition put_ps :: "scheduler \<Rightarrow> pid \<Rightarrow> process_scheduler \<Rightarrow> scheduler" where
  "put_ps s p ps = s \<lparr> queues_direct := (queues_direct s)(p \<mapsto> ps) \<rparr>"

definition scheduler_wake :: "scheduler \<Rightarrow> pid \<Rightarrow> scheduler option" where
  "scheduler_wake s p =
     map_option (\<lambda>e. case e of None \<Rightarrow> s | Some ps \<Rightarrow> put_ps s p (ps \<lparr> shutdown := shutdown ps + 1 \<rparr>)) (direct s p)"

subsection \<open>Ready tasks\<close>

text \<open>The process scheduler of a task, created at the first task of a process.\<close>

definition scheduler_pidqueue :: "topology \<Rightarrow> clock \<Rightarrow> scheduler \<Rightarrow> pid \<Rightarrow> (clock \<times> scheduler \<times> process_scheduler) option" where
  "scheduler_pidqueue tp clk s p =
     do { e \<leftarrow> direct s p;
          case e of
            Some ps \<Rightarrow> Some (clk, s, ps)
          | None \<Rightarrow>
              (let (now, clk') = clock_ns clk
               in do { ps \<leftarrow> scheduler_init_pid tp now p;
                       Some (clk', put_ps (s \<lparr> sch_queues := sch_queues s @ [p] \<rparr>) p ps, ps) }) }"

text \<open>\<open>while (RB_INSERT(...)) task->deadline++\<close>: a deadline that is in the tree already is increased.
  There are at most as many rounds as tasks in the tree.\<close>

fun deadline_insert :: "nat \<Rightarrow> store \<Rightarrow> task_id rbtree \<Rightarrow> task_id \<Rightarrow> (store \<times> task_id rbtree) option" where
  "deadline_insert fuel st tree task =
     (case rb_insert (task_deadline_compare st) tree task of
        (tree', None) \<Rightarrow> Some (sync_hooks id tree' st, tree')
      | (tree', Some other) \<Rightarrow>
          (case fuel of
             0 \<Rightarrow> None
           | Suc n \<Rightarrow> deadline_insert n (task_upd st task (\<lambda>t. t \<lparr> deadline := u64_add (deadline t) 1 \<rparr>)) tree' task))"

definition insert_ready :: "store \<Rightarrow> process_scheduler \<Rightarrow> task_id \<Rightarrow> (store \<times> process_scheduler) option" where
  "insert_ready st ps task =
     (if task_yield (st task) \<noteq> 0
      then assert_then (deadline (st task) = 0)
             (Some (task_upd st task (\<lambda>t. t \<lparr> hook_word := u64_add (served_tasks ps) (ps_tasks ps) \<rparr>),
                    ps \<lparr> yield_tasks := yield_tasks ps @ [task] \<rparr>))
      else if deadline (st task) \<noteq> 0
      then (if deadline_state (st task) = NOSV_DEADLINE_PENDING
            then do { (st', tree) \<leftarrow> deadline_insert (length (inorder (deadline_tasks ps)))
                                       (task_upd st task (\<lambda>t. t \<lparr> deadline_state := NOSV_DEADLINE_WAITING \<rparr>))
                                       (deadline_tasks ps) task;
                      Some (st', ps \<lparr> deadline_tasks := tree \<rparr>) }
            else assert_then (deadline_state (st task) = NOSV_DEADLINE_READY)
                   (let (st', q) = scheduler_add_queue (deadline_task_wake_up st task) (ps_queue ps) task
                    in Some (st', ps \<lparr> ps_queue := q \<rparr>)))
      else (let (st', q) = scheduler_add_queue st (ps_queue ps) task
            in Some (st', ps \<lparr> ps_queue := q \<rparr>)))"

definition scheduler_insert_ready_task :: "topology \<Rightarrow> world \<Rightarrow> task_id \<Rightarrow> world option" where
  "scheduler_insert_ready_task tp w task =
     (case w of (clk, st, s) \<Rightarrow>
        (let p = type_pid (task_type (st task)); d = task_get_degree (st task)
         in assert_then (d > 0)
              (do { (clk', s1, ps) \<leftarrow> scheduler_pidqueue tp clk s p;
                    (st', ps') \<leftarrow> insert_ready st ps task;
                    Some (clk', st', put_ps s1 p (ps' \<lparr> ps_tasks := u64_add (ps_tasks ps') (nat d) \<rparr>)
                            \<lparr> sch_tasks := u64_add (sch_tasks s1) (nat d) \<rparr>) })))"

text \<open>The tasks of a submitted ring, from the first on.\<close>

fun insert_ring :: "topology \<Rightarrow> world \<Rightarrow> task_id list \<Rightarrow> world option" where
  "insert_ring tp w [] = Some w"
| "insert_ring tp w (t # ts) = do { w' \<leftarrow> scheduler_insert_ready_task tp w t; insert_ring tp w' ts }"

definition scheduler_process_ready_task_buffer :: "topology \<Rightarrow> world \<Rightarrow> task_id list \<Rightarrow> world option" where
  "scheduler_process_ready_task_buffer tp w ring = assert_then (ring \<noteq> []) (insert_ring tp w ring)"

fun insert_rings :: "topology \<Rightarrow> world \<Rightarrow> task_id list list \<Rightarrow> world option" where
  "insert_rings tp w [] = Some w"
| "insert_rings tp w (r # rs) = do { w' \<leftarrow> scheduler_process_ready_task_buffer tp w r; insert_rings tp w' rs }"

fun check_shutdowns :: "cpumanager \<Rightarrow> pid list \<Rightarrow> scheduler \<Rightarrow> scheduler option" where
  "check_shutdowns m [] s = Some s"
| "check_shutdowns m (p # ps) s =
     do { sched \<leftarrow> queues_direct s p;
          if shutdown sched > last_shutdown sched
          then do { (g, d) \<leftarrow> governor_shutdown_process (\<lambda>c. pids_cpus m ! c) (sch_governor s) (int (ps_pid sched)) (sch_dtlock s);
                    check_shutdowns m ps (put_ps s p (sched \<lparr> last_shutdown := shutdown sched \<rparr>)
                      \<lparr> sch_governor := g, sch_dtlock := d \<rparr>) }
          else check_shutdowns m ps s }"

definition scheduler_check_process_shutdowns :: "cpumanager \<Rightarrow> scheduler \<Rightarrow> scheduler option" where
  "scheduler_check_process_shutdowns m s = check_shutdowns m (sch_queues s) s"

text \<open>The loop that empties the submission queue ends with the first empty batch; every other batch
  takes a ring out of the queue.\<close>

fun ready_loop :: "topology \<Rightarrow> nat \<Rightarrow> nat \<Rightarrow> world \<Rightarrow> world option" where
  "ready_loop tp batch fuel (clk, st, s) =
     do { (q, rings) \<leftarrow> mpsc_pop_batch (sch_in_queue s) batch;
          if rings = [] then Some (clk, st, s \<lparr> sch_in_queue := q \<rparr>)
          else do { w \<leftarrow> insert_rings tp (clk, st, s \<lparr> sch_in_queue := q \<rparr>) rings;
                    case fuel of 0 \<Rightarrow> None | Suc n \<Rightarrow> ready_loop tp batch n w } }"

definition scheduler_process_ready_tasks :: "topology \<Rightarrow> cpumanager \<Rightarrow> nat \<Rightarrow> world \<Rightarrow> world option" where
  "scheduler_process_ready_tasks tp m batch w =
     (case w of (clk, st, s) \<Rightarrow>
        do { (clk', st', s') \<leftarrow> ready_loop tp batch (size (mpsc_elems (sch_in_queue s))) w;
             s'' \<leftarrow> scheduler_check_process_shutdowns m s';
             Some (clk', st', s'') })"

subsection \<open>Accounting of CPU time\<close>

definition scheduler_should_yield :: "scheduler \<Rightarrow> clock \<Rightarrow> int \<Rightarrow> nat \<Rightarrow> bool \<times> nat \<times> clock" where
  "scheduler_should_yield s clk p cpu =
     (let (now, clk') = clock_ns clk; t = sch_timestamps s ! cpu
      in (ts_pid t = p \<and> u64_sub now (ts_ns t) > sch_quantum_ns s, now, clk'))"

definition set_timestamp :: "scheduler \<Rightarrow> nat \<Rightarrow> int \<Rightarrow> nat \<Rightarrow> scheduler" where
  "set_timestamp s cpu p now = s \<lparr> sch_timestamps := (sch_timestamps s)[cpu := \<lparr> ts_ns = now, ts_pid = p \<rparr>] \<rparr>"

definition scheduler_reset_accounting :: "scheduler \<Rightarrow> clock \<Rightarrow> int \<Rightarrow> nat \<Rightarrow> (scheduler \<times> clock) option" where
  "scheduler_reset_accounting s clk p cpu =
     assert_then (ts_pid (sch_timestamps s ! cpu) = p \<or> ts_pid (sch_timestamps s ! cpu) = - 1)
       (let (now, clk') = clock_ns clk in Some (set_timestamp s cpu p now, clk'))"

definition scheduler_update_accounting :: "store \<Rightarrow> scheduler \<Rightarrow> int \<Rightarrow> task_id option \<Rightarrow> nat \<Rightarrow> nat \<Rightarrow> scheduler" where
  "scheduler_update_accounting st s p task cpu now =
     (case task of
        None \<Rightarrow> set_timestamp s cpu (- 1) (ts_ns (sch_timestamps s ! cpu))
      | Some t \<Rightarrow>
          (let task_pid = int (type_pid (task_type (st t)))
           in if task_pid \<noteq> p then set_timestamp s cpu task_pid now
              else if p \<noteq> ts_pid (sch_timestamps s ! cpu) then set_timestamp s cpu p now
              else s))"

subsection \<open>Lapsed deadlines\<close>

text \<open>\<open>scheduler_request_deadline_purge\<close> counts the tasks whose deadline was cancelled.\<close>

definition scheduler_request_deadline_purge :: "scheduler \<Rightarrow> scheduler" where
  "scheduler_request_deadline_purge s = s \<lparr> deadline_purge := deadline_purge s + 1 \<rparr>"

text \<open>RB_FOREACH_SAFE reads the successor of a node before the body runs, so it visits the tasks that were in the
  tree at the start, in order. The loop ends early when the count is used up.\<close>

fun purge_tree :: "task_id list \<Rightarrow> store \<Rightarrow> process_scheduler \<Rightarrow> int \<Rightarrow> store \<times> process_scheduler \<times> int" where
  "purge_tree [] st ps to_purge = (st, ps, to_purge)"
| "purge_tree (task # rest) st ps to_purge =
     (if deadline_state (st task) = NOSV_DEADLINE_READY
      then (let (st1, ps1) = deadline_remove st ps task;
                (st2, q) = scheduler_add_queue (deadline_task_wake_up st1 task) (ps_queue ps1) task;
                ps2 = ps1 \<lparr> ps_queue := q \<rparr>
            in if to_purge - 1 = 0 then (st2, ps2, 0) else purge_tree rest st2 ps2 (to_purge - 1))
      else purge_tree rest st ps to_purge)"

text \<open>The circular walk over the list of processes that starts at one of them: \<open>list_next_circular\<close> until the
  start is met again.\<close>

definition circle_from :: "'a \<Rightarrow> 'a list \<Rightarrow> 'a list" where
  "circle_from p ps = dropWhile (\<lambda>q. q \<noteq> p) ps @ takeWhile (\<lambda>q. q \<noteq> p) ps"

definition next_circular :: "'a list \<Rightarrow> 'a \<Rightarrow> 'a" where
  "next_circular ps p = hd (tl (circle_from p ps) @ [p])"

fun purge_processes :: "pid list \<Rightarrow> store \<Rightarrow> scheduler \<Rightarrow> int \<Rightarrow> (store \<times> scheduler) option" where
  "purge_processes [] st s to_purge = Some (st, s)"
| "purge_processes (p # rest) st s to_purge =
     do { ps \<leftarrow> queues_direct s p;
          let (st', ps', left) = purge_tree (inorder (deadline_tasks ps)) st ps to_purge;
          if left = 0 then Some (st', put_ps s p ps') else purge_processes rest st' (put_ps s p ps') left }"

definition start_of :: "scheduler \<Rightarrow> pid \<Rightarrow> pid option" where
  "start_of s p =
     do { e \<leftarrow> direct s p;
          case e of Some ps \<Rightarrow> Some p | None \<Rightarrow> (case sch_queues s of [] \<Rightarrow> None | q # _ \<Rightarrow> Some q) }"

definition scheduler_deadline_purge_internal :: "pid \<Rightarrow> world \<Rightarrow> int \<Rightarrow> world option" where
  "scheduler_deadline_purge_internal logic_pid w to_purge =
     (case w of (clk, st, s) \<Rightarrow>
        if sch_tasks s = 0 then Some w
        else do { it \<leftarrow> start_of s logic_pid;
                  (st', s') \<leftarrow> purge_processes (circle_from it (sch_queues s)) st s to_purge;
                  Some (clk, st', s') })"

definition scheduler_deadline_purge :: "pid \<Rightarrow> world \<Rightarrow> world option" where
  "scheduler_deadline_purge logic_pid w =
     (case w of (clk, st, s) \<Rightarrow>
        if deadline_purge s = 0 then Some w
        else do { (clk', st', s') \<leftarrow> scheduler_deadline_purge_internal logic_pid w (deadline_purge s);
                  Some (clk', st', s' \<lparr> deadline_purge := deadline_purge s' - deadline_purge s \<rparr>) })"

subsection \<open>The choice of a task\<close>

type_synonym search = "search_state \<Rightarrow> int \<Rightarrow> (search_state \<times> int \<times> task_id option) option"

text \<open>SCHEDULER_FOREACH_DO: the processes in turn, without the own one when only tasks of other processes are
  wanted; \<open>task_removed\<close> is kept from one search to the next.\<close>

fun foreach_do :: "search \<Rightarrow> bool \<Rightarrow> int \<Rightarrow> nat \<Rightarrow> nat \<Rightarrow> pid list \<Rightarrow> world \<Rightarrow> int \<Rightarrow> (world \<times> int \<times> task_id option) option" where
  "foreach_do f external p cpu ts [] w removed = Some (w, removed, None)"
| "foreach_do f external p cpu ts (q # rest) (clk, st, s) removed =
     do { sched \<leftarrow> queues_direct s q;
          if \<not> external \<or> int (ps_pid sched) \<noteq> p
          then do { ((clk', st', sched'), removed', r) \<leftarrow> f (clk, st, sched) removed;
                    case r of
                      Some task \<Rightarrow>
                        (let s1 = put_ps s q (sched' \<lparr> served_tasks := u64_add (served_tasks sched') (nat removed') \<rparr>)
                                    \<lparr> sch_tasks := u64_sub (sch_tasks s) (nat removed') \<rparr>
                         in Some ((clk', st', scheduler_update_accounting st' s1 p (Some task) cpu ts), removed', Some task))
                    | None \<Rightarrow> foreach_do f external p cpu ts rest (clk', st', put_ps s q sched') removed' }
          else foreach_do f external p cpu ts rest (clk, st, s) removed }"

definition scheduler_get_internal :: "topology \<Rightarrow> cpumanager \<Rightarrow> world \<Rightarrow> nat \<Rightarrow> (world \<times> task_id option) option" where
  "scheduler_get_internal tp m w cpu =
     (case w of (clk, st, s) \<Rightarrow>
        if sch_tasks s = 0
        then Some ((clk, st, scheduler_update_accounting st s 0 None cpu 0), None)
        else do { let external = dtlock_requires_external (sch_dtlock s) cpu;
                  p \<leftarrow> cpu_get_pid m cpu;
                  it \<leftarrow> assert_then (0 \<le> p) (start_of s (nat p));
                  let (yield, ts, clk1) = scheduler_should_yield s clk p cpu;
                  let it1 = (if yield then next_circular (sch_queues s) it else it);
                  let order = circle_from it1 (sch_queues s);
                  (w2, rem2, r2) \<leftarrow> foreach_do (scheduler_find_task_process tp m cpu) external p cpu ts order (clk1, st, s) 0;
                  case r2 of
                    Some task \<Rightarrow> Some (w2, Some task)
                  | None \<Rightarrow>
                      do { (w3, rem3, r3) \<leftarrow> foreach_do (scheduler_find_task_noaffine_process tp m cpu) external p cpu ts order w2 rem2;
                           case r3 of
                             Some task \<Rightarrow> Some (w3, Some task)
                           | None \<Rightarrow>
                               do { let it2 = (if yield then it1 else next_circular (sch_queues s) it1);
                                    (w4, rem4, r4) \<leftarrow> foreach_do (scheduler_find_task_yield_process tp m cpu) external p cpu ts
                                                         (circle_from it2 (sch_queues s)) w3 rem3;
                                    Some (w4, r4) } } })"

subsection \<open>Serving other CPUs\<close>

definition scheduler_serve :: "world \<Rightarrow> task_id \<Rightarrow> nat \<Rightarrow> nat \<Rightarrow> world option" where
  "scheduler_serve w task cnt cpu =
     (case w of (clk, st, s) \<Rightarrow>
        (let (g, waiter) = governor_served (sch_governor s) cpu
         in do { d \<leftarrow> dtlock_serve (sch_dtlock s) cpu (ItemTask task) cnt
                        (if waiter then DTLOCK_SIGNAL_WAKE else DTLOCK_SIGNAL_DEFAULT);
                 Some (clk, st, s \<lparr> sch_governor := g, sch_dtlock := d \<rparr>) }))"

text \<open>One round of CPU_BITSET_FOREACH in \<open>scheduler_serve_batch\<close>; the state has the tasks served and whether a
  CPU was left without one.\<close>

type_synonym serve_state = "(world \<times> nat \<times> bool) option"

definition serve_body :: "topology \<Rightarrow> cpumanager \<Rightarrow> nat \<Rightarrow> serve_state \<Rightarrow> serve_state" where
  "serve_body tp m cpu x =
     do { (w, served, skipped) \<leftarrow> x;
          assert_then (cpu < per_level_count tp TOPO_CPU)
            (do { (w', r) \<leftarrow> scheduler_get_internal tp m w cpu;
                  case r of
                    None \<Rightarrow> Some (w', served, True)
                  | Some task \<Rightarrow>
                      do { w'' \<leftarrow> scheduler_serve w' task (scheduled_count (fst (snd w') task)) cpu;
                           Some (w'', served + 1, skipped) } }) }"

definition mask_in :: "(governor \<Rightarrow> cpu_bitset) \<Rightarrow> serve_state \<Rightarrow> cpu_bitset" where
  "mask_in sel x = (case x of None \<Rightarrow> no_cpus | Some ((clk, st, s), _) \<Rightarrow> sel (sch_governor s))"

definition scheduler_serve_batch :: "topology \<Rightarrow> cpumanager \<Rightarrow> (governor \<Rightarrow> cpu_bitset) \<Rightarrow> world \<Rightarrow> bool \<Rightarrow> serve_state" where
  "scheduler_serve_batch tp m sel w skipped =
     (case cpu_bitset_foreach (mask_in sel) (serve_body tp m) (Some (w, 0, skipped)) of
        None \<Rightarrow> None | Some x \<Rightarrow> x)"

definition MAX_SERVED_TASKS :: nat where "MAX_SERVED_TASKS = 1024"

definition update_cpumasks :: "world \<Rightarrow> (world \<times> nat) option" where
  "update_cpumasks w =
     (case w of (clk, st, s) \<Rightarrow>
        do { (g, d, pending) \<leftarrow> governor_update_cpumasks (sch_governor s) (sch_dtlock s);
             Some ((clk, st, s \<lparr> sch_governor := g, sch_dtlock := d \<rparr>), pending) })"

text \<open>The loop that serves everyone waiting. Every round but the last serves a task, so MAX_SERVED_TASKS rounds
  are enough.\<close>

fun serve_loop :: "topology \<Rightarrow> cpumanager \<Rightarrow> nat \<Rightarrow> world \<Rightarrow> nat \<Rightarrow> nat \<Rightarrow> bool \<Rightarrow> world option" where
  "serve_loop tp m fuel w served pending skip =
     (if served < MAX_SERVED_TASKS \<and> 0 < pending \<and> \<not> skip
      then do { (w1, n1, skip1) \<leftarrow> scheduler_serve_batch tp m waiters w skip;
                (w2, n2, skip2) \<leftarrow> scheduler_serve_batch tp m sleepers w1 skip1;
                (clk, st, s) \<leftarrow> Some w2;
                (g, d) \<leftarrow> governor_apply_policy (sch_governor s) (sch_dtlock s);
                (w3, pending') \<leftarrow> update_cpumasks (clk, st, s \<lparr> sch_governor := g, sch_dtlock := d \<rparr>);
                case fuel of
                  0 \<Rightarrow> None
                | Suc n \<Rightarrow> serve_loop tp m n w3 (served + n1 + n2) pending' skip2 }
      else Some w)"

text \<open>One round of the server in \<open>scheduler_get\<close>, up to its own task.\<close>

definition server_round :: "topology \<Rightarrow> cpumanager \<Rightarrow> nat \<Rightarrow> pid \<Rightarrow> nat \<Rightarrow> world \<Rightarrow> (world \<times> task_id option) option" where
  "server_round tp m batch logic_pid cpu w =
     do { w1 \<leftarrow> scheduler_process_ready_tasks tp m batch w;
          w2 \<leftarrow> scheduler_deadline_purge logic_pid w1;
          (w3, pending) \<leftarrow> update_cpumasks w2;
          w4 \<leftarrow> serve_loop tp m MAX_SERVED_TASKS w3 0 pending False;
          scheduler_get_internal tp m w4 cpu }"

text \<open>The rounds of the server. The list has, for every round, what the other threads did to the state before it
  and whether the worker has to shut down after it; the loop of a blocking server goes on as long as it has
  no task.\<close>

fun server_loop :: "topology \<Rightarrow> cpumanager \<Rightarrow> nat \<Rightarrow> pid \<Rightarrow> nat \<Rightarrow> bool \<Rightarrow> ((world \<Rightarrow> world) \<times> bool) list \<Rightarrow> world \<Rightarrow>
    (world \<times> task_id option) option" where
  "server_loop tp m batch logic_pid cpu blocking [] w = None"
| "server_loop tp m batch logic_pid cpu blocking ((env, should_shutdown) # rounds) w =
     do { (w', r) \<leftarrow> server_round tp m batch logic_pid cpu (env w);
          if r = None \<and> blocking \<and> \<not> should_shutdown
          then server_loop tp m batch logic_pid cpu blocking rounds w'
          else Some (w', r) }"

text \<open>What \<open>dtlock_lock_or_delegate\<close> returns: the lock, or an item and its execution number.\<close>

datatype lock_result = LockAcquired | LockServed dt_item nat

definition scheduler_get :: "topology \<Rightarrow> cpumanager \<Rightarrow> nat \<Rightarrow> pid \<Rightarrow> nat \<Rightarrow> bool \<Rightarrow> lock_result \<Rightarrow>
    ((world \<Rightarrow> world) \<times> bool) list \<Rightarrow> world \<Rightarrow> (world \<times> (task_id \<times> nat) option) option" where
  "scheduler_get tp m batch logic_pid cpu blocking lock rounds w =
     (case lock of
        LockServed (ItemTask task) cnt \<Rightarrow> assert_then (cnt \<noteq> 0) (Some (w, Some (task, cnt)))
      | LockServed _ cnt \<Rightarrow> Some (w, None)
      | LockAcquired \<Rightarrow>
          do { ((clk, st, s), r) \<leftarrow> server_loop tp m batch logic_pid cpu blocking rounds w;
               (g, d) \<leftarrow> (if dtlock_empty (sch_dtlock s) then governor_wake_one (sch_governor s) (sch_dtlock s)
                         else Some (sch_governor s, sch_dtlock s));
               let w' = (clk, st, s \<lparr> sch_governor := g, sch_dtlock := dtlock_unlock d \<rparr>);
               case r of
                 None \<Rightarrow> Some (w', None)
               | Some task \<Rightarrow>
                   assert_then (scheduled_count (st task) \<noteq> 0) (Some (w', Some (task, scheduled_count (st task)))) })"

subsection \<open>Submission\<close>

text \<open>\<open>scheduler_submit_internal\<close>: a full queue is emptied by the submitting thread when it gets the lock. The
  list has the results of the compare-and-exchange of every \<open>dtlock_try_lock\<close>.\<close>

definition dtlock_try_lock :: "dtlock \<Rightarrow> bool \<Rightarrow> dtlock \<times> bool" where
  "dtlock_try_lock d cas =
     (if wq_ticket d (slot d (dt_head d)) \<noteq> dt_head d then (d, False)
      else if cas then (d \<lparr> dt_head := dt_head d + 1 \<rparr>, True) else (d, False))"

fun scheduler_submit_internal :: "topology \<Rightarrow> cpumanager \<Rightarrow> nat \<Rightarrow> int \<Rightarrow> bool list \<Rightarrow> world \<Rightarrow> task_id list \<Rightarrow> world option" where
  "scheduler_submit_internal tp m batch cpu cas (clk, st, s) ring =
     do { (q, success) \<leftarrow> mpsc_push (sch_in_queue s) ring cpu;
          if success then Some (clk, st, s \<lparr> sch_in_queue := q \<rparr>)
          else (case cas of
                  [] \<Rightarrow> None
                | c # cas' \<Rightarrow>
                    (case dtlock_try_lock (sch_dtlock s) c of
                       (d, False) \<Rightarrow> scheduler_submit_internal tp m batch cpu cas' (clk, st, s) ring
                     | (d, True) \<Rightarrow>
                         do { (clk1, st1, s1) \<leftarrow> scheduler_process_ready_tasks tp m batch (clk, st, s \<lparr> sch_dtlock := d \<rparr>);
                              scheduler_submit_internal tp m batch cpu cas'
                                (clk1, st1, s1 \<lparr> sch_dtlock := dtlock_unlock (sch_dtlock s1) \<rparr>) ring })) }"

definition scheduler_submit_single :: "topology \<Rightarrow> cpumanager \<Rightarrow> nat \<Rightarrow> int \<Rightarrow> bool list \<Rightarrow> world \<Rightarrow> task_id \<Rightarrow> world option" where
  "scheduler_submit_single tp m batch cpu cas w task = scheduler_submit_internal tp m batch cpu cas w [task]"

definition scheduler_submit_group :: "topology \<Rightarrow> cpumanager \<Rightarrow> nat \<Rightarrow> int \<Rightarrow> bool list \<Rightarrow> world \<Rightarrow> task_id list \<Rightarrow> world option" where
  "scheduler_submit_group tp m batch cpu cas w grp =
     assert_then (\<not> task_group_empty grp) (scheduler_submit_internal tp m batch cpu cas w grp)"

text \<open>\<open>scheduler_batch_submit\<close>: the running task, if there is one with a submit window, collects the tasks it submits. The
  last step is \<open>nosv_flush_submit_window\<close>.\<close>

definition flush_window :: "topology \<Rightarrow> cpumanager \<Rightarrow> nat \<Rightarrow> int \<Rightarrow> bool list \<Rightarrow> world \<Rightarrow> task_id \<Rightarrow> world option" where
  "flush_window tp m batch cpu cas w cur =
     (case w of (clk, st, s) \<Rightarrow>
        if task_group_empty (submit_window (st cur)) then Some w
        else do { (clk', st', s') \<leftarrow> scheduler_submit_group tp m batch cpu cas w (submit_window (st cur));
                  Some (clk', task_upd st' cur (\<lambda>t. t \<lparr> submit_window := task_group_clear (submit_window t) \<rparr>), s') })"

definition scheduler_batch_submit :: "topology \<Rightarrow> cpumanager \<Rightarrow> nat \<Rightarrow> int \<Rightarrow> bool list \<Rightarrow> task_id option \<Rightarrow> world \<Rightarrow> task_id \<Rightarrow> world option" where
  "scheduler_batch_submit tp m batch cpu cas current_task w task =
     (case w of (clk, st, s) \<Rightarrow>
        case current_task of
          None \<Rightarrow> scheduler_submit_single tp m batch cpu cas w task
        | Some cur \<Rightarrow>
            if submit_window_maxsize (st cur) = 1 then scheduler_submit_single tp m batch cpu cas w task
            else (let st' = task_upd st cur (\<lambda>t. t \<lparr> submit_window := task_group_add (submit_window t) task \<rparr>)
                  in if task_group_count (submit_window (st' cur)) \<ge> submit_window_maxsize (st' cur)
                     then flush_window tp m batch cpu cas (clk, st', s) cur
                     else Some (clk, st', s)))"

end
