(* ===== verification/Workers.thy ===== *)
theory Workers
  imports Scheduler
begin

section \<open>Worker threads (hardware/threads.c, hardware/pids.c)\<close>

text \<open>
  A worker is a thread that runs tasks on the CPU it owns. A worker that has to wait hands its CPU to another
  worker, of the same or of another process, and blocks on its condition variable; who wakes it gives it a CPU. This
  theory has the workers, the thread manager of every process and the functions that hand a CPU over.

  The state is the record \<open>runtime\<close>, seen by the thread that runs: its worker, its process and its CPU are the
  thread-local variables of the sources. A pointer to a task or a worker is its positive number, zero is the null pointer. The
  list \<open>salloc_addrs\<close> has the results of the next allocations. The field \<open>w_waiting\<close> says that the thread is
  in \<open>nosv_condvar_wait\<close>. The ring buffer of the creation events is the list of its elements with its capacity.
  The field \<open>per_pid_structures\<close> says that the pointer to the thread manager of a process is set, so that other processes
  see it; the process itself keeps its thread manager until it has shut down.
  Instrumentation, hardware counters, thread attributes and the kernel's thread identifiers are left out.
\<close>

subsection \<open>State\<close>

type_synonym worker_id = nat

record task_execution_handle =
  h_task :: task_id
  h_exec :: nat

definition EMPTY_TASK_EXECUTION_HANDLE :: task_execution_handle where
  "EMPTY_TASK_EXECUTION_HANDLE = \<lparr> h_task = NULL, h_exec = 0 \<rparr>"

record nosv_worker =
  w_cpu :: "cpu_id option"
  w_new_cpu :: "cpu_id option"
  w_handle :: task_execution_handle
  immediate_successor :: task_id
  w_signaled :: bool
  w_waiting :: bool
  w_pid :: pid
  in_task_body :: bool

datatype creation_event = Creation cpu_id task_execution_handle | Shutdown

record thread_manager =
  idle_threads :: "worker_id list"
  shutdown_threads :: "worker_id list"
  created :: nat
  thread_creation_queue :: "creation_event list"
  creation_slots :: nat
  delegate_joined :: bool
  tm_signaled :: bool
  leader_shutdown_cpu :: int

record runtime =
  rt_world :: world
  rt_cpus :: cpumanager
  workers :: "worker_id \<Rightarrow> nosv_worker"
  managers :: "pid \<Rightarrow> thread_manager option"
  per_pid_structures :: "pid \<Rightarrow> bool"
  current_worker :: worker_id
  current_cpu :: int
  logic_pid :: pid
  shutdown_signal :: bool
  salloc_addrs :: "addr list"

text \<open>What the code depends on besides its state: the configuration, the outcome of the competition for the scheduler's lock, and what
  the rest of the system does while the thread is blocked.\<close>

record env =
  e_topo :: topology
  e_batch :: nat
  e_immediate :: bool
  e_cas :: "bool list"
  e_lock :: lock_result
  e_rounds :: "((world \<Rightarrow> world) \<times> bool) list"
  e_blocked :: "runtime \<Rightarrow> runtime"

abbreviation rt_store :: "runtime \<Rightarrow> store" where
  "rt_store rt \<equiv> fst (snd (rt_world rt))"

abbreviation rt_sched :: "runtime \<Rightarrow> scheduler" where
  "rt_sched rt \<equiv> snd (snd (rt_world rt))"

definition upd_store :: "(store \<Rightarrow> store) \<Rightarrow> runtime \<Rightarrow> runtime" where
  "upd_store f rt = rt \<lparr> rt_world := (case rt_world rt of (clk, st, s) \<Rightarrow> (clk, f st, s)) \<rparr>"

definition set_task :: "task_id \<Rightarrow> (nosv_task \<Rightarrow> nosv_task) \<Rightarrow> runtime \<Rightarrow> runtime" where
  "set_task t f = upd_store (\<lambda>st. task_upd st t f)"

definition set_worker :: "worker_id \<Rightarrow> (nosv_worker \<Rightarrow> nosv_worker) \<Rightarrow> runtime \<Rightarrow> runtime" where
  "set_worker w f rt = rt \<lparr> workers := (workers rt)(w := f (workers rt w)) \<rparr>"

definition set_manager :: "pid \<Rightarrow> (thread_manager \<Rightarrow> thread_manager) \<Rightarrow> runtime \<Rightarrow> runtime" where
  "set_manager p f rt = rt \<lparr> managers := (managers rt)(p := map_option f (managers rt p)) \<rparr>"

definition salloc_addr :: "runtime \<Rightarrow> addr \<times> runtime" where
  "salloc_addr rt = (case salloc_addrs rt of [] \<Rightarrow> (NULL, rt) | a # as \<Rightarrow> (a, rt \<lparr> salloc_addrs := as \<rparr>))"

subsection \<open>The calling thread\<close>

definition worker_is_in_task :: "runtime \<Rightarrow> bool" where
  "worker_is_in_task rt = (current_worker rt \<noteq> NULL \<and> h_task (w_handle (workers rt (current_worker rt))) \<noteq> NULL)"

definition worker_current_task :: "runtime \<Rightarrow> task_id" where
  "worker_current_task rt = (if current_worker rt = NULL then NULL else h_task (w_handle (workers rt (current_worker rt))))"

definition worker_get_immediate :: "runtime \<Rightarrow> task_id" where
  "worker_get_immediate rt = (if current_worker rt = NULL then NULL else immediate_successor (workers rt (current_worker rt)))"

definition worker_set_immediate :: "task_id \<Rightarrow> runtime \<Rightarrow> runtime" where
  "worker_set_immediate t rt = set_worker (current_worker rt) (\<lambda>w. w \<lparr> immediate_successor := t \<rparr>) rt"

definition worker_should_shutdown :: "runtime \<Rightarrow> bool" where
  "worker_should_shutdown rt = shutdown_signal rt"

subsection \<open>Handing a CPU over\<close>

definition nosv_condvar_signal :: "worker_id \<Rightarrow> runtime \<Rightarrow> runtime option" where
  "nosv_condvar_signal w rt = assert_then (\<not> w_signaled (workers rt w)) (Some (set_worker w (\<lambda>k. k \<lparr> w_signaled := True \<rparr>) rt))"

definition worker_wake_internal :: "topology \<Rightarrow> worker_id \<Rightarrow> cpu_id \<Rightarrow> runtime \<Rightarrow> runtime option" where
  "worker_wake_internal tp w cpu rt =
     assert_then (w \<noteq> NULL \<and> w \<noteq> current_worker rt)
       (let rt1 = set_worker w (\<lambda>k. k \<lparr> w_new_cpu := Some cpu \<rparr>) rt
        in do { m \<leftarrow> (if w_pid (workers rt w) \<noteq> logic_pid rt then cpu_set_pid tp (rt_cpus rt) cpu (int (w_pid (workers rt w)))
                      else Some (rt_cpus rt));
                nosv_condvar_signal w (rt1 \<lparr> rt_cpus := m \<rparr>) })"

definition worker_add_to_idle_list :: "runtime \<Rightarrow> runtime option" where
  "worker_add_to_idle_list rt =
     assert_then (managers rt (logic_pid rt) \<noteq> None)
       (Some (set_manager (logic_pid rt) (\<lambda>m. m \<lparr> idle_threads := current_worker rt # idle_threads m \<rparr>) rt))"

definition get_idle_worker :: "pid \<Rightarrow> runtime \<Rightarrow> (worker_id \<times> runtime) option" where
  "get_idle_worker p rt =
     do { m \<leftarrow> managers rt p;
          case idle_threads m of
            [] \<Rightarrow> Some (NULL, rt)
          | w # ws \<Rightarrow> Some (w, set_manager p (\<lambda>m. m \<lparr> idle_threads := ws \<rparr>) rt) }"

text \<open>A new worker starts to run at once on the CPU of its creator.\<close>

definition worker_create_local :: "pid \<Rightarrow> cpu_id \<Rightarrow> task_execution_handle \<Rightarrow> runtime \<Rightarrow> runtime option" where
  "worker_create_local p cpu handle rt =
     do { _ \<leftarrow> managers rt p;
          let (w, rt1) = salloc_addr (set_manager p (\<lambda>m. m \<lparr> created := created m + 1 \<rparr>) rt);
          assert_then (w \<noteq> NULL)
            (Some (set_worker w (\<lambda>_. \<lparr> w_cpu = Some cpu, w_new_cpu = w_new_cpu (workers rt w), w_handle = handle,
                     immediate_successor = NULL, w_signaled = False, w_waiting = False, w_pid = logic_pid rt, in_task_body = False \<rparr>) rt1)) }"

text \<open>\<open>event_queue_put\<close>, whose result \<open>worker_create_remote\<close> does not look at.\<close>

definition event_queue_put :: "creation_event \<Rightarrow> thread_manager \<Rightarrow> thread_manager \<times> bool" where
  "event_queue_put ev m =
     (if length (thread_creation_queue m) = creation_slots m then (m, False)
      else (m \<lparr> thread_creation_queue := thread_creation_queue m @ [ev] \<rparr>, True))"

definition worker_create_remote :: "pid \<Rightarrow> cpu_id \<Rightarrow> task_execution_handle \<Rightarrow> runtime \<Rightarrow> runtime option" where
  "worker_create_remote p cpu handle rt =
     do { _ \<leftarrow> managers rt p; Some (set_manager p (\<lambda>m. fst (event_queue_put (Creation cpu handle) m)) rt) }"

definition worker_wake_idle :: "topology \<Rightarrow> pid \<Rightarrow> cpu_id \<Rightarrow> task_execution_handle \<Rightarrow> runtime \<Rightarrow> runtime option" where
  "worker_wake_idle tp p cpu handle rt =
     do { (w, rt1) \<leftarrow> (if per_pid_structures rt p then get_idle_worker p rt else None);
          if w \<noteq> NULL
          then assert_then (h_task (w_handle (workers rt1 w)) = NULL)
                 (worker_wake_internal tp w cpu (set_worker w (\<lambda>k. k \<lparr> w_handle := handle \<rparr>) rt1))
          else if p = logic_pid rt then worker_create_local p cpu handle rt1
          else worker_create_remote p cpu handle rt1 }"

definition cpu_transfer :: "topology \<Rightarrow> pid \<Rightarrow> cpu_id \<Rightarrow> task_execution_handle \<Rightarrow> runtime \<Rightarrow> runtime option" where
  "cpu_transfer tp p cpu handle rt =
     assert_then (nat (cpu_lid tp (rt_cpus rt) cpu) < length (pids_cpus (rt_cpus rt)))
       (worker_wake_idle tp p cpu handle
          (rt \<lparr> rt_cpus := (rt_cpus rt) \<lparr> pids_cpus := (pids_cpus (rt_cpus rt))[nat (cpu_lid tp (rt_cpus rt) cpu) := int p] \<rparr> \<rparr>))"

text \<open>\<open>worker_block\<close>: the thread waits for its signal; \<open>blocked\<close> is all that happens until it returns from the wait.\<close>

definition worker_wait :: "runtime \<Rightarrow> runtime" where
  "worker_wait rt = set_worker (current_worker rt) (\<lambda>w. w \<lparr> w_waiting := True \<rparr>) rt"

definition worker_resume :: "topology \<Rightarrow> runtime \<Rightarrow> runtime option" where
  "worker_resume tp rt =
     (let w = workers rt (current_worker rt)
      in assert_then (w_signaled w)
           (do { cpu \<leftarrow> w_new_cpu w;
                 Some (set_worker (current_worker rt) (\<lambda>w. w \<lparr> w_signaled := False, w_waiting := False, w_cpu := w_new_cpu w \<rparr>) rt
                         \<lparr> current_cpu := cpu_lid tp (rt_cpus rt) cpu \<rparr>) }))"

definition worker_block :: "env \<Rightarrow> runtime \<Rightarrow> runtime option" where
  "worker_block e rt = assert_then (current_worker rt \<noteq> NULL) (worker_resume (e_topo e) (e_blocked e (worker_wait rt)))"

text \<open>\<open>worker_execute_or_delegate\<close> up to the point where the thread blocks or runs the task itself.\<close>

datatype next_action = Block | Execute

definition hand_over :: "topology \<Rightarrow> task_execution_handle \<Rightarrow> cpu_id \<Rightarrow> bool \<Rightarrow> runtime \<Rightarrow> (runtime \<times> next_action) option" where
  "hand_over tp handle cpu is_busy_worker rt =
     assert_then (h_task handle \<noteq> NULL \<and> h_exec handle > 0)
       (let task = rt_store rt (h_task handle);
            idle = (if is_busy_worker then Some rt else worker_add_to_idle_list rt)
        in if worker task \<noteq> NULL
           then assert_then (\<not> task_is_parallel task)
                  (do { rt1 \<leftarrow> idle; rt2 \<leftarrow> worker_wake_internal tp (worker task) cpu rt1; Some (rt2, Block) })
           else if type_pid (task_type task) \<noteq> logic_pid rt
           then do { rt1 \<leftarrow> idle; rt2 \<leftarrow> cpu_transfer tp (type_pid (task_type task)) cpu handle rt1; Some (rt2, Block) }
           else if is_busy_worker
           then do { rt1 \<leftarrow> worker_wake_idle tp (logic_pid rt) cpu handle rt; Some (rt1, Block) }
           else Some (rt, Execute))"

definition worker_execute_or_delegate :: "(task_execution_handle \<Rightarrow> runtime \<Rightarrow> runtime option) \<Rightarrow> env \<Rightarrow> task_execution_handle \<Rightarrow>
    cpu_id \<Rightarrow> bool \<Rightarrow> runtime \<Rightarrow> runtime option" where
  "worker_execute_or_delegate execute e handle cpu is_busy_worker rt =
     do { (rt', act) \<leftarrow> hand_over (e_topo e) handle cpu is_busy_worker rt;
          case act of Block \<Rightarrow> worker_block e rt' | Execute \<Rightarrow> execute handle rt' }"

subsection \<open>Yielding\<close>

definition scheduler_submit_task :: "env \<Rightarrow> task_id \<Rightarrow> runtime \<Rightarrow> runtime option" where
  "scheduler_submit_task e task rt =
     map_option (\<lambda>w. rt \<lparr> rt_world := w \<rparr>)
       (scheduler_submit_single (e_topo e) (rt_cpus rt) (e_batch e) (current_cpu rt) (e_cas e) (rt_world rt) task)"

text \<open>A busy thread never runs the task itself.\<close>

definition worker_yield_to_internal :: "env \<Rightarrow> task_execution_handle \<Rightarrow> runtime \<Rightarrow> runtime option" where
  "worker_yield_to_internal e handle rt =
     assert_then (current_worker rt \<noteq> NULL)
       (do { cpu \<leftarrow> w_cpu (workers rt (current_worker rt));
             if h_task handle \<noteq> NULL then worker_execute_or_delegate (\<lambda>_ _. None) e handle cpu True rt
             else do { rt1 \<leftarrow> worker_wake_idle (e_topo e) (logic_pid rt) cpu handle rt; worker_block e rt1 } })"

definition take_immediate :: "runtime \<Rightarrow> task_execution_handle \<times> runtime" where
  "take_immediate rt =
     (let t = immediate_successor (workers rt (current_worker rt))
      in if t = NULL then (EMPTY_TASK_EXECUTION_HANDLE, rt)
         else (let rt1 = set_task t (\<lambda>k. k \<lparr> scheduled_count := scheduled_count k + 1 \<rparr>) rt
               in (\<lparr> h_task = t, h_exec = scheduled_count (rt_store rt1 t) \<rparr>, worker_set_immediate NULL rt1)))"

definition worker_yield :: "env \<Rightarrow> runtime \<Rightarrow> runtime option" where
  "worker_yield e rt =
     assert_then (current_worker rt \<noteq> NULL) (let (handle, rt1) = take_immediate rt in worker_yield_to_internal e handle rt1)"

definition worker_yield_to :: "env \<Rightarrow> task_execution_handle \<Rightarrow> runtime \<Rightarrow> runtime option" where
  "worker_yield_to e handle rt =
     (let current_task = worker_current_task rt
      in assert_then (h_task handle \<noteq> NULL \<and> current_task \<noteq> NULL \<and> \<not> task_is_parallel (rt_store rt current_task))
           (do { rt1 \<leftarrow> scheduler_submit_task e current_task rt; worker_yield_to_internal e handle rt1 }))"

definition scheduler_get_task :: "env \<Rightarrow> int \<Rightarrow> bool \<Rightarrow> runtime \<Rightarrow> (runtime \<times> task_execution_handle) option" where
  "scheduler_get_task e cpu blocking rt =
     assert_then (0 \<le> cpu)
       (do { (w, r) \<leftarrow> scheduler_get (e_topo e) (rt_cpus rt) (e_batch e) (logic_pid rt) (nat cpu) blocking (e_lock e) (e_rounds e) (rt_world rt);
             Some (rt \<lparr> rt_world := w \<rparr>,
                   case r of None \<Rightarrow> EMPTY_TASK_EXECUTION_HANDLE | Some (t, n) \<Rightarrow> \<lparr> h_task = t, h_exec = n \<rparr>) })"

definition worker_yield_if_needed :: "env \<Rightarrow> task_id \<Rightarrow> runtime \<Rightarrow> (runtime \<times> bool) option" where
  "worker_yield_if_needed e current_task rt =
     assert_then (current_worker rt \<noteq> NULL \<and> h_task (w_handle (workers rt (current_worker rt))) = current_task \<and>
                  worker (rt_store rt current_task) = current_worker rt)
       (do { cpu \<leftarrow> w_cpu (workers rt (current_worker rt));
             (rt1, handle) \<leftarrow>
               (if immediate_successor (workers rt (current_worker rt)) \<noteq> NULL
                then (case take_immediate rt of (h, rt1) \<Rightarrow> Some (rt1, h))
                else scheduler_get_task e (cpu_lid (e_topo e) (rt_cpus rt) cpu) False rt);
             if h_task handle = NULL then Some (rt1, False)
             else do { rt2 \<leftarrow> worker_yield_to e handle rt1; Some (rt2, True) } })"

subsection \<open>External threads\<close>

definition worker_create_external :: "runtime \<Rightarrow> runtime option" where
  "worker_create_external rt =
     (let (w, rt1) = salloc_addr rt
      in assert_then (w \<noteq> NULL)
           (Some (set_worker w (\<lambda>_. \<lparr> w_cpu = None, w_new_cpu = w_new_cpu (workers rt w), w_handle = EMPTY_TASK_EXECUTION_HANDLE,
                    immediate_successor = NULL, w_signaled = False, w_waiting = False, w_pid = logic_pid rt, in_task_body = True \<rparr>) rt1
                  \<lparr> current_worker := w \<rparr>)))"

definition worker_free_external :: "worker_id \<Rightarrow> runtime \<Rightarrow> runtime option" where
  "worker_free_external w rt = assert_then (w \<noteq> NULL \<and> w = current_worker rt) (Some (rt \<lparr> current_worker := NULL \<rparr>))"

end
