(* ===== verification/Tasks_Api.thy ===== *)
theory Tasks_Api
  imports Workers
begin

section \<open>The task interface (system/tasks.c)\<close>

text \<open>
  The functions of the public interface that create, submit, block, suspend and complete tasks, as functions on the
  \<open>runtime\<close> of theory \<open>Workers\<close>. They return the result code with the new state; a violated assertion is \<^term>\<open>None\<close>. The callbacks
  of task types are code of the application: a record \<open>callbacks\<close> of arbitrary functions on the state.
  A submission with the flag NOSV_SUBMIT_INLINE runs the task, and a completed task submits the one that waits
  for it, so \<open>nosv_submit\<close> and \<open>task_execute\<close> call each other in the sources; the second submission never has that flag, so the definitions
  here have the inline execution as an argument and no recursion. Monitoring, hardware counters and instrumentation are left out.
\<close>

unbundle bit_operations_syntax

subsection \<open>Flags\<close>

definition has_flag :: "u64 \<Rightarrow> u64 \<Rightarrow> bool" where
  "has_flag flags f = (flags AND f \<noteq> 0)"

definition NOSV_TYPE_INIT_EXTERNAL :: u64 where "NOSV_TYPE_INIT_EXTERNAL = 1"
definition NOSV_CREATE_NONE :: u64 where "NOSV_CREATE_NONE = 0"
definition NOSV_CREATE_PARALLEL :: u64 where "NOSV_CREATE_PARALLEL = 1"
definition NOSV_SUBMIT_UNLOCKED :: u64 where "NOSV_SUBMIT_UNLOCKED = 1"
definition NOSV_SUBMIT_BLOCKING :: u64 where "NOSV_SUBMIT_BLOCKING = 2"
definition NOSV_SUBMIT_IMMEDIATE :: u64 where "NOSV_SUBMIT_IMMEDIATE = 4"
definition NOSV_SUBMIT_INLINE :: u64 where "NOSV_SUBMIT_INLINE = 8"
definition NOSV_SUBMIT_DEADLINE_WAKE :: u64 where "NOSV_SUBMIT_DEADLINE_WAKE = 16"
definition NOSV_YIELD_NOFLUSH :: u64 where "NOSV_YIELD_NOFLUSH = 1"
definition NOSV_MAX_METADATA_SIZE :: nat where "NOSV_MAX_METADATA_SIZE = 4096"

text \<open>The highest bit of the event counter says that the task is suspended until its events are done.\<close>

definition TASK_WAITING_FOR_EVENTS :: u32 where "TASK_WAITING_FOR_EVENTS = 2147483648"

record callbacks =
  cb_run :: "task_id \<Rightarrow> runtime \<Rightarrow> runtime"
  cb_end :: "task_id \<Rightarrow> runtime \<Rightarrow> runtime"
  cb_completed :: "task_id \<Rightarrow> runtime \<Rightarrow> runtime"

subsection \<open>Types and creation\<close>

text \<open>The counters for identifiers, the registered types and the default affinity of the process.\<close>

record task_globals =
  typeid_counter :: u32
  taskid_counter :: nat
  registered_types :: "nosv_task_type list"
  default_affinity :: nosv_affinity

definition task_type_manager_init :: "task_globals \<Rightarrow> task_globals" where
  "task_type_manager_init g = g \<lparr> registered_types := [] \<rparr>"

text \<open>\<open>parse_affinity_from_config\<close> and \<open>task_affinity_init\<close>. \<open>strtoul\<close> reads the digits at the front, and reports an overflow through \<open>errno\<close>;
  leading blanks and signs are left out. The bit field \<open>index\<close> of an affinity has 29 bits.\<close>

definition digit_value :: "char \<Rightarrow> nat" where
  "digit_value c = of_char c - 48"

fun digits_value :: "nat \<Rightarrow> string \<Rightarrow> nat" where
  "digits_value acc [] = acc"
| "digits_value acc (c # cs) = (if 48 \<le> (of_char c :: nat) \<and> (of_char c :: nat) \<le> 57 then digits_value (acc * 10 + digit_value c) cs else acc)"

definition strtoul10 :: "string \<Rightarrow> nat option" where
  "strtoul10 cs = (let v = digits_value 0 cs in if v < 2 ^ 64 then Some v else None)"

definition parse_affinity_from_config :: "string \<Rightarrow> string \<Rightarrow> nosv_affinity option" where
  "parse_affinity_from_config str policy =
     (let prefix = takeWhile (\<lambda>c. c \<noteq> CHR ''-'') str; rest = dropWhile (\<lambda>c. c \<noteq> CHR ''-'') str
      in if rest = [] then None
         else do { level \<leftarrow> (if prefix = ''cpu'' then Some NOSV_AFFINITY_LEVEL_CPU
                            else if prefix = ''numa'' then Some NOSV_AFFINITY_LEVEL_NUMA else None);
                   index \<leftarrow> strtoul10 (tl rest);
                   Some \<lparr> aff_level = level,
                          aff_type = (if policy = ''strict'' then NOSV_AFFINITY_TYPE_STRICT else NOSV_AFFINITY_TYPE_PREFERRED),
                          aff_index = index mod 2 ^ 29 \<rparr> })"

definition task_affinity_init :: "string \<Rightarrow> string \<Rightarrow> task_globals \<Rightarrow> task_globals option" where
  "task_affinity_init str policy g =
     (if str = ''all''
      then Some (g \<lparr> default_affinity := \<lparr> aff_level = NOSV_AFFINITY_LEVEL_NONE, aff_type = NOSV_AFFINITY_TYPE_PREFERRED, aff_index = 0 \<rparr> \<rparr>)
      else map_option (\<lambda>a. g \<lparr> default_affinity := a \<rparr>) (parse_affinity_from_config str policy))"

text \<open>A successful call stores the type through \<open>type\<close>: the model returns it. The arguments say which callbacks are given.\<close>

definition nosv_type_init :: "bool \<Rightarrow> bool \<Rightarrow> bool \<Rightarrow> bool \<Rightarrow> u64 \<Rightarrow> task_globals \<times> runtime \<Rightarrow>
    (task_globals \<times> runtime) \<times> nosv_task_type option \<times> int" where
  "nosv_type_init type_ptr run_callback end_callback completed_callback flags s =
     (case s of (g, rt) \<Rightarrow>
        if \<not> type_ptr then (s, None, NOSV_ERR_INVALID_PARAMETER)
        else if \<not> run_callback \<and> \<not> has_flag flags NOSV_TYPE_INIT_EXTERNAL then (s, None, NOSV_ERR_INVALID_CALLBACK)
        else (let (res, rt1) = salloc_addr rt
              in if res = NULL then ((g, rt1), None, NOSV_ERR_OUT_OF_MEMORY)
                 else (let ty = \<lparr> type_has_run = run_callback, type_has_end = end_callback, type_has_completed = completed_callback,
                                  type_pid = logic_pid rt, type_id = typeid_counter g \<rparr>
                       in ((g \<lparr> typeid_counter := typeid_counter g + 1, registered_types := registered_types g @ [ty] \<rparr>, rt1), Some ty, NOSV_SUCCESS))))"

definition new_task :: "nosv_task_type \<Rightarrow> nat \<Rightarrow> u64 \<Rightarrow> nosv_affinity \<Rightarrow> nat \<Rightarrow> nosv_task" where
  "new_task ty metadata_size flags aff tid =
     \<lparr> event_count = 1, blocking_count = 1, metadata = metadata_size, task_type = ty, worker = NULL, affinity = aff,
       had_events = False, priority = 0, deadline = 0, deadline_state = NOSV_DEADLINE_NONE, hook_word = 0,
       submit_window = task_group_init, submit_window_maxsize = 1, wakeup = NULL, taskid = tid, degree = 1, scheduled_count = 0,
       flag_parallel = has_flag flags NOSV_CREATE_PARALLEL, flag_suspend = False, flag_suspend_mode = SUSPEND_NONE \<rparr>"

definition nosv_create_internal :: "nosv_task_type \<Rightarrow> nat \<Rightarrow> u64 \<Rightarrow> task_globals \<times> runtime \<Rightarrow> (task_globals \<times> runtime) \<times> task_id \<times> int" where
  "nosv_create_internal ty metadata_size flags s =
     (case s of (g, rt) \<Rightarrow>
        (let (res, rt1) = salloc_addr rt
         in if res = NULL then ((g, rt1), NULL, NOSV_ERR_OUT_OF_MEMORY)
            else ((g \<lparr> taskid_counter := taskid_counter g + 1 \<rparr>,
                   set_task res (\<lambda>_. new_task ty metadata_size flags (default_affinity g) (taskid_counter g)) rt1), res, NOSV_SUCCESS)))"

definition nosv_create :: "bool \<Rightarrow> nosv_task_type option \<Rightarrow> nat \<Rightarrow> u64 \<Rightarrow> task_globals \<times> runtime \<Rightarrow> (task_globals \<times> runtime) \<times> task_id \<times> int" where
  "nosv_create task_ptr type metadata_size flags s =
     (if \<not> task_ptr then (s, NULL, NOSV_ERR_INVALID_PARAMETER)
      else case type of
        None \<Rightarrow> (s, NULL, NOSV_ERR_INVALID_PARAMETER)
      | Some ty \<Rightarrow>
          if metadata_size > NOSV_MAX_METADATA_SIZE then (s, NULL, NOSV_ERR_INVALID_METADATA_SIZE)
          else nosv_create_internal ty metadata_size flags s)"

subsection \<open>Attributes\<close>

definition nosv_get_task_priority :: "runtime \<Rightarrow> task_id \<Rightarrow> int" where
  "nosv_get_task_priority rt task = priority (rt_store rt task)"

definition nosv_set_task_priority :: "task_id \<Rightarrow> int \<Rightarrow> runtime \<Rightarrow> runtime" where
  "nosv_set_task_priority task p = set_task task (\<lambda>t. t \<lparr> priority := p \<rparr>)"

definition nosv_get_task_affinity :: "runtime \<Rightarrow> task_id \<Rightarrow> nosv_affinity" where
  "nosv_get_task_affinity rt task = affinity (rt_store rt task)"

definition nosv_set_task_affinity :: "task_id \<Rightarrow> nosv_affinity \<Rightarrow> runtime \<Rightarrow> runtime" where
  "nosv_set_task_affinity task a = set_task task (\<lambda>t. t \<lparr> affinity := a \<rparr>)"

definition nosv_set_task_degree :: "task_id \<Rightarrow> int \<Rightarrow> runtime \<Rightarrow> runtime option" where
  "nosv_set_task_degree task d rt =
     assert_then (0 < d \<and> task \<noteq> NULL \<and> flag_parallel (rt_store rt task)) (Some (set_task task (\<lambda>t. t \<lparr> degree := d \<rparr>) rt))"

definition nosv_get_task_degree :: "runtime \<Rightarrow> task_id \<Rightarrow> int" where
  "nosv_get_task_degree rt task = task_get_degree (rt_store rt task)"

text \<open>The result type of \<open>nosv_get_execution_id\<close> is unsigned, the error code is not.\<close>

definition nosv_get_execution_id :: "runtime \<Rightarrow> u32" where
  "nosv_get_execution_id rt =
     (if \<not> worker_is_in_task rt then of_int NOSV_ERR_OUTSIDE_TASK
      else of_nat (h_exec (w_handle (workers rt (current_worker rt)))) - 1)"

definition nosv_self :: "runtime \<Rightarrow> task_id" where
  "nosv_self rt = worker_current_task rt"

subsection \<open>The submit window\<close>

definition nosv_flush_submit_window :: "env \<Rightarrow> runtime \<Rightarrow> (runtime \<times> int) option" where
  "nosv_flush_submit_window e rt =
     (let cur = worker_current_task rt
      in if cur = NULL then Some (rt, NOSV_ERR_OUTSIDE_TASK)
         else map_option (\<lambda>w. (rt \<lparr> rt_world := w \<rparr>, NOSV_SUCCESS))
                (flush_window (e_topo e) (rt_cpus rt) (e_batch e) (current_cpu rt) (e_cas e) (rt_world rt) cur))"

definition flush :: "env \<Rightarrow> runtime \<Rightarrow> runtime option" where
  "flush e rt = map_option fst (nosv_flush_submit_window e rt)"

definition nosv_set_submit_window_size :: "env \<Rightarrow> nat \<Rightarrow> runtime \<Rightarrow> (runtime \<times> int) option" where
  "nosv_set_submit_window_size e n rt =
     (let cur = worker_current_task rt
      in if n = 0 then Some (rt, NOSV_ERR_INVALID_PARAMETER)
         else if cur = NULL then Some (rt, NOSV_ERR_OUTSIDE_TASK)
         else (let rt1 = set_task cur (\<lambda>t. t \<lparr> submit_window_maxsize := n \<rparr>) rt
               in if n = 1 then map_option (\<lambda>rt'. (rt', NOSV_SUCCESS)) (flush e rt1) else Some (rt1, NOSV_SUCCESS)))"

definition batch_submit :: "env \<Rightarrow> task_id \<Rightarrow> runtime \<Rightarrow> runtime option" where
  "batch_submit e task rt =
     map_option (\<lambda>w. rt \<lparr> rt_world := w \<rparr>)
       (scheduler_batch_submit (e_topo e) (rt_cpus rt) (e_batch e) (current_cpu rt) (e_cas e)
          (if worker_current_task rt = NULL then None else Some (worker_current_task rt)) (rt_world rt) task)"

subsection \<open>Blocking\<close>

definition add_blocking :: "task_id \<Rightarrow> int \<Rightarrow> runtime \<Rightarrow> runtime \<times> int" where
  "add_blocking task n rt =
     (let rt1 = set_task task (\<lambda>t. t \<lparr> blocking_count := blocking_count t + n \<rparr>) rt in (rt1, blocking_count (rt_store rt1 task)))"

definition task_pause :: "env \<Rightarrow> task_id \<Rightarrow> bool \<Rightarrow> runtime \<Rightarrow> runtime option" where
  "task_pause e task use_blocking_count rt =
     assert_then (task \<noteq> NULL \<and> task = worker_current_task rt \<and> \<not> task_is_parallel (rt_store rt task))
       (do { rt1 \<leftarrow> flush e rt;
             let (rt2, cnt) = (if use_blocking_count then add_blocking task 1 rt1 else (rt1, 1));
             rt3 \<leftarrow> (if cnt > 0 then worker_yield e rt2 else Some rt2);
             assert_then (blocking_count (rt_store rt3 task) \<le> 0) (Some rt3) })"

definition nosv_pause :: "env \<Rightarrow> runtime \<Rightarrow> (runtime \<times> int) option" where
  "nosv_pause e rt =
     (if \<not> worker_is_in_task rt then Some (rt, NOSV_ERR_OUTSIDE_TASK)
      else do { rt1 \<leftarrow> flush e rt;
                if task_is_parallel (rt_store rt1 (worker_current_task rt1)) then Some (rt1, NOSV_ERR_INVALID_OPERATION)
                else do { rt2 \<leftarrow> task_pause e (worker_current_task rt1) True rt1; Some (rt2, NOSV_SUCCESS) } })"

text \<open>The compare-and-exchange of \<open>nosv_cancel\<close> fails only when another thread has changed the degree; it is retried with the
  value it found.\<close>

definition nosv_cancel :: "runtime \<Rightarrow> (runtime \<times> int) option" where
  "nosv_cancel rt =
     (if \<not> worker_is_in_task rt then Some (rt, NOSV_ERR_OUTSIDE_TASK)
      else (let task = worker_current_task rt; d = task_get_degree (rt_store rt task)
            in assert_then (d \<noteq> 0)
                 (if d < 0 then Some (rt, NOSV_ERR_INVALID_OPERATION)
                  else Some (set_task task (\<lambda>t. t \<lparr> degree := - d \<rparr>) rt, NOSV_SUCCESS))))"

definition set_task_deadline :: "task_id \<Rightarrow> nat \<Rightarrow> nat \<Rightarrow> runtime \<Rightarrow> (runtime \<times> bool) option" where
  "set_task_deadline task start_time timeout rt =
     (let rt1 = set_task task (\<lambda>t. t \<lparr> deadline := u64_add start_time timeout \<rparr>) rt
      in if deadline_state (rt_store rt1 task) = NOSV_DEADLINE_NONE
         then Some (set_task task (\<lambda>t. t \<lparr> deadline_state := NOSV_DEADLINE_PENDING \<rparr>) rt1, True)
         else assert_then (deadline_state (rt_store rt1 task) = NOSV_DEADLINE_READY)
                (Some (set_task task (\<lambda>t. t \<lparr> deadline_state := NOSV_DEADLINE_NONE, deadline := 0 \<rparr>) rt1, False)))"

definition read_clock :: "runtime \<Rightarrow> nat \<times> runtime" where
  "read_clock rt = (case rt_world rt of (clk, st, s) \<Rightarrow> (case clock_ns clk of (now, clk') \<Rightarrow> (now, rt \<lparr> rt_world := (clk', st, s) \<rparr>)))"

text \<open>\<open>nosv_waitfor\<close> returns the time that has passed as well.\<close>

definition nosv_waitfor :: "env \<Rightarrow> nat \<Rightarrow> runtime \<Rightarrow> (runtime \<times> nat \<times> int) option" where
  "nosv_waitfor e target_ns rt =
     (if \<not> worker_is_in_task rt then Some (rt, 0, NOSV_ERR_OUTSIDE_TASK)
      else (let task = worker_current_task rt
            in if task_is_parallel (rt_store rt task) then Some (rt, 0, NOSV_ERR_INVALID_OPERATION)
               else do { rt1 \<leftarrow> flush e rt;
                         let (start_ns, rt2) = read_clock rt1;
                         (rt3, res) \<leftarrow> set_task_deadline task start_ns target_ns rt2;
                         rt4 \<leftarrow> (if res then do { rt' \<leftarrow> scheduler_submit_task e task rt3; worker_yield e rt' } else Some rt3);
                         let (now, rt5) = read_clock rt4;
                         Some (rt5, u64_sub now start_ns, NOSV_SUCCESS) }))"

definition nosv_yield :: "env \<Rightarrow> u64 \<Rightarrow> runtime \<Rightarrow> (runtime \<times> int) option" where
  "nosv_yield e flags rt =
     (if \<not> worker_is_in_task rt then Some (rt, NOSV_ERR_OUTSIDE_TASK)
      else do { rt1 \<leftarrow> (if has_flag flags NOSV_YIELD_NOFLUSH then Some rt else flush e rt);
                let task = worker_current_task rt1;
                if task_is_parallel (rt_store rt1 task) then Some (rt1, NOSV_ERR_INVALID_OPERATION)
                else do { (rt2, _) \<leftarrow> worker_yield_if_needed e task (set_task task (\<lambda>t. t \<lparr> hook_word := 2 ^ 64 - 1 \<rparr>) rt1);
                          Some (set_task task (\<lambda>t. t \<lparr> hook_word := 0 \<rparr>) rt2, NOSV_SUCCESS) } })"

definition nosv_schedpoint :: "env \<Rightarrow> runtime \<Rightarrow> (runtime \<times> int) option" where
  "nosv_schedpoint e rt =
     (if \<not> worker_is_in_task rt then Some (rt, NOSV_ERR_OUTSIDE_TASK)
      else do { rt1 \<leftarrow> flush e rt;
                let task = worker_current_task rt1;
                if task_is_parallel (rt_store rt1 task) then Some (rt1, NOSV_ERR_INVALID_OPERATION)
                else do { p \<leftarrow> cpu_get_pid (rt_cpus rt1) (nat (current_cpu rt1));
                          let (yield, _, clk) = scheduler_should_yield (rt_sched rt1) (fst (rt_world rt1)) p (nat (current_cpu rt1));
                          let rt2 = rt1 \<lparr> rt_world := (clk, snd (rt_world rt1)) \<rparr>;
                          if \<not> yield then Some (rt2, NOSV_SUCCESS)
                          else do { (rt3, _) \<leftarrow> worker_yield_if_needed e task rt2;
                                    (s, clk') \<leftarrow> scheduler_reset_accounting (rt_sched rt3) (fst (rt_world rt3)) p (nat (current_cpu rt3));
                                    Some (rt3 \<lparr> rt_world := (clk', rt_store rt3, s) \<rparr>, NOSV_SUCCESS) } } })"

subsection \<open>Submission\<close>

definition count_true :: "bool list \<Rightarrow> nat" where
  "count_true bs = length (filter id bs)"

text \<open>The checks of \<open>nosv_submit\<close>, in its order.\<close>

definition submit_check :: "env \<Rightarrow> task_id \<Rightarrow> u64 \<Rightarrow> runtime \<Rightarrow> int" where
  "submit_check e task flags rt =
     (let blocking = has_flag flags NOSV_SUBMIT_BLOCKING; immediate = has_flag flags NOSV_SUBMIT_IMMEDIATE \<and> e_immediate e;
          inline = has_flag flags NOSV_SUBMIT_INLINE; dl_wake = has_flag flags NOSV_SUBMIT_DEADLINE_WAKE
      in if task = NULL then NOSV_ERR_INVALID_PARAMETER
         else if count_true [immediate, blocking, inline, dl_wake] > 1 then NOSV_ERR_INVALID_OPERATION
         else if (blocking \<or> inline) \<and> \<not> worker_is_in_task rt then NOSV_ERR_OUTSIDE_TASK
         else if inline \<and> task_is_parallel (rt_store rt task) then NOSV_ERR_INVALID_OPERATION
         else if dl_wake \<and> task_is_parallel (rt_store rt task) then NOSV_ERR_INVALID_OPERATION
         else if blocking \<and> task_is_parallel (rt_store rt (worker_current_task rt)) then NOSV_ERR_INVALID_OPERATION
         else NOSV_SUCCESS)"

definition submit_immediate :: "env \<Rightarrow> task_id \<Rightarrow> runtime \<Rightarrow> runtime option" where
  "submit_immediate e task rt =
     (let (rt1, cnt) = add_blocking task (- 1) rt
      in if cnt = 0
         then do { rt2 \<leftarrow> (if worker_get_immediate rt1 \<noteq> NULL then batch_submit e (worker_get_immediate rt1) rt1 else Some rt1);
                   Some (worker_set_immediate task rt2) }
         else Some rt1)"

definition submit_inline :: "(task_execution_handle \<Rightarrow> runtime \<Rightarrow> runtime option) \<Rightarrow> env \<Rightarrow> task_id \<Rightarrow> runtime \<Rightarrow> runtime option" where
  "submit_inline execute e task rt =
     do { rt1 \<leftarrow> flush e rt;
          let (rt2, cnt) = add_blocking task (- 1) rt1;
          let w = current_worker rt2;
          let old_handle = w_handle (workers rt2 w);
          assert_then (w \<noteq> NULL \<and> cnt = 0 \<and> h_task old_handle \<noteq> NULL)
            (do { rt3 \<leftarrow> execute \<lparr> h_task = task, h_exec = 1 \<rparr> rt2;
                  Some (set_worker w (\<lambda>k. k \<lparr> w_handle := old_handle \<rparr>) rt3) }) }"

definition submit_deadline_wake :: "task_id \<Rightarrow> runtime \<Rightarrow> runtime" where
  "submit_deadline_wake task rt =
     (let state = deadline_state (rt_store rt task); rt1 = set_task task (\<lambda>t. t \<lparr> deadline_state := NOSV_DEADLINE_READY \<rparr>) rt
      in if state = NOSV_DEADLINE_WAITING
         then rt1 \<lparr> rt_world := (case rt_world rt1 of (clk, st, s) \<Rightarrow> (clk, st, scheduler_request_deadline_purge s)) \<rparr>
         else rt1)"

definition submit_normal :: "env \<Rightarrow> task_id \<Rightarrow> runtime \<Rightarrow> runtime option" where
  "submit_normal e task rt = (let (rt1, cnt) = add_blocking task (- 1) rt in if cnt = 0 then batch_submit e task rt1 else Some rt1)"

definition nosv_submit_with :: "(task_execution_handle \<Rightarrow> runtime \<Rightarrow> runtime option) \<Rightarrow> env \<Rightarrow> task_id \<Rightarrow> u64 \<Rightarrow> runtime \<Rightarrow> (runtime \<times> int) option" where
  "nosv_submit_with execute e task flags rt =
     (if submit_check e task flags rt \<noteq> NOSV_SUCCESS then Some (rt, submit_check e task flags rt)
      else (let blocking = has_flag flags NOSV_SUBMIT_BLOCKING;
                rt1 = (if blocking then set_task task (\<lambda>t. t \<lparr> wakeup := worker_current_task rt \<rparr>) rt else rt)
            in do { rt2 \<leftarrow>
                      (if has_flag flags NOSV_SUBMIT_IMMEDIATE \<and> e_immediate e \<and> current_worker rt \<noteq> NULL \<and> \<not> task_is_parallel (rt_store rt1 task)
                       then submit_immediate e task rt1
                       else if has_flag flags NOSV_SUBMIT_INLINE then submit_inline execute e task rt1
                       else if has_flag flags NOSV_SUBMIT_DEADLINE_WAKE then Some (submit_deadline_wake task rt1)
                       else submit_normal e task rt1);
                    rt3 \<leftarrow> (if blocking then task_pause e (worker_current_task rt) True rt2 else Some rt2);
                    Some (rt3, NOSV_SUCCESS) }))"

subsection \<open>Execution and completion\<close>

definition task_complete :: "callbacks \<Rightarrow> env \<Rightarrow> task_id \<Rightarrow> runtime \<Rightarrow> runtime option" where
  "task_complete cb e task rt =
     (let waiting = wakeup (rt_store rt task);
          rt1 = set_task task (\<lambda>t. t \<lparr> wakeup := NULL, event_count := 1, scheduled_count := 0 \<rparr>) rt;
          rt2 = (if type_has_completed (task_type (rt_store rt1 task)) then cb_completed cb task rt1 else rt1)
      in if waiting \<noteq> NULL then map_option fst (nosv_submit_with (\<lambda>_ _. None) e waiting NOSV_SUBMIT_UNLOCKED rt2) else Some rt2)"

definition task_suspend :: "env \<Rightarrow> task_id \<Rightarrow> runtime \<Rightarrow> runtime option" where
  "task_suspend e task rt =
     (let mode = flag_suspend_mode (rt_store rt task); args = suspend_args (rt_store rt task);
          rt1 = set_task task (\<lambda>t. t \<lparr> hook_word := 0, flag_suspend_mode := SUSPEND_NONE, flag_suspend := False \<rparr>) rt
      in case mode of
           SUSPEND_NONE \<Rightarrow>
             (let (rt2, cnt) = add_blocking task 1 rt1 in if cnt \<le> 0 then scheduler_submit_task e task rt2 else Some rt2)
         | SUSPEND_TIMEOUT \<Rightarrow>
             (let (now, rt2) = read_clock rt1
              in do { (rt3, res) \<leftarrow> set_task_deadline task now args rt2; assert_then res (scheduler_submit_task e task rt3) })
         | SUSPEND_SUBMIT \<Rightarrow>
             assert_then (args = 1 \<or> args = 0) (scheduler_submit_task e task (set_task task (\<lambda>t. t \<lparr> hook_word := args \<rparr>) rt1))
         | SUSPEND_EVENT \<Rightarrow>
             (let res = event_count (rt_store rt1 task) AND NOT TASK_WAITING_FOR_EVENTS;
                  rt2 = set_task task (\<lambda>t. t \<lparr> event_count := event_count t OR TASK_WAITING_FOR_EVENTS \<rparr>) rt1
              in if res = 1
                 then scheduler_submit_task e task (set_task task (\<lambda>t. t \<lparr> event_count := event_count t AND NOT TASK_WAITING_FOR_EVENTS \<rparr>) rt2)
                 else Some rt2))"

definition task_execute :: "callbacks \<Rightarrow> env \<Rightarrow> task_execution_handle \<Rightarrow> runtime \<Rightarrow> runtime option" where
  "task_execute cb e handle rt =
     (let task = h_task handle; w = current_worker rt
      in assert_then (task \<noteq> NULL \<and> w \<noteq> NULL)
           (let rt1 = (if task_is_parallel (rt_store rt task) then rt else set_task task (\<lambda>t. t \<lparr> worker := w \<rparr>) rt);
                rt2 = set_worker w (\<lambda>k. k \<lparr> w_handle := handle, in_task_body := True \<rparr>) rt1;
                rt3 = set_worker w (\<lambda>k. k \<lparr> in_task_body := False \<rparr>) (cb_run cb task rt2);
                rt4 = (if \<not> task_should_suspend (rt_store rt3 task) \<and> type_has_end (task_type (rt_store rt3 task)) then cb_end cb task rt3 else rt3)
            in do { rt5 \<leftarrow> flush e rt4;
                    let rt6 = set_worker w (\<lambda>k. k \<lparr> w_handle := EMPTY_TASK_EXECUTION_HANDLE \<rparr>) (set_task task (\<lambda>t. t \<lparr> worker := NULL \<rparr>) rt5);
                    if task_should_suspend (rt_store rt6 task) then task_suspend e task rt6
                    else (let rt7 = set_task task (\<lambda>t. t \<lparr> blocking_count := 1, event_count := event_count t - 1 \<rparr>) rt6
                          in if event_count (rt_store rt7 task) = 0 then task_complete cb e task rt7 else Some rt7) }))"

definition nosv_submit :: "callbacks \<Rightarrow> env \<Rightarrow> task_id \<Rightarrow> u64 \<Rightarrow> runtime \<Rightarrow> (runtime \<times> int) option" where
  "nosv_submit cb e = nosv_submit_with (task_execute cb e) e"

subsection \<open>Events\<close>

definition nosv_increase_event_counter :: "nat \<Rightarrow> runtime \<Rightarrow> runtime \<times> int" where
  "nosv_increase_event_counter increment rt =
     (if increment = 0 then (rt, NOSV_ERR_INVALID_PARAMETER)
      else if worker_current_task rt = NULL then (rt, NOSV_ERR_OUTSIDE_TASK)
      else (set_task (worker_current_task rt) (\<lambda>t. t \<lparr> had_events := True, event_count := event_count t + of_nat increment \<rparr>) rt, NOSV_SUCCESS))"

definition nosv_has_events :: "runtime \<Rightarrow> int" where
  "nosv_has_events rt =
     (if worker_current_task rt = NULL then NOSV_ERR_OUTSIDE_TASK
      else if event_count (rt_store rt (worker_current_task rt)) AND NOT TASK_WAITING_FOR_EVENTS > 1 then 1 else 0)"

definition nosv_decrease_event_counter :: "callbacks \<Rightarrow> env \<Rightarrow> task_id \<Rightarrow> nat \<Rightarrow> runtime \<Rightarrow> (runtime \<times> int) option" where
  "nosv_decrease_event_counter cb e task decrement rt =
     (if task = NULL \<or> decrement = 0 then Some (rt, NOSV_ERR_INVALID_PARAMETER)
      else (let rt1 = set_task task (\<lambda>t. t \<lparr> event_count := event_count t - of_nat decrement \<rparr>) rt;
                r = event_count (rt_store rt1 task);
                r_count = r AND NOT TASK_WAITING_FOR_EVENTS; r_flag = r AND TASK_WAITING_FOR_EVENTS
            in do { rt2 \<leftarrow>
                      (if r_flag \<noteq> 0 \<and> r_count = 1
                       then scheduler_submit_task e task (set_task task (\<lambda>t. t \<lparr> event_count := event_count t AND NOT TASK_WAITING_FOR_EVENTS \<rparr>) rt1)
                       else Some rt1);
                    rt3 \<leftarrow> (if r = 0 then task_complete cb e task rt2 else Some rt2);
                    Some (rt3, NOSV_SUCCESS) }))"

definition nosv_task_had_events :: "runtime \<Rightarrow> task_id \<Rightarrow> int" where
  "nosv_task_had_events rt task = (if task = NULL then NOSV_ERR_INVALID_PARAMETER else if had_events (rt_store rt task) then 1 else 0)"

subsection \<open>Suspension\<close>

datatype nosv_suspend_mode =
  NOSV_SUSPEND_MODE_NONE | NOSV_SUSPEND_MODE_SUBMIT | NOSV_SUSPEND_MODE_TIMEOUT_SUBMIT | NOSV_SUSPEND_MODE_EVENT_SUBMIT | OTHER_SUSPEND_MODE

definition nosv_set_suspend_mode :: "nosv_suspend_mode \<Rightarrow> nat \<Rightarrow> runtime \<Rightarrow> runtime \<times> int" where
  "nosv_set_suspend_mode mode args rt =
     (let cur = worker_current_task rt
      in if cur = NULL then (rt, NOSV_ERR_OUTSIDE_TASK)
         else (let rt1 = set_task cur (\<lambda>t. t \<lparr> flag_suspend_mode := SUSPEND_NONE \<rparr>) rt;
                   done = (\<lambda>m. (set_task cur (\<lambda>t. t \<lparr> flag_suspend_mode := m, hook_word := args \<rparr>) rt1, NOSV_SUCCESS))
               in case mode of
                    NOSV_SUSPEND_MODE_NONE \<Rightarrow> done SUSPEND_NONE
                  | NOSV_SUSPEND_MODE_SUBMIT \<Rightarrow>
                      if args \<noteq> 1 \<and> args \<noteq> 0 then (rt1, NOSV_ERR_INVALID_PARAMETER) else done SUSPEND_SUBMIT
                  | NOSV_SUSPEND_MODE_TIMEOUT_SUBMIT \<Rightarrow> done SUSPEND_TIMEOUT
                  | NOSV_SUSPEND_MODE_EVENT_SUBMIT \<Rightarrow> done SUSPEND_EVENT
                  | OTHER_SUSPEND_MODE \<Rightarrow> (rt1, NOSV_ERR_INVALID_PARAMETER)))"

definition nosv_suspend :: "runtime \<Rightarrow> runtime \<times> int" where
  "nosv_suspend rt =
     (let cur = worker_current_task rt
      in if cur = NULL then (rt, NOSV_ERR_OUTSIDE_TASK)
         else if \<not> in_task_body (workers rt (current_worker rt)) then (rt, NOSV_ERR_OUTSIDE_TASK)
         else (set_task cur (\<lambda>t. t \<lparr> flag_suspend := True \<rparr>) rt, NOSV_SUCCESS))"

subsection \<open>Attaching threads\<close>

text \<open>\<open>rt_attach_refcount\<close> is an argument: the nesting of attached calls of this thread. The type of an attached task has no callbacks.\<close>

definition nosv_attach :: "env \<Rightarrow> bool \<Rightarrow> nosv_affinity option \<Rightarrow> nat \<Rightarrow> task_globals \<times> runtime \<Rightarrow>
    ((task_globals \<times> runtime) \<times> nat \<times> task_id \<times> int) option" where
  "nosv_attach e task_ptr aff refcount s =
     (if \<not> task_ptr then Some (s, refcount, NULL, NOSV_ERR_INVALID_PARAMETER)
      else if refcount \<noteq> 0 then Some (s, refcount + 1, NULL, NOSV_SUCCESS)
      else assert_then (current_worker (snd s) = NULL)
        (let (s1, ty, ret) = nosv_type_init True False False False NOSV_TYPE_INIT_EXTERNAL s
         in case ty of
              None \<Rightarrow> Some (s1, 1, NULL, ret)
            | Some ty \<Rightarrow>
                do { rt2 \<leftarrow> worker_create_external (snd s1);
                     let (s3, t, ret) = nosv_create_internal ty 0 NOSV_CREATE_NONE (fst s1, rt2);
                     if ret \<noteq> 0
                     then map_option (\<lambda>rt. ((fst s3, rt), 1, t, ret)) (worker_free_external (current_worker rt2) (snd s3))
                     else (let w = current_worker rt2;
                               rt4 = set_task t (\<lambda>k. k \<lparr> worker := w, affinity := (case aff of None \<Rightarrow> affinity k | Some a \<Rightarrow> a),
                                                        blocking_count := blocking_count k - 1 \<rparr>) (snd s3);
                               rt5 = set_worker w (\<lambda>k. k \<lparr> w_handle := \<lparr> h_task = t, h_exec = 1 \<rparr> \<rparr>) rt4
                           in do { rt6 \<leftarrow> scheduler_submit_task e t rt5;
                                   rt7 \<leftarrow> worker_block e rt6;
                                   Some ((fst s3, rt7), 1, t, NOSV_SUCCESS) }) }))"

definition nosv_detach :: "env \<Rightarrow> nat \<Rightarrow> runtime \<Rightarrow> (runtime \<times> nat \<times> int) option" where
  "nosv_detach e refcount rt =
     (if \<not> worker_is_in_task rt then Some (rt, refcount, NOSV_ERR_OUTSIDE_TASK)
      else if refcount \<noteq> 1 then Some (rt, refcount - 1, NOSV_SUCCESS)
      else do { let w = current_worker rt;
                rt1 \<leftarrow> (if worker_get_immediate rt \<noteq> NULL
                       then map_option (worker_set_immediate NULL) (batch_submit e (worker_get_immediate rt) rt)
                       else Some rt);
                rt2 \<leftarrow> flush e rt1;
                cpu \<leftarrow> w_cpu (workers rt2 w);
                rt3 \<leftarrow> worker_free_external w rt2;
                rt4 \<leftarrow> worker_wake_idle (e_topo e) (logic_pid rt3) cpu EMPTY_TASK_EXECUTION_HANDLE (rt3 \<lparr> current_cpu := - 1 \<rparr>);
                Some (rt4, 0, NOSV_SUCCESS) })"

end
