(* ===== verification/Scheduler_Inv.thy ===== *)
theory Scheduler_Inv
  imports Scheduler
begin

section \<open>The invariant of the scheduler\<close>

text \<open>
  \<open>sched_inv\<close> says that every process of the list \<open>queues\<close> has a process scheduler with its own invariant, that
  a task is in the scheduler of its own process, and that the global counter is the sum of the
  counters of the processes. The insertion of ready tasks, the purge of lapsed deadlines and the choice of a
  task for a CPU keep it; no task is lost or handed out twice.
\<close>

definition sched_elems :: "scheduler \<Rightarrow> task_id multiset" where
  "sched_elems s = (\<Sum>p \<leftarrow> sch_queues s. ps_elems (the (queues_direct s p)))"

definition tasks_of_pid :: "store \<Rightarrow> process_scheduler \<Rightarrow> pid \<Rightarrow> bool" where
  "tasks_of_pid st ps p = (\<forall>t \<in># ps_elems ps. type_pid (task_type (st t)) = p)"

definition process_ok :: "topology \<Rightarrow> store \<Rightarrow> pid \<Rightarrow> process_scheduler \<Rightarrow> bool" where
  "process_ok tp st p ps = (p < MAX_PIDS \<and> ps_pid ps = p \<and> ps_inv tp st ps \<and> tasks_of_pid st ps p)"

definition sched_inv :: "topology \<Rightarrow> store \<Rightarrow> scheduler \<Rightarrow> bool" where
  "sched_inv tp st s =
     (distinct (sch_queues s) \<and> set (sch_queues s) = dom (queues_direct s) \<and>
      (\<forall>p ps. queues_direct s p = Some ps \<longrightarrow> process_ok tp st p ps) \<and>
      sch_tasks s = (\<Sum>p \<leftarrow> sch_queues s. ps_tasks (the (queues_direct s p))) \<and> sch_tasks s < 2 ^ 64)"

subsection \<open>Frames\<close>

lemma queue_ok_on:
  assumes "\<And>t. t \<in> set (queue_tasks q) \<Longrightarrow> priority (st' t) = priority (st t)" "queue_ok st q"
  shows "queue_ok st' q"
proof (cases "priority_enabled q")
  case True
  let ?L = "inorder (tasks_priority q)"
  have r: "\<forall>ts \<in> set ?L. ring_ok (prio_of st) ts" using assms(2) True by (simp add: queue_ok_def)
  have e: "priority (st' t) = priority (st t)" if "ts \<in> set ?L" "t \<in> set ts" for ts t
    using assms(1) [of t] that True by (auto simp: queue_tasks_def)
  have h: "priority (st' (hd ts)) = priority (st (hd ts))" if "ts \<in> set ?L" for ts
    using e [OF that] r that ring_ok_nonempty by (metis hd_in_set)
  have "tree_ok (\<lambda>ts. priority (st' (hd ts))) (tasks_priority q)"
    using assms(2) True tree_ok_cong [of "tasks_priority q" "\<lambda>ts. priority (st' (hd ts))" "\<lambda>ts. priority (st (hd ts))"] h
    by (simp add: queue_ok_def)
  moreover have "ring_ok (prio_of st') ts" if ts: "ts \<in> set ?L" for ts
  proof -
    have k: "ring_ok (prio_of st) ts" using r ts by blast
    have "priority (st' t) = priority (st' (hd ts))" if "t \<in> set ts" for t
    proof -
      have "priority (st t) = priority (st (hd ts))" using k that unfolding ring_ok_def by blast
      then show ?thesis by (simp only: e [OF ts that] h [OF ts])
    qed
    then show ?thesis using ring_ok_nonempty [OF k] unfolding ring_ok_def by blast
  qed
  ultimately show ?thesis using assms(2) True by (simp add: queue_ok_def)
next
  case False
  then show ?thesis using assms by (simp add: queue_ok_def queue_tasks_def)
qed

text \<open>A process scheduler does not depend on tasks it does not hold.\<close>

lemma ps_inv_frame:
  assumes inv: "ps_inv tp st ps" and same: "\<And>t. t \<in># ps_elems ps \<Longrightarrow> st' t = st t"
  shows "ps_inv tp st' ps"
proof -
  have q: "queue_ok st' q" if "get_queue ps ref = Some q" for ref q
    using inv that same mset_subset_eqD [OF queue_subset_elems [OF that]]
    by (intro queue_ok_on [of q st' st]) (auto simp: ps_inv_def)
  have a: "affine_queue tp (affinity (st' t)) = Some ref"
    if "get_queue ps ref = Some q" "ref \<noteq> General" "t \<in> set (queue_tasks q)" for ref q t
    using inv that same mset_subset_eqD [OF queue_subset_elems [OF that(1)]] by (auto simp: ps_inv_def)
  have d: "t \<in># ps_elems ps" if "t \<in> set (inorder (deadline_tasks ps)) \<or> t \<in> set (yield_tasks ps)" for t
    using that by (auto simp: ps_elems_def)
  have t: "tree_ok (\<lambda>t. deadline (st' t)) (deadline_tasks ps)"
    using inv tree_ok_cong [of "deadline_tasks ps" "\<lambda>t. deadline (st' t)" "\<lambda>t. deadline (st t)"] same d by (simp add: ps_inv_def)
  have "(\<Sum>t \<in># ps_elems ps. executions_left (st' t)) = (\<Sum>t \<in># ps_elems ps. executions_left (st t))"
    by (rule arg_cong [where f = sum_mset], rule image_mset_cong) (simp add: same)
  then show ?thesis using inv q a t same d by (auto simp: ps_inv_def)
qed

lemma process_ok_frame:
  assumes "process_ok tp st p ps" "\<And>t. type_pid (task_type (st t)) = p \<Longrightarrow> st' t = st t"
  shows "process_ok tp st' p ps"
proof -
  have same: "st' t = st t" if "t \<in># ps_elems ps" for t using assms that by (auto simp: process_ok_def tasks_of_pid_def)
  show ?thesis using assms(1) ps_inv_frame [of tp st ps st', OF _ same] same by (auto simp: process_ok_def tasks_of_pid_def)
qed

text \<open>The state after one process scheduler has changed. Other processes see no change of their tasks.\<close>

lemma sum_list_update_dom:
  fixes f :: "'b \<Rightarrow> 'c :: cancel_comm_monoid_add"
  assumes "distinct ps" "p \<in> set ps" "m p = Some x"
  shows "(\<Sum>q \<leftarrow> ps. f (the ((m(p \<mapsto> y)) q))) + f x = (\<Sum>q \<leftarrow> ps. f (the (m q))) + f y"
  using assms
proof (induction ps)
  case (Cons q ps)
  show ?case
  proof (cases "q = p")
    case True
    then have "(\<Sum>q \<leftarrow> ps. f (the ((m(p \<mapsto> y)) q))) = (\<Sum>q \<leftarrow> ps. f (the (m q)))"
      using Cons.prems by (intro arg_cong [where f = sum_list] map_cong) auto
    then show ?thesis using True Cons.prems by (simp add: ac_simps)
  next
    case False
    then have "(\<Sum>q \<leftarrow> ps. f (the ((m(p \<mapsto> y)) q))) + f x = (\<Sum>q \<leftarrow> ps. f (the (m q))) + f y"
      using Cons by simp
    then show ?thesis using False by (simp only: list.map sum_list.Cons add.assoc fun_upd_other not_False_eq_True)
  qed
qed simp

lemma put_ps_fields [simp]:
  "sch_queues (put_ps s p ps) = sch_queues s" "sch_tasks (put_ps s p ps) = sch_tasks s"
  "queues_direct (put_ps s p ps) = (queues_direct s)(p \<mapsto> ps)"
  "sch_in_queue (put_ps s p ps) = sch_in_queue s" "sch_dtlock (put_ps s p ps) = sch_dtlock s"
  "sch_governor (put_ps s p ps) = sch_governor s" "sch_timestamps (put_ps s p ps) = sch_timestamps s"
  "deadline_purge (put_ps s p ps) = deadline_purge s" "sch_quantum_ns (put_ps s p ps) = sch_quantum_ns s"
  by (simp_all add: put_ps_def)

lemma sched_inv_put:
  assumes inv: "sched_inv tp st s" and p: "queues_direct s p = Some ps" and new: "process_ok tp st' p ps'"
    and frame: "\<And>t. type_pid (task_type (st t)) \<noteq> p \<Longrightarrow> st' t = st t"
    and n: "n + ps_tasks ps = sch_tasks s + ps_tasks ps'" "n < 2 ^ 64"
  shows "sched_inv tp st' (put_ps s p ps' \<lparr> sch_tasks := n \<rparr>)"
    "sched_elems (put_ps s p ps' \<lparr> sch_tasks := n \<rparr>) + ps_elems ps = sched_elems s + ps_elems ps'"
proof -
  let ?m = "queues_direct s"
  have mem: "p \<in> set (sch_queues s)" "distinct (sch_queues s)" using inv p by (auto simp: sched_inv_def)
  have "(\<Sum>q \<leftarrow> sch_queues s. ps_tasks (the ((?m(p \<mapsto> ps')) q))) + ps_tasks ps = sch_tasks s + ps_tasks ps'"
    using sum_list_update_dom [of "sch_queues s" p ?m ps ps_tasks ps', OF mem(2,1) p] inv by (simp add: sched_inv_def)
  then have "n = (\<Sum>q \<leftarrow> sch_queues s. ps_tasks (the ((?m(p \<mapsto> ps')) q)))" using n(1) by simp
  moreover have "process_ok tp st' q x" if "(?m(p \<mapsto> ps')) q = Some x" for q x
    using that new inv process_ok_frame [of tp st q x st'] frame by (auto simp: sched_inv_def split: if_splits)
  ultimately show "sched_inv tp st' (put_ps s p ps' \<lparr> sch_tasks := n \<rparr>)"
    using inv p n(2) by (auto simp: sched_inv_def)
  show "sched_elems (put_ps s p ps' \<lparr> sch_tasks := n \<rparr>) + ps_elems ps = sched_elems s + ps_elems ps'"
    using sum_list_update_dom [of "sch_queues s" p ?m ps ps_elems ps', OF mem(2,1) p] by (simp add: sched_elems_def)
qed

lemma sched_tasks_le:
  assumes "sched_inv tp st s" "queues_direct s p = Some ps"
  shows "ps_tasks ps \<le> sch_tasks s"
proof -
  have "p \<in> set (sch_queues s)" using assms by (auto simp: sched_inv_def)
  then have "ps_tasks (the (queues_direct s p)) \<le> (\<Sum>p \<leftarrow> sch_queues s. ps_tasks (the (queues_direct s p)))"
    by (intro member_le_sum_list) auto
  then show ?thesis using assms by (simp add: sched_inv_def)
qed

subsection \<open>The searches over all processes\<close>

text \<open>What \<open>scheduler_get_internal\<close> leaves alone.\<close>

definition same_rest :: "scheduler \<Rightarrow> scheduler \<Rightarrow> bool" where
  "same_rest s s' =
     (sch_queues s' = sch_queues s \<and> sch_in_queue s' = sch_in_queue s \<and> sch_dtlock s' = sch_dtlock s \<and>
      sch_governor s' = sch_governor s \<and> deadline_purge s' = deadline_purge s \<and> sch_quantum_ns s' = sch_quantum_ns s)"

lemma same_rest_refl [simp]: "same_rest s s"
  by (simp add: same_rest_def)

lemma same_rest_put [simp]: "same_rest s (put_ps s q ps)" "same_rest s (put_ps s q ps \<lparr> sch_tasks := n \<rparr>)"
  by (simp_all add: same_rest_def)

lemma accounting_fields [simp]:
  "sched_elems (scheduler_update_accounting st s p r cpu ts) = sched_elems s"
  "sched_inv tp st' (scheduler_update_accounting st s p r cpu ts) = sched_inv tp st' s"
  "same_rest s' (scheduler_update_accounting st s p r cpu ts) = same_rest s' s"
  "sch_tasks (scheduler_update_accounting st s p r cpu ts) = sch_tasks s"
  "queues_direct (scheduler_update_accounting st s p r cpu ts) = queues_direct s"
  by (auto simp: scheduler_update_accounting_def set_timestamp_def Let_def sched_elems_def sched_inv_def same_rest_def
      split: option.splits)

text \<open>A process is passed over when the CPU asks for tasks of other processes only.\<close>

definition passed_over :: "bool \<Rightarrow> int \<Rightarrow> pid \<Rightarrow> bool" where
  "passed_over external p q = (external \<and> int q = p)"

text \<open>What a search over the processes does to the scheduler: the invariant holds; without a task everything is
  still there; with a task, one that the scheduler held has got its next execution number.\<close>

definition chosen :: "topology \<Rightarrow> store \<Rightarrow> scheduler \<Rightarrow> (nosv_affinity \<Rightarrow> bool) \<Rightarrow> bool \<Rightarrow> int \<Rightarrow> store \<Rightarrow> scheduler \<Rightarrow> task_id option \<Rightarrow> bool" where
  "chosen tp st s allowed external p st' s' r =
     (sched_inv tp st' s' \<and> same_rest s s' \<and>
      (case r of
         None \<Rightarrow> sched_elems s' = sched_elems s \<and> sch_tasks s' = sch_tasks s \<and> core_eq st st'
       | Some t \<Rightarrow> t \<in># sched_elems s \<and> allowed (affinity (st t)) \<and> \<not> passed_over external p (type_pid (task_type (st t))) \<and>
           (sched_elems s' = sched_elems s \<or> sched_elems s = add_mset t (sched_elems s')) \<and>
           scheduled_count (st' t) = scheduled_count (st t) + 1 \<and> sch_tasks s' < sch_tasks s))"

lemma chosen_trans:
  assumes "chosen tp st s allowed' external p st' s' None" "chosen tp st' s' allowed external p st'' s'' r"
  shows "chosen tp st s allowed external p st'' s'' r"
proof -
  have "affinity (st' t) = affinity (st t)" "scheduled_count (st' t) = scheduled_count (st t)" "task_type (st' t) = task_type (st t)" for t
    using assms(1) by (simp_all add: chosen_def core_eq_def)
  then show ?thesis using assms core_eq_trans [of st st' st'']
    by (cases r) (auto simp: chosen_def same_rest_def)
qed

lemma chosen_mono: "chosen tp st s allowed external p st' s' r \<Longrightarrow> (\<And>a. allowed a \<Longrightarrow> allowed' a) \<Longrightarrow> chosen tp st s allowed' external p st' s' r"
  by (cases r) (auto simp: chosen_def)

text \<open>One process: its search ends without a task.\<close>

lemma sum_list_member: "x \<in> set xs \<Longrightarrow> t \<in># f x \<Longrightarrow> t \<in># (\<Sum>y \<leftarrow> xs. f y)"
  by (induction xs) auto

lemma sched_elems_member:
  assumes "sched_inv tp st s" "queues_direct s p = Some ps" "t \<in># ps_elems ps"
  shows "t \<in># sched_elems s"
proof -
  have "p \<in> set (sch_queues s)" using assms by (auto simp: sched_inv_def)
  then show ?thesis unfolding sched_elems_def by (rule sum_list_member) (simp add: assms(2,3))
qed

lemma search_process_ok:
  assumes "process_ok tp st p ps" "search_ok tp (clk, st, ps) allowed ((clk', st', ps'), removed, r)"
  shows "process_ok tp st' p ps'" "\<And>t. type_pid (task_type (st t)) \<noteq> p \<Longrightarrow> st' t = st t"
proof -
  have w: "within ps st st'" "ps_inv tp st' ps'" "same_ids ps ps'" using assms(2) by (auto simp: search_ok_def)
  have "ps_elems ps' \<subseteq># ps_elems ps" using assms(2) by (cases r) (auto simp: search_ok_def)
  then show "process_ok tp st' p ps'"
    using assms(1) w by (auto simp: process_ok_def tasks_of_pid_def within_def same_ids_def dest: mset_subset_eqD)
  show "st' t = st t" if "type_pid (task_type (st t)) \<noteq> p" for t
    using assms(1) w(1) that by (auto simp: process_ok_def tasks_of_pid_def within_def)
qed

lemma search_none:
  assumes inv: "sched_inv tp st s" and q: "queues_direct s q = Some ps"
    and r: "search_ok tp (clk, st, ps) allowed ((clk', st', ps'), removed, None)"
  shows "chosen tp st s allowed' external p st' (put_ps s q ps') None"
proof -
  have ok: "process_ok tp st q ps" using inv q by (auto simp: sched_inv_def)
  have e: "ps_elems ps' = ps_elems ps" "ps_tasks ps' = ps_tasks ps" "core_eq st st'" using r by (auto simp: search_ok_def)
  have n: "sch_tasks s + ps_tasks ps = sch_tasks s + ps_tasks ps'" "sch_tasks s < 2 ^ 64" using e inv by (auto simp: sched_inv_def)
  have same: "put_ps s q ps' \<lparr> sch_tasks := sch_tasks s \<rparr> = put_ps s q ps'" by (simp add: put_ps_def)
  note p = sched_inv_put [OF inv q search_process_ok [OF ok r] n, unfolded same]
  show ?thesis using p e by (simp add: chosen_def)
qed

lemma search_some:
  assumes inv: "sched_inv tp st s" and q: "queues_direct s q = Some ps" and po: "\<not> passed_over external p q"
    and r: "search_ok tp (clk, st, ps) allowed ((clk', st', ps'), removed, Some t)"
  shows "chosen tp st s allowed external p st' (scheduler_update_accounting st'
      (put_ps s q (ps' \<lparr> served_tasks := u64_add (served_tasks ps') (nat removed) \<rparr>)
         \<lparr> sch_tasks := u64_sub (sch_tasks s) (nat removed) \<rparr>) p (Some t) cpu ts) (Some t)"
proof -
  let ?ps = "ps' \<lparr> served_tasks := u64_add (served_tasks ps') (nat removed) \<rparr>"
  have ok: "process_ok tp st q ps" using inv q by (auto simp: sched_inv_def)
  note so = search_process_ok [OF ok r]
  have x: "t \<in># ps_elems ps" "allowed (affinity (st t))" "ps_elems ps' = ps_elems ps \<or> ps_elems ps = add_mset t (ps_elems ps')"
    "scheduled_count (st' t) = scheduled_count (st t) + 1" "1 \<le> removed" "ps_tasks ps' + nat removed = ps_tasks ps"
    using r by (auto simp: search_ok_def)
  have g: "get_queue ?ps ref = get_queue ps' ref" for ref by (cases ref) auto
  have el: "ps_elems ?ps = ps_elems ps'" by (simp add: ps_elems_def)
  have "ps_inv tp st' ?ps" using so(1) by (simp add: process_ok_def ps_inv_def g el ps_shape_def)
  then have ok': "process_ok tp st' q ?ps" using so(1) by (simp add: process_ok_def tasks_of_pid_def el)
  have le: "nat removed \<le> sch_tasks s" using sched_tasks_le [OF inv q] x(6) by simp
  have lt: "sch_tasks s < 2 ^ 64" using inv by (simp add: sched_inv_def)
  have sub: "u64_sub (sch_tasks s) (nat removed) = sch_tasks s - nat removed" by (rule u64_sub_le [OF le lt])
  have n: "u64_sub (sch_tasks s) (nat removed) + ps_tasks ps = sch_tasks s + ps_tasks ?ps"
    "u64_sub (sch_tasks s) (nat removed) < 2 ^ 64" using sub le lt x(6) by auto
  note p = sched_inv_put [OF inv q ok' so(2) n]
  have "type_pid (task_type (st t)) = q" using ok x(1) by (simp add: process_ok_def tasks_of_pid_def)
  moreover have "sch_tasks s - nat removed < sch_tasks s" using x(5) le by simp
  ultimately show ?thesis using p x sub po sched_elems_member [OF inv q x(1)] el
    by (auto simp: chosen_def)
qed

text \<open>The interface between \<open>scheduler_get_internal\<close> and the searches of one process: a search that is run on a
  process in the state \<open>before\<close>, with \<open>removed\<close> equal to one if it \<open>needs_one\<close>, keeps the invariant, hands out only tasks
  that are \<open>allowed\<close>, and leaves a process without a task for this CPU in the state \<open>after\<close>.\<close>

locale process_search =
  fixes find :: "topology \<Rightarrow> cpumanager \<Rightarrow> nat \<Rightarrow> search"
    and allowed :: "topology \<Rightarrow> nat \<Rightarrow> nosv_affinity \<Rightarrow> bool"
    and needs_one :: bool
    and before after :: "process_scheduler \<Rightarrow> bool"
  assumes contract: "topo_ok tp m \<Longrightarrow> cpu < per_level_count tp TOPO_CPU \<Longrightarrow> ps_inv tp st ps \<Longrightarrow> before ps \<Longrightarrow>
      needs_one \<longrightarrow> removed = 1 \<Longrightarrow>
      \<exists>clk' st' ps' removed' r. find tp m cpu (clk, st, ps) removed = Some ((clk', st', ps'), removed', r) \<and>
        search_ok tp (clk, st, ps) (allowed tp cpu) ((clk', st', ps'), removed', r) \<and>
        (r = None \<longrightarrow> removed' = 1 \<and> after ps')"
begin

lemma foreach_do_ok:
  assumes "topo_ok tp m" "cpu < per_level_count tp TOPO_CPU" "sched_inv tp st s"
    "distinct order" "set order \<subseteq> set (sch_queues s)"
    "\<And>q ps. q \<in> set order \<Longrightarrow> \<not> passed_over external p q \<Longrightarrow> queues_direct s q = Some ps \<Longrightarrow> before ps"
    "\<not> needs_one \<or> removed = 1 \<or> (\<forall>q \<in> set order. passed_over external p q)"
  shows "\<exists>clk' st' s' removed' r.
    foreach_do (find tp m cpu) external p cpu ts order (clk, st, s) removed = Some ((clk', st', s'), removed', r) \<and>
    chosen tp st s (allowed tp cpu) external p st' s' r \<and>
    (r = None \<longrightarrow> (removed' = 1 \<or> removed' = removed \<and> (\<forall>q \<in> set order. passed_over external p q)) \<and>
       (\<forall>q \<in> set order. \<not> passed_over external p q \<longrightarrow> (\<exists>ps. queues_direct s' q = Some ps \<and> after ps)) \<and>
       (\<forall>q. q \<notin> set order \<longrightarrow> queues_direct s' q = queues_direct s q))"
  using assms(3-7)
proof (induction order arbitrary: clk st s removed)
  case Nil
  then show ?case by (simp add: chosen_def)
next
  case (Cons q order)
  obtain ps where q: "queues_direct s q = Some ps" using Cons.prems(1,3) by (auto simp: sched_inv_def)
  have ok: "process_ok tp st q ps" using Cons.prems(1) q by (auto simp: sched_inv_def)
  show ?case
  proof (cases "passed_over external p q")
    case True
    have "\<exists>clk' st' s' removed' r.
      foreach_do (find tp m cpu) external p cpu ts order (clk, st, s) removed = Some ((clk', st', s'), removed', r) \<and>
      chosen tp st s (allowed tp cpu) external p st' s' r \<and>
      (r = None \<longrightarrow> (removed' = 1 \<or> removed' = removed \<and> (\<forall>q \<in> set order. passed_over external p q)) \<and>
         (\<forall>q \<in> set order. \<not> passed_over external p q \<longrightarrow> (\<exists>ps. queues_direct s' q = Some ps \<and> after ps)) \<and>
         (\<forall>q. q \<notin> set order \<longrightarrow> queues_direct s' q = queues_direct s q))"
      by (rule Cons.IH) (use Cons.prems in auto)
    then show ?thesis using True q ok by (fastforce simp: passed_over_def process_ok_def)
  next
    case False
    then have run: "\<not> external \<or> int (ps_pid ps) \<noteq> p" using ok by (simp add: passed_over_def process_ok_def)
    have b: "before ps" using Cons.prems(4) [of q ps] False q by simp
    have one: "needs_one \<longrightarrow> removed = 1" using Cons.prems(5) False by auto
    have pinv: "ps_inv tp st ps" using ok by (simp add: process_ok_def)
    obtain clk1 st1 ps1 rem1 r1 where f: "find tp m cpu (clk, st, ps) removed = Some ((clk1, st1, ps1), rem1, r1)"
      "search_ok tp (clk, st, ps) (allowed tp cpu) ((clk1, st1, ps1), rem1, r1)" "r1 = None \<longrightarrow> rem1 = 1 \<and> after ps1"
      using contract [OF assms(1,2) pinv b one, of clk] by blast
    show ?thesis
    proof (cases r1)
      case (Some t)
      show ?thesis using search_some [OF Cons.prems(1) q False f(2) [unfolded Some], of cpu ts] f(1) Some q run
        by (simp add: Let_def)
    next
      case None
      let ?s = "put_ps s q ps1"
      have c: "chosen tp st s (allowed tp cpu) external p st1 ?s None"
        by (rule search_none [OF Cons.prems(1) q f(2) [unfolded None]])
      have "\<exists>clk' st' s' removed' r.
        foreach_do (find tp m cpu) external p cpu ts order (clk1, st1, ?s) rem1 = Some ((clk', st', s'), removed', r) \<and>
        chosen tp st1 ?s (allowed tp cpu) external p st' s' r \<and>
        (r = None \<longrightarrow> (removed' = 1 \<or> removed' = rem1 \<and> (\<forall>q \<in> set order. passed_over external p q)) \<and>
           (\<forall>q \<in> set order. \<not> passed_over external p q \<longrightarrow> (\<exists>ps. queues_direct s' q = Some ps \<and> after ps)) \<and>
           (\<forall>q. q \<notin> set order \<longrightarrow> queues_direct s' q = queues_direct ?s q))"
        using c Cons.prems f(3) None
        by (intro Cons.IH) (auto simp: chosen_def split: if_splits)
      then obtain clk' st' s' removed' r where i:
        "foreach_do (find tp m cpu) external p cpu ts order (clk1, st1, ?s) rem1 = Some ((clk', st', s'), removed', r)"
        "chosen tp st1 ?s (allowed tp cpu) external p st' s' r"
        "r = None \<longrightarrow> (removed' = 1 \<or> removed' = rem1 \<and> (\<forall>q \<in> set order. passed_over external p q)) \<and>
           (\<forall>q \<in> set order. \<not> passed_over external p q \<longrightarrow> (\<exists>ps. queues_direct s' q = Some ps \<and> after ps)) \<and>
           (\<forall>q. q \<notin> set order \<longrightarrow> queues_direct s' q = queues_direct ?s q)" by blast
      have "foreach_do (find tp m cpu) external p cpu ts (q # order) (clk, st, s) removed = Some ((clk', st', s'), removed', r)"
        using f(1) i(1) None q run by simp
      moreover have "removed' = 1" if "r = None" using i(3) that f(3) None by auto
      moreover have "queues_direct s' q = Some ps1" if "r = None" using i(3) that Cons.prems(2) by auto
      ultimately show ?thesis using chosen_trans [OF c i(2)] i(3) f(3) None Cons.prems(2) by auto
    qed
  qed
qed

end

text \<open>A process without a task for this CPU has an empty general queue.\<close>

definition drained :: "process_scheduler \<Rightarrow> bool" where
  "drained ps = (ps_tasks ps = 0 \<or> queue_tasks (ps_queue ps) = [])"

lemma search_none_tasks: "search_ok tp (clk, st, ps) allowed ((clk', st', ps'), removed, None) \<Longrightarrow> ps_tasks ps' = ps_tasks ps"
  by (simp add: search_ok_def)

interpretation find: process_search scheduler_find_task_process cpu_affinity_respected False "\<lambda>_. True" drained
proof unfold_locales
  fix tp m cpu st ps removed clk
  assume "topo_ok tp m" "cpu < per_level_count tp TOPO_CPU" "ps_inv tp st ps"
  then obtain clk' st' ps' removed' r where
    f: "scheduler_find_task_process tp m cpu (clk, st, ps) removed = Some ((clk', st', ps'), removed', r)"
      "search_ok tp (clk, st, ps) (cpu_affinity_respected tp cpu) ((clk', st', ps'), removed', r)"
      "r = None \<longrightarrow> removed' = 1 \<and> (ps_tasks ps = 0 \<or> queue_tasks (ps_queue ps') = [])"
    using find_task_search [of tp m cpu st ps clk removed] by blast
  have "r = None \<longrightarrow> removed' = 1 \<and> drained ps'" using f(2,3) by (auto simp: drained_def dest: search_none_tasks)
  then show "\<exists>clk' st' ps' removed' r. scheduler_find_task_process tp m cpu (clk, st, ps) removed = Some ((clk', st', ps'), removed', r) \<and>
      search_ok tp (clk, st, ps) (cpu_affinity_respected tp cpu) ((clk', st', ps'), removed', r) \<and>
      (r = None \<longrightarrow> removed' = 1 \<and> drained ps')" using f(1,2) by blast
qed

interpretation steal: process_search scheduler_find_task_noaffine_process
  "\<lambda>tp cpu a. aff_type a \<noteq> NOSV_AFFINITY_TYPE_STRICT" False drained drained
proof unfold_locales
  fix tp m cpu st ps removed clk
  assume a: "topo_ok tp m" "ps_inv tp st ps" "drained ps"
  then obtain clk' st' ps' removed' r where
    f: "scheduler_find_task_noaffine_process tp m cpu (clk, st, ps) removed = Some ((clk', st', ps'), removed', r)"
      "search_ok tp (clk, st, ps) (\<lambda>a. aff_type a \<noteq> NOSV_AFFINITY_TYPE_STRICT) ((clk', st', ps'), removed', r)"
      "r = None \<longrightarrow> removed' = 1 \<and> ps_queue ps' = ps_queue ps"
    using noaffine_search [of tp m st ps cpu clk removed] by blast
  have "r = None \<longrightarrow> removed' = 1 \<and> drained ps'" using f(2,3) a(3) by (auto simp: drained_def dest: search_none_tasks)
  then show "\<exists>clk' st' ps' removed' r. scheduler_find_task_noaffine_process tp m cpu (clk, st, ps) removed = Some ((clk', st', ps'), removed', r) \<and>
      search_ok tp (clk, st, ps) (\<lambda>a. aff_type a \<noteq> NOSV_AFFINITY_TYPE_STRICT) ((clk', st', ps'), removed', r) \<and>
      (r = None \<longrightarrow> removed' = 1 \<and> drained ps')" using f(1,2) by blast
qed

interpretation yielded: process_search scheduler_find_task_yield_process cpu_affinity_respected True drained drained
proof unfold_locales
  fix tp m cpu st ps clk and removed :: int
  assume a: "topo_ok tp m" "cpu < per_level_count tp TOPO_CPU" "ps_inv tp st ps" "drained ps" "True \<longrightarrow> removed = 1"
  then obtain clk' st' ps' removed' r where
    f: "scheduler_find_task_yield_process tp m cpu (clk, st, ps) removed = Some ((clk', st', ps'), removed', r)"
      "search_ok tp (clk, st, ps) (cpu_affinity_respected tp cpu) ((clk', st', ps'), removed', r)"
      "r = None \<longrightarrow> removed' = 1 \<and> ps_queue ps' = ps_queue ps"
    using yield_search [of tp m cpu st ps clk] by blast
  have "r = None \<longrightarrow> removed' = 1 \<and> drained ps'" using f(2,3) a(4) by (auto simp: drained_def dest: search_none_tasks)
  then show "\<exists>clk' st' ps' removed' r. scheduler_find_task_yield_process tp m cpu (clk, st, ps) removed = Some ((clk', st', ps'), removed', r) \<and>
      search_ok tp (clk, st, ps) (cpu_affinity_respected tp cpu) ((clk', st', ps'), removed', r) \<and>
      (r = None \<longrightarrow> removed' = 1 \<and> drained ps')" using f(1,2) by blast
qed

subsection \<open>The choice of a task\<close>

lemma circle_from_set: "p \<in> set ps \<Longrightarrow> set (circle_from p ps) = set ps"
  by (metis circle_from_def set_append takeWhile_dropWhile_id sup_commute)

lemma circle_from_distinct: "distinct ps \<Longrightarrow> distinct (circle_from p ps)"
  unfolding circle_from_def by (metis distinct_append inf_commute takeWhile_dropWhile_id)

lemma next_circular_set:
  assumes "p \<in> set ps"
  shows "next_circular ps p \<in> set ps"
proof -
  have "set (tl (circle_from p ps)) \<subseteq> set ps" using circle_from_set [OF assms] list.set_sel(2) by (metis subsetI tl_Nil)
  then show ?thesis using assms by (cases "tl (circle_from p ps)") (auto simp: next_circular_def)
qed

lemma start_of_set:
  assumes "sched_inv tp st s" "0 < sch_tasks s" "p < MAX_PIDS"
  shows "\<exists>it. start_of s p = Some it \<and> it \<in> set (sch_queues s)"
proof (cases "queues_direct s p")
  case None
  have "sch_queues s \<noteq> []" using assms(1,2) by (auto simp: sched_inv_def)
  then show ?thesis using None assms(3) by (auto simp: start_of_def direct_def split: list.splits)
next
  case (Some ps)
  then show ?thesis using assms by (auto simp: start_of_def direct_def sched_inv_def)
qed

lemma chosen_refl: "sched_inv tp st s \<Longrightarrow> chosen tp st s allowed external p st s None"
  by (simp add: chosen_def)

text \<open>The affinities a CPU may run: the searches respect an affinity to another CPU unless it is a preferred one.\<close>

definition cpu_may_run :: "topology \<Rightarrow> nat \<Rightarrow> nosv_affinity \<Rightarrow> bool" where
  "cpu_may_run tp cpu a = (cpu_affinity_respected tp cpu a \<or> aff_type a \<noteq> NOSV_AFFINITY_TYPE_STRICT)"

lemma get_internal_ok:
  assumes tp: "topo_ok tp m" "cpu < per_level_count tp TOPO_CPU" and inv: "sched_inv tp st s"
    and pid: "cpu_get_pid m cpu = Some p" "0 \<le> p"
  shows "\<exists>clk' st' s' r. scheduler_get_internal tp m (clk, st, s) cpu = Some ((clk', st', s'), r) \<and>
    chosen tp st s (cpu_may_run tp cpu) (dtlock_requires_external (sch_dtlock s) cpu) p st' s' r \<and>
    (r = None \<longrightarrow> (\<forall>q ps. queues_direct s' q = Some ps \<longrightarrow>
       passed_over (dtlock_requires_external (sch_dtlock s) cpu) p q \<or> drained ps))"
proof (cases "sch_tasks s = 0")
  case True
  have "drained ps" if "queues_direct s q = Some ps" for q ps
    using sched_tasks_le [OF inv that] True by (simp add: drained_def)
  then show ?thesis using True chosen_refl [OF inv] by (simp add: scheduler_get_internal_def chosen_def)
next
  case False
  let ?e = "dtlock_requires_external (sch_dtlock s) cpu"
  have mp: "nat p < MAX_PIDS" using pid by (auto simp: cpu_get_pid_def)
  obtain it where it: "start_of s (nat p) = Some it" "it \<in> set (sch_queues s)"
    using start_of_set [OF inv _ mp] False by auto
  obtain y ts clk1 where y: "scheduler_should_yield s clk p cpu = (y, ts, clk1)" by (metis prod_cases3)
  define it1 where "it1 = (if y then next_circular (sch_queues s) it else it)"
  define it2 where "it2 = (if y then it1 else next_circular (sch_queues s) it1)"
  have mem: "it1 \<in> set (sch_queues s)" "it2 \<in> set (sch_queues s)"
    using it(2) next_circular_set by (auto simp: it1_def it2_def)
  let ?o1 = "circle_from it1 (sch_queues s)" and ?o2 = "circle_from it2 (sch_queues s)"
  have dq: "distinct (sch_queues s)" "set (sch_queues s) = dom (queues_direct s)" using inv by (auto simp: sched_inv_def)
  have o: "distinct ?o1" "set ?o1 = set (sch_queues s)" "distinct ?o2" "set ?o2 = set (sch_queues s)"
    by (simp_all add: circle_from_distinct [OF dq(1)] circle_from_set mem)
  obtain clk2 st2 s2 rem2 r2 where f:
    "foreach_do (scheduler_find_task_process tp m cpu) ?e p cpu ts ?o1 (clk1, st, s) 0 = Some ((clk2, st2, s2), rem2, r2)"
    "chosen tp st s (cpu_affinity_respected tp cpu) ?e p st2 s2 r2"
    "r2 = None \<longrightarrow> (rem2 = 1 \<or> rem2 = 0 \<and> (\<forall>q \<in> set ?o1. passed_over ?e p q)) \<and>
       (\<forall>q \<in> set ?o1. \<not> passed_over ?e p q \<longrightarrow> (\<exists>ps. queues_direct s2 q = Some ps \<and> drained ps))"
    using find.foreach_do_ok [OF tp inv o(1), of ?e p 0 ts clk1] o(2) by blast
  note run = scheduler_get_internal_def
  show ?thesis
  proof (cases r2)
    case (Some t)
    then have "scheduler_get_internal tp m (clk, st, s) cpu = Some ((clk2, st2, s2), Some t)"
      using False pid it(1) y f(1) by (simp add: run it1_def)
    then show ?thesis using chosen_mono [OF f(2), of "cpu_may_run tp cpu"] Some by (auto simp: cpu_may_run_def)
  next
    case None
    have q2: "sch_queues s2 = sch_queues s" "sched_inv tp st2 s2" using f(2) by (auto simp: chosen_def same_rest_def)
    have d2: "drained ps" if "q \<in> set (sch_queues s)" "\<not> passed_over ?e p q" "queues_direct s2 q = Some ps" for q ps
      using f(3) None that o(2) by fastforce
    obtain clk3 st3 s3 rem3 r3 where g:
      "foreach_do (scheduler_find_task_noaffine_process tp m cpu) ?e p cpu ts ?o1 (clk2, st2, s2) rem2 = Some ((clk3, st3, s3), rem3, r3)"
      "chosen tp st2 s2 (\<lambda>a. aff_type a \<noteq> NOSV_AFFINITY_TYPE_STRICT) ?e p st3 s3 r3"
      "r3 = None \<longrightarrow> (rem3 = 1 \<or> rem3 = rem2 \<and> (\<forall>q \<in> set ?o1. passed_over ?e p q)) \<and>
         (\<forall>q \<in> set ?o1. \<not> passed_over ?e p q \<longrightarrow> (\<exists>ps. queues_direct s3 q = Some ps \<and> drained ps))"
      using steal.foreach_do_ok [OF tp q2(2) o(1), of ?e p rem2 ts clk2] o(2) q2(1) d2 by auto
    have c3: "chosen tp st s (\<lambda>a. aff_type a \<noteq> NOSV_AFFINITY_TYPE_STRICT) ?e p st3 s3 r3"
      by (rule chosen_trans [OF f(2) [unfolded None] g(2)])
    show ?thesis
    proof (cases r3)
      case (Some t)
      then have "scheduler_get_internal tp m (clk, st, s) cpu = Some ((clk3, st3, s3), Some t)"
        using False pid it(1) y f(1) g(1) None by (simp add: run it1_def)
      then show ?thesis using chosen_mono [OF c3, of "cpu_may_run tp cpu"] Some by (auto simp: cpu_may_run_def)
    next
      case N3: None
      have q3: "sch_queues s3 = sch_queues s" "sched_inv tp st3 s3" using c3 by (auto simp: chosen_def same_rest_def)
      have d3: "drained ps" if "q \<in> set (sch_queues s)" "\<not> passed_over ?e p q" "queues_direct s3 q = Some ps" for q ps
        using g(3) N3 that o(2) by fastforce
      have rem: "rem3 = 1 \<or> (\<forall>q \<in> set ?o2. passed_over ?e p q)" using g(3) N3 o by auto
      obtain clk4 st4 s4 rem4 r4 where h:
        "foreach_do (scheduler_find_task_yield_process tp m cpu) ?e p cpu ts ?o2 (clk3, st3, s3) rem3 = Some ((clk4, st4, s4), rem4, r4)"
        "chosen tp st3 s3 (cpu_affinity_respected tp cpu) ?e p st4 s4 r4"
        "r4 = None \<longrightarrow> (\<forall>q \<in> set ?o2. \<not> passed_over ?e p q \<longrightarrow> (\<exists>ps. queues_direct s4 q = Some ps \<and> drained ps))"
        using yielded.foreach_do_ok [OF tp q3(2) o(3), of ?e p rem3 ts clk3] o(4) q3(1) d3 rem by auto
      have c4: "chosen tp st s (cpu_may_run tp cpu) ?e p st4 s4 r4"
        using chosen_mono [OF chosen_trans [OF c3 [unfolded N3] h(2)]] by (auto simp: cpu_may_run_def)
      have "scheduler_get_internal tp m (clk, st, s) cpu = Some ((clk4, st4, s4), r4)"
        using False pid it(1) y f(1) [unfolded it1_def] g(1) [unfolded it1_def] h(1) [unfolded it2_def it1_def] None N3
        by (cases y) (simp_all add: run)
      moreover have "passed_over ?e p q \<or> drained ps" if "r4 = None" "queues_direct s4 q = Some ps" for q ps
      proof -
        have "sch_queues s4 = sch_queues s" "sched_inv tp st4 s4" using c4 by (auto simp: chosen_def same_rest_def)
        then have "q \<in> set ?o2" using that(2) o(4) by (auto simp: sched_inv_def)
        then show ?thesis using h(3) that by fastforce
      qed
      ultimately show ?thesis using c4 by blast
    qed
  qed
qed

end
