(* ===== verification/Scheduler_Ready.thy ===== *)
theory Scheduler_Ready
  imports Scheduler_Inv
begin

section \<open>Ready tasks enter the scheduler\<close>

text \<open>
  What happens to a submitted task: it waits in the submission queue, the holder of the lock takes it
  out and puts it into the scheduler of its process, among the ready, the waiting or the yielded tasks. The lemmas
  show that every submitted task arrives exactly once.
\<close>

subsection \<open>Deadlines\<close>

text \<open>Tasks with the same deadline cannot be in the tree together: the new one gets the first deadline that is free.\<close>

definition deadline_shift :: "store \<Rightarrow> task_id \<Rightarrow> nat \<Rightarrow> store" where
  "deadline_shift st t d = task_upd st t (\<lambda>k. k \<lparr> deadline := d \<rparr>)"

lemma deadline_shift_simps [simp]:
  "deadline (deadline_shift st t d t) = d" "x \<noteq> t \<Longrightarrow> deadline_shift st t d x = st x"
  "deadline_shift (deadline_shift st t d) t d' = deadline_shift st t d'"
  "deadline_shift st t (deadline (st t)) = st"
  by (auto simp: deadline_shift_def task_upd_def)

lemma key_insert_mset:
  fixes key :: "'a \<Rightarrow> 'k :: linorder"
  assumes "\<forall>y \<in> set xs. key y \<noteq> key x"
  shows "mset (key_insert key x xs) = add_mset x (mset xs)"
  using assms by (induction xs) (auto simp: key_insert_def neq_iff)

lemma deadline_insert_free:
  assumes "tree_ok (\<lambda>x. deadline (st x)) tree" "deadline (st t) \<notin> (\<lambda>x. deadline (st x)) ` set (inorder tree)"
  shows "\<exists>tree'. deadline_insert fuel st tree t = Some (sync_hooks id tree' st, tree') \<and>
    tree_ok (\<lambda>x. deadline (st x)) tree' \<and> inorder tree' = key_insert (\<lambda>x. deadline (st x)) t (inorder tree)"
  using dl.ins_new [OF assms] by (cases "rb_insert (task_deadline_compare st) tree t") simp

lemma deadline_insert_ok:
  assumes "tree_ok (\<lambda>x. deadline (st x)) tree" "t \<notin> set (inorder tree)"
    "card {x \<in> set (inorder tree). deadline (st t) \<le> deadline (st x)} \<le> fuel" "deadline (st t) + fuel < 2 ^ 64"
  shows "\<exists>tree' d. deadline_insert fuel st tree t = Some (sync_hooks id tree' (deadline_shift st t d), tree') \<and>
    deadline (st t) \<le> d \<and> d \<le> deadline (st t) + fuel \<and> d \<notin> (\<lambda>x. deadline (st x)) ` set (inorder tree) \<and>
    {deadline (st t)..<d} \<subseteq> (\<lambda>x. deadline (st x)) ` set (inorder tree) \<and>
    tree_ok (\<lambda>x. deadline (deadline_shift st t d x)) tree' \<and>
    inorder tree' = key_insert (\<lambda>x. deadline (deadline_shift st t d x)) t (inorder tree)"
  using assms
proof (induction fuel arbitrary: st)
  case (0 st)
  let ?key = "\<lambda>x. deadline (st x)"
  have "finite {x \<in> set (inorder tree). ?key t \<le> ?key x}" by simp
  then have "?key t \<notin> ?key ` set (inorder tree)" using 0(3) by auto
  then obtain tree' where "deadline_insert 0 st tree t = Some (sync_hooks id tree' st, tree')" "tree_ok ?key tree'"
    "inorder tree' = key_insert ?key t (inorder tree)" using deadline_insert_free [OF 0(1)] by blast
  then show ?case using \<open>?key t \<notin> _\<close> by (intro exI [of _ tree'] exI [of _ "?key t"]) (simp add: id_def del: deadline_insert.simps)
next
  case (Suc fuel st)
  let ?key = "\<lambda>x. deadline (st x)"
  show ?case
  proof (cases "?key t \<in> ?key ` set (inorder tree)")
    case False
    then obtain tree' where "deadline_insert (Suc fuel) st tree t = Some (sync_hooks id tree' st, tree')" "tree_ok ?key tree'"
      "inorder tree' = key_insert ?key t (inorder tree)" using deadline_insert_free [OF Suc.prems(1)] by blast
    then show ?thesis using False by (intro exI [of _ tree'] exI [of _ "?key t"]) (simp add: id_def del: deadline_insert.simps)
  next
    case True
    then obtain y where y: "y \<in> set (inorder tree)" "?key y = ?key t" by auto
    let ?st = "deadline_shift st t (deadline (st t) + 1)"
    have same: "deadline (?st x) = deadline (st x)" if "x \<in> set (inorder tree)" for x
      using that Suc.prems(2) by (cases "x = t") auto
    have "u64_add (deadline (st t)) 1 = deadline (st t) + 1" using Suc.prems(4) by (simp add: u64_add_less)
    then have step: "deadline_insert (Suc fuel) st tree t = deadline_insert fuel ?st tree t"
      using dl.ins_old [OF Suc.prems(1) y] by (simp add: deadline_shift_def task_upd_def)
    have "tree_ok (\<lambda>x. deadline (?st x)) tree" using tree_ok_cong [of tree "\<lambda>x. deadline (?st x)" ?key] same Suc.prems(1) by simp
    moreover have "card {x \<in> set (inorder tree). deadline (?st t) \<le> deadline (?st x)} \<le> fuel"
    proof -
      have "{x \<in> set (inorder tree). deadline (?st t) \<le> deadline (?st x)} \<subseteq> {x \<in> set (inorder tree). ?key t \<le> ?key x} - {y}"
        using same y by auto
      then have "card {x \<in> set (inorder tree). deadline (?st t) \<le> deadline (?st x)} \<le> card ({x \<in> set (inorder tree). ?key t \<le> ?key x} - {y})"
        by (intro card_mono) auto
      also have "\<dots> = card {x \<in> set (inorder tree). ?key t \<le> ?key x} - 1" using y by (subst card_Diff_singleton) auto
      finally show ?thesis using Suc.prems(3) by simp
    qed
    moreover have "deadline (?st t) + fuel < 2 ^ 64" using Suc.prems(4) by simp
    ultimately obtain tree' d where IH: "deadline_insert fuel ?st tree t = Some (sync_hooks id tree' (deadline_shift ?st t d), tree')"
      "deadline (?st t) \<le> d" "d \<le> deadline (?st t) + fuel" "d \<notin> (\<lambda>x. deadline (?st x)) ` set (inorder tree)"
      "{deadline (?st t)..<d} \<subseteq> (\<lambda>x. deadline (?st x)) ` set (inorder tree)"
      "tree_ok (\<lambda>x. deadline (deadline_shift ?st t d x)) tree'"
      "inorder tree' = key_insert (\<lambda>x. deadline (deadline_shift ?st t d x)) t (inorder tree)"
      using Suc.IH [of ?st, OF _ Suc.prems(2)] by blast
    have img: "(\<lambda>x. deadline (?st x)) ` set (inorder tree) = ?key ` set (inorder tree)" using same by auto
    have "{deadline (st t)..<d} \<subseteq> ?key ` set (inorder tree)"
    proof
      fix k assume "k \<in> {deadline (st t)..<d}"
      then show "k \<in> ?key ` set (inorder tree)" using True IH(5) unfolding img by (cases "k = deadline (st t)") auto
    qed
    then show ?thesis using IH step unfolding img by (intro exI [of _ tree'] exI [of _ d]) (simp add: id_def del: deadline_insert.simps)
  qed
qed

subsection \<open>One task\<close>

text \<open>A task that may be submitted: it is not cancelled, a parallel task has not been started, only a task that
  is not parallel waits for a deadline or yields, and its deadline is far from the end of time.\<close>

definition submittable :: "topology \<Rightarrow> nosv_task \<Rightarrow> bool" where
  "submittable tp k =
     (0 < degree k \<and> (degree k = 1 \<or> scheduled_count k = 0) \<and> affinity_ok tp (affinity k) \<and> deadline k < 2 ^ 63 \<and>
      (if hook_word k \<noteq> 0 then deadline k = 0 \<and> degree k = 1
       else deadline k \<noteq> 0 \<longrightarrow> degree k = 1 \<and> deadline_state k \<in> {NOSV_DEADLINE_PENDING, NOSV_DEADLINE_READY}))"

lemma submittable_ok: "submittable tp k \<Longrightarrow> task_ok tp k" "submittable tp k \<Longrightarrow> executions_left k = nat (degree k)"
  by (auto simp: submittable_def task_ok_def executions_left_def)

text \<open>What the insertion does to a process scheduler.\<close>

definition inserted :: "topology \<Rightarrow> task_id \<Rightarrow> store \<times> process_scheduler \<Rightarrow> store \<times> process_scheduler \<Rightarrow> bool" where
  "inserted tp t s s' =
     (ps_places tp (fst s') (snd s') \<and> ps_elems (snd s') = add_mset t (ps_elems (snd s)) \<and> same_counts (snd s) (snd s') \<and>
      core_eq (fst s) (fst s') \<and> (\<forall>x. x \<noteq> t \<longrightarrow> x \<notin># ps_elems (snd s) \<longrightarrow> fst s' x = fst s x))"

lemma inserted_general:
  assumes "ps_places tp st ps" "t \<notin># ps_elems ps" "task_ok tp (st t)" "scheduler_add_queue st (ps_queue ps) t = (st', q')"
  shows "inserted tp t (st, ps) (st', ps \<lparr> ps_queue := q' \<rparr>)"
proof -
  note g = general_insert_places [OF assms]
  have "hooks_only (insert t (set (queue_tasks (ps_queue ps)))) st st'"
  proof -
    have g: "get_queue ps General = Some (ps_queue ps)" by simp
    then have "queue_ok st (ps_queue ps)" using assms(1) unfolding ps_places_def by blast
    moreover have "t \<notin> set (queue_tasks (ps_queue ps))"
      using assms(2) queue_subset_elems [OF g] by (metis mset_subset_eqD set_mset_mset)
    ultimately show ?thesis using scheduler_add_queue_adds [of st "ps_queue ps" t] by (auto simp: adds_def assms(4))
  qed
  then have "st' x = st x" if "x \<noteq> t" "x \<notin># ps_elems ps" for x
    using that by (auto simp: hooks_only_def ps_elems_def)
  then show ?thesis using g by (simp add: inserted_def same_counts_def same_ids_def)
qed

lemma inserted_yield:
  assumes "ps_places tp st ps" "t \<notin># ps_elems ps" "task_ok tp (st t)" "degree (st t) = 1"
  shows "inserted tp t (st, ps) (task_upd st t (\<lambda>k. k \<lparr> hook_word := w \<rparr>), ps \<lparr> yield_tasks := yield_tasks ps @ [t] \<rparr>)"
proof -
  let ?st = "task_upd st t (\<lambda>k. k \<lparr> hook_word := w \<rparr>)" and ?ps = "ps \<lparr> yield_tasks := yield_tasks ps @ [t] \<rparr>"
  have e: "ps_elems ?ps = add_mset t (ps_elems ps)" by (simp add: ps_elems_def)
  have g: "get_queue ?ps ref = get_queue ps ref" for ref by (cases ref) auto
  have p: "ps_places tp ?st ps" using places_store [OF assms(1) core_eq_hook] by (simp add: task_upd_def)
  have tk: "task_ok tp (?st t)" "\<not> task_is_parallel (?st t)" using assms(3,4) by (simp_all add: task_ok_def task_is_parallel_def)
  have "count (add_mset t (ps_elems ps)) x \<le> 1" for x using p assms(2) by (auto simp: ps_places_def not_in_iff)
  then have "ps_places tp ?st ?ps" unfolding ps_places_def e g using p tk by (auto simp: ps_places_def ps_shape_def)
  then show ?thesis using e core_eq_hook by (simp add: inserted_def same_counts_def same_ids_def)
qed

lemma sync_hooks_core: "core_eq st (sync_hooks id tree st)" "\<And>x. deadline (sync_hooks id tree st x) = deadline (st x)"
  "\<And>x. x \<notin> set (inorder tree) \<Longrightarrow> sync_hooks id tree st x = st x"
proof -
  have h: "hooks_only (set (inorder tree)) st (sync_hooks id tree st)" using sync_hooks_only [of id tree st] by simp
  show "core_eq st (sync_hooks id tree st)" "deadline (sync_hooks id tree st x) = deadline (st x)" for x
    using hooks_core_eq [OF h] hooks_only_fields(2) [OF h] by auto
  show "x \<notin> set (inorder tree) \<Longrightarrow> sync_hooks id tree st x = st x" for x using h by (simp add: hooks_only_def)
qed

lemma inserted_deadline:
  assumes inv: "ps_places tp st ps" and t: "t \<notin># ps_elems ps" "task_ok tp (st t)" "degree (st t) = 1"
    and d: "deadline (st t) + length (inorder (deadline_tasks ps)) < 2 ^ 64"
  shows "\<exists>st' tree d. deadline_insert (length (inorder (deadline_tasks ps)))
      (task_upd st t (\<lambda>k. k \<lparr> deadline_state := NOSV_DEADLINE_WAITING \<rparr>)) (deadline_tasks ps) t = Some (st', tree) \<and>
    inserted tp t (st, ps) (st', ps \<lparr> deadline_tasks := tree \<rparr>) \<and> t \<in> set (inorder tree) \<and>
    deadline (st' t) = d \<and> deadline (st t) \<le> d \<and> {deadline (st t)..<d} \<subseteq> (\<lambda>x. deadline (st x)) ` set (inorder (deadline_tasks ps))"
proof -
  let ?T = "deadline_tasks ps" and ?st1 = "task_upd st t (\<lambda>k. k \<lparr> deadline_state := NOSV_DEADLINE_WAITING \<rparr>)"
  have dl1: "deadline (?st1 x) = deadline (st x)" for x by (simp add: task_upd_def)
  have nt: "t \<notin> set (inorder ?T)" using t(1) by (auto simp: ps_elems_def)
  have "tree_ok (\<lambda>x. deadline (?st1 x)) ?T" using inv by (simp add: dl1 ps_places_def)
  moreover have "card {x \<in> set (inorder ?T). deadline (?st1 t) \<le> deadline (?st1 x)} \<le> length (inorder ?T)"
    by (rule le_trans [OF card_mono card_length]) auto
  ultimately obtain tree dd where i:
    "deadline_insert (length (inorder ?T)) ?st1 ?T t = Some (sync_hooks id tree (deadline_shift ?st1 t dd), tree)"
    "deadline (st t) \<le> dd" "{deadline (st t)..<dd} \<subseteq> (\<lambda>x. deadline (st x)) ` set (inorder ?T)"
    "tree_ok (\<lambda>x. deadline (deadline_shift ?st1 t dd x)) tree"
    "inorder tree = key_insert (\<lambda>x. deadline (deadline_shift ?st1 t dd x)) t (inorder ?T)"
    "dd \<notin> (\<lambda>x. deadline (st x)) ` set (inorder ?T)"
    using deadline_insert_ok [of ?st1 ?T t "length (inorder ?T)"] nt d unfolding dl1 by blast
  let ?st2 = "deadline_shift ?st1 t dd" and ?ps = "ps \<lparr> deadline_tasks := tree \<rparr>"
  let ?st3 = "sync_hooks id tree ?st2"
  have c2: "core_eq st ?st2" by (simp add: core_eq_def deadline_shift_def task_upd_def)
  have c3: "core_eq st ?st3" by (rule core_eq_trans [OF c2 sync_hooks_core(1)])
  have ms: "mset (inorder tree) = add_mset t (mset (inorder ?T))"
  proof -
    have "deadline (?st2 x) \<noteq> dd" if "x \<in> set (inorder ?T)" for x
      using i(6) that nt by (cases "x = t") (auto simp: task_upd_def)
    then show ?thesis unfolding i(5) by (intro key_insert_mset) simp
  qed
  have e: "ps_elems ?ps = add_mset t (ps_elems ps)" by (simp add: ps_elems_def ms)
  have g: "get_queue ?ps ref = get_queue ps ref" for ref by (cases ref) auto
  have tr: "tree_ok (\<lambda>x. deadline (?st3 x)) tree" using i(4) by (simp add: sync_hooks_core(2))
  have tk: "task_ok tp (?st3 t)" "\<not> task_is_parallel (?st3 t)"
    using t(2,3) core_eqD(2,4) [OF c3] by (simp_all add: task_is_parallel_def)
  have st: "set (inorder tree) = insert t (set (inorder ?T))" using ms by (metis set_mset_add_mset_insert set_mset_mset)
  have cnt: "\<forall>x. count (add_mset t (ps_elems ps)) x \<le> 1" using inv t(1) by (auto simp: ps_places_def not_in_iff)
  have q: "\<forall>ref q. get_queue ps ref = Some q \<longrightarrow> queue_ok ?st3 q" using inv core_eqD(1) [OF c3] by (simp add: ps_places_def)
  have a: "\<forall>ref q x. get_queue ps ref = Some q \<longrightarrow> ref \<noteq> General \<longrightarrow> x \<in> set (queue_tasks q) \<longrightarrow>
      affine_queue tp (affinity (?st3 x)) = Some ref" using inv core_eqD(5) [OF c3] by (simp add: ps_places_def)
  have tks: "\<forall>x \<in># add_mset t (ps_elems ps). task_ok tp (?st3 x)" using inv tk(1) core_eqD(2) [OF c3] by (simp add: ps_places_def)
  have par: "\<forall>x \<in> set (yield_tasks ?ps) \<union> set (inorder (deadline_tasks ?ps)). \<not> task_is_parallel (?st3 x)"
    using inv tk(2) core_eqD(4) [OF c3] by (simp add: ps_places_def st)
  have sh: "ps_shape tp ?ps" using inv by (simp add: ps_places_def ps_shape_def)
  have "ps_places tp ?st3 ?ps"
    unfolding ps_places_def e g by (intro conjI) (use q a cnt tks par sh tr in simp_all)
  moreover have "?st3 x = st x" if "x \<noteq> t" "x \<notin># ps_elems ps" for x
    using that sync_hooks_core(3) [of x tree ?st2] st by (auto simp: ps_elems_def)
  ultimately have "inserted tp t (st, ps) (?st3, ?ps)" using e c3 by (simp add: inserted_def same_counts_def same_ids_def)
  moreover have "deadline (?st3 t) = dd" by (simp add: sync_hooks_core(2))
  ultimately show ?thesis using i(1-3) st by blast
qed

lemma elems_le_tasks: "ps_inv tp st ps \<Longrightarrow> size (ps_elems ps) \<le> ps_tasks ps"
proof -
  assume inv: "ps_inv tp st ps"
  have "(\<Sum>t \<in># M. 1 :: nat) \<le> (\<Sum>t \<in># M. executions_left (st t))" if "\<forall>t \<in># M. task_ok tp (st t)" for M
    using that by (induction M) (auto simp: task_ok_def executions_left_def)
  then show ?thesis using inv by (simp add: ps_inv_def)
qed

lemma insert_ready_ok:
  assumes inv: "ps_inv tp st ps" and t: "t \<notin># ps_elems ps" "submittable tp (st t)" and cap: "ps_tasks ps < 2 ^ 63"
  shows "\<exists>st' ps'. insert_ready st ps t = Some (st', ps') \<and> inserted tp t (st, ps) (st', ps')"
proof -
  have pl: "ps_places tp st ps" using inv by (simp add: ps_inv_places)
  note tk = submittable_ok(1) [OF t(2)]
  obtain st1 q1 where a: "scheduler_add_queue st (ps_queue ps) t = (st1, q1)" by (cases "scheduler_add_queue st (ps_queue ps) t")
  consider (yield) "hook_word (st t) \<noteq> 0" | (wait) "hook_word (st t) = 0" "deadline (st t) \<noteq> 0" "deadline_state (st t) = NOSV_DEADLINE_PENDING"
    | (lapsed) "hook_word (st t) = 0" "deadline (st t) \<noteq> 0" "deadline_state (st t) = NOSV_DEADLINE_READY"
    | (general) "hook_word (st t) = 0" "deadline (st t) = 0"
    using t(2) by (fastforce simp: submittable_def split: if_splits)
  then show ?thesis
  proof cases
    case yield
    then show ?thesis using inserted_yield [OF pl t(1) tk] t(2) by (auto simp: insert_ready_def submittable_def)
  next
    case wait
    have "length (inorder (deadline_tasks ps)) \<le> size (ps_elems ps)" by (simp add: ps_elems_def)
    then have "deadline (st t) + length (inorder (deadline_tasks ps)) < 2 ^ 64"
      using elems_le_tasks [OF inv] cap t(2) by (simp add: submittable_def)
    then obtain st' tree where "deadline_insert (length (inorder (deadline_tasks ps)))
        (task_upd st t (\<lambda>k. k \<lparr> deadline_state := NOSV_DEADLINE_WAITING \<rparr>)) (deadline_tasks ps) t = Some (st', tree)"
      "inserted tp t (st, ps) (st', ps \<lparr> deadline_tasks := tree \<rparr>)"
      using inserted_deadline [OF pl t(1) tk] t(2) wait by (auto simp: submittable_def simp del: deadline_insert.simps)
    then show ?thesis using wait by (simp add: insert_ready_def del: deadline_insert.simps)
  next
    case lapsed
    let ?st = "deadline_task_wake_up st t"
    have c: "core_eq st ?st" by (rule core_eq_wake_up)
    have "deadline (?st x) = deadline (st x)" if "x \<in> set (inorder (deadline_tasks ps))" for x
      using that t(1) by (cases "x = t") (auto simp: ps_elems_def deadline_task_wake_up_def)
    then have pl': "ps_places tp ?st ps" by (rule places_store [OF pl c])
    have tk': "task_ok tp (?st t)" using tk core_eqD(2) [OF c] by simp
    obtain st2 q2 where b: "scheduler_add_queue ?st (ps_queue ps) t = (st2, q2)" by (cases "scheduler_add_queue ?st (ps_queue ps) t")
    have i: "inserted tp t (?st, ps) (st2, ps \<lparr> ps_queue := q2 \<rparr>)" by (rule inserted_general [OF pl' t(1) tk' b])
    then have "inserted tp t (st, ps) (st2, ps \<lparr> ps_queue := q2 \<rparr>)"
      using core_eq_trans [OF c] by (auto simp: inserted_def deadline_task_wake_up_def)
    then show ?thesis using lapsed b by (simp add: insert_ready_def)
  next
    case general
    then show ?thesis using inserted_general [OF pl t(1) tk a] a by (simp add: insert_ready_def)
  qed
qed

text \<open>The scheduler of a process that had none.\<close>

lemma new_pid_inv:
  assumes inv: "sched_inv tp st s" and p: "queues_direct s p = None" "p < MAX_PIDS"
    and i: "scheduler_init_pid tp now p = Some ps" "ps_inv tp st ps" "ps_elems ps = {#}" "ps_tasks ps = 0" "ps_pid ps = p"
  shows "sched_inv tp st (put_ps (s \<lparr> sch_queues := sch_queues s @ [p] \<rparr>) p ps)"
    "sched_elems (put_ps (s \<lparr> sch_queues := sch_queues s @ [p] \<rparr>) p ps) = sched_elems s"
proof -
  let ?m = "(queues_direct s)(p \<mapsto> ps)"
  have np: "p \<notin> set (sch_queues s)" using inv p(1) by (auto simp: sched_inv_def)
  have same: "(\<Sum>q \<leftarrow> sch_queues s. f (the (?m q))) = (\<Sum>q \<leftarrow> sch_queues s. f (the (queues_direct s q)))" for f :: "process_scheduler \<Rightarrow> 'a :: comm_monoid_add"
    using np by (intro arg_cong [where f = sum_list] map_cong) auto
  have "process_ok tp st p ps" using i p(2) by (simp add: process_ok_def tasks_of_pid_def)
  then show "sched_inv tp st (put_ps (s \<lparr> sch_queues := sch_queues s @ [p] \<rparr>) p ps)"
    using inv np i(4) same [of ps_tasks] by (auto simp: sched_inv_def)
  show "sched_elems (put_ps (s \<lparr> sch_queues := sch_queues s @ [p] \<rparr>) p ps) = sched_elems s"
    using same [of ps_elems] i(3) by (simp add: sched_elems_def)
qed

text \<open>What the insertion of tasks leaves alone, and how it changes the store.\<close>

definition same_lock :: "scheduler \<Rightarrow> scheduler \<Rightarrow> bool" where
  "same_lock s s' =
     (sch_in_queue s' = sch_in_queue s \<and> sch_dtlock s' = sch_dtlock s \<and> sch_governor s' = sch_governor s \<and>
      deadline_purge s' = deadline_purge s \<and> sch_quantum_ns s' = sch_quantum_ns s \<and> sch_timestamps s' = sch_timestamps s)"

lemma pidqueue_ok:
  assumes "topo_ok tp m" "sched_inv tp st s" "p < MAX_PIDS"
  shows "\<exists>clk' s' ps. scheduler_pidqueue tp clk s p = Some (clk', s', ps) \<and> sched_inv tp st s' \<and> queues_direct s' p = Some ps \<and>
    sched_elems s' = sched_elems s \<and> sch_tasks s' = sch_tasks s \<and> same_lock s s'"
proof (cases "queues_direct s p")
  case None
  obtain now clk' where c: "clock_ns clk = (now, clk')" by (cases "clock_ns clk")
  obtain ps where i: "scheduler_init_pid tp now p = Some ps" "ps_inv tp st ps" "ps_elems ps = {#}" "ps_tasks ps = 0" "ps_pid ps = p"
    using scheduler_init_pid_inv [OF assms(1), of now p st] by blast
  show ?thesis using new_pid_inv [OF assms(2) None assms(3) i] i(1) None c assms(3)
    by (auto simp: scheduler_pidqueue_def direct_def same_lock_def)
next
  case (Some ps)
  then show ?thesis using assms(2,3) by (simp add: scheduler_pidqueue_def direct_def same_lock_def)
qed

definition entered :: "topology \<Rightarrow> task_id multiset \<Rightarrow> nat \<Rightarrow> store \<times> scheduler \<Rightarrow> store \<times> scheduler \<Rightarrow> bool" where
  "entered tp M n s s' =
     (sched_inv tp (fst s') (snd s') \<and> sched_elems (snd s') = M + sched_elems (snd s) \<and> sch_tasks (snd s') = sch_tasks (snd s) + n \<and>
      same_lock (snd s) (snd s') \<and> core_eq (fst s) (fst s') \<and>
      (\<forall>x. x \<notin># M + sched_elems (snd s) \<longrightarrow> fst s' x = fst s x))"

lemma insert_ready_task_ok:
  assumes tp: "topo_ok tp m" and inv: "sched_inv tp st s" and t: "t \<notin># sched_elems s" "submittable tp (st t)"
    "type_pid (task_type (st t)) < MAX_PIDS" and cap: "sch_tasks s + nat (degree (st t)) < 2 ^ 63"
  shows "\<exists>clk' st' s'. scheduler_insert_ready_task tp (clk, st, s) t = Some (clk', st', s') \<and>
    entered tp {#t#} (nat (degree (st t))) (st, s) (st', s')"
proof -
  let ?p = "type_pid (task_type (st t))" and ?d = "nat (degree (st t))"
  obtain clk' s1 ps where q: "scheduler_pidqueue tp clk s ?p = Some (clk', s1, ps)" "sched_inv tp st s1" "queues_direct s1 ?p = Some ps"
    "sched_elems s1 = sched_elems s" "sch_tasks s1 = sch_tasks s" "same_lock s s1"
    using pidqueue_ok [OF tp inv t(3), of clk] by blast
  have ok: "process_ok tp st ?p ps" using q(2,3) by (auto simp: sched_inv_def)
  have pi: "ps_inv tp st ps" using ok by (simp add: process_ok_def)
  have nt: "t \<notin># ps_elems ps" using sched_elems_member [OF q(2,3)] t(1) q(4) by auto
  have le: "ps_tasks ps \<le> sch_tasks s" using sched_tasks_le [OF q(2,3)] q(5) by simp
  have "ps_tasks ps < 2 ^ 63" using le cap by linarith
  from insert_ready_ok [OF pi nt t(2) this]
  obtain st' ps' where i: "insert_ready st ps t = Some (st', ps')" "inserted tp t (st, ps) (st', ps')" by blast
  have sc: "ps_places tp st' ps'" "ps_elems ps' = add_mset t (ps_elems ps)" "ps_tasks ps' = ps_tasks ps" "ps_pid ps' = ps_pid ps" "core_eq st st'"
    and fr: "\<And>x. x \<noteq> t \<Longrightarrow> x \<notin># ps_elems ps \<Longrightarrow> st' x = st x"
    using i(2) by (auto simp: inserted_def same_counts_def same_ids_def)
  let ?ps = "ps' \<lparr> ps_tasks := ps_tasks ps + ?d \<rparr>"
  have add: "u64_add (ps_tasks ps') ?d = ps_tasks ps + ?d" "u64_add (sch_tasks s1) ?d = sch_tasks s + ?d"
    using le cap sc(3) q(5) by (auto intro!: u64_add_less simp: u64_add_def)
  have "executions_left (st' t) = ?d" using submittable_ok(2) [OF t(2)] core_eqD(3) [OF sc(5)] by simp
  then have "ps_inv tp st' ?ps" using le cap sc core_eqD(3) [OF sc(5)]
    by (intro insert_total [OF pi, where t = t]) auto
  moreover have ty: "task_type (st' x) = task_type (st x)" for x using sc(5) by (simp add: core_eq_def)
  ultimately have ok': "process_ok tp st' ?p ?ps" using ok sc(2,4) by (auto simp: process_ok_def tasks_of_pid_def)
  have frame: "st' x = st x" if "type_pid (task_type (st x)) \<noteq> ?p" for x
    using that ok by (intro fr) (auto simp: process_ok_def tasks_of_pid_def)
  have n: "sch_tasks s + ?d + ps_tasks ps = sch_tasks s1 + ps_tasks ?ps" "sch_tasks s + ?d < 2 ^ 64" using q(5) cap by auto
  note put = sched_inv_put [OF q(2,3) ok' frame n]
  let ?s = "put_ps s1 ?p ?ps \<lparr> sch_tasks := sch_tasks s + ?d \<rparr>"
  have "sched_elems ?s = add_mset t (sched_elems s)" using put(2) sc(2) q(4) by simp
  moreover have "same_lock s ?s" using q(6) by (simp add: same_lock_def)
  moreover have "st' x = st x" if "x \<noteq> t" "x \<notin># sched_elems s" for x
    using that sched_elems_member [OF q(2,3)] q(4) by (intro fr) auto
  ultimately have "entered tp {#t#} ?d (st, s) (st', ?s)" using put(1) sc(5) by (simp add: entered_def)
  moreover have "0 < degree (st t)" using t(2) by (simp add: submittable_def)
  ultimately show ?thesis using q(1) i(1) add by (auto simp: scheduler_insert_ready_task_def task_get_degree_def Let_def)
qed

subsection \<open>Rings of submitted tasks\<close>

text \<open>Tasks that can enter together: none of them is in the scheduler already, and the counters have room.\<close>

definition executions :: "store \<Rightarrow> task_id multiset \<Rightarrow> nat" where
  "executions st M = (\<Sum>t \<in># M. nat (degree (st t)))"

definition may_enter :: "topology \<Rightarrow> task_id multiset \<Rightarrow> store \<times> scheduler \<Rightarrow> bool" where
  "may_enter tp M w =
     ((\<forall>x. count (M + sched_elems (snd w)) x \<le> 1) \<and> (\<forall>t \<in># M. submittable tp (fst w t) \<and> type_pid (task_type (fst w t)) < MAX_PIDS) \<and>
      sch_tasks (snd w) + executions (fst w) M < 2 ^ 63)"

lemma executions_simps [simp]: "executions st {#} = 0" "executions st (add_mset t M) = nat (degree (st t)) + executions st M"
  "executions st (M + N) = executions st M + executions st N"
  by (simp_all add: executions_def)

lemma executions_cong: "(\<And>t. t \<in># M \<Longrightarrow> st' t = st t) \<Longrightarrow> executions st' M = executions st M"
  unfolding executions_def by (intro arg_cong [where f = sum_mset] image_mset_cong) simp

lemma entered_refl: "sched_inv tp st s \<Longrightarrow> entered tp {#} 0 (st, s) (st, s)"
  by (simp add: entered_def same_lock_def)

lemma entered_trans: "entered tp M m w w1 \<Longrightarrow> entered tp N n w1 w2 \<Longrightarrow> entered tp (M + N) (m + n) w w2"
  using core_eq_trans [of "fst w" "fst w1" "fst w2"] by (simp add: entered_def same_lock_def ac_simps)

lemma may_enter_part: "may_enter tp (M + N) w \<Longrightarrow> may_enter tp M w"
proof -
  assume a: "may_enter tp (M + N) w"
  have one: "count (M + N + sched_elems (snd w)) x \<le> 1" for x using a unfolding may_enter_def by blast
  have "count (M + sched_elems (snd w)) x \<le> 1" for x using one [of x] by simp
  then show ?thesis using a by (simp add: may_enter_def)
qed

lemma may_enter_rest:
  assumes "may_enter tp (M + N) w" "entered tp M (executions (fst w) M) w w'"
  shows "may_enter tp N w'" "executions (fst w') N = executions (fst w) N"
proof -
  have one: "count M x + count N x + count (sched_elems (snd w)) x \<le> 1" for x using assms(1) by (simp add: may_enter_def)
  have same: "fst w' x = fst w x" if "x \<in># N" for x
  proof -
    have "0 < count N x" using that by simp
    then have "count M x = 0" "count (sched_elems (snd w)) x = 0" using one [of x] by linarith+
    then show ?thesis using assms(2) by (simp add: entered_def not_in_iff)
  qed
  then show e: "executions (fst w') N = executions (fst w) N" by (rule executions_cong)
  show "may_enter tp N w'" using assms same e one by (simp add: may_enter_def entered_def ac_simps)
qed

lemma insert_ring_ok:
  assumes "topo_ok tp m" "sched_inv tp st s" "may_enter tp (mset ts) (st, s)"
  shows "\<exists>clk' st' s'. insert_ring tp (clk, st, s) ts = Some (clk', st', s') \<and>
    entered tp (mset ts) (executions st (mset ts)) (st, s) (st', s')"
  using assms(2,3)
proof (induction ts arbitrary: clk st s)
  case Nil
  then show ?case by (simp add: entered_refl)
next
  case (Cons t ts)
  have "count (mset (t # ts) + sched_elems s) t \<le> 1" using Cons.prems(2) unfolding may_enter_def by (metis snd_conv)
  then have "t \<notin># sched_elems s" by (simp add: not_in_iff)
  moreover have "submittable tp (st t)" "type_pid (task_type (st t)) < MAX_PIDS" "sch_tasks s + nat (degree (st t)) < 2 ^ 63"
    using Cons.prems(2) by (simp_all add: may_enter_def)
  ultimately obtain clk1 st1 s1 where
    a: "scheduler_insert_ready_task tp (clk, st, s) t = Some (clk1, st1, s1)" "entered tp {#t#} (nat (degree (st t))) (st, s) (st1, s1)"
    using insert_ready_task_ok [OF assms(1) Cons.prems(1), of t clk] by blast
  have m: "may_enter tp ({#t#} + mset ts) (st, s)" using Cons.prems(2) by simp
  note r = may_enter_rest [OF m, of "(st1, s1)"]
  have "sched_inv tp st1 s1" using a(2) by (simp add: entered_def)
  from Cons.IH [OF this, of clk1] r a(2) obtain clk2 st2 s2 where
    "insert_ring tp (clk1, st1, s1) ts = Some (clk2, st2, s2)" "entered tp (mset ts) (executions st (mset ts)) (st1, s1) (st2, s2)" by auto
  then show ?case using a entered_trans [OF a(2)] by auto
qed

definition ring_tasks :: "task_id list multiset \<Rightarrow> task_id multiset" where
  "ring_tasks R = (\<Sum>r \<in># R. mset r)"

lemma ring_tasks_simps [simp]: "ring_tasks {#} = {#}" "ring_tasks (add_mset r R) = mset r + ring_tasks R"
  "ring_tasks (R + R') = ring_tasks R + ring_tasks R'"
  by (simp_all add: ring_tasks_def)

lemma insert_rings_ok:
  assumes "topo_ok tp m" "sched_inv tp st s" "may_enter tp (ring_tasks (mset rs)) (st, s)" "[] \<notin> set rs"
  shows "\<exists>clk' st' s'. insert_rings tp (clk, st, s) rs = Some (clk', st', s') \<and>
    entered tp (ring_tasks (mset rs)) (executions st (ring_tasks (mset rs))) (st, s) (st', s')"
  using assms(2-4)
proof (induction rs arbitrary: clk st s)
  case Nil
  then show ?case by (simp add: entered_refl)
next
  case (Cons r rs)
  have m: "may_enter tp (mset r + ring_tasks (mset rs)) (st, s)" using Cons.prems(2) by simp
  then have "may_enter tp (mset r) (st, s)" by (rule may_enter_part)
  from insert_ring_ok [OF assms(1) Cons.prems(1) this, of clk] obtain clk1 st1 s1 where
    a: "insert_ring tp (clk, st, s) r = Some (clk1, st1, s1)" "entered tp (mset r) (executions st (mset r)) (st, s) (st1, s1)" by blast
  note rest = may_enter_rest [OF m, of "(st1, s1)"]
  have "sched_inv tp st1 s1" using a(2) by (simp add: entered_def)
  from Cons.IH [OF this, of clk1] rest a(2) Cons.prems(3) obtain clk2 st2 s2 where
    "insert_rings tp (clk1, st1, s1) rs = Some (clk2, st2, s2)"
    "entered tp (ring_tasks (mset rs)) (executions st (ring_tasks (mset rs))) (st1, s1) (st2, s2)" by auto
  then show ?case using a entered_trans [OF a(2)] Cons.prems(3) by (auto simp: scheduler_process_ready_task_buffer_def)
qed

subsection \<open>The submission queue is emptied\<close>

lemma sched_inv_in_queue [simp]:
  "sched_inv tp st (s \<lparr> sch_in_queue := q \<rparr>) = sched_inv tp st s" "sched_elems (s \<lparr> sch_in_queue := q \<rparr>) = sched_elems s"
  "may_enter tp M (st, s \<lparr> sch_in_queue := q \<rparr>) = may_enter tp M (st, s)"
  by (simp_all add: sched_inv_def sched_elems_def may_enter_def)

lemma entered_in_queue:
  "entered tp M n (st, s \<lparr> sch_in_queue := q \<rparr>) (st', s') \<Longrightarrow> entered tp M n (st, s) (st', s' \<lparr> sch_in_queue := sch_in_queue s \<rparr>)"
  by (auto simp: entered_def same_lock_def)

text \<open>The state of the scheduler up to its submission queue.\<close>

definition queued :: "scheduler \<Rightarrow> task_id multiset" where
  "queued s = ring_tasks (mpsc_elems (sch_in_queue s))"

definition emptied :: "topology \<Rightarrow> store \<times> scheduler \<Rightarrow> store \<times> scheduler \<Rightarrow> bool" where
  "emptied tp w w' =
     (mpsc_inv (sch_in_queue (snd w')) \<and> mpsc_elems (sch_in_queue (snd w')) = {#} \<and>
      entered tp (queued (snd w)) (executions (fst w) (queued (snd w))) w (fst w', snd w' \<lparr> sch_in_queue := sch_in_queue (snd w) \<rparr>))"

lemma ready_loop_ok:
  assumes "topo_ok tp m" "0 < batch" "sched_inv tp st s" "mpsc_inv (sch_in_queue s)" "may_enter tp (queued s) (st, s)"
    "[] \<notin># mpsc_elems (sch_in_queue s)" "size (mpsc_elems (sch_in_queue s)) \<le> fuel"
  shows "\<exists>clk' st' s'. ready_loop tp batch fuel (clk, st, s) = Some (clk', st', s') \<and> emptied tp (st, s) (st', s')"
  using assms(3-7)
proof (induction fuel arbitrary: clk st s rule: less_induct)
  case (less fuel)
  obtain q rings where p: "mpsc_pop_batch (sch_in_queue s) batch = Some (q, rings)" "mpsc_inv q"
    "mpsc_elems (sch_in_queue s) = mset rings + mpsc_elems q" "length rings < batch \<longrightarrow> mpsc_elems q = {#}"
    using mpsc_pop_batch_result [OF less.prems(2) assms(2)] by blast
  let ?s = "s \<lparr> sch_in_queue := q \<rparr>"
  show ?case
  proof (cases "rings = []")
    case True
    then have "mpsc_elems q = {#}" "queued s = {#}" using p(3,4) assms(2) by (auto simp: queued_def)
    moreover have "ready_loop tp batch fuel (clk, st, s) = Some (clk, st, ?s)" using True p(1) by (subst ready_loop.simps) simp
    ultimately show ?thesis using entered_refl [OF less.prems(1)] p(2) by (simp add: emptied_def)
  next
    case False
    have qd: "queued s = ring_tasks (mset rings) + queued ?s" using p(3) by (simp add: queued_def)
    have m: "may_enter tp (ring_tasks (mset rings) + queued ?s) (st, ?s)" using less.prems(3) qd by simp
    then have "may_enter tp (ring_tasks (mset rings)) (st, ?s)" by (rule may_enter_part)
    moreover have "sched_inv tp st ?s" "[] \<notin> set rings" using less.prems(1,4) p(3) by auto
    ultimately obtain clk1 st1 s1 where i: "insert_rings tp (clk, st, ?s) rings = Some (clk1, st1, s1)"
      "entered tp (ring_tasks (mset rings)) (executions st (ring_tasks (mset rings))) (st, ?s) (st1, s1)"
      using insert_rings_ok [OF assms(1), of st ?s rings clk] by blast
    have sz: "size (mpsc_elems q) < fuel" using False p(3) less.prems(5) by (cases rings) auto
    then obtain n where n: "fuel = Suc n" by (cases fuel) auto
    have q1: "sch_in_queue s1 = q" "queued s1 = queued ?s" using i(2) by (auto simp: entered_def same_lock_def queued_def)
    have rest: "may_enter tp (queued ?s) (st1, s1)" "executions st1 (queued ?s) = executions st (queued ?s)"
      using may_enter_rest [OF m, of "(st1, s1)"] i(2) by simp_all
    have "sched_inv tp st1 s1" using i(2) by (simp add: entered_def)
    then obtain clk2 st2 s2 where r: "ready_loop tp batch n (clk1, st1, s1) = Some (clk2, st2, s2)" "emptied tp (st1, s1) (st2, s2)"
      using less.IH [of n st1 s1 clk1] n sz p(2,3) less.prems(4) q1 rest by auto
    have "ready_loop tp batch fuel (clk, st, s) = Some (clk2, st2, s2)" using False p(1) i(1) r(1) n by (subst ready_loop.simps) simp
    moreover have "emptied tp (st, s) (st2, s2)"
    proof -
      have "entered tp (queued s1) (executions st1 (queued s1)) (st1, s1) (st2, s2 \<lparr> sch_in_queue := q \<rparr>)"
        using r(2) q1(1) by (simp add: emptied_def)
      then have "entered tp (queued s) (executions st (queued s)) (st, ?s) (st2, s2 \<lparr> sch_in_queue := q \<rparr>)"
        using entered_trans [OF i(2)] qd q1(2) rest(2) by simp
      then show ?thesis using entered_in_queue r(2) by (fastforce simp: emptied_def)
    qed
    ultimately show ?thesis by blast
  qed
qed

subsection \<open>Processes that shut down\<close>

lemma sched_inv_same:
  assumes "sched_inv tp st s" "queues_direct s p = Some ps" "process_ok tp st p ps'" "ps_tasks ps' = ps_tasks ps" "ps_elems ps' = ps_elems ps"
  shows "sched_inv tp st (put_ps s p ps')" "sched_elems (put_ps s p ps') = sched_elems s"
proof -
  have n: "sch_tasks s + ps_tasks ps = sch_tasks s + ps_tasks ps'" "sch_tasks s < 2 ^ 64" using assms(1,4) by (auto simp: sched_inv_def)
  have e: "put_ps s p ps' \<lparr> sch_tasks := sch_tasks s \<rparr> = put_ps s p ps'" by (simp add: put_ps_def)
  show "sched_inv tp st (put_ps s p ps')" "sched_elems (put_ps s p ps') = sched_elems s"
    using sched_inv_put [OF assms(1-3) _ n] assms(5) unfolding e by auto
qed

lemma process_ok_shutdown [simp]: "process_ok tp st p (ps \<lparr> last_shutdown := n \<rparr>) = process_ok tp st p ps"
  "process_ok tp st p (ps \<lparr> shutdown := n \<rparr>) = process_ok tp st p ps"
  "ps_elems (ps \<lparr> last_shutdown := n \<rparr>) = ps_elems ps" "ps_elems (ps \<lparr> shutdown := n \<rparr>) = ps_elems ps"
proof -
  show e: "ps_elems (ps \<lparr> last_shutdown := n \<rparr>) = ps_elems ps" "ps_elems (ps \<lparr> shutdown := n \<rparr>) = ps_elems ps" by (simp_all add: ps_elems_def)
  have "get_queue (ps \<lparr> last_shutdown := n \<rparr>) ref = get_queue ps ref" "get_queue (ps \<lparr> shutdown := n \<rparr>) ref = get_queue ps ref" for ref
    by (cases ref; simp)+
  then show "process_ok tp st p (ps \<lparr> last_shutdown := n \<rparr>) = process_ok tp st p ps"
    "process_ok tp st p (ps \<lparr> shutdown := n \<rparr>) = process_ok tp st p ps"
    by (simp_all add: process_ok_def ps_inv_def tasks_of_pid_def ps_shape_def e)
qed

lemma sched_inv_gov [simp]:
  "sched_inv tp st (s \<lparr> sch_governor := g, sch_dtlock := d \<rparr>) = sched_inv tp st s"
  "sched_elems (s \<lparr> sch_governor := g, sch_dtlock := d \<rparr>) = sched_elems s"
  by (simp_all add: sched_inv_def sched_elems_def)

text \<open>What the check of the processes leaves alone.\<close>

definition same_tasks :: "scheduler \<Rightarrow> scheduler \<Rightarrow> bool" where
  "same_tasks s s' =
     (sched_elems s' = sched_elems s \<and> sch_tasks s' = sch_tasks s \<and> sch_in_queue s' = sch_in_queue s \<and>
      sch_queues s' = sch_queues s \<and> sch_timestamps s' = sch_timestamps s \<and> deadline_purge s' = deadline_purge s)"

definition shutdown_seen :: "scheduler \<Rightarrow> pid \<Rightarrow> bool" where
  "shutdown_seen s p = (\<exists>ps. queues_direct s p = Some ps \<and> shutdown ps \<le> last_shutdown ps)"

lemma check_shutdowns_ok:
  assumes "sched_inv tp st s" "governor_inv (sch_governor s) (sch_dtlock s)" "set ps \<subseteq> set (sch_queues s)"
  shows "\<exists>s'. check_shutdowns m ps s = Some s' \<and> sched_inv tp st s' \<and> governor_inv (sch_governor s') (sch_dtlock s') \<and>
    same_tasks s s' \<and> (\<forall>p. p \<in> set ps \<or> shutdown_seen s p \<longrightarrow> shutdown_seen s' p)"
  using assms
proof (induction ps arbitrary: s)
  case Nil
  then show ?case by (simp add: same_tasks_def)
next
  case (Cons p ps)
  obtain x where x: "queues_direct s p = Some x" using Cons.prems(1,3) by (auto simp: sched_inv_def)
  show ?case
  proof (cases "shutdown x > last_shutdown x")
    case False
    then have "shutdown_seen s p" using x by (simp add: shutdown_seen_def)
    then show ?thesis using Cons.IH [OF Cons.prems(1,2)] Cons.prems(3) x False by auto
  next
    case True
    obtain g d where g: "governor_shutdown_process (\<lambda>c. pids_cpus m ! c) (sch_governor s) (int (ps_pid x)) (sch_dtlock s) = Some (g, d)"
      "governor_inv g d" using governor_shutdown_ok [OF Cons.prems(2)] by blast
    let ?x = "x \<lparr> last_shutdown := shutdown x \<rparr>"
    let ?s = "put_ps s p ?x \<lparr> sch_governor := g, sch_dtlock := d \<rparr>"
    have "process_ok tp st p ?x" using Cons.prems(1) x by (simp add: sched_inv_def)
    note put = sched_inv_same [OF Cons.prems(1) x this]
    have s: "sched_inv tp st ?s" "same_tasks s ?s" using put by (simp_all add: same_tasks_def)
    obtain s' where "check_shutdowns m ps ?s = Some s'" "sched_inv tp st s'" "governor_inv (sch_governor s') (sch_dtlock s')"
      "same_tasks ?s s'" "\<forall>p. p \<in> set ps \<or> shutdown_seen ?s p \<longrightarrow> shutdown_seen s' p"
      using Cons.IH [OF s(1)] Cons.prems(3) g(2) by auto
    moreover have "shutdown_seen ?s q" if "q = p \<or> shutdown_seen s q" for q using that by (auto simp: shutdown_seen_def)
    ultimately show ?thesis using x True g(1) s(2) by (auto simp: same_tasks_def)
  qed
qed

lemma emptied_tasks:
  assumes "emptied tp (st, s) (st', s')" "sched_inv tp st' s''" "same_tasks s' s''"
  shows "sched_elems s'' = queued s + sched_elems s" "sch_tasks s'' = sch_tasks s + executions st (queued s)"
    "mpsc_elems (sch_in_queue s'') = {#}" "mpsc_inv (sch_in_queue s'')" "core_eq st st'"
  using assms by (auto simp: emptied_def entered_def same_tasks_def)

lemma process_ready_tasks_ok:
  assumes "topo_ok tp m" "0 < batch" "sched_inv tp st s" "governor_inv (sch_governor s) (sch_dtlock s)"
    "mpsc_inv (sch_in_queue s)" "[] \<notin># mpsc_elems (sch_in_queue s)" "may_enter tp (queued s) (st, s)"
  shows "\<exists>clk' st' s'. scheduler_process_ready_tasks tp m batch (clk, st, s) = Some (clk', st', s') \<and>
    sched_inv tp st' s' \<and> governor_inv (sch_governor s') (sch_dtlock s') \<and>
    sched_elems s' = queued s + sched_elems s \<and> sch_tasks s' = sch_tasks s + executions st (queued s) \<and>
    mpsc_inv (sch_in_queue s') \<and> mpsc_elems (sch_in_queue s') = {#} \<and> core_eq st st' \<and>
    deadline_purge s' = deadline_purge s \<and> (\<forall>p \<in> set (sch_queues s'). shutdown_seen s' p)"
proof -
  obtain clk1 st1 s1 where l: "ready_loop tp batch (size (mpsc_elems (sch_in_queue s))) (clk, st, s) = Some (clk1, st1, s1)"
    "emptied tp (st, s) (st1, s1)"
    using ready_loop_ok [OF assms(1-3,5,7,6) order_refl, of clk] by blast
  have "sched_inv tp st1 s1" "sch_governor s1 = sch_governor s" "sch_dtlock s1 = sch_dtlock s" "deadline_purge s1 = deadline_purge s"
    using l(2) by (auto simp: emptied_def entered_def same_lock_def)
  then obtain s2 where s2: "check_shutdowns m (sch_queues s1) s1 = Some s2" "sched_inv tp st1 s2" "governor_inv (sch_governor s2) (sch_dtlock s2)"
    "same_tasks s1 s2" "\<forall>p. p \<in> set (sch_queues s1) \<longrightarrow> shutdown_seen s2 p"
    using check_shutdowns_ok [of tp st1 s1 "sch_queues s1" m] assms(4) by auto
  then show ?thesis using emptied_tasks [OF l(2) s2(2,4)] l(1) \<open>deadline_purge s1 = _\<close>
    by (auto simp: scheduler_process_ready_tasks_def scheduler_check_process_shutdowns_def same_tasks_def simp del: ready_loop.simps)
qed

end
