(* ===== verification/Scheduler_Purge.thy ===== *)
theory Scheduler_Purge
  imports Scheduler_Ready
begin

section \<open>Cancelled deadlines\<close>

text \<open>
  A task that waits for its deadline and is submitted before it gets the state NOSV_DEADLINE_READY while it
  is still in the deadline tree. The purge takes such tasks out of the trees of all processes, starting at
  the own one, and makes them ready. It moves tasks and loses none; when the requested number covers them, no
  lapsed task is left.
\<close>

definition lapsed :: "store \<Rightarrow> task_id \<Rightarrow> bool" where
  "lapsed st t = (deadline_state (st t) = NOSV_DEADLINE_READY)"

subsection \<open>One task\<close>

lemma deadline_remove_taken:
  assumes inv: "ps_places tp st ps" and t: "t \<in> set (inorder (deadline_tasks ps))"
    and r: "deadline_remove st ps t = (st1, ps1)"
  shows "taken tp t (st, ps) (deadline_task_wake_up st1 t, ps1)"
    "inorder (deadline_tasks ps1) = remove1 t (inorder (deadline_tasks ps))" "ps_queue ps1 = ps_queue ps"
    "\<And>x. deadline_state (st1 x) = deadline_state (st x)"
proof -
  let ?T = "deadline_tasks ps" and ?T' = "rb_remove (deadline_tasks ps) t" and ?key = "\<lambda>t. deadline (st t)"
  have tree: "tree_ok ?key ?T" using inv by (simp add: ps_places_def)
  have T': "tree_ok ?key ?T'" and io: "inorder ?T' = remove1 t (inorder ?T)" using dl.del_law [OF tree] by auto
  have "distinct (inorder ?T)" by (rule key_sorted_distinct [OF dl.ok_sorted [OF tree]])
  then have nt: "t \<notin> set (inorder ?T')" by (simp add: io)
  have ms: "mset (inorder ?T) = add_mset t (mset (inorder ?T'))" using t by (simp add: io)
  have s: "st1 = sync_hooks id ?T' st" "ps1 = ps \<lparr> deadline_tasks := ?T' \<rparr>" using r by (auto simp: deadline_remove_def Let_def)
  let ?st = "deadline_task_wake_up st1 t"
  have h: "hooks_only (set (inorder ?T')) st st1" using sync_hooks_only [of id ?T' st] by (simp add: s)
  have core: "core_eq st ?st" by (rule core_eq_trans [OF hooks_core_eq [OF h] core_eq_wake_up])
  have dl': "deadline (?st x) = deadline (st x)" if "x \<in> set (inorder ?T')" for x
    using that nt hooks_only_fields(2) [OF h] by (cases "x = t") (auto simp: deadline_task_wake_up_def)
  have e: "ps_elems ps = add_mset t (ps_elems ps1)" using ms by (simp add: ps_elems_def s)
  have g: "get_queue ps1 ref = get_queue ps ref" for ref by (cases ref) (auto simp: s)
  have "tree_ok (\<lambda>x. deadline (?st x)) ?T'" using T' tree_ok_cong [of ?T' "\<lambda>x. deadline (?st x)" ?key] dl' by simp
  moreover have "set (inorder ?T') \<subseteq> set (inorder ?T)" by (simp add: io set_remove1_subset)
  ultimately have "ps_places tp ?st ps1"
    using inv by (intro places_fewer [OF inv core e g]) (auto simp: s ps_places_def ps_shape_def)
  moreover have "within ps st st1"
    using \<open>set (inorder ?T') \<subseteq> _\<close> by (intro hooks_within [OF h]) (auto simp: ps_elems_def)
  then have "within ps st ?st" unfolding deadline_task_wake_up_def
    by (rule within_trans [OF _ upd_within [where ps = ps]]) (auto simp: e)
  ultimately show "taken tp t (st, ps) (?st, ps1)" using e core by (simp add: taken_def same_counts_def same_ids_def s)
  show "inorder (deadline_tasks ps1) = remove1 t (inorder (deadline_tasks ps))" "ps_queue ps1 = ps_queue ps" by (simp_all add: s io)
  show "deadline_state (st1 x) = deadline_state (st x)" for x using hooks_only_fields [OF h] by simp
qed

text \<open>A task that was taken out of its place goes to the general queue.\<close>

lemma taken_add_general:
  assumes tk: "taken tp t (st, ps) (st1, ps1)" and inv: "ps_places tp st ps"
    and a: "scheduler_add_queue st1 (ps_queue ps1) t = (st2, q)"
  shows "moved tp (st, ps) (st2, ps1 \<lparr> ps_queue := q \<rparr>)" "\<And>x. deadline_state (st2 x) = deadline_state (st1 x)"
    "\<And>x. deadline (st2 x) = deadline (st1 x)" "mset (queue_tasks q) = add_mset t (mset (queue_tasks (ps_queue ps1)))"
proof -
  have e: "ps_elems ps = add_mset t (ps_elems ps1)" and p1: "ps_places tp st1 ps1" and c: "core_eq st st1"
    and w: "within ps st st1" "same_counts ps ps1" using tk by (auto simp: taken_def)
  have t: "t \<notin># ps_elems ps1" "task_ok tp (st1 t)" using places_fresh [OF inv e] core_eqD(2) [OF c] by auto
  note g = general_insert_places [OF p1 t a]
  have i: "inserted tp t (st1, ps1) (st2, ps1 \<lparr> ps_queue := q \<rparr>)" by (rule inserted_general [OF p1 t a])
  have "task_type (st2 x) = task_type (st1 x)" for x using g(3) by (simp add: core_eq_def)
  then have "within ps st st2" using w(1) i e by (auto simp: within_def inserted_def)
  then show "moved tp (st, ps) (st2, ps1 \<lparr> ps_queue := q \<rparr>)"
    using g(1,2) e core_eq_trans [OF c g(3)] w(2) by (auto simp: moved_def same_counts_def same_ids_def)
  show "deadline_state (st2 x) = deadline_state (st1 x)" "deadline (st2 x) = deadline (st1 x)" for x by (rule g)+
  show "mset (queue_tasks q) = add_mset t (mset (queue_tasks (ps_queue ps1)))" by (simp add: g(6))
qed

subsection \<open>One process\<close>

text \<open>The tasks a purge of at most \<open>n\<close> tasks takes out of a tree, and what it does with them.\<close>

definition purged :: "store \<Rightarrow> task_id list \<Rightarrow> int \<Rightarrow> task_id list" where
  "purged st xs n = take (nat n) (filter (lapsed st) xs)"

definition purge_step :: "topology \<Rightarrow> task_id list \<Rightarrow> store \<times> process_scheduler \<Rightarrow> store \<times> process_scheduler \<Rightarrow> bool" where
  "purge_step tp ts s s' =
     (moved tp s s' \<and> inorder (deadline_tasks (snd s')) = filter (\<lambda>x. x \<notin> set ts) (inorder (deadline_tasks (snd s))) \<and>
      mset (queue_tasks (ps_queue (snd s'))) = mset ts + mset (queue_tasks (ps_queue (snd s))) \<and>
      (\<forall>x. if x \<in> set ts then deadline (fst s' x) = 0 \<and> deadline_state (fst s' x) = NOSV_DEADLINE_NONE
           else deadline_state (fst s' x) = deadline_state (fst s x) \<and> deadline (fst s' x) = deadline (fst s x)))"

lemma purge_step_other: "purge_step tp ts (st, ps) (st', ps') \<Longrightarrow> x \<notin> set ts \<Longrightarrow> deadline_state (st' x) = deadline_state (st x)"
  unfolding purge_step_def by (auto split: if_splits)

lemma purge_step_refl: "ps_places tp st ps \<Longrightarrow> purge_step tp [] (st, ps) (st, ps)"
  by (simp add: purge_step_def moved_refl)

lemma purge_step_trans:
  assumes "purge_step tp ts s s'" "purge_step tp us s' s''"
  shows "purge_step tp (ts @ us) s s''"
proof -
  have "filter (\<lambda>x. x \<notin> set us) (filter (\<lambda>x. x \<notin> set ts) xs) = filter (\<lambda>x. x \<notin> set (ts @ us)) xs" for xs :: "task_id list"
    by (induction xs) auto
  moreover have "moved tp s s''" using assms by (intro moved_trans [of tp s s' s'']) (auto simp: purge_step_def)
  ultimately show ?thesis using assms unfolding purge_step_def by (auto simp: ac_simps split: if_splits)
qed

lemma purge_one:
  assumes inv: "ps_places tp st ps" and t: "t \<in> set (inorder (deadline_tasks ps))"
    and r: "deadline_remove st ps t = (st1, ps1)" and a: "scheduler_add_queue (deadline_task_wake_up st1 t) (ps_queue ps1) t = (st2, q)"
  shows "purge_step tp [t] (st, ps) (st2, ps1 \<lparr> ps_queue := q \<rparr>)"
proof -
  note d = deadline_remove_taken [OF inv t r]
  note g = taken_add_general [OF d(1) inv a]
  have tree: "tree_ok (\<lambda>t. deadline (st t)) (deadline_tasks ps)" using inv by (simp add: ps_places_def)
  have io: "remove1 t (inorder (deadline_tasks ps)) = filter (\<lambda>x. x \<notin> {t}) (inorder (deadline_tasks ps))"
    using distinct_remove1_removeAll [OF key_sorted_distinct [OF dl.ok_sorted [OF tree]]] by (simp add: removeAll_filter_not_eq eq_commute)
  have st1: "st1 = sync_hooks id (deadline_tasks ps1) st" using r by (auto simp: deadline_remove_def Let_def)
  have "deadline_state (st2 x) = deadline_state (st x) \<and> deadline (st2 x) = deadline (st x)" if "x \<noteq> t" for x
    using that g(2,3) d(4) by (simp add: deadline_task_wake_up_def sync_hooks_core(2) st1)
  then show ?thesis using g d(2,3) io by (auto simp: purge_step_def deadline_task_wake_up_def)
qed

lemma purge_tree_ok:
  assumes "ps_places tp st ps" "distinct xs" "set xs \<subseteq> set (inorder (deadline_tasks ps))" "0 < n"
  shows "\<exists>st' ps'. purge_tree xs st ps n = (st', ps', n - int (length (purged st xs n))) \<and>
    purge_step tp (purged st xs n) (st, ps) (st', ps')"
  using assms
proof (induction xs arbitrary: st ps n)
  case Nil
  then show ?case by (simp add: purged_def purge_step_refl)
next
  case (Cons t xs)
  show ?case
  proof (cases "lapsed st t")
    case False
    then have "purge_tree (t # xs) st ps n = purge_tree xs st ps n" "purged st (t # xs) n = purged st xs n"
      by (simp_all add: lapsed_def purged_def)
    then show ?thesis using Cons.IH [OF Cons.prems(1)] Cons.prems by (auto simp del: purge_tree.simps)
  next
    case True
    obtain st1 ps1 where r: "deadline_remove st ps t = (st1, ps1)" by (cases "deadline_remove st ps t")
    obtain st2 q where a: "scheduler_add_queue (deadline_task_wake_up st1 t) (ps_queue ps1) t = (st2, q)"
      by (cases "scheduler_add_queue (deadline_task_wake_up st1 t) (ps_queue ps1) t")
    let ?ps2 = "ps1 \<lparr> ps_queue := q \<rparr>"
    have one: "purge_step tp [t] (st, ps) (st2, ?ps2)" using Cons.prems(3) by (intro purge_one [OF Cons.prems(1) _ r a]) simp
    have pd: "purged st (t # xs) n = t # purged st2 xs (n - 1)"
    proof -
      have "nat n = Suc (nat (n - 1))" using Cons.prems(4) by simp
      moreover have "filter (lapsed st2) xs = filter (lapsed st) xs"
        using one Cons.prems(2) by (intro filter_cong) (auto simp: lapsed_def purge_step_def split: if_splits)
      ultimately show ?thesis using True by (simp add: purged_def)
    qed
    have step: "purge_tree (t # xs) st ps n = (if n - 1 = 0 then (st2, ?ps2, 0) else purge_tree xs st2 ?ps2 (n - 1))"
      using True r a by (simp add: lapsed_def)
    show ?thesis
    proof (cases "n = 1")
      case True
      then show ?thesis using step one pd by (simp add: purged_def)
    next
      case False
      have p2: "ps_places tp st2 ?ps2" using one by (simp add: purge_step_def moved_def)
      have sub: "set xs \<subseteq> set (inorder (deadline_tasks ?ps2))" using one Cons.prems(2,3) by (auto simp: purge_step_def)
      have "distinct xs" "0 < n - 1" using Cons.prems(2,4) False by auto
      then obtain st' ps' where IH: "purge_tree xs st2 ?ps2 (n - 1) = (st', ps', n - 1 - int (length (purged st2 xs (n - 1))))"
        "purge_step tp (purged st2 xs (n - 1)) (st2, ?ps2) (st', ps')" using Cons.IH [OF p2 _ sub] by blast
      then show ?thesis using step False pd purge_step_trans [OF one IH(2)] by (simp del: purge_tree.simps)
    qed
  qed
qed

subsection \<open>All processes\<close>

definition lapsed_in :: "store \<Rightarrow> scheduler \<Rightarrow> pid \<Rightarrow> task_id list" where
  "lapsed_in st s q =
     (case queues_direct s q of None \<Rightarrow> [] | Some ps \<Rightarrow> filter (lapsed st) (inorder (deadline_tasks ps)))"

definition purge_result :: "topology \<Rightarrow> pid set \<Rightarrow> store \<times> scheduler \<Rightarrow> store \<times> scheduler \<Rightarrow> bool" where
  "purge_result tp A w w' =
     (sched_inv tp (fst w') (snd w') \<and> sched_elems (snd w') = sched_elems (snd w) \<and> sch_tasks (snd w') = sch_tasks (snd w) \<and>
      same_rest (snd w) (snd w') \<and> core_eq (fst w) (fst w') \<and>
      (\<forall>x. type_pid (task_type (fst w x)) \<notin> A \<longrightarrow> fst w' x = fst w x) \<and>
      (\<forall>q. q \<notin> A \<longrightarrow> queues_direct (snd w') q = queues_direct (snd w) q))"

lemma purge_result_refl: "sched_inv tp st s \<Longrightarrow> purge_result tp A (st, s) (st, s)"
  by (simp add: purge_result_def)

lemma purge_result_trans: "purge_result tp A w w1 \<Longrightarrow> purge_result tp B w1 w2 \<Longrightarrow> purge_result tp (A \<union> B) w w2"
  using core_eq_trans [of "fst w" "fst w1" "fst w2"] by (auto simp: purge_result_def same_rest_def core_eq_def)

text \<open>The trees of the processes that were not visited have the lapsed tasks they had.\<close>

lemma lapsed_in_frame:
  assumes "sched_inv tp st s" "purge_result tp A (st, s) (st', s')" "q \<notin> A"
  shows "lapsed_in st' s' q = lapsed_in st s q"
proof (cases "queues_direct s q")
  case None
  then show ?thesis using assms(2,3) by (auto simp: lapsed_in_def purge_result_def)
next
  case (Some ps)
  have "type_pid (task_type (st t)) = q" if "t \<in> set (inorder (deadline_tasks ps))" for t
    using that assms(1) Some by (auto simp: sched_inv_def process_ok_def tasks_of_pid_def ps_elems_def)
  then show ?thesis using assms(2,3) Some by (auto simp: lapsed_in_def purge_result_def lapsed_def intro!: filter_cong)
qed

lemma purge_process_ok:
  assumes inv: "sched_inv tp st s" and p: "queues_direct s p = Some ps" and n: "0 < n"
  shows "\<exists>st' ps'. purge_tree (inorder (deadline_tasks ps)) st ps n = (st', ps', n - int (min (nat n) (length (lapsed_in st s p)))) \<and>
    purge_result tp {p} (st, s) (st', put_ps s p ps') \<and> (int (length (lapsed_in st s p)) \<le> n \<longrightarrow> lapsed_in st' (put_ps s p ps') p = [])"
proof -
  let ?xs = "inorder (deadline_tasks ps)"
  have ok: "process_ok tp st p ps" using inv p by (simp add: sched_inv_def)
  then have pl: "ps_places tp st ps" by (simp add: process_ok_def ps_inv_places)
  then have "distinct ?xs" by (auto simp: ps_places_def intro: key_sorted_distinct dl.ok_sorted)
  from purge_tree_ok [OF pl this subset_refl n] obtain st' ps' where
    t: "purge_tree ?xs st ps n = (st', ps', n - int (length (purged st ?xs n)))" "purge_step tp (purged st ?xs n) (st, ps) (st', ps')" by blast
  have len: "length (purged st ?xs n) = min (nat n) (length (lapsed_in st s p))" using p by (simp add: purged_def lapsed_in_def)
  have mv: "moved tp (st, ps) (st', ps')" using t(2) by (simp add: purge_step_def)
  then have m: "ps_places tp st' ps'" "ps_elems ps' = ps_elems ps" "core_eq st st'" "ps_tasks ps' = ps_tasks ps" "ps_pid ps' = ps_pid ps"
    and w: "within ps st st'" by (auto simp: moved_def same_counts_def same_ids_def)
  have "ps_inv tp st' ps'" using ok m moved_total [OF mv] by (simp add: ps_inv_places process_ok_def total_left_def)
  then have ok': "process_ok tp st' p ps'" using ok m w by (simp add: process_ok_def tasks_of_pid_def within_def)
  have fr: "st' x = st x" if "type_pid (task_type (st x)) \<noteq> p" for x
    using that w ok by (auto simp: within_def process_ok_def tasks_of_pid_def)
  have nn: "sch_tasks s + ps_tasks ps = sch_tasks s + ps_tasks ps'" "sch_tasks s < 2 ^ 64" using inv m(4) by (auto simp: sched_inv_def)
  have e: "put_ps s p ps' \<lparr> sch_tasks := sch_tasks s \<rparr> = put_ps s p ps'" by (simp add: put_ps_def)
  have "purge_result tp {p} (st, s) (st', put_ps s p ps')"
    using sched_inv_put [OF inv p ok' fr nn] m fr unfolding e by (auto simp: purge_result_def)
  moreover have "lapsed_in st' (put_ps s p ps') p = []" if "int (length (lapsed_in st s p)) \<le> n"
  proof -
    have all: "set (purged st ?xs n) = {x \<in> set ?xs. lapsed st x}" using that p by (simp add: purged_def lapsed_in_def)
    then have "\<not> lapsed st' x" if "x \<in> set ?xs" "x \<notin> set (purged st ?xs n)" for x
      using that purge_step_other [OF t(2), of x] by (auto simp: lapsed_def)
    then show ?thesis using t(2) by (auto simp: lapsed_in_def purge_step_def filter_empty_conv)
  qed
  ultimately show ?thesis using t(1) len by auto
qed

lemma purge_processes_ok:
  assumes "sched_inv tp st s" "distinct order" "set order \<subseteq> set (sch_queues s)" "0 < n"
  shows "\<exists>st' s'. purge_processes order st s n = Some (st', s') \<and> purge_result tp (set order) (st, s) (st', s') \<and>
    (int (\<Sum>q \<leftarrow> order. length (lapsed_in st s q)) \<le> n \<longrightarrow> (\<forall>q \<in> set order. lapsed_in st' s' q = []))"
  using assms
proof (induction order arbitrary: st s n)
  case Nil
  then show ?case by (simp add: purge_result_refl)
next
  case (Cons p order)
  obtain ps where p: "queues_direct s p = Some ps" using Cons.prems(1,3) by (auto simp: sched_inv_def)
  let ?k = "length (lapsed_in st s p)"
  obtain st1 ps1 where t: "purge_tree (inorder (deadline_tasks ps)) st ps n = (st1, ps1, n - int (min (nat n) ?k))"
    "purge_result tp {p} (st, s) (st1, put_ps s p ps1)" "int ?k \<le> n \<longrightarrow> lapsed_in st1 (put_ps s p ps1) p = []"
    using purge_process_ok [OF Cons.prems(1) p Cons.prems(4)] by blast
  let ?s1 = "put_ps s p ps1"
  have inv1: "sched_inv tp st1 ?s1" using t(2) by (simp add: purge_result_def)
  have others: "lapsed_in st1 ?s1 q = lapsed_in st s q" if "q \<in> set order" for q
    using that Cons.prems(2) by (intro lapsed_in_frame [OF Cons.prems(1) t(2)]) auto
  show ?case
  proof (cases "n \<le> int ?k")
    case True
    then have "purge_processes (p # order) st s n = Some (st1, ?s1)" using p t(1) Cons.prems(4) by simp
    moreover have "purge_result tp (set (p # order)) (st, s) (st1, ?s1)"
      using purge_result_trans [OF t(2) purge_result_refl [OF inv1, of "set order"]] by simp
    moreover have "lapsed_in st1 ?s1 q = []" if "int (\<Sum>q \<leftarrow> p # order. length (lapsed_in st s q)) \<le> n" "q \<in> set (p # order)" for q
    proof -
      have "int ?k + int (\<Sum>q \<leftarrow> order. length (lapsed_in st s q)) \<le> n" using that(1) by simp
      then have "(\<Sum>q \<leftarrow> order. length (lapsed_in st s q)) = 0" "int ?k \<le> n" using True by linarith+
      then show ?thesis using that(2) t(3) others by auto
    qed
    ultimately show ?thesis by blast
  next
    case False
    then have "purge_processes (p # order) st s n = purge_processes order st1 ?s1 (n - int ?k)" using p t(1) Cons.prems(4) by simp
    moreover obtain st2 s2 where r: "purge_processes order st1 ?s1 (n - int ?k) = Some (st2, s2)"
      "purge_result tp (set order) (st1, ?s1) (st2, s2)"
      "int (\<Sum>q \<leftarrow> order. length (lapsed_in st1 ?s1 q)) \<le> n - int ?k \<longrightarrow> (\<forall>q \<in> set order. lapsed_in st2 s2 q = [])"
      using Cons.IH [OF inv1, of "n - int ?k"] Cons.prems(2,3) False by auto
    moreover have "purge_result tp (set (p # order)) (st, s) (st2, s2)" using purge_result_trans [OF t(2) r(2)] by simp
    moreover have "(\<Sum>q \<leftarrow> order. length (lapsed_in st1 ?s1 q)) = (\<Sum>q \<leftarrow> order. length (lapsed_in st s q))"
      using others by (intro arg_cong [where f = sum_list] map_cong) auto
    moreover have "lapsed_in st2 s2 p = lapsed_in st1 ?s1 p" using Cons.prems(2) by (intro lapsed_in_frame [OF inv1 r(2)]) auto
    ultimately show ?thesis using t(3) False by auto
  qed
qed

lemma start_of_ok:
  assumes "sched_inv tp st s" "sch_tasks s \<noteq> 0" "p < MAX_PIDS"
  shows "\<exists>it. start_of s p = Some it \<and> distinct (circle_from it (sch_queues s)) \<and> set (circle_from it (sch_queues s)) = set (sch_queues s)"
proof -
  obtain it where "start_of s p = Some it" "it \<in> set (sch_queues s)" using start_of_set [OF assms(1) _ assms(3)] assms(2) by auto
  then show ?thesis using assms(1) by (auto simp: circle_from_distinct circle_from_set sched_inv_def)
qed

lemma circle_from_sum:
  fixes f :: "'a \<Rightarrow> nat"
  shows "(\<Sum>q \<leftarrow> circle_from p ps. f q) = (\<Sum>q \<leftarrow> ps. f q)"
proof -
  have "(\<Sum>q \<leftarrow> ps. f q) = (\<Sum>q \<leftarrow> takeWhile (\<lambda>q. q \<noteq> p) ps @ dropWhile (\<lambda>q. q \<noteq> p) ps. f q)" by simp
  then show ?thesis unfolding circle_from_def map_append sum_list_append by linarith
qed

lemma deadline_purge_ok:
  assumes inv: "sched_inv tp st s" and p: "p < MAX_PIDS" and n: "0 \<le> deadline_purge s"
  shows "\<exists>st' s'. scheduler_deadline_purge p (clk, st, s) = Some (clk, st', s') \<and> deadline_purge s' = 0 \<and>
    purge_result tp UNIV (st, s) (st', s' \<lparr> deadline_purge := deadline_purge s \<rparr>) \<and>
    (int (\<Sum>q \<leftarrow> sch_queues s. length (lapsed_in st s q)) \<le> deadline_purge s \<longrightarrow> (\<forall>q \<in> set (sch_queues s). lapsed_in st' s' q = []))"
proof (cases "deadline_purge s = 0")
  case True
  then have e: "s \<lparr> deadline_purge := 0 \<rparr> = s" by (cases s) simp
  show ?thesis using True purge_result_refl [OF inv] by (auto simp: scheduler_deadline_purge_def sum_list_eq_0_iff e)
next
  case False
  show ?thesis
  proof (cases "sch_tasks s = 0")
    case True
    have "lapsed_in st s q = []" if mem: "q \<in> set (sch_queues s)" for q
    proof -
      obtain ps where ps: "queues_direct s q = Some ps" using mem inv by (auto simp: sched_inv_def)
      then have "ps_inv tp st ps" "ps_tasks ps = 0" using inv sched_tasks_le [OF inv ps] True by (auto simp: sched_inv_def process_ok_def)
      then show ?thesis using elems_le_tasks [of tp st ps] ps by (simp add: lapsed_in_def ps_elems_def)
    qed
    moreover have "purge_result tp UNIV (st, s) (st, s \<lparr> deadline_purge := 0, deadline_purge := deadline_purge s \<rparr>)"
      using purge_result_refl [OF inv] by simp
    ultimately show ?thesis using True False
      by (auto simp: scheduler_deadline_purge_def scheduler_deadline_purge_internal_def lapsed_in_def)
  next
    case nz: False
    obtain it where it: "start_of s p = Some it" "distinct (circle_from it (sch_queues s))" "set (circle_from it (sch_queues s)) = set (sch_queues s)"
      using start_of_ok [OF inv nz p] by blast
    let ?o = "circle_from it (sch_queues s)"
    obtain st' s' where r: "purge_processes ?o st s (deadline_purge s) = Some (st', s')" "purge_result tp (set ?o) (st, s) (st', s')"
      "int (\<Sum>q \<leftarrow> ?o. length (lapsed_in st s q)) \<le> deadline_purge s \<longrightarrow> (\<forall>q \<in> set ?o. lapsed_in st' s' q = [])"
      using purge_processes_ok [OF inv it(2), of "deadline_purge s"] it(3) n False by auto
    have sum: "(\<Sum>q \<leftarrow> ?o. length (lapsed_in st s q)) = (\<Sum>q \<leftarrow> sch_queues s. length (lapsed_in st s q))"
      by (rule circle_from_sum)
    have d: "deadline_purge s' = deadline_purge s" using r(2) by (simp add: purge_result_def same_rest_def)
    then have "s' \<lparr> deadline_purge := deadline_purge s \<rparr> = s'" by (cases s') simp
    then have "purge_result tp UNIV (st, s) (st', s' \<lparr> deadline_purge := deadline_purge s \<rparr>)" using r(2) by (simp add: purge_result_def)
    then show ?thesis using r(1,3) sum it(1,3) False nz d
      by (auto simp: scheduler_deadline_purge_def scheduler_deadline_purge_internal_def lapsed_in_def)
  qed
qed

end
