(* ===== verification/Scheduler_Submit.thy ===== *)
theory Scheduler_Submit
  imports Scheduler_Purge
begin

section \<open>Submission\<close>

text \<open>
  A thread that submits tasks pushes their ring to its submission queue. When the queue is full it tries to take the
  scheduler's lock and empties the queue itself. The lemmas show that a submission ends and that no task is lost or
  doubled, provided that a queue has room for one ring at all.
\<close>

subsection \<open>The layout of the queue\<close>

definition queue_layout :: "'a mpsc_queue \<Rightarrow> nat \<times> nat \<times> nat list" where
  "queue_layout q = (nqueues q, cpus_per_queue q, map q_size (queues q))"

lemma spsc_pop_batch_size: "spsc_pop_batch q cnt = Some (q', vs) \<Longrightarrow> q_size q' = q_size q"
  by (auto simp: spsc_pop_batch_def Let_def split: if_splits prod.splits)

lemma mpsc_pop_loop_sizes: "mpsc_pop_loop fuel n start cur qs cnt = Some (qs', vs, c) \<Longrightarrow> map q_size qs' = map q_size qs"
proof (induction fuel arbitrary: cur qs cnt vs)
  case (Suc fuel)
  obtain sq us where p: "spsc_pop_batch (qs ! cur) cnt = Some (sq, us)"
    using Suc.prems by (auto split: option.splits)
  have e: "map q_size (qs[cur := sq]) = map q_size qs"
    using spsc_pop_batch_size [OF p] by (cases "cur < length qs") (auto simp: map_update list_update_beyond list_update_same_conv)
  show ?case using Suc.prems p Suc.IH e by (auto simp: Let_def split: if_splits)
qed simp

lemma mpsc_pop_batch_layout: "mpsc_pop_batch q cnt = Some (q', vs) \<Longrightarrow> queue_layout q' = queue_layout q"
  by (auto simp: mpsc_pop_batch_def queue_layout_def simp del: mpsc_pop_loop.simps dest!: mpsc_pop_loop_sizes)

lemma insert_ready_task_queue:
  "scheduler_insert_ready_task tp (clk, st, s) t = Some (clk', st', s') \<Longrightarrow> sch_in_queue s' = sch_in_queue s"
  by (auto simp: scheduler_insert_ready_task_def scheduler_pidqueue_def Let_def put_ps_def split: bind_splits option.splits prod.splits if_splits)

lemma insert_ring_queue: "insert_ring tp (clk, st, s) ts = Some (clk', st', s') \<Longrightarrow> sch_in_queue s' = sch_in_queue s"
  by (induction ts arbitrary: clk st s) (auto dest!: insert_ready_task_queue split: bind_splits)

lemma insert_rings_queue: "insert_rings tp (clk, st, s) rs = Some (clk', st', s') \<Longrightarrow> sch_in_queue s' = sch_in_queue s"
  by (induction rs arbitrary: clk st s)
    (auto simp: scheduler_process_ready_task_buffer_def dest!: insert_ring_queue split: bind_splits)

lemma ready_loop_layout: "ready_loop tp batch fuel (clk, st, s) = Some (clk', st', s') \<Longrightarrow> queue_layout (sch_in_queue s') = queue_layout (sch_in_queue s)"
proof (induction fuel arbitrary: clk st s)
  case 0
  then show ?case by (auto split: bind_splits if_splits dest!: mpsc_pop_batch_layout)
next
  case (Suc n)
  obtain q rings where p: "mpsc_pop_batch (sch_in_queue s) batch = Some (q, rings)" using Suc.prems by (auto split: bind_splits)
  show ?case
  proof (cases "rings = []")
    case True
    then show ?thesis using Suc.prems p mpsc_pop_batch_layout [OF p] by auto
  next
    case False
    then obtain clk1 st1 s1 where i: "insert_rings tp (clk, st, s \<lparr> sch_in_queue := q \<rparr>) rings = Some (clk1, st1, s1)"
      "ready_loop tp batch n (clk1, st1, s1) = Some (clk', st', s')" using Suc.prems p by (subst (asm) ready_loop.simps) (auto split: bind_splits)
    then show ?thesis using Suc.IH [OF i(2)] insert_rings_queue [OF i(1)] mpsc_pop_batch_layout [OF p] by simp
  qed
qed

lemma process_ready_tasks_layout:
  assumes "scheduler_process_ready_tasks tp m batch (clk, st, s) = Some (clk', st', s')" "sched_inv tp st' s'"
  shows "queue_layout (sch_in_queue s') = queue_layout (sch_in_queue s)"
proof -
  have "sch_in_queue y = sch_in_queue x" if "check_shutdowns m ps x = Some y" for ps x y
    using that by (induction ps arbitrary: x) (auto split: bind_splits if_splits)
  then show ?thesis using assms(1)
    by (auto simp: scheduler_process_ready_tasks_def scheduler_check_process_shutdowns_def simp del: ready_loop.simps
        dest!: ready_loop_layout split: bind_splits)
qed

subsection \<open>A submission ends\<close>

text \<open>The submission queue of a CPU has room for a ring when it is empty.\<close>

definition has_room :: "'a mpsc_queue \<Rightarrow> int \<Rightarrow> bool" where
  "has_room q cpu = (cpu < int (nqueues q * cpus_per_queue q) \<and> 1 < q_size (queues q ! mpsc_index q cpu))"

lemma has_room_layout:
  assumes "queue_layout q' = queue_layout q" "mpsc_inv q" "has_room q cpu"
  shows "has_room q' cpu"
proof -
  have l: "nqueues q' = nqueues q" "cpus_per_queue q' = cpus_per_queue q" "map q_size (queues q') = map q_size (queues q)"
    using assms(1) by (auto simp: queue_layout_def)
  have "mpsc_index q cpu < length (queues q)" using mpsc_index_bound [OF assms(2)] assms(3) by (simp add: has_room_def)
  moreover have "length (queues q') = length (queues q)" using l(3) by (metis length_map)
  ultimately have "q_size (queues q' ! mpsc_index q cpu) = q_size (queues q ! mpsc_index q cpu)" using l(3) by (metis nth_map)
  moreover have "mpsc_index q' cpu = mpsc_index q cpu" using l(1,2) by (simp add: mpsc_index_def)
  ultimately show ?thesis using assms(3) l(1,2) by (simp add: has_room_def)
qed

lemma sum_list_empty: "(\<Sum>x \<leftarrow> xs. f x) = {#} \<Longrightarrow> x \<in> set xs \<Longrightarrow> f x = {#}"
  by (induction xs) auto

lemma empty_push:
  assumes "mpsc_inv q" "has_room q cpu" "mpsc_elems q = {#}"
  shows "\<exists>q'. mpsc_push q v cpu = Some (q', True) \<and> mpsc_inv q' \<and> mpsc_elems q' = {#v#}"
proof -
  have c: "cpu < int (nqueues q * cpus_per_queue q)" using assms(2) by (simp add: has_room_def)
  have i: "mpsc_index q cpu < length (queues q)" by (rule mpsc_index_bound [OF assms(1) c])
  have "spsc_contents (queues q ! mpsc_index q cpu) = []"
    using sum_list_empty [of "\<lambda>sq. mset (spsc_contents sq)" "queues q" "queues q ! mpsc_index q cpu"] assms(3) i
    by (simp add: mpsc_elems_def mpsc_contents_def comp_def)
  then have "spsc_used (queues q ! mpsc_index q cpu) = 0" by (metis length_spsc_contents list.size(3))
  then show ?thesis using mpsc_push_ok [OF assms(1) c, of v] assms(2,3) by (auto simp: has_room_def)
qed

lemma push_cases:
  assumes "mpsc_inv q" "has_room q cpu"
  shows "(\<exists>q'. mpsc_push q v cpu = Some (q', True) \<and> mpsc_inv q' \<and> mpsc_elems q' = add_mset v (mpsc_elems q)) \<or>
    mpsc_push q v cpu = Some (q, False)"
proof -
  have c: "cpu < int (nqueues q * cpus_per_queue q)" using assms(2) by (simp add: has_room_def)
  show ?thesis
  proof (cases "spsc_used (queues q ! mpsc_index q cpu) + 1 < q_size (queues q ! mpsc_index q cpu)")
    case True
    then show ?thesis using mpsc_push_ok [OF assms(1) c, of v] by auto
  next
    case False
    then show ?thesis using mpsc_push_full [OF assms(1) c, of v] by simp
  qed
qed

definition lock_free :: "dtlock \<Rightarrow> bool" where
  "lock_free d = (wq_ticket d (slot d (dt_head d)) = dt_head d)"

definition submitted :: "topology \<Rightarrow> task_id list \<Rightarrow> store \<times> scheduler \<Rightarrow> store \<times> scheduler \<Rightarrow> bool" where
  "submitted tp ring w w' =
     (sched_inv tp (fst w') (snd w') \<and> mpsc_inv (sch_in_queue (snd w')) \<and>
      sched_elems (snd w') + queued (snd w') = mset ring + sched_elems (snd w) + queued (snd w) \<and> core_eq (fst w) (fst w'))"

lemma sched_inv_lock [simp]: "sched_inv tp st (s \<lparr> sch_dtlock := d \<rparr>) = sched_inv tp st s" "sched_elems (s \<lparr> sch_dtlock := d \<rparr>) = sched_elems s"
  "may_enter tp M (st, s \<lparr> sch_dtlock := d \<rparr>) = may_enter tp M (st, s)" "queued (s \<lparr> sch_dtlock := d \<rparr>) = queued s"
  by (simp_all add: sched_inv_def sched_elems_def may_enter_def queued_def)

lemma submit_ok:
  assumes tp: "topo_ok tp m" "0 < batch" and s: "sched_inv tp st s" "governor_inv (sch_governor s) (sch_dtlock s)"
    "mpsc_inv (sch_in_queue s)" "[] \<notin># mpsc_elems (sch_in_queue s)" "may_enter tp (queued s) (st, s)"
    and room: "has_room (sch_in_queue s) cpu" and lock: "lock_free (sch_dtlock s)" "True \<in> set cas"
  shows "\<exists>clk' st' s'. scheduler_submit_internal tp m batch cpu cas (clk, st, s) ring = Some (clk', st', s') \<and>
    submitted tp ring (st, s) (st', s')"
  using lock(2)
proof (induction cas)
  case (Cons c cas)
  consider (pushed) q where "mpsc_push (sch_in_queue s) ring cpu = Some (q, True)" "mpsc_inv q" "mpsc_elems q = add_mset ring (mpsc_elems (sch_in_queue s))"
    | (full) "mpsc_push (sch_in_queue s) ring cpu = Some (sch_in_queue s, False)" using push_cases [OF s(3) room, of ring] by blast
  then show ?case
  proof cases
    case pushed
    then have "scheduler_submit_internal tp m batch cpu (c # cas) (clk, st, s) ring = Some (clk, st, s \<lparr> sch_in_queue := q \<rparr>)"
      by (subst scheduler_submit_internal.simps) (simp del: scheduler_submit_internal.simps)
    moreover have "submitted tp ring (st, s) (st, s \<lparr> sch_in_queue := q \<rparr>)"
      using s(1) pushed(2,3) by (simp add: submitted_def queued_def)
    ultimately show ?thesis by blast
  next
    case full
    show ?thesis
    proof (cases c)
      case False
      then have "scheduler_submit_internal tp m batch cpu (c # cas) (clk, st, s) ring = scheduler_submit_internal tp m batch cpu cas (clk, st, s) ring"
        using full by (subst scheduler_submit_internal.simps) (simp add: dtlock_try_lock_def del: scheduler_submit_internal.simps)
      then show ?thesis using Cons False by (simp del: scheduler_submit_internal.simps)
    next
      case True
      let ?d = "sch_dtlock s \<lparr> dt_head := dt_head (sch_dtlock s) + 1 \<rparr>" let ?s = "s \<lparr> sch_dtlock := ?d \<rparr>"
      have i: "sched_inv tp st ?s" "mpsc_inv (sch_in_queue ?s)" "[] \<notin># mpsc_elems (sch_in_queue ?s)" "may_enter tp (queued ?s) (st, ?s)"
        using s by simp_all
      have g: "governor_inv (sch_governor ?s) (sch_dtlock ?s)" using s(2) by (simp add: governor_inv_def)
      obtain clk1 st1 s1 where r: "scheduler_process_ready_tasks tp m batch (clk, st, ?s) = Some (clk1, st1, s1)"
        "sched_inv tp st1 s1" "sched_elems s1 = queued s + sched_elems s" "mpsc_inv (sch_in_queue s1)" "mpsc_elems (sch_in_queue s1) = {#}" "core_eq st st1"
        using process_ready_tasks_ok [OF tp i(1) g i(2-4), of clk] by (auto simp del: scheduler_submit_internal.simps)
      have "has_room (sch_in_queue s1) cpu"
        using process_ready_tasks_layout [OF r(1,2)] by (intro has_room_layout [OF _ s(3) room]) simp
      from empty_push [OF r(4) this r(5), of ring] obtain q where
        p: "mpsc_push (sch_in_queue s1) ring cpu = Some (q, True)" "mpsc_inv q" "mpsc_elems q = {#ring#}" by blast
      have t: "dtlock_try_lock (sch_dtlock s) c = (?d, True)" using True lock(1) by (simp add: dtlock_try_lock_def lock_free_def)
      have "scheduler_submit_internal tp m batch cpu cas (clk1, st1, s1 \<lparr> sch_dtlock := dtlock_unlock (sch_dtlock s1) \<rparr>) ring =
        Some (clk1, st1, s1 \<lparr> sch_dtlock := dtlock_unlock (sch_dtlock s1), sch_in_queue := q \<rparr>)"
        using p(1) by (subst scheduler_submit_internal.simps) (simp del: scheduler_submit_internal.simps)
      then have "scheduler_submit_internal tp m batch cpu (c # cas) (clk, st, s) ring =
        Some (clk1, st1, s1 \<lparr> sch_dtlock := dtlock_unlock (sch_dtlock s1), sch_in_queue := q \<rparr>)"
        using full t r(1) by (subst scheduler_submit_internal.simps) (simp del: scheduler_submit_internal.simps)
      moreover have "submitted tp ring (st, s) (st1, s1 \<lparr> sch_dtlock := dtlock_unlock (sch_dtlock s1), sch_in_queue := q \<rparr>)"
        using r p by (simp add: submitted_def queued_def ac_simps)
      ultimately show ?thesis by blast
    qed
  qed
qed simp

subsection \<open>A queue with one slot\<close>

text \<open>A ring buffer with \<open>n\<close> slots holds \<open>n - 1\<close> elements, so one with a single slot never takes any.\<close>

definition no_slots :: "'a mpsc_queue \<Rightarrow> bool" where
  "no_slots q = (length (queues q) = nqueues q + 1 \<and> 0 < cpus_per_queue q \<and>
     (\<forall>sq \<in> set (queues q). q_size sq = 1 \<and> q_head sq = 0 \<and> q_tail sq = 0))"

lemma no_slots_push: "no_slots q \<Longrightarrow> mpsc_push q v cpu = None \<or> mpsc_push q v cpu = Some (q, False)"
proof -
  assume q: "no_slots q"
  have f: "spsc_push (queues q ! i) v = (queues q ! i, False)" if "i < length (queues q)" for i
  proof -
    have "q_size (queues q ! i) = 1" "q_head (queues q ! i) = 0" "q_tail (queues q ! i) = 0" using q that by (auto simp: no_slots_def)
    then show ?thesis by (simp add: spsc_push_def)
  qed
  have "nat cpu div cpus_per_queue q < length (queues q)" if "0 \<le> cpu" "cpu < int (nqueues q * cpus_per_queue q)"
    using that q by (auto simp: no_slots_def less_mult_imp_div_less nat_less_iff less_SucI)
  then show ?thesis using f q by (auto simp: mpsc_push_def Let_def assert_then_def no_slots_def)
qed

lemma no_slots_pop_loop:
  assumes "\<forall>sq \<in> set qs. q_head sq = q_tail sq" "length qs = n + 1" "cur \<le> n" "mpsc_pop_loop fuel n start cur qs cnt = Some (qs', vs, c)"
  shows "qs' = qs \<and> vs = []"
  using assms(3,4)
proof (induction fuel arbitrary: cur cnt vs)
  case (Suc fuel)
  have "q_head (qs ! cur) = q_tail (qs ! cur)" using assms(1,2) Suc.prems(1) by simp
  then have p: "spsc_pop_batch (qs ! cur) cnt = Some (qs ! cur, [])" by (simp add: spsc_pop_batch_def)
  have c: "Suc cur mod Suc n \<le> n" by (metis less_Suc_eq_le mod_less_divisor zero_less_Suc)
  show ?case using Suc.prems(2) p Suc.IH [OF c] by (auto simp: Let_def split: if_splits)
qed simp

lemma no_slots_pop: "no_slots q \<Longrightarrow> mpsc_pop_batch q cnt = Some (q', vs) \<Longrightarrow> no_slots q' \<and> vs = []"
  using no_slots_pop_loop [of "queues q" "nqueues q" "current q" "nqueues q + 1" "current q" cnt]
  by (fastforce simp: mpsc_pop_batch_def no_slots_def simp del: mpsc_pop_loop.simps)

lemma no_slots_process:
  assumes "no_slots (sch_in_queue s)" "scheduler_process_ready_tasks tp m batch (clk, st, s) = Some (clk', st', s')"
  shows "no_slots (sch_in_queue s')"
proof -
  have c: "sch_in_queue y = sch_in_queue x" if "check_shutdowns m ps x = Some y" for ps x y
    using that by (induction ps arbitrary: x) (auto split: bind_splits if_splits)
  obtain clk1 st1 s1 where l: "ready_loop tp batch (size (mpsc_elems (sch_in_queue s))) (clk, st, s) = Some (clk1, st1, s1)"
    "check_shutdowns m (sch_queues s1) s1 = Some s'"
    using assms(2) by (auto simp: scheduler_process_ready_tasks_def scheduler_check_process_shutdowns_def simp del: ready_loop.simps split: bind_splits)
  note r = l(1) [unfolded ready_loop.simps [of tp batch "size (mpsc_elems (sch_in_queue s))" clk st s]]
  obtain q rings where q: "mpsc_pop_batch (sch_in_queue s) batch = Some (q, rings)" using r by (auto split: bind_splits)
  then have "sch_in_queue s1 = q" "no_slots q" using no_slots_pop [OF assms(1) q] r by auto
  then show ?thesis using c [OF l(2)] by simp
qed

lemma no_slots_submit: "no_slots (sch_in_queue s) \<Longrightarrow> scheduler_submit_internal tp m batch cpu cas (clk, st, s) ring = None"
proof (induction cas arbitrary: clk st s)
  case Nil
  then show ?case using no_slots_push [OF Nil, of ring cpu] by (subst scheduler_submit_internal.simps) auto
next
  case (Cons c cas)
  note step = scheduler_submit_internal.simps [of tp m batch cpu "c # cas" clk st s ring]
  obtain d b where t: "dtlock_try_lock (sch_dtlock s) c = (d, b)" by (cases "dtlock_try_lock (sch_dtlock s) c")
  have "no_slots (sch_in_queue s1)" if "scheduler_process_ready_tasks tp m batch (clk, st, s \<lparr> sch_dtlock := d \<rparr>) = Some (clk1, st1, s1)" for clk1 st1 s1
    using no_slots_process [OF _ that] Cons.prems by simp
  then show ?case using no_slots_push [OF Cons.prems, of ring cpu] Cons.IH Cons.prems t
    by (cases b) (auto simp: step split: bind_splits simp del: scheduler_submit_internal.simps)
qed

end
