(* ===== verification/Scheduler_Correct.thy ===== *)
theory Scheduler_Correct
  imports Scheduler_Submit
begin

section \<open>The scheduler is correct\<close>

text \<open>
  The properties of scheduler.c as a whole: submitted tasks arrive exactly once, cancelled deadlines are
  purged, a CPU gets a task it may run whenever there is one, and a process that has used up its quantum makes room
  for the next one.
\<close>

subsection \<open>An example\<close>

text \<open>Two CPUs and one process. The task 3 is ready, a ring of the tasks 5 and 6 is submitted.\<close>

definition example_queue :: "task_id list mpsc_queue" where
  "example_queue =
     \<lparr> nqueues = 1, cpus_per_queue = 2, current = 0,
       queues = [ \<lparr>q_size = 2, q_head = 1, q_tail = 0, q_entries = [[5, 6], []]\<rparr>, spsc_alloc 2 [[], []] ] \<rparr>"

definition example_scheduler :: scheduler where
  "example_scheduler =
     \<lparr> sch_tasks = 1, sch_in_queue = example_queue, sch_timestamps = replicate 2 \<lparr> ts_ns = 0, ts_pid = - 1 \<rparr>,
       sch_quantum_ns = 20, sch_queues = [0], queues_direct = [0 \<mapsto> example_ps], sch_dtlock = example_lock,
       sch_governor = example_governor 0, deadline_purge = 1 \<rparr>"

lemma example_ps_fields: "ps_elems example_ps = {#3#}" "ps_pid example_ps = 0" "ps_tasks example_ps = 1" "inorder (deadline_tasks example_ps) = []"
proof -
  obtain ps where i: "scheduler_init_pid example_topology 0 0 = Some ps" "ps_elems ps = {#}" "ps_pid ps = 0"
    using scheduler_init_pid_inv [OF example_topology_ok, of 0 0 "example_store []"] by blast
  have q: "ps_queue ps = empty_queue" using i(1)
    by (auto simp: scheduler_init_pid_def Let_def scheduler_init_queue_def empty_queue_def split: bind_splits)
  have e: "example_ps = ps \<lparr> ps_queue := empty_queue \<lparr> fifo_tasks := [3] \<rparr>, ps_tasks := 1 \<rparr>" using i(1) by (simp add: example_ps_def)
  show "ps_elems example_ps = {#3#}" "ps_pid example_ps = 0" "ps_tasks example_ps = 1" "inorder (deadline_tasks example_ps) = []"
    using i(2,3) q by (simp_all add: e ps_elems_def queue_tasks_def empty_queue_def)
qed

lemma example_scheduler_inv: "sched_inv example_topology (example_store []) example_scheduler"
  using example_ps_inv example_ps_fields
  by (auto simp: sched_inv_def process_ok_def tasks_of_pid_def example_scheduler_def example_store_def MAX_PIDS_def split: if_splits)

lemma example_queue_ok: "mpsc_inv example_queue" "mpsc_elems example_queue = {#[5, 6]#}"
proof -
  show "mpsc_inv example_queue" by (simp add: mpsc_inv_def spsc_inv_def spsc_alloc_def example_queue_def)
  have "mpsc_contents example_queue = [[[5, 6]], []]" by code_simp
  then show "mpsc_elems example_queue = {#[5, 6]#}" by (simp add: mpsc_elems_def)
qed

lemma example_may_enter: "may_enter example_topology (queued example_scheduler) (example_store [], example_scheduler)"
  using example_ps_fields example_queue_ok
  by (simp add: may_enter_def queued_def example_scheduler_def sched_elems_def submittable_def example_store_def affinity_ok_def MAX_PIDS_def executions_def)

subsection \<open>Submitted tasks arrive\<close>

text \<open>C2. \<open>scheduler_process_ready_tasks\<close> always returns. It empties the submission queue and every task that was in it is in the
  scheduler of its process, once, beside all that were there; the counter of executions grows by their degrees, the
  invariant is kept and no process has a shutdown left that was not handled.\<close>

theorem scheduler_process_ready_tasks_complete:
  assumes "topo_ok tp m" "0 < batch" "sched_inv tp st s" "governor_inv (sch_governor s) (sch_dtlock s)"
    "mpsc_inv (sch_in_queue s)" "[] \<notin># mpsc_elems (sch_in_queue s)" "may_enter tp (queued s) (st, s)"
  shows "\<exists>clk' st' s'. scheduler_process_ready_tasks tp m batch (clk, st, s) = Some (clk', st', s') \<and>
    sched_inv tp st' s' \<and> governor_inv (sch_governor s') (sch_dtlock s') \<and>
    sched_elems s' = queued s + sched_elems s \<and> sch_tasks s' = sch_tasks s + executions st (queued s) \<and>
    mpsc_inv (sch_in_queue s') \<and> mpsc_elems (sch_in_queue s') = {#} \<and> core_eq st st' \<and>
    deadline_purge s' = deadline_purge s \<and> (\<forall>p \<in> set (sch_queues s'). shutdown_seen s' p)"
  by (rule process_ready_tasks_ok [OF assms])

theorem scheduler_process_ready_tasks_complete_witness:
  "\<exists>clk' st' s'. scheduler_process_ready_tasks example_topology example_cpus 1 ((id, 0), example_store [], example_scheduler) = Some (clk', st', s') \<and>
    sched_elems s' = {#3, 5, 6#} \<and> sch_tasks s' = 3"
proof -
  have f: "sch_in_queue example_scheduler = example_queue" "sch_tasks example_scheduler = 1" "sched_elems example_scheduler = {#3#}"
    "governor_inv (sch_governor example_scheduler) (sch_dtlock example_scheduler)"
    using example_ps_fields example_inv by (simp_all add: example_scheduler_def sched_elems_def)
  have q: "queued example_scheduler = {#5, 6#}" using example_queue_ok(2) by (simp add: queued_def f(1))
  have n: "[] \<notin># mpsc_elems (sch_in_queue example_scheduler)" using example_queue_ok(2) by (simp add: f(1))
  obtain clk' st' s' where "scheduler_process_ready_tasks example_topology example_cpus 1 ((id, 0), example_store [], example_scheduler) = Some (clk', st', s')"
    "sched_elems s' = queued example_scheduler + sched_elems example_scheduler"
    "sch_tasks s' = sch_tasks example_scheduler + executions (example_store []) (queued example_scheduler)"
    using scheduler_process_ready_tasks_complete [OF example_topology_ok zero_less_one example_scheduler_inv f(4) _ n example_may_enter, of "(id, 0)"]
      example_queue_ok(1) f(1) by auto
  then show ?thesis by (simp add: q f executions_def example_store_def add_mset_commute)
qed



text \<open>The configuration accepts a submission queue of one slot, but a scheduler that was initialised with it never accepts a
  task: no submission ends, whatever the attempts to take the lock yield.\<close>

theorem one_slot_queue_blocks_submission:
  assumes "scheduler_init tp cfg mem imem g = Some s" "sched_in_queue_size cfg = 1" "0 < sched_cpus_per_queue cfg"
  shows "scheduler_submit_internal tp m batch cpu cas (clk, st, s) ring = None"
proof -
  have "no_slots (sch_in_queue s)" using assms
    by (auto simp: scheduler_init_def mpsc_alloc_def Let_def no_slots_def spsc_alloc_def split: bind_splits)
  then show ?thesis by (rule no_slots_submit)
qed

theorem one_slot_queue_blocks_submission_witness:
  "\<exists>s. scheduler_init example_topology \<lparr> sched_batch_size = 1, sched_quantum_ns = 1, sched_in_queue_size = 1, sched_cpus_per_queue = 1,
       cfg_governor_policy = ''busy'', cfg_governor_spins = 0 \<rparr> [[]] (replicate 4 zero_item) (example_governor 0) = Some s \<and>
     scheduler_submit_internal example_topology example_cpus 1 0 [True] ((id, 0), example_store [], s) [3] = None"
proof -
  let ?c = "\<lparr> sched_batch_size = 1, sched_quantum_ns = 1, sched_in_queue_size = 1, sched_cpus_per_queue = 1,
       cfg_governor_policy = ''busy'', cfg_governor_spins = 0 \<rparr>"
  have "governor_init 2 ''busy'' 0 (example_governor 0) \<noteq> None" by code_simp
  then obtain s where s: "scheduler_init example_topology ?c [[]] (replicate 4 zero_item) (example_governor 0) = Some s"
    by (auto simp: scheduler_init_def example_topology_def topo_lvl_cnt_def mpsc_alloc_def Let_def assert_then_def)
  moreover have "scheduler_submit_internal example_topology example_cpus 1 0 [True] ((id, 0), example_store [], s) [3] = None"
    using one_slot_queue_blocks_submission [OF s] by simp
  ultimately show ?thesis by blast
qed

text \<open>C13. The loop that gives a task the first free deadline ends after at most as many rounds as there are tasks
  with the same or a later deadline. The deadline the task gets is the least one that is not before its own
  and not taken, and the tree has the task at its place, the others as before.\<close>

theorem deadline_insert_least:
  assumes "tree_ok (\<lambda>x. deadline (st x)) tree" "t \<notin> set (inorder tree)"
    "card {x \<in> set (inorder tree). deadline (st t) \<le> deadline (st x)} \<le> fuel" "deadline (st t) + fuel < 2 ^ 64"
  shows "\<exists>tree' d. deadline_insert fuel st tree t = Some (sync_hooks id tree' (deadline_shift st t d), tree') \<and>
    deadline (st t) \<le> d \<and> d \<le> deadline (st t) + fuel \<and> d \<notin> (\<lambda>x. deadline (st x)) ` set (inorder tree) \<and>
    {deadline (st t)..<d} \<subseteq> (\<lambda>x. deadline (st x)) ` set (inorder tree) \<and>
    tree_ok (\<lambda>x. deadline (deadline_shift st t d x)) tree' \<and>
    inorder tree' = key_insert (\<lambda>x. deadline (deadline_shift st t d x)) t (inorder tree)"
  by (rule deadline_insert_ok [OF assms])

theorem deadline_insert_least_witness:
  "\<exists>tree' d. deadline_insert 1 (\<lambda>t. example_store [] t \<lparr> deadline := 7 \<rparr>) (Node Black Leaf 4 Leaf) 5
       = Some (sync_hooks id tree' (deadline_shift (\<lambda>t. example_store [] t \<lparr> deadline := 7 \<rparr>) 5 d), tree') \<and> d = 8"
proof -
  let ?st = "\<lambda>t. example_store [] t \<lparr> deadline := 7 \<rparr>" and ?T = "Node Black Leaf 4 Leaf :: task_id rbtree"
  have t: "tree_ok (\<lambda>x. deadline (?st x)) ?T" by (simp add: tree_ok_def key_sorted_def rb_ok_def)
  have n: "5 \<notin> set (inorder ?T)" by simp
  have "{x. x = (4 :: nat)} = {4}" by auto
  then have c: "card {x \<in> set (inorder ?T). deadline (?st 5) \<le> deadline (?st x)} \<le> 1" by simp
  have b: "deadline (?st 5) + 1 < 2 ^ 64" by simp
  obtain tree' d where d: "deadline_insert 1 ?st ?T 5 = Some (sync_hooks id tree' (deadline_shift ?st 5 d), tree')" "7 \<le> d" "d \<le> 8" "d \<noteq> 7"
    using deadline_insert_least [OF t n c b] by (auto simp del: deadline_insert.simps)
  then have "d = 8" by linarith
  with d(1) show ?thesis by (intro exI [of _ tree'] exI [of _ d]) (simp del: deadline_insert.simps)
qed

subsection \<open>Cancelled deadlines\<close>

text \<open>C12. \<open>scheduler_deadline_purge\<close> always returns, moves tasks within their process only and loses none. When as many
  purges were requested as there are cancelled deadlines, no task with a cancelled deadline is left in any tree; the
  count of requests it served is taken off.\<close>

theorem scheduler_deadline_purge_complete:
  assumes "sched_inv tp st s" "p < MAX_PIDS" "0 \<le> deadline_purge s"
  shows "\<exists>st' s'. scheduler_deadline_purge p (clk, st, s) = Some (clk, st', s') \<and> deadline_purge s' = 0 \<and>
    purge_result tp UNIV (st, s) (st', s' \<lparr> deadline_purge := deadline_purge s \<rparr>) \<and>
    (int (\<Sum>q \<leftarrow> sch_queues s. length (lapsed_in st s q)) \<le> deadline_purge s \<longrightarrow> (\<forall>q \<in> set (sch_queues s). lapsed_in st' s' q = []))"
  by (rule deadline_purge_ok [OF assms])

theorem scheduler_deadline_purge_complete_witness:
  "\<exists>st' s'. scheduler_deadline_purge 0 ((id, 0), example_store [], example_scheduler) = Some ((id, 0), st', s') \<and>
     deadline_purge s' = 0 \<and> lapsed_in st' s' 0 = []"
proof -
  have b: "0 < MAX_PIDS" "0 \<le> deadline_purge example_scheduler" by (simp_all add: MAX_PIDS_def example_scheduler_def)
  have l: "int (\<Sum>q \<leftarrow> sch_queues example_scheduler. length (lapsed_in (example_store []) example_scheduler q)) \<le> deadline_purge example_scheduler"
    "0 \<in> set (sch_queues example_scheduler)"
    using example_ps_fields by (simp_all add: example_scheduler_def lapsed_in_def)
  show ?thesis using scheduler_deadline_purge_complete [OF example_scheduler_inv b, of "(id, 0)"] l by blast
qed

subsection \<open>The choice of a task\<close>



text \<open>The circular walk visits its start first.\<close>

lemma circle_from_Cons: "p \<in> set ps \<Longrightarrow> \<exists>rest. circle_from p ps = p # rest"
proof -
  assume p: "p \<in> set ps"
  then have ne: "dropWhile (\<lambda>q. q \<noteq> p) ps \<noteq> []" by (auto simp: dropWhile_eq_Nil_conv)
  from hd_dropWhile [OF this] have "hd (dropWhile (\<lambda>q. q \<noteq> p) ps) = p" by simp
  then show ?thesis using ne by (cases "dropWhile (\<lambda>q. q \<noteq> p) ps") (auto simp: circle_from_def)
qed

text \<open>C11. A process does not keep a CPU beyond its quantum: when it has run for longer than that and the next process of
  the list has a task for this CPU, that task is chosen, even if the own process has others, and the CPU's time is accounted to
  its process from now on.\<close>

theorem scheduler_quantum_rotates:
  assumes "sched_inv tp st s" "sch_tasks s \<noteq> 0" "cpu_get_pid m cpu = Some (int p)" "p \<in> set (sch_queues s)"
    and now: "clock_ns clk = (now, clk1)" and cpu: "cpu < length (sch_timestamps s)"
    and quantum: "ts_pid (sch_timestamps s ! cpu) = int p" "sch_quantum_ns s < u64_sub now (ts_ns (sch_timestamps s ! cpu))"
    and q: "next_circular (sch_queues s) p = q" "q \<noteq> p" "queues_direct s q = Some psq"
    and found: "scheduler_find_task_process tp m cpu (clk1, st, psq) 0 = Some ((clk2, st2, psq'), removed, Some t)"
      "type_pid (task_type (st2 t)) = q"
  shows "\<exists>s'. scheduler_get_internal tp m (clk, st, s) cpu = Some ((clk2, st2, s'), Some t) \<and>
    sch_timestamps s' ! cpu = \<lparr> ts_ns = now, ts_pid = int q \<rparr>"
proof -
  have "process_ok tp st q psq" using assms(1) q(3) by (simp add: sched_inv_def)
  then have pid: "ps_pid psq = q" by (simp add: process_ok_def)
  have "p < MAX_PIDS" using assms(1,4) by (auto simp: sched_inv_def process_ok_def)
  then have "start_of s p = Some p" using assms(1,4) by (auto simp: start_of_def direct_def sched_inv_def)
  moreover have "scheduler_should_yield s clk (int p) cpu = (True, now, clk1)" using now quantum by (simp add: scheduler_should_yield_def)
  moreover obtain rest where "circle_from q (sch_queues s) = q # rest"
    using circle_from_Cons next_circular_set [OF assms(4)] q(1) by metis
  ultimately show ?thesis using assms(2,3) q pid found cpu
    by (simp add: scheduler_get_internal_def scheduler_update_accounting_def set_timestamp_def)
qed

text \<open>Process 1 has the CPU 0 for more than its quantum, process 0 has the task 3.\<close>

definition example_rotation :: scheduler where
  "example_rotation =
     example_scheduler \<lparr> sch_timestamps := replicate 2 \<lparr> ts_ns = 0, ts_pid = 1 \<rparr>, sch_queues := [0, 1],
       queues_direct := [0 \<mapsto> example_ps, 1 \<mapsto> the (scheduler_init_pid example_topology 0 1)] \<rparr>"

definition rotation_cpus :: cpumanager where
  "rotation_cpus = \<lparr> pids_cpus = [1, - 1], cpu_domain = [0, 1] \<rparr>"

lemma example_rotation_inv: "sched_inv example_topology (example_store []) example_rotation"
proof -
  obtain ps where "scheduler_init_pid example_topology 0 1 = Some ps" "ps_inv example_topology (example_store []) ps" "ps_elems ps = {#}"
    "ps_tasks ps = 0" "ps_pid ps = 1" using scheduler_init_pid_inv [OF example_topology_ok, of 0 1 "example_store []"] by blast
  then show ?thesis using example_ps_inv example_ps_fields
    by (auto simp: sched_inv_def process_ok_def tasks_of_pid_def example_rotation_def example_scheduler_def example_store_def MAX_PIDS_def split: if_splits)
qed

lemma example_find: "\<exists>clk' st' ps' removed. scheduler_find_task_process example_topology rotation_cpus 0
    ((\<lambda>_. 100, 1), example_store [], example_ps) 0 = Some ((clk', st', ps'), removed, Some 3) \<and> type_pid (task_type (st' 3)) = 0"
proof -
  have a: "cpu_parent_lid example_topology rotation_cpus 0 TOPO_NUMA = Some 0" "cpu_lid example_topology rotation_cpus 0 = 0"
    "task_affine example_topology rotation_cpus (example_store []) 3 0 = Some True" by code_simp+
  have ps: "example_ps = the (scheduler_init_pid example_topology 0 0) \<lparr> ps_queue := empty_queue \<lparr> fifo_tasks := [3] \<rparr>, ps_tasks := 1 \<rparr>"
    and pid: "scheduler_init_pid example_topology 0 0 = Some \<lparr> ps_pid = 0, last_shutdown = 0, shutdown = 0, ps_tasks = 0, served_tasks = 0,
      preferred_affinity_tasks = 0, deadline_tasks = Leaf, ps_now = 0, yield_tasks = [],
      per_cpu_queue_strict = [empty_queue, empty_queue], per_cpu_queue_preferred = [empty_queue, empty_queue],
      per_numa_queue_strict = [empty_queue, empty_queue], per_numa_queue_preferred = [empty_queue, empty_queue], ps_queue = empty_queue \<rparr>"
    by (rule example_ps_def) code_simp
  show ?thesis
    by (simp add: scheduler_find_task_process_def ps pid scheduler_get_deadline_expired_def scheduler_get_yield_expired_def a
        get_from_def scheduler_get_from_queue_def scheduler_find_in_queue_def empty_queue_def queue_tasks_def assert_then_def
        example_store_def scheduler_pop_queue_def task_upd_def obtained_def Let_def rb_min_def)
qed

theorem scheduler_quantum_rotates_witness:
  "\<exists>w. scheduler_get_internal example_topology rotation_cpus
     ((\<lambda>_. 100, 0), example_store [], example_rotation) 0 = Some (w, Some 3)"
proof -
  obtain clk' st' ps' removed where f: "scheduler_find_task_process example_topology rotation_cpus 0 ((\<lambda>_. 100, 1), example_store [], example_ps) 0
      = Some ((clk', st', ps'), removed, Some 3)" "type_pid (task_type (st' 3)) = 0" using example_find by blast
  have h: "sch_tasks example_rotation \<noteq> 0" "cpu_get_pid rotation_cpus 0 = Some (int 1)" "1 \<in> set (sch_queues example_rotation)"
    "clock_ns (\<lambda>_. 100, 0) = (100, (\<lambda>_. 100, 1))" "0 < length (sch_timestamps example_rotation)"
    "ts_pid (sch_timestamps example_rotation ! 0) = int 1" "sch_quantum_ns example_rotation < u64_sub 100 (ts_ns (sch_timestamps example_rotation ! 0))"
    "next_circular (sch_queues example_rotation) 1 = 0" "(0 :: nat) \<noteq> 1" "queues_direct example_rotation 0 = Some example_ps"
    by (simp_all add: rotation_cpus_def example_rotation_def example_scheduler_def cpu_get_pid_def clock_ns_def u64_sub_def next_circular_def circle_from_def MAX_PIDS_def)
  show ?thesis using scheduler_quantum_rotates [OF example_rotation_inv h f] by blast
qed

end
