(* ===== verification/Task_Protocol.thy ===== *)
theory Task_Protocol
  imports Tasks_Api Scheduler_Correct
begin

section \<open>The life of a task\<close>

text \<open>
  Properties of the task interface: a new task can be submitted, a submission puts it into the scheduler exactly when the task is
  blocked, a wake-up that comes before the pause is not lost, and a task completes with its last event. The theorems at the
  end describe assertions and error codes that a caller can run into.
\<close>

subsection \<open>Store and workers\<close>

lemma upd_store_simps [simp]:
  "rt_store (upd_store f rt) = f (rt_store rt)" "rt_sched (upd_store f rt) = rt_sched rt"
  "fst (rt_world (upd_store f rt)) = fst (rt_world rt)"
  "workers (upd_store f rt) = workers rt" "current_worker (upd_store f rt) = current_worker rt"
  "rt_cpus (upd_store f rt) = rt_cpus rt" "current_cpu (upd_store f rt) = current_cpu rt" "logic_pid (upd_store f rt) = logic_pid rt"
  "upd_store f (upd_store g rt) = upd_store (\<lambda>st. f (g st)) rt"
  by (simp_all add: upd_store_def split: prod.splits)

lemma set_task_simps [simp]:
  "rt_store (set_task t f rt) = task_upd (rt_store rt) t f" "rt_sched (set_task t f rt) = rt_sched rt"
  "fst (rt_world (set_task t f rt)) = fst (rt_world rt)"
  "workers (set_task t f rt) = workers rt" "current_worker (set_task t f rt) = current_worker rt"
  "rt_cpus (set_task t f rt) = rt_cpus rt" "current_cpu (set_task t f rt) = current_cpu rt" "logic_pid (set_task t f rt) = logic_pid rt"
  "worker_current_task (set_task t f rt) = worker_current_task rt" "worker_is_in_task (set_task t f rt) = worker_is_in_task rt"
  by (simp_all add: set_task_def worker_current_task_def worker_is_in_task_def)

lemma set_task_set_task [simp]: "set_task t f (set_task t g rt) = set_task t (\<lambda>k. f (g k)) rt"
  by (simp add: set_task_def task_upd_def)

lemma set_task_id: "f (rt_store rt t) = rt_store rt t \<Longrightarrow> set_task t f rt = rt"
  by (cases rt) (auto simp: set_task_def upd_store_def task_upd_def fun_upd_idem split: prod.splits)

text \<open>A thread that is outside a task, or whose task has no open submit window.\<close>

definition window_closed :: "runtime \<Rightarrow> bool" where
  "window_closed rt =
     (worker_current_task rt = NULL \<or>
      submit_window (rt_store rt (worker_current_task rt)) = [] \<and> submit_window_maxsize (rt_store rt (worker_current_task rt)) = 1)"

lemma flush_closed:
  assumes "worker_current_task rt = NULL \<or> submit_window (rt_store rt (worker_current_task rt)) = []"
  shows "flush e rt = Some rt"
proof -
  obtain clk st s where w: "rt_world rt = (clk, st, s)" by (metis prod_cases3)
  then have e: "rt \<lparr> rt_world := (clk, st, s) \<rparr> = rt" by (cases rt) simp
  show ?thesis using assms w
    by (cases "worker_current_task rt = NULL")
      (simp_all add: flush_def nosv_flush_submit_window_def flush_window_def task_group_empty_def e)
qed

lemma batch_submit_closed:
  assumes "window_closed rt"
  shows "batch_submit e t rt = scheduler_submit_task e t rt"
proof -
  obtain clk st s where "rt_world rt = (clk, st, s)" by (metis prod_cases3)
  then show ?thesis using assms
    by (auto simp: batch_submit_def scheduler_submit_task_def scheduler_batch_submit_def window_closed_def)
qed

subsection \<open>Creation\<close>

text \<open>A task that \<open>nosv_create\<close> returns is well formed: it may be submitted as soon as the default affinity names a
  domain of the machine, it is blocked until its first submission, and it has a fresh identifier; no other task changes. Without memory, without a
  type or with too much metadata no task is created and no identifier is used.\<close>

theorem nosv_create_well_formed:
  assumes "nosv_create True (Some ty) n flags (g, rt) = ((g', rt'), t, ret)" "affinity_ok tp (default_affinity g)"
  shows "if ret = NOSV_SUCCESS
    then t \<noteq> NULL \<and> submittable tp (rt_store rt' t) \<and> blocking_count (rt_store rt' t) = 1 \<and> event_count (rt_store rt' t) = 1 \<and>
      taskid (rt_store rt' t) = taskid_counter g \<and> taskid_counter g' = taskid_counter g + 1 \<and> task_type (rt_store rt' t) = ty \<and>
      worker (rt_store rt' t) = NULL \<and> (\<forall>x. x \<noteq> t \<longrightarrow> rt_store rt' x = rt_store rt x)
    else t = NULL \<and> rt_store rt' = rt_store rt \<and> g' = g \<and> (NOSV_MAX_METADATA_SIZE < n \<or> ret = NOSV_ERR_OUT_OF_MEMORY)"
proof -
  obtain a rt1 where a: "salloc_addr rt = (a, rt1)" by (cases "salloc_addr rt")
  have s1: "rt_store rt1 = rt_store rt" using a by (auto simp: salloc_addr_def split: list.splits)
  show ?thesis using assms a s1
    by (auto simp: nosv_create_def nosv_create_internal_def Let_def new_task_def submittable_def nosv_defs split: if_splits)
qed

subsection \<open>Submission\<close>

text \<open>All tasks that the scheduler has, submitted or inserted.\<close>

definition held :: "runtime \<Rightarrow> task_id multiset" where
  "held rt = sched_elems (rt_sched rt) + queued (rt_sched rt)"

text \<open>A state in which the scheduler can take a submission of the calling thread.\<close>

definition accepting :: "env \<Rightarrow> runtime \<Rightarrow> bool" where
  "accepting e rt =
     (let s = rt_sched rt
      in topo_ok (e_topo e) (rt_cpus rt) \<and> 0 < e_batch e \<and> sched_inv (e_topo e) (rt_store rt) s \<and>
         governor_inv (sch_governor s) (sch_dtlock s) \<and> mpsc_inv (sch_in_queue s) \<and> [] \<notin># mpsc_elems (sch_in_queue s) \<and>
         may_enter (e_topo e) (queued s) (rt_store rt, s) \<and> has_room (sch_in_queue s) (current_cpu rt) \<and>
         lock_free (sch_dtlock s) \<and> True \<in> set (e_cas e))"

text \<open>The scheduler does not look at the blocking counter.\<close>

lemma submit_task_ok:
  assumes "accepting e rt"
  shows "\<exists>rt'. scheduler_submit_task e t rt = Some rt' \<and> held rt' = add_mset t (held rt) \<and> core_eq (rt_store rt) (rt_store rt') \<and>
    sched_inv (e_topo e) (rt_store rt') (rt_sched rt') \<and> workers rt' = workers rt \<and> current_worker rt' = current_worker rt"
proof -
  obtain clk st s where w: "rt_world rt = (clk, st, s)" by (metis prod_cases3)
  have "\<exists>clk' st' s'. scheduler_submit_internal (e_topo e) (rt_cpus rt) (e_batch e) (current_cpu rt) (e_cas e) (clk, st, s) [t] = Some (clk', st', s') \<and>
    submitted (e_topo e) [t] (st, s) (st', s')"
    using assms w by (intro submit_ok) (simp_all add: accepting_def Let_def)
  then show ?thesis using w by (auto simp: scheduler_submit_task_def scheduler_submit_single_def submitted_def held_def simp del: scheduler_submit_internal.simps)
qed

lemma sched_inv_core:
  assumes "sched_inv tp st s" "core_eq st st'" "\<And>x. deadline (st' x) = deadline (st x)"
  shows "sched_inv tp st' s"
proof -
  have "process_ok tp st' p ps" if "process_ok tp st p ps" for p ps
  proof -
    have "task_type (st' x) = task_type (st x)" for x using assms(2) by (simp add: core_eq_def)
    then show ?thesis using that places_store [OF _ assms(2), of tp ps] assms(3) core_eqD(3) [OF assms(2)]
      by (auto simp: process_ok_def tasks_of_pid_def ps_inv_places)
  qed
  then show ?thesis using assms(1) by (auto simp: sched_inv_def)
qed

lemma accepting_blocking:
  assumes "accepting e rt"
  shows "accepting e (set_task t (\<lambda>k. k \<lparr> blocking_count := b k \<rparr>) rt)"
proof -
  let ?st = "task_upd (rt_store rt) t (\<lambda>k. k \<lparr> blocking_count := b k \<rparr>)"
  have c: "core_eq (rt_store rt) ?st" "deadline (?st x) = deadline (rt_store rt x)"
    "submittable tp (?st x) = submittable tp (rt_store rt x)" "degree (?st x) = degree (rt_store rt x)" "task_type (?st x) = task_type (rt_store rt x)" for x tp
    by (simp_all add: core_eq_def task_upd_def submittable_def)
  have "executions ?st M = executions (rt_store rt) M" for M by (simp add: executions_def c(4))
  then have "may_enter tp M (?st, s) = may_enter tp M (rt_store rt, s)" for tp M s by (simp add: may_enter_def c)
  then show ?thesis using assms sched_inv_core [OF _ c(1,2)] by (simp add: accepting_def Let_def)
qed

lemma has_flag_0 [simp]: "has_flag 0 f = False"
  by (simp add: has_flag_def)

lemma nosv_submit_plain:
  assumes "t \<noteq> NULL"
  shows "nosv_submit_with x e t 0 rt = map_option (\<lambda>rt'. (rt', NOSV_SUCCESS)) (submit_normal e t rt)"
  using assms by (simp add: nosv_submit_with_def submit_check_def count_true_def Let_def nosv_defs map_option_case option.case_eq_if
      split: bind_splits option.splits)

lemma worker_set_task [simp]: "window_closed (set_task t (\<lambda>k. k \<lparr> blocking_count := b k \<rparr>) rt) = window_closed rt"
  by (simp add: window_closed_def task_upd_def)


text \<open>C9. A wake-up is not lost: when a running task is submitted by another thread and pauses afterwards, the pause returns at
  once, without blocking, and the state is as before the submission; the scheduler never sees the task.\<close>

theorem wakeup_before_pause_kept:
  assumes "worker_is_in_task rt" "worker_current_task rt = t" "\<not> task_is_parallel (rt_store rt t)" "submit_window (rt_store rt t) = []"
    "blocking_count (rt_store rt t) = 0"
  shows "\<exists>rt1. nosv_submit cb e t 0 (rt \<lparr> current_worker := w, current_cpu := c \<rparr>) = Some (rt1, NOSV_SUCCESS) \<and>
    nosv_pause e' (rt1 \<lparr> current_worker := current_worker rt, current_cpu := current_cpu rt \<rparr>) = Some (rt, NOSV_SUCCESS)"
proof -
  let ?other = "rt \<lparr> current_worker := w, current_cpu := c \<rparr>"
  let ?rt1 = "set_task t (\<lambda>k. k \<lparr> blocking_count := blocking_count k - 1 \<rparr>) ?other"
  let ?own = "set_task t (\<lambda>k. k \<lparr> blocking_count := blocking_count k - 1 \<rparr>) rt"
  have t: "t \<noteq> NULL" using assms(1,2) by (simp add: worker_is_in_task_def worker_current_task_def)
  have "submit_normal e t ?other = Some ?rt1" using assms(5) by (simp add: submit_normal_def add_blocking_def)
  then have s: "nosv_submit cb e t 0 ?other = Some (?rt1, NOSV_SUCCESS)" by (simp add: nosv_submit_def nosv_submit_plain [OF t])
  have own: "?rt1 \<lparr> current_worker := current_worker rt, current_cpu := current_cpu rt \<rparr> = ?own"
    by (cases rt) (simp add: set_task_def upd_store_def)
  have f: "flush e' ?own = Some ?own" using assms(2,4) by (intro flush_closed) (simp add: task_upd_def)
  have np: "\<not> task_is_parallel (rt_store ?own t)" using assms(3) by (simp add: task_is_parallel_def)
  have id: "set_task t (\<lambda>k. k \<lparr> blocking_count := blocking_count k \<rparr>) rt = rt" by (rule set_task_id) simp
  have "task_pause e' t True ?own = Some rt"
    using assms(2,5) t np f id by (simp add: task_pause_def add_blocking_def)
  then have "nosv_pause e' ?own = Some (rt, NOSV_SUCCESS)" using assms(1,2) f np by (simp add: nosv_pause_def)
  then show ?thesis using s own by (intro exI [of _ ?rt1]) simp
qed

subsection \<open>Events\<close>

text \<open>Calls of \<open>nosv_decrease_event_counter\<close> one after the other.\<close>

fun decrease_all :: "callbacks \<Rightarrow> env \<Rightarrow> task_id \<Rightarrow> nat list \<Rightarrow> runtime \<Rightarrow> runtime option" where
  "decrease_all cb e t [] rt = Some rt"
| "decrease_all cb e t (d # ds) rt = do { (rt', _) \<leftarrow> nosv_decrease_event_counter cb e t d rt; decrease_all cb e t ds rt' }"

lemma no_waiting_flag:
  fixes x :: u32
  assumes "unat x < 2 ^ 31"
  shows "x AND TASK_WAITING_FOR_EVENTS = 0"
proof -
  have "\<not> bit (unat x) 31" using assms by (simp add: bit_iff_odd)
  then have "\<not> bit x 31" by (simp add: bit_unsigned_iff)
  then have "x AND 2 ^ 31 = 0" by (metis and_exp_eq_0_iff_not_bit)
  moreover have "TASK_WAITING_FOR_EVENTS = 2 ^ 31" by (simp add: TASK_WAITING_FOR_EVENTS_def)
  ultimately show ?thesis by (simp only:)
qed

definition set_events :: "task_id \<Rightarrow> nat \<Rightarrow> runtime \<Rightarrow> runtime" where
  "set_events t n = set_task t (\<lambda>k. k \<lparr> event_count := of_nat n \<rparr>)"

lemma set_events_twice [simp]: "set_events t k (set_events t j rt) = set_events t k rt"
  by (simp add: set_events_def)

lemma decrease_step:
  assumes "t \<noteq> NULL" "0 < d" "d \<le> n" "n < 2 ^ 31" "event_count (rt_store rt t) = of_nat n"
  shows "nosv_decrease_event_counter cb e t d rt =
    map_option (\<lambda>rt'. (rt', NOSV_SUCCESS)) (if d = n then task_complete cb e t (set_events t 0 rt) else Some (set_events t (n - d) rt))"
proof -
  let ?rt = "set_task t (\<lambda>k. k \<lparr> event_count := event_count k - of_nat d \<rparr>) rt"
  have "event_count (rt_store rt t) - of_nat d = of_nat (n - d)" using assms(3,5) by (simp add: of_nat_diff)
  then have e: "?rt = set_events t (n - d) rt"
    by (auto simp: set_events_def set_task_def upd_store_def task_upd_def split: prod.splits)
  have u: "unat (of_nat (n - d) :: u32) = n - d" using assms(4) by (simp add: unsigned_of_nat take_bit_nat_eq_self)
  then have f: "(of_nat (n - d) :: u32) AND TASK_WAITING_FOR_EVENTS = 0" using assms(4) by (intro no_waiting_flag) simp
  have z: "(of_nat (n - d) :: u32) = 0 \<longleftrightarrow> d = n" using u assms(3) by (metis diff_is_0_eq diff_self_eq_0 le_antisym unat_eq_zero)
  have s: "rt_store (set_events t (n - d) rt) t = (rt_store rt t) \<lparr> event_count := of_nat (n - d) \<rparr>" by (simp add: set_events_def)
  show ?thesis using assms(1,2) f z e s
    by (simp add: nosv_decrease_event_counter_def Let_def e split: bind_splits)
qed

text \<open>C14. A task completes with its last event: calls that take fewer events off than there are only count, and the call that takes the
  last one completes the task, whatever the calls are.\<close>

theorem last_event_completes:
  assumes "t \<noteq> NULL" "event_count (rt_store rt t) = of_nat n" "n < 2 ^ 31" "0 \<notin> set ds" "sum_list ds \<le> n" "0 < n"
  shows "decrease_all cb e t ds rt =
    (if sum_list ds = n then task_complete cb e t (set_events t 0 rt) else Some (if ds = [] then rt else set_events t (n - sum_list ds) rt))"
  using assms
proof (induction ds arbitrary: rt n)
  case (Cons d ds)
  note step = decrease_step [OF Cons.prems(1) _ _ Cons.prems(3,2), of d cb e]
  have d: "0 < d" "d \<le> n" using Cons.prems(4,5) by auto
  show ?case
  proof (cases "d = n")
    case True
    then have "ds = []" using Cons.prems(4,5) by (cases ds) auto
    then show ?thesis using True step d by (cases "task_complete cb e t (set_events t 0 rt)") simp_all
  next
    case False
    let ?rt = "set_events t (n - d) rt"
    have r: "event_count (rt_store ?rt t) = of_nat (n - d)" by (simp add: set_events_def)
    have "decrease_all cb e t (d # ds) rt = decrease_all cb e t ds ?rt" using step d False by simp
    also have "\<dots> = (if sum_list ds = n - d then task_complete cb e t (set_events t 0 ?rt)
        else Some (if ds = [] then ?rt else set_events t (n - d - sum_list ds) ?rt))"
      using Cons.IH [OF Cons.prems(1) r] Cons.prems(3-5) d False by simp
    finally show ?thesis using d False Cons.prems(5) by auto
  qed
qed simp

subsection \<open>Assertions and error codes\<close>

text \<open>A task that has been cancelled cannot be resubmitted: \<open>nosv_cancel\<close> succeeds for a task that is not parallel as well and
  makes its degree negative, and the insertion of the task, which follows when the task yields, waits or is submitted again after it has
  completed, violates the assertion that the degree is positive.\<close>

theorem cancelled_task_not_resubmittable:
  assumes "nosv_cancel rt = Some (rt', NOSV_SUCCESS)"
  shows "degree (rt_store rt' (worker_current_task rt)) = - degree (rt_store rt (worker_current_task rt)) \<and>
    scheduler_insert_ready_task tp (clk, rt_store rt', s) (worker_current_task rt) = None \<and>
    nosv_cancel rt' = Some (rt', NOSV_ERR_INVALID_OPERATION)"
  using assms
  by (auto simp: nosv_cancel_def Let_def task_get_degree_def scheduler_insert_ready_task_def assert_then_def nosv_defs split: if_splits)

text \<open>A task that asked to be suspended for a time and is woken with NOSV_SUBMIT_DEADLINE_WAKE before it suspends runs into an
  assertion: the suspension expects the deadline to be set, although its comment says that the task is resubmitted in any case.\<close>

theorem early_wake_breaks_timed_suspend:
  assumes "deadline_state (rt_store rt t) = NOSV_DEADLINE_NONE" "flag_suspend_mode (rt_store rt t) = SUSPEND_TIMEOUT"
  shows "task_suspend e t (submit_deadline_wake t rt) = None"
proof -
  have "rt_store r' = rt_store r" if "read_clock r = (now, r')" for r r' now using that by (auto simp: read_clock_def split: prod.splits)
  then show ?thesis using assms
    by (fastforce simp: task_suspend_def submit_deadline_wake_def set_task_deadline_def Let_def split: prod.splits bind_splits)
qed

text \<open>Outside a task \<open>nosv_get_execution_id\<close> returns its negative error code as an unsigned number, which a caller cannot tell
  from an execution number.\<close>

theorem execution_id_error_is_positive: "\<not> worker_is_in_task rt \<Longrightarrow> nosv_get_execution_id rt = 4294967289"
  by (simp add: nosv_get_execution_id_def nosv_defs)

text \<open>An attachment that fails for lack of memory leaves the nesting count at one: the next call of the thread reports success although
  the thread has no worker and no task.\<close>

theorem failed_attach_pretends_success:
  assumes "current_worker rt = NULL" "salloc_addrs rt = []"
  shows "\<exists>s. nosv_attach e True aff 0 (g, rt) = Some (s, 1, NULL, NOSV_ERR_OUT_OF_MEMORY) \<and>
    nosv_attach e' True aff 1 s = Some (s, 2, NULL, NOSV_SUCCESS) \<and> \<not> worker_is_in_task (snd s)"
  using assms by (simp add: nosv_attach_def nosv_type_init_def salloc_addr_def has_flag_def NOSV_TYPE_INIT_EXTERNAL_def worker_is_in_task_def)

subsection \<open>Witnesses\<close>

text \<open>The worker 1 runs the task 4 on CPU 0; the scheduler is the one of theory \<open>Scheduler_Correct\<close>.\<close>

definition example_worker :: nosv_worker where
  "example_worker = \<lparr> w_cpu = Some 0, w_new_cpu = None, w_handle = \<lparr> h_task = 4, h_exec = 1 \<rparr>, immediate_successor = NULL,
     w_signaled = False, w_waiting = False, w_pid = 0, in_task_body = True \<rparr>"

definition example_runtime :: runtime where
  "example_runtime = \<lparr> rt_world = ((id, 0), example_store [], example_scheduler), rt_cpus = example_cpus, workers = (\<lambda>_. example_worker),
     managers = (\<lambda>_. None), per_pid_structures = (\<lambda>_. False), current_worker = 1, current_cpu = 0, logic_pid = 0, shutdown_signal = False, salloc_addrs = [9] \<rparr>"

definition example_env :: env where
  "example_env = \<lparr> e_topo = example_topology, e_batch = 1, e_immediate = False, e_cas = [True], e_lock = LockAcquired, e_rounds = [], e_blocked = id \<rparr>"

definition example_callbacks :: callbacks where
  "example_callbacks = \<lparr> cb_run = (\<lambda>_ rt. rt), cb_end = (\<lambda>_ rt. rt), cb_completed = (\<lambda>_ rt. rt) \<rparr>"

definition example_globals :: task_globals where
  "example_globals = \<lparr> typeid_counter = 1, taskid_counter = 1, registered_types = [],
     default_affinity = \<lparr> aff_level = NOSV_AFFINITY_LEVEL_NONE, aff_type = NOSV_AFFINITY_TYPE_PREFERRED, aff_index = 0 \<rparr> \<rparr>"

lemma example_accepting: "accepting example_env example_runtime"
proof -
  have r: "has_room example_queue 0" by (simp add: has_room_def example_queue_def mpsc_index_def)
  have l: "lock_free example_lock" by code_simp
  have q: "sch_in_queue example_scheduler = example_queue" "sch_dtlock example_scheduler = example_lock"
    "governor_inv (sch_governor example_scheduler) (sch_dtlock example_scheduler)"
    using example_inv by (simp_all add: example_scheduler_def)
  show ?thesis unfolding accepting_def Let_def
    using example_topology_ok example_scheduler_inv example_queue_ok example_may_enter r l q by (simp add: example_env_def example_runtime_def)
qed

lemma example_task: "worker_current_task example_runtime = 4" "worker_is_in_task example_runtime" "window_closed example_runtime"
  by (simp_all add: worker_current_task_def worker_is_in_task_def window_closed_def example_runtime_def example_worker_def example_store_def)

theorem nosv_create_well_formed_witness:
  "\<exists>g rt. nosv_create True (Some (task_type (example_store [] 0))) 0 0 (example_globals, example_runtime) = ((g, rt), 9, 0) \<and>
     submittable example_topology (rt_store rt 9) \<and> blocking_count (rt_store rt 9) = 1"
proof -
  have a: "affinity_ok example_topology (default_affinity example_globals)" by (simp add: affinity_ok_def example_globals_def)
  obtain g rt where c: "nosv_create True (Some (task_type (example_store [] 0))) 0 0 (example_globals, example_runtime) = ((g, rt), 9, 0)"
    by (simp add: nosv_create_def nosv_create_internal_def salloc_addr_def example_runtime_def nosv_defs)
  from nosv_create_well_formed [OF this a] show ?thesis using c by (auto simp: nosv_defs)
qed


theorem wakeup_before_pause_kept_witness:
  "\<exists>rt1. nosv_submit example_callbacks example_env 4 0 (example_runtime \<lparr> current_worker := 2, current_cpu := 1 \<rparr>) = Some (rt1, NOSV_SUCCESS) \<and>
    nosv_pause example_env (rt1 \<lparr> current_worker := 1, current_cpu := 0 \<rparr>) = Some (example_runtime, NOSV_SUCCESS)"
proof -
  have s: "rt_store example_runtime = example_store []" "current_worker example_runtime = 1" "current_cpu example_runtime = 0"
    by (simp_all add: example_runtime_def)
  have h: "\<not> task_is_parallel (rt_store example_runtime 4)" "submit_window (rt_store example_runtime 4) = []" "blocking_count (rt_store example_runtime 4) = 0"
    unfolding s by (simp_all add: example_store_def task_is_parallel_def)
  show ?thesis using wakeup_before_pause_kept [OF example_task(2,1) h, of example_callbacks example_env 1 2 example_env] s by simp
qed

theorem last_event_completes_witness:
  "decrease_all example_callbacks example_env 4 [1] (set_task 4 (\<lambda>k. k \<lparr> event_count := 3 \<rparr>) example_runtime) =
     Some (set_events 4 2 (set_task 4 (\<lambda>k. k \<lparr> event_count := 3 \<rparr>) example_runtime))"
  using last_event_completes [of 4 "set_task 4 (\<lambda>k. k \<lparr> event_count := 3 \<rparr>) example_runtime" 3 "[1]" example_callbacks example_env]
  by (simp del: decrease_all.simps)

theorem cancelled_task_not_resubmittable_witness:
  "\<exists>rt'. nosv_cancel example_runtime = Some (rt', NOSV_SUCCESS) \<and>
     scheduler_insert_ready_task example_topology ((id, 0), rt_store rt', example_scheduler) 4 = None"
proof -
  have "degree (rt_store example_runtime 4) = 1" by (simp add: example_runtime_def example_store_def)
  then obtain rt' where c: "nosv_cancel example_runtime = Some (rt', NOSV_SUCCESS)"
    using example_task by (simp add: nosv_cancel_def task_get_degree_def)
  from cancelled_task_not_resubmittable [OF this] show ?thesis using c example_task(1) by auto
qed

theorem early_wake_breaks_timed_suspend_witness:
  "task_suspend example_env 4 (submit_deadline_wake 4 (set_task 4 (\<lambda>k. k \<lparr> flag_suspend_mode := SUSPEND_TIMEOUT \<rparr>) example_runtime)) = None"
  by (rule early_wake_breaks_timed_suspend) (simp_all add: example_runtime_def example_store_def)

theorem execution_id_error_is_positive_witness: "nosv_get_execution_id (example_runtime \<lparr> current_worker := NULL \<rparr>) = 4294967289"
  by (rule execution_id_error_is_positive) (simp add: worker_is_in_task_def)

theorem failed_attach_pretends_success_witness:
  "\<exists>s. nosv_attach example_env True None 0 (example_globals, example_runtime \<lparr> current_worker := NULL, salloc_addrs := [] \<rparr>) =
       Some (s, 1, NULL, NOSV_ERR_OUT_OF_MEMORY) \<and> nosv_attach example_env True None 1 s = Some (s, 2, NULL, NOSV_SUCCESS)"
  using failed_attach_pretends_success [of "example_runtime \<lparr> current_worker := NULL, salloc_addrs := [] \<rparr>" example_env None example_globals example_env]
  by auto

end
