(* ===== verification/Sync_Objects.thy ===== *)
theory Sync_Objects
  imports Task_Protocol
begin

section \<open>Mutexes, barriers and condition variables (support/)\<close>

text \<open>
  The synchronisation objects that block tasks instead of threads. Every object has a spinlock; what a
  function does with the spinlock held is one step, a definition of its own (\<open>mutex_enter\<close>, \<open>mutex_leave\<close>,
  \<open>barrier_arrive\<close>, \<open>cond_enqueue\<close>, \<open>cond_take\<close>), and the function calls it. The object in the result of a function is its state when the
  spinlock is released; what other tasks do to it while the caller is blocked is in the step relation below. A null pointer
  to an object is \<^term>\<open>None\<close> in the argument.

  For the mutex the steps of all tasks form a transition system: at most one task is inside, the others wait in the order of their
  arrival. A barrier lets its tasks go all together and can be used again at once.
\<close>

subsection \<open>Mutex\<close>

record nosv_mutex =
  mtx_list :: "task_id list"
  mtx_taken :: bool

definition nosv_mutex_init :: "u64 \<Rightarrow> bool \<Rightarrow> nosv_mutex option \<times> int" where
  "nosv_mutex_init flags malloc_ok =
     (if flags \<noteq> 0 then (None, NOSV_ERR_INVALID_PARAMETER)
      else if \<not> malloc_ok then (None, NOSV_ERR_OUT_OF_MEMORY)
      else (Some \<lparr> mtx_list = [], mtx_taken = False \<rparr>, NOSV_SUCCESS))"

definition nosv_mutex_destroy :: "nosv_mutex option \<Rightarrow> int" where
  "nosv_mutex_destroy m = (case m of None \<Rightarrow> NOSV_ERR_INVALID_PARAMETER | Some _ \<Rightarrow> NOSV_SUCCESS)"

definition mutex_enter :: "task_id \<Rightarrow> nosv_mutex \<Rightarrow> nosv_mutex \<times> bool" where
  "mutex_enter task m =
     (if mtx_taken m then (m \<lparr> mtx_list := mtx_list m @ [task] \<rparr>, True) else (m \<lparr> mtx_taken := True \<rparr>, False))"

definition mutex_leave :: "nosv_mutex \<Rightarrow> nosv_mutex \<times> task_id option" where
  "mutex_leave m =
     (case mtx_list m of [] \<Rightarrow> (m \<lparr> mtx_taken := False \<rparr>, None) | t # ts \<Rightarrow> (m \<lparr> mtx_list := ts \<rparr>, Some t))"

definition nosv_mutex_lock :: "env \<Rightarrow> nosv_mutex option \<Rightarrow> runtime \<Rightarrow> (nosv_mutex option \<times> runtime \<times> int) option" where
  "nosv_mutex_lock e mutex rt =
     (let cur = worker_current_task rt
      in case mutex of
           None \<Rightarrow> Some (None, rt, NOSV_ERR_INVALID_PARAMETER)
         | Some m \<Rightarrow>
             if cur = NULL then Some (mutex, rt, NOSV_ERR_OUTSIDE_TASK)
             else if task_is_parallel (rt_store rt cur) then Some (mutex, rt, NOSV_ERR_INVALID_OPERATION)
             else (let (m', wait) = mutex_enter cur m
                   in do { rt' \<leftarrow> (if wait then task_pause e cur False rt else Some rt); Some (Some m', rt', NOSV_SUCCESS) }))"

definition nosv_mutex_trylock :: "nosv_mutex option \<Rightarrow> runtime \<Rightarrow> nosv_mutex option \<times> int" where
  "nosv_mutex_trylock mutex rt =
     (case mutex of
        None \<Rightarrow> (None, NOSV_ERR_INVALID_PARAMETER)
      | Some m \<Rightarrow>
          if worker_current_task rt = NULL then (mutex, NOSV_ERR_OUTSIDE_TASK)
          else if mtx_taken m then (mutex, NOSV_ERR_BUSY)
          else (Some (m \<lparr> mtx_taken := True \<rparr>), NOSV_SUCCESS))"

text \<open>The next waiting task runs on the current CPU if it may, otherwise it is submitted.\<close>

definition nosv_mutex_unlock_internal :: "env \<Rightarrow> nosv_mutex option \<Rightarrow> bool \<Rightarrow> runtime \<Rightarrow> (nosv_mutex option \<times> runtime \<times> int) option" where
  "nosv_mutex_unlock_internal e mutex yield_allowed rt =
     (case mutex of
        None \<Rightarrow> Some (None, rt, NOSV_ERR_INVALID_PARAMETER)
      | Some m \<Rightarrow>
          if worker_current_task rt = NULL then Some (mutex, rt, NOSV_ERR_OUTSIDE_TASK)
          else (case mutex_leave m of
                  (m', None) \<Rightarrow> Some (Some m', rt, NOSV_SUCCESS)
                | (m', Some task) \<Rightarrow>
                    do { affine \<leftarrow> (if yield_allowed then task_affine (e_topo e) (rt_cpus rt) (rt_store rt) task (nat (current_cpu rt)) else Some False);
                         rt' \<leftarrow> (if affine then worker_yield_to e \<lparr> h_task = task, h_exec = 1 \<rparr> rt else scheduler_submit_task e task rt);
                         Some (Some m', rt', NOSV_SUCCESS) }))"

definition nosv_mutex_unlock :: "env \<Rightarrow> nosv_mutex option \<Rightarrow> runtime \<Rightarrow> (nosv_mutex option \<times> runtime \<times> int) option" where
  "nosv_mutex_unlock e mutex rt = nosv_mutex_unlock_internal e mutex True rt"

subsection \<open>Barrier\<close>

record nosv_barrier =
  waiting_tasks :: "task_id list"
  b_count :: u32
  towait :: u32

definition nosv_barrier_init :: "u64 \<Rightarrow> u32 \<Rightarrow> bool \<Rightarrow> nosv_barrier option \<times> int" where
  "nosv_barrier_init flags cnt malloc_ok =
     (if flags \<noteq> 0 \<or> cnt = 0 then (None, NOSV_ERR_INVALID_PARAMETER)
      else if \<not> malloc_ok then (None, NOSV_ERR_OUT_OF_MEMORY)
      else (Some \<lparr> waiting_tasks = task_group_init, b_count = cnt, towait = cnt \<rparr>, NOSV_SUCCESS))"

definition nosv_barrier_destroy :: "nosv_barrier option \<Rightarrow> int" where
  "nosv_barrier_destroy b = (case b of None \<Rightarrow> NOSV_ERR_INVALID_PARAMETER | Some _ \<Rightarrow> NOSV_SUCCESS)"

text \<open>The last task gets the group of the others.\<close>

definition barrier_arrive :: "task_id \<Rightarrow> nosv_barrier \<Rightarrow> nosv_barrier \<times> task_id list option" where
  "barrier_arrive task b =
     (let b' = b \<lparr> towait := towait b - 1 \<rparr>
      in if towait b' \<noteq> 0 then (b' \<lparr> waiting_tasks := task_group_add (waiting_tasks b') task \<rparr>, None)
         else (b' \<lparr> waiting_tasks := task_group_init, towait := b_count b' \<rparr>, Some (waiting_tasks b')))"

definition scheduler_submit_tasks :: "env \<Rightarrow> task_id list \<Rightarrow> runtime \<Rightarrow> runtime option" where
  "scheduler_submit_tasks e grp rt =
     map_option (\<lambda>w. rt \<lparr> rt_world := w \<rparr>)
       (scheduler_submit_group (e_topo e) (rt_cpus rt) (e_batch e) (current_cpu rt) (e_cas e) (rt_world rt) grp)"

definition nosv_barrier_wait :: "env \<Rightarrow> nosv_barrier option \<Rightarrow> runtime \<Rightarrow> (nosv_barrier option \<times> runtime \<times> int) option" where
  "nosv_barrier_wait e barrier rt =
     (let cur = worker_current_task rt
      in case barrier of
           None \<Rightarrow> Some (None, rt, NOSV_ERR_INVALID_PARAMETER)
         | Some b \<Rightarrow>
             if cur = NULL then Some (barrier, rt, NOSV_ERR_OUTSIDE_TASK)
             else (case barrier_arrive cur b of
                     (b', None) \<Rightarrow> do { rt' \<leftarrow> task_pause e cur False rt; Some (Some b', rt', NOSV_SUCCESS) }
                   | (b', Some grp) \<Rightarrow>
                       do { rt' \<leftarrow> (if task_group_empty grp then Some rt else scheduler_submit_tasks e grp rt);
                            Some (Some b', rt', NOSV_SUCCESS) }))"

subsection \<open>Condition variable\<close>

record nosv_cond =
  cond_list :: "task_id list"
  cond_timed :: "task_id list"

definition nosv_cond_init :: "u64 \<Rightarrow> bool \<Rightarrow> nosv_cond option \<times> int" where
  "nosv_cond_init flags malloc_ok =
     (if flags \<noteq> 0 then (None, NOSV_ERR_INVALID_PARAMETER)
      else if \<not> malloc_ok then (None, NOSV_ERR_OUT_OF_MEMORY)
      else (Some \<lparr> cond_list = [], cond_timed = [] \<rparr>, NOSV_SUCCESS))"

definition nosv_cond_destroy :: "nosv_cond option \<Rightarrow> int" where
  "nosv_cond_destroy c = (case c of None \<Rightarrow> NOSV_ERR_INVALID_PARAMETER | Some _ \<Rightarrow> NOSV_SUCCESS)"

text \<open>A signal takes a task without a time limit first; the flag of its submission depends on the list it was in.\<close>

definition cond_take :: "nosv_cond \<Rightarrow> nosv_cond \<times> (task_id \<times> u64) option" where
  "cond_take c =
     (case cond_list c of
        t # ts \<Rightarrow> (c \<lparr> cond_list := ts \<rparr>, Some (t, NOSV_SUBMIT_UNLOCKED))
      | [] \<Rightarrow> (case cond_timed c of t # ts \<Rightarrow> (c \<lparr> cond_timed := ts \<rparr>, Some (t, NOSV_SUBMIT_DEADLINE_WAKE)) | [] \<Rightarrow> (c, None)))"

definition nosv_cond_signal :: "callbacks \<Rightarrow> env \<Rightarrow> nosv_cond option \<Rightarrow> runtime \<Rightarrow> (nosv_cond option \<times> runtime \<times> int) option" where
  "nosv_cond_signal cb e cond rt =
     (case cond of
        None \<Rightarrow> Some (None, rt, NOSV_ERR_INVALID_PARAMETER)
      | Some c \<Rightarrow>
          (case cond_take c of
             (c', None) \<Rightarrow> Some (Some c', rt, NOSV_SUCCESS)
           | (c', Some (task, flags)) \<Rightarrow>
               do { (rt', err) \<leftarrow> nosv_submit cb e task flags rt; Some (Some c', rt', err) }))"

fun list_submit_cond_tasks :: "callbacks \<Rightarrow> env \<Rightarrow> u64 \<Rightarrow> task_id list \<Rightarrow> runtime \<Rightarrow> runtime option" where
  "list_submit_cond_tasks cb e flags [] rt = Some rt"
| "list_submit_cond_tasks cb e flags (t # ts) rt =
     do { (rt', _) \<leftarrow> nosv_submit cb e t flags rt; list_submit_cond_tasks cb e flags ts rt' }"

definition nosv_cond_broadcast :: "callbacks \<Rightarrow> env \<Rightarrow> nosv_cond option \<Rightarrow> runtime \<Rightarrow> (nosv_cond option \<times> runtime \<times> int) option" where
  "nosv_cond_broadcast cb e cond rt =
     (case cond of
        None \<Rightarrow> Some (None, rt, NOSV_ERR_INVALID_PARAMETER)
      | Some c \<Rightarrow>
          do { rt1 \<leftarrow> list_submit_cond_tasks cb e NOSV_SUBMIT_DEADLINE_WAKE (cond_timed c) rt;
               rt2 \<leftarrow> list_submit_cond_tasks cb e NOSV_SUBMIT_UNLOCKED (cond_list c) rt1;
               Some (Some (c \<lparr> cond_list := [], cond_timed := [] \<rparr>), rt2, NOSV_SUCCESS) })"

definition cond_enqueue :: "task_id \<Rightarrow> bool \<Rightarrow> nosv_cond \<Rightarrow> nosv_cond" where
  "cond_enqueue task timed c =
     (if timed then c \<lparr> cond_timed := cond_timed c @ [task] \<rparr> else c \<lparr> cond_list := cond_list c @ [task] \<rparr>)"

text \<open>\<open>nosv_cond_timedwait\<close>. \<open>abstime\<close> is the absolute time in nanoseconds. \<open>others\<close> is what the other tasks do to the
  condition variable and the mutex while the caller is blocked.\<close>

definition nosv_cond_timedwait :: "env \<Rightarrow> (nosv_cond \<times> nosv_mutex option \<Rightarrow> nosv_cond \<times> nosv_mutex option) \<Rightarrow> nosv_cond option \<Rightarrow> nosv_mutex option \<Rightarrow>
    nat option \<Rightarrow> runtime \<Rightarrow> (nosv_cond option \<times> nosv_mutex option \<times> runtime \<times> int) option" where
  "nosv_cond_timedwait e others cond mutex abstime rt =
     (let cur = worker_current_task rt
      in case cond of
           None \<Rightarrow> Some (None, mutex, rt, NOSV_ERR_INVALID_PARAMETER)
         | Some c \<Rightarrow>
             if cur = NULL then Some (cond, mutex, rt, NOSV_ERR_OUTSIDE_TASK)
             else (let (now_ns, rt0) = (case abstime of None \<Rightarrow> (0, rt) | Some _ \<Rightarrow> read_clock rt)
                   in if (case abstime of None \<Rightarrow> False | Some abstime_ns \<Rightarrow> now_ns > abstime_ns)
                      then Some (cond, mutex, rt0, NOSV_SUCCESS)
                      else do { let c1 = cond_enqueue cur (abstime \<noteq> None) c;
                                (mutex1, rt1, err) \<leftarrow> nosv_mutex_unlock_internal e mutex False rt0;
                                assert_then (err = NOSV_SUCCESS)
                                  (case abstime of
                                     None \<Rightarrow>
                                       do { (rt2, err) \<leftarrow> nosv_pause e rt1;
                                            if err \<noteq> NOSV_SUCCESS then Some (Some c1, mutex1, rt2, err)
                                            else do { let (c2, mutex2) = others (c1, mutex1);
                                                      (mutex3, rt3, err) \<leftarrow> nosv_mutex_lock e mutex2 rt2;
                                                      Some (Some c2, mutex3, rt3, err) } }
                                   | Some abstime_ns \<Rightarrow>
                                       assert_then (abstime_ns - now_ns \<noteq> 0)
                                         (do { (rt2, _, err) \<leftarrow> nosv_waitfor e (abstime_ns - now_ns) rt1;
                                               assert_then (err = NOSV_SUCCESS)
                                                 (do { let (c2, mutex2) = others (c1, mutex1);
                                                       let c3 = c2 \<lparr> cond_timed := remove1 cur (cond_timed c2) \<rparr>;
                                                       (mutex3, rt3, err) \<leftarrow> nosv_mutex_lock e mutex2 rt2;
                                                       Some (Some c3, mutex3, rt3, err) }) })) }))"

definition nosv_cond_wait :: "env \<Rightarrow> (nosv_cond \<times> nosv_mutex option \<Rightarrow> nosv_cond \<times> nosv_mutex option) \<Rightarrow> nosv_cond option \<Rightarrow> nosv_mutex option \<Rightarrow>
    runtime \<Rightarrow> (nosv_cond option \<times> nosv_mutex option \<times> runtime \<times> int) option" where
  "nosv_cond_wait e others cond mutex rt = nosv_cond_timedwait e others cond mutex None rt"

subsection \<open>Mutual exclusion\<close>

text \<open>The tasks that are inside (they have got the mutex and not yet released it) and the tasks that wait, with the log of arrivals of waiting
  tasks and of the tasks the mutex was handed to.\<close>

record mutex_system =
  ms_mutex :: nosv_mutex
  ms_inside :: "task_id set"
  ms_waiting :: "task_id set"
  ms_arrived :: "task_id list"
  ms_granted :: "task_id list"

definition mutex_start :: mutex_system where
  "mutex_start = \<lparr> ms_mutex = \<lparr> mtx_list = [], mtx_taken = False \<rparr>, ms_inside = {}, ms_waiting = {}, ms_arrived = [], ms_granted = [] \<rparr>"

inductive mutex_step :: "mutex_system \<Rightarrow> mutex_system \<Rightarrow> bool" where
  lock_free: "t \<notin> ms_inside s \<Longrightarrow> t \<notin> ms_waiting s \<Longrightarrow> mutex_enter t (ms_mutex s) = (m, False) \<Longrightarrow>
    mutex_step s (s \<lparr> ms_mutex := m, ms_inside := insert t (ms_inside s) \<rparr>)"
| lock_wait: "t \<notin> ms_inside s \<Longrightarrow> t \<notin> ms_waiting s \<Longrightarrow> mutex_enter t (ms_mutex s) = (m, True) \<Longrightarrow>
    mutex_step s (s \<lparr> ms_mutex := m, ms_waiting := insert t (ms_waiting s), ms_arrived := ms_arrived s @ [t] \<rparr>)"
| try_lock: "t \<notin> ms_inside s \<Longrightarrow> t \<notin> ms_waiting s \<Longrightarrow> worker_current_task rt = t \<Longrightarrow> t \<noteq> NULL \<Longrightarrow>
    nosv_mutex_trylock (Some (ms_mutex s)) rt = (Some m, NOSV_SUCCESS) \<Longrightarrow>
    mutex_step s (s \<lparr> ms_mutex := m, ms_inside := insert t (ms_inside s) \<rparr>)"
| unlock: "t \<in> ms_inside s \<Longrightarrow> mutex_leave (ms_mutex s) = (m, None) \<Longrightarrow>
    mutex_step s (s \<lparr> ms_mutex := m, ms_inside := ms_inside s - {t} \<rparr>)"
| hand_over: "t \<in> ms_inside s \<Longrightarrow> mutex_leave (ms_mutex s) = (m, Some u) \<Longrightarrow>
    mutex_step s (s \<lparr> ms_mutex := m, ms_inside := insert u (ms_inside s - {t}), ms_waiting := ms_waiting s - {u}, ms_granted := ms_granted s @ [u] \<rparr>)"

inductive_cases mutex_stepE: "mutex_step s s'"

definition mutex_inv :: "mutex_system \<Rightarrow> bool" where
  "mutex_inv s =
     (set (mtx_list (ms_mutex s)) = ms_waiting s \<and> distinct (mtx_list (ms_mutex s)) \<and> ms_inside s \<inter> ms_waiting s = {} \<and>
      (if mtx_taken (ms_mutex s) then \<exists>t. ms_inside s = {t} else ms_inside s = {} \<and> mtx_list (ms_mutex s) = []) \<and>
      ms_granted s @ mtx_list (ms_mutex s) = ms_arrived s)"

lemma mutex_step_inv: "mutex_step s s' \<Longrightarrow> mutex_inv s \<Longrightarrow> mutex_inv s'"
proof (induction rule: mutex_step.induct)
  case (hand_over t s m u)
  then obtain ts where l: "mtx_list (ms_mutex s) = u # ts" "m = (ms_mutex s) \<lparr> mtx_list := ts \<rparr>"
    by (auto simp: mutex_leave_def split: list.splits)
  then have "mtx_taken (ms_mutex s)" "ms_inside s = {t}" using hand_over by (auto simp: mutex_inv_def split: if_splits)
  then show ?case using hand_over l by (auto simp: mutex_inv_def)
qed (auto simp: mutex_inv_def mutex_enter_def mutex_leave_def nosv_mutex_trylock_def nosv_defs split: if_splits list.splits)

lemma mutex_reachable_inv: "mutex_step\<^sup>*\<^sup>* mutex_start s \<Longrightarrow> mutex_inv s"
proof (induction rule: rtranclp_induct)
  case base
  then show ?case by (simp add: mutex_inv_def mutex_start_def)
qed (rule mutex_step_inv)

text \<open>C15. In every state that the tasks can reach by locking, trying to lock and unlocking a mutex, at most one task is inside; the mutex is marked
  taken exactly when one is; the waiting tasks are those of the list, each once, none of them inside, and they wait only while somebody
  is inside; and the mutex is handed to the waiting tasks in the order in which they arrived.\<close>

theorem mutex_mutual_exclusion:
  assumes "mutex_step\<^sup>*\<^sup>* mutex_start s"
  shows "(\<forall>t u. t \<in> ms_inside s \<longrightarrow> u \<in> ms_inside s \<longrightarrow> t = u) \<and> (mtx_taken (ms_mutex s) \<longleftrightarrow> ms_inside s \<noteq> {}) \<and>
    distinct (mtx_list (ms_mutex s)) \<and> set (mtx_list (ms_mutex s)) = ms_waiting s \<and> ms_inside s \<inter> ms_waiting s = {} \<and>
    (ms_waiting s \<noteq> {} \<longrightarrow> ms_inside s \<noteq> {}) \<and> (\<exists>rest. ms_arrived s = ms_granted s @ rest)"
proof -
  have i: "mutex_inv s" by (rule mutex_reachable_inv [OF assms])
  then have "\<exists>rest. ms_arrived s = ms_granted s @ rest" unfolding mutex_inv_def by metis
  with i show ?thesis by (auto simp: mutex_inv_def split: if_splits)
qed

theorem mutex_mutual_exclusion_witness:
  "\<exists>s. mutex_step\<^sup>*\<^sup>* mutex_start s \<and> ms_inside s = {1} \<and> ms_waiting s = {2} \<and> distinct (mtx_list (ms_mutex s))"
proof -
  let ?s1 = "mutex_start \<lparr> ms_mutex := \<lparr> mtx_list = [], mtx_taken = True \<rparr>, ms_inside := {1} \<rparr>"
  let ?s2 = "?s1 \<lparr> ms_mutex := \<lparr> mtx_list = [2], mtx_taken = True \<rparr>, ms_waiting := {2}, ms_arrived := [2] \<rparr>"
  have "mutex_step mutex_start ?s1" using mutex_step.lock_free [of 1 mutex_start "\<lparr> mtx_list = [], mtx_taken = True \<rparr>"]
    by (simp add: mutex_start_def mutex_enter_def)
  moreover have "mutex_step ?s1 ?s2" using mutex_step.lock_wait [of 2 ?s1 "\<lparr> mtx_list = [2], mtx_taken = True \<rparr>"]
    by (simp add: mutex_start_def mutex_enter_def)
  ultimately have r: "mutex_step\<^sup>*\<^sup>* mutex_start ?s2" by (meson rtranclp.rtrancl_into_rtrancl rtranclp.rtrancl_refl)
  from mutex_mutual_exclusion [OF this] show ?thesis using r by (intro exI [of _ ?s2]) (simp add: mutex_start_def)
qed

subsection \<open>Barriers\<close>

text \<open>The tasks arrive one after the other; the result has what every arrival yields.\<close>

fun barrier_run :: "task_id list \<Rightarrow> nosv_barrier \<Rightarrow> nosv_barrier \<times> task_id list option list" where
  "barrier_run [] b = (b, [])"
| "barrier_run (t # ts) b = (let (b1, r) = barrier_arrive t b; (b2, rs) = barrier_run ts b1 in (b2, r # rs))"

lemma barrier_run_waits:
  assumes "unat (towait b) = Suc (length ts)"
  shows "barrier_run ts b = (b \<lparr> waiting_tasks := waiting_tasks b @ ts, towait := 1 \<rparr>, replicate (length ts) None)"
  using assms
proof (induction ts arbitrary: b)
  case Nil
  then have "towait b = 1" by (metis One_nat_def list.size(3) unat_1 unsigned_word_eqI)
  then show ?case by (cases b) simp
next
  case (Cons t ts)
  have "towait b \<noteq> 0" using Cons.prems by (metis nat.distinct(1) unat_0)
  then have u: "unat (towait b - 1) = Suc (length ts)" using Cons.prems unat_minus_one [of "towait b"] by simp
  then have "towait b - 1 \<noteq> 0" by (metis nat.distinct(1) unat_0)
  then show ?case using Cons.IH [of "b \<lparr> towait := towait b - 1, waiting_tasks := waiting_tasks b @ [t] \<rparr>"] u
    by (simp add: barrier_arrive_def task_group_add_def Let_def)
qed

text \<open>C16. A barrier for \<open>n\<close> tasks that nobody waits at holds the first \<open>n - 1\<close> tasks that arrive; the last one releases exactly those, in their order, and
  leaves the barrier as it was, ready for the next round.\<close>

theorem barrier_releases_all:
  assumes "waiting_tasks b = []" "towait b = b_count b" "unat (b_count b) = Suc (length ts)"
  shows "barrier_run (ts @ [t]) b = (b, replicate (length ts) None @ [Some ts])"
proof -
  have "barrier_run (xs @ [t]) b = (case barrier_run xs b of (b1, rs) \<Rightarrow> case barrier_arrive t b1 of (b2, r) \<Rightarrow> (b2, rs @ [r]))" for xs b
    by (induction xs arbitrary: b) (auto split: prod.splits)
  moreover have "barrier_run ts b = (b \<lparr> waiting_tasks := ts, towait := 1 \<rparr>, replicate (length ts) None)"
    using barrier_run_waits [of b ts] assms by simp
  moreover have "b \<lparr> waiting_tasks := [], towait := b_count b \<rparr> = b" using assms(1,2) by (cases b) simp
  ultimately show ?thesis by (simp add: barrier_arrive_def task_group_init_def)
qed

theorem barrier_releases_all_witness:
  "\<exists>b. nosv_barrier_init 0 3 True = (Some b, NOSV_SUCCESS) \<and> barrier_run [7, 8, 9] b = (b, [None, None, Some [7, 8]])"
proof -
  let ?b = "\<lparr> waiting_tasks = [], b_count = 3, towait = 3 \<rparr> :: nosv_barrier"
  have "nosv_barrier_init 0 3 True = (Some ?b, NOSV_SUCCESS)" by (simp add: nosv_barrier_init_def task_group_init_def)
  moreover have "barrier_run ([7, 8] @ [9]) ?b = (?b, replicate (length [7, 8 :: nat]) None @ [Some [7, 8]])"
    by (rule barrier_releases_all) simp_all
  ultimately show ?thesis by (auto simp: numeral_eq_Suc)
qed

subsection \<open>Condition variables\<close>

lemma deadline_wake_submit:
  assumes "t \<noteq> NULL" "\<not> task_is_parallel (rt_store rt t)"
  shows "nosv_submit cb e t NOSV_SUBMIT_DEADLINE_WAKE rt = Some (submit_deadline_wake t rt, NOSV_SUCCESS)"
  using assms
  by (simp add: nosv_submit_def nosv_submit_with_def submit_check_def has_flag_def count_true_def NOSV_SUBMIT_DEADLINE_WAKE_def
      NOSV_SUBMIT_BLOCKING_def NOSV_SUBMIT_IMMEDIATE_def NOSV_SUBMIT_INLINE_def nosv_defs)

lemma deadline_wake_fields:
  "rt_store (submit_deadline_wake t rt) = (rt_store rt)(t := (rt_store rt t) \<lparr> deadline_state := NOSV_DEADLINE_READY \<rparr>)"
  "deadline_purge (rt_sched (submit_deadline_wake t rt)) =
     deadline_purge (rt_sched rt) + (if deadline_state (rt_store rt t) = NOSV_DEADLINE_WAITING then 1 else 0)"
  by (auto simp: submit_deadline_wake_def Let_def set_task_def upd_store_def task_upd_def scheduler_request_deadline_purge_def split: prod.splits)

lemma wake_timed:
  assumes "distinct ts" "NULL \<notin> set ts" "\<forall>t \<in> set ts. \<not> task_is_parallel (rt_store rt t)"
  shows "\<exists>rt'. list_submit_cond_tasks cb e NOSV_SUBMIT_DEADLINE_WAKE ts rt = Some rt' \<and>
    (\<forall>x. rt_store rt' x = (if x \<in> set ts then (rt_store rt x) \<lparr> deadline_state := NOSV_DEADLINE_READY \<rparr> else rt_store rt x)) \<and>
    deadline_purge (rt_sched rt') =
      deadline_purge (rt_sched rt) + int (length (filter (\<lambda>t. deadline_state (rt_store rt t) = NOSV_DEADLINE_WAITING) ts))"
  using assms
proof (induction ts arbitrary: rt)
  case (Cons t ts)
  let ?rt = "submit_deadline_wake t rt"
  have same: "rt_store ?rt x = rt_store rt x" if "x \<in> set ts" for x using that Cons.prems(1) by (auto simp: deadline_wake_fields(1))
  have f: "filter (\<lambda>x. deadline_state (rt_store ?rt x) = NOSV_DEADLINE_WAITING) ts = filter (\<lambda>x. deadline_state (rt_store rt x) = NOSV_DEADLINE_WAITING) ts"
    using same by (intro filter_cong) auto
  obtain rt' where r: "list_submit_cond_tasks cb e NOSV_SUBMIT_DEADLINE_WAKE ts ?rt = Some rt'"
    "\<forall>x. rt_store rt' x = (if x \<in> set ts then (rt_store ?rt x) \<lparr> deadline_state := NOSV_DEADLINE_READY \<rparr> else rt_store ?rt x)"
    "deadline_purge (rt_sched rt') = deadline_purge (rt_sched ?rt) +
      int (length (filter (\<lambda>t. deadline_state (rt_store ?rt t) = NOSV_DEADLINE_WAITING) ts))"
    using Cons.IH [of ?rt] Cons.prems same by auto
  have "nosv_submit cb e t NOSV_SUBMIT_DEADLINE_WAKE rt = Some (?rt, NOSV_SUCCESS)" using Cons.prems by (intro deadline_wake_submit) auto
  then have "list_submit_cond_tasks cb e NOSV_SUBMIT_DEADLINE_WAKE (t # ts) rt = Some rt'" using r(1) by simp
  moreover have "rt_store rt' x = (if x \<in> set (t # ts) then (rt_store rt x) \<lparr> deadline_state := NOSV_DEADLINE_READY \<rparr> else rt_store rt x)" for x
    using r(2) same Cons.prems(1) by (auto simp: deadline_wake_fields(1))
  ultimately show ?case using r(3) f by (simp add: deadline_wake_fields(2))
qed simp

text \<open>A broadcast wakes every task with a time limit: each gets the state NOSV_DEADLINE_READY, the lists are empty afterwards, and the scheduler
  is asked for exactly as many purges as there are tasks in its deadline trees among them.\<close>

theorem cond_broadcast_wakes_timed:
  assumes "cond_list c = []" "distinct (cond_timed c)" "NULL \<notin> set (cond_timed c)" "\<forall>t \<in> set (cond_timed c). \<not> task_is_parallel (rt_store rt t)"
  shows "\<exists>rt'. nosv_cond_broadcast cb e (Some c) rt = Some (Some (c \<lparr> cond_list := [], cond_timed := [] \<rparr>), rt', NOSV_SUCCESS) \<and>
    (\<forall>t \<in> set (cond_timed c). deadline_state (rt_store rt' t) = NOSV_DEADLINE_READY) \<and>
    deadline_purge (rt_sched rt') = deadline_purge (rt_sched rt) +
      int (length (filter (\<lambda>t. deadline_state (rt_store rt t) = NOSV_DEADLINE_WAITING) (cond_timed c)))"
  using wake_timed [OF assms(2-4), of cb e] assms(1) by (auto simp: nosv_cond_broadcast_def)

text \<open>A timed wait whose time limit is exactly the current time violates the assertion that there is time to wait.\<close>

theorem cond_timedwait_now_asserts:
  assumes "worker_current_task rt \<noteq> NULL" "read_clock rt = (now, rt0)"
  shows "nosv_cond_timedwait e others (Some c) mutex (Some now) rt = None"
  using assms by (auto simp: nosv_cond_timedwait_def Let_def assert_then_def split: bind_splits)

text \<open>A parallel task that waits on a condition variable gets an error, but it has released the mutex and stays in the list of waiting tasks, so
  that a later signal submits it.\<close>

theorem parallel_cond_wait_leaves_waiter:
  assumes "worker_is_in_task rt" "task_is_parallel (rt_store rt (worker_current_task rt))" "submit_window (rt_store rt (worker_current_task rt)) = []"
    "mtx_list m = []"
  shows "nosv_cond_wait e others (Some c) (Some m) rt =
    Some (Some (c \<lparr> cond_list := cond_list c @ [worker_current_task rt] \<rparr>), Some (m \<lparr> mtx_taken := False \<rparr>), rt, NOSV_ERR_INVALID_OPERATION)"
proof -
  obtain clk st s where w: "rt_world rt = (clk, st, s)" by (metis prod_cases3)
  then have e: "rt \<lparr> rt_world := (clk, st, s) \<rparr> = rt" by (cases rt) simp
  have t: "worker_current_task rt \<noteq> NULL" using assms(1) by (simp add: worker_is_in_task_def worker_current_task_def)
  have "flush e' rt = Some rt" for e'
    using assms(3) w t by (simp add: flush_def nosv_flush_submit_window_def flush_window_def task_group_empty_def e)
  then have "nosv_pause e rt = Some (rt, NOSV_ERR_INVALID_OPERATION)" using assms(1,2) by (simp add: nosv_pause_def)
  then show ?thesis using t assms(4)
    by (simp add: nosv_cond_wait_def nosv_cond_timedwait_def nosv_mutex_unlock_internal_def mutex_leave_def cond_enqueue_def nosv_defs)
qed

text \<open>The worker 1 runs the task 4, which is not parallel; the parallel task 5 is run by worker 2. The tasks wait for no deadline.\<close>

definition sync_store :: store where
  "sync_store t = (example_store [] t) \<lparr> degree := (if t = 5 then 3 else 1), deadline_state := (if t = 7 then NOSV_DEADLINE_WAITING else NOSV_DEADLINE_NONE) \<rparr>"

definition sync_runtime :: "worker_id \<Rightarrow> runtime" where
  "sync_runtime w = \<lparr> rt_world = ((id, 0), sync_store, example_scheduler), rt_cpus = example_cpus,
     workers = (\<lambda>w. \<lparr> w_cpu = Some 0, w_new_cpu = None, w_handle = \<lparr> h_task = w + 3, h_exec = 1 \<rparr>, immediate_successor = NULL,
       w_signaled = False, w_waiting = False, w_pid = 0, in_task_body = True \<rparr>),
     managers = (\<lambda>_. None), per_pid_structures = (\<lambda>_. False), current_worker = w, current_cpu = 0, logic_pid = 0, shutdown_signal = False, salloc_addrs = [] \<rparr>"

theorem cond_broadcast_wakes_timed_witness:
  "\<exists>rt'. nosv_cond_broadcast example_callbacks example_env (Some \<lparr> cond_list = [], cond_timed = [7, 8] \<rparr>) (sync_runtime 1) =
      Some (Some \<lparr> cond_list = [], cond_timed = [] \<rparr>, rt', NOSV_SUCCESS) \<and> deadline_purge (rt_sched rt') = 2"
  using cond_broadcast_wakes_timed [of "\<lparr> cond_list = [], cond_timed = [7, 8] \<rparr>" "sync_runtime 1" example_callbacks example_env]
  by (auto simp: sync_runtime_def sync_store_def task_is_parallel_def example_store_def example_scheduler_def)

theorem cond_timedwait_now_asserts_witness:
  "nosv_cond_timedwait example_env (\<lambda>x. x) (Some \<lparr> cond_list = [], cond_timed = [] \<rparr>) (Some \<lparr> mtx_list = [], mtx_taken = True \<rparr>) (Some 0) (sync_runtime 1) = None"
  by (rule cond_timedwait_now_asserts) (simp_all add: worker_current_task_def sync_runtime_def read_clock_def clock_ns_def)

theorem parallel_cond_wait_leaves_waiter_witness:
  "nosv_cond_wait example_env (\<lambda>x. x) (Some \<lparr> cond_list = [], cond_timed = [] \<rparr>) (Some \<lparr> mtx_list = [], mtx_taken = True \<rparr>) (sync_runtime 2) =
    Some (Some \<lparr> cond_list = [5], cond_timed = [] \<rparr>, Some \<lparr> mtx_list = [], mtx_taken = False \<rparr>, sync_runtime 2, NOSV_ERR_INVALID_OPERATION)"
proof -
  have "worker_current_task (sync_runtime 2) = 5" by (simp add: worker_current_task_def sync_runtime_def)
  then show ?thesis using parallel_cond_wait_leaves_waiter [of "sync_runtime 2" "\<lparr> mtx_list = [], mtx_taken = True \<rparr>" example_env "\<lambda>x. x" "\<lparr> cond_list = [], cond_timed = [] \<rparr>"]
    by (simp add: worker_is_in_task_def sync_runtime_def sync_store_def task_is_parallel_def example_store_def)
qed

end
