(* ===== verification/Slab.thy ===== *)
theory Slab
  imports Cpu_Bitset
begin

section \<open>The slab allocator and its page backbone (memory/slab.c, memory/backbone.c)\<close>

text \<open>
  The shared segment holds a header, an array of page metadata and pages of two megabytes. The backbone gives out whole pages;
  a bucket of the slab allocator cuts its pages into objects of one size and keeps the free ones in lists that are
  threaded through the objects themselves, one list per page and one per CPU.

  Addresses are natural numbers (the segment does not wrap around), a page is named by its index in the array of metadata, and the memory
  is a function from the address of a word to the word. \<open>clist_add\<close> adds at the front, so that a counted list of pages is
  a list of indices with \<open>#\<close>. The loops around \<open>page_metadata_cmpxchg_double\<close> take a list of functions, what other threads do to the metadata
  between the read and the exchange of each attempt; the attempt after the last one is undisturbed.
\<close>

definition PAGE_SIZE :: nat where "PAGE_SIZE = 2 ^ 21"
definition SLAB_ALLOC_MIN :: nat where "SLAB_ALLOC_MIN = 3"
definition SLAB_BUCKETS :: nat where "SLAB_BUCKETS = 20 - SLAB_ALLOC_MIN"
definition SLAB_MAX_FREE_PAGES :: nat where "SLAB_MAX_FREE_PAGES = 16"

type_synonym memory = "addr \<Rightarrow> addr"
type_synonym page = nat

record page_metadata =
  pm_freelist :: addr
  inuse_chunks :: nat
  pm_addr :: addr

record cpu_cache_bucket =
  slab :: "page option"
  cb_freelist :: addr

record cache_bucket =
  obj_size :: nat
  bk_free :: "page list"
  bk_partial :: "page list"
  slow_bucket :: cpu_cache_bucket
  cpubuckets :: "cpu_cache_bucket list"

record backbone =
  bb_size :: nat
  bb_metadata_start :: addr
  bb_pages_start :: addr
  bb_metadata :: "page_metadata list"
  bb_free_pages :: "page list"
  bb_buckets :: "cache_bucket list"
  bb_memory :: memory

subsection \<open>Pages (memory/backbone.c)\<close>

text \<open>For a power of two \<open>n\<close> the mask \<open>~(n - 1)\<close> of the C macro rounds down to a multiple of \<open>n\<close>.\<close>

definition align_to :: "nat \<Rightarrow> nat \<Rightarrow> nat" where
  "align_to n x = (x + n - 1) div n * n"

text \<open>The layout of the segment: start of the metadata, the first estimate of the number of pages, start of the pages and the number of pages.
  The sizes of the header and of one metadata record are those of the C types.\<close>

definition backbone_layout :: "nat \<Rightarrow> nat \<Rightarrow> addr \<Rightarrow> nat \<Rightarrow> addr \<times> nat \<times> addr \<times> nat" where
  "backbone_layout sizeof_header sizeof_metadata start sz =
     (let pages = (sz - sizeof_header) div (sizeof_metadata + PAGE_SIZE);
          metadata_start = align_to 16 (start + sizeof_header);
          pages_start = align_to PAGE_SIZE (metadata_start + pages * sizeof_metadata);
          space_left = start + sz - pages_start
      in (metadata_start, pages, pages_start, space_left div PAGE_SIZE))"

fun add_pages :: "nat \<Rightarrow> addr \<Rightarrow> nat \<Rightarrow> page list \<times> page_metadata list \<Rightarrow> page list \<times> page_metadata list" where
  "add_pages i pg 0 (fp, md) = (fp, md)"
| "add_pages i pg (Suc n) (fp, md) = add_pages (i + 1) (pg + PAGE_SIZE) n (i # fp, md @ [\<lparr> pm_freelist = NULL, inuse_chunks = 0, pm_addr = pg \<rparr>])"

definition backbone_alloc_init :: "nat \<Rightarrow> nat \<Rightarrow> addr \<Rightarrow> nat \<Rightarrow> cache_bucket list \<Rightarrow> memory \<Rightarrow> backbone" where
  "backbone_alloc_init sizeof_header sizeof_metadata start sz bks mem =
     (let (metadata_start, _, pages_start, pages) = backbone_layout sizeof_header sizeof_metadata start sz;
          (fp, md) = add_pages 0 pages_start pages ([], [])
      in \<lparr> bb_size = sz, bb_metadata_start = metadata_start, bb_pages_start = pages_start, bb_metadata = md,
           bb_free_pages = fp, bb_buckets = bks, bb_memory = mem \<rparr>)"

definition balloc :: "backbone \<Rightarrow> backbone \<times> page option" where
  "balloc S = (case bb_free_pages S of [] \<Rightarrow> (S, None) | p # ps \<Rightarrow> (S \<lparr> bb_free_pages := ps \<rparr>, Some p))"

definition bfree :: "page \<Rightarrow> backbone \<Rightarrow> backbone" where
  "bfree p S = S \<lparr> bb_free_pages := p # bb_free_pages S \<rparr>"

definition page_metadata_from_block :: "backbone \<Rightarrow> addr \<Rightarrow> page" where
  "page_metadata_from_block S block = (block - bb_pages_start S) div PAGE_SIZE"

definition backbone_used_memory :: "backbone \<Rightarrow> nat" where
  "backbone_used_memory S = bb_size S - length (bb_free_pages S) * PAGE_SIZE"


text \<open>The result pointer may be null (\<open>False\<close>) and the segment may be missing (\<^term>\<open>None\<close>).\<close>

definition nosv_memory_get_used :: "bool \<Rightarrow> backbone option \<Rightarrow> int \<times> nat option" where
  "nosv_memory_get_used used header =
     (if \<not> used then (NOSV_ERR_INVALID_PARAMETER, None)
      else case header of None \<Rightarrow> (NOSV_ERR_NOT_INITIALIZED, None) | Some S \<Rightarrow> (NOSV_SUCCESS, Some (backbone_used_memory S)))"

definition nosv_memory_get_size :: "bool \<Rightarrow> nat \<Rightarrow> int \<times> nat option" where
  "nosv_memory_get_size sz backbone_size = (if \<not> sz then (NOSV_ERR_INVALID_PARAMETER, None) else (NOSV_SUCCESS, Some backbone_size))"

subsection \<open>The cache of one CPU (memory/slab.c)\<close>

definition cpubucket_init :: cpu_cache_bucket where
  "cpubucket_init = \<lparr> slab = None, cb_freelist = NULL \<rparr>"

definition cpubucket_setpage :: "page \<Rightarrow> addr \<Rightarrow> cpu_cache_bucket" where
  "cpubucket_setpage p freelist = \<lparr> slab = Some p, cb_freelist = freelist \<rparr>"

definition cpubucket_alloc :: "memory \<Rightarrow> cpu_cache_bucket \<Rightarrow> cpu_cache_bucket \<times> addr option" where
  "cpubucket_alloc mem cb =
     (if cb_freelist cb \<noteq> NULL then (cb \<lparr> cb_freelist := mem (cb_freelist cb) \<rparr>, Some (cb_freelist cb)) else (cb, None))"

definition cpubucket_isinpage :: "page_metadata list \<Rightarrow> cpu_cache_bucket \<Rightarrow> addr \<Rightarrow> bool" where
  "cpubucket_isinpage md cb obj =
     (case slab cb of None \<Rightarrow> False | Some p \<Rightarrow> (let base = pm_addr (md ! p) in base \<le> obj \<and> obj < base + PAGE_SIZE))"

definition cpubucket_localfree :: "page_metadata list \<Rightarrow> addr \<Rightarrow> memory \<times> cpu_cache_bucket \<Rightarrow> (memory \<times> cpu_cache_bucket) option" where
  "cpubucket_localfree md obj = (\<lambda>(mem, cb).
     assert_then (cpubucket_isinpage md cb obj) (Some (mem(obj := cb_freelist cb), cb \<lparr> cb_freelist := obj \<rparr>)))"

subsection \<open>Buckets\<close>

definition bucket_objinpage :: "cache_bucket \<Rightarrow> nat" where
  "bucket_objinpage bk = PAGE_SIZE div obj_size bk"

definition link_objects :: "addr \<Rightarrow> nat \<Rightarrow> nat \<Rightarrow> memory \<Rightarrow> memory" where
  "link_objects base stride n = fold (\<lambda>i mem. mem(base + 8 * (i * stride) := base + 8 * ((i + 1) * stride))) [0..<n]"

definition bucket_initialize_page :: "cache_bucket \<Rightarrow> page_metadata \<Rightarrow> memory \<Rightarrow> page_metadata \<times> memory" where
  "bucket_initialize_page bk md mem =
     (let base = pm_addr md; stride = obj_size bk div 8; n = bucket_objinpage bk
      in (md \<lparr> pm_freelist := pm_addr md, inuse_chunks := 0 \<rparr>,
          (link_objects base stride n mem)(base + 8 * ((n - 1) * stride) := NULL)))"

definition page_metadata_cmpxchg_double :: "page_metadata \<Rightarrow> addr \<Rightarrow> nat \<Rightarrow> addr \<Rightarrow> nat \<Rightarrow> page_metadata \<times> bool" where
  "page_metadata_cmpxchg_double md old_freelist old_inuse new_freelist new_inuse =
     (if pm_freelist md = old_freelist \<and> inuse_chunks md = old_inuse
      then (md \<lparr> pm_freelist := new_freelist, inuse_chunks := new_inuse \<rparr>, True) else (md, False))"

text \<open>The loop of \<open>bucket_refill_cpu_cache\<close> that empties the list of a page.\<close>

fun take_freelist :: "(page_metadata \<Rightarrow> page_metadata) list \<Rightarrow> nat \<Rightarrow> page_metadata \<Rightarrow> page_metadata \<times> addr" where
  "take_freelist [] n md = (fst (page_metadata_cmpxchg_double md (pm_freelist md) (inuse_chunks md) NULL n), pm_freelist md)"
| "take_freelist (f # fs) n md =
     (let (md', success) = page_metadata_cmpxchg_double (f md) (pm_freelist md) (inuse_chunks md) NULL n
      in if success then (md', pm_freelist md) else take_freelist fs n md')"

definition set_cpubucket :: "int \<Rightarrow> cpu_cache_bucket \<Rightarrow> cache_bucket \<Rightarrow> cache_bucket" where
  "set_cpubucket cpu cb bk = (if cpu < 0 then bk \<lparr> slow_bucket := cb \<rparr> else bk \<lparr> cpubuckets := (cpubuckets bk)[nat cpu := cb] \<rparr>)"

definition get_cpubucket :: "int \<Rightarrow> cache_bucket \<Rightarrow> cpu_cache_bucket" where
  "get_cpubucket cpu bk = (if cpu < 0 then slow_bucket bk else cpubuckets bk ! nat cpu)"

definition set_bucket :: "nat \<Rightarrow> cache_bucket \<Rightarrow> backbone \<Rightarrow> backbone" where
  "set_bucket b bk S = S \<lparr> bb_buckets := (bb_buckets S)[b := bk] \<rparr>"

definition set_metadata :: "page \<Rightarrow> page_metadata \<Rightarrow> backbone \<Rightarrow> backbone" where
  "set_metadata p md S = S \<lparr> bb_metadata := (bb_metadata S)[p := md] \<rparr>"

definition attach_page :: "nat \<Rightarrow> int \<Rightarrow> page \<Rightarrow> addr \<Rightarrow> backbone \<Rightarrow> backbone option" where
  "attach_page b cpu p freelist S =
     assert_then (freelist \<noteq> NULL) (Some (set_bucket b (set_cpubucket cpu (cpubucket_setpage p freelist) (bb_buckets S ! b)) S))"

definition bucket_refill_cpu_cache :: "(page_metadata \<Rightarrow> page_metadata) list \<Rightarrow> nat \<Rightarrow> int \<Rightarrow> backbone \<Rightarrow> backbone option" where
  "bucket_refill_cpu_cache others b cpu S =
     (let bk = bb_buckets S ! b; n = bucket_objinpage bk
      in case bk_partial bk of
           p # ps \<Rightarrow>
             (let (md, freelist) = take_freelist others n (bb_metadata S ! p)
              in attach_page b cpu p freelist (set_metadata p md (set_bucket b (bk \<lparr> bk_partial := ps \<rparr>) S)))
         | [] \<Rightarrow>
             (case bk_free bk of
                p # ps \<Rightarrow>
                  (let md = bb_metadata S ! p
                   in attach_page b cpu p (pm_freelist md)
                        (set_metadata p (md \<lparr> inuse_chunks := n, pm_freelist := NULL \<rparr>) (set_bucket b (bk \<lparr> bk_free := ps \<rparr>) S)))
              | [] \<Rightarrow>
                  (case balloc S of
                     (S1, None) \<Rightarrow> None
                   | (S1, Some p) \<Rightarrow>
                       (let (md, mem) = bucket_initialize_page bk (bb_metadata S1 ! p) (bb_memory S1)
                        in attach_page b cpu p (pm_freelist md)
                             (set_metadata p (md \<lparr> inuse_chunks := n, pm_freelist := NULL \<rparr>) (S1 \<lparr> bb_memory := mem \<rparr>))))))"

definition bucket_init :: "nat \<Rightarrow> cache_bucket" where
  "bucket_init bucket_index =
     \<lparr> obj_size = 2 ^ bucket_index, bk_free = [], bk_partial = [], slow_bucket = cpubucket_init, cpubuckets = replicate NR_CPUS cpubucket_init \<rparr>"

text \<open>\<open>cpu\<close> is negative for a thread that is not attached to a CPU.\<close>

definition bucket_alloc :: "(page_metadata \<Rightarrow> page_metadata) list \<Rightarrow> nat \<Rightarrow> int \<Rightarrow> nat \<Rightarrow> backbone \<Rightarrow> (backbone \<times> addr) option" where
  "bucket_alloc others b cpu original_size S =
     assert_then (cpu < int NR_CPUS \<and> original_size \<le> obj_size (bb_buckets S ! b))
       (case cpubucket_alloc (bb_memory S) (get_cpubucket cpu (bb_buckets S ! b)) of
          (cb, Some obj) \<Rightarrow> Some (set_bucket b (set_cpubucket cpu cb (bb_buckets S ! b)) S, obj)
        | (cb, None) \<Rightarrow>
            (case bucket_refill_cpu_cache others b cpu S of
               None \<Rightarrow> None
             | Some S1 \<Rightarrow>
                 (case cpubucket_alloc (bb_memory S1) (get_cpubucket cpu (bb_buckets S1 ! b)) of
                    (cb, None) \<Rightarrow> None
                  | (cb, Some obj) \<Rightarrow> Some (set_bucket b (set_cpubucket cpu cb (bb_buckets S1 ! b)) S1, obj))))"

text \<open>The loop of \<open>bucket_free\<close>: the metadata with the object in front of its list, the old first object, which is
  what the object's first word is set to, and the old number of chunks in use. The number is a \<open>uint64_t\<close>.\<close>

definition dec64 :: "nat \<Rightarrow> nat" where
  "dec64 n = (n + (2 ^ 64 - 1)) mod 2 ^ 64"

fun push_freelist :: "(page_metadata \<Rightarrow> page_metadata) list \<Rightarrow> addr \<Rightarrow> page_metadata \<Rightarrow> page_metadata \<times> addr \<times> nat" where
  "push_freelist [] obj md =
     (let inuse = inuse_chunks md; nxt = pm_freelist md
      in (fst (page_metadata_cmpxchg_double md nxt inuse obj (dec64 inuse)), nxt, inuse))"
| "push_freelist (f # fs) obj md =
     (let inuse = inuse_chunks md; nxt = pm_freelist md;
          (md', success) = page_metadata_cmpxchg_double (f md) nxt inuse obj (dec64 inuse)
      in if success then (md', nxt, inuse) else push_freelist fs obj md')"

definition bucket_free :: "(page_metadata \<Rightarrow> page_metadata) list \<Rightarrow> nat \<Rightarrow> addr \<Rightarrow> int \<Rightarrow> backbone \<Rightarrow> backbone option" where
  "bucket_free others b obj cpu S =
     (let bk = bb_buckets S ! b; n = bucket_objinpage bk
      in assert_then (cpu < int NR_CPUS)
           (if 0 \<le> cpu \<and> cpubucket_isinpage (bb_metadata S) (get_cpubucket cpu bk) obj
            then (case cpubucket_localfree (bb_metadata S) obj (bb_memory S, get_cpubucket cpu bk) of
                    None \<Rightarrow> None
                  | Some (mem, cb) \<Rightarrow> Some (set_bucket b (set_cpubucket cpu cb bk) (S \<lparr> bb_memory := mem \<rparr>)))
            else (let p = page_metadata_from_block S obj;
                      (md, nxt, inuse) = push_freelist others obj (bb_metadata S ! p);
                      S1 = set_metadata p md (S \<lparr> bb_memory := (bb_memory S)(obj := nxt) \<rparr>)
                  in if inuse = 1
                     then (let bk1 = bk \<lparr> bk_partial := remove1 p (bk_partial bk) \<rparr>
                           in if SLAB_MAX_FREE_PAGES \<le> length (bk_free bk) then Some (bfree p (set_bucket b bk1 S1))
                              else Some (set_bucket b (bk1 \<lparr> bk_free := p # bk_free bk \<rparr>) S1))
                     else if inuse = n then Some (set_bucket b (bk \<lparr> bk_partial := p # bk_partial bk \<rparr>) S1)
                     else Some S1)))"

definition slab_init :: "cache_bucket list" where
  "slab_init = map (\<lambda>i. bucket_init (i + SLAB_ALLOC_MIN)) [0..<SLAB_BUCKETS]"

text \<open>The number of zero bits above the highest one bit; \<open>__builtin_clzl(0)\<close> is undefined: \<^term>\<open>None\<close>.\<close>

definition count_leading_zeros :: "u64 \<Rightarrow> nat option" where
  "count_leading_zeros x = (if x = 0 then None else Some (length (takeWhile (\<lambda>i. \<not> bit x i) (rev [0..<64]))))"

definition next_power_of_two :: "u64 \<Rightarrow> nat option" where
  "next_power_of_two n = map_option (\<lambda>z. 64 - z) (count_leading_zeros (n - 1))"

definition salloc :: "(page_metadata \<Rightarrow> page_metadata) list \<Rightarrow> u64 \<Rightarrow> int \<Rightarrow> backbone \<Rightarrow> (backbone \<times> addr) option" where
  "salloc others sz cpu S =
     (case next_power_of_two sz of
        None \<Rightarrow> None
      | Some allocsize \<Rightarrow>
          if allocsize < SLAB_ALLOC_MIN then bucket_alloc others 0 cpu (unat sz) S
          else if SLAB_BUCKETS + SLAB_ALLOC_MIN \<le> allocsize then Some (S, NULL)
          else bucket_alloc others (allocsize - SLAB_ALLOC_MIN) cpu (unat sz) S)"

definition sfree :: "(page_metadata \<Rightarrow> page_metadata) list \<Rightarrow> addr \<Rightarrow> u64 \<Rightarrow> int \<Rightarrow> backbone \<Rightarrow> backbone option" where
  "sfree others ptr sz cpu S =
     (case next_power_of_two sz of
        None \<Rightarrow> None
      | Some allocsize \<Rightarrow>
          (let allocsize = max allocsize SLAB_ALLOC_MIN
           in assert_then (allocsize < SLAB_BUCKETS + SLAB_ALLOC_MIN) (bucket_free others (allocsize - SLAB_ALLOC_MIN) ptr cpu S)))"

end
