(* ===== verification/Slab_Inv.thy ===== *)
theory Slab_Inv
  imports Slab
begin

section \<open>The invariant of the slab allocator\<close>

text \<open>
  The free lists partition the objects: every object of a page that belongs to a bucket is in the list of its page, in the list
  of exactly one CPU of the bucket, or in use. The invariant names these lists (\<open>pg\<close> for pages, \<open>cc\<close> for CPUs), the bucket that owns a page
  (\<open>own\<close>) and the objects in use with the bucket they come from (\<open>live\<close>). It is proved for every elementary step of the allocator; a page that is new in a bucket, and
  one that is given back, pass through the bucket's list of free pages.
\<close>

subsection \<open>Lists threaded through the objects\<close>

fun chain :: "memory \<Rightarrow> addr \<Rightarrow> addr list \<Rightarrow> bool" where
  "chain mem a [] = (a = NULL)"
| "chain mem a (x # xs) = (a = x \<and> x \<noteq> NULL \<and> chain mem (mem x) xs)"

lemma chain_cong: "(\<And>x. x \<in> set xs \<Longrightarrow> mem x = mem' x) \<Longrightarrow> chain mem a xs = chain mem' a xs"
  by (induction xs arbitrary: a) auto

lemma chain_upd [simp]: "x \<notin> set xs \<Longrightarrow> chain (mem(x := v)) a xs = chain mem a xs"
  by (rule chain_cong) auto

lemma chain_NULL [simp]: "chain mem NULL xs \<longleftrightarrow> xs = []"
  by (cases xs) auto

lemma chain_nonNULL: "chain mem a xs \<Longrightarrow> a \<noteq> NULL \<Longrightarrow> \<exists>ys. xs = a # ys \<and> chain mem (mem a) ys"
  by (cases xs) auto

subsection \<open>Objects of a page\<close>

definition cls :: "nat \<Rightarrow> nat" where
  "cls b = 2 ^ (b + SLAB_ALLOC_MIN)"

definition chunks :: "nat \<Rightarrow> nat" where
  "chunks b = PAGE_SIZE div cls b"

definition page_base :: "addr \<Rightarrow> page \<Rightarrow> addr" where
  "page_base st p = st + p * PAGE_SIZE"

definition objs :: "addr \<Rightarrow> nat \<Rightarrow> page \<Rightarrow> addr list" where
  "objs st b p = map (\<lambda>i. page_base st p + i * cls b) [0..<chunks b]"

lemma chunks_eq: "b < SLAB_BUCKETS \<Longrightarrow> chunks b = 2 ^ (18 - b)"
proof -
  assume b: "b < SLAB_BUCKETS"
  then have "(2::nat) ^ 21 = 2 ^ (18 - b) * 2 ^ (b + 3)"
    by (simp add: SLAB_BUCKETS_def SLAB_ALLOC_MIN_def flip: power_add)
  then have "(2::nat) ^ 21 div 2 ^ (b + 3) = 2 ^ (18 - b)" by (metis nonzero_mult_div_cancel_right power_not_zero zero_neq_numeral)
  then show ?thesis by (simp add: chunks_def PAGE_SIZE_def cls_def SLAB_ALLOC_MIN_def)
qed

lemma chunks_cls: "b < SLAB_BUCKETS \<Longrightarrow> chunks b * cls b = PAGE_SIZE"
  by (simp add: chunks_eq cls_def PAGE_SIZE_def SLAB_BUCKETS_def SLAB_ALLOC_MIN_def flip: power_add)

lemma chunks_ge: "b < SLAB_BUCKETS \<Longrightarrow> 4 \<le> chunks b"
  using power_increasing [of 2 "18 - b" "2::nat"] by (simp add: chunks_eq SLAB_BUCKETS_def SLAB_ALLOC_MIN_def)

lemma cls_pos [simp]: "0 < cls b"
  by (simp add: cls_def)

lemma cls_nonzero [simp]: "cls b \<noteq> 0"
  by (simp add: cls_def)

lemma cls_word: "8 * (cls b div 8) = cls b"
  by (simp add: cls_def SLAB_ALLOC_MIN_def power_add)

lemma length_objs [simp]: "length (objs st b p) = chunks b"
  by (simp add: objs_def)

lemma distinct_objs: "distinct (objs st b p)"
  using cls_pos [of b] by (auto simp: objs_def distinct_map inj_on_def simp del: cls_pos)

lemma obj_bounds:
  assumes "x \<in> set (objs st b p)" "b < SLAB_BUCKETS"
  shows "page_base st p \<le> x" "x + cls b \<le> page_base st p + PAGE_SIZE" "x < page_base st p + PAGE_SIZE"
proof -
  obtain i where i: "i < chunks b" "x = page_base st p + i * cls b" using assms(1) by (auto simp: objs_def)
  then have "(i + 1) * cls b \<le> chunks b * cls b" by (intro mult_right_mono) auto
  then show "page_base st p \<le> x" "x + cls b \<le> page_base st p + PAGE_SIZE" using i chunks_cls [OF assms(2)] by auto
  then show "x < page_base st p + PAGE_SIZE" using cls_pos [of b] by linarith
qed

lemma page_of_obj:
  assumes "page_base st p \<le> x" "x < page_base st p + PAGE_SIZE"
  shows "(x - st) div PAGE_SIZE = p"
proof -
  have "x - st = p * PAGE_SIZE + (x - page_base st p)" "x - page_base st p < PAGE_SIZE"
    using assms by (auto simp: page_base_def)
  then show ?thesis by simp
qed

lemma objs_pages_disjoint:
  assumes "x \<in> set (objs st b p)" "x \<in> set (objs st c q)" "b < SLAB_BUCKETS" "c < SLAB_BUCKETS"
  shows "p = q"
  using page_of_obj obj_bounds assms by metis

lemma obj_blocks_disjoint:
  assumes "x \<in> set (objs st b p)" "y \<in> set (objs st c q)" "b < SLAB_BUCKETS" "c < SLAB_BUCKETS" "p = q \<longrightarrow> b = c" "x \<noteq> y"
  shows "{x..<x + cls b} \<inter> {y..<y + cls c} = {}"
proof (cases "p = q")
  case True
  then obtain i j where ij: "x = page_base st p + i * cls b" "y = page_base st p + j * cls b" "b = c"
    using assms by (auto simp: objs_def)
  then have "i < j \<or> j < i" using assms(6) by (metis nat_neq_iff)
  then have "(i + 1) * cls b \<le> j * cls b \<or> (j + 1) * cls b \<le> i * cls b"
    using mult_le_mono1 [of "i + 1" j "cls b"] mult_le_mono1 [of "j + 1" i "cls b"] by fastforce
  then show ?thesis using ij by auto
next
  case False
  then have "p + 1 \<le> q \<or> q + 1 \<le> p" by auto
  then have "(p + 1) * PAGE_SIZE \<le> q * PAGE_SIZE \<or> (q + 1) * PAGE_SIZE \<le> p * PAGE_SIZE"
    using mult_le_mono1 [of "p + 1" q PAGE_SIZE] mult_le_mono1 [of "q + 1" p PAGE_SIZE] by blast
  then show ?thesis using obj_bounds [OF assms(1,3)] obj_bounds [OF assms(2,4)] by (auto simp: page_base_def)
qed

subsection \<open>The invariant\<close>

definition npages :: "backbone \<Rightarrow> nat" where
  "npages S = length (bb_metadata S)"

abbreviation bkt :: "backbone \<Rightarrow> nat \<Rightarrow> cache_bucket" where
  "bkt S b \<equiv> bb_buckets S ! b"

abbreviation pgm :: "backbone \<Rightarrow> page \<Rightarrow> page_metadata" where
  "pgm S p \<equiv> bb_metadata S ! p"

definition slots :: "(nat \<times> int) set" where
  "slots = {..<SLAB_BUCKETS} \<times> {- 1..<int NR_CPUS}"

lemma finite_slots [simp]: "finite slots"
  by (simp add: slots_def)

definition belongs :: "backbone \<Rightarrow> (page \<Rightarrow> nat option) \<Rightarrow> nat \<Rightarrow> addr \<Rightarrow> bool" where
  "belongs S own b x \<longleftrightarrow> (\<exists>p<npages S. own p = Some b \<and> x \<in> set (objs (bb_pages_start S) b p))"

definition slab_layout :: "backbone \<Rightarrow> bool" where
  "slab_layout S \<longleftrightarrow> length (bb_buckets S) = SLAB_BUCKETS \<and> 0 < bb_pages_start S \<and>
     (\<forall>b<SLAB_BUCKETS. obj_size (bkt S b) = cls b \<and> length (cpubuckets (bkt S b)) = NR_CPUS) \<and>
     (\<forall>p<npages S. pm_addr (pgm S p) = page_base (bb_pages_start S) p)"

definition page_ok :: "backbone \<Rightarrow> (page \<Rightarrow> addr list) \<Rightarrow> (page \<Rightarrow> nat option) \<Rightarrow> page \<Rightarrow> bool" where
  "page_ok S pg own p = (case own p of None \<Rightarrow> pg p = []
     | Some b \<Rightarrow> b < SLAB_BUCKETS \<and> chain (bb_memory S) (pm_freelist (pgm S p)) (pg p) \<and>
         inuse_chunks (pgm S p) + length (pg p) = chunks b \<and> set (pg p) \<subseteq> set (objs (bb_pages_start S) b p))"

definition cache_ok :: "backbone \<Rightarrow> (nat \<times> int \<Rightarrow> addr list) \<Rightarrow> (page \<Rightarrow> nat option) \<Rightarrow> nat \<times> int \<Rightarrow> bool" where
  "cache_ok S cc own = (\<lambda>(b, c). chain (bb_memory S) (cb_freelist (get_cpubucket c (bkt S b))) (cc (b, c)) \<and>
     (\<forall>x\<in>set (cc (b, c)). belongs S own b x))"

definition owned :: "addr \<Rightarrow> (page \<Rightarrow> nat option) \<Rightarrow> page \<Rightarrow> addr multiset" where
  "owned st own p = (case own p of None \<Rightarrow> {#} | Some b \<Rightarrow> mset (objs st b p))"

definition slab_count :: "backbone \<Rightarrow> (page \<Rightarrow> addr list) \<Rightarrow> (nat \<times> int \<Rightarrow> addr list) \<Rightarrow> (page \<Rightarrow> nat option) \<Rightarrow> (addr \<rightharpoonup> nat) \<Rightarrow> bool" where
  "slab_count S pg cc own live \<longleftrightarrow> finite (dom live) \<and>
     (\<Sum>p<npages S. owned (bb_pages_start S) own p) = (\<Sum>p<npages S. mset (pg p)) + (\<Sum>i\<in>slots. mset (cc i)) + mset_set (dom live)"

definition slab_lists :: "backbone \<Rightarrow> (page \<Rightarrow> addr list) \<Rightarrow> (page \<Rightarrow> nat option) \<Rightarrow> bool" where
  "slab_lists S pg own \<longleftrightarrow> distinct (bb_free_pages S) \<and> set (bb_free_pages S) = {p. p < npages S \<and> own p = None} \<and>
     (\<forall>b<SLAB_BUCKETS. distinct (bk_free (bkt S b)) \<and> distinct (bk_partial (bkt S b)) \<and>
        set (bk_free (bkt S b)) = {p. p < npages S \<and> own p = Some b \<and> length (pg p) = chunks b} \<and>
        set (bk_partial (bkt S b)) = {p. p < npages S \<and> own p = Some b \<and> 0 < length (pg p) \<and> length (pg p) < chunks b})"

definition slab_inv :: "backbone \<Rightarrow> (page \<Rightarrow> addr list) \<Rightarrow> (nat \<times> int \<Rightarrow> addr list) \<Rightarrow> (page \<Rightarrow> nat option) \<Rightarrow> (addr \<rightharpoonup> nat) \<Rightarrow> bool" where
  "slab_inv S pg cc own live \<longleftrightarrow> slab_layout S \<and> (\<forall>p<npages S. page_ok S pg own p) \<and> (\<forall>i\<in>slots. cache_ok S cc own i) \<and>
     (\<forall>x b. live x = Some b \<longrightarrow> belongs S own b x) \<and> slab_count S pg cc own live \<and> slab_lists S pg own"

lemma page_ok_bucket: "page_ok S pg own p \<Longrightarrow> own p = Some b \<Longrightarrow> b < SLAB_BUCKETS"
  by (simp add: page_ok_def)

lemma page_ok_objs: "page_ok S pg own p \<Longrightarrow> x \<in> set (pg p) \<Longrightarrow> \<exists>b. own p = Some b \<and> x \<in> set (objs (bb_pages_start S) b p)"
  by (auto simp: page_ok_def split: option.splits)

text \<open>Every object is counted once.\<close>

lemma owned_once:
  assumes "\<And>p b. p < n \<Longrightarrow> own p = Some b \<Longrightarrow> b < SLAB_BUCKETS"
  shows "count (\<Sum>p<n. owned st own p) x \<le> 1"
proof -
  let ?c = "\<lambda>p. count (owned st own p) x"
  have zero: "?c p = 0" if "p < n" "?c q \<noteq> 0" "q < n" "p \<noteq> q" for p q
    using that assms objs_pages_disjoint
    by (auto simp: owned_def count_eq_zero_iff split: option.splits)
  have one: "?c p \<le> 1" for p
    using distinct_objs [of st _ p] by (auto simp: owned_def distinct_count_atmost_1 split: option.splits)
  show ?thesis
  proof (cases "\<exists>q<n. ?c q \<noteq> 0")
    case True
    then obtain q where q: "q < n" "?c q \<noteq> 0" by auto
    then have "(\<Sum>p<n. ?c p) = ?c q" using zero by (subst sum.remove [of _ q]) auto
    then show ?thesis using one [of q] by (simp add: count_sum)
  next
    case False
    then have "(\<Sum>p<n. ?c p) = 0" by (simp add: count_eq_zero_iff)
    then show ?thesis by (simp add: count_sum)
  qed
qed

lemma live_not_free:
  assumes "slab_inv S pg cc own live" "live x = Some b"
  shows "p < npages S \<Longrightarrow> x \<notin> set (pg p)" "i \<in> slots \<Longrightarrow> x \<notin> set (cc i)"
proof -
  have "\<And>p b. p < npages S \<Longrightarrow> own p = Some b \<Longrightarrow> b < SLAB_BUCKETS"
    using assms(1) page_ok_bucket by (auto simp: slab_inv_def)
  then have le: "count (\<Sum>p<npages S. owned (bb_pages_start S) own p) x \<le> 1" by (rule owned_once)
  have "finite (dom live)" and eq: "(\<Sum>p<npages S. owned (bb_pages_start S) own p) =
      (\<Sum>p<npages S. mset (pg p)) + (\<Sum>i\<in>slots. mset (cc i)) + mset_set (dom live)"
    using assms(1) by (auto simp: slab_inv_def slab_count_def)
  then have "count (mset_set (dom live)) x = 1" using assms(2) by (auto simp: domI)
  with le eq have "(\<Sum>p<npages S. count (mset (pg p)) x) = 0" "(\<Sum>i\<in>slots. count (mset (cc i)) x) = 0"
    by (auto simp: count_sum)
  then show "p < npages S \<Longrightarrow> x \<notin> set (pg p)" "i \<in> slots \<Longrightarrow> x \<notin> set (cc i)"
    by (simp_all add: count_eq_zero_iff)
qed

lemma belongs_unique:
  assumes "belongs S own b x" "belongs S own c x" "b < SLAB_BUCKETS" "c < SLAB_BUCKETS"
  shows "b = c"
  using assms objs_pages_disjoint unfolding belongs_def by (metis option.inject)

lemma belongs_nonnull: "belongs S own b x \<Longrightarrow> slab_layout S \<Longrightarrow> x \<noteq> NULL"
  by (auto simp: belongs_def slab_layout_def objs_def page_base_def)

lemma belongs_page:
  assumes "belongs S own b x" "b < SLAB_BUCKETS"
  shows "page_metadata_from_block S x < npages S" "own (page_metadata_from_block S x) = Some b"
    "x \<in> set (objs (bb_pages_start S) b (page_metadata_from_block S x))"
proof -
  obtain p where p: "p < npages S" "own p = Some b" "x \<in> set (objs (bb_pages_start S) b p)" using assms(1) by (auto simp: belongs_def)
  then have "page_metadata_from_block S x = p"
    using page_of_obj obj_bounds [OF p(3) assms(2)] by (simp add: page_metadata_from_block_def)
  with p show "page_metadata_from_block S x < npages S" "own (page_metadata_from_block S x) = Some b"
    "x \<in> set (objs (bb_pages_start S) b (page_metadata_from_block S x))" by simp_all
qed

subsection \<open>Caches of the CPUs\<close>

lemma get_set_cpubucket:
  assumes "c < int NR_CPUS" "c' < int NR_CPUS" "length (cpubuckets bk) = NR_CPUS"
  shows "get_cpubucket c' (set_cpubucket c cb bk) = (if max (- 1) c = max (- 1) c' then cb else get_cpubucket c' bk)"
  using assms by (auto simp: get_cpubucket_def set_cpubucket_def nth_list_update)

lemma set_cpubucket_fields [simp]:
  "obj_size (set_cpubucket c cb bk) = obj_size bk" "bk_free (set_cpubucket c cb bk) = bk_free bk"
  "bk_partial (set_cpubucket c cb bk) = bk_partial bk" "length (cpubuckets (set_cpubucket c cb bk)) = length (cpubuckets bk)"
  by (simp_all add: set_cpubucket_def)

lemma sum_mset_upd:
  fixes f :: "'a \<Rightarrow> 'b list"
  assumes "finite A" "a \<in> A"
  shows "(\<Sum>i\<in>A. mset ((f(a := ys)) i)) + mset (f a) = (\<Sum>i\<in>A. mset (f i)) + mset ys"
  using assms by (simp add: sum.remove [of A a])

lemma owned_upd:
  assumes "finite A" "a \<in> A"
  shows "(\<Sum>i\<in>A. owned st (own(a := v)) i) + owned st own a = (\<Sum>i\<in>A. owned st own i) + (case v of None \<Rightarrow> {#} | Some b \<Rightarrow> mset (objs st b a))"
  using assms by (simp add: sum.remove [of A a] owned_def split: option.splits)

subsection \<open>Elementary steps\<close>

lemma set_bucket_fields [simp]:
  "bb_memory (set_bucket b bk S) = bb_memory S" "bb_metadata (set_bucket b bk S) = bb_metadata S"
  "bb_pages_start (set_bucket b bk S) = bb_pages_start S" "bb_free_pages (set_bucket b bk S) = bb_free_pages S"
  "length (bb_buckets (set_bucket b bk S)) = length (bb_buckets S)" "npages (set_bucket b bk S) = npages S"
  by (simp_all add: set_bucket_def npages_def)

lemma bkt_set_bucket [simp]: "b < length (bb_buckets S) \<Longrightarrow> bkt (set_bucket b bk S) b' = (if b = b' then bk else bkt S b')"
  by (simp add: set_bucket_def)

lemma set_metadata_fields [simp]:
  "bb_memory (set_metadata p md S) = bb_memory S" "bb_buckets (set_metadata p md S) = bb_buckets S"
  "bb_pages_start (set_metadata p md S) = bb_pages_start S" "bb_free_pages (set_metadata p md S) = bb_free_pages S"
  "npages (set_metadata p md S) = npages S"
  by (simp_all add: set_metadata_def npages_def)

lemma pgm_set_metadata [simp]: "p < npages S \<Longrightarrow> pgm (set_metadata p md S) q = (if p = q then md else pgm S q)"
  by (simp add: set_metadata_def npages_def)

lemma bb_update_npages [simp]:
  "npages (S \<lparr> bb_memory := m \<rparr>) = npages S" "npages (S \<lparr> bb_free_pages := fp \<rparr>) = npages S" "npages (S \<lparr> bb_buckets := bs \<rparr>) = npages S"
  by (simp_all add: npages_def)

lemma belongs_cong: "npages S' = npages S \<Longrightarrow> bb_pages_start S' = bb_pages_start S \<Longrightarrow> belongs S' = belongs S"
  by (simp add: belongs_def fun_eq_iff)

definition slot :: "nat \<Rightarrow> int \<Rightarrow> nat \<times> int" where
  "slot b c = (b, max (- 1) c)"

lemma slot_in [simp]: "b < SLAB_BUCKETS \<Longrightarrow> c < int NR_CPUS \<Longrightarrow> slot b c \<in> slots"
  by (auto simp: slot_def slots_def NR_CPUS_def)

lemma get_slot: "get_cpubucket (snd (slot b c)) bk = get_cpubucket c bk"
  by (auto simp: slot_def get_cpubucket_def)

lemma cache_ok_slot: "cache_ok S cc own (slot b c) \<longleftrightarrow>
    chain (bb_memory S) (cb_freelist (get_cpubucket c (bkt S b))) (cc (slot b c)) \<and> (\<forall>x\<in>set (cc (slot b c)). belongs S own b x)"
  using get_slot [of b c "bkt S b"] by (simp add: cache_ok_def slot_def)

text \<open>What replacing the cache of one CPU leaves alone.\<close>

lemma set_cache_other:
  assumes "slab_layout S" "b < SLAB_BUCKETS" "c < int NR_CPUS" "i \<in> slots" "i \<noteq> slot b c" "bkt S b = bk"
  shows "cache_ok (set_bucket b (set_cpubucket c cb bk) S) (cc(slot b c := xs)) own i = cache_ok S cc own i"
proof -
  obtain b' c' where i: "i = (b', c')" by (cases i)
  have g: "get_cpubucket c' (bkt (set_bucket b (set_cpubucket c cb bk) S) b') = get_cpubucket c' (bkt S b')"
    using assms get_set_cpubucket [of c c' bk cb] by (auto simp: slab_layout_def i slot_def slots_def)
  have cc: "(cc(slot b c := xs)) (b', c') = cc (b', c')" using assms(5) i by simp
  have "belongs (set_bucket b (set_cpubucket c cb bk) S) = belongs S" by (rule belongs_cong) simp_all
  then show ?thesis unfolding cache_ok_def i prod.case g cc by simp
qed

lemma set_cache_self:
  assumes "slab_layout S" "b < SLAB_BUCKETS" "c < int NR_CPUS" "bkt S b = bk"
  shows "cache_ok (set_bucket b (set_cpubucket c cb bk) S) (cc(slot b c := xs)) own (slot b c) \<longleftrightarrow>
    chain (bb_memory S) (cb_freelist cb) xs \<and> (\<forall>x\<in>set xs. belongs S own b x)"
proof -
  have "belongs (set_bucket b (set_cpubucket c cb bk) S) = belongs S" by (rule belongs_cong) simp_all
  moreover have "get_cpubucket c (set_cpubucket c cb bk) = cb" "b < length (bb_buckets S)"
    using assms get_set_cpubucket [of c c bk cb] by (auto simp: slab_layout_def)
  ultimately show ?thesis by (simp add: cache_ok_slot)
qed

lemma set_cache_rest:
  assumes "slab_layout S" "b < SLAB_BUCKETS" "bkt S b = bk"
  shows "slab_layout (set_bucket b (set_cpubucket c cb bk) S)"
    "page_ok (set_bucket b (set_cpubucket c cb bk) S) = page_ok S"
    "slab_lists (set_bucket b (set_cpubucket c cb bk) S) = slab_lists S"
    "belongs (set_bucket b (set_cpubucket c cb bk) S) = belongs S"
proof -
  show "slab_layout (set_bucket b (set_cpubucket c cb bk) S)" using assms by (auto simp: slab_layout_def)
  show "page_ok (set_bucket b (set_cpubucket c cb bk) S) = page_ok S" by (simp add: page_ok_def fun_eq_iff split: option.splits)
  have "bk_free (bkt (set_bucket b (set_cpubucket c cb bk) S) b') = bk_free (bkt S b')"
    "bk_partial (bkt (set_bucket b (set_cpubucket c cb bk) S) b') = bk_partial (bkt S b')" for b'
    using assms by (auto simp: slab_layout_def)
  then show "slab_lists (set_bucket b (set_cpubucket c cb bk) S) = slab_lists S" by (simp add: slab_lists_def fun_eq_iff)
  show "belongs (set_bucket b (set_cpubucket c cb bk) S) = belongs S" by (rule belongs_cong) simp_all
qed

text \<open>A CPU takes the first object of its list.\<close>

lemma pop_inv:
  assumes inv: "slab_inv S pg cc own live" and b: "b < SLAB_BUCKETS" "c < int NR_CPUS"
    and alloc: "cpubucket_alloc (bb_memory S) (get_cpubucket c (bkt S b)) = (cb, Some x)"
  shows "\<exists>cc'. slab_inv (set_bucket b (set_cpubucket c cb (bkt S b)) S) pg cc' own (live(x \<mapsto> b))"
    "live x = None" "belongs S own b x"
proof -
  let ?i = "slot b c" and ?S = "set_bucket b (set_cpubucket c cb (bkt S b)) S"
  have lay: "slab_layout S" and ok: "cache_ok S cc own ?i" using inv b by (auto simp: slab_inv_def)
  have x: "x = cb_freelist (get_cpubucket c (bkt S b))" "x \<noteq> NULL" "cb_freelist cb = bb_memory S x"
    using alloc by (auto simp: cpubucket_alloc_def split: if_splits)
  then obtain xs where xs: "cc ?i = x # xs" "chain (bb_memory S) (cb_freelist cb) xs"
    using chain_nonNULL ok by (metis cache_ok_slot)
  show "belongs S own b x" using ok xs by (simp add: cache_ok_slot)
  show none: "live x = None" using live_not_free(2) [OF inv, of x _ ?i] b xs by (cases "live x") auto
  let ?cc = "cc(?i := xs)"
  have "(\<Sum>i\<in>slots. mset (cc i)) = add_mset x (\<Sum>i\<in>slots. mset (?cc i))"
    using sum_mset_upd [of slots ?i cc xs] b xs by simp
  then have "slab_count ?S pg ?cc own (live(x \<mapsto> b))" using inv none
    by (simp add: slab_inv_def slab_count_def domIff)
  moreover have "\<forall>i\<in>slots. cache_ok ?S ?cc own i"
  proof
    fix i
    assume "i \<in> slots"
    then show "cache_ok ?S ?cc own i"
      using inv ok xs set_cache_other [OF lay b] set_cache_self [OF lay b refl, of cb cc xs own]
      by (cases "i = ?i") (auto simp: slab_inv_def cache_ok_slot)
  qed
  ultimately have "slab_inv ?S pg ?cc own (live(x \<mapsto> b))"
    using inv \<open>belongs S own b x\<close> by (simp add: slab_inv_def set_cache_rest [OF lay b(1) refl])
  then show "\<exists>cc'. slab_inv ?S pg cc' own (live(x \<mapsto> b))" by blast
qed

text \<open>The free lists have no repetitions, and no object that is in use.\<close>

lemma page_list_distinct:
  assumes inv: "slab_inv S pg cc own live" and p: "p < npages S"
  shows "distinct (pg p)" "x \<in> set (pg p) \<Longrightarrow> live x = None"
proof -
  have "\<And>p b. p < npages S \<Longrightarrow> own p = Some b \<Longrightarrow> b < SLAB_BUCKETS"
    using inv page_ok_bucket by (auto simp: slab_inv_def)
  then have "count (\<Sum>p<npages S. owned (bb_pages_start S) own p) x \<le> 1" for x by (rule owned_once)
  then have "count (\<Sum>p<npages S. mset (pg p)) x \<le> 1" for x
    using inv unfolding slab_inv_def slab_count_def by (metis add_leD1 count_union)
  then have "count (mset (pg p)) x \<le> 1" for x
    using p unfolding sum.remove [OF finite_lessThan, of p, simplified, OF p] by (metis add_leD1 count_union)
  moreover have "x \<in> set (pg p) \<Longrightarrow> 0 < count (mset (pg p)) x" for x by simp
  ultimately show "distinct (pg p)" by (metis distinct_count_atmost_1 count_mset_0_iff le_less_Suc_eq One_nat_def le_antisym Suc_leI)
  show "x \<in> set (pg p) \<Longrightarrow> live x = None" using live_not_free(1) [OF inv _ p] by (cases "live x") auto
qed

text \<open>Writing to an object that is in use.\<close>

lemma write_inv:
  assumes inv: "slab_inv S pg cc own live" and x: "live x = Some b"
  shows "slab_inv (S \<lparr> bb_memory := (bb_memory S)(x := v) \<rparr>) pg cc own live"
proof -
  let ?S = "S \<lparr> bb_memory := (bb_memory S)(x := v) \<rparr>"
  have [simp]: "belongs ?S = belongs S" by (rule belongs_cong) simp_all
  have "page_ok ?S pg own p" if "p < npages S" for p
    using inv that live_not_free(1) [OF inv x that] by (auto simp: slab_inv_def page_ok_def split: option.splits)
  moreover have "cache_ok ?S cc own i" if "i \<in> slots" for i
    using inv that live_not_free(2) [OF inv x that] by (cases i) (auto simp: slab_inv_def cache_ok_def)
  ultimately show ?thesis using inv by (simp add: slab_inv_def slab_layout_def slab_count_def slab_lists_def)
qed

text \<open>The live map while the objects \<open>xs\<close> of bucket \<open>b\<close> are between two lists.\<close>

definition in_flight :: "nat \<Rightarrow> addr list \<Rightarrow> (addr \<rightharpoonup> nat) \<Rightarrow> addr \<rightharpoonup> nat" where
  "in_flight b xs live = (\<lambda>x. if x \<in> set xs then Some b else live x)"

lemma in_flight_back: "(\<And>x. x \<in> set xs \<Longrightarrow> live x = None) \<Longrightarrow> in_flight b xs live |` (- set xs) = live"
  by (auto simp: in_flight_def restrict_map_def fun_eq_iff)

lemma mset_set_in_flight:
  assumes "distinct xs" "\<And>x. x \<in> set xs \<Longrightarrow> live x = None" "finite (dom live)"
  shows "mset_set (dom (in_flight b xs live)) = mset xs + mset_set (dom live)"
proof -
  have "dom (in_flight b xs live) = set xs \<union> dom live" by (auto simp: in_flight_def split: if_splits)
  moreover have "set xs \<inter> dom live = {}" using assms(2) by auto
  ultimately show ?thesis using assms mset_set_Union [of "set xs" "dom live"] by (simp add: mset_set_set)
qed

lemma mset_set_restrict:
  assumes "distinct xs" "set xs \<subseteq> dom live" "finite (dom live)"
  shows "mset_set (dom live) = mset xs + mset_set (dom (live |` (- set xs)))"
proof -
  have "dom live = set xs \<union> dom (live |` (- set xs))" "set xs \<inter> dom (live |` (- set xs)) = {}" using assms(2) by auto
  then show ?thesis using assms mset_set_Union [of "set xs" "dom (live |` (- set xs))"] by (simp add: mset_set_set)
qed

text \<open>A CPU gets a list of objects in front of its own.\<close>

lemma attach_inv:
  assumes inv: "slab_inv S pg cc own live" and b: "b < SLAB_BUCKETS" "c < int NR_CPUS"
    and xs: "distinct xs" "\<And>x. x \<in> set xs \<Longrightarrow> live x = Some b"
    and ch: "chain (bb_memory S) (cb_freelist cb) (xs @ cc (slot b c))"
  shows "slab_inv (set_bucket b (set_cpubucket c cb (bkt S b)) S) pg (cc(slot b c := xs @ cc (slot b c))) own (live |` (- set xs))"
proof -
  let ?i = "slot b c" and ?S = "set_bucket b (set_cpubucket c cb (bkt S b)) S"
  let ?cc = "cc(?i := xs @ cc ?i)"
  have lay: "slab_layout S" and ok: "cache_ok S cc own ?i" using inv b by (auto simp: slab_inv_def)
  have bel: "\<forall>x\<in>set xs. belongs S own b x" using inv xs(2) by (auto simp: slab_inv_def)
  have "set xs \<subseteq> dom live" using xs(2) by auto
  moreover have "finite (dom live)" using inv by (simp add: slab_inv_def slab_count_def)
  ultimately have "mset_set (dom live) = mset xs + mset_set (dom (live |` (- set xs)))" by (rule mset_set_restrict [OF xs(1)])
  moreover have "(\<Sum>i\<in>slots. mset (?cc i)) = (\<Sum>i\<in>slots. mset (cc i)) + mset xs"
    using sum_mset_upd [of slots ?i cc "xs @ cc ?i"] b by simp
  ultimately have "slab_count ?S pg ?cc own (live |` (- set xs))"
    using inv by (simp add: slab_inv_def slab_count_def)
  moreover have "\<forall>i\<in>slots. cache_ok ?S ?cc own i"
  proof
    fix i
    assume "i \<in> slots"
    then show "cache_ok ?S ?cc own i"
      using inv ok ch bel set_cache_other [OF lay b] set_cache_self [OF lay b refl, of cb cc "xs @ cc ?i" own]
      by (cases "i = ?i") (auto simp: slab_inv_def cache_ok_slot)
  qed
  moreover have "\<forall>x b. (live |` (- set xs)) x = Some b \<longrightarrow> belongs S own b x" using inv by (simp add: slab_inv_def restrict_map_def)
  ultimately show ?thesis using inv by (simp add: slab_inv_def set_cache_rest [OF lay b(1) refl])
qed

text \<open>Everything a step on one page has to show.\<close>

lemma page_step:
  assumes inv: "slab_inv S pg cc own live"
    and same: "npages S' = npages S" "bb_pages_start S' = bb_pages_start S" "slab_layout S'"
      "\<And>b c. (b, c) \<in> slots \<Longrightarrow> get_cpubucket c (bkt S' b) = get_cpubucket c (bkt S b)"
      "\<And>q. q < npages S \<Longrightarrow> q \<noteq> p \<Longrightarrow> pgm S' q = pgm S q"
    and mem: "\<And>q x. q < npages S \<Longrightarrow> q \<noteq> p \<Longrightarrow> x \<in> set (pg q) \<Longrightarrow> bb_memory S' x = bb_memory S x"
      "\<And>i x. i \<in> slots \<Longrightarrow> x \<in> set (cc i) \<Longrightarrow> bb_memory S' x = bb_memory S x"
    and bel: "\<And>b c x. (b, c) \<in> slots \<Longrightarrow> x \<in> set (cc (b, c)) \<Longrightarrow> belongs S (own(p := v)) b x"
      "\<And>x b. live' x = Some b \<Longrightarrow> belongs S (own(p := v)) b x"
    and new: "page_ok S' (pg(p := ys)) (own(p := v)) p" "slab_count S' (pg(p := ys)) cc (own(p := v)) live'"
      "slab_lists S' (pg(p := ys)) (own(p := v))"
  shows "slab_inv S' (pg(p := ys)) cc (own(p := v)) live'"
proof -
  have b: "belongs S' = belongs S" by (rule belongs_cong) (simp_all add: same)
  have "page_ok S' (pg(p := ys)) (own(p := v)) q" if q: "q < npages S" for q
  proof (cases "q = p")
    case False
    then have "chain (bb_memory S') a (pg q) = chain (bb_memory S) a (pg q)" for a using mem(1) q by (intro chain_cong) auto
    then show ?thesis using inv q False by (auto simp: slab_inv_def page_ok_def same split: option.splits)
  qed (simp add: new)
  moreover have "cache_ok S' cc (own(p := v)) i" if i: "i \<in> slots" for i
  proof -
    obtain b' c' where bc: "i = (b', c')" by (cases i)
    have "chain (bb_memory S') a (cc i) = chain (bb_memory S) a (cc i)" for a using mem(2) i by (intro chain_cong) auto
    then show ?thesis using inv i bel(1) by (auto simp: slab_inv_def cache_ok_def same b bc)
  qed
  ultimately show ?thesis using bel(2) same new by (simp add: slab_inv_def b del: fun_upd_apply)
qed

lemma owned_same: "own p = Some b \<Longrightarrow> own(p := Some b) = own"
  by auto

lemma slab_inv_belongs:
  assumes "slab_inv S pg cc own live"
  shows "(b, c) \<in> slots \<Longrightarrow> x \<in> set (cc (b, c)) \<Longrightarrow> belongs S own b x" "live x = Some b \<Longrightarrow> belongs S own b x"
  using assms by (auto simp: slab_inv_def cache_ok_def)

text \<open>A page with free objects is taken out of the lists of pages; its objects are in flight.\<close>

lemma detach_inv:
  assumes inv: "slab_inv S pg cc own live" and p: "p < npages S" "own p = Some b"
    and lists: "distinct (bk_free bk)" "distinct (bk_partial bk)"
      "set (bk_free bk) = set (bk_free (bkt S b)) - {p}" "set (bk_partial bk) = set (bk_partial (bkt S b)) - {p}"
    and bk: "obj_size bk = obj_size (bkt S b)" "slow_bucket bk = slow_bucket (bkt S b)" "cpubuckets bk = cpubuckets (bkt S b)"
    and md: "pm_freelist md = NULL" "inuse_chunks md = chunks b" "pm_addr md = pm_addr (pgm S p)"
  shows "slab_inv (set_metadata p md (set_bucket b bk S)) (pg(p := [])) cc own (in_flight b (pg p) live)"
proof -
  let ?S = "set_metadata p md (set_bucket b bk S)"
  have lay: "slab_layout S" and ok: "page_ok S pg own p" using inv p by (auto simp: slab_inv_def)
  have b: "b < SLAB_BUCKETS" using page_ok_bucket [OF ok p(2)] .
  have bl: "b < length (bb_buckets S)" using lay b by (simp add: slab_layout_def)
  have fl: "mset_set (dom (in_flight b (pg p) live)) = mset (pg p) + mset_set (dom live)"
    using inv page_list_distinct [OF inv p(1)] by (intro mset_set_in_flight) (auto simp: slab_inv_def slab_count_def)
  have "(\<Sum>q<npages S. mset (pg q)) = (\<Sum>q<npages S. mset ((pg(p := [])) q)) + mset (pg p)"
    using sum_mset_upd [of "{..<npages S}" p pg "[]"] p(1) by simp
  moreover have "dom (in_flight b (pg p) live) = set (pg p) \<union> dom live" by (auto simp: in_flight_def split: if_splits)
  ultimately have cnt: "slab_count ?S (pg(p := [])) cc own (in_flight b (pg p) live)"
    using inv fl by (simp add: slab_inv_def slab_count_def)
  have "slab_inv ?S (pg(p := [])) cc (own(p := Some b)) (in_flight b (pg p) live)"
  proof (rule page_step [OF inv])
    show "slab_layout ?S" using lay b p(1) bk md by (auto simp: slab_layout_def)
    show "get_cpubucket c (bkt ?S b') = get_cpubucket c (bkt S b')" for b' c
      using bl bk by (auto simp: get_cpubucket_def)
    show "page_ok ?S (pg(p := [])) (own(p := Some b)) p" using b p md by (simp add: page_ok_def)
    show "slab_lists ?S (pg(p := [])) (own(p := Some b))"
      unfolding owned_same [of own p b, OF p(2)] using inv lists bl chunks_ge p(2) by (force simp: slab_inv_def slab_lists_def)
    show "belongs S (own(p := Some b)) b' x" if "in_flight b (pg p) live x = Some b'" for x b'
      using that slab_inv_belongs(2) [OF inv] page_ok_objs [OF ok, of x] p
      by (auto simp: owned_same in_flight_def belongs_def split: if_splits)
  qed (use p cnt slab_inv_belongs(1) [OF inv] in \<open>auto simp: owned_same\<close>)
  then show ?thesis by (simp only: owned_same [of own p b, OF p(2)])
qed

text \<open>A new page: its objects are linked.\<close>

lemma link_objects_apply:
  assumes "0 < stride"
  shows "link_objects base stride n mem a = (if \<exists>i<n. a = base + 8 * (i * stride) then a + 8 * stride else mem a)"
  using assms by (induction n) (auto simp: link_objects_def less_Suc_eq algebra_simps)

lemma chain_objs:
  assumes "\<And>i. i < n \<Longrightarrow> mem (base + i * s) = (if Suc i = n then NULL else base + Suc i * s)" "0 < base" "k < n"
  shows "chain mem (base + k * s) (map (\<lambda>i. base + i * s) [k..<n])"
  using assms(3)
proof (induction "n - k" arbitrary: k)
  case (Suc d)
  show ?case
  proof (cases "Suc k = n")
    case True
    then show ?thesis using assms(1) [of k] assms(2) Suc.prems by (simp add: upt_rec)
  next
    case False
    then have "chain mem (base + Suc k * s) (map (\<lambda>i. base + i * s) [Suc k..<n])" using Suc by (intro Suc.hyps) auto
    then show ?thesis using assms(1) [of k] assms(2) Suc.prems False by (subst upt_conv_Cons) auto
  qed
qed simp

lemma bucket_initialize_page_chain:
  assumes "bucket_initialize_page bk md mem = (md', mem')" "obj_size bk = cls b" "b < SLAB_BUCKETS" "pm_addr md = page_base st p" "0 < st"
  shows "chain mem' (page_base st p) (objs st b p)" "x \<notin> set (objs st b p) \<Longrightarrow> mem' x = mem x"
    "md' = md \<lparr> pm_freelist := page_base st p, inuse_chunks := 0 \<rparr>"
proof -
  let ?n = "chunks b" and ?s = "cls b" and ?B = "page_base st p"
  have n: "bucket_objinpage bk = ?n" "4 \<le> ?n" using assms(2) chunks_ge [OF assms(3)] by (simp_all add: bucket_objinpage_def chunks_def)
  have mul: "8 * (i * (?s div 8)) = i * ?s" for i using cls_word [of b] by (metis mult.left_commute)
  have m: "mem' = (link_objects ?B (?s div 8) ?n mem)(?B + (?n - 1) * ?s := NULL)" and md: "md' = md \<lparr> pm_freelist := ?B, inuse_chunks := 0 \<rparr>"
    using assms(1,2,4) n by (auto simp: bucket_initialize_page_def Let_def mul)
  have pos: "0 < ?s div 8" using cls_word [of b] cls_pos [of b] by (cases "?s div 8") auto
  show "md' = md \<lparr> pm_freelist := ?B, inuse_chunks := 0 \<rparr>" by (rule md)
  show "x \<notin> set (objs st b p) \<Longrightarrow> mem' x = mem x" using n(2) by (auto simp: m link_objects_apply [OF pos] mul objs_def)
  have "mem' (?B + i * ?s) = (if Suc i = ?n then NULL else ?B + Suc i * ?s)" if "i < ?n" for i
    using that cls_word [of b] by (auto simp: m link_objects_apply [OF pos] mul)
  then have "chain mem' (?B + 0 * ?s) (map (\<lambda>i. ?B + i * ?s) [0..<?n])"
    using n(2) assms(5) by (intro chain_objs) (auto simp: page_base_def)
  then show "chain mem' ?B (objs st b p)" by (simp add: objs_def)
qed

lemma init_inv:
  assumes inv: "slab_inv S pg cc own live" and p: "bb_free_pages S = p # ps" and b: "b < SLAB_BUCKETS"
    and mem: "\<And>x. x \<notin> set (objs (bb_pages_start S) b p) \<Longrightarrow> mem x = bb_memory S x"
    and md: "pm_freelist md = NULL" "inuse_chunks md = chunks b" "pm_addr md = pm_addr (pgm S p)"
  shows "slab_inv (set_metadata p md (S \<lparr> bb_free_pages := ps, bb_memory := mem \<rparr>)) (pg(p := [])) cc (own(p := Some b))
      (in_flight b (objs (bb_pages_start S) b p) live)"
    "p < npages S" "x \<in> set (objs (bb_pages_start S) b p) \<Longrightarrow> live x = None"
proof -
  let ?o = "objs (bb_pages_start S) b p"
  let ?S = "set_metadata p md (S \<lparr> bb_free_pages := ps, bb_memory := mem \<rparr>)"
  have lay: "slab_layout S" using inv by (auto simp: slab_inv_def)
  have pn: "p < npages S" "own p = None" "p \<notin> set ps" using inv p by (auto simp: slab_inv_def slab_lists_def)
  have out: "x \<notin> set ?o" if "belongs S own b' x" "b' < SLAB_BUCKETS" for b' x
    using that pn(2) objs_pages_disjoint [OF _ _ b that(2)] unfolding belongs_def by (metis option.distinct(1))
  have bel: "belongs S (own(p := Some b)) b' x" if "belongs S own b' x" for b' x
    using that pn(2) unfolding belongs_def by (metis fun_upd_other option.distinct(1))
  have lb: "b' < SLAB_BUCKETS" if "belongs S own b' x" for b' x
    using that inv page_ok_bucket unfolding belongs_def slab_inv_def by blast
  show "p < npages S" by (rule pn)
  show none: "x \<in> set ?o \<Longrightarrow> live x = None" for x
    using out lb slab_inv_belongs(2) [OF inv] by (cases "live x") blast+
  have fin: "finite (dom live)" using inv by (simp add: slab_inv_def slab_count_def)
  have "page_ok S pg own p" using inv pn by (simp add: slab_inv_def)
  then have pgp: "pg(p := []) = pg" using pn(2) by (auto simp: page_ok_def)
  have fl: "mset_set (dom (in_flight b ?o live)) = mset ?o + mset_set (dom live)" "finite (dom (in_flight b ?o live))"
    using mset_set_in_flight [OF distinct_objs none fin] fin by (auto simp: in_flight_def dom_def intro: finite_subset [of _ "set ?o \<union> dom live"])
  have "(\<Sum>q<npages S. owned (bb_pages_start S) (own(p := Some b)) q) = (\<Sum>q<npages S. owned (bb_pages_start S) own q) + mset ?o"
    using owned_upd [of "{..<npages S}" p "bb_pages_start S" own "Some b"] pn by (simp add: owned_def)
  then have cnt: "slab_count ?S (pg(p := [])) cc (own(p := Some b)) (in_flight b ?o live)"
    using inv fl by (simp add: slab_inv_def slab_count_def pgp)
  show "slab_inv ?S (pg(p := [])) cc (own(p := Some b)) (in_flight b ?o live)"
  proof (rule page_step [OF inv])
    show "slab_layout ?S" using lay pn md by (auto simp: slab_layout_def)
    show "page_ok ?S (pg(p := [])) (own(p := Some b)) p" using b pn md by (simp add: page_ok_def)
    have l0: "length (pg p) = 0" using pgp by (metis fun_upd_same list.size(3))
    have "{q. q < npages S \<and> (own(p := Some b)) q = Some b' \<and> length (pg q) = chunks b'} =
        {q. q < npages S \<and> own q = Some b' \<and> length (pg q) = chunks b'}"
      "{q. q < npages S \<and> (own(p := Some b)) q = Some b' \<and> 0 < length (pg q) \<and> length (pg q) < chunks b'} =
        {q. q < npages S \<and> own q = Some b' \<and> 0 < length (pg q) \<and> length (pg q) < chunks b'}" if "b' < SLAB_BUCKETS" for b'
      using chunks_ge [OF that] pn(2) l0 by (auto split: if_splits)
    moreover have "{q. q < npages S \<and> (own(p := Some b)) q = None} = set ps" "distinct ps"
      using inv pn p by (auto simp: slab_inv_def slab_lists_def)
    ultimately show "slab_lists ?S (pg(p := [])) (own(p := Some b))"
      using inv unfolding pgp by (simp add: slab_inv_def slab_lists_def del: fun_upd_apply)
    show "belongs S (own(p := Some b)) b' x" if "in_flight b ?o live x = Some b'" for x b'
    proof (cases "x \<in> set ?o")
      case True
      then show ?thesis using that pn by (auto simp: in_flight_def belongs_def)
    qed (use that bel slab_inv_belongs(2) [OF inv] in \<open>auto simp: in_flight_def\<close>)
    show "bb_memory ?S x = bb_memory S x" if "i \<in> slots" "x \<in> set (cc i)" for i x
    proof -
      obtain b' c' where "i = (b', c')" by (cases i)
      then have "belongs S own b' x" using that slab_inv_belongs(1) [OF inv] by blast
      then show ?thesis using out lb mem by simp
    qed
    show "bb_memory ?S x = bb_memory S x" if q: "q < npages S" "q \<noteq> p" "x \<in> set (pg q)" for q x
    proof -
      obtain b' where "own q = Some b'" "x \<in> set (objs (bb_pages_start S) b' q)" "page_ok S pg own q"
        using inv q page_ok_objs unfolding slab_inv_def by blast
      then have "x \<notin> set ?o" using objs_pages_disjoint [OF _ _ b] page_ok_bucket q(2) by blast
      then show ?thesis using mem by simp
    qed
  qed (use pn cnt bel slab_inv_belongs(1) [OF inv] in auto)
qed

text \<open>An object in use goes back to the list of its page.\<close>

lemma mset_set_dom_upd:
  assumes "live x = Some b" "finite (dom live)"
  shows "mset_set (dom live) = add_mset x (mset_set (dom (live(x := None))))"
  using assms mset_set.remove [of "dom live" x] by (auto simp: domI)

lemma put_inv:
  assumes inv: "slab_inv S pg cc own live" and x: "live x = Some b" and p: "p = page_metadata_from_block S x"
    and ch: "bb_memory S x = pm_freelist (pgm S p)"
    and lists: "distinct (bk_free bk)" "distinct (bk_partial bk)"
      "set (bk_free bk) = set (bk_free (bkt S b)) \<union> (if Suc (length (pg p)) = chunks b then {p} else {})"
      "set (bk_partial bk) = (if Suc (length (pg p)) = chunks b then set (bk_partial (bkt S b)) - {p} else insert p (set (bk_partial (bkt S b))))"
    and bk: "obj_size bk = obj_size (bkt S b)" "slow_bucket bk = slow_bucket (bkt S b)" "cpubuckets bk = cpubuckets (bkt S b)"
    and md: "pm_freelist md = x" "inuse_chunks md + 1 = inuse_chunks (pgm S p)" "pm_addr md = pm_addr (pgm S p)"
  shows "slab_inv (set_bucket b bk (set_metadata p md S)) (pg(p := x # pg p)) cc own (live(x := None))"
proof -
  let ?S = "set_bucket b bk (set_metadata p md S)"
  have lay: "slab_layout S" using inv by (auto simp: slab_inv_def)
  have bel: "belongs S own b x" using slab_inv_belongs(2) [OF inv x] .
  then have b: "b < SLAB_BUCKETS" using inv page_ok_bucket unfolding belongs_def slab_inv_def by blast
  have pn: "p < npages S" "own p = Some b" "x \<in> set (objs (bb_pages_start S) b p)" using belongs_page [OF bel b] p by simp_all
  have ok: "page_ok S pg own p" using inv pn by (simp add: slab_inv_def)
  have bl: "b < length (bb_buckets S)" using lay b by (simp add: slab_layout_def)
  have len: "length (pg p) < chunks b" using ok pn md(2) by (simp add: page_ok_def)
  have "(\<Sum>q<npages S. mset ((pg(p := x # pg p)) q)) = add_mset x (\<Sum>q<npages S. mset (pg q))"
    using sum_mset_upd [of "{..<npages S}" p pg "x # pg p"] pn(1) by simp
  then have cnt: "slab_count ?S (pg(p := x # pg p)) cc own (live(x := None))"
    using inv mset_set_dom_upd [of live x b, OF x] by (simp add: slab_inv_def slab_count_def)
  have "slab_inv ?S (pg(p := x # pg p)) cc (own(p := Some b)) (live(x := None))"
  proof (rule page_step [OF inv])
    show "slab_layout ?S" using lay b pn(1) bk md by (auto simp: slab_layout_def)
    show "get_cpubucket c (bkt ?S b') = get_cpubucket c (bkt S b')" for b' c
      using bl bk by (auto simp: get_cpubucket_def)
    show "page_ok ?S (pg(p := x # pg p)) (own(p := Some b)) p"
      using ok pn md ch belongs_nonnull [OF bel lay] by (simp add: page_ok_def)
    have "{q. q < npages S \<and> own q = Some b' \<and> length ((pg(p := x # pg p)) q) = chunks b'} = set (bk_free (bkt ?S b'))"
      "{q. q < npages S \<and> own q = Some b' \<and> 0 < length ((pg(p := x # pg p)) q) \<and> length ((pg(p := x # pg p)) q) < chunks b'} =
        set (bk_partial (bkt ?S b'))" if "b' < SLAB_BUCKETS" for b'
      using inv that lists(3,4) bl pn len by (auto simp: slab_inv_def slab_lists_def split: if_splits)
    then show "slab_lists ?S (pg(p := x # pg p)) (own(p := Some b))"
      unfolding owned_same [of own p b, OF pn(2)] using inv lists(1,2) bl by (simp add: slab_inv_def slab_lists_def del: fun_upd_apply)
    show "belongs S (own(p := Some b)) b' y" if "(live(x := None)) y = Some b'" for y b'
      using that slab_inv_belongs(2) [OF inv] pn by (auto simp: owned_same split: if_splits)
  qed (use pn cnt slab_inv_belongs(1) [OF inv] in \<open>auto simp: owned_same\<close>)
  then show ?thesis by (simp only: owned_same [of own p b, OF pn(2)])
qed

text \<open>The last object in use of a page: the page leaves the bucket.\<close>

lemma cache_not_page:
  assumes inv: "slab_inv S pg cc own live" and i: "i \<in> slots" "x \<in> set (cc i)"
  shows "q < npages S \<Longrightarrow> x \<notin> set (pg q)" "live x = None"
proof -
  have "\<And>p b. p < npages S \<Longrightarrow> own p = Some b \<Longrightarrow> b < SLAB_BUCKETS"
    using inv page_ok_bucket by (auto simp: slab_inv_def)
  then have "count (\<Sum>p<npages S. owned (bb_pages_start S) own p) x \<le> 1" by (rule owned_once)
  moreover have "0 < count (\<Sum>i\<in>slots. mset (cc i)) x"
    using i by (auto simp: count_sum count_greater_zero_iff intro!: sum_pos2)
  moreover have "count (\<Sum>p<npages S. owned (bb_pages_start S) own p) x =
      count (\<Sum>p<npages S. mset (pg p)) x + count (\<Sum>i\<in>slots. mset (cc i)) x + count (mset_set (dom live)) x"
    using inv by (simp add: slab_inv_def slab_count_def)
  ultimately have "count (\<Sum>p<npages S. mset (pg p)) x = 0" by linarith
  then show "q < npages S \<Longrightarrow> x \<notin> set (pg q)" by (auto simp: count_sum)
  show "live x = None" using live_not_free(2) [OF inv _ i(1)] i(2) by (cases "live x") auto
qed

lemma release_inv:
  assumes inv: "slab_inv S pg cc own live" and x: "live x = Some b" and p: "p = page_metadata_from_block S x"
    and last_used: "Suc (length (pg p)) = chunks b"
    and lists: "distinct (bk_partial bk)" "bk_free bk = bk_free (bkt S b)" "set (bk_partial bk) = set (bk_partial (bkt S b)) - {p}"
    and bk: "obj_size bk = obj_size (bkt S b)" "slow_bucket bk = slow_bucket (bkt S b)" "cpubuckets bk = cpubuckets (bkt S b)"
    and md: "pm_addr md = pm_addr (pgm S p)"
  shows "slab_inv (bfree p (set_bucket b bk (set_metadata p md S))) (pg(p := [])) cc (own(p := None)) (live(x := None))"
proof -
  let ?S = "bfree p (set_bucket b bk (set_metadata p md S))" and ?o = "objs (bb_pages_start S) b p"
  have lay: "slab_layout S" using inv by (auto simp: slab_inv_def)
  have bel: "belongs S own b x" using slab_inv_belongs(2) [OF inv x] .
  then have b: "b < SLAB_BUCKETS" using inv page_ok_bucket unfolding belongs_def slab_inv_def by blast
  have pn: "p < npages S" "own p = Some b" "x \<in> set ?o" using belongs_page [OF bel b] p by simp_all
  have ok: "page_ok S pg own p" using inv pn by (simp add: slab_inv_def)
  have bl: "b < length (bb_buckets S)" using lay b by (simp add: slab_layout_def)
  have S [simp]: "npages ?S = npages S" "bb_pages_start ?S = bb_pages_start S" "bb_memory ?S = bb_memory S"
    "bb_free_pages ?S = p # bb_free_pages S" "bb_buckets ?S = bb_buckets (set_bucket b bk S)" "bb_metadata ?S = bb_metadata (set_metadata p md S)"
    by (simp_all add: bfree_def npages_def set_bucket_def set_metadata_def)
  have d: "distinct (x # pg p)" "set (x # pg p) \<subseteq> set ?o"
    using page_list_distinct(1) [OF inv pn(1)] live_not_free(1) [OF inv x pn(1)] ok pn by (auto simp: page_ok_def)
  moreover have "card (set (x # pg p)) = card (set ?o)"
    using last_used d(1) distinct_objs [of "bb_pages_start S" b p] by (simp only: distinct_card length_objs length_Cons)
  ultimately have o: "set (x # pg p) = set ?o" by (intro card_subset_eq) auto
  then have mo: "mset ?o = add_mset x (mset (pg p))" using d(1) distinct_objs by (metis mset.simps(2) set_eq_iff_mset_eq_distinct)
  have stay: "belongs S (own(p := None)) b' y" if "belongs S own b' y" "y \<notin> set ?o" for b' y
    using that pn(2) unfolding belongs_def by (metis fun_upd_other option.inject)
  have "(\<Sum>q<npages S. owned (bb_pages_start S) own q) = (\<Sum>q<npages S. owned (bb_pages_start S) (own(p := None)) q) + mset ?o"
    using owned_upd [of "{..<npages S}" p "bb_pages_start S" own None] pn by (simp add: owned_def)
  moreover have "(\<Sum>q<npages S. mset (pg q)) = (\<Sum>q<npages S. mset ((pg(p := [])) q)) + mset (pg p)"
    using sum_mset_upd [of "{..<npages S}" p pg "[]"] pn(1) by simp
  ultimately have cnt: "slab_count ?S (pg(p := [])) cc (own(p := None)) (live(x := None))"
    using inv mset_set_dom_upd [of live x b, OF x] by (simp add: slab_inv_def slab_count_def mo del: fun_upd_apply)
  show ?thesis
  proof (rule page_step [OF inv])
    show "slab_layout ?S" using lay b pn(1) bk md by (auto simp: slab_layout_def)
    show "get_cpubucket c (bkt ?S b') = get_cpubucket c (bkt S b')" for b' c
      using bl bk by (auto simp: get_cpubucket_def)
    show "page_ok ?S (pg(p := [])) (own(p := None)) p" by (simp add: page_ok_def)
    have "{q. q < npages S \<and> (own(p := None)) q = Some b' \<and> length ((pg(p := [])) q) = chunks b'} = set (bk_free (bkt ?S b'))"
      "{q. q < npages S \<and> (own(p := None)) q = Some b' \<and> 0 < length ((pg(p := [])) q) \<and> length ((pg(p := [])) q) < chunks b'} =
        set (bk_partial (bkt ?S b'))" if "b' < SLAB_BUCKETS" for b'
      using inv that lists(2,3) bl pn last_used by (auto simp: slab_inv_def slab_lists_def split: if_splits)
    moreover have "{q. q < npages S \<and> (own(p := None)) q = None} = set (p # bb_free_pages S)" "p \<notin> set (bb_free_pages S)"
      using inv pn by (auto simp: slab_inv_def slab_lists_def)
    ultimately show "slab_lists ?S (pg(p := [])) (own(p := None))"
      using inv lists(1,2) bl by (simp add: slab_inv_def slab_lists_def del: fun_upd_apply)
    show "belongs S (own(p := None)) b' y" if "(live(x := None)) y = Some b'" for y b'
    proof -
      have y: "y \<noteq> x" "live y = Some b'" using that by (auto split: if_splits)
      then have "y \<notin> set ?o" using o live_not_free(1) [OF inv y(2) pn(1)] by auto
      then show ?thesis using stay slab_inv_belongs(2) [OF inv y(2)] by blast
    qed
    show "belongs S (own(p := None)) b' y" if "(b', c) \<in> slots" "y \<in> set (cc (b', c))" for b' c y
    proof -
      have "y \<notin> set (pg p)" "y \<noteq> x" using cache_not_page [OF inv that] pn(1) x by auto
      then have "y \<notin> set ?o" using o by auto
      then show ?thesis using stay slab_inv_belongs(1) [OF inv that] by blast
    qed
  qed (use pn cnt in auto)
qed

end
