(* ===== verification/Slab_Correct.thy ===== *)
theory Slab_Correct
  imports Slab_Inv
begin

section \<open>Correctness of the slab allocator\<close>

text \<open>
  Allocation and release keep the invariant; an allocated block is new, lies inside a page, overlaps no other block in use, and neither operation
  writes to a block in use. These laws are the contract \<open>block_allocator\<close>, which the allocator fulfils; what a client may rely on along any sequence
  of requests is proved from the contract.
\<close>

subsection \<open>Allocation\<close>

text \<open>The states of the allocator with their objects in use.\<close>

definition slab_ok :: "backbone \<Rightarrow> (addr \<rightharpoonup> nat) \<Rightarrow> bool" where
  "slab_ok S live \<longleftrightarrow> (\<exists>pg cc own. slab_inv S pg cc own live)"

definition kept :: "backbone \<Rightarrow> backbone \<Rightarrow> (addr \<rightharpoonup> nat) \<Rightarrow> bool" where
  "kept S S' live \<longleftrightarrow> (\<forall>y b a. live y = Some b \<longrightarrow> y \<le> a \<longrightarrow> a < y + cls b \<longrightarrow> bb_memory S' a = bb_memory S a)"

lemma attach_flight:
  assumes inv: "slab_inv S pg cc own (in_flight b xs live)" and b: "b < SLAB_BUCKETS" "c < int NR_CPUS"
    and xs: "distinct xs" "xs \<noteq> []" "\<And>x. x \<in> set xs \<Longrightarrow> live x = None" "chain (bb_memory S) fl xs" and e: "cc (slot b c) = []"
  shows "\<exists>S' cc'. attach_page b c p fl S = Some S' \<and> slab_inv S' pg cc' own live \<and> bb_memory S' = bb_memory S \<and>
    cb_freelist (get_cpubucket c (bkt S' b)) \<noteq> NULL"
proof -
  let ?cb = "cpubucket_setpage p fl"
  let ?S = "set_bucket b (set_cpubucket c ?cb (bkt S b)) S"
  have fl: "fl \<noteq> NULL" using xs(2,4) by (cases xs) auto
  have lay: "slab_layout S" using inv by (simp add: slab_inv_def)
  have "slab_inv ?S pg (cc(slot b c := xs @ cc (slot b c))) own (in_flight b xs live |` (- set xs))"
    using xs(4) e by (intro attach_inv [OF inv b xs(1)]) (auto simp: in_flight_def cpubucket_setpage_def)
  then have "slab_inv ?S pg (cc(slot b c := xs @ cc (slot b c))) own live" using in_flight_back [of xs live] xs(3) by simp
  moreover have "get_cpubucket c (bkt ?S b) = ?cb"
    using lay b get_set_cpubucket [of c c "bkt S b" ?cb] by (auto simp: slab_layout_def)
  ultimately show ?thesis using fl
    by (intro exI [of _ ?S] exI [of _ "cc(slot b c := xs @ cc (slot b c))"]) (simp add: attach_page_def cpubucket_setpage_def)
qed

text \<open>The result of a refill: the CPU has objects, and nothing that is in use was touched.\<close>

definition refilled :: "backbone \<Rightarrow> nat \<Rightarrow> int \<Rightarrow> (addr \<rightharpoonup> nat) \<Rightarrow> backbone \<Rightarrow> bool" where
  "refilled S b c live S' \<longleftrightarrow> slab_ok S' live \<and> kept S S' live \<and> cb_freelist (get_cpubucket c (bkt S' b)) \<noteq> NULL"

lemma refill_listed:
  assumes inv: "slab_inv S pg cc own live" and b: "b < SLAB_BUCKETS" "c < int NR_CPUS" and e: "cc (slot b c) = []"
    and p: "p < npages S" "own p = Some b" "pg p \<noteq> []"
    and lists: "distinct (bk_free bk)" "distinct (bk_partial bk)"
      "set (bk_free bk) = set (bk_free (bkt S b)) - {p}" "set (bk_partial bk) = set (bk_partial (bkt S b)) - {p}"
    and bk: "obj_size bk = obj_size (bkt S b)" "slow_bucket bk = slow_bucket (bkt S b)" "cpubuckets bk = cpubuckets (bkt S b)"
  shows "\<exists>S'. attach_page b c p (pm_freelist (pgm S p))
      (set_metadata p ((pgm S p) \<lparr> pm_freelist := NULL, inuse_chunks := chunks b \<rparr>) (set_bucket b bk S)) = Some S' \<and> refilled S b c live S'"
proof -
  let ?S = "set_metadata p ((pgm S p) \<lparr> pm_freelist := NULL, inuse_chunks := chunks b \<rparr>) (set_bucket b bk S)"
  have inv': "slab_inv ?S (pg(p := [])) cc own (in_flight b (pg p) live)"
    by (rule detach_inv [OF inv p(1,2) lists bk]) simp_all
  have "chain (bb_memory S) (pm_freelist (pgm S p)) (pg p)" using inv p by (auto simp: slab_inv_def page_ok_def)
  then obtain S' cc' where S': "attach_page b c p (pm_freelist (pgm S p)) ?S = Some S'" "slab_inv S' (pg(p := [])) cc' own live"
    "bb_memory S' = bb_memory ?S" "cb_freelist (get_cpubucket c (bkt S' b)) \<noteq> NULL"
    using attach_flight [OF inv' b _ p(3) _ _ e, of "pm_freelist (pgm S p)" p] page_list_distinct [OF inv p(1)] by auto
  then show ?thesis by (auto simp: refilled_def slab_ok_def kept_def)
qed

lemma refill_new:
  assumes inv: "slab_inv S pg cc own live" and b: "b < SLAB_BUCKETS" "c < int NR_CPUS" and e: "cc (slot b c) = []"
    and p: "bb_free_pages S = p # ps" and init: "bucket_initialize_page (bkt S b) (pgm S p) (bb_memory S) = (md, mem)"
  shows "\<exists>S'. attach_page b c p (pm_freelist md)
      (set_metadata p (md \<lparr> inuse_chunks := chunks b, pm_freelist := NULL \<rparr>) (S \<lparr> bb_free_pages := ps, bb_memory := mem \<rparr>)) = Some S' \<and>
    refilled S b c live S'"
proof -
  let ?o = "objs (bb_pages_start S) b p"
  let ?S = "set_metadata p (md \<lparr> inuse_chunks := chunks b, pm_freelist := NULL \<rparr>) (S \<lparr> bb_free_pages := ps, bb_memory := mem \<rparr>)"
  have lay: "slab_layout S" using inv by (simp add: slab_inv_def)
  have pn: "p < npages S" "own p = None" using inv p by (auto simp: slab_inv_def slab_lists_def)
  have "obj_size (bkt S b) = cls b" "pm_addr (pgm S p) = page_base (bb_pages_start S) p" "0 < bb_pages_start S"
    using lay b pn by (auto simp: slab_layout_def)
  note page = bucket_initialize_page_chain [OF init this(1) b(1) this(2,3)]
  have inv': "slab_inv ?S (pg(p := [])) cc (own(p := Some b)) (in_flight b ?o live)"
    and none: "\<And>x. x \<in> set ?o \<Longrightarrow> live x = None"
    using init_inv [OF inv p b(1), of mem "md \<lparr> inuse_chunks := chunks b, pm_freelist := NULL \<rparr>"] page(2,3) by simp_all
  have "?o \<noteq> []" using chunks_ge [OF b(1)] by (metis length_objs list.size(3) not_numeral_le_zero)
  then obtain S' cc' where S': "attach_page b c p (pm_freelist md) ?S = Some S'" "slab_inv S' (pg(p := [])) cc' (own(p := Some b)) live"
    "bb_memory S' = mem" "cb_freelist (get_cpubucket c (bkt S' b)) \<noteq> NULL"
    using attach_flight [OF inv' b distinct_objs _ none _ e, of "pm_freelist md" p] page(1,3) by auto
  have "bb_memory S' a = bb_memory S a" if a: "live y = Some b'" "y \<le> a" "a < y + cls b'" for y b' a
  proof -
    obtain q where q: "q < npages S" "own q = Some b'" "y \<in> set (objs (bb_pages_start S) b' q)"
      using slab_inv_belongs(2) [OF inv a(1)] by (auto simp: belongs_def)
    have b': "b' < SLAB_BUCKETS" using inv q page_ok_bucket unfolding slab_inv_def by blast
    have "a \<notin> set ?o"
    proof
      assume "a \<in> set ?o"
      then have "a \<in> {a..<a + cls b} \<inter> {y..<y + cls b'}" using a by simp
      moreover have "p \<noteq> q" using pn(2) q(2) by auto
      ultimately show False using obj_blocks_disjoint [OF \<open>a \<in> set ?o\<close> q(3) b(1) b'] \<open>a \<in> set ?o\<close> none a(1) by fastforce
    qed
    then show ?thesis using page(2) S'(3) by simp
  qed
  then show ?thesis using S' by (auto simp: refilled_def slab_ok_def kept_def)
qed

lemma refill_ok:
  assumes inv: "slab_inv S pg cc own live" and b: "b < SLAB_BUCKETS" "c < int NR_CPUS" and e: "cc (slot b c) = []"
  shows "if bk_partial (bkt S b) = [] \<and> bk_free (bkt S b) = [] \<and> bb_free_pages S = [] then bucket_refill_cpu_cache [] b c S = None
    else \<exists>S'. bucket_refill_cpu_cache [] b c S = Some S' \<and> refilled S b c live S'"
proof -
  let ?bk = "bkt S b"
  have n: "bucket_objinpage ?bk = chunks b" using inv b by (simp add: slab_inv_def slab_layout_def bucket_objinpage_def chunks_def)
  have L: "distinct (bk_free ?bk)" "distinct (bk_partial ?bk)"
    "set (bk_free ?bk) = {p. p < npages S \<and> own p = Some b \<and> length (pg p) = chunks b}"
    "set (bk_partial ?bk) = {p. p < npages S \<and> own p = Some b \<and> 0 < length (pg p) \<and> length (pg p) < chunks b}"
    using inv b by (auto simp: slab_inv_def slab_lists_def)
  have F: "q < npages S \<and> own q = Some b \<and> length (pg q) = chunks b" if "q \<in> set (bk_free ?bk)" for q using that L(3) by blast
  have P: "q < npages S \<and> own q = Some b \<and> pg q \<noteq> [] \<and> q \<notin> set (bk_free ?bk)" if "q \<in> set (bk_partial ?bk)" for q
    using that L(4) F by fastforce
  have listed: "?thesis" if p: "p < npages S" "own p = Some b" "pg p \<noteq> []"
      and r: "bucket_refill_cpu_cache [] b c S = attach_page b c p (pm_freelist (pgm S p))
        (set_metadata p ((pgm S p) \<lparr> pm_freelist := NULL, inuse_chunks := chunks b \<rparr>) (set_bucket b (?bk \<lparr> bk_free := fs, bk_partial := ps \<rparr>) S))"
      and l: "distinct fs" "distinct ps" "set fs = set (bk_free ?bk) - {p}" "set ps = set (bk_partial ?bk) - {p}"
        "p \<in> set (bk_free ?bk) \<or> p \<in> set (bk_partial ?bk)" for p fs ps
  proof -
    have "\<exists>S'. bucket_refill_cpu_cache [] b c S = Some S' \<and> refilled S b c live S'"
      unfolding r by (rule refill_listed [OF inv b e p]) (simp_all add: l)
    moreover have "\<not> (bk_partial ?bk = [] \<and> bk_free ?bk = [] \<and> bb_free_pages S = [])" using l(5) by auto
    ultimately show ?thesis by (simp only: if_False)
  qed
  show ?thesis
  proof (cases "bk_partial ?bk")
    case (Cons p ps)
    then have p: "p \<in> set (bk_partial ?bk)" "distinct ps" "set ps = set (bk_partial ?bk) - {p}" using L(2) by auto
    have "bucket_refill_cpu_cache [] b c S = attach_page b c p (pm_freelist (pgm S p))
        (set_metadata p ((pgm S p) \<lparr> pm_freelist := NULL, inuse_chunks := chunks b \<rparr>) (set_bucket b (?bk \<lparr> bk_free := bk_free ?bk, bk_partial := ps \<rparr>) S))"
      using Cons n by (simp add: bucket_refill_cpu_cache_def page_metadata_cmpxchg_double_def Let_def)
    then show ?thesis using p L(1) P [OF p(1)] by (intro listed [where p = p and fs = "bk_free ?bk" and ps = ps]) simp_all
  next
    case Nil
    show ?thesis
    proof (cases "bk_free ?bk")
      case (Cons p ps)
      then have p: "p \<in> set (bk_free ?bk)" "distinct ps" "set ps = set (bk_free ?bk) - {p}" using L(1) by auto
      have "bucket_refill_cpu_cache [] b c S = attach_page b c p (pm_freelist (pgm S p))
          (set_metadata p ((pgm S p) \<lparr> pm_freelist := NULL, inuse_chunks := chunks b \<rparr>) (set_bucket b (?bk \<lparr> bk_free := ps, bk_partial := bk_partial ?bk \<rparr>) S))"
      proof -
        have e: "?bk \<lparr> bk_free := ps, bk_partial := bk_partial ?bk \<rparr> = ?bk \<lparr> bk_free := ps \<rparr>"
          "(pgm S p) \<lparr> pm_freelist := NULL, inuse_chunks := chunks b \<rparr> = (pgm S p) \<lparr> inuse_chunks := chunks b, pm_freelist := NULL \<rparr>" by simp_all
        show ?thesis unfolding e using Cons Nil n by (simp add: bucket_refill_cpu_cache_def Let_def)
      qed
      moreover have "pg p \<noteq> []" using F [OF p(1)] chunks_ge [OF b(1)] by auto
      ultimately show ?thesis using p Nil F [OF p(1)] by (intro listed [where p = p and fs = ps and ps = "bk_partial ?bk"]) simp_all
    next
      case Nil2: Nil
      show ?thesis
      proof (cases "bb_free_pages S")
        case (Cons p ps)
        obtain md mem where m: "bucket_initialize_page ?bk (pgm S p) (bb_memory S) = (md, mem)" by fastforce
        then show ?thesis using refill_new [OF inv b e Cons m] Nil Nil2 n Cons
          by (simp add: bucket_refill_cpu_cache_def balloc_def Let_def)
      qed (use Nil Nil2 in \<open>simp add: bucket_refill_cpu_cache_def balloc_def Let_def\<close>)
    qed
  qed
qed

lemma cache_empty:
  assumes "slab_inv S pg cc own live" "b < SLAB_BUCKETS" "c < int NR_CPUS" "cb_freelist (get_cpubucket c (bkt S b)) = NULL"
  shows "cc (slot b c) = []"
proof -
  have "cache_ok S cc own (slot b c)" using assms by (simp add: slab_inv_def)
  then show ?thesis using assms(4) by (simp add: cache_ok_slot)
qed

lemma alloc_from_cache:
  assumes "slab_ok S live" "b < SLAB_BUCKETS" "c < int NR_CPUS"
    "cpubucket_alloc (bb_memory S) (get_cpubucket c (bkt S b)) = (cb, Some x)"
  shows "slab_ok (set_bucket b (set_cpubucket c cb (bkt S b)) S) (live(x \<mapsto> b)) \<and> live x = None"
proof -
  obtain pg cc own where inv: "slab_inv S pg cc own live" using assms(1) by (auto simp: slab_ok_def)
  show ?thesis using pop_inv(1,2) [OF inv assms(2-4)] unfolding slab_ok_def by blast
qed

lemma bucket_alloc_ok:
  assumes ok: "slab_ok S live" and b: "b < SLAB_BUCKETS" "c < int NR_CPUS" "sz \<le> cls b"
  shows "if cb_freelist (get_cpubucket c (bkt S b)) = NULL \<and> bk_partial (bkt S b) = [] \<and> bk_free (bkt S b) = [] \<and> bb_free_pages S = []
    then bucket_alloc [] b c sz S = None
    else \<exists>S' x. bucket_alloc [] b c sz S = Some (S', x) \<and> slab_ok S' (live(x \<mapsto> b)) \<and> live x = None \<and> kept S S' live"
proof -
  obtain pg cc own where inv: "slab_inv S pg cc own live" using ok by (auto simp: slab_ok_def)
  have guard: "c < int NR_CPUS \<and> sz \<le> obj_size (bkt S b)" using inv b by (simp add: slab_inv_def slab_layout_def)
  show ?thesis
  proof (cases "cb_freelist (get_cpubucket c (bkt S b)) = NULL")
    case False
    let ?x = "cb_freelist (get_cpubucket c (bkt S b))"
    obtain cb where a: "cpubucket_alloc (bb_memory S) (get_cpubucket c (bkt S b)) = (cb, Some ?x)"
      using False by (simp add: cpubucket_alloc_def)
    then show ?thesis using alloc_from_cache [OF ok b(1,2) a] guard False by (simp add: bucket_alloc_def kept_def)
  next
    case True
    then have a: "cpubucket_alloc (bb_memory S) (get_cpubucket c (bkt S b)) = (get_cpubucket c (bkt S b), None)"
      by (simp add: cpubucket_alloc_def)
    have r: "if bk_partial (bkt S b) = [] \<and> bk_free (bkt S b) = [] \<and> bb_free_pages S = [] then bucket_refill_cpu_cache [] b c S = None
      else \<exists>S'. bucket_refill_cpu_cache [] b c S = Some S' \<and> refilled S b c live S'"
      by (rule refill_ok [OF inv b(1,2) cache_empty [OF inv b(1,2) True]])
    show ?thesis
    proof (cases "bk_partial (bkt S b) = [] \<and> bk_free (bkt S b) = [] \<and> bb_free_pages S = []")
      case False
      then obtain S1 where S1: "bucket_refill_cpu_cache [] b c S = Some S1" "slab_ok S1 live" "kept S S1 live"
        "cb_freelist (get_cpubucket c (bkt S1 b)) \<noteq> NULL" using r by (auto simp: refilled_def)
      let ?x = "cb_freelist (get_cpubucket c (bkt S1 b))"
      obtain cb where a1: "cpubucket_alloc (bb_memory S1) (get_cpubucket c (bkt S1 b)) = (cb, Some ?x)"
        using S1(4) by (simp add: cpubucket_alloc_def)
      let ?S = "set_bucket b (set_cpubucket c cb (bkt S1 b)) S1"
      have "bucket_alloc [] b c sz S = Some (?S, ?x)" using guard a S1(1) a1 by (simp add: bucket_alloc_def)
      moreover have "kept S ?S live" using S1(3) by (simp add: kept_def)
      ultimately show ?thesis using alloc_from_cache [OF S1(2) b(1,2) a1] False by auto
    qed (use r a True guard in \<open>simp add: bucket_alloc_def\<close>)
  qed
qed

subsection \<open>Release\<close>

lemma dec64_pos: "0 < n \<Longrightarrow> n < 2 ^ 64 \<Longrightarrow> dec64 n = n - 1"
  by (cases n) (simp_all add: dec64_def)

lemma set_bucket_id: "b < length (bb_buckets S) \<Longrightarrow> set_bucket b (bkt S b) S = S"
  by (simp add: set_bucket_def)

lemma kept_write: "live x = Some b \<Longrightarrow> slab_inv S pg cc own live \<Longrightarrow> bb_memory S' = (bb_memory S)(x := v) \<Longrightarrow> kept S S' (live(x := None))"
proof -
  assume x: "live x = Some b" and inv: "slab_inv S pg cc own live" and m: "bb_memory S' = (bb_memory S)(x := v)"
  have "a \<noteq> x" if y: "live y = Some b'" "y \<noteq> x" "y \<le> a" "a < y + cls b'" for y b' a
  proof -
    have bel: "belongs S own b x" "belongs S own b' y" using slab_inv_belongs(2) [OF inv] x y by auto
    then have b: "b < SLAB_BUCKETS" "b' < SLAB_BUCKETS" using inv page_ok_bucket unfolding belongs_def slab_inv_def by blast+
    note X = belongs_page [OF bel(1) b(1)] and Y = belongs_page [OF bel(2) b(2)]
    have "{x..<x + cls b} \<inter> {y..<y + cls b'} = {}"
      by (rule obj_blocks_disjoint [OF X(3) Y(3) b]) (use X(2) Y(2) y(2) in auto)
    moreover have "x \<in> {x..<x + cls b}" by simp
    ultimately have "x \<notin> {y..<y + cls b'}" by blast
    then show ?thesis using y by auto
  qed
  then show ?thesis by (auto simp: kept_def m split: if_splits)
qed

lemma local_free_ok:
  assumes inv: "slab_inv S pg cc own live" and x: "live x = Some b" and b: "b < SLAB_BUCKETS" "c < int NR_CPUS"
    and r: "cpubucket_localfree (bb_metadata S) x (bb_memory S, get_cpubucket c (bkt S b)) = Some (mem, cb)"
  shows "slab_ok (set_bucket b (set_cpubucket c cb (bkt S b)) (S \<lparr> bb_memory := mem \<rparr>)) (live(x := None))"
    "mem = (bb_memory S)(x := cb_freelist (get_cpubucket c (bkt S b)))"
proof -
  let ?f = "cb_freelist (get_cpubucket c (bkt S b))"
  have m: "mem = (bb_memory S)(x := ?f)" and cb: "cb_freelist cb = x" using r by (auto simp: cpubucket_localfree_def)
  let ?S = "S \<lparr> bb_memory := mem \<rparr>"
  have inv1: "slab_inv ?S pg cc own live" using write_inv [OF inv x, of ?f] m by simp
  have "x \<noteq> NULL" using slab_inv_belongs(2) [OF inv x] belongs_nonnull inv by (auto simp: slab_inv_def)
  moreover have "cache_ok ?S cc own (slot b c)" using inv1 b by (simp add: slab_inv_def)
  ultimately have "chain (bb_memory ?S) (cb_freelist cb) ([x] @ cc (slot b c))" using m cb by (simp add: cache_ok_slot)
  then have "slab_inv (set_bucket b (set_cpubucket c cb (bkt ?S b)) ?S) pg (cc(slot b c := [x] @ cc (slot b c))) own (live |` (- set [x]))"
    using x by (intro attach_inv [OF inv1 b]) auto
  moreover have "live |` (- set [x]) = live(x := None)" by (auto simp: restrict_map_def)
  ultimately show "slab_ok (set_bucket b (set_cpubucket c cb (bkt S b)) ?S) (live(x := None))" unfolding slab_ok_def by auto
  show "mem = (bb_memory S)(x := ?f)" by (rule m)
qed

lemma remote_free_ok:
  assumes inv: "slab_inv S pg cc own live" and x: "live x = Some b" and b: "b < SLAB_BUCKETS" "c < int NR_CPUS"
    and remote: "\<not> (0 \<le> c \<and> cpubucket_isinpage (bb_metadata S) (get_cpubucket c (bkt S b)) x)"
  shows "\<exists>S'. bucket_free [] b x c S = Some S' \<and> slab_ok S' (live(x := None)) \<and> (\<exists>v. bb_memory S' = (bb_memory S)(x := v))"
proof -
  let ?p = "page_metadata_from_block S x" and ?bk = "bkt S b"
  let ?md = "pgm S ?p"
  let ?S = "S \<lparr> bb_memory := (bb_memory S)(x := pm_freelist ?md) \<rparr>"
  let ?m = "?md \<lparr> pm_freelist := x, inuse_chunks := inuse_chunks ?md - 1 \<rparr>"
  have inv1: "slab_inv ?S pg cc own live" by (rule write_inv [OF inv x])
  have bel: "belongs S own b x" by (rule slab_inv_belongs(2) [OF inv x])
  note p = belongs_page [OF bel b(1)]
  have ok: "page_ok S pg own ?p" using inv p(1) by (simp add: slab_inv_def)
  have cnt: "inuse_chunks ?md + length (pg ?p) = chunks b" using ok p by (simp add: page_ok_def)
  have len: "length (pg ?p) < chunks b"
  proof -
    have "distinct (x # pg ?p)" "set (x # pg ?p) \<subseteq> set (objs (bb_pages_start S) b ?p)"
      using page_list_distinct(1) [OF inv p(1)] live_not_free(1) [OF inv x p(1)] ok p by (auto simp: page_ok_def)
    then show ?thesis using card_mono [of "set (objs (bb_pages_start S) b ?p)" "set (x # pg ?p)"] distinct_card
        distinct_objs [of "bb_pages_start S" b ?p] by (metis List.finite_set Suc_le_lessD length_Cons length_objs)
  qed
  have n: "bucket_objinpage ?bk = chunks b" "b < length (bb_buckets S)"
    using inv b by (simp_all add: slab_inv_def slab_layout_def bucket_objinpage_def chunks_def)
  have "chunks b \<le> 2 ^ 21" using chunks_eq [OF b(1)] power_increasing [of "18 - b" 21 "2::nat"] by simp
  then have dec: "dec64 (inuse_chunks ?md) = inuse_chunks ?md - 1" using cnt len by (intro dec64_pos) auto
  have L: "distinct (bk_free ?bk)" "distinct (bk_partial ?bk)" "?p \<notin> set (bk_free ?bk)" "?p \<in> set (bk_partial ?bk) \<longleftrightarrow> pg ?p \<noteq> []"
    using inv b(1) p len by (auto simp: slab_inv_def slab_lists_def)
  have free: "bucket_free [] b x c S =
     (if inuse_chunks ?md = 1
      then (let bk1 = ?bk \<lparr> bk_partial := remove1 ?p (bk_partial ?bk) \<rparr>
            in if SLAB_MAX_FREE_PAGES \<le> length (bk_free ?bk) then Some (bfree ?p (set_bucket b bk1 (set_metadata ?p ?m ?S)))
               else Some (set_bucket b (bk1 \<lparr> bk_free := ?p # bk_free ?bk \<rparr>) (set_metadata ?p ?m ?S)))
      else if inuse_chunks ?md = chunks b then Some (set_bucket b (?bk \<lparr> bk_partial := ?p # bk_partial ?bk \<rparr>) (set_metadata ?p ?m ?S))
      else Some (set_metadata ?p ?m ?S))"
    using remote b n dec by (auto simp: bucket_free_def Let_def page_metadata_cmpxchg_double_def)
  have p': "?p = page_metadata_from_block ?S x" by (simp add: page_metadata_from_block_def)
  have put: "slab_ok (set_bucket b bk (set_metadata ?p ?m ?S)) (live(x := None))"
    if l: "distinct (bk_free bk)" "distinct (bk_partial bk)"
      "set (bk_free bk) = set (bk_free ?bk) \<union> (if Suc (length (pg ?p)) = chunks b then {?p} else {})"
      "set (bk_partial bk) = (if Suc (length (pg ?p)) = chunks b then set (bk_partial ?bk) - {?p} else insert ?p (set (bk_partial ?bk)))"
    and bk: "obj_size bk = obj_size ?bk" "slow_bucket bk = slow_bucket ?bk" "cpubuckets bk = cpubuckets ?bk" for bk
  proof -
    have "slab_inv (set_bucket b bk (set_metadata ?p ?m ?S)) (pg(?p := x # pg ?p)) cc own (live(x := None))"
      by (rule put_inv [OF inv1 x p']) (use l bk cnt len in simp_all)
    then show ?thesis unfolding slab_ok_def by blast
  qed
  consider (one) "inuse_chunks ?md = 1" | (full) "inuse_chunks ?md = chunks b" "inuse_chunks ?md \<noteq> 1"
    | (mid) "inuse_chunks ?md \<noteq> 1" "inuse_chunks ?md \<noteq> chunks b" by blast
  then show ?thesis
  proof cases
    case one
    then have last: "Suc (length (pg ?p)) = chunks b" using cnt by simp
    have "slab_ok (bfree ?p (set_bucket b (?bk \<lparr> bk_partial := remove1 ?p (bk_partial ?bk) \<rparr>) (set_metadata ?p ?m ?S))) (live(x := None))"
      unfolding slab_ok_def
      using release_inv [OF inv1 x p' last, of "?bk \<lparr> bk_partial := remove1 ?p (bk_partial ?bk) \<rparr>" ?m] L by auto
    moreover have "slab_ok (set_bucket b (?bk \<lparr> bk_partial := remove1 ?p (bk_partial ?bk), bk_free := ?p # bk_free ?bk \<rparr>) (set_metadata ?p ?m ?S)) (live(x := None))"
      by (rule put) (use L last in \<open>auto\<close>)
    ultimately show ?thesis unfolding free using one by (auto simp: Let_def bfree_def)
  next
    case full
    then have "pg ?p = []" using cnt by simp
    then have "slab_ok (set_bucket b (?bk \<lparr> bk_partial := ?p # bk_partial ?bk \<rparr>) (set_metadata ?p ?m ?S)) (live(x := None))"
      using L chunks_ge [OF b(1)] by (intro put) auto
    then show ?thesis unfolding free using full by auto
  next
    case mid
    then have "pg ?p \<noteq> []" "Suc (length (pg ?p)) \<noteq> chunks b" using cnt by auto
    then have "slab_ok (set_bucket b ?bk (set_metadata ?p ?m ?S)) (live(x := None))"
      using L by (intro put) auto
    then show ?thesis unfolding free using mid n(2) set_bucket_id [of b "set_metadata ?p ?m ?S"] by auto
  qed
qed

lemma bucket_free_ok:
  assumes ok: "slab_ok S live" and x: "live x = Some b" and c: "c < int NR_CPUS"
  shows "\<exists>S'. bucket_free [] b x c S = Some S' \<and> slab_ok S' (live(x := None)) \<and> kept S S' (live(x := None))"
proof -
  obtain pg cc own where inv: "slab_inv S pg cc own live" using ok by (auto simp: slab_ok_def)
  have b: "b < SLAB_BUCKETS" using slab_inv_belongs(2) [OF inv x] inv page_ok_bucket unfolding belongs_def slab_inv_def by blast
  show ?thesis
  proof (cases "0 \<le> c \<and> cpubucket_isinpage (bb_metadata S) (get_cpubucket c (bkt S b)) x")
    case True
    then obtain mem cb where r: "cpubucket_localfree (bb_metadata S) x (bb_memory S, get_cpubucket c (bkt S b)) = Some (mem, cb)"
      by (auto simp: cpubucket_localfree_def)
    let ?S = "set_bucket b (set_cpubucket c cb (bkt S b)) (S \<lparr> bb_memory := mem \<rparr>)"
    have "bucket_free [] b x c S = Some ?S" using True r c by (simp add: bucket_free_def Let_def)
    moreover have "kept S ?S (live(x := None))" using local_free_ok(2) [OF inv x b c r] by (intro kept_write [OF x inv]) simp
    ultimately show ?thesis using local_free_ok(1) [OF inv x b c r] by blast
  next
    case False
    then show ?thesis using remote_free_ok [OF inv x b c] kept_write [OF x inv] by metis
  qed
qed

subsection \<open>Size classes\<close>

lemma takeWhile_rev_upt:
  "length (takeWhile P (rev [0..<n])) \<le> n"
  "n - length (takeWhile P (rev [0..<n])) \<le> j \<Longrightarrow> j < n \<Longrightarrow> P j"
  "length (takeWhile P (rev [0..<n])) < n \<Longrightarrow> \<not> P (n - length (takeWhile P (rev [0..<n])) - 1)"
  by (induction n) (auto simp: less_Suc_eq split: if_splits)

lemma next_power_of_two_bounds:
  assumes "next_power_of_two n = Some k"
  shows "n = 0 \<or> unat n \<le> 2 ^ k" "2 ^ (k - 1) \<le> unat (n - 1)" "0 < k"
proof -
  let ?x = "n - 1"
  let ?z = "length (takeWhile (\<lambda>i. \<not> bit ?x i) (rev [0..<64]))"
  have x: "?x \<noteq> 0" and k: "k = 64 - ?z"
    using assms by (auto simp: next_power_of_two_def count_leading_zeros_def split: if_splits)
  obtain i where i: "bit ?x i" using x by (metis bit_eqI bit_0_eq bot_apply bot_bool_def)
  then have "i < 64" by (auto dest: bit_imp_le_length)
  then have "?z < 64" using takeWhile_rev_upt(1) [of "\<lambda>i. \<not> bit ?x i" 64] takeWhile_rev_upt(2) [of 64 "\<lambda>i. \<not> bit ?x i" i] i
    by (cases "?z = 64") auto
  then have m: "bit ?x (k - 1)" "0 < k" using takeWhile_rev_upt(3) [of "\<lambda>i. \<not> bit ?x i" 64] k by auto
  show "0 < k" by (rule m)
  have high: "\<not> bit ?x j" if "k \<le> j" for j
    using that takeWhile_rev_upt(2) [of 64 "\<lambda>i. \<not> bit ?x i" j] k bit_imp_le_length [of ?x j] by auto
  have "take_bit k ?x = ?x"
  proof (rule bit_eqI)
    show "bit (take_bit k ?x) j \<longleftrightarrow> bit ?x j" for j using high [of j] by (cases "k \<le> j") (auto simp: bit_take_bit_iff)
  qed
  then have lt: "unat ?x < 2 ^ k" by (metis unsigned_take_bit_eq take_bit_nat_less_exp)
  show "n = 0 \<or> unat n \<le> 2 ^ k"
  proof (cases "n = 0")
    case False
    then have "unat ?x = unat n - 1" by (rule unat_minus_one)
    then have "unat n \<le> 2 ^ k" using lt by linarith
    then show ?thesis ..
  qed simp
  have "\<not> unat ?x < 2 ^ (k - 1)"
  proof
    assume "unat ?x < 2 ^ (k - 1)"
    then have "take_bit (k - 1) (unat ?x) = unat ?x" by (simp add: take_bit_nat_eq_self)
    then have "take_bit (k - 1) ?x = ?x" by (metis unsigned_take_bit_eq unsigned_word_eqI)
    then have "\<not> bit ?x (k - 1)" by (metis bit_take_bit_iff less_irrefl)
    then show False using m by simp
  qed
  then show "2 ^ (k - 1) \<le> unat ?x" by simp
qed

definition bucket_of :: "u64 \<Rightarrow> nat" where
  "bucket_of sz = (case next_power_of_two sz of None \<Rightarrow> 0 | Some k \<Rightarrow> max k SLAB_ALLOC_MIN - SLAB_ALLOC_MIN)"

text \<open>The sizes the slab allocator serves: up to half a megabyte; size 1 is undefined (it counts the zeros of 0).\<close>

definition served_size :: "u64 \<Rightarrow> bool" where
  "served_size sz \<longleftrightarrow> 2 \<le> unat sz \<and> unat sz \<le> 2 ^ 19"

lemma served_size_class:
  assumes "served_size sz"
  obtains k where "next_power_of_two sz = Some k" "k < SLAB_BUCKETS + SLAB_ALLOC_MIN" "bucket_of sz < SLAB_BUCKETS"
    "unat sz \<le> cls (bucket_of sz)" "bucket_of sz = max k SLAB_ALLOC_MIN - SLAB_ALLOC_MIN"
proof -
  have n0: "sz \<noteq> 0" "sz - 1 \<noteq> 0" using assms unat_minus_one [of sz] by (auto simp: served_size_def)
  then obtain k where k: "next_power_of_two sz = Some k" by (auto simp: next_power_of_two_def count_leading_zeros_def)
  have bounds: "unat sz \<le> 2 ^ k" "2 ^ (k - 1) \<le> unat sz - 1" "0 < k"
    using next_power_of_two_bounds [OF k] n0(1) unat_minus_one [OF n0(1)] by simp_all
  then have "(2::nat) ^ (k - 1) < 2 ^ 19" using assms by (auto simp: served_size_def)
  then have "k - 1 < 19" by (rule power_less_imp_less_exp [rotated]) simp
  then have lt: "k < SLAB_BUCKETS + SLAB_ALLOC_MIN" using bounds(3) by (simp add: SLAB_BUCKETS_def SLAB_ALLOC_MIN_def)
  have bk: "bucket_of sz = max k SLAB_ALLOC_MIN - SLAB_ALLOC_MIN" using k by (simp add: bucket_of_def)
  then have "cls (bucket_of sz) = 2 ^ max k SLAB_ALLOC_MIN" by (simp add: cls_def)
  then have "unat sz \<le> cls (bucket_of sz)" using order.trans [OF bounds(1) power_increasing [of k "max k SLAB_ALLOC_MIN" "2::nat"]] by simp
  moreover have "bucket_of sz < SLAB_BUCKETS" using bk lt by (simp add: SLAB_BUCKETS_def SLAB_ALLOC_MIN_def)
  ultimately show ?thesis using that k lt bk by blast
qed

lemma salloc_served:
  assumes "served_size sz"
  shows "salloc others sz c S = bucket_alloc others (bucket_of sz) c (unat sz) S"
    "sfree others x sz c S = bucket_free others (bucket_of sz) x c S"
  using assms by (auto elim!: served_size_class simp: salloc_def sfree_def max_def Let_def split: if_splits)

text \<open>Larger sizes get no memory, and neither does size 0.\<close>

lemma salloc_too_large:
  assumes "sz = 0 \<or> 2 ^ 19 < unat sz"
  shows "salloc others sz c S = Some (S, NULL)"
proof -
  have "sz - 1 \<noteq> 0" using assms by auto
  then obtain k where k: "next_power_of_two sz = Some k" by (auto simp: next_power_of_two_def count_leading_zeros_def)
  have "20 \<le> k"
  proof (cases "sz = 0")
    case True
    moreover have "next_power_of_two 0 = Some 64" by code_simp
    ultimately show ?thesis using k by simp
  next
    case False
    then have "(2::nat) ^ 19 < 2 ^ k" using next_power_of_two_bounds(1) [OF k] assms by simp
    then have "19 < k" by (rule power_less_imp_less_exp [rotated]) simp
    then show ?thesis by simp
  qed
  then show ?thesis using k by (simp add: salloc_def SLAB_BUCKETS_def SLAB_ALLOC_MIN_def)
qed

subsection \<open>The contract of an allocator\<close>

text \<open>\<open>ok s live\<close> relates a state to the blocks in use with their classes, \<open>extent\<close> is the size of a class, \<open>untouched\<close> says that no word of a block in use was written.\<close>

locale block_allocator =
  fixes alloc :: "'r \<Rightarrow> 's \<Rightarrow> ('s \<times> addr) option"
    and dealloc :: "'r \<Rightarrow> addr \<Rightarrow> 's \<Rightarrow> 's option"
    and valid :: "'r \<Rightarrow> bool" and class_of :: "'r \<Rightarrow> nat" and extent :: "nat \<Rightarrow> nat"
    and ok :: "'s \<Rightarrow> (addr \<rightharpoonup> nat) \<Rightarrow> bool"
    and content :: "'s \<Rightarrow> addr \<Rightarrow> addr"
  assumes alloc_law: "ok s live \<Longrightarrow> valid r \<Longrightarrow> alloc r s = Some (s', x) \<Longrightarrow>
      ok s' (live(x \<mapsto> class_of r)) \<and> live x = None \<and>
      (\<forall>y b a. live y = Some b \<longrightarrow> y \<le> a \<longrightarrow> a < y + extent b \<longrightarrow> content s' a = content s a)"
    and dealloc_law: "ok s live \<Longrightarrow> valid r \<Longrightarrow> live x = Some (class_of r) \<Longrightarrow>
      \<exists>s'. dealloc r x s = Some s' \<and> ok s' (live(x := None)) \<and>
      (\<forall>y b a. (live(x := None)) y = Some b \<longrightarrow> y \<le> a \<longrightarrow> a < y + extent b \<longrightarrow> content s' a = content s a)"
    and disjoint_law: "ok s live \<Longrightarrow> live x = Some b \<Longrightarrow> live y = Some c \<Longrightarrow> x \<noteq> y \<Longrightarrow>
      {x..<x + extent b} \<inter> {y..<y + extent c} = {}"
begin

text \<open>A client: a list of requests, each an allocation or the release of a block in use. The second component of the state has the blocks the client holds.\<close>

fun serve :: "('r \<times> addr option) list \<Rightarrow> 's \<times> (addr \<rightharpoonup> nat) \<Rightarrow> ('s \<times> (addr \<rightharpoonup> nat)) option" where
  "serve [] (s, live) = Some (s, live)"
| "serve ((r, None) # rs) (s, live) =
     (case alloc r s of None \<Rightarrow> None | Some (s', x) \<Rightarrow> serve rs (s', live(x \<mapsto> class_of r)))"
| "serve ((r, Some x) # rs) (s, live) =
     (if live x = Some (class_of r)
      then (case dealloc r x s of None \<Rightarrow> None | Some s' \<Rightarrow> serve rs (s', live(x := None))) else None)"

lemma serve_ok:
  assumes "serve rs (s, live) = Some (s', live')" "ok s live" "\<forall>(r, x)\<in>set rs. valid r"
  shows "ok s' live'"
  using assms
proof (induction rs "(s, live)" arbitrary: s live rule: serve.induct)
  case (2 r rs s live)
  then show ?case using alloc_law [of s live r] by (auto split: option.splits)
next
  case (3 r x rs s live)
  then show ?case using dealloc_law [of s live r x] by (auto split: option.splits if_splits)
qed auto

lemma serve_preserves:
  assumes "serve rs (s, live) = Some (s', live')" "ok s live" "\<forall>(r, x)\<in>set rs. valid r"
    and "live y = Some b" "\<forall>(r, x)\<in>set rs. x \<noteq> Some y" "y \<le> a" "a < y + extent b"
  shows "live' y = Some b \<and> content s' a = content s a"
  using assms
proof (induction rs "(s, live)" arbitrary: s live rule: serve.induct)
  case (2 r rs s live)
  then obtain s1 x where x: "alloc r s = Some (s1, x)" "serve rs (s1, live(x \<mapsto> class_of r)) = Some (s', live')"
    by (auto split: option.splits)
  have v: "valid r" using 2 by auto
  note law = alloc_law [OF 2(3) v x(1)]
  then have "y \<noteq> x" using 2 by auto
  then have "live' y = Some b \<and> content s' a = content s1 a" using 2 x law by (intro 2(1)) auto
  then show ?case using law 2 by auto
next
  case (3 r x rs s live)
  then obtain s1 where x: "live x = Some (class_of r)" "dealloc r x s = Some s1" "serve rs (s1, live(x := None)) = Some (s', live')"
    by (auto split: option.splits if_splits)
  have v: "valid r" "y \<noteq> x" using 3 by auto
  have law: "ok s1 (live(x := None))" "\<forall>y b a. (live(x := None)) y = Some b \<longrightarrow> y \<le> a \<longrightarrow> a < y + extent b \<longrightarrow> content s1 a = content s a"
    using dealloc_law [OF 3(3) v(1) x(1)] x(2) by auto
  then have "live' y = Some b \<and> content s' a = content s1 a" using 3 x v by (intro 3(1)) auto
  then show ?case using law(2) [rule_format, of y b a] 3(5,7,8) v(2) by auto
qed auto

end

lemma slab_ok_disjoint:
  assumes "slab_ok S live" "live x = Some b" "live y = Some c" "x \<noteq> y"
  shows "{x..<x + cls b} \<inter> {y..<y + cls c} = {}"
proof -
  obtain pg cc own where inv: "slab_inv S pg cc own live" using assms(1) by (auto simp: slab_ok_def)
  have bel: "belongs S own b x" "belongs S own c y" using slab_inv_belongs(2) [OF inv] assms by auto
  then have b: "b < SLAB_BUCKETS" "c < SLAB_BUCKETS" using inv page_ok_bucket unfolding belongs_def slab_inv_def by blast+
  note X = belongs_page [OF bel(1) b(1)] and Y = belongs_page [OF bel(2) b(2)]
  show ?thesis by (rule obj_blocks_disjoint [OF X(3) Y(3) b]) (use X(2) Y(2) assms(4) in auto)
qed

lemma slab_ok_inside:
  assumes "slab_ok S live" "live x = Some b"
  shows "x \<noteq> NULL" "bb_pages_start S \<le> x" "x + cls b \<le> bb_pages_start S + npages S * PAGE_SIZE" "b < SLAB_BUCKETS"
proof -
  obtain pg cc own where inv: "slab_inv S pg cc own live" using assms(1) by (auto simp: slab_ok_def)
  have bel: "belongs S own b x" using slab_inv_belongs(2) [OF inv] assms by auto
  then show b: "b < SLAB_BUCKETS" using inv page_ok_bucket unfolding belongs_def slab_inv_def by blast
  show "x \<noteq> NULL" using belongs_nonnull [OF bel] inv by (simp add: slab_inv_def)
  note X = belongs_page [OF bel b]
  have "(page_metadata_from_block S x + 1) * PAGE_SIZE \<le> npages S * PAGE_SIZE" using X(1) by (intro mult_le_mono1) simp
  then show "bb_pages_start S \<le> x" "x + cls b \<le> bb_pages_start S + npages S * PAGE_SIZE"
    using obj_bounds [OF X(3) b] by (auto simp: page_base_def)
qed

text \<open>A request is a size and the CPU of the caller.\<close>

definition valid_request :: "u64 \<times> int \<Rightarrow> bool" where
  "valid_request = (\<lambda>(sz, c). served_size sz \<and> c < int NR_CPUS)"

interpretation slab_allocator: block_allocator
  "\<lambda>(sz, c). salloc [] sz c" "\<lambda>(sz, c) x. sfree [] x sz c" valid_request "bucket_of \<circ> fst" cls slab_ok bb_memory
proof (unfold_locales, goal_cases)
  case (1 s live r s' x)
  obtain sz c where r: "r = (sz, c)" by (cases r)
  obtain k where "bucket_of sz < SLAB_BUCKETS" "unat sz \<le> cls (bucket_of sz)" using 1 r by (auto simp: valid_request_def elim: served_size_class)
  then show ?case using 1 r bucket_alloc_ok [of s live "bucket_of sz" c "unat sz"] salloc_served(1) [of sz "[]" c s]
    by (auto simp: valid_request_def kept_def split: if_splits)
next
  case (2 s live r x)
  obtain sz c where r: "r = (sz, c)" by (cases r)
  then show ?case using 2 bucket_free_ok [of s live x "bucket_of sz" c] salloc_served(2) [of sz "[]" x c s]
    by (auto simp: valid_request_def kept_def)
next
  case (3 s live x b y c)
  then show ?case by (rule slab_ok_disjoint)
qed

subsection \<open>The initial state\<close>

lemma add_pages_eq:
  "add_pages i pg n (fp, md) = (rev [i..<i + n] @ fp, md @ map (\<lambda>k. \<lparr> pm_freelist = NULL, inuse_chunks = 0, pm_addr = pg + k * PAGE_SIZE \<rparr>) [0..<n])"
proof (induction n arbitrary: i pg fp md)
  case (Suc n)
  have "map (\<lambda>k. \<lparr> pm_freelist = NULL, inuse_chunks = 0, pm_addr = pg + PAGE_SIZE + k * PAGE_SIZE \<rparr>) [0..<n] =
      map (\<lambda>k. \<lparr> pm_freelist = NULL, inuse_chunks = 0, pm_addr = pg + Suc k * PAGE_SIZE \<rparr>) [0..<n]" by (simp add: algebra_simps)
  then show ?case using map_upt_Suc_conv [of "\<lambda>k. \<lparr> pm_freelist = NULL, inuse_chunks = 0, pm_addr = pg + k * PAGE_SIZE \<rparr>" n]
      upt_conv_Cons [of i "i + Suc n"] by (simp add: Suc del: upt_Suc)
qed simp

lemma align_to_bounds:
  assumes "0 < n"
  shows "x \<le> align_to n x" "align_to n x < x + n" "n dvd align_to n x"
proof -
  have "(x + n - 1) div n * n + (x + n - 1) mod n = x + n - 1" by simp
  moreover have "(x + n - 1) mod n < n" using assms by simp
  ultimately show "x \<le> align_to n x" "align_to n x < x + n" unfolding align_to_def using assms by linarith+
  show "n dvd align_to n x" by (simp add: align_to_def)
qed

lemma backbone_init_ok:
  assumes "0 < sizeof_header"
  shows "slab_ok (backbone_alloc_init sizeof_header sizeof_metadata start sz slab_init mem) Map.empty"
proof -
  obtain ms n1 ps n where l: "backbone_layout sizeof_header sizeof_metadata start sz = (ms, n1, ps, n)" by (metis prod_cases4)
  let ?S = "backbone_alloc_init sizeof_header sizeof_metadata start sz slab_init mem"
  have S: "bb_pages_start ?S = ps" "bb_metadata ?S = map (\<lambda>k. \<lparr> pm_freelist = NULL, inuse_chunks = 0, pm_addr = ps + k * PAGE_SIZE \<rparr>) [0..<n]"
    "bb_free_pages ?S = rev [0..<n]" "bb_buckets ?S = slab_init"
    using l by (simp_all add: backbone_alloc_init_def add_pages_eq)
  have "start + sizeof_header \<le> ms" "ms \<le> ps"
    using l align_to_bounds(1) [of 16 "start + sizeof_header"] align_to_bounds(1) [of PAGE_SIZE "ms + n1 * sizeof_metadata"]
    by (auto simp: backbone_layout_def Let_def PAGE_SIZE_def)
  then have ps: "0 < ps" using assms by linarith
  have bk: "bkt ?S b = bucket_init (b + SLAB_ALLOC_MIN)" if "b < SLAB_BUCKETS" for b using that S by (simp add: slab_init_def)
  have "slab_inv ?S (\<lambda>_. []) (\<lambda>_. []) (\<lambda>_. None) Map.empty"
    unfolding slab_inv_def
  proof (intro conjI ballI)
    show "slab_layout ?S" using ps S bk by (auto simp: slab_layout_def npages_def bucket_init_def cls_def page_base_def slab_init_def)
    show "slab_lists ?S (\<lambda>_. []) (\<lambda>_. None)" using S bk by (auto simp: slab_lists_def npages_def bucket_init_def)
    show "slab_count ?S (\<lambda>_. []) (\<lambda>_. []) (\<lambda>_. None) Map.empty" by (simp add: slab_count_def owned_def)
    show "cache_ok ?S (\<lambda>_. []) (\<lambda>_. None) i" if "i \<in> slots" for i
      using that bk by (auto simp: cache_ok_def slots_def get_cpubucket_def bucket_init_def cpubucket_init_def)
  qed (auto simp: page_ok_def)
  then show ?thesis unfolding slab_ok_def by blast
qed

subsection \<open>Properties\<close>

text \<open>C25. In every state of the allocator and for every size from 2 bytes to half a megabyte, \<open>salloc\<close> fails only when the CPU, the bucket and the backbone
  have no memory left. Otherwise the block it returns was not in use, is at least as large as asked for, lies inside the pages of the segment and overlaps no block in
  use; the invariant holds with the new block in use, and no word of any other block in use has changed.\<close>

theorem salloc_correct:
  assumes "slab_ok S live" "served_size sz" "c < int NR_CPUS"
  shows "case salloc [] sz c S of
      None \<Rightarrow> cb_freelist (get_cpubucket c (bkt S (bucket_of sz))) = NULL \<and> bk_partial (bkt S (bucket_of sz)) = [] \<and>
        bk_free (bkt S (bucket_of sz)) = [] \<and> bb_free_pages S = []
    | Some (S', x) \<Rightarrow> x \<noteq> NULL \<and> live x = None \<and> unat sz \<le> cls (bucket_of sz) \<and> slab_ok S' (live(x \<mapsto> bucket_of sz)) \<and>
        bb_pages_start S' \<le> x \<and> x + cls (bucket_of sz) \<le> bb_pages_start S' + npages S' * PAGE_SIZE \<and>
        (\<forall>y b. live y = Some b \<longrightarrow> {x..<x + cls (bucket_of sz)} \<inter> {y..<y + cls b} = {}) \<and> kept S S' live"
proof -
  let ?b = "bucket_of sz"
  have b: "?b < SLAB_BUCKETS" "unat sz \<le> cls ?b" using assms(2) by (auto elim: served_size_class)
  note spec = bucket_alloc_ok [OF assms(1) b(1) assms(3) b(2)]
  have "salloc [] sz c S = bucket_alloc [] ?b c (unat sz) S" by (rule salloc_served(1) [OF assms(2)])
  then show ?thesis
  proof (cases "salloc [] sz c S")
    case (Some r)
    then obtain S' x where r: "salloc [] sz c S = Some (S', x)" by (cases r) auto
    then have ok: "slab_ok S' (live(x \<mapsto> ?b))" "live x = None" "kept S S' live"
      using spec \<open>salloc [] sz c S = bucket_alloc [] ?b c (unat sz) S\<close> by (auto split: if_splits)
    have "{x..<x + cls ?b} \<inter> {y..<y + cls b'} = {}" if "live y = Some b'" for y b'
    proof (cases "x = y")
      case False
      then show ?thesis using slab_ok_disjoint [OF ok(1), of x ?b y b'] that by simp
    qed (use that ok(2) in simp)
    then show ?thesis using r ok slab_ok_inside [OF ok(1), of x ?b] b(2) by auto
  qed (use spec in \<open>auto split: if_splits\<close>)
qed

definition example_backbone :: backbone where
  "example_backbone = backbone_alloc_init 71680 64 (2 ^ 21) (2 ^ 24) slab_init (\<lambda>_. 0)"

theorem salloc_correct_witness:
  "slab_ok example_backbone Map.empty \<and> served_size 100 \<and> (\<exists>S' x. salloc [] 100 3 example_backbone = Some (S', x) \<and> slab_ok S' [x \<mapsto> bucket_of 100] \<and> 100 \<le> cls (bucket_of 100))"
proof -
  have ok: "slab_ok example_backbone Map.empty" unfolding example_backbone_def by (rule backbone_init_ok) simp
  have sz: "served_size 100" by (simp add: served_size_def)
  have "bb_free_pages example_backbone \<noteq> []"
    by (simp add: example_backbone_def backbone_alloc_init_def backbone_layout_def add_pages_eq align_to_def PAGE_SIZE_def)
  then show ?thesis using salloc_correct [OF ok sz, of 3] ok sz by (auto simp: NR_CPUS_def split: option.splits)
qed

text \<open>C26. Releasing a block with the size it was allocated with never fails, from whatever CPU it is done, be it the one that cached the block's page or not; the
  block is not in use any more, the invariant holds, and no word of a block that stays in use has changed.\<close>

theorem sfree_correct:
  assumes "slab_ok S live" "served_size sz" "c < int NR_CPUS" "live x = Some (bucket_of sz)"
  shows "\<exists>S'. sfree [] x sz c S = Some S' \<and> slab_ok S' (live(x := None)) \<and> kept S S' (live(x := None))"
  using bucket_free_ok [OF assms(1,4,3)] by (simp add: salloc_served(2) [OF assms(2)])

lemma example_cycle:
  obtains S1 x S2 where "salloc [] 100 3 example_backbone = Some (S1, x)" "slab_ok S1 [x \<mapsto> bucket_of 100]"
    "sfree [] x 100 5 S1 = Some S2" "slab_ok example_backbone Map.empty" "served_size 100"
proof -
  have ok: "slab_ok example_backbone Map.empty" unfolding example_backbone_def by (rule backbone_init_ok) simp
  have sz: "served_size 100" by (simp add: served_size_def)
  have f: "bb_free_pages example_backbone \<noteq> []"
    by (simp add: example_backbone_def backbone_alloc_init_def backbone_layout_def add_pages_eq align_to_def PAGE_SIZE_def)
  have b: "bucket_of 100 < SLAB_BUCKETS" "unat (100 :: u64) \<le> cls (bucket_of 100)" using sz by (auto elim: served_size_class)
  then obtain S1 x where S1: "salloc [] 100 3 example_backbone = Some (S1, x)" "slab_ok S1 [x \<mapsto> bucket_of 100]"
    using bucket_alloc_ok [OF ok b(1), of 3 "unat (100 :: u64)"] f by (auto simp: salloc_served(1) [OF sz] NR_CPUS_def)
  moreover obtain S2 where "sfree [] x 100 5 S1 = Some S2"
    using bucket_free_ok [OF S1(2), of x _ 5] by (auto simp: salloc_served(2) [OF sz] NR_CPUS_def)
  ultimately show ?thesis using that ok sz by blast
qed

theorem sfree_correct_witness:
  "\<exists>S1 x S2. salloc [] 100 3 example_backbone = Some (S1, x) \<and> sfree [] x 100 5 S1 = Some S2 \<and> slab_ok S2 Map.empty"
proof -
  obtain S1 x S2 where S: "salloc [] 100 3 example_backbone = Some (S1, x)" "slab_ok S1 [x \<mapsto> bucket_of 100]"
    "sfree [] x 100 5 S1 = Some S2" "slab_ok example_backbone Map.empty" "served_size 100" by (rule example_cycle)
  then show ?thesis using sfree_correct [OF S(2,5), of 5 x] by (auto simp: NR_CPUS_def)
qed

text \<open>C27. Along every sequence of allocations and releases, starting anywhere, the blocks that are in use at the end are pairwise disjoint, and a block that is
  in use at the start and not released is still in use with unchanged contents.\<close>

theorem slab_clients_isolated:
  assumes "slab_allocator.serve rs (S, live) = Some (S', live')" "slab_ok S live" "\<forall>(r, x)\<in>set rs. valid_request r"
  shows "slab_ok S' live' \<and>
    (\<forall>x b y c. live' x = Some b \<longrightarrow> live' y = Some c \<longrightarrow> x \<noteq> y \<longrightarrow> {x..<x + cls b} \<inter> {y..<y + cls c} = {}) \<and>
    (\<forall>y b a. live y = Some b \<longrightarrow> (\<forall>(r, x)\<in>set rs. x \<noteq> Some y) \<longrightarrow> y \<le> a \<longrightarrow> a < y + cls b \<longrightarrow>
      live' y = Some b \<and> bb_memory S' a = bb_memory S a)"
proof -
  have "slab_ok S' live'" by (rule slab_allocator.serve_ok [OF assms])
  then show ?thesis using slab_ok_disjoint slab_allocator.serve_preserves [OF assms] by blast
qed

theorem slab_clients_isolated_witness:
  "\<exists>x S'. slab_allocator.serve [((100, 3), None), ((100, 5), Some x)] (example_backbone, Map.empty) = Some (S', Map.empty) \<and> slab_ok S' Map.empty"
proof -
  obtain S1 x S2 where S: "salloc [] 100 3 example_backbone = Some (S1, x)" "slab_ok S1 [x \<mapsto> bucket_of 100]"
    "sfree [] x 100 5 S1 = Some S2" "slab_ok example_backbone Map.empty" "served_size 100" by (rule example_cycle)
  have run: "slab_allocator.serve [((100, 3), None), ((100, 5), Some x)] (example_backbone, Map.empty) = Some (S2, Map.empty)"
    using S by (simp add: fun_upd_idem)
  have "\<forall>(r, x)\<in>set [((100, 3), None), ((100, 5), Some x)]. valid_request r" using S(5) by (simp add: valid_request_def NR_CPUS_def)
  then show ?thesis using slab_clients_isolated [OF run S(4)] run by blast
qed

text \<open>Whatever other threads do to the metadata of a page between the attempts of the compare-and-exchange loop, pushing an object takes effect on the metadata
  the last of these actions left: the object becomes the first of the list, its first word is to hold the object that was first then, and the count of
  that moment is decremented. Nothing another thread did to the list is lost.\<close>

theorem push_freelist_linearises:
  "\<exists>k\<le>length others. let m = fold (\<lambda>f m. f m) (take k others) md
     in push_freelist others obj md = (m \<lparr> pm_freelist := obj, inuse_chunks := dec64 (inuse_chunks m) \<rparr>, pm_freelist m, inuse_chunks m)"
proof (induction others arbitrary: md)
  case (Cons f fs)
  show ?case
  proof (cases "pm_freelist (f md) = pm_freelist md \<and> inuse_chunks (f md) = inuse_chunks md")
    case True
    then show ?thesis by (intro exI [of _ 1]) (simp add: page_metadata_cmpxchg_double_def Let_def)
  next
    case False
    obtain k where "k \<le> length fs" "let m = fold (\<lambda>f m. f m) (take k fs) (f md)
       in push_freelist fs obj (f md) = (m \<lparr> pm_freelist := obj, inuse_chunks := dec64 (inuse_chunks m) \<rparr>, pm_freelist m, inuse_chunks m)"
      using Cons.IH [of "f md"] by blast
    then show ?thesis using False by (intro exI [of _ "Suc k"]) (auto simp: page_metadata_cmpxchg_double_def Let_def)
  qed
qed (simp add: page_metadata_cmpxchg_double_def Let_def)



end
