(* ===== verification/Worker_Loop.thy ===== *)
theory Worker_Loop
  imports Tasks_Api
begin

section \<open>Life of workers and processes (hardware/threads.c, hardware/pids.c)\<close>

text \<open>
  The main loop of a worker, the delegate thread that creates workers for other processes, the registration of a
  process and its shutdown, in which the workers end one after the other and pass their CPUs on.

  A loop takes the list of what the other threads do before each of its rounds; with the list used up the thread has not returned, which is the value \<^term>\<open>None\<close>,
  as for a failed assertion. The two bit sets of processes are in the record \<open>pid_manager\<close>.
\<close>

subsection \<open>Processes (hardware/pids.c)\<close>

record pid_manager =
  pm_pids :: "u64 list"
  pm_pids_alloc :: "u64 list"

type_synonym system = "pid_manager \<times> runtime"

definition pidmanager_init :: "bool \<Rightarrow> pid_manager option \<Rightarrow> pid_manager option" where
  "pidmanager_init initialize pidmanager_ptr =
     (if \<not> initialize then pidmanager_ptr
      else let z = BIT_ZERO MAX_PIDS (replicate (bitset_words MAX_PIDS) 0)
           in Some \<lparr> pm_pids = z, pm_pids_alloc = z \<rparr>)"

definition pidmanager_get_threadmanager :: "pid \<Rightarrow> runtime \<Rightarrow> thread_manager option" where
  "pidmanager_get_threadmanager p rt = (if per_pid_structures rt p then managers rt p else None)"

text \<open>\<open>threadmanager_init\<close>, with the delegate thread running; \<open>event_queue_init\<close> has room for two events per CPU.\<close>

definition threadmanager_init :: "topology \<Rightarrow> runtime \<Rightarrow> runtime option" where
  "threadmanager_init tp rt =
     do { cpus \<leftarrow> topo_lvl_cnt tp TOPO_CPU;
          Some (rt \<lparr> shutdown_signal := False,
                     managers := (managers rt)(logic_pid rt \<mapsto>
                       \<lparr> idle_threads = [], shutdown_threads = [], created = 0, thread_creation_queue = [], creation_slots = cpus * 2,
                         delegate_joined = False, tm_signaled = False, leader_shutdown_cpu = - 1 \<rparr>) \<rparr>) }"

text \<open>The loop of \<open>pidmanager_register\<close> over the free CPUs. The fuel is the number of CPUs and one for the last look.\<close>

fun occupy_cpus :: "nat \<Rightarrow> topology \<Rightarrow> runtime \<Rightarrow> runtime option" where
  "occupy_cpus 0 tp rt = None"
| "occupy_cpus (Suc n) tp rt =
     do { (m, free_cpu) \<leftarrow> cpu_pop_free tp (rt_cpus rt) (int (logic_pid rt));
          case free_cpu of
            None \<Rightarrow> Some (rt \<lparr> rt_cpus := m \<rparr>)
          | Some cpu \<Rightarrow>
              do { rt1 \<leftarrow> worker_create_local (logic_pid rt) cpu EMPTY_TASK_EXECUTION_HANDLE (rt \<lparr> rt_cpus := m \<rparr>);
                   occupy_cpus n tp rt1 } }"

definition pidmanager_register :: "topology \<Rightarrow> system \<Rightarrow> system option" where
  "pidmanager_register tp = (\<lambda>(pm, rt).
     (let set0 = BIT_FILL MAX_PIDS (replicate (bitset_words MAX_PIDS) 0);
          set1 = BIT_XOR MAX_PIDS set0 (pm_pids_alloc pm);
          lp = int (BIT_FFS MAX_PIDS set1) - 1
      in if lp = - 1 then None
         else (let p = nat lp;
                   pm1 = \<lparr> pm_pids = BIT_SET p (pm_pids pm), pm_pids_alloc = BIT_SET p (pm_pids_alloc pm) \<rparr>;
                   (local, rt1) = salloc_addr (rt \<lparr> logic_pid := p \<rparr>)
               in assert_then (local \<noteq> NULL)
                    (do { rt2 \<leftarrow> threadmanager_init tp rt1;
                          cpus \<leftarrow> topo_lvl_cnt tp TOPO_CPU;
                          rt3 \<leftarrow> occupy_cpus (cpus + 1) tp (rt2 \<lparr> per_pid_structures := (per_pid_structures rt2)(p := True) \<rparr>);
                          Some (pm1, rt3) }))))"

definition pidmanager_unregister :: "system \<Rightarrow> system" where
  "pidmanager_unregister = (\<lambda>(pm, rt).
     (pm \<lparr> pm_pids := BIT_CLR (logic_pid rt) (pm_pids pm) \<rparr>,
      rt \<lparr> per_pid_structures := (per_pid_structures rt)(logic_pid rt := False) \<rparr>))"

definition pidmanager_transfer_to_idle :: "topology \<Rightarrow> cpu_id \<Rightarrow> system \<Rightarrow> system option" where
  "pidmanager_transfer_to_idle tp cpu = (\<lambda>(pm, rt).
     (let p = int (BIT_FFS MAX_PIDS (pm_pids pm)) - 1
      in assert_then (p \<noteq> int (logic_pid rt))
           (if 0 \<le> p then map_option (Pair pm) (cpu_transfer tp (nat p) cpu EMPTY_TASK_EXECUTION_HANDLE rt)
            else Some (pm, rt \<lparr> rt_cpus := cpu_mark_free tp (rt_cpus rt) cpu \<rparr>))))"

subsection \<open>The delegate thread\<close>

definition event_queue_pull :: "thread_manager \<Rightarrow> (thread_manager \<times> creation_event) option" where
  "event_queue_pull m =
     (case thread_creation_queue m of [] \<Rightarrow> None | ev # evs \<Rightarrow> Some (m \<lparr> thread_creation_queue := evs \<rparr>, ev))"

definition delegate_round :: "pid \<Rightarrow> runtime \<Rightarrow> (runtime \<times> bool) option" where
  "delegate_round p rt =
     do { m \<leftarrow> managers rt p;
          (m', ev) \<leftarrow> event_queue_pull m;
          let rt1 = set_manager p (\<lambda>_. m') rt;
          case ev of
            Shutdown \<Rightarrow> Some (rt1, False)
          | Creation cpu handle \<Rightarrow> map_option (\<lambda>rt2. (rt2, True)) (worker_create_local p cpu handle rt1) }"

fun delegate_routine :: "pid \<Rightarrow> (runtime \<Rightarrow> runtime) list \<Rightarrow> runtime \<Rightarrow> runtime option" where
  "delegate_routine p [] rt = None"
| "delegate_routine p (f # fs) rt =
     do { (rt1, continue) \<leftarrow> delegate_round p (f rt); if continue then delegate_routine p fs rt1 else Some rt1 }"

subsection \<open>The main loop of a worker\<close>

text \<open>The task of a round: the one the worker was woken with, its immediate successor unless the quantum of its process is used up and
  another task is ready, or a task from the scheduler.\<close>

definition next_immediate :: "env \<Rightarrow> runtime \<Rightarrow> (runtime \<times> task_execution_handle) option" where
  "next_immediate e rt =
     (let w = workers rt (current_worker rt); p = w_pid w; successor = immediate_successor w;
          take = \<lparr> h_task = successor, h_exec = 1 \<rparr>
      in assert_then (\<not> task_is_parallel (rt_store rt successor) \<and> 0 \<le> current_cpu rt)
           (do { let (yield, _, clk) = scheduler_should_yield (rt_sched rt) (fst (rt_world rt)) (int p) (nat (current_cpu rt));
                 let rt1 = rt \<lparr> rt_world := (clk, rt_store rt, rt_sched rt) \<rparr>;
                 (rt2, handle) \<leftarrow>
                   (if yield
                    then do { (rt2, candidate) \<leftarrow> scheduler_get_task e (current_cpu rt) False rt1;
                              if h_task candidate \<noteq> NULL
                              then assert_then (type_pid (task_type (rt_store rt2 (h_task candidate))) \<noteq> p)
                                     (map_option (\<lambda>rt3. (rt3, candidate)) (scheduler_submit_task e successor rt2))
                              else do { (s, clk2) \<leftarrow> scheduler_reset_accounting (rt_sched rt2) (fst (rt_world rt2)) (int p) (nat (current_cpu rt));
                                        Some (rt2 \<lparr> rt_world := (clk2, rt_store rt2, s) \<rparr>, take) } }
                    else Some (rt1, take));
                 Some (worker_set_immediate NULL rt2, handle) }))"

definition worker_iteration :: "callbacks \<Rightarrow> env \<Rightarrow> runtime \<Rightarrow> runtime option" where
  "worker_iteration cb e rt =
     (let w = workers rt (current_worker rt); handle = w_handle w
      in do { (rt1, handle1) \<leftarrow> (if h_task handle = NULL \<and> immediate_successor w \<noteq> NULL then next_immediate e rt else Some (rt, handle));
              (rt2, handle2) \<leftarrow>
                (if h_task handle1 = NULL \<and> w_cpu (workers rt1 (current_worker rt1)) \<noteq> None
                 then scheduler_get_task e (current_cpu rt1) True rt1 else Some (rt1, handle1));
              if h_task handle2 = NULL then Some rt2
              else do { cpu \<leftarrow> w_cpu (workers rt2 (current_worker rt2));
                        worker_execute_or_delegate (task_execute cb e) e handle2 cpu False rt2 } })"

fun worker_loop :: "callbacks \<Rightarrow> env list \<Rightarrow> runtime \<Rightarrow> runtime option" where
  "worker_loop cb [] rt = (if shutdown_signal rt then Some rt else None)"
| "worker_loop cb (e # es) rt =
     (if shutdown_signal rt then Some rt else do { rt1 \<leftarrow> worker_iteration cb e rt; worker_loop cb es rt1 })"

subsection \<open>Shutdown\<close>

text \<open>The task that starts the shutdown, run by a worker of the process.\<close>

definition killer_task_run_callback :: "topology \<Rightarrow> system \<Rightarrow> system option" where
  "killer_task_run_callback tp s0 =
     (let (pm, rt) = pidmanager_unregister s0; p = logic_pid rt
      in assert_then (current_worker rt \<noteq> NULL \<and> managers rt p \<noteq> None)
           (do { cpu \<leftarrow> w_cpu (workers rt (current_worker rt));
                 let rt1 = set_manager p (\<lambda>m. fst (event_queue_put Shutdown (m \<lparr> leader_shutdown_cpu := cpu_lid tp (rt_cpus rt) cpu \<rparr>))) rt;
                 let rt2 = rt1 \<lparr> shutdown_signal := True \<rparr>;
                 s \<leftarrow> scheduler_wake (rt_sched rt2) p;
                 Some (pm, rt2 \<lparr> rt_world := (fst (rt_world rt2), rt_store rt2, s) \<rparr>) }))"

datatype join_result = Joined | Busy | JoinError

definition all_workers_ended :: "thread_manager \<Rightarrow> bool option" where
  "all_workers_ended m =
     assert_then (length (shutdown_threads m) \<le> created m) (Some (created m = length (shutdown_threads m)))"

text \<open>The part of \<open>worker_coordinate_shutdown\<close> after the label \<open>retry\<close>. Every round has the result of \<open>pthread_tryjoin_np\<close> and
  what the others do until the next round.\<close>

fun shutdown_rounds :: "topology \<Rightarrow> bool \<Rightarrow> (join_result \<times> (system \<Rightarrow> system)) list \<Rightarrow> system \<Rightarrow> system option" where
  "shutdown_rounds tp leader [] s = None"
| "shutdown_rounds tp leader ((tryjoin, others) # rounds) (pm, rt) =
     do { let p = logic_pid rt;
          (idle_worker, rt1) \<leftarrow> get_idle_worker p rt;
          cpu \<leftarrow> w_cpu (workers rt1 (current_worker rt1));
          m \<leftarrow> managers rt1 p;
          if idle_worker \<noteq> NULL then map_option (Pair pm) (worker_wake_internal tp idle_worker cpu rt1)
          else if \<not> leader then pidmanager_transfer_to_idle tp cpu (pm, rt1)
          else if \<not> delegate_joined m \<and> tryjoin = JoinError then None
          else do { let m1 = m \<lparr> delegate_joined := delegate_joined m \<or> tryjoin = Joined \<rparr>;
                    let rt2 = set_manager p (\<lambda>_. m1) rt1;
                    join \<leftarrow> (if delegate_joined m1 then all_workers_ended m1 else Some False);
                    if \<not> join
                    then do { s \<leftarrow> scheduler_wake (rt_sched rt2) p;
                              shutdown_rounds tp leader rounds (others (pm, rt2 \<lparr> rt_world := (fst (rt_world rt2), rt_store rt2, s) \<rparr>)) }
                    else assert_then (\<not> tm_signaled m1)
                           (pidmanager_transfer_to_idle tp cpu (pm, set_manager p (\<lambda>_. m1 \<lparr> tm_signaled := True \<rparr>) rt2)) } }"

definition worker_coordinate_shutdown :: "topology \<Rightarrow> (join_result \<times> (system \<Rightarrow> system)) list \<Rightarrow> system \<Rightarrow> system option" where
  "worker_coordinate_shutdown tp rounds = (\<lambda>(pm, rt).
     do { let rt1 = set_manager (logic_pid rt) (\<lambda>m. m \<lparr> shutdown_threads := current_worker rt # shutdown_threads m \<rparr>) rt;
          m \<leftarrow> managers rt1 (logic_pid rt1);
          cpu \<leftarrow> w_cpu (workers rt1 (current_worker rt1));
          shutdown_rounds tp (cpu_lid tp (rt_cpus rt1) cpu = leader_shutdown_cpu m) rounds (pm, rt1) })"

text \<open>The life of a worker: it starts on the CPU it was created for, runs its loop, and passes its CPU on.\<close>

definition worker_start_routine :: "callbacks \<Rightarrow> topology \<Rightarrow> worker_id \<Rightarrow> env list \<Rightarrow> (runtime \<Rightarrow> system) \<Rightarrow>
    (join_result \<times> (system \<Rightarrow> system)) list \<Rightarrow> runtime \<Rightarrow> system option" where
  "worker_start_routine cb tp arg es pids rounds rt =
     assert_then (arg \<noteq> NULL \<and> managers rt (w_pid (workers rt arg)) \<noteq> None)
       (do { cpu \<leftarrow> w_cpu (workers rt arg);
             rt1 \<leftarrow> worker_loop cb es (rt \<lparr> current_worker := arg, current_cpu := cpu_lid tp (rt_cpus rt) cpu \<rparr>);
             assert_then (worker_get_immediate rt1 = NULL) (worker_coordinate_shutdown tp rounds (pids rt1)) })"

subsection \<open>The thread that shuts a process down\<close>

definition nosv_type_destroy :: int where
  "nosv_type_destroy = NOSV_SUCCESS"

definition nosv_destroy :: "task_id \<Rightarrow> int" where
  "nosv_destroy task = (if task = NULL then NOSV_ERR_INVALID_PARAMETER else NOSV_SUCCESS)"

text \<open>\<open>others\<close> is what happens until the condition variable of the thread manager is signalled.\<close>

definition threadmanager_shutdown :: "callbacks \<Rightarrow> env \<Rightarrow> (system \<Rightarrow> system) \<Rightarrow> task_globals \<times> system \<Rightarrow> (task_globals \<times> system) option" where
  "threadmanager_shutdown cb e others = (\<lambda>(g, pm, rt).
     assert_then (current_worker rt = NULL)
       (let (s1, ty, ret) = nosv_type_init True True False False NOSV_TYPE_INIT_EXTERNAL (g, rt)
        in if ret \<noteq> NOSV_SUCCESS then None
           else (let (s2, killer_task, ret) = nosv_create True ty 0 NOSV_CREATE_NONE s1
                 in if ret \<noteq> NOSV_SUCCESS then None
                    else do { (rt3, ret) \<leftarrow> nosv_submit cb e killer_task 0 (snd s2);
                              if ret \<noteq> NOSV_SUCCESS then None
                              else do { let (pm4, rt4) = others (pm, rt3);
                                        m \<leftarrow> managers rt4 (logic_pid rt4);
                                        join \<leftarrow> assert_then (tm_signaled m) (all_workers_ended m);
                                        if \<not> join \<or> nosv_destroy killer_task \<noteq> NOSV_SUCCESS \<or> nosv_type_destroy \<noteq> NOSV_SUCCESS then None
                                        else Some (fst s2, pm4, set_manager (logic_pid rt4) (\<lambda>m. m \<lparr> tm_signaled := False, shutdown_threads := [] \<rparr>) rt4) } })))"

definition pidmanager_shutdown :: "callbacks \<Rightarrow> env \<Rightarrow> (system \<Rightarrow> system) \<Rightarrow> task_globals \<times> system \<Rightarrow> (task_globals \<times> system) option" where
  "pidmanager_shutdown cb e others = (\<lambda>(g, pm, rt).
     assert_then (pidmanager_get_threadmanager (logic_pid rt) rt \<noteq> None)
       (do { (g', pm', rt') \<leftarrow> threadmanager_shutdown cb e others (g, pm, rt);
             Some (g', pm' \<lparr> pm_pids_alloc := BIT_CLR (logic_pid rt') (pm_pids_alloc pm') \<rparr>,
                   rt' \<lparr> managers := (managers rt')(logic_pid rt' := None) \<rparr>) }))"

end
