(* ===== verification/Cpu_Ownership.thy ===== *)
theory Cpu_Ownership
  imports Worker_Loop Scheduler_Correct
begin

section \<open>Every CPU has exactly one owner\<close>

text \<open>
  A CPU is owned by the worker that runs on it, by the blocked worker that has been woken for it, by an event in
  the creation queue of a process, or it is free. The transition system below lets any worker of any process take a step: hand its CPU to another worker
  and block, resume, end, attach or detach; it lets the delegate threads create workers and processes register and start to shut down. In every
  reachable state every CPU is in exactly one of these places: no CPU is lost and no CPU is given to two workers. A consequence is that the creation queues, which have a bounded
  size, never overflow.

  A step of a worker is what it does up to the point where it blocks, under the view of that worker (\<open>as_worker\<close>). The set \<open>alive\<close> has the
  workers that exist.
\<close>

subsection \<open>Where the CPUs are\<close>

definition holds :: "nosv_worker \<Rightarrow> cpu_id option" where
  "holds w = (if w_signaled w then w_new_cpu w else if w_waiting w then None else w_cpu w)"

definition held :: "nosv_worker \<Rightarrow> cpu_id multiset" where
  "held w = (case holds w of None \<Rightarrow> {#} | Some c \<Rightarrow> {#c#})"

fun event_cpu :: "creation_event \<Rightarrow> cpu_id multiset" where
  "event_cpu (Creation c h) = {#c#}"
| "event_cpu Shutdown = {#}"

definition queued_cpus :: "thread_manager option \<Rightarrow> cpu_id multiset" where
  "queued_cpus m = (case m of None \<Rightarrow> {#} | Some m \<Rightarrow> \<Sum>\<^sub># (image_mset event_cpu (mset (thread_creation_queue m))))"

definition free_cpus :: "cpumanager \<Rightarrow> cpu_id set" where
  "free_cpus m = {c. c < length (pids_cpus m) \<and> pids_cpus m ! c = - 1}"

definition cpu_places :: "runtime \<Rightarrow> worker_id set \<Rightarrow> cpu_id multiset" where
  "cpu_places rt alive =
     (\<Sum>w\<in>alive. held (workers rt w)) + (\<Sum>p<MAX_PIDS. queued_cpus (managers rt p)) + mset_set (free_cpus (rt_cpus rt))"

lemma finite_free_cpus [simp]: "finite (free_cpus m)"
  by (simp add: free_cpus_def)

text \<open>The changes of one worker and of one queue.\<close>

lemma places_set_worker:
  assumes "w \<in> alive" "finite alive"
  shows "cpu_places (set_worker w f rt) alive + held (workers rt w) = cpu_places rt alive + held (f (workers rt w))"
  using assms by (simp add: cpu_places_def set_worker_def sum.remove [of alive w])

lemma places_new_worker:
  assumes "w \<notin> alive" "finite alive"
  shows "cpu_places (set_worker w f rt) (insert w alive) = cpu_places rt alive + held (f (workers rt w))"
proof -
  have "(\<Sum>x\<in>alive. held (workers (set_worker w f rt) x)) = (\<Sum>x\<in>alive. held (workers rt x))"
    using assms(1) by (intro sum.cong) (auto simp: set_worker_def)
  then show ?thesis using assms by (simp add: cpu_places_def set_worker_def)
qed

lemma places_drop_worker: "w \<in> alive \<Longrightarrow> finite alive \<Longrightarrow> cpu_places rt alive = cpu_places rt (alive - {w}) + held (workers rt w)"
  by (simp add: cpu_places_def sum.remove [of alive w])

lemma places_set_manager:
  assumes "managers rt p = Some m" "p < MAX_PIDS"
  shows "cpu_places (set_manager p f rt) alive + queued_cpus (Some m) = cpu_places rt alive + queued_cpus (Some (f m))"
  using assms by (simp add: cpu_places_def set_manager_def sum.remove [of "{..<MAX_PIDS}" p])

lemma places_set_manager_same:
  assumes "managers rt p = Some m" "p < MAX_PIDS" "thread_creation_queue (f m) = thread_creation_queue m"
  shows "cpu_places (set_manager p f rt) alive = cpu_places rt alive"
  using places_set_manager [OF assms(1,2), of f alive] assms(3) by (simp add: queued_cpus_def)

lemma places_cong:
  "workers rt' = workers rt \<Longrightarrow> managers rt' = managers rt \<Longrightarrow> free_cpus (rt_cpus rt') = free_cpus (rt_cpus rt) \<Longrightarrow>
    cpu_places rt' alive = cpu_places rt alive"
  by (simp add: cpu_places_def)

lemma queued_put:
  assumes "length (thread_creation_queue m) \<noteq> creation_slots m"
  shows "queued_cpus (Some (fst (event_queue_put ev m))) = queued_cpus (Some m) + event_cpu ev"
  using assms by (simp add: queued_cpus_def event_queue_put_def)

lemma free_cpus_claim: "0 \<le> p \<Longrightarrow> free_cpus (m \<lparr> pids_cpus := (pids_cpus m)[c := p] \<rparr>) = free_cpus m - {c}"
  by (cases "c < length (pids_cpus m)") (auto simp: free_cpus_def nth_list_update split: if_splits)

subsection \<open>The transition system\<close>

definition as_worker :: "topology \<Rightarrow> worker_id \<Rightarrow> runtime \<Rightarrow> runtime" where
  "as_worker tp w rt = rt \<lparr> current_worker := w, logic_pid := w_pid (workers rt w),
     current_cpu := (case w_cpu (workers rt w) of None \<Rightarrow> - 1 | Some c \<Rightarrow> cpu_lid tp (rt_cpus rt) c) \<rparr>"

definition running :: "runtime \<Rightarrow> worker_id \<Rightarrow> cpu_id \<Rightarrow> bool" where
  "running rt w c \<longleftrightarrow> \<not> w_waiting (workers rt w) \<and> \<not> w_signaled (workers rt w) \<and> w_cpu (workers rt w) = Some c"

definition is_idle :: "runtime \<Rightarrow> worker_id \<Rightarrow> bool" where
  "is_idle rt w \<longleftrightarrow> (\<exists>p m. managers rt p = Some m \<and> w \<in> set (idle_threads m))"

text \<open>A task that has started and is ready again has a worker that is blocked in it.\<close>

definition task_worker_blocked :: "runtime \<Rightarrow> worker_id set \<Rightarrow> task_id \<Rightarrow> bool" where
  "task_worker_blocked rt alive t \<longleftrightarrow>
     (let v = worker (rt_store rt t) in v \<noteq> NULL \<longrightarrow> v \<in> alive \<and> w_waiting (workers rt v) \<and> \<not> is_idle rt v)"

definition new_workers :: "addr list \<Rightarrow> runtime \<Rightarrow> worker_id set" where
  "new_workers addrs rt' = set addrs - set (salloc_addrs rt')"

inductive cpu_step :: "topology \<Rightarrow> pid_manager \<times> runtime \<times> worker_id set \<Rightarrow> pid_manager \<times> runtime \<times> worker_id set \<Rightarrow> bool"
  for tp :: topology where
  delegate_task: "w \<in> alive \<Longrightarrow> running rt w c \<Longrightarrow> task_worker_blocked rt alive (h_task h) \<Longrightarrow>
    hand_over tp h c busy (as_worker tp w rt) = Some (rt1, Block) \<Longrightarrow>
    cpu_step tp (pm, rt, alive) (pm, worker_wait rt1, alive \<union> new_workers (salloc_addrs rt) rt1)"
| yield_cpu: "w \<in> alive \<Longrightarrow> running rt w c \<Longrightarrow>
    worker_wake_idle tp (w_pid (workers rt w)) c EMPTY_TASK_EXECUTION_HANDLE (as_worker tp w rt) = Some rt1 \<Longrightarrow>
    cpu_step tp (pm, rt, alive) (pm, worker_wait rt1, alive \<union> new_workers (salloc_addrs rt) rt1)"
| resume: "w \<in> alive \<Longrightarrow> worker_resume tp (as_worker tp w rt) = Some rt1 \<Longrightarrow> cpu_step tp (pm, rt, alive) (pm, rt1, alive)"
| delegate_creates: "delegate_round p (rt \<lparr> logic_pid := p \<rparr>) = Some (rt1, continue) \<Longrightarrow>
    cpu_step tp (pm, rt, alive) (pm, rt1, alive \<union> new_workers (salloc_addrs rt) rt1)"
| attach: "worker_create_external rt = Some rt1 \<Longrightarrow>
    cpu_step tp (pm, rt, alive) (pm, worker_wait rt1, alive \<union> new_workers (salloc_addrs rt) rt1)"
| detach: "w \<in> alive \<Longrightarrow> running rt w c \<Longrightarrow> worker_free_external w (as_worker tp w rt) = Some rt1 \<Longrightarrow>
    worker_wake_idle tp (w_pid (workers rt w)) c EMPTY_TASK_EXECUTION_HANDLE (rt1 \<lparr> current_cpu := - 1 \<rparr>) = Some rt2 \<Longrightarrow>
    cpu_step tp (pm, rt, alive) (pm, rt2, (alive - {w}) \<union> new_workers (salloc_addrs rt) rt2)"
| end_worker: "w \<in> alive \<Longrightarrow> running rt w c \<Longrightarrow> shutdown_rounds tp leader [(tryjoin, id)] (pm, as_worker tp w rt) = Some (pm1, rt1) \<Longrightarrow>
    cpu_step tp (pm, rt, alive) (pm1, rt1, (alive - {w}) \<union> new_workers (salloc_addrs rt) rt1)"
| register: "pidmanager_register tp (pm, rt) = Some (pm1, rt1) \<Longrightarrow>
    cpu_step tp (pm, rt, alive) (pm1, rt1, alive \<union> new_workers (tl (salloc_addrs rt)) rt1)"
| start_shutdown: "w \<in> alive \<Longrightarrow> running rt w c \<Longrightarrow> managers rt (w_pid (workers rt w)) = Some m \<Longrightarrow> leader_shutdown_cpu m = - 1 \<Longrightarrow>
    killer_task_run_callback tp (pm, as_worker tp w rt) = Some (pm1, rt1) \<Longrightarrow> cpu_step tp (pm, rt, alive) (pm1, rt1, alive)"
| release: "managers rt p = Some m \<Longrightarrow> thread_creation_queue m = [] \<Longrightarrow>
    cpu_step tp (pm, rt, alive) (pm \<lparr> pm_pids_alloc := BIT_CLR p (pm_pids_alloc pm) \<rparr>, rt \<lparr> managers := (managers rt)(p := None) \<rparr>, alive)"

subsection \<open>The invariant\<close>

text \<open>\<open>X\<close> has the workers that have put themselves into an idle list and are about to block.\<close>

definition workers_ok :: "runtime \<Rightarrow> worker_id set \<Rightarrow> bool" where
  "workers_ok rt alive \<longleftrightarrow> finite alive \<and> NULL \<notin> alive \<and> distinct (salloc_addrs rt) \<and> set (salloc_addrs rt) \<inter> alive = {} \<and>
     (\<forall>w\<in>alive. w_signaled (workers rt w) \<longrightarrow> w_waiting (workers rt w))"

definition manager_ok :: "runtime \<Rightarrow> worker_id set \<Rightarrow> nat \<Rightarrow> worker_id set \<Rightarrow> pid \<Rightarrow> thread_manager \<Rightarrow> bool" where
  "manager_ok rt alive n X p m \<longleftrightarrow> p < MAX_PIDS \<and> creation_slots m = n * 2 \<and> distinct (idle_threads m) \<and>
     count_list (thread_creation_queue m) Shutdown \<le> (if leader_shutdown_cpu m = - 1 then 0 else 1) \<and>
     (\<forall>v\<in>set (idle_threads m). v \<in> alive \<and> (v \<notin> X \<longrightarrow> w_waiting (workers rt v)) \<and> \<not> w_signaled (workers rt v) \<and> w_pid (workers rt v) = p)"

definition managers_ok :: "runtime \<Rightarrow> worker_id set \<Rightarrow> nat \<Rightarrow> worker_id set \<Rightarrow> bool" where
  "managers_ok rt alive n X \<longleftrightarrow> (\<forall>p m. managers rt p = Some m \<longrightarrow> manager_ok rt alive n X p m)"

definition cpus_fine :: "topology \<Rightarrow> cpumanager \<Rightarrow> nat \<Rightarrow> bool" where
  "cpus_fine tp m n \<longleftrightarrow> topo_lvl_cnt tp TOPO_CPU = Some n \<and> length (pids_cpus m) = n \<and> (\<forall>c<n. cpu_lid tp m c = int c)"

definition pids_ok :: "pid_manager \<Rightarrow> runtime \<Rightarrow> bool" where
  "pids_ok pm rt \<longleftrightarrow> length (pm_pids pm) = bitset_words MAX_PIDS \<and> length (pm_pids_alloc pm) = bitset_words MAX_PIDS \<and>
     (\<forall>p. managers rt p \<noteq> None \<longrightarrow> BIT_ISSET p (pm_pids_alloc pm))"

definition ownership_inv :: "topology \<Rightarrow> nat \<Rightarrow> pid_manager \<times> runtime \<times> worker_id set \<Rightarrow> bool" where
  "ownership_inv tp n = (\<lambda>(pm, rt, alive). workers_ok rt alive \<and> managers_ok rt alive n {} \<and> cpus_fine tp (rt_cpus rt) n \<and> pids_ok pm rt \<and>
     cpu_places rt alive = mset_set {..<n})"

lemma manager_ok_cong:
  assumes "\<And>v. v \<in> alive \<Longrightarrow> w_waiting (workers rt' v) = w_waiting (workers rt v) \<and> w_signaled (workers rt' v) = w_signaled (workers rt v) \<and>
    w_pid (workers rt' v) = w_pid (workers rt v)"
  shows "manager_ok rt' alive n X p m = manager_ok rt alive n X p m"
  using assms by (simp add: manager_ok_def cong: conj_cong)

lemma fine_claim: "cpus_fine tp m n \<Longrightarrow> cpus_fine tp (m \<lparr> pids_cpus := (pids_cpus m)[i := v] \<rparr>) n"
  by (simp add: cpus_fine_def cpu_lid_def)

text \<open>Waking a worker for a CPU.\<close>

definition awake :: "cpu_id \<Rightarrow> nosv_worker \<Rightarrow> nosv_worker" where
  "awake c w = w \<lparr> w_new_cpu := Some c, w_signaled := True \<rparr>"

lemma wake_internal_effect:
  assumes "worker_wake_internal tp v c rt = Some rt'" "cpus_fine tp (rt_cpus rt) n" "c < n" "c \<notin> free_cpus (rt_cpus rt)"
  shows "\<exists>m. rt' = set_worker v (awake c) rt \<lparr> rt_cpus := m \<rparr> \<and> cpus_fine tp m n \<and> free_cpus m = free_cpus (rt_cpus rt)"
    "\<not> w_signaled (workers rt v)" "v \<noteq> current_worker rt"
proof -
  obtain m where m: "(if w_pid (workers rt v) \<noteq> logic_pid rt then cpu_set_pid tp (rt_cpus rt) c (int (w_pid (workers rt v))) else Some (rt_cpus rt)) = Some m"
    and s: "nosv_condvar_signal v (set_worker v (\<lambda>k. k \<lparr> w_new_cpu := Some c \<rparr>) rt \<lparr> rt_cpus := m \<rparr>) = Some rt'" "v \<noteq> current_worker rt"
    using assms(1) by (auto simp: worker_wake_internal_def Let_def bind_eq_Some_conv)
  have "cpus_fine tp m n \<and> free_cpus m = free_cpus (rt_cpus rt)"
    using m assms(2-4) fine_claim free_cpus_claim by (auto simp: cpu_set_pid_def Let_def cpus_fine_def split: if_splits)
  moreover have "rt' = set_worker v (awake c) rt \<lparr> rt_cpus := m \<rparr>"
    using s by (auto simp: nosv_condvar_signal_def set_worker_def awake_def)
  ultimately show "\<exists>m. rt' = set_worker v (awake c) rt \<lparr> rt_cpus := m \<rparr> \<and> cpus_fine tp m n \<and> free_cpus m = free_cpus (rt_cpus rt)" by blast
  show "\<not> w_signaled (workers rt v)" using s by (simp add: nosv_condvar_signal_def set_worker_def)
  show "v \<noteq> current_worker rt" by (rule s)
qed

lemma held_awake [simp]: "held (awake c w) = {#c#}"
  by (simp add: held_def holds_def awake_def)

lemma held_handle [simp]: "held (w \<lparr> w_handle := h \<rparr>) = held w"
  by (simp add: held_def holds_def)

lemma held_blocked: "w_waiting w \<Longrightarrow> \<not> w_signaled w \<Longrightarrow> held w = {#}"
  by (simp add: held_def holds_def)

lemma held_running: "running rt w c \<Longrightarrow> held (workers rt w) = {#c#}"
  by (simp add: held_def holds_def running_def)

text \<open>What giving a CPU away leaves: the CPU is in one place more, until the giver blocks or ends.\<close>

definition gave :: "topology \<Rightarrow> nat \<Rightarrow> cpu_id \<Rightarrow> worker_id set \<Rightarrow> worker_id set \<Rightarrow> runtime \<Rightarrow> runtime \<Rightarrow> bool" where
  "gave tp n c X alive rt rt' \<longleftrightarrow>
     (let alive' = alive \<union> new_workers (salloc_addrs rt) rt'
      in workers_ok rt' alive' \<and> managers_ok rt' alive' n X \<and> cpus_fine tp (rt_cpus rt') n \<and>
         cpu_places rt' alive' = add_mset c (cpu_places rt alive) \<and> (\<forall>v\<in>alive. \<not> w_waiting (workers rt v) \<longrightarrow> workers rt' v = workers rt v) \<and>
         dom (managers rt') = dom (managers rt) \<and> current_worker rt' = current_worker rt \<and> logic_pid rt' = logic_pid rt)"

lemma gave_wake:
  assumes wake: "worker_wake_internal tp v c rt = Some rt'" and ok: "workers_ok rt alive" "managers_ok rt alive n X" "cpus_fine tp (rt_cpus rt) n"
    and c: "c < n" "c \<notin> free_cpus (rt_cpus rt)" and v: "v \<in> alive" "w_waiting (workers rt v)" "\<not> is_idle rt v"
  shows "gave tp n c X alive rt rt'"
proof -
  obtain m where rt': "rt' = set_worker v (awake c) rt \<lparr> rt_cpus := m \<rparr>" "cpus_fine tp m n" "free_cpus m = free_cpus (rt_cpus rt)"
    using wake_internal_effect(1) [OF wake ok(3) c] by blast
  have s: "\<not> w_signaled (workers rt v)" by (rule wake_internal_effect(2) [OF wake ok(3) c])
  have "cpu_places rt' alive = cpu_places (set_worker v (awake c) rt) alive" using rt' by (intro places_cong) (simp_all add: set_worker_def)
  also have "\<dots> = add_mset c (cpu_places rt alive)"
    using places_set_worker [of v alive "awake c" rt] v(1) ok(1) held_blocked [OF v(2) s] by (simp add: workers_ok_def)
  finally have pl: "cpu_places rt' alive = add_mset c (cpu_places rt alive)" .
  have new: "new_workers (salloc_addrs rt) rt' = {}" using rt' by (simp add: new_workers_def set_worker_def)
  have "workers_ok rt' alive" using ok(1) rt' v(2) by (auto simp: workers_ok_def set_worker_def awake_def)
  moreover have "managers_ok rt' alive n X"
    unfolding managers_ok_def
  proof (intro allI impI)
    fix p k
    assume k: "managers rt' p = Some k"
    then have "manager_ok rt alive n X p k" "v \<notin> set (idle_threads k)" using ok(2) rt' v(3) by (auto simp: managers_ok_def is_idle_def set_worker_def)
    then show "manager_ok rt' alive n X p k" using rt' by (auto simp: manager_ok_def set_worker_def)
  qed
  ultimately show ?thesis using rt' pl new v by (simp add: gave_def set_worker_def)
qed

text \<open>Creating a worker, and asking another process to create one.\<close>

lemma managers_ok_grow:
  assumes "managers_ok rt alive n X" "\<And>v. v \<in> alive \<Longrightarrow> workers rt' v = workers rt v" "alive \<subseteq> alive'"
    "\<And>p m. managers rt' p = Some m \<Longrightarrow> \<exists>m0. managers rt p = Some m0 \<and> idle_threads m = idle_threads m0 \<and>
      creation_slots m = creation_slots m0 \<and> leader_shutdown_cpu m = leader_shutdown_cpu m0 \<and>
      count_list (thread_creation_queue m) Shutdown \<le> count_list (thread_creation_queue m0) Shutdown"
  shows "managers_ok rt' alive' n X"
  unfolding managers_ok_def
proof (intro allI impI)
  fix p m
  assume "managers rt' p = Some m"
  then obtain m0 where m0: "managers rt p = Some m0" "idle_threads m = idle_threads m0" "creation_slots m = creation_slots m0"
    "leader_shutdown_cpu m = leader_shutdown_cpu m0" "count_list (thread_creation_queue m) Shutdown \<le> count_list (thread_creation_queue m0) Shutdown"
    using assms(4) by blast
  then have "manager_ok rt alive n X p m0" using assms(1) by (simp add: managers_ok_def)
  then show "manager_ok rt' alive' n X p m" using m0 assms(2,3) unfolding manager_ok_def by (auto split: if_splits)
qed

lemma gave_create:
  assumes create: "worker_create_local p c h rt = Some rt'" and ok: "workers_ok rt alive" "managers_ok rt alive n X" "cpus_fine tp (rt_cpus rt) n"
  shows "gave tp n c X alive rt rt'"
proof -
  obtain m where m: "managers rt p = Some m" using create by (auto simp: worker_create_local_def bind_eq_Some_conv)
  then have p: "p < MAX_PIDS" using ok(2) by (auto simp: managers_ok_def manager_ok_def)
  let ?r1 = "set_manager p (\<lambda>m. m \<lparr> created := created m + 1 \<rparr>) rt"
  obtain a as where as: "salloc_addrs rt = a # as" "a \<noteq> NULL"
    using create m by (auto simp: worker_create_local_def salloc_addr_def set_manager_def Let_def split: list.splits)
  let ?w = "\<lparr> w_cpu = Some c, w_new_cpu = w_new_cpu (workers rt a), w_handle = h, immediate_successor = NULL, w_signaled = False, w_waiting = False,
    w_pid = logic_pid rt, in_task_body = False \<rparr>"
  have rt': "rt' = set_worker a (\<lambda>_. ?w) (?r1 \<lparr> salloc_addrs := as \<rparr>)"
    using create m as by (simp add: worker_create_local_def salloc_addr_def set_manager_def Let_def)
  have fresh: "a \<notin> alive" "distinct (a # as)" "finite alive" "set as \<inter> alive = {}" using ok(1) as by (auto simp: workers_ok_def)
  then have new: "new_workers (salloc_addrs rt) rt' = {a}" using as rt' by (auto simp: new_workers_def set_worker_def)
  have "cpu_places rt' (insert a alive) = cpu_places (?r1 \<lparr> salloc_addrs := as \<rparr>) alive + held ?w"
    unfolding rt' by (rule places_new_worker [OF fresh(1,3)])
  also have "cpu_places (?r1 \<lparr> salloc_addrs := as \<rparr>) alive = cpu_places ?r1 alive" by (rule places_cong) simp_all
  also have "\<dots> = cpu_places rt alive" by (rule places_set_manager_same [OF m p]) simp
  finally have pl: "cpu_places rt' (insert a alive) = add_mset c (cpu_places rt alive)" by (simp add: held_def holds_def)
  have wk: "workers rt' v = workers rt v" if "v \<in> alive" for v using that fresh(1) rt' by (auto simp: set_worker_def set_manager_def)
  have "workers_ok rt' (insert a alive)" using ok(1) rt' as fresh by (auto simp: workers_ok_def set_worker_def set_manager_def)
  moreover have "managers_ok rt' (insert a alive) n X"
    by (rule managers_ok_grow [OF ok(2) wk]) (use rt' in \<open>auto simp: set_worker_def set_manager_def split: if_splits\<close>)
  moreover have "dom (managers rt') = dom (managers rt)" using rt' m by (auto simp: set_worker_def set_manager_def)
  ultimately show ?thesis using ok(3) pl new wk rt' by (simp add: gave_def set_worker_def set_manager_def)
qed

lemma gave_queue:
  assumes queue: "worker_create_remote p c h rt = Some rt'" and ok: "workers_ok rt alive" "managers_ok rt alive n X" "cpus_fine tp (rt_cpus rt) n"
    and room: "\<And>m. managers rt p = Some m \<Longrightarrow> length (thread_creation_queue m) \<noteq> creation_slots m"
  shows "gave tp n c X alive rt rt'"
proof -
  obtain m where m: "managers rt p = Some m" using queue by (auto simp: worker_create_remote_def bind_eq_Some_conv)
  then have p: "p < MAX_PIDS" using ok(2) by (auto simp: managers_ok_def manager_ok_def)
  let ?f = "\<lambda>m. fst (event_queue_put (Creation c h) m)"
  have rt': "rt' = set_manager p ?f rt" using queue m by (simp add: worker_create_remote_def)
  have new: "new_workers (salloc_addrs rt) rt' = {}" using rt' by (simp add: new_workers_def set_manager_def)
  have pl: "cpu_places rt' alive = add_mset c (cpu_places rt alive)"
    using places_set_manager [OF m p, of ?f alive] queued_put [OF room [OF m], of "Creation c h"] rt' by simp
  have "managers_ok rt' alive n X"
    by (rule managers_ok_grow [OF ok(2)]) (use rt' in \<open>auto simp: set_manager_def event_queue_put_def split: if_splits\<close>)
  moreover have "dom (managers rt') = dom (managers rt)" using rt' m by (auto simp: set_manager_def)
  moreover have "workers_ok rt' alive" using ok(1) rt' by (simp add: workers_ok_def set_manager_def)
  ultimately show ?thesis using ok(3) pl new rt' by (simp add: gave_def set_manager_def)
qed

text \<open>Waking an idle worker of a process, or having one created.\<close>

lemma gave_pop:
  assumes m: "managers rt p = Some m" "idle_threads m = v # vs"
    and wake2: "worker_wake_internal tp v c (set_worker v (\<lambda>k. k \<lparr> w_handle := h \<rparr>) (set_manager p (\<lambda>m. m \<lparr> idle_threads := vs \<rparr>) rt)) = Some rt'"
    and ok: "workers_ok rt alive" "managers_ok rt alive n X" "cpus_fine tp (rt_cpus rt) n"
    and c: "c < n" "c \<notin> free_cpus (rt_cpus rt)" and X: "v \<notin> X"
  shows "gave tp n c X alive rt rt'"
proof -
  have mok: "manager_ok rt alive n X p m" using ok(2) m by (simp add: managers_ok_def)
  note Cons = m(2)
  have v: "v \<in> alive" "w_waiting (workers rt v)" "\<not> w_signaled (workers rt v)" "w_pid (workers rt v) = p" "v \<notin> set vs"
    using mok Cons X by (auto simp: manager_ok_def)
  let ?r1 = "set_manager p (\<lambda>m. m \<lparr> idle_threads := vs \<rparr>) rt"
  let ?r2 = "set_worker v (\<lambda>k. k \<lparr> w_handle := h \<rparr>) ?r1"
  have "p < MAX_PIDS" using mok by (simp add: manager_ok_def)
  then have "cpu_places ?r1 alive = cpu_places rt alive" using m by (intro places_set_manager_same) auto
  moreover have "cpu_places ?r2 alive + held (workers ?r1 v) = cpu_places ?r1 alive + held (workers ?r1 v \<lparr> w_handle := h \<rparr>)"
    using v(1) ok(1) by (intro places_set_worker) (auto simp: workers_ok_def)
  ultimately have pl: "cpu_places ?r2 alive = cpu_places rt alive" by simp
  have ok2: "workers_ok ?r2 alive" using ok(1) by (simp add: workers_ok_def set_worker_def set_manager_def)
  have mgr: "managers_ok ?r2 alive n X"
    unfolding managers_ok_def
  proof (intro allI impI)
    fix q k
    assume k: "managers ?r2 q = Some k"
    have "manager_ok rt alive n X q k"
    proof (cases "q = p")
      case True
      then have "k = m \<lparr> idle_threads := vs \<rparr>" using k m by (simp add: set_worker_def set_manager_def)
      then show ?thesis using mok Cons True by (simp add: manager_ok_def)
    next
      case False
      then show ?thesis using k ok(2) by (simp add: managers_ok_def set_worker_def set_manager_def)
    qed
    then show "manager_ok ?r2 alive n X q k" by (subst manager_ok_cong [of _ _ rt]) (auto simp: set_worker_def set_manager_def)
  qed
  have idle: "\<not> is_idle ?r2 v"
  proof
    assume "is_idle ?r2 v"
    then obtain q k where k: "managers ?r2 q = Some k" "v \<in> set (idle_threads k)" by (auto simp: is_idle_def)
    then have "q = p" using mgr v(4) by (auto simp: managers_ok_def manager_ok_def set_worker_def set_manager_def split: if_splits)
    then show False using k m v(5) by (auto simp: set_worker_def set_manager_def)
  qed
  have "gave tp n c X alive ?r2 rt'"
    by (rule gave_wake [OF wake2 ok2 mgr]) (use ok(3) c v idle in \<open>auto simp: set_worker_def set_manager_def\<close>)
  moreover have "workers ?r2 u = workers rt u" if "u \<in> alive" "\<not> w_waiting (workers rt u)" for u
    using that v(2) by (auto simp: set_worker_def set_manager_def)
  moreover have "dom (managers ?r2) = dom (managers rt)" using m by (auto simp: set_worker_def set_manager_def)
  moreover have "salloc_addrs ?r2 = salloc_addrs rt" "current_worker ?r2 = current_worker rt" "logic_pid ?r2 = logic_pid rt"
    by (simp_all add: set_worker_def set_manager_def)
  ultimately show ?thesis using pl by (auto simp: gave_def Let_def)
qed

lemma gave_wake_idle:
  assumes wake: "worker_wake_idle tp p c h rt = Some rt'" and ok: "workers_ok rt alive" "managers_ok rt alive n X" "cpus_fine tp (rt_cpus rt) n"
    and c: "c < n" "c \<notin> free_cpus (rt_cpus rt)" and X: "\<And>v m. v \<in> X \<Longrightarrow> managers rt p = Some m \<Longrightarrow> v \<notin> set (idle_threads m)"
    and room: "\<And>m. managers rt p = Some m \<Longrightarrow> length (thread_creation_queue m) \<noteq> creation_slots m"
  shows "gave tp n c X alive rt rt'"
proof -
  obtain m where m: "managers rt p = Some m" using wake
    by (auto simp: worker_wake_idle_def get_idle_worker_def bind_eq_Some_conv split: if_splits)
  have mok: "manager_ok rt alive n X p m" using ok(2) m by (simp add: managers_ok_def)
  show ?thesis
  proof (cases "idle_threads m")
    case Nil
    then have "rt' \<in> {rt'. worker_create_local p c h rt = Some rt' \<or> worker_create_remote p c h rt = Some rt'}"
      using wake m by (auto simp: worker_wake_idle_def get_idle_worker_def split: if_splits)
    then show ?thesis using gave_create [OF _ ok] gave_queue [OF _ ok room] by blast
  next
    case (Cons v vs)
    have "v \<noteq> NULL" "v \<notin> X" using mok Cons X [OF _ m, of v] ok(1) by (auto simp: manager_ok_def workers_ok_def)
    then show ?thesis using wake m Cons
      by (intro gave_pop [OF m Cons _ ok c, of h]) (simp_all add: worker_wake_idle_def get_idle_worker_def split: if_splits)
  qed
qed

text \<open>The CPU of a running worker is nowhere else; the creation queues have room for it.\<close>

lemma running_cpu:
  assumes "cpu_places rt alive = mset_set {..<n}" "finite alive" "w \<in> alive" "running rt w c"
  shows "c < n" "c \<notin> free_cpus (rt_cpus rt)" "add_mset c (\<Sum>p<MAX_PIDS. queued_cpus (managers rt p)) \<subseteq># mset_set {..<n}"
proof -
  have eq: "mset_set {..<n} = add_mset c ((\<Sum>v\<in>alive - {w}. held (workers rt v)) + (\<Sum>p<MAX_PIDS. queued_cpus (managers rt p)) + mset_set (free_cpus (rt_cpus rt)))"
    using assms held_running [OF assms(4)] by (simp add: cpu_places_def sum.remove [of alive w])
  have "c \<in># mset_set {..<n}" unfolding eq by simp
  then show "c < n" by simp
  have "count (mset_set {..<n}) c \<le> 1" by (simp add: count_mset_set')
  then have "count (mset_set (free_cpus (rt_cpus rt))) c = 0" unfolding eq by simp
  then show "c \<notin> free_cpus (rt_cpus rt)" by (simp add: count_mset_set' split: if_splits)
  show "add_mset c (\<Sum>p<MAX_PIDS. queued_cpus (managers rt p)) \<subseteq># mset_set {..<n}" unfolding eq by simp
qed

lemma queue_length: "length q = size (\<Sum>\<^sub># (image_mset event_cpu (mset q))) + count_list q Shutdown"
proof (induction q)
  case (Cons ev q)
  then show ?case by (cases ev) auto
qed simp

lemma queue_has_room:
  assumes "managers_ok rt alive n X" "add_mset c (\<Sum>p<MAX_PIDS. queued_cpus (managers rt p)) \<subseteq># mset_set {..<n}" "managers rt p = Some m"
  shows "length (thread_creation_queue m) < creation_slots m"
proof -
  have m: "p < MAX_PIDS" "creation_slots m = n * 2" "count_list (thread_creation_queue m) Shutdown \<le> 1"
  proof -
    have "manager_ok rt alive n X p m" using assms(1,3) by (simp add: managers_ok_def)
    then show "p < MAX_PIDS" "creation_slots m = n * 2" "count_list (thread_creation_queue m) Shutdown \<le> 1"
      by (auto simp: manager_ok_def split: if_splits)
  qed
  have "queued_cpus (Some m) \<subseteq># (\<Sum>p<MAX_PIDS. queued_cpus (managers rt p))"
    using m(1) assms(3) by (simp add: sum.remove [of "{..<MAX_PIDS}" p])
  then have "add_mset c (queued_cpus (Some m)) \<subseteq># mset_set {..<n}" using assms(2) by (metis mset_subset_eq_add_mset_cancel subset_mset.order_trans)
  then have "size (add_mset c (queued_cpus (Some m))) \<le> size (mset_set {..<n})" by (rule size_mset_mono)
  then have "Suc (size (queued_cpus (Some m))) \<le> n" by simp
  then show ?thesis using queue_length [of "thread_creation_queue m"] m by (simp add: queued_cpus_def)
qed

lemma new_not_alive: "workers_ok rt alive \<Longrightarrow> new_workers (salloc_addrs rt) rt' \<inter> alive = {}"
  by (auto simp: workers_ok_def new_workers_def)

text \<open>The giver blocks, or ends.\<close>

lemma block_after_gave:
  assumes gave: "gave tp n c {w} alive rt rt1" and w: "w \<in> alive" "running rt w c" "current_worker rt = w"
    and pl: "cpu_places rt alive = mset_set {..<n}"
  shows "let alive' = alive \<union> new_workers (salloc_addrs rt) rt1
    in workers_ok (worker_wait rt1) alive' \<and> managers_ok (worker_wait rt1) alive' n {} \<and> cpus_fine tp (rt_cpus (worker_wait rt1)) n \<and>
       cpu_places (worker_wait rt1) alive' = mset_set {..<n} \<and> dom (managers (worker_wait rt1)) = dom (managers rt)"
proof -
  let ?A = "alive \<union> new_workers (salloc_addrs rt) rt1"
  have g: "workers_ok rt1 ?A" "managers_ok rt1 ?A n {w}" "cpus_fine tp (rt_cpus rt1) n" "cpu_places rt1 ?A = add_mset c (cpu_places rt alive)"
    "workers rt1 w = workers rt w" "dom (managers rt1) = dom (managers rt)" "current_worker rt1 = w"
    using gave w by (auto simp: gave_def Let_def running_def)
  have wt: "worker_wait rt1 = set_worker w (\<lambda>k. k \<lparr> w_waiting := True \<rparr>) rt1" using g(7) by (simp add: worker_wait_def)
  have s: "\<not> w_signaled (workers rt w)" using w(2) by (simp add: running_def)
  have "held (workers rt w \<lparr> w_waiting := True \<rparr>) = {#}" using s by (intro held_blocked) simp_all
  then have "cpu_places (worker_wait rt1) ?A + {#c#} = add_mset c (mset_set {..<n})"
    using places_set_worker [of w ?A "\<lambda>k. k \<lparr> w_waiting := True \<rparr>" rt1] w(1) g held_running [OF w(2)] pl
    by (simp add: wt workers_ok_def)
  then have "cpu_places (worker_wait rt1) ?A = mset_set {..<n}" by simp
  moreover have "workers_ok (worker_wait rt1) ?A" using g(1) by (auto simp: workers_ok_def wt set_worker_def)
  moreover have "managers_ok (worker_wait rt1) ?A n {}"
    using g(2) unfolding managers_ok_def manager_ok_def wt set_worker_def by (auto split: if_splits)
  ultimately show ?thesis using g by (simp add: Let_def wt set_worker_def)
qed

lemma end_after_gave:
  assumes gave: "gave tp n c {} alive rt rt1" and w: "w \<in> alive" "running rt w c" and ok: "workers_ok rt alive"
    and pl: "cpu_places rt alive = mset_set {..<n}"
  shows "let alive' = (alive - {w}) \<union> new_workers (salloc_addrs rt) rt1
    in workers_ok rt1 alive' \<and> managers_ok rt1 alive' n {} \<and> cpus_fine tp (rt_cpus rt1) n \<and>
       cpu_places rt1 alive' = mset_set {..<n} \<and> dom (managers rt1) = dom (managers rt)"
proof -
  let ?A = "alive \<union> new_workers (salloc_addrs rt) rt1"
  have A: "(alive - {w}) \<union> new_workers (salloc_addrs rt) rt1 = ?A - {w}" using w(1) new_not_alive [OF ok] by blast
  have g: "workers_ok rt1 ?A" "managers_ok rt1 ?A n {}" "cpus_fine tp (rt_cpus rt1) n" "cpu_places rt1 ?A = add_mset c (cpu_places rt alive)"
    "workers rt1 w = workers rt w" "dom (managers rt1) = dom (managers rt)"
    using gave w by (auto simp: gave_def Let_def running_def)
  have "cpu_places rt1 ?A = cpu_places rt1 (?A - {w}) + {#c#}"
    using places_drop_worker [of w ?A rt1] w(1) g(1,5) held_running [OF w(2)] by (simp add: workers_ok_def)
  then have "cpu_places rt1 (?A - {w}) = mset_set {..<n}" using g(4) pl by simp
  moreover have "workers_ok rt1 (?A - {w})" using g(1) by (auto simp: workers_ok_def)
  moreover have "managers_ok rt1 (?A - {w}) n {}"
    using g(2,5) w(2) unfolding managers_ok_def manager_ok_def running_def by fastforce
  ultimately show ?thesis unfolding A using g by (simp add: Let_def)
qed

subsection \<open>Every step keeps the invariant\<close>

lemma ok_cong:
  assumes "workers rt' = workers rt" "managers rt' = managers rt" "salloc_addrs rt' = salloc_addrs rt"
  shows "workers_ok rt' = workers_ok rt" "managers_ok rt' = managers_ok rt"
  using assms by (simp_all add: workers_ok_def managers_ok_def manager_ok_def fun_eq_iff)

lemma as_worker_fields [simp]:
  "workers (as_worker tp w rt) = workers rt" "managers (as_worker tp w rt) = managers rt" "salloc_addrs (as_worker tp w rt) = salloc_addrs rt"
  "rt_cpus (as_worker tp w rt) = rt_cpus rt" "rt_world (as_worker tp w rt) = rt_world rt" "current_worker (as_worker tp w rt) = w"
  "logic_pid (as_worker tp w rt) = w_pid (workers rt w)"
  by (simp_all add: as_worker_def)

lemma as_worker_ok [simp]:
  "workers_ok (as_worker tp w rt) = workers_ok rt" "managers_ok (as_worker tp w rt) = managers_ok rt"
  "cpu_places (as_worker tp w rt) alive = cpu_places rt alive" "running (as_worker tp w rt) = running rt"
  by (rule ok_cong; simp)+ (simp_all add: cpu_places_def running_def fun_eq_iff)

lemma gave_from:
  assumes "gave tp n c X alive ri rt'" "workers ri = workers rt" "salloc_addrs ri = salloc_addrs rt" "current_worker ri = current_worker rt"
    "logic_pid ri = logic_pid rt" "dom (managers ri) = dom (managers rt)" "cpu_places ri alive = cpu_places rt alive"
  shows "gave tp n c X alive rt rt'"
  using assms by (simp add: gave_def)

lemma managers_ok_mono: "managers_ok rt alive n X \<Longrightarrow> X \<subseteq> Y \<Longrightarrow> managers_ok rt alive n Y"
  unfolding managers_ok_def manager_ok_def by blast

lemma add_idle:
  assumes add: "worker_add_to_idle_list rt = Some ri" and ok: "managers_ok rt alive n {}"
    and w: "current_worker rt = w" "w \<in> alive" "running rt w c" "logic_pid rt = w_pid (workers rt w)"
  shows "managers_ok ri alive n {w}" "workers ri = workers rt" "salloc_addrs ri = salloc_addrs rt" "current_worker ri = w"
    "logic_pid ri = logic_pid rt" "rt_cpus ri = rt_cpus rt" "dom (managers ri) = dom (managers rt)" "cpu_places ri alive = cpu_places rt alive"
    "is_idle ri v \<Longrightarrow> v = w \<or> is_idle rt v"
proof -
  let ?p = "logic_pid rt"
  obtain m where m: "managers rt ?p = Some m" and ri: "ri = set_manager ?p (\<lambda>m. m \<lparr> idle_threads := w # idle_threads m \<rparr>) rt"
    using add w(1) by (auto simp: worker_add_to_idle_list_def)
  then show "workers ri = workers rt" "salloc_addrs ri = salloc_addrs rt" "current_worker ri = w" "logic_pid ri = logic_pid rt" "rt_cpus ri = rt_cpus rt"
    "dom (managers ri) = dom (managers rt)" using w by (auto simp: set_manager_def)
  have mok: "manager_ok rt alive n {} ?p m" using ok m by (simp add: managers_ok_def)
  then have "?p < MAX_PIDS" by (simp add: manager_ok_def)
  then show "cpu_places ri alive = cpu_places rt alive" unfolding ri using m by (intro places_set_manager_same) auto
  show "is_idle ri v \<Longrightarrow> v = w \<or> is_idle rt v" using m unfolding ri is_idle_def set_manager_def by (fastforce split: if_splits)
  have nw: "\<not> w_waiting (workers rt w)" "\<not> w_signaled (workers rt w)" using w(3) by (simp_all add: running_def)
  show "managers_ok ri alive n {w}"
    unfolding managers_ok_def
  proof (intro allI impI)
    fix q k
    assume k: "managers ri q = Some k"
    have "manager_ok rt alive n {w} q k"
    proof (cases "q = ?p")
      case True
      then have "k = m \<lparr> idle_threads := w # idle_threads m \<rparr>" using k m by (simp add: ri set_manager_def)
      then show ?thesis using mok True w nw by (auto simp: manager_ok_def)
    next
      case False
      then have "manager_ok rt alive n {} q k" using k ok by (simp add: ri managers_ok_def set_manager_def)
      then show ?thesis by (auto simp: manager_ok_def)
    qed
    then show "manager_ok ri alive n {w} q k" by (subst manager_ok_cong [of _ _ rt]) (simp_all add: ri set_manager_def)
  qed
qed

lemma gave_transfer:
  assumes tr: "cpu_transfer tp p c h rt = Some rt'" and ok: "workers_ok rt alive" "managers_ok rt alive n X" "cpus_fine tp (rt_cpus rt) n"
    and c: "c < n" "c \<notin> free_cpus (rt_cpus rt)" and X: "\<And>v m. v \<in> X \<Longrightarrow> managers rt p = Some m \<Longrightarrow> v \<notin> set (idle_threads m)"
    and room: "\<And>m. managers rt p = Some m \<Longrightarrow> length (thread_creation_queue m) \<noteq> creation_slots m"
  shows "gave tp n c X alive rt rt'"
proof -
  let ?m = "(rt_cpus rt) \<lparr> pids_cpus := (pids_cpus (rt_cpus rt))[nat (cpu_lid tp (rt_cpus rt) c) := int p] \<rparr>"
  let ?r = "rt \<lparr> rt_cpus := ?m \<rparr>"
  have wake: "worker_wake_idle tp p c h ?r = Some rt'" using tr by (simp add: cpu_transfer_def)
  have lid: "nat (cpu_lid tp (rt_cpus rt) c) = c" using ok(3) c(1) by (simp add: cpus_fine_def)
  have free: "free_cpus ?m = free_cpus (rt_cpus rt)" using free_cpus_claim [of "int p" "rt_cpus rt" c] c(2) lid by simp
  have same: "workers_ok ?r = workers_ok rt" "managers_ok ?r = managers_ok rt" by (rule ok_cong; simp)+
  have "gave tp n c X alive ?r rt'"
    by (rule gave_wake_idle [OF wake]) (use ok c X room free fine_claim in \<open>auto simp: same\<close>)
  then show ?thesis by (rule gave_from) (simp_all add: cpu_places_def free)
qed

lemma gave_hand_over:
  assumes ho: "hand_over tp h c busy (as_worker tp w rt) = Some (rt1, Block)"
    and ok: "workers_ok rt alive" "managers_ok rt alive n {}" "cpus_fine tp (rt_cpus rt) n" "cpu_places rt alive = mset_set {..<n}"
    and w: "w \<in> alive" "running rt w c" and task: "task_worker_blocked rt alive (h_task h)"
  shows "gave tp n c {w} alive (as_worker tp w rt) rt1"
proof -
  let ?r0 = "as_worker tp w rt" and ?t = "rt_store rt (h_task h)"
  have fin: "finite alive" using ok(1) by (simp add: workers_ok_def)
  note c = running_cpu [OF ok(4) fin w]
  have room: "length (thread_creation_queue m) \<noteq> creation_slots m" if "managers rt p = Some m" for p m
    using queue_has_room [OF ok(2) c(3) that] by simp
  obtain ri where ri: "(if busy then Some ?r0 else worker_add_to_idle_list ?r0) = Some ri" "worker ?t = NULL \<longrightarrow> type_pid (task_type ?t) = w_pid (workers rt w) \<longrightarrow> busy \<and> ri = ?r0"
    using ho by (auto simp: hand_over_def Let_def bind_eq_Some_conv split: if_splits)
  have i: "managers_ok ri alive n {w}" "workers ri = workers rt" "salloc_addrs ri = salloc_addrs rt" "current_worker ri = w"
    "logic_pid ri = w_pid (workers rt w)" "rt_cpus ri = rt_cpus rt" "dom (managers ri) = dom (managers rt)" "cpu_places ri alive = cpu_places rt alive"
    "\<And>v. is_idle ri v \<Longrightarrow> v = w \<or> is_idle rt v"
    using ri(1) managers_ok_mono [OF ok(2), of "{w}"] add_idle [of ?r0 ri alive n w c] ok(2) w by (auto simp: is_idle_def split: if_splits)
  have wok: "workers_ok ri alive" using ok(1) i by (simp add: workers_ok_def)
  have queues: "length (thread_creation_queue m) \<noteq> creation_slots m" if "managers ri p = Some m" for p m
  proof -
    have "add_mset c (\<Sum>p<MAX_PIDS. queued_cpus (managers ri p)) \<subseteq># mset_set {..<n}"
      using running_cpu(3) [of ri alive n w c] i ok(4) fin w by (simp add: running_def)
    then show ?thesis using queue_has_room [OF i(1) _ that] by auto
  qed
  have "gave tp n c {w} alive ri rt1"
  proof (cases "worker ?t = NULL")
    case False
    then have wake: "worker_wake_internal tp (worker ?t) c ri = Some rt1"
      using ho ri(1) by (auto simp: hand_over_def Let_def bind_eq_Some_conv split: if_splits)
    have v: "worker ?t \<in> alive" "w_waiting (workers rt (worker ?t))" "\<not> is_idle rt (worker ?t)"
      using task False by (auto simp: task_worker_blocked_def Let_def)
    then have "\<not> is_idle ri (worker ?t)" using i(9) w(2) by (auto simp: running_def)
    then show ?thesis using gave_wake [OF wake wok i(1)] ok(3) c v i by simp
  next
    case True
    show ?thesis
    proof (cases "type_pid (task_type ?t) = w_pid (workers rt w)")
      case False
      then have tr: "cpu_transfer tp (type_pid (task_type ?t)) c h ri = Some rt1"
        using ho ri(1) True by (auto simp: hand_over_def Let_def bind_eq_Some_conv split: if_splits)
      have "w \<notin> set (idle_threads m)" if "managers ri (type_pid (task_type ?t)) = Some m" for m
        using that False i(1,2) by (auto simp: managers_ok_def manager_ok_def)
      then show ?thesis using gave_transfer [OF tr wok i(1)] ok(3) c i queues by simp
    next
      case own: True
      then have r: "ri = ?r0" and wake: "worker_wake_idle tp (w_pid (workers rt w)) c h ?r0 = Some rt1"
        using ho ri True by (auto simp: hand_over_def Let_def bind_eq_Some_conv split: if_splits)
      have "w \<notin> set (idle_threads m)" if "managers rt p = Some m" for p m
        using that ok(2) w(2) by (auto simp: managers_ok_def manager_ok_def running_def)
      then show ?thesis using gave_wake_idle [of tp _ c h ri rt1 alive n "{w}"] wake r wok i(1) ok(3) c room by simp
    qed
  qed
  then show ?thesis by (rule gave_from) (simp_all add: i)
qed

text \<open>The parts of the invariant that do not mention the process table.\<close>

definition owned_ok :: "topology \<Rightarrow> nat \<Rightarrow> runtime \<Rightarrow> worker_id set \<Rightarrow> bool" where
  "owned_ok tp n rt alive \<longleftrightarrow> workers_ok rt alive \<and> managers_ok rt alive n {} \<and> cpus_fine tp (rt_cpus rt) n \<and> cpu_places rt alive = mset_set {..<n}"

lemma resume_ok:
  assumes ok: "owned_ok tp n rt alive" and w: "w \<in> alive" and r: "worker_resume tp (as_worker tp w rt) = Some rt1"
  shows "owned_ok tp n rt1 alive" "managers rt1 = managers rt"
proof -
  let ?f = "\<lambda>w. w \<lparr> w_signaled := False, w_waiting := False, w_cpu := w_new_cpu w \<rparr>"
  obtain c where c: "w_signaled (workers rt w)" "w_new_cpu (workers rt w) = Some c" "rt1 = set_worker w ?f (as_worker tp w rt) \<lparr> current_cpu := cpu_lid tp (rt_cpus rt) c \<rparr>"
    using r by (auto simp: worker_resume_def Let_def bind_eq_Some_conv)
  have f: "workers rt1 = (workers rt)(w := ?f (workers rt w))" "managers rt1 = managers rt" "salloc_addrs rt1 = salloc_addrs rt" "rt_cpus rt1 = rt_cpus rt"
    using c(3) by (simp_all add: set_worker_def)
  have "cpu_places rt1 alive = cpu_places (set_worker w ?f rt) alive" using f by (intro places_cong) (simp_all add: set_worker_def)
  moreover have "held (?f (workers rt w)) = held (workers rt w)" using c by (simp add: held_def holds_def)
  ultimately have "cpu_places rt1 alive = cpu_places rt alive"
    using places_set_worker [of w alive ?f rt] w ok by (simp add: owned_ok_def workers_ok_def)
  moreover have "workers_ok rt1 alive" using ok f by (auto simp: owned_ok_def workers_ok_def)
  moreover have "managers_ok rt1 alive n {}"
    unfolding managers_ok_def
  proof (intro allI impI)
    fix p m
    assume "managers rt1 p = Some m"
    then have m: "manager_ok rt alive n {} p m" using ok f by (simp add: owned_ok_def managers_ok_def)
    then have "w \<notin> set (idle_threads m)" using c(1) by (auto simp: manager_ok_def)
    then show "manager_ok rt1 alive n {} p m" using m f by (auto simp: manager_ok_def)
  qed
  ultimately show "owned_ok tp n rt1 alive" using ok f by (simp add: owned_ok_def)
  show "managers rt1 = managers rt" by (rule f)
qed

lemma delegate_ok:
  assumes ok: "owned_ok tp n rt alive" and r: "delegate_round p (rt \<lparr> logic_pid := p \<rparr>) = Some (rt1, continue)"
  shows "owned_ok tp n rt1 (alive \<union> new_workers (salloc_addrs rt) rt1)" "dom (managers rt1) = dom (managers rt)"
proof -
  obtain m where m0: "managers rt p = Some m" using r by (auto simp: delegate_round_def bind_eq_Some_conv)
  then obtain ev evs where m: "managers rt p = Some m" "thread_creation_queue m = ev # evs"
    using r by (cases "thread_creation_queue m") (auto simp: delegate_round_def event_queue_pull_def)
  let ?m = "m \<lparr> thread_creation_queue := evs \<rparr>" and ?r0 = "rt \<lparr> logic_pid := p \<rparr>"
  let ?r1 = "set_manager p (\<lambda>_. ?m) ?r0"
  have f: "workers ?r1 = workers rt" "salloc_addrs ?r1 = salloc_addrs rt" "rt_cpus ?r1 = rt_cpus rt" "managers ?r1 = (managers rt)(p \<mapsto> ?m)"
    using m by (auto simp: set_manager_def)
  have p: "p < MAX_PIDS" using ok m by (auto simp: owned_ok_def managers_ok_def manager_ok_def)
  have "cpu_places ?r0 alive = cpu_places rt alive" by (rule places_cong) simp_all
  then have pl: "cpu_places ?r1 alive + event_cpu ev = cpu_places rt alive"
    using places_set_manager [of ?r0 p m "\<lambda>_. ?m" alive] m p by (simp add: queued_cpus_def)
  have wok: "workers_ok ?r1 alive" using ok f by (simp add: owned_ok_def workers_ok_def)
  have mok: "managers_ok ?r1 alive n {}"
    by (rule managers_ok_grow [of rt alive n "{}"]) (use ok m f in \<open>auto simp: owned_ok_def split: if_splits\<close>)
  have "owned_ok tp n rt1 (alive \<union> new_workers (salloc_addrs rt) rt1) \<and> dom (managers rt1) = dom (managers rt)"
  proof (cases ev)
    case Shutdown
    then have "rt1 = ?r1" using r m by (simp add: delegate_round_def event_queue_pull_def Let_def)
    then show ?thesis using wok mok pl ok f m Shutdown by (auto simp: owned_ok_def new_workers_def)
  next
    case (Creation c h)
    then have "worker_create_local p c h ?r1 = Some rt1" using r m by (auto simp: delegate_round_def event_queue_pull_def Let_def)
    then have "gave tp n c {} alive ?r1 rt1" using wok mok ok f by (intro gave_create) (auto simp: owned_ok_def)
    then show ?thesis using pl Creation ok f m by (auto simp: gave_def Let_def owned_ok_def)
  qed
  then show "owned_ok tp n rt1 (alive \<union> new_workers (salloc_addrs rt) rt1)" "dom (managers rt1) = dom (managers rt)" by auto
qed

lemma attach_ok:
  assumes ok: "owned_ok tp n rt alive" and r: "worker_create_external rt = Some rt1"
  shows "owned_ok tp n (worker_wait rt1) (alive \<union> new_workers (salloc_addrs rt) rt1)" "managers (worker_wait rt1) = managers rt"
proof -
  obtain a as where as: "salloc_addrs rt = a # as" "a \<noteq> NULL"
    using r by (auto simp: worker_create_external_def salloc_addr_def Let_def split: list.splits)
  let ?w = "\<lparr> w_cpu = None, w_new_cpu = w_new_cpu (workers rt a), w_handle = EMPTY_TASK_EXECUTION_HANDLE, immediate_successor = NULL, w_signaled = False,
    w_waiting = False, w_pid = logic_pid rt, in_task_body = True \<rparr>"
  have r1: "rt1 = set_worker a (\<lambda>_. ?w) (rt \<lparr> salloc_addrs := as \<rparr>) \<lparr> current_worker := a \<rparr>"
    using r as by (simp add: worker_create_external_def salloc_addr_def Let_def)
  have f: "workers (worker_wait rt1) = workers (set_worker a (\<lambda>_. ?w \<lparr> w_waiting := True \<rparr>) rt)" "managers (worker_wait rt1) = managers rt"
    "salloc_addrs (worker_wait rt1) = as" "rt_cpus (worker_wait rt1) = rt_cpus rt"
    using r1 by (simp_all add: worker_wait_def set_worker_def)
  have fresh: "a \<notin> alive" "distinct (a # as)" "finite alive" "set as \<inter> alive = {}" using ok as by (auto simp: owned_ok_def workers_ok_def)
  then have new: "new_workers (salloc_addrs rt) rt1 = {a}" using as r1 by (auto simp: new_workers_def set_worker_def)
  have "cpu_places (worker_wait rt1) (insert a alive) = cpu_places (set_worker a (\<lambda>_. ?w \<lparr> w_waiting := True \<rparr>) rt) (insert a alive)"
    using f by (intro places_cong) (simp_all add: set_worker_def)
  also have "\<dots> = cpu_places rt alive" using places_new_worker [OF fresh(1,3)] by (simp add: held_def holds_def)
  finally have pl: "cpu_places (worker_wait rt1) (insert a alive) = cpu_places rt alive" .
  have "workers_ok (worker_wait rt1) (insert a alive)" using ok f as fresh by (auto simp: owned_ok_def workers_ok_def set_worker_def)
  moreover have "managers_ok (worker_wait rt1) (insert a alive) n {}"
    by (rule managers_ok_grow [of rt alive n "{}"]) (use ok f fresh in \<open>auto simp: owned_ok_def set_worker_def\<close>)
  ultimately show "owned_ok tp n (worker_wait rt1) (alive \<union> new_workers (salloc_addrs rt) rt1)" using ok pl new f by (simp add: owned_ok_def)
  show "managers (worker_wait rt1) = managers rt" by (rule f)
qed

lemma block_ok:
  assumes ok: "owned_ok tp n rt alive" and w: "w \<in> alive" "running rt w c" and g: "gave tp n c {w} alive (as_worker tp w rt) rt1"
  shows "owned_ok tp n (worker_wait rt1) (alive \<union> new_workers (salloc_addrs rt) rt1)" "dom (managers (worker_wait rt1)) = dom (managers rt)"
  using block_after_gave [OF g] ok w by (auto simp: owned_ok_def Let_def)

lemma yield_ok:
  assumes ok: "owned_ok tp n rt alive" and w: "w \<in> alive" "running rt w c"
    and r: "worker_wake_idle tp (w_pid (workers rt w)) c h (as_worker tp w rt) = Some rt1"
  shows "gave tp n c {w} alive (as_worker tp w rt) rt1"
proof -
  have o: "workers_ok rt alive" "managers_ok rt alive n {}" "cpus_fine tp (rt_cpus rt) n" "cpu_places rt alive = mset_set {..<n}" "finite alive"
    using ok by (auto simp: owned_ok_def workers_ok_def)
  note c = running_cpu [OF o(4,5) w]
  have "w \<notin> set (idle_threads m)" if "managers rt p = Some m" for p m
    using that o(2) w(2) by (auto simp: managers_ok_def manager_ok_def running_def)
  moreover have "length (thread_creation_queue m) \<noteq> creation_slots m" if "managers rt p = Some m" for p m
    using queue_has_room [OF o(2) c(3) that] by simp
  ultimately show ?thesis
    by (intro gave_wake_idle [OF r]) (use o c managers_ok_mono [OF o(2), of "{w}"] in auto)
qed

lemma detach_ok:
  assumes ok: "owned_ok tp n rt alive" and w: "w \<in> alive" "running rt w c" and r: "worker_free_external w (as_worker tp w rt) = Some rt1"
    "worker_wake_idle tp (w_pid (workers rt w)) c h (rt1 \<lparr> current_cpu := - 1 \<rparr>) = Some rt2"
  shows "owned_ok tp n rt2 ((alive - {w}) \<union> new_workers (salloc_addrs rt) rt2)" "dom (managers rt2) = dom (managers rt)"
proof -
  let ?r = "rt1 \<lparr> current_cpu := - 1 \<rparr>"
  have f: "workers ?r = workers rt" "managers ?r = managers rt" "salloc_addrs ?r = salloc_addrs rt" "rt_cpus ?r = rt_cpus rt"
    using r(1) by (auto simp: worker_free_external_def)
  have o: "workers_ok ?r alive" "managers_ok ?r alive n {}" "cpus_fine tp (rt_cpus ?r) n" "cpu_places ?r alive = mset_set {..<n}" "finite alive" "running ?r w c"
    using ok w f ok_cong [OF f(1-3)] places_cong [of ?r rt alive] by (auto simp: owned_ok_def workers_ok_def running_def)
  note c = running_cpu [OF o(4,5) w(1) o(6)]
  have "gave tp n c {} alive ?r rt2"
    using queue_has_room [OF o(2) c(3)] by (intro gave_wake_idle [OF r(2) o(1-3) c(1,2)]) (auto dest: less_imp_neq)
  from end_after_gave [OF this w(1) o(6,1,4)] show "owned_ok tp n rt2 ((alive - {w}) \<union> new_workers (salloc_addrs rt) rt2)"
    "dom (managers rt2) = dom (managers rt)" using f by (auto simp: owned_ok_def Let_def)
qed

text \<open>A worker ends: its CPU goes to an idle worker, to another process, or becomes free.\<close>

lemma free_cpu_ok:
  assumes ok: "owned_ok tp n rt alive" and w: "w \<in> alive" "running rt w c"
  shows "owned_ok tp n (rt \<lparr> rt_cpus := cpu_mark_free tp (rt_cpus rt) c \<rparr>) (alive - {w})"
proof -
  let ?r = "rt \<lparr> rt_cpus := cpu_mark_free tp (rt_cpus rt) c \<rparr>"
  have o: "workers_ok rt alive" "managers_ok rt alive n {}" "cpus_fine tp (rt_cpus rt) n" "cpu_places rt alive = mset_set {..<n}" "finite alive"
    using ok by (auto simp: owned_ok_def workers_ok_def)
  note c = running_cpu [OF o(4,5) w]
  have m: "cpu_mark_free tp (rt_cpus rt) c = (rt_cpus rt) \<lparr> pids_cpus := (pids_cpus (rt_cpus rt))[c := - 1] \<rparr>"
    using o(3) c(1) by (simp add: cpu_mark_free_def cpus_fine_def)
  have "free_cpus (cpu_mark_free tp (rt_cpus rt) c) = insert c (free_cpus (rt_cpus rt))"
    using o(3) c(1) unfolding m by (auto simp: free_cpus_def cpus_fine_def nth_list_update)
  then have "cpu_places ?r (alive - {w}) = add_mset c (cpu_places rt (alive - {w}))" using c(2) by (simp add: cpu_places_def)
  also have "\<dots> = cpu_places rt alive" using places_drop_worker [OF w(1) o(5), of rt] held_running [OF w(2)] by simp
  finally have "cpu_places ?r (alive - {w}) = mset_set {..<n}" using o(4) by simp
  moreover have "workers_ok ?r (alive - {w})" using o(1) by (auto simp: workers_ok_def)
  moreover have "managers_ok ?r (alive - {w}) n {}"
    using o(2) w(2) unfolding managers_ok_def manager_ok_def running_def by fastforce
  moreover have "cpus_fine tp (rt_cpus ?r) n" using fine_claim [OF o(3)] by (simp add: m)
  ultimately show ?thesis by (simp add: owned_ok_def)
qed

lemma transfer_to_idle_ok:
  assumes ok: "owned_ok tp n rt alive" and w: "w \<in> alive" "running rt w c" and r: "pidmanager_transfer_to_idle tp c (pm, rt) = Some (pm1, rt1)"
  shows "owned_ok tp n rt1 ((alive - {w}) \<union> new_workers (salloc_addrs rt) rt1)" "dom (managers rt1) = dom (managers rt)" "pm1 = pm"
proof -
  let ?p = "int (BIT_FFS MAX_PIDS (pm_pids pm)) - 1"
  have o: "workers_ok rt alive" "managers_ok rt alive n {}" "cpus_fine tp (rt_cpus rt) n" "cpu_places rt alive = mset_set {..<n}" "finite alive"
    using ok by (auto simp: owned_ok_def workers_ok_def)
  note c = running_cpu [OF o(4,5) w]
  show "pm1 = pm" using r by (auto simp: pidmanager_transfer_to_idle_def Let_def split: if_splits)
  have "owned_ok tp n rt1 ((alive - {w}) \<union> new_workers (salloc_addrs rt) rt1) \<and> dom (managers rt1) = dom (managers rt)"
  proof (cases "0 \<le> ?p")
    case True
    then have tr: "cpu_transfer tp (nat ?p) c EMPTY_TASK_EXECUTION_HANDLE rt = Some rt1"
      using r by (auto simp: pidmanager_transfer_to_idle_def Let_def)
    have "gave tp n c {} alive rt rt1"
      using queue_has_room [OF o(2) c(3)] by (intro gave_transfer [OF tr o(1-3) c(1,2)]) (auto dest: less_imp_neq)
    from end_after_gave [OF this w o(1,4)] show ?thesis by (auto simp: owned_ok_def Let_def)
  next
    case False
    then have "rt1 = rt \<lparr> rt_cpus := cpu_mark_free tp (rt_cpus rt) c \<rparr>" using r by (auto simp: pidmanager_transfer_to_idle_def Let_def)
    then show ?thesis using free_cpu_ok [OF ok w] by (simp add: new_workers_def)
  qed
  then show "owned_ok tp n rt1 ((alive - {w}) \<union> new_workers (salloc_addrs rt) rt1)" "dom (managers rt1) = dom (managers rt)" by auto
qed

text \<open>Changes of the fields of a thread manager that the invariant does not mention.\<close>

lemma set_manager_ok:
  assumes ok: "owned_ok tp n rt alive" and m: "managers rt p = Some m" and f: "idle_threads (f m) = idle_threads m" "creation_slots (f m) = creation_slots m"
    "leader_shutdown_cpu (f m) = leader_shutdown_cpu m" "thread_creation_queue (f m) = thread_creation_queue m"
  shows "owned_ok tp n (set_manager p f rt) alive" "dom (managers (set_manager p f rt)) = dom (managers rt)"
proof -
  have "p < MAX_PIDS" using ok m by (auto simp: owned_ok_def managers_ok_def manager_ok_def)
  then have "cpu_places (set_manager p f rt) alive = cpu_places rt alive" using m f by (intro places_set_manager_same) auto
  moreover have "managers_ok (set_manager p f rt) alive n {}"
    by (rule managers_ok_grow [of rt alive n "{}"]) (use ok m f in \<open>auto simp: owned_ok_def set_manager_def split: if_splits\<close>)
  ultimately show "owned_ok tp n (set_manager p f rt) alive" using ok by (simp add: owned_ok_def workers_ok_def set_manager_def)
  show "dom (managers (set_manager p f rt)) = dom (managers rt)" using m by (auto simp: set_manager_def)
qed

lemma shutdown_round_ok:
  assumes ok: "owned_ok tp n rt alive" and w: "w \<in> alive" "running rt w c" and cur: "current_worker rt = w"
    and r: "shutdown_rounds tp leader [(tryjoin, others)] (pm, rt) = Some (pm1, rt1)"
  shows "owned_ok tp n rt1 ((alive - {w}) \<union> new_workers (salloc_addrs rt) rt1) \<and> dom (managers rt1) = dom (managers rt) \<and> pm1 = pm"
proof -
  let ?p = "logic_pid rt"
  have o: "workers_ok rt alive" "managers_ok rt alive n {}" "cpus_fine tp (rt_cpus rt) n" "cpu_places rt alive = mset_set {..<n}" "finite alive"
    using ok by (auto simp: owned_ok_def workers_ok_def)
  note c = running_cpu [OF o(4,5) w]
  have wc: "w_cpu (workers rt w) = Some c" using w(2) by (simp add: running_def)
  obtain m where m: "managers rt ?p = Some m" using r by (cases "managers rt (logic_pid rt)") (simp_all add: get_idle_worker_def Let_def)
  have mok: "manager_ok rt alive n {} ?p m" using o(2) m by (simp add: managers_ok_def)
  show ?thesis
  proof (cases "idle_threads m")
    case (Cons v vs)
    let ?r1 = "set_manager ?p (\<lambda>m. m \<lparr> idle_threads := vs \<rparr>) rt"
    have "v \<noteq> NULL" using mok Cons o(1) by (auto simp: manager_ok_def workers_ok_def)
    then have wake: "worker_wake_internal tp v c ?r1 = Some rt1" "pm1 = pm"
      using r m Cons wc cur by (auto simp: get_idle_worker_def set_manager_def Let_def bind_eq_Some_conv)
    have "set_worker v (\<lambda>k. k \<lparr> w_handle := w_handle (workers rt v) \<rparr>) ?r1 = ?r1" by (simp add: set_worker_def set_manager_def fun_upd_idem)
    then have "gave tp n c {} alive rt rt1"
      using wake by (intro gave_pop [OF m Cons _ o(1-3) c(1,2), of "w_handle (workers rt v)"]) simp_all
    from end_after_gave [OF this w o(1,4)] show ?thesis using wake by (auto simp: owned_ok_def Let_def)
  next
    case Nil
    then have gi: "get_idle_worker ?p rt = Some (NULL, rt)" using m by (simp add: get_idle_worker_def)
    show ?thesis
    proof (cases leader)
      case False
      then have "pidmanager_transfer_to_idle tp c (pm, rt) = Some (pm1, rt1)" using r m wc cur gi by (simp add: Let_def)
      then show ?thesis using transfer_to_idle_ok [OF ok w] by blast
    next
      case True
      let ?m1 = "m \<lparr> delegate_joined := delegate_joined m \<or> tryjoin = Joined \<rparr>"
      let ?r2 = "set_manager ?p (\<lambda>_. ?m1 \<lparr> tm_signaled := True \<rparr>) (set_manager ?p (\<lambda>_. ?m1) rt)"
      have tr: "pidmanager_transfer_to_idle tp c (pm, ?r2) = Some (pm1, rt1)"
        using r m wc cur gi True by (auto simp: Let_def bind_eq_Some_conv split: if_splits)
      have r2: "?r2 = set_manager ?p (\<lambda>_. ?m1 \<lparr> tm_signaled := True \<rparr>) rt" using m by (auto simp: set_manager_def)
      have ok2: "owned_ok tp n ?r2 alive" "dom (managers ?r2) = dom (managers rt)"
        unfolding r2 by (rule set_manager_ok [OF ok m]; simp)+
      have "running ?r2 w c" "salloc_addrs ?r2 = salloc_addrs rt" using w(2) by (simp_all add: running_def set_manager_def)
      then show ?thesis using transfer_to_idle_ok [OF ok2(1) w(1) _ tr] ok2(2) by simp
    qed
  qed
qed

text \<open>Registration: the first bit that is not allocated, and a worker for every free CPU.\<close>

lemma pids_words: "64 * bitset_words MAX_PIDS = MAX_PIDS"
  by (simp add: MAX_PIDS_def bitset_words_def BITSET_BITS_def)

lemma first_free_pid:
  "BIT_FFS MAX_PIDS (BIT_XOR MAX_PIDS (BIT_FILL MAX_PIDS (replicate (bitset_words MAX_PIDS) 0)) al) =
     (case find (\<lambda>p. \<not> BIT_ISSET p al) [0..<MAX_PIDS] of None \<Rightarrow> 0 | Some p \<Rightarrow> Suc p)"
proof -
  have "bit_at (BIT_XOR MAX_PIDS (BIT_FILL MAX_PIDS (replicate (bitset_words MAX_PIDS) 0)) al) p = (\<not> BIT_ISSET p al)" if "p < MAX_PIDS" for p
  proof -
    have "length (BIT_FILL MAX_PIDS (replicate (bitset_words MAX_PIDS) 0)) = bitset_words MAX_PIDS" by (simp add: BIT_FILL_def)
    then show ?thesis using that pids_words by (simp add: BIT_ops_bit BIT_ISSET_bit)
  qed
  then have "find (bit_at (BIT_XOR MAX_PIDS (BIT_FILL MAX_PIDS (replicate (bitset_words MAX_PIDS) 0)) al)) [0..<MAX_PIDS] =
      find (\<lambda>p. \<not> BIT_ISSET p al) [0..<MAX_PIDS]"
    by (intro find_cong) simp_all
  then show ?thesis by (simp add: BIT_FFS_def BIT_FFS_AT_find pids_words)
qed

lemma pop_free_result:
  assumes "cpus_fine tp m n" "0 \<le> p"
  shows "(cpu_pop_free tp m p = Some (m, None) \<and> free_cpus m = {}) \<or>
    (\<exists>c m'. cpu_pop_free tp m p = Some (m', Some c) \<and> c \<in> free_cpus m \<and> cpus_fine tp m' n \<and> free_cpus m' = free_cpus m - {c} \<and>
      m' = m \<lparr> pids_cpus := (pids_cpus m)[c := p] \<rparr>)"
proof (cases "find (\<lambda>j. pids_cpus m ! j = - 1) [0..<n]")
  case None
  then have "free_cpus m = {}" using assms(1) by (auto simp: free_cpus_def find_None_iff cpus_fine_def)
  then show ?thesis using None assms(1) by (simp add: cpu_pop_free_def pop_free_loop cpus_fine_def)
next
  case (Some c)
  then have "c \<in> free_cpus m" using assms(1) by (auto simp: free_cpus_def find_Some_iff cpus_fine_def)
  then show ?thesis using Some assms free_cpus_claim [OF assms(2)] fine_claim [OF assms(1)]
    by (auto simp: cpu_pop_free_def pop_free_loop cpus_fine_def)
qed

lemma create_addrs:
  assumes "worker_create_local p c h rt = Some rt'"
  shows "\<exists>a. salloc_addrs rt = a # salloc_addrs rt'"
  using assms by (auto simp: worker_create_local_def salloc_addr_def set_manager_def set_worker_def Let_def bind_eq_Some_conv split: list.splits)

lemma occupy_ok:
  assumes "owned_ok tp n rt alive" "occupy_cpus k tp rt = Some rt1"
  shows "owned_ok tp n rt1 (alive \<union> new_workers (salloc_addrs rt) rt1) \<and> dom (managers rt1) = dom (managers rt) \<and>
    set (salloc_addrs rt1) \<subseteq> set (salloc_addrs rt)"
  using assms
proof (induction k arbitrary: rt alive)
  case (Suc k)
  have o: "workers_ok rt alive" "managers_ok rt alive n {}" "cpus_fine tp (rt_cpus rt) n" "cpu_places rt alive = mset_set {..<n}" "finite alive"
    using Suc.prems(1) by (auto simp: owned_ok_def workers_ok_def)
  from pop_free_result [OF o(3) of_nat_0_le_iff [of "logic_pid rt"]] show ?case
  proof (elim disjE exE conjE)
    assume "cpu_pop_free tp (rt_cpus rt) (int (logic_pid rt)) = Some (rt_cpus rt, None)"
    then show ?thesis using Suc.prems by (simp add: new_workers_def)
  next
    fix c m' assume pop: "cpu_pop_free tp (rt_cpus rt) (int (logic_pid rt)) = Some (m', Some c)" "c \<in> free_cpus (rt_cpus rt)"
      "cpus_fine tp m' n" "free_cpus m' = free_cpus (rt_cpus rt) - {c}"
    let ?r0 = "rt \<lparr> rt_cpus := m' \<rparr>"
    obtain rt2 where r2: "worker_create_local (logic_pid rt) c EMPTY_TASK_EXECUTION_HANDLE ?r0 = Some rt2" "occupy_cpus k tp rt2 = Some rt1"
      using Suc.prems(2) pop(1) by (auto simp: bind_eq_Some_conv)
    have pl: "add_mset c (cpu_places ?r0 alive) = cpu_places rt alive"
      using mset_set.remove [OF finite_free_cpus pop(2)] pop(4) by (simp add: cpu_places_def)
    have "workers_ok ?r0 alive" "managers_ok ?r0 alive n {}" using o ok_cong [of ?r0 rt] by simp_all
    then have "gave tp n c {} alive ?r0 rt2" using pop(3) by (intro gave_create [OF r2(1)]) simp_all
    then have ok2: "owned_ok tp n rt2 (alive \<union> new_workers (salloc_addrs rt) rt2)" "dom (managers rt2) = dom (managers rt)"
      using pl o(4) by (auto simp: gave_def Let_def owned_ok_def)
    obtain a where "salloc_addrs rt = a # salloc_addrs rt2" using create_addrs [OF r2(1)] by auto
    moreover note Suc.IH [OF ok2(1) r2(2)]
    ultimately show ?thesis using ok2(2) by (auto simp: new_workers_def Un_assoc intro: back_subst [of "owned_ok tp n rt1"])
  qed
qed simp

definition fresh_manager :: "nat \<Rightarrow> thread_manager" where
  "fresh_manager n = \<lparr> idle_threads = [], shutdown_threads = [], created = 0, thread_creation_queue = [], creation_slots = n * 2,
     delegate_joined = False, tm_signaled = False, leader_shutdown_cpu = - 1 \<rparr>"

definition registered :: "nat \<Rightarrow> pid \<Rightarrow> addr list \<Rightarrow> runtime \<Rightarrow> runtime" where
  "registered n p as rt = rt \<lparr> logic_pid := p, salloc_addrs := as, shutdown_signal := False, managers := (managers rt)(p \<mapsto> fresh_manager n),
     per_pid_structures := (per_pid_structures rt)(p := True) \<rparr>"

lemma register_unfold:
  assumes "cpus_fine tp (rt_cpus rt) n"
  shows "pidmanager_register tp (pm, rt) =
    (case find (\<lambda>p. \<not> BIT_ISSET p (pm_pids_alloc pm)) [0..<MAX_PIDS] of
       None \<Rightarrow> None
     | Some p \<Rightarrow> (case salloc_addrs rt of
         [] \<Rightarrow> None
       | a # as \<Rightarrow> if a = NULL then None
           else map_option (Pair \<lparr> pm_pids = BIT_SET p (pm_pids pm), pm_pids_alloc = BIT_SET p (pm_pids_alloc pm) \<rparr>)
             (occupy_cpus (n + 1) tp (registered n p as rt))))"
  using assms
  by (auto simp: pidmanager_register_def first_free_pid Let_def threadmanager_init_def cpus_fine_def salloc_addr_def fresh_manager_def registered_def
      map_option_case simp del: occupy_cpus.simps split: option.splits list.splits)

lemma registered_ok:
  assumes "owned_ok tp n rt alive" "managers rt p = None" "p < MAX_PIDS" "salloc_addrs rt = a # as"
  shows "owned_ok tp n (registered n p as rt) alive"
proof -
  let ?r = "registered n p as rt"
  have q: "queued_cpus (managers ?r k) = queued_cpus (managers rt k)" for k
    using assms(2) by (simp add: registered_def queued_cpus_def fresh_manager_def)
  have "cpu_places ?r alive = cpu_places rt alive" using q by (simp add: cpu_places_def) (simp add: registered_def)
  moreover have "workers_ok ?r alive" using assms(1,4) by (simp add: owned_ok_def workers_ok_def registered_def)
  moreover have "managers_ok ?r alive n {}" unfolding managers_ok_def
  proof (intro allI impI)
    fix k m assume m: "managers ?r k = Some m"
    show "manager_ok ?r alive n {} k m"
    proof (cases "k = p")
      case True
      then show ?thesis using m assms(3) by (auto simp: registered_def manager_ok_def fresh_manager_def)
    next
      case False
      then have "manager_ok rt alive n {} k m" using m assms(1) by (simp add: registered_def owned_ok_def managers_ok_def)
      then show ?thesis by (simp add: manager_ok_def registered_def)
    qed
  qed
  ultimately show ?thesis using assms(1) by (simp add: owned_ok_def registered_def)
qed

lemma pid_bit_set:
  assumes "length al = bitset_words MAX_PIDS" "p < MAX_PIDS"
  shows "BIT_ISSET q (BIT_SET p al) = (q = p \<or> BIT_ISSET q al)" "length (BIT_SET p al) = bitset_words MAX_PIDS"
  using assms bitset_words_bounds(1) [of p MAX_PIDS] by (simp_all add: BIT_ISSET_bit BIT_SET_bit) (simp add: BIT_SET_def)

lemma register_ok:
  assumes inv: "owned_ok tp n rt alive" "pids_ok pm rt" and r: "pidmanager_register tp (pm, rt) = Some (pm1, rt1)"
  shows "owned_ok tp n rt1 (alive \<union> new_workers (tl (salloc_addrs rt)) rt1)" "pids_ok pm1 rt1"
proof -
  have "cpus_fine tp (rt_cpus rt) n" using inv by (simp add: owned_ok_def)
  from r obtain p a as where p: "find (\<lambda>p. \<not> BIT_ISSET p (pm_pids_alloc pm)) [0..<MAX_PIDS] = Some p" and as: "salloc_addrs rt = a # as"
    and pm1: "pm1 = \<lparr> pm_pids = BIT_SET p (pm_pids pm), pm_pids_alloc = BIT_SET p (pm_pids_alloc pm) \<rparr>"
    and occ: "occupy_cpus (n + 1) tp (registered n p as rt) = Some rt1"
    unfolding register_unfold [OF \<open>cpus_fine tp (rt_cpus rt) n\<close>] by (auto split: option.splits list.splits if_splits)
  have free: "p < MAX_PIDS" "\<not> BIT_ISSET p (pm_pids_alloc pm)" using p by (auto simp: find_Some_iff)
  then have none: "managers rt p = None" using inv(2) by (auto simp: pids_ok_def)
  note ok = registered_ok [OF inv(1) none free(1) as]
  show "owned_ok tp n rt1 (alive \<union> new_workers (tl (salloc_addrs rt)) rt1)" using occupy_ok [OF ok occ] as by (simp add: registered_def)
  have "dom (managers rt1) = insert p (dom (managers rt))" using occupy_ok [OF ok occ] by (simp add: registered_def)
  then show "pids_ok pm1 rt1" using inv(2) pm1 free(1)
    by (auto simp: pids_ok_def pid_bit_set domIff set_eq_iff)
qed

lemma start_shutdown_ok:
  assumes ok: "owned_ok tp n rt alive" and w: "w \<in> alive" "running rt w c"
    and m: "managers rt (w_pid (workers rt w)) = Some m" "leader_shutdown_cpu m = - 1"
    and r: "killer_task_run_callback tp (pm, as_worker tp w rt) = Some (pm1, rt1)"
  shows "owned_ok tp n rt1 alive" "dom (managers rt1) = dom (managers rt)" "pm_pids_alloc pm1 = pm_pids_alloc pm" "length (pm_pids pm1) = length (pm_pids pm)"
proof -
  have o: "workers_ok rt alive" "managers_ok rt alive n {}" "cpus_fine tp (rt_cpus rt) n" "cpu_places rt alive = mset_set {..<n}" "finite alive"
    using ok by (auto simp: owned_ok_def workers_ok_def)
  note c = running_cpu [OF o(4,5) w]
  let ?p = "w_pid (workers rt w)" and ?m = "m \<lparr> leader_shutdown_cpu := int c, thread_creation_queue := thread_creation_queue m @ [Shutdown] \<rparr>"
  have room: "length (thread_creation_queue m) \<noteq> creation_slots m" using queue_has_room [OF o(2) c(3) m(1)] by simp
  have lid: "cpu_lid tp (rt_cpus rt) c = int c" using o(3) c(1) by (simp add: cpus_fine_def)
  have r1: "pm1 = pm \<lparr> pm_pids := BIT_CLR ?p (pm_pids pm) \<rparr>" "workers rt1 = workers rt" "managers rt1 = (managers rt)(?p \<mapsto> ?m)"
      "salloc_addrs rt1 = salloc_addrs rt" "rt_cpus rt1 = rt_cpus rt"
    using r w(2) m lid room
    by (auto simp: killer_task_run_callback_def pidmanager_unregister_def Let_def bind_eq_Some_conv set_manager_def event_queue_put_def running_def)
  have mok: "manager_ok rt alive n {} ?p m" using o(2) m(1) by (simp add: managers_ok_def)
  have "queued_cpus (managers rt1 k) = queued_cpus (managers rt k)" for k using m(1) by (simp add: r1 queued_cpus_def)
  then have "cpu_places rt1 alive = cpu_places rt alive" by (simp add: cpu_places_def r1(2,5))
  moreover have "managers_ok rt1 alive n {}" unfolding managers_ok_def
  proof (intro allI impI)
    fix k m' assume m': "managers rt1 k = Some m'"
    show "manager_ok rt1 alive n {} k m'"
    proof (cases "k = ?p")
      case True
      then show ?thesis using m' mok m(2) by (auto simp: r1 manager_ok_def)
    next
      case False
      then have "manager_ok rt alive n {} k m'" using m' o(2) by (simp add: r1 managers_ok_def)
      then show ?thesis by (simp add: manager_ok_def r1)
    qed
  qed
  ultimately show "owned_ok tp n rt1 alive" using ok by (simp add: owned_ok_def workers_ok_def r1)
  show "dom (managers rt1) = dom (managers rt)" using m(1) by (auto simp: r1)
  show "pm_pids_alloc pm1 = pm_pids_alloc pm" "length (pm_pids pm1) = length (pm_pids pm)" by (simp_all add: r1 BIT_CLR_def)
qed

lemma release_ok:
  assumes ok: "owned_ok tp n rt alive" "pids_ok pm rt" and m: "managers rt p = Some m" "thread_creation_queue m = []"
  shows "owned_ok tp n (rt \<lparr> managers := (managers rt)(p := None) \<rparr>) alive"
    "pids_ok (pm \<lparr> pm_pids_alloc := BIT_CLR p (pm_pids_alloc pm) \<rparr>) (rt \<lparr> managers := (managers rt)(p := None) \<rparr>)"
proof -
  let ?r = "rt \<lparr> managers := (managers rt)(p := None) \<rparr>"
  have "queued_cpus (managers ?r k) = queued_cpus (managers rt k)" for k using m by (simp add: queued_cpus_def)
  then have "cpu_places ?r alive = cpu_places rt alive" by (simp add: cpu_places_def)
  moreover have "managers_ok ?r alive n {}"
    by (rule managers_ok_grow [of rt alive n "{}"]) (use ok in \<open>auto simp: owned_ok_def split: if_splits\<close>)
  ultimately show "owned_ok tp n ?r alive" using ok by (simp add: owned_ok_def workers_ok_def)
  have "p < MAX_PIDS" using ok(1) m by (auto simp: owned_ok_def managers_ok_def manager_ok_def)
  then show "pids_ok (pm \<lparr> pm_pids_alloc := BIT_CLR p (pm_pids_alloc pm) \<rparr>) ?r"
    using ok(2) bitset_words_bounds(1) [of p MAX_PIDS] by (auto simp: pids_ok_def BIT_ISSET_bit BIT_CLR_bit) (simp add: BIT_CLR_def)
qed

subsection \<open>Every step keeps the invariant\<close>

lemma ownership_inv_iff: "ownership_inv tp n (pm, rt, alive) \<longleftrightarrow> owned_ok tp n rt alive \<and> pids_ok pm rt"
  by (auto simp: ownership_inv_def owned_ok_def)

lemma pids_ok_dom: "pids_ok pm rt \<Longrightarrow> dom (managers rt') = dom (managers rt) \<Longrightarrow> pids_ok pm rt'"
  unfolding pids_ok_def by (metis domIff)

lemma owned_as_worker: "owned_ok tp n (as_worker tp w rt) alive = owned_ok tp n rt alive" "running (as_worker tp w rt) = running rt"
  using ok_cong [of "as_worker tp w rt" rt] places_cong [of "as_worker tp w rt" rt alive] by (simp_all add: owned_ok_def running_def fun_eq_iff)

lemma cpu_step_keeps:
  assumes "cpu_step tp s s'" "ownership_inv tp n s"
  shows "ownership_inv tp n s'"
  using assms
proof (induction rule: cpu_step.induct)
  case (delegate_task w alive rt c h busy rt1 pm)
  then have ok: "owned_ok tp n rt alive" "pids_ok pm rt" by (auto simp: ownership_inv_iff)
  have "gave tp n c {w} alive (as_worker tp w rt) rt1"
    using delegate_task ok by (intro gave_hand_over) (auto simp: owned_ok_def)
  then show ?case using block_ok [OF ok(1) delegate_task(1,2)] pids_ok_dom [OF ok(2)] by (simp add: ownership_inv_iff)
next
  case (yield_cpu w alive rt c rt1 pm)
  then have ok: "owned_ok tp n rt alive" "pids_ok pm rt" by (auto simp: ownership_inv_iff)
  show ?case using block_ok [OF ok(1) yield_cpu(1,2) yield_ok [OF ok(1) yield_cpu(1-3)]] pids_ok_dom [OF ok(2)] by (simp add: ownership_inv_iff)
next
  case (resume w alive rt rt1 pm)
  then have ok: "owned_ok tp n rt alive" "pids_ok pm rt" by (auto simp: ownership_inv_iff)
  show ?case using resume_ok [OF ok(1) resume(1,2)] pids_ok_dom [OF ok(2)] by (simp add: ownership_inv_iff)
next
  case (delegate_creates p rt rt1 continue pm alive)
  then have ok: "owned_ok tp n rt alive" "pids_ok pm rt" by (auto simp: ownership_inv_iff)
  show ?case using delegate_ok [OF ok(1) delegate_creates(1)] pids_ok_dom [OF ok(2)] by (simp add: ownership_inv_iff)
next
  case (attach rt rt1 pm alive)
  then have ok: "owned_ok tp n rt alive" "pids_ok pm rt" by (auto simp: ownership_inv_iff)
  show ?case using attach_ok [OF ok(1) attach(1)] pids_ok_dom [OF ok(2)] by (simp add: ownership_inv_iff)
next
  case (detach w alive rt c rt1 rt2 pm)
  then have ok: "owned_ok tp n rt alive" "pids_ok pm rt" by (auto simp: ownership_inv_iff)
  show ?case using detach_ok [OF ok(1) detach(1-4)] pids_ok_dom [OF ok(2)] by (simp add: ownership_inv_iff)
next
  case (end_worker w alive rt c leader tryjoin pm pm1 rt1)
  then have ok: "owned_ok tp n rt alive" "pids_ok pm rt" by (auto simp: ownership_inv_iff)
  show ?case using shutdown_round_ok [of tp n "as_worker tp w rt" alive w c leader tryjoin id pm pm1 rt1] end_worker(1-3) ok owned_as_worker pids_ok_dom [OF ok(2)]
    by (simp add: ownership_inv_iff del: shutdown_rounds.simps)
next
  case (register pm rt pm1 rt1 alive)
  then show ?case using register_ok [of tp n rt alive pm pm1 rt1] by (simp add: ownership_inv_iff)
next
  case (start_shutdown w alive rt c m pm pm1 rt1)
  then have ok: "owned_ok tp n rt alive" "pids_ok pm rt" by (auto simp: ownership_inv_iff)
  note sd = start_shutdown_ok [OF ok(1) start_shutdown(1-5)]
  show ?case using sd(1) pids_ok_dom [OF ok(2) sd(2)] sd(3,4) by (simp add: ownership_inv_iff pids_ok_def)
next
  case (release rt p m pm alive)
  then show ?case using release_ok [of tp n rt alive pm p m] by (simp add: ownership_inv_iff)
qed

lemma cpu_steps_keep: "(cpu_step tp)\<^sup>*\<^sup>* s s' \<Longrightarrow> ownership_inv tp n s \<Longrightarrow> ownership_inv tp n s'"
  by (induction rule: rtranclp_induct) (auto intro: cpu_step_keeps)

text \<open>The state after the first process has set up the segment: every CPU is free and no process is registered.\<close>

definition booted :: "topology \<Rightarrow> nat \<Rightarrow> runtime \<Rightarrow> bool" where
  "booted tp n rt \<longleftrightarrow> cpus_fine tp (rt_cpus rt) n \<and> (\<forall>c<n. pids_cpus (rt_cpus rt) ! c = - 1) \<and> (\<forall>p. managers rt p = None) \<and> distinct (salloc_addrs rt)"

lemma booted_inv:
  assumes "pidmanager_init True None = Some pm" "booted tp n rt"
  shows "ownership_inv tp n (pm, rt, {})"
proof -
  have "free_cpus (rt_cpus rt) = {..<n}" using assms(2) by (auto simp: free_cpus_def booted_def cpus_fine_def)
  then have "cpu_places rt {} = mset_set {..<n}" using assms(2) by (simp add: cpu_places_def booted_def queued_cpus_def)
  then show ?thesis using assms
    by (auto simp: ownership_inv_def workers_ok_def managers_ok_def pids_ok_def booted_def pidmanager_init_def BIT_ZERO_def Let_def)
qed

text \<open>The workers that run hold different CPUs, none of them free or promised in a creation queue.\<close>

lemma two_holders:
  assumes "cpu_places rt alive = mset_set {..<n}" "finite alive" "w \<in> alive" "v \<in> alive" "w \<noteq> v" "c \<in># held (workers rt w)"
  shows "c \<notin># held (workers rt v)"
proof
  assume "c \<in># held (workers rt v)"
  then have "held (workers rt w) = {#c#}" "held (workers rt v) = {#c#}" using assms(6) by (auto simp: held_def split: option.splits)
  then have "cpu_places rt alive = {#c, c#} + cpu_places rt (alive - {w} - {v})"
    using places_drop_worker [OF assms(3,2), of rt] places_drop_worker [of v "alive - {w}" rt] assms(2-5) by simp
  then have "count (mset_set {..<n}) c \<ge> 2" using assms(1) by simp
  then show False by (simp add: count_mset_set' split: if_splits)
qed

lemma create_spec:
  assumes "managers rt p \<noteq> None" "salloc_addrs rt = a # as" "a \<noteq> NULL"
  shows "\<exists>rt2. worker_create_local p c h rt = Some rt2 \<and> salloc_addrs rt2 = as \<and> rt_cpus rt2 = rt_cpus rt \<and> logic_pid rt2 = logic_pid rt \<and>
    managers rt2 p \<noteq> None \<and> (\<forall>w. w \<noteq> a \<longrightarrow> workers rt2 w = workers rt w) \<and> running rt2 a c \<and> w_pid (workers rt2 a) = logic_pid rt"
  using assms by (simp add: worker_create_local_def salloc_addr_def set_manager_def set_worker_def running_def Let_def)
    (auto simp: bind_eq_Some_conv)

lemma occupy_cpus_spec:
  assumes "cpus_fine tp (rt_cpus rt) n" "managers rt (logic_pid rt) \<noteq> None" "distinct (salloc_addrs rt)" "NULL \<notin> set (salloc_addrs rt)"
    "card (free_cpus (rt_cpus rt)) < k" "card (free_cpus (rt_cpus rt)) \<le> length (salloc_addrs rt)"
  shows "\<exists>rt1. occupy_cpus k tp rt = Some rt1 \<and> logic_pid rt1 = logic_pid rt \<and> free_cpus (rt_cpus rt1) = {} \<and>
    set (salloc_addrs rt1) \<subseteq> set (salloc_addrs rt) \<and> (\<forall>w. w \<notin> set (salloc_addrs rt) \<longrightarrow> workers rt1 w = workers rt w) \<and>
    (\<forall>c\<in>free_cpus (rt_cpus rt). pids_cpus (rt_cpus rt1) ! c = int (logic_pid rt) \<and>
       (\<exists>w\<in>new_workers (salloc_addrs rt) rt1. running rt1 w c \<and> w_pid (workers rt1 w) = logic_pid rt)) \<and>
    (\<forall>c. c \<notin> free_cpus (rt_cpus rt) \<longrightarrow> pids_cpus (rt_cpus rt1) ! c = pids_cpus (rt_cpus rt) ! c)"
  using assms
proof (induction k arbitrary: rt)
  case (Suc k)
  from pop_free_result [OF Suc.prems(1) of_nat_0_le_iff [of "logic_pid rt"]] show ?case
  proof (elim disjE exE conjE)
    assume "cpu_pop_free tp (rt_cpus rt) (int (logic_pid rt)) = Some (rt_cpus rt, None)" "free_cpus (rt_cpus rt) = {}"
    then show ?thesis by simp
  next
    fix c m' assume pop: "cpu_pop_free tp (rt_cpus rt) (int (logic_pid rt)) = Some (m', Some c)" "c \<in> free_cpus (rt_cpus rt)"
      "cpus_fine tp m' n" "free_cpus m' = free_cpus (rt_cpus rt) - {c}" and m': "m' = (rt_cpus rt) \<lparr> pids_cpus := (pids_cpus (rt_cpus rt))[c := int (logic_pid rt)] \<rparr>"
    have card: "card (free_cpus (rt_cpus rt)) = Suc (card (free_cpus m'))" using card.remove [OF finite_free_cpus pop(2)] by (simp add: pop(4))
    then obtain a as where as: "salloc_addrs rt = a # as" using Suc.prems(6) by (cases "salloc_addrs rt") auto
    obtain rt2 where create: "worker_create_local (logic_pid rt) c EMPTY_TASK_EXECUTION_HANDLE (rt \<lparr> rt_cpus := m' \<rparr>) = Some rt2"
      and rt2: "salloc_addrs rt2 = as" "rt_cpus rt2 = m'" "logic_pid rt2 = logic_pid rt" "managers rt2 (logic_pid rt) \<noteq> None"
        "\<forall>w. w \<noteq> a \<longrightarrow> workers rt2 w = workers rt w" "running rt2 a c" "w_pid (workers rt2 a) = logic_pid rt"
      using create_spec [of "rt \<lparr> rt_cpus := m' \<rparr>" "logic_pid rt" a as c EMPTY_TASK_EXECUTION_HANDLE] as Suc.prems(2,4) by auto
    obtain rt1 where rt1: "occupy_cpus k tp rt2 = Some rt1" "logic_pid rt1 = logic_pid rt" "free_cpus (rt_cpus rt1) = {}"
      "set (salloc_addrs rt1) \<subseteq> set as" "\<forall>w. w \<notin> set as \<longrightarrow> workers rt1 w = workers rt2 w"
      "\<forall>c\<in>free_cpus m'. pids_cpus (rt_cpus rt1) ! c = int (logic_pid rt) \<and> (\<exists>w\<in>new_workers as rt1. running rt1 w c \<and> w_pid (workers rt1 w) = logic_pid rt)"
      "\<forall>c. c \<notin> free_cpus m' \<longrightarrow> pids_cpus (rt_cpus rt1) ! c = pids_cpus m' ! c"
      using Suc.IH [of rt2] rt2 pop(3) Suc.prems(3-6) as card by auto
    have a: "a \<in> new_workers (salloc_addrs rt) rt1" "workers rt1 a = workers rt2 a" using as rt1(4,5) Suc.prems(3) by (auto simp: new_workers_def)
    have c: "c < length (pids_cpus (rt_cpus rt))" "pids_cpus (rt_cpus rt1) ! c = int (logic_pid rt)"
      using pop(2,4) rt1(7) m' by (auto simp: free_cpus_def)
    have "pids_cpus (rt_cpus rt1) ! d = int (logic_pid rt) \<and> (\<exists>w\<in>new_workers (salloc_addrs rt) rt1. running rt1 w d \<and> w_pid (workers rt1 w) = logic_pid rt)"
      if d: "d \<in> free_cpus (rt_cpus rt)" for d
    proof (cases "d = c")
      case True
      then show ?thesis using c rt2(6,7) by (intro conjI bexI [OF _ a(1)]) (auto simp: running_def a(2))
    next
      case False
      then have "d \<in> free_cpus m'" using d pop(4) by simp
      then show ?thesis using rt1(6) as by (fastforce simp: new_workers_def)
    qed
    moreover have "pids_cpus (rt_cpus rt1) ! d = pids_cpus (rt_cpus rt) ! d" if "d \<notin> free_cpus (rt_cpus rt)" for d
    proof -
      have "d \<noteq> c" "d \<notin> free_cpus m'" using that pop(2,4) by auto
      then have "pids_cpus (rt_cpus rt1) ! d = pids_cpus m' ! d" using rt1(7) by blast
      then show ?thesis using \<open>d \<noteq> c\<close> unfolding m' by simp
    qed
    moreover have "occupy_cpus (Suc k) tp rt = Some rt1" using pop(1) create rt1(1) by simp
    ultimately show ?thesis using rt1(2-5) rt2(5) as by (auto simp del: occupy_cpus.simps)
  qed
qed simp

subsection \<open>Properties\<close>



text \<open>A process that registers, with memory for its structures, gets the least logic identifier that is not allocated and every free CPU: each of these
  is marked as its own and has one of its new workers running on it. The other CPUs keep their process, and the loop ends.\<close>

theorem register_takes_free_cpus:
  assumes inv: "ownership_inv tp n (pm, rt, alive)" and p: "p < MAX_PIDS" "\<not> BIT_ISSET p (pm_pids_alloc pm)" "\<forall>q<p. BIT_ISSET q (pm_pids_alloc pm)"
    and mem: "n < length (salloc_addrs rt)" "NULL \<notin> set (salloc_addrs rt)"
  shows "\<exists>pm1 rt1. pidmanager_register tp (pm, rt) = Some (pm1, rt1) \<and> logic_pid rt1 = p \<and>
    (\<forall>q. BIT_ISSET q (pm_pids_alloc pm1) = (q = p \<or> BIT_ISSET q (pm_pids_alloc pm))) \<and> free_cpus (rt_cpus rt1) = {} \<and>
    (\<forall>c\<in>free_cpus (rt_cpus rt). pids_cpus (rt_cpus rt1) ! c = int p \<and>
       (\<exists>w\<in>new_workers (salloc_addrs rt) rt1. running rt1 w c \<and> w_pid (workers rt1 w) = p)) \<and>
    (\<forall>c. c \<notin> free_cpus (rt_cpus rt) \<longrightarrow> pids_cpus (rt_cpus rt1) ! c = pids_cpus (rt_cpus rt) ! c)"
proof -
  obtain a as where as: "salloc_addrs rt = a # as" using mem(1) by (cases "salloc_addrs rt") auto
  have i: "cpus_fine tp (rt_cpus rt) n" "distinct (salloc_addrs rt)" "length (pm_pids_alloc pm) = bitset_words MAX_PIDS"
    using inv by (auto simp: ownership_inv_def workers_ok_def pids_ok_def)
  have least: "find (\<lambda>p. \<not> BIT_ISSET p (pm_pids_alloc pm)) [0..<MAX_PIDS] = Some p" using p by (auto simp: find_Some_iff)
  have "free_cpus (rt_cpus rt) \<subseteq> {..<n}" using i(1) by (auto simp: free_cpus_def cpus_fine_def)
  then have "card (free_cpus (rt_cpus rt)) \<le> n" using card_mono [of "{..<n}"] by fastforce
  then obtain rt1 where "occupy_cpus (n + 1) tp (registered n p as rt) = Some rt1" "logic_pid rt1 = p" "free_cpus (rt_cpus rt1) = {}"
    "\<forall>c\<in>free_cpus (rt_cpus rt). pids_cpus (rt_cpus rt1) ! c = int p \<and> (\<exists>w\<in>new_workers as rt1. running rt1 w c \<and> w_pid (workers rt1 w) = p)"
    "\<forall>c. c \<notin> free_cpus (rt_cpus rt) \<longrightarrow> pids_cpus (rt_cpus rt1) ! c = pids_cpus (rt_cpus rt) ! c"
    using occupy_cpus_spec [of tp "registered n p as rt" n "n + 1"] i as mem by (auto simp: registered_def simp del: occupy_cpus.simps)
  then show ?thesis using register_unfold [OF i(1), of pm] least as mem(2) pid_bit_set [OF i(3) p(1)]
    by (auto simp: new_workers_def simp del: occupy_cpus.simps)
qed

text \<open>Two free CPUs and three addresses; one process registers.\<close>

definition boot_runtime :: runtime where
  "boot_runtime = \<lparr> rt_world = ((id, 0), example_store [], example_scheduler), rt_cpus = \<lparr> pids_cpus = [- 1, - 1], cpu_domain = [0, 1] \<rparr>,
     workers = (\<lambda>_. \<lparr> w_cpu = None, w_new_cpu = None, w_handle = EMPTY_TASK_EXECUTION_HANDLE, immediate_successor = NULL, w_signaled = False,
       w_waiting = False, w_pid = 0, in_task_body = False \<rparr>),
     managers = (\<lambda>_. None), per_pid_structures = (\<lambda>_. False), current_worker = NULL, current_cpu = - 1, logic_pid = 0, shutdown_signal = False,
     salloc_addrs = [9, 10, 11] \<rparr>"

definition boot_pids :: pid_manager where
  "boot_pids = \<lparr> pm_pids = replicate 8 0, pm_pids_alloc = replicate 8 0 \<rparr>"

lemma boot_example: "pidmanager_init True None = Some boot_pids" "booted example_topology 2 boot_runtime"
proof -
  show "pidmanager_init True None = Some boot_pids"
    by (simp add: pidmanager_init_def boot_pids_def BIT_ZERO_def word_loop_def bitset_words_def BITSET_BITS_def MAX_PIDS_def Let_def map_replicate_const)
  show "booted example_topology 2 boot_runtime"
    by (simp add: booted_def boot_runtime_def cpus_fine_def cpu_lid_def example_topology_def topo_lvl_cnt_def example_domain_def
        less_2_cases_iff all_conj_distrib)
qed

lemma boot_registers:
  "\<exists>pm rt alive m. (cpu_step example_topology)\<^sup>*\<^sup>* (boot_pids, boot_runtime, {}) (pm, rt, alive) \<and> alive = {10, 11} \<and>
     running rt 10 0 \<and> running rt 11 1 \<and> managers rt 0 = Some m \<and> thread_creation_queue m = []"
proof -
  have "\<not> Option.is_none (pidmanager_register example_topology (boot_pids, boot_runtime))" by code_simp
  then obtain pm rt where r: "pidmanager_register example_topology (boot_pids, boot_runtime) = Some (pm, rt)"
    by (auto simp: Option.is_none_def)
  have f: "(\<lambda>(pm, rt). salloc_addrs rt) (the (pidmanager_register example_topology (boot_pids, boot_runtime))) = []"
    "(\<lambda>(pm, rt). running rt 10 0 \<and> running rt 11 1) (the (pidmanager_register example_topology (boot_pids, boot_runtime)))"
    "(\<lambda>(pm, rt). map_option thread_creation_queue (managers rt 0)) (the (pidmanager_register example_topology (boot_pids, boot_runtime))) = Some []"
    unfolding running_def by code_simp+
  have "cpu_step example_topology (boot_pids, boot_runtime, {}) (pm, rt, {} \<union> new_workers (tl (salloc_addrs boot_runtime)) rt)"
    by (rule cpu_step.register [OF r])
  moreover have "new_workers (tl (salloc_addrs boot_runtime)) rt = {10, 11}" using f(1) r by (simp add: new_workers_def boot_runtime_def)
  ultimately show ?thesis using f r by (auto intro: r_into_rtranclp)
qed



theorem register_takes_free_cpus_witness:
  "\<exists>pm1 rt1. pidmanager_register example_topology (boot_pids, boot_runtime) = Some (pm1, rt1) \<and> logic_pid rt1 = 0 \<and>
     BIT_ISSET 0 (pm_pids_alloc pm1) \<and> pids_cpus (rt_cpus rt1) ! 1 = 0"
proof -
  have i: "ownership_inv example_topology 2 (boot_pids, boot_runtime, {})" by (rule booted_inv [OF boot_example])
  have p: "\<not> BIT_ISSET 0 (pm_pids_alloc boot_pids)" by code_simp
  have f: "1 \<in> free_cpus (rt_cpus boot_runtime)" by (simp add: free_cpus_def boot_runtime_def)
  have "2 < length (salloc_addrs boot_runtime)" "NULL \<notin> set (salloc_addrs boot_runtime)" by (simp_all add: boot_runtime_def)
  from register_takes_free_cpus [OF i _ p _ this] f show ?thesis by (auto simp: MAX_PIDS_def)
qed

end
