(* ===== verification/Bootstrap.thy ===== *)
theory Bootstrap
  imports Nosv_Prelude "HOL-Library.Monad_Syntax"
begin

section \<open>Starting and stopping the library (bootstrap.c)\<close>

text \<open>
  Several threads of a process may initialise the library and shut it down. A counter of the process decides which call does the work, a counter of the
  calling thread is checked. The operations are written for one calling thread; \<open>library_call\<close> runs them for any thread.
\<close>

subsection \<open>Operations\<close>

text \<open>The reference counters of the process and of the calling thread decide which call does the work; \<open>start\<close> and \<open>stop\<close> are the initialisation and the
  shutdown of the components, \<open>attached\<close> says that the calling thread is in a task.\<close>

record bootstrap =
  rt_refcount :: int
  th_refcount :: int
  rt_initialized :: bool

definition nosv_init_impl :: "('s \<Rightarrow> 's option) \<Rightarrow> bool \<Rightarrow> bootstrap \<times> 's \<Rightarrow> ((bootstrap \<times> 's) \<times> int) option" where
  "nosv_init_impl start attached = (\<lambda>(b, s).
     if rt_refcount b < 0 then Some ((b, s), NOSV_ERR_UNKNOWN)
     else (let b1 = b \<lparr> rt_refcount := rt_refcount b + 1 \<rparr>
           in if rt_refcount b1 = 1
              then do { s' \<leftarrow> start s;
                        assert_then (th_refcount b1 = 0) (Some ((b1 \<lparr> th_refcount := th_refcount b1 + 1, rt_initialized := True \<rparr>, s'), 0)) }
              else (let b2 = b1 \<lparr> th_refcount := th_refcount b1 + 1 \<rparr>
                    in assert_then (th_refcount b2 = 1 \<and> \<not> attached \<longrightarrow> rt_initialized b2) (Some ((b2, s), 0)))))"

definition nosv_shutdown_impl :: "('s \<Rightarrow> 's option) \<Rightarrow> bootstrap \<times> 's \<Rightarrow> ((bootstrap \<times> 's) \<times> int) option" where
  "nosv_shutdown_impl stop = (\<lambda>(b, s).
     if rt_refcount b \<le> 0 then Some ((b, s), NOSV_ERR_UNKNOWN)
     else (let b1 = b \<lparr> rt_refcount := rt_refcount b - 1 \<rparr>
           in if rt_refcount b1 = 0
              then do { s' \<leftarrow> stop s;
                        assert_then (th_refcount b1 = 1) (Some ((b1 \<lparr> th_refcount := th_refcount b1 - 1, rt_initialized := False \<rparr>, s'), NOSV_SUCCESS)) }
              else Some ((b1 \<lparr> th_refcount := th_refcount b1 - 1 \<rparr>, s), NOSV_SUCCESS)))"

definition nosv_init :: "('s \<Rightarrow> 's option) \<Rightarrow> bool \<Rightarrow> bootstrap \<times> 's \<Rightarrow> ((bootstrap \<times> 's) \<times> int) option" where
  "nosv_init start attached = nosv_init_impl start attached"

definition nosv_shutdown :: "('s \<Rightarrow> 's option) \<Rightarrow> bootstrap \<times> 's \<Rightarrow> ((bootstrap \<times> 's) \<times> int) option" where
  "nosv_shutdown stop = nosv_shutdown_impl stop"

definition child_fork_hook :: "bootstrap \<Rightarrow> bootstrap" where
  "child_fork_hook b = (if rt_initialized b then b \<lparr> rt_initialized := False, rt_refcount := 0, th_refcount := 0 \<rparr> else b)"

subsection \<open>Calls of several threads\<close>

datatype lib_call = CallInit | CallShutdown

text \<open>The state: the counter of every thread, the counter and the flag of the process, and the log of the work done (\<^term>\<open>True\<close> for a start).\<close>

type_synonym library = "(nat \<Rightarrow> int) \<times> int \<times> bool \<times> bool list"

definition library_call :: "nat \<times> lib_call \<times> bool \<Rightarrow> library \<Rightarrow> library option" where
  "library_call = (\<lambda>(i, call, attached) (th, rt, started, done).
     (let b = \<lparr> rt_refcount = rt, th_refcount = th i, rt_initialized = started \<rparr>;
          res = (case call of CallInit \<Rightarrow> nosv_init (\<lambda>l. Some (l @ [True])) attached (b, done)
                 | CallShutdown \<Rightarrow> nosv_shutdown (\<lambda>l. Some (l @ [False])) (b, done))
      in map_option (\<lambda>((b', done'), _). (th(i := th_refcount b'), rt_refcount b', rt_initialized b', done')) res))"

fun library_calls :: "(nat \<times> lib_call \<times> bool) list \<Rightarrow> library \<Rightarrow> library option" where
  "library_calls [] s = Some s"
| "library_calls (c # cs) s = do { s1 \<leftarrow> library_call c s; library_calls cs s1 }"

definition balance :: "(nat \<times> lib_call \<times> bool) list \<Rightarrow> nat \<Rightarrow> int" where
  "balance cs i = (\<Sum>(j, call, _)\<leftarrow>cs. if j \<noteq> i then 0 else case call of CallInit \<Rightarrow> 1 | CallShutdown \<Rightarrow> - 1)"

lemma balance_snoc: "balance (cs @ [(j, call, a)]) =
    (balance cs)(j := balance cs j + (case call of CallInit \<Rightarrow> 1 | CallShutdown \<Rightarrow> - 1))"
  by (auto simp: balance_def fun_eq_iff)

lemma balance_outside: "i \<notin> fst ` set cs \<Longrightarrow> balance cs i = 0"
  by (induction cs) (auto simp: balance_def)

lemma library_calls_append: "library_calls (cs @ ds) s = library_calls cs s \<bind> library_calls ds"
proof (induction cs arbitrary: s)
  case (Cons c cs)
  then show ?case by (cases "library_call c s") simp_all
qed simp

text \<open>The counter of the process is the sum of the counters of its threads; starts and stops alternate.\<close>

definition turns :: "bool list \<Rightarrow> bool" where
  "turns l \<longleftrightarrow> l = map even [0..<length l]"

lemma turns_snoc [simp]: "turns [] " "turns l \<Longrightarrow> turns (l @ [b]) = (b = even (length l))"
  unfolding turns_def by simp_all

definition life :: "nat set \<Rightarrow> library \<Rightarrow> bool" where
  "life T = (\<lambda>(th, rt, started, done). rt = sum th T \<and> (\<forall>i. 0 \<le> th i) \<and> (\<forall>i. i \<notin> T \<longrightarrow> th i = 0) \<and>
     started = (0 < rt) \<and> turns done \<and> started = odd (length done))"

lemma life_step:
  assumes "life T (th, rt, started, done)" "finite T" "i \<in> T" "call = CallShutdown \<Longrightarrow> 0 < th i"
  shows "\<exists>rt' started' done'. library_call (i, call, attached) (th, rt, started, done) =
      Some (th(i := th i + (case call of CallInit \<Rightarrow> 1 | CallShutdown \<Rightarrow> - 1)), rt', started', done') \<and>
    life T (th(i := th i + (case call of CallInit \<Rightarrow> 1 | CallShutdown \<Rightarrow> - 1)), rt', started', done')"
proof -
  have l: "rt = sum th T" "\<forall>i. 0 \<le> th i" "\<forall>i. i \<notin> T \<longrightarrow> th i = 0" "started = (0 < rt)" "turns done" "started = odd (length done)"
    using assms(1) by (auto simp: life_def)
  have s: "sum th T = th i + sum th (T - {i})" "sum (th(i := x)) T = x + sum th (T - {i})" for x
    using assms(2,3) by (simp_all add: sum.remove [of T i])
  have nn: "0 \<le> sum th (T - {i})" "0 \<le> rt" using l(1,2) by (simp_all add: sum_nonneg)
  have thi: "0 \<le> th i" using l(2) by simp
  show ?thesis
  proof (cases call)
    case CallInit
    have "th i = 0" if "rt = 0" using that l(1) s(1) nn(1) thi by linarith
    then have "library_call (i, call, attached) (th, rt, started, done) =
        Some (th(i := th i + 1), rt + 1, True, if rt = 0 then done @ [True] else done)"
      using CallInit nn(2) l(4) by (simp add: library_call_def nosv_init_def nosv_init_impl_def Let_def)
    moreover have "life T (th(i := th i + 1), rt + 1, True, if rt = 0 then done @ [True] else done)"
      using l s nn thi assms(3) by (cases "rt = 0") (simp_all add: life_def)
    ultimately show ?thesis unfolding CallInit lib_call.case by blast
  next
    case CallShutdown
    then have "0 < th i" using assms(4) by simp
    then have one: "0 < rt" "rt = 1 \<Longrightarrow> th i = 1" using l(1) s(1) nn(1) by linarith+
    then have "library_call (i, call, attached) (th, rt, started, done) =
        Some (th(i := th i - 1), rt - 1, rt \<noteq> 1, if rt = 1 then done @ [False] else done)"
      using CallShutdown l(4) by (simp add: library_call_def nosv_shutdown_def nosv_shutdown_impl_def Let_def)
    moreover have "life T (th(i := th i - 1), rt - 1, rt \<noteq> 1, if rt = 1 then done @ [False] else done)"
      using l s one \<open>0 < th i\<close> assms(3) by (cases "rt = 1") (simp_all add: life_def)
    ultimately show ?thesis unfolding CallShutdown lib_call.case by (auto simp del: fun_upd_apply)
  qed
qed

subsection \<open>Properties\<close>

text \<open>When no thread shuts the library down more often than it has initialised it, every call succeeds with its assertions, the library
  is initialised exactly while some thread has calls left to undo, and the components are started and stopped in turn, a start first.\<close>

theorem library_starts_and_stops_in_turn:
  assumes "\<And>k i. 0 \<le> balance (take k cs) i"
  shows "\<exists>rt started done. library_calls cs (\<lambda>_. 0, 0, False, []) = Some (balance cs, rt, started, done) \<and>
    started = (\<exists>i. 0 < balance cs i) \<and> turns done \<and> started = odd (length done)"
proof -
  have "\<exists>rt started done. library_calls cs (\<lambda>_. 0, 0, False, []) = Some (balance cs, rt, started, done) \<and> life T (balance cs, rt, started, done)"
    if "\<And>k i. 0 \<le> balance (take k cs) i" "fst ` set cs \<subseteq> T" "finite T" for T using that
  proof (induction cs rule: rev_induct)
    case (snoc c cs)
    obtain i call att where c: "c = (i, call, att)" by (cases c)
    have pre: "0 \<le> balance (take k cs) j" for k j
      using snoc.prems(1) [of "min k (length cs)" j] by (simp add: min_def split: if_splits)
    obtain rt started don where run: "library_calls cs (\<lambda>_. 0, 0, False, []) = Some (balance cs, rt, started, don)"
      and life: "life T (balance cs, rt, started, don)"
      using snoc.IH pre snoc.prems(2,3) by auto
    have "0 \<le> balance (cs @ [c]) i" using snoc.prems(1) [of "Suc (length cs)" i] by simp
    then have "call = CallShutdown \<Longrightarrow> 0 < balance cs i" by (simp add: c balance_snoc)
    moreover have "i \<in> T" using snoc.prems(2) by (simp add: c)
    ultimately obtain rt' started' don' where step: "library_call c (balance cs, rt, started, don) = Some (balance (cs @ [c]), rt', started', don')"
      and life': "life T (balance (cs @ [c]), rt', started', don')"
      unfolding c balance_snoc using life_step [OF life snoc.prems(3), of i call att] by blast
    have "library_calls (cs @ [c]) (\<lambda>_. 0, 0, False, []) = Some (balance (cs @ [c]), rt', started', don')"
      using run step by (simp add: library_calls_append)
    then show ?case using life' by blast
  qed (simp add: balance_def [abs_def] life_def)
  from this [OF assms, of "fst ` set cs"] obtain rt started don where
    r: "library_calls cs (\<lambda>_. 0, 0, False, []) = Some (balance cs, rt, started, don)" "life (fst ` set cs) (balance cs, rt, started, don)" by auto
  have "(0 < sum (balance cs) (fst ` set cs)) = (\<exists>i. 0 < balance cs i)"
  proof
    show "\<exists>i. 0 < balance cs i" if "0 < sum (balance cs) (fst ` set cs)"
    proof (rule ccontr)
      assume "\<not> ?thesis"
      then have "sum (balance cs) (fst ` set cs) \<le> 0" by (intro sum_nonpos) (auto simp: not_less)
      then show False using that by simp
    qed
    show "0 < sum (balance cs) (fst ` set cs)" if "\<exists>i. 0 < balance cs i"
    proof -
      from that obtain i where i: "0 < balance cs i" by blast
      then have "i \<in> fst ` set cs" using balance_outside by fastforce
      then show ?thesis using i r(2) by (intro sum_pos2) (auto simp: life_def)
    qed
  qed
  then show ?thesis using r by (auto simp: life_def)
qed

theorem library_starts_and_stops_in_turn_witness:
  "\<exists>rt started done. library_calls [(0, CallInit, False), (1, CallInit, False), (0, CallShutdown, False), (1, CallShutdown, False)] (\<lambda>_. 0, 0, False, []) =
      Some (balance [(0, CallInit, False), (1, CallInit, False), (0, CallShutdown, False), (1, CallShutdown, False)], rt, started, done) \<and>
    turns done \<and> \<not> started"
proof -
  let ?cs = "[(0, CallInit, False), (1, CallInit, False), (0, CallShutdown, False), (1, CallShutdown, False)]"
  have "0 \<le> balance (take k ?cs) i" for k i
  proof -
    consider "k = 0" | "k = 1" | "k = 2" | "k = 3" | "k \<ge> 4" by linarith
    then show ?thesis by cases (auto simp: balance_def take_Cons' numeral_eq_Suc)
  qed
  moreover have "balance ?cs i = 0" for i by (simp add: balance_def)
  ultimately show ?thesis using library_starts_and_stops_in_turn [of ?cs] by (auto simp del: library_calls.simps)
qed

end
