(* ===== verification/Binary_Heap.thy ===== *)
theory Binary_Heap
  imports Slab_Correct "HOL-Library.Monad_Syntax"
begin

section \<open>The binary heap (generic/heap.h)\<close>

text \<open>
  A heap of intrusive nodes with pointers to the parent and the children. The model has the tree of the nodes; a node with its \<open>parent\<close> pointers is
  a position in the tree, given by the list of the frames above it (\<open>(r, p, s)\<close>: the node \<open>p\<close>, whose right child, if \<open>r\<close>, is the position below, and
  whose other subtree is \<open>s\<close>). A null pointer that is followed and a failed assertion are the value \<^term>\<open>None\<close>.

  The nodes are numbered as in an array, the root with 1 and the children of \<open>k\<close> with \<open>2 k\<close> and \<open>2 k + 1\<close>; \<open>heap_get\<close> finds a
  node from the bits of its number. The lemmas show that the numbers in use are always the numbers up to the size of the heap, that no child is greater than its parent,
  and which nodes are in the heap.
\<close>

subsection \<open>Data\<close>

datatype 'a heap_node = Null | Node (left: "'a heap_node") (elem: 'a) (right: "'a heap_node")

type_synonym 'a frame = "bool \<times> 'a \<times> 'a heap_node"

record 'a heap_head =
  hp_root :: "'a heap_node"
  hp_size :: u64

type_synonym 'a heap_node_compare = "'a \<Rightarrow> 'a \<Rightarrow> int"

subsection \<open>Operations\<close>

definition heap_init :: "'a heap_head" where
  "heap_init = \<lparr> hp_root = Null, hp_size = 0 \<rparr>"

fun heap_max_heapify :: "'a heap_node_compare \<Rightarrow> 'a heap_node \<Rightarrow> 'a heap_node" where
  "heap_max_heapify cmp Null = Null"
| "heap_max_heapify cmp (Node Null a Null) = Node Null a Null"
| "heap_max_heapify cmp (Node (Node ll x lr) a Null) =
     (if cmp x a > 0 then Node (heap_max_heapify cmp (Node ll a lr)) x Null else Node (Node ll x lr) a Null)"
| "heap_max_heapify cmp (Node Null a (Node rl y rr)) =
     (if cmp y a > 0 then Node Null y (heap_max_heapify cmp (Node rl a rr)) else Node Null a (Node rl y rr))"
| "heap_max_heapify cmp (Node (Node ll x lr) a (Node rl y rr)) =
     (let largest = (if cmp x a > 0 then x else a)
      in if cmp y largest > 0 then Node (Node ll x lr) y (heap_max_heapify cmp (Node rl a rr))
         else if cmp x a > 0 then Node (heap_max_heapify cmp (Node ll a lr)) x (Node rl y rr)
         else Node (Node ll x lr) a (Node rl y rr))"

definition heap_max :: "'a heap_head \<Rightarrow> 'a option" where
  "heap_max head = (case hp_root head of Null \<Rightarrow> None | Node _ a _ \<Rightarrow> Some a)"

definition heap_get_move :: "u64 \<Rightarrow> (u64 \<times> bool) option" where
  "heap_get_move node =
     do { z \<leftarrow> count_leading_zeros node;
          let base = push_bit (64 - z - 1) 1;
          let aux_node = node - base div 2;
          Some (if aux_node < base then (aux_node, False) else (aux_node - base div 2, True)) }"

lemma unat_plus_one: "x \<noteq> - 1 \<Longrightarrow> unat (x + 1 :: u64) = Suc (unat x)"
proof -
  assume "x \<noteq> - 1"
  then have nz: "x + 1 \<noteq> 0" by (simp add: eq_neg_iff_add_eq_0)
  then have "0 < unat (x + 1)" by (simp add: unat_gt_0)
  then show ?thesis using unat_minus_one [OF nz] by simp
qed

lemma even_unat: "even (unat (x :: u64)) = even x"
  using bit_unsigned_iff [of x 0] by (simp add: bit_0)

lemma leading_zeros_bounds:
  assumes "count_leading_zeros x = Some z"
  shows "z < 64" "2 ^ (64 - z - 1) \<le> unat x" "unat x < 2 ^ (64 - z)"
proof -
  have "next_power_of_two (x + 1) = Some (64 - z)" using assms by (simp add: next_power_of_two_def)
  note b = next_power_of_two_bounds [OF this]
  show "z < 64" using b(3) by simp
  show "2 ^ (64 - z - 1) \<le> unat x" using b(2) by simp
  show "unat x < 2 ^ (64 - z)"
  proof (cases "x + 1 = 0")
    case True
    then have "x = - 1" by (simp add: eq_neg_iff_add_eq_0)
    moreover have "count_leading_zeros (- 1) = Some 0" by code_simp
    ultimately have "z = 0" using assms by simp
    then show ?thesis using unsigned_less [of x] by simp
  next
    case False
    then have "unat (x + 1) = Suc (unat x)" by (intro unat_plus_one) auto
    then show ?thesis using b(1) False by simp
  qed
qed

lemma heap_get_move_bits:
  assumes "heap_get_move node = Some (m, r)" "node \<noteq> 1"
  shows "\<exists>k. 2 ^ Suc k \<le> unat node \<and> unat node < 2 ^ Suc (Suc k) \<and>
    (if r then 3 * 2 ^ k \<le> unat node \<and> unat m + 2 ^ Suc k = unat node else unat node < 3 * 2 ^ k \<and> unat m + 2 ^ k = unat node)"
proof -
  obtain z where z: "count_leading_zeros node = Some z"
    and mv: "(m, r) = (let base = push_bit (64 - z - 1) 1; aux = node - base div 2 in if aux < base then (aux, False) else (aux - base div 2, True))"
    using assms(1) by (auto simp: heap_get_move_def bind_eq_Some_conv Let_def)
  note b = leading_zeros_bounds [OF z]
  define s where "s = 64 - z - 1"
  have s: "2 ^ s \<le> unat node" "unat node < 2 ^ Suc s" "s < 64" 
  proof -
    have "64 - z = Suc s" using b(1) by (simp add: s_def)
    then show "2 ^ s \<le> unat node" "unat node < 2 ^ Suc s" "s < 64" using b by (simp_all del: power_Suc)
  qed
  have "s \<noteq> 0"
  proof
    assume "s = 0"
    then have "unat node = 1" using s by simp
    then show False using assms(2) by (metis unat_1 unsigned_word_eqI)
  qed
  then obtain k where k: "s = Suc k" by (cases s) auto
  let ?base = "2 ^ s :: u64"
  have base: "unat ?base = 2 * 2 ^ k" 
  proof -
    have "take_bit 64 (2 ^ s) = (2 ^ s :: nat)" using s(3) by simp
    then have "unat (push_bit s 1 :: u64) = 2 ^ s" unfolding unsigned_push_bit_eq by (simp add: push_bit_eq_mult)
    then show ?thesis using k by simp
  qed
  have half: "unat (?base div 2) = 2 ^ k" by (simp add: unat_div base)
  have sk: "2 * 2 ^ k \<le> unat node" using s(1) k by simp
  then have aux: "unat (node - ?base div 2) = unat node - 2 ^ k" by (subst unat_sub) (simp_all add: word_le_nat_alt half)
  show ?thesis
  proof (intro exI [of _ k] conjI)
    show "2 ^ Suc k \<le> unat node" "unat node < 2 ^ Suc (Suc k)" using s k by simp_all
    show "if r then 3 * 2 ^ k \<le> unat node \<and> unat m + 2 ^ Suc k = unat node else unat node < 3 * 2 ^ k \<and> unat m + 2 ^ k = unat node"
    proof (cases "node - ?base div 2 < ?base")
      case True
      then have "unat node - 2 ^ k < 2 * 2 ^ k" using aux base by (simp add: word_less_nat_alt)
      then have "unat node < 3 * 2 ^ k" by simp
      moreover have "m = node - ?base div 2" "\<not> r" using mv True by (simp_all add: s_def Let_def)
      ultimately show ?thesis using aux sk by simp
    next
      case False
      then have "2 * 2 ^ k \<le> unat node - 2 ^ k" using aux base by (simp add: word_less_nat_alt)
      then have ge: "3 * 2 ^ k \<le> unat node" by simp
      have "unat (node - ?base div 2 - ?base div 2) = unat node - 2 ^ k - 2 ^ k"
        using ge by (subst unat_sub) (simp_all add: word_le_nat_alt half aux)
      moreover have "m = node - ?base div 2 - ?base div 2" "r" using mv False by (simp_all add: s_def Let_def)
      ultimately show ?thesis using ge by simp
    qed
  qed
qed

function heap_walk :: "u64 \<Rightarrow> 'a heap_node \<Rightarrow> 'a frame list \<Rightarrow> ('a heap_node \<times> 'a frame list) option" where
  "heap_walk node cur up =
     (if node = 1 then Some (cur, up)
      else case heap_get_move node of
        None \<Rightarrow> None
      | Some (node', r) \<Rightarrow>
          (case cur of
             Null \<Rightarrow> None
           | Node l a rt \<Rightarrow> if r then heap_walk node' rt ((True, a, l) # up) else heap_walk node' l ((False, a, rt) # up)))"
  by pat_completeness auto
termination
  by (relation "measure (\<lambda>(node, cur, up). unat node)") (auto dest!: heap_get_move_bits split: if_splits)

declare heap_walk.simps [simp del]

definition heap_get :: "'a heap_head \<Rightarrow> u64 \<Rightarrow> ('a heap_node \<times> 'a frame list) option" where
  "heap_get head node = heap_walk node (hp_root head) []"

fun plug :: "'a heap_node \<Rightarrow> 'a frame list \<Rightarrow> 'a heap_node" where
  "plug t [] = t"
| "plug t ((r, p, s) # up) = plug (if r then Node s p t else Node t p s) up"

definition heap_pop_max :: "'a heap_node_compare \<Rightarrow> 'a heap_head \<Rightarrow> ('a heap_head \<times> 'a option) option" where
  "heap_pop_max cmp head =
     (case hp_root head of
        Null \<Rightarrow> Some (head, None)
      | Node ml mx mr \<Rightarrow>
          do { (change, up) \<leftarrow> heap_get head (hp_size head);
               let n = hp_size head - 1;
               let done = (\<lambda>t. Some (\<lparr> hp_root = heap_max_heapify cmp t, hp_size = n \<rparr>, Some mx));
               case change of
                 Null \<Rightarrow> None
               | Node cl c cr \<Rightarrow>
                   (case up of
                      [] \<Rightarrow> Some (\<lparr> hp_root = Null, hp_size = n \<rparr>, Some mx)
                    | [_] \<Rightarrow> done (if odd (hp_size head) then Node ml c cr else Node cl c mr)
                    | (r, p, s) # up' \<Rightarrow>
                        (let parent = (if odd (hp_size head) then Node (if r then s else change) p Null
                                       else Node Null p (if r then change else s));
                             rest = plug parent up'
                         in assert_then (cl = Null \<and> cr = Null) (done (Node (left rest) c (right rest))))) })"

fun heap_bubble :: "'a heap_node_compare \<Rightarrow> 'a heap_node \<Rightarrow> 'a \<Rightarrow> 'a heap_node \<Rightarrow> 'a frame list \<Rightarrow> 'a heap_node" where
  "heap_bubble cmp l a r [] = Node l a r"
| "heap_bubble cmp l a r ((d, p, s) # up) =
     (if cmp a p > 0
      then (if d then heap_bubble cmp s a (Node l p r) up else heap_bubble cmp (Node l p r) a s up)
      else plug (Node l a r) ((d, p, s) # up))"

definition heap_insert :: "'a heap_node_compare \<Rightarrow> 'a \<Rightarrow> 'a heap_head \<Rightarrow> 'a heap_head option" where
  "heap_insert cmp node head =
     (let n = hp_size head + 1
      in if hp_root head = Null then Some \<lparr> hp_root = Node Null node Null, hp_size = n \<rparr>
         else do { (parent, up) \<leftarrow> heap_get head (n div 2);
                   case parent of
                     Null \<Rightarrow> None
                   | Node pl p pr \<Rightarrow>
                       if odd n then assert_then (pr = Null) (Some \<lparr> hp_root = heap_bubble cmp Null node Null ((True, p, pl) # up), hp_size = n \<rparr>)
                       else assert_then (pl = Null) (Some \<lparr> hp_root = heap_bubble cmp Null node Null ((False, p, pr) # up), hp_size = n \<rparr>) })"

subsection \<open>Numbers and positions\<close>

fun path :: "nat \<Rightarrow> bool list" where
  "path k = (if k \<le> 1 then [] else path (k div 2) @ [odd k])"

declare path.simps [simp del]

lemma path_1 [simp]: "path (Suc 0) = []" "path 1 = []"
  by (simp_all add: path.simps)

lemma path_snoc: "1 < k \<Longrightarrow> path k = path (k div 2) @ [odd k]"
  by (subst path.simps) simp

lemma path_child: "1 \<le> k \<Longrightarrow> path (2 * k + (if b then 1 else 0)) = path k @ [b]"
  by (subst path_snoc) auto

lemma path_inj: "1 \<le> j \<Longrightarrow> 1 \<le> k \<Longrightarrow> path j = path k \<Longrightarrow> j = k"
proof (induction j arbitrary: k rule: less_induct)
  case (less j)
  show ?case
  proof (cases "j = 1 \<or> k = 1")
    case True
    have "path i \<noteq> []" if "1 < i" for i using path_snoc [OF that] by simp
    then show ?thesis using True less.prems by (metis path_1(2) le_neq_implies_less)
  next
    case False
    then have e: "path (j div 2) = path (k div 2)" "odd j = odd k" using less.prems path_snoc [of j] path_snoc [of k] by auto
    then have "j div 2 = k div 2" using False less.prems by (intro less.IH) auto
    then show ?thesis using e(2) by (metis odd_two_times_div_two_succ even_two_times_div_two)
  qed
qed

lemma path_parent: "1 \<le> k \<Longrightarrow> path k = p @ [b] \<Longrightarrow> 1 < k \<and> path (k div 2) = p \<and> b = odd k"
  using path_snoc [of k] by (cases "k = 1") auto

text \<open>The bits below the highest one, from the second highest on.\<close>

lemma path_first:
  "2 ^ Suc k \<le> n \<Longrightarrow> n < 2 ^ Suc (Suc k) \<Longrightarrow>
    path n = (if 3 * 2 ^ k \<le> n then True # path (n - 2 ^ Suc k) else False # path (n - 2 ^ k))"
proof (induction k arbitrary: n)
  case 0
  then have "n = 2 \<or> n = 3" by auto
  then show ?case using path_snoc [of 2] path_snoc [of 3] by auto
next
  case (Suc k)
  have one: "1 \<le> (2 :: nat) ^ k" by simp
  have n: "2 ^ Suc k \<le> n div 2" "n div 2 < 2 ^ Suc (Suc k)" using Suc.prems by simp_all
  have n1: "1 < n" using Suc.prems(1) one unfolding power_Suc by linarith
  have low: "path (n - 2 * d) = path (n div 2 - d) @ [odd n]" if "2 * d + 1 < n" for d
  proof -
    have "(n - 2 * d) div 2 = n div 2 - d" "odd (n - 2 * d) = odd n" using that by presburger+
    then show ?thesis using path_snoc [of "n - 2 * d"] that by simp
  qed
  have "path n = path (n div 2) @ [odd n]" by (rule path_snoc [OF n1])
  moreover note Suc.IH [OF n(1,2)]
  moreover have "3 * 2 ^ k \<le> n div 2 \<longleftrightarrow> 3 * 2 ^ Suc k \<le> n" unfolding power_Suc by linarith
  moreover have "path (n - 2 ^ Suc (Suc k)) = path (n div 2 - 2 ^ Suc k) @ [odd n]" if "3 * 2 ^ Suc k \<le> n"
  proof -
    have "2 * 2 ^ Suc k + 1 < n" using that one unfolding power_Suc by linarith
    from low [OF this] show ?thesis by simp
  qed
  moreover have "path (n - 2 ^ Suc k) = path (n div 2 - 2 ^ k) @ [odd n]"
  proof -
    have "2 * 2 ^ k + 1 < n" using Suc.prems(1) one unfolding power_Suc by linarith
    from low [OF this] show ?thesis by simp
  qed
  ultimately show ?case by simp
qed

lemma path_move:
  assumes "heap_get_move node = Some (m, r)" "node \<noteq> 1"
  shows "path (unat node) = r # path (unat m)"
proof -
  obtain k where k: "2 ^ Suc k \<le> unat node" "unat node < 2 ^ Suc (Suc k)"
    "if r then 3 * 2 ^ k \<le> unat node \<and> unat m + 2 ^ Suc k = unat node else unat node < 3 * 2 ^ k \<and> unat m + 2 ^ k = unat node"
    using heap_get_move_bits [OF assms] by blast
  have "unat m = unat node - (if r then 2 ^ Suc k else 2 ^ k)" using k(3) by (auto split: if_splits)
  then show ?thesis using path_first [OF k(1,2)] k(3) by (auto split: if_splits)
qed

text \<open>The reference for \<open>heap_get\<close>: follow the path from the root.\<close>

fun descend :: "'a heap_node \<Rightarrow> bool list \<Rightarrow> 'a frame list \<Rightarrow> ('a heap_node \<times> 'a frame list) option" where
  "descend t [] up = Some (t, up)"
| "descend Null (b # bs) up = None"
| "descend (Node l a r) (b # bs) up = descend (if b then r else l) bs ((b, a, if b then l else r) # up)"

lemma heap_walk_descend: "node \<noteq> 0 \<Longrightarrow> heap_walk node t up = descend t (path (unat node)) up"
proof (induction node t up rule: heap_walk.induct)
  case (1 node cur up)
  show ?case
  proof (cases "node = 1")
    case True
    then show ?thesis by (simp add: heap_walk.simps)
  next
    case False
    have "heap_get_move node \<noteq> None" using 1(3) by (simp add: heap_get_move_def count_leading_zeros_def Let_def)
    then obtain m r where mv: "heap_get_move node = Some (m, r)" by auto
    have "m \<noteq> 0" using heap_get_move_bits [OF mv False] by (auto split: if_splits)
    then show ?thesis using 1(1,2) [OF False mv refl] path_move [OF mv False] False mv
      by (cases cur) (auto simp: heap_walk.simps [of node])
  qed
qed

subsection \<open>Shape, contents and order\<close>

fun sub_at :: "'a heap_node \<Rightarrow> bool list \<Rightarrow> 'a heap_node" where
  "sub_at t [] = t"
| "sub_at Null (b # bs) = Null"
| "sub_at (Node l a r) (b # bs) = sub_at (if b then r else l) bs"

lemma sub_at_Null [simp]: "sub_at Null p = Null"
  by (cases p) auto

fun put :: "'a heap_node \<Rightarrow> bool list \<Rightarrow> 'a heap_node \<Rightarrow> 'a heap_node" where
  "put t [] u = u"
| "put Null (b # bs) u = Null"
| "put (Node l a r) (b # bs) u = (if b then Node l a (put r bs u) else Node (put l bs u) a r)"

abbreviation occ :: "'a heap_node \<Rightarrow> bool list \<Rightarrow> bool" where
  "occ t p \<equiv> sub_at t p \<noteq> Null"

fun elems :: "'a heap_node \<Rightarrow> 'a multiset" where
  "elems Null = {#}"
| "elems (Node l a r) = add_mset a (elems l + elems r)"

fun frame_elems :: "'a frame list \<Rightarrow> 'a multiset" where
  "frame_elems [] = {#}"
| "frame_elems ((r, p, s) # up) = add_mset p (elems s + frame_elems up)"

lemma set_elems: "set_mset (elems t) = set_heap_node t"
  by (induction t) auto

lemma elems_plug [simp]: "elems (plug t up) = elems t + frame_elems up"
  by (induction t up rule: plug.induct) auto

lemma elems_bubble [simp]: "elems (heap_bubble cmp l a r up) = add_mset a (elems l + elems r + frame_elems up)"
  by (induction cmp l a r up rule: heap_bubble.induct) (auto simp: ac_simps)

lemma elems_heapify [simp]: "elems (heap_max_heapify cmp t) = elems t"
  by (induction cmp t rule: heap_max_heapify.induct) (auto simp: Let_def ac_simps)

lemma set_heapify [simp]: "set_heap_node (heap_max_heapify cmp t) = set_heap_node t"
  by (simp flip: set_elems)

text \<open>The exchanges move elements but keep the shape.\<close>

abbreviation shape :: "'a heap_node \<Rightarrow> unit heap_node" where
  "shape \<equiv> map_heap_node (\<lambda>_. ())"

lemma occ_of_shape: "occ (shape t) p = occ t p"
  by (induction t p rule: sub_at.induct) auto

lemma occ_shape: "shape t = shape u \<Longrightarrow> occ t p = occ u p"
  using occ_of_shape [of t p] occ_of_shape [of u p] by simp

lemma shape_heapify [simp]: "shape (heap_max_heapify cmp t) = shape t"
  by (induction cmp t rule: heap_max_heapify.induct) (auto simp: Let_def)

lemma shape_plug_cong: "shape t = shape u \<Longrightarrow> shape (plug t up) = shape (plug u up)"
proof (induction up arbitrary: t u)
  case (Cons f up)
  obtain d p s where "f = (d, p, s)" by (cases f)
  then show ?case using Cons.prems Cons.IH [of "Node s p t" "Node s p u"] Cons.IH [of "Node t p s" "Node u p s"] by simp
qed simp

lemma shape_bubble: "shape (heap_bubble cmp l a r up) = shape (plug (Node l a r) up)"
  by (induction cmp l a r up rule: heap_bubble.induct) (auto intro: shape_plug_cong)

text \<open>What \<open>descend\<close> finds.\<close>

lemma descend_put: "descend t p up = Some (u, up') \<Longrightarrow> plug v up' = plug (put t p v) up"
  by (induction t p up rule: descend.induct) (auto split: if_splits)

lemma descend_sub: "descend t p up = Some (u, up') \<Longrightarrow> sub_at t p = u \<and> map fst up' = rev p @ map fst up"
  by (induction t p up rule: descend.induct) (auto split: if_splits)

lemma descend_self: "descend t p [] = Some (u, up) \<Longrightarrow> plug u up = t"
proof -
  have "descend t p up0 = Some (u, up) \<Longrightarrow> plug u up = plug t up0" for up0
    by (induction t p up0 rule: descend.induct) (auto split: if_splits)
  then show "descend t p [] = Some (u, up) \<Longrightarrow> plug u up = t" by fastforce
qed

lemma descend_occ: "occ t p \<Longrightarrow> \<exists>up'. descend t p up = Some (sub_at t p, up')"
  by (induction t p up rule: descend.induct) auto

lemma sub_at_append: "sub_at t (p @ q) = sub_at (sub_at t p) q"
proof (induction t p rule: sub_at.induct)
  case (2 b bs)
  show ?case by (cases q) auto
qed auto

lemma occ_prefix: "occ t (p @ q) \<Longrightarrow> occ t p"
  by (cases q) (auto simp: sub_at_append)

lemma sub_at_put:
  "occ t p \<Longrightarrow> occ (put t p u) q = (if take (length p) q = p then occ u (drop (length p) q) else occ t q)"
proof (induction t p u arbitrary: q rule: put.induct)
  case (3 l a r b bs u)
  then show ?case by (cases q; cases b; cases "hd q") simp_all
qed simp_all

definition full :: "'a heap_node \<Rightarrow> nat \<Rightarrow> bool" where
  "full t n \<longleftrightarrow> (\<forall>p. occ t p \<longleftrightarrow> (\<exists>k. 1 \<le> k \<and> k \<le> n \<and> path k = p))"

lemma full_shape: "shape t = shape u \<Longrightarrow> full t n = full u n"
  unfolding full_def using occ_shape [of t u] by simp

lemma full_occ: "full t n \<Longrightarrow> 1 \<le> k \<Longrightarrow> occ t (path k) = (k \<le> n)"
  unfolding full_def using path_inj by metis

lemma full_Null: "full t n \<Longrightarrow> (t = Null) = (n = 0)"
  using full_occ [of t n 1] by auto

fun below :: "('a \<Rightarrow> 'k::linorder) \<Rightarrow> 'k \<Rightarrow> 'a heap_node \<Rightarrow> bool" where
  "below key b Null = True"
| "below key b (Node l a r) = (key a \<le> b \<and> below key b l \<and> below key b r)"

lemma below_iff: "below key b t \<longleftrightarrow> (\<forall>x\<in>set_heap_node t. key x \<le> b)"
  by (induction t) auto

lemma below_mono: "below key b t \<Longrightarrow> b \<le> c \<Longrightarrow> below key c t"
  by (auto simp: below_iff intro: order_trans)

lemma below_heapify [simp]: "below key b (heap_max_heapify cmp t) = below key b t"
  by (simp add: below_iff)

fun hordered :: "('a \<Rightarrow> 'k::linorder) \<Rightarrow> 'a heap_node \<Rightarrow> bool" where
  "hordered key Null = True"
| "hordered key (Node l a r) = (below key (key a) l \<and> below key (key a) r \<and> hordered key l \<and> hordered key r)"

fun hole_ok :: "('a \<Rightarrow> 'k::linorder) \<Rightarrow> 'a set \<Rightarrow> 'a frame list \<Rightarrow> bool" where
  "hole_ok key S [] = True"
| "hole_ok key S ((d, p, s) # up) =
     ((\<forall>x\<in>S. key x \<le> key p) \<and> below key (key p) s \<and> hordered key s \<and> hole_ok key (insert p (S \<union> set_heap_node s)) up)"

text \<open>The documented contract of \<open>heap_node_compare_t\<close>.\<close>

definition compares :: "'a heap_node_compare \<Rightarrow> ('a \<Rightarrow> 'k::linorder) \<Rightarrow> bool" where
  "compares cmp key \<longleftrightarrow> (\<forall>a b. (cmp a b > 0) = (key b < key a))"

lemma hole_ok_mono: "hole_ok key S up \<Longrightarrow> \<forall>x\<in>S'. \<exists>y\<in>S. key x \<le> key y \<Longrightarrow> hole_ok key S' up"
proof (induction key S up arbitrary: S' rule: hole_ok.induct)
  case (2 key S d p s up)
  have "\<forall>x\<in>insert p (S' \<union> set_heap_node s). \<exists>y\<in>insert p (S \<union> set_heap_node s). key x \<le> key y" using 2(3) by auto
  then have "hole_ok key (insert p (S' \<union> set_heap_node s)) up" using 2(1,2) by simp
  moreover have "\<forall>x\<in>S'. key x \<le> key p" using 2(2,3) by (fastforce intro: order_trans)
  ultimately show ?case using 2(2) by auto
qed simp

lemma plug_ordered: "hordered key t \<Longrightarrow> hole_ok key (set_heap_node t) up \<Longrightarrow> hordered key (plug t up)"
proof (induction t up rule: plug.induct)
  case (2 t d p s up)
  then show ?case by (cases d) (auto simp: insert_commute Un_commute below_iff)
qed simp

lemma bubble_ordered:
  "compares cmp key \<Longrightarrow> hordered key (Node l a r) \<Longrightarrow> hole_ok key (set_heap_node l \<union> set_heap_node r) up \<Longrightarrow> hordered key (heap_bubble cmp l a r up)"
proof (induction cmp l a r up rule: heap_bubble.induct)
  case (2 cmp l a r d p s up)
  then have h: "below key (key p) l \<and> below key (key p) r \<and> below key (key p) s" "hordered key l" "hordered key r" "hordered key s"
    "hole_ok key (insert p (set_heap_node l \<union> set_heap_node r \<union> set_heap_node s)) up"
    by (auto simp: below_iff)
  show ?case
  proof (cases "cmp a p > 0")
    case True
    then have "key p < key a" using 2(3) by (simp add: compares_def)
    then have le: "below key (key a) l \<and> below key (key a) r \<and> below key (key a) s" using h(1) by (auto intro: below_mono)
    have "hole_ok key (insert p (set_heap_node l \<union> set_heap_node r) \<union> set_heap_node s) up"
      "hole_ok key (set_heap_node s \<union> insert p (set_heap_node l \<union> set_heap_node r)) up"
      using h(5) by (simp_all add: Un_commute Un_left_commute)
    then show ?thesis using 2(1) [OF True _ 2(3)] 2(2) [OF True _ 2(3)] True h(1-4) le \<open>key p < key a\<close>
      by (cases d) (auto simp: Un_commute Un_left_commute)
  next
    case False
    then have "key a \<le> key p" using 2(3) by (simp add: compares_def)
    moreover have "hole_ok key (insert a (insert p (set_heap_node l \<union> set_heap_node r \<union> set_heap_node s))) up"
      using calculation by (intro hole_ok_mono [OF h(5)]) auto
    ultimately have "hole_ok key (set_heap_node (Node l a r)) ((d, p, s) # up)" using h(1,4) by (auto simp: insert_commute below_iff)
    then have "hordered key (plug (Node l a r) ((d, p, s) # up))" by (rule plug_ordered [OF 2(4)])
    then show ?thesis using False by simp
  qed
qed simp

lemma heapify_ordered:
  "compares cmp key \<Longrightarrow> hordered key (left t) \<Longrightarrow> hordered key (right t) \<Longrightarrow> hordered key (heap_max_heapify cmp t)"
proof (induction cmp t rule: heap_max_heapify.induct)
  case (3 cmp ll x lr a)
  then show ?case by (auto simp: compares_def not_less intro: below_mono)
next
  case (4 cmp a rl y rr)
  then show ?case by (auto simp: compares_def not_less intro: below_mono)
next
  case (5 cmp ll x lr a rl y rr)
  have c: "(0 < cmp u v) = (key v < key u)" for u v using 5(3) by (simp add: compares_def)
  from 5 show ?case by (auto simp: Let_def c not_less intro: below_mono order_trans less_imp_le)
qed simp_all

lemma descend_hole:
  "descend t p up = Some (u, up') \<Longrightarrow> hordered key t \<Longrightarrow> hole_ok key (set_heap_node t) up \<Longrightarrow> hordered key u \<and> hole_ok key (set_heap_node u) up'"
proof (induction t p up rule: descend.induct)
  case (3 l a r b bs up)
  have "set_heap_node (Node l a r) = insert a (set_heap_node (if b then r else l) \<union> set_heap_node (if b then l else r))" by auto
  then show ?case using 3 by (auto simp: below_iff split: if_splits)
qed auto

subsection \<open>The invariant and the operations\<close>

definition heap_ok :: "('a \<Rightarrow> 'k::linorder) \<Rightarrow> 'a heap_head \<Rightarrow> bool" where
  "heap_ok key h \<longleftrightarrow> full (hp_root h) (unat (hp_size h)) \<and> hordered key (hp_root h) \<and> size (elems (hp_root h)) = unat (hp_size h)"

lemma heap_init_ok: "heap_ok key heap_init"
  by (auto simp: heap_ok_def heap_init_def full_def)

lemma full_add_leaf:
  assumes "full t n" "1 \<le> k" "descend t (path k) [] = Some (Node pl p pr, up)" "Suc n = 2 * k + (if d then 1 else 0)" "(if d then pr else pl) = Null"
  shows "full (plug (Node Null a Null) ((d, p, if d then pl else pr) # up)) (Suc n)"
proof -
  let ?u = "if d then Node pl p (Node Null a Null) else Node (Node Null a Null) p pr"
  have sub: "sub_at t (path k) = Node pl p pr" using descend_sub [OF assms(3)] by simp
  have eq: "plug (Node Null a Null) ((d, p, if d then pl else pr) # up) = put t (path k) ?u"
    using descend_put [OF assms(3), of ?u] by (cases d) simp_all
  have leaf: "occ (Node Null a Null) q = (q = [])" for q
    by (cases q; cases "tl q") auto
  have child: "path (Suc n) = path k @ [d]" using path_child [OF assms(2), of d] assms(4) by simp
  have "occ ?u q = (occ (Node pl p pr) q \<or> q = [d])" for q
    using assms(5) leaf by (cases q; cases d) (auto split: if_splits)
  then have "occ (put t (path k) ?u) q = (occ t q \<or> q = path k @ [d])" for q
  proof (cases "take (length (path k)) q = path k")
    case True
    then obtain q' where q: "q = path k @ q'" by (metis append_take_drop_id)
    then show ?thesis using sub_at_put [of t "path k" ?u q] sub sub_at_append [of t "path k" q'] \<open>\<And>q. occ ?u q = (occ (Node pl p pr) q \<or> q = [d])\<close> by simp
  next
    case False
    then have "q \<noteq> path k @ [d]" by auto
    then show ?thesis using sub_at_put [of t "path k" ?u q] sub False by simp
  qed
  then show ?thesis unfolding eq full_def child [symmetric] using assms(1) by (auto simp: full_def le_Suc_eq)
qed

lemma heap_insert_root:
  assumes ok: "heap_ok key h" and c: "compares cmp key" and n: "hp_size h \<noteq> - 1"
  shows "\<exists>h'. heap_insert cmp a h = Some h' \<and> heap_ok key h' \<and> elems (hp_root h') = add_mset a (elems (hp_root h)) \<and> hp_size h' = hp_size h + 1"
proof -
  let ?t = "hp_root h" and ?n = "unat (hp_size h)"
  have n1: "unat (hp_size h + 1) = Suc ?n" by (rule unat_plus_one [OF n])
  have f: "full ?t ?n" "hordered key ?t" "size (elems ?t) = ?n" using ok by (simp_all add: heap_ok_def)
  show ?thesis
  proof (cases "?t = Null")
    case True
    have "?n = 0" using full_Null [OF f(1)] True by simp
    moreover have "full (Node Null a Null) (Suc 0)"
    proof -
      have "occ (Node Null a Null) q = (q = [])" for q by (cases q) auto
      moreover have "(\<exists>k. 1 \<le> k \<and> k \<le> Suc 0 \<and> path k = q) = (q = [])" for q by (metis One_nat_def order_antisym order_refl path_1(1))
      ultimately show ?thesis unfolding full_def by simp
    qed
    ultimately show ?thesis using True n1 by (simp add: heap_insert_def heap_ok_def Let_def)
  next
    case False
    then have "0 < ?n" using full_Null [OF f(1)] by simp
    let ?k = "Suc ?n div 2" and ?d = "odd (Suc ?n)"
    have k: "1 \<le> ?k" "?k \<le> ?n" "Suc ?n = 2 * ?k + (if ?d then 1 else 0)"
    proof -
      show "1 \<le> ?k" "?k \<le> ?n" using \<open>0 < ?n\<close> by simp_all
      show "Suc ?n = 2 * ?k + (if ?d then 1 else 0)" by presburger
    qed
    have "occ ?t (path ?k)" using full_occ [OF f(1) k(1)] k(2) by simp
    then obtain up where "descend ?t (path ?k) [] = Some (sub_at ?t (path ?k), up)" using descend_occ by blast
    moreover obtain pl p pr where "sub_at ?t (path ?k) = Node pl p pr" using \<open>occ ?t (path ?k)\<close> by (cases "sub_at ?t (path ?k)") auto
    ultimately have d: "descend ?t (path ?k) [] = Some (Node pl p pr, up)" by simp
    have "\<not> occ ?t (path (Suc ?n))" using full_occ [OF f(1), of "Suc ?n"] by simp
    then have free: "(if ?d then pr else pl) = Null"
      using path_child [OF k(1), of ?d] k(3) sub_at_append [of ?t "path ?k" "[?d]"] descend_sub [OF d] by (auto split: if_splits)
    let ?up = "(?d, p, if ?d then pl else pr) # up"
    have "heap_insert cmp a h = Some \<lparr> hp_root = heap_bubble cmp Null a Null ?up, hp_size = hp_size h + 1 \<rparr>"
    proof -
      have div: "unat ((hp_size h + 1) div 2) = ?k" by (simp add: unat_div n1)
      then have "(hp_size h + 1) div 2 \<noteq> 0" using k(1) by auto
      then have "heap_get h ((hp_size h + 1) div 2) = Some (Node pl p pr, up)" using div d by (simp add: heap_get_def heap_walk_descend)
      moreover have "odd (hp_size h + 1) = ?d" by (simp only: n1 [symmetric] even_unat)
      ultimately show ?thesis using False free by (simp add: heap_insert_def Let_def split: if_splits)
    qed
    moreover have "full (heap_bubble cmp Null a Null ?up) (Suc ?n)"
      using full_add_leaf [OF f(1) k(1) d k(3) free, of a] by (subst full_shape [OF shape_bubble])
    moreover have "hordered key (heap_bubble cmp Null a Null ?up)"
    proof (rule bubble_ordered [OF c])
      show "hole_ok key (set_heap_node Null \<union> set_heap_node Null) ?up"
        using descend_hole [OF d f(2)] free by (auto split: if_splits)
    qed simp
    moreover have "elems ?t = add_mset p (elems pl + elems pr + frame_elems up)" using descend_self [OF d] elems_plug [of "Node pl p pr" up] by simp
    ultimately show ?thesis using f(3) n1 free by (auto simp: heap_ok_def split: if_splits)
  qed
qed

lemma put_Null_path:
  assumes "descend t (p @ [b]) [] = Some (u, up)"
  shows "\<exists>q s up'. up = (b, q, s) # up' \<and> plug (if b then Node s q Null else Node Null q s) up' = put t (p @ [b]) Null"
proof -
  have "map fst up = b # rev p" using descend_sub [OF assms] by simp
  then obtain q s up' where "up = (b, q, s) # up'" by (cases up) auto
  then show ?thesis using descend_put [OF assms, of Null] by auto
qed

lemma elems_put_Null:
  "occ t p \<Longrightarrow> elems t = elems (put t p Null) + elems (sub_at t p)"
  by (induction t p "Null :: 'a heap_node" rule: put.induct) auto

lemma hordered_put_Null: "hordered key t \<Longrightarrow> hordered key (put t p Null)"
proof -
  have b: "below key b t \<Longrightarrow> below key b (put t p Null)" for b and t :: "'a heap_node" and p
    by (induction t p "Null :: 'a heap_node" rule: put.induct) auto
  show "hordered key t \<Longrightarrow> hordered key (put t p Null)"
    by (induction t p "Null :: 'a heap_node" rule: put.induct) (auto intro: b)
qed

lemma full_remove_last:
  assumes "full t (Suc n)"
  shows "full (put t (path (Suc n)) Null) n"
proof -
  let ?p = "path (Suc n)"
  have o: "occ t ?p" using full_occ [OF assms, of "Suc n"] by simp
  have above: "\<not> occ t (?p @ q)" if ne: "q \<noteq> []" for q
  proof -
    obtain b bs where q: "q = b # bs" using ne by (cases q) auto
    have "\<not> occ t (?p @ [b])" using full_occ [OF assms, of "2 * Suc n + (if b then 1 else 0)"] path_child [of "Suc n" b] by auto
    then show ?thesis using occ_prefix [of t "?p @ [b]" bs] by (auto simp: q)
  qed
  have "occ (put t ?p Null) q = (occ t q \<and> q \<noteq> ?p)" for q
  proof (cases "take (length ?p) q = ?p")
    case True
    then obtain q' where q: "q = ?p @ q'" by (metis append_take_drop_id)
    then show ?thesis using sub_at_put [OF o, of Null q] True above [of q'] by auto
  next
    case False
    then show ?thesis using sub_at_put [OF o, of Null q] by auto
  qed
  moreover have "(\<exists>k. 1 \<le> k \<and> k \<le> Suc n \<and> path k = q) \<and> q \<noteq> ?p \<longleftrightarrow> (\<exists>k. 1 \<le> k \<and> k \<le> n \<and> path k = q)" for q
    using path_inj [of _ "Suc n"] by (metis Suc_n_not_le_n le_Suc_eq One_nat_def Suc_le_mono le0)
  ultimately show ?thesis using assms unfolding full_def by simp
qed

lemma last_is_leaf:
  assumes "full t (Suc n)"
  shows "\<exists>c. sub_at t (path (Suc n)) = Node Null c Null"
proof -
  have no: "sub_at t (path (Suc n) @ [b]) = Null" for b
    using full_occ [OF assms, of "2 * Suc n + (if b then 1 else 0)"] path_child [of "Suc n" b] by auto
  have "occ t (path (Suc n))" using full_occ [OF assms, of "Suc n"] by simp
  then obtain l c r where s: "sub_at t (path (Suc n)) = Node l c r" by (cases "sub_at t (path (Suc n))") auto
  then show ?thesis using no [of True] no [of False] by (simp add: sub_at_append)
qed

text \<open>The three cases of \<open>heap_pop_max\<close> are one: the last node is cut off and takes the place of the root.\<close>

lemma heap_pop_max_cuts:
  assumes full: "full (hp_root h) (Suc (Suc n))" and size: "unat (hp_size h) = Suc (Suc n)" and root: "hp_root h = Node ml mx mr"
    and leaf: "sub_at (hp_root h) (path (Suc (Suc n))) = Node Null c Null"
  shows "\<exists>l r. put (hp_root h) (path (Suc (Suc n))) Null = Node l mx r \<and>
    heap_pop_max cmp h = Some (\<lparr> hp_root = heap_max_heapify cmp (Node l c r), hp_size = hp_size h - 1 \<rparr>, Some mx)"
proof -
  let ?t = "hp_root h" and ?p = "path (Suc (Suc n) div 2)" and ?b = "odd (Suc (Suc n))"
  have p: "path (Suc (Suc n)) = ?p @ [?b]" by (rule path_snoc) simp
  obtain up where d: "descend ?t (?p @ [?b]) [] = Some (Node Null c Null, up)"
    using descend_occ [of ?t "?p @ [?b]" "[]"] leaf p by auto
  obtain q s up' where up: "up = (?b, q, s) # up'" and cut: "plug (if ?b then Node s q Null else Node Null q s) up' = put ?t (?p @ [?b]) Null"
    using put_Null_path [OF d] by blast
  have get: "heap_get h (hp_size h) = Some (Node Null c Null, up)"
  proof -
    have "hp_size h \<noteq> 0" using size by auto
    then show ?thesis using d p size by (simp add: heap_get_def heap_walk_descend)
  qed
  have odd: "odd (hp_size h) = ?b" using size by (metis even_unat)
  obtain l r where lr: "put ?t (?p @ [?b]) Null = Node l mx r" 
    using root by (cases "?p @ [?b]"; cases "hd (?p @ [?b])") auto
  show ?thesis
  proof (cases up')
    case Nil
    then have "?p = []" using descend_sub [OF d] up by simp
    then show ?thesis using get root up Nil odd lr cut p d by (cases ?b) (auto simp: heap_pop_max_def)
  next
    case (Cons f fs)
    then show ?thesis using get root up odd lr cut p by (cases ?b) (auto simp: heap_pop_max_def)
  qed
qed

lemma heap_pop_max_root:
  assumes ok: "heap_ok key h" and c: "compares cmp key" and root: "hp_root h = Node ml mx mr"
  shows "\<exists>h'. heap_pop_max cmp h = Some (h', Some mx) \<and> heap_ok key h' \<and> elems (hp_root h) = add_mset mx (elems (hp_root h')) \<and>
    hp_size h' = hp_size h - 1"
proof -
  have f: "full (hp_root h) (unat (hp_size h))" "hordered key (hp_root h)" "size (elems (hp_root h)) = unat (hp_size h)"
    using ok by (simp_all add: heap_ok_def)
  then have "unat (hp_size h) \<noteq> 0" using full_Null root by fastforce
  then obtain n where n: "unat (hp_size h) = Suc n" by (cases "unat (hp_size h)") auto
  then have "hp_size h \<noteq> 0" by auto
  then have n': "unat (hp_size h - 1) = n" using n unat_minus_one [of "hp_size h"] by simp
  obtain e where leaf: "sub_at (hp_root h) (path (Suc n)) = Node Null e Null" using last_is_leaf f(1) n by metis
  show ?thesis
  proof (cases n)
    case 0
    then have t: "ml = Null" "mr = Null" using leaf root by simp_all
    have "hp_size h = 1" using n 0 by (metis One_nat_def unat_1 unsigned_word_eqI)
    then have "heap_pop_max cmp h = Some (\<lparr> hp_root = Null, hp_size = 0 \<rparr>, Some mx)"
      using root by (simp add: heap_pop_max_def heap_get_def heap_walk.simps)
    then show ?thesis using t root \<open>hp_size h = 1\<close> by (auto simp: heap_ok_def full_def)
  next
    case (Suc k)
    obtain l r where cut: "put (hp_root h) (path (Suc (Suc k))) Null = Node l mx r"
      and pop: "heap_pop_max cmp h = Some (\<lparr> hp_root = heap_max_heapify cmp (Node l e r), hp_size = hp_size h - 1 \<rparr>, Some mx)"
      using heap_pop_max_cuts [of h k ml mx mr e cmp] f(1) n root leaf Suc by auto
    have occ: "occ (hp_root h) (path (Suc (Suc k)))" using leaf Suc by simp
    have el: "elems (hp_root h) = add_mset mx (elems (Node l e r))"
      using elems_put_Null [OF occ] cut leaf Suc by simp
    have "full (Node l mx r) n" using full_remove_last [of "hp_root h" n] f(1) n cut Suc by simp
    then have "full (heap_max_heapify cmp (Node l e r)) n" by (subst full_shape [of _ "Node l mx r"]) simp_all
    moreover have "hordered key (heap_max_heapify cmp (Node l e r))"
      using hordered_put_Null [OF f(2), of "path (Suc (Suc k))"] cut c by (intro heapify_ordered) simp_all
    moreover have "size (elems (heap_max_heapify cmp (Node l e r))) = n" using f(3) n el by simp
    ultimately show ?thesis using pop el n' by (auto simp: heap_ok_def)
  qed
qed

lemma heap_root_greatest: "hordered key (Node l a r) \<Longrightarrow> x \<in># elems (Node l a r) \<Longrightarrow> key x \<le> key a"
  by (auto simp: below_iff set_elems)

text \<open>Filling a heap and emptying it.\<close>

fun heap_fill :: "'a heap_node_compare \<Rightarrow> 'a list \<Rightarrow> 'a heap_head \<Rightarrow> 'a heap_head option" where
  "heap_fill cmp [] h = Some h"
| "heap_fill cmp (x # xs) h = do { h' \<leftarrow> heap_insert cmp x h; heap_fill cmp xs h' }"

fun heap_drain :: "'a heap_node_compare \<Rightarrow> nat \<Rightarrow> 'a heap_head \<Rightarrow> 'a list option" where
  "heap_drain cmp n h =
     do { (h', x) \<leftarrow> heap_pop_max cmp h;
          case x of None \<Rightarrow> Some [] | Some a \<Rightarrow> (case n of 0 \<Rightarrow> None | Suc k \<Rightarrow> map_option (Cons a) (heap_drain cmp k h')) }"

declare heap_drain.simps [simp del]

lemma heap_fill_ok:
  assumes "compares cmp key"
  shows "heap_ok key h \<Longrightarrow> unat (hp_size h) + length xs < 2 ^ 64 \<Longrightarrow>
    \<exists>h'. heap_fill cmp xs h = Some h' \<and> heap_ok key h' \<and> elems (hp_root h') = mset xs + elems (hp_root h)"
proof (induction xs arbitrary: h)
  case (Cons x xs)
  have "hp_size h \<noteq> - 1"
  proof
    assume "hp_size h = - 1"
    then have "unat (hp_size h) = 2 ^ 64 - 1" by (simp add: unsigned_minus_1_eq_mask mask_eq_exp_minus_1)
    then show False using Cons.prems(2) by simp
  qed
  then obtain h1 where h1: "heap_insert cmp x h = Some h1" "heap_ok key h1" "elems (hp_root h1) = add_mset x (elems (hp_root h))" "hp_size h1 = hp_size h + 1"
    using heap_insert_root [OF Cons.prems(1) assms] by blast
  have "unat (hp_size h1) = Suc (unat (hp_size h))" using h1(4) unat_plus_one [OF \<open>hp_size h \<noteq> - 1\<close>] by simp
  then show ?case using Cons.IH [OF h1(2)] h1 Cons.prems(2) by auto
qed simp

lemma heap_drain_ok:
  assumes "compares cmp key"
  shows "heap_ok key h \<Longrightarrow> size (elems (hp_root h)) \<le> n \<Longrightarrow>
    \<exists>ys. heap_drain cmp n h = Some ys \<and> mset ys = elems (hp_root h) \<and> sorted (rev (map key ys))"
proof (induction n arbitrary: h)
  case (Suc n)
  show ?case
  proof (cases "hp_root h")
    case Null
    then show ?thesis by (simp add: heap_drain.simps heap_pop_max_def)
  next
    case (Node l a r)
    obtain h' where h': "heap_pop_max cmp h = Some (h', Some a)" "heap_ok key h'" "elems (hp_root h) = add_mset a (elems (hp_root h'))"
      using heap_pop_max_root [OF Suc.prems(1) assms Node] by blast
    obtain ys where ys: "heap_drain cmp n h' = Some ys" "mset ys = elems (hp_root h')" "sorted (rev (map key ys))"
      using Suc.IH [OF h'(2)] Suc.prems(2) h'(3) by auto
    have "key y \<le> key a" if "y \<in> set ys" for y
    proof -
      have "y \<in># elems (Node l a r)" using that ys(2) h'(3) Node by (metis insert_iff set_mset_add_mset_insert set_mset_mset)
      then show ?thesis using Suc.prems(1) Node by (intro heap_root_greatest) (simp_all add: heap_ok_def)
    qed
    then show ?thesis using h' ys by (auto simp: heap_drain.simps [of cmp "Suc n"] sorted_append)
  qed
next
  case 0
  then have "hp_root h = Null" by (cases "hp_root h") auto
  then show ?case by (simp add: heap_drain.simps heap_pop_max_def)
qed

subsection \<open>Properties\<close>

text \<open>For every node number but 0, the search of a node from the bits of its number returns what following the path of the node from the root returns, where the path of a
  node is the path of its parent (half its number) extended to the left or the right.\<close>

theorem heap_get_follows_path:
  "node \<noteq> 0 \<Longrightarrow> heap_get head node = descend (hp_root head) (path (unat node)) []"
  by (simp add: heap_get_def heap_walk_descend)

theorem heap_get_follows_path_witness:
  "heap_get \<lparr> hp_root = Node (Node Null (1 :: nat) Null) 2 (Node Null 3 Null), hp_size = 3 \<rparr> 3 = Some (Node Null 3 Null, [(True, 2, Node Null 1 Null)])"
proof -
  let ?h = "\<lparr> hp_root = Node (Node Null (1 :: nat) Null) 2 (Node Null 3 Null), hp_size = 3 \<rparr>"
  have "heap_get ?h 3 = descend (hp_root ?h) (path (unat (3 :: u64))) []" by (rule heap_get_follows_path) simp
  moreover have "path (unat (3 :: u64)) = [True]" by code_simp
  ultimately show ?thesis by simp
qed

text \<open>Insertion into a heap that is not at the limit of its counter succeeds, keeps the numbering and the order of the heap and adds the element.\<close>

theorem heap_insert_correct:
  assumes "heap_ok key h" "compares cmp key" "hp_size h \<noteq> - 1"
  shows "\<exists>h'. heap_insert cmp a h = Some h' \<and> heap_ok key h' \<and> elems (hp_root h') = add_mset a (elems (hp_root h)) \<and> hp_size h' = hp_size h + 1"
  by (rule heap_insert_root [OF assms])

text \<open>C38. Inserting any elements, fewer than 2 to the power of 64, into an empty heap and removing the greatest until the heap is empty gives the keys in the order
  that sorting the list and reversing it gives, whatever the order of insertion.\<close>

theorem heap_sorts:
  assumes "compares cmp key" "length xs < 2 ^ 64"
  shows "\<exists>h ys. heap_fill cmp xs heap_init = Some h \<and> heap_drain cmp (length xs) h = Some ys \<and> map key ys = rev (sort (map key xs)) \<and> mset ys = mset xs"
proof -
  obtain h where h: "heap_fill cmp xs heap_init = Some h" "heap_ok key h" "elems (hp_root h) = mset xs"
    using heap_fill_ok [OF assms(1) heap_init_ok, of xs] assms(2) by (auto simp: heap_init_def)
  obtain ys where ys: "heap_drain cmp (length xs) h = Some ys" "mset ys = mset xs" "sorted (rev (map key ys))"
    using heap_drain_ok [OF assms(1) h(2), of "length xs"] h(3) by auto
  have "sort (map key xs) = rev (map key ys)"
    using ys(2,3) by (intro properties_for_sort) (simp_all add: mset_map)
  then show ?thesis using h(1) ys by (metis rev_rev_ident)
qed

theorem heap_insert_correct_witness:
  "\<exists>h'. heap_insert (\<lambda>a b. a - b) 5 heap_init = Some h' \<and> elems (hp_root h') = {#5 :: int#}"
proof -
  have "compares (\<lambda>a b. a - b) (id :: int \<Rightarrow> int)" by (simp add: compares_def)
  from heap_insert_correct [OF heap_init_ok this, of 5] show ?thesis by (auto simp: heap_init_def)
qed

theorem heap_sorts_witness:
  "\<exists>h ys. heap_fill (\<lambda>a b. a - b) [2, 7, 1 :: int] heap_init = Some h \<and> heap_drain (\<lambda>a b. a - b) 3 h = Some ys \<and> ys = [7, 2, 1]"
proof -
  have c: "compares (\<lambda>a b. a - b) (id :: int \<Rightarrow> int)" by (simp add: compares_def)
  show ?thesis using heap_sorts [OF c, of "[2, 7, 1]"] by (auto simp: numeral_3_eq_3)
qed

end
