(* ===== verification/Hash_Table.thy ===== *)
theory Hash_Table
  imports Nosv_Prelude "HOL-Library.Monad_Syntax"
begin

section \<open>The hash table (generic/hashtable.h, generic/hashfunction.h)\<close>

text \<open>
  A table of buckets with chained entries; removed entries go to a list of free entries that insertion uses before it allocates memory.
  A list of the source is the list of its entries, first entry first. The result of \<open>malloc\<close> is an argument. The keys are 64-bit words and are hashed as two 32-bit words.

  The table is a map from keys to stacks of data (\<open>ht_view\<close>): insertion pushes, search reads the top, removal pops. The locale
  \<open>stack_map\<close> has these laws; its lemmas are what the clients of the table use.
\<close>

unbundle bit_operations_syntax

subsection \<open>The hash function\<close>

definition rot :: "u32 \<Rightarrow> nat \<Rightarrow> u32" where
  "rot x k = push_bit k x OR drop_bit (32 - k) x"

definition mix_line :: "nat \<Rightarrow> u32 \<times> u32 \<times> u32 \<Rightarrow> u32 \<times> u32 \<times> u32" where
  "mix_line k = (\<lambda>(a, b, c). ((a - c) XOR rot c k, b, c + b))"

text \<open>A line of the macro with the next roles of the variables: after \<open>a\<close> comes \<open>b\<close>, then \<open>c\<close>.\<close>

definition turn :: "u32 \<times> u32 \<times> u32 \<Rightarrow> u32 \<times> u32 \<times> u32" where
  "turn = (\<lambda>(a, b, c). (b, c, a))"

definition mix :: "u32 \<times> u32 \<times> u32 \<Rightarrow> u32 \<times> u32 \<times> u32" where
  "mix = turn \<circ> mix_line 4 \<circ> turn \<circ> mix_line 19 \<circ> turn \<circ> mix_line 16 \<circ> turn \<circ> mix_line 8 \<circ> turn \<circ> mix_line 6 \<circ> turn \<circ> mix_line 4"

definition final :: "u32 \<times> u32 \<times> u32 \<Rightarrow> u32 \<times> u32 \<times> u32" where
  "final = (\<lambda>(a, b, c).
     let c = (c XOR b) - rot b 14;
         a = (a XOR c) - rot c 11;
         b = (b XOR a) - rot a 25;
         c = (c XOR b) - rot b 16;
         a = (a XOR c) - rot c 4;
         b = (b XOR a) - rot a 14;
         c = (c XOR b) - rot b 24
     in (a, b, c))"

fun hashword_loop :: "u32 list \<Rightarrow> u32 \<times> u32 \<times> u32 \<Rightarrow> u32" where
  "hashword_loop [] (a, b, c) = c"
| "hashword_loop [k0] (a, b, c) = snd (snd (final (a + k0, b, c)))"
| "hashword_loop [k0, k1] (a, b, c) = snd (snd (final (a + k0, b + k1, c)))"
| "hashword_loop [k0, k1, k2] (a, b, c) = snd (snd (final (a + k0, b + k1, c + k2)))"
| "hashword_loop (k0 # k1 # k2 # ks) (a, b, c) = hashword_loop ks (mix (a + k0, b + k1, c + k2))"

definition hashword :: "u32 list \<Rightarrow> u32 \<Rightarrow> u32" where
  "hashword k initval =
     (let i = 0xdeadbeef + push_bit 2 (of_nat (length k)) + initval in hashword_loop k (i, i, i))"

subsection \<open>The table\<close>

type_synonym hash_key = u64

record hash_entry =
  he_key :: hash_key
  he_data :: nat

record hash_table =
  nbkt :: nat
  ht_free :: "hash_entry list"
  buckets :: "hash_entry list list"

text \<open>The two halves of a key in memory, low half first.\<close>

definition key_words :: "hash_key \<Rightarrow> u32 list" where
  "key_words key = [ucast key, ucast (drop_bit 32 key)]"

definition hash :: "hash_table \<Rightarrow> hash_key \<Rightarrow> nat option" where
  "hash ht key = assert_then (0 < nbkt ht) (Some (unat (hashword (key_words key) 0) mod nbkt ht))"

text \<open>\<open>malloc_bkt\<close> and \<open>mallocs\<close> say which calls of \<open>malloc\<close> succeed; the contents of a new entry are arbitrary.\<close>

fun alloc_entries :: "bool list \<Rightarrow> nat \<Rightarrow> hash_entry \<Rightarrow> hash_entry list \<Rightarrow> hash_entry list \<times> bool" where
  "alloc_entries mallocs 0 junk free = (free, True)"
| "alloc_entries [] (Suc n) junk free = (free, False)"
| "alloc_entries (ok # mallocs) (Suc n) junk free = (if ok then alloc_entries mallocs n junk (junk # free) else (free, False))"

definition ht_init :: "bool \<Rightarrow> bool list \<Rightarrow> hash_entry \<Rightarrow> nat \<Rightarrow> nat \<Rightarrow> hash_table option \<times> int" where
  "ht_init malloc_bkt mallocs junk nbuckets nentries =
     (if \<not> malloc_bkt then (None, 1)
      else let (free, ok) = alloc_entries mallocs nentries junk []
           in (Some \<lparr> nbkt = nbuckets, ht_free = free, buckets = replicate nbuckets [] \<rparr>, if ok then 0 else 1))"

definition get_free_entry :: "bool \<Rightarrow> hash_entry \<Rightarrow> hash_table \<Rightarrow> hash_table \<times> hash_entry option" where
  "get_free_entry malloc_ok junk ht =
     (case ht_free ht of
        he # free \<Rightarrow> (ht \<lparr> ht_free := free \<rparr>, Some he)
      | [] \<Rightarrow> (ht, if malloc_ok then Some junk else None))"

definition ht_insert :: "bool \<Rightarrow> hash_entry \<Rightarrow> hash_table \<Rightarrow> hash_key \<Rightarrow> nat \<Rightarrow> (hash_table \<times> int) option" where
  "ht_insert malloc_ok junk ht key d =
     do { i \<leftarrow> hash ht key;
          let (ht1, he) = get_free_entry malloc_ok junk ht;
          case he of
            None \<Rightarrow> Some (ht1, 1)
          | Some he \<Rightarrow> Some (ht1 \<lparr> buckets := (buckets ht1)[i := he \<lparr> he_key := key, he_data := d \<rparr> # buckets ht1 ! i] \<rparr>, 0) }"

fun search_bucket :: "hash_key \<Rightarrow> hash_entry list \<Rightarrow> nat" where
  "search_bucket key [] = NULL"
| "search_bucket key (he # bkt) = (if he_key he = key then he_data he else search_bucket key bkt)"

definition ht_search :: "hash_table \<Rightarrow> hash_key \<Rightarrow> nat option" where
  "ht_search ht key = map_option (\<lambda>i. search_bucket key (buckets ht ! i)) (hash ht key)"

definition ht_pop :: "hash_table \<Rightarrow> hash_table \<times> nat" where
  "ht_pop ht =
     (case find (\<lambda>i. buckets ht ! i \<noteq> []) [0..<nbkt ht] of
        None \<Rightarrow> (ht, NULL)
      | Some i \<Rightarrow>
          (case buckets ht ! i of
             [] \<Rightarrow> (ht, NULL)
           | he # bkt \<Rightarrow> (ht \<lparr> buckets := (buckets ht)[i := bkt], ht_free := he # ht_free ht \<rparr>, he_data he)))"

text \<open>The second loop of \<open>ht_remove\<close>: the entries passed, with the last one first (\<open>prev\<close>), and the rest of the list.\<close>

fun remove_after :: "hash_key \<Rightarrow> hash_entry list \<Rightarrow> hash_entry list \<Rightarrow> (hash_entry list \<times> hash_entry option) option" where
  "remove_after key prevs [] = Some (rev prevs, None)"
| "remove_after key prevs (he # bkt) =
     (if he_key he = key then assert_then (prevs \<noteq> []) (Some (rev prevs @ bkt, Some he))
      else remove_after key (he # prevs) bkt)"

definition ht_remove :: "hash_table \<Rightarrow> hash_key \<Rightarrow> (hash_table \<times> nat) option" where
  "ht_remove ht key =
     do { i \<leftarrow> hash ht key;
          let bkt = buckets ht ! i;
          let unlink = (\<lambda>bkt' he. (ht \<lparr> buckets := (buckets ht)[i := bkt'], ht_free := he # ht_free ht \<rparr>, he_data he));
          if bkt \<noteq> [] \<and> he_key (hd bkt) = key then Some (unlink (tl bkt) (hd bkt))
          else do { (bkt', he) \<leftarrow> remove_after key [] bkt;
                    case he of None \<Rightarrow> Some (ht, NULL) | Some he \<Rightarrow> Some (unlink bkt' he) } }"

fun drop_free :: "hash_entry list \<Rightarrow> hash_entry list" where
  "drop_free [] = []"
| "drop_free (he # free) = drop_free free"

definition ht_destroy :: "hash_table \<Rightarrow> hash_table" where
  "ht_destroy ht = ht \<lparr> ht_free := drop_free (ht_free ht), buckets := [] \<rparr>"

subsection \<open>The interface: a map of stacks\<close>

locale stack_map =
  fixes inv :: "'t \<Rightarrow> bool"
    and view :: "'t \<Rightarrow> 'k \<Rightarrow> nat list"
    and insert :: "'t \<Rightarrow> 'k \<Rightarrow> nat \<Rightarrow> 't option"
    and search :: "'t \<Rightarrow> 'k \<Rightarrow> nat option"
    and remove :: "'t \<Rightarrow> 'k \<Rightarrow> ('t \<times> nat) option"
  assumes insert_law: "inv t \<Longrightarrow> \<exists>t'. insert t k d = Some t' \<and> inv t' \<and> view t' = (view t)(k := d # view t k)"
    and search_law: "inv t \<Longrightarrow> search t k = Some (case view t k of [] \<Rightarrow> NULL | d # _ \<Rightarrow> d)"
    and remove_law: "inv t \<Longrightarrow> \<exists>t'. remove t k = Some (t', case view t k of [] \<Rightarrow> NULL | d # _ \<Rightarrow> d) \<and> inv t' \<and> view t' = (view t)(k := tl (view t k))"
begin

lemma insert_search: "inv t \<Longrightarrow> \<exists>t'. insert t k d = Some t' \<and> inv t' \<and> search t' k = Some d \<and> (\<forall>j. j \<noteq> k \<longrightarrow> search t' j = search t j)"
  using insert_law [of t k d] search_law by fastforce

lemma insert_remove: "inv t \<Longrightarrow> \<exists>t' t''. insert t k d = Some t' \<and> remove t' k = Some (t'', d) \<and> inv t'' \<and> view t'' = view t"
proof -
  assume "inv t"
  then obtain t' where t': "insert t k d = Some t'" "inv t'" "view t' = (view t)(k := d # view t k)" using insert_law by blast
  obtain t'' where "remove t' k = Some (t'', d)" "inv t''" "view t'' = (view t')(k := tl (view t' k))"
    using remove_law [OF t'(2), of k] t'(3) by auto
  then show ?thesis using t' by auto
qed

end

subsection \<open>The table implements the interface\<close>

definition ht_inv :: "hash_table \<Rightarrow> bool" where
  "ht_inv ht \<longleftrightarrow> 0 < nbkt ht \<and> length (buckets ht) = nbkt ht \<and>
     (\<forall>i<nbkt ht. \<forall>he\<in>set (buckets ht ! i). hash ht (he_key he) = Some i)"

definition bucket_view :: "hash_entry list \<Rightarrow> hash_key \<Rightarrow> nat list" where
  "bucket_view bkt key = map he_data (filter (\<lambda>he. he_key he = key) bkt)"

definition ht_view :: "hash_table \<Rightarrow> hash_key \<Rightarrow> nat list" where
  "ht_view ht key = bucket_view (buckets ht ! the (hash ht key)) key"

lemma hash_cong: "nbkt ht' = nbkt ht \<Longrightarrow> hash ht' = hash ht"
  by (simp add: hash_def fun_eq_iff)

lemma hash_bucket: "ht_inv ht \<Longrightarrow> \<exists>i<nbkt ht. hash ht key = Some i"
  by (simp add: hash_def ht_inv_def)

lemma set_bucket_view:
  assumes "ht_inv ht" "hash ht key = Some i" "i < nbkt ht" "nbkt ht' = nbkt ht" "buckets ht' = (buckets ht)[i := bkt]"
    "\<forall>k. k \<noteq> key \<longrightarrow> bucket_view bkt k = bucket_view (buckets ht ! i) k" "\<forall>he\<in>set bkt. hash ht (he_key he) = Some i"
  shows "ht_inv ht'" "ht_view ht' = (ht_view ht)(key := bucket_view bkt key)"
proof -
  note h = hash_cong [OF assms(4)]
  show "ht_inv ht'" using assms by (auto simp: ht_inv_def h nth_list_update)
  show "ht_view ht' = (ht_view ht)(key := bucket_view bkt key)"
  proof
    fix k
    obtain j where "j < nbkt ht" "hash ht k = Some j" using hash_bucket [OF assms(1)] by blast
    then show "ht_view ht' k = ((ht_view ht)(key := bucket_view bkt key)) k"
      using assms by (auto simp: ht_view_def h ht_inv_def nth_list_update)
  qed
qed

lemma search_bucket_view: "search_bucket key bkt = (case bucket_view bkt key of [] \<Rightarrow> NULL | d # _ \<Rightarrow> d)"
  by (induction bkt) (auto simp: bucket_view_def)

lemma remove_after_spec:
  "\<forall>he\<in>set prevs. he_key he \<noteq> key \<Longrightarrow> prevs \<noteq> [] \<or> bkt = [] \<or> he_key (hd bkt) \<noteq> key \<Longrightarrow>
    remove_after key prevs bkt = Some (rev prevs @ takeWhile (\<lambda>he. he_key he \<noteq> key) bkt @ tl (dropWhile (\<lambda>he. he_key he \<noteq> key) bkt),
      case dropWhile (\<lambda>he. he_key he \<noteq> key) bkt of [] \<Rightarrow> None | he # _ \<Rightarrow> Some he)"
  by (induction bkt arbitrary: prevs) auto

definition remove_first :: "hash_key \<Rightarrow> hash_entry list \<Rightarrow> hash_entry list" where
  "remove_first key bkt = takeWhile (\<lambda>he. he_key he \<noteq> key) bkt @ tl (dropWhile (\<lambda>he. he_key he \<noteq> key) bkt)"

lemma remove_first_view:
  "bucket_view (remove_first key bkt) k = (if k = key then tl (bucket_view bkt key) else bucket_view bkt k)"
  "set (remove_first key bkt) \<subseteq> set bkt"
  by (induction bkt) (auto simp: remove_first_def bucket_view_def)

lemma ht_remove_spec:
  assumes "hash ht key = Some i"
  shows "ht_remove ht key =
    Some (case filter (\<lambda>he. he_key he = key) (buckets ht ! i) of
      [] \<Rightarrow> (ht, NULL)
    | he # _ \<Rightarrow> (ht \<lparr> buckets := (buckets ht)[i := remove_first key (buckets ht ! i)], ht_free := he # ht_free ht \<rparr>, he_data he))"
proof -
  let ?b = "buckets ht ! i"
  have d: "dropWhile (\<lambda>he. he_key he \<noteq> key) bkt = [] \<Longrightarrow> filter (\<lambda>he. he_key he = key) bkt = []"
    "dropWhile (\<lambda>he. he_key he \<noteq> key) bkt = he # r \<Longrightarrow> \<exists>r'. filter (\<lambda>he. he_key he = key) bkt = he # r'" for bkt he r
    by (induction bkt) (auto split: if_splits)
  show ?thesis
  proof (cases "?b \<noteq> [] \<and> he_key (hd ?b) = key")
    case True
    then show ?thesis using assms by (cases ?b) (auto simp: ht_remove_def remove_first_def)
  next
    case False
    have r: "remove_after key [] ?b = Some (remove_first key ?b, case dropWhile (\<lambda>he. he_key he \<noteq> key) ?b of [] \<Rightarrow> None | he # _ \<Rightarrow> Some he)"
      using remove_after_spec [of "[]" key ?b] False by (auto simp: remove_first_def)
    show ?thesis using assms False r d(1) [of ?b] d(2) [of ?b]
      by (cases "dropWhile (\<lambda>he. he_key he \<noteq> key) ?b") (auto simp: ht_remove_def Let_def)
  qed
qed

lemma ht_insert_law:
  assumes "ht_inv ht"
  shows "\<exists>ht'. ht_insert True junk ht key d = Some (ht', 0) \<and> ht_inv ht' \<and> ht_view ht' = (ht_view ht)(key := d # ht_view ht key)"
proof -
  obtain i where i: "i < nbkt ht" "hash ht key = Some i" using hash_bucket [OF assms] by blast
  obtain he ht1 where e: "get_free_entry True junk ht = (ht1, Some he)" "nbkt ht1 = nbkt ht" "buckets ht1 = buckets ht"
    by (cases "ht_free ht") (auto simp: get_free_entry_def)
  let ?bkt = "he \<lparr> he_key := key, he_data := d \<rparr> # buckets ht ! i"
  let ?ht = "ht1 \<lparr> buckets := (buckets ht)[i := ?bkt] \<rparr>"
  have "ht_inv ?ht" "ht_view ?ht = (ht_view ht)(key := bucket_view ?bkt key)"
  proof -
    have a: "\<forall>k. k \<noteq> key \<longrightarrow> bucket_view ?bkt k = bucket_view (buckets ht ! i) k" "\<forall>he\<in>set ?bkt. hash ht (he_key he) = Some i"
      using assms i by (auto simp: bucket_view_def ht_inv_def)
    show "ht_inv ?ht" "ht_view ?ht = (ht_view ht)(key := bucket_view ?bkt key)"
      using set_bucket_view [OF assms i(2,1) _ _ a, of ?ht] e(2) by simp_all
  qed
  moreover have "ht_insert True junk ht key d = Some (?ht, 0)" using i e by (simp add: ht_insert_def)
  moreover have "bucket_view ?bkt key = d # ht_view ht key" using i by (simp add: bucket_view_def ht_view_def)
  ultimately show ?thesis by auto
qed

lemma ht_search_law: "ht_inv ht \<Longrightarrow> ht_search ht key = Some (case ht_view ht key of [] \<Rightarrow> NULL | d # _ \<Rightarrow> d)"
  using hash_bucket [of ht key] by (auto simp: ht_search_def ht_view_def search_bucket_view)

lemma ht_remove_law:
  assumes "ht_inv ht"
  shows "\<exists>ht'. ht_remove ht key = Some (ht', case ht_view ht key of [] \<Rightarrow> NULL | d # _ \<Rightarrow> d) \<and> ht_inv ht' \<and>
    ht_view ht' = (ht_view ht)(key := tl (ht_view ht key))"
proof -
  obtain i where i: "i < nbkt ht" "hash ht key = Some i" using hash_bucket [OF assms] by blast
  let ?f = "filter (\<lambda>he. he_key he = key) (buckets ht ! i)"
  have v: "ht_view ht key = map he_data ?f" using i by (simp add: ht_view_def bucket_view_def)
  show ?thesis
  proof (cases ?f)
    case Nil
    then show ?thesis using ht_remove_spec [OF i(2)] v assms by (simp add: fun_upd_idem)
  next
    case (Cons he r)
    let ?ht = "ht \<lparr> buckets := (buckets ht)[i := remove_first key (buckets ht ! i)], ht_free := he # ht_free ht \<rparr>"
    have "ht_inv ?ht" "ht_view ?ht = (ht_view ht)(key := bucket_view (remove_first key (buckets ht ! i)) key)"
    proof -
      have a: "\<forall>k. k \<noteq> key \<longrightarrow> bucket_view (remove_first key (buckets ht ! i)) k = bucket_view (buckets ht ! i) k"
        "\<forall>he\<in>set (remove_first key (buckets ht ! i)). hash ht (he_key he) = Some i"
        using remove_first_view(2) [of key "buckets ht ! i"] assms i(1) by (auto simp: ht_inv_def remove_first_view(1))
      show "ht_inv ?ht" "ht_view ?ht = (ht_view ht)(key := bucket_view (remove_first key (buckets ht ! i)) key)"
        using set_bucket_view [OF assms i(2,1) _ _ a, of ?ht] by simp_all
    qed
    moreover have "bucket_view (remove_first key (buckets ht ! i)) key = tl (ht_view ht key)" using i by (simp add: remove_first_view ht_view_def)
    moreover have "ht_remove ht key = Some (?ht, he_data he)" using ht_remove_spec [OF i(2)] Cons by simp
    ultimately show ?thesis using v Cons by simp
  qed
qed

interpretation table: stack_map ht_inv ht_view "\<lambda>ht key d. map_option fst (ht_insert True junk ht key d)" ht_search ht_remove for junk
proof
  fix t k d
  assume "ht_inv t"
  from ht_insert_law [OF this, of junk k d]
  show "\<exists>t'. map_option fst (ht_insert True junk t k d) = Some t' \<and> ht_inv t' \<and> ht_view t' = (ht_view t)(k := d # ht_view t k)" by auto
qed (auto intro: ht_search_law ht_remove_law)

lemma ht_init_ok:
  assumes "ht_init malloc_bkt mallocs junk n m = (Some ht, r)" "0 < n"
  shows "ht_inv ht \<and> ht_view ht = (\<lambda>_. [])"
proof -
  have h: "nbkt ht = n" "buckets ht = replicate n []" using assms(1) by (auto simp: ht_init_def Let_def split: if_splits prod.splits)
  then have "ht_inv ht" using assms(2) by (auto simp: ht_inv_def)
  moreover have "ht_view ht k = []" for k using hash_bucket [OF \<open>ht_inv ht\<close>, of k] h by (auto simp: ht_view_def bucket_view_def)
  ultimately show ?thesis by auto
qed

subsection \<open>Properties\<close>

text \<open>What the comment of \<open>mix\<close> claims: the mixing step can be undone, so that no information of the three words is lost.\<close>

definition unmix_line :: "nat \<Rightarrow> u32 \<times> u32 \<times> u32 \<Rightarrow> u32 \<times> u32 \<times> u32" where
  "unmix_line k = (\<lambda>(a, b, c). let c0 = c - b in ((a XOR rot c0 k) + c0, b, c0))"

definition unturn :: "u32 \<times> u32 \<times> u32 \<Rightarrow> u32 \<times> u32 \<times> u32" where
  "unturn = (\<lambda>(b, c, a). (a, b, c))"

definition unmix :: "u32 \<times> u32 \<times> u32 \<Rightarrow> u32 \<times> u32 \<times> u32" where
  "unmix = unmix_line 4 \<circ> unturn \<circ> unmix_line 6 \<circ> unturn \<circ> unmix_line 8 \<circ> unturn \<circ> unmix_line 16 \<circ> unturn \<circ> unmix_line 19 \<circ> unturn \<circ> unmix_line 4 \<circ> unturn"

lemma undo_mix_line [simp]: "unmix_line k (mix_line k t) = t" "mix_line k (unmix_line k t) = t"
  by (cases t; simp add: unmix_line_def mix_line_def Let_def xor.assoc)+

lemma undo_turn [simp]: "unturn (turn t) = t" "turn (unturn t) = t"
  by (cases t; simp add: unturn_def turn_def)+

text \<open>The mixing step of the hash function is a bijection of the triples of 32-bit words, with an inverse made of the inverse lines in the reverse order, as its
  comment claims.\<close>

theorem mix_reversible: "unmix (mix t) = t \<and> mix (unmix t) = t"
  by (simp add: mix_def unmix_def)

text \<open>In a well-formed hash table, with memory for the entry, what is inserted under a key is found under it until it is removed, other keys are not affected, and
  the removal returns it and restores what the table held before, also when the key was in the table already or shares its bucket.\<close>

theorem ht_insert_search_remove:
  assumes "ht_inv ht"
  shows "\<exists>ht' ht''. ht_insert True junk ht key d = Some (ht', 0) \<and> ht_search ht' key = Some d \<and> (\<forall>k. k \<noteq> key \<longrightarrow> ht_search ht' k = ht_search ht k) \<and>
    ht_remove ht' key = Some (ht'', d) \<and> ht_inv ht'' \<and> (\<forall>k. ht_search ht'' k = ht_search ht k)"
proof -
  obtain ht' where i: "ht_insert True junk ht key d = Some (ht', 0)" using ht_insert_law [OF assms] by blast
  obtain ht'' where r: "ht_remove ht' key = Some (ht'', d)" "ht_inv ht''" "ht_view ht'' = ht_view ht"
    using table.insert_remove [OF assms, of junk key d] i by auto
  then show ?thesis using i table.insert_search [OF assms, of junk key d] assms by (auto simp: ht_search_law)
qed

theorem ht_insert_search_remove_witness:
  "\<exists>ht ht' ht''. ht_init True [] \<lparr> he_key = 0, he_data = 0 \<rparr> 4 0 = (Some ht, 0) \<and> ht_insert True \<lparr> he_key = 0, he_data = 0 \<rparr> ht 9 7 = Some (ht', 0) \<and>
     ht_search ht' 9 = Some 7 \<and> ht_remove ht' 9 = Some (ht'', 7) \<and> ht_search ht'' 9 = Some 0"
proof -
  obtain ht where i: "ht_init True [] \<lparr> he_key = 0, he_data = 0 \<rparr> 4 0 = (Some ht, 0)" by (simp add: ht_init_def)
  have ok: "ht_inv ht" "ht_view ht = (\<lambda>_. [])" using ht_init_ok [OF i] by auto
  then have "ht_search ht 9 = Some 0" by (simp add: ht_search_law)
  with ht_insert_search_remove [OF ok(1), of "\<lparr> he_key = 0, he_data = 0 \<rparr>" 9 7] i show ?thesis by fastforce
qed

end
