(* ===== verification/Affinity.thy ===== *)
theory Affinity
  imports Hash_Table "HOL-Library.Word"
begin

section \<open>Affinity of attached threads (support/affinity.c, generic/cpuset.h)\<close>

text \<open>
  Workers run where the scheduler wants them, so that the library keeps the affinity a thread believes to have apart from the real one. The calls that set and read
  affinities and create threads are intercepted: for a thread that is registered as a worker they work on the affinity the worker keeps, for other threads they are
  passed on to the next definition of the symbol. Two hash tables find the worker of a thread identifier.

  The functions of the C library (\<open>next_symbols\<close>) are a parameter that works on a state of its own, the real affinities. A CPU mask is the
  list of its bytes, whose length is the size that the calls pass. The spinlock around the accesses makes every function one step.
\<close>

subsection \<open>CPU masks\<close>

type_synonym cpu_mask = "8 word list"

definition CPU_ISSET_S :: "nat \<Rightarrow> cpu_mask \<Rightarrow> bool" where
  "CPU_ISSET_S i s = (i div 8 < length s \<and> bit (s ! (i div 8)) (i mod 8))"

definition CPU_COUNT_S :: "cpu_mask \<Rightarrow> nat" where
  "CPU_COUNT_S s = length (filter (\<lambda>i. CPU_ISSET_S i s) [0..<8 * length s])"

definition CPU_FIRST_S :: "cpu_mask \<Rightarrow> int" where
  "CPU_FIRST_S s = (case find (\<lambda>i. CPU_ISSET_S i s) [0..<8 * length s] of None \<Rightarrow> - 1 | Some i \<Rightarrow> int i)"

definition CPU_COPY_S :: "nat \<Rightarrow> cpu_mask \<Rightarrow> cpu_mask" where
  "CPU_COPY_S dst_setsize src =
     (if dst_setsize \<le> length src then take dst_setsize src else src @ replicate (dst_setsize - length src) 0)"

subsection \<open>State\<close>

record affinity_worker =
  aw_tid :: int
  aw_kthread :: nat
  aw_original :: "cpu_mask option"

record affinity =
  thread_affinity_compat_support :: bool
  bypass :: nat
  ht_tid :: hash_table
  ht_pthread :: hash_table
  original_affinity :: cpu_mask
  aff_workers :: "nat \<Rightarrow> affinity_worker"
  aff_current :: nat
  pthread_self :: nat

text \<open>The next definitions of the intercepted symbols and the operations on thread attributes, as functions of the state of the operating system.
  A function that reads a mask gets the size of the buffer.\<close>

record ('k, 'attr) next_symbols =
  next_sched_setaffinity :: "int \<Rightarrow> cpu_mask \<Rightarrow> 'k \<Rightarrow> 'k \<times> int"
  next_sched_getaffinity :: "int \<Rightarrow> nat \<Rightarrow> 'k \<Rightarrow> cpu_mask \<times> int"
  next_pthread_setaffinity_np :: "nat \<Rightarrow> cpu_mask \<Rightarrow> 'k \<Rightarrow> 'k \<times> int"
  next_pthread_getaffinity_np :: "nat \<Rightarrow> nat \<Rightarrow> 'k \<Rightarrow> cpu_mask \<times> int"
  next_pthread_create :: "'attr option \<Rightarrow> 'k \<Rightarrow> 'k \<times> int"
  attr_getaffinity_0 :: "'attr \<Rightarrow> int"
  attr_setaffinity :: "cpu_mask \<Rightarrow> 'attr \<Rightarrow> 'attr"
  getattr_default :: "'k \<Rightarrow> 'attr option"

definition EINVAL :: int where "EINVAL = 22"

definition tid_key :: "int \<Rightarrow> hash_key" where "tid_key tid = word_of_int tid"
definition pthread_key :: "nat \<Rightarrow> hash_key" where "pthread_key t = of_nat t"

definition set_aff_worker :: "nat \<Rightarrow> (affinity_worker \<Rightarrow> affinity_worker) \<Rightarrow> affinity \<Rightarrow> affinity" where
  "set_aff_worker w f a = a \<lparr> aff_workers := (aff_workers a)(w := f (aff_workers a w)) \<rparr>"

subsection \<open>The affinity a worker keeps\<close>

text \<open>\<open>mem\<close> says that \<open>malloc\<close> succeeds.\<close>

definition worker_setaffinity :: "bool \<Rightarrow> nat \<Rightarrow> cpu_mask \<Rightarrow> affinity \<Rightarrow> affinity option" where
  "worker_setaffinity mem w cpumask a =
     (case aw_original (aff_workers a w) of
        None \<Rightarrow> None
      | Some orig \<Rightarrow>
          if length cpumask \<le> length orig
          then Some (set_aff_worker w (\<lambda>k. k \<lparr> aw_original := Some (cpumask @ replicate (length orig - length cpumask) 0) \<rparr>) a)
          else assert_then mem (Some (set_aff_worker w (\<lambda>k. k \<lparr> aw_original := Some cpumask \<rparr>) a)))"

definition worker_getaffinity :: "nat \<Rightarrow> nat \<Rightarrow> affinity \<Rightarrow> cpu_mask option" where
  "worker_getaffinity w cpusetsize a = map_option (CPU_COPY_S cpusetsize) (aw_original (aff_workers a w))"

subsection \<open>The intercepted functions\<close>

definition worker_of_pid :: "int \<Rightarrow> affinity \<Rightarrow> nat option" where
  "worker_of_pid pid a = (if pid \<noteq> 0 then ht_search (ht_tid a) (tid_key pid) else Some (aff_current a))"

definition worker_of_thread :: "nat \<Rightarrow> affinity \<Rightarrow> nat option" where
  "worker_of_thread thread a =
     (if pthread_self a \<noteq> thread then ht_search (ht_pthread a) (pthread_key thread) else Some (aff_current a))"

definition sched_setaffinity :: "('k, 'attr) next_symbols \<Rightarrow> bool \<Rightarrow> int \<Rightarrow> cpu_mask \<Rightarrow> affinity \<times> 'k \<Rightarrow> ((affinity \<times> 'k) \<times> int) option" where
  "sched_setaffinity nx mem pid cpumask = (\<lambda>(a, k).
     (let pass = (let (k', r) = next_sched_setaffinity nx pid cpumask k in ((a, k'), r))
      in if \<not> thread_affinity_compat_support a \<or> bypass a \<noteq> 0 then Some pass
         else do { w \<leftarrow> worker_of_pid pid a;
                   if w \<noteq> NULL
                   then assert_then (pid = 0 \<or> aw_tid (aff_workers a w) = pid)
                          (do { a' \<leftarrow> worker_setaffinity mem w cpumask a; Some ((a', k), 0) })
                   else Some pass }))"

definition sched_getaffinity :: "('k, 'attr) next_symbols \<Rightarrow> int \<Rightarrow> nat \<Rightarrow> affinity \<times> 'k \<Rightarrow> (cpu_mask \<times> int) option" where
  "sched_getaffinity nx pid cpusetsize = (\<lambda>(a, k).
     (if \<not> thread_affinity_compat_support a \<or> bypass a \<noteq> 0 then Some (next_sched_getaffinity nx pid cpusetsize k)
      else do { w \<leftarrow> worker_of_pid pid a;
                if w \<noteq> NULL
                then assert_then (pid = 0 \<or> aw_tid (aff_workers a w) = pid)
                       (do { cpumask \<leftarrow> worker_getaffinity w cpusetsize a; Some (cpumask, 0) })
                else Some (next_sched_getaffinity nx pid cpusetsize k) }))"

definition pthread_setaffinity_np :: "('k, 'attr) next_symbols \<Rightarrow> bool \<Rightarrow> nat \<Rightarrow> cpu_mask \<Rightarrow> affinity \<times> 'k \<Rightarrow> ((affinity \<times> 'k) \<times> int) option" where
  "pthread_setaffinity_np nx mem thread cpumask = (\<lambda>(a, k).
     (let pass = (let (k', r) = next_pthread_setaffinity_np nx thread cpumask k in ((a, k'), r))
      in if \<not> thread_affinity_compat_support a \<or> bypass a \<noteq> 0 then Some pass
         else do { w \<leftarrow> worker_of_thread thread a;
                   if w \<noteq> NULL
                   then assert_then (thread = aw_kthread (aff_workers a w))
                          (do { a' \<leftarrow> worker_setaffinity mem w cpumask a; Some ((a', k), 0) })
                   else Some pass }))"

definition pthread_getaffinity_np :: "('k, 'attr) next_symbols \<Rightarrow> nat \<Rightarrow> nat \<Rightarrow> affinity \<times> 'k \<Rightarrow> (cpu_mask \<times> int) option" where
  "pthread_getaffinity_np nx thread cpusetsize = (\<lambda>(a, k).
     (if \<not> thread_affinity_compat_support a \<or> bypass a \<noteq> 0 then Some (next_pthread_getaffinity_np nx thread cpusetsize k)
      else do { w \<leftarrow> worker_of_thread thread a;
                if w \<noteq> NULL
                then assert_then (thread = aw_kthread (aff_workers a w))
                       (do { cpumask \<leftarrow> worker_getaffinity w cpusetsize a; Some (cpumask, 0) })
                else Some (next_pthread_getaffinity_np nx thread cpusetsize k) }))"

definition pthread_attr_has_cpuset :: "('k, 'attr) next_symbols \<Rightarrow> 'attr \<Rightarrow> bool option" where
  "pthread_attr_has_cpuset nx attr =
     (let ret = attr_getaffinity_0 nx attr in if ret = EINVAL then Some True else if ret = 0 then Some False else None)"

text \<open>\<open>pthread_create\<close> on a system with \<open>pthread_getattr_default_np\<close>. The result has the attributes of the caller, which the call may change for a moment.\<close>

definition pthread_create :: "('k, 'attr) next_symbols \<Rightarrow> 'attr option \<Rightarrow> affinity \<times> 'k \<Rightarrow> ('attr option \<times> (affinity \<times> 'k) \<times> int) option" where
  "pthread_create nx attr = (\<lambda>(a, k).
     (let create = (\<lambda>at. let (k', r) = next_pthread_create nx at k in ((a, k'), r))
      in if aff_current a = NULL \<or> \<not> thread_affinity_compat_support a \<or> bypass a \<noteq> 0 then Some (attr, create attr)
         else do { orig \<leftarrow> aw_original (aff_workers a (aff_current a));
                   case attr of
                     Some at \<Rightarrow>
                       do { has \<leftarrow> pthread_attr_has_cpuset nx at;
                            if has then Some (attr, create attr)
                            else (let at' = attr_setaffinity nx orig at in Some (Some (attr_setaffinity nx [] at'), create (Some at'))) }
                   | None \<Rightarrow>
                       do { default_attr \<leftarrow> getattr_default nx k;
                            has \<leftarrow> pthread_attr_has_cpuset nx default_attr;
                            if has then Some (None, create None)
                            else Some (None, create (Some (attr_setaffinity nx orig default_attr))) } }))"

subsection \<open>Calls that are not intercepted\<close>

definition unbypass :: "(affinity \<times> 'k) \<times> int \<Rightarrow> (affinity \<times> 'k) \<times> int" where
  "unbypass = (\<lambda>((a, k), r). ((a \<lparr> bypass := bypass a - 1 \<rparr>, k), r))"

definition bypassed :: "affinity \<Rightarrow> affinity" where
  "bypassed a = a \<lparr> bypass := bypass a + 1 \<rparr>"

definition bypass_sched_setaffinity :: "('k, 'attr) next_symbols \<Rightarrow> bool \<Rightarrow> int \<Rightarrow> cpu_mask \<Rightarrow> affinity \<times> 'k \<Rightarrow> ((affinity \<times> 'k) \<times> int) option" where
  "bypass_sched_setaffinity nx mem pid cpumask = (\<lambda>(a, k). map_option unbypass (sched_setaffinity nx mem pid cpumask (bypassed a, k)))"

definition bypass_sched_getaffinity :: "('k, 'attr) next_symbols \<Rightarrow> int \<Rightarrow> nat \<Rightarrow> affinity \<times> 'k \<Rightarrow> (cpu_mask \<times> int) option" where
  "bypass_sched_getaffinity nx pid cpusetsize = (\<lambda>(a, k). sched_getaffinity nx pid cpusetsize (bypassed a, k))"

definition bypass_pthread_setaffinity_np :: "('k, 'attr) next_symbols \<Rightarrow> bool \<Rightarrow> nat \<Rightarrow> cpu_mask \<Rightarrow> affinity \<times> 'k \<Rightarrow> ((affinity \<times> 'k) \<times> int) option" where
  "bypass_pthread_setaffinity_np nx mem thread cpumask = (\<lambda>(a, k). map_option unbypass (pthread_setaffinity_np nx mem thread cpumask (bypassed a, k)))"

definition bypass_pthread_getaffinity_np :: "('k, 'attr) next_symbols \<Rightarrow> nat \<Rightarrow> nat \<Rightarrow> affinity \<times> 'k \<Rightarrow> (cpu_mask \<times> int) option" where
  "bypass_pthread_getaffinity_np nx thread cpusetsize = (\<lambda>(a, k). pthread_getaffinity_np nx thread cpusetsize (bypassed a, k))"

definition bypass_pthread_create :: "('k, 'attr) next_symbols \<Rightarrow> 'attr option \<Rightarrow> affinity \<times> 'k \<Rightarrow> ('attr option \<times> (affinity \<times> 'k) \<times> int) option" where
  "bypass_pthread_create nx attr = (\<lambda>(a, k). map_option (\<lambda>(at, s). (at, unbypass s)) (pthread_create nx attr (bypassed a, k)))"

subsection \<open>Registration of workers\<close>

definition affinity_support_init :: "('k, 'attr) next_symbols \<Rightarrow> bool list \<Rightarrow> hash_entry \<Rightarrow> affinity \<times> 'k \<Rightarrow> affinity option" where
  "affinity_support_init nx mallocs junk = (\<lambda>(a, k).
     if \<not> thread_affinity_compat_support a then Some a
     else do { (cpumask, r) \<leftarrow> bypass_sched_getaffinity nx 0 (length (original_affinity a)) (a, k);
               let a1 = a \<lparr> original_affinity := cpumask \<rparr>;
               assert_then (r = 0)
                 (case (ht_init True mallocs junk 256 256, ht_init True mallocs junk 256 256) of
                    ((Some h1, r1), (Some h2, r2)) \<Rightarrow> assert_then (r1 = 0 \<and> r2 = 0) (Some (a1 \<lparr> ht_tid := h1, ht_pthread := h2 \<rparr>))
                  | _ \<Rightarrow> None) })"

definition affinity_support_shutdown :: "affinity \<Rightarrow> affinity" where
  "affinity_support_shutdown a =
     (if \<not> thread_affinity_compat_support a then a
      else a \<lparr> ht_pthread := ht_destroy (ht_pthread a), ht_tid := ht_destroy (ht_tid a) \<rparr>)"

text \<open>The code does not look at the results of \<open>ht_insert\<close> and of \<open>bypass_sched_getaffinity\<close>.\<close>

definition affinity_support_register_worker ::
    "('k, 'attr) next_symbols \<Rightarrow> bool \<times> bool \<times> bool \<Rightarrow> hash_entry \<Rightarrow> nat \<Rightarrow> bool \<Rightarrow> affinity \<times> 'k \<Rightarrow> affinity option" where
  "affinity_support_register_worker nx = (\<lambda>(mem, mem1, mem2) junk w default_affinity (a, k).
     assert_then (w \<noteq> NULL \<and> mem)
       (do { (cpumask, _) \<leftarrow> bypass_sched_getaffinity nx 0 (length (original_affinity a)) (a, k);
             let set_mask = (\<lambda>m. set_aff_worker w (\<lambda>x. x \<lparr> aw_original := Some m \<rparr>));
             if \<not> thread_affinity_compat_support a then Some (set_mask cpumask a)
             else do { (h1, _) \<leftarrow> ht_insert mem1 junk (ht_tid a) (tid_key (aw_tid (aff_workers a w))) w;
                       (h2, _) \<leftarrow> ht_insert mem2 junk (ht_pthread a) (pthread_key (aw_kthread (aff_workers a w))) w;
                       Some (set_mask (if default_affinity then original_affinity a else cpumask) (a \<lparr> ht_tid := h1, ht_pthread := h2 \<rparr>)) } }))"

definition restore_affinity :: "('k, 'attr) next_symbols \<Rightarrow> nat \<Rightarrow> affinity \<times> 'k \<Rightarrow> (affinity \<times> 'k) option" where
  "restore_affinity nx w = (\<lambda>(a, k).
     do { orig \<leftarrow> aw_original (aff_workers a w);
          assert_then (CPU_COUNT_S orig = 1 \<longrightarrow> CPU_FIRST_S orig \<noteq> - 1) (map_option fst (bypass_sched_setaffinity nx True 0 orig (a, k))) })"

definition affinity_support_unregister_worker :: "('k, 'attr) next_symbols \<Rightarrow> nat \<Rightarrow> bool \<Rightarrow> affinity \<times> 'k \<Rightarrow> (affinity \<times> 'k) option" where
  "affinity_support_unregister_worker nx w restore = (\<lambda>(a, k).
     assert_then (w \<noteq> NULL)
       (do { (a1, k1) \<leftarrow> (if restore then restore_affinity nx w (a, k) else Some (a, k));
             let clear = set_aff_worker w (\<lambda>x. x \<lparr> aw_original := None \<rparr>);
             if \<not> thread_affinity_compat_support a1 then Some (clear a1, k1)
             else do { (h1, d1) \<leftarrow> ht_remove (ht_tid a1) (tid_key (aw_tid (aff_workers a1 w)));
                       (h2, d2) \<leftarrow> ht_remove (ht_pthread a1) (pthread_key (aw_kthread (aff_workers a1 w)));
                       assert_then (d1 \<noteq> NULL \<and> d2 \<noteq> NULL) (Some (clear (a1 \<lparr> ht_tid := h1, ht_pthread := h2 \<rparr>), k1)) } }))"

subsection \<open>The order of the shared libraries\<close>

text \<open>The interception works only if the library comes before the C library. The arguments are the numbers that \<open>sscanf\<close> reads from the version strings
  and the names \<open>dl_iterate_phdr\<close> visits.\<close>

definition cmp_lib_ver :: "nat \<times> nat \<times> nat \<Rightarrow> nat \<times> nat \<times> nat \<Rightarrow> int" where
  "cmp_lib_ver = (\<lambda>(major1, minor1, bugfix1) (major2, minor2, bugfix2).
     if major1 < major2 then - 1 else if major1 > major2 then 1
     else if minor1 < minor2 then - 1 else if minor1 > minor2 then 1
     else if bugfix1 < bugfix2 then - 1 else if bugfix1 > bugfix2 then 1 else 0)"

fun strstr :: "string \<Rightarrow> string \<Rightarrow> bool" where
  "strstr [] needle = (needle = [])"
| "strstr (c # cs) needle = (take (length needle) (c # cs) = needle \<or> strstr cs needle)"

datatype lsd_status = LSD_STATUS_NONE | LSD_STATUS_FOUND | LSD_STATUS_REVERSED

record lockup_scope_data =
  libbefore :: string
  libafter :: string
  lsd_cnt :: nat
  lsd_status :: lsd_status

definition do_check_lockup_scope_order :: "string \<Rightarrow> lockup_scope_data \<Rightarrow> lockup_scope_data \<times> bool" where
  "do_check_lockup_scope_order dlpi_name lsc =
     (let lsc1 = lsc \<lparr> lsd_cnt := lsd_cnt lsc + 1 \<rparr>
      in if lsd_cnt lsc = 0 then (lsc1, False)
         else if strstr dlpi_name (libafter lsc) then (lsc1 \<lparr> lsd_status := LSD_STATUS_REVERSED \<rparr>, True)
         else if strstr dlpi_name (libbefore lsc) then (lsc1 \<lparr> lsd_status := LSD_STATUS_FOUND \<rparr>, True)
         else (lsc1, False))"

fun dl_iterate_phdr :: "string list \<Rightarrow> lockup_scope_data \<Rightarrow> lockup_scope_data" where
  "dl_iterate_phdr [] lsc = lsc"
| "dl_iterate_phdr (n # names) lsc =
     (let (lsc1, stop) = do_check_lockup_scope_order n lsc in if stop then lsc1 else dl_iterate_phdr names lsc1)"

definition check_lokup_scope_order :: "string option \<Rightarrow> nat \<times> nat \<times> nat \<Rightarrow> string list \<Rightarrow> unit option" where
  "check_lokup_scope_order dli_fname glibc_version names =
     do { fname \<leftarrow> dli_fname;
          let after = (if cmp_lib_ver glibc_version (2, 34, 0) \<ge> 0 then ''/libc.so'' else ''/libpthread.so'');
          let lsc = dl_iterate_phdr names \<lparr> libbefore = fname, libafter = after, lsd_cnt = 0, lsd_status = LSD_STATUS_NONE \<rparr>;
          case lsd_status lsc of
            LSD_STATUS_REVERSED \<Rightarrow> None
          | LSD_STATUS_NONE \<Rightarrow> assert_then (lsd_cnt lsc = 2) (Some ())
          | LSD_STATUS_FOUND \<Rightarrow> Some () }"

subsection \<open>The invariant\<close>

text \<open>A table has exactly the registered workers, each under its own key.\<close>

definition registers :: "nat set \<Rightarrow> (nat \<Rightarrow> hash_key) \<Rightarrow> hash_table \<Rightarrow> bool" where
  "registers R key ht \<longleftrightarrow> ht_inv ht \<and> (\<forall>w\<in>R. ht_view ht (key w) = [w]) \<and> (\<forall>k. k \<notin> key ` R \<longrightarrow> ht_view ht k = [])"

definition keys_tid :: "affinity \<Rightarrow> nat \<Rightarrow> hash_key" where "keys_tid a w = tid_key (aw_tid (aff_workers a w))"
definition keys_pthread :: "affinity \<Rightarrow> nat \<Rightarrow> hash_key" where "keys_pthread a w = pthread_key (aw_kthread (aff_workers a w))"

definition aff_inv :: "nat set \<Rightarrow> affinity \<Rightarrow> bool" where
  "aff_inv R a \<longleftrightarrow> registers R (keys_tid a) (ht_tid a) \<and> registers R (keys_pthread a) (ht_pthread a) \<and>
     (\<forall>w\<in>R. w \<noteq> NULL \<and> aw_tid (aff_workers a w) \<noteq> 0 \<and> aw_original (aff_workers a w) \<noteq> None \<and>
        (pthread_self a = aw_kthread (aff_workers a w)) = (aff_current a = w))"

lemma registers_search: "registers R key ht \<Longrightarrow> w \<in> R \<Longrightarrow> ht_search ht (key w) = Some w"
  by (simp add: registers_def ht_search_law)

lemma registers_cong: "\<forall>w\<in>R. key' w = key w \<Longrightarrow> registers R key' ht = registers R key ht"
  by (simp add: registers_def cong: image_cong)

lemma registers_insert:
  assumes "registers R key ht" "key w \<notin> key ` R"
  shows "\<exists>ht'. ht_insert True junk ht (key w) w = Some (ht', 0) \<and> registers (insert w R) key ht'"
proof -
  obtain ht' where h: "ht_insert True junk ht (key w) w = Some (ht', 0)" "ht_inv ht'" "ht_view ht' = (ht_view ht)(key w := w # ht_view ht (key w))"
    using ht_insert_law [of ht junk "key w" w] assms(1) by (auto simp: registers_def)
  then show ?thesis using assms by (auto simp: registers_def)
qed

lemma registers_remove:
  assumes "registers R key ht" "w \<in> R"
  shows "\<exists>ht'. ht_remove ht (key w) = Some (ht', w) \<and> registers (R - {w}) key ht'"
proof -
  obtain ht' where h: "ht_remove ht (key w) = Some (ht', w)" "ht_inv ht'" "ht_view ht' = (ht_view ht)(key w := tl (ht_view ht (key w)))"
    using ht_remove_law [of ht "key w"] assms by (auto simp: registers_def)
  have "key v \<noteq> key w" if "v \<in> R" "v \<noteq> w" for v using assms that unfolding registers_def by (metis list.inject)
  then show ?thesis using assms h by (auto simp: registers_def)
qed

lemma aff_inv_workers:
  assumes "aff_inv R a" "w \<in> R"
  shows "worker_of_pid (aw_tid (aff_workers a w)) a = Some w" "worker_of_thread (aw_kthread (aff_workers a w)) a = Some w"
  using assms registers_search [of R "keys_tid a" "ht_tid a" w] registers_search [of R "keys_pthread a" "ht_pthread a" w]
  by (auto simp: aff_inv_def worker_of_pid_def worker_of_thread_def keys_tid_def keys_pthread_def)

lemma aff_inv_set_original:
  assumes "aff_inv R a" "w \<in> R"
  shows "aff_inv R (set_aff_worker w (\<lambda>x. x \<lparr> aw_original := Some m \<rparr>) a)"
proof -
  let ?a = "set_aff_worker w (\<lambda>x. x \<lparr> aw_original := Some m \<rparr>) a"
  have "keys_tid ?a = keys_tid a" "keys_pthread ?a = keys_pthread a"
    by (auto simp: fun_eq_iff keys_tid_def keys_pthread_def set_aff_worker_def)
  then show ?thesis using assms by (auto simp: aff_inv_def set_aff_worker_def)
qed

lemma copy_padded: "CPU_COPY_S (length m) (m @ replicate n 0) = m"
  by (simp add: CPU_COPY_S_def)

lemma worker_setaffinity_ok:
  assumes "aff_inv R a" "w \<in> R"
  shows "\<exists>n. worker_setaffinity True w m a = Some (set_aff_worker w (\<lambda>x. x \<lparr> aw_original := Some (m @ replicate n 0) \<rparr>) a)"
proof -
  obtain orig where o: "aw_original (aff_workers a w) = Some orig" using assms by (auto simp: aff_inv_def)
  show ?thesis
  proof (cases "length m \<le> length orig")
    case False
    then show ?thesis using o by (intro exI [of _ 0]) (simp add: worker_setaffinity_def)
  qed (use o in \<open>auto simp: worker_setaffinity_def\<close>)
qed

lemma bypass_calls:
  "bypass_sched_setaffinity nx mem pid m (a, k) = Some (let (k', r) = next_sched_setaffinity nx pid m k in ((a, k'), r))"
  "bypass_sched_getaffinity nx pid n (a, k) = Some (next_sched_getaffinity nx pid n k)"
  by (auto simp: bypass_sched_setaffinity_def bypass_sched_getaffinity_def sched_setaffinity_def sched_getaffinity_def bypassed_def unbypass_def
      split: prod.splits)

lemma single_first: "CPU_COUNT_S m = 1 \<Longrightarrow> CPU_FIRST_S m \<noteq> - 1"
proof
  assume c: "CPU_COUNT_S m = 1" "CPU_FIRST_S m = - 1"
  then have "find (\<lambda>i. CPU_ISSET_S i m) [0..<8 * length m] = None" by (auto simp: CPU_FIRST_S_def split: option.splits)
  then have "filter (\<lambda>i. CPU_ISSET_S i m) [0..<8 * length m] = []" by (auto simp: find_None_iff filter_empty_conv)
  then show False using c(1) by (simp add: CPU_COUNT_S_def)
qed

subsection \<open>Properties\<close>

text \<open>C35. With the affinity support on, setting the affinity of a registered thread by its thread identifier succeeds, changes nothing in the operating system, and afterwards
  the thread's affinity is read as it was set, by thread identifier and by pthread; what is read for the other registered threads does not change.\<close>

theorem fake_affinity_kept:
  assumes inv: "aff_inv R a" "w \<in> R" and on: "thread_affinity_compat_support a" "bypass a = 0"
  shows "\<exists>a'. sched_setaffinity nx True (aw_tid (aff_workers a w)) m (a, k) = Some ((a', k), 0) \<and> aff_inv R a' \<and>
    sched_getaffinity nx (aw_tid (aff_workers a w)) (length m) (a', k) = Some (m, 0) \<and>
    pthread_getaffinity_np nx (aw_kthread (aff_workers a w)) (length m) (a', k) = Some (m, 0) \<and>
    (\<forall>v\<in>R. v \<noteq> w \<longrightarrow> sched_getaffinity nx (aw_tid (aff_workers a v)) n (a', k) = sched_getaffinity nx (aw_tid (aff_workers a v)) n (a, k))"
proof -
  obtain z where z: "worker_setaffinity True w m a = Some (set_aff_worker w (\<lambda>x. x \<lparr> aw_original := Some (m @ replicate z 0) \<rparr>) a)"
    using worker_setaffinity_ok [OF inv] by blast
  let ?a = "set_aff_worker w (\<lambda>x. x \<lparr> aw_original := Some (m @ replicate z 0) \<rparr>) a"
  have i: "aff_inv R ?a" by (rule aff_inv_set_original [OF inv])
  have f: "aw_tid (aff_workers ?a v) = aw_tid (aff_workers a v)" "aw_kthread (aff_workers ?a v) = aw_kthread (aff_workers a v)"
    "thread_affinity_compat_support ?a" "bypass ?a = 0" for v
    using on by (simp_all add: set_aff_worker_def)
  have w: "w \<noteq> NULL" using inv by (auto simp: aff_inv_def)
  have o: "aw_original (aff_workers ?a w) = Some (m @ replicate z 0)" by (simp add: set_aff_worker_def)
  have "sched_setaffinity nx True (aw_tid (aff_workers a w)) m (a, k) = Some ((?a, k), 0)"
    using on w z aff_inv_workers(1) [OF inv] by (simp add: sched_setaffinity_def Let_def)
  moreover have "sched_getaffinity nx (aw_tid (aff_workers a w)) (length m) (?a, k) = Some (m, 0)"
    "pthread_getaffinity_np nx (aw_kthread (aff_workers a w)) (length m) (?a, k) = Some (m, 0)"
    using aff_inv_workers [OF i inv(2)] f w o copy_padded
    by (simp_all add: sched_getaffinity_def pthread_getaffinity_np_def worker_getaffinity_def)
  moreover have "sched_getaffinity nx (aw_tid (aff_workers a v)) n (?a, k) = sched_getaffinity nx (aw_tid (aff_workers a v)) n (a, k)"
    if v: "v \<in> R" "v \<noteq> w" for v
  proof -
    have "v \<noteq> NULL" "worker_of_pid (aw_tid (aff_workers a v)) ?a = Some v" "worker_of_pid (aw_tid (aff_workers a v)) a = Some v"
      using aff_inv_workers(1) [OF i v(1)] aff_inv_workers(1) [OF inv(1) v(1)] f(1) inv(1) v(1) by (auto simp: aff_inv_def)
    moreover have "aff_workers ?a v = aff_workers a v" using v(2) by (simp add: set_aff_worker_def)
    ultimately show ?thesis using on f(3,4) by (simp add: sched_getaffinity_def worker_getaffinity_def)
  qed
  ultimately show ?thesis using i by blast
qed

text \<open>A thread that registers as a worker and keeps the affinity it had, and unregisters later, whatever happened to its real affinity meanwhile, gets this affinity back
  from the operating system, and the other threads stay registered.\<close>

theorem register_unregister_restores:
  assumes inv: "aff_inv R a" and on: "thread_affinity_compat_support a" and w: "w \<noteq> NULL" "aw_tid (aff_workers a w) \<noteq> 0"
    "keys_tid a w \<notin> keys_tid a ` R" "keys_pthread a w \<notin> keys_pthread a ` R" "(pthread_self a = aw_kthread (aff_workers a w)) = (aff_current a = w)"
    and get: "next_sched_getaffinity nx 0 (length (original_affinity a)) k = (m, 0)"
    and set: "next_sched_setaffinity nx 0 m k1 = (k2, 0)"
  shows "\<exists>a1 a2. affinity_support_register_worker nx (True, True, True) junk w False (a, k) = Some a1 \<and> aff_inv (insert w R) a1 \<and>
    affinity_support_unregister_worker nx w True (a1, k1) = Some (a2, k2) \<and> aff_inv R a2"
proof -
  obtain h1 where h1: "ht_insert True junk (ht_tid a) (keys_tid a w) w = Some (h1, 0)" "registers (insert w R) (keys_tid a) h1"
    using registers_insert [of R "keys_tid a" "ht_tid a" w junk] inv w(3) by (auto simp: aff_inv_def)
  obtain h2 where h2: "ht_insert True junk (ht_pthread a) (keys_pthread a w) w = Some (h2, 0)" "registers (insert w R) (keys_pthread a) h2"
    using registers_insert [of R "keys_pthread a" "ht_pthread a" w junk] inv w(4) by (auto simp: aff_inv_def)
  have nw: "w \<notin> R" using w(3) by blast
  let ?a1 = "set_aff_worker w (\<lambda>x. x \<lparr> aw_original := Some m \<rparr>) (a \<lparr> ht_tid := h1, ht_pthread := h2 \<rparr>)"
  have r1: "affinity_support_register_worker nx (True, True, True) junk w False (a, k) = Some ?a1"
    using w(1) on get h1(1) h2(1) by (simp add: affinity_support_register_worker_def bypass_calls keys_tid_def keys_pthread_def)
  have keys: "keys_tid ?a1 = keys_tid a" "keys_pthread ?a1 = keys_pthread a"
    by (auto simp: fun_eq_iff keys_tid_def keys_pthread_def set_aff_worker_def)
  have i1: "aff_inv (insert w R) ?a1" unfolding aff_inv_def keys
    using inv h1(2) h2(2) w nw by (auto simp: aff_inv_def set_aff_worker_def)
  obtain g1 where g1: "ht_remove h1 (keys_tid a w) = Some (g1, w)" "registers R (keys_tid a) g1"
    using registers_remove [OF h1(2), of w] nw by auto
  obtain g2 where g2: "ht_remove h2 (keys_pthread a w) = Some (g2, w)" "registers R (keys_pthread a) g2"
    using registers_remove [OF h2(2), of w] nw by auto
  let ?a2 = "set_aff_worker w (\<lambda>x. x \<lparr> aw_original := None \<rparr>) (?a1 \<lparr> ht_tid := g1, ht_pthread := g2 \<rparr>)"
  have "restore_affinity nx w (?a1, k1) = Some (?a1, k2)"
    using set single_first [of m] by (simp add: restore_affinity_def set_aff_worker_def bypass_calls)
  then have r2: "affinity_support_unregister_worker nx w True (?a1, k1) = Some (?a2, k2)"
    using w(1) on g1(1) g2(1) by (simp add: affinity_support_unregister_worker_def keys_tid_def keys_pthread_def set_aff_worker_def)
  have keys2: "keys_tid ?a2 = keys_tid a" "keys_pthread ?a2 = keys_pthread a"
    by (auto simp: fun_eq_iff keys_tid_def keys_pthread_def set_aff_worker_def)
  have "aff_inv R ?a2" unfolding aff_inv_def keys2
    using inv g1(2) g2(2) nw by (auto simp: aff_inv_def set_aff_worker_def)
  then show ?thesis using r1 i1 r2 by blast
qed

text \<open>One thread with tid 7 and pthread 3, which is the worker 5; the real affinity is the state of the operating system.\<close>

definition example_table :: hash_table where
  "example_table = \<lparr> nbkt = 4, ht_free = [], buckets = replicate 4 [] \<rparr>"

definition example_affinity :: affinity where
  "example_affinity = \<lparr> thread_affinity_compat_support = True, bypass = 0, ht_tid = example_table, ht_pthread = example_table, original_affinity = [15],
     aff_workers = (\<lambda>_. \<lparr> aw_tid = 7, aw_kthread = 3, aw_original = Some [15] \<rparr>), aff_current = 5, pthread_self = 3 \<rparr>"

definition example_next :: "(cpu_mask, unit) next_symbols" where
  "example_next = \<lparr> next_sched_setaffinity = (\<lambda>_ m k. (m, 0)), next_sched_getaffinity = (\<lambda>_ n k. (CPU_COPY_S n k, 0)),
     next_pthread_setaffinity_np = (\<lambda>_ m k. (m, 0)), next_pthread_getaffinity_np = (\<lambda>_ n k. (CPU_COPY_S n k, 0)), next_pthread_create = (\<lambda>_ k. (k, 0)),
     attr_getaffinity_0 = (\<lambda>_. 0), attr_setaffinity = (\<lambda>_ a. a), getattr_default = (\<lambda>_. Some ()) \<rparr>"

lemma example_registers: "registers {} key example_table"
  using ht_init_ok [of True "[]" "\<lparr> he_key = 0, he_data = 0 \<rparr>" 4 0 example_table 0]
  by (simp add: registers_def ht_init_def example_table_def)

lemma example_registered: "\<exists>h1 h2. aff_inv {5} (example_affinity \<lparr> ht_tid := h1, ht_pthread := h2 \<rparr>)"
proof -
  let ?e = "example_affinity" and ?j = "\<lparr> he_key = 0, he_data = 0 \<rparr>"
  obtain h1 where h1: "registers {5} (keys_tid ?e) h1" using registers_insert [OF example_registers, of "keys_tid ?e" 5 ?j] by auto
  obtain h2 where h2: "registers {5} (keys_pthread ?e) h2" using registers_insert [OF example_registers, of "keys_pthread ?e" 5 ?j] by auto
  have "keys_tid (?e \<lparr> ht_tid := h1, ht_pthread := h2 \<rparr>) = keys_tid ?e" "keys_pthread (?e \<lparr> ht_tid := h1, ht_pthread := h2 \<rparr>) = keys_pthread ?e"
    by (auto simp: fun_eq_iff keys_tid_def keys_pthread_def)
  then have "aff_inv {5} (?e \<lparr> ht_tid := h1, ht_pthread := h2 \<rparr>)" using h1 h2 by (simp add: aff_inv_def) (simp add: example_affinity_def)
  then show ?thesis by blast
qed

theorem fake_affinity_kept_witness:
  "\<exists>a a'. sched_setaffinity example_next True 7 [2] (a, [15]) = Some ((a', [15]), 0) \<and> sched_getaffinity example_next 7 1 (a', [15]) = Some ([2], 0)"
proof -
  obtain h1 h2 where i: "aff_inv {5} (example_affinity \<lparr> ht_tid := h1, ht_pthread := h2 \<rparr>)" using example_registered by blast
  let ?a = "example_affinity \<lparr> ht_tid := h1, ht_pthread := h2 \<rparr>"
  have "aw_tid (aff_workers ?a 5) = 7" "thread_affinity_compat_support ?a" "bypass ?a = 0" by (simp_all add: example_affinity_def)
  with fake_affinity_kept [OF i, of 5 example_next "[2]" "[15]" 0] show ?thesis by auto
qed

theorem register_unregister_restores_witness:
  "\<exists>a1 a2. affinity_support_register_worker example_next (True, True, True) \<lparr> he_key = 0, he_data = 0 \<rparr> 5 False (example_affinity, [12]) = Some a1 \<and>
     affinity_support_unregister_worker example_next 5 True (a1, [1]) = Some (a2, [12])"
proof -
  have i: "aff_inv {} example_affinity" using example_registers by (simp add: aff_inv_def) (simp add: example_affinity_def)
  have e: "thread_affinity_compat_support example_affinity" "aw_tid (aff_workers example_affinity 5) \<noteq> 0"
    "(pthread_self example_affinity = aw_kthread (aff_workers example_affinity 5)) = (aff_current example_affinity = 5)"
    "next_sched_getaffinity example_next 0 (length (original_affinity example_affinity)) [12] = ([12], 0)" "next_sched_setaffinity example_next 0 [12] [1] = ([12], 0)"
    by (simp_all add: example_affinity_def example_next_def CPU_COPY_S_def)
  from register_unregister_restores [OF i e(1) _ e(2) _ _ e(3,4,5)] show ?thesis by fastforce
qed

end
