(* ===== verification/Alpi.thy ===== *)
theory Alpi
  imports Worker_Loop
begin

section \<open>The ALPI interface (alpi.c, error.c)\<close>

text \<open>
  ALPI is the interface of tasking runtimes that other libraries use; alpi.c implements it with the functions of \<open>Tasks_Api\<close> and \<open>Topology\<close> and translates
  the error codes. An output parameter is a value of the result, and an argument says whether its pointer is given.
\<close>

subsection \<open>Error codes\<close>

definition NOSV_ERR_MAX :: int where "NOSV_ERR_MAX = - 10"

definition ALPI_SUCCESS :: int where "ALPI_SUCCESS = 0"
definition ALPI_ERR_VERSION :: int where "ALPI_ERR_VERSION = 1"
definition ALPI_ERR_NOT_INITIALIZED :: int where "ALPI_ERR_NOT_INITIALIZED = 2"
definition ALPI_ERR_PARAMETER :: int where "ALPI_ERR_PARAMETER = 3"
definition ALPI_ERR_OUT_OF_MEMORY :: int where "ALPI_ERR_OUT_OF_MEMORY = 4"
definition ALPI_ERR_OUTSIDE_TASK :: int where "ALPI_ERR_OUTSIDE_TASK = 5"
definition ALPI_ERR_UNKNOWN :: int where "ALPI_ERR_UNKNOWN = 6"
definition ALPI_ERR_MAX :: int where "ALPI_ERR_MAX = 7"

lemmas alpi_codes = ALPI_SUCCESS_def ALPI_ERR_VERSION_def ALPI_ERR_NOT_INITIALIZED_def ALPI_ERR_PARAMETER_def ALPI_ERR_OUT_OF_MEMORY_def
  ALPI_ERR_OUTSIDE_TASK_def ALPI_ERR_UNKNOWN_def ALPI_ERR_MAX_def NOSV_ERR_MAX_def nosv_defs

text \<open>The arrays with designated initialisers; an element that is not named is a null pointer, or 0.\<close>

definition error_strings :: "string option list" where
  "error_strings = (replicate (nat (- NOSV_ERR_MAX)) None)
     [ nat (- NOSV_SUCCESS) := Some ''Operation succeeded'',
       nat (- NOSV_ERR_INVALID_CALLBACK) := Some ''Invalid callback'',
       nat (- NOSV_ERR_INVALID_METADATA_SIZE) := Some ''Task metadata size is too large'',
       nat (- NOSV_ERR_INVALID_OPERATION) := Some ''Invalid operation'',
       nat (- NOSV_ERR_INVALID_PARAMETER) := Some ''Invalid parameter'',
       nat (- NOSV_ERR_NOT_INITIALIZED) := Some ''Runtime not initialized yet or already shutdown'',
       nat (- NOSV_ERR_OUT_OF_MEMORY) := Some ''Failed to allocate memory'',
       nat (- NOSV_ERR_OUTSIDE_TASK) := Some ''Must run in a task context'',
       nat (- NOSV_ERR_UNKNOWN) := Some ''Unknown error'' ]"

definition nosv_get_error_string :: "int \<Rightarrow> string option" where
  "nosv_get_error_string error_code =
     (if error_code > 0 \<or> error_code \<le> NOSV_ERR_MAX then Some ''Error code not recognized''
      else error_strings ! nat (- error_code))"

definition errors_mapping :: "int list" where
  "errors_mapping = (replicate (nat (- NOSV_ERR_MAX)) 0)
     [ nat (- NOSV_SUCCESS) := ALPI_SUCCESS,
       nat (- NOSV_ERR_INVALID_CALLBACK) := ALPI_ERR_UNKNOWN,
       nat (- NOSV_ERR_INVALID_METADATA_SIZE) := ALPI_ERR_UNKNOWN,
       nat (- NOSV_ERR_INVALID_OPERATION) := ALPI_ERR_UNKNOWN,
       nat (- NOSV_ERR_INVALID_PARAMETER) := ALPI_ERR_PARAMETER,
       nat (- NOSV_ERR_NOT_INITIALIZED) := ALPI_ERR_NOT_INITIALIZED,
       nat (- NOSV_ERR_OUT_OF_MEMORY) := ALPI_ERR_OUT_OF_MEMORY,
       nat (- NOSV_ERR_OUTSIDE_TASK) := ALPI_ERR_OUTSIDE_TASK,
       nat (- NOSV_ERR_UNKNOWN) := ALPI_ERR_UNKNOWN ]"

definition translate_error :: "int \<Rightarrow> int" where
  "translate_error error_code =
     (if error_code > 0 \<or> error_code \<le> NOSV_ERR_MAX then ALPI_ERR_UNKNOWN else errors_mapping ! nat (- error_code))"

definition alpi_error_strings :: "string option list" where
  "alpi_error_strings = (replicate (nat ALPI_ERR_MAX) None)
     [ nat ALPI_SUCCESS := Some ''Operation succeeded'',
       nat ALPI_ERR_VERSION := Some ''Incompatible version'',
       nat ALPI_ERR_NOT_INITIALIZED := Some ''Runtime system not initialized'',
       nat ALPI_ERR_PARAMETER := Some ''Invalid parameter'',
       nat ALPI_ERR_OUT_OF_MEMORY := Some ''Failed to allocate memory'',
       nat ALPI_ERR_OUTSIDE_TASK := Some ''Must run within a task'',
       nat ALPI_ERR_UNKNOWN := Some ''Unknown error'' ]"

definition alpi_error_string :: "int \<Rightarrow> string option" where
  "alpi_error_string err =
     (if err < 0 \<or> err \<ge> ALPI_ERR_MAX then Some ''Error code not recognized'' else alpi_error_strings ! nat err)"

subsection \<open>Version\<close>

definition ALPI_VERSION_MAJOR :: int where "ALPI_VERSION_MAJOR = 1"
definition ALPI_VERSION_MINOR :: int where "ALPI_VERSION_MINOR = 1"

definition alpi_version_check :: "int \<Rightarrow> int \<Rightarrow> int" where
  "alpi_version_check major minor =
     (if major \<noteq> ALPI_VERSION_MAJOR then ALPI_ERR_VERSION else if minor > ALPI_VERSION_MINOR then ALPI_ERR_VERSION else 0)"

definition alpi_version_get :: "bool \<Rightarrow> bool \<Rightarrow> (int \<times> int) option \<times> int" where
  "alpi_version_get major_ptr minor_ptr =
     (if \<not> major_ptr \<or> \<not> minor_ptr then (None, ALPI_ERR_PARAMETER) else (Some (ALPI_VERSION_MAJOR, ALPI_VERSION_MINOR), 0))"

subsection \<open>Tasks\<close>

definition translated :: "(runtime \<times> int) option \<Rightarrow> (runtime \<times> int) option" where
  "translated r = map_option (\<lambda>(rt, err). (rt, if err \<noteq> 0 then translate_error err else 0)) r"

text \<open>The check at the beginning of the functions for the calling task.\<close>

definition calling_task :: "task_id \<Rightarrow> runtime \<Rightarrow> int" where
  "calling_task handle rt =
     (let task = worker_current_task rt
      in if task = NULL then ALPI_ERR_OUTSIDE_TASK else if task \<noteq> handle then ALPI_ERR_PARAMETER else 0)"

definition alpi_task_self :: "bool \<Rightarrow> runtime \<Rightarrow> task_id option \<times> int" where
  "alpi_task_self handle_ptr rt = (if \<not> handle_ptr then (None, ALPI_ERR_PARAMETER) else (Some (nosv_self rt), 0))"

definition alpi_task_block :: "env \<Rightarrow> task_id \<Rightarrow> runtime \<Rightarrow> (runtime \<times> int) option" where
  "alpi_task_block e handle rt =
     (if calling_task handle rt \<noteq> 0 then Some (rt, calling_task handle rt) else translated (nosv_pause e rt))"

definition alpi_task_unblock :: "callbacks \<Rightarrow> env \<Rightarrow> task_id \<Rightarrow> runtime \<Rightarrow> (runtime \<times> int) option" where
  "alpi_task_unblock cb e handle rt =
     (if handle = NULL then Some (rt, ALPI_ERR_PARAMETER) else translated (nosv_submit cb e handle NOSV_SUBMIT_UNLOCKED rt))"

definition alpi_task_events_increase :: "task_id \<Rightarrow> nat \<Rightarrow> runtime \<Rightarrow> (runtime \<times> int) option" where
  "alpi_task_events_increase handle increment rt =
     (if calling_task handle rt \<noteq> 0 then Some (rt, calling_task handle rt)
      else if increment = 0 then Some (rt, 0)
      else translated (Some (nosv_increase_event_counter increment rt)))"

definition alpi_task_events_test :: "task_id \<Rightarrow> bool \<Rightarrow> runtime \<Rightarrow> int option \<times> int" where
  "alpi_task_events_test handle has_events_ptr rt =
     (if calling_task handle rt \<noteq> 0 then (None, calling_task handle rt)
      else if \<not> has_events_ptr then (None, ALPI_ERR_PARAMETER) else (Some (nosv_has_events rt), 0))"

definition alpi_task_events_decrease :: "callbacks \<Rightarrow> env \<Rightarrow> task_id \<Rightarrow> nat \<Rightarrow> runtime \<Rightarrow> (runtime \<times> int) option" where
  "alpi_task_events_decrease cb e handle decrement rt =
     (if handle = NULL then Some (rt, ALPI_ERR_PARAMETER)
      else if decrement = 0 then Some (rt, 0)
      else translated (nosv_decrease_event_counter cb e handle decrement rt))"

definition alpi_task_waitfor_ns :: "env \<Rightarrow> nat \<Rightarrow> bool \<Rightarrow> runtime \<Rightarrow> (runtime \<times> nat option \<times> int) option" where
  "alpi_task_waitfor_ns e target_ns actual_ptr rt =
     do { (rt', actual, err) \<leftarrow>
            (if target_ns = 0
             then do { let (start_ns, rt1) = (if actual_ptr then read_clock rt else (0, rt));
                       (rt2, err) \<leftarrow> nosv_schedpoint e rt1;
                       let (now, rt3) = (if actual_ptr then read_clock rt2 else (0, rt2));
                       Some (rt3, if actual_ptr then Some (u64_sub now start_ns) else None, err) }
             else do { (rt1, actual, err) \<leftarrow> nosv_waitfor e target_ns rt;
                       Some (rt1, if actual_ptr \<and> err = NOSV_SUCCESS then Some actual else None, err) });
          Some (rt', actual, if err \<noteq> 0 then translate_error err else 0) }"

definition alpi_task_suspend_mode_set :: "task_id \<Rightarrow> nosv_suspend_mode \<Rightarrow> nat \<Rightarrow> runtime \<Rightarrow> (runtime \<times> int) option" where
  "alpi_task_suspend_mode_set handle suspend_mode args rt =
     (if calling_task handle rt \<noteq> 0 then Some (rt, calling_task handle rt) else translated (Some (nosv_set_suspend_mode suspend_mode args rt)))"

definition alpi_task_suspend :: "task_id \<Rightarrow> runtime \<Rightarrow> (runtime \<times> int) option" where
  "alpi_task_suspend handle rt =
     (if calling_task handle rt \<noteq> 0 then Some (rt, calling_task handle rt) else translated (Some (nosv_suspend rt)))"

subsection \<open>Attributes and CPUs\<close>

definition alpi_attr_create :: "bool \<Rightarrow> addr option \<times> int" where
  "alpi_attr_create attr_ptr = (if \<not> attr_ptr then (None, ALPI_ERR_PARAMETER) else (Some NULL, 0))"

definition alpi_attr_destroy :: int where "alpi_attr_destroy = 0"
definition alpi_attr_init :: int where "alpi_attr_init = 0"

definition alpi_attr_size :: "bool \<Rightarrow> nat option \<times> int" where
  "alpi_attr_size size_ptr = (if \<not> size_ptr then (None, ALPI_ERR_PARAMETER) else (Some 0, 0))"

definition alpi_cpu_result :: "bool \<Rightarrow> int option \<Rightarrow> (int option \<times> int) option" where
  "alpi_cpu_result ptr r =
     (if \<not> ptr then Some (None, ALPI_ERR_PARAMETER)
      else map_option (\<lambda>ret. if ret < 0 then (None, translate_error ret) else (Some ret, 0)) r)"

definition alpi_cpu_count :: "topology \<Rightarrow> bool \<Rightarrow> (int option \<times> int) option" where
  "alpi_cpu_count tp ptr = alpi_cpu_result ptr (nosv_get_num_domains tp TOPO_CPU)"

definition alpi_cpu_logical_id :: "topology \<Rightarrow> bool \<Rightarrow> runtime \<Rightarrow> (int option \<times> int) option" where
  "alpi_cpu_logical_id tp ptr rt =
     alpi_cpu_result ptr (nosv_get_current_logical_domain tp (rt_cpus rt) (worker_is_in_task rt) (nat (current_cpu rt)) TOPO_CPU)"

definition alpi_cpu_system_id :: "topology \<Rightarrow> bool \<Rightarrow> runtime \<Rightarrow> (int option \<times> int) option" where
  "alpi_cpu_system_id tp ptr rt =
     alpi_cpu_result ptr (nosv_get_current_system_domain tp (rt_cpus rt) (worker_is_in_task rt) (nat (current_cpu rt)) TOPO_CPU)"

subsection \<open>Spawned tasks\<close>

text \<open>The metadata of a spawned task: the functions and their arguments, as the user passed them.\<close>

record spawn_desc =
  sd_body :: addr
  sd_body_args :: addr
  sd_completion_callback :: addr
  sd_completion_args :: addr

definition SPAWN_DESC_SIZE :: nat where "SPAWN_DESC_SIZE = 32"

type_synonym alpi_state = "(task_globals \<times> runtime) \<times> (task_id \<rightharpoonup> spawn_desc)"

definition alpi_task_spawn :: "callbacks \<Rightarrow> env \<Rightarrow> addr \<Rightarrow> addr \<Rightarrow> addr \<Rightarrow> addr \<Rightarrow> alpi_state \<Rightarrow> (alpi_state \<times> task_id \<times> int) option" where
  "alpi_task_spawn cb e body body_args completion_callback completion_args = (\<lambda>(s, descs).
     (if body = NULL \<or> completion_callback = NULL then Some ((s, descs), NULL, ALPI_ERR_PARAMETER)
      else (let (s1, ty, err) = nosv_type_init True True False True 0 s
            in if err \<noteq> 0 then Some ((s1, descs), NULL, translate_error err)
               else (let (s2, task, err) = nosv_create True ty SPAWN_DESC_SIZE NOSV_CREATE_NONE s1
                     in if err \<noteq> 0 then Some ((s2, descs), NULL, translate_error err)
                        else (let desc = \<lparr> sd_body = body, sd_body_args = body_args, sd_completion_callback = completion_callback, sd_completion_args = completion_args \<rparr>
                              in do { (rt3, err) \<leftarrow> nosv_submit cb e task 0 (snd s2);
                                      if err = 0 then Some (((fst s2, rt3), descs(task \<mapsto> desc)), task, 0)
                                      else Some (((fst s2, rt3), descs), NULL, translate_error err) })))))"

text \<open>The callbacks of a spawned task: the function and the argument that they call. The descriptor is part of the task and goes with it.\<close>

definition spawn_run :: "task_id \<Rightarrow> (task_id \<rightharpoonup> spawn_desc) \<Rightarrow> (addr \<times> addr) option" where
  "spawn_run task descs = map_option (\<lambda>d. (sd_body d, sd_body_args d)) (descs task)"

definition spawn_completed :: "task_id \<Rightarrow> (task_id \<rightharpoonup> spawn_desc) \<Rightarrow> ((task_id \<rightharpoonup> spawn_desc) \<times> addr \<times> addr) option" where
  "spawn_completed task descs =
     do { d \<leftarrow> descs task;
          assert_then (nosv_destroy task = NOSV_SUCCESS \<and> nosv_type_destroy = NOSV_SUCCESS)
            (Some (descs(task := None), sd_completion_callback d, sd_completion_args d)) }"

subsection \<open>Properties\<close>



end
