(* ===== verification/Topology_Init.thy ===== *)
theory Topology_Init
  imports Topology "HOL-Library.Monad_Syntax"
begin

section \<open>Discovery of the topology (hardware/topology.c)\<close>

text \<open>
  \<open>topo_init\<close> builds the topology bottom up: the CPUs the process may use, the cores from the sibling lists of the kernel, the complex sets from the
  configuration, the NUMA nodes from the configuration or from libnuma, and the node. Every step enters the new domain as a parent of the CPUs below it and of the domains between.
  What the code reads (configuration, files of the kernel, libnuma, the affinity of the process) is the record \<open>topo_env\<close>; new memory has the contents \<open>te_junk\<close>.

  An abort, a failed assertion and an access outside an array are the value \<^term>\<open>None\<close>. \<open>s_to_l\<close> of a level that is not initialised is the empty list.
\<close>

record topo_env =
  te_binding :: string
  te_affinity :: "nat set"
  te_siblings :: "nat \<Rightarrow> string option"
  te_complex_sets :: "string list"
  te_numa_nodes :: "string list"
  te_numa_available :: bool
  te_numa_all_nodes :: "nat set"
  te_numa_max_node :: int
  te_node_to_cpus :: "nat \<Rightarrow> nat set option"
  te_node_of_cpu :: "nat \<Rightarrow> int"
  te_junk :: topo_domain

subsection \<open>Loops\<close>

text \<open>CPU_BITSET_FOREACH over a set that the body does not change, with a body that may abort.\<close>

definition foreach_cpu :: "cpu_bitset \<Rightarrow> (nat \<Rightarrow> 's \<Rightarrow> 's option) \<Rightarrow> 's \<Rightarrow> 's option" where
  "foreach_cpu bs body s = Option.bind (cpu_bitset_foreach (\<lambda>_. bs) (\<lambda>cpu st. Option.bind st (body cpu)) (Some s)) id"

fun for_each :: "'a list \<Rightarrow> ('a \<Rightarrow> 's \<Rightarrow> 's option) \<Rightarrow> 's \<Rightarrow> 's option" where
  "for_each [] body s = Some s"
| "for_each (x # xs) body s = do { s1 \<leftarrow> body x s; for_each xs body s1 }"

fun below_level :: "topo_level \<Rightarrow> topo_level" where
  "below_level TOPO_NODE = TOPO_NUMA"
| "below_level TOPO_NUMA = TOPO_COMPLEX_SET"
| "below_level TOPO_COMPLEX_SET = TOPO_CORE"
| "below_level _ = TOPO_CPU"

definition all_levels :: "topo_level list" where
  "all_levels = [TOPO_NODE, TOPO_NUMA, TOPO_COMPLEX_SET, TOPO_CORE, TOPO_CPU]"

text \<open>The levels are an enumeration, so that the topologies of the examples can be compared.\<close>

instantiation topo_level :: enum
begin

definition enum_topo_level :: "topo_level list" where
  "enum_topo_level = [TOPO_NODE, TOPO_NUMA, TOPO_COMPLEX_SET, TOPO_CORE, TOPO_CPU]"

definition enum_all_topo_level :: "(topo_level \<Rightarrow> bool) \<Rightarrow> bool" where
  "enum_all_topo_level P = list_all P Enum.enum"

definition enum_ex_topo_level :: "(topo_level \<Rightarrow> bool) \<Rightarrow> bool" where
  "enum_ex_topo_level P = list_ex P Enum.enum"

instance
proof
  have "l \<in> set Enum.enum" for l :: topo_level by (cases l) (simp_all add: enum_topo_level_def)
  then show all: "(UNIV :: topo_level set) = set Enum.enum" by auto
  show "distinct (Enum.enum :: topo_level list)" by (simp add: enum_topo_level_def)
  show "Enum.enum_all P = Ball UNIV P" for P :: "topo_level \<Rightarrow> bool" using all by (auto simp: enum_all_topo_level_def list_all_iff)
  show "Enum.enum_ex P = Bex UNIV P" for P :: "topo_level \<Rightarrow> bool" using all by (auto simp: enum_ex_topo_level_def list_ex_iff)
qed

end

subsection \<open>Domains\<close>

definition topology_get_logical_id_check :: "topology \<Rightarrow> topo_level \<Rightarrow> int \<Rightarrow> int option" where
  "topology_get_logical_id_check tp level system_id =
     do { lid \<leftarrow> topo_dom_lid tp level system_id; assert_then (lid \<ge> 0) (Some lid) }"

definition topology_init_domain_s_to_l :: "topo_level \<Rightarrow> int \<Rightarrow> topology \<Rightarrow> topology option" where
  "topology_init_domain_s_to_l level max_id tp =
     assert_then (s_to_l tp level = [])
       (Some (tp \<lparr> s_max := (s_max tp)(level := max_id), s_to_l := (s_to_l tp)(level := replicate (nat (max_id + 1)) (- 1)) \<rparr>))"

definition topology_domain_set_parent :: "topo_level \<Rightarrow> int \<Rightarrow> topo_domain \<Rightarrow> topo_domain option" where
  "topology_domain_set_parent parent_lvl parent_logical dm =
     assert_then (dom_level dm \<noteq> parent_lvl \<and> (parent_lvl < dom_level dm \<or> parent_logical = TOPO_ID_DISABLED))
       (Some (dm \<lparr> parents := (parents dm)(parent_lvl := parent_logical) \<rparr>))"

definition topology_domain_set_ids :: "int \<Rightarrow> int \<Rightarrow> topo_domain \<Rightarrow> topology \<Rightarrow> (topo_domain \<times> topology) option" where
  "topology_domain_set_ids system_id logical_id dm tp =
     (let l = dom_level dm
      in assert_then (0 \<le> system_id \<and> 0 \<le> logical_id \<and> logical_id \<le> topo_lvl_max tp l \<and> nat system_id < length (s_to_l tp l))
           (Some (dm \<lparr> dom_system_id := system_id, parents := (parents dm)(l := logical_id) \<rparr>,
                  tp \<lparr> s_to_l := (s_to_l tp)(l := (s_to_l tp l)[nat system_id := logical_id]) \<rparr>)))"

definition set_dom :: "topo_level \<Rightarrow> int \<Rightarrow> topo_domain \<Rightarrow> topology \<Rightarrow> topology" where
  "set_dom level logical_id dm tp =
     tp \<lparr> per_level_domains := (per_level_domains tp)(level := (per_level_domains tp level)[nat logical_id := dm]) \<rparr>"

definition topology_init_domain :: "topo_level \<Rightarrow> int \<Rightarrow> int \<Rightarrow> topology \<Rightarrow> topology option" where
  "topology_init_domain level system_id logical_id tp =
     (let valid = topo_lvl_sid_bitset tp level
      in assert_then (0 \<le> system_id \<and> nat system_id div 64 < length (bits valid))
           (do { let tp1 = tp \<lparr> per_level_valid_domains := (per_level_valid_domains tp)(level := cpu_bitset_set valid (nat system_id)) \<rparr>;
                 dm \<leftarrow> topo_dom_ptr tp1 level logical_id;
                 (dom1, tp2) \<leftarrow> topology_domain_set_ids system_id logical_id (dm \<lparr> dom_level := level \<rparr>) tp1;
                 dom2 \<leftarrow> for_each (filter (\<lambda>l. l < level) all_levels) (\<lambda>l. topology_domain_set_parent l TOPO_ID_UNSET) dom1;
                 dom3 \<leftarrow> for_each (filter (\<lambda>l. level < l) all_levels) (\<lambda>l. topology_domain_set_parent l TOPO_ID_DISABLED) dom2;
                 sids \<leftarrow> cpu_bitset_init (cpu_sid_mask dom3) NR_CPUS;
                 lids \<leftarrow> cpu_bitset_init (cpu_lid_mask dom3) NR_CPUS;
                 let dom4 = (if level = TOPO_CPU
                             then dom3 \<lparr> cpu_sid_mask := cpu_bitset_set sids (nat system_id), cpu_lid_mask := cpu_bitset_set lids (nat logical_id) \<rparr>
                             else dom3 \<lparr> cpu_sid_mask := sids, cpu_lid_mask := lids \<rparr>);
                 Some (set_dom level logical_id dom4 tp2) }))"

text \<open>The body of the loop over the levels from the CPU up to the parent.\<close>

definition update_level :: "cpumanager \<Rightarrow> nat \<Rightarrow> topo_level \<Rightarrow> int \<Rightarrow> topo_level \<Rightarrow> topology \<Rightarrow> topology option" where
  "update_level m cpu parent_level parent_logical curr_level tp =
     do { curr_lid \<leftarrow> cpu_parent_lid tp m cpu curr_level;
          dm \<leftarrow> topo_dom_ptr tp curr_level curr_lid;
          prev_logical_id \<leftarrow> topo_dom_parent_lid tp curr_level curr_lid parent_level;
          dm' \<leftarrow> assert_then (prev_logical_id = TOPO_ID_UNSET \<or> prev_logical_id = parent_logical)
                    (topology_domain_set_parent parent_level parent_logical dm);
          Some (set_dom curr_level curr_lid dm' tp) }"

definition topology_update_cpu_and_parents :: "cpumanager \<Rightarrow> nat \<Rightarrow> topo_level \<Rightarrow> int \<Rightarrow> topology \<Rightarrow> topology option" where
  "topology_update_cpu_and_parents m cpu_system parent_level parent_logical tp =
     assert_then (parent_level \<noteq> TOPO_CPU)
       (do { dm \<leftarrow> topo_dom_ptr tp parent_level parent_logical;
             cpu_logical \<leftarrow> topology_get_logical_id_check tp TOPO_CPU (int cpu_system);
             let tp1 = set_dom parent_level parent_logical
                         (dm \<lparr> cpu_sid_mask := cpu_bitset_set (cpu_sid_mask dm) cpu_system, cpu_lid_mask := cpu_bitset_set (cpu_lid_mask dm) (nat cpu_logical) \<rparr>) tp;
             for_each (rev (filter (\<lambda>l. parent_level < l) all_levels)) (update_level m (nat cpu_logical) parent_level parent_logical) tp1 })"

definition topology_init_level :: "topo_env \<Rightarrow> topo_level \<Rightarrow> int \<Rightarrow> nat \<Rightarrow> topology \<Rightarrow> topology option" where
  "topology_init_level e level max_id cnt tp =
     do { tp1 \<leftarrow> topology_init_domain_s_to_l level max_id tp;
          Some (tp1 \<lparr> per_level_domains := (per_level_domains tp1)(level := replicate cnt (te_junk e)),
                      per_level_count := (per_level_count tp1)(level := cnt) \<rparr>) }"

definition topology_truncate_level :: "topo_level \<Rightarrow> nat \<Rightarrow> topology \<Rightarrow> topology" where
  "topology_truncate_level level finalcnt tp =
     tp \<lparr> per_level_domains := (per_level_domains tp)(level := take finalcnt (per_level_domains tp level)),
          per_level_count := (per_level_count tp)(level := finalcnt) \<rparr>"

text \<open>The loop ends at the first CPU found.\<close>

definition bitset_has_valid_cpus :: "cpu_bitset \<Rightarrow> cpu_bitset \<Rightarrow> bool option" where
  "bitset_has_valid_cpus bitset valid_cpus = foreach_cpu bitset (\<lambda>cpu_system found. Some (found \<or> cpu_bitset_isset valid_cpus cpu_system)) False"

subsection \<open>Levels from the configuration\<close>

text \<open>The entries of the configuration, with the index as the system identifier; then, if asked for, one domain for every domain of the level below that has no parent yet. The state is
  the topology, the next logical identifier and the number of visited CPUs.\<close>

definition add_cpus :: "cpumanager \<Rightarrow> topo_level \<Rightarrow> nat \<Rightarrow> cpu_bitset \<Rightarrow> topology \<times> nat \<Rightarrow> (topology \<times> nat) option" where
  "add_cpus m level logical_id cpus =
     foreach_cpu cpus (\<lambda>cpu_system (tp, visited).
       do { tp1 \<leftarrow> topology_update_cpu_and_parents m cpu_system level (int logical_id) tp; Some (tp1, visited + 1) })"

definition config_entry :: "topo_env \<Rightarrow> cpumanager \<Rightarrow> topo_level \<Rightarrow> cpu_bitset \<Rightarrow> nat \<times> string \<Rightarrow> topology \<times> nat \<times> nat \<Rightarrow> (topology \<times> nat \<times> nat) option" where
  "config_entry e m level valid_cpus = (\<lambda>(system_id, bitset_str) (tp, logical_id, visited).
     do { (r, cpus) \<leftarrow> cpu_bitset_parse_str (cpu_sid_mask (te_junk e)) bitset_str;
          overlap \<leftarrow> assert_then (r = 0) (cpu_bitset_overlap cpus valid_cpus);
          if \<not> overlap \<or> cpu_bitset_count cpus = 0 then Some (tp, logical_id, visited)
          else do { tp1 \<leftarrow> topology_init_domain level (int system_id) (int logical_id) tp;
                    (tp2, visited') \<leftarrow> add_cpus m level logical_id cpus (tp1, visited);
                    Some (tp2, logical_id + 1, visited') } })"

definition remaining_entry :: "cpumanager \<Rightarrow> topo_level \<Rightarrow> nat \<Rightarrow> topology \<times> nat \<times> nat \<times> nat \<Rightarrow> (topology \<times> nat \<times> nat \<times> nat) option" where
  "remaining_entry m level i = (\<lambda>(tp, system_id, logical_id, visited).
     do { parent_id \<leftarrow> topo_dom_parent_lid tp (below_level level) (int i) level;
          if parent_id \<noteq> TOPO_ID_UNSET then Some (tp, system_id, logical_id, visited)
          else do { tp1 \<leftarrow> topology_init_domain level (int system_id) (int logical_id) tp;
                    domain_mask \<leftarrow> topo_dom_cpu_sid_bitset tp1 (below_level level) (int i);
                    (tp2, visited') \<leftarrow> add_cpus m level logical_id domain_mask (tp1, visited);
                    Some (tp2, system_id + 1, logical_id + 1, visited') } })"

definition topology_init_from_config :: "topo_env \<Rightarrow> cpumanager \<Rightarrow> topo_level \<Rightarrow> cpu_bitset \<Rightarrow> string list \<Rightarrow> bool \<Rightarrow> topology \<Rightarrow> topology option" where
  "topology_init_from_config e m level valid_cpus config create_remaining tp =
     do { prev_level_count \<leftarrow> topo_lvl_cnt tp (below_level level);
          tp1 \<leftarrow> topology_init_level e level (int prev_level_count - 1) prev_level_count tp;
          (tp2, logical_id, visited) \<leftarrow> for_each (enumerate 0 config) (config_entry e m level valid_cpus) (tp1, 0, 0);
          (tp3, _, logical_id', visited') \<leftarrow>
            (if create_remaining
             then do { n \<leftarrow> topo_lvl_cnt tp2 (below_level level);
                       for_each [0..<n] (remaining_entry m level) (tp2, length config, logical_id, visited) }
             else Some (tp2, length config, logical_id, visited));
          cpus \<leftarrow> topo_lvl_cnt tp3 TOPO_CPU;
          assert_then (visited' = cpus) (Some (topology_truncate_level level logical_id' tp3)) }"

subsection \<open>Cores\<close>

text \<open>\<open>fgets\<close> with a buffer of \<open>n\<close> bytes.\<close>

definition fgets :: "nat \<Rightarrow> string \<Rightarrow> string" where
  "fgets n s = take (n - 1) (takeWhile (\<lambda>c. c \<noteq> CHR 0x0A) s @ take 1 (dropWhile (\<lambda>c. c \<noteq> CHR 0x0A) s))"

definition topology_get_core_valid_cpus :: "topo_env \<Rightarrow> nat \<Rightarrow> cpu_bitset \<Rightarrow> (int \<times> cpu_bitset) option" where
  "topology_get_core_valid_cpus e cpu_system valid_cpus =
     do { content \<leftarrow> te_siblings e cpu_system;
          (r, core_cpus) \<leftarrow> assert_then (content \<noteq> []) (cpu_bitset_parse_str (cpu_sid_mask (te_junk e)) (fgets 40 content));
          core_cpus' \<leftarrow> assert_then (r = 0) (cpu_bitset_and core_cpus valid_cpus);
          Some (cpu_bitset_ffs core_cpus', core_cpus') }"

definition core_of_cpu :: "topo_env \<Rightarrow> cpumanager \<Rightarrow> cpu_bitset \<Rightarrow> nat \<Rightarrow> topology \<times> cpu_bitset \<times> nat \<Rightarrow> (topology \<times> cpu_bitset \<times> nat) option" where
  "core_of_cpu e m valid_cpus cpu_system = (\<lambda>(tp, visited_cpus, core_logical).
     if cpu_bitset_isset visited_cpus cpu_system then Some (tp, visited_cpus, core_logical)
     else do { (core_system, core_valid_cpus) \<leftarrow> topology_get_core_valid_cpus e cpu_system valid_cpus;
               tp1 \<leftarrow> topology_init_domain TOPO_CORE core_system (int core_logical) tp;
               (tp2, visited') \<leftarrow> foreach_cpu core_valid_cpus (\<lambda>cpu (tp, visited).
                   do { tp' \<leftarrow> topology_update_cpu_and_parents m cpu TOPO_CORE (int core_logical) tp; Some (tp', cpu_bitset_set visited cpu) })
                 (tp1, visited_cpus);
               Some (tp2, visited', core_logical + 1) })"

definition topology_init_cores :: "topo_env \<Rightarrow> cpumanager \<Rightarrow> cpu_bitset \<Rightarrow> topology \<Rightarrow> topology option" where
  "topology_init_cores e m valid_cpus tp =
     do { valid_cores \<leftarrow> cpu_bitset_init (topo_lvl_sid_bitset tp TOPO_CORE) NR_CPUS;
          visited_cpus \<leftarrow> cpu_bitset_init (cpu_sid_mask (te_junk e)) NR_CPUS;
          tp1 \<leftarrow> topology_init_level e TOPO_CORE (int NR_CPUS) NR_CPUS
                    (tp \<lparr> per_level_valid_domains := (per_level_valid_domains tp)(TOPO_CORE := valid_cores) \<rparr>);
          (tp2, _, core_logical) \<leftarrow> foreach_cpu valid_cpus (core_of_cpu e m valid_cpus) (tp1, visited_cpus, 0);
          let cnt = cpu_bitset_count (topo_lvl_sid_bitset tp2 TOPO_CORE);
          assert_then (core_logical = cnt) (Some (topology_truncate_level TOPO_CORE cnt tp2)) }"

definition topology_init_node :: "topo_env \<Rightarrow> cpumanager \<Rightarrow> cpu_bitset \<Rightarrow> topology \<Rightarrow> topology option" where
  "topology_init_node e m valid_cpus tp =
     do { tp1 \<leftarrow> topology_init_level e TOPO_NODE 0 1 tp;
          let tp2 = topology_truncate_level TOPO_NODE 1 tp1;
          valid \<leftarrow> cpu_bitset_init (topo_lvl_sid_bitset tp2 TOPO_NODE) NR_CPUS;
          tp3 \<leftarrow> topology_init_domain TOPO_NODE 0 0 (tp2 \<lparr> per_level_valid_domains := (per_level_valid_domains tp2)(TOPO_NODE := valid) \<rparr>);
          foreach_cpu valid_cpus (\<lambda>cpu. topology_update_cpu_and_parents m cpu TOPO_NODE 0) tp3 }"

subsection \<open>NUMA nodes\<close>

definition topology_check_numa_is_valid_libnuma :: "topo_env \<Rightarrow> nat \<Rightarrow> cpu_bitset \<Rightarrow> bool option" where
  "topology_check_numa_is_valid_libnuma e numa_system valid_cpus =
     do { cpus_in_numa \<leftarrow> te_node_to_cpus e numa_system;
          foreach_cpu valid_cpus (\<lambda>cpu found. Some (found \<or> cpu \<in> cpus_in_numa)) False }"

definition libnuma_node :: "topo_env \<Rightarrow> cpu_bitset \<Rightarrow> nat \<Rightarrow> topology \<times> nat \<times> nat \<Rightarrow> (topology \<times> nat \<times> nat) option" where
  "libnuma_node e valid_cpus i = (\<lambda>(tp, logical_id, invalid_numas).
     if i \<notin> te_numa_all_nodes e then Some (tp, logical_id, invalid_numas)
     else do { v \<leftarrow> topology_check_numa_is_valid_libnuma e i valid_cpus;
               if v then do { tp1 \<leftarrow> topology_init_domain TOPO_NUMA (int i) (int logical_id) tp; Some (tp1, logical_id + 1, invalid_numas) }
               else Some (tp, logical_id, invalid_numas + 1) })"

definition libnuma_cpu :: "topo_env \<Rightarrow> cpumanager \<Rightarrow> nat \<Rightarrow> nat \<Rightarrow> topology \<times> cpu_bitset \<Rightarrow> (topology \<times> cpu_bitset) option" where
  "libnuma_cpu e m numa_count cpu = (\<lambda>(tp, visited_cpus).
     (let numa_system = te_node_of_cpu e cpu
      in do { numa_logical \<leftarrow> assert_then (0 \<le> numa_system) (topology_get_logical_id_check tp TOPO_NUMA numa_system);
              tp1 \<leftarrow> assert_then (numa_logical < int numa_count \<and> \<not> cpu_bitset_isset visited_cpus cpu)
                       (topology_update_cpu_and_parents m cpu TOPO_NUMA numa_logical tp);
              Some (tp1, cpu_bitset_set visited_cpus cpu) }))"

definition topology_init_numa_from_libnuma :: "topo_env \<Rightarrow> cpumanager \<Rightarrow> cpu_bitset \<Rightarrow> topology \<Rightarrow> topology option" where
  "topology_init_numa_from_libnuma e m valid_cpus tp =
     (let libnuma_count = card (te_numa_all_nodes e); numa_max = te_numa_max_node e
      in do { tp1 \<leftarrow> topology_init_domain_s_to_l TOPO_NUMA numa_max tp;
              valid \<leftarrow> assert_then (0 \<le> numa_max) (cpu_bitset_init (topo_lvl_sid_bitset tp1 TOPO_NUMA) NR_CPUS);
              (tp2, numa_count, invalid_numas) \<leftarrow> for_each [0..<nat numa_max + 1] (libnuma_node e valid_cpus)
                (tp1 \<lparr> per_level_valid_domains := (per_level_valid_domains tp1)(TOPO_NUMA := valid),
                       per_level_domains := (per_level_domains tp1)(TOPO_NUMA := replicate libnuma_count (te_junk e)) \<rparr>, 0, 0);
              visited_cpus \<leftarrow> cpu_bitset_init (cpu_sid_mask (te_junk e)) NR_CPUS;
              (tp3, visited') \<leftarrow> foreach_cpu valid_cpus (libnuma_cpu e m numa_count) (topology_truncate_level TOPO_NUMA numa_count tp2, visited_cpus);
              differ \<leftarrow> cpu_bitset_cmp visited' valid_cpus;
              assert_then (\<not> differ \<and> cpu_bitset_count (topo_lvl_sid_bitset tp3 TOPO_NUMA) + invalid_numas = libnuma_count) (Some tp3) })"

text \<open>\<open>topology_init_numa_from_none\<close> counts the CPUs as the entries of a configuration and passes one string, the list of the CPUs, where \<open>topology_init_from_config\<close> expects
  an array of strings. Reading the first entry takes characters of that string for a pointer.\<close>

definition topology_init_numa_from_none :: "topo_env \<Rightarrow> cpumanager \<Rightarrow> cpu_bitset \<Rightarrow> topology \<Rightarrow> topology option" where
  "topology_init_numa_from_none e m valid_cpus tp =
     (let n = cpu_bitset_count valid_cpus
      in assert_then (n = 0) (topology_init_from_config e m TOPO_NUMA valid_cpus [] False tp))"

definition topology_init_numa :: "topo_env \<Rightarrow> cpumanager \<Rightarrow> cpu_bitset \<Rightarrow> topology \<Rightarrow> topology option" where
  "topology_init_numa e m valid_cpus tp =
     (if te_numa_nodes e \<noteq> [] then topology_init_from_config e m TOPO_NUMA valid_cpus (te_numa_nodes e) False tp
      else if te_numa_available e then topology_init_numa_from_libnuma e m valid_cpus tp
      else topology_init_numa_from_none e m valid_cpus tp)"

subsection \<open>CPUs\<close>

definition CPU_SETSIZE :: nat where "CPU_SETSIZE = 1024"

definition hex_digit :: "char \<Rightarrow> nat option" where
  "hex_digit c =
     (let n = of_char c :: nat
      in if 48 \<le> n \<and> n \<le> 57 then Some (n - 48) else if 97 \<le> n \<and> n \<le> 102 then Some (n - 97 + 10)
         else if 65 \<le> n \<and> n \<le> 70 then Some (n - 65 + 10) else None)"

text \<open>The digits from the last one on; CPU_SET ignores a CPU outside the set of the C library.\<close>

fun binding_digits :: "string \<Rightarrow> nat \<Rightarrow> nat set \<Rightarrow> nat set option" where
  "binding_digits [] b s = Some s"
| "binding_digits (c # cs) b s =
     do { number \<leftarrow> hex_digit c;
          binding_digits cs (b + 4) (fold (\<lambda>j s. if bit number j \<and> b + j < CPU_SETSIZE then insert (b + j) s else s) [0..<4] s) }"

definition binding_cpus :: "topo_env \<Rightarrow> string \<Rightarrow> nat set option" where
  "binding_cpus e binding =
     (if binding = ''inherit'' then assert_then (te_affinity e \<noteq> {}) (Some (te_affinity e))
      else case binding of
        c0 # c1 # digits \<Rightarrow> if c0 \<noteq> CHR ''0'' \<or> (c1 \<noteq> CHR ''x'' \<and> c1 \<noteq> CHR ''X'') then None else binding_digits (rev digits) 0 {}
      | _ \<Rightarrow> None)"

definition cpus_get_binding_mask :: "topo_env \<Rightarrow> string \<Rightarrow> cpu_bitset option" where
  "cpus_get_binding_mask e binding =
     do { cpus \<leftarrow> binding_cpus e binding;
          bs0 \<leftarrow> assert_then (card cpus \<le> NR_CPUS) (cpu_bitset_init (cpu_sid_mask (te_junk e)) NR_CPUS);
          let bs = fold (\<lambda>i b. if i \<in> cpus then cpu_bitset_set b i else b) [0..<NR_CPUS] bs0;
          assert_then (card cpus = cpu_bitset_count bs) (Some bs) }"

definition init_cpu :: "nat \<Rightarrow> topology \<times> cpumanager \<times> nat \<Rightarrow> (topology \<times> cpumanager \<times> nat) option" where
  "init_cpu cpu_system = (\<lambda>(tp, m, cpu_logical).
     do { tp1 \<leftarrow> topology_init_domain TOPO_CPU (int cpu_system) (int cpu_logical) tp;
          Some (tp1, m \<lparr> cpu_domain := (cpu_domain m)[cpu_logical := cpu_logical], pids_cpus := (pids_cpus m)[cpu_logical := - 1] \<rparr>, cpu_logical + 1) })"

definition topology_init_cpus :: "topo_env \<Rightarrow> topology \<Rightarrow> (topology \<times> cpumanager \<times> cpu_bitset) option" where
  "topology_init_cpus e tp =
     do { valid_cpus \<leftarrow> cpus_get_binding_mask e (te_binding e);
          let cnt = cpu_bitset_count valid_cpus;
          tp1 \<leftarrow> assert_then (0 < cnt \<and> cnt \<le> NR_CPUS \<and> 0 \<le> cpu_bitset_fls valid_cpus) (topology_init_domain_s_to_l TOPO_CPU (int NR_CPUS) tp);
          let tp2 = tp1 \<lparr> per_level_domains := (per_level_domains tp1)(TOPO_CPU := replicate cnt (te_junk e)),
                          per_level_count := (per_level_count tp1)(TOPO_CPU := cnt),
                          per_level_valid_domains := (per_level_valid_domains tp1)(TOPO_CPU := valid_cpus) \<rparr>;
          (tp3, m, _) \<leftarrow> foreach_cpu valid_cpus init_cpu (tp2, \<lparr> pids_cpus = replicate cnt 0, cpu_domain = replicate cnt 0 \<rparr>, 0);
          Some (tp3, m, valid_cpus) }"

subsection \<open>Checks and initialisation\<close>

definition topology_assert_parent_is_set :: "topology \<Rightarrow> topo_level \<Rightarrow> topo_level \<Rightarrow> bool" where
  "topology_assert_parent_is_set tp child parent =
     list_all (\<lambda>i. 0 \<le> parents (topo_lvl_doms tp child ! i) parent) [0..<per_level_count tp child]"

definition topology_assert_parents_set :: "topology \<Rightarrow> bool" where
  "topology_assert_parents_set tp =
     list_all (\<lambda>child. list_all (topology_assert_parent_is_set tp child) (filter (\<lambda>p. p < child) all_levels)) (tl all_levels)"

text \<open>The CPUs of a domain have the same parent: the parent found last, and whether the loop has not aborted.\<close>

definition same_parent :: "topology \<Rightarrow> cpumanager \<Rightarrow> topo_level \<Rightarrow> nat \<Rightarrow> int \<Rightarrow> int option" where
  "same_parent tp m parent cpu last_parent_lid =
     do { parent_lid \<leftarrow> cpu_parent_lid tp m cpu parent;
          assert_then (0 \<le> parent_lid \<and> (last_parent_lid = TOPO_ID_UNSET \<or> last_parent_lid = parent_lid)) (Some parent_lid) }"

definition topology_assert_siblings_have_same_parent :: "topology \<Rightarrow> cpumanager \<Rightarrow> unit option" where
  "topology_assert_siblings_have_same_parent tp m =
     for_each [TOPO_CORE, TOPO_COMPLEX_SET, TOPO_NUMA] (\<lambda>level _.
       for_each (rev (filter (\<lambda>p. TOPO_NUMA \<le> p \<and> p < level) all_levels)) (\<lambda>parent _.
         for_each [0..<per_level_count tp level] (\<lambda>i _.
           map_option (\<lambda>_. ()) (foreach_cpu (cpu_lid_mask (topo_lvl_doms tp level ! i)) (same_parent tp m parent) TOPO_ID_UNSET)) ()) ()) ()"

definition topo_init :: "topo_env \<Rightarrow> bool \<Rightarrow> (topology \<times> cpumanager) option \<Rightarrow> topology \<Rightarrow> (topology \<times> cpumanager) option" where
  "topo_init e initialize shared memory =
     (if \<not> initialize then shared
      else do { let tp0 = memory \<lparr> s_to_l := (\<lambda>_. []), s_max := (\<lambda>_. TOPO_ID_UNSET) \<rparr>;
                (tp1, m, valid_cpus) \<leftarrow> topology_init_cpus e tp0;
                tp2 \<leftarrow> topology_init_cores e m valid_cpus tp1;
                tp3 \<leftarrow> topology_init_from_config e m TOPO_COMPLEX_SET valid_cpus (te_complex_sets e) True tp2;
                tp4 \<leftarrow> topology_init_numa e m valid_cpus tp3;
                tp5 \<leftarrow> topology_init_node e m valid_cpus tp4;
                assert_then (topology_assert_parents_set tp5)
                  (do { _ \<leftarrow> topology_assert_siblings_have_same_parent tp5 m; Some (tp5, m) }) })"

subsection \<open>The mask of all CPUs and the default affinity\<close>

text \<open>The last part of \<open>cpu_get_all_mask\<close>: the string for the CPUs that can be used, the least significant digit last.\<close>

definition round_up_div :: "nat \<Rightarrow> nat \<Rightarrow> nat" where
  "round_up_div x y = (x + y - 1) div y"

definition mask_digit :: "nat set \<Rightarrow> nat \<Rightarrow> nat \<Rightarrow> char" where
  "mask_digit cpus maxcpu i =
     (let tmp = sum_list (map (\<lambda>cpu. if cpu \<in> cpus then 2 ^ (cpu mod 4) else (0 :: nat)) (filter (\<lambda>cpu. cpu \<le> maxcpu) [i * 4..<(i + 1) * 4]))
      in if tmp < 10 then char_of (48 + tmp) else char_of (97 - 10 + tmp))"

definition all_mask_string :: "nat set \<Rightarrow> string option" where
  "all_mask_string cpus =
     assert_then (cpus \<noteq> {})
       (let maxcpu = Max cpus; num_digits = round_up_div maxcpu 4
        in Some (''0x'' @ rev (map (mask_digit cpus maxcpu) [0..<num_digits])))"

text \<open>\<open>topo_get_default_aff\<close>: the level and the number of the affinity, or nothing when the CPUs are on several nodes.\<close>

fun single_node :: "topo_env \<Rightarrow> nat list \<Rightarrow> int \<Rightarrow> int option" where
  "single_node e [] selected_node = Some selected_node"
| "single_node e (i # is) selected_node =
     (let node_of_cpu = te_node_of_cpu e i; sel = (if selected_node < 0 then node_of_cpu else selected_node)
      in if sel \<noteq> node_of_cpu then None else single_node e is sel)"

definition topo_get_default_aff :: "topo_env \<Rightarrow> nat \<Rightarrow> (bool \<times> int) option option" where
  "topo_get_default_aff e max_cpus =
     (let aff = te_affinity e; seen = filter (\<lambda>i. i \<in> aff) [0..<max_cpus - 1]
      in if card aff = 1
         then (let i = (case seen of [] \<Rightarrow> max_cpus - 1 | i # _ \<Rightarrow> i) in assert_then (i \<in> aff) (Some (Some (True, int i))))
         else case single_node e seen (- 1) of
           None \<Rightarrow> Some None
         | Some selected_node \<Rightarrow> assert_then (0 \<le> selected_node) (Some (Some (False, selected_node))))"

end
