(* ===== verification/Topology_Init_Ok.thy ===== *)
theory Topology_Init_Ok
  imports Topology_Init
begin

section \<open>The discovered topology is well-formed\<close>

text \<open>
  The theorems about the scheduler and the workers assume a well-formed topology (\<open>topo_ok\<close>). Here it is shown that \<open>topo_init\<close>, when it returns, has built one, whatever the configuration,
  the kernel and libnuma said. \<open>lvl_from tp l n k\<close> is the invariant of a level under construction: the first \<open>n\<close> domains are initialised, and no system identifier from \<open>k\<close> on is in use;
  \<open>cpu_inv\<close> is the invariant of the CPUs while the levels above them are built.
\<close>

subsection \<open>Loops\<close>

lemma fold_bind: "fold (\<lambda>x st. Option.bind st (body x)) xs st = Option.bind st (for_each xs body)"
  by (induction xs arbitrary: st) (auto split: bind_splits)

lemma foreach_cpu_members:
  assumes "cpu_bitset_inv bs"
  shows "foreach_cpu bs body s = for_each (cpu_members bs) body s"
proof -
  have "cpu_bitset_foreach (\<lambda>_. bs) (\<lambda>cpu st. Option.bind st (body cpu)) (Some s) = Some (fold (\<lambda>cpu st. Option.bind st (body cpu)) (cpu_members bs) (Some s))"
    unfolding cpu_bitset_foreach_def
    by (rule cb.foreach_fold [where I = "\<lambda>_. True" and get = "\<lambda>_. bs"]) (use assms in \<open>auto simp: cpu_bitset_inv_def\<close>)
  then show ?thesis by (simp add: foreach_cpu_def fold_bind)
qed

lemma for_each_inv:
  "for_each xs body s = Some s' \<Longrightarrow> P s \<Longrightarrow> (\<And>x s s1. x \<in> set xs \<Longrightarrow> P s \<Longrightarrow> body x s = Some s1 \<Longrightarrow> P s1) \<Longrightarrow> P s'"
proof (induction xs arbitrary: s)
  case (Cons x xs)
  obtain s1 where s1: "body x s = Some s1" "for_each xs body s1 = Some s'" using Cons.prems(1) by (auto simp: bind_eq_Some_conv)
  have "P s1" using Cons.prems(2,3) s1(1) by auto
  then show ?case using Cons.IH [OF s1(2)] Cons.prems(3) by auto
qed simp

lemma foreach_loop_inv:
  "foreach_loop after n get (\<lambda>cpu st. Option.bind st (body cpu)) c (Some s) = Some (Some s') \<Longrightarrow> P s \<Longrightarrow>
    (\<And>x s s1. P s \<Longrightarrow> body x s = Some s1 \<Longrightarrow> P s1) \<Longrightarrow> P s'"
proof (induction n arbitrary: c s)
  case (Suc n)
  have none: "foreach_loop after k get (\<lambda>cpu st. Option.bind st (body cpu)) c' None \<noteq> Some (Some s')" for k c'
    by (induction k arbitrary: c') (auto simp: Let_def)
  show ?case using Suc.prems none by (cases "body (nat c) s") (auto simp: Let_def split: if_splits intro: Suc.IH)
qed (auto split: if_splits)

lemma foreach_cpu_inv:
  assumes "foreach_cpu bs body s = Some s'" "P s" "\<And>x s s1. P s \<Longrightarrow> body x s = Some s1 \<Longrightarrow> P s1"
  shows "P s'"
proof -
  have "foreach_loop cpu_bitset_ffs_at NR_CPUS (\<lambda>_. bs) (\<lambda>cpu st. Option.bind st (body cpu)) (cpu_bitset_ffs bs) (Some s) = Some (Some s')"
    using assms(1) by (auto simp: foreach_cpu_def cpu_bitset_foreach_def bind_eq_Some_conv)
  then show ?thesis using assms(2,3) by (rule foreach_loop_inv)
qed

lemma for_each_index:
  "for_each xs body s = Some s' \<Longrightarrow> P 0 s \<Longrightarrow> (\<And>k s s1. k < length xs \<Longrightarrow> P k s \<Longrightarrow> body (xs ! k) s = Some s1 \<Longrightarrow> P (Suc k) s1) \<Longrightarrow>
    P (length xs) s'"
proof (induction xs arbitrary: s P)
  case (Cons x xs)
  obtain s1 where s1: "body x s = Some s1" "for_each xs body s1 = Some s'" using Cons.prems(1) by (auto simp: bind_eq_Some_conv)
  have "P (Suc 0) s1" by (rule Cons.prems(3) [of 0 s]) (use Cons.prems(2) s1(1) in auto)
  then have "P (Suc (length xs)) s'"
    by (rule Cons.IH [OF s1(2), of "\<lambda>k. P (Suc k)"]) (rule Cons.prems(3), auto)
  then show ?case by simp
qed simp

subsection \<open>What the steps change\<close>

text \<open>The relation of \<open>topology_update_cpu_and_parents\<close>: identifiers stay, only parents at one level change, and they change to one value.\<close>

definition reparent :: "topo_level \<Rightarrow> int \<Rightarrow> topology \<Rightarrow> topology \<Rightarrow> bool" where
  "reparent pl x tp tp' \<longleftrightarrow> s_to_l tp' = s_to_l tp \<and> s_max tp' = s_max tp \<and> per_level_count tp' = per_level_count tp \<and>
     per_level_valid_domains tp' = per_level_valid_domains tp \<and>
     (\<forall>l. length (per_level_domains tp' l) = length (per_level_domains tp l) \<and>
       (\<forall>i<length (per_level_domains tp l).
          let d = per_level_domains tp l ! i; d' = per_level_domains tp' l ! i
          in dom_level d' = dom_level d \<and> dom_system_id d' = dom_system_id d \<and>
             (\<forall>k. parents d' k = parents d k \<or> (k = pl \<and> k \<noteq> dom_level d \<and> parents d' k = x))))"

lemma reparent_refl [simp]: "reparent pl x tp tp"
  by (simp add: reparent_def)

lemma reparent_trans: "reparent pl x a b \<Longrightarrow> reparent pl x b c \<Longrightarrow> reparent pl x a c"
  unfolding reparent_def Let_def by (intro conjI allI impI; simp; metis)

lemma reparent_set_dom:
  assumes "topo_dom_ptr tp l i = Some d" "dom_level d' = dom_level d" "dom_system_id d' = dom_system_id d"
    "\<forall>k. parents d' k = parents d k \<or> (k = pl \<and> k \<noteq> dom_level d \<and> parents d' k = x)"
  shows "reparent pl x tp (set_dom l i d' tp)"
  using assms by (auto simp: reparent_def set_dom_def topo_dom_ptr_def topo_lvl_doms_def Let_def nth_list_update)

lemma reparent_level: "update_level m cpu pl x l tp = Some tp' \<Longrightarrow> reparent pl x tp tp'"
  by (auto simp: update_level_def bind_eq_Some_conv topology_domain_set_parent_def intro!: reparent_set_dom split: if_splits)

lemma reparent_update: "topology_update_cpu_and_parents m cpu pl x tp = Some tp' \<Longrightarrow> reparent pl x tp tp'"
proof -
  assume u: "topology_update_cpu_and_parents m cpu pl x tp = Some tp'"
  then obtain d lid where d: "topo_dom_ptr tp pl x = Some d"
    and loop: "for_each (rev (filter (\<lambda>l. pl < l) all_levels)) (update_level m (nat lid) pl x)
      (set_dom pl x (d \<lparr> cpu_sid_mask := cpu_bitset_set (cpu_sid_mask d) cpu, cpu_lid_mask := cpu_bitset_set (cpu_lid_mask d) (nat lid) \<rparr>) tp) = Some tp'"
    by (auto simp: topology_update_cpu_and_parents_def bind_eq_Some_conv Let_def)
  show ?thesis
    by (rule for_each_inv [OF loop, of "reparent pl x tp"]) (auto intro!: reparent_set_dom [OF d] intro: reparent_trans reparent_level)
qed

lemma reparent_add_cpus:
  assumes "add_cpus m l lid cpus (tp, v) = Some (tp', v')"
  shows "reparent l (int lid) tp tp'"
proof -
  have "reparent l (int lid) tp (fst (tp', v'))"
    by (rule foreach_cpu_inv [OF assms [unfolded add_cpus_def], of "\<lambda>s. reparent l (int lid) tp (fst s)"])
      (auto simp: bind_eq_Some_conv dest!: reparent_update intro: reparent_trans)
  then show ?thesis by simp
qed

text \<open>What \<open>topology_init_domain\<close> does.\<close>

lemma set_parents_effect:
  "for_each ls (\<lambda>k. topology_domain_set_parent k v) d = Some d' \<Longrightarrow>
    dom_level d' = dom_level d \<and> dom_system_id d' = dom_system_id d \<and> (\<forall>k. parents d' k = (if k \<in> set ls then v else parents d k))"
  by (induction ls arbitrary: d) (auto simp: bind_eq_Some_conv topology_domain_set_parent_def)

lemma all_levels_mem [simp]: "l \<in> set all_levels"
  by (cases l) (simp_all add: all_levels_def)

lemma init_domain_effect:
  assumes "topology_init_domain l sid lid tp = Some tp'"
  shows "0 \<le> sid \<and> 0 \<le> lid \<and> lid \<le> s_max tp l \<and> nat sid < length (s_to_l tp l) \<and> nat lid < length (per_level_domains tp l) \<and>
    s_max tp' = s_max tp \<and> per_level_count tp' = per_level_count tp \<and> s_to_l tp' = (s_to_l tp)(l := (s_to_l tp l)[nat sid := lid]) \<and>
    (\<exists>d. per_level_domains tp' = (per_level_domains tp)(l := (per_level_domains tp l)[nat lid := d]) \<and> dom_level d = l \<and> dom_system_id d = sid \<and>
      parents d l = lid \<and> (\<forall>k. k < l \<longrightarrow> parents d k = TOPO_ID_UNSET))"
proof -
  let ?tp1 = "tp \<lparr> per_level_valid_domains := (per_level_valid_domains tp)(l := cpu_bitset_set (topo_lvl_sid_bitset tp l) (nat sid)) \<rparr>"
  obtain d0 d1 tp2 d2 d3 d4 where d0: "topo_dom_ptr ?tp1 l lid = Some d0"
    and d1: "topology_domain_set_ids sid lid (d0 \<lparr> dom_level := l \<rparr>) ?tp1 = Some (d1, tp2)"
    and d2: "for_each (filter (\<lambda>k. k < l) all_levels) (\<lambda>k. topology_domain_set_parent k TOPO_ID_UNSET) d1 = Some d2"
    and d3: "for_each (filter (\<lambda>k. l < k) all_levels) (\<lambda>k. topology_domain_set_parent k TOPO_ID_DISABLED) d2 = Some d3"
    and d4: "tp' = set_dom l lid d4 tp2" "dom_level d4 = dom_level d3" "dom_system_id d4 = dom_system_id d3" "parents d4 = parents d3"
    using assms by (auto simp: topology_init_domain_def Let_def bind_eq_Some_conv split: if_splits)
  have e1: "dom_level d1 = l" "dom_system_id d1 = sid" "parents d1 l = lid" "0 \<le> sid" "0 \<le> lid" "lid \<le> s_max tp l" "nat sid < length (s_to_l tp l)"
    "tp2 = ?tp1 \<lparr> s_to_l := (s_to_l tp)(l := (s_to_l tp l)[nat sid := lid]) \<rparr>"
    using d1 by (auto simp: topology_domain_set_ids_def Let_def topo_lvl_max_def)
  have "nat lid < length (per_level_domains tp l)" using d0 by (auto simp: topo_dom_ptr_def topo_lvl_doms_def)
  moreover have "dom_level d4 = l" "dom_system_id d4 = sid" "parents d4 l = lid" "k < l \<Longrightarrow> parents d4 k = TOPO_ID_UNSET" for k
    using set_parents_effect [OF d2] set_parents_effect [OF d3] e1(1-3) d4(2-4) by (auto simp: all_levels_mem)
  ultimately show ?thesis using e1(4-8) d4(1) by (auto simp: set_dom_def)
qed

subsection \<open>A level under construction\<close>

definition lvl_from :: "topology \<Rightarrow> topo_level \<Rightarrow> nat \<Rightarrow> nat \<Rightarrow> bool" where
  "lvl_from tp l n k \<longleftrightarrow> n \<le> length (per_level_domains tp l) \<and> 0 \<le> s_max tp l \<and> length (s_to_l tp l) = Suc (nat (s_max tp l)) \<and>
     (\<forall>i<n. let d = per_level_domains tp l ! i
        in dom_level d = l \<and> parents d l = int i \<and> 0 \<le> dom_system_id d \<and> nat (dom_system_id d) < k \<and> dom_system_id d \<le> s_max tp l \<and>
           s_to_l tp l ! nat (dom_system_id d) = int i) \<and>
     (\<forall>s < length (s_to_l tp l). s_to_l tp l ! s = - 1 \<or>
        (0 \<le> s_to_l tp l ! s \<and> nat (s_to_l tp l ! s) < n \<and> dom_system_id (per_level_domains tp l ! nat (s_to_l tp l ! s)) = int s))"

lemma lvl_from_mono: "lvl_from tp l n k \<Longrightarrow> k \<le> k' \<Longrightarrow> lvl_from tp l n k'"
  unfolding lvl_from_def Let_def by (meson order_less_le_trans)

lemma lvl_from_start:
  "0 \<le> s_max tp l \<Longrightarrow> s_to_l tp l = replicate (nat (s_max tp l + 1)) (- 1) \<Longrightarrow> lvl_from tp l 0 k"
  by (auto simp: lvl_from_def nat_add_distrib nth_Cons' simp del: replicate_Suc)

text \<open>What the construction of the other levels keeps of a level; \<open>n\<close> is the number of NUMA nodes.\<close>

definition kept :: "topo_level \<Rightarrow> nat \<Rightarrow> topology \<Rightarrow> topology \<Rightarrow> bool" where
  "kept l n tp tp' \<longleftrightarrow> s_to_l tp' l = s_to_l tp l \<and> s_max tp' l = s_max tp l \<and> per_level_count tp' l = per_level_count tp l \<and>
     length (per_level_domains tp' l) = length (per_level_domains tp l) \<and>
     (\<forall>i<length (per_level_domains tp l).
        let d = per_level_domains tp l ! i; d' = per_level_domains tp' l ! i
        in dom_level d' = dom_level d \<and> dom_system_id d' = dom_system_id d \<and> (dom_level d = l \<longrightarrow> parents d' l = parents d l) \<and>
           (parents d' TOPO_NUMA = parents d TOPO_NUMA \<or> (0 \<le> parents d' TOPO_NUMA \<and> nat (parents d' TOPO_NUMA) < n)))"

lemma kept_same:
  "per_level_domains tp' l = per_level_domains tp l \<Longrightarrow> s_to_l tp' l = s_to_l tp l \<Longrightarrow> s_max tp' l = s_max tp l \<Longrightarrow>
    per_level_count tp' l = per_level_count tp l \<Longrightarrow> kept l n tp tp'"
  by (simp add: kept_def)

lemma kept_refl [simp]: "kept l n tp tp"
  by (simp add: kept_def)

lemma kept_mono: "kept l n tp tp' \<Longrightarrow> n \<le> n' \<Longrightarrow> kept l n' tp tp'"
  unfolding kept_def Let_def by (meson order_less_le_trans)

lemma kept_trans: "kept l n a b \<Longrightarrow> kept l n b c \<Longrightarrow> kept l n a c"
  unfolding kept_def Let_def by (intro conjI allI impI; simp; metis)

lemma kept_reparent:
  assumes "reparent pl x tp tp'" "pl = TOPO_NUMA \<longrightarrow> 0 \<le> x \<and> nat x < n"
  shows "kept l n tp tp'"
  unfolding kept_def Let_def
proof (intro conjI allI impI)
  fix i assume "i < length (per_level_domains tp l)"
  then have d: "dom_level (per_level_domains tp' l ! i) = dom_level (per_level_domains tp l ! i)"
    "dom_system_id (per_level_domains tp' l ! i) = dom_system_id (per_level_domains tp l ! i)"
    "parents (per_level_domains tp' l ! i) k = parents (per_level_domains tp l ! i) k \<or>
      (k = pl \<and> k \<noteq> dom_level (per_level_domains tp l ! i) \<and> parents (per_level_domains tp' l ! i) k = x)" for k
    using assms(1) by (auto simp: reparent_def Let_def)
  show "dom_level (per_level_domains tp' l ! i) = dom_level (per_level_domains tp l ! i)"
    "dom_system_id (per_level_domains tp' l ! i) = dom_system_id (per_level_domains tp l ! i)" by (fact d)+
  show "parents (per_level_domains tp' l ! i) l = parents (per_level_domains tp l ! i) l" if "dom_level (per_level_domains tp l ! i) = l"
    using d(3) [of l] that by auto
  show "parents (per_level_domains tp' l ! i) TOPO_NUMA = parents (per_level_domains tp l ! i) TOPO_NUMA \<or>
      0 \<le> parents (per_level_domains tp' l ! i) TOPO_NUMA \<and> nat (parents (per_level_domains tp' l ! i) TOPO_NUMA) < n"
    using d(3) [of TOPO_NUMA] assms(2) by auto
qed (use assms(1) in \<open>auto simp: reparent_def\<close>)

lemma kept_init_domain: "topology_init_domain l' sid lid tp = Some tp' \<Longrightarrow> l' \<noteq> l \<Longrightarrow> kept l n tp tp'"
  by (rule kept_same) (auto dest: init_domain_effect)

lemma kept_init_level: "topology_init_level e l' max_id cnt tp = Some tp' \<Longrightarrow> l' \<noteq> l \<Longrightarrow> kept l n tp tp'"
  by (rule kept_same) (auto simp: topology_init_level_def topology_init_domain_s_to_l_def bind_eq_Some_conv)

lemma kept_truncate: "l' \<noteq> l \<Longrightarrow> kept l n tp (topology_truncate_level l' c tp)"
  by (rule kept_same) (auto simp: topology_truncate_level_def)

lemma kept_valid: "kept l n tp (tp \<lparr> per_level_valid_domains := v \<rparr>)"
  by (rule kept_same) auto

lemma lvl_from_kept:
  assumes "kept l c tp tp'" "lvl_from tp l n k"
  shows "lvl_from tp' l n k"
proof -
  let ?D = "per_level_domains tp l" and ?D' = "per_level_domains tp' l"
  have r: "length ?D' = length ?D" "s_to_l tp' l = s_to_l tp l" "s_max tp' l = s_max tp l" using assms(1) by (auto simp: kept_def)
  have d: "dom_level (?D' ! i) = dom_level (?D ! i)" "dom_system_id (?D' ! i) = dom_system_id (?D ! i)"
    "dom_level (?D ! i) = l \<Longrightarrow> parents (?D' ! i) l = parents (?D ! i) l" if "i < length ?D" for i
    using assms(1) that by (auto simp: kept_def Let_def)
  have n: "n \<le> length ?D" using assms(2) by (simp add: lvl_from_def)
  show ?thesis unfolding lvl_from_def Let_def
  proof (intro conjI allI impI)
    fix i assume "i < n"
    then have i: "i < length ?D" "dom_level (?D ! i) = l" "parents (?D ! i) l = int i" using assms(2) n by (auto simp: lvl_from_def Let_def)
    show "dom_level (?D' ! i) = l" "parents (?D' ! i) l = int i" using d [OF i(1)] i(2,3) by auto
    show "0 \<le> dom_system_id (?D' ! i)" "nat (dom_system_id (?D' ! i)) < k" "dom_system_id (?D' ! i) \<le> s_max tp' l"
      "s_to_l tp' l ! nat (dom_system_id (?D' ! i)) = int i"
      using assms(2) \<open>i < n\<close> d(2) [OF i(1)] r by (auto simp: lvl_from_def Let_def)
  next
    fix s assume "s < length (s_to_l tp' l)"
    then have "s_to_l tp l ! s = - 1 \<or> (0 \<le> s_to_l tp l ! s \<and> nat (s_to_l tp l ! s) < n \<and> dom_system_id (?D ! nat (s_to_l tp l ! s)) = int s)"
      using assms(2) r(2) by (simp add: lvl_from_def)
    then show "s_to_l tp' l ! s = - 1 \<or>
        (0 \<le> s_to_l tp' l ! s \<and> nat (s_to_l tp' l ! s) < n \<and> dom_system_id (?D' ! nat (s_to_l tp' l ! s)) = int s)"
      using d(2) n r(2) by auto
  qed (use assms(2) r in \<open>auto simp: lvl_from_def\<close>)
qed

lemma lvl_from_init:
  assumes "topology_init_domain l sid (int n) tp = Some tp'" "lvl_from tp l n k" "k \<le> nat sid"
  shows "lvl_from tp' l (Suc n) (Suc (nat sid))"
proof -
  let ?D = "per_level_domains tp l"
  obtain d where e: "0 \<le> sid" "nat sid < length (s_to_l tp l)" "n < length ?D" "s_max tp' = s_max tp" "s_to_l tp' l = (s_to_l tp l)[nat sid := int n]"
    "per_level_domains tp' l = ?D[n := d]" "dom_level d = l" "dom_system_id d = sid" "parents d l = int n"
    using init_domain_effect [OF assms(1)] by auto
  have fresh: "nat (dom_system_id (?D ! i)) \<noteq> nat sid" if "i < n" for i using assms(2,3) that by (auto simp: lvl_from_def Let_def)
  have len: "length (s_to_l tp l) = Suc (nat (s_max tp l))" "0 \<le> s_max tp l" using assms(2) by (auto simp: lvl_from_def)
  show ?thesis unfolding lvl_from_def Let_def
  proof (intro conjI allI impI)
    fix i assume i: "i < Suc n"
    let ?d = "per_level_domains tp' l ! i"
    have "dom_level ?d = l \<and> parents ?d l = int i \<and> 0 \<le> dom_system_id ?d \<and> nat (dom_system_id ?d) < Suc (nat sid) \<and>
      dom_system_id ?d \<le> s_max tp' l \<and> s_to_l tp' l ! nat (dom_system_id ?d) = int i"
    proof (cases "i = n")
      case True
      then show ?thesis using e(1-3) e(7-9) len by (simp add: e(4-6))
    next
      case False
      then have "i < n" using i by simp
      then have "dom_level (?D ! i) = l \<and> parents (?D ! i) l = int i \<and> 0 \<le> dom_system_id (?D ! i) \<and> nat (dom_system_id (?D ! i)) < k \<and>
        dom_system_id (?D ! i) \<le> s_max tp l \<and> s_to_l tp l ! nat (dom_system_id (?D ! i)) = int i"
        using assms(2) unfolding lvl_from_def Let_def by blast
      then show ?thesis using False fresh [OF \<open>i < n\<close>] assms(3) by (simp add: e(4-6) nth_list_update)
    qed
    then show "dom_level ?d = l" "parents ?d l = int i" "0 \<le> dom_system_id ?d" "nat (dom_system_id ?d) < Suc (nat sid)"
      "dom_system_id ?d \<le> s_max tp' l" "s_to_l tp' l ! nat (dom_system_id ?d) = int i" by blast+
  next
    fix s assume "s < length (s_to_l tp' l)"
    then show "s_to_l tp' l ! s = - 1 \<or>
        (0 \<le> s_to_l tp' l ! s \<and> nat (s_to_l tp' l ! s) < Suc n \<and> dom_system_id (per_level_domains tp' l ! nat (s_to_l tp' l ! s)) = int s)"
      using e assms(2) by (auto simp: lvl_from_def nth_list_update dest!: spec [of _ s])
  qed (use e len in auto)
qed

lemma lvl_from_ok:
  assumes "lvl_from tp l n k" "1 \<le> n" "per_level_count tp l = n" "length (per_level_domains tp l) = n"
  shows "level_ok tp l"
  using assms by (auto simp: lvl_from_def level_ok_def Let_def)

definition built :: "topology \<Rightarrow> topo_level \<Rightarrow> nat \<Rightarrow> bool" where
  "built tp l n \<longleftrightarrow> (\<exists>k. lvl_from tp l n k) \<and> per_level_count tp l = n \<and> length (per_level_domains tp l) = n"

lemma built_kept: "built tp l n \<Longrightarrow> kept l c tp tp' \<Longrightarrow> built tp' l n"
  unfolding built_def by (metis lvl_from_kept kept_def)

lemma built_truncate:
  assumes "lvl_from tp l n k"
  shows "built (topology_truncate_level l n tp) l n"
proof -
  let ?D = "per_level_domains tp l"
  have n: "n \<le> length ?D" using assms by (simp add: lvl_from_def)
  have "lvl_from (topology_truncate_level l n tp) l n k"
    using assms unfolding lvl_from_def topology_truncate_level_def Let_def by simp (metis nth_take)
  then show ?thesis using n by (auto simp: built_def topology_truncate_level_def)
qed

lemma init_level_from:
  assumes "topology_init_level e l max_id cnt tp = Some tp'" "0 \<le> max_id"
  shows "lvl_from tp' l 0 k"
  by (rule lvl_from_start) (use assms in \<open>auto simp: topology_init_level_def topology_init_domain_s_to_l_def bind_eq_Some_conv\<close>)

subsection \<open>The phases\<close>

lemma core_of_cpu_kept:
  assumes "core_of_cpu e m valid_cpus cpu (tp, vis, lid) = Some (tp', vis', lid')" "l \<noteq> TOPO_CORE"
  shows "kept l n tp tp'"
proof (cases "cpu_bitset_isset vis cpu")
  case False
  let ?body = "\<lambda>cpu (tp, visited). do { tp' \<leftarrow> topology_update_cpu_and_parents m cpu TOPO_CORE (int lid) tp; Some (tp', cpu_bitset_set visited cpu) }"
  obtain cs cv tpb where b: "topology_init_domain TOPO_CORE cs (int lid) tp = Some tpb" and loop: "foreach_cpu cv ?body (tpb, vis) = Some (tp', vis')"
    using assms(1) False by (auto simp: core_of_cpu_def bind_eq_Some_conv)
  have "reparent TOPO_CORE (int lid) tpb (fst (tp', vis'))"
    by (rule foreach_cpu_inv [OF loop, of "\<lambda>s. reparent TOPO_CORE (int lid) tpb (fst s)"])
      (auto simp: bind_eq_Some_conv dest!: reparent_update intro: reparent_trans)
  then have "kept l n tpb tp'" by (intro kept_reparent) auto
  then show ?thesis using kept_init_domain [OF b] assms(2) kept_trans by metis
qed (use assms(1) in \<open>simp add: core_of_cpu_def\<close>)

lemma init_cores_kept:
  assumes "topology_init_cores e m valid_cpus tp = Some tp'" "l \<noteq> TOPO_CORE"
  shows "kept l n tp tp'"
proof -
  obtain valid_cores visited tp1 tp2 v' c c' where
    tp1: "topology_init_level e TOPO_CORE (int NR_CPUS) NR_CPUS
      (tp \<lparr> per_level_valid_domains := (per_level_valid_domains tp)(TOPO_CORE := valid_cores) \<rparr>) = Some tp1"
    and tp2: "foreach_cpu valid_cpus (core_of_cpu e m valid_cpus) (tp1, visited, 0) = Some (tp2, v', c)"
    and tp': "tp' = topology_truncate_level TOPO_CORE c' tp2"
    using assms(1) by (auto simp: topology_init_cores_def bind_eq_Some_conv Let_def)
  have "kept l n tp tp1" using kept_init_level [OF tp1] kept_valid kept_trans assms(2) by metis
  moreover have "kept l n tp1 (fst (tp2, v', c))"
    by (rule foreach_cpu_inv [OF tp2, of "\<lambda>s. kept l n tp1 (fst s)"]) (auto dest!: core_of_cpu_kept [OF _ assms(2)] intro: kept_trans)
  ultimately show ?thesis using tp' kept_truncate [of TOPO_CORE l] assms(2) kept_trans by (metis fst_conv)
qed

text \<open>A level from the configuration: the system identifiers grow with the logical ones.\<close>

definition numas :: "topo_level \<Rightarrow> nat \<Rightarrow> nat" where
  "numas l n = (if l = TOPO_NUMA then n else 0)"

lemma numas_mono: "n \<le> n' \<Longrightarrow> numas l n \<le> numas l n'"
  by (simp add: numas_def)

lemma config_entry_step:
  assumes "config_entry e m l valid_cpus (k, str) (tp, lid, v) = Some (tp', lid', v')" "lvl_from tp l lid k" "\<forall>l'. l' \<noteq> l \<longrightarrow> kept l' (numas l lid) tp0 tp"
  shows "lvl_from tp' l lid' (Suc k) \<and> (\<forall>l'. l' \<noteq> l \<longrightarrow> kept l' (numas l lid') tp0 tp')"
proof -
  consider (skip) "tp' = tp" "lid' = lid"
    | (new) tp1 cpus where "topology_init_domain l (int k) (int lid) tp = Some tp1" "add_cpus m l lid cpus (tp1, v) = Some (tp', v')" "lid' = Suc lid"
    using assms(1) by (auto simp: config_entry_def bind_eq_Some_conv split: if_splits)
  then show ?thesis
  proof cases
    case skip
    then show ?thesis using assms(2,3) lvl_from_mono by (metis le_add2 plus_1_eq_Suc)
  next
    case new
    have "lvl_from tp1 l (Suc lid) (Suc k)" using lvl_from_init [OF new(1) assms(2)] by simp
    moreover have "kept l' (numas l (Suc lid)) tp1 tp'" for l' by (rule kept_reparent [OF reparent_add_cpus [OF new(2)]]) (simp add: numas_def)
    ultimately show ?thesis using new assms(3) lvl_from_kept kept_init_domain [OF new(1)] kept_trans kept_mono [OF _ numas_mono] by (metis le_add2 plus_1_eq_Suc)
  qed
qed

lemma remaining_entry_step:
  assumes "remaining_entry m l i (tp, k, lid, v) = Some (tp', k', lid', v')" "lvl_from tp l lid k" "\<forall>l'. l' \<noteq> l \<longrightarrow> kept l' (numas l lid) tp0 tp"
  shows "lvl_from tp' l lid' k' \<and> (\<forall>l'. l' \<noteq> l \<longrightarrow> kept l' (numas l lid') tp0 tp')"
proof -
  consider (skip) "tp' = tp" "lid' = lid" "k' = k"
    | (new) tp1 cpus where "topology_init_domain l (int k) (int lid) tp = Some tp1" "add_cpus m l lid cpus (tp1, v) = Some (tp', v')" "lid' = Suc lid" "k' = Suc k"
    using assms(1) by (auto simp: remaining_entry_def bind_eq_Some_conv split: if_splits)
  then show ?thesis
  proof cases
    case new
    have "lvl_from tp1 l (Suc lid) (Suc k)" using lvl_from_init [OF new(1) assms(2)] by simp
    moreover have "kept l' (numas l (Suc lid)) tp1 tp'" for l' by (rule kept_reparent [OF reparent_add_cpus [OF new(2)]]) (simp add: numas_def)
    ultimately show ?thesis using new assms(3) lvl_from_kept kept_init_domain [OF new(1)] kept_trans kept_mono [OF _ numas_mono] by (metis le_add2 plus_1_eq_Suc)
  qed (use assms(2,3) in simp)
qed

lemma init_from_config_built:
  assumes "topology_init_from_config e m l valid_cpus config create_remaining tp = Some tp'"
  shows "\<exists>n. built tp' l n \<and> (\<forall>l'. l' \<noteq> l \<longrightarrow> kept l' (numas l n) tp tp')"
proof -
  obtain pc tp1 tp2 lid v tp3 k lid' v' where
    tp1: "1 \<le> pc" "topology_init_level e l (int pc - 1) pc tp = Some tp1"
    and tp2: "for_each (enumerate 0 config) (config_entry e m l valid_cpus) (tp1, 0, 0) = Some (tp2, lid, v)"
    and rest: "(if create_remaining then do { n \<leftarrow> topo_lvl_cnt tp2 (below_level l); for_each [0..<n] (remaining_entry m l) (tp2, length config, lid, v) }
      else Some (tp2, length config, lid, v)) = Some (tp3, k, lid', v')"
    and tp': "tp' = topology_truncate_level l lid' tp3"
    using assms unfolding topology_init_from_config_def topo_lvl_cnt_def by (auto simp: bind_eq_Some_conv)
  have tp3: "(tp3, k, lid', v') = (tp2, length config, lid, v) \<or>
      (\<exists>n. for_each [0..<n] (remaining_entry m l) (tp2, length config, lid, v) = Some (tp3, k, lid', v'))"
    using rest by (auto simp: bind_eq_Some_conv split: if_splits)
  define P where "P = (\<lambda>s k lid. lvl_from s l lid k \<and> (\<forall>l'. l' \<noteq> l \<longrightarrow> kept l' (numas l lid) tp s))"
  have 1: "P tp1 0 0" using init_level_from [OF tp1(2)] kept_init_level [OF tp1(2)] tp1(1) by (simp add: P_def)
  have "P (fst (tp2, lid, v)) (length (enumerate 0 config)) (fst (snd (tp2, lid, v)))"
    by (rule for_each_index [OF tp2, of "\<lambda>k s. P (fst s) k (fst (snd s))"])
      (use 1 in \<open>auto simp: P_def nth_enumerate_eq dest!: config_entry_step\<close>)
  then have 2: "P tp2 (length config) lid" by simp
  have "P tp3 k lid'" using tp3
  proof (elim disjE exE)
    fix n assume loop: "for_each [0..<n] (remaining_entry m l) (tp2, length config, lid, v) = Some (tp3, k, lid', v')"
    have "P (fst (tp3, k, lid', v')) (fst (snd (tp3, k, lid', v'))) (fst (snd (snd (tp3, k, lid', v'))))"
      by (rule for_each_inv [OF loop, of "\<lambda>s. P (fst s) (fst (snd s)) (fst (snd (snd s)))"])
        (use 2 in \<open>auto simp: P_def dest!: remaining_entry_step\<close>)
    then show ?thesis by simp
  qed (use 2 in simp)
  then have "lvl_from tp3 l lid' k" "l' \<noteq> l \<Longrightarrow> kept l' (numas l lid') tp tp3" for l' by (auto simp: P_def)
  then show ?thesis unfolding tp' by (intro exI [of _ lid'] conjI allI impI) (auto intro: built_truncate kept_trans [OF _ kept_truncate])
qed

lemma libnuma_node_step:
  assumes "libnuma_node e valid_cpus i (tp, lid, bad) = Some (tp', lid', bad')" "lvl_from tp TOPO_NUMA lid i" "\<forall>l. l \<noteq> TOPO_NUMA \<longrightarrow> kept l 0 tp0 tp"
  shows "lvl_from tp' TOPO_NUMA lid' (Suc i) \<and> (\<forall>l. l \<noteq> TOPO_NUMA \<longrightarrow> kept l 0 tp0 tp')"
proof -
  have "tp' = tp \<and> lid' = lid \<or> topology_init_domain TOPO_NUMA (int i) (int lid) tp = Some tp' \<and> lid' = Suc lid"
  proof (cases "i \<in> te_numa_all_nodes e")
    case True
    then obtain v where "topology_check_numa_is_valid_libnuma e i valid_cpus = Some v" using assms(1) by (auto simp: libnuma_node_def bind_eq_Some_conv)
    then show ?thesis using assms(1) True by (cases v) (auto simp: libnuma_node_def bind_eq_Some_conv)
  qed (use assms(1) in \<open>simp add: libnuma_node_def\<close>)
  then consider (skip) "tp' = tp" "lid' = lid" | (new) "topology_init_domain TOPO_NUMA (int i) (int lid) tp = Some tp'" "lid' = Suc lid" by blast
  then show ?thesis
  proof cases
    case skip
    then show ?thesis using assms(2,3) lvl_from_mono by (metis le_add2 plus_1_eq_Suc)
  next
    case new
    then show ?thesis using lvl_from_init [OF new(1) assms(2)] assms(3) kept_init_domain [OF new(1)] kept_trans by (metis nat_int order_refl)
  qed
qed

lemma libnuma_cpu_kept:
  assumes "libnuma_cpu e m n cpu (tp, vis) = Some (tp', vis')"
  shows "kept l n tp tp'"
proof -
  obtain x where "topology_update_cpu_and_parents m cpu TOPO_NUMA x tp = Some tp'" "0 \<le> x" "x < int n"
    using assms by (auto simp: libnuma_cpu_def topology_get_logical_id_check_def Let_def bind_eq_Some_conv)
  then show ?thesis by (intro kept_reparent) (auto dest: reparent_update)
qed

lemma init_numa_built:
  assumes "topology_init_numa_from_libnuma e m valid_cpus tp = Some tp'"
  shows "\<exists>n. built tp' TOPO_NUMA n \<and> (\<forall>l. l \<noteq> TOPO_NUMA \<longrightarrow> kept l n tp tp')"
proof -
  obtain tp1 valid tp2 n bad vis vis' where
    tp1: "topology_init_domain_s_to_l TOPO_NUMA (te_numa_max_node e) tp = Some tp1" "0 \<le> te_numa_max_node e"
    and tp2: "for_each [0..<nat (te_numa_max_node e) + 1] (libnuma_node e valid_cpus)
      (tp1 \<lparr> per_level_valid_domains := (per_level_valid_domains tp1)(TOPO_NUMA := valid),
             per_level_domains := (per_level_domains tp1)(TOPO_NUMA := replicate (card (te_numa_all_nodes e)) (te_junk e)) \<rparr>, 0, 0) = Some (tp2, n, bad)"
    and tp': "foreach_cpu valid_cpus (libnuma_cpu e m n) (topology_truncate_level TOPO_NUMA n tp2, vis) = Some (tp', vis')"
    using assms by (auto simp: topology_init_numa_from_libnuma_def Let_def bind_eq_Some_conv)
  define P where "P = (\<lambda>s k lid. lvl_from s TOPO_NUMA lid k \<and> (\<forall>l. l \<noteq> TOPO_NUMA \<longrightarrow> kept l 0 tp s))"
  have "P (tp1 \<lparr> per_level_valid_domains := (per_level_valid_domains tp1)(TOPO_NUMA := valid),
      per_level_domains := (per_level_domains tp1)(TOPO_NUMA := replicate (card (te_numa_all_nodes e)) (te_junk e)) \<rparr>) 0 0"
    using tp1 by (auto simp: P_def topology_init_domain_s_to_l_def intro!: lvl_from_start kept_same)
  then have "P (fst (tp2, n, bad)) (length [0..<nat (te_numa_max_node e) + 1]) (fst (snd (tp2, n, bad)))"
    by (intro for_each_index [OF tp2, of "\<lambda>k s. P (fst s) k (fst (snd s))"]) (auto simp: P_def simp del: upt_Suc dest!: libnuma_node_step)
  then have "built (topology_truncate_level TOPO_NUMA n tp2) TOPO_NUMA n" "l \<noteq> TOPO_NUMA \<Longrightarrow> kept l n tp (topology_truncate_level TOPO_NUMA n tp2)" for l
    unfolding P_def using built_truncate kept_truncate kept_trans kept_mono by (metis fst_conv snd_conv, metis fst_conv snd_conv le0)
  moreover have "kept l n (topology_truncate_level TOPO_NUMA n tp2) (fst (tp', vis'))" for l
    by (rule foreach_cpu_inv [OF tp', of "\<lambda>s. kept l n (topology_truncate_level TOPO_NUMA n tp2) (fst s)"]) (auto dest!: libnuma_cpu_kept intro: kept_trans)
  ultimately show ?thesis using built_kept kept_trans by (metis fst_conv)
qed

lemma init_node_kept:
  assumes "topology_init_node e m valid_cpus tp = Some tp'" "l \<noteq> TOPO_NODE"
  shows "kept l n tp tp'"
proof -
  obtain tp1 valid tp3 where tp1: "topology_init_level e TOPO_NODE 0 1 tp = Some tp1"
    and tp3: "topology_init_domain TOPO_NODE 0 0 (topology_truncate_level TOPO_NODE 1 tp1
        \<lparr> per_level_valid_domains := (per_level_valid_domains (topology_truncate_level TOPO_NODE 1 tp1))(TOPO_NODE := valid) \<rparr>) = Some tp3"
    and loop: "foreach_cpu valid_cpus (\<lambda>cpu. topology_update_cpu_and_parents m cpu TOPO_NODE 0) tp3 = Some tp'"
    using assms(1) by (auto simp: topology_init_node_def Let_def bind_eq_Some_conv)
  have "kept l n tp tp3" using kept_init_level [OF tp1] kept_truncate kept_valid kept_init_domain [OF tp3] assms(2) kept_trans by metis
  moreover have "reparent TOPO_NODE 0 tp3 tp'"
    by (rule foreach_cpu_inv [OF loop, of "reparent TOPO_NODE 0 tp3"]) (auto dest!: reparent_update intro: reparent_trans)
  then have "kept l n tp3 tp'" by (rule kept_reparent) simp
  ultimately show ?thesis by (rule kept_trans)
qed

text \<open>The CPUs: the domains are the CPUs of the binding in ascending order.\<close>

lemma fill_mask:
  assumes "cpu_bitset_inv bs" "n \<le> bs_size bs" "cpu_members bs = []"
  shows "let b = fold (\<lambda>i b. if i \<in> cpus then cpu_bitset_set b i else b) [0..<n] bs
    in cpu_bitset_inv b \<and> bs_size b = bs_size bs \<and> set (cpu_members b) = cpus \<inter> {..<n}"
  using assms(2)
proof (induction n)
  case (Suc n)
  let ?b = "fold (\<lambda>i b. if i \<in> cpus then cpu_bitset_set b i else b) [0..<n] bs"
  have "cpu_bitset_inv ?b" "bs_size ?b = bs_size bs" "set (cpu_members ?b) = cpus \<inter> {..<n}" using Suc by (auto simp: Let_def)
  then show ?case using Suc.prems cb.add_law [of ?b n] by (auto simp: Let_def lessThan_Suc)
qed (use assms in \<open>simp add: Let_def\<close>)

lemma binding_mask_members:
  assumes "cpus_get_binding_mask e binding = Some bs" "length (bits (cpu_sid_mask (te_junk e))) = bitset_words NR_CPUS" "0 < cpu_bitset_count bs"
  shows "cpu_bitset_inv bs \<and> (\<exists>cpus. binding_cpus e binding = Some cpus \<and> finite cpus \<and> cpu_members bs = sorted_list_of_set cpus)"
proof -
  obtain cpus bs0 where c: "binding_cpus e binding = Some cpus" "cpu_bitset_init (cpu_sid_mask (te_junk e)) NR_CPUS = Some bs0"
    "bs = fold (\<lambda>i b. if i \<in> cpus then cpu_bitset_set b i else b) [0..<NR_CPUS] bs0" "card cpus = cpu_bitset_count bs"
    using assms(1) by (auto simp: cpus_get_binding_mask_def Let_def bind_eq_Some_conv)
  have b0: "cpu_bitset_inv bs0" "cpu_members bs0 = []" "bs_size bs0 = NR_CPUS" using cpu_bitset_init_ok [OF assms(2) _ c(2)] by auto
  have b: "cpu_bitset_inv bs" "set (cpu_members bs) = cpus \<inter> {..<NR_CPUS}"
    using fill_mask [OF b0(1) _ b0(2), of NR_CPUS cpus] b0(3) c(3) by (auto simp: Let_def)
  have card: "card cpus = card (cpus \<inter> {..<NR_CPUS})" using c(4) cb.count_card [OF b(1)] b(2) by simp
  have fin: "finite cpus" using c(4) assms(3) card_ge_0_finite by metis
  have "cpus \<inter> {..<NR_CPUS} = cpus" using card fin by (intro card_subset_eq) auto
  then have "cpu_members bs = sorted_list_of_set cpus"
    using b(2) fin cb.members_sorted [of bs] by (intro strict_sorted_equal) auto
  then show ?thesis using c(1) fin b(1) by blast
qed

definition cpus_upto :: "nat list \<Rightarrow> nat \<Rightarrow> topology \<times> cpumanager \<times> nat \<Rightarrow> bool" where
  "cpus_upto xs i = (\<lambda>(tp, m, lid). lid = i \<and> lvl_from tp TOPO_CPU i (if i = 0 then 0 else Suc (xs ! (i - 1))) \<and>
     length (per_level_domains tp TOPO_CPU) = length xs \<and> per_level_count tp TOPO_CPU = length xs \<and>
     length (cpu_domain m) = length xs \<and> length (pids_cpus m) = length xs \<and>
     (\<forall>j<i. dom_system_id (per_level_domains tp TOPO_CPU ! j) = int (xs ! j) \<and> parents (per_level_domains tp TOPO_CPU ! j) TOPO_NUMA = TOPO_ID_UNSET \<and>
        cpu_domain m ! j = j \<and> pids_cpus m ! j = - 1))"

lemma init_cpu_step:
  assumes "init_cpu (xs ! i) s = Some s'" "cpus_upto xs i s" "i < length xs" "sorted_wrt (<) xs"
  shows "cpus_upto xs (Suc i) s'"
proof -
  obtain tp m tp' where s: "s = (tp, m, i)" and i: "topology_init_domain TOPO_CPU (int (xs ! i)) (int i) tp = Some tp'"
    and s': "s' = (tp', m \<lparr> cpu_domain := (cpu_domain m)[i := i], pids_cpus := (pids_cpus m)[i := - 1] \<rparr>, Suc i)"
    using assms(1,2) by (cases s) (auto simp: init_cpu_def cpus_upto_def bind_eq_Some_conv)
  let ?D = "per_level_domains tp TOPO_CPU"
  have u: "lvl_from tp TOPO_CPU i (if i = 0 then 0 else Suc (xs ! (i - 1)))" "length ?D = length xs" "per_level_count tp TOPO_CPU = length xs"
    "length (cpu_domain m) = length xs" "length (pids_cpus m) = length xs"
    "\<And>j. j < i \<Longrightarrow> dom_system_id (?D ! j) = int (xs ! j) \<and> parents (?D ! j) TOPO_NUMA = TOPO_ID_UNSET \<and> cpu_domain m ! j = j \<and> pids_cpus m ! j = - 1"
    using assms(2) by (auto simp: cpus_upto_def s)
  have "(if i = 0 then 0 else Suc (xs ! (i - 1))) \<le> nat (int (xs ! i))"
    using assms(3) sorted_wrt_nth_less [OF assms(4), of "i - 1" i] by auto
  from lvl_from_init [OF i u(1) this] have lvl: "lvl_from tp' TOPO_CPU (Suc i) (Suc (xs ! i))" by simp
  obtain d where d: "per_level_domains tp' TOPO_CPU = ?D[i := d]" "dom_system_id d = int (xs ! i)" "parents d TOPO_NUMA = TOPO_ID_UNSET"
    "per_level_count tp' = per_level_count tp"
    using init_domain_effect [OF i] by (auto simp: less_topo_level_def)
  show ?thesis using lvl u d assms(3) by (simp add: cpus_upto_def s' nth_list_update less_Suc_eq)
qed

lemma init_cpus_built:
  assumes "topology_init_cpus e tp = Some (tp', m, valid_cpus)" "length (bits (cpu_sid_mask (te_junk e))) = bitset_words NR_CPUS"
  shows "\<exists>cpus. binding_cpus e (te_binding e) = Some cpus \<and> finite cpus \<and> cpus \<noteq> {} \<and> built tp' TOPO_CPU (card cpus) \<and>
    map dom_system_id (per_level_domains tp' TOPO_CPU) = map int (sorted_list_of_set cpus) \<and>
    (\<forall>d \<in> set (per_level_domains tp' TOPO_CPU). parents d TOPO_NUMA = TOPO_ID_UNSET) \<and>
    cpu_domain m = [0..<card cpus] \<and> pids_cpus m = replicate (card cpus) (- 1)"
proof -
  let ?cnt = "cpu_bitset_count valid_cpus"
  obtain tp1 tp2 c where v: "cpus_get_binding_mask e (te_binding e) = Some valid_cpus" "0 < ?cnt"
    and tp1: "topology_init_domain_s_to_l TOPO_CPU (int NR_CPUS) tp = Some tp1"
    and tp2: "tp2 = tp1 \<lparr> per_level_domains := (per_level_domains tp1)(TOPO_CPU := replicate ?cnt (te_junk e)),
                per_level_count := (per_level_count tp1)(TOPO_CPU := ?cnt),
                per_level_valid_domains := (per_level_valid_domains tp1)(TOPO_CPU := valid_cpus) \<rparr>"
    and loop: "foreach_cpu valid_cpus init_cpu (tp2, \<lparr> pids_cpus = replicate ?cnt 0, cpu_domain = replicate ?cnt 0 \<rparr>, 0) = Some (tp', m, c)"
    using assms(1) by (auto simp: topology_init_cpus_def Let_def bind_eq_Some_conv)
  obtain cpus where c: "binding_cpus e (te_binding e) = Some cpus" "finite cpus" "cpu_bitset_inv valid_cpus" "cpu_members valid_cpus = sorted_list_of_set cpus"
    using binding_mask_members [OF v(1) assms(2) v(2)] by blast
  let ?xs = "sorted_list_of_set cpus"
  have cnt: "?cnt = length ?xs" "length ?xs = card cpus" using cb.count_law [OF c(3)] c(2,4) by simp_all
  have "lvl_from tp2 TOPO_CPU 0 0" by (rule lvl_from_start) (use tp1 in \<open>auto simp: tp2 topology_init_domain_s_to_l_def\<close>)
  then have "cpus_upto ?xs 0 (tp2, \<lparr> pids_cpus = replicate ?cnt 0, cpu_domain = replicate ?cnt 0 \<rparr>, 0)" by (simp add: cpus_upto_def cnt tp2)
  moreover have "for_each ?xs init_cpu (tp2, \<lparr> pids_cpus = replicate ?cnt 0, cpu_domain = replicate ?cnt 0 \<rparr>, 0) = Some (tp', m, c)"
    using loop by (simp add: foreach_cpu_members [OF c(3)] c(4))
  ultimately have u: "cpus_upto ?xs (length ?xs) (tp', m, c)"
    by (intro for_each_index [of ?xs init_cpu _ _ "cpus_upto ?xs"]) (auto intro: init_cpu_step)
  then have "built tp' TOPO_CPU (card cpus)" using cnt by (auto simp: cpus_upto_def built_def)
  moreover have "map dom_system_id (per_level_domains tp' TOPO_CPU) = map int ?xs" "cpu_domain m = [0..<card cpus]" "pids_cpus m = replicate (card cpus) (- 1)"
    using u cnt(2) by (auto simp: cpus_upto_def intro!: nth_equalityI)
  moreover have "\<forall>d \<in> set (per_level_domains tp' TOPO_CPU). parents d TOPO_NUMA = TOPO_ID_UNSET" using u by (auto simp: cpus_upto_def in_set_conv_nth)
  moreover have "cpus \<noteq> {}" using v(2) cnt by auto
  ultimately show ?thesis using c(1,2) by blast
qed

subsection \<open>The result of the discovery\<close>

lemma numa_phase:
  assumes "topology_init_numa e m valid_cpus tp = Some tp'"
  shows "\<exists>n. built tp' TOPO_NUMA n \<and> kept TOPO_CPU n tp tp'"
proof -
  consider config where "topology_init_from_config e m TOPO_NUMA valid_cpus config False tp = Some tp'"
    | "topology_init_numa_from_libnuma e m valid_cpus tp = Some tp'"
    using assms by (auto simp: topology_init_numa_def topology_init_numa_from_none_def Let_def split: if_splits)
  then show ?thesis by cases (auto simp: numas_def dest!: init_from_config_built init_numa_built)
qed

lemma topo_init_phases:
  assumes "topo_init e True shared memory = Some (tp, m)"
  obtains tp0 tp1 valid_cpus n where "topology_init_cpus e tp0 = Some (tp1, m, valid_cpus)" "kept TOPO_CPU n tp1 tp" "built tp TOPO_NUMA n" "topology_assert_parents_set tp"
proof -
  obtain tp0 tp1 valid_cpus tp2 tp3 tp4 where t: "topology_init_cpus e tp0 = Some (tp1, m, valid_cpus)" "topology_init_cores e m valid_cpus tp1 = Some tp2"
    "topology_init_from_config e m TOPO_COMPLEX_SET valid_cpus (te_complex_sets e) True tp2 = Some tp3" "topology_init_numa e m valid_cpus tp3 = Some tp4"
    "topology_init_node e m valid_cpus tp4 = Some tp" "topology_assert_parents_set tp"
    using assms by (auto simp: topo_init_def Let_def bind_eq_Some_conv)
  obtain n where n: "built tp4 TOPO_NUMA n" "kept TOPO_CPU n tp3 tp4" using numa_phase [OF t(4)] by blast
  have "kept TOPO_CPU 0 tp2 tp3" using init_from_config_built [OF t(3)] by (auto simp: numas_def)
  then have "kept TOPO_CPU n tp2 tp3" by (rule kept_mono) simp
  then have "kept TOPO_CPU n tp1 tp" using init_cores_kept [OF t(2), of TOPO_CPU n] n(2) init_node_kept [OF t(5), of TOPO_CPU n] kept_trans by (metis topo_level.distinct)
  moreover have "built tp TOPO_NUMA n" using built_kept [OF n(1) init_node_kept [OF t(5), of TOPO_NUMA]] by simp
  ultimately show ?thesis using that t(1,6) by blast
qed

lemma parents_set_numa: "topology_assert_parents_set tp \<Longrightarrow> i < per_level_count tp TOPO_CPU \<Longrightarrow> 0 \<le> parents (per_level_domains tp TOPO_CPU ! i) TOPO_NUMA"
  by (simp add: topology_assert_parents_set_def all_levels_def topology_assert_parent_is_set_def topo_lvl_doms_def less_topo_level_def list_all_iff)


text \<open>A machine with two CPUs in one core and one NUMA node, as libnuma reports it; \<open>example_state k\<close> is the topology with \<open>k\<close> levels built.\<close>

definition example_mask :: "64 word \<Rightarrow> cpu_bitset" where
  "example_mask w = \<lparr> bits = [w, 0, 0, 0], bs_size = NR_CPUS \<rparr>"

definition example_env :: topo_env where
  "example_env = \<lparr> te_binding = ''0x3'', te_affinity = {0, 1}, te_siblings = (\<lambda>_. Some ''0-1''), te_complex_sets = [], te_numa_nodes = [],
     te_numa_available = True, te_numa_all_nodes = {0}, te_numa_max_node = 0, te_node_to_cpus = (\<lambda>_. Some {0, 1}), te_node_of_cpu = (\<lambda>_. 0),
     te_junk = example_domain TOPO_CPU 7 7 \<rparr>"

definition example_state :: "nat \<Rightarrow> topology" where
  "example_state k =
     (let built = (\<lambda>l. 5 \<le> k + level_index l);
          dm = (\<lambda>l i. \<lparr> dom_level = l, parents = (\<lambda>p. if l < p then - 1 else if p = l then int i else if built p then 0 else - 2), dom_system_id = int i,
                 cpu_sid_mask = example_mask (if l = TOPO_CPU then 2 ^ i else 3), cpu_lid_mask = example_mask (if l = TOPO_CPU then 2 ^ i else 3) \<rparr>)
      in \<lparr> per_level_valid_domains = (\<lambda>l. example_mask (if built l then if l = TOPO_CPU then 3 else 1 else 0)),
           per_level_count = (\<lambda>l. if built l then if l = TOPO_CPU then 2 else 1 else 0),
           per_level_domains = (\<lambda>l. if built l then if l = TOPO_CPU then [dm l 0, dm l 1] else [dm l 0] else []),
           s_to_l = (\<lambda>l. if built l then if l = TOPO_CPU then 0 # 1 # replicate 255 (- 1) else if l = TOPO_CORE then 0 # replicate 256 (- 1) else [0] else []),
           s_max = (\<lambda>l. if built l then if l = TOPO_CPU \<or> l = TOPO_CORE then 256 else 0 else - 2) \<rparr>)"

definition example_manager :: cpumanager where
  "example_manager = \<lparr> pids_cpus = [- 1, - 1], cpu_domain = [0, 1] \<rparr>"

lemma example_cpus_built: "topology_init_cpus example_env (example_state 0) = Some (example_state 1, example_manager, example_mask 3)" by code_simp
lemma example_cores: "topology_init_cores example_env example_manager (example_mask 3) (example_state 1) = Some (example_state 2)" by code_simp
lemma example_complex_sets: "topology_init_from_config example_env example_manager TOPO_COMPLEX_SET (example_mask 3) [] True (example_state 2) = Some (example_state 3)" by code_simp
lemma example_numa: "topology_init_numa example_env example_manager (example_mask 3) (example_state 3) = Some (example_state 4)" by code_simp
lemma example_node: "topology_init_node example_env example_manager (example_mask 3) (example_state 4) = Some (example_state 5)" by code_simp
lemma example_parents: "topology_assert_parents_set (example_state 5)" by code_simp
lemma example_siblings: "topology_assert_siblings_have_same_parent (example_state 5) example_manager = Some ()" by code_simp
lemma example_result: "topo_init example_env True None (example_state 0) = Some (example_state 5, example_manager)"
proof -
  have c: "te_complex_sets example_env = []" by (simp add: example_env_def)
  have "(example_state 0) \<lparr> s_to_l := (\<lambda>_. []), s_max := (\<lambda>_. TOPO_ID_UNSET) \<rparr> = example_state 0" by code_simp
  then show ?thesis by (simp add: topo_init_def Let_def example_cpus_built example_cores example_complex_sets example_numa example_node example_parents example_siblings c del: One_nat_def)
qed

subsection \<open>The mask of all CPUs\<close>

lemma hex_digit_value:
  assumes "tmp < 16"
  shows "hex_digit (if tmp < 10 then char_of (48 + tmp) else char_of (97 - 10 + tmp)) = Some tmp"
proof -
  have "tmp \<in> set [0..<16]" using assms by simp
  then show ?thesis by (auto simp: hex_digit_def upt_rec)
qed

lemma mask_digit_value:
  assumes "\<forall>c \<in> cpus. c \<le> maxcpu"
  obtains tmp where "hex_digit (mask_digit cpus maxcpu i) = Some tmp" "\<forall>j<4. bit tmp j = (4 * i + j \<in> cpus)"
proof -
  let ?f = "\<lambda>cpu. if cpu \<in> cpus then 2 ^ (cpu mod 4) else (0 :: nat)"
  define tmp where "tmp = sum_list (map ?f (filter (\<lambda>cpu. cpu \<le> maxcpu) [i * 4..<(i + 1) * 4]))"
  have all: "sum_list (map ?f (filter (\<lambda>cpu. cpu \<le> maxcpu) xs)) = sum_list (map ?f xs)" for xs
    using assms by (induction xs) auto
  have "[i * 4..<(i + 1) * 4] = [4 * i, 4 * i + 1, 4 * i + 2, 4 * i + 3]" by (simp add: upt_rec)
  then have "tmp = ?f (4 * i) + ?f (4 * i + 1) + ?f (4 * i + 2) + ?f (4 * i + 3)" by (simp only: tmp_def all) simp
  moreover have "Suc (Suc (4 * i)) mod 4 = 2" by presburger
  ultimately have t: "tmp = of_bool (4 * i \<in> cpus) + 2 * of_bool (4 * i + 1 \<in> cpus) + 4 * of_bool (4 * i + 2 \<in> cpus) + 8 * of_bool (4 * i + 3 \<in> cpus)"
    by (simp add: mod_simps split: if_splits)
  have "j < 4 \<longleftrightarrow> j = 0 \<or> j = 1 \<or> j = 2 \<or> j = 3" for j :: nat by auto
  then have "\<forall>j<4. bit tmp j = (4 * i + j \<in> cpus)" unfolding t
    by (cases "4 * i \<in> cpus"; cases "4 * i + 1 \<in> cpus"; cases "4 * i + 2 \<in> cpus"; cases "4 * i + 3 \<in> cpus") (auto simp: bit_iff_odd)
  moreover have "tmp < 16" unfolding t by auto
  then have "hex_digit (mask_digit cpus maxcpu i) = Some tmp" using hex_digit_value by (simp add: mask_digit_def tmp_def Let_def)
  ultimately show ?thesis using that by blast
qed

lemma fold_insert_if: "fold (\<lambda>j s. if P j then insert (f j) s else s) xs s = s \<union> f ` {j \<in> set xs. P j}"
  by (induction xs arbitrary: s) auto

lemma parse_mask_digits:
  assumes "\<forall>c \<in> cpus. c \<le> maxcpu \<and> c < CPU_SETSIZE"
  shows "binding_digits (map (mask_digit cpus maxcpu) [i..<i + n]) (4 * i) s = Some (s \<union> {c \<in> cpus. 4 * i \<le> c \<and> c < 4 * (i + n)})"
proof (induction n arbitrary: i s)
  case (Suc n)
  obtain tmp where tmp: "hex_digit (mask_digit cpus maxcpu i) = Some tmp" "\<And>j. j < 4 \<Longrightarrow> bit tmp j = (4 * i + j \<in> cpus)"
    using mask_digit_value [of cpus maxcpu i] assms by metis
  let ?s = "fold (\<lambda>j s. if bit tmp j \<and> 4 * i + j < CPU_SETSIZE then insert (4 * i + j) s else s) [0..<4] s"
  have "{c \<in> cpus. 4 * i \<le> c \<and> c < 4 * (i + Suc n)} = {c \<in> cpus. 4 * i \<le> c \<and> c < 4 * i + 4} \<union> {c \<in> cpus. 4 * Suc i \<le> c \<and> c < 4 * (Suc i + n)}" by auto
  moreover have "(\<lambda>j. 4 * i + j) ` {j \<in> set [0..<4]. bit tmp j \<and> 4 * i + j < CPU_SETSIZE} = {c \<in> cpus. 4 * i \<le> c \<and> c < 4 * i + 4}"
  proof (intro set_eqI iffI)
    fix c assume "c \<in> {c \<in> cpus. 4 * i \<le> c \<and> c < 4 * i + 4}"
    then show "c \<in> (\<lambda>j. 4 * i + j) ` {j \<in> set [0..<4]. bit tmp j \<and> 4 * i + j < CPU_SETSIZE}"
      using tmp(2) [of "c - 4 * i"] assms by (intro image_eqI [of _ _ "c - 4 * i"]) auto
  qed (use tmp(2) in auto)
  then have "?s = s \<union> {c \<in> cpus. 4 * i \<le> c \<and> c < 4 * i + 4}" by (simp only: fold_insert_if)
  moreover have "map (mask_digit cpus maxcpu) [i..<i + Suc n] = mask_digit cpus maxcpu i # map (mask_digit cpus maxcpu) [Suc i..<Suc i + n]"
    by (simp add: upt_conv_Cons del: upt_Suc)
  ultimately show ?case using Suc.IH [of "Suc i" ?s] tmp(1) by (simp add: Un_assoc add.commute)
qed auto

text \<open>The configuration takes the mask of all CPUs as the binding when it asks for all of them. Reading the mask gives the CPUs back exactly when the greatest CPU is not a multiple of four;
  otherwise the digit of the greatest CPU is missing, and that CPU is lost.\<close>

theorem all_mask_roundtrip:
  assumes "finite cpus" "cpus \<noteq> {}" "Max cpus < CPU_SETSIZE"
  shows "\<exists>s. all_mask_string cpus = Some s \<and> binding_cpus e s = Some (if 4 dvd Max cpus then cpus - {Max cpus} else cpus)"
proof -
  let ?n = "round_up_div (Max cpus) 4"
  let ?ds = "map (mask_digit cpus (Max cpus)) [0..<?n]"
  have s: "all_mask_string cpus = Some (''0x'' @ rev ?ds)" using assms(2) by (simp add: all_mask_string_def Let_def)
  have le: "\<forall>c \<in> cpus. c \<le> Max cpus \<and> c < CPU_SETSIZE" using assms(1,3) Max_ge order.strict_trans1 by blast
  have "4 dvd Max cpus \<Longrightarrow> 4 * ?n = Max cpus" "\<not> 4 dvd Max cpus \<Longrightarrow> Max cpus < 4 * ?n" unfolding round_up_div_def by presburger+
  then have "{c \<in> cpus. c < 4 * ?n} = (if 4 dvd Max cpus then cpus - {Max cpus} else cpus)" using le by (auto simp: order_less_le)
  moreover have "binding_digits ?ds 0 {} = Some {c \<in> cpus. c < 4 * ?n}" using parse_mask_digits [OF le, of 0 ?n "{}"] by simp
  ultimately show ?thesis using s by (simp add: binding_cpus_def rev_map)
qed

theorem all_mask_roundtrip_witness:
  "(\<exists>s. all_mask_string {0, 2, 5} = Some s \<and> binding_cpus example_env s = Some {0, 2, 5}) \<and> (\<exists>s. all_mask_string {0, 4} = Some s \<and> binding_cpus example_env s = Some {0})"
proof -
  have a: "Max {0, 2, 5 :: nat} = 5" "Max {0, 4 :: nat} = 4" "\<not> 4 dvd (5 :: nat)" "4 dvd (4 :: nat)" "{0, 4 :: nat} - {4} = {0}" by auto
  then show ?thesis using all_mask_roundtrip [of "{0, 2, 5}" example_env] all_mask_roundtrip [of "{0, 4}" example_env] by (simp add: CPU_SETSIZE_def)
qed

subsection \<open>Sets with valid CPUs, default affinity\<close>

lemma for_each_exists: "for_each xs (\<lambda>x found. Some (found \<or> P x)) b = Some (b \<or> (\<exists>x \<in> set xs. P x))"
  by (induction xs arbitrary: b) auto

lemma BIT_OVERLAP_bits:
  "BIT_OVERLAP n p c = (\<exists>k < 64 * bitset_words n. bit_at p k \<and> bit_at c k)"
proof -
  have word: "c ! i AND p ! i \<noteq> 0 \<longleftrightarrow> (\<exists>j < 64. bit_at p (64 * i + j) \<and> bit_at c (64 * i + j))" for i
    using word_eq_bits [of "c ! i AND p ! i" 0] by (auto simp: bit_at_def bit_and_iff)
  have "BIT_OVERLAP n p c \<longleftrightarrow> (\<exists>i < bitset_words n. c ! i AND p ! i \<noteq> 0)" using scan_loop_end [of "\<lambda>i. c ! i AND p ! i \<noteq> 0" 0 "bitset_words n"] by (auto simp: BIT_OVERLAP_def)
  also have "\<dots> \<longleftrightarrow> (\<exists>k < 64 * bitset_words n. bit_at p k \<and> bit_at c k)"
  proof
    assume "\<exists>k < 64 * bitset_words n. bit_at p k \<and> bit_at c k"
    then obtain k where k: "k < 64 * bitset_words n" "bit_at p k" "bit_at c k" by blast
    then show "\<exists>i < bitset_words n. c ! i AND p ! i \<noteq> 0"
      by (intro exI [of _ "k div 64"]) (auto simp: word less_mult_imp_div_less mult.commute intro!: exI [of _ "k mod 64"])
  next
    assume "\<exists>i < bitset_words n. c ! i AND p ! i \<noteq> 0"
    then obtain i j where "i < bitset_words n" "j < 64" "bit_at p (64 * i + j)" "bit_at c (64 * i + j)" using word by blast
    then show "\<exists>k < 64 * bitset_words n. bit_at p k \<and> bit_at c k" by (intro exI [of _ "64 * i + j"]) auto
  qed
  finally show ?thesis .
qed

text \<open>The loop of \<open>bitset_has_valid_cpus\<close> decides what \<open>cpu_bitset_overlap\<close> decides word by word.\<close>

theorem has_valid_cpus_is_overlap:
  assumes "cpu_bitset_inv bs" "cpu_bitset_inv valid" "bs_size bs = bs_size valid"
  shows "bitset_has_valid_cpus bs valid = cpu_bitset_overlap bs valid"
proof -
  have "BIT_OVERLAP (bs_size bs) (bits bs) (bits valid) = (\<exists>c \<in> set (cpu_members bs). c \<in> set (cpu_members valid))"
  proof -
    have "k < bs_size bs" if "k < 64 * bitset_words (bs_size bs)" "bit_at (bits bs) k" for k using assms(1) that by (simp add: cpu_bitset_inv_def)
    moreover have "k < 64 * bitset_words (bs_size bs)" if "k < bs_size bs" for k using that bitset_words_bounds(2) [of "bs_size bs"] by simp
    ultimately show ?thesis using assms(3) by (auto simp: BIT_OVERLAP_bits cpu_members_def)
  qed
  moreover have "cpu_bitset_isset valid c = (c \<in> set (cpu_members valid))" if "c \<in> set (cpu_members bs)" for c
    using that assms(3) cb.members_cap [of c bs] cb.isset_law [of c valid] by simp
  ultimately show ?thesis
    using assms(3) by (simp add: bitset_has_valid_cpus_def foreach_cpu_members [OF assms(1)] for_each_exists cpu_bitset_overlap_def)
qed

text \<open>\<open>topo_get_default_aff\<close> does not look at the last CPU: a process that runs on two NUMA nodes gets the affinity of the first one.\<close>

theorem default_aff_skips_last_cpu:
  "\<exists>e. te_affinity e = {0, 1, 2} \<and> te_node_of_cpu e 1 = 0 \<and> te_node_of_cpu e 2 = 1 \<and> topo_get_default_aff e 3 = Some (Some (False, 0))"
proof -
  let ?e = "example_env \<lparr> te_affinity := {0, 1, 2}, te_node_of_cpu := (\<lambda>c. if c = 2 then 1 else 0) \<rparr>"
  have "topo_get_default_aff ?e 3 = Some (Some (False, 0))" by code_simp
  then show ?thesis by (intro exI [of _ ?e]) simp
qed

end
