(* ===== verification/Dtlock_Concurrent.thy ===== *)
theory Dtlock_Concurrent
  imports Dtlock
begin

section \<open>The delegation lock, interleaved (scheduler/dtlock.h)\<close>

text \<open>
  The CPUs call \<open>dtlock_lock_or_delegate\<close> and threads that submit tasks call \<open>dtlock_try_lock\<close>, all at the same time. Every access to shared memory of the two routines is one step of the
  relation \<open>dt_step\<close>; spinning is a step that is not enabled yet. The holder of the lock moves waiting CPUs to their second wait place, serves them, sends them to sleep, wakes them, and
  unlocks, with the operations of the theory \<open>Dtlock\<close>. \<open>ds_waiters\<close> and \<open>ds_sleepers\<close> are the two CPU sets of the governor. \<open>ds_sent\<close> and \<open>ds_got\<close> are ghost fields: the items served
  to a CPU, and the items the CPU has read. The lock has \<open>2 * N\<close> slots for \<open>N\<close> CPUs, as in \<open>scheduler_init\<close>.
\<close>

datatype agent = Cpu nat | Submitter nat

text \<open>Where a thread is. The arguments are \<open>blocking\<close> and \<open>external\<close>, the count of the signal read before, and the ticket.\<close>

datatype tstate =
    Outside
  | Start bool bool
  | Loaded bool bool nat
  | Ticket bool bool nat nat
  | Spin bool bool nat nat
  | Turn bool bool nat nat
  | Holds
  | Wait bool bool nat
  | Signalled bool bool bool
  | Asleep bool bool
  | Read bool bool
  | TryHead nat
  | TryTicket nat

record dt_state =
  ds_lock :: dtlock
  ds_th :: "agent \<Rightarrow> tstate"
  ds_waiters :: "nat set"
  ds_sleepers :: "nat set"
  ds_sent :: "nat \<Rightarrow> dt_item list"
  ds_got :: "nat \<Rightarrow> dt_item list"

definition goto :: "agent \<Rightarrow> tstate \<Rightarrow> dt_state \<Rightarrow> dt_state" where
  "goto a x s = s \<lparr> ds_th := (ds_th s)(a := x) \<rparr>"

definition set_lock :: "dtlock \<Rightarrow> dt_state \<Rightarrow> dt_state" where
  "set_lock d s = s \<lparr> ds_lock := d \<rparr>"

definition set_flags :: "nat \<Rightarrow> 8 word \<Rightarrow> dtlock \<Rightarrow> dtlock" where
  "set_flags c f d = d \<lparr> items := (items d)[c := (items d ! c) \<lparr> item_flags := f \<rparr>] \<rparr>"

definition set_sleep_var :: "nat \<Rightarrow> int \<Rightarrow> dtlock \<Rightarrow> dtlock" where
  "set_sleep_var c v d = d \<lparr> cpu_sleep_vars := (cpu_sleep_vars d)[c := v] \<rparr>"

inductive dt_step :: "nat \<Rightarrow> dt_state \<Rightarrow> dt_state \<Rightarrow> bool" for N where
  enter: "c < N \<Longrightarrow> ds_th s (Cpu c) = Outside \<Longrightarrow> dt_step N s (goto (Cpu c) (Start b e) s)"
| load_signal: "ds_th s (Cpu c) = Start b e \<Longrightarrow> dt_step N s (goto (Cpu c) (Loaded b e (signal_cnt (items (ds_lock s) ! c))) s)"
| take_ticket: "ds_th s (Cpu c) = Loaded b e p \<Longrightarrow>
    dt_step N s (goto (Cpu c) (Ticket b e p (dt_head (ds_lock s))) (set_lock (ds_lock s \<lparr> dt_head := dt_head (ds_lock s) + 1 \<rparr>) s))"
| register: "ds_th s (Cpu c) = Ticket b e p h \<Longrightarrow>
    dt_step N s (goto (Cpu c) (Spin b e p h) (set_lock (dtlock_register (ds_lock s) h c (wait_flags b e)) s))"
| spun: "ds_th s (Cpu c) = Spin b e p h \<Longrightarrow> h \<le> wq_ticket (ds_lock s) (slot (ds_lock s) h) \<Longrightarrow> dt_step N s (goto (Cpu c) (Turn b e p h) s)"
| acquired: "ds_th s (Cpu c) = Turn b e p h \<Longrightarrow> item_ticket (items (ds_lock s) ! c) \<noteq> h \<Longrightarrow>
    dt_step N s (goto (Cpu c) Holds (set_lock (set_flags c (wait_flags b e) (ds_lock s)) s))"
| wait_again: "ds_th s (Cpu c) = Turn b e p h \<Longrightarrow> item_ticket (items (ds_lock s) ! c) = h \<Longrightarrow> dt_step N s (goto (Cpu c) (Wait b e p) s)"
| signalled: "ds_th s (Cpu c) = Wait b e p \<Longrightarrow> signal_cnt (items (ds_lock s) ! c) \<noteq> p \<Longrightarrow>
    dt_step N s (goto (Cpu c) (Signalled b e (signal_sleep (items (ds_lock s) ! c))) s)"
| no_sleep: "ds_th s (Cpu c) = Signalled b e False \<Longrightarrow> dt_step N s (goto (Cpu c) (Read b e) s)"
| sleep: "ds_th s (Cpu c) = Signalled b e True \<Longrightarrow> b \<Longrightarrow> nosv_futex_wait (cpu_sleep_vars (ds_lock s) ! c) = Some (v, asleep) \<Longrightarrow>
    dt_step N s (goto (Cpu c) (if asleep then Asleep b e else Read b e) (set_lock (set_sleep_var c v (ds_lock s)) s))"
| wake_up: "ds_th s (Cpu c) = Asleep b e \<Longrightarrow> cpu_sleep_vars (ds_lock s) ! c \<noteq> 1 \<Longrightarrow> dt_step N s (goto (Cpu c) (Read b e) s)"
| read_retry: "ds_th s (Cpu c) = Read b e \<Longrightarrow> item_ptr (items (ds_lock s) ! c) = ItemRetry \<Longrightarrow>
    dt_step N s (goto (Cpu c) (Start b e) (s \<lparr> ds_got := (ds_got s)(c := ds_got s c @ [ItemRetry]) \<rparr>))"
| read_item: "ds_th s (Cpu c) = Read b e \<Longrightarrow> item_ptr (items (ds_lock s) ! c) = it \<Longrightarrow> it \<noteq> ItemRetry \<Longrightarrow>
    dt_step N s (goto (Cpu c) Outside (s \<lparr> ds_got := (ds_got s)(c := ds_got s c @ [it]) \<rparr>))"
| try_head: "ds_th s (Submitter u) = Outside \<Longrightarrow> dt_step N s (goto (Submitter u) (TryHead (dt_head (ds_lock s))) s)"
| try_fails: "ds_th s (Submitter u) \<in> {TryHead h, TryTicket h} \<Longrightarrow> dt_step N s (goto (Submitter u) Outside s)"
| try_ticket: "ds_th s (Submitter u) = TryHead h \<Longrightarrow> wq_ticket (ds_lock s) (slot (ds_lock s) h) = h \<Longrightarrow> dt_step N s (goto (Submitter u) (TryTicket h) s)"
| try_succeeds: "ds_th s (Submitter u) = TryTicket h \<Longrightarrow> dt_head (ds_lock s) = h \<Longrightarrow>
    dt_step N s (goto (Submitter u) Holds (set_lock (ds_lock s \<lparr> dt_head := h + 1 \<rparr>) s))"
| unlock: "ds_th s a = Holds \<Longrightarrow> dt_step N s (goto a Outside (set_lock (dtlock_unlock (ds_lock s)) s))"
| move: "ds_th s (Cpu k) = Holds \<Longrightarrow> \<not> dtlock_empty (ds_lock s) \<Longrightarrow> c = dtlock_front (ds_lock s) \<Longrightarrow> dtlock_popfront_wait (ds_lock s) c = Some d \<Longrightarrow>
    dt_step N s (set_lock d s \<lparr> ds_waiters := insert c (ds_waiters s) \<rparr>)"
| serve: "ds_th s (Cpu k) = Holds \<Longrightarrow> c \<in> ds_waiters s \<Longrightarrow> dtlock_serve (ds_lock s) c it cnt DTLOCK_SIGNAL_DEFAULT = Some d \<Longrightarrow>
    dt_step N s (set_lock d s \<lparr> ds_waiters := ds_waiters s - {c}, ds_sent := (ds_sent s)(c := ds_sent s c @ [it]) \<rparr>)"
| serve_sleep: "ds_th s (Cpu k) = Holds \<Longrightarrow> c \<in> ds_waiters s \<Longrightarrow> dtlock_is_cpu_blockable (ds_lock s) c \<Longrightarrow>
    dtlock_serve (ds_lock s) c ItemNull 0 DTLOCK_SIGNAL_SLEEP = Some d \<Longrightarrow>
    dt_step N s (set_lock d s \<lparr> ds_waiters := ds_waiters s - {c}, ds_sleepers := insert c (ds_sleepers s) \<rparr>)"
| serve_wake: "ds_th s (Cpu k) = Holds \<Longrightarrow> c \<in> ds_sleepers s \<Longrightarrow> dtlock_serve (ds_lock s) c it cnt DTLOCK_SIGNAL_WAKE = Some d \<Longrightarrow>
    dt_step N s (set_lock d s \<lparr> ds_sleepers := ds_sleepers s - {c}, ds_sent := (ds_sent s)(c := ds_sent s c @ [it]) \<rparr>)"

text \<open>The lock after \<open>scheduler_init\<close>, in memory whose item counters are zero.\<close>

definition dt_start :: "nat \<Rightarrow> dt_state" where
  "dt_start N = \<lparr> ds_lock = dtlock_init (replicate (2 * N) zero_item) (2 * N), ds_th = (\<lambda>_. Outside), ds_waiters = {}, ds_sleepers = {}, ds_sent = (\<lambda>_. []), ds_got = (\<lambda>_. []) \<rparr>"

definition dt_reachable :: "nat \<Rightarrow> dt_state \<Rightarrow> bool" where
  "dt_reachable N s = (dt_step N)\<^sup>*\<^sup>* (dt_start N) s"

subsection \<open>Tickets\<close>

fun ticket_of :: "tstate \<Rightarrow> nat option" where
  "ticket_of (Ticket b e p h) = Some h"
| "ticket_of (Spin b e p h) = Some h"
| "ticket_of (Turn b e p h) = Some h"
| "ticket_of _ = None"

text \<open>The ticket a thread has registered in the wait queue, with its flags.\<close>

fun entry_of :: "tstate \<Rightarrow> (nat \<times> 8 word) option" where
  "entry_of (Spin b e p h) = Some (h, wait_flags b e)"
| "entry_of (Turn b e p h) = Some (h, wait_flags b e)"
| "entry_of _ = None"

lemma entry_ticket: "entry_of x = Some (h, f) \<Longrightarrow> ticket_of x = Some h"
  by (cases x) auto

definition holders :: "(agent \<Rightarrow> tstate) \<Rightarrow> agent set" where
  "holders th = {a. th a = Holds}"

text \<open>The least ticket that has neither been granted and taken nor moved.\<close>

definition low :: "dtlock \<Rightarrow> (agent \<Rightarrow> tstate) \<Rightarrow> nat" where
  "low d th = (if holders th = {} then dt_next d - 1 else dt_next d)"

definition lock_ok :: "nat \<Rightarrow> dtlock \<Rightarrow> bool" where
  "lock_ok N d \<longleftrightarrow> length (waitqueue d) = dt_size d \<and> length (items d) = dt_size d \<and> length (cpu_sleep_vars d) = dt_size d \<and> N < dt_size d \<and>
     dt_size d < dt_next d \<and> wq_ticket d (slot d (dt_next d - 1)) = dt_next d - 1 \<and> (\<forall>i<dt_size d. wq_ticket d i < dt_next d)"

text \<open>Who has which ticket.\<close>

definition own_ok :: "nat \<Rightarrow> dtlock \<Rightarrow> (agent \<Rightarrow> tstate) \<Rightarrow> bool" where
  "own_ok N d th \<longleftrightarrow> (\<forall>a b. th a = Holds \<longrightarrow> th b = Holds \<longrightarrow> a = b) \<and> low d th \<le> dt_head d \<and>
     (\<forall>a h. ticket_of (th a) = Some h \<longrightarrow> h < dt_head d \<and> a \<in> Cpu ` {..<N}) \<and>
     (\<forall>a b h. ticket_of (th a) = Some h \<longrightarrow> ticket_of (th b) = Some h \<longrightarrow> a = b) \<and>
     (\<forall>t. low d th \<le> t \<longrightarrow> t < dt_head d \<longrightarrow> (\<exists>a. ticket_of (th a) = Some t))"

text \<open>Which states a thread can be in, and what a thread in \<open>dtlock_try_lock\<close> knows.\<close>

definition roles_ok :: "nat \<Rightarrow> dtlock \<Rightarrow> (agent \<Rightarrow> tstate) \<Rightarrow> bool" where
  "roles_ok N d th \<longleftrightarrow> (\<forall>c. N \<le> c \<longrightarrow> th (Cpu c) = Outside) \<and>
     (\<forall>a h. th a \<in> {TryHead h, TryTicket h} \<longrightarrow> h \<le> dt_head d) \<and>
     (\<forall>a h. th a = TryTicket h \<longrightarrow> h = dt_head d \<longrightarrow> holders th = {} \<and> dt_next d - 1 = h)"

text \<open>What the wait queue holds from the next ticket on.\<close>

definition queue_ok :: "dtlock \<Rightarrow> (agent \<Rightarrow> tstate) \<Rightarrow> bool" where
  "queue_ok d th \<longleftrightarrow>
     (\<forall>c t f. entry_of (th (Cpu c)) = Some (t, f) \<longrightarrow> dt_next d \<le> t \<longrightarrow> wq_cpu d (slot d t) = t + c \<and> node_flags (waitqueue d ! slot d t) = f) \<and>
     (\<forall>t. dt_next d \<le> t \<longrightarrow> t < dt_next d + dt_size d \<longrightarrow> (\<forall>a f. entry_of (th a) \<noteq> Some (t, f)) \<longrightarrow> wq_cpu d (slot d t) < t)"

text \<open>The threads that were moved to the second wait place.\<close>

definition moved_ok :: "dtlock \<Rightarrow> (agent \<Rightarrow> tstate) \<Rightarrow> bool" where
  "moved_ok d th \<longleftrightarrow> (\<forall>i<dt_size d. item_ticket (items d ! i) < low d th) \<and>
     (\<forall>c h. ticket_of (th (Cpu c)) = Some h \<longrightarrow> h < low d th \<longrightarrow>
        entry_of (th (Cpu c)) \<noteq> None \<and> item_ticket (items d ! c) = h \<and> h \<le> wq_ticket d (slot d h)) \<and>
     (\<forall>a b e p h. th a = Turn b e p h \<longrightarrow> h < dt_next d)"

definition tickets_ok :: "nat \<Rightarrow> dtlock \<Rightarrow> (agent \<Rightarrow> tstate) \<Rightarrow> bool" where
  "tickets_ok N d th \<longleftrightarrow> lock_ok N d \<and> own_ok N d th \<and> roles_ok N d th \<and> queue_ok d th \<and> moved_ok d th"

lemma holders_upd: "holders (th(a := x)) = (if x = Holds then insert a (holders th) else holders th - {a})"
  by (auto simp: holders_def)

lemma holders_other [simp]: "th a \<noteq> Holds \<Longrightarrow> x \<noteq> Holds \<Longrightarrow> holders (th(a := x)) = holders th"
  by (auto simp: holders_def)

lemma low_bounds: "lock_ok N d \<Longrightarrow> dt_next d - 1 \<le> low d th \<and> low d th \<le> dt_next d"
  by (simp add: low_def)

text \<open>Between the least ticket and the head there is one CPU for each ticket.\<close>

lemma head_bound:
  assumes "own_ok N d th"
  shows "dt_head d \<le> low d th + N"
proof -
  define f where "f = (\<lambda>t. SOME a. ticket_of (th a) = Some t)"
  have f: "ticket_of (th (f t)) = Some t" if "t \<in> {low d th..<dt_head d}" for t
    unfolding f_def by (rule someI_ex) (use assms that in \<open>auto simp: own_ok_def\<close>)
  have "inj_on f {low d th..<dt_head d}" by (rule inj_onI) (metis f option.inject)
  moreover have "f ` {low d th..<dt_head d} \<subseteq> Cpu ` {..<N}" using assms f by (fastforce simp: own_ok_def)
  ultimately have "card {low d th..<dt_head d} \<le> card (Cpu ` {..<N})" by (metis card_image card_mono finite_imageI finite_lessThan)
  then show ?thesis by (simp add: card_image inj_on_def)
qed

text \<open>Steps that touch no ticket.\<close>

definition same_tickets :: "dtlock \<Rightarrow> dtlock \<Rightarrow> bool" where
  "same_tickets d d' \<longleftrightarrow> waitqueue d' = waitqueue d \<and> dt_size d' = dt_size d \<and> dt_head d' = dt_head d \<and> dt_next d' = dt_next d \<and>
     length (items d') = length (items d) \<and> length (cpu_sleep_vars d') = length (cpu_sleep_vars d) \<and>
     (\<forall>i. item_ticket (items d' ! i) = item_ticket (items d ! i))"

lemma same_tickets_refl [simp]: "same_tickets d d"
  by (simp add: same_tickets_def)

lemma same_tickets_parts:
  "same_tickets d d' \<Longrightarrow> slot d' = slot d \<and> wq_ticket d' = wq_ticket d \<and> wq_cpu d' = wq_cpu d \<and> low d' = low d"
  by (auto simp: same_tickets_def slot_def wq_ticket_def wq_cpu_def low_def fun_eq_iff)

lemma tickets_same: "same_tickets d d' \<Longrightarrow> tickets_ok N d th \<Longrightarrow> tickets_ok N d' th"
  by (frule same_tickets_parts) (simp add: tickets_ok_def lock_ok_def own_ok_def roles_ok_def queue_ok_def moved_ok_def same_tickets_def)

lemma tickets_goto:
  assumes ok: "tickets_ok N d th" and nh: "th a \<noteq> Holds" "x \<noteq> Holds"
    and tk: "ticket_of x = ticket_of (th a) \<and> entry_of x = entry_of (th a) \<or>
      ticket_of x = None \<and> entry_of x = None \<and> (\<forall>h. ticket_of (th a) = Some h \<longrightarrow> h < low d th)"
    and role: "\<And>c. a = Cpu c \<Longrightarrow> c < N" "\<And>h. x \<in> {TryHead h, TryTicket h} \<Longrightarrow> h \<le> dt_head d"
      "\<And>h. x = TryTicket h \<Longrightarrow> h = dt_head d \<Longrightarrow> holders th = {} \<and> dt_next d - 1 = h"
      "\<And>b e p h. x = Turn b e p h \<Longrightarrow> h < dt_next d"
  shows "tickets_ok N d (th(a := x))"
proof -
  have low: "low d (th(a := x)) = low d th" using nh by (simp add: low_def)
  have lk: "lock_ok N d" and own: "own_ok N d th" and ro: "roles_ok N d th" and qu: "queue_ok d th" and mo: "moved_ok d th"
    using ok by (simp_all add: tickets_ok_def)
  have t: "ticket_of ((th(a := x)) b) = Some h \<Longrightarrow> ticket_of (th b) = Some h" for b h using tk by (auto split: if_splits)
  have t': "low d th \<le> h \<Longrightarrow> ticket_of (th b) = Some h \<Longrightarrow> ticket_of ((th(a := x)) b) = Some h" for b h using tk by fastforce
  have e: "entry_of ((th(a := x)) b) = Some z \<Longrightarrow> entry_of (th b) = Some z" for b z using tk by (auto split: if_splits)
  have e': "low d th \<le> h \<Longrightarrow> entry_of (th b) = Some (h, f) \<Longrightarrow> entry_of ((th(a := x)) b) = Some (h, f)" for b h f
    using tk entry_ticket by fastforce
  have "own_ok N d (th(a := x))" unfolding own_ok_def low
  proof (intro conjI allI impI)
    fix b b' assume "(th(a := x)) b = Holds" "(th(a := x)) b' = Holds"
    then show "b = b'" using nh own by (auto simp: own_ok_def split: if_splits)
  next
    fix b h assume "ticket_of ((th(a := x)) b) = Some h"
    from t [OF this] show "h < dt_head d" "b \<in> Cpu ` {..<N}" using own unfolding own_ok_def by blast+
  next
    fix b b' h assume "ticket_of ((th(a := x)) b) = Some h" "ticket_of ((th(a := x)) b') = Some h"
    then show "b = b'" using t own unfolding own_ok_def by blast
  next
    fix h assume h: "low d th \<le> h" "h < dt_head d"
    then obtain b where "ticket_of (th b) = Some h" using own unfolding own_ok_def by blast
    then show "\<exists>b. ticket_of ((th(a := x)) b) = Some h" using t' h by blast
  qed (use own in \<open>simp add: own_ok_def\<close>)
  moreover have "roles_ok N d (th(a := x))" using ro role nh by (auto simp: roles_ok_def)
  moreover have "queue_ok d (th(a := x))" unfolding queue_ok_def
  proof (intro conjI allI impI)
    fix c t f assume "entry_of ((th(a := x)) (Cpu c)) = Some (t, f)" "dt_next d \<le> t"
    then show "wq_cpu d (slot d t) = t + c" "node_flags (waitqueue d ! slot d t) = f" using e qu unfolding queue_ok_def by blast+
  next
    fix t assume t: "dt_next d \<le> t" "t < dt_next d + dt_size d" "\<forall>b f. entry_of ((th(a := x)) b) \<noteq> Some (t, f)"
    then have "low d th \<le> t" using low_bounds [OF lk, of th] by simp
    then show "wq_cpu d (slot d t) < t" using t e' qu unfolding queue_ok_def by blast
  qed
  moreover have "moved_ok d (th(a := x))" unfolding moved_ok_def low
  proof (intro conjI allI impI)
    fix c h assume tc: "ticket_of ((th(a := x)) (Cpu c)) = Some h" and h: "h < low d th"
    have "ticket_of (th (Cpu c)) = Some h" using t [OF tc] .
    then have m: "entry_of (th (Cpu c)) \<noteq> None" "item_ticket (items d ! c) = h" "h \<le> wq_ticket d (slot d h)" using h mo unfolding moved_ok_def by blast+
    show "item_ticket (items d ! c) = h" "h \<le> wq_ticket d (slot d h)" by fact+
    show "entry_of ((th(a := x)) (Cpu c)) \<noteq> None" using m(1) tk tc by (auto split: if_splits)
  next
    fix b b1 e p h assume "(th(a := x)) b = Turn b1 e p h"
    then show "h < dt_next d" using role(4) mo by (auto simp: moved_ok_def split: if_splits)
  qed (use mo in \<open>simp add: moved_ok_def\<close>)
  ultimately show ?thesis using lk by (simp add: tickets_ok_def)
qed

lemma tickets_facts:
  assumes "tickets_ok N d th"
  shows "lock_ok N d" "own_ok N d th" "roles_ok N d th" "queue_ok d th" "moved_ok d th"
  using assms by (simp_all add: tickets_ok_def)

lemma own_facts:
  assumes "own_ok N d th"
  shows "th a = Holds \<Longrightarrow> th b = Holds \<Longrightarrow> a = b" "low d th \<le> dt_head d" "ticket_of (th a) = Some h \<Longrightarrow> h < dt_head d"
    "ticket_of (th a) = Some h \<Longrightarrow> a \<in> Cpu ` {..<N}" "ticket_of (th a) = Some h \<Longrightarrow> ticket_of (th b) = Some h \<Longrightarrow> a = b"
    "low d th \<le> t \<Longrightarrow> t < dt_head d \<Longrightarrow> \<exists>a. ticket_of (th a) = Some t"
  using assms unfolding own_ok_def by blast+

lemma moved_facts:
  assumes "moved_ok d th"
  shows "i < dt_size d \<Longrightarrow> item_ticket (items d ! i) < low d th"
    "ticket_of (th (Cpu c)) = Some h \<Longrightarrow> h < low d th \<Longrightarrow> entry_of (th (Cpu c)) \<noteq> None"
    "ticket_of (th (Cpu c)) = Some h \<Longrightarrow> h < low d th \<Longrightarrow> item_ticket (items d ! c) = h"
    "ticket_of (th (Cpu c)) = Some h \<Longrightarrow> h < low d th \<Longrightarrow> h \<le> wq_ticket d (slot d h)"
    "th a = Turn b e p h \<Longrightarrow> h < dt_next d"
  using assms unfolding moved_ok_def by blast+

lemma queue_facts:
  assumes "queue_ok d th"
  shows "entry_of (th (Cpu c)) = Some (t, f) \<Longrightarrow> dt_next d \<le> t \<Longrightarrow> wq_cpu d (slot d t) = t + c"
    "entry_of (th (Cpu c)) = Some (t, f) \<Longrightarrow> dt_next d \<le> t \<Longrightarrow> node_flags (waitqueue d ! slot d t) = f"
    "dt_next d \<le> t \<Longrightarrow> t < dt_next d + dt_size d \<Longrightarrow> (\<And>a f. entry_of (th a) \<noteq> Some (t, f)) \<Longrightarrow> wq_cpu d (slot d t) < t"
  using assms unfolding queue_ok_def by blast+

lemma tickets_take:
  assumes ok: "tickets_ok N d th" and th: "th (Cpu c) = Loaded b e p" and c: "c < N"
  shows "tickets_ok N (d \<lparr> dt_head := dt_head d + 1 \<rparr>) (th(Cpu c := Ticket b e p (dt_head d)))"
proof -
  let ?d = "d \<lparr> dt_head := dt_head d + 1 \<rparr>" and ?th = "th(Cpu c := Ticket b e p (dt_head d))"
  note f = tickets_facts [OF ok]
  note own = own_facts [OF f(2)]
  have h: "holders ?th = holders th" using th by simp
  have low: "low ?d ?th = low d th" using h by (simp add: low_def)
  have sl: "slot ?d = slot d" "wq_ticket ?d = wq_ticket d" "wq_cpu ?d = wq_cpu d" by (auto simp: slot_def wq_ticket_def wq_cpu_def fun_eq_iff)
  have e: "entry_of (?th a) = entry_of (th a)" for a using th by auto
  have "own_ok N ?d ?th" unfolding own_ok_def low
  proof (intro conjI allI impI)
    fix a h assume "ticket_of (?th a) = Some h"
    then show "h < dt_head ?d" "a \<in> Cpu ` {..<N}" using own(3,4) [of a h] c by (auto split: if_splits)
  next
    fix a b' h assume "ticket_of (?th a) = Some h" "ticket_of (?th b') = Some h"
    then show "a = b'" using own(3) [of a h] own(3) [of b' h] own(5) [of a h b'] by (auto split: if_splits)
  next
    fix t assume t: "low d th \<le> t" "t < dt_head ?d"
    show "\<exists>a. ticket_of (?th a) = Some t"
    proof (cases "t = dt_head d")
      case False
      then obtain a where "ticket_of (th a) = Some t" using t own(6) [of t] by auto
      moreover have "a \<noteq> Cpu c" using calculation th by auto
      ultimately show ?thesis by (intro exI [of _ a]) simp
    qed (auto intro: exI [of _ "Cpu c"])
  qed (use own(1,2) in \<open>auto split: if_splits\<close>)
  moreover have "roles_ok N ?d ?th" using f(3) c h by (fastforce simp: roles_ok_def)
  moreover have "queue_ok ?d ?th" using f(4) unfolding queue_ok_def e sl by simp
  moreover have "moved_ok ?d ?th" using f(5) own(2) unfolding moved_ok_def e sl low by auto
  moreover have "lock_ok N ?d" using f(1) unfolding lock_ok_def sl by simp
  ultimately show ?thesis by (simp add: tickets_ok_def)
qed

lemma slot_distinct: "t \<noteq> t' \<Longrightarrow> slot d t = slot d t' \<Longrightarrow> t < t' \<Longrightarrow> t + dt_size d \<le> t'"
  by (auto simp: slot_def mod_eq_iff_dvd_symdiff_nat dest!: dvd_imp_le)

lemma register_parts:
  assumes "length (waitqueue d) = dt_size d" "0 < dt_size d"
  shows "wq_ticket (dtlock_register d h c fl) i = wq_ticket d i" "slot (dtlock_register d h c fl) = slot d"
    "wq_cpu (dtlock_register d h c fl) i = (if i = slot d h then h + c else wq_cpu d i)"
    "node_flags (waitqueue (dtlock_register d h c fl) ! i) = (if i = slot d h then fl else node_flags (waitqueue d ! i))"
    "dt_size (dtlock_register d h c fl) = dt_size d" "dt_head (dtlock_register d h c fl) = dt_head d" "dt_next (dtlock_register d h c fl) = dt_next d"
    "items (dtlock_register d h c fl) = items d" "cpu_sleep_vars (dtlock_register d h c fl) = cpu_sleep_vars d"
    "length (waitqueue (dtlock_register d h c fl)) = length (waitqueue d)"
proof -
  have "slot d h < length (waitqueue d)" using assms by (simp add: slot_def)
  then show "wq_ticket (dtlock_register d h c fl) i = wq_ticket d i" "slot (dtlock_register d h c fl) = slot d"
    "wq_cpu (dtlock_register d h c fl) i = (if i = slot d h then h + c else wq_cpu d i)"
    "node_flags (waitqueue (dtlock_register d h c fl) ! i) = (if i = slot d h then fl else node_flags (waitqueue d ! i))"
    "dt_size (dtlock_register d h c fl) = dt_size d" "dt_head (dtlock_register d h c fl) = dt_head d" "dt_next (dtlock_register d h c fl) = dt_next d"
    "items (dtlock_register d h c fl) = items d" "cpu_sleep_vars (dtlock_register d h c fl) = cpu_sleep_vars d"
    "length (waitqueue (dtlock_register d h c fl)) = length (waitqueue d)"
    by (auto simp: dtlock_register_def wq_ticket_def wq_cpu_def slot_def fun_eq_iff nth_list_update)
qed

lemma tickets_register:
  assumes ok: "tickets_ok N d th" and th: "th (Cpu c) = Ticket b e p h" and c: "c < N"
  shows "tickets_ok N (dtlock_register d h c (wait_flags b e)) (th(Cpu c := Spin b e p h))"
proof -
  let ?d = "dtlock_register d h c (wait_flags b e)" and ?th = "th(Cpu c := Spin b e p h)"
  note f = tickets_facts [OF ok]
  note own = own_facts [OF f(2)]
  have sz: "length (waitqueue d) = dt_size d" "0 < dt_size d" "N < dt_size d" using f(1) by (auto simp: lock_ok_def)
  note r = register_parts [OF sz(1,2), of h c "wait_flags b e"]
  have hd: "holders ?th = holders th" using th by simp
  have low: "low ?d ?th = low d th" using hd r by (simp add: low_def)
  have t: "ticket_of (?th a) = ticket_of (th a)" for a using th by auto
  have hl: "low d th \<le> h" using moved_facts(2) [OF f(5), of c h] th by (cases "h < low d th") auto
  have hh: "h < dt_head d" using own(3) [of "Cpu c"] th by simp
  have hb: "dt_head d \<le> low d th + N" using head_bound [OF f(2)] .
  note lb = low_bounds [OF f(1), of th]
  have clash: False if "t \<noteq> h" "slot d t = slot d h" "low d th \<le> t" "t < low d th + dt_size d" for t
    using slot_distinct [of t h d] slot_distinct [of h t d] that hl hh hb sz by (cases "t < h") auto
  have "own_ok N ?d ?th" unfolding own_ok_def low t using own by (simp add: r)
  moreover have "roles_ok N ?d ?th" using f(3) c hd by (auto simp: roles_ok_def r)
  moreover have "queue_ok ?d ?th" unfolding queue_ok_def r(2,5,6,7)
  proof (intro conjI allI impI)
    fix k t fl assume k: "entry_of (?th (Cpu k)) = Some (t, fl)" "dt_next d \<le> t"
    have "wq_cpu ?d (slot d t) = t + k \<and> node_flags (waitqueue ?d ! slot d t) = fl"
    proof (cases "k = c")
      case True
      then show ?thesis using k r(3,4) [of "slot d h"] by auto
    next
      case False
      then have e: "entry_of (th (Cpu k)) = Some (t, fl)" using k by simp
      then have tk: "ticket_of (th (Cpu k)) = Some t" by (rule entry_ticket)
      then have "t \<noteq> h" using own(5) [of "Cpu k" t "Cpu c"] th False by auto
      moreover have "t < dt_head d" using own(3) tk by blast
      ultimately have "slot d t \<noteq> slot d h" using clash [of t] k(2) lb hb sz by auto
      then show ?thesis using f(4) e k(2) unfolding queue_ok_def by (auto simp: r)
    qed
    then show "wq_cpu ?d (slot d t) = t + k" "node_flags (waitqueue ?d ! slot d t) = fl" by blast+
  next
    fix t assume k: "dt_next d \<le> t" "t < dt_next d + dt_size d" "\<forall>a fl. entry_of (?th a) \<noteq> Some (t, fl)"
    have th': "t \<noteq> h" using k(3) by (metis entry_of.simps(1) fun_upd_same)
    have "entry_of (th a) \<noteq> Some (t, fl)" for a fl using k(3) [rule_format, of a fl] th by (cases "a = Cpu c") auto
    then have old: "wq_cpu d (slot d t) < t" using f(4) k unfolding queue_ok_def by blast
    show "wq_cpu ?d (slot d t) < t"
    proof (cases "slot d t = slot d h")
      case True
      then have "h + dt_size d \<le> t" using slot_distinct [of h t d] slot_distinct [of t h d] th' k(1) hh hb lb sz by (cases "t < h") auto
      then show ?thesis using True c sz by (simp add: r)
    qed (use old in \<open>simp add: r\<close>)
  qed
  moreover have "moved_ok ?d ?th" using f(5) unfolding moved_ok_def low t r by auto
  moreover have "lock_ok N ?d" using f(1) by (simp add: lock_ok_def r)
  ultimately show ?thesis by (simp add: tickets_ok_def)
qed

lemma tickets_acquire:
  assumes ok: "tickets_ok N d th" and th: "th (Cpu c) = Turn b e p h" "item_ticket (items d ! c) \<noteq> h"
  shows "tickets_ok N d (th(Cpu c := Holds)) \<and> holders th = {} \<and> h = dt_next d - 1"
proof -
  let ?th = "th(Cpu c := Holds)"
  note f = tickets_facts [OF ok]
  note own = own_facts [OF f(2)] and mo = moved_facts [OF f(5)]
  have hl: "low d th \<le> h" using mo(3) [of c h] th by (cases "h < low d th") auto
  have hn: "h < dt_next d" using mo(5) th(1) .
  then have none: "holders th = {}" and h: "h = dt_next d - 1" "low d th = h" using hl by (auto simp: low_def split: if_splits)
  have low: "low d ?th = dt_next d" by (simp add: low_def holders_upd)
  have hh: "h < dt_head d" using own(3) [of "Cpu c" h] th by simp
  have t: "ticket_of (?th a) = Some k \<longleftrightarrow> ticket_of (th a) = Some k \<and> a \<noteq> Cpu c" for a k by auto
  have e: "entry_of (?th a) = Some z \<longleftrightarrow> entry_of (th a) = Some z \<and> a \<noteq> Cpu c" for a z by auto
  have uniq: "k \<noteq> h" if "ticket_of (th a) = Some k" "a \<noteq> Cpu c" for a k using own(5) [of a k "Cpu c"] that th by auto
  have nx: "0 < dt_next d" using f(1) by (auto simp: lock_ok_def)
  have "own_ok N d ?th" unfolding own_ok_def low t
  proof (intro conjI allI impI)
    fix a b assume "?th a = Holds" "?th b = Holds"
    then show "a = b" using none by (auto simp: holders_def split: if_splits)
  next
    fix k assume k: "dt_next d \<le> k" "k < dt_head d"
    then have "low d th \<le> k" using h by simp
    then obtain a where "ticket_of (th a) = Some k" using own(6) [of k] k by blast
    moreover have "a \<noteq> Cpu c" using calculation th k hn by auto
    ultimately show "\<exists>a. ticket_of (th a) = Some k \<and> a \<noteq> Cpu c" by blast
  qed (use own hh h nx in auto)
  moreover have "roles_ok N d ?th" using f(3) hh h own(4) [of "Cpu c" h] th by (fastforce simp: roles_ok_def)
  moreover have "queue_ok d ?th" unfolding queue_ok_def e
  proof (intro conjI allI impI)
    fix k t fl assume "entry_of (th (Cpu k)) = Some (t, fl) \<and> Cpu k \<noteq> Cpu c" "dt_next d \<le> t"
    then show "wq_cpu d (slot d t) = t + k" "node_flags (waitqueue d ! slot d t) = fl" using queue_facts [OF f(4)] by blast+
  next
    fix t assume t: "dt_next d \<le> t" "t < dt_next d + dt_size d" "\<forall>a f. \<not> (entry_of (th a) = Some (t, f) \<and> a \<noteq> Cpu c)"
    then have "entry_of (th a) \<noteq> Some (t, f)" for a f using th hn by (cases "a = Cpu c") auto
    then show "wq_cpu d (slot d t) < t" using queue_facts(3) [OF f(4)] t by blast
  qed
  moreover have "moved_ok d ?th" unfolding moved_ok_def low t
  proof (intro conjI allI impI)
    fix k j assume j: "ticket_of (th (Cpu k)) = Some j \<and> Cpu k \<noteq> Cpu c" "j < dt_next d"
    then have "j < low d th" using uniq [of "Cpu k" j] h by auto
    then show "entry_of (?th (Cpu k)) \<noteq> None" "item_ticket (items d ! k) = j" "j \<le> wq_ticket d (slot d j)" using mo(2-4) [of k j] j by auto
  next
    fix i assume "i < dt_size d"
    then show "item_ticket (items d ! i) < dt_next d" using mo(1) [of i] h hn by simp
  next
    fix a b1 e1 p1 h1 assume "?th a = Turn b1 e1 p1 h1"
    then show "h1 < dt_next d" using mo(5) by (auto split: if_splits)
  qed
  ultimately show ?thesis using f(1) none h(1) by (simp add: tickets_ok_def)
qed

lemma tickets_try:
  assumes ok: "tickets_ok N d th" and th: "th (Submitter u) = TryTicket (dt_head d)"
  shows "tickets_ok N (d \<lparr> dt_head := dt_head d + 1 \<rparr>) (th(Submitter u := Holds)) \<and> holders th = {}"
proof -
  let ?d = "d \<lparr> dt_head := dt_head d + 1 \<rparr>" and ?th = "th(Submitter u := Holds)"
  note f = tickets_facts [OF ok]
  note own = own_facts [OF f(2)] and mo = moved_facts [OF f(5)]
  have none: "holders th = {}" and hd: "dt_next d - 1 = dt_head d" using f(3) th by (auto simp: roles_ok_def)
  have nx: "0 < dt_next d" using f(1) by (auto simp: lock_ok_def)
  have low: "low ?d ?th = dt_next d" "low d th = dt_head d" using none hd by (simp_all add: low_def holders_upd)
  have sl: "slot ?d = slot d" "wq_ticket ?d = wq_ticket d" "wq_cpu ?d = wq_cpu d" by (auto simp: slot_def wq_ticket_def wq_cpu_def fun_eq_iff)
  have t: "ticket_of (?th a) = ticket_of (th a)" "entry_of (?th a) = entry_of (th a)" for a using th by auto
  have "own_ok N ?d ?th" unfolding own_ok_def low t
  proof (intro conjI allI impI)
    fix a b assume "?th a = Holds" "?th b = Holds"
    then show "a = b" using none by (auto simp: holders_def split: if_splits)
  next
    fix a h assume "ticket_of (th a) = Some h"
    then show "h < dt_head ?d" "a \<in> Cpu ` {..<N}" using own(3,4) [of a h] by auto
  qed (use own hd nx in auto)
  moreover have "roles_ok N ?d ?th" using f(3) by (fastforce simp: roles_ok_def)
  moreover have "queue_ok ?d ?th" using f(4) unfolding queue_ok_def t sl by simp
  moreover have "moved_ok ?d ?th" unfolding moved_ok_def t sl low
  proof (intro conjI allI impI)
    fix c h assume h: "ticket_of (th (Cpu c)) = Some h"
    then show "entry_of (th (Cpu c)) \<noteq> None" "item_ticket (items ?d ! c) = h" "h \<le> wq_ticket d (slot d h)"
      using mo(2-4) [of c h] own(3) [OF h] low by auto
  next
    fix i assume "i < dt_size ?d"
    then show "item_ticket (items ?d ! i) < dt_next d" using mo(1) [of i] low hd by auto
  qed (use mo(5) in \<open>auto split: if_splits\<close>)
  moreover have "lock_ok N ?d" using f(1) unfolding lock_ok_def sl by simp
  ultimately show ?thesis using none by (simp add: tickets_ok_def)
qed

lemma popfront_parts:
  assumes "length (waitqueue d) = dt_size d" "0 < dt_size d"
  shows "wq_ticket (dtlock_popfront d) i = (if i = slot d (dt_next d) then dt_next d else wq_ticket d i)"
    "node_flags (waitqueue (dtlock_popfront d) ! i) = node_flags (waitqueue d ! i)" "slot (dtlock_popfront d) = slot d"
    "cpu_sleep_vars (dtlock_popfront d) = cpu_sleep_vars d"
proof -
  have "slot d (dt_next d) < length (waitqueue d)" using assms by (simp add: slot_def)
  then show "wq_ticket (dtlock_popfront d) i = (if i = slot d (dt_next d) then dt_next d else wq_ticket d i)"
    "node_flags (waitqueue (dtlock_popfront d) ! i) = node_flags (waitqueue d ! i)" "slot (dtlock_popfront d) = slot d"
    "cpu_sleep_vars (dtlock_popfront d) = cpu_sleep_vars d"
    by (auto simp: dtlock_popfront_def Let_def wq_ticket_def slot_def nth_list_update fun_eq_iff)
qed

lemma lock_popfront:
  assumes "lock_ok N d"
  shows "lock_ok N (dtlock_popfront d)"
proof -
  have sz: "length (waitqueue d) = dt_size d" "0 < dt_size d" using assms by (auto simp: lock_ok_def)
  show ?thesis using assms by (auto simp: lock_ok_def popfront_parts [OF sz] less_Suc_eq)
qed

text \<open>The next ticket leaves the window of the wait queue.\<close>

lemma queue_popfront:
  assumes lk: "lock_ok N d" and own: "own_ok N d th" and qu: "queue_ok d th" and sub: "\<And>a z. entry_of (th' a) = Some z \<longleftrightarrow> entry_of (th a) = Some z"
  shows "queue_ok (dtlock_popfront d) th'"
proof -
  have sz: "length (waitqueue d) = dt_size d" "0 < dt_size d" "N < dt_size d" using lk by (auto simp: lock_ok_def)
  note r = popfront_parts [OF sz(1,2)]
  have head: "dt_head d < dt_next d + dt_size d" using head_bound [OF own] low_bounds [OF lk, of th] sz by linarith
  show ?thesis unfolding queue_ok_def sub r popfront_wq_cpu popfront_fields
  proof (intro conjI allI impI)
    fix c t f assume "entry_of (th (Cpu c)) = Some (t, f)" "Suc (dt_next d) \<le> t"
    then show "wq_cpu d (slot d t) = t + c" "node_flags (waitqueue d ! slot d t) = f" using queue_facts(1,2) [OF qu] by auto
  next
    fix t assume t: "Suc (dt_next d) \<le> t" "t < Suc (dt_next d) + dt_size d" "\<forall>a f. entry_of (th a) \<noteq> Some (t, f)"
    show "wq_cpu d (slot d t) < t"
    proof (cases "t = dt_next d + dt_size d")
      case False
      then show ?thesis using t queue_facts(3) [OF qu, of t] by auto
    next
      case True
      then have sl: "slot d t = slot d (dt_next d)" by (simp add: slot_def)
      show ?thesis
      proof (cases "\<exists>a f. entry_of (th a) = Some (dt_next d, f)")
        case True
        then obtain a f where a: "entry_of (th a) = Some (dt_next d, f)" by blast
        then obtain c where "a = Cpu c" "c < N" using own_facts(4) [OF own entry_ticket [OF a]] by auto
        then show ?thesis using queue_facts(1) [OF qu, of c "dt_next d" f] a sl sz \<open>t = dt_next d + dt_size d\<close> by simp
      next
        case False
        then have "wq_cpu d (slot d (dt_next d)) < dt_next d" using queue_facts(3) [OF qu, of "dt_next d"] sz by simp
        then show ?thesis using sl t by simp
      qed
    qed
  qed
qed

lemma tickets_unlock:
  assumes ok: "tickets_ok N d th" and th: "th a = Holds"
  shows "tickets_ok N (dtlock_unlock d) (th(a := Outside)) \<and> low (dtlock_unlock d) (th(a := Outside)) = low d th"
proof -
  let ?d = "dtlock_popfront d" and ?th = "th(a := Outside)"
  note f = tickets_facts [OF ok]
  note own = own_facts [OF f(2)] and mo = moved_facts [OF f(5)]
  have sz: "length (waitqueue d) = dt_size d" "0 < dt_size d" using f(1) by (auto simp: lock_ok_def)
  note r = popfront_parts [OF sz]
  have only: "holders th = {a}" using own(1) th by (auto simp: holders_def)
  then have none: "holders ?th = {}" by (simp add: holders_upd)
  have low: "low ?d ?th = low d th" "low d th = dt_next d" using only none by (simp_all add: low_def)
  have t: "ticket_of (?th b) = ticket_of (th b)" "entry_of (?th b) = entry_of (th b)" for b using th by auto
  have "own_ok N ?d ?th" unfolding own_ok_def low(1) t using own none by (auto simp: holders_def split: if_splits)
  moreover have "roles_ok N ?d ?th" unfolding roles_ok_def none popfront_fields using f(3) only by (auto simp: roles_ok_def)
  moreover have "queue_ok ?d ?th" by (rule queue_popfront [OF f(1,2,4)]) (simp only: t)
  moreover have "moved_ok ?d ?th" unfolding moved_ok_def low(1) t r popfront_fields
  proof (intro conjI allI impI)
    fix c h assume h: "ticket_of (th (Cpu c)) = Some h" "h < low d th"
    then show "entry_of (th (Cpu c)) \<noteq> None" "item_ticket (items d ! c) = h" using mo(2,3) [of c h] by auto
    show "h \<le> (if slot d h = slot d (dt_next d) then dt_next d else wq_ticket d (slot d h))" using mo(4) [of c h] h low(2) by auto
  next
    fix b b1 e p h assume "?th b = Turn b1 e p h"
    then show "h < Suc (dt_next d)" using mo(5) by (fastforce split: if_splits)
  qed (use mo(1) in auto)
  ultimately show ?thesis using lock_popfront [OF f(1)] low by (simp add: tickets_ok_def dtlock_unlock_def)
qed

text \<open>The front of the wait queue is the CPU with the next ticket, and it can be moved.\<close>

lemma front_entry:
  assumes "tickets_ok N d th" "\<not> dtlock_empty d"
  obtains c fl where "dtlock_front d = c" "c < N" "entry_of (th (Cpu c)) = Some (dt_next d, fl)" "node_flags (waitqueue d ! slot d (dt_next d)) = fl"
proof -
  note f = tickets_facts [OF assms(1)]
  have "\<exists>a fl. entry_of (th a) = Some (dt_next d, fl)"
    using queue_facts(3) [OF f(4), of "dt_next d"] assms(2) f(1) by (fastforce simp: dtlock_empty_def lock_ok_def)
  then obtain a fl where a: "entry_of (th a) = Some (dt_next d, fl)" by blast
  then obtain c where c: "a = Cpu c" "c < N" using own_facts(4) [OF f(2) entry_ticket [OF a]] by auto
  have e: "entry_of (th (Cpu c)) = Some (dt_next d, fl)" using a c by simp
  show ?thesis by (rule that [OF _ c(2) e]) (use queue_facts(1,2) [OF f(4) e] in \<open>auto simp: dtlock_front_def\<close>)
qed

lemma tickets_move:
  assumes ok: "tickets_ok N d th" and held: "holders th \<noteq> {}" and c: "entry_of (th (Cpu c)) = Some (dt_next d, fl)" "c < N"
    and d': "dtlock_popfront_wait d c = Some d'"
  shows "tickets_ok N d' th"
proof -
  note f = tickets_facts [OF ok]
  note own = own_facts [OF f(2)] and mo = moved_facts [OF f(5)]
  have sz: "length (waitqueue d) = dt_size d" "0 < dt_size d" "N < dt_size d" "length (items d) = dt_size d" using f(1) by (auto simp: lock_ok_def)
  let ?it = "(items d ! c) \<lparr> item_flags := node_flags (waitqueue d ! slot d (dt_next d)), item_ticket := dt_next d \<rparr>"
  let ?d = "dtlock_popfront d"
  have dd: "d' = ?d \<lparr> items := (items d)[c := ?it] \<rparr>"
    using d' by (auto simp: dtlock_popfront_wait_def dtlock_popfront_def Let_def slot_def)
  note r = popfront_parts [OF sz(1,2)]
  have sl: "slot d' = slot d" "wq_ticket d' = wq_ticket ?d" "wq_cpu d' = wq_cpu d" "dt_next d' = Suc (dt_next d)" "dt_size d' = dt_size d" "dt_head d' = dt_head d"
    "waitqueue d' = waitqueue ?d"
    using popfront_wq_cpu [of d] r(3) by (auto simp: dd slot_def wq_ticket_def wq_cpu_def fun_eq_iff)
  have low: "low d' th = Suc (dt_next d)" "low d th = dt_next d" using held by (simp_all add: low_def sl)
  have tc: "ticket_of (th (Cpu c)) = Some (dt_next d)" using entry_ticket [OF c(1)] .
  have "own_ok N d' th" unfolding own_ok_def low sl using own own(3) [OF tc] by (auto simp: low)
  moreover have "roles_ok N d' th" using f(3) held by (auto simp: roles_ok_def sl)
  moreover have "queue_ok ?d th" by (rule queue_popfront [OF f(1,2,4)]) simp
  then have "queue_ok d' th" using popfront_wq_cpu [of d] r(3) by (auto simp: queue_ok_def sl)
  moreover have "moved_ok d' th" unfolding moved_ok_def low sl r
  proof (intro conjI allI impI)
    fix i assume "i < dt_size d"
    then show "item_ticket (items d' ! i) < Suc (dt_next d)" using mo(1) [of i] low(2) sz by (cases "i = c") (auto simp: dd)
  next
    fix k h assume k: "ticket_of (th (Cpu k)) = Some h" "h < Suc (dt_next d)"
    have "entry_of (th (Cpu k)) \<noteq> None \<and> item_ticket (items d' ! k) = h \<and> h \<le> (if slot d h = slot d (dt_next d) then dt_next d else wq_ticket d (slot d h))"
    proof (cases "h = dt_next d")
      case True
      then have "k = c" using own(5) [OF k(1), of "Cpu c"] tc by simp
      then show ?thesis using True c sz by (simp add: dd)
    next
      case False
      then have "h < low d th" "k \<noteq> c" using k tc low by auto
      then show ?thesis using mo(2-4) [of k h] k low by (auto simp: dd)
    qed
    then show "entry_of (th (Cpu k)) \<noteq> None" "item_ticket (items d' ! k) = h" "h \<le> (if slot d h = slot d (dt_next d) then dt_next d else wq_ticket d (slot d h))" by blast+
  qed (use mo(5) in \<open>fastforce\<close>)
  moreover have "lock_ok N d'" using lock_popfront [OF f(1)] r(3) by (auto simp: lock_ok_def sl) (auto simp: dd)
  ultimately show ?thesis by (simp add: tickets_ok_def)
qed

subsection \<open>Delegation\<close>

text \<open>A CPU the server does not know, a CPU with an item to read, and a CPU at its second wait place: not served yet, told to sleep, or served.\<close>

definition unknown :: "dt_state \<Rightarrow> nat \<Rightarrow> bool" where
  "unknown s c \<longleftrightarrow> c \<notin> ds_waiters s \<and> c \<notin> ds_sleepers s \<and> cpu_sleep_vars (ds_lock s) ! c = 0 \<and> ds_sent s c = ds_got s c"

definition pending :: "dt_state \<Rightarrow> nat \<Rightarrow> int \<Rightarrow> bool" where
  "pending s c v \<longleftrightarrow> c \<notin> ds_waiters s \<and> c \<notin> ds_sleepers s \<and> ds_sent s c = ds_got s c @ [item_ptr (items (ds_lock s) ! c)] \<and>
     cpu_sleep_vars (ds_lock s) ! c = v"

definition to_sleep :: "dt_state \<Rightarrow> nat \<Rightarrow> int \<Rightarrow> bool" where
  "to_sleep s c v \<longleftrightarrow> c \<notin> ds_waiters s \<and> c \<in> ds_sleepers s \<and> ds_sent s c = ds_got s c \<and> cpu_sleep_vars (ds_lock s) ! c = v"

definition second_place :: "dt_state \<Rightarrow> nat \<Rightarrow> bool \<Rightarrow> bool \<Rightarrow> nat \<Rightarrow> bool" where
  "second_place s c b e p \<longleftrightarrow> (let it = items (ds_lock s) ! c in
     c \<in> ds_waiters s \<and> c \<notin> ds_sleepers s \<and> cpu_sleep_vars (ds_lock s) ! c = 0 \<and> ds_sent s c = ds_got s c \<and> signal_cnt it = p \<and> item_flags it = wait_flags b e \<or>
     to_sleep s c 0 \<and> signal_cnt it \<noteq> p \<and> signal_sleep it \<and> b \<or>
     signal_cnt it \<noteq> p \<and> (if signal_sleep it then b \<and> pending s c (- 1) else pending s c 0))"

definition cpu_ok :: "dt_state \<Rightarrow> nat \<Rightarrow> bool" where
  "cpu_ok s c \<longleftrightarrow> in_step (items (ds_lock s) ! c) \<and>
     (case ds_th s (Cpu c) of
        Outside \<Rightarrow> unknown s c
      | Start b e \<Rightarrow> unknown s c
      | Holds \<Rightarrow> unknown s c
      | Loaded b e p \<Rightarrow> unknown s c \<and> signal_cnt (items (ds_lock s) ! c) = p
      | Ticket b e p h \<Rightarrow> unknown s c \<and> signal_cnt (items (ds_lock s) ! c) = p
      | Spin b e p h \<Rightarrow> if h < low (ds_lock s) (ds_th s) then second_place s c b e p else unknown s c \<and> signal_cnt (items (ds_lock s) ! c) = p
      | Turn b e p h \<Rightarrow> if h < low (ds_lock s) (ds_th s) then second_place s c b e p else unknown s c \<and> signal_cnt (items (ds_lock s) ! c) = p
      | Wait b e p \<Rightarrow> second_place s c b e p
      | Signalled b e sl \<Rightarrow> to_sleep s c 0 \<and> sl \<and> b \<or> (if sl then b \<and> pending s c (- 1) else pending s c 0)
      | Asleep b e \<Rightarrow> to_sleep s c 1 \<or> pending s c 0
      | Read b e \<Rightarrow> pending s c 0
      | _ \<Rightarrow> False)"

definition delegation_ok :: "nat \<Rightarrow> dt_state \<Rightarrow> bool" where
  "delegation_ok N s \<longleftrightarrow> ds_waiters s \<union> ds_sleepers s \<subseteq> {..<N} \<and> (\<forall>c<N. cpu_ok s c)"

definition dt_inv :: "nat \<Rightarrow> dt_state \<Rightarrow> bool" where
  "dt_inv N s \<longleftrightarrow> tickets_ok N (ds_lock s) (ds_th s) \<and> delegation_ok N s"

lemmas phases = unknown_def pending_def to_sleep_def second_place_def

text \<open>A step of one CPU, or of the server for one CPU, leaves the other CPUs as they are.\<close>

lemma cpu_ok_frame:
  assumes "cpu_ok s k" "ds_th s' (Cpu k) = ds_th s (Cpu k)" "items (ds_lock s') ! k = items (ds_lock s) ! k"
    "cpu_sleep_vars (ds_lock s') ! k = cpu_sleep_vars (ds_lock s) ! k" "k \<in> ds_waiters s' \<longleftrightarrow> k \<in> ds_waiters s" "k \<in> ds_sleepers s' \<longleftrightarrow> k \<in> ds_sleepers s"
    "ds_sent s' k = ds_sent s k" "ds_got s' k = ds_got s k"
    "\<And>h. ticket_of (ds_th s (Cpu k)) = Some h \<Longrightarrow> h < low (ds_lock s') (ds_th s') \<longleftrightarrow> h < low (ds_lock s) (ds_th s)"
  shows "cpu_ok s' k"
proof -
  have p: "unknown s' k = unknown s k" "pending s' k v = pending s k v" "to_sleep s' k v = to_sleep s k v" "second_place s' k b e q = second_place s k b e q" for v b e q
    using assms(3-8) by (simp_all add: phases)
  show ?thesis using assms(1,9) unfolding cpu_ok_def assms(2,3) p by (cases "ds_th s (Cpu k)") auto
qed

lemma delegation_step:
  assumes "delegation_ok N s" "cpu_ok s' c" "ds_waiters s' \<union> ds_sleepers s' \<subseteq> {..<N}"
    "\<And>k. k \<noteq> c \<Longrightarrow> ds_th s' (Cpu k) = ds_th s (Cpu k) \<and> items (ds_lock s') ! k = items (ds_lock s) ! k \<and>
      cpu_sleep_vars (ds_lock s') ! k = cpu_sleep_vars (ds_lock s) ! k \<and> (k \<in> ds_waiters s' \<longleftrightarrow> k \<in> ds_waiters s) \<and> (k \<in> ds_sleepers s' \<longleftrightarrow> k \<in> ds_sleepers s) \<and>
      ds_sent s' k = ds_sent s k \<and> ds_got s' k = ds_got s k"
    "\<And>k h. k \<noteq> c \<Longrightarrow> ticket_of (ds_th s (Cpu k)) = Some h \<Longrightarrow> h < low (ds_lock s') (ds_th s') \<longleftrightarrow> h < low (ds_lock s) (ds_th s)"
  shows "delegation_ok N s'"
proof -
  have "cpu_ok s' k" if "k < N" for k
  proof (cases "k = c")
    case False
    show ?thesis by (rule cpu_ok_frame [of s]) (use assms(1,4,5) that False in \<open>auto simp: delegation_ok_def\<close>)
  qed (use assms(2) in simp)
  then show ?thesis using assms(3) by (simp add: delegation_ok_def)
qed

lemma delegation_goto:
  assumes "delegation_ok N s" "cpu_ok (goto (Cpu c) x s) c" "ds_th s (Cpu c) \<noteq> Holds" "x \<noteq> Holds"
  shows "delegation_ok N (goto (Cpu c) x s)"
  by (rule delegation_step [OF assms(1,2)]) (use assms in \<open>auto simp: delegation_ok_def goto_def low_def\<close>)

lemma delegation_submitter:
  assumes "delegation_ok N s" "low d (th(Submitter u := x)) = low (ds_lock s) (ds_th s) \<or> (\<forall>c h. ticket_of (ds_th s (Cpu c)) = Some h \<longrightarrow> h < low (ds_lock s) (ds_th s) \<and> h < low d (th(Submitter u := x)))"
    "th = ds_th s" "items d = items (ds_lock s)" "cpu_sleep_vars d = cpu_sleep_vars (ds_lock s)"
  shows "delegation_ok N (goto (Submitter u) x (set_lock d s))"
proof -
  have "cpu_ok (goto (Submitter u) x (set_lock d s)) k" if "k < N" for k
    by (rule cpu_ok_frame [of s]) (use assms that in \<open>auto simp: delegation_ok_def goto_def set_lock_def\<close>)
  then show ?thesis using assms(1) by (simp add: delegation_ok_def goto_def set_lock_def)
qed

lemma goto_simps [simp]:
  "ds_th (goto a x s) = (ds_th s)(a := x)" "ds_lock (goto a x s) = ds_lock s" "ds_waiters (goto a x s) = ds_waiters s" "ds_sleepers (goto a x s) = ds_sleepers s"
  "ds_sent (goto a x s) = ds_sent s" "ds_got (goto a x s) = ds_got s" "ds_lock (set_lock d s) = d" "ds_th (set_lock d s) = ds_th s"
  "ds_waiters (set_lock d s) = ds_waiters s" "ds_sleepers (set_lock d s) = ds_sleepers s" "ds_sent (set_lock d s) = ds_sent s" "ds_got (set_lock d s) = ds_got s"
  by (simp_all add: goto_def set_lock_def)

lemma inv_cpu:
  assumes "dt_inv N s" "ds_th s (Cpu c) \<noteq> Outside"
  shows "c < N" "cpu_ok s c" "c < length (items (ds_lock s))" "c < length (cpu_sleep_vars (ds_lock s))"
proof -
  show c: "c < N" using assms by (auto simp: dt_inv_def tickets_ok_def roles_ok_def not_less [symmetric])
  then show "cpu_ok s c" "c < length (items (ds_lock s))" "c < length (cpu_sleep_vars (ds_lock s))"
    using assms(1) by (auto simp: dt_inv_def delegation_ok_def tickets_ok_def lock_ok_def)
qed

text \<open>A CPU whose lock is not changed and whose tickets stay as they are.\<close>

lemma inv_goto:
  assumes "dt_inv N s" "ds_th s (Cpu c) \<noteq> Holds" "x \<noteq> Holds" "c < N" "cpu_ok (goto (Cpu c) x s) c"
    "ticket_of x = ticket_of (ds_th s (Cpu c)) \<and> entry_of x = entry_of (ds_th s (Cpu c)) \<or>
      ticket_of x = None \<and> entry_of x = None \<and> (\<forall>h. ticket_of (ds_th s (Cpu c)) = Some h \<longrightarrow> h < low (ds_lock s) (ds_th s))"
    "\<And>h. x \<noteq> TryHead h \<and> x \<noteq> TryTicket h" "\<And>b e p h. x = Turn b e p h \<Longrightarrow> h < dt_next (ds_lock s)"
  shows "dt_inv N (goto (Cpu c) x s)"
proof -
  have "tickets_ok N (ds_lock s) ((ds_th s)(Cpu c := x))"
    by (rule tickets_goto) (use assms in \<open>auto simp: dt_inv_def\<close>)
  moreover have "delegation_ok N (goto (Cpu c) x s)" by (rule delegation_goto) (use assms in \<open>auto simp: dt_inv_def\<close>)
  ultimately show ?thesis by (simp add: dt_inv_def)
qed

lemma phase_goto:
  "unknown (goto (Cpu c) x s) k = unknown s k" "pending (goto (Cpu c) x s) k v = pending s k v" "to_sleep (goto (Cpu c) x s) k v = to_sleep s k v"
  "second_place (goto (Cpu c) x s) k b e q = second_place s k b e q"
  by (simp_all add: phases)

lemma inv_enter: "dt_inv N s \<Longrightarrow> c < N \<Longrightarrow> ds_th s (Cpu c) = Outside \<Longrightarrow> dt_inv N (goto (Cpu c) (Start b e) s)"
  by (rule inv_goto) (auto simp: cpu_ok_def phase_goto dt_inv_def delegation_ok_def dest!: spec [of _ c])

lemma inv_load: "dt_inv N s \<Longrightarrow> ds_th s (Cpu c) = Start b e \<Longrightarrow> dt_inv N (goto (Cpu c) (Loaded b e (signal_cnt (items (ds_lock s) ! c))) s)"
  using inv_cpu [of N s c] by (intro inv_goto) (auto simp: cpu_ok_def phase_goto)

lemma inv_spun:
  assumes "dt_inv N s" "ds_th s (Cpu c) = Spin b e p h" "h \<le> wq_ticket (ds_lock s) (slot (ds_lock s) h)"
  shows "dt_inv N (goto (Cpu c) (Turn b e p h) s)"
proof -
  have "wq_ticket (ds_lock s) (slot (ds_lock s) h) < dt_next (ds_lock s)" using assms(1) by (auto simp: dt_inv_def tickets_ok_def lock_ok_def slot_def)
  then have "h < dt_next (ds_lock s)" using assms(3) by simp
  then show ?thesis using inv_cpu [OF assms(1), of c] assms by (intro inv_goto) (auto simp: cpu_ok_def phase_goto low_def)
qed

lemma inv_wait_again:
  assumes "dt_inv N s" "ds_th s (Cpu c) = Turn b e p h" "item_ticket (items (ds_lock s) ! c) = h"
  shows "dt_inv N (goto (Cpu c) (Wait b e p) s)"
proof -
  have "c < dt_size (ds_lock s)" using inv_cpu [OF assms(1), of c] assms by (auto simp: dt_inv_def tickets_ok_def lock_ok_def)
  then have "h < low (ds_lock s) (ds_th s)" using assms(1,3) moved_facts(1) [of "ds_lock s" "ds_th s" c] by (auto simp: dt_inv_def tickets_ok_def)
  then show ?thesis using inv_cpu [OF assms(1), of c] assms by (intro inv_goto) (auto simp: cpu_ok_def phase_goto)
qed

lemma inv_signalled:
  assumes "dt_inv N s" "ds_th s (Cpu c) = Wait b e p" "signal_cnt (items (ds_lock s) ! c) \<noteq> p"
  shows "dt_inv N (goto (Cpu c) (Signalled b e (signal_sleep (items (ds_lock s) ! c))) s)"
  using inv_cpu [OF assms(1), of c] assms by (intro inv_goto) (auto simp: cpu_ok_def phase_goto second_place_def Let_def split: if_splits)

lemma inv_no_sleep: "dt_inv N s \<Longrightarrow> ds_th s (Cpu c) = Signalled b e False \<Longrightarrow> dt_inv N (goto (Cpu c) (Read b e) s)"
  using inv_cpu [of N s c] by (intro inv_goto) (auto simp: cpu_ok_def phase_goto)

lemma inv_wake_up:
  "dt_inv N s \<Longrightarrow> ds_th s (Cpu c) = Asleep b e \<Longrightarrow> cpu_sleep_vars (ds_lock s) ! c \<noteq> 1 \<Longrightarrow> dt_inv N (goto (Cpu c) (Read b e) s)"
  using inv_cpu [of N s c] by (intro inv_goto) (auto simp: cpu_ok_def phase_goto to_sleep_def)

lemma inv_read:
  assumes "dt_inv N s" "ds_th s (Cpu c) = Read b e" "x = Start b e \<or> x = Outside"
  shows "dt_inv N (goto (Cpu c) x (s \<lparr> ds_got := (ds_got s)(c := ds_got s c @ [item_ptr (items (ds_lock s) ! c)]) \<rparr>))" (is "dt_inv N ?s")
proof -
  note c = inv_cpu [OF assms(1), of c]
  have "tickets_ok N (ds_lock s) ((ds_th s)(Cpu c := x))"
    by (rule tickets_goto) (use assms c in \<open>auto simp: dt_inv_def\<close>)
  moreover have ck: "cpu_ok ?s c" using c assms by (auto simp: cpu_ok_def phases)
  have "delegation_ok N ?s"
    by (rule delegation_step [OF _ ck, of N s]) (use assms in \<open>auto simp: dt_inv_def delegation_ok_def low_def\<close>)
  ultimately show ?thesis by (simp add: dt_inv_def)
qed

lemma inv_sleep:
  assumes "dt_inv N s" "ds_th s (Cpu c) = Signalled b e True" "nosv_futex_wait (cpu_sleep_vars (ds_lock s) ! c) = Some (v, asleep)"
  shows "dt_inv N (goto (Cpu c) (if asleep then Asleep b e else Read b e) (set_lock (set_sleep_var c v (ds_lock s)) s))" (is "dt_inv N (goto _ ?x (set_lock ?d s))")
proof -
  note c = inv_cpu [OF assms(1), of c]
  have same: "same_tickets (ds_lock s) ?d" by (simp add: same_tickets_def set_sleep_var_def)
  have "tickets_ok N (ds_lock s) ((ds_th s)(Cpu c := ?x))"
    by (rule tickets_goto) (use assms c in \<open>auto simp: dt_inv_def split: if_splits\<close>)
  then have "tickets_ok N ?d ((ds_th s)(Cpu c := ?x))" by (rule tickets_same [OF same])
  moreover have ck: "cpu_ok (goto (Cpu c) ?x (set_lock ?d s)) c"
    using c assms by (auto simp: cpu_ok_def phases set_sleep_var_def nosv_futex_wait_def)
  have "delegation_ok N (goto (Cpu c) ?x (set_lock ?d s))"
    by (rule delegation_step [OF _ ck, of N s]) (use assms same_tickets_parts [OF same] in \<open>auto simp: dt_inv_def delegation_ok_def set_sleep_var_def low_def\<close>)
  ultimately show ?thesis by (simp add: dt_inv_def)
qed

lemma inv_take:
  assumes "dt_inv N s" "ds_th s (Cpu c) = Loaded b e p"
  shows "dt_inv N (goto (Cpu c) (Ticket b e p (dt_head (ds_lock s))) (set_lock (ds_lock s \<lparr> dt_head := dt_head (ds_lock s) + 1 \<rparr>) s))" (is "dt_inv N ?s")
proof -
  note c = inv_cpu [OF assms(1), of c]
  have ck: "cpu_ok ?s c" using c assms by (simp add: cpu_ok_def phases)
  have "delegation_ok N ?s" by (rule delegation_step [OF _ ck, of N s]) (use assms in \<open>auto simp: dt_inv_def delegation_ok_def low_def\<close>)
  then show ?thesis using tickets_take [of N "ds_lock s" "ds_th s" c b e p] assms c by (simp add: dt_inv_def)
qed

lemma inv_register:
  assumes "dt_inv N s" "ds_th s (Cpu c) = Ticket b e p h"
  shows "dt_inv N (goto (Cpu c) (Spin b e p h) (set_lock (dtlock_register (ds_lock s) h c (wait_flags b e)) s))" (is "dt_inv N ?s")
proof -
  note c = inv_cpu [OF assms(1), of c]
  have ok: "tickets_ok N (ds_lock s) (ds_th s)" using assms(1) by (simp add: dt_inv_def)
  note f = tickets_facts [OF ok]
  have sz: "length (waitqueue (ds_lock s)) = dt_size (ds_lock s)" "0 < dt_size (ds_lock s)" using f(1) by (auto simp: lock_ok_def)
  note r = register_parts [OF sz]
  have "low (ds_lock s) (ds_th s) \<le> h" using moved_facts(2) [OF f(5), of c h] assms(2) by (cases "h < low (ds_lock s) (ds_th s)") auto
  moreover have low: "low (ds_lock ?s) (ds_th ?s) = low (ds_lock s) (ds_th s)" using assms(2) by (simp add: low_def r)
  ultimately have ck: "cpu_ok ?s c" using c assms by (simp add: cpu_ok_def phases r)
  have "delegation_ok N ?s" by (rule delegation_step [OF _ ck, of N s]) (use assms low in \<open>auto simp: dt_inv_def delegation_ok_def r\<close>)
  then show ?thesis using tickets_register [OF ok assms(2)] assms c by (simp add: dt_inv_def)
qed

lemma inv_acquired:
  assumes "dt_inv N s" "ds_th s (Cpu c) = Turn b e p h" "item_ticket (items (ds_lock s) ! c) \<noteq> h"
  shows "dt_inv N (goto (Cpu c) Holds (set_lock (set_flags c (wait_flags b e) (ds_lock s)) s))" (is "dt_inv N ?s")
proof -
  note c = inv_cpu [OF assms(1), of c]
  have ok: "tickets_ok N (ds_lock s) (ds_th s)" using assms(1) by (simp add: dt_inv_def)
  note f = tickets_facts [OF ok]
  have a: "tickets_ok N (ds_lock s) ((ds_th s)(Cpu c := Holds))" "holders (ds_th s) = {}" "h = dt_next (ds_lock s) - 1"
    using tickets_acquire [OF ok assms(2,3)] by auto
  have same: "same_tickets (ds_lock s) (set_flags c (wait_flags b e) (ds_lock s))" using c assms(2)
    by (auto simp: same_tickets_def set_flags_def) (metis dtlock_item.select_convs(1) dtlock_item.surjective dtlock_item.update_convs(7) nth_list_update_eq nth_list_update_neq)
  have low: "low (ds_lock ?s) (ds_th ?s) = dt_next (ds_lock s)" "low (ds_lock s) (ds_th s) = h"
    using a same by (simp_all add: low_def holders_upd same_tickets_def)
  have ck: "cpu_ok ?s c" using c assms low by (simp add: cpu_ok_def phases set_flags_def in_step_def)
  have "k \<noteq> c \<Longrightarrow> ticket_of (ds_th s (Cpu k)) = Some j \<Longrightarrow> j \<noteq> h" for k j
    using own_facts(5) [OF f(2), of "Cpu k" j "Cpu c"] assms(2) by auto
  then have other: "k \<noteq> c \<Longrightarrow> ticket_of (ds_th s (Cpu k)) = Some j \<Longrightarrow> j < dt_next (ds_lock s) \<longleftrightarrow> j < h" for k j
    using a(3) by fastforce
  have "delegation_ok N ?s" by (rule delegation_step [OF _ ck, of N s]) (use assms low other in \<open>auto simp: dt_inv_def delegation_ok_def set_flags_def\<close>)
  then show ?thesis using tickets_same [OF same a(1)] by (simp add: dt_inv_def)
qed

lemma inv_submitter:
  assumes "dt_inv N s" "ds_th s (Submitter u) \<noteq> Holds" "x = Outside \<or> x = TryHead (dt_head (ds_lock s)) \<or>
    (\<exists>h. x = TryTicket h \<and> ds_th s (Submitter u) = TryHead h \<and> wq_ticket (ds_lock s) (slot (ds_lock s) h) = h)" "ticket_of (ds_th s (Submitter u)) = None"
    "entry_of (ds_th s (Submitter u)) = None"
  shows "dt_inv N (goto (Submitter u) x s)"
proof -
  have ok: "tickets_ok N (ds_lock s) (ds_th s)" and dg: "delegation_ok N s" using assms(1) by (simp_all add: dt_inv_def)
  note f = tickets_facts [OF ok]
  have "holders (ds_th s) = {} \<and> dt_next (ds_lock s) - 1 = h" if "wq_ticket (ds_lock s) (slot (ds_lock s) h) = h" "h = dt_head (ds_lock s)" for h
  proof -
    have "h < dt_next (ds_lock s)" using f(1) that(1) by (metis lock_ok_def slot_def mod_less_divisor not_less0 not_gr_zero)
    then show ?thesis using own_facts(2) [OF f(2)] that(2) by (auto simp: low_def split: if_splits)
  qed
  moreover have "h \<le> dt_head (ds_lock s)" if "ds_th s (Submitter u) = TryHead h" for h using f(3) that by (auto simp: roles_ok_def)
  ultimately have "tickets_ok N (ds_lock s) ((ds_th s)(Submitter u := x))" using assms(2-5) by (intro tickets_goto [OF ok]) auto
  moreover have "delegation_ok N (goto (Submitter u) x (set_lock (ds_lock s) s))"
    by (rule delegation_submitter [OF dg, of _ "ds_th s"]) (use assms(2,3) in \<open>auto simp: low_def\<close>)
  moreover have "set_lock (ds_lock s) s = s" by (simp add: set_lock_def)
  ultimately show ?thesis by (simp add: dt_inv_def)
qed

lemma inv_try:
  assumes "dt_inv N s" "ds_th s (Submitter u) = TryTicket h" "dt_head (ds_lock s) = h"
  shows "dt_inv N (goto (Submitter u) Holds (set_lock (ds_lock s \<lparr> dt_head := h + 1 \<rparr>) s))"
proof -
  have ok: "tickets_ok N (ds_lock s) (ds_th s)" and dg: "delegation_ok N s" using assms(1) by (simp_all add: dt_inv_def)
  note f = tickets_facts [OF ok]
  have t: "tickets_ok N (ds_lock s \<lparr> dt_head := h + 1 \<rparr>) ((ds_th s)(Submitter u := Holds))" "holders (ds_th s) = {}"
    using tickets_try [OF ok, of u] assms(2,3) by auto
  have n: "dt_next (ds_lock s) - 1 = h" using f(3) assms(2,3) by (auto simp: roles_ok_def)
  have "j < h" if "ticket_of (ds_th s (Cpu c)) = Some j" for c j using own_facts(3) [OF f(2) that] assms(3) by simp
  then have "delegation_ok N (goto (Submitter u) Holds (set_lock (ds_lock s \<lparr> dt_head := h + 1 \<rparr>) s))"
    by (intro delegation_submitter [OF dg, of _ "ds_th s"]) (use assms(3) t(2) n in \<open>fastforce simp: low_def holders_upd\<close>)+
  then show ?thesis using t by (simp add: dt_inv_def)
qed

lemma inv_unlock:
  assumes "dt_inv N s" "ds_th s a = Holds"
  shows "dt_inv N (goto a Outside (set_lock (dtlock_unlock (ds_lock s)) s))" (is "dt_inv N ?s")
proof -
  have ok: "tickets_ok N (ds_lock s) (ds_th s)" and dg: "delegation_ok N s" using assms(1) by (simp_all add: dt_inv_def)
  have sz: "length (waitqueue (ds_lock s)) = dt_size (ds_lock s)" "0 < dt_size (ds_lock s)" using ok by (auto simp: lock_ok_def tickets_ok_def)
  note t = tickets_unlock [OF ok assms(2)] and r = popfront_parts [OF sz]
  have "delegation_ok N ?s"
  proof (cases a)
    case (Cpu c)
    have ck: "cpu_ok ?s c" using inv_cpu [OF assms(1), of c] assms(2) by (simp add: Cpu cpu_ok_def phases dtlock_unlock_def r)
    show ?thesis by (rule delegation_step [OF dg ck]) (use dg t in \<open>auto simp: Cpu delegation_ok_def dtlock_unlock_def r\<close>)
  next
    case (Submitter u)
    show ?thesis unfolding Submitter
      by (rule delegation_submitter [OF dg, of _ "ds_th s"]) (use t in \<open>auto simp: Submitter dtlock_unlock_def r\<close>)
  qed
  then show ?thesis using t by (simp add: dt_inv_def)
qed

lemma inv_move:
  assumes "dt_inv N s" "ds_th s (Cpu k) = Holds" "\<not> dtlock_empty (ds_lock s)" "c = dtlock_front (ds_lock s)" "dtlock_popfront_wait (ds_lock s) c = Some d"
  shows "dt_inv N (set_lock d s \<lparr> ds_waiters := insert c (ds_waiters s) \<rparr>)" (is "dt_inv N ?s")
proof -
  have ok: "tickets_ok N (ds_lock s) (ds_th s)" and dg: "delegation_ok N s" using assms(1) by (simp_all add: dt_inv_def)
  note f = tickets_facts [OF ok]
  have sz: "length (waitqueue (ds_lock s)) = dt_size (ds_lock s)" "0 < dt_size (ds_lock s)" using f(1) by (auto simp: lock_ok_def)
  have held: "holders (ds_th s) \<noteq> {}" using assms(2) by (auto simp: holders_def)
  obtain fl where c: "c < N" "entry_of (ds_th s (Cpu c)) = Some (dt_next (ds_lock s), fl)" "node_flags (waitqueue (ds_lock s) ! slot (ds_lock s) (dt_next (ds_lock s))) = fl"
    using front_entry [OF ok assms(3)] assms(4) by metis
  have t: "tickets_ok N d (ds_th s)" using tickets_move [OF ok held c(2,1) assms(5)] .
  have cs: "c < dt_size (ds_lock s)" using c(1) f(1) by (simp add: lock_ok_def)
  have d: "dt_next d = Suc (dt_next (ds_lock s))" "cpu_sleep_vars d = cpu_sleep_vars (ds_lock s)"
    "items d = (items (ds_lock s))[c := (items (ds_lock s) ! c) \<lparr> item_flags := fl, item_ticket := dt_next (ds_lock s) \<rparr>]"
    using popfront_wait_Some [OF cs] assms(5) c(3) by (metis option.inject)+
  have low: "low d (ds_th s) = Suc (dt_next (ds_lock s))" "low (ds_lock s) (ds_th s) = dt_next (ds_lock s)" using held d by (simp_all add: low_def)
  have ic: "c < length (items (ds_lock s))" using cs f(1) by (simp add: lock_ok_def)
  have ckc: "cpu_ok s c" using dg c(1) by (simp add: delegation_ok_def)
  have ck: "cpu_ok ?s c" using ckc c(2) low ic by (cases "ds_th s (Cpu c)") (auto simp: cpu_ok_def phases d in_step_def)
  have "delegation_ok N ?s"
  proof (rule delegation_step [OF dg ck])
    fix j h assume "j \<noteq> c" and h: "ticket_of (ds_th s (Cpu j)) = Some h"
    then have "h \<noteq> dt_next (ds_lock s)" using own_facts(5) [OF f(2) h, of "Cpu c"] entry_ticket [OF c(2)] by auto
    then show "h < low (ds_lock ?s) (ds_th ?s) \<longleftrightarrow> h < low (ds_lock s) (ds_th s)" using low by auto
  qed (use dg c(1) d in \<open>auto simp: delegation_ok_def\<close>)
  then show ?thesis using t by (simp add: dt_inv_def)
qed

lemma serve_effect:
  assumes "dtlock_serve d c it cnt sig = Some d'" "c < length (items d)"
  shows "same_tickets d d' \<and> (\<forall>k. k \<noteq> c \<longrightarrow> items d' ! k = items d ! k \<and> cpu_sleep_vars d' ! k = cpu_sleep_vars d ! k) \<and>
    item_ptr (items d' ! c) = it \<and> (in_step (items d ! c) \<longrightarrow> in_step (items d' ! c)) \<and>
    (if sig = DTLOCK_SIGNAL_WAKE
     then signal_cnt (items d' ! c) = signal_cnt (items d ! c) \<and> signal_sleep (items d' ! c) = signal_sleep (items d ! c) \<and>
       (c < length (cpu_sleep_vars d) \<longrightarrow> cpu_sleep_vars d' ! c = cpu_sleep_vars d ! c - 1)
     else (in_step (items d ! c) \<longrightarrow> signal_cnt (items d' ! c) \<noteq> signal_cnt (items d ! c)) \<and> signal_sleep (items d' ! c) = (sig = DTLOCK_SIGNAL_SLEEP) \<and>
       cpu_sleep_vars d' = cpu_sleep_vars d)"
  using assms word_succ_mod [of "item_next (items d ! c)"]
  by (cases sig) (auto simp: dtlock_serve_def Let_def same_tickets_def in_step_def nosv_futex_signal_def nth_list_update)

lemma inv_serve_common:
  assumes "dt_inv N s" "ds_th s (Cpu k) = Holds" "c < N" "dtlock_serve (ds_lock s) c it cnt sig = Some d"
    "s' = set_lock d s \<lparr> ds_waiters := W, ds_sleepers := S, ds_sent := sent \<rparr>" "W \<union> S \<subseteq> {..<N}" "cpu_ok s' c"
    "\<And>j. j \<noteq> c \<Longrightarrow> (j \<in> W \<longleftrightarrow> j \<in> ds_waiters s) \<and> (j \<in> S \<longleftrightarrow> j \<in> ds_sleepers s) \<and> sent j = ds_sent s j"
  shows "dt_inv N s'"
proof -
  have ok: "tickets_ok N (ds_lock s) (ds_th s)" and dg: "delegation_ok N s" using assms(1) by (simp_all add: dt_inv_def)
  have "c < length (items (ds_lock s))" using ok assms(3) by (simp add: tickets_ok_def lock_ok_def)
  then have e: "same_tickets (ds_lock s) d" "\<And>j. j \<noteq> c \<Longrightarrow> items d ! j = items (ds_lock s) ! j \<and> cpu_sleep_vars d ! j = cpu_sleep_vars (ds_lock s) ! j"
    using serve_effect [OF assms(4)] by auto
  have "delegation_ok N s'"
    by (rule delegation_step [OF dg assms(7)]) (use assms(5,6,8) e same_tickets_parts [OF e(1)] in auto)
  then show ?thesis using tickets_same [OF e(1) ok] assms(5) by (simp add: dt_inv_def)
qed

lemma waiter_phase:
  assumes "dt_inv N s" "c \<in> ds_waiters s"
  obtains b e p where "second_place s c b e p" "signal_cnt (items (ds_lock s) ! c) = p" "item_flags (items (ds_lock s) ! c) = wait_flags b e" "c < N"
    "ds_th s (Cpu c) = Wait b e p \<or> (\<exists>h. h < low (ds_lock s) (ds_th s) \<and> (ds_th s (Cpu c) = Spin b e p h \<or> ds_th s (Cpu c) = Turn b e p h))"
proof -
  have c: "c < N" using assms by (auto simp: dt_inv_def delegation_ok_def)
  have ck: "cpu_ok s c" using assms(1) c by (simp add: dt_inv_def delegation_ok_def)
  then show ?thesis using assms(2) c that
    by (cases "ds_th s (Cpu c)") (auto simp: cpu_ok_def phases Let_def split: if_splits)
qed

lemma serve_facts:
  assumes "dt_inv N s" "c < N" "dtlock_serve (ds_lock s) c it cnt sig = Some d"
  shows "same_tickets (ds_lock s) d" "item_ptr (items d ! c) = it" "in_step (items d ! c)"
    "sig = DTLOCK_SIGNAL_WAKE \<Longrightarrow> signal_cnt (items d ! c) = signal_cnt (items (ds_lock s) ! c) \<and> signal_sleep (items d ! c) = signal_sleep (items (ds_lock s) ! c) \<and>
      cpu_sleep_vars d ! c = cpu_sleep_vars (ds_lock s) ! c - 1"
    "sig \<noteq> DTLOCK_SIGNAL_WAKE \<Longrightarrow> signal_cnt (items d ! c) \<noteq> signal_cnt (items (ds_lock s) ! c) \<and> signal_sleep (items d ! c) = (sig = DTLOCK_SIGNAL_SLEEP) \<and>
      cpu_sleep_vars d = cpu_sleep_vars (ds_lock s)"
proof -
  have "c < length (items (ds_lock s))" "c < length (cpu_sleep_vars (ds_lock s))" "in_step (items (ds_lock s) ! c)"
    using assms(1,2) by (auto simp: dt_inv_def tickets_ok_def lock_ok_def delegation_ok_def cpu_ok_def)
  then show "same_tickets (ds_lock s) d" "item_ptr (items d ! c) = it" "in_step (items d ! c)"
    "sig = DTLOCK_SIGNAL_WAKE \<Longrightarrow> signal_cnt (items d ! c) = signal_cnt (items (ds_lock s) ! c) \<and> signal_sleep (items d ! c) = signal_sleep (items (ds_lock s) ! c) \<and>
      cpu_sleep_vars d ! c = cpu_sleep_vars (ds_lock s) ! c - 1"
    "sig \<noteq> DTLOCK_SIGNAL_WAKE \<Longrightarrow> signal_cnt (items d ! c) \<noteq> signal_cnt (items (ds_lock s) ! c) \<and> signal_sleep (items d ! c) = (sig = DTLOCK_SIGNAL_SLEEP) \<and>
      cpu_sleep_vars d = cpu_sleep_vars (ds_lock s)"
    using serve_effect [OF assms(3)] by auto
qed

lemma inv_serve:
  assumes "dt_inv N s" "ds_th s (Cpu k) = Holds" "c \<in> ds_waiters s" "dtlock_serve (ds_lock s) c it cnt DTLOCK_SIGNAL_DEFAULT = Some d"
  shows "dt_inv N (set_lock d s \<lparr> ds_waiters := ds_waiters s - {c}, ds_sent := (ds_sent s)(c := ds_sent s c @ [it]) \<rparr>)" (is "dt_inv N ?s")
proof -
  obtain b e p where w: "second_place s c b e p" "signal_cnt (items (ds_lock s) ! c) = p" "c < N"
    "ds_th s (Cpu c) = Wait b e p \<or> (\<exists>h. h < low (ds_lock s) (ds_th s) \<and> (ds_th s (Cpu c) = Spin b e p h \<or> ds_th s (Cpu c) = Turn b e p h))"
    using waiter_phase [OF assms(1,3)] by metis
  note e = serve_facts [OF assms(1) w(3) assms(4)]
  have low: "low d (ds_th s) = low (ds_lock s) (ds_th s)" using same_tickets_parts [OF e(1)] by simp
  have "second_place ?s c b e p" using w(1,2) e(2,5) by (auto simp: phases Let_def)
  then have ck: "cpu_ok ?s c" using w(4) e(3) low by (auto simp: cpu_ok_def)
  show ?thesis
    by (rule inv_serve_common [OF assms(1,2) w(3) assms(4) _ _ ck, where W = "ds_waiters s - {c}" and S = "ds_sleepers s" and sent = "(ds_sent s)(c := ds_sent s c @ [it])"])
      (use assms(1) in \<open>auto simp: dt_inv_def delegation_ok_def set_lock_def\<close>)
qed

lemma inv_serve_sleep:
  assumes "dt_inv N s" "ds_th s (Cpu k) = Holds" "c \<in> ds_waiters s" "dtlock_is_cpu_blockable (ds_lock s) c"
    "dtlock_serve (ds_lock s) c ItemNull 0 DTLOCK_SIGNAL_SLEEP = Some d"
  shows "dt_inv N (set_lock d s \<lparr> ds_waiters := ds_waiters s - {c}, ds_sleepers := insert c (ds_sleepers s) \<rparr>)" (is "dt_inv N ?s")
proof -
  obtain b e p where w: "second_place s c b e p" "signal_cnt (items (ds_lock s) ! c) = p" "item_flags (items (ds_lock s) ! c) = wait_flags b e" "c < N"
    "ds_th s (Cpu c) = Wait b e p \<or> (\<exists>h. h < low (ds_lock s) (ds_th s) \<and> (ds_th s (Cpu c) = Spin b e p h \<or> ds_th s (Cpu c) = Turn b e p h))"
    using waiter_phase [OF assms(1,3)] by metis
  note e = serve_facts [OF assms(1) w(4) assms(5)]
  have b using assms(4) w(3) by (cases b; cases e) (auto simp: dtlock_is_cpu_blockable_def wait_flags_def dt_flags)
  have low: "low d (ds_th s) = low (ds_lock s) (ds_th s)" using same_tickets_parts [OF e(1)] by simp
  have "second_place ?s c b e p" using w(1,2) e(5) \<open>b\<close> by (auto simp: phases Let_def)
  then have ck: "cpu_ok ?s c" using w(5) e(3) low by (auto simp: cpu_ok_def)
  show ?thesis
    by (rule inv_serve_common [OF assms(1,2) w(4) assms(5) _ _ ck, where W = "ds_waiters s - {c}" and S = "insert c (ds_sleepers s)" and sent = "ds_sent s"])
      (use assms(1) w(4) in \<open>auto simp: dt_inv_def delegation_ok_def set_lock_def\<close>)
qed

lemma inv_serve_wake:
  assumes "dt_inv N s" "ds_th s (Cpu k) = Holds" "c \<in> ds_sleepers s" "dtlock_serve (ds_lock s) c it cnt DTLOCK_SIGNAL_WAKE = Some d"
  shows "dt_inv N (set_lock d s \<lparr> ds_sleepers := ds_sleepers s - {c}, ds_sent := (ds_sent s)(c := ds_sent s c @ [it]) \<rparr>)" (is "dt_inv N ?s")
proof -
  have c: "c < N" "cpu_ok s c" using assms(1,3) by (auto simp: dt_inv_def delegation_ok_def)
  note e = serve_facts [OF assms(1) c(1) assms(4)]
  have low: "low d (ds_th s) = low (ds_lock s) (ds_th s)" using same_tickets_parts [OF e(1)] by simp
  have ck: "cpu_ok ?s c" using c(2) assms(3) e(2-4) low by (cases "ds_th s (Cpu c)") (auto simp: cpu_ok_def phases Let_def split: if_splits)
  show ?thesis
    by (rule inv_serve_common [OF assms(1,2) c(1) assms(4) _ _ ck, where W = "ds_waiters s" and S = "ds_sleepers s - {c}" and sent = "(ds_sent s)(c := ds_sent s c @ [it])"])
      (use assms(1) in \<open>auto simp: dt_inv_def delegation_ok_def set_lock_def\<close>)
qed

lemma submitter_no_ticket:
  assumes "dt_inv N s"
  shows "ticket_of (ds_th s (Submitter u)) = None" "entry_of (ds_th s (Submitter u)) = None"
proof -
  have "own_ok N (ds_lock s) (ds_th s)" using assms by (simp add: dt_inv_def tickets_ok_def)
  from own_facts(4) [OF this, of "Submitter u"] show t: "ticket_of (ds_th s (Submitter u)) = None" by (cases "ticket_of (ds_th s (Submitter u))") auto
  then show "entry_of (ds_th s (Submitter u)) = None" using entry_ticket by (cases "entry_of (ds_th s (Submitter u))") force+
qed

theorem dt_step_invariant: "dt_step N s s' \<Longrightarrow> dt_inv N s \<Longrightarrow> dt_inv N s'"
proof (induction rule: dt_step.induct)
  case (read_retry s c b e)
  then show ?case using inv_read [of N s c b e "Start b e"] by simp
next
  case (read_item s c b e it)
  then show ?case using inv_read [of N s c b e Outside] by simp
next
  case (try_head s u)
  then show ?case using submitter_no_ticket [of N s u] by (intro inv_submitter) auto
next
  case (try_fails s u h)
  then show ?case using submitter_no_ticket [of N s u] by (intro inv_submitter) auto
next
  case (try_ticket s u h)
  then show ?case using submitter_no_ticket [of N s u] by (intro inv_submitter) auto
qed (rule inv_enter inv_load inv_take inv_register inv_spun inv_acquired inv_wait_again inv_signalled inv_no_sleep inv_sleep inv_wake_up inv_try inv_unlock
  inv_move inv_serve inv_serve_sleep inv_serve_wake; assumption)+

lemma dt_start_inv:
  assumes "0 < N"
  shows "dt_inv N (dt_start N)"
proof -
  have n: "slot (ds_lock (dt_start N)) (2 * N) = 0" by (simp add: slot_def dt_start_def dtlock_init_def Let_def)
  have "tickets_ok N (ds_lock (dt_start N)) (ds_th (dt_start N))" using assms n
    by (auto simp: tickets_ok_def lock_ok_def own_ok_def roles_ok_def queue_ok_def moved_ok_def dt_start_def dtlock_init_def Let_def low_def holders_def wq_ticket_def wq_cpu_def slot_def nth_list_update)
  moreover have "delegation_ok N (dt_start N)"
    by (auto simp: delegation_ok_def cpu_ok_def phases dt_start_def dtlock_init_def Let_def in_step_def zero_item_def nosv_futex_init_def)
  ultimately show ?thesis by (simp add: dt_inv_def)
qed

lemma reachable_inv:
  assumes "0 < N" "dt_reachable N s"
  shows "dt_inv N s"
  using assms(2) unfolding dt_reachable_def
  by (induction rule: rtranclp_induct) (auto intro: dt_start_inv [OF assms(1)] dt_step_invariant)

subsection \<open>Properties\<close>

lemma unlocked_server_asserts:
  assumes "dt_inv N s" "ds_th s (Cpu k) = Holds"
  shows "\<not> dtlock_empty (ds_lock s) \<Longrightarrow> dtlock_front (ds_lock s) < N \<and> dtlock_front (ds_lock s) \<notin> ds_waiters s \<union> ds_sleepers s"
    "c \<in> ds_waiters s \<Longrightarrow> sig \<noteq> DTLOCK_SIGNAL_WAKE \<Longrightarrow> dtlock_serve (ds_lock s) c it cnt sig \<noteq> None"
    "c \<in> ds_sleepers s \<Longrightarrow> dtlock_serve (ds_lock s) c it cnt DTLOCK_SIGNAL_WAKE \<noteq> None"
proof -
  have ok: "tickets_ok N (ds_lock s) (ds_th s)" and dg: "delegation_ok N s" using assms(1) by (simp_all add: dt_inv_def)
  have sz: "c < N \<Longrightarrow> c < dt_size (ds_lock s)" for c using ok by (simp add: tickets_ok_def lock_ok_def)
  show "dtlock_front (ds_lock s) < N \<and> dtlock_front (ds_lock s) \<notin> ds_waiters s \<union> ds_sleepers s" if "\<not> dtlock_empty (ds_lock s)"
  proof -
    obtain c fl where c: "dtlock_front (ds_lock s) = c" "c < N" "entry_of (ds_th s (Cpu c)) = Some (dt_next (ds_lock s), fl)"
      using front_entry [OF ok \<open>\<not> dtlock_empty (ds_lock s)\<close>] by metis
    have "cpu_ok s c" using dg c(2) by (simp add: delegation_ok_def)
    moreover have "low (ds_lock s) (ds_th s) \<le> dt_next (ds_lock s)" by (simp add: low_def)
    ultimately show ?thesis using c by (cases "ds_th s (Cpu c)") (auto simp: cpu_ok_def phases)
  qed
  show "dtlock_serve (ds_lock s) c it cnt sig \<noteq> None" if "c \<in> ds_waiters s" "sig \<noteq> DTLOCK_SIGNAL_WAKE"
    using sz [of c] dg that by (cases sig) (auto simp: delegation_ok_def dtlock_serve_def Let_def)
  show "dtlock_serve (ds_lock s) c it cnt DTLOCK_SIGNAL_WAKE \<noteq> None" if "c \<in> ds_sleepers s"
  proof -
    have c: "c < N" "cpu_ok s c" using dg that by (auto simp: delegation_ok_def)
    then have "cpu_sleep_vars (ds_lock s) ! c \<in> {0, 1}" using that by (cases "ds_th s (Cpu c)") (auto simp: cpu_ok_def phases Let_def split: if_splits)
    then show ?thesis using sz [OF c(1)] by (auto simp: dtlock_serve_def Let_def nosv_futex_signal_def)
  qed
qed



lemma turn_acquires:
  assumes "dt_inv N s" "ds_th s (Cpu c) = Turn b e p h" "low (ds_lock s) (ds_th s) \<le> h"
  shows "\<exists>s'. dt_step N s s' \<and> ds_th s' = (ds_th s)(Cpu c := Holds)"
proof -
  have "c < dt_size (ds_lock s)" using inv_cpu(1) [OF assms(1), of c] assms(1,2) by (auto simp: dt_inv_def tickets_ok_def lock_ok_def)
  then have "item_ticket (items (ds_lock s) ! c) < low (ds_lock s) (ds_th s)" using assms(1) moved_facts(1) by (auto simp: dt_inv_def tickets_ok_def)
  then have "item_ticket (items (ds_lock s) ! c) \<noteq> h" using assms(3) by simp
  from dt_step.acquired [OF assms(2) this] show ?thesis by force
qed

lemma spin_acquires:
  assumes "dt_inv N s" "ds_th s (Cpu c) = Spin b e p h" "low (ds_lock s) (ds_th s) = h" "h = dt_next (ds_lock s) - 1"
  shows "\<exists>s'. (dt_step N)\<^sup>*\<^sup>* s s' \<and> ds_th s' = (ds_th s)(Cpu c := Holds)"
proof -
  have "wq_ticket (ds_lock s) (slot (ds_lock s) h) = h" using assms(1,4) by (auto simp: dt_inv_def tickets_ok_def lock_ok_def)
  then have st: "dt_step N s (goto (Cpu c) (Turn b e p h) s)" using dt_step.spun [OF assms(2)] by simp
  have "low (ds_lock (goto (Cpu c) (Turn b e p h) s)) (ds_th (goto (Cpu c) (Turn b e p h) s)) = h" using assms(2,3) by (simp add: low_def)
  then obtain s' where "dt_step N (goto (Cpu c) (Turn b e p h) s) s'" "ds_th s' = (ds_th s)(Cpu c := Holds)"
    using turn_acquires [OF dt_step_invariant [OF st assms(1)], of c b e p h] by auto
  then show ?thesis using st by (meson rtranclp.rtrancl_into_rtrancl rtranclp.rtrancl_refl)
qed


lemma second_place_reads:
  assumes "dt_inv N s" "ds_th s (Cpu c) = Read b e"
  shows "\<exists>s'. (dt_step N)\<^sup>*\<^sup>* s s' \<and> ds_got s' c = ds_sent s c \<and> (ds_th s' (Cpu c) = Outside \<or> ds_th s' (Cpu c) = Start b e)"
proof -
  have p: "pending s c 0" using inv_cpu(2) [OF assms(1), of c] assms(2) by (simp add: cpu_ok_def)
  show ?thesis
  proof (cases "item_ptr (items (ds_lock s) ! c) = ItemRetry")
    case True
    then show ?thesis using r_into_rtranclp [of "dt_step N", OF dt_step.read_retry [OF assms(2) True]] p by (intro exI conjI) (auto simp: pending_def)
  next
    case False
    then show ?thesis using r_into_rtranclp [of "dt_step N", OF dt_step.read_item [OF assms(2) refl False]] p by (intro exI conjI) (auto simp: pending_def)
  qed
qed

lemma reads_after:
  assumes "dt_inv N s" "dt_step N s s1" "ds_sent s1 c = ds_sent s c"
    "\<exists>s'. (dt_step N)\<^sup>*\<^sup>* s1 s' \<and> ds_got s' c = ds_sent s1 c \<and> (ds_th s' (Cpu c) = Outside \<or> ds_th s' (Cpu c) = Start b e)"
  shows "\<exists>s'. (dt_step N)\<^sup>*\<^sup>* s s' \<and> ds_got s' c = ds_sent s c \<and> (ds_th s' (Cpu c) = Outside \<or> ds_th s' (Cpu c) = Start b e)"
  using assms by (metis converse_rtranclp_into_rtranclp)

lemma signalled_reads:
  assumes inv: "dt_inv N s" and th: "ds_th s (Cpu c) = Signalled b e sl" and c: "c \<notin> ds_sleepers s"
  shows "\<exists>s'. (dt_step N)\<^sup>*\<^sup>* s s' \<and> ds_got s' c = ds_sent s c \<and> (ds_th s' (Cpu c) = Outside \<or> ds_th s' (Cpu c) = Start b e)"
proof (cases sl)
  case False
  then have st: "dt_step N s (goto (Cpu c) (Read b e) s)" using dt_step.no_sleep th by simp
  show ?thesis by (rule reads_after [OF inv st]) (use second_place_reads [OF dt_step_invariant [OF st inv], of c b e] in simp_all)
next
  case True
  then have "b \<and> cpu_sleep_vars (ds_lock s) ! c = - 1" using inv_cpu(2) [OF inv, of c] th c by (auto simp: cpu_ok_def phases split: if_splits)
  then have w: b "nosv_futex_wait (cpu_sleep_vars (ds_lock s) ! c) = Some (0, False)" by (simp_all add: nosv_futex_wait_def)
  have st: "dt_step N s (goto (Cpu c) (Read b e) (set_lock (set_sleep_var c 0 (ds_lock s)) s))" using dt_step.sleep [OF _ w] th True by simp
  show ?thesis by (rule reads_after [OF inv st]) (use second_place_reads [OF dt_step_invariant [OF st inv], of c b e] in simp_all)
qed

lemma wait_reads:
  assumes inv: "dt_inv N s" and th: "ds_th s (Cpu c) = Wait b e p" and c: "c \<notin> ds_waiters s" "c \<notin> ds_sleepers s"
  shows "\<exists>s'. (dt_step N)\<^sup>*\<^sup>* s s' \<and> ds_got s' c = ds_sent s c \<and> (ds_th s' (Cpu c) = Outside \<or> ds_th s' (Cpu c) = Start b e)"
proof -
  have "signal_cnt (items (ds_lock s) ! c) \<noteq> p" using inv_cpu(2) [OF inv, of c] th c by (auto simp: cpu_ok_def phases Let_def)
  note st = dt_step.signalled [OF th this]
  show ?thesis by (rule reads_after [OF inv st]) (use signalled_reads [OF dt_step_invariant [OF st inv], of c b e] c in simp_all)
qed

lemma turn_reads:
  assumes inv: "dt_inv N s" and th: "ds_th s (Cpu c) = Turn b e p h" "h < low (ds_lock s) (ds_th s)" and c: "c \<notin> ds_waiters s" "c \<notin> ds_sleepers s"
  shows "\<exists>s'. (dt_step N)\<^sup>*\<^sup>* s s' \<and> ds_got s' c = ds_sent s c \<and> (ds_th s' (Cpu c) = Outside \<or> ds_th s' (Cpu c) = Start b e)"
proof -
  have "item_ticket (items (ds_lock s) ! c) = h" using moved_facts(3) [of "ds_lock s" "ds_th s" c h] inv th by (simp add: dt_inv_def tickets_ok_def)
  note st = dt_step.wait_again [OF th(1) this]
  show ?thesis by (rule reads_after [OF inv st]) (use wait_reads [OF dt_step_invariant [OF st inv], of c b e] c in simp_all)
qed


subsection \<open>A run\<close>

text \<open>CPU 0 takes the lock, CPU 1 registers, and CPU 0 moves it and serves it the task 7.\<close>

lemma reachable_start: "dt_reachable N (dt_start N)"
  by (simp add: dt_reachable_def)

lemma reachable_step: "dt_reachable N s \<Longrightarrow> dt_step N s s' \<Longrightarrow> dt_reachable N s'"
  by (simp add: dt_reachable_def)

definition take_turn :: "nat \<Rightarrow> dt_state \<Rightarrow> dt_state" where
  "take_turn c s =
     (let s1 = goto (Cpu c) (Start True False) s; p = signal_cnt (items (ds_lock s1) ! c); s2 = goto (Cpu c) (Loaded True False p) s1; h = dt_head (ds_lock s2);
          s3 = goto (Cpu c) (Ticket True False p h) (set_lock (ds_lock s2 \<lparr> dt_head := dt_head (ds_lock s2) + 1 \<rparr>) s2)
      in goto (Cpu c) (Spin True False p h) (set_lock (dtlock_register (ds_lock s3) h c (wait_flags True False)) s3))"

lemma take_turn_reachable:
  assumes "dt_reachable N s" "c < N" "ds_th s (Cpu c) = Outside"
  shows "dt_reachable N (take_turn c s)"
proof -
  have 1: "dt_reachable N (goto (Cpu c) (Start True False) s)" (is "dt_reachable N ?s1") by (rule reachable_step [OF assms(1)]) (rule dt_step.enter [OF assms(2,3)])
  have 2: "dt_reachable N (goto (Cpu c) (Loaded True False (signal_cnt (items (ds_lock ?s1) ! c))) ?s1)" (is "dt_reachable N ?s2")
    by (rule reachable_step [OF 1]) (rule dt_step.load_signal, simp)
  have 3: "dt_reachable N (goto (Cpu c) (Ticket True False (signal_cnt (items (ds_lock ?s1) ! c)) (dt_head (ds_lock ?s2))) (set_lock (ds_lock ?s2 \<lparr> dt_head := dt_head (ds_lock ?s2) + 1 \<rparr>) ?s2))"
    by (rule reachable_step [OF 2]) (rule dt_step.take_ticket, simp)
  show ?thesis unfolding take_turn_def Let_def by (rule reachable_step [OF 3]) (rule dt_step.register, simp)
qed

definition run_spin :: dt_state where "run_spin = take_turn 0 (dt_start 2)"
definition run_turn :: dt_state where "run_turn = goto (Cpu 0) (Turn True False 0 4) run_spin"
definition run_holds :: dt_state where "run_holds = goto (Cpu 0) Holds (set_lock (set_flags 0 (wait_flags True False) (ds_lock run_turn)) run_turn)"
definition run_two :: dt_state where "run_two = take_turn 1 run_holds"
definition run_moved :: dt_state where
  "run_moved = set_lock (the (dtlock_popfront_wait (ds_lock run_two) 1)) run_two \<lparr> ds_waiters := insert 1 (ds_waiters run_two) \<rparr>"
definition run_served :: dt_state where
  "run_served = set_lock (the (dtlock_serve (ds_lock run_moved) 1 (ItemTask 7) 1 DTLOCK_SIGNAL_DEFAULT)) run_moved
     \<lparr> ds_waiters := ds_waiters run_moved - {1}, ds_sent := (ds_sent run_moved)(1 := ds_sent run_moved 1 @ [ItemTask 7]) \<rparr>"

lemma run_projections:
  "ds_th run_moved = ds_th run_two" "ds_waiters run_moved = insert 1 (ds_waiters run_two)" "ds_sent run_moved = ds_sent run_two" "ds_got run_moved = ds_got run_two"
  "ds_th run_served = ds_th run_moved" "ds_sent run_served = (ds_sent run_moved)(1 := ds_sent run_moved 1 @ [ItemTask 7])" "ds_got run_served = ds_got run_moved"
  "ds_sent run_two = (\<lambda>_. [])" "ds_got run_two = (\<lambda>_. [])" "holders (ds_th run_spin) = {}" "ds_th run_two (Cpu 0) = Holds"
  by (simp_all add: run_moved_def run_served_def run_two_def run_holds_def run_turn_def run_spin_def take_turn_def Let_def dt_start_def holders_def)

lemma run_reachable: "dt_reachable 2 run_spin" "dt_reachable 2 run_holds" "dt_reachable 2 run_served"
proof -
  have o: "ds_th (dt_start 2) (Cpu 0) = Outside" by code_simp
  show 1: "dt_reachable 2 run_spin" unfolding run_spin_def by (rule take_turn_reachable [OF reachable_start _ o]) simp
  have "ds_th run_spin (Cpu 0) = Spin True False 0 4" "4 \<le> wq_ticket (ds_lock run_spin) (slot (ds_lock run_spin) 4)" by code_simp+
  then have 2: "dt_reachable 2 run_turn" unfolding run_turn_def by (intro reachable_step [OF 1] dt_step.spun)
  have "ds_th run_turn (Cpu 0) = Turn True False 0 4" "item_ticket (items (ds_lock run_turn) ! 0) \<noteq> 4" by code_simp+
  then show 3: "dt_reachable 2 run_holds" unfolding run_holds_def by (intro reachable_step [OF 2] dt_step.acquired)
  have o: "ds_th run_holds (Cpu 1) = Outside" by code_simp
  have 4: "dt_reachable 2 run_two" unfolding run_two_def by (rule take_turn_reachable [OF 3 _ o]) simp
  have "\<not> dtlock_empty (ds_lock run_two)" "1 = dtlock_front (ds_lock run_two)"
    "dtlock_popfront_wait (ds_lock run_two) 1 = Some (the (dtlock_popfront_wait (ds_lock run_two) 1))" by code_simp+
  then have 5: "dt_reachable 2 run_moved" unfolding run_moved_def by (intro reachable_step [OF 4] dt_step.move [OF run_projections(11)])
  have h: "ds_th run_moved (Cpu 0) = Holds" "1 \<in> ds_waiters run_moved" by (simp_all add: run_projections)
  then have "dtlock_serve (ds_lock run_moved) 1 (ItemTask 7) 1 DTLOCK_SIGNAL_DEFAULT \<noteq> None"
    using unlocked_server_asserts(2) [OF reachable_inv [OF _ 5] h(1) h(2)] by simp
  then have "dtlock_serve (ds_lock run_moved) 1 (ItemTask 7) 1 DTLOCK_SIGNAL_DEFAULT = Some (the (dtlock_serve (ds_lock run_moved) 1 (ItemTask 7) 1 DTLOCK_SIGNAL_DEFAULT))" by simp
  then show "dt_reachable 2 run_served" unfolding run_served_def by (intro reachable_step [OF 5] dt_step.serve [OF h])
qed





end
