(* ===== verification/Toml.thy ===== *)
theory Toml
  imports Topology_Init
begin

unbundle bit_operations_syntax

section \<open>Tables and raw values of the configuration file (config/toml.c)\<close>

text \<open>
  The configuration reads its file through tomlc99. The library keeps a value as the raw text of the file and converts it when it is asked for one: modelled are the tables as the parser leaves them,
  the accessors, and the conversions of a raw value to a boolean, an integer and a string, with the escapes and the UTF-8 encoding. The parser that builds the tables is a parameter of the
  configuration. A null pointer and the failure of a conversion are \<^term>\<open>None\<close>; that the memory is exhausted is not modelled.
\<close>

subsection \<open>Numbers in strings\<close>

text \<open>\<open>strtoull\<close> and \<open>strtoll\<close> of the C library: white space, a sign, in base 16 the prefix 0x, and the digits; base 0 takes the base from the prefix. The result is the value, the rest of the string,
  and whether \<open>errno\<close> was set. Without digits the value is zero, the rest is the whole string and there is no error. A number that is too large gives the greatest value; a minus negates the
  unsigned value.\<close>

definition digit_value :: "char \<Rightarrow> nat" where
  "digit_value c = (case hex_digit c of None \<Rightarrow> 16 | Some n \<Rightarrow> n)"

definition number_value :: "nat \<Rightarrow> string \<Rightarrow> nat" where
  "number_value base ds = foldl (\<lambda>v c. base * v + digit_value c) 0 ds"

definition hex_prefix :: "string \<Rightarrow> bool" where
  "hex_prefix u = (length u > 2 \<and> hd u = CHR ''0'' \<and> u ! 1 \<in> {CHR ''x'', CHR ''X''} \<and> digit_value (u ! 2) < 16)"

definition number_base :: "nat \<Rightarrow> string \<Rightarrow> nat" where
  "number_base base u = (if base \<noteq> 0 then base else if hex_prefix u then 16 else if u \<noteq> [] \<and> hd u = CHR ''0'' then 8 else 10)"

text \<open>The sign, the base, the digits and the rest.\<close>

definition scan_number :: "nat \<Rightarrow> string \<Rightarrow> (bool \<times> nat \<times> string \<times> string) option" where
  "scan_number base0 str =
     (let t = dropWhile is_space str;
          neg = (t \<noteq> [] \<and> hd t = CHR ''-'');
          u = (if t \<noteq> [] \<and> (hd t = CHR ''-'' \<or> hd t = CHR ''+'') then tl t else t);
          base = number_base base0 u;
          v = (if base = 16 \<and> hex_prefix u then drop 2 u else u);
          ds = takeWhile (\<lambda>c. digit_value c < base) v
      in if ds = [] then None else Some (neg, base, ds, drop (length ds) v))"

definition strtoull :: "string \<Rightarrow> nat \<Rightarrow> u64 \<times> string \<times> bool" where
  "strtoull str base0 =
     (case scan_number base0 str of
        None \<Rightarrow> (0, str, False)
      | Some (neg, base, ds, rest) \<Rightarrow>
          (let v = number_value base ds
           in if v \<ge> 2 ^ 64 then (- 1, rest, True) else (if neg then - of_nat v else of_nat v, rest, False)))"

definition strtoll :: "string \<Rightarrow> nat \<Rightarrow> int \<times> string \<times> bool" where
  "strtoll str base0 =
     (case scan_number base0 str of
        None \<Rightarrow> (0, str, False)
      | Some (neg, base, ds, rest) \<Rightarrow>
          (let v = int (number_value base ds); r = (if neg then - v else v)
           in if r > 2 ^ 63 - 1 then (2 ^ 63 - 1, rest, True) else if r < - (2 ^ 63) then (- (2 ^ 63), rest, True) else (r, rest, False)))"

subsection \<open>Tables\<close>

text \<open>A table has its values, its arrays and its tables in three lists with their keys; an item of an array is a value, an array or a table.\<close>

datatype toml_table_t = Toml_Table (tt_kval: "(string \<times> string) list") (tt_arr: "(string \<times> toml_array_t) list") (tt_tab: "(string \<times> toml_table_t) list")
  and toml_array_t = Toml_Array (ta_item: "toml_arritem_t list")
  and toml_arritem_t = Toml_Val string | Toml_Arr toml_array_t | Toml_Tab toml_table_t

definition toml_raw_in :: "toml_table_t \<Rightarrow> string \<Rightarrow> string option" where
  "toml_raw_in tab key = map_of (tt_kval tab) key"

definition toml_array_in :: "toml_table_t \<Rightarrow> string \<Rightarrow> toml_array_t option" where
  "toml_array_in tab key = map_of (tt_arr tab) key"

definition toml_table_in :: "toml_table_t \<Rightarrow> string \<Rightarrow> toml_table_t option" where
  "toml_table_in tab key = map_of (tt_tab tab) key"

definition toml_array_nelem :: "toml_array_t \<Rightarrow> nat" where
  "toml_array_nelem arr = length (ta_item arr)"

definition toml_raw_at :: "toml_array_t \<Rightarrow> nat \<Rightarrow> string option" where
  "toml_raw_at arr idx = (if idx < toml_array_nelem arr then (case ta_item arr ! idx of Toml_Val v \<Rightarrow> Some v | _ \<Rightarrow> None) else None)"

definition toml_array_at :: "toml_array_t \<Rightarrow> nat \<Rightarrow> toml_array_t option" where
  "toml_array_at arr idx = (if idx < toml_array_nelem arr then (case ta_item arr ! idx of Toml_Arr a \<Rightarrow> Some a | _ \<Rightarrow> None) else None)"

subsection \<open>Booleans and integers\<close>

definition toml_rtob :: "string option \<Rightarrow> bool option" where
  "toml_rtob src =
     (case src of
        None \<Rightarrow> None
      | Some s \<Rightarrow> if s = ''true'' then Some True else if s = ''false'' then Some False else None)"

text \<open>Underscores between the digits are left out. The first argument is the room in the buffer: a number that fills it is refused.\<close>

fun strip_underscores :: "nat \<Rightarrow> string \<Rightarrow> string option" where
  "strip_underscores room [] = (if room = 0 then None else Some [])"
| "strip_underscores room (ch # s) =
     (if room = 0 then None
      else if ch = CHR ''_'' then (if s = [] \<or> hd s = CHR ''_'' then None else strip_underscores room s)
      else map_option ((#) ch) (strip_underscores (room - 1) s))"

definition rtoi_digits :: "string \<Rightarrow> string \<Rightarrow> nat \<Rightarrow> int option" where
  "rtoi_digits sign s base =
     do { digits \<leftarrow> strip_underscores (100 - length sign) s;
          (case strtoll (sign @ digits) base of (v, endp, err) \<Rightarrow> if err \<or> endp \<noteq> [] then None else Some v) }"

definition toml_rtoi :: "string option \<Rightarrow> int option" where
  "toml_rtoi src =
     do { raw \<leftarrow> src;
          let signed = (raw \<noteq> [] \<and> (hd raw = CHR ''+'' \<or> hd raw = CHR ''-''));
          let sign = (if signed then [hd raw] else []);
          let s = (if signed then tl raw else raw);
          if s \<noteq> [] \<and> hd s = CHR ''_'' then None
          else if s \<noteq> [] \<and> hd s = CHR ''0'' then
            (case tl s of
               [] \<Rightarrow> Some 0
             | c # s2 \<Rightarrow> if c = CHR ''x'' then rtoi_digits sign s2 16 else if c = CHR ''o'' then rtoi_digits sign s2 8
                 else if c = CHR ''b'' then rtoi_digits sign s2 2 else None)
          else rtoi_digits sign s 0 }"

subsection \<open>UTF-8\<close>

definition toml_ucs_to_utf8 :: "int \<Rightarrow> string option" where
  "toml_ucs_to_utf8 code =
     (if 0xd800 \<le> code \<and> code \<le> 0xdfff then None
      else if 0xfffe \<le> code \<and> code \<le> 0xffff then None
      else if code < 0 then None
      else if code \<le> 0x7F then Some [char_of code]
      else if code \<le> 0x000007FF then Some [char_of (0xc0 OR drop_bit 6 code), char_of (0x80 OR (code AND 0x3f))]
      else if code \<le> 0x0000FFFF then
        Some [char_of (0xe0 OR drop_bit 12 code), char_of (0x80 OR (drop_bit 6 code AND 0x3f)), char_of (0x80 OR (code AND 0x3f))]
      else if code \<le> 0x001FFFFF then
        Some [char_of (0xf0 OR drop_bit 18 code), char_of (0x80 OR (drop_bit 12 code AND 0x3f)), char_of (0x80 OR (drop_bit 6 code AND 0x3f)),
              char_of (0x80 OR (code AND 0x3f))]
      else if code \<le> 0x03FFFFFF then
        Some [char_of (0xf8 OR drop_bit 24 code), char_of (0x80 OR (drop_bit 18 code AND 0x3f)), char_of (0x80 OR (drop_bit 12 code AND 0x3f)),
              char_of (0x80 OR (drop_bit 6 code AND 0x3f)), char_of (0x80 OR (code AND 0x3f))]
      else if code \<le> 0x7FFFFFFF then
        Some [char_of (0xfc OR drop_bit 30 code), char_of (0x80 OR (drop_bit 24 code AND 0x3f)), char_of (0x80 OR (drop_bit 18 code AND 0x3f)),
              char_of (0x80 OR (drop_bit 12 code AND 0x3f)), char_of (0x80 OR (drop_bit 6 code AND 0x3f)), char_of (0x80 OR (code AND 0x3f))]
      else None)"

text \<open>The loop over the bytes after the first one, \<open>n\<close> of them; the argument of \<open>toml_utf8_to_ucs\<close> is the \<open>len\<close> bytes at \<open>orig\<close>, the result the code and the number of bytes.\<close>

fun utf8_tail :: "nat \<Rightarrow> int \<Rightarrow> string \<Rightarrow> int option" where
  "utf8_tail 0 v buf = Some v"
| "utf8_tail (Suc n) v [] = None"
| "utf8_tail (Suc n) v (c # buf) =
     (let i = of_char c in if 0x2 \<noteq> drop_bit 6 i then None else utf8_tail n (push_bit 6 v OR (i AND 0x3f)) buf)"

definition utf8_sequence :: "nat \<Rightarrow> int \<Rightarrow> string \<Rightarrow> (int \<times> nat) option" where
  "utf8_sequence n v buf = (if length buf < n then None else map_option (\<lambda>v. (v, Suc n)) (utf8_tail n v buf))"

fun toml_utf8_to_ucs :: "string \<Rightarrow> (int \<times> nat) option" where
  "toml_utf8_to_ucs [] = None"
| "toml_utf8_to_ucs (c # buf) =
     (let i = of_char c :: int
      in if 0 = drop_bit 7 i then Some (i, 1)
         else if 0x6 = drop_bit 5 i then utf8_sequence 1 (i AND 0x1f) buf
         else if 0xE = drop_bit 4 i then utf8_sequence 2 (i AND 0x0F) buf
         else if 0x1E = drop_bit 3 i then utf8_sequence 3 (i AND 0x07) buf
         else if 0x3E = drop_bit 2 i then utf8_sequence 4 (i AND 0x03) buf
         else if 0x7e = drop_bit 1 i then utf8_sequence 5 (i AND 0x01) buf
         else None)"

subsection \<open>Strings\<close>

text \<open>Control characters other than the tab have to be escaped; with triple quotes a line may end.\<close>

definition forbidden_char :: "bool \<Rightarrow> char \<Rightarrow> bool" where
  "forbidden_char multiline c =
     (let ch = of_char c :: nat
      in (ch \<le> 0x08 \<or> (0x0a \<le> ch \<and> ch \<le> 0x1f) \<or> ch = 0x7f) \<and> \<not> (multiline \<and> (ch = 13 \<or> ch = 10)))"

definition norm_lit_str :: "bool \<Rightarrow> string \<Rightarrow> string option" where
  "norm_lit_str multiline src = (if list_ex (forbidden_char multiline) src then None else Some src)"

definition upper_hex_digit :: "char \<Rightarrow> nat option" where
  "upper_hex_digit c =
     (let ch = of_char c :: nat in if 48 \<le> ch \<and> ch \<le> 57 then Some (ch - 48) else if 65 \<le> ch \<and> ch \<le> 70 then Some (ch - 65 + 10) else None)"

fun scan_ucs :: "nat \<Rightarrow> int \<Rightarrow> string \<Rightarrow> (int \<times> string) option" where
  "scan_ucs 0 ucs sp = Some (ucs, sp)"
| "scan_ucs (Suc n) ucs [] = None"
| "scan_ucs (Suc n) ucs (ch # sp) = (case upper_hex_digit ch of None \<Rightarrow> None | Some v \<Rightarrow> scan_ucs n (ucs * 16 + int v) sp)"

definition escape_char :: "char \<Rightarrow> char option" where
  "escape_char ch =
     (if ch = CHR ''b'' then Some (CHR 0x08) else if ch = CHR ''t'' then Some (CHR 0x09) else if ch = CHR ''n'' then Some (CHR 0x0A)
      else if ch = CHR ''f'' then Some (CHR 0x0C) else if ch = CHR ''r'' then Some (CHR 0x0D) else if ch = CHR 0x22 then Some (CHR 0x22)
      else if ch = CHR 0x5C then Some (CHR 0x5C) else None)"

text \<open>A backslash at the end of a line of a multi-line string; \<open>strspn\<close> stops at the closing quotes.\<close>

definition ends_line :: "string \<Rightarrow> bool" where
  "ends_line sp =
     (case dropWhile (\<lambda>c. c \<in> {CHR '' '', CHR 0x09, CHR 0x0D}) sp of [] \<Rightarrow> False | c # _ \<Rightarrow> c = CHR 0x0A)"

lemma scan_ucs_length: "scan_ucs n ucs sp = Some (v, rest) \<Longrightarrow> length rest \<le> length sp"
  by (induction n ucs sp rule: scan_ucs.induct) (auto split: option.splits)

function norm_basic_str :: "bool \<Rightarrow> string \<Rightarrow> string option" where
  "norm_basic_str multiline [] = Some []"
| "norm_basic_str multiline (ch # sp) =
     (if ch \<noteq> CHR 0x5C then
        (if forbidden_char multiline ch then None else map_option ((#) ch) (norm_basic_str multiline sp))
      else if sp = [] then None
      else if multiline \<and> ends_line sp then norm_basic_str multiline (dropWhile (\<lambda>c. c \<in> {CHR '' '', CHR 0x09, CHR 0x0D, CHR 0x0A}) sp)
      else if hd sp = CHR ''u'' \<or> hd sp = CHR ''U'' then
        (case scan_ucs (if hd sp = CHR ''u'' then 4 else 8) 0 (tl sp) of
           None \<Rightarrow> None
         | Some (ucs, rest) \<Rightarrow>
             (case toml_ucs_to_utf8 ucs of None \<Rightarrow> None | Some bs \<Rightarrow> map_option ((@) bs) (norm_basic_str multiline rest)))
      else (case escape_char (hd sp) of None \<Rightarrow> None | Some c \<Rightarrow> map_option ((#) c) (norm_basic_str multiline (tl sp))))"
  by pat_completeness auto
termination
  by (relation "measure (\<lambda>(_, s). length s)") (auto dest!: scan_ucs_length simp: le_imp_less_Suc length_dropWhile_le)

text \<open>What a reader of the C string sees.\<close>

definition c_string :: "string \<Rightarrow> string" where
  "c_string dst = takeWhile (\<lambda>c. c \<noteq> CHR 0x00) dst"

definition skip_newline :: "string \<Rightarrow> string" where
  "skip_newline sp =
     (if sp \<noteq> [] \<and> hd sp = CHR 0x0A then tl sp
      else if length sp \<ge> 2 \<and> hd sp = CHR 0x0D \<and> sp ! 1 = CHR 0x0A then drop 2 sp else sp)"

definition toml_rtos :: "string option \<Rightarrow> string option" where
  "toml_rtos raw =
     do { src \<leftarrow> raw;
          if src = [] \<or> (hd src \<noteq> CHR 0x27 \<and> hd src \<noteq> CHR 0x22) then None
          else
            (let qchar = hd src; srclen = length src; multiline = (take 2 (tl src) = [qchar, qchar]);
                 quotes = (if multiline then 3 else 1)
             in if srclen < 2 * quotes \<or> drop (srclen - quotes) src \<noteq> replicate quotes qchar then None
                else
                  (let body = take (srclen - 2 * quotes) (drop quotes src);
                       body = (if multiline then skip_newline body else body)
                   in map_option c_string (if qchar = CHR 0x27 then norm_lit_str multiline body else norm_basic_str multiline body))) }"

subsection \<open>Values of tables and arrays\<close>

definition toml_string_at :: "toml_array_t \<Rightarrow> nat \<Rightarrow> string option" where
  "toml_string_at arr idx = toml_rtos (toml_raw_at arr idx)"

definition toml_bool_at :: "toml_array_t \<Rightarrow> nat \<Rightarrow> bool option" where
  "toml_bool_at arr idx = toml_rtob (toml_raw_at arr idx)"

definition toml_int_at :: "toml_array_t \<Rightarrow> nat \<Rightarrow> int option" where
  "toml_int_at arr idx = toml_rtoi (toml_raw_at arr idx)"

definition toml_string_in :: "toml_table_t \<Rightarrow> string \<Rightarrow> string option" where
  "toml_string_in tab key = (case toml_raw_in tab key of None \<Rightarrow> None | Some raw \<Rightarrow> toml_rtos (Some raw))"

definition toml_bool_in :: "toml_table_t \<Rightarrow> string \<Rightarrow> bool option" where
  "toml_bool_in tab key = toml_rtob (toml_raw_in tab key)"

definition toml_int_in :: "toml_table_t \<Rightarrow> string \<Rightarrow> int option" where
  "toml_int_in tab key = toml_rtoi (toml_raw_in tab key)"

subsection \<open>The UTF-8 encoding is read back\<close>

lemma or_is_add:
  assumes "0 \<le> y" "y < 2 ^ n"
  shows "(2 ^ n * a) OR y = 2 ^ n * a + (y :: int)"
proof -
  have "\<not> bit (2 ^ n * a) m \<or> \<not> bit y m" for m
  proof (cases "m < n")
    case True
    then show ?thesis by (simp add: push_bit_eq_mult [symmetric] mult.commute bit_push_bit_iff)
  next
    case False
    then have "(2 :: int) ^ n \<le> 2 ^ m" by (intro power_increasing) auto
    then have "y < 2 ^ m" using assms by linarith
    then have "y div 2 ^ m = 0" using assms by (intro div_pos_pos_trivial) auto
    then show ?thesis by (simp add: bit_iff_odd)
  qed
  then have "2 ^ n * a AND y = 0" by (auto simp: bit_eq_iff bit_and_iff)
  then show ?thesis by (simp add: disjunctive_add_eq_or)
qed

lemma and_is_mod: "(x :: int) AND 0x3f = x mod 64" "x AND 0x1f = x mod 32" "x AND 0x0F = x mod 16" "x AND 0x07 = x mod 8" "x AND 0x03 = x mod 4" "x AND 0x01 = x mod 2"
  using take_bit_eq_mask [of 6 x] take_bit_eq_mask [of 5 x] take_bit_eq_mask [of 4 x] take_bit_eq_mask [of 3 x] take_bit_eq_mask [of 2 x] take_bit_eq_mask [of 1 x]
  by (simp_all add: take_bit_eq_mod mask_eq_exp_minus_1)

lemma utf8_byte: "0x80 OR ((x :: int) AND 0x3f) = 128 + x mod 64"
  using or_is_add [of "x mod 64" 6 2] by (simp add: and_is_mod)

lemma of_char_int: "0 \<le> x \<Longrightarrow> x < 256 \<Longrightarrow> (of_char (char_of (x :: int)) :: int) = x"
  by simp

lemma utf8_tail_byte:
  "utf8_tail (Suc n) v (char_of (0x80 OR ((x :: int) AND 0x3f)) # buf) = utf8_tail n (64 * v + x mod 64) buf"
proof -
  have i: "(of_char (char_of (0x80 OR (x AND 0x3f))) :: int) = 128 + x mod 64" unfolding utf8_byte by (rule of_char_int) simp_all
  have d: "drop_bit 6 (128 + x mod 64) = 2" by (simp add: drop_bit_eq_div)
  have a: "(128 + x mod 64) AND 0x3f = x mod 64" unfolding and_is_mod using mod_mult_self3 [of 2 64 "x mod 64"] by simp
  have "push_bit 6 v OR (x mod 64) = 64 * v + x mod 64" using or_is_add [of "x mod 64" 6 v] by (simp add: push_bit_eq_mult mult.commute)
  then show ?thesis unfolding utf8_tail.simps i Let_def d a by simp
qed

lemma base64_step: "64 * (x div 64) + x mod 64 = (x :: int)"
  by simp

lemma base64_steps:
  fixes x :: int
  shows "64 * (x div 4096) + x div 64 mod 64 = x div 64" "64 * (x div 262144) + x div 4096 mod 64 = x div 4096"
    "64 * (x div 16777216) + x div 262144 mod 64 = x div 262144" "64 * (x div 1073741824) + x div 16777216 mod 64 = x div 16777216"
  using base64_step [of "x div 64"] base64_step [of "x div 4096"] base64_step [of "x div 262144"] base64_step [of "x div 16777216"]
  by (simp_all add: zdiv_zmult2_eq [symmetric])

lemma utf8_lead: "0 \<le> y \<Longrightarrow> y < 32 \<Longrightarrow> 0xc0 OR y = 192 + (y :: int)" "0 \<le> y \<Longrightarrow> y < 16 \<Longrightarrow> 0xe0 OR y = 224 + y"
  "0 \<le> y \<Longrightarrow> y < 8 \<Longrightarrow> 0xf0 OR y = 240 + y" "0 \<le> y \<Longrightarrow> y < 4 \<Longrightarrow> 0xf8 OR y = 248 + y" "0 \<le> y \<Longrightarrow> y < 2 \<Longrightarrow> 0xfc OR y = 252 + y"
  using or_is_add [of y 5 6] or_is_add [of y 4 14] or_is_add [of y 3 30] or_is_add [of y 2 62] or_is_add [of y 1 126] by simp_all

text \<open>The first byte of a sequence of \<open>n\<close> bytes tells its length and carries the high bits.\<close>

lemma utf8_first_byte:
  fixes y :: int
  shows "0 \<le> y \<Longrightarrow> y < 32 \<Longrightarrow> toml_utf8_to_ucs (char_of (0xc0 OR y) # buf) = utf8_sequence 1 y buf"
    and "0 \<le> y \<Longrightarrow> y < 16 \<Longrightarrow> toml_utf8_to_ucs (char_of (0xe0 OR y) # buf) = utf8_sequence 2 y buf"
    and "0 \<le> y \<Longrightarrow> y < 8 \<Longrightarrow> toml_utf8_to_ucs (char_of (0xf0 OR y) # buf) = utf8_sequence 3 y buf"
    and "0 \<le> y \<Longrightarrow> y < 4 \<Longrightarrow> toml_utf8_to_ucs (char_of (0xf8 OR y) # buf) = utf8_sequence 4 y buf"
    and "0 \<le> y \<Longrightarrow> y < 2 \<Longrightarrow> toml_utf8_to_ucs (char_of (0xfc OR y) # buf) = utf8_sequence 5 y buf"
proof -
  have d: "drop_bit 7 i = i div 128" "drop_bit 5 i = i div 32" "drop_bit 4 i = i div 16" "drop_bit 3 i = i div 8" "drop_bit 2 i = i div 4" "drop_bit 1 i = i div 2"
    for i :: int by (simp_all add: drop_bit_eq_div)
  have first: "toml_utf8_to_ucs (char_of i # buf) =
     (if 0 = i div 128 then Some (i, 1) else if 0x6 = i div 32 then utf8_sequence 1 (i mod 32) buf else if 0xE = i div 16 then utf8_sequence 2 (i mod 16) buf
      else if 0x1E = i div 8 then utf8_sequence 3 (i mod 8) buf else if 0x3E = i div 4 then utf8_sequence 4 (i mod 4) buf
      else if 0x7e = i div 2 then utf8_sequence 5 (i mod 2) buf else None)" if "0 \<le> i" "i < 256" for i :: int
    unfolding toml_utf8_to_ucs.simps of_char_int [OF that] Let_def d and_is_mod by (rule refl)
  show "toml_utf8_to_ucs (char_of (0xc0 OR y) # buf) = utf8_sequence 1 y buf" if y: "0 \<le> y" "y < 32"
  proof -
    have i: "0 \<le> 192 + y" "192 + y < 256" using y by simp_all
    have q: "(192 + y) div 128 = 1" "(192 + y) div 32 = 6" using y by linarith+
    have m: "(192 + y) mod 32 = y" using mult_div_mod_eq [of 32 "192 + y", unfolded q] by linarith
    show ?thesis unfolding utf8_lead(1) [OF y] first [OF i] q m by simp
  qed
  show "toml_utf8_to_ucs (char_of (0xe0 OR y) # buf) = utf8_sequence 2 y buf" if y: "0 \<le> y" "y < 16"
  proof -
    have i: "0 \<le> 224 + y" "224 + y < 256" using y by simp_all
    have q: "(224 + y) div 128 = 1" "(224 + y) div 32 = 7" "(224 + y) div 16 = 14" using y by linarith+
    have m: "(224 + y) mod 16 = y" using mult_div_mod_eq [of 16 "224 + y", unfolded q] by linarith
    show ?thesis unfolding utf8_lead(2) [OF y] first [OF i] q m by simp
  qed
  show "toml_utf8_to_ucs (char_of (0xf0 OR y) # buf) = utf8_sequence 3 y buf" if y: "0 \<le> y" "y < 8"
  proof -
    have i: "0 \<le> 240 + y" "240 + y < 256" using y by simp_all
    have q: "(240 + y) div 128 = 1" "(240 + y) div 32 = 7" "(240 + y) div 16 = 15" "(240 + y) div 8 = 30" using y by linarith+
    have m: "(240 + y) mod 8 = y" using mult_div_mod_eq [of 8 "240 + y", unfolded q] by linarith
    show ?thesis unfolding utf8_lead(3) [OF y] first [OF i] q m by simp
  qed
  show "toml_utf8_to_ucs (char_of (0xf8 OR y) # buf) = utf8_sequence 4 y buf" if y: "0 \<le> y" "y < 4"
  proof -
    have i: "0 \<le> 248 + y" "248 + y < 256" using y by simp_all
    have q: "(248 + y) div 128 = 1" "(248 + y) div 32 = 7" "(248 + y) div 16 = 15" "(248 + y) div 8 = 31" "(248 + y) div 4 = 62" using y by linarith+
    have m: "(248 + y) mod 4 = y" using mult_div_mod_eq [of 4 "248 + y", unfolded q] by linarith
    show ?thesis unfolding utf8_lead(4) [OF y] first [OF i] q m by simp
  qed
  show "toml_utf8_to_ucs (char_of (0xfc OR y) # buf) = utf8_sequence 5 y buf" if y: "0 \<le> y" "y < 2"
  proof -
    have i: "0 \<le> 252 + y" "252 + y < 256" using y by simp_all
    have "y = 0 \<or> y = 1" using y by linarith
    then have q: "(252 + y) div 128 = 1" "(252 + y) div 32 = 7" "(252 + y) div 16 = 15" "(252 + y) div 8 = 31" "(252 + y) div 4 = 63" "(252 + y) div 2 = 126" by auto
    have m: "(252 + y) mod 2 = y" using mult_div_mod_eq [of 2 "252 + y", unfolded q(6)] by linarith
    show ?thesis unfolding utf8_lead(5) [OF y] first [OF i] q m by simp
  qed
qed

declare toml_utf8_to_ucs.simps [simp del] utf8_tail.simps(3) [simp del]

lemmas utf8_simps = utf8_first_byte utf8_sequence_def utf8_tail_byte base64_step base64_steps

text \<open>A code that \<open>toml_ucs_to_utf8\<close> encodes is read back by \<open>toml_utf8_to_ucs\<close>, whatever follows, and takes as many bytes as were written; only negative codes, the surrogates, U+FFFE,
  U+FFFF and codes of more than 31 bits have no encoding.\<close>

theorem utf8_roundtrip:
  "(case toml_ucs_to_utf8 code of
      Some bs \<Rightarrow> toml_utf8_to_ucs (bs @ rest) = Some (code, length bs) \<and> length bs \<le> 6
    | None \<Rightarrow> code < 0 \<or> 0xd800 \<le> code \<and> code \<le> 0xdfff \<or> 0xfffe \<le> code \<and> code \<le> 0xffff \<or> 0x7FFFFFFF < code)"
proof -
  consider "toml_ucs_to_utf8 code = None" | "0 \<le> code" "code \<le> 0x7F" | "0x7F < code" "code \<le> 0x7FF" | "0x7FF < code" "code \<le> 0xFFFF" "toml_ucs_to_utf8 code \<noteq> None"
    | "0xFFFF < code" "code \<le> 0x1FFFFF" | "0x1FFFFF < code" "code \<le> 0x3FFFFFF" | "0x3FFFFFF < code" "code \<le> 0x7FFFFFFF"
    by (cases "toml_ucs_to_utf8 code = None") (auto simp: toml_ucs_to_utf8_def split: if_splits)
  then show ?thesis
  proof cases
    case 1
    then show ?thesis by (auto simp: toml_ucs_to_utf8_def split: if_splits)
  next
    case 2
    then have "drop_bit 7 code = 0" by (simp add: drop_bit_eq_div)
    then show ?thesis using 2 by (simp add: toml_ucs_to_utf8_def toml_utf8_to_ucs.simps of_char_int)
  next
    case 3
    then have "0 \<le> code div 64" "code div 64 < 32" by simp_all
    then show ?thesis using 3 by (simp add: toml_ucs_to_utf8_def drop_bit_eq_div utf8_simps)
  next
    case 4
    then have "0 \<le> code div 4096" "code div 4096 < 16" by simp_all
    then show ?thesis using 4 by (auto simp add: toml_ucs_to_utf8_def drop_bit_eq_div utf8_simps numeral_2_eq_2)
  next
    case 5
    then have "0 \<le> code div 262144" "code div 262144 < 8" by simp_all
    then show ?thesis using 5 by (simp add: toml_ucs_to_utf8_def drop_bit_eq_div utf8_simps numeral_3_eq_3)
  next
    case 6
    then have "0 \<le> code div 16777216" "code div 16777216 < 4" by simp_all
    then show ?thesis using 6 by (simp add: toml_ucs_to_utf8_def drop_bit_eq_div utf8_simps eval_nat_numeral)
  next
    case 7
    then have "0 \<le> code div 1073741824" "code div 1073741824 < 2" by simp_all
    then show ?thesis using 7 by (simp add: toml_ucs_to_utf8_def drop_bit_eq_div utf8_simps eval_nat_numeral)
  qed
qed

subsection \<open>Strings are read back\<close>

text \<open>A basic string as the TOML specification has it: quotes and backslashes are escaped, and control characters are written as codes.\<close>

definition hex_char :: "nat \<Rightarrow> char" where
  "hex_char k = (if k < 10 then char_of (48 + k) else char_of (55 + k))"

definition toml_quote_char :: "char \<Rightarrow> string" where
  "toml_quote_char c =
     (if c = CHR 0x22 then [CHR 0x5C, CHR 0x22] else if c = CHR 0x5C then [CHR 0x5C, CHR 0x5C]
      else if forbidden_char False c then [CHR 0x5C, CHR ''u'', CHR ''0'', CHR ''0'', hex_char (of_char c div 16), hex_char (of_char c mod 16)] else [c])"

definition toml_quote :: "string \<Rightarrow> string" where
  "toml_quote s = [CHR 0x22] @ concat (map toml_quote_char s) @ [CHR 0x22]"

lemma upper_hex_char: "k < 16 \<Longrightarrow> upper_hex_digit (hex_char k) = Some k"
  by (auto simp: upper_hex_digit_def hex_char_def Let_def)

lemma of_char_less: "(of_char c :: nat) < 256"
  by (simp add: of_char_def)

lemma ucs_of_ascii:
  assumes "forbidden_char False c"
  shows "toml_ucs_to_utf8 (int (of_char c)) = Some [c]"
proof -
  have "(of_char c :: nat) \<le> 0x7F" using assms by (auto simp: forbidden_char_def Let_def)
  then have "int (of_char c) \<le> 0x7F" by linarith
  then show ?thesis by (simp add: toml_ucs_to_utf8_def)
qed

lemma norm_quoted_char: "norm_basic_str False (toml_quote_char c @ rest) = map_option ((#) c) (norm_basic_str False rest)"
proof (cases "c = CHR 0x22 \<or> c = CHR 0x5C \<or> \<not> forbidden_char False c")
  case True
  then show ?thesis by (auto simp: toml_quote_char_def escape_char_def)
next
  case False
  have h: "upper_hex_digit (hex_char (of_char c div 16)) = Some (of_char c div 16)" "upper_hex_digit (hex_char (of_char c mod 16)) = Some (of_char c mod 16)"
    using less_mult_imp_div_less [of "of_char c" 16 16] of_char_less [of c] by (auto intro!: upper_hex_char)
  have n: "int (of_char c div 16) * 16 + int (of_char c mod 16) = int (of_char c)" by (metis div_mult_mod_eq of_nat_add of_nat_mult of_nat_numeral)
  have four: "(4 :: nat) = Suc (Suc (Suc (Suc 0)))" by simp
  have z: "upper_hex_digit (CHR ''0'') = Some 0" by code_simp
  have "scan_ucs (Suc (Suc (Suc (Suc 0)))) 0 (CHR ''0'' # CHR ''0'' # hex_char (of_char c div 16) # hex_char (of_char c mod 16) # rest) =
    Some (int (of_char c div 16) * 16 + int (of_char c mod 16), rest)"
    unfolding scan_ucs.simps h z by simp
  then have "scan_ucs 4 0 (CHR ''0'' # CHR ''0'' # hex_char (of_char c div 16) # hex_char (of_char c mod 16) # rest) = Some (int (of_char c), rest)"
    unfolding n four .
  moreover have "(@) [c] = (#) c" by (rule ext) simp
  ultimately show ?thesis using False ucs_of_ascii [of c] by (simp add: toml_quote_char_def)
qed

lemma norm_quoted: "norm_basic_str False (concat (map toml_quote_char s)) = Some s"
  by (induction s) (simp_all add: norm_quoted_char)

lemma quoted_char_first: "toml_quote_char c \<noteq> []" "hd (toml_quote_char c) \<noteq> CHR 0x22"
  by (auto simp: toml_quote_char_def)

lemma quoted_not_triple: "take 2 (concat (map toml_quote_char s) @ [CHR 0x22]) \<noteq> [CHR 0x22, CHR 0x22]"
proof (cases s)
  case (Cons c t)
  then show ?thesis using quoted_char_first [of c] by (cases "toml_quote_char c") (auto simp: numeral_2_eq_2)
qed simp



subsection \<open>Integers\<close>

lemma strip_underscores_filter: "strip_underscores room s = Some ds \<Longrightarrow> ds = filter (\<lambda>c. c \<noteq> CHR ''_'') s \<and> length ds < room"
  by (induction room s arbitrary: ds rule: strip_underscores.induct) (auto split: if_splits)

lemma strip_underscores_first: "strip_underscores room s = Some ds \<Longrightarrow> s \<noteq> [] \<Longrightarrow> hd s \<noteq> CHR ''_'' \<Longrightarrow> ds \<noteq> [] \<and> hd ds = hd s"
  by (cases s) (auto split: if_splits)

lemma digit_chars: 
  assumes "is_digit c"
  shows "\<not> is_space c" "c \<noteq> CHR ''-''" "c \<noteq> CHR ''+''" "digit_value c < 10" "digit_value c = of_char c - 48"
  using assms by (auto simp: is_digit_def is_space_def digit_value_def hex_digit_def Let_def)

text \<open>A sign and decimal digits that do not start with a zero.\<close>

lemma strtoll_decimal:
  assumes "ds \<noteq> []" "list_all is_digit ds" "hd ds \<noteq> CHR ''0''" "sign \<in> {[], ''+'', ''-''}"
  shows "scan_number 0 (sign @ ds) = Some (sign = ''-'', 10, ds, [])"
proof -
  have d: "is_digit (hd ds)" using assms(1,2) by (cases ds) auto
  have "dropWhile is_space (sign @ ds) = sign @ ds" using assms(1,4) digit_chars(1) [OF d] by (cases ds) (auto simp: is_space_def)
  moreover have "takeWhile (\<lambda>c. digit_value c < 10) ds = ds" using assms(2) digit_chars(4) by (auto simp: takeWhile_eq_all_conv list_all_iff)
  moreover have "(sign @ ds \<noteq> [] \<and> hd (sign @ ds) = CHR ''-'') = (sign = ''-'')" "(sign @ ds \<noteq> [] \<and> (hd (sign @ ds) = CHR ''-'' \<or> hd (sign @ ds) = CHR ''+'')) = (sign \<noteq> [])"
    using assms(1,4) digit_chars(2,3) [OF d] by (cases "sign = []", auto)+
  moreover have "(if sign \<noteq> [] then tl (sign @ ds) else sign @ ds) = ds" using assms(4) by auto
  moreover have "number_base 0 ds = 10" using assms(3) by (simp add: number_base_def hex_prefix_def)
  ultimately show ?thesis using assms(1) by (simp only: scan_number_def Let_def) (simp add: takeWhile_eq_all_conv [THEN iffD2])
qed

text \<open>\<open>toml_rtoi\<close> gives the value of a decimal number with its sign, underscores between the digits left out, when it fits in 64 bits, and refuses it otherwise.\<close>

theorem toml_rtoi_decimal:
  assumes "s \<noteq> []" "hd s \<noteq> CHR ''_''" "hd s \<noteq> CHR ''0''" "sign \<in> {[], ''+'', ''-''}"
    and ds: "strip_underscores (100 - length sign) s = Some ds" "list_all is_digit ds"
  shows "let v = (if sign = ''-'' then - int (number_value 10 ds) else int (number_value 10 ds))
    in toml_rtoi (Some (sign @ s)) = (if - (2 ^ 63) \<le> v \<and> v < 2 ^ 63 then Some v else None)"
proof -
  have f: "ds \<noteq> []" "hd ds = hd s" using strip_underscores_first [OF ds(1)] assms(1,2) by auto
  then have d: "is_digit (hd s)" using ds(2) by (cases ds) auto
  have "toml_rtoi (Some (sign @ s)) = rtoi_digits sign s 0"
  proof -
    have "(sign @ s \<noteq> [] \<and> (hd (sign @ s) = CHR ''+'' \<or> hd (sign @ s) = CHR ''-'')) = (sign \<noteq> [])" using assms(1,4) digit_chars(2,3) [OF d] by (cases "sign = []") auto
    moreover have "(if sign \<noteq> [] then [hd (sign @ s)] else []) = sign" "(if sign \<noteq> [] then tl (sign @ s) else sign @ s) = s" using assms(4) by auto
    ultimately show ?thesis using assms(1-3) by (simp only: toml_rtoi_def Option.bind.simps Let_def) simp
  qed
  moreover have "scan_number 0 (sign @ ds) = Some (sign = ''-'', 10, ds, [])" using f assms(3,4) ds(2) by (intro strtoll_decimal) auto
  ultimately show ?thesis by (auto simp: rtoi_digits_def ds(1) strtoll_def Let_def)
qed

lemma rtoi_digits_bounds: "rtoi_digits sign s base = Some v \<Longrightarrow> - (2 ^ 63) \<le> v \<and> v < 2 ^ 63"
  by (auto simp: rtoi_digits_def strtoll_def Let_def split: option.splits bind_splits if_splits)

theorem toml_rtoi_decimal_witness: "toml_rtoi (Some ''-1_0'') = Some (- 10)"
proof -
  have "strip_underscores (100 - length ''-'') ''1_0'' = Some ''10''" "list_all is_digit ''10''" "number_value 10 ''10'' = 10" by code_simp+
  then show ?thesis using toml_rtoi_decimal [of "''1_0''" "''-''" "''10''"] by simp
qed

end
