(* ===== verification/Config.thy ===== *)
theory Config
  imports Toml
begin

unbundle bit_operations_syntax

section \<open>The configuration (config/config.c, config/configspec.h)\<close>

text \<open>
  \<open>config_parse\<close> sets the defaults, finds and reads the configuration file, applies the overrides of the environment variable NOSV_CONFIG_OVERRIDE, applies the preset of NOSV_PRESET, and checks
  the result. The code reaches the members of \<open>rt_config_t\<close> through the offsets in \<open>config_spec_list\<close>: here a configuration is a function from the members to values, and a value has
  the type the member was written with. A string of C is a string option, with \<^term>\<open>None\<close> for the null pointer.

  What is read from outside (environment, file system, the parsed file, affinity of the process) is the record \<open>config_env\<close>. An abort, a failed assertion and a crash (a null pointer that is
  followed) are the value \<^term>\<open>None\<close>; the flag a parse function returns is \<^term>\<open>True\<close> on failure. The memory of the strings is not modelled.
\<close>

subsection \<open>Specifications\<close>

datatype config_spec_type = TYPE_INT64 | TYPE_PTR | TYPE_UINT64 | TYPE_SIZE | TYPE_STR | TYPE_BOOL | TYPE_LIST_STR

datatype config_member =
    m_thread_stack_size
  | m_shm_name | m_shm_isolation_level | m_shm_size | m_shm_start
  | m_task_affinity_default | m_task_affinity_default_policy
  | m_thread_affinity_compat_support
  | m_topology_binding | m_topology_numa_nodes | m_topology_complex_sets | m_topology_print
  | m_sched_cpus_per_queue | m_sched_batch_size | m_sched_quantum_ns | m_sched_in_queue_size | m_sched_immediate_successor
  | m_governor_policy | m_governor_spins
  | m_debug_dump_config
  | m_hwcounters_verbose | m_hwcounters_backend | m_hwcounters_papi_events
  | m_turbo_enabled
  | m_monitoring_enabled | m_monitoring_verbose
  | m_instrumentation_version
  | m_ovni_level | m_ovni_events | m_ovni_kernel_ringsize

text \<open>\<open>VChars\<close> is a \<open>generic_array_t\<close> whose pointer was overwritten with a string and whose length was kept.\<close>

datatype config_value =
    VInt int
  | VPtr u64
  | VUint u64
  | VSize u64
  | VStr "string option"
  | VBool bool
  | VList "string list"
  | VArray "config_value list"
  | VChars "string option" nat

type_synonym rt_config = "config_member \<Rightarrow> config_value"

record config_spec =
  cs_type :: config_spec_type
  cs_dimensions :: nat
  cs_name :: string
  cs_member :: config_member

definition DECLARE_CONFIG_ARRAY :: "nat \<Rightarrow> config_spec_type \<Rightarrow> string \<Rightarrow> config_member \<Rightarrow> config_spec" where
  "DECLARE_CONFIG_ARRAY dimensions ty fullname member = \<lparr> cs_type = ty, cs_dimensions = dimensions, cs_name = fullname, cs_member = member \<rparr>"

definition DECLARE_CONFIG :: "config_spec_type \<Rightarrow> string \<Rightarrow> config_member \<Rightarrow> config_spec" where
  "DECLARE_CONFIG ty fullname member = DECLARE_CONFIG_ARRAY 0 ty fullname member"

definition config_spec_list :: "config_spec list" where
  "config_spec_list =
    [DECLARE_CONFIG TYPE_UINT64 ''scheduler.quantum_ns'' m_sched_quantum_ns,
     DECLARE_CONFIG TYPE_UINT64 ''scheduler.queue_batch'' m_sched_batch_size,
     DECLARE_CONFIG TYPE_UINT64 ''scheduler.cpus_per_queue'' m_sched_cpus_per_queue,
     DECLARE_CONFIG TYPE_UINT64 ''scheduler.in_queue_size'' m_sched_in_queue_size,
     DECLARE_CONFIG TYPE_BOOL ''scheduler.immediate_successor'' m_sched_immediate_successor,
     DECLARE_CONFIG TYPE_STR ''shared_memory.name'' m_shm_name,
     DECLARE_CONFIG TYPE_STR ''shared_memory.isolation_level'' m_shm_isolation_level,
     DECLARE_CONFIG TYPE_PTR ''shared_memory.start'' m_shm_start,
     DECLARE_CONFIG TYPE_SIZE ''shared_memory.size'' m_shm_size,
     DECLARE_CONFIG TYPE_STR ''task_affinity.default'' m_task_affinity_default,
     DECLARE_CONFIG TYPE_STR ''task_affinity.default_policy'' m_task_affinity_default_policy,
     DECLARE_CONFIG TYPE_BOOL ''thread_affinity.compat_support'' m_thread_affinity_compat_support,
     DECLARE_CONFIG TYPE_STR ''topology.binding'' m_topology_binding,
     DECLARE_CONFIG_ARRAY 1 TYPE_STR ''topology.numa_nodes'' m_topology_numa_nodes,
     DECLARE_CONFIG_ARRAY 1 TYPE_STR ''topology.complex_sets'' m_topology_complex_sets,
     DECLARE_CONFIG TYPE_BOOL ''topology.print'' m_topology_print,
     DECLARE_CONFIG TYPE_BOOL ''debug.dump_config'' m_debug_dump_config,
     DECLARE_CONFIG TYPE_STR ''governor.policy'' m_governor_policy,
     DECLARE_CONFIG TYPE_UINT64 ''governor.spins'' m_governor_spins,
     DECLARE_CONFIG TYPE_BOOL ''hwcounters.verbose'' m_hwcounters_verbose,
     DECLARE_CONFIG TYPE_STR ''hwcounters.backend'' m_hwcounters_backend,
     DECLARE_CONFIG TYPE_LIST_STR ''hwcounters.papi_events'' m_hwcounters_papi_events,
     DECLARE_CONFIG TYPE_BOOL ''turbo.enabled'' m_turbo_enabled,
     DECLARE_CONFIG TYPE_BOOL ''monitoring.enabled'' m_monitoring_enabled,
     DECLARE_CONFIG TYPE_BOOL ''monitoring.verbose'' m_monitoring_verbose,
     DECLARE_CONFIG TYPE_STR ''instrumentation.version'' m_instrumentation_version,
     DECLARE_CONFIG TYPE_SIZE ''misc.stack_size'' m_thread_stack_size,
     DECLARE_CONFIG TYPE_UINT64 ''ovni.level'' m_ovni_level,
     DECLARE_CONFIG TYPE_LIST_STR ''ovni.events'' m_ovni_events,
     DECLARE_CONFIG TYPE_SIZE ''ovni.kernel_ringsize'' m_ovni_kernel_ringsize]"

subsection \<open>Defaults\<close>

fun config_init :: rt_config where
  "config_init m_thread_stack_size = VSize (2 ^ 23)"
| "config_init m_shm_name = VStr (Some ''nosv'')"
| "config_init m_shm_isolation_level = VStr (Some ''user'')"
| "config_init m_shm_size = VSize (2 ^ 31)"
| "config_init m_shm_start = VPtr 0x0000200000000000"
| "config_init m_task_affinity_default = VStr (Some ''all'')"
| "config_init m_task_affinity_default_policy = VStr (Some ''strict'')"
| "config_init m_thread_affinity_compat_support = VBool True"
| "config_init m_topology_binding = VStr (Some ''inherit'')"
| "config_init m_topology_numa_nodes = VArray []"
| "config_init m_topology_complex_sets = VArray []"
| "config_init m_topology_print = VBool False"
| "config_init m_sched_cpus_per_queue = VUint 1"
| "config_init m_sched_batch_size = VUint 64"
| "config_init m_sched_quantum_ns = VUint (20 * 1000 * 1000)"
| "config_init m_sched_in_queue_size = VUint 256"
| "config_init m_sched_immediate_successor = VBool True"
| "config_init m_governor_policy = VStr (Some ''hybrid'')"
| "config_init m_governor_spins = VUint 10000"
| "config_init m_debug_dump_config = VBool False"
| "config_init m_hwcounters_verbose = VBool False"
| "config_init m_hwcounters_backend = VStr (Some ''none'')"
| "config_init m_hwcounters_papi_events = VList [''PAPI_TOT_INS'', ''PAPI_TOT_CYC'']"
| "config_init m_turbo_enabled = VBool False"
| "config_init m_monitoring_enabled = VBool False"
| "config_init m_monitoring_verbose = VBool False"
| "config_init m_instrumentation_version = VStr (Some ''none'')"
| "config_init m_ovni_level = VUint 2"
| "config_init m_ovni_events = VList []"
| "config_init m_ovni_kernel_ringsize = VSize (4 * 1024 * 1024)"

subsection \<open>Checks\<close>

definition cfg_word :: "rt_config \<Rightarrow> config_member \<Rightarrow> u64" where
  "cfg_word cfg m = (case cfg m of VUint w \<Rightarrow> w | VSize w \<Rightarrow> w | VPtr w \<Rightarrow> w | _ \<Rightarrow> 0)"

definition cfg_str :: "rt_config \<Rightarrow> config_member \<Rightarrow> string option" where
  "cfg_str cfg m = (case cfg m of VStr s \<Rightarrow> s | _ \<Rightarrow> None)"

text \<open>A check that fails sets \<open>ret\<close> and the function goes on; \<open>strcmp\<close> of a null pointer crashes.\<close>

definition sanity_check :: "bool \<Rightarrow> bool \<Rightarrow> bool option" where
  "sanity_check cond ret = Some (if cond then ret else True)"

definition sanity_check_str :: "string option \<Rightarrow> string list \<Rightarrow> bool \<Rightarrow> bool option" where
  "sanity_check_str str arr ret = Option.bind str (\<lambda>s. sanity_check (s \<in> set arr) ret)"

definition config_check :: "u64 \<Rightarrow> rt_config \<Rightarrow> bool option" where
  "config_check stack_min cfg =
     do { ret \<leftarrow> sanity_check (cfg_word cfg m_sched_batch_size > 0) False;
          ret \<leftarrow> sanity_check (cfg_word cfg m_sched_cpus_per_queue > 0) ret;
          ret \<leftarrow> sanity_check (cfg_word cfg m_sched_in_queue_size > 0) ret;
          ret \<leftarrow> sanity_check (cfg_str cfg m_shm_name \<noteq> None) ret;
          ret \<leftarrow> sanity_check (cfg_word cfg m_shm_size > 10 * 2 * 1024 * 1024) ret;
          ret \<leftarrow> sanity_check (cfg_word cfg m_shm_start \<ge> 4096) ret;
          ret \<leftarrow> sanity_check (cfg_str cfg m_shm_isolation_level \<noteq> None) ret;
          ret \<leftarrow> sanity_check_str (cfg_str cfg m_shm_isolation_level) [''process'', ''user'', ''group'', ''public''] ret;
          ret \<leftarrow> sanity_check (cfg_str cfg m_governor_policy \<noteq> None) ret;
          ret \<leftarrow> sanity_check_str (cfg_str cfg m_governor_policy) [''hybrid'', ''busy'', ''idle''] ret;
          ret \<leftarrow> sanity_check (cfg_str cfg m_topology_binding \<noteq> None) ret;
          ret \<leftarrow> sanity_check (cfg_str cfg m_task_affinity_default \<noteq> None) ret;
          ret \<leftarrow> sanity_check (cfg_str cfg m_task_affinity_default_policy \<noteq> None) ret;
          ret \<leftarrow> sanity_check_str (cfg_str cfg m_task_affinity_default_policy) [''strict'', ''preferred''] ret;
          ret \<leftarrow> sanity_check_str (cfg_str cfg m_hwcounters_backend) [''none'', ''papi''] ret;
          ret \<leftarrow> sanity_check_str (cfg_str cfg m_instrumentation_version) [''ovni'', ''none''] ret;
          sanity_check (cfg_word cfg m_thread_stack_size \<ge> stack_min) ret }"

subsection \<open>Sizes\<close>

text \<open>The cases of the switch fall through: E shifts six times, K once. After a suffix the rest of the string is not looked at.\<close>

definition size_shifts :: "char \<Rightarrow> nat option" where
  "size_shifts c =
     (if c \<in> {CHR ''E'', CHR ''e''} then Some 6 else if c \<in> {CHR ''P'', CHR ''p''} then Some 5 else if c \<in> {CHR ''T'', CHR ''t''} then Some 4
      else if c \<in> {CHR ''G'', CHR ''g''} then Some 3 else if c \<in> {CHR ''M'', CHR ''m''} then Some 2 else if c \<in> {CHR ''K'', CHR ''k''} then Some 1 else None)"

definition parse_str_size :: "string \<Rightarrow> u64 option" where
  "parse_str_size str =
     (case strtoull str 10 of (result, endptr, err) \<Rightarrow>
        if err then None
        else case endptr of
          [] \<Rightarrow> Some result
        | c # _ \<Rightarrow> (case size_shifts c of None \<Rightarrow> None | Some k \<Rightarrow> Some (((\<lambda>r. push_bit 10 r) ^^ k) result)))"

subsection \<open>Values from strings\<close>

text \<open>The value to store, or nothing on failure. \<open>string_parse_str\<close> writes through a pointer to a string, whatever the member is: in an array it replaces the pointer to the items.\<close>

definition string_parse_int64 :: "string \<Rightarrow> config_value option" where
  "string_parse_int64 v = (case strtoll v 10 of (val, _, err) \<Rightarrow> if \<not> err then Some (VInt val) else None)"

definition string_parse_ptr :: "string \<Rightarrow> config_value option" where
  "string_parse_ptr v =
     (case v of
        c0 # c1 # rest \<Rightarrow>
          if c0 = CHR ''0'' \<and> c1 = CHR ''x'' then (case strtoull rest 16 of (val, _, err) \<Rightarrow> if \<not> err then Some (VPtr val) else None) else None
      | _ \<Rightarrow> None)"

definition string_parse_size :: "string \<Rightarrow> config_value option" where
  "string_parse_size v = map_option VSize (parse_str_size v)"

definition string_parse_uint64 :: "string \<Rightarrow> config_value option" where
  "string_parse_uint64 v = (case strtoull v 10 of (val, _, err) \<Rightarrow> if \<not> err then Some (VUint val) else None)"

definition string_parse_str :: "config_value \<Rightarrow> string \<Rightarrow> config_value option" where
  "string_parse_str old v =
     (let s = (if v = [] then None else Some v)
      in Some (case old of VArray items \<Rightarrow> VChars s (length items) | VChars _ n \<Rightarrow> VChars s n | _ \<Rightarrow> VStr s))"

definition string_parse_bool :: "string \<Rightarrow> config_value option" where
  "string_parse_bool v = (if v = ''true'' then Some (VBool True) else if v = ''false'' then Some (VBool False) else None)"

subsection \<open>Overrides\<close>

definition trim_end :: "string \<Rightarrow> string" where
  "trim_end s = rev (dropWhile (\<lambda>c. c = CHR '' '') (rev s))"

definition trim_front :: "string \<Rightarrow> string" where
  "trim_front s = dropWhile (\<lambda>c. c = CHR '' '') s"

definition config_parse_single_override :: "rt_config \<Rightarrow> string \<Rightarrow> string \<Rightarrow> bool \<times> rt_config" where
  "config_parse_single_override cfg option v =
     (if option = [] then (True, cfg)
      else case find (\<lambda>spec. cs_name spec = trim_end option) config_spec_list of
        None \<Rightarrow> (True, cfg)
      | Some spec \<Rightarrow>
          (let v = trim_front v;
               r = (case cs_type spec of
                      TYPE_INT64 \<Rightarrow> string_parse_int64 v
                    | TYPE_PTR \<Rightarrow> string_parse_ptr v
                    | TYPE_SIZE \<Rightarrow> string_parse_size v
                    | TYPE_UINT64 \<Rightarrow> string_parse_uint64 v
                    | TYPE_STR \<Rightarrow> string_parse_str (cfg (cs_member spec)) v
                    | TYPE_BOOL \<Rightarrow> string_parse_bool v
                    | TYPE_LIST_STR \<Rightarrow> None)
           in case r of None \<Rightarrow> (True, cfg) | Some x \<Rightarrow> (False, cfg(cs_member spec := x))))"

text \<open>One option of the list: the part before the first = and the part after it.\<close>

definition override_option :: "string \<Rightarrow> bool \<times> rt_config \<Rightarrow> bool \<times> rt_config" where
  "override_option tok = (\<lambda>(failed, cfg).
     (let opt = trim_front tok; name = takeWhile (\<lambda>c. c \<noteq> CHR ''='') opt
      in case dropWhile (\<lambda>c. c \<noteq> CHR ''='') opt of
           [] \<Rightarrow> (failed \<or> opt \<noteq> [], cfg)
         | _ # v \<Rightarrow> (case config_parse_single_override cfg name v of (r, cfg') \<Rightarrow> (failed \<or> r, cfg'))))"

definition config_parse_override :: "string option \<Rightarrow> rt_config \<Rightarrow> bool \<times> rt_config" where
  "config_parse_override env cfg =
     (case env of
        None \<Rightarrow> (False, cfg)
      | Some config_override \<Rightarrow> fold override_option (strtok_comma [] config_override) (False, cfg))"

subsection \<open>Values from the file\<close>

text \<open>The bodies of the functions \<open>__toml_parse_*\<close>: a datum of the TOML library, to the value that is stored.\<close>

definition toml_parse_int64 :: "int option \<Rightarrow> config_value option" where
  "toml_parse_int64 datum = map_option VInt datum"

definition toml_parse_ptr :: "int option \<Rightarrow> config_value option" where
  "toml_parse_ptr datum = map_option (\<lambda>i. VPtr (word_of_int i)) datum"

definition toml_parse_size :: "string option \<Rightarrow> config_value option" where
  "toml_parse_size datum = Option.bind datum (\<lambda>s. map_option VSize (parse_str_size s))"

definition toml_parse_uint64 :: "int option \<Rightarrow> config_value option" where
  "toml_parse_uint64 datum = Option.bind datum (\<lambda>i. if i \<ge> 0 then Some (VUint (word_of_int i)) else None)"

definition toml_parse_str :: "string option \<Rightarrow> config_value option" where
  "toml_parse_str datum = map_option (\<lambda>s. VStr (if s = [] then None else Some s)) datum"

definition toml_parse_bool :: "bool option \<Rightarrow> config_value option" where
  "toml_parse_bool datum = map_option VBool datum"

text \<open>A list of strings. \<open>toml_array_nelem\<close> follows the null pointer when the option is not an array. The partly filled list of a failed call is never read, the process aborts.\<close>

definition toml_table_parse_list_str :: "toml_table_t \<Rightarrow> string \<Rightarrow> config_value option option" where
  "toml_table_parse_list_str table name =
     (case toml_array_in table name of
        None \<Rightarrow> None
      | Some array \<Rightarrow> Some (map_option VList (those (map (toml_string_at array) [0..<toml_array_nelem array]))))"

definition config_array_elem :: "config_spec_type \<Rightarrow> toml_array_t \<Rightarrow> nat \<Rightarrow> config_value option" where
  "config_array_elem ty array i =
     (case ty of
        TYPE_INT64 \<Rightarrow> toml_parse_int64 (toml_int_at array i)
      | TYPE_PTR \<Rightarrow> toml_parse_ptr (toml_int_at array i)
      | TYPE_SIZE \<Rightarrow> toml_parse_size (toml_string_at array i)
      | TYPE_UINT64 \<Rightarrow> toml_parse_uint64 (toml_int_at array i)
      | TYPE_STR \<Rightarrow> toml_parse_str (toml_string_at array i)
      | TYPE_BOOL \<Rightarrow> toml_parse_bool (toml_bool_at array i)
      | TYPE_LIST_STR \<Rightarrow> None)"

text \<open>The last argument is \<open>dimensions_left - 1\<close>.\<close>

fun config_parse_array_internal :: "config_spec_type \<Rightarrow> toml_array_t option \<Rightarrow> nat \<Rightarrow> config_value option" where
  "config_parse_array_internal ty None d = None"
| "config_parse_array_internal ty (Some array) 0 = map_option VArray (those (map (config_array_elem ty array) [0..<toml_array_nelem array]))"
| "config_parse_array_internal ty (Some array) (Suc d) =
     map_option VArray (those (map (\<lambda>i. config_parse_array_internal ty (toml_array_at array i) d) [0..<toml_array_nelem array]))"

definition config_parse_array :: "config_spec \<Rightarrow> toml_table_t \<Rightarrow> string \<Rightarrow> config_value option" where
  "config_parse_array spec table element_name = config_parse_array_internal (cs_type spec) (toml_array_in table element_name) (cs_dimensions spec - 1)"

definition config_parse_single_element :: "config_spec \<Rightarrow> toml_table_t \<Rightarrow> string \<Rightarrow> config_value option option" where
  "config_parse_single_element spec table element_name =
     (case cs_type spec of
        TYPE_INT64 \<Rightarrow> Some (toml_parse_int64 (toml_int_in table element_name))
      | TYPE_PTR \<Rightarrow> Some (toml_parse_ptr (toml_int_in table element_name))
      | TYPE_SIZE \<Rightarrow> Some (toml_parse_size (toml_string_in table element_name))
      | TYPE_UINT64 \<Rightarrow> Some (toml_parse_uint64 (toml_int_in table element_name))
      | TYPE_STR \<Rightarrow> Some (toml_parse_str (toml_string_in table element_name))
      | TYPE_BOOL \<Rightarrow> Some (toml_parse_bool (toml_bool_in table element_name))
      | TYPE_LIST_STR \<Rightarrow> toml_table_parse_list_str table element_name)"

text \<open>The loop over the sections of a name: every section is looked up in the table of the file, also when it follows another one.\<close>

function config_section :: "toml_table_t \<Rightarrow> toml_table_t \<Rightarrow> string \<Rightarrow> (toml_table_t \<times> string) option" where
  "config_section table curr_table curr_str =
     (case dropWhile (\<lambda>c. c \<noteq> CHR ''.'') curr_str of
        [] \<Rightarrow> Some (curr_table, curr_str)
      | _ # rest \<Rightarrow>
          (case toml_table_in table (takeWhile (\<lambda>c. c \<noteq> CHR ''.'') curr_str) of
             None \<Rightarrow> None
           | Some t \<Rightarrow> config_section table t rest))"
  by pat_completeness auto
termination
proof (relation "measure (\<lambda>(_, _, s). length s)", goal_cases)
  case (2 table curr_table curr_str c rest t)
  then show ?case using length_dropWhile_le [of "\<lambda>c. c \<noteq> CHR ''.''" curr_str] by simp
qed simp

declare config_section.simps [simp del]

definition config_parse_single_spec :: "toml_table_t \<Rightarrow> config_spec \<Rightarrow> rt_config \<Rightarrow> (nat \<times> rt_config) option" where
  "config_parse_single_spec table spec cfg =
     (case config_section table table (cs_name spec) of
        None \<Rightarrow> Some (0, cfg)
      | Some (curr_table, element) \<Rightarrow>
          if toml_raw_in curr_table element = None \<and> toml_array_in curr_table element = None then Some (0, cfg)
          else map_option (\<lambda>r. case r of None \<Rightarrow> (1, cfg) | Some v \<Rightarrow> (0, cfg(cs_member spec := v)))
                 (if cs_dimensions spec \<noteq> 0 then Some (config_parse_array spec curr_table element)
                  else config_parse_single_element spec curr_table element))"

fun populate_specs :: "toml_table_t \<Rightarrow> config_spec list \<Rightarrow> nat \<times> rt_config \<Rightarrow> (nat \<times> rt_config) option" where
  "populate_specs table [] s = Some s"
| "populate_specs table (spec # specs) (fail, cfg) =
     do { (r, cfg) \<leftarrow> config_parse_single_spec table spec cfg; populate_specs table specs (fail + r, cfg) }"

definition config_populate :: "rt_config \<Rightarrow> toml_table_t \<Rightarrow> (nat \<times> rt_config) option" where
  "config_populate cfg table = populate_specs table config_spec_list (0, cfg)"

subsection \<open>The environment\<close>

text \<open>\<open>ce_file\<close> opens and parses a file: nothing when it cannot be opened or is not TOML. \<open>ce_all_cpus\<close>, \<open>ce_topo\<close> and \<open>ce_max_cpus\<close> are what the topology functions read.\<close>

record config_env =
  ce_getenv :: "string \<Rightarrow> string option"
  ce_readable :: "string \<Rightarrow> bool"
  ce_cwd :: "string option"
  ce_installed_dir :: string
  ce_file :: "string \<Rightarrow> toml_table_t option"
  ce_stack_min :: u64
  ce_all_cpus :: "nat set"
  ce_topo :: topo_env
  ce_max_cpus :: nat

definition MAX_CONFIG_PATH :: nat where "MAX_CONFIG_PATH = 4096"

definition config_find :: "config_env \<Rightarrow> string option" where
  "config_find e =
     (let default_config_path = ce_installed_dir e @ ''/nosv.toml''
      in if length default_config_path \<ge> MAX_CONFIG_PATH then None
         else case ce_getenv e ''NOSV_CONFIG'' of
           Some path \<Rightarrow> if \<not> ce_readable e path \<or> length path \<ge> MAX_CONFIG_PATH then None else Some path
         | None \<Rightarrow>
             do { cwd \<leftarrow> ce_cwd e;
                  let path = cwd @ ''/nosv.toml'';
                  if length path < MAX_CONFIG_PATH \<and> ce_readable e path then Some path
                  else if ce_readable e default_config_path then Some default_config_path else None })"

subsection \<open>Presets\<close>

definition config_preset_isolated :: "rt_config \<Rightarrow> rt_config option" where
  "config_preset_isolated cfg =
     assert_then (cfg_str cfg m_shm_isolation_level \<noteq> None \<and> cfg_str cfg m_topology_binding \<noteq> None \<and> cfg_str cfg m_task_affinity_default \<noteq> None)
       (Some (cfg(m_shm_isolation_level := VStr (Some ''process''), m_topology_binding := VStr (Some ''inherit''), m_task_affinity_default := VStr (Some ''all''))))"

text \<open>Digits of a number; the conversion \<open>%d\<close> of the affinity has base 10, and its number is not negative.\<close>

fun print_number :: "nat \<Rightarrow> nat \<Rightarrow> string" where
  "print_number base n = (if n < base \<or> base < 2 then [hex_char n] else print_number base (n div base) @ [hex_char (n mod base)])"

declare print_number.simps [simp del]

definition default_aff_string :: "bool \<times> int \<Rightarrow> string" where
  "default_aff_string = (\<lambda>(is_cpu, i). (if is_cpu then ''cpu-'' else ''numa-'') @ print_number 10 (nat i))"

definition config_preset_shared_mpi :: "config_env \<Rightarrow> rt_config \<Rightarrow> rt_config option" where
  "config_preset_shared_mpi e cfg =
     assert_then (cfg_str cfg m_shm_isolation_level \<noteq> None \<and> cfg_str cfg m_topology_binding \<noteq> None \<and> cfg_str cfg m_task_affinity_default_policy \<noteq> None)
       (do { binding \<leftarrow> all_mask_string (ce_all_cpus e);
             new_affinity \<leftarrow> topo_get_default_aff (ce_topo e) (ce_max_cpus e);
             let cfg = cfg(m_shm_isolation_level := VStr (Some ''user''), m_topology_binding := VStr (Some binding), m_task_affinity_default_policy := VStr (Some ''preferred''));
             Some (case new_affinity of None \<Rightarrow> cfg | Some a \<Rightarrow> cfg(m_task_affinity_default := VStr (Some (default_aff_string a)))) })"

definition config_parse_preset :: "config_env \<Rightarrow> rt_config \<Rightarrow> rt_config option" where
  "config_parse_preset e cfg =
     (case ce_getenv e ''NOSV_PRESET'' of
        None \<Rightarrow> Some cfg
      | Some preset \<Rightarrow>
          if preset = [] then Some cfg
          else if preset = ''isolated'' then config_preset_isolated cfg
          else if preset = ''shared-mpi'' then config_preset_shared_mpi e cfg
          else None)"

subsection \<open>The whole configuration\<close>

definition config_parse :: "config_env \<Rightarrow> rt_config option" where
  "config_parse e =
     do { config_path \<leftarrow> config_find e;
          conf \<leftarrow> ce_file e config_path;
          (err, cfg) \<leftarrow> config_populate config_init conf;
          if err \<noteq> 0 then None
          else (case config_parse_override (ce_getenv e ''NOSV_CONFIG_OVERRIDE'') cfg of (failed, cfg) \<Rightarrow>
            if failed then None
            else do { cfg \<leftarrow> config_parse_preset e cfg;
                      failed \<leftarrow> config_check (ce_stack_min e) cfg;
                      if failed then None else Some cfg }) }"

subsection \<open>Every option keeps its type\<close>

definition value_typed :: "config_spec \<Rightarrow> config_value \<Rightarrow> bool" where
  "value_typed spec v =
     (if cs_dimensions spec = 0
      then (case v of
              VInt i \<Rightarrow> cs_type spec = TYPE_INT64 \<and> - (2 ^ 63) \<le> i \<and> i < 2 ^ 63
            | VPtr _ \<Rightarrow> cs_type spec = TYPE_PTR
            | VUint _ \<Rightarrow> cs_type spec = TYPE_UINT64
            | VSize _ \<Rightarrow> cs_type spec = TYPE_SIZE
            | VStr s \<Rightarrow> cs_type spec = TYPE_STR \<and> s \<noteq> Some []
            | VBool _ \<Rightarrow> cs_type spec = TYPE_BOOL
            | VList _ \<Rightarrow> cs_type spec = TYPE_LIST_STR
            | _ \<Rightarrow> False)
      else (case v of VArray _ \<Rightarrow> True | VChars _ _ \<Rightarrow> True | _ \<Rightarrow> False))"

definition cfg_typed :: "rt_config \<Rightarrow> bool" where
  "cfg_typed cfg = list_all (\<lambda>spec. value_typed spec (cfg (cs_member spec))) config_spec_list"

lemmas spec_simps = DECLARE_CONFIG_def DECLARE_CONFIG_ARRAY_def

lemma distinct_option_members: "distinct (map cs_member config_spec_list)"
  by (simp add: config_spec_list_def spec_simps)

lemma distinct_option_names: "distinct (map cs_name config_spec_list)"
  by (simp add: config_spec_list_def spec_simps)

lemma array_specs: "spec \<in> set config_spec_list \<Longrightarrow> cs_dimensions spec \<noteq> 0 \<Longrightarrow> cs_type spec = TYPE_STR"
  by (auto simp: config_spec_list_def spec_simps)

lemma same_member: "spec \<in> set config_spec_list \<Longrightarrow> spec' \<in> set config_spec_list \<Longrightarrow> cs_member spec' = cs_member spec \<Longrightarrow> spec' = spec"
  using distinct_option_members by (auto simp: distinct_map inj_on_def)

lemma cfg_typed_update:
  assumes "cfg_typed cfg" "spec \<in> set config_spec_list" "value_typed spec v"
  shows "cfg_typed (cfg(cs_member spec := v))"
  using assms same_member [OF assms(2)] by (auto simp: cfg_typed_def list_all_iff)

lemma cfg_typed_init: "cfg_typed config_init"
  by (simp add: cfg_typed_def config_spec_list_def spec_simps value_typed_def)

lemma cfg_typed_str:
  assumes "cfg_typed cfg" "s \<noteq> []"
  shows "cfg_typed (cfg(m_shm_isolation_level := VStr (Some s)))" "cfg_typed (cfg(m_topology_binding := VStr (Some s)))"
    "cfg_typed (cfg(m_task_affinity_default := VStr (Some s)))" "cfg_typed (cfg(m_task_affinity_default_policy := VStr (Some s)))"
  using assms cfg_typed_update [of cfg "DECLARE_CONFIG TYPE_STR ''shared_memory.isolation_level'' m_shm_isolation_level" "VStr (Some s)"]
    cfg_typed_update [of cfg "DECLARE_CONFIG TYPE_STR ''topology.binding'' m_topology_binding" "VStr (Some s)"]
    cfg_typed_update [of cfg "DECLARE_CONFIG TYPE_STR ''task_affinity.default'' m_task_affinity_default" "VStr (Some s)"]
    cfg_typed_update [of cfg "DECLARE_CONFIG TYPE_STR ''task_affinity.default_policy'' m_task_affinity_default_policy" "VStr (Some s)"]
  by (simp_all add: config_spec_list_def value_typed_def spec_simps)

lemma rtoi_bounds: "toml_rtoi raw = Some v \<Longrightarrow> - (2 ^ 63) \<le> v \<and> v < 2 ^ 63"
  by (cases raw) (auto simp: toml_rtoi_def Let_def split: if_splits list.splits dest: rtoi_digits_bounds)

lemmas toml_parse_defs = toml_parse_int64_def toml_parse_ptr_def toml_parse_size_def toml_parse_uint64_def toml_parse_str_def toml_parse_bool_def

lemma single_element_typed:
  "config_parse_single_element spec table element_name = Some (Some v) \<Longrightarrow> cs_dimensions spec = 0 \<Longrightarrow> value_typed spec v"
  by (auto simp: config_parse_single_element_def value_typed_def toml_parse_defs toml_table_parse_list_str_def toml_int_in_def
      split: config_spec_type.splits option.splits bind_splits if_splits dest: rtoi_bounds)

lemma array_typed: "config_parse_array spec table element_name = Some v \<Longrightarrow> cs_dimensions spec \<noteq> 0 \<Longrightarrow> value_typed spec v"
  unfolding config_parse_array_def value_typed_def
  by (cases "(cs_type spec, toml_array_in table element_name, cs_dimensions spec - 1)" rule: config_parse_array_internal.cases) auto

lemma single_spec_typed:
  "config_parse_single_spec table spec cfg = Some (r, cfg') \<Longrightarrow> spec \<in> set config_spec_list \<Longrightarrow> cfg_typed cfg \<Longrightarrow> cfg_typed cfg'"
  by (auto simp: config_parse_single_spec_def split: option.splits if_splits prod.splits intro!: cfg_typed_update dest: single_element_typed array_typed)

lemma populate_typed: "populate_specs table specs (fail, cfg) = Some (r, cfg') \<Longrightarrow> set specs \<subseteq> set config_spec_list \<Longrightarrow> cfg_typed cfg \<Longrightarrow> cfg_typed cfg'"
  by (induction table specs "(fail, cfg)" arbitrary: fail cfg rule: populate_specs.induct) (auto split: bind_splits dest!: single_spec_typed)

lemma strtoll_bounds: "strtoll v base = (r, rest, err) \<Longrightarrow> - (2 ^ 63) \<le> r \<and> r < 2 ^ 63"
  by (auto simp: strtoll_def Let_def split: option.splits if_splits)

lemmas string_parse_defs = string_parse_int64_def string_parse_ptr_def string_parse_size_def string_parse_uint64_def string_parse_str_def string_parse_bool_def

lemma single_override_typed:
  assumes "config_parse_single_override cfg option v = (r, cfg')" "cfg_typed cfg"
  shows "cfg_typed cfg'"
proof (cases "cfg' = cfg")
  case False
  with assms(1) obtain spec x where spec: "find (\<lambda>spec. cs_name spec = trim_end option) config_spec_list = Some spec"
    and x: "(case cs_type spec of TYPE_INT64 \<Rightarrow> string_parse_int64 (trim_front v) | TYPE_PTR \<Rightarrow> string_parse_ptr (trim_front v)
      | TYPE_SIZE \<Rightarrow> string_parse_size (trim_front v) | TYPE_UINT64 \<Rightarrow> string_parse_uint64 (trim_front v)
      | TYPE_STR \<Rightarrow> string_parse_str (cfg (cs_member spec)) (trim_front v) | TYPE_BOOL \<Rightarrow> string_parse_bool (trim_front v) | TYPE_LIST_STR \<Rightarrow> None) = Some x"
    and c: "cfg' = cfg(cs_member spec := x)"
    by (auto simp: config_parse_single_override_def Let_def split: if_splits option.splits)
  have m: "spec \<in> set config_spec_list" using spec by (auto simp: find_Some_iff)
  then have old: "value_typed spec (cfg (cs_member spec))" using assms(2) by (simp add: cfg_typed_def list_all_iff)
  have "value_typed spec x"
  proof (cases "cs_type spec = TYPE_STR")
    case True
    then show ?thesis using x old by (auto simp: string_parse_str_def value_typed_def Let_def split: config_value.splits if_splits)
  next
    case False
    then show ?thesis using x array_specs [OF m]
      by (auto simp: string_parse_defs value_typed_def split: config_spec_type.splits prod.splits if_splits list.splits dest: strtoll_bounds)
  qed
  then show ?thesis using cfg_typed_update [OF assms(2) m] c by simp
qed (use assms in simp)

lemma override_option_typed: "override_option tok (f, cfg) = (f', cfg') \<Longrightarrow> cfg_typed cfg \<Longrightarrow> cfg_typed cfg'"
  by (auto simp: override_option_def Let_def split: list.splits prod.splits dest: single_override_typed)

lemma override_options_typed: "fold override_option toks (f, cfg) = (f', cfg') \<Longrightarrow> cfg_typed cfg \<Longrightarrow> cfg_typed cfg'"
proof (induction toks arbitrary: f cfg)
  case (Cons tok toks)
  obtain f1 cfg1 where "override_option tok (f, cfg) = (f1, cfg1)" by fastforce
  then show ?case using Cons override_option_typed by auto
qed simp

lemma override_typed: "config_parse_override env cfg = (r, cfg') \<Longrightarrow> cfg_typed cfg \<Longrightarrow> cfg_typed cfg'"
  by (auto simp: config_parse_override_def split: option.splits dest: override_options_typed)

lemma preset_typed: "config_parse_preset e cfg = Some cfg' \<Longrightarrow> cfg_typed cfg \<Longrightarrow> cfg_typed cfg'"
  by (auto simp: config_parse_preset_def config_preset_isolated_def config_preset_shared_mpi_def assert_then_def Let_def default_aff_string_def all_mask_string_def
      split: option.splits if_splits bind_splits prod.splits intro!: cfg_typed_str)

lemma config_parse_typed: "config_parse e = Some cfg \<Longrightarrow> cfg_typed cfg \<and> config_check (ce_stack_min e) cfg = Some False"
  by (auto simp: config_parse_def config_populate_def split: bind_splits prod.splits if_splits
      dest!: populate_typed override_typed preset_typed intro: cfg_typed_init)

subsection \<open>What the checks establish\<close>

lemma sanity_check_flag: "sanity_check cond ret = Some (ret \<or> \<not> cond)"
  by (simp add: sanity_check_def)

lemma sanity_check_str_bind:
  "(Option.bind (sanity_check_str str arr ret) f = Some r) = (\<exists>s. str = Some s \<and> f (ret \<or> s \<notin> set arr) = Some r)"
  by (cases str) (auto simp: sanity_check_str_def sanity_check_def)

lemma config_check_sound:
  assumes "config_check stack_min cfg = Some False"
  shows "cfg_word cfg m_sched_batch_size > 0" "cfg_word cfg m_sched_cpus_per_queue > 0" "cfg_word cfg m_sched_in_queue_size > 0"
    "cfg_word cfg m_shm_size > 10 * 2 * 1024 * 1024" "cfg_word cfg m_shm_start \<ge> 4096" "cfg_word cfg m_thread_stack_size \<ge> stack_min"
    "\<exists>s. cfg_str cfg m_shm_name = Some s" "\<exists>s. cfg_str cfg m_topology_binding = Some s" "\<exists>s. cfg_str cfg m_task_affinity_default = Some s"
    "\<exists>s \<in> {''process'', ''user'', ''group'', ''public''}. cfg_str cfg m_shm_isolation_level = Some s"
    "\<exists>s \<in> {''hybrid'', ''busy'', ''idle''}. cfg_str cfg m_governor_policy = Some s"
    "\<exists>s \<in> {''strict'', ''preferred''}. cfg_str cfg m_task_affinity_default_policy = Some s"
    "\<exists>s \<in> {''none'', ''papi''}. cfg_str cfg m_hwcounters_backend = Some s"
    "\<exists>s \<in> {''ovni'', ''none''}. cfg_str cfg m_instrumentation_version = Some s"
proof -
  obtain iso pol aff hw ins where str: "cfg_str cfg m_shm_isolation_level = Some iso" "cfg_str cfg m_governor_policy = Some pol"
      "cfg_str cfg m_task_affinity_default_policy = Some aff" "cfg_str cfg m_hwcounters_backend = Some hw" "cfg_str cfg m_instrumentation_version = Some ins"
    and "iso \<in> set [''process'', ''user'', ''group'', ''public'']" "pol \<in> set [''hybrid'', ''busy'', ''idle'']" "aff \<in> set [''strict'', ''preferred'']"
      "hw \<in> set [''none'', ''papi'']" "ins \<in> set [''ovni'', ''none'']"
    and words: "cfg_word cfg m_sched_batch_size > 0" "cfg_word cfg m_sched_cpus_per_queue > 0" "cfg_word cfg m_sched_in_queue_size > 0"
      "cfg_word cfg m_shm_size > 10 * 2 * 1024 * 1024" "cfg_word cfg m_shm_start \<ge> 4096" "cfg_word cfg m_thread_stack_size \<ge> stack_min"
    and some: "cfg_str cfg m_shm_name \<noteq> None" "cfg_str cfg m_topology_binding \<noteq> None" "cfg_str cfg m_task_affinity_default \<noteq> None"
    using assms unfolding config_check_def sanity_check_flag bind.bind_lunit sanity_check_str_bind
    by (elim exE conjE) (simp only: option.inject simp_thms de_Morgan_disj not_not)
  then have mem: "iso \<in> {''process'', ''user'', ''group'', ''public''}" "pol \<in> {''hybrid'', ''busy'', ''idle''}" "aff \<in> {''strict'', ''preferred''}"
      "hw \<in> {''none'', ''papi''}" "ins \<in> {''ovni'', ''none''}" by simp_all
  show "\<exists>s. cfg_str cfg m_shm_name = Some s" "\<exists>s. cfg_str cfg m_topology_binding = Some s" "\<exists>s. cfg_str cfg m_task_affinity_default = Some s" using some by auto
  show "\<exists>s \<in> {''process'', ''user'', ''group'', ''public''}. cfg_str cfg m_shm_isolation_level = Some s" using str(1) mem(1) by (intro bexI)
  show "\<exists>s \<in> {''hybrid'', ''busy'', ''idle''}. cfg_str cfg m_governor_policy = Some s" using str(2) mem(2) by (intro bexI)
  show "\<exists>s \<in> {''strict'', ''preferred''}. cfg_str cfg m_task_affinity_default_policy = Some s" using str(3) mem(3) by (intro bexI)
  show "\<exists>s \<in> {''none'', ''papi''}. cfg_str cfg m_hwcounters_backend = Some s" using str(4) mem(4) by (intro bexI)
  show "\<exists>s \<in> {''ovni'', ''none''}. cfg_str cfg m_instrumentation_version = Some s" using str(5) mem(5) by (intro bexI)
  show "cfg_word cfg m_sched_batch_size > 0" "cfg_word cfg m_sched_cpus_per_queue > 0" "cfg_word cfg m_sched_in_queue_size > 0"
    "cfg_word cfg m_shm_size > 10 * 2 * 1024 * 1024" "cfg_word cfg m_shm_start \<ge> 4096" "cfg_word cfg m_thread_stack_size \<ge> stack_min" by (fact words)+
qed

lemma typed_value:
  "value_typed (DECLARE_CONFIG TYPE_UINT64 n m) v = (\<exists>w. v = VUint w)" "value_typed (DECLARE_CONFIG TYPE_SIZE n m) v = (\<exists>w. v = VSize w)"
  "value_typed (DECLARE_CONFIG TYPE_PTR n m) v = (\<exists>w. v = VPtr w)" "value_typed (DECLARE_CONFIG TYPE_STR n m) v = (\<exists>s. v = VStr s \<and> s \<noteq> Some [])"
  "value_typed (DECLARE_CONFIG TYPE_BOOL n m) v = (\<exists>b. v = VBool b)" "value_typed (DECLARE_CONFIG TYPE_LIST_STR n m) v = (\<exists>l. v = VList l)"
  by (cases v; simp add: value_typed_def spec_simps)+

lemma member_simps: "cs_member (DECLARE_CONFIG ty n m) = m"
  by (simp add: spec_simps)

lemma typed_word:
  assumes "cfg_typed cfg"
  shows "\<exists>w. cfg m_sched_batch_size = VUint w" "\<exists>w. cfg m_sched_cpus_per_queue = VUint w" "\<exists>w. cfg m_sched_in_queue_size = VUint w"
    "\<exists>w. cfg m_sched_quantum_ns = VUint w" "\<exists>w. cfg m_governor_spins = VUint w"
    "\<exists>w. cfg m_shm_size = VSize w" "\<exists>w. cfg m_shm_start = VPtr w" "\<exists>w. cfg m_thread_stack_size = VSize w"
  using assms by (simp_all add: cfg_typed_def config_spec_list_def typed_value member_simps)

lemma typed_string:
  assumes "cfg_typed cfg"
  shows "\<exists>s. cfg m_shm_name = VStr s" "\<exists>s. cfg m_topology_binding = VStr s" "\<exists>s. cfg m_task_affinity_default = VStr s"
    "\<exists>s. cfg m_shm_isolation_level = VStr s" "\<exists>s. cfg m_governor_policy = VStr s" "\<exists>s. cfg m_task_affinity_default_policy = VStr s"
    "\<exists>s. cfg m_hwcounters_backend = VStr s" "\<exists>s. cfg m_instrumentation_version = VStr s"
  using assms by (auto simp add: cfg_typed_def config_spec_list_def typed_value member_simps)

end
