(* ===== verification/Config_Correct.thy ===== *)
theory Config_Correct
  imports Config Topology_Init_Ok
begin

section \<open>Sizes, overrides and presets\<close>

text \<open>
  What the parsers of \<open>config.c\<close> compute: a size with its suffix, a list of overrides, which reads back the options it was written from, and the presets. The printers are references, the program
  prints options only for debugging.
\<close>

subsection \<open>Printed numbers are read back\<close>

lemma digit_hex_char: "k < 16 \<Longrightarrow> digit_value (hex_char k) = k"
  by (auto simp: digit_value_def hex_digit_def hex_char_def Let_def)

lemma digit_not_blank:
  assumes "digit_value c < 16"
  shows "\<not> is_space c" "c \<noteq> CHR ''-''" "c \<noteq> CHR ''+''" "c \<noteq> CHR ''x''" "c \<noteq> CHR ''X''" "c \<noteq> CHR '' ''" "c \<noteq> CHR '',''"
  using assms by (auto simp: digit_value_def hex_digit_def is_space_def Let_def split: if_splits)

lemma print_number_digits: "2 \<le> base \<Longrightarrow> base \<le> 16 \<Longrightarrow> c \<in> set (print_number base n) \<Longrightarrow> digit_value c < base"
proof (induction base n rule: print_number.induct)
  case (1 base n)
  have "n mod base < base" using 1(2) by simp
  then have "digit_value (hex_char (n mod base)) < base" using 1(3) digit_hex_char [of "n mod base"] by linarith
  then show ?case using 1 print_number.simps [of base n] by (auto simp: digit_hex_char split: if_splits)
qed

lemma print_number_not_Nil: "print_number base n \<noteq> []"
  by (subst print_number.simps) simp

lemma number_value_snoc: "number_value base (ds @ [c]) = base * number_value base ds + digit_value c"
  by (simp add: number_value_def)

lemma number_value_print: "2 \<le> base \<Longrightarrow> base \<le> 16 \<Longrightarrow> number_value base (print_number base n) = n"
proof (induction base n rule: print_number.induct)
  case (1 base n)
  have s: "number_value base [c] = digit_value c" for c by (simp add: number_value_def)
  show ?case
  proof (cases "n < base")
    case True
    then show ?thesis using 1(2,3) by (subst print_number.simps) (simp add: s digit_hex_char)
  next
    case False
    have "n mod base < base" using 1(2) by simp
    then have "digit_value (hex_char (n mod base)) = n mod base" using 1(3) by (intro digit_hex_char) linarith
    then show ?thesis using 1 False by (subst print_number.simps) (simp add: number_value_snoc)
  qed
qed

lemma scan_print_number:
  assumes "base \<in> {10, 16}" "rest = [] \<or> digit_value (hd rest) \<ge> base \<and> base = 10"
  shows "scan_number base (print_number base n @ rest) = Some (False, base, print_number base n, rest)"
proof -
  let ?ds = "print_number base n"
  have digits: "\<forall>c \<in> set ?ds. digit_value c < base" using print_number_digits [of base] assms(1) by auto
  then have first: "digit_value (hd ?ds) < 16" using assms(1) hd_in_set [OF print_number_not_Nil, of base n] by auto
  note blank = digit_not_blank [OF first]
  have f1: "dropWhile is_space (?ds @ rest) = ?ds @ rest" using print_number_not_Nil [of base n] blank(1) by (cases ?ds) auto
  have f2: "(base = 16 \<and> hex_prefix (?ds @ rest)) = False" unfolding eq_False
  proof
    assume h: "base = 16 \<and> hex_prefix (?ds @ rest)"
    then have "rest = []" "1 < length ?ds" using assms(2) by (auto simp: hex_prefix_def)
    then have "?ds ! 1 \<in> {CHR ''x'', CHR ''X''}" "?ds ! 1 \<in> set ?ds" using h by (auto simp: hex_prefix_def)
    then show False using digits h digit_not_blank(4,5) [of "?ds ! 1"] by auto
  qed
  have f3: "takeWhile (\<lambda>c. digit_value c < base) (?ds @ rest) = ?ds" using digits assms(2) by (cases rest) (auto simp: takeWhile_tail)
  have f4: "hd (?ds @ rest) = hd ?ds" "?ds @ rest \<noteq> []" "number_base base (?ds @ rest) = base" using print_number_not_Nil [of base n] assms(1) by (auto simp: number_base_def)
  show ?thesis unfolding scan_number_def Let_def f1 f4 using print_number_not_Nil [of base n] blank(2,3) by (simp only: f1 f2 f3 f4 simp_thms if_False) simp
qed

lemma strtoull_print:
  assumes "base \<in> {10, 16}" "rest = [] \<or> digit_value (hd rest) \<ge> base \<and> base = 10" "n < 2 ^ 64"
  shows "strtoull (print_number base n @ rest) base = (of_nat n, rest, False)"
  using scan_print_number [OF assms(1,2), of n] assms(1,3) number_value_print [of base n] by (auto simp: strtoull_def)

subsection \<open>Sizes\<close>

lemma shift_kilo: "((\<lambda>r. push_bit 10 r) ^^ k) (of_nat n :: u64) = of_nat (n * 1024 ^ k)"
  by (induction k) (simp_all add: push_bit_eq_mult mult_ac)

lemma size_suffix_no_digit: "size_shifts c = Some k \<Longrightarrow> digit_value c \<ge> 10"
proof -
  assume "size_shifts c = Some k"
  then have "c \<in> set ''EePpTtGgMmKk''" by (auto simp: size_shifts_def split: if_splits)
  moreover have "\<forall>c \<in> set ''EePpTtGgMmKk''. digit_value c \<ge> 10" by code_simp
  ultimately show ?thesis by blast
qed

lemma parse_str_size_plain: "n < 2 ^ 64 \<Longrightarrow> parse_str_size (print_number 10 n) = Some (of_nat n)"
  using strtoull_print [of 10 "[]" n] by (simp add: parse_str_size_def)

text \<open>A size is the number times 1024 for K, and times 1024 more for each of M, G, T, P and E, in either case of the letter; without a suffix it is the number, and with another character
  after the digits it is refused. The product is taken modulo \<^term>\<open>2 ^ 64\<close>, and what follows the suffix is not read.\<close>

theorem parse_str_size_exact:
  assumes "n < 2 ^ 64"
  shows "parse_str_size (print_number 10 n) = Some (of_nat n) \<and>
    (\<forall>c rest. digit_value c \<ge> 10 \<longrightarrow> parse_str_size (print_number 10 n @ c # rest) = map_option (\<lambda>k. of_nat (n * 1024 ^ k)) (size_shifts c)) \<and>
    (\<forall>c k. size_shifts c = Some k \<longrightarrow> digit_value c \<ge> 10)"
proof (intro conjI allI impI)
  show "parse_str_size (print_number 10 n) = Some (of_nat n)" using assms by (rule parse_str_size_plain)
next
  fix c rest assume "10 \<le> digit_value c"
  then show "parse_str_size (print_number 10 n @ c # rest) = map_option (\<lambda>k. of_nat (n * 1024 ^ k)) (size_shifts c)"
    using strtoull_print [of 10 "c # rest" n] assms by (simp add: parse_str_size_def shift_kilo split: option.splits)
qed (rule size_suffix_no_digit)

theorem parse_str_size_exact_witness: "parse_str_size ''16E'' = Some 0 \<and> parse_str_size ''2GB'' = Some (2 * 1024 ^ 3)"
proof -
  have "print_number 10 16 = ''16''" "print_number 10 2 = ''2''" "size_shifts (CHR ''E'') = Some 6" "size_shifts (CHR ''G'') = Some 3"
    "digit_value (CHR ''E'') = 14" "digit_value (CHR ''G'') = 16" by code_simp+
  then show ?thesis using parse_str_size_exact [of 16, THEN conjunct2, THEN conjunct1, rule_format, of "CHR ''E''" "[]"]
      parse_str_size_exact [of 2, THEN conjunct2, THEN conjunct1, rule_format, of "CHR ''G''" "''B''"] by simp
qed

subsection \<open>Overrides\<close>

text \<open>The text of a value, and the values a list of overrides can hold: a comma ends an override and blanks in front of a value are skipped.\<close>

fun print_value :: "config_value \<Rightarrow> string" where
  "print_value (VUint w) = print_number 10 (unat w)"
| "print_value (VSize w) = print_number 10 (unat w)"
| "print_value (VPtr w) = ''0x'' @ print_number 16 (unat w)"
| "print_value (VBool b) = (if b then ''true'' else ''false'')"
| "print_value (VStr (Some s)) = s"
| "print_value _ = []"

definition overridable :: "config_spec \<Rightarrow> config_value \<Rightarrow> bool" where
  "overridable spec v =
     (spec \<in> set config_spec_list \<and> cs_dimensions spec = 0 \<and> cs_type spec \<noteq> TYPE_LIST_STR \<and> value_typed spec v \<and>
      CHR '','' \<notin> set (print_value v) \<and> (print_value v = [] \<or> hd (print_value v) \<noteq> CHR '' ''))"

definition override_text :: "config_spec \<times> config_value \<Rightarrow> string" where
  "override_text = (\<lambda>(spec, v). cs_name spec @ ''='' @ print_value v)"

fun override_list :: "(config_spec \<times> config_value) list \<Rightarrow> string" where
  "override_list [] = []"
| "override_list [kv] = override_text kv"
| "override_list (kv # kvs) = override_text kv @ '','' @ override_list kvs"

definition store_option :: "config_spec \<times> config_value \<Rightarrow> rt_config \<Rightarrow> rt_config" where
  "store_option = (\<lambda>(spec, v) cfg. cfg(cs_member spec := v))"

lemma option_names:
  "list_all (\<lambda>spec. cs_name spec \<noteq> [] \<and> CHR '','' \<notin> set (cs_name spec) \<and> CHR ''='' \<notin> set (cs_name spec) \<and> hd (cs_name spec) \<noteq> CHR '' '' \<and>
     trim_end (cs_name spec) = cs_name spec \<and> cs_type spec \<noteq> TYPE_INT64) config_spec_list"
  by code_simp

lemma option_name:
  assumes "spec \<in> set config_spec_list"
  shows "cs_name spec \<noteq> []" "CHR '','' \<notin> set (cs_name spec)" "CHR ''='' \<notin> set (cs_name spec)" "hd (cs_name spec) \<noteq> CHR '' ''"
    "trim_end (cs_name spec) = cs_name spec" "cs_type spec \<noteq> TYPE_INT64"
  using option_names assms by (auto simp: list_all_iff)

lemma find_distinct: "distinct (map f xs) \<Longrightarrow> x \<in> set xs \<Longrightarrow> find (\<lambda>y. f y = f x) xs = Some x"
  by (induction xs) (auto simp: image_iff)

lemma string_parse_printed:
  assumes "overridable spec v" "value_typed spec old"
  shows "(case cs_type spec of TYPE_INT64 \<Rightarrow> string_parse_int64 (print_value v) | TYPE_PTR \<Rightarrow> string_parse_ptr (print_value v)
    | TYPE_SIZE \<Rightarrow> string_parse_size (print_value v) | TYPE_UINT64 \<Rightarrow> string_parse_uint64 (print_value v)
    | TYPE_STR \<Rightarrow> string_parse_str old (print_value v) | TYPE_BOOL \<Rightarrow> string_parse_bool (print_value v) | TYPE_LIST_STR \<Rightarrow> None) = Some v"
proof -
  have typed: "value_typed spec v" "cs_dimensions spec = 0" "cs_type spec \<noteq> TYPE_LIST_STR" "cs_type spec \<noteq> TYPE_INT64"
    using assms(1) option_name(6) [of spec] by (auto simp: overridable_def)
  have small: "unat w < 2 ^ 64" for w :: u64 using unsigned_less [of w] by simp
  have "strtoull (print_number base (unat w)) base = (w, [], False)" if "base \<in> {10, 16}" for base and w :: u64
    using strtoull_print [OF that, of "[]", OF _ small, of w] by simp
  then have num: "strtoull (print_number 10 (unat w)) 10 = (w, [], False)" "strtoull (print_number 16 (unat w)) 16 = (w, [], False)" for w :: u64 by simp_all
  show ?thesis
  proof (cases v)
    case (VStr s)
    then show ?thesis using typed assms(2) by (cases s; cases old) (auto simp: value_typed_def string_parse_str_def)
  qed (use typed num parse_str_size_plain [OF small] in \<open>auto simp: value_typed_def string_parse_defs\<close>)
qed

lemma single_override_printed:
  assumes "overridable spec v" "cfg_typed cfg"
  shows "config_parse_single_override cfg (cs_name spec) (print_value v) = (False, cfg(cs_member spec := v))"
proof -
  have m: "spec \<in> set config_spec_list" using assms(1) by (simp add: overridable_def)
  have trim: "trim_front (print_value v) = print_value v" using assms(1) by (cases "print_value v") (auto simp: overridable_def trim_front_def)
  have old: "value_typed spec (cfg (cs_member spec))" using assms(2) m by (simp add: cfg_typed_def list_all_iff)
  show ?thesis
    unfolding config_parse_single_override_def option_name(5) [OF m] find_distinct [OF distinct_option_names m] option.case Let_def trim string_parse_printed [OF assms(1) old]
    using option_name(1) [OF m] by simp
qed

lemma override_option_printed:
  assumes "overridable spec v" "cfg_typed cfg"
  shows "override_option (override_text (spec, v)) (False, cfg) = (False, cfg(cs_member spec := v))"
proof -
  have m: "spec \<in> set config_spec_list" using assms(1) by (simp add: overridable_def)
  have "trim_front (override_text (spec, v)) = cs_name spec @ ''='' @ print_value v"
    using option_name(1,4) [OF m] by (cases "cs_name spec") (auto simp: trim_front_def override_text_def)
  moreover have "takeWhile (\<lambda>c. c \<noteq> CHR ''='') (cs_name spec @ ''='' @ print_value v) = cs_name spec"
    "dropWhile (\<lambda>c. c \<noteq> CHR ''='') (cs_name spec @ ''='' @ print_value v) = CHR ''='' # print_value v"
    using option_name(3) [OF m] by (auto simp: takeWhile_tail dropWhile_append3 takeWhile_append2 dropWhile_append2)
  ultimately show ?thesis using single_override_printed [OF assms] by (simp add: override_option_def Let_def)
qed

lemma strtok_comma_token: "CHR '','' \<notin> set tok \<Longrightarrow> strtok_comma cur (tok @ rest) = strtok_comma (cur @ tok) rest"
  by (induction tok arbitrary: cur) auto

lemma override_tokens:
  "\<forall>(spec, v) \<in> set kvs. overridable spec v \<Longrightarrow> strtok_comma [] (override_list kvs) = map override_text kvs"
proof (induction kvs rule: override_list.induct)
  case (2 kv)
  then show ?case using strtok_comma_token [of "override_text kv" "[]" "[]"] option_name(1,2)
    by (auto simp: override_text_def overridable_def split: prod.splits)
next
  case (3 kv kv2 kvs)
  then have "CHR '','' \<notin> set (override_text kv)" "override_text kv \<noteq> []" using option_name(1,2) by (auto simp: override_text_def overridable_def split: prod.splits)
  then show ?case using 3 strtok_comma_token [of "override_text kv" "[]" "'','' @ override_list (kv2 # kvs)"] by simp
qed simp

lemma override_fold:
  "\<forall>(spec, v) \<in> set kvs. overridable spec v \<Longrightarrow> cfg_typed cfg \<Longrightarrow>
   fold override_option (map override_text kvs) (False, cfg) = (False, fold store_option kvs cfg)"
proof (induction kvs arbitrary: cfg)
  case (Cons kv kvs)
  obtain spec v where kv: "kv = (spec, v)" by fastforce
  then have o: "overridable spec v" using Cons.prems(1) by simp
  then have "cfg_typed (cfg(cs_member spec := v))" using Cons.prems(2) by (intro cfg_typed_update) (auto simp: overridable_def)
  then show ?case using Cons kv override_option_printed [OF o Cons.prems(2)] by (simp add: store_option_def)
qed simp

text \<open>C36. The overrides written in NOSV_CONFIG_OVERRIDE are read back: for any list of scalar options and values of their types (text without commas that does not start with a blank), every option
  of the list gets exactly its value, a later entry replaces an earlier one, and no other option changes.\<close>

theorem config_override_roundtrip:
  assumes "cfg_typed cfg" "\<forall>(spec, v) \<in> set kvs. overridable spec v"
  shows "config_parse_override (Some (override_list kvs)) cfg = (False, fold store_option kvs cfg)"
  using override_fold [OF assms(2,1)] override_tokens [OF assms(2)] by (simp add: config_parse_override_def)

text \<open>A value with a unit, a pointer and a text, written out.\<close>

theorem config_override_roundtrip_witness:
  "snd (config_parse_override (Some ''shared_memory.start=0x10000000,governor.policy=idle,scheduler.queue_batch=8'') config_init) =
     config_init(m_shm_start := VPtr 0x10000000, m_governor_policy := VStr (Some ''idle''), m_sched_batch_size := VUint 8)"
proof -
  let ?kvs = "[(DECLARE_CONFIG TYPE_PTR ''shared_memory.start'' m_shm_start, VPtr 0x10000000), (DECLARE_CONFIG TYPE_STR ''governor.policy'' m_governor_policy, VStr (Some ''idle'')),
    (DECLARE_CONFIG TYPE_UINT64 ''scheduler.queue_batch'' m_sched_batch_size, VUint 8)]"
  have "char_of (48 :: nat) = CHR ''0''" "char_of (49 :: nat) = CHR ''1''" "char_of (56 :: nat) = CHR ''8''" by code_simp+
  then have p: "print_value (VPtr 0x10000000) = ''0x10000000''" "print_value (VUint 8) = ''8''" by (simp_all add: print_number.simps hex_char_def)
  then have "override_list ?kvs = ''shared_memory.start=0x10000000,governor.policy=idle,scheduler.queue_batch=8''" by (simp add: override_text_def spec_simps)
  moreover have "\<forall>(spec, v) \<in> set ?kvs. overridable spec v" using p by (simp add: overridable_def config_spec_list_def typed_value) (simp add: spec_simps)
  ultimately show ?thesis using config_override_roundtrip [OF cfg_typed_init, of ?kvs] by (simp add: store_option_def member_simps)
qed

subsection \<open>Defaults, file and overrides\<close>

text \<open>The value the file has for an option, nothing when the section or the key is missing; the inner option is \<^term>\<open>None\<close> for a value that cannot be converted.\<close>

definition file_option :: "toml_table_t \<Rightarrow> config_spec \<Rightarrow> config_value option" where
  "file_option table spec =
     (case config_section table table (cs_name spec) of
        None \<Rightarrow> None
      | Some (section, key) \<Rightarrow>
          if toml_raw_in section key = None \<and> toml_array_in section key = None then None
          else if cs_dimensions spec \<noteq> 0 then config_parse_array spec section key
          else Option.bind (config_parse_single_element spec section key) (\<lambda>r. r))"

lemma single_spec_stores:
  assumes "config_parse_single_spec table spec cfg = Some (0, cfg')"
  shows "cfg' = (case file_option table spec of None \<Rightarrow> cfg | Some v \<Rightarrow> cfg(cs_member spec := v))"
  using assms by (auto simp: config_parse_single_spec_def file_option_def split: option.splits if_splits prod.splits)

lemma populate_stores:
  assumes "populate_specs table specs (fail, cfg) = Some (0, cfg')" "distinct (map cs_member specs)"
  shows "fail = 0 \<and> (\<forall>m. cfg' m = (case find (\<lambda>spec. cs_member spec = m) specs of None \<Rightarrow> cfg m | Some spec \<Rightarrow> (case file_option table spec of None \<Rightarrow> cfg m | Some v \<Rightarrow> v)))"
  using assms
proof (induction specs arbitrary: fail cfg)
  case (Cons spec specs)
  obtain r cfg1 where 1: "config_parse_single_spec table spec cfg = Some (r, cfg1)" "populate_specs table specs (fail + r, cfg1) = Some (0, cfg')"
    using Cons.prems(1) by (auto split: bind_splits)
  have IH: "fail + r = 0" "\<And>m. cfg' m = (case find (\<lambda>spec. cs_member spec = m) specs of None \<Rightarrow> cfg1 m | Some spec \<Rightarrow> (case file_option table spec of None \<Rightarrow> cfg1 m | Some v \<Rightarrow> v))"
    using Cons.IH [OF 1(2)] Cons.prems(2) by auto
  then have c1: "cfg1 = (case file_option table spec of None \<Rightarrow> cfg | Some v \<Rightarrow> cfg(cs_member spec := v))" using single_spec_stores 1(1) by simp
  have none: "find (\<lambda>spec'. cs_member spec' = cs_member spec) specs = None" using Cons.prems(2) by (auto simp: find_None_iff) (metis image_eqI)
  have "cfg' m = (case find (\<lambda>spec. cs_member spec = m) (spec # specs) of None \<Rightarrow> cfg m | Some spec \<Rightarrow> (case file_option table spec of None \<Rightarrow> cfg m | Some v \<Rightarrow> v))" for m
    unfolding IH(2) [of m] using none by (cases "m = cs_member spec") (auto simp: c1 split: option.splits)
  then show ?case using IH(1) by simp
qed simp

lemma fold_store: "fold store_option kvs cfg m = (case map_of (rev (map (map_prod cs_member id) kvs)) m of None \<Rightarrow> cfg m | Some v \<Rightarrow> v)"
  by (induction kvs rule: rev_induct) (auto simp: store_option_def split: prod.splits)


subsection \<open>Accepted configurations\<close>

text \<open>C22. When \<open>config_parse\<close> returns, every option of the specification holds a value of its declared type (an array option an array, or the string an override put in its place), and the
  values are in range: batches, CPUs per queue and submission slots are positive, the shared memory is larger than 20 MB and not mapped in the first page, the stacks have the minimum size,
  the names are not empty, and the levels and policies are among those the program knows.\<close>

theorem config_parse_accepts_only_sane:
  assumes "config_parse e = Some cfg"
  shows "(\<forall>spec \<in> set config_spec_list. value_typed spec (cfg (cs_member spec))) \<and>
    (\<exists>batch per_queue slots. cfg m_sched_batch_size = VUint batch \<and> cfg m_sched_cpus_per_queue = VUint per_queue \<and> cfg m_sched_in_queue_size = VUint slots \<and>
       0 < batch \<and> 0 < per_queue \<and> 0 < slots) \<and>
    (\<exists>size start stack. cfg m_shm_size = VSize size \<and> cfg m_shm_start = VPtr start \<and> cfg m_thread_stack_size = VSize stack \<and>
       20 * 1024 * 1024 < size \<and> 4096 \<le> start \<and> ce_stack_min e \<le> stack) \<and>
    (\<exists>name binding aff. cfg m_shm_name = VStr (Some name) \<and> cfg m_topology_binding = VStr (Some binding) \<and> cfg m_task_affinity_default = VStr (Some aff)) \<and>
    (\<exists>level \<in> {''process'', ''user'', ''group'', ''public''}. cfg m_shm_isolation_level = VStr (Some level)) \<and>
    (\<exists>policy \<in> {''hybrid'', ''busy'', ''idle''}. cfg m_governor_policy = VStr (Some policy)) \<and>
    (\<exists>policy \<in> {''strict'', ''preferred''}. cfg m_task_affinity_default_policy = VStr (Some policy)) \<and>
    (\<exists>backend \<in> {''none'', ''papi''}. cfg m_hwcounters_backend = VStr (Some backend)) \<and>
    (\<exists>version \<in> {''ovni'', ''none''}. cfg m_instrumentation_version = VStr (Some version))"
proof -
  have t: "cfg_typed cfg" and c: "config_check (ce_stack_min e) cfg = Some False" using config_parse_typed [OF assms] by auto
  have str: "(cfg_str cfg m = Some s) = (cfg m = VStr (Some s))" for m s by (auto simp: cfg_str_def split: config_value.splits)
  have word: "cfg m = VUint w \<Longrightarrow> cfg_word cfg m = w" "cfg m = VSize w \<Longrightarrow> cfg_word cfg m = w" "cfg m = VPtr w \<Longrightarrow> cfg_word cfg m = w" for m w
    by (simp_all add: cfg_word_def)
  have "\<forall>spec \<in> set config_spec_list. value_typed spec (cfg (cs_member spec))" using t by (simp add: cfg_typed_def list_all_iff)
  moreover have "\<exists>batch per_queue slots. cfg m_sched_batch_size = VUint batch \<and> cfg m_sched_cpus_per_queue = VUint per_queue \<and> cfg m_sched_in_queue_size = VUint slots \<and>
       0 < batch \<and> 0 < per_queue \<and> 0 < slots" using typed_word(1-3) [OF t] config_check_sound(1-3) [OF c] word(1) by metis
  moreover have "\<exists>size start stack. cfg m_shm_size = VSize size \<and> cfg m_shm_start = VPtr start \<and> cfg m_thread_stack_size = VSize stack \<and>
       20 * 1024 * 1024 < size \<and> 4096 \<le> start \<and> ce_stack_min e \<le> stack"
    using typed_word(6-8) [OF t] config_check_sound(4-6) [OF c] word by auto
  ultimately show ?thesis using config_check_sound(7-14) [OF c, unfolded str] by (intro conjI) blast+
qed

subsection \<open>An example\<close>

text \<open>A file that sets the policy of the governor, and an override of the size of the batches.\<close>

definition example_table :: toml_table_t where
  "example_table = Toml_Table [] [] [(''governor'', Toml_Table [(''policy'', toml_quote ''idle'')] [] [])]"

definition example_config_env :: config_env where
  "example_config_env = \<lparr> ce_getenv = (\<lambda>v. if v = ''NOSV_CONFIG_OVERRIDE'' then Some ''scheduler.queue_batch=8'' else None), ce_readable = (\<lambda>p. p = ''/etc/nosv.toml''),
     ce_cwd = Some ''/tmp'', ce_installed_dir = ''/etc'', ce_file = (\<lambda>_. Some example_table), ce_stack_min = 16384, ce_all_cpus = {0, 1}, ce_topo = example_env, ce_max_cpus = 2 \<rparr>"

definition example_config :: rt_config where
  "example_config = config_init(m_governor_policy := VStr (Some ''idle''), m_sched_batch_size := VUint 8)"

definition batch_spec :: config_spec where
  "batch_spec = DECLARE_CONFIG TYPE_UINT64 ''scheduler.queue_batch'' m_sched_batch_size"

lemma example_file: "list_all (\<lambda>spec. file_option example_table spec = (if cs_member spec = m_governor_policy then Some (VStr (Some ''idle'')) else None)) config_spec_list"
  by code_simp

lemma example_fails: "map_option fst (config_populate config_init example_table) = Some 0"
  by code_simp

lemma example_populate: "config_populate config_init example_table = Some (0, config_init(m_governor_policy := VStr (Some ''idle'')))"
proof -
  obtain cfg where c: "config_populate config_init example_table = Some (0, cfg)" using example_fails by auto
  have "cfg m = (config_init(m_governor_policy := VStr (Some ''idle''))) m" for m
  proof -
    have "m \<in> set (map cs_member config_spec_list)" by (cases m) (simp_all add: config_spec_list_def spec_simps)
    then obtain spec where "spec \<in> set config_spec_list" "cs_member spec = m" by auto
    then show ?thesis using populate_stores [of example_table config_spec_list 0 config_init cfg] c find_distinct [OF distinct_option_members, of spec] distinct_option_members example_file
      by (auto simp: config_populate_def list_all_iff)
  qed
  then show ?thesis using c by auto
qed

lemma example_override:
  "override_list [(batch_spec, VUint 8)] = ''scheduler.queue_batch=8''" "\<forall>(spec, v) \<in> set [(batch_spec, VUint 8)]. overridable spec v"
  by code_simp+

lemma example_check: "config_check 16384 example_config = Some False"
  by (simp add: config_check_def sanity_check_flag sanity_check_str_def cfg_word_def cfg_str_def example_config_def)

lemma example_config_parse: "config_parse example_config_env = Some example_config"
proof -
  let ?cfg = "config_init(m_governor_policy := VStr (Some ''idle''))"
  have "cfg_typed ?cfg" using populate_typed [of example_table config_spec_list 0 config_init 0 ?cfg] example_populate cfg_typed_init by (simp add: config_populate_def)
  then have "config_parse_override (Some ''scheduler.queue_batch=8'') ?cfg = (False, example_config)"
    using override_fold [OF example_override(2)] override_tokens [OF example_override(2)] example_override(1)
    by (simp add: config_parse_override_def store_option_def batch_spec_def member_simps example_config_def)
  moreover have "config_find example_config_env = Some ''/etc/nosv.toml''" by (simp add: config_find_def example_config_env_def MAX_CONFIG_PATH_def)
  ultimately show ?thesis using example_populate example_check
    by (simp add: config_parse_def config_parse_preset_def example_config_env_def)
qed

theorem config_parse_accepts_only_sane_witness:
  "config_parse example_config_env = Some example_config \<and>
   (\<exists>policy \<in> {''hybrid'', ''busy'', ''idle''}. example_config m_governor_policy = VStr (Some policy))"
  using config_parse_accepts_only_sane [OF example_config_parse] example_config_parse by blast


end
