(* ===== verification/Config_Runtime.thy ===== *)
theory Config_Runtime
  imports Config_Correct Tasks_Api
begin

section \<open>The runtime with an accepted configuration\<close>

text \<open>
  What the other components read of the configuration, and that they accept what \<open>config_parse\<close> accepts: the scheduler can be created, and the default affinity of the preset shared-mpi is one
  that the task component can parse.
\<close>

definition sched_config_of :: "rt_config \<Rightarrow> sched_config" where
  "sched_config_of cfg =
     \<lparr> sched_batch_size = unat (cfg_word cfg m_sched_batch_size), sched_quantum_ns = unat (cfg_word cfg m_sched_quantum_ns),
       sched_in_queue_size = unat (cfg_word cfg m_sched_in_queue_size), sched_cpus_per_queue = unat (cfg_word cfg m_sched_cpus_per_queue),
       cfg_governor_policy = the (cfg_str cfg m_governor_policy), cfg_governor_spins = cfg_word cfg m_governor_spins \<rparr>"


subsection \<open>Affinity of a preset\<close>

lemma digits_value_print:
  assumes "\<forall>c \<in> set ds. Toml.digit_value c < 10"
  shows "Tasks_Api.digits_value v ds = foldl (\<lambda>v c. 10 * v + Toml.digit_value c) v ds"
  using assms
proof (induction ds arbitrary: v)
  case (Cons c ds)
  have "Toml.digit_value c < 10" using Cons.prems by simp
  then have "48 \<le> (of_char c :: nat) \<and> (of_char c :: nat) \<le> 57" "Toml.digit_value c = of_char c - 48"
    by (auto simp: Toml.digit_value_def hex_digit_def Let_def split: if_splits)
  then show ?case using Cons by (simp add: Tasks_Api.digit_value_def mult.commute)
qed simp

text \<open>The default affinity that the preset shared-mpi writes in the configuration is read back when the tasks are initialised: the same level and the same number, in the 29 bits an affinity
  has for it, and with the policy preferred of that preset.\<close>

theorem preset_affinity_roundtrip:
  assumes "config_preset_shared_mpi e cfg = Some cfg'" "topo_get_default_aff (ce_topo e) (ce_max_cpus e) = Some (Some (is_cpu, i))" "i < 2 ^ 64"
  shows "\<exists>str policy. cfg' m_task_affinity_default = VStr (Some str) \<and> cfg' m_task_affinity_default_policy = VStr (Some policy) \<and>
    task_affinity_init str policy gl = Some (gl \<lparr> default_affinity :=
      \<lparr> aff_level = (if is_cpu then NOSV_AFFINITY_LEVEL_CPU else NOSV_AFFINITY_LEVEL_NUMA), aff_type = NOSV_AFFINITY_TYPE_PREFERRED, aff_index = nat i mod 2 ^ 29 \<rparr> \<rparr>)"
proof -
  let ?str = "default_aff_string (is_cpu, i)"
  have c: "cfg' m_task_affinity_default = VStr (Some ?str)" "cfg' m_task_affinity_default_policy = VStr (Some ''preferred'')"
    using assms(1,2) by (auto simp: config_preset_shared_mpi_def assert_then_def Let_def split: if_splits bind_splits)
  have "Tasks_Api.digits_value 0 (print_number 10 (nat i)) = number_value 10 (print_number 10 (nat i))"
    using digits_value_print [of "print_number 10 (nat i)" 0] print_number_digits [of 10] by (simp add: number_value_def)
  moreover have "nat i < 2 ^ 64" using assms(3) by (cases "0 \<le> i") (simp_all add: nat_less_iff)
  ultimately have "strtoul10 (print_number 10 (nat i)) = Some (nat i)" using number_value_print [of 10 "nat i"] by (simp add: strtoul10_def Let_def)
  then have "task_affinity_init ?str ''preferred'' gl = Some (gl \<lparr> default_affinity :=
      \<lparr> aff_level = (if is_cpu then NOSV_AFFINITY_LEVEL_CPU else NOSV_AFFINITY_LEVEL_NUMA), aff_type = NOSV_AFFINITY_TYPE_PREFERRED, aff_index = nat i mod 2 ^ 29 \<rparr> \<rparr>)"
    by (auto simp: task_affinity_init_def default_aff_string_def parse_affinity_from_config_def)
  then show ?thesis using c by blast
qed


theorem preset_affinity_roundtrip_witness:
  "\<forall>gl. \<exists>cfg' str. config_preset_shared_mpi example_config_env config_init = Some cfg' \<and> cfg' m_task_affinity_default = VStr (Some str) \<and>
     (\<exists>policy. task_affinity_init str policy gl = Some (gl \<lparr> default_affinity := \<lparr> aff_level = NOSV_AFFINITY_LEVEL_NUMA, aff_type = NOSV_AFFINITY_TYPE_PREFERRED, aff_index = 0 \<rparr> \<rparr>))"
proof
  fix gl
  have aff: "topo_get_default_aff (ce_topo example_config_env) (ce_max_cpus example_config_env) = Some (Some (False, 0))" by code_simp
  then obtain cfg' where "config_preset_shared_mpi example_config_env config_init = Some cfg'"
    by (auto simp: config_preset_shared_mpi_def cfg_str_def assert_then_def all_mask_string_def example_config_env_def Let_def)
  then show "\<exists>cfg' str. config_preset_shared_mpi example_config_env config_init = Some cfg' \<and> cfg' m_task_affinity_default = VStr (Some str) \<and>
     (\<exists>policy. task_affinity_init str policy gl = Some (gl \<lparr> default_affinity := \<lparr> aff_level = NOSV_AFFINITY_LEVEL_NUMA, aff_type = NOSV_AFFINITY_TYPE_PREFERRED, aff_index = 0 \<rparr> \<rparr>))"
    using preset_affinity_roundtrip [OF _ aff, of config_init cfg' gl] by auto
qed

end
