(* ===== verification/Shared_Memory.thy ===== *)
theory Shared_Memory
  imports Config_Correct
begin

section \<open>The shared memory segment (memory/sharedmemory.c, generic/proc.h)\<close>

text \<open>
  Processes that attach under the same name share one segment. The first process to open it creates its components; a process that finds a registered process dead takes the segment for stale,
  unlinks it and starts again; the last process to leave unlinks the segment. A file lock serialises all this.

  A process is its identifier, the pid together with its start time; \<open>alive\<close> has the processes that run, which is what /proc shows. An inode of the shared memory file system is a record \<open>segment\<close>,
  \<open>shm_file\<close> is the inode that has the name now. The relation \<open>smem_step\<close> lets every process take a step, from one access of the file system or of the lock to the next, and lets a process crash:
  its locks are released and its entry in the segment stays. Mapping is assumed to succeed. The components of the segment (backbone, topology, scheduler and so on) are the flag
  \<open>seg_components\<close>.
\<close>

subsection \<open>Process identifiers\<close>

record process_identifier =
  start_time :: nat
  pi_pid :: int

text \<open>Conversions of \<open>fscanf\<close> whose value is not stored.\<close>

fun skip_ints :: "nat \<Rightarrow> string \<Rightarrow> string option" where
  "skip_ints 0 s = Some s"
| "skip_ints (Suc n) s = (case scan_int s of None \<Rightarrow> None | Some (_, rest) \<Rightarrow> skip_ints n rest)"

text \<open>A line of /proc/\<open>pid\<close>/stat. The name of the executable is in parentheses and can contain anything: the fields are counted from the last closing parenthesis.
  The outer \<^term>\<open>None\<close> is a failed assertion, the inner one a line that cannot be parsed.\<close>

definition parse_proc_stat :: "string \<Rightarrow> process_identifier option option" where
  "parse_proc_stat line =
     (case scan_int line of
        None \<Rightarrow> Some None
      | Some (pid, _) \<Rightarrow>
          assert_then (CHR '')'' \<in> set line)
            (let fields = drop 1 (rev (takeWhile (\<lambda>c. c \<noteq> CHR '')'') (rev line)))
             in Some (if fields = [] then None
                      else case skip_ints 18 (tl fields) of
                        None \<Rightarrow> None
                      | Some rest \<Rightarrow>
                          (case scan_number 10 rest of
                             None \<Rightarrow> None
                           | Some _ \<Rightarrow>
                               (let t = unat (fst (strtoull rest 10)) in if t = 0 then None else Some \<lparr> start_time = t, pi_pid = pid \<rparr>)))))"

text \<open>\<open>proc_file\<close> has the content of /proc/\<open>pid\<close>/stat for the processes that run, and of /proc/self/stat at 0. A process that does not run, or a line that cannot be parsed, gives a
  pid of \<^term>\<open>- 1 :: int\<close>.\<close>

definition get_process :: "(int \<Rightarrow> string option) \<Rightarrow> int \<Rightarrow> process_identifier option" where
  "get_process proc_file pid =
     (let none = \<lparr> start_time = 0, pi_pid = - 1 \<rparr>
      in case proc_file pid of
           None \<Rightarrow> Some none
         | Some line \<Rightarrow> map_option (\<lambda>r. case r of None \<Rightarrow> none | Some pi \<Rightarrow> pi) (parse_proc_stat line))"

text \<open>The same in terms of the list of running processes; the lemma \<open>get_process_running\<close> at the end of this theory shows that \<open>get_process\<close> gives it when /proc has the lines of these processes.\<close>

definition running_process :: "process_identifier list \<Rightarrow> int \<Rightarrow> process_identifier" where
  "running_process alive pid = (case find (\<lambda>p. pi_pid p = pid) alive of None \<Rightarrow> \<lparr> start_time = 0, pi_pid = - 1 \<rparr> | Some p \<Rightarrow> p)"

subsection \<open>Name and permissions\<close>

definition calculate_shared_memory_permissions :: "string \<Rightarrow> string \<Rightarrow> nat \<Rightarrow> nat \<Rightarrow> nat \<Rightarrow> (nat \<times> string) option" where
  "calculate_shared_memory_permissions isolation_level shm_name euid egid pid =
     (if isolation_level = ''process'' then Some (384, shm_name @ ''-u'' @ print_number 10 euid @ ''-p'' @ print_number 10 pid)
      else if isolation_level = ''user'' then Some (384, shm_name @ ''-u'' @ print_number 10 euid)
      else if isolation_level = ''group'' then Some (432, shm_name @ ''-g'' @ print_number 10 egid)
      else if isolation_level = ''public'' then Some (438, shm_name)
      else None)"

subsection \<open>The segment\<close>

record segment =
  seg_linked :: bool
  seg_size :: nat
  seg_processes :: "process_identifier list"
  seg_count :: int
  seg_components :: bool
  seg_lock :: "process_identifier option"

definition no_process :: process_identifier where
  "no_process = \<lparr> start_time = 0, pi_pid = 0 \<rparr>"

definition new_segment :: segment where
  "new_segment = \<lparr> seg_linked = True, seg_size = 0, seg_processes = replicate MAX_PIDS no_process, seg_count = 0, seg_components = False, seg_lock = None \<rparr>"

definition smem_config_initialize :: "process_identifier \<Rightarrow> segment \<Rightarrow> segment option" where
  "smem_config_initialize self config =
     assert_then (pi_pid self \<noteq> 0) (Some (config \<lparr> seg_processes := self # replicate (MAX_PIDS - 1) no_process, seg_count := 0, seg_components := False \<rparr>))"

text \<open>The results are the slot in the list of processes and the segment.\<close>

definition smem_initialize_first :: "process_identifier \<Rightarrow> segment \<Rightarrow> (nat \<times> segment) option" where
  "smem_initialize_first self config =
     do { config \<leftarrow> smem_config_initialize self config; Some (0, config \<lparr> seg_components := True \<rparr>) }"

text \<open>The components attach to what the first process created: \<open>topo_init(0)\<close>, \<open>scheduler_init(0)\<close> and the others follow the pointers of the segment, which have to be there.\<close>

definition smem_initialize_rest :: "process_identifier \<Rightarrow> segment \<Rightarrow> (nat \<times> segment) option" where
  "smem_initialize_rest self config =
     (case find (\<lambda>i. pi_pid (seg_processes config ! i) = 0) [0..<MAX_PIDS] of
        None \<Rightarrow> None
      | Some i \<Rightarrow> assert_then (pi_pid self \<noteq> 0 \<and> seg_components config) (Some (i, config \<lparr> seg_processes := (seg_processes config)[i := self] \<rparr>)))"

fun check_processes_correct :: "process_identifier list \<Rightarrow> process_identifier list \<Rightarrow> bool option" where
  "check_processes_correct alive [] = Some True"
| "check_processes_correct alive (p # ps) =
     (if pi_pid p = 0 then check_processes_correct alive ps
      else (let pi = running_process alive (pi_pid p)
            in if pi_pid pi < 0 then Some False
               else assert_then (pi_pid pi = pi_pid p) (if start_time pi \<noteq> start_time p then Some False else check_processes_correct alive ps)))"

text \<open>The body of the loop of \<open>segment_create\<close> with the lock held: the file was unlinked in the meantime, the segment is stale, or the process is registered in a slot.\<close>

datatype enter_result = Raced | Stale | Registered_In nat segment

definition segment_enter :: "nat \<Rightarrow> process_identifier list \<Rightarrow> process_identifier \<Rightarrow> segment \<Rightarrow> enter_result option" where
  "segment_enter shm_size alive self seg =
     (if \<not> seg_linked seg then Some Raced
      else if seg_size seg \<noteq> 0 then
        assert_then (seg_size seg = shm_size)
          (do { ok \<leftarrow> check_processes_correct alive (seg_processes seg);
                if \<not> ok then Some Stale else map_option (\<lambda>(i, s). Registered_In i s) (smem_initialize_rest self seg) })
      else map_option (\<lambda>(i, s). Registered_In i s) (smem_initialize_first self (seg \<lparr> seg_size := shm_size \<rparr>)))"

text \<open>\<open>segment_unregister\<close> in two parts: the count, which says whether the process is the last one, and the end.\<close>

definition segment_uncount :: "segment \<Rightarrow> int \<times> segment" where
  "segment_uncount seg =
     (let cnt = seg_count seg - 1 in (cnt, seg \<lparr> seg_count := cnt, seg_components := (cnt \<noteq> 0 \<and> seg_components seg) \<rparr>))"

definition segment_clear_slot :: "nat \<Rightarrow> segment \<Rightarrow> segment" where
  "segment_clear_slot n seg = seg \<lparr> seg_processes := (seg_processes seg)[n := (seg_processes seg ! n) \<lparr> pi_pid := 0 \<rparr>] \<rparr>"

subsection \<open>All processes\<close>

text \<open>Where a process is: outside (or about to try again), with the file open, with the lock, registered but not counted, attached, and leaving.\<close>

datatype smem_state = Out | Opened nat | Holding nat | Registered nat nat | Attached nat nat | Leaving nat nat int

record smem_world =
  segs :: "nat \<Rightarrow> segment"
  inodes :: nat
  shm_file :: "nat option"
  alive :: "process_identifier list"
  born :: "process_identifier set"
  st_of :: "process_identifier \<Rightarrow> smem_state"

definition set_seg :: "nat \<Rightarrow> segment \<Rightarrow> smem_world \<Rightarrow> smem_world" where
  "set_seg i seg w = w \<lparr> segs := (segs w)(i := seg) \<rparr>"

definition set_st :: "process_identifier \<Rightarrow> smem_state \<Rightarrow> smem_world \<Rightarrow> smem_world" where
  "set_st p s w = w \<lparr> st_of := (st_of w)(p := s) \<rparr>"

text \<open>\<open>shm_open\<close> with O_CREAT, and \<open>shm_unlink\<close>.\<close>

definition shm_open :: "smem_world \<Rightarrow> nat \<times> smem_world" where
  "shm_open w =
     (case shm_file w of
        Some i \<Rightarrow> (i, w)
      | None \<Rightarrow> (inodes w, w \<lparr> segs := (segs w)(inodes w := new_segment), inodes := inodes w + 1, shm_file := Some (inodes w) \<rparr>))"

definition shm_unlink :: "smem_world \<Rightarrow> smem_world" where
  "shm_unlink w = (case shm_file w of None \<Rightarrow> w | Some i \<Rightarrow> w \<lparr> segs := (segs w)(i := segs w i \<lparr> seg_linked := False \<rparr>), shm_file := None \<rparr>)"

text \<open>When a process crashes: never, outside of the sections under the lock, or anywhere.\<close>

datatype crashes = NoCrash | CrashOutside | CrashAnywhere

definition may_crash :: "crashes \<Rightarrow> smem_state \<Rightarrow> bool" where
  "may_crash k s =
     (case k of
        NoCrash \<Rightarrow> False
      | CrashOutside \<Rightarrow> (case s of Registered _ _ \<Rightarrow> False | Leaving _ _ _ \<Rightarrow> False | _ \<Rightarrow> True)
      | CrashAnywhere \<Rightarrow> True)"

definition release_locks :: "process_identifier \<Rightarrow> smem_world \<Rightarrow> smem_world" where
  "release_locks p w = w \<lparr> segs := (\<lambda>i. if seg_lock (segs w i) = Some p then segs w i \<lparr> seg_lock := None \<rparr> else segs w i) \<rparr>"

definition die :: "process_identifier \<Rightarrow> smem_world \<Rightarrow> smem_world" where
  "die p w = set_st p Out (release_locks p (w \<lparr> alive := removeAll p (alive w) \<rparr>))"

inductive smem_step :: "crashes \<Rightarrow> nat \<Rightarrow> smem_world \<Rightarrow> smem_world \<Rightarrow> bool" for k sz where
  spawn: "p \<notin> born w \<Longrightarrow> 0 < pi_pid p \<Longrightarrow> \<forall>q \<in> set (alive w). pi_pid q \<noteq> pi_pid p \<Longrightarrow>
    smem_step k sz w (set_st p Out (w \<lparr> alive := p # alive w, born := insert p (born w) \<rparr>))"
| open_file: "p \<in> set (alive w) \<Longrightarrow> st_of w p = Out \<Longrightarrow> shm_open w = (i, w') \<Longrightarrow> smem_step k sz w (set_st p (Opened i) w')"
| lock: "p \<in> set (alive w) \<Longrightarrow> st_of w p = Opened i \<Longrightarrow> seg_lock (segs w i) = None \<Longrightarrow>
    smem_step k sz w (set_st p (Holding i) (set_seg i (segs w i \<lparr> seg_lock := Some p \<rparr>) w))"
| raced: "p \<in> set (alive w) \<Longrightarrow> st_of w p = Holding i \<Longrightarrow> segment_enter sz (alive w) p (segs w i) = Some Raced \<Longrightarrow>
    smem_step k sz w (set_st p Out (set_seg i (segs w i \<lparr> seg_lock := None \<rparr>) w))"
| stale: "p \<in> set (alive w) \<Longrightarrow> st_of w p = Holding i \<Longrightarrow> segment_enter sz (alive w) p (segs w i) = Some Stale \<Longrightarrow> shm_unlink w = w' \<Longrightarrow>
    smem_step k sz w (set_st p Out (set_seg i (segs w' i \<lparr> seg_lock := None \<rparr>) w'))"
| registered: "p \<in> set (alive w) \<Longrightarrow> st_of w p = Holding i \<Longrightarrow> segment_enter sz (alive w) p (segs w i) = Some (Registered_In n seg) \<Longrightarrow>
    smem_step k sz w (set_st p (Registered i n) (set_seg i seg w))"
| aborted: "p \<in> set (alive w) \<Longrightarrow> st_of w p = Holding i \<Longrightarrow> segment_enter sz (alive w) p (segs w i) = None \<Longrightarrow> smem_step k sz w (die p w)"
| counted: "p \<in> set (alive w) \<Longrightarrow> st_of w p = Registered i n \<Longrightarrow>
    smem_step k sz w (set_st p (Attached i n) (set_seg i (segs w i \<lparr> seg_count := seg_count (segs w i) + 1, seg_lock := None \<rparr>) w))"
| leave: "p \<in> set (alive w) \<Longrightarrow> st_of w p = Attached i n \<Longrightarrow> seg_lock (segs w i) = None \<Longrightarrow> segment_uncount (segs w i) = (cnt, seg) \<Longrightarrow>
    smem_step k sz w (set_st p (Leaving i n cnt) (set_seg i (seg \<lparr> seg_lock := Some p \<rparr>) w))"
| left_segment: "p \<in> set (alive w) \<Longrightarrow> st_of w p = Leaving i n cnt \<Longrightarrow> w1 = set_seg i (segment_clear_slot n (segs w i)) w \<Longrightarrow>
    w2 = (if cnt = 0 then shm_unlink w1 else w1) \<Longrightarrow>
    smem_step k sz w (set_st p Out (set_seg i (segs w2 i \<lparr> seg_lock := None \<rparr>) w2))"
| crash: "p \<in> set (alive w) \<Longrightarrow> may_crash k (st_of w p) \<Longrightarrow> smem_step k sz w (die p w)"

definition smem_start :: smem_world where
  "smem_start = \<lparr> segs = (\<lambda>_. new_segment \<lparr> seg_linked := False \<rparr>), inodes = 0, shm_file = None, alive = [], born = {}, st_of = (\<lambda>_. Out) \<rparr>"

definition smem_reachable :: "crashes \<Rightarrow> nat \<Rightarrow> smem_world \<Rightarrow> bool" where
  "smem_reachable k sz w = (smem_step k sz)\<^sup>*\<^sup>* smem_start w"

subsection \<open>The invariant\<close>

text \<open>The slot a process has, the lock it holds and the file it has open.\<close>

fun slot_of :: "smem_state \<Rightarrow> (nat \<times> nat) option" where
  "slot_of (Registered i n) = Some (i, n)"
| "slot_of (Attached i n) = Some (i, n)"
| "slot_of (Leaving i n c) = Some (i, n)"
| "slot_of _ = None"

fun lock_of :: "smem_state \<Rightarrow> nat option" where
  "lock_of (Holding i) = Some i"
| "lock_of (Registered i n) = Some i"
| "lock_of (Leaving i n c) = Some i"
| "lock_of _ = None"

fun file_of :: "smem_state \<Rightarrow> nat option" where
  "file_of Out = None"
| "file_of (Opened i) = Some i"
| "file_of (Holding i) = Some i"
| "file_of (Registered i n) = Some i"
| "file_of (Attached i n) = Some i"
| "file_of (Leaving i n c) = Some i"

fun uncounted :: "smem_state \<Rightarrow> bool" where
  "uncounted (Registered i n) = True"
| "uncounted (Leaving i n c) = True"
| "uncounted _ = False"

definition occupied :: "segment \<Rightarrow> nat \<Rightarrow> bool" where
  "occupied s n = (n < MAX_PIDS \<and> pi_pid (seg_processes s ! n) \<noteq> 0)"

definition counted_slots :: "smem_world \<Rightarrow> nat \<Rightarrow> nat set" where
  "counted_slots w i = {n. occupied (segs w i) n \<and> \<not> uncounted (st_of w (seg_processes (segs w i) ! n))}"

text \<open>The list of processes and the states of the processes agree, the lock has one holder, the count is the number of registered processes that are not just entering or leaving, and a segment
  without a name is empty or has a dead process in it.\<close>

definition seg_ok :: "nat \<Rightarrow> smem_world \<Rightarrow> nat \<Rightarrow> bool" where
  "seg_ok sz w i \<longleftrightarrow>
     (seg_linked (segs w i) \<longleftrightarrow> shm_file w = Some i) \<and>
     (\<forall>p. seg_lock (segs w i) = Some p \<longleftrightarrow> lock_of (st_of w p) = Some i) \<and>
     length (seg_processes (segs w i)) = MAX_PIDS \<and>
     (\<forall>n. occupied (segs w i) n \<longrightarrow> seg_processes (segs w i) ! n \<in> born w \<and>
        (seg_processes (segs w i) ! n \<in> set (alive w) \<longrightarrow> slot_of (st_of w (seg_processes (segs w i) ! n)) = Some (i, n))) \<and>
     (\<forall>p n. slot_of (st_of w p) = Some (i, n) \<longrightarrow> n < MAX_PIDS \<and> seg_processes (segs w i) ! n = p) \<and>
     (seg_size (segs w i) = 0 \<longrightarrow> (\<forall>n. \<not> occupied (segs w i) n)) \<and> seg_size (segs w i) \<in> {0, sz} \<and>
     seg_count (segs w i) = int (card (counted_slots w i)) \<and>
     (\<not> seg_linked (segs w i) \<longrightarrow> (\<exists>n. occupied (segs w i) n \<and> seg_processes (segs w i) ! n \<notin> set (alive w)) \<or> (\<forall>n. \<not> occupied (segs w i) n)) \<and>
     (seg_linked (segs w i) \<longrightarrow> seg_size (segs w i) \<noteq> 0 \<longrightarrow> (\<exists>n. occupied (segs w i) n)) \<and>
     (\<forall>p n. st_of w p = Registered i n \<or> st_of w p = Attached i n \<longrightarrow> seg_components (segs w i)) \<and>
     (\<forall>p n c. st_of w p = Leaving i n c \<longrightarrow> c = seg_count (segs w i))"

definition processes_ok :: "smem_world \<Rightarrow> bool" where
  "processes_ok w \<longleftrightarrow>
     inj_on pi_pid (set (alive w)) \<and> (\<forall>p \<in> set (alive w). 0 < pi_pid p) \<and> set (alive w) \<subseteq> born w \<and>
     (\<forall>p. p \<notin> set (alive w) \<longrightarrow> st_of w p = Out) \<and> (\<forall>p i. file_of (st_of w p) = Some i \<longrightarrow> i < inodes w) \<and> (\<forall>i. shm_file w = Some i \<longrightarrow> i < inodes w) \<and>
     (\<forall>p \<in> born w. 0 < pi_pid p)"

definition smem_inv :: "nat \<Rightarrow> smem_world \<Rightarrow> bool" where
  "smem_inv sz w \<longleftrightarrow> processes_ok w \<and> (\<forall>i. seg_ok sz w i)"

definition touches :: "smem_state \<Rightarrow> nat \<Rightarrow> bool" where
  "touches s i = (lock_of s = Some i \<or> (\<exists>n. slot_of s = Some (i, n)))"

text \<open>A step does not concern the segments that the process has no slot in and whose lock it does not hold.\<close>

lemma occupied_slot_taken:
  assumes "seg_ok sz w i" "occupied (segs w i) n" "seg_processes (segs w i) ! n = p" "\<not> touches (st_of w p) i"
  shows "p \<notin> set (alive w)"
  using assms by (auto simp: seg_ok_def touches_def)

lemma uncounted_dead: "processes_ok w \<Longrightarrow> p \<notin> set (alive w) \<Longrightarrow> st_of w p = Out"
  by (simp add: processes_ok_def)

lemma counted_slots_frame:
  assumes "seg_processes (segs w' i) = seg_processes (segs w i)"
    and "\<forall>n. occupied (segs w i) n \<longrightarrow> uncounted (st_of w' (seg_processes (segs w i) ! n)) = uncounted (st_of w (seg_processes (segs w i) ! n))"
  shows "counted_slots w' i = counted_slots w i"
  using assms by (auto simp: counted_slots_def occupied_def)

lemma seg_ok_frame:
  assumes ok: "seg_ok sz w i" and live: "\<forall>q. q \<notin> set (alive w) \<longrightarrow> st_of w' q = st_of w q"
    and same: "segs w' i = segs w i" "(shm_file w' = Some i) = (shm_file w = Some i)" "alive w' = alive w" "born w' = born w"
    and st: "\<forall>q. st_of w' q = st_of w q \<or> \<not> touches (st_of w q) i \<and> \<not> touches (st_of w' q) i"
  shows "seg_ok sz w' i"
proof -
  have o: "st_of w' (seg_processes (segs w i) ! n) = st_of w (seg_processes (segs w i) ! n)" if "occupied (segs w i) n" for n
    using occupied_slot_taken [OF ok that refl] live st by blast
  then have c: "counted_slots w' i = counted_slots w i" using same(1) by (intro counted_slots_frame) simp_all
  have lock: "(lock_of (st_of w' p) = Some i) = (lock_of (st_of w p) = Some i)" and slot: "(slot_of (st_of w' p) = Some (i, n)) = (slot_of (st_of w p) = Some (i, n))" for p n
    using spec [OF st, of p] by (auto simp: touches_def)
  have at: "(st_of w' p = Registered i n) = (st_of w p = Registered i n)" "(st_of w' p = Attached i n) = (st_of w p = Attached i n)"
    "(st_of w' p = Leaving i n c) = (st_of w p = Leaving i n c)" for p n c
    using spec [OF st, of p] by (auto simp: touches_def)
  show ?thesis using ok unfolding seg_ok_def same c lock slot at .
qed

lemma seg_okD:
  assumes "seg_ok sz w i"
  shows "seg_linked (segs w i) = (shm_file w = Some i)" "(seg_lock (segs w i) = Some p) = (lock_of (st_of w p) = Some i)" "length (seg_processes (segs w i)) = MAX_PIDS"
    "occupied (segs w i) n \<Longrightarrow> seg_processes (segs w i) ! n \<in> born w"
    "occupied (segs w i) n \<Longrightarrow> seg_processes (segs w i) ! n \<in> set (alive w) \<Longrightarrow> slot_of (st_of w (seg_processes (segs w i) ! n)) = Some (i, n)"
    "slot_of (st_of w p) = Some (i, n) \<Longrightarrow> n < MAX_PIDS" "slot_of (st_of w p) = Some (i, n) \<Longrightarrow> seg_processes (segs w i) ! n = p"
    "seg_size (segs w i) = 0 \<Longrightarrow> \<not> occupied (segs w i) n" "seg_size (segs w i) \<in> {0, sz}"
    "seg_count (segs w i) = int (card (counted_slots w i))"
    "\<not> seg_linked (segs w i) \<Longrightarrow> (\<exists>n. occupied (segs w i) n \<and> seg_processes (segs w i) ! n \<notin> set (alive w)) \<or> (\<forall>n. \<not> occupied (segs w i) n)"
    "seg_linked (segs w i) \<Longrightarrow> seg_size (segs w i) \<noteq> 0 \<Longrightarrow> \<exists>n. occupied (segs w i) n"
    "st_of w p = Registered i n \<or> st_of w p = Attached i n \<Longrightarrow> seg_components (segs w i)"
    "st_of w p = Leaving i n c \<Longrightarrow> c = seg_count (segs w i)"
proof -
  note ok = assms [unfolded seg_ok_def]
  show "st_of w p = Registered i n \<or> st_of w p = Attached i n \<Longrightarrow> seg_components (segs w i)" using ok by (elim conjE) meson
  show "st_of w p = Leaving i n c \<Longrightarrow> c = seg_count (segs w i)" using ok by (elim conjE) meson
qed (use assms [unfolded seg_ok_def] in simp_all)

lemma seg_okI:
  assumes "seg_linked (segs w i) = (shm_file w = Some i)" "\<And>p. (seg_lock (segs w i) = Some p) = (lock_of (st_of w p) = Some i)" "length (seg_processes (segs w i)) = MAX_PIDS"
    "\<And>n. occupied (segs w i) n \<Longrightarrow> seg_processes (segs w i) ! n \<in> born w"
    "\<And>n. occupied (segs w i) n \<Longrightarrow> seg_processes (segs w i) ! n \<in> set (alive w) \<Longrightarrow> slot_of (st_of w (seg_processes (segs w i) ! n)) = Some (i, n)"
    "\<And>p n. slot_of (st_of w p) = Some (i, n) \<Longrightarrow> n < MAX_PIDS \<and> seg_processes (segs w i) ! n = p"
    "\<And>n. seg_size (segs w i) = 0 \<Longrightarrow> \<not> occupied (segs w i) n" "seg_size (segs w i) = 0 \<or> seg_size (segs w i) = sz"
    "seg_count (segs w i) = int (card (counted_slots w i))"
    "\<not> seg_linked (segs w i) \<Longrightarrow> (\<exists>n. occupied (segs w i) n \<and> seg_processes (segs w i) ! n \<notin> set (alive w)) \<or> (\<forall>n. \<not> occupied (segs w i) n)"
    "seg_linked (segs w i) \<Longrightarrow> seg_size (segs w i) \<noteq> 0 \<Longrightarrow> \<exists>n. occupied (segs w i) n"
    "\<And>p n. st_of w p = Registered i n \<or> st_of w p = Attached i n \<Longrightarrow> seg_components (segs w i)"
    "\<And>p n c. st_of w p = Leaving i n c \<Longrightarrow> c = seg_count (segs w i)"
  shows "seg_ok sz w i"
  unfolding seg_ok_def using assms by (intro conjI allI impI) simp_all

lemmas world_simps = set_st_def set_seg_def shm_open_def shm_unlink_def die_def release_locks_def

lemma processes_move:
  assumes "processes_ok w" "p \<in> set (alive w)" "\<And>i. file_of t = Some i \<Longrightarrow> i < inodes w'" "alive w' = alive w" "born w' = born w" "st_of w' = st_of w" "inodes w \<le> inodes w'"
    "\<And>i. shm_file w' = Some i \<Longrightarrow> i < inodes w'"
  shows "processes_ok (set_st p t w')"
proof -
  have "i < inodes w'" if "file_of (((st_of w)(p := t)) q) = Some i" for q i
  proof (cases "q = p")
    case False
    then have "i < inodes w" using assms(1) that by (auto simp: processes_ok_def)
    then show ?thesis using assms(7) by linarith
  qed (use assms(3) that in simp)
  then show ?thesis using assms by (auto simp: processes_ok_def set_st_def)
qed

lemma processes_die: "processes_ok w \<Longrightarrow> processes_ok (die p w)"
  by (auto simp: processes_ok_def die_def set_st_def release_locks_def inj_on_def)

lemma step_processes_ok:
  assumes step: "smem_step k sz w w'" and ok: "processes_ok w"
  shows "processes_ok w'"
proof -
  have f: "i < inodes w" if "file_of (st_of w p) = Some i" for p i using ok that by (auto simp: processes_ok_def)
  have n: "i < inodes w" if "shm_file w = Some i" for i using ok that by (auto simp: processes_ok_def)
  show ?thesis
    using step
  proof cases
    case (spawn p)
    then show ?thesis using ok by (auto simp: processes_ok_def set_st_def inj_on_def)
  next
    case (open_file p i w1)
    then show ?thesis unfolding open_file(1) using n by (intro processes_move [OF ok open_file(2)]) (auto simp: shm_open_def less_SucI split: option.splits)
  next
    case (left_segment p i n cnt w1 w2)
    then show ?thesis unfolding left_segment(1) using n by (intro processes_move [OF ok left_segment(2)]) (auto simp: set_seg_def shm_unlink_def split: option.splits if_splits)
  next
    case (aborted p i)
    then show ?thesis using processes_die [OF ok] by simp
  next
    case (crash p)
    then show ?thesis using processes_die [OF ok] by simp
  next
    case (stale p i w1)
    then show ?thesis unfolding stale(1) using n by (intro processes_move [OF ok stale(2)]) (auto simp: set_seg_def shm_unlink_def split: option.splits)
  next
    case (lock p i)
    then show ?thesis unfolding lock(1) using n f [of p i] by (intro processes_move [OF ok lock(2)]) (auto simp: set_seg_def)
  next
    case (raced p i)
    then show ?thesis unfolding raced(1) using n by (intro processes_move [OF ok raced(2)]) (auto simp: set_seg_def)
  next
    case (registered p i m s)
    then show ?thesis unfolding registered(1) using n f [of p i] by (intro processes_move [OF ok registered(2)]) (auto simp: set_seg_def)
  next
    case (counted p i m)
    then show ?thesis unfolding counted(1) using n f [of p i] by (intro processes_move [OF ok counted(2)]) (auto simp: set_seg_def)
  next
    case (leave p i m cnt s)
    then show ?thesis unfolding leave(1) using n f [of p i] by (intro processes_move [OF ok leave(2)]) (auto simp: set_seg_def)
  qed
qed

lemma check_processes_spec:
  assumes "inj_on pi_pid (set al)" "\<forall>p \<in> set al. 0 < pi_pid p" "\<forall>p \<in> set ps. 0 \<le> pi_pid p"
  shows "check_processes_correct al ps = Some (\<forall>p \<in> set ps. pi_pid p \<noteq> 0 \<longrightarrow> p \<in> set al)"
  using assms(3)
proof (induction ps)
  case (Cons p ps)
  show ?case
  proof (cases "pi_pid p = 0")
    case True
    then show ?thesis using Cons by auto
  next
    case pid: False
    show ?thesis
    proof (cases "find (\<lambda>q. pi_pid q = pi_pid p) al")
      case None
      then have "p \<notin> set al" by (auto simp: find_None_iff)
      then show ?thesis using pid None by (auto simp: running_process_def Let_def)
    next
      case q: (Some q)
      then have qa: "q \<in> set al" "pi_pid q = pi_pid p" by (auto simp: find_Some_iff)
      then have "p \<in> set al \<Longrightarrow> q = p" using assms(1) by (meson inj_onD)
      moreover have "start_time q = start_time p \<Longrightarrow> q = p" using qa(2) by (cases p, cases q) simp
      ultimately have "p \<in> set al \<longleftrightarrow> start_time q = start_time p" using qa(1) by auto
      then show ?thesis using Cons q qa pid assms(2) by (auto simp: running_process_def Let_def)
    qed
  qed
qed simp

lemma lock_file: "lock_of s = Some i \<Longrightarrow> file_of s = Some i"
  by (cases s) auto

lemma slot_file: "slot_of s = Some (i, n) \<Longrightarrow> file_of s = Some i"
  by (cases s) auto

text \<open>A step of one process that changes one segment keeps all others.\<close>

lemma step_other:
  assumes inv: "smem_inv sz w" and p: "p \<in> set (alive w)" and "j \<noteq> i" "segs w' = (segs w)(i := s)" "st_of w' = (st_of w)(p := t)" "alive w' = alive w" "born w' = born w"
    and f: "shm_file w' = shm_file w \<or> shm_file w = Some i \<and> shm_file w' = None \<or> shm_file w = None \<and> shm_file w' = Some i"
    and "\<not> touches (st_of w p) j" "\<not> touches t j"
  shows "seg_ok sz w' j"
proof (rule seg_ok_frame)
  show "seg_ok sz w j" using inv by (simp add: smem_inv_def)
  show "(shm_file w' = Some j) = (shm_file w = Some j)" using f assms(3) by auto
qed (use assms in auto)

lemma occupied_other:
  assumes "seg_ok sz w i" "p \<in> set (alive w)" "slot_of (st_of w p) = None" "occupied (segs w i) n"
  shows "seg_processes (segs w i) ! n \<noteq> p"
  using seg_okD(5) [OF assms(1,4)] assms(2,3) by auto

lemma inv_open:
  assumes "smem_inv sz w" "p \<in> set (alive w)" "st_of w p = Out" "shm_open w = (i, w')"
  shows "seg_ok sz (set_st p (Opened i) w') j"
proof (cases "shm_file w")
  case (Some i')
  then have w': "w' = w" using assms(4) by (simp add: shm_open_def)
  have "seg_ok sz w j" using assms(1) by (simp add: smem_inv_def)
  then show ?thesis using assms(2,3) w' by (rule_tac w = w in seg_ok_frame) (auto simp: set_st_def touches_def)
next
  case None
  then have w': "i = inodes w" "w' = w \<lparr> segs := (segs w)(inodes w := new_segment), inodes := inodes w + 1, shm_file := Some (inodes w) \<rparr>"
    using assms(4) by (auto simp: shm_open_def)
  show ?thesis
  proof (cases "j = i")
    case False
    then show ?thesis using assms(1-3) None w' by (intro step_other [of sz w p j i _ new_segment]) (auto simp: set_st_def touches_def)
  next
    case True
    have "file_of (st_of w q) \<noteq> Some i" for q using assms(1) w'(1) by (auto simp: smem_inv_def processes_ok_def)
    then have "lock_of (st_of w q) \<noteq> Some i" "slot_of (st_of w q) \<noteq> Some (i, n)" for q n
      using lock_file [of "st_of w q" i] slot_file [of "st_of w q" i n] by auto
    moreover from this(2) have "st_of w q \<noteq> Registered i n" "st_of w q \<noteq> Attached i n" "st_of w q \<noteq> Leaving i n c" for q n c by (metis slot_of.simps)+
    ultimately show ?thesis unfolding True w'
      by (intro seg_okI) (auto simp: set_st_def new_segment_def occupied_def no_process_def counted_slots_def w'(1) split: if_splits)
  qed
qed

text \<open>A step of the only process that may hold the lock of a segment, when the list of processes stays as it is.\<close>

lemma seg_ok_self:
  assumes ok: "seg_ok sz w i" and w': "st_of w' = (st_of w)(p := t)" "alive w' = alive w" "born w' = born w"
    and s: "seg_processes (segs w' i) = seg_processes (segs w i)" "seg_size (segs w' i) = seg_size (segs w i)"
    and slot: "\<And>n. (slot_of t = Some (i, n)) = (slot_of (st_of w p) = Some (i, n))"
    and lock: "seg_lock (segs w i) = None \<or> seg_lock (segs w i) = Some p" "seg_lock (segs w' i) = (if lock_of t = Some i then Some p else None)"
    and linked: "seg_linked (segs w' i) = (shm_file w' = Some i)"
      "seg_linked (segs w' i) = seg_linked (segs w i) \<or> \<not> seg_linked (segs w' i) \<and> (\<exists>n. occupied (segs w i) n \<and> seg_processes (segs w i) ! n \<notin> set (alive w))"
    and cnt: "seg_count (segs w' i) = int (card (counted_slots w' i))"
    and comp: "\<And>q n. st_of w' q = Registered i n \<or> st_of w' q = Attached i n \<Longrightarrow> seg_components (segs w' i)"
    and leaving: "\<And>q n c. st_of w' q = Leaving i n c \<Longrightarrow> c = seg_count (segs w' i)"
  shows "seg_ok sz w' i"
proof -
  have o: "occupied (segs w' i) n = occupied (segs w i) n" for n using s(1) by (simp add: occupied_def)
  have sl: "(slot_of (st_of w' q) = Some (i, n)) = (slot_of (st_of w q) = Some (i, n))" for q n using slot w'(1) by simp
  have lk: "(seg_lock (segs w' i) = Some q) = (lock_of (st_of w' q) = Some i)" for q
    using lock seg_okD(2) [OF ok, of q] w'(1) by (cases "q = p") auto
  show ?thesis
  proof (rule seg_okI)
    fix n assume n: "occupied (segs w' i) n"
    show "seg_processes (segs w' i) ! n \<in> born w'" using seg_okD(4) [OF ok] n o s(1) w'(3) by simp
    assume "seg_processes (segs w' i) ! n \<in> set (alive w')"
    then show "slot_of (st_of w' (seg_processes (segs w' i) ! n)) = Some (i, n)" using seg_okD(5) [OF ok] n o s(1) w'(2) sl by simp
  next
    fix q n assume "slot_of (st_of w' q) = Some (i, n)"
    then show "n < MAX_PIDS \<and> seg_processes (segs w' i) ! n = q" using seg_okD(6,7) [OF ok] sl s(1) by auto
  next
    assume "\<not> seg_linked (segs w' i)"
    then show "(\<exists>n. occupied (segs w' i) n \<and> seg_processes (segs w' i) ! n \<notin> set (alive w')) \<or> (\<forall>n. \<not> occupied (segs w' i) n)"
      using linked(2) seg_okD(11) [OF ok] o s(1) w'(2) by auto
  next
    assume "seg_linked (segs w' i)" "seg_size (segs w' i) \<noteq> 0"
    then show "\<exists>n. occupied (segs w' i) n" using linked(2) seg_okD(12) [OF ok] o s(2) by auto
  qed (use linked(1) lk cnt comp leaving seg_okD(3,8,9) [OF ok] s o in auto)
qed

lemma inv_lock:
  assumes "seg_ok sz w i" "p \<in> set (alive w)" "st_of w p = Opened i" "seg_lock (segs w i) = None"
  shows "seg_ok sz (set_st p (Holding i) (set_seg i (segs w i \<lparr> seg_lock := Some p \<rparr>) w)) i"
proof -
  let ?w = "set_st p (Holding i) (set_seg i (segs w i \<lparr> seg_lock := Some p \<rparr>) w)"
  have "counted_slots ?w i = counted_slots w i" using assms(3) by (intro counted_slots_frame) (auto simp: set_st_def set_seg_def)
  then show ?thesis using assms seg_okD(1,10) [OF assms(1)] seg_okD(13,14) [OF assms(1)]
    by (intro seg_ok_self [OF assms(1), where p = p and t = "Holding i"]) (auto simp: set_st_def set_seg_def split: if_splits)
qed

lemma inv_release:
  assumes "seg_ok sz w i" "p \<in> set (alive w)" "st_of w p = Holding i"
    and w': "w' = set_st p Out (set_seg i (segs w i \<lparr> seg_linked := l, seg_lock := None \<rparr>) (w \<lparr> shm_file := f \<rparr>))"
    and "l = (f = Some i)" "l = seg_linked (segs w i) \<or> \<not> l \<and> (\<exists>n. occupied (segs w i) n \<and> seg_processes (segs w i) ! n \<notin> set (alive w))"
  shows "seg_ok sz w' i"
proof -
  have "counted_slots w' i = counted_slots w i" unfolding w' using assms(3) by (intro counted_slots_frame) (auto simp: set_st_def set_seg_def)
  moreover have "seg_lock (segs w i) = Some p" using seg_okD(2) [OF assms(1), of p] assms(3) by simp
  ultimately show ?thesis using assms seg_okD(10) [OF assms(1)] seg_okD(13,14) [OF assms(1)]
    by (intro seg_ok_self [OF assms(1), where p = p and t = Out]) (auto simp: set_st_def set_seg_def split: if_splits)
qed

lemma counted_slots_finite: "finite (counted_slots w i)"
  by (rule finite_subset [of _ "{..<MAX_PIDS}"]) (auto simp: counted_slots_def occupied_def)

lemma max_pids_pos: "0 < MAX_PIDS"
  by (simp add: MAX_PIDS_def)

text \<open>What a process that enters a segment finds after it is registered.\<close>

lemma enter_registered:
  assumes ok: "seg_ok sz w i" and p: "0 < pi_pid p" "0 < sz" and e: "segment_enter sz al p (segs w i) = Some (Registered_In n s)"
  shows "n < MAX_PIDS" "\<not> occupied (segs w i) n" "seg_linked (segs w i)" "seg_linked s" "seg_lock s = seg_lock (segs w i)" "seg_size s = sz" "seg_count s = seg_count (segs w i)"
    "seg_components s" "length (seg_processes s) = MAX_PIDS" "seg_processes s ! n = p"
    "m \<noteq> n \<Longrightarrow> occupied s m = occupied (segs w i) m" "m \<noteq> n \<Longrightarrow> occupied s m \<Longrightarrow> seg_processes s ! m = seg_processes (segs w i) ! m"
proof -
  have "n < MAX_PIDS \<and> \<not> occupied (segs w i) n \<and> seg_linked (segs w i) \<and> seg_linked s \<and> seg_lock s = seg_lock (segs w i) \<and> seg_size s = sz \<and> seg_count s = seg_count (segs w i) \<and>
    seg_components s \<and> length (seg_processes s) = MAX_PIDS \<and> seg_processes s ! n = p \<and>
    (\<forall>m. m \<noteq> n \<longrightarrow> occupied s m = occupied (segs w i) m \<and> (occupied s m \<longrightarrow> seg_processes s ! m = seg_processes (segs w i) ! m))"
  proof (cases "seg_size (segs w i) = 0")
    case True
    then have s: "n = 0" "s = segs w i \<lparr> seg_size := sz, seg_processes := p # replicate (MAX_PIDS - 1) no_process, seg_count := 0, seg_components := True \<rparr>" "seg_linked (segs w i)"
      using e by (auto simp: segment_enter_def smem_initialize_first_def smem_config_initialize_def assert_then_def split: if_splits bind_splits)
    have "counted_slots w i = {}" using seg_okD(8) [OF ok True] by (auto simp: counted_slots_def)
    then have "seg_count (segs w i) = 0" using seg_okD(10) [OF ok] by simp
    moreover have "\<not> occupied s m" if "m \<noteq> 0" for m using s that by (auto simp: occupied_def nth_Cons no_process_def split: nat.splits)
    ultimately show ?thesis using s seg_okD(8) [OF ok True] max_pids_pos by auto
  next
    case False
    then obtain f where f: "find (\<lambda>i'. pi_pid (seg_processes (segs w i) ! i') = 0) [0..<MAX_PIDS] = Some n" "f = seg_processes (segs w i)"
      and s: "s = segs w i \<lparr> seg_processes := f[n := p] \<rparr>" "seg_linked (segs w i)" "seg_size (segs w i) = sz" "seg_components (segs w i)"
      using e by (auto simp: segment_enter_def smem_initialize_rest_def assert_then_def split: if_splits bind_splits option.splits)
    then have n: "n < MAX_PIDS" "pi_pid (seg_processes (segs w i) ! n) = 0" by (auto simp: find_Some_iff)
    then show ?thesis using s f(2) seg_okD(3) [OF ok] by (auto simp: occupied_def)
  qed
  then show "n < MAX_PIDS" "\<not> occupied (segs w i) n" "seg_linked (segs w i)" "seg_linked s" "seg_lock s = seg_lock (segs w i)" "seg_size s = sz" "seg_count s = seg_count (segs w i)"
    "seg_components s" "length (seg_processes s) = MAX_PIDS" "seg_processes s ! n = p"
    "m \<noteq> n \<Longrightarrow> occupied s m = occupied (segs w i) m" "m \<noteq> n \<Longrightarrow> occupied s m \<Longrightarrow> seg_processes s ! m = seg_processes (segs w i) ! m" by simp_all
qed

lemma member_alive:
  assumes "processes_ok w" "slot_of (st_of w q) = Some (i, m)"
  shows "q \<in> set (alive w)" "0 < pi_pid q"
proof -
  have "st_of w q \<noteq> Out" using assms(2) by auto
  then show "q \<in> set (alive w)" "0 < pi_pid q" using assms(1) by (auto simp: processes_ok_def)
qed

lemma member_occupies:
  assumes "processes_ok w" "seg_ok sz w i" "slot_of (st_of w q) = Some (i, m)"
  shows "occupied (segs w i) m"
  using seg_okD(6,7) [OF assms(2,3)] member_alive [OF assms(1,3)] by (simp add: occupied_def)

lemma inv_registered:
  assumes pok: "processes_ok w" and ok: "seg_ok sz w i" and p: "p \<in> set (alive w)" "st_of w p = Holding i" "0 < sz"
    and e: "segment_enter sz (alive w) p (segs w i) = Some (Registered_In n s)"
  shows "seg_ok sz (set_st p (Registered i n) (set_seg i s w)) i"
proof -
  let ?w = "set_st p (Registered i n) (set_seg i s w)"
  have pid: "0 < pi_pid p" "p \<in> born w" using pok p(1) by (auto simp: processes_ok_def)
  note en = enter_registered [OF ok pid(1) p(3) e]
  have seg: "segs ?w i = s" "alive ?w = alive w" "born ?w = born w" "st_of ?w = (st_of w)(p := Registered i n)" "shm_file ?w = shm_file w" by (simp_all add: set_st_def set_seg_def)
  have lk: "seg_lock (segs w i) = Some p" using seg_okD(2) [OF ok, of p] p(2) by simp
  have occ: "occupied s m = (m = n \<or> occupied (segs w i) m)" for m using en(1,9,10) pid(1) en(11) [of m] by (cases "m = n") (auto simp: occupied_def)
  have ent: "seg_processes s ! m = (if m = n then p else seg_processes (segs w i) ! m)" if "occupied s m" for m using en(10) en(12) [of m] that by simp
  have other: "seg_processes (segs w i) ! m \<noteq> p" if "occupied (segs w i) m" for m using occupied_other [OF ok p(1) _ that] p(2) by simp
  have cs: "counted_slots ?w i = counted_slots w i"
    unfolding counted_slots_def seg
  proof (rule Collect_cong)
    fix m
    show "(occupied s m \<and> \<not> uncounted (((st_of w)(p := Registered i n)) (seg_processes s ! m))) = (occupied (segs w i) m \<and> \<not> uncounted (st_of w (seg_processes (segs w i) ! m)))"
    proof (cases "m = n")
      case True
      then show ?thesis using en(2) en(10) by simp
    next
      case False
      then show ?thesis using occ [of m] ent [of m] other [of m] by auto
    qed
  qed
  have holder: "q = p" if "lock_of (st_of w q) = Some i" for q using seg_okD(2) [OF ok, of q] lk that by simp
  have member: "occupied s m \<and> m < MAX_PIDS \<and> seg_processes s ! m = q" if "slot_of (st_of w q) = Some (i, m)" for q m
  proof -
    have "occupied (segs w i) m" by (rule member_occupies [OF pok ok that])
    then have "occupied s m" "m \<noteq> n" using occ en(2) by auto
    then show ?thesis using ent seg_okD(6,7) [OF ok that] by simp
  qed
  show ?thesis
  proof (rule seg_okI, unfold seg cs)
    show "seg_linked s = (shm_file w = Some i)" using en(3,4) seg_okD(1) [OF ok] by simp
    show "(seg_lock s = Some q) = (lock_of (((st_of w)(p := Registered i n)) q) = Some i)" for q using en(5) lk holder by auto
    show "seg_processes s ! m \<in> born w" if "occupied s m" for m using that occ ent pid(2) seg_okD(4) [OF ok] by (auto split: if_splits)
    show "slot_of (((st_of w)(p := Registered i n)) (seg_processes s ! m)) = Some (i, m)" if "occupied s m" "seg_processes s ! m \<in> set (alive w)" for m
      using that occ ent other seg_okD(5) [OF ok, of m] by (auto split: if_splits)
    show "m < MAX_PIDS \<and> seg_processes s ! m = q" if "slot_of (((st_of w)(p := Registered i n)) q) = Some (i, m)" for q m
      using that member en(1,10) by (auto split: if_splits)
    show "seg_components s" by (rule en(8))
    show "c = seg_count s" if "((st_of w)(p := Registered i n)) q = Leaving i m c" for q m c using that holder [of q] by (auto split: if_splits)
  qed (use en seg_okD(10) [OF ok] occ p(3) in auto)
qed

lemma holder_unique:
  assumes "seg_ok sz w i" "lock_of (st_of w p) = Some i" "lock_of (st_of w q) = Some i"
  shows "q = p"
  using seg_okD(2) [OF assms(1), of p] seg_okD(2) [OF assms(1), of q] assms(2,3) by simp

lemma inv_counted:
  assumes pok: "processes_ok w" and ok: "seg_ok sz w i" and p: "st_of w p = Registered i n"
    and w': "w' = set_st p (Attached i n) (set_seg i (segs w i \<lparr> seg_count := seg_count (segs w i) + 1, seg_lock := None \<rparr>) w)"
  shows "seg_ok sz w' i"
proof -
  have slot: "slot_of (st_of w p) = Some (i, n)" using p by simp
  have n: "occupied (segs w i) n" "seg_processes (segs w i) ! n = p" using member_occupies [OF pok ok slot] seg_okD(7) [OF ok slot] by auto
  have holder: "q = p" if "lock_of (st_of w q) = Some i" for q using holder_unique [OF ok _ that, of p] p by simp
  have same: "m = n" if "occupied (segs w i) m" "seg_processes (segs w i) ! m = p" for m
    using seg_okD(5) [OF ok that(1)] that(2) member_alive(1) [OF pok slot] slot by simp
  have seg: "segs w' i = segs w i \<lparr> seg_count := seg_count (segs w i) + 1, seg_lock := None \<rparr>" "alive w' = alive w" "born w' = born w"
    "st_of w' = (st_of w)(p := Attached i n)" "shm_file w' = shm_file w" unfolding w' by (simp_all add: set_st_def set_seg_def)
  have "counted_slots w' i = insert n (counted_slots w i)" "n \<notin> counted_slots w i"
    using n same p by (auto simp: counted_slots_def seg occupied_def)
  then have "int (card (counted_slots w' i)) = seg_count (segs w i) + 1" using seg_okD(10) [OF ok] counted_slots_finite by simp
  moreover have "st_of w q \<noteq> Leaving i m c" for q m c using holder [of q] p by auto
  moreover have "seg_lock (segs w i) = Some p" using seg_okD(2) [OF ok, of p] p by simp
  moreover have "seg_components (segs w i)" using seg_okD(13) [OF ok] p by blast
  ultimately show ?thesis using seg slot seg_okD(1) [OF ok]
    by (intro seg_ok_self [OF ok, where p = p and t = "Attached i n"]) (auto split: if_splits)
qed

lemma inv_leave:
  assumes pok: "processes_ok w" and ok: "seg_ok sz w i" and p: "st_of w p = Attached i n" and lk: "seg_lock (segs w i) = None"
    and u: "segment_uncount (segs w i) = (cnt, s)" and w': "w' = set_st p (Leaving i n cnt) (set_seg i (s \<lparr> seg_lock := Some p \<rparr>) w)"
  shows "seg_ok sz w' i"
proof -
  have slot: "slot_of (st_of w p) = Some (i, n)" using p by simp
  have n: "occupied (segs w i) n" "seg_processes (segs w i) ! n = p" using member_occupies [OF pok ok slot] seg_okD(7) [OF ok slot] by auto
  have none: "lock_of (st_of w q) \<noteq> Some i" for q using seg_okD(2) [OF ok, of q] lk by simp
  have same: "m = n" if "occupied (segs w i) m" "seg_processes (segs w i) ! m = p" for m
    using seg_okD(5) [OF ok that(1)] that(2) member_alive(1) [OF pok slot] slot by simp
  have s: "cnt = seg_count (segs w i) - 1" "s = segs w i \<lparr> seg_count := cnt, seg_components := (cnt \<noteq> 0 \<and> seg_components (segs w i)) \<rparr>" using u by (auto simp: segment_uncount_def Let_def)
  have seg: "segs w' i = s \<lparr> seg_lock := Some p \<rparr>" "alive w' = alive w" "born w' = born w" "st_of w' = (st_of w)(p := Leaving i n cnt)" "shm_file w' = shm_file w"
    unfolding w' by (simp_all add: set_st_def set_seg_def)
  have cs: "counted_slots w' i = counted_slots w i - {n}" "n \<in> counted_slots w i" using n same p by (auto simp: counted_slots_def seg s occupied_def)
  have "0 < card (counted_slots w i)" using cs(2) counted_slots_finite card_gt_0_iff by blast
  then have card: "int (card (counted_slots w' i)) = cnt" unfolding cs(1) card_Diff_singleton [OF cs(2)] s(1) seg_okD(10) [OF ok] by linarith
  have "seg_components s" if q: "st_of w q = Attached i m" "q \<noteq> p" for q m
  proof -
    have qs: "slot_of (st_of w q) = Some (i, m)" using q by simp
    have m: "occupied (segs w i) m" "seg_processes (segs w i) ! m = q" using member_occupies [OF pok ok qs] seg_okD(7) [OF ok qs] by auto
    then have "m \<in> counted_slots w' i" unfolding cs(1) using q n(2) by (auto simp: counted_slots_def)
    then have "cnt \<noteq> 0" using card counted_slots_finite [of w' i] by auto
    then show ?thesis using s(2) seg_okD(13) [OF ok] q(1) by auto
  qed
  moreover have "st_of w q \<noteq> Registered i m" "st_of w q \<noteq> Leaving i m c" for q m c using none [of q] by auto
  ultimately show ?thesis using seg slot seg_okD(1) [OF ok] card lk s
    by (intro seg_ok_self [OF ok, where p = p and t = "Leaving i n cnt"]) (auto split: if_splits)
qed

text \<open>A process that leaves as the last one is alone in its segment, and the segment still has its name.\<close>

lemma leaving_last:
  assumes pok: "processes_ok w" and ok: "seg_ok sz w i" and p: "st_of w p = Leaving i n 0"
  shows "occupied (segs w i) m \<longleftrightarrow> m = n" "shm_file w = Some i"
proof -
  have slot: "slot_of (st_of w p) = Some (i, n)" and al: "p \<in> set (alive w)" using p member_alive(1) [OF pok, of p i n] by auto
  have n: "occupied (segs w i) n" "seg_processes (segs w i) ! n = p" using member_occupies [OF pok ok slot] seg_okD(7) [OF ok slot] by auto
  have "card (counted_slots w i) = 0" using seg_okD(14) [OF ok p] seg_okD(10) [OF ok] by simp
  then have none: "counted_slots w i = {}" using counted_slots_finite by simp
  show one: "occupied (segs w i) m \<longleftrightarrow> m = n" for m
  proof
    assume m: "occupied (segs w i) m"
    let ?q = "seg_processes (segs w i) ! m"
    have "uncounted (st_of w ?q)" using m none by (auto simp: counted_slots_def)
    then have "st_of w ?q \<noteq> Out" by auto
    then have "?q \<in> set (alive w)" using pok by (auto simp: processes_ok_def)
    then have s: "slot_of (st_of w ?q) = Some (i, m)" using seg_okD(5) [OF ok m] by simp
    with \<open>uncounted (st_of w ?q)\<close> have "lock_of (st_of w ?q) = Some i" by (cases "st_of w ?q") auto
    then have "?q = p" using holder_unique [OF ok, of p ?q] p by simp
    then show "m = n" using s slot by simp
  qed (use n in simp)
  have "seg_linked (segs w i)" using seg_okD(11) [OF ok] one n al by auto
  then show "shm_file w = Some i" using seg_okD(1) [OF ok] by simp
qed

lemma inv_left:
  assumes pok: "processes_ok w" and ok: "seg_ok sz w i" and p: "st_of w p = Leaving i n cnt"
    and w1: "w1 = set_seg i (segment_clear_slot n (segs w i)) w" and w2: "w2 = (if cnt = 0 then shm_unlink w1 else w1)"
    and w': "w' = set_st p Out (set_seg i (segs w2 i \<lparr> seg_lock := None \<rparr>) w2)"
  shows "seg_ok sz w' i"
proof -
  have slot: "slot_of (st_of w p) = Some (i, n)" and al: "p \<in> set (alive w)" using p member_alive(1) [OF pok, of p i n] by auto
  have n: "occupied (segs w i) n" "seg_processes (segs w i) ! n = p" "n < MAX_PIDS" using member_occupies [OF pok ok slot] seg_okD(6,7) [OF ok slot] by auto
  have holder: "q = p" if "lock_of (st_of w q) = Some i" for q using holder_unique [OF ok _ that, of p] p by simp
  have same: "m = n" if "occupied (segs w i) m" "seg_processes (segs w i) ! m = p" for m
    using seg_okD(5) [OF ok that(1)] that(2) al slot by simp
  let ?f = "if cnt = 0 then None else shm_file w"
  have fin: "shm_file w = Some i" if "cnt = 0" using leaving_last(2) [OF pok ok] p that by simp
  have seg: "segs w' i = segs w i \<lparr> seg_processes := (seg_processes (segs w i))[n := p \<lparr> pi_pid := 0 \<rparr>], seg_linked := (cnt \<noteq> 0 \<and> seg_linked (segs w i)), seg_lock := None \<rparr>"
    "alive w' = alive w" "born w' = born w" "st_of w' = (st_of w)(p := Out)" "shm_file w' = ?f"
    using fin n(2) unfolding w' w2 w1 by (auto simp: set_st_def set_seg_def shm_unlink_def segment_clear_slot_def)
  have occ: "occupied (segs w' i) m = (occupied (segs w i) m \<and> m \<noteq> n)" for m using seg(1) n(3) seg_okD(3) [OF ok] by (auto simp: occupied_def nth_list_update)
  have ent: "seg_processes (segs w' i) ! m = seg_processes (segs w i) ! m" if "m \<noteq> n" for m using seg(1) that by simp
  have cs: "counted_slots w' i = counted_slots w i"
  proof -
    have "(occupied (segs w' i) m \<and> \<not> uncounted (st_of w' (seg_processes (segs w' i) ! m))) = (occupied (segs w i) m \<and> \<not> uncounted (st_of w (seg_processes (segs w i) ! m)))" for m
    proof (cases "m = n")
      case True
      then show ?thesis using occ [of m] n(2) p by simp
    next
      case False
      then show ?thesis using occ [of m] ent [of m] same [of m] seg(4) by auto
    qed
    then show ?thesis by (simp add: counted_slots_def)
  qed
  have cnt: "cnt = int (card (counted_slots w i))" using seg_okD(14) [OF ok p] seg_okD(10) [OF ok] by simp
  show ?thesis
  proof (rule seg_okI)
    show "seg_linked (segs w' i) = (shm_file w' = Some i)" using seg fin seg_okD(1) [OF ok] by auto
    show "(seg_lock (segs w' i) = Some q) = (lock_of (st_of w' q) = Some i)" for q using seg holder [of q] by auto
    show "seg_processes (segs w' i) ! m \<in> born w'" if "occupied (segs w' i) m" for m using that occ ent seg(3) seg_okD(4) [OF ok, of m] by auto
    show "slot_of (st_of w' (seg_processes (segs w' i) ! m)) = Some (i, m)" if "occupied (segs w' i) m" "seg_processes (segs w' i) ! m \<in> set (alive w')" for m
      using that occ [of m] ent [of m] same [of m] seg(2,4) seg_okD(5) [OF ok, of m] by auto
    show "m < MAX_PIDS \<and> seg_processes (segs w' i) ! m = q" if s: "slot_of (st_of w' q) = Some (i, m)" for q m
    proof -
      have q: "q \<noteq> p" "slot_of (st_of w q) = Some (i, m)" using s seg(4) by (auto split: if_splits)
      then have "m < MAX_PIDS" "seg_processes (segs w i) ! m = q" using seg_okD(6,7) [OF ok q(2)] by auto
      then show ?thesis using ent [of m] n(2) q(1) by (cases "m = n") auto
    qed
    show "(\<exists>m. occupied (segs w' i) m \<and> seg_processes (segs w' i) ! m \<notin> set (alive w')) \<or> (\<forall>m. \<not> occupied (segs w' i) m)" if l: "\<not> seg_linked (segs w' i)"
    proof (cases "cnt = 0")
      case True
      then show ?thesis using leaving_last(1) [OF pok ok] p occ by auto
    next
      case False
      then obtain m where m: "occupied (segs w i) m" "seg_processes (segs w i) ! m \<notin> set (alive w)" using seg_okD(11) [OF ok] l seg(1) n(1) by auto
      then have "m \<noteq> n" using n(2) al by auto
      then show ?thesis using m occ ent seg(2) by auto
    qed
    show "\<exists>m. occupied (segs w' i) m" if "seg_linked (segs w' i)"
    proof -
      have "counted_slots w i \<noteq> {}" using cnt that seg(1) by auto
      then obtain m where "m \<in> counted_slots w i" by blast
      then have "occupied (segs w i) m" "m \<noteq> n" using n(2) p by (auto simp: counted_slots_def)
      then show ?thesis using occ by blast
    qed
    show "seg_components (segs w' i)" if "st_of w' q = Registered i m \<or> st_of w' q = Attached i m" for q m
      using that seg seg_okD(13) [OF ok, of q m] by (auto split: if_splits)
    show "c = seg_count (segs w' i)" if "st_of w' q = Leaving i m c" for q m c using that seg(4) holder [of q] by (auto split: if_splits)
    show "seg_count (segs w' i) = int (card (counted_slots w' i))" unfolding cs using seg(1) seg_okD(10) [OF ok] by simp
  qed (use seg seg_okD(3,8,9) [OF ok] occ in auto)
qed

lemma inv_die:
  assumes pok: "processes_ok w" and ok: "seg_ok sz w i" and p: "\<not> uncounted (st_of w p)"
  shows "seg_ok sz (die p w) i"
proof -
  let ?w = "die p w"
  have seg: "seg_processes (segs ?w i) = seg_processes (segs w i)" "seg_linked (segs ?w i) = seg_linked (segs w i)" "seg_size (segs ?w i) = seg_size (segs w i)"
    "seg_count (segs ?w i) = seg_count (segs w i)" "seg_components (segs ?w i) = seg_components (segs w i)"
    "seg_lock (segs ?w i) = (if seg_lock (segs w i) = Some p then None else seg_lock (segs w i))"
    "set (alive ?w) = set (alive w) - {p}" "born ?w = born w" "st_of ?w = (st_of w)(p := Out)" "shm_file ?w = shm_file w"
    by (auto simp: die_def set_st_def release_locks_def)
  have occ: "occupied (segs ?w i) m = occupied (segs w i) m" for m using seg(1) by (simp add: occupied_def)
  have cs: "counted_slots ?w i = counted_slots w i" using seg(1,9) p by (intro counted_slots_frame) auto
  show ?thesis
  proof (rule seg_okI)
    show "(seg_lock (segs ?w i) = Some q) = (lock_of (st_of ?w q) = Some i)" for q using seg_okD(2) [OF ok, of q] seg(6,9) by (cases "q = p") auto
    show "slot_of (st_of ?w (seg_processes (segs ?w i) ! m)) = Some (i, m)" if "occupied (segs ?w i) m" "seg_processes (segs ?w i) ! m \<in> set (alive ?w)" for m
      using that occ seg(1,7,9) seg_okD(5) [OF ok, of m] by auto
    show "m < MAX_PIDS \<and> seg_processes (segs ?w i) ! m = q" if "slot_of (st_of ?w q) = Some (i, m)" for q m
      using that seg(1,9) seg_okD(6,7) [OF ok, of q m] by (auto split: if_splits)
    show "(\<exists>m. occupied (segs ?w i) m \<and> seg_processes (segs ?w i) ! m \<notin> set (alive ?w)) \<or> (\<forall>m. \<not> occupied (segs ?w i) m)" if "\<not> seg_linked (segs ?w i)"
      using seg_okD(11) [OF ok] that occ seg(1,2,7) by auto
    show "seg_components (segs ?w i)" if "st_of ?w q = Registered i m \<or> st_of ?w q = Attached i m" for q m
      using that seg(5,9) seg_okD(13) [OF ok, of q m] by (auto split: if_splits)
    show "c = seg_count (segs ?w i)" if "st_of ?w q = Leaving i m c" for q m c
      using that seg(4,9) seg_okD(14) [OF ok, of q m c] by (auto split: if_splits)
    show "seg_count (segs ?w i) = int (card (counted_slots ?w i))" unfolding cs seg(4) by (rule seg_okD(10) [OF ok])
  qed (use seg occ seg_okD(1,3,4,8,9,12) [OF ok] in auto)
qed

lemma inv_spawn:
  assumes pok: "processes_ok w" and ok: "seg_ok sz w i" and p: "p \<notin> born w"
  shows "seg_ok sz (set_st p Out (w \<lparr> alive := p # alive w, born := insert p (born w) \<rparr>)) i"
proof -
  let ?w = "set_st p Out (w \<lparr> alive := p # alive w, born := insert p (born w) \<rparr>)"
  have "st_of w p = Out" using pok p unfolding processes_ok_def by blast
  then have st: "st_of ?w = st_of w" by (simp add: set_st_def fun_upd_idem)
  have seg: "segs ?w = segs w" "set (alive ?w) = insert p (set (alive w))" "born ?w = insert p (born w)" "shm_file ?w = shm_file w" by (auto simp: set_st_def)
  have other: "seg_processes (segs w i) ! m \<noteq> p" if "occupied (segs w i) m" for m using seg_okD(4) [OF ok that] p by auto
  have cs: "counted_slots ?w i = counted_slots w i" by (simp add: counted_slots_def st seg)
  show ?thesis
  proof (rule seg_okI, unfold st seg cs)
    show "slot_of (st_of w (seg_processes (segs w i) ! m)) = Some (i, m)" if "occupied (segs w i) m" "seg_processes (segs w i) ! m \<in> insert p (set (alive w))" for m
      using that other [of m] seg_okD(5) [OF ok, of m] by auto
    show "(\<exists>m. occupied (segs w i) m \<and> seg_processes (segs w i) ! m \<notin> insert p (set (alive w))) \<or> (\<forall>m. \<not> occupied (segs w i) m)" if "\<not> seg_linked (segs w i)"
      using seg_okD(11) [OF ok that] other by auto
  qed (use seg_okD [OF ok] in auto)
qed

lemma check_processes_inv:
  assumes pok: "processes_ok w" and ok: "seg_ok sz w i"
  shows "check_processes_correct (alive w) (seg_processes (segs w i)) = Some (\<forall>n. occupied (segs w i) n \<longrightarrow> seg_processes (segs w i) ! n \<in> set (alive w))"
proof -
  have "0 \<le> pi_pid q" if q: "q \<in> set (seg_processes (segs w i))" for q
  proof (cases "pi_pid q = 0")
    case False
    obtain n where "n < MAX_PIDS" "seg_processes (segs w i) ! n = q" using q seg_okD(3) [OF ok] by (auto simp: in_set_conv_nth)
    then have "q \<in> born w" using seg_okD(4) [OF ok, of n] False by (auto simp: occupied_def)
    then show ?thesis using pok by (auto simp: processes_ok_def)
  qed simp
  then have "check_processes_correct (alive w) (seg_processes (segs w i)) = Some (\<forall>q \<in> set (seg_processes (segs w i)). pi_pid q \<noteq> 0 \<longrightarrow> q \<in> set (alive w))"
    using pok by (intro check_processes_spec) (auto simp: processes_ok_def)
  also have "(\<forall>q \<in> set (seg_processes (segs w i)). pi_pid q \<noteq> 0 \<longrightarrow> q \<in> set (alive w)) = (\<forall>n. occupied (segs w i) n \<longrightarrow> seg_processes (segs w i) ! n \<in> set (alive w))"
    using seg_okD(3) [OF ok] by (auto simp add: all_set_conv_all_nth occupied_def)
  finally show ?thesis .
qed

lemma stale_dead:
  assumes pok: "processes_ok w" and ok: "seg_ok sz w i" and e: "segment_enter sz (alive w) p (segs w i) = Some Stale"
  shows "shm_file w = Some i" "\<exists>n. occupied (segs w i) n \<and> seg_processes (segs w i) ! n \<notin> set (alive w)"
proof -
  have "seg_linked (segs w i) \<and> (\<exists>n. occupied (segs w i) n \<and> seg_processes (segs w i) ! n \<notin> set (alive w))"
    using e unfolding segment_enter_def check_processes_inv [OF pok ok]
    by (auto simp: assert_then_def smem_initialize_first_def smem_config_initialize_def split: if_splits option.splits prod.splits)
  then show "shm_file w = Some i" "\<exists>n. occupied (segs w i) n \<and> seg_processes (segs w i) ! n \<notin> set (alive w)" using seg_okD(1) [OF ok] by auto
qed

lemma step_local:
  assumes "smem_inv sz w" "p \<in> set (alive w)" and w': "w' = set_st p t (set_seg i s w)" and "\<And>j. touches (st_of w p) j \<Longrightarrow> j = i" "\<And>j. touches t j \<Longrightarrow> j = i"
    and "seg_ok sz w' i"
  shows "seg_ok sz w' j"
proof (cases "j = i")
  case False
  then show ?thesis using assms by (intro step_other [of sz w p j i w' s t]) (auto simp: set_st_def set_seg_def)
qed (use assms in simp)

lemma step_inv:
  assumes inv: "smem_inv sz w" and step: "smem_step k sz w w'" and "k \<noteq> CrashAnywhere" "0 < sz"
  shows "smem_inv sz w'"
proof -
  have pok: "processes_ok w" and ok: "\<And>i. seg_ok sz w i" using inv by (auto simp: smem_inv_def)
  have "seg_ok sz w' j" for j
    using step
  proof cases
    case (spawn p)
    then show ?thesis using inv_spawn [OF pok ok] by simp
  next
    case (open_file p i w1)
    then show ?thesis using inv_open [OF inv, of p i w1 j] by simp
  next
    case (lock p i)
    show ?thesis by (rule step_local [OF inv lock(2,1)]) (use lock inv_lock [OF ok lock(2,3,4)] in \<open>auto simp: touches_def\<close>)
  next
    case (raced p i)
    have "\<not> seg_linked (segs w i)" using raced(4) by (auto simp: segment_enter_def assert_then_def split: if_splits bind_splits)
    then have e: "segs w i \<lparr> seg_linked := False, seg_lock := None \<rparr> = segs w i \<lparr> seg_lock := None \<rparr>" by (cases "segs w i") simp
    have "w' = set_st p Out (set_seg i (segs w i \<lparr> seg_linked := False, seg_lock := None \<rparr>) (w \<lparr> shm_file := shm_file w \<rparr>))" unfolding e raced(1) by simp
    then have "seg_ok sz w' i" using \<open>\<not> seg_linked (segs w i)\<close> seg_okD(1) [OF ok, of i] by (intro inv_release [OF ok raced(2,3), of w' False "shm_file w"]) auto
    show ?thesis by (rule step_local [OF inv raced(2,1)]) (use raced \<open>seg_ok sz w' i\<close> in \<open>auto simp: touches_def\<close>)
  next
    case (stale p i w1)
    note dead = stale_dead [OF pok ok stale(4)]
    have w': "w' = set_st p Out (set_seg i (segs w i \<lparr> seg_linked := False, seg_lock := None \<rparr>) (w \<lparr> shm_file := None \<rparr>))"
      using stale(1,5) dead(1) by (auto simp: shm_unlink_def set_st_def set_seg_def)
    show ?thesis
    proof (cases "j = i")
      case True
      then show ?thesis using inv_release [OF ok stale(2,3) w'] dead(2) by simp
    next
      case False
      then show ?thesis unfolding w' using dead(1) stale(2,3)
        by (intro step_other [OF inv, of p j i _ "segs w i \<lparr> seg_linked := False, seg_lock := None \<rparr>" Out]) (auto simp: set_st_def set_seg_def touches_def)
    qed
  next
    case (registered p i n s)
    show ?thesis by (rule step_local [OF inv registered(2,1)]) (use registered inv_registered [OF pok ok registered(2,3) assms(4) registered(4)] in \<open>auto simp: touches_def\<close>)
  next
    case (aborted p i)
    then show ?thesis using inv_die [OF pok ok, of p] by simp
  next
    case (counted p i n)
    show ?thesis by (rule step_local [OF inv counted(2,1)]) (use counted inv_counted [OF pok ok counted(3,1)] in \<open>auto simp: touches_def\<close>)
  next
    case (leave p i n cnt s)
    show ?thesis by (rule step_local [OF inv leave(2,1)]) (use leave inv_leave [OF pok ok leave(3,4,5,1)] in \<open>auto simp: touches_def\<close>)
  next
    case (left_segment p i n cnt w1 w2)
    show ?thesis
    proof (cases "j = i")
      case True
      then show ?thesis using inv_left [OF pok ok left_segment(3,4,5,1)] by simp
    next
      case False
      have "shm_file w = Some i" if "cnt = 0" using leaving_last(2) [OF pok ok] left_segment(3) that by simp
      then have w2: "segs w2 = (segs w)(i := segs w2 i)" "alive w2 = alive w" "born w2 = born w" "st_of w2 = st_of w" "shm_file w2 = (if cnt = 0 then None else shm_file w)"
        "cnt = 0 \<Longrightarrow> shm_file w = Some i" using left_segment(4,5) by (auto simp: set_seg_def shm_unlink_def)
      have "segs w' = (segs w)(i := segs w2 i \<lparr> seg_lock := None \<rparr>)" unfolding left_segment(1) using w2(1) by (simp add: set_st_def set_seg_def) (metis fun_upd_upd)
      then show ?thesis using False left_segment(1,2,3) w2
        by (intro step_other [OF inv, of p j i w' "segs w2 i \<lparr> seg_lock := None \<rparr>" Out]) (auto simp: set_st_def set_seg_def touches_def)
    qed
  next
    case (crash p)
    then have "\<not> uncounted (st_of w p)" using assms(3) by (cases k; cases "st_of w p") (auto simp: may_crash_def)
    then show ?thesis using crash inv_die [OF pok ok, of p] by simp
  qed
  then show ?thesis using step_processes_ok [OF step pok] by (simp add: smem_inv_def)
qed

lemma inv_start: "smem_inv sz smem_start"
  unfolding smem_inv_def
proof (intro conjI allI)
  show "processes_ok smem_start" by (simp add: processes_ok_def smem_start_def)
  show "seg_ok sz smem_start i" for i
    by (rule seg_okI) (auto simp: smem_start_def new_segment_def occupied_def no_process_def counted_slots_def)
qed

lemma reachable_smem_inv: "smem_reachable k sz w \<Longrightarrow> k \<noteq> CrashAnywhere \<Longrightarrow> 0 < sz \<Longrightarrow> smem_inv sz w"
  unfolding smem_reachable_def by (induction rule: rtranclp_induct) (auto intro: inv_start step_inv)

subsection \<open>Attached processes\<close>


subsection \<open>Without crashes\<close>

definition all_alive :: "smem_world \<Rightarrow> bool" where
  "all_alive w \<longleftrightarrow> (\<forall>i n. occupied (segs w i) n \<longrightarrow> seg_processes (segs w i) ! n \<in> set (alive w))"

lemma all_alive_step:
  assumes inv: "smem_inv sz w" "0 < sz" and step: "smem_step NoCrash sz w w'" and al: "all_alive w"
  shows "all_alive w'"
proof -
  have pok: "processes_ok w" and ok: "\<And>i. seg_ok sz w i" using inv by (auto simp: smem_inv_def)
  have keep: "all_alive w''" if "\<And>j n. occupied (segs w'' j) n \<Longrightarrow> occupied (segs w j) n \<and> seg_processes (segs w'' j) ! n = seg_processes (segs w j) ! n"
    "set (alive w) \<subseteq> set (alive w'')" for w'' :: smem_world using al that unfolding all_alive_def by (metis subsetD)
  show ?thesis
    using step
  proof cases
    case (spawn p)
    then show ?thesis by (intro keep) (auto simp: set_st_def)
  next
    case (open_file p i w1)
    then show ?thesis
      by (intro keep) (auto simp: set_st_def shm_open_def new_segment_def occupied_def no_process_def split: option.splits if_splits)
  next
    case (registered p i n s)
    note en = enter_registered [OF ok _ inv(2) registered(4)]
    have pid: "0 < pi_pid p" using pok registered(2) by (auto simp: processes_ok_def)
    have "seg_processes s ! m \<in> set (alive w)" if "occupied s m" for m
      using en(10) [OF pid] en(11) [OF pid, of m] en(12) [OF pid, of m] that registered(2) al by (cases "m = n") (auto simp: all_alive_def)
    then show ?thesis using registered(1) al by (auto simp: all_alive_def set_st_def set_seg_def)
  next
    case (aborted p i)
    have "seg_processes (segs w j) ! n \<noteq> p" if "occupied (segs w j) n" for j n using occupied_other [OF ok aborted(2) _ that] aborted(3) by simp
    then show ?thesis using aborted(1) al by (auto simp: all_alive_def die_def set_st_def release_locks_def occupied_def)
  next
    case (left_segment p i n cnt w1 w2)
    have len: "n < length (seg_processes (segs w i))" using seg_okD(6) [OF ok, of p i n] seg_okD(3) [OF ok] left_segment(3) by simp
    show ?thesis
    proof (rule keep)
      fix j m assume "occupied (segs w' j) m"
      then show "occupied (segs w j) m \<and> seg_processes (segs w' j) ! m = seg_processes (segs w j) ! m"
        using left_segment(1,4,5) len
        by (cases "m = n") (auto simp: set_st_def set_seg_def shm_unlink_def segment_clear_slot_def occupied_def split: if_splits option.splits)
    qed (use left_segment in \<open>auto simp: set_st_def set_seg_def shm_unlink_def split: option.splits\<close>)
  next
    case (crash p)
    then show ?thesis by (simp add: may_crash_def)
  next
    case (stale p i w1)
    then show ?thesis by (intro keep) (auto simp: set_st_def set_seg_def shm_unlink_def occupied_def split: option.splits if_splits)
  next
    case (leave p i n cnt s)
    then show ?thesis by (intro keep) (auto simp: set_st_def set_seg_def segment_uncount_def Let_def occupied_def split: if_splits)
  qed (auto intro!: keep simp: set_st_def set_seg_def occupied_def split: if_splits)
qed


subsection \<open>Attaching\<close>

text \<open>The steps of a process that registers at once.\<close>

lemma attach_steps:
  assumes p: "p \<in> set (alive w)" "st_of w p = Out" and o: "shm_open w = (i, w1)" and l: "seg_lock (segs w1 i) = None"
    and e: "segment_enter sz (alive w) p (segs w1 i \<lparr> seg_lock := Some p \<rparr>) = Some (Registered_In n s)"
  shows "(smem_step k sz)\<^sup>*\<^sup>* w (set_st p (Attached i n) (set_seg i (s \<lparr> seg_count := seg_count s + 1, seg_lock := None \<rparr>) w1))"
proof -
  have a: "alive w1 = alive w" using o by (auto simp: shm_open_def split: option.splits)
  let ?w2 = "set_st p (Opened i) w1"
  let ?w3 = "set_st p (Holding i) (set_seg i (segs ?w2 i \<lparr> seg_lock := Some p \<rparr>) ?w2)"
  let ?w4 = "set_st p (Registered i n) (set_seg i s ?w3)"
  let ?w5 = "set_st p (Attached i n) (set_seg i (segs ?w4 i \<lparr> seg_count := seg_count (segs ?w4 i) + 1, seg_lock := None \<rparr>) ?w4)"
  have "smem_step k sz w ?w2" by (rule smem_step.open_file [OF p o])
  moreover have "smem_step k sz ?w2 ?w3" using p(1) a l by (intro smem_step.lock) (auto simp: set_st_def)
  moreover have "smem_step k sz ?w3 ?w4" using p(1) a e by (intro smem_step.registered) (auto simp: set_st_def set_seg_def)
  moreover have "smem_step k sz ?w4 ?w5" using p(1) a by (intro smem_step.counted) (auto simp: set_st_def set_seg_def)
  ultimately have "(smem_step k sz)\<^sup>*\<^sup>* w ?w5" by (meson converse_rtranclp_into_rtranclp rtranclp.rtrancl_refl)
  moreover have "?w5 = set_st p (Attached i n) (set_seg i (s \<lparr> seg_count := seg_count s + 1, seg_lock := None \<rparr>) w1)" by (simp add: set_st_def set_seg_def)
  ultimately show ?thesis by simp
qed

lemma attach_fresh:
  assumes p: "p \<in> set (alive w)" "st_of w p = Out" "0 < pi_pid p" "0 < sz" and "shm_file w = None"
  shows "\<exists>w'. (smem_step k sz)\<^sup>*\<^sup>* w w' \<and> st_of w' p = Attached (inodes w) 0 \<and> shm_file w' = Some (inodes w) \<and> seg_count (segs w' (inodes w)) = 1"
proof -
  let ?i = "inodes w"
  let ?w1 = "w \<lparr> segs := (segs w)(?i := new_segment), inodes := ?i + 1, shm_file := Some ?i \<rparr>"
  let ?s = "new_segment \<lparr> seg_lock := Some p, seg_size := sz, seg_processes := p # replicate (MAX_PIDS - 1) no_process, seg_components := True \<rparr>"
  have "shm_open w = (?i, ?w1)" using assms(5) by (simp add: shm_open_def)
  moreover have "seg_lock (segs ?w1 ?i) = None" by (simp add: new_segment_def)
  moreover have "segment_enter sz (alive w) p (segs ?w1 ?i \<lparr> seg_lock := Some p \<rparr>) = Some (Registered_In 0 ?s)"
    using p(3) by (simp add: segment_enter_def smem_initialize_first_def smem_config_initialize_def new_segment_def)
  ultimately have "(smem_step k sz)\<^sup>*\<^sup>* w (set_st p (Attached ?i 0) (set_seg ?i (?s \<lparr> seg_count := seg_count ?s + 1, seg_lock := None \<rparr>) ?w1))" by (rule attach_steps [OF p(1,2)])
  then show ?thesis by (intro exI conjI) (auto simp: set_st_def set_seg_def new_segment_def)
qed

lemma attach_stale:
  assumes p: "p \<in> set (alive w)" "st_of w p = Out" and f: "shm_file w = Some i" "seg_lock (segs w i) = None"
    and e: "segment_enter sz (alive w) p (segs w i \<lparr> seg_lock := Some p \<rparr>) = Some Stale"
  shows "(smem_step k sz)\<^sup>*\<^sup>* w (set_seg i (segs w i \<lparr> seg_linked := False, seg_lock := None \<rparr>) (w \<lparr> shm_file := None \<rparr>))"
proof -
  let ?w2 = "set_st p (Opened i) w"
  let ?w3 = "set_st p (Holding i) (set_seg i (segs ?w2 i \<lparr> seg_lock := Some p \<rparr>) ?w2)"
  let ?w4 = "set_st p Out (set_seg i (segs (shm_unlink ?w3) i \<lparr> seg_lock := None \<rparr>) (shm_unlink ?w3))"
  have "smem_step k sz w ?w2" using f(1) by (intro smem_step.open_file [OF p]) (simp add: shm_open_def)
  moreover have "smem_step k sz ?w2 ?w3" using p(1) f(2) by (intro smem_step.lock) (auto simp: set_st_def)
  moreover have "smem_step k sz ?w3 ?w4" using p(1) e by (intro smem_step.stale) (auto simp: set_st_def set_seg_def)
  ultimately have "(smem_step k sz)\<^sup>*\<^sup>* w ?w4" by (meson converse_rtranclp_into_rtranclp rtranclp.rtrancl_refl)
  moreover have "?w4 = set_seg i (segs w i \<lparr> seg_linked := False, seg_lock := None \<rparr>) (w \<lparr> shm_file := None \<rparr>)"
    using f(1) p(2) by (simp add: set_st_def set_seg_def shm_unlink_def fun_upd_idem)
  ultimately show ?thesis by simp
qed


lemma smem_reachable_step: "smem_reachable k sz w \<Longrightarrow> smem_step k sz w w' \<Longrightarrow> smem_reachable k sz w'"
  unfolding smem_reachable_def by (rule rtranclp.rtrancl_into_rtrancl)

lemma smem_reachable_steps: "smem_reachable k sz w \<Longrightarrow> (smem_step k sz)\<^sup>*\<^sup>* w w' \<Longrightarrow> smem_reachable k sz w'"
  unfolding smem_reachable_def by (rule rtranclp_trans)

lemma smem_reachable_start: "smem_reachable k sz smem_start"
  by (simp add: smem_reachable_def)

subsection \<open>Examples\<close>

definition proc :: "int \<Rightarrow> process_identifier" where
  "proc n = \<lparr> start_time = 7, pi_pid = n \<rparr>"

text \<open>The segment of the first process, with \<open>c\<close> processes counted and the list \<open>ps\<close> in the first slots.\<close>

definition example_segment :: "process_identifier list \<Rightarrow> int \<Rightarrow> bool \<Rightarrow> bool \<Rightarrow> process_identifier option \<Rightarrow> segment" where
  "example_segment ps c linked comps lk = \<lparr> seg_linked = linked, seg_size = 1, seg_processes = ps @ replicate (MAX_PIDS - length ps) no_process, seg_count = c,
     seg_components = comps, seg_lock = lk \<rparr>"

definition example_world :: "(nat \<Rightarrow> segment) \<Rightarrow> nat \<Rightarrow> nat option \<Rightarrow> int list \<Rightarrow> int set \<Rightarrow> (process_identifier \<Rightarrow> smem_state) \<Rightarrow> smem_world" where
  "example_world sg n f al br st = \<lparr> segs = sg, inodes = n, shm_file = f, alive = map proc al, born = proc ` br, st_of = st \<rparr>"

definition fresh_segs :: "nat \<Rightarrow> segment" where
  "fresh_segs = (\<lambda>_. new_segment \<lparr> seg_linked := False \<rparr>)"

lemma proc_simps: "pi_pid (proc n) = n" "start_time (proc n) = 7" "(proc m = proc n) = (m = n)"
  by (simp_all add: proc_def)

lemma max_pids_gt: "1 < MAX_PIDS"
  by (simp add: MAX_PIDS_def)

lemma max_pids_split: "[0..<MAX_PIDS] = 0 # 1 # [2..<MAX_PIDS]" "replicate (MAX_PIDS - 1) x = x # replicate (MAX_PIDS - 2) x"
proof -
  have "[0..<MAX_PIDS] = 0 # [1..<MAX_PIDS]" "[1..<MAX_PIDS] = 1 # [2..<MAX_PIDS]" using max_pids_gt by (simp_all add: upt_conv_Cons numeral_2_eq_2)
  then show "[0..<MAX_PIDS] = 0 # 1 # [2..<MAX_PIDS]" by simp
  have "MAX_PIDS - 1 = Suc (MAX_PIDS - 2)" using max_pids_gt by linarith
  then show "replicate (MAX_PIDS - 1) x = x # replicate (MAX_PIDS - 2) x" by simp
qed

lemma check_no_process: "check_processes_correct al (replicate n no_process) = Some True"
  by (induction n) (auto simp: no_process_def)

lemma second_enters:
  "segment_enter 1 [proc 2, proc 1] (proc 2) (example_segment [proc 1] 1 True True lk) = Some (Registered_In 1 (example_segment [proc 1, proc 2] 1 True True lk))"
proof -
  have c: "check_processes_correct [proc 2, proc 1] (proc 1 # replicate (MAX_PIDS - 1) no_process) = Some True"
    using check_no_process by (simp add: running_process_def proc_simps)
  have f: "find (\<lambda>i. pi_pid ((proc 1 # replicate (MAX_PIDS - 1) no_process) ! i) = 0) [0..<MAX_PIDS] = Some 1"
    unfolding max_pids_split by (simp add: proc_simps no_process_def)
  have u: "(proc 1 # replicate (MAX_PIDS - 1) no_process)[1 := proc 2] = proc 1 # proc 2 # replicate (MAX_PIDS - 2) no_process" unfolding max_pids_split by simp
  show ?thesis unfolding segment_enter_def smem_initialize_rest_def example_segment_def using c f u by (simp add: proc_simps numeral_2_eq_2)
qed

definition one_attached :: smem_world where
  "one_attached = example_world (fresh_segs(0 := example_segment [proc 1] 1 True True None)) 1 (Some 0) [1] {1} ((\<lambda>_. Out)(proc 1 := Attached 0 0))"

lemma one_attached_reachable: "smem_reachable k 1 one_attached"
proof -
  let ?w = "set_st (proc 1) Out (smem_start \<lparr> alive := proc 1 # alive smem_start, born := insert (proc 1) (born smem_start) \<rparr>)"
  let ?w1 = "?w \<lparr> segs := (segs ?w)(0 := new_segment), inodes := 1, shm_file := Some 0 \<rparr>"
  let ?s = "example_segment [proc 1] 0 True True (Some (proc 1))"
  have 1: "smem_step k 1 smem_start ?w" by (rule smem_step.spawn) (auto simp: smem_start_def proc_simps)
  have 2: "(smem_step k 1)\<^sup>*\<^sup>* ?w (set_st (proc 1) (Attached 0 0) (set_seg 0 (?s \<lparr> seg_count := seg_count ?s + 1, seg_lock := None \<rparr>) ?w1))"
    by (rule attach_steps) (auto simp: set_st_def smem_start_def shm_open_def new_segment_def segment_enter_def smem_initialize_first_def smem_config_initialize_def proc_simps
        example_segment_def)
  have e: "set_st (proc 1) (Attached 0 0) (set_seg 0 (?s \<lparr> seg_count := seg_count ?s + 1, seg_lock := None \<rparr>) ?w1) = one_attached"
    by (auto simp: one_attached_def example_world_def set_st_def set_seg_def smem_start_def example_segment_def fresh_segs_def)
  show ?thesis by (rule smem_reachable_steps [OF smem_reachable_step [OF smem_reachable_start 1] 2, unfolded e])
qed



text \<open>The process crashes, and another one comes.\<close>

definition one_crashed :: smem_world where
  "one_crashed = example_world (fresh_segs(0 := example_segment [proc 1] 1 True True None)) 1 (Some 0) [2] {1, 2} (\<lambda>_. Out)"

lemma one_crashed_reachable: "smem_reachable CrashOutside 1 one_crashed"
proof -
  let ?w = "die (proc 1) one_attached"
  have 1: "smem_step CrashOutside 1 one_attached ?w" by (rule smem_step.crash) (auto simp: one_attached_def example_world_def may_crash_def)
  have 2: "smem_step CrashOutside 1 ?w (set_st (proc 2) Out (?w \<lparr> alive := proc 2 # alive ?w, born := insert (proc 2) (born ?w) \<rparr>))"
    by (rule smem_step.spawn) (auto simp: die_def set_st_def release_locks_def one_attached_def example_world_def proc_simps)
  have e: "set_st (proc 2) Out (?w \<lparr> alive := proc 2 # alive ?w, born := insert (proc 2) (born ?w) \<rparr>) = one_crashed"
    by (auto simp: die_def set_st_def release_locks_def one_attached_def one_crashed_def example_world_def example_segment_def fresh_segs_def new_segment_def)
  show ?thesis by (rule smem_reachable_step [OF smem_reachable_step [OF one_attached_reachable 1] 2, unfolded e])
qed


subsection \<open>A crash under the lock\<close>

text \<open>The second process dies after it is registered and before it is counted. The third process finds the segment stale and creates another one; the first process then leaves as the last one and
  unlinks the name, which is that of the segment of the third process.\<close>

definition segs_two :: "process_identifier option \<Rightarrow> bool \<Rightarrow> nat \<Rightarrow> segment" where
  "segs_two lk linked = fresh_segs(0 := example_segment [proc 1, proc 2] 1 linked True lk)"

definition second_registered :: smem_world where
  "second_registered = example_world (segs_two (Some (proc 2)) True) 1 (Some 0) [2, 1] {1, 2} ((\<lambda>_. Out)(proc 1 := Attached 0 0, proc 2 := Registered 0 1))"

definition third_arrived :: smem_world where
  "third_arrived = example_world (segs_two None True) 1 (Some 0) [3, 1] {1, 2, 3} ((\<lambda>_. Out)(proc 1 := Attached 0 0))"

definition third_attached :: smem_world where
  "third_attached = example_world ((segs_two None False)(1 := example_segment [proc 3] 1 True True None)) 2 (Some 1) [3, 1] {1, 2, 3}
     ((\<lambda>_. Out)(proc 1 := Attached 0 0, proc 3 := Attached 1 0))"

lemmas example_simps = example_world_def example_segment_def fresh_segs_def new_segment_def set_st_def set_seg_def proc_simps

lemma second_registered_reachable: "smem_reachable k 1 second_registered"
proof -
  let ?w = "set_st (proc 2) Out (one_attached \<lparr> alive := proc 2 # alive one_attached, born := insert (proc 2) (born one_attached) \<rparr>)"
  let ?w1 = "set_st (proc 2) (Opened 0) ?w"
  let ?w2 = "set_st (proc 2) (Holding 0) (set_seg 0 (segs ?w1 0 \<lparr> seg_lock := Some (proc 2) \<rparr>) ?w1)"
  let ?s = "example_segment [proc 1, proc 2] 1 True True (Some (proc 2))"
  have 1: "smem_step k 1 one_attached ?w" by (rule smem_step.spawn) (auto simp: one_attached_def example_simps)
  have 2: "smem_step k 1 ?w ?w1" by (rule smem_step.open_file) (auto simp: one_attached_def example_simps shm_open_def)
  have 3: "smem_step k 1 ?w1 ?w2" by (rule smem_step.lock) (auto simp: one_attached_def example_simps)
  have "alive ?w2 = [proc 2, proc 1]" "segs ?w2 0 = example_segment [proc 1] 1 True True (Some (proc 2))" by (simp_all add: one_attached_def example_simps)
  then have "segment_enter 1 (alive ?w2) (proc 2) (segs ?w2 0) = Some (Registered_In 1 ?s)" using second_enters by simp
  then have 4: "smem_step k 1 ?w2 (set_st (proc 2) (Registered 0 1) (set_seg 0 ?s ?w2))" by (intro smem_step.registered) (auto simp: one_attached_def example_simps)
  have e: "set_st (proc 2) (Registered 0 1) (set_seg 0 ?s ?w2) = second_registered" by (auto simp: one_attached_def second_registered_def segs_two_def example_simps)
  show ?thesis by (rule smem_reachable_step [OF smem_reachable_step [OF smem_reachable_step [OF smem_reachable_step [OF one_attached_reachable 1] 2] 3] 4, unfolded e])
qed

lemma third_arrived_reachable: "smem_reachable CrashAnywhere 1 third_arrived"
proof -
  let ?w = "die (proc 2) second_registered"
  have 1: "smem_step CrashAnywhere 1 second_registered ?w" by (rule smem_step.crash) (auto simp: second_registered_def example_world_def may_crash_def)
  have 2: "smem_step CrashAnywhere 1 ?w (set_st (proc 3) Out (?w \<lparr> alive := proc 3 # alive ?w, born := insert (proc 3) (born ?w) \<rparr>))"
    by (rule smem_step.spawn) (auto simp: die_def release_locks_def second_registered_def example_simps)
  have e: "set_st (proc 3) Out (?w \<lparr> alive := proc 3 # alive ?w, born := insert (proc 3) (born ?w) \<rparr>) = third_arrived"
    by (auto simp: die_def release_locks_def second_registered_def third_arrived_def segs_two_def example_simps)
  show ?thesis by (rule smem_reachable_step [OF smem_reachable_step [OF second_registered_reachable 1] 2, unfolded e])
qed

lemma third_finds_stale: "segment_enter 1 [proc 3, proc 1] p (example_segment [proc 1, proc 2] 1 True True lk) = Some Stale"
  by (simp add: segment_enter_def example_segment_def running_process_def proc_simps)

lemma third_attached_reachable: "smem_reachable CrashAnywhere 1 third_attached"
proof -
  let ?w = "set_seg 0 (segs third_arrived 0 \<lparr> seg_linked := False, seg_lock := None \<rparr>) (third_arrived \<lparr> shm_file := None \<rparr>)"
  let ?w1 = "?w \<lparr> segs := (segs ?w)(1 := new_segment), inodes := 2, shm_file := Some 1 \<rparr>"
  let ?s = "example_segment [proc 3] 0 True True (Some (proc 3))"
  have "segs third_arrived 0 \<lparr> seg_lock := Some (proc 3) \<rparr> = example_segment [proc 1, proc 2] 1 True True (Some (proc 3))" "alive third_arrived = [proc 3, proc 1]"
    by (simp_all add: third_arrived_def segs_two_def example_simps)
  then have 1: "(smem_step CrashAnywhere 1)\<^sup>*\<^sup>* third_arrived ?w"
    using third_finds_stale by (intro attach_stale [of "proc 3"]) (auto simp: third_arrived_def segs_two_def example_simps)
  have 2: "(smem_step CrashAnywhere 1)\<^sup>*\<^sup>* ?w (set_st (proc 3) (Attached 1 0) (set_seg 1 (?s \<lparr> seg_count := seg_count ?s + 1, seg_lock := None \<rparr>) ?w1))"
    by (rule attach_steps) (auto simp: third_arrived_def segs_two_def example_simps shm_open_def segment_enter_def smem_initialize_first_def smem_config_initialize_def)
  have e: "set_st (proc 3) (Attached 1 0) (set_seg 1 (?s \<lparr> seg_count := seg_count ?s + 1, seg_lock := None \<rparr>) ?w1) = third_attached"
    by (auto simp: third_arrived_def third_attached_def segs_two_def example_simps)
  show ?thesis by (rule smem_reachable_steps [OF smem_reachable_steps [OF third_arrived_reachable 1] 2, unfolded e])
qed

theorem crash_under_lock_unlinks_other_segment:
  "\<exists>w p i n. smem_reachable CrashAnywhere 1 w \<and> st_of w p = Attached i n \<and> (\<forall>m < MAX_PIDS. pi_pid (seg_processes (segs w i) ! m) \<noteq> 0 \<longrightarrow> seg_processes (segs w i) ! m \<in> set (alive w)) \<and>
     shm_file w = None"
proof -
  let ?w = third_attached
  obtain s where s: "segment_uncount (segs ?w 0) = (0, s)" by (simp add: third_attached_def segs_two_def example_simps segment_uncount_def)
  let ?w1 = "set_st (proc 1) (Leaving 0 0 0) (set_seg 0 (s \<lparr> seg_lock := Some (proc 1) \<rparr>) ?w)"
  let ?w2 = "shm_unlink (set_seg 0 (segment_clear_slot 0 (segs ?w1 0)) ?w1)"
  let ?w3 = "set_st (proc 1) Out (set_seg 0 (segs ?w2 0 \<lparr> seg_lock := None \<rparr>) ?w2)"
  have 1: "smem_step CrashAnywhere 1 ?w ?w1" using s by (intro smem_step.leave) (auto simp: third_attached_def segs_two_def example_simps)
  have 2: "smem_step CrashAnywhere 1 ?w1 ?w3" by (rule smem_step.left_segment) (auto simp: third_attached_def segs_two_def example_simps)
  have "smem_reachable CrashAnywhere 1 ?w3" by (rule smem_reachable_step [OF smem_reachable_step [OF third_attached_reachable 1] 2])
  moreover have "st_of ?w3 (proc 3) = Attached 1 0" "shm_file ?w3 = None" "seg_processes (segs ?w3 1) = proc 3 # replicate (MAX_PIDS - 1) no_process" "proc 3 \<in> set (alive ?w3)"
    by (auto simp: third_attached_def segs_two_def example_simps shm_unlink_def)
  moreover from this(3,4) have "\<forall>m < MAX_PIDS. pi_pid (seg_processes (segs ?w3 1) ! m) \<noteq> 0 \<longrightarrow> seg_processes (segs ?w3 1) ! m \<in> set (alive ?w3)"
    by (auto simp: nth_Cons no_process_def split: nat.splits)
  ultimately show ?thesis by blast
qed

subsection \<open>Names and identifiers\<close>

lemma print_number_inj: "(print_number 10 m = print_number 10 n) = (m = n)"
proof
  assume e: "print_number 10 m = print_number 10 n"
  have "m = number_value 10 (print_number 10 m)" by (simp add: number_value_print)
  also have "\<dots> = number_value 10 (print_number 10 n)" unfolding e by (rule refl)
  also have "\<dots> = n" by (simp add: number_value_print)
  finally show "m = n" .
qed simp

lemma print_number_no_dash: "CHR ''-'' \<notin> set (print_number 10 n)"
proof
  assume "CHR ''-'' \<in> set (print_number 10 n)"
  then have "Toml.digit_value (CHR ''-'') < 10" by (intro print_number_digits) simp_all
  moreover have "Toml.digit_value (CHR ''-'') = 16" by code_simp
  ultimately show False by simp
qed

lemma append_dash_inj: "CHR ''-'' \<notin> set a \<Longrightarrow> CHR ''-'' \<notin> set b \<Longrightarrow> (a @ CHR ''-'' # x = b @ CHR ''-'' # y) = (a = b \<and> x = y)"
proof (induction a arbitrary: b)
  case (Cons c a)
  then show ?case by (cases b) auto
qed (auto simp: Cons_eq_append_conv)

text \<open>Processes with the same configured name share a segment as far as the isolation level says: none, those of the user, those of the group, or all; only the last two levels give access to others.\<close>

theorem isolation_level_decides:
  assumes "calculate_shared_memory_permissions level name uid gid pid = Some (mode, file)" "calculate_shared_memory_permissions level name uid' gid' pid' = Some (mode', file')"
  shows "(file = file') = (if level = ''process'' then uid = uid' \<and> pid = pid' else if level = ''user'' then uid = uid' else if level = ''group'' then gid = gid' else True) \<and>
    (level \<in> {''process'', ''user''} \<longrightarrow> mode = 6 * 8 ^ 2)"
proof -
  have dash: "(print_number 10 uid @ CHR ''-'' # CHR ''p'' # print_number 10 pid = print_number 10 uid' @ CHR ''-'' # CHR ''p'' # print_number 10 pid') = (uid = uid' \<and> pid = pid')"
    unfolding append_dash_inj [OF print_number_no_dash print_number_no_dash] by (simp add: print_number_inj)
  show ?thesis using assms dash by (auto simp: calculate_shared_memory_permissions_def print_number_inj split: if_splits)
qed

definition stat_field :: "bool \<times> nat \<Rightarrow> string" where
  "stat_field = (\<lambda>(neg, n). CHR '' '' # (if neg then ''-'' else []) @ print_number 10 n)"

lemma digit_is_digit: "Toml.digit_value c < 10 \<Longrightarrow> is_digit c"
  by (auto simp: Toml.digit_value_def hex_digit_def is_digit_def Let_def split: if_splits)

lemma scan_field:
  assumes "rest = [] \<or> \<not> is_digit (hd rest)"
  shows "\<exists>v. scan_int (stat_field f @ rest) = Some (v, rest)"
proof -
  obtain neg n where f: "f = (neg, n)" by fastforce
  let ?ds = "print_number 10 n"
  have d: "\<forall>c \<in> set ?ds. is_digit c" using print_number_digits [of 10] digit_is_digit by auto
  then have t: "takeWhile is_digit (?ds @ rest) = ?ds" "dropWhile is_digit (?ds @ rest) = rest" using assms by (cases rest; auto simp: takeWhile_tail)+
  have h: "is_digit (hd ?ds)" "?ds \<noteq> []" using d print_number_not_Nil [of 10 n] by auto
  then have hd: "\<not> is_space (hd ?ds)" "hd ?ds \<noteq> CHR ''-''" "hd ?ds \<noteq> CHR ''+''" using digit_chars(1-3) by auto
  have sp: "is_space (CHR '' '')" "\<not> is_space (CHR ''-'')" by (simp_all add: is_space_def)
  have "dropWhile is_space (stat_field f @ rest) = (if neg then ''-'' else []) @ ?ds @ rest"
    using sp h(2) hd(1) f by (cases ?ds) (auto simp: stat_field_def)
  then show ?thesis using t h(2) hd(2,3) by (cases neg) (auto simp: scan_int_def Let_def)
qed

lemma skip_fields:
  assumes "rest \<noteq> []" "\<not> is_digit (hd rest)"
  shows "skip_ints (length fs) (concat (map stat_field fs) @ rest) = Some rest"
proof (induction fs)
  case (Cons f fs)
  have "\<not> is_digit (hd (concat (map stat_field fs) @ rest))" using assms(2) by (cases fs) (auto simp: stat_field_def is_digit_def split: prod.splits)
  then show ?case using Cons scan_field [of "concat (map stat_field fs) @ rest" f] by auto
qed simp

lemma scan_number_blank: "scan_number base (CHR '' '' # s) = scan_number base s"
  by (simp add: scan_number_def is_space_def)

lemma scan_plain:
  assumes "rest = [] \<or> \<not> is_digit (hd rest)"
  shows "scan_int (print_number 10 n @ rest) = Some (int n, rest)"
proof -
  let ?ds = "print_number 10 n"
  have d: "\<forall>c \<in> set ?ds. is_digit c" using print_number_digits [of 10] digit_is_digit by auto
  then have t: "takeWhile is_digit (?ds @ rest) = ?ds" "dropWhile is_digit (?ds @ rest) = rest" using assms by (cases rest; auto simp: takeWhile_tail)+
  have h: "is_digit (hd ?ds)" "?ds \<noteq> []" using d print_number_not_Nil [of 10 n] by auto
  then have hd: "\<not> is_space (hd ?ds)" "hd ?ds \<noteq> CHR ''-''" "hd ?ds \<noteq> CHR ''+''" using digit_chars(1-3) by auto
  then have "dropWhile is_space (?ds @ rest) = ?ds @ rest" using h(2) by (cases ?ds) auto
  moreover have "Cpu_Bitset.digits_value ds = int (number_value 10 ds)" if "\<forall>c \<in> set ds. is_digit c" for ds
    using that by (induction ds rule: rev_induct) (auto simp: Cpu_Bitset.digits_value_def number_value_def digit_chars(5) is_digit_def of_nat_diff)
  ultimately show ?thesis using t h(2) hd(2,3) d number_value_print [of 10 n] by (auto simp: scan_int_def Let_def)
qed

text \<open>The start time is read from a line of /proc whatever the executable is called, also with blanks and parentheses in its name.\<close>

theorem proc_stat_parsed:
  assumes "length fs = 18" "st \<noteq> CHR '')''" "CHR '')'' \<notin> set rest" "rest = [] \<or> Toml.digit_value (hd rest) \<ge> 10" "0 < t" "t < 2 ^ 64"
  shows "parse_proc_stat (print_number 10 pid @ '' ('' @ comm @ '') '' @ [st] @ concat (map stat_field fs) @ stat_field (False, t) @ rest) =
    Some (Some \<lparr> start_time = t, pi_pid = int pid \<rparr>)"
proof -
  let ?tail = "stat_field (False, t) @ rest"
  let ?B = "CHR '' '' # st # concat (map stat_field fs) @ ?tail"
  let ?line = "print_number 10 pid @ '' ('' @ comm @ CHR '')'' # ?B"
  have digit_paren: "Toml.digit_value (CHR '')'') = 16" by code_simp
  have paren: "CHR '')'' \<notin> set (print_number 10 n)" for n
  proof
    assume "CHR '')'' \<in> set (print_number 10 n)"
    then have "Toml.digit_value (CHR '')'') < 10" by (intro print_number_digits) simp_all
    then show False using digit_paren by simp
  qed
  then have "CHR '')'' \<notin> set (stat_field f)" for f by (auto simp: stat_field_def split: prod.splits)
  then have B: "CHR '')'' \<notin> set ?B" using assms(2,3) by auto
  have last: "rev (takeWhile (\<lambda>c. c \<noteq> CHR '')'') (rev ?line)) = ?B"
  proof -
    have "rev ?line = rev ?B @ CHR '')'' # rev (print_number 10 pid @ '' ('' @ comm)" by simp
    moreover have "takeWhile (\<lambda>c. c \<noteq> CHR '')'') (xs @ CHR '')'' # ys) = xs" if "CHR '')'' \<notin> set xs" for xs ys using that by (induction xs) auto
    ultimately show ?thesis using B by (metis rev_rev_ident set_rev)
  qed
  have pid: "scan_int ?line = Some (int pid, '' ('' @ comm @ CHR '')'' # ?B)" using scan_plain [of "'' ('' @ comm @ CHR '')'' # ?B" pid] by (simp add: is_digit_def)
  have skip: "skip_ints 18 (concat (map stat_field fs) @ ?tail) = Some ?tail" using skip_fields [of ?tail fs] assms(1) by (simp add: stat_field_def is_digit_def)
  have n: "scan_number 10 ?tail = Some (False, 10, print_number 10 t, rest)"
    using scan_print_number [of 10 rest t] assms(4) scan_number_blank [of 10 "print_number 10 t @ rest"] by (auto simp: stat_field_def)
  have "fst (strtoull ?tail 10) = of_nat t" using n number_value_print [of 10 t] assms(6) by (simp add: strtoull_def)
  then have v: "unat (fst (strtoull ?tail 10)) = t" using assms(6) by (simp add: unsigned_of_nat take_bit_nat_eq_self)
  have line: "print_number 10 pid @ '' ('' @ comm @ '') '' @ [st] @ concat (map stat_field fs) @ stat_field (False, t) @ rest = ?line" by simp
  show ?thesis unfolding line parse_proc_stat_def pid last using skip n v assms(5) by (simp add: Let_def)
qed

text \<open>When /proc shows the lines of the running processes, \<open>get_process\<close> finds exactly these processes.\<close>

definition stat_line :: "process_identifier \<Rightarrow> string \<Rightarrow> char \<Rightarrow> (bool \<times> nat) list \<Rightarrow> string \<Rightarrow> string" where
  "stat_line p comm st fs rest =
     print_number 10 (nat (pi_pid p)) @ '' ('' @ comm @ '') '' @ [st] @ concat (map stat_field fs) @ stat_field (False, start_time p) @ rest"

definition shows_process :: "process_identifier \<Rightarrow> string \<Rightarrow> bool" where
  "shows_process p line =
     (0 < pi_pid p \<and> 0 < start_time p \<and> start_time p < 2 ^ 64 \<and>
      (\<exists>comm st fs rest. length fs = 18 \<and> st \<noteq> CHR '')'' \<and> CHR '')'' \<notin> set rest \<and> (rest = [] \<or> Toml.digit_value (hd rest) \<ge> 10) \<and> line = stat_line p comm st fs rest))"

theorem get_process_running:
  assumes "\<And>p. find (\<lambda>p. pi_pid p = pid) procs = Some p \<Longrightarrow> \<exists>line. proc_file pid = Some line \<and> shows_process p line"
    and "find (\<lambda>p. pi_pid p = pid) procs = None \<Longrightarrow> proc_file pid = None"
  shows "get_process proc_file pid = Some (running_process procs pid)"
proof (cases "find (\<lambda>p. pi_pid p = pid) procs")
  case None
  then show ?thesis using assms(2) by (simp add: get_process_def running_process_def)
next
  case (Some p)
  then obtain line where l: "proc_file pid = Some line" and p: "shows_process p line" using assms(1) by blast
  then obtain comm st fs rest where e: "length fs = 18" "st \<noteq> CHR '')''" "CHR '')'' \<notin> set rest" "rest = [] \<or> Toml.digit_value (hd rest) \<ge> 10"
    and t: "0 < start_time p" "start_time p < 2 ^ 64" "0 < pi_pid p" and line: "line = stat_line p comm st fs rest"
    unfolding shows_process_def by blast
  have "parse_proc_stat line = Some (Some \<lparr> start_time = start_time p, pi_pid = int (nat (pi_pid p)) \<rparr>)"
    unfolding line stat_line_def by (rule proc_stat_parsed [OF e t(1,2)])
  then have "parse_proc_stat line = Some (Some p)" using t(3) by simp
  then show ?thesis using Some l by (simp add: get_process_def running_process_def)
qed

end
