(* ===== verification/Spec2Isabelle.thy ===== *)
theory Spec2Isabelle
  imports Linked_List Spsc_Concurrent Mpsc Rb_Tree Governor Sync_Objects Slab_Correct Cpu_Ownership Bootstrap Binary_Heap Affinity Alpi Topology_Init_Ok Dtlock_Concurrent Config_Runtime Shared_Memory
begin

text \<open>
  \<^bold>\<open>nOS-V in Isabelle/HOL.\<close>

  nOS-V (src/) is a tasking library. Several processes attach to one segment of shared memory and share one scheduler: a CPU runs one worker thread at a time, of any of the processes, and a worker
  that has nothing to do, or whose process has used up its quantum, hands the CPU to another one. This development models the C sources as functions on explicit states and proves what each part
  promises. The paths below are relative to src/src/.

  \<^bold>\<open>The parts and how they interact.\<close> An application creates tasks and submits them (system/tasks.c). A submission enters a queue of its CPU (scheduler/mpsc.h over scheduler/spsc.h). The thread that
  holds the delegation lock (scheduler/dtlock.h) is the server: it moves submitted tasks into the scheduler of their process (scheduler/scheduler.c), chooses a task for itself and for every CPU
  that waits in the lock, and asks the governor (scheduler/governor.c) which idle CPUs sleep. A worker (hardware/threads.c) runs the task it is given; blocking operations (system/tasks.c,
  support/mutex.c, barrier.c, cond.c) hand its CPU over. Processes come and go in hardware/pids.c. Memory comes from the slab allocator (memory/slab.c) over whole pages (memory/backbone.c). At the
  start the library reads its configuration (config/config.c) and discovers the CPUs (hardware/topology.c).

  \<^bold>\<open>Conventions.\<close> A struct is a record and an enumeration a datatype with the names of the sources; a pointer is a number, or an option where it may be null. A function of the sources is a definition
  of the same name on the state it changes. A failed assertion, an abort, an access outside an array and a followed null pointer are \<^term>\<open>None\<close> (\<open>assert_then\<close> in \<open>Nosv_Prelude\<close>), so that a
  theorem with a result \<^term>\<open>Some x\<close> also says that no assertion fails. Machine integers whose overflow matters are words or wrap explicitly; counters that cannot overflow in practice (64-bit
  tickets) are unbounded, and the theory that has them says so. What comes from outside (clock, operating system, libnuma, files, callbacks, the outcome of a race) is an argument of the definitions.

  \<^bold>\<open>Theories.\<close>

  \<^item> \<open>Nosv_Prelude\<close>: machine types, \<open>assert_then\<close>, result codes, arithmetic of circular indices.

  \<^item> \<open>Linked_List\<close> (generic/list.h): the intrusive list on a heap of next and prev fields, as refinement of lists; locale \<open>intrusive_queue\<close>.

  \<^item> \<open>Rb_Tree\<close> (generic/tree.h): insertion and removal with both rebalancing loops; search-tree order and red-black balance are kept; locales \<open>ordered_store\<close> and \<open>keyed_comparator\<close>, interpreted in \<open>Task\<close>
    on the comparators of the scheduler.

  \<^item> \<open>Binary_Heap\<close> (generic/heap.h), \<open>Hash_Table\<close> (generic/hashtable.h, hashfunction.h; locale \<open>stack_map\<close>), \<open>Bounded_Queue\<close> (generic/ringbuffer.h, scheduler/spsc.h; locale \<open>bounded_fifo\<close> with two
    interpretations), \<open>Spsc_Concurrent\<close> (one producer and one consumer interleaved: elements arrive once and in order), \<open>Mpsc\<close> (scheduler/mpsc.h), \<open>Cpu_Bitset\<close> (generic/bitset.h,
    scheduler/cpubitset.h; locale \<open>cpu_set\<close>; the parser of CPU lists).

  \<^item> \<open>Dtlock\<close> (scheduler/dtlock.h, generic/futex.h): what the holder of the lock does. \<open>Dtlock_Concurrent\<close>: all threads together as the relation \<open>dt_step\<close>; mutual exclusion, no failing assertion, a
    waiting CPU gets the lock or its item, and every served item is read exactly once.

  \<^item> \<open>Governor\<close> (scheduler/governor.c): which waiting CPUs sleep and wake under each policy.

  \<^item> \<open>Task\<close> (include/nosv-internal.h, system/taskgroup.h), \<open>Sched_Queue\<close> (the ready queues: a list that turns into a tree of rings when priorities differ; locale \<open>stable_queue\<close>), \<open>Process_Sched\<close> (the
    queues of one process and the searches for a task), \<open>Process_Sched_Inv\<close> and \<open>Process_Search\<close> (the invariant: every task is in the queue of its affinity and counted, and what each search finds).

  \<^item> \<open>Scheduler\<close> (scheduler/scheduler.c): the scheduler of all processes. \<open>Scheduler_Inv\<close> (invariant; locale \<open>process_search\<close> with three interpretations), \<open>Scheduler_Ready\<close> (insertion),
    \<open>Scheduler_Purge\<close> (deadlines), \<open>Scheduler_Submit\<close> (submission), \<open>Scheduler_Correct\<close>: no task is lost or handed out twice, a CPU without a task means that no process has one it may run, quanta rotate.

  \<^item> \<open>Workers\<close>, \<open>Worker_Loop\<close> (hardware/threads.c, hardware/pids.c, hardware/eventqueue.h, generic/condvar.h), \<open>Tasks_Api\<close> (system/tasks.c), \<open>Task_Protocol\<close> (what the interface does with a task from its creation to its
    completion), \<open>Cpu_Ownership\<close> (all workers of all processes as a transition system: every CPU has one owner in every reachable state).

  \<^item> \<open>Sync_Objects\<close> (support/mutex.c, barrier.c, cond.c), \<open>Affinity\<close> (support/affinity.c, generic/cpuset.h), \<open>Alpi\<close> (alpi.c, error.c), \<open>Bootstrap\<close> (bootstrap.c).

  \<^item> \<open>Slab\<close> (memory/slab.c, memory/backbone.c) on an explicit memory, with the free lists threaded through the objects; \<open>Slab_Inv\<close> and \<open>Slab_Correct\<close> (locale \<open>block_allocator\<close>): blocks in use do not overlap
    and keep their content.

  \<^item> \<open>Shared_Memory\<close> (memory/sharedmemory.c, generic/proc.h): all processes that create, find, attach to, leave and unlink the segment, and that crash, as the relation \<open>smem_step\<close>. Without a crash
    under the file lock, an attached process keeps its slot and the components of its segment, only the last process unlinks it, and a process that starts attaches after at most two rounds;
    without any crash all processes share one segment. With a crash under the lock a segment in use can lose its name. That mapping fails is not modelled; the components are one flag.

  \<^item> \<open>Topology\<close> (include/hardware/topology.h: data and queries), \<open>Topology_Init\<close> (discovery of the hardware), \<open>Topology_Init_Ok\<close>: a discovery that succeeds gives the well-formed topology that the scheduler
    relies on.

  \<^item> \<open>Toml\<close> (config/toml.c: tables, raw values, strings and UTF-8), \<open>Config\<close> (config/config.c, include/config/configspec.h), \<open>Config_Correct\<close> (every accepted configuration is well-typed and in range;
    defaults, file and overrides in this order; overrides are read back), \<open>Config_Runtime\<close> (the scheduler and the tasks start with every accepted configuration).

  \<^bold>\<open>Loops and fuel.\<close> Loops over a container recurse on it or on its size. A \<open>foreach\<close> over a CPU set has NR_CPUS rounds, one for each bit. Searches in a process scheduler have the number of tasks as
    fuel, since every round removes one, and lemmas show that it suffices. The occupation of free CPUs has the number of CPUs and one more round; moving waiters in the lock has as many rounds as
    there are slots. A loop that waits for other threads takes the list of what they do before each round, and an attempt of a compare-and-exchange the list of the interfering actions; when the
    list is used up the function has not returned. The loops of Red-black trees, heaps and parsers are structural or have a termination proof.

  \<^bold>\<open>Not modelled.\<close> the parser of config/toml.c (vendored; its result is a parameter); hwcounters/ (wrappers of PAPI); monitoring/
  (floating-point statistics that nothing reads back); instr.c and include/instr.h (trace events); printing for debugging; the release of memory at the end (scheduler_free, topo_free, config_free). Of
  generic/tree.h the splay tree and the macros that nothing instantiates, of scheduler/dtlock.h the plain \<open>dtlock_lock\<close> that nothing calls. The interleaving of threads is modelled at the level of
  single accesses for the SPSC queue and the delegation lock, and at the level of critical sections for the mutex and the workers; weak memory is not modelled, the steps are sequentially consistent.
\<close>

end
